(* ===== verification/Prelude.thy ===== *)
theory Prelude
  imports Main "HOL-Library.Word"
begin

unbundle bit_operations_syntax

text \<open>
  Shared vocabulary of the development: the machine types of the C and Rust sources, the
  lemma collections the component proofs use, strictly ascending association lists (the
  abstract value of every ordered container), binary search, and ordered walks that a
  callback may stop.
\<close>

section \<open>Machine types\<close>

type_synonym u8 = "8 word"
type_synonym u16 = "16 word"
type_synonym u32 = "32 word"
type_synonym u64 = "64 word"

named_theorems digit_simps \<open>unsigned values of digit, remainder and mask operations\<close>
named_theorems alist_simps \<open>lookups in ascending association lists\<close>

lemma unat_less_256 [simp]: "unat (d :: u8) < 256"
  using unsigned_less [of d, where ?'a = nat] by simp

lemma unat_u8_inj: "unat (d :: u8) = unat d' \<longleftrightarrow> d = d'"
  by (simp add: word_unat_eq_iff)

lemma unat_of_nat_u8 [simp]: "n < 256 \<Longrightarrow> unat (of_nat n :: u8) = n"
  by (simp add: unat_of_nat take_bit_nat_eq_self)

section \<open>Ascending association lists\<close>

text \<open>
  Every ordered container is read as the list of its entries in ascending key order. Such
  a list is determined by its lookup function, so the correctness of an update is proved
  on lookups and carries over to the list.
\<close>

abbreviation asc :: "('k::linorder \<times> 'v) list \<Rightarrow> bool" where
  "asc xs \<equiv> sorted_wrt (<) (map fst xs)"

lemma asc_distinct: "asc xs \<Longrightarrow> distinct (map fst xs)"
  by (simp add: strict_sorted_iff)

lemma asc_tl: "asc (x # xs) \<Longrightarrow> asc xs"
  by simp

lemma asc_append:
  "asc (xs @ ys) \<longleftrightarrow> asc xs \<and> asc ys \<and> (\<forall>x\<in>set xs. \<forall>y\<in>set ys. fst x < fst y)"
  by (auto simp: sorted_wrt_append)

lemma asc_filter: "asc xs \<Longrightarrow> asc (filter P xs)"
  by (induction xs) auto

lemma asc_nth_less: "asc xs \<Longrightarrow> i < j \<Longrightarrow> j < length xs \<Longrightarrow> fst (xs ! i) < fst (xs ! j)"
  by (auto simp: sorted_wrt_iff_nth_less)

lemma map_of_asc_nth: "asc xs \<Longrightarrow> i < length xs \<Longrightarrow> map_of xs (fst (xs ! i)) = Some (snd (xs ! i))"
  by (metis asc_distinct map_of_eq_Some_iff nth_mem prod.collapse)

lemma map_of_eq_None_asc: "map_of xs k = None \<longleftrightarrow> k \<notin> fst ` set xs"
  by (simp add: map_of_eq_None_iff)

lemma asc_unique:
  assumes "asc xs" and "asc ys" and eq: "map_of xs = map_of ys"
  shows "xs = ys"
proof -
  have "set (map fst xs) = set (map fst ys)"
    using eq dom_map_of_conv_image_fst [of xs] dom_map_of_conv_image_fst [of ys] by simp
  then have keys: "map fst xs = map fst ys"
    using assms(1,2) strict_sorted_equal by metis
  moreover have "snd (xs ! i) = snd (ys ! i)" if "i < length xs" for i
  proof -
    have len: "i < length ys" using that keys by (metis length_map)
    have "fst (xs ! i) = fst (ys ! i)" using that len keys by (metis nth_map)
    then show ?thesis
      using map_of_asc_nth [OF assms(1) that] map_of_asc_nth [OF assms(2) len] eq by simp
  qed
  ultimately show ?thesis
    by (metis length_map nth_equalityI nth_map prod_eq_iff)
qed

lemma length_eq_card_dom: "asc xs \<Longrightarrow> length xs = card (dom (map_of xs))"
  by (metis asc_distinct distinct_card dom_map_of_conv_image_fst length_map list.set_map)

text \<open>Insertion, deletion and range selection on the abstract value.\<close>

definition al_ins :: "'k::linorder \<Rightarrow> 'v \<Rightarrow> ('k \<times> 'v) list \<Rightarrow> ('k \<times> 'v) list" where
  "al_ins k v xs = filter (\<lambda>p. fst p < k) xs @ (k, v) # filter (\<lambda>p. k < fst p) xs"

definition al_del :: "'k \<Rightarrow> ('k \<times> 'v) list \<Rightarrow> ('k \<times> 'v) list" where
  "al_del k xs = filter (\<lambda>p. fst p \<noteq> k) xs"

definition al_range :: "'k::linorder \<Rightarrow> 'k \<Rightarrow> ('k \<times> 'v) list \<Rightarrow> ('k \<times> 'v) list" where
  "al_range lo hi xs = filter (\<lambda>p. lo \<le> fst p \<and> fst p \<le> hi) xs"

definition al_outside :: "'k::linorder \<Rightarrow> 'k \<Rightarrow> ('k \<times> 'v) list \<Rightarrow> ('k \<times> 'v) list" where
  "al_outside lo hi xs = filter (\<lambda>p. \<not> (lo \<le> fst p \<and> fst p \<le> hi)) xs"

definition al_first :: "('k \<times> 'v) list \<Rightarrow> ('k \<times> 'v) option" where
  "al_first xs = (case xs of [] \<Rightarrow> None | x # _ \<Rightarrow> Some x)"

definition al_last :: "('k \<times> 'v) list \<Rightarrow> ('k \<times> 'v) option" where
  "al_last xs = (if xs = [] then None else Some (last xs))"

lemma map_of_filter_key:
  "map_of (filter (\<lambda>p. P (fst p)) xs) k = (if P k then map_of xs k else None)"
  by (induction xs) auto

lemmas map_of_filter_cmp =
  map_of_filter_key [where P = "\<lambda>x. x < k" for k]
  map_of_filter_key [where P = "\<lambda>x. k < x" for k]
  map_of_filter_key [where P = "\<lambda>x. x \<noteq> k" for k]

lemma map_of_al_ins [alist_simps]: "map_of (al_ins k v xs) = (map_of xs)(k \<mapsto> v)"
  by (auto simp: al_ins_def fun_eq_iff map_add_def map_of_filter_cmp split: option.splits)

lemma map_of_al_del [alist_simps]: "map_of (al_del k xs) = (map_of xs)(k := None)"
  by (auto simp: al_del_def fun_eq_iff map_of_filter_cmp)

lemma map_of_al_range [alist_simps]:
  "map_of (al_range lo hi xs) k = (if lo \<le> k \<and> k \<le> hi then map_of xs k else None)"
  unfolding al_range_def
  by (rule map_of_filter_key [where P = "\<lambda>x. lo \<le> x \<and> x \<le> hi"])

lemma map_of_al_outside [alist_simps]:
  "map_of (al_outside lo hi xs) k = (if lo \<le> k \<and> k \<le> hi then None else map_of xs k)"
  unfolding al_outside_def
  by (subst map_of_filter_key [where P = "\<lambda>x. \<not> (lo \<le> x \<and> x \<le> hi)"]) simp

lemma asc_al_ins: "asc xs \<Longrightarrow> asc (al_ins k v xs)"
  unfolding al_ins_def by (subst asc_append) (auto simp: asc_filter intro: less_trans)

lemma asc_al_del: "asc xs \<Longrightarrow> asc (al_del k xs)"
  by (simp add: al_del_def asc_filter)

lemma asc_al_range: "asc xs \<Longrightarrow> asc (al_range lo hi xs)"
  by (simp add: al_range_def asc_filter)

lemma asc_al_outside: "asc xs \<Longrightarrow> asc (al_outside lo hi xs)"
  by (simp add: al_outside_def asc_filter)

lemmas asc_intros = asc_al_ins asc_al_del asc_al_range asc_al_outside asc_filter

lemma length_al_ins:
  assumes "asc xs"
  shows "length (al_ins k v xs) = length xs + (if map_of xs k = None then 1 else 0)"
proof -
  have "finite (dom (map_of xs))" by (rule finite_dom_map_of)
  then show ?thesis
    using assms by (auto simp: length_eq_card_dom asc_al_ins map_of_al_ins card_insert_if domIff)
qed

lemma length_al_del:
  assumes "asc xs"
  shows "length (al_del k xs) = length xs - (if map_of xs k = None then 0 else 1)"
proof -
  have "finite (dom (map_of xs))" by (rule finite_dom_map_of)
  then show ?thesis
    using assms by (auto simp: length_eq_card_dom asc_al_del map_of_al_del card_Diff_singleton_if domIff)
qed

lemma al_range_outside_length: "length (al_range lo hi xs) + length (al_outside lo hi xs) = length xs"
  unfolding al_range_def al_outside_def by (rule sum_length_filter_compl)

text \<open>
  The sources insert into a packed array by shifting its tail up one slot and overwrite or
  remove by index; on the list of live elements this is insertion, update and removal at a
  position.
\<close>

definition insert_at :: "nat \<Rightarrow> 'a \<Rightarrow> 'a list \<Rightarrow> 'a list" where
  "insert_at i x xs = take i xs @ x # drop i xs"

definition remove_span :: "nat \<Rightarrow> nat \<Rightarrow> 'a list \<Rightarrow> 'a list" where
  "remove_span i j xs = take i xs @ drop j xs"

lemma length_insert_at [simp]: "length (insert_at i x xs) = Suc (length xs)"
  by (simp add: insert_at_def)

lemma set_insert_at [simp]: "set (insert_at i x xs) = insert x (set xs)"
proof -
  have "set (take i xs) \<union> set (drop i xs) = set xs"
    by (metis append_take_drop_id set_append)
  then show ?thesis by (auto simp: insert_at_def)
qed

lemma length_remove_span: "i \<le> j \<Longrightarrow> j \<le> length xs \<Longrightarrow> length (remove_span i j xs) = length xs - (j - i)"
  by (simp add: remove_span_def)

section \<open>The position of a key in an ascending list\<close>

definition lower_pos :: "'k::linorder \<Rightarrow> ('k \<times> 'v) list \<Rightarrow> nat" where
  "lower_pos k xs = length (takeWhile (\<lambda>p. fst p < k) xs)"

lemma lower_pos_le: "lower_pos k xs \<le> length xs"
  by (simp add: lower_pos_def length_takeWhile_le)

lemma lower_pos_less: "i < lower_pos k xs \<Longrightarrow> fst (xs ! i) < k"
  unfolding lower_pos_def by (metis nth_mem set_takeWhileD takeWhile_nth)

lemma lower_pos_ge: "asc xs \<Longrightarrow> lower_pos k xs \<le> i \<Longrightarrow> i < length xs \<Longrightarrow> k \<le> fst (xs ! i)"
proof -
  assume a: "asc xs" and le: "lower_pos k xs \<le> i" and i: "i < length xs"
  let ?n = "lower_pos k xs"
  have n: "?n < length xs" using le i by simp
  then have "\<not> fst (xs ! ?n) < k"
    unfolding lower_pos_def using nth_length_takeWhile by blast
  moreover have "fst (xs ! ?n) \<le> fst (xs ! i)"
    using asc_nth_less [OF a _ i] le by (cases "?n = i") (auto simp: le_less)
  ultimately show ?thesis by simp
qed

lemma lower_pos_eqI:
  assumes "asc xs" and "n \<le> length xs"
    and "\<And>i. i < n \<Longrightarrow> fst (xs ! i) < k" and "n < length xs \<Longrightarrow> k \<le> fst (xs ! n)"
  shows "n = lower_pos k xs"
proof (rule ccontr)
  assume "n \<noteq> lower_pos k xs"
  then consider "n < lower_pos k xs" | "lower_pos k xs < n" by linarith
  then show False
  proof cases
    case 1
    then show False using lower_pos_less [OF 1] assms(2,4) lower_pos_le [of k xs] by fastforce
  next
    case 2
    then show False using lower_pos_ge [OF assms(1), of k "lower_pos k xs"] assms(2,3) by fastforce
  qed
qed

lemma takeWhile_filter_asc: "asc xs \<Longrightarrow> takeWhile (\<lambda>p. fst p < k) xs = filter (\<lambda>p. fst p < k) xs"
proof (induction xs)
  case (Cons x xs)
  then have "filter (\<lambda>p. fst p < k) xs = []" if "\<not> fst x < k"
    using that by (auto simp: filter_empty_conv not_less intro: order.trans less_imp_le)
  with Cons show ?case by auto
qed simp

lemma dropWhile_filter_asc: "asc xs \<Longrightarrow> dropWhile (\<lambda>p. fst p < k) xs = filter (\<lambda>p. k \<le> fst p) xs"
proof (induction xs)
  case (Cons x xs)
  then have "filter (\<lambda>p. k \<le> fst p) xs = xs" if "\<not> fst x < k"
    using that by (auto simp: filter_id_conv not_less intro: order.trans less_imp_le)
  with Cons show ?case by auto
qed simp

lemma take_lower_pos: "asc xs \<Longrightarrow> take (lower_pos k xs) xs = filter (\<lambda>p. fst p < k) xs"
  unfolding lower_pos_def by (metis takeWhile_eq_take takeWhile_filter_asc)

lemma drop_lower_pos: "asc xs \<Longrightarrow> drop (lower_pos k xs) xs = filter (\<lambda>p. k \<le> fst p) xs"
  unfolding lower_pos_def by (metis dropWhile_eq_drop dropWhile_filter_asc)

lemma lower_pos_hit:
  assumes "asc xs"
  shows "lower_pos k xs < length xs \<and> fst (xs ! lower_pos k xs) = k \<longleftrightarrow> map_of xs k \<noteq> None" (is "?l \<longleftrightarrow> ?r")
proof
  assume ?l
  then show ?r using map_of_asc_nth [OF assms, of "lower_pos k xs"] by auto
next
  assume ?r
  then obtain j where j: "j < length xs" "fst (xs ! j) = k"
    by (auto simp: map_of_eq_None_iff in_set_conv_nth)
  then have "j = lower_pos k xs"
    by (intro lower_pos_eqI [OF assms]) (use asc_nth_less [OF assms] in auto)
  with j show ?l by simp
qed

lemma lower_pos_value:
  "asc xs \<Longrightarrow> lower_pos k xs < length xs \<Longrightarrow> fst (xs ! lower_pos k xs) = k \<Longrightarrow>
   map_of xs k = Some (snd (xs ! lower_pos k xs))"
  using map_of_asc_nth by fastforce

lemma insert_at_lower_pos:
  assumes "asc xs" and "map_of xs k = None"
  shows "insert_at (lower_pos k xs) (k, v) xs = al_ins k v xs"
proof -
  have "filter (\<lambda>p. k \<le> fst p) xs = filter (\<lambda>p. k < fst p) xs"
    using assms(2) by (auto simp: map_of_eq_None_iff le_less intro!: filter_cong)
  then show ?thesis
    by (simp add: insert_at_def al_ins_def take_lower_pos drop_lower_pos assms(1))
qed

lemma map_of_update_nth:
  assumes "asc xs" and "i < length xs"
  shows "map_of (xs[i := (fst (xs ! i), v)]) = (map_of xs)(fst (xs ! i) \<mapsto> v)"
proof -
  have keys: "map fst (xs[i := (fst (xs ! i), v)]) = map fst xs"
    by (simp add: map_update list_update_same_conv assms(2))
  then have d: "distinct (map fst (xs[i := (fst (xs ! i), v)]))"
    using asc_distinct [OF assms(1)] by simp
  show ?thesis
  proof
    fix k
    show "map_of (xs[i := (fst (xs ! i), v)]) k = ((map_of xs)(fst (xs ! i) \<mapsto> v)) k"
    proof (cases "k \<in> fst ` set xs")
      case True
      then obtain j where j: "j < length xs" "k = fst (xs ! j)"
        by (auto simp: in_set_conv_nth)
      have eq: "xs[i := (fst (xs ! i), v)] ! j = (k, if j = i then v else snd (xs ! j))"
        using j assms(2) by (auto simp: nth_list_update prod_eq_iff)
      then have "map_of (xs[i := (fst (xs ! i), v)]) k = Some (if j = i then v else snd (xs ! j))"
        using d j(1) by (metis length_list_update map_of_eq_Some_iff nth_mem)
      moreover have "j = i \<longleftrightarrow> k = fst (xs ! i)"
        using asc_distinct [OF assms(1)] j assms(2) by (metis length_map nth_eq_iff_index_eq nth_map)
      ultimately show ?thesis using map_of_asc_nth [OF assms(1) j(1)] j(2) by auto
    next
      case False
      moreover have "k \<notin> fst ` set (xs[i := (fst (xs ! i), v)])"
        using False keys by (metis list.set_map)
      moreover have "k \<noteq> fst (xs ! i)" using False assms(2) by auto
      ultimately show ?thesis by (simp add: map_of_eq_None_iff [THEN iffD2])
    qed
  qed
qed

lemma asc_update_nth: "asc xs \<Longrightarrow> i < length xs \<Longrightarrow> asc (xs[i := (fst (xs ! i), v)])"
  by (simp add: map_update) (metis length_map list_update_id nth_map)

lemma update_lower_pos:
  assumes "asc xs" and "lower_pos k xs < length xs" and "fst (xs ! lower_pos k xs) = k"
  shows "xs[lower_pos k xs := (k, v)] = al_ins k v xs"
proof (rule asc_unique)
  show "asc (xs[lower_pos k xs := (k, v)])"
    using asc_update_nth [OF assms(1,2), of v] assms(3) by simp
  show "map_of (xs[lower_pos k xs := (k, v)]) = map_of (al_ins k v xs)"
    using map_of_update_nth [OF assms(1,2), of v] assms(3) by (simp add: map_of_al_ins)
qed (rule asc_al_ins [OF assms(1)])

lemma remove_lower_pos:
  assumes "asc xs" and "lower_pos k xs < length xs" and "fst (xs ! lower_pos k xs) = k"
  shows "remove_span (lower_pos k xs) (Suc (lower_pos k xs)) xs = al_del k xs"
proof -
  have "drop (lower_pos k xs) xs = xs ! lower_pos k xs # drop (Suc (lower_pos k xs)) xs"
    using assms(2) by (simp add: Cons_nth_drop_Suc)
  moreover have "filter (\<lambda>p. fst p \<noteq> k) (drop (Suc (lower_pos k xs)) xs) = drop (Suc (lower_pos k xs)) xs"
    using asc_nth_less [OF assms(1), of "lower_pos k xs"] assms(3)
    by (auto simp: filter_id_conv in_set_conv_nth) (metis add_Suc_right less_add_Suc1
        less_diff_conv less_irrefl add.commute fst_conv)
  ultimately have "filter (\<lambda>p. fst p \<noteq> k) (drop (lower_pos k xs) xs) = drop (Suc (lower_pos k xs)) xs"
    using assms(3) by simp
  moreover have "filter (\<lambda>p. fst p \<noteq> k) (take (lower_pos k xs) xs) = take (lower_pos k xs) xs"
    unfolding take_lower_pos [OF assms(1), of k] by (auto intro!: filter_cong)
  moreover have "al_del k xs = filter (\<lambda>p. fst p \<noteq> k) (take (lower_pos k xs) xs) @
      filter (\<lambda>p. fst p \<noteq> k) (drop (lower_pos k xs) xs)"
    unfolding al_del_def by (metis append_take_drop_id filter_append)
  ultimately show ?thesis by (simp add: remove_span_def)
qed

section \<open>Binary search\<close>

text \<open>
  The engine's leaves, the sorted-array alternatives of the firmware harness and the
  sorted twin of the benchmark all search with the same halving loop and differ only in how
  the midpoint is written. The locale is that loop: a step function with any midpoint inside
  the window finds the first index whose key is not below the needle.
\<close>

locale binary_search =
  fixes mid :: "nat \<Rightarrow> nat \<Rightarrow> nat"
    and search :: "('k::linorder \<times> 'v) list \<Rightarrow> 'k \<Rightarrow> nat \<Rightarrow> nat \<Rightarrow> nat"
  assumes mid_bounds: "lo < hi \<Longrightarrow> lo \<le> mid lo hi \<and> mid lo hi < hi"
    and search_unfold: "search xs k lo hi =
      (if lo < hi
       then if fst (xs ! mid lo hi) < k then search xs k (mid lo hi + 1) hi
            else search xs k lo (mid lo hi)
       else lo)"
begin

lemma search_lower_pos:
  assumes "asc xs" and "lo \<le> lower_pos k xs" and "lower_pos k xs \<le> hi" and "hi \<le> length xs"
  shows "search xs k lo hi = lower_pos k xs"
  using assms(2-4)
proof (induction "hi - lo" arbitrary: lo hi rule: less_induct)
  case less
  show ?case
  proof (cases "lo < hi")
    case False
    then show ?thesis using less.prems by (simp add: search_unfold)
  next
    case True
    note m = mid_bounds [OF True]
    show ?thesis
    proof (cases "fst (xs ! mid lo hi) < k")
      case below: True
      have "\<not> lower_pos k xs \<le> mid lo hi"
        using lower_pos_ge [OF assms(1), of k "mid lo hi"] below m less.prems(3) by auto
      then have "search xs k (mid lo hi + 1) hi = lower_pos k xs"
        using m less.prems by (intro less.hyps) auto
      then show ?thesis using True below by (subst search_unfold) simp
    next
      case above: False
      have "\<not> mid lo hi < lower_pos k xs"
        using lower_pos_less [of "mid lo hi" k xs] above by auto
      then have "search xs k lo (mid lo hi) = lower_pos k xs"
        using m less.prems by (intro less.hyps) auto
      then show ?thesis using True above by (subst search_unfold) simp
    qed
  qed
qed

lemma search_whole: "asc xs \<Longrightarrow> search xs k 0 (length xs) = lower_pos k xs"
  by (rule search_lower_pos) (auto simp: lower_pos_le)

end

section \<open>Walks that a callback may stop\<close>

text \<open>
  A range walk calls its callback on each entry in turn and stops at the first entry the
  callback rejects. The callback's context is threaded through; the first component of the
  result is \<open>True\<close> when the walk reached the end.
\<close>

fun walk :: "('k \<Rightarrow> 'v \<Rightarrow> 's \<Rightarrow> bool \<times> 's) \<Rightarrow> ('k \<times> 'v) list \<Rightarrow> 's \<Rightarrow> bool \<times> 's" where
  "walk f [] s = (True, s)"
| "walk f (p # xs) s = (let (go, s') = f (fst p) (snd p) s in if go then walk f xs s' else (False, s'))"

lemma walk_append:
  "walk f (xs @ ys) s = (let (go, s') = walk f xs s in if go then walk f ys s' else (False, s'))"
  by (induction xs arbitrary: s) (auto split: prod.splits)

lemma walk_map_key:
  "walk f (map (\<lambda>p. (h (fst p), snd p)) xs) s = walk (\<lambda>k. f (h k)) xs s"
  by (induction xs arbitrary: s) (auto split: prod.splits)

lemma walk_total: "(\<And>k v s. fst (f k v s)) \<Longrightarrow> walk f xs s = (True, fold (\<lambda>p s. snd (f (fst p) (snd p) s)) xs s)"
  by (induction xs arbitrary: s) (auto split: prod.splits, metis fst_conv)

end
