(* ===== verification/Digits32.thy ===== *)
theory Digits32
  imports Prelude
begin

text \<open>
  Key decoding of the 32-bit engine (\<^verbatim>\<open>crates/expanse/src/trie32.rs\<close>): a subtree whose keys
  have \<open>kb\<close> undecoded bytes holds \<open>kb\<close>-byte remainders; a branch splits a remainder into its
  top digit and the child's remainder.
\<close>

section \<open>Digits and remainders\<close>

definition rem_mask :: "nat \<Rightarrow> u32" where
  "rem_mask kb = (if 4 \<le> kb then - 1 else push_bit (kb * 8) 1 - 1)"

definition digit_at :: "u32 \<Rightarrow> nat \<Rightarrow> u8" where
  "digit_at r kb = ucast (drop_bit ((kb - 1) * 8) r)"

definition child_rem :: "u32 \<Rightarrow> nat \<Rightarrow> u32" where
  "child_rem r kb = r AND rem_mask (kb - 1)"

definition combine :: "u8 \<Rightarrow> u32 \<Rightarrow> nat \<Rightarrow> u32" where
  "combine d c kb = push_bit ((kb - 1) * 8) (ucast d) OR c"

lemma pow_256: "(2::nat) ^ (n * 8) = 256 ^ n"
  by (simp add: mult.commute [of n] power_mult)

lemma unat_drop_bit: "unat (drop_bit n w) = unat w div 2 ^ n" for w :: "'a::len word"
proof -
  have "unat w < 2 ^ LENGTH('a)" by (rule unsigned_less)
  then show ?thesis
    by (simp add: unsigned_drop_bit_eq drop_bit_eq_div [where 'a = nat] take_bit_nat_eq_self)
qed

lemma unat_take_bit: "unat (take_bit n w) = unat w mod 2 ^ n" for w :: "'a::len word"
  by (simp add: unsigned_take_bit_eq take_bit_eq_mod [where 'a = nat])

lemma rem_mask_mask: "kb \<le> 4 \<Longrightarrow> rem_mask kb = mask (kb * 8)"
  by (cases "kb = 4") (auto simp: rem_mask_def mask_eq_decr_exp push_bit_eq_mult)

lemma unat_rem_mask [digit_simps]: "kb \<le> 4 \<Longrightarrow> unat (rem_mask kb) = 256 ^ kb - 1"
proof -
  assume "kb \<le> 4"
  then consider "kb = 0" | "kb = 1" | "kb = 2" | "kb = 3" | "kb = 4" by linarith
  then show ?thesis
    by cases (simp_all add: rem_mask_def push_bit_eq_mult unsigned_minus_1_eq_mask mask_eq_exp_minus_1)
qed

lemma le_rem_mask: "kb \<le> 4 \<Longrightarrow> r \<le> rem_mask kb \<longleftrightarrow> unat r < 256 ^ kb"
proof -
  assume kb: "kb \<le> 4"
  have "(0::nat) < 256 ^ kb" by simp
  then have "unat r \<le> 256 ^ kb - 1 \<longleftrightarrow> unat r < 256 ^ kb" by linarith
  then show ?thesis
    using kb by (simp add: word_le_nat_alt unat_rem_mask)
qed

lemma unat_digit_at [digit_simps]: "unat (digit_at r kb) = unat r div 256 ^ (kb - 1) mod 256"
  by (simp add: digit_at_def unsigned_ucast_eq unat_drop_bit take_bit_eq_mod [where 'a = nat]
      pow_256 [of "kb - 1", simplified])

lemma unat_child_rem [digit_simps]: "kb \<le> 4 \<Longrightarrow> unat (child_rem r kb) = unat r mod 256 ^ (kb - 1)"
proof -
  assume "kb \<le> 4"
  then have "child_rem r kb = take_bit ((kb - 1) * 8) r"
    by (simp add: child_rem_def rem_mask_mask take_bit_eq_mask)
  then show ?thesis
    by (simp add: unat_take_bit pow_256 [of "kb - 1", simplified])
qed

lemma unat_combine [digit_simps]:
  assumes kb: "1 \<le> kb" "kb \<le> 4" and c: "unat c < 256 ^ (kb - 1)"
  shows "unat (combine d c kb) = unat d * 256 ^ (kb - 1) + unat c"
proof -
  let ?n = "(kb - 1) * 8"
  have pow: "2 ^ ?n = (256::nat) ^ (kb - 1)"
    by (rule pow_256)
  have hi: "unat (push_bit ?n (ucast d :: u32)) = unat d * 256 ^ (kb - 1)"
  proof -
    have "unat d * 2 ^ ?n < 2 ^ (?n + 8)"
      using unat_less_256 [of d] by (simp add: power_add)
    also have "\<dots> \<le> (2::nat) ^ 32"
      using kb by (intro power_increasing) auto
    finally have "unat d * 2 ^ ?n < 2 ^ 32" .
    moreover have "unat d < 2 ^ 32" using unat_less_256 [of d] by (rule less_trans) simp
    ultimately show ?thesis
      by (simp add: unsigned_push_bit_eq push_bit_eq_mult [where 'a = nat] take_bit_nat_eq_self
          unsigned_ucast_eq pow_256 [of "kb - 1", simplified])
  qed
  have low: "\<not> bit c m" if "?n \<le> m" for m
  proof -
    have "take_bit ?n c = c"
      using c by (simp add: word_unat_eq_iff unat_take_bit pow_256 [of "kb - 1", simplified])
    then show ?thesis using that by (metis bit_take_bit_iff not_le)
  qed
  have "combine d c kb = push_bit ?n (ucast d) + c"
    unfolding combine_def by (rule disjunctive_add [symmetric]) (use low in \<open>auto simp: bit_push_bit_iff\<close>)
  moreover have "unat (push_bit ?n (ucast d :: u32)) + unat c < 2 ^ 32"
  proof -
    have "unat d * 256 ^ (kb - 1) + unat c < (unat d + 1) * 256 ^ (kb - 1)"
      using c by simp
    also have "\<dots> \<le> 256 * 256 ^ (kb - 1)"
      using unat_less_256 [of d] by (intro mult_right_mono) linarith+
    also have "\<dots> = 256 ^ kb" using kb by (cases kb) auto
    also have "\<dots> \<le> 256 ^ 4" using kb(2) by (rule power_increasing) simp
    finally show ?thesis unfolding hi by simp
  qed
  ultimately show ?thesis
    using unat_add_lem [of "push_bit ?n (ucast d)" c] by (simp only: hi len_num1 len_bit0 len_bit1 flip: hi) simp
qed

lemma digit_le_exp: "kb \<ge> 1 \<Longrightarrow> kb \<le> 4 \<Longrightarrow> unat c < 256 ^ (kb - 1) \<Longrightarrow> combine d c kb \<le> rem_mask kb"
proof -
  assume kb: "kb \<ge> 1" "kb \<le> 4" and c: "unat c < 256 ^ (kb - 1)"
  have "unat d * 256 ^ (kb - 1) + unat c < (unat d + 1) * 256 ^ (kb - 1)"
    using c by simp
  also have "\<dots> \<le> 256 * 256 ^ (kb - 1)"
    using unat_less_256 [of d] by (intro mult_right_mono) linarith+
  also have "\<dots> = 256 ^ kb" using kb by (cases kb) auto
  finally show ?thesis using kb c by (simp add: le_rem_mask unat_combine)
qed

text \<open>Splitting and reassembling are inverse, and the order of remainders is lexicographic.\<close>

lemma child_rem_bound: "1 \<le> kb \<Longrightarrow> kb \<le> 4 \<Longrightarrow> child_rem r kb \<le> rem_mask (kb - 1)"
  by (simp add: le_rem_mask unat_child_rem)

lemma digit_at_combine:
  "1 \<le> kb \<Longrightarrow> kb \<le> 4 \<Longrightarrow> c \<le> rem_mask (kb - 1) \<Longrightarrow> digit_at (combine d c kb) kb = d"
  by (simp add: le_rem_mask word_unat_eq_iff digit_simps)

lemma child_rem_combine:
  "1 \<le> kb \<Longrightarrow> kb \<le> 4 \<Longrightarrow> c \<le> rem_mask (kb - 1) \<Longrightarrow> child_rem (combine d c kb) kb = c"
  by (simp add: le_rem_mask word_unat_eq_iff digit_simps)

lemma combine_split:
  assumes "1 \<le> kb" "kb \<le> 4" "r \<le> rem_mask kb"
  shows "combine (digit_at r kb) (child_rem r kb) kb = r"
proof -
  have "unat r div 256 ^ (kb - 1) < 256"
  proof -
    have "unat r < 256 * 256 ^ (kb - 1)"
      using assms by (cases kb) (auto simp: le_rem_mask)
    then show ?thesis by (simp add: less_mult_imp_div_less)
  qed
  then show ?thesis
    using assms div_mult_mod_eq [of "unat r" "256 ^ (kb - 1)"]
    by (simp add: word_unat_eq_iff unat_combine unat_child_rem unat_digit_at)
qed

lemma combine_less_iff:
  assumes kb: "1 \<le> kb" "kb \<le> 4" and c: "c \<le> rem_mask (kb - 1)" "c' \<le> rem_mask (kb - 1)"
  shows "combine d c kb < combine d' c' kb \<longleftrightarrow> d < d' \<or> d = d' \<and> c < c'"
proof -
  let ?B = "256 ^ (kb - 1) :: nat"
  have b: "unat c < ?B" "unat c' < ?B" using kb c by (auto simp: le_rem_mask)
  have lex: "x * ?B + unat c < y * ?B + unat c' \<longleftrightarrow> x < y \<or> x = y \<and> unat c < unat c'" for x y
  proof (cases x y rule: linorder_cases)
    case less
    then have "(x + 1) * ?B \<le> y * ?B" by (intro mult_right_mono) linarith+
    with b less show ?thesis by auto
  next
    case greater
    then have "(y + 1) * ?B \<le> x * ?B" by (intro mult_right_mono) linarith+
    with b greater show ?thesis by auto
  qed auto
  show ?thesis
    using kb b lex [of "unat d" "unat d'"]
    by (auto simp: word_less_nat_alt unat_combine unat_u8_inj)
qed

lemma combine_eq_iff:
  "1 \<le> kb \<Longrightarrow> kb \<le> 4 \<Longrightarrow> c \<le> rem_mask (kb - 1) \<Longrightarrow> c' \<le> rem_mask (kb - 1) \<Longrightarrow>
   combine d c kb = combine d' c' kb \<longleftrightarrow> d = d' \<and> c = c'"
  by (metis digit_at_combine child_rem_combine)

lemma le_rem_mask_4 [simp]: "r \<le> rem_mask 4"
  by (simp add: rem_mask_def)

section \<open>Properties\<close>

text \<open>Splitting a remainder into its top digit and the child's remainder loses nothing, and it
  keeps the order: remainders compare as their digits do, and by the child's remainder under equal
  digits.\<close>

theorem digit_split_order:
  assumes "1 \<le> kb" and "kb \<le> 4" and "r \<le> rem_mask kb" and "s \<le> rem_mask kb"
  shows "combine (digit_at r kb) (child_rem r kb) kb = r \<and> child_rem r kb \<le> rem_mask (kb - 1) \<and>
    (r < s \<longleftrightarrow> digit_at r kb < digit_at s kb \<or> digit_at r kb = digit_at s kb \<and> child_rem r kb < child_rem s kb)"
proof -
  have "r < s \<longleftrightarrow> combine (digit_at r kb) (child_rem r kb) kb < combine (digit_at s kb) (child_rem s kb) kb"
    using combine_split assms by simp
  also have "\<dots> \<longleftrightarrow> digit_at r kb < digit_at s kb \<or> digit_at r kb = digit_at s kb \<and> child_rem r kb < child_rem s kb"
    by (rule combine_less_iff) (use assms child_rem_bound in auto)
  finally show ?thesis using combine_split [OF assms(1,2,3)] child_rem_bound [OF assms(1,2)] by simp
qed

theorem digit_split_order_witness:
  "combine (digit_at 0x1234 2) (child_rem 0x1234 2) 2 = 0x1234 \<and> child_rem 0x1234 2 \<le> rem_mask 1 \<and>
   ((0x1234 :: u32) < 0x1301 \<longleftrightarrow> digit_at 0x1234 2 < digit_at 0x1301 2 \<or>
      digit_at 0x1234 2 = digit_at 0x1301 2 \<and> child_rem 0x1234 2 < child_rem 0x1301 2)"
  using digit_split_order [of 2 "0x1234" "0x1301"] by (simp add: rem_mask_def push_bit_eq_mult)

end
