(* ===== verification/Bitmap_Array.thy ===== *)
theory Bitmap_Array
  imports Digits32
begin

text \<open>
  The bitmap-indexed arrays of the 32-bit engine: a 256-bit presence bitmap in four 64-bit
  words and eight rank-ordered subarrays, one per 32 digits. Map bitmap leaves hold values in
  them (\<^verbatim>\<open>LeafBitmapL32Data\<close>) and bitmap branches hold child edges (\<^verbatim>\<open>BranchB32Data\<close>). A
  subarray is represented by its live entries; the filler up to its capacity class, which no
  access reads, is left out. The element at a digit sits at the number of set bits below the
  digit in its 32-bit half word.
\<close>

datatype 'a barr = BArr (bitmap: "u64 list") (subarrays: "'a list list")

section \<open>Rank and population of a subarray\<close>

definition count_ones :: "'a::len word \<Rightarrow> nat" where
  "count_ones w = length (filter (bit w) [0..<LENGTH('a)])"

definition bitmap_sub_rank :: "u64 \<Rightarrow> u8 \<Rightarrow> nat" where
  "bitmap_sub_rank word digit =
    (let bit64 = unat (digit AND 63);
         sub_base = unat (digit AND 32);
         bit_mask = push_bit bit64 1
     in count_ones (word AND ((bit_mask - 1) AND push_bit sub_base (NOT 0))))"

definition bitmap_sub_pop :: "u64 \<Rightarrow> u8 \<Rightarrow> nat" where
  "bitmap_sub_pop word digit =
    (let sub_base = unat (digit AND 32)
     in count_ones (drop_bit sub_base word AND 0xFFFFFFFF))"

text \<open>Set bits of a word in ascending order: the order of the engine's
  \<^verbatim>\<open>trailing_zeros\<close> / \<^verbatim>\<open>word &= word - 1\<close> loops.\<close>

definition set_bits :: "u64 \<Rightarrow> nat list" where
  "set_bits w = filter (bit w) [0..<64]"

section \<open>Operations\<close>

definition barr_test :: "'a barr \<Rightarrow> u8 \<Rightarrow> bool" where
  "barr_test b d = ((bitmap b ! unat (drop_bit 6 d)) AND push_bit (unat (d AND 63)) 1 \<noteq> 0)"

definition barr_rank :: "'a barr \<Rightarrow> u8 \<Rightarrow> nat" where
  "barr_rank b d = bitmap_sub_rank (bitmap b ! unat (drop_bit 6 d)) d"

definition barr_get :: "'a barr \<Rightarrow> u8 \<Rightarrow> 'a option" where
  "barr_get b d =
    (if barr_test b d then Some (subarrays b ! unat (drop_bit 5 d) ! barr_rank b d) else None)"

definition barr_put :: "'a barr \<Rightarrow> u8 \<Rightarrow> 'a \<Rightarrow> 'a barr" where
  "barr_put b d x =
    (let sub = unat (drop_bit 5 d)
     in BArr (bitmap b) ((subarrays b)[sub := (subarrays b ! sub)[barr_rank b d := x]]))"

definition barr_insert :: "'a barr \<Rightarrow> u8 \<Rightarrow> 'a \<Rightarrow> 'a barr" where
  "barr_insert b d x =
    (let w = unat (drop_bit 6 d); sub = unat (drop_bit 5 d)
     in BArr ((bitmap b)[w := bitmap b ! w OR push_bit (unat (d AND 63)) 1])
             ((subarrays b)[sub := insert_at (barr_rank b d) x (subarrays b ! sub)]))"

definition barr_remove :: "'a barr \<Rightarrow> u8 \<Rightarrow> 'a barr" where
  "barr_remove b d =
    (let w = unat (drop_bit 6 d); sub = unat (drop_bit 5 d); r = barr_rank b d
     in BArr ((bitmap b)[w := bitmap b ! w AND NOT (push_bit (unat (d AND 63)) 1)])
             ((subarrays b)[sub := remove_span r (Suc r) (subarrays b ! sub)]))"

definition barr_pairs :: "'a barr \<Rightarrow> (u8 \<times> 'a) list" where
  "barr_pairs b = concat (map (\<lambda>w. map (\<lambda>i.
      let digit = of_nat (w * 64 + i)
      in (digit, subarrays b ! unat (drop_bit 5 digit) ! bitmap_sub_rank (bitmap b ! w) digit))
      (set_bits (bitmap b ! w))) [0..<4])"

definition bm_set :: "u64 list \<Rightarrow> u8 \<Rightarrow> u64 list" where
  "bm_set bm d = bm[unat (drop_bit 6 d) := bm ! unat (drop_bit 6 d) OR push_bit (unat (d AND 63)) 1]"

definition barr_make :: "(u8 \<times> 'a) list \<Rightarrow> 'a barr" where
  "barr_make ps = BArr
     (fold (\<lambda>(d, _). \<lambda>bm. bm_set bm d) ps [0, 0, 0, 0])
     (map (\<lambda>sub. map snd (filter (\<lambda>(d, _). sub * 32 \<le> unat d \<and> unat d \<le> sub * 32 + 31) ps)) [0..<8])"

section \<open>Bit positions as numbers\<close>

definition has :: "'a barr \<Rightarrow> nat \<Rightarrow> bool" where
  "has b n = bit (bitmap b ! (n div 64)) (n mod 64)"

definition cnt :: "(nat \<Rightarrow> bool) \<Rightarrow> nat \<Rightarrow> nat \<Rightarrow> nat" where
  "cnt P a b = length (filter P [a..<b])"

lemma cnt_split: "a \<le> m \<Longrightarrow> m \<le> b \<Longrightarrow> cnt P a b = cnt P a m + cnt P m b"
  unfolding cnt_def by (metis filter_append length_append upt_add_eq_append le_Suc_ex)

lemma cnt_same [simp]: "cnt P a a = 0"
  by (simp add: cnt_def)

lemma cnt_single: "cnt P n (Suc n) = (if P n then 1 else 0)"
  by (simp add: cnt_def)

lemma cnt_less: "a \<le> n \<Longrightarrow> n < m \<Longrightarrow> P n \<Longrightarrow> cnt P a n < cnt P a m"
  using cnt_split [of a n m P] cnt_split [of n "Suc n" m P] by (simp add: cnt_single)

lemma cnt_mono: "n \<le> m \<Longrightarrow> a \<le> n \<Longrightarrow> cnt P a n \<le> cnt P a m"
  using cnt_split [of a n m P] by simp

lemma cnt_cong: "(\<And>i. a \<le> i \<Longrightarrow> i < b \<Longrightarrow> P i = Q i) \<Longrightarrow> cnt P a b = cnt Q a b"
  unfolding cnt_def by (intro arg_cong [where f = length] filter_cong) auto

lemma cnt_none: "(\<And>i. a \<le> i \<Longrightarrow> i < b \<Longrightarrow> \<not> P i) \<Longrightarrow> cnt P a b = 0"
  unfolding cnt_def by (simp add: filter_empty_conv)

lemma cnt_shift: "cnt P (c + a) (c + b) = cnt (\<lambda>i. P (c + i)) a b"
proof -
  have "filter P (map (\<lambda>i. c + i) [a..<b]) = map (\<lambda>i. c + i) (filter (\<lambda>i. P (c + i)) [a..<b])"
    by (simp add: filter_map comp_def)
  moreover have "map (\<lambda>i. c + i) [a..<b] = [c + a..<c + b]"
    by (induction b) (auto simp: le_Suc_eq)
  ultimately show ?thesis by (simp add: cnt_def)
qed

lemma cnt_fun_upd:
  assumes "a \<le> b"
  shows "cnt (P(n := v)) a b + (if a \<le> n \<and> n < b \<and> P n then 1 else 0)
       = cnt P a b + (if a \<le> n \<and> n < b \<and> v then 1 else 0)"
proof (cases "a \<le> n \<and> n < b")
  case True
  have c: "cnt (P(n := v)) a n = cnt P a n" "cnt (P(n := v)) (Suc n) b = cnt P (Suc n) b"
    by (auto intro: cnt_cong)
  have e: "cnt Q a b = cnt Q a n + (cnt Q n (Suc n) + cnt Q (Suc n) b)" for Q
    using True cnt_split [of a n b Q] cnt_split [of n "Suc n" b Q] by simp
  show ?thesis
    using True c e [of P] e [of "P(n := v)"] by (simp add: cnt_single split: if_splits)
next
  case False
  then have "cnt (P(n := v)) a b = cnt P a b" by (auto intro!: cnt_cong)
  with False show ?thesis by auto
qed

lemma unat_drop_6 [digit_simps]: "unat (drop_bit 6 (d :: u8)) = unat d div 64"
  by (simp add: unat_drop_bit)

lemma unat_drop_5 [digit_simps]: "unat (drop_bit 5 (d :: u8)) = unat d div 32"
  by (simp add: unat_drop_bit)

lemma unat_and_63 [digit_simps]: "unat ((d :: u8) AND 63) = unat d mod 64"
proof -
  have "(63 :: u8) = mask 6" by (simp add: mask_eq_decr_exp)
  then have "d AND 63 = take_bit 6 d" by (simp add: take_bit_eq_mask)
  then show ?thesis by (simp add: unat_take_bit)
qed

lemma unat_and_32 [digit_simps]: "unat ((d :: u8) AND 32) = 32 * (unat d div 32 mod 2)"
proof -
  have "d AND push_bit 5 1 = (if bit d 5 then push_bit 5 1 else 0)"
    by (rule bit_word_eqI) (auto simp: bit_and_iff bit_push_bit_iff bit_1_iff simp del: push_bit_of_1)
  moreover have "bit d 5 \<longleftrightarrow> odd (unat d div 32)"
    using bit_unsigned_iff [of d 5, where 'a = nat] bit_iff_odd [of "unat d" 5] by simp
  ultimately show ?thesis by (simp add: mod2_eq_if)
qed

lemma bit_rank_mask:
  "bit ((push_bit n 1 - 1) AND push_bit m (NOT 0) :: u64) i \<longleftrightarrow> m \<le> i \<and> i < n \<and> i < 64"
  unfolding push_bit_of_1 mask_eq_decr_exp [symmetric]
  by (auto simp: bit_and_iff bit_mask_iff bit_push_bit_iff bit_not_iff)

lemma bitmap_sub_rank_cnt: "bitmap_sub_rank w d = cnt (bit w) (32 * (unat d div 32 mod 2)) (unat d mod 64)"
proof -
  let ?a = "32 * (unat d div 32 mod 2)" and ?b = "unat d mod 64"
  have ab: "?a \<le> ?b" using mod_mult2_eq [of "unat d" 32 2] by simp
  have "bitmap_sub_rank w d = cnt (\<lambda>i. bit w i \<and> ?a \<le> i \<and> i < ?b) 0 64"
    unfolding bitmap_sub_rank_def Let_def count_ones_def cnt_def unat_and_63 unat_and_32
    by (intro arg_cong [where f = length] filter_cong) 
      (simp, auto simp only: bit_and_iff [of w] bit_rank_mask set_upt atLeastLessThan_iff)
  also have "\<dots> = cnt (\<lambda>i. bit w i \<and> ?a \<le> i \<and> i < ?b) ?a ?b"
    using ab cnt_split [of 0 ?a 64] cnt_split [of ?a ?b 64] cnt_none by simp
  also have "\<dots> = cnt (bit w) ?a ?b" by (rule cnt_cong) simp
  finally show ?thesis .
qed

section \<open>The array as a function of the digit\<close>

definition wf_barr :: "'a barr \<Rightarrow> bool" where
  "wf_barr b \<longleftrightarrow> length (bitmap b) = 4 \<and> length (subarrays b) = 8 \<and>
     (\<forall>s<8. length (subarrays b ! s) = cnt (has b) (32 * s) (32 * s + 32))"

definition rank_of :: "'a barr \<Rightarrow> nat \<Rightarrow> nat" where
  "rank_of b n = cnt (has b) (32 * (n div 32)) n"

definition elem :: "'a barr \<Rightarrow> nat \<Rightarrow> 'a" where
  "elem b n = subarrays b ! (n div 32) ! rank_of b n"

lemma cnt_word_has: "a \<le> 64 \<Longrightarrow> c \<le> 64 \<Longrightarrow> cnt (bit (bitmap b ! w)) a c = cnt (has b) (64 * w + a) (64 * w + c)"
  unfolding cnt_shift by (rule cnt_cong) (simp add: has_def)

lemma barr_rank_eq: "barr_rank b d = rank_of b (unat d)"
proof -
  let ?n = "unat d"
  have n: "64 * (?n div 64) + ?n mod 64 = ?n" by simp
  moreover have "?n div 64 = ?n div 32 div 2" by (simp add: div_mult2_eq [symmetric])
  then have "64 * (?n div 64) + 32 * (?n div 32 mod 2) = 32 * (?n div 32)"
    using mult_div_mod_eq [of 2 "?n div 32"] by linarith
  ultimately show ?thesis
    unfolding barr_rank_def rank_of_def bitmap_sub_rank_cnt unat_drop_6
    by (subst cnt_word_has) (simp_all add: mod2_eq_if)
qed

lemma bit_push_1: "k < 64 \<Longrightarrow> bit (push_bit k 1 :: u64) i \<longleftrightarrow> i = k"
  by (auto simp: bit_push_bit_iff bit_1_iff simp del: push_bit_of_1)

lemma barr_test_eq: "barr_test b d = has b (unat d)"
proof -
  let ?w = "bitmap b ! (unat d div 64)" and ?k = "unat d mod 64"
  have "?w AND push_bit ?k 1 = (if bit ?w ?k then push_bit ?k 1 else 0)"
    by (rule bit_word_eqI) (auto simp: bit_and_iff bit_push_1 simp del: push_bit_of_1)
  moreover have "(push_bit ?k 1 :: u64) \<noteq> 0"
    using bit_push_1 [of ?k ?k] by fastforce
  ultimately show ?thesis
    unfolding barr_test_def has_def unat_and_63 unat_drop_6 by (simp del: push_bit_of_1)
qed

lemma barr_get_eq: "barr_get b d = (if has b (unat d) then Some (elem b (unat d)) else None)"
  by (simp add: barr_get_def barr_test_eq elem_def barr_rank_eq digit_simps)

lemma of_nat_u8_less: "n < 256 \<Longrightarrow> m < 256 \<Longrightarrow> (of_nat n :: u8) < of_nat m \<longleftrightarrow> n < m"
  by (simp add: word_less_nat_alt)

lemma map_of_digits:
  "(\<And>n. n \<in> set ns \<Longrightarrow> n < 256) \<Longrightarrow>
   map_of (map (\<lambda>n. (of_nat n :: u8, f n)) ns) d = (if unat d \<in> set ns then Some (f (unat d)) else None)"
  by (induction ns) (auto simp: word_unat_eq_iff)

lemma word_pairs:
  "w < 4 \<Longrightarrow> map (\<lambda>i. let digit = of_nat (w * 64 + i)
      in (digit :: u8, subarrays b ! unat (drop_bit 5 digit) ! bitmap_sub_rank (bitmap b ! w) digit))
      (set_bits (bitmap b ! w)) = map (\<lambda>n. (of_nat n, elem b n)) (filter (has b) [64 * w..<64 * w + 64])"
proof -
  assume w: "w < 4"
  have upt: "[64 * w..<64 * w + 64] = map (\<lambda>i. w * 64 + i) [0..<64]"
    by (rule nth_equalityI) (auto simp: algebra_simps)
  have eq: "subarrays b ! unat (drop_bit 5 (of_nat (w * 64 + i) :: u8)) ! bitmap_sub_rank (bitmap b ! w) (of_nat (w * 64 + i))
      = elem b (w * 64 + i)" if "i < 64" for i
  proof -
    have lt: "w * 64 + i < 256" using w that by simp
    have "bitmap_sub_rank (bitmap b ! w) (of_nat (w * 64 + i)) = barr_rank b (of_nat (w * 64 + i))"
      unfolding barr_rank_def unat_drop_6 unat_of_nat_u8 [OF lt] using that by simp
    then show ?thesis
      unfolding unat_drop_5 unat_of_nat_u8 [OF lt] by (simp only: barr_rank_eq unat_of_nat_u8 [OF lt] elem_def)
  qed
  have "filter (has b) [64 * w..<64 * w + 64] = map (\<lambda>i. w * 64 + i) (set_bits (bitmap b ! w))"
    unfolding upt filter_map set_bits_def comp_def
    by (intro arg_cong [where f = "map _"] filter_cong) (auto simp: has_def)
  then show ?thesis
    using eq by (auto simp: Let_def set_bits_def simp del: of_nat_add of_nat_mult)
qed

lemma concat_words: "concat (map (\<lambda>w. filter P [64 * w..<64 * w + 64]) [0..<m]) = filter P [0..<64 * m]"
proof (induction m)
  case (Suc m)
  have "[0..<64 * Suc m] = [0..<64 * m] @ [64 * m..<64 * m + 64]"
    using upt_add_eq_append [of 0 "64 * m" 64] by (simp add: add.commute)
  with Suc show ?case by simp
qed simp

lemma barr_pairs_eq: "barr_pairs b = map (\<lambda>n. (of_nat n, elem b n)) (filter (has b) [0..<256])"
proof -
  have "barr_pairs b = concat (map (\<lambda>w. map (\<lambda>n. (of_nat n, elem b n)) (filter (has b) [64 * w..<64 * w + 64])) [0..<4])"
    unfolding barr_pairs_def by (intro arg_cong [where f = concat] map_cong refl word_pairs) simp
  also have "\<dots> = map (\<lambda>n. (of_nat n, elem b n)) (filter (has b) [0..<64 * 4])"
    unfolding concat_words [symmetric] map_concat by (simp only: list.map_comp comp_def)
  finally show ?thesis by simp
qed

lemma asc_digits:
  "sorted_wrt (<) ns \<Longrightarrow> (\<And>n. n \<in> set ns \<Longrightarrow> n < 256) \<Longrightarrow> asc (map (\<lambda>n. (of_nat n :: u8, f n)) ns)"
  by (induction ns) (auto simp: of_nat_u8_less)

lemma asc_barr_pairs: "asc (barr_pairs b)"
  unfolding barr_pairs_eq by (rule asc_digits) (simp_all only: sorted_wrt_filter sorted_wrt_upt set_filter set_upt mem_Collect_eq atLeastLessThan_iff)

lemma map_of_barr_pairs: "map_of (barr_pairs b) d = barr_get b d"
  unfolding barr_pairs_eq by (subst map_of_digits) (auto simp: barr_get_eq)

lemma length_barr_pairs: "length (barr_pairs b) = cnt (has b) 0 256"
  by (simp add: barr_pairs_eq cnt_def)

section \<open>Laws of the updates\<close>

lemma nth_insert_at_low: "i < r \<Longrightarrow> r \<le> length xs \<Longrightarrow> insert_at r x xs ! i = xs ! i"
  by (simp add: insert_at_def nth_append)

lemma nth_insert_at_here: "r \<le> length xs \<Longrightarrow> insert_at r x xs ! r = x"
  by (simp add: insert_at_def nth_append)

lemma nth_insert_at_high: "r \<le> i \<Longrightarrow> i < length xs \<Longrightarrow> insert_at r x xs ! Suc i = xs ! i"
  by (simp add: insert_at_def nth_append min_def Suc_diff_le)

lemma nth_remove_low: "i < r \<Longrightarrow> r \<le> length xs \<Longrightarrow> remove_span r (Suc r) xs ! i = xs ! i"
  by (simp add: remove_span_def nth_append)

lemma nth_remove_high: "r \<le> i \<Longrightarrow> Suc i < length xs \<Longrightarrow> remove_span r (Suc r) xs ! i = xs ! Suc i"
  by (simp add: remove_span_def nth_append min_def)

lemma has_put [simp]: "has (barr_put b d x) = has b"
  by (simp add: barr_put_def has_def fun_eq_iff Let_def)

lemma has_insert: "length (bitmap b) = 4 \<Longrightarrow> has (barr_insert b d x) = (has b)(unat d := True)"
proof (rule ext)
  fix n
  assume len: "length (bitmap b) = 4"
  have w: "unat d div 64 < 4" using unat_less_256 [of d] by linarith
  show "has (barr_insert b d x) n = ((has b)(unat d := True)) n"
    unfolding barr_insert_def has_def Let_def unat_and_63 unat_drop_6 barr.sel
    by (cases "n div 64 = unat d div 64"; cases "n mod 64 = unat d mod 64")
      (use len w div_mod_decomp [of n 64] div_mod_decomp [of "unat d" 64] in
        \<open>auto simp: bit_or_iff bit_push_1 simp del: push_bit_of_1\<close>)
qed

lemma has_remove: "length (bitmap b) = 4 \<Longrightarrow> has (barr_remove b d) = (has b)(unat d := False)"
proof (rule ext)
  fix n
  assume len: "length (bitmap b) = 4"
  have w: "unat d div 64 < 4" using unat_less_256 [of d] by linarith
  show "has (barr_remove b d) n = ((has b)(unat d := False)) n"
    unfolding barr_remove_def has_def Let_def unat_and_63 unat_drop_6 barr.sel
    by (cases "n div 64 = unat d div 64"; cases "n mod 64 = unat d mod 64")
      (use len w div_mod_decomp [of n 64] div_mod_decomp [of "unat d" 64] in
        \<open>auto simp: bit_and_iff bit_not_iff bit_push_1 simp del: push_bit_of_1\<close>)
qed

lemma rank_less:
  assumes "wf_barr b" and "has b n" and "n < 256"
  shows "rank_of b n < length (subarrays b ! (n div 32))"
proof -
  have "n div 32 < 8" using assms(3) by simp
  then have "length (subarrays b ! (n div 32)) = cnt (has b) (32 * (n div 32)) (32 * (n div 32) + 32)"
    using assms(1) by (simp add: wf_barr_def)
  moreover have "n < 32 * (n div 32) + 32" using div_mod_decomp [of n 32] mod_less_divisor [of 32 n] by linarith
  ultimately show ?thesis
    unfolding rank_of_def using assms(2) by (simp add: cnt_less)
qed

lemma rank_le:
  assumes "wf_barr b" and "n < 256"
  shows "rank_of b n \<le> length (subarrays b ! (n div 32))"
proof -
  have "n div 32 < 8" using assms(2) by simp
  then have "length (subarrays b ! (n div 32)) = cnt (has b) (32 * (n div 32)) (32 * (n div 32) + 32)"
    using assms(1) by (simp add: wf_barr_def)
  moreover have "n \<le> 32 * (n div 32) + 32" using div_mod_decomp [of n 32] mod_less_divisor [of 32 n] by linarith
  ultimately show ?thesis
    unfolding rank_of_def by (simp add: cnt_mono)
qed

lemma rank_mono:
  "has b n \<Longrightarrow> n < m \<Longrightarrow> n div 32 = m div 32 \<Longrightarrow> rank_of b n < rank_of b m"
  unfolding rank_of_def by (metis cnt_less times_div_less_eq_dividend)

lemma rank_upd:
  assumes "has b' = (has b)(m := v)" and "has b m \<noteq> v" and "n div 32 = m div 32"
  shows "rank_of b' n = (if m < n then (if v then Suc (rank_of b n) else rank_of b n - 1) else rank_of b n)"
proof -
  have "32 * (n div 32) \<le> m" "32 * (n div 32) \<le> n"
    using assms(3) by (simp_all add: times_div_less_eq_dividend)
  then show ?thesis
    using cnt_fun_upd [of "32 * (n div 32)" n "has b" m v] assms(1,2)
    by (auto simp: rank_of_def split: if_splits)
qed

lemma rank_upd_other:
  assumes "has b' = (has b)(m := v)" and "n div 32 \<noteq> m div 32"
  shows "rank_of b' n = rank_of b n"
  unfolding rank_of_def
proof (rule cnt_cong)
  fix i
  assume i: "32 * (n div 32) \<le> i" "i < n"
  then have "i div 32 = n div 32" by (simp add: div_le_mono le_antisym less_eq_div_iff_mult_less_eq mult.commute)
  with assms show "has b' i = has b i" by auto
qed

lemma subarrays_put:
  "subarrays (barr_put b d x) =
   (subarrays b)[unat d div 32 := (subarrays b ! (unat d div 32))[rank_of b (unat d) := x]]"
  by (simp add: barr_put_def Let_def barr_rank_eq digit_simps)

lemma subarrays_insert:
  "subarrays (barr_insert b d x) =
   (subarrays b)[unat d div 32 := insert_at (rank_of b (unat d)) x (subarrays b ! (unat d div 32))]"
  by (simp add: barr_insert_def Let_def barr_rank_eq digit_simps)

lemma subarrays_remove:
  "subarrays (barr_remove b d) = (subarrays b)[unat d div 32 :=
     remove_span (rank_of b (unat d)) (Suc (rank_of b (unat d))) (subarrays b ! (unat d div 32))]"
  by (simp add: barr_remove_def Let_def barr_rank_eq digit_simps)

lemma length_bitmap [simp]:
  "length (bitmap (barr_put b d x)) = length (bitmap b)"
  "length (bitmap (barr_insert b d x)) = length (bitmap b)"
  "length (bitmap (barr_remove b d)) = length (bitmap b)"
  by (simp_all add: barr_put_def barr_insert_def barr_remove_def Let_def)

lemma sub_less [simp]: "unat (d :: u8) div 32 < 8"
  using unat_less_256 [of d] by linarith

lemma elem_put:
  assumes "wf_barr b" and "has b (unat d)" and "has b n" and "n < 256"
  shows "elem (barr_put b d x) n = (if n = unat d then x else elem b n)"
proof -
  let ?m = "unat d"
  have len: "?m div 32 < length (subarrays b)" using assms(1) by (simp add: wf_barr_def sub_less)
  have r: "rank_of b ?m < length (subarrays b ! (?m div 32))" by (rule rank_less [OF assms(1,2) unat_less_256])
  have same: "rank_of (barr_put b d x) n = rank_of b n" by (simp add: rank_of_def)
  note sub = subarrays_put [of b d x]
  show ?thesis
  proof (cases "n div 32 = ?m div 32")
    case True
    have "rank_of b n = rank_of b ?m \<longleftrightarrow> n = ?m"
      using rank_mono [OF assms(2), of n] rank_mono [OF assms(3), of ?m] True by (cases n ?m rule: linorder_cases) auto
    then show ?thesis using True len r by (auto simp: elem_def same sub nth_list_update)
  next
    case False
    then show ?thesis by (auto simp: elem_def same sub)
  qed
qed

lemma wf_put: "wf_barr b \<Longrightarrow> wf_barr (barr_put b d x)"
  unfolding wf_barr_def has_put by (auto simp: subarrays_put nth_list_update)

lemma elem_insert:
  assumes "wf_barr b" and "\<not> has b (unat d)" and "n = unat d \<or> has b n" and "n < 256"
  shows "elem (barr_insert b d x) n = (if n = unat d then x else elem b n)"
proof -
  let ?m = "unat d" and ?b = "barr_insert b d x"
  have h: "has ?b = (has b)(?m := True)" using assms(1) by (simp add: has_insert wf_barr_def)
  have len: "?m div 32 < length (subarrays b)" using assms(1) by (simp add: wf_barr_def sub_less)
  have r: "rank_of b ?m \<le> length (subarrays b ! (?m div 32))" by (rule rank_le [OF assms(1) unat_less_256])
  note sub = subarrays_insert [of b d x]
  show ?thesis
  proof (cases "n div 32 = ?m div 32")
    case True
    have rn: "n \<noteq> ?m \<Longrightarrow> rank_of b n < length (subarrays b ! (n div 32))" using rank_less [OF assms(1) _ assms(4)] assms(3) by blast
    have le: "?m < n \<Longrightarrow> rank_of b ?m \<le> rank_of b n"
      unfolding rank_of_def True by (metis cnt_mono less_imp_le times_div_less_eq_dividend)
    have ru: "rank_of ?b n = (if ?m < n then Suc (rank_of b n) else rank_of b n)"
      using rank_upd [OF h _ True] assms(2) by simp
    show ?thesis
      using True len r rn le ru assms(3) rank_mono [of b n ?m]
      by (cases n ?m rule: linorder_cases)
        (auto simp: elem_def sub nth_insert_at_low nth_insert_at_here nth_insert_at_high)
  next
    case False
    then show ?thesis by (auto simp: elem_def sub rank_upd_other [OF h False])
  qed
qed

lemma sub_bounds: "s < 8 \<Longrightarrow> 32 * s \<le> unat (d :: u8) \<and> unat d < 32 * s + 32 \<longleftrightarrow> s = unat d div 32"
  by linarith

lemma wf_insert:
  assumes "wf_barr b" and "\<not> has b (unat d)"
  shows "wf_barr (barr_insert b d x)"
proof -
  have h: "has (barr_insert b d x) = (has b)(unat d := True)" using assms(1) by (simp add: has_insert wf_barr_def)
  have "length (subarrays (barr_insert b d x) ! s) = cnt (has (barr_insert b d x)) (32 * s) (32 * s + 32)" if "s < 8" for s
    using assms that cnt_fun_upd [of "32 * s" "32 * s + 32" "has b" "unat d" True] sub_bounds [OF that, of d]
    by (auto simp: h wf_barr_def subarrays_insert nth_list_update)
  then show ?thesis
    using assms(1) by (auto simp: wf_barr_def subarrays_insert)
qed

lemma elem_remove:
  assumes "wf_barr b" and "has b (unat d)" and "n \<noteq> unat d" and "has b n" and "n < 256"
  shows "elem (barr_remove b d) n = elem b n"
proof -
  let ?m = "unat d" and ?b = "barr_remove b d"
  have h: "has ?b = (has b)(?m := False)" using assms(1) by (simp add: has_remove wf_barr_def)
  have len: "?m div 32 < length (subarrays b)" using assms(1) by (simp add: wf_barr_def sub_less)
  have r: "rank_of b ?m < length (subarrays b ! (?m div 32))" by (rule rank_less [OF assms(1,2) unat_less_256])
  note sub = subarrays_remove [of b d]
  show ?thesis
  proof (cases "n div 32 = ?m div 32")
    case True
    have rn: "rank_of b n < length (subarrays b ! (n div 32))" by (rule rank_less [OF assms(1,4,5)])
    have ru: "rank_of ?b n = (if ?m < n then rank_of b n - 1 else rank_of b n)"
      using rank_upd [OF h _ True] assms(2) by simp
    show ?thesis
    proof (cases "n < ?m")
      case low: True
      then show ?thesis
        using True len r ru rank_mono [OF assms(4) low True] by (simp add: elem_def sub nth_remove_low)
    next
      case False
      then have "rank_of b ?m < rank_of b n" using rank_mono [OF assms(2), of n] True assms(3) by simp
      then have "rank_of b ?m \<le> rank_of b n - 1" and "Suc (rank_of b n - 1) = rank_of b n" by linarith+
      then show ?thesis
        using False assms(3) True len rn ru nth_remove_high [of "rank_of b ?m" "rank_of b n - 1"]
        by (simp add: elem_def sub)
    qed
  next
    case False
    then show ?thesis by (auto simp: elem_def sub rank_upd_other [OF h False])
  qed
qed

lemma wf_remove:
  assumes "wf_barr b" and "has b (unat d)"
  shows "wf_barr (barr_remove b d)"
proof -
  have h: "has (barr_remove b d) = (has b)(unat d := False)" using assms(1) by (simp add: has_remove wf_barr_def)
  have r: "rank_of b (unat d) < length (subarrays b ! (unat d div 32))" by (rule rank_less [OF assms unat_less_256])
  have "length (subarrays (barr_remove b d) ! s) = cnt (has (barr_remove b d)) (32 * s) (32 * s + 32)" if "s < 8" for s
    using assms that r cnt_fun_upd [of "32 * s" "32 * s + 32" "has b" "unat d" False] sub_bounds [OF that, of d]
    by (auto simp: h wf_barr_def subarrays_remove nth_list_update length_remove_span, linarith)
  then show ?thesis
    using assms(1) by (auto simp: wf_barr_def subarrays_remove)
qed

theorem barr_get_put:
  "wf_barr b \<Longrightarrow> barr_test b d \<Longrightarrow> barr_get (barr_put b d x) = (barr_get b)(d \<mapsto> x)"
  by (auto simp: fun_eq_iff barr_get_eq barr_test_eq elem_put word_unat_eq_iff)

theorem barr_get_insert:
  "wf_barr b \<Longrightarrow> \<not> barr_test b d \<Longrightarrow> barr_get (barr_insert b d x) = (barr_get b)(d \<mapsto> x)"
  by (auto simp: fun_eq_iff barr_get_eq barr_test_eq elem_insert has_insert wf_barr_def word_unat_eq_iff)

theorem barr_get_remove:
  "wf_barr b \<Longrightarrow> barr_test b d \<Longrightarrow> barr_get (barr_remove b d) = (barr_get b)(d := None)"
  by (auto simp: fun_eq_iff barr_get_eq barr_test_eq elem_remove has_remove wf_barr_def word_unat_eq_iff)

section \<open>Building an array from its entries\<close>

text \<open>The make routines of the engine set the bit of every digit and cut the values of each
  32-digit span out of the ascending input.\<close>

lemma has_bm_set: "length bm = 4 \<Longrightarrow> has (BArr (bm_set bm d) s) = (has (BArr bm s))(unat d := True)"
  using has_insert [of "BArr bm s" d] by (simp add: barr_insert_def Let_def bm_set_def has_def fun_eq_iff)

lemma has_fold_bm_set:
  "length bm = 4 \<Longrightarrow> has (BArr (fold (\<lambda>(d, _). \<lambda>bm. bm_set bm d) ps bm) s) n \<longleftrightarrow> has (BArr bm s) n \<or> n \<in> unat ` fst ` set ps"
proof (induction ps arbitrary: bm)
  case (Cons p ps)
  have "length (bm_set bm (fst p)) = 4" using Cons.prems by (simp add: bm_set_def)
  from Cons.IH [OF this] show ?case using Cons.prems by (auto simp: has_bm_set split_beta)
qed simp

lemma nth_filter_cnt: "a \<le> n \<Longrightarrow> n < c \<Longrightarrow> P n \<Longrightarrow> filter P [a..<c] ! cnt P a n = n"
proof -
  assume "a \<le> n" "n < c" "P n"
  then have "[a..<c] = [a..<n] @ n # [Suc n..<c]"
    using upt_add_eq_append [of a n "c - n"] by (simp add: upt_conv_Cons)
  then show ?thesis using \<open>P n\<close> by (simp add: nth_append cnt_def)
qed

lemma has_make: "n < 256 \<Longrightarrow> has (barr_make ps) n \<longleftrightarrow> n \<in> unat ` fst ` set ps"
proof -
  assume "n < 256"
  then have "n div 64 < 4" by linarith
  then consider "n div 64 = 0" | "n div 64 = 1" | "n div 64 = 2" | "n div 64 = 3" by linarith
  then have "[0, 0, 0, 0] ! (n div 64) = (0 :: u64)" by cases simp_all
  then have "\<not> has (BArr [0, 0, 0, 0] s) n" for s :: "'a list list" by (simp add: has_def)
  then show ?thesis unfolding barr_make_def by (subst has_fold_bm_set) auto
qed

definition span :: "nat \<Rightarrow> (u8 \<times> 'a) list \<Rightarrow> (u8 \<times> 'a) list" where
  "span sub ps = filter (\<lambda>(d, _). sub * 32 \<le> unat d \<and> unat d \<le> sub * 32 + 31) ps"

lemma subarrays_make: "s < 8 \<Longrightarrow> subarrays (barr_make ps) ! s = map snd (span s ps)"
  by (simp add: barr_make_def span_def)

lemma span_keys:
  assumes "asc ps" and "s < 8"
  shows "map (unat \<circ> fst) (span s ps) = filter (has (barr_make ps)) [32 * s..<32 * s + 32]"
proof (rule sorted_distinct_set_unique)
  have "sorted_wrt (<) (map (unat \<circ> fst) (span s ps))"
    using asc_filter [OF assms(1), of "\<lambda>(d, _). s * 32 \<le> unat d \<and> unat d \<le> s * 32 + 31"]
    by (simp add: span_def sorted_wrt_map word_less_nat_alt)
  then show "sorted (map (unat \<circ> fst) (span s ps))" "distinct (map (unat \<circ> fst) (span s ps))"
    by (simp_all add: strict_sorted_iff)
  have "n < 256" if "n < 32 * s + 32" for n using that assms(2) by linarith
  then show "set (map (unat \<circ> fst) (span s ps)) = set (filter (has (barr_make ps)) [32 * s..<32 * s + 32])"
    unfolding span_def
    apply (auto simp: has_make)
    subgoal by force
    subgoal for a b by (rule rev_image_eqI [of "(a, b)"]) auto
    done
qed (simp_all add: sorted_wrt_filter)

lemma wf_make: assumes "asc ps" shows "wf_barr (barr_make ps)"
proof -
  have len: "length (fold (\<lambda>(d, _). \<lambda>bm. bm_set bm d) ps bm) = length bm" for bm :: "u64 list"
    by (induction ps arbitrary: bm) (auto simp: bm_set_def)
  have "length (subarrays (barr_make ps) ! s) = cnt (has (barr_make ps)) (32 * s) (32 * s + 32)" if "s < 8" for s
    using span_keys [OF assms that] unfolding subarrays_make [OF that] cnt_def by (metis length_map)
  then show ?thesis
    by (simp add: wf_barr_def) (simp add: barr_make_def len)
qed

theorem barr_get_make: assumes "asc ps" shows "barr_get (barr_make ps) = map_of ps"
proof
  fix d :: u8
  let ?b = "barr_make ps" and ?n = "unat d" and ?s = "unat d div 32"
  show "barr_get ?b d = map_of ps d"
  proof (cases "has ?b ?n")
    case True
    let ?r = "rank_of ?b ?n"
    have keys: "map (unat \<circ> fst) (span ?s ps) = filter (has ?b) [32 * ?s..<32 * ?s + 32]"
      by (rule span_keys [OF assms sub_less])
    have r: "?r < length (span ?s ps)"
      using rank_less [OF wf_make [OF assms] True unat_less_256] by (simp add: subarrays_make)
    have "map (unat \<circ> fst) (span ?s ps) ! ?r = ?n"
      unfolding keys rank_of_def using sub_bounds [OF sub_less, of d] True by (intro nth_filter_cnt) auto
    then have "fst (span ?s ps ! ?r) = d" using r by (simp add: unat_u8_inj)
    moreover have "elem ?b ?n = snd (span ?s ps ! ?r)" using r by (simp add: elem_def subarrays_make)
    moreover have "span ?s ps ! ?r \<in> set ps" using nth_mem [OF r] unfolding span_def by simp
    ultimately show ?thesis
      using True asc_distinct [OF assms] by (metis barr_get_eq map_of_is_SomeI prod.collapse)
  next
    case False
    then have "d \<notin> fst ` set ps" by (auto simp: has_make)
    with False show ?thesis by (simp add: barr_get_eq map_of_eq_None_iff [THEN iffD2])
  qed
qed

corollary barr_pairs_make: "asc ps \<Longrightarrow> barr_pairs (barr_make ps) = ps"
  by (rule asc_unique) (simp_all add: asc_barr_pairs map_of_barr_pairs barr_get_make fun_eq_iff)

corollary barr_pairs_updates:
  assumes "wf_barr b"
  shows "barr_test b d \<Longrightarrow> barr_pairs (barr_put b d x) = al_ins d x (barr_pairs b)"
    and "\<not> barr_test b d \<Longrightarrow> barr_pairs (barr_insert b d x) = al_ins d x (barr_pairs b)"
    and "barr_test b d \<Longrightarrow> barr_pairs (barr_remove b d) = al_del d (barr_pairs b)"
  by (auto intro!: asc_unique asc_intros asc_barr_pairs
      simp: assms fun_eq_iff map_of_barr_pairs barr_get_put barr_get_insert barr_get_remove map_of_al_ins map_of_al_del)

lemma barr_test_get: "barr_test b d \<longleftrightarrow> barr_get b d \<noteq> None"
  by (simp add: barr_get_def)

lemmas wf_barr_intros = wf_put wf_insert wf_remove wf_make

section \<open>Properties\<close>

text \<open>C11. The rank of a digit within its subarray is the number of present digits of the subarray
  below it, so an insertion shifts the values behind the new one and no others: the array then
  answers the new value at the digit and is unchanged elsewhere, and a removal undoes it.\<close>

theorem barr_insert_remove:
  assumes "wf_barr b" and "\<not> barr_test b d"
  shows "wf_barr (barr_insert b d x) \<and> barr_get (barr_insert b d x) = (barr_get b)(d \<mapsto> x) \<and>
    wf_barr (barr_remove (barr_insert b d x) d) \<and> barr_get (barr_remove (barr_insert b d x) d) = barr_get b"
proof -
  have w: "wf_barr (barr_insert b d x)" using assms by (simp add: wf_insert barr_test_eq)
  have g: "barr_get (barr_insert b d x) = (barr_get b)(d \<mapsto> x)" by (rule barr_get_insert [OF assms])
  then have t: "barr_test (barr_insert b d x) d" by (simp add: barr_test_get)
  have "barr_get b d = None" using assms(2) by (simp add: barr_test_get)
  then show ?thesis using w g t wf_remove [OF w t [unfolded barr_test_eq]] barr_get_remove [OF w t] by (auto simp: fun_eq_iff)
qed

theorem barr_insert_remove_witness:
  "let b = barr_make [(3, 30), (200, 40 :: nat)]
   in wf_barr (barr_insert b 7 50) \<and> barr_get (barr_insert b 7 50) = (barr_get b)(7 \<mapsto> 50) \<and>
      wf_barr (barr_remove (barr_insert b 7 50) 7) \<and> barr_get (barr_remove (barr_insert b 7 50) 7) = barr_get b"
  unfolding Let_def by (rule barr_insert_remove) (simp_all add: wf_barr_intros barr_test_get barr_get_make)

end
