(* ===== verification/Branch32.thy ===== *)
theory Branch32
  imports Bitmap_Array
begin

text \<open>
  The branch nodes of the 32-bit engine (\<^verbatim>\<open>crates/expanse/src/trie32.rs\<close>): a branch routes a digit
  to a child edge and comes in four forms, two linear ones with room for two and six children, a
  bitmap form and an uncompressed form with 256 slots. A branch is promoted when it is full and
  demoted, one or two children below the promotion point, when it thins out. The theory is
  generic in the type of child edges. Arena handles are replaced by the nodes they name; a null
  child slot of an uncompressed branch is \<^term>\<open>None\<close>, and so is the null edge that replaces a branch
  whose last child is removed.
\<close>

section \<open>Tables indexed by a digit\<close>

text \<open>
  What the engine relies on, for each storage form: lookups after an overwrite of a present
  digit, an insertion of an absent one and a removal, and an enumeration in digit order.
\<close>

locale digit_table =
  fixes inv :: "'t \<Rightarrow> bool"
    and get :: "'t \<Rightarrow> u8 \<Rightarrow> 'e option"
    and put :: "'t \<Rightarrow> u8 \<Rightarrow> 'e \<Rightarrow> 't"
    and insert_new :: "'t \<Rightarrow> u8 \<Rightarrow> 'e \<Rightarrow> 't"
    and remove :: "'t \<Rightarrow> u8 \<Rightarrow> 't"
    and pairs :: "'t \<Rightarrow> (u8 \<times> 'e) list"
  assumes asc_pairs: "inv t \<Longrightarrow> asc (pairs t)"
    and map_of_pairs: "inv t \<Longrightarrow> map_of (pairs t) d = get t d"
    and inv_put: "inv t \<Longrightarrow> get t d \<noteq> None \<Longrightarrow> inv (put t d x)"
    and get_put: "inv t \<Longrightarrow> get t d \<noteq> None \<Longrightarrow> get (put t d x) = (get t)(d \<mapsto> x)"
    and inv_insert: "inv t \<Longrightarrow> get t d = None \<Longrightarrow> inv (insert_new t d x)"
    and get_insert: "inv t \<Longrightarrow> get t d = None \<Longrightarrow> get (insert_new t d x) = (get t)(d \<mapsto> x)"
    and inv_remove: "inv t \<Longrightarrow> get t d \<noteq> None \<Longrightarrow> inv (remove t d)"
    and get_remove: "inv t \<Longrightarrow> get t d \<noteq> None \<Longrightarrow> get (remove t d) = (get t)(d := None)"
begin

lemma pairs_put: "inv t \<Longrightarrow> get t d \<noteq> None \<Longrightarrow> pairs (put t d x) = al_ins d x (pairs t)"
  by (rule asc_unique)
    (simp_all add: asc_pairs inv_put asc_al_ins map_of_al_ins map_of_pairs get_put fun_eq_iff)

lemma pairs_insert: "inv t \<Longrightarrow> get t d = None \<Longrightarrow> pairs (insert_new t d x) = al_ins d x (pairs t)"
  by (rule asc_unique)
    (simp_all add: asc_pairs inv_insert asc_al_ins map_of_al_ins map_of_pairs get_insert fun_eq_iff)

lemma pairs_remove: "inv t \<Longrightarrow> get t d \<noteq> None \<Longrightarrow> pairs (remove t d) = al_del d (pairs t)"
  by (rule asc_unique)
    (simp_all add: asc_pairs inv_remove asc_al_del map_of_al_del map_of_pairs get_remove fun_eq_iff)

end

text \<open>The linear forms: an ascending array of digits beside an array of edges.\<close>

fun put_digit :: "(u8 \<times> 'e) list \<Rightarrow> u8 \<Rightarrow> 'e \<Rightarrow> (u8 \<times> 'e) list" where
  "put_digit [] d c = []"
| "put_digit (p # ps) d c = (if fst p = d then (d, c) # ps else p # put_digit ps d c)"

definition insert_pair_sorted :: "(u8 \<times> 'e) list \<Rightarrow> u8 \<Rightarrow> 'e \<Rightarrow> (u8 \<times> 'e) list" where
  "insert_pair_sorted ps d c = insert_at (length (takeWhile (\<lambda>p. fst p < d) ps)) (d, c) ps"

fun remove_pair :: "(u8 \<times> 'e) list \<Rightarrow> u8 \<Rightarrow> (u8 \<times> 'e) list" where
  "remove_pair [] d = []"
| "remove_pair (p # ps) d = (if fst p = d then ps else p # remove_pair ps d)"

lemma keys_put_digit: "map fst (put_digit ps d c) = map fst ps"
  by (induction ps) auto

lemma map_of_put_digit: "map_of ps d \<noteq> None \<Longrightarrow> map_of (put_digit ps d c) = (map_of ps)(d \<mapsto> c)"
  by (induction ps) (auto simp: fun_eq_iff)

lemma insert_pair_sorted_ins: "asc ps \<Longrightarrow> map_of ps d = None \<Longrightarrow> insert_pair_sorted ps d c = al_ins d c ps"
  using insert_at_lower_pos [of ps d c] by (simp add: insert_pair_sorted_def lower_pos_def)

lemma remove_pair_del: "asc ps \<Longrightarrow> remove_pair ps d = al_del d ps"
proof (induction ps)
  case (Cons p ps)
  then have "al_del d ps = ps" if "fst p = d"
    using that by (auto simp: al_del_def filter_id_conv)
  with Cons show ?case by (auto simp: al_del_def)
qed (simp add: al_del_def)

interpretation linear: digit_table asc map_of put_digit insert_pair_sorted remove_pair "\<lambda>ps. ps"
  by unfold_locales
    (simp_all only: keys_put_digit map_of_put_digit simp_thms insert_pair_sorted_ins remove_pair_del
      asc_al_ins asc_al_del map_of_al_ins map_of_al_del)

text \<open>The bitmap form.\<close>

interpretation bitmap_table: digit_table wf_barr barr_get barr_put barr_insert barr_remove barr_pairs
  by unfold_locales
    (simp_all add: asc_barr_pairs map_of_barr_pairs wf_barr_intros barr_get_put barr_get_insert
      barr_get_remove barr_test_get flip: barr_test_eq)

text \<open>The uncompressed form: 256 slots.\<close>

definition slots_get :: "'e option list \<Rightarrow> u8 \<Rightarrow> 'e option" where
  "slots_get us d = us ! unat d"

definition slots_put :: "'e option list \<Rightarrow> u8 \<Rightarrow> 'e \<Rightarrow> 'e option list" where
  "slots_put us d c = us[unat d := Some c]"

definition slots_clear :: "'e option list \<Rightarrow> u8 \<Rightarrow> 'e option list" where
  "slots_clear us d = us[unat d := None]"

definition slots_pairs :: "'e option list \<Rightarrow> (u8 \<times> 'e) list" where
  "slots_pairs us = map (\<lambda>n. (of_nat n, the (us ! n))) (filter (\<lambda>n. us ! n \<noteq> None) [0..<256])"

definition slots_inv :: "'e option list \<Rightarrow> bool" where
  "slots_inv us \<longleftrightarrow> length us = 256"

lemma asc_slots_pairs: "asc (slots_pairs us)"
  unfolding slots_pairs_def by (rule asc_digits)
    (simp_all only: sorted_wrt_filter sorted_wrt_upt set_filter set_upt mem_Collect_eq atLeastLessThan_iff)

lemma map_of_slots_pairs: "map_of (slots_pairs us) d = slots_get us d"
  unfolding slots_pairs_def slots_get_def
  by (subst map_of_digits)
    (simp_all only: set_filter set_upt mem_Collect_eq atLeastLessThan_iff, auto)

interpretation slots: digit_table slots_inv slots_get slots_put slots_put slots_clear slots_pairs
  by unfold_locales
    (auto simp: asc_slots_pairs map_of_slots_pairs slots_inv_def fun_eq_iff slots_get_def slots_put_def
      slots_clear_def nth_list_update unat_u8_inj)

section \<open>Branches\<close>

datatype 'e branch =
    L2 u32 "(u8 \<times> 'e) list"
  | L6 u32 "(u8 \<times> 'e) list"
  | B u32 nat "'e barr"
  | U u32 nat "'e option list"

text \<open>The thresholds of \<^verbatim>\<open>types32.rs\<close>.\<close>

definition BRANCH_L2_CAP :: nat where "BRANCH_L2_CAP = 2"
definition BRANCH_L6_CAP :: nat where "BRANCH_L6_CAP = 6"
definition BRANCH_L6_DOWN :: nat where "BRANCH_L6_DOWN = 1"
definition BRANCH_B_TO_UNCOMPRESSED :: nat where "BRANCH_B_TO_UNCOMPRESSED = 192"
definition BRANCH_B_DOWN :: nat where "BRANCH_B_DOWN = 5"
definition BRANCH_U_DOWN :: nat where "BRANCH_U_DOWN = 190"

lemmas branch_consts = BRANCH_L2_CAP_def BRANCH_L6_CAP_def BRANCH_L6_DOWN_def
  BRANCH_B_TO_UNCOMPRESSED_def BRANCH_B_DOWN_def BRANCH_U_DOWN_def

definition make_l2 :: "(u8 \<times> 'e) list \<Rightarrow> u32 \<Rightarrow> 'e branch" where
  "make_l2 ps tot = L2 tot ps"

definition make_l6 :: "(u8 \<times> 'e) list \<Rightarrow> u32 \<Rightarrow> 'e branch" where
  "make_l6 ps tot = L6 tot ps"

definition make_b :: "(u8 \<times> 'e) list \<Rightarrow> u32 \<Rightarrow> 'e branch" where
  "make_b ps tot = B tot (length ps) (barr_make ps)"

definition make_u :: "(u8 \<times> 'e) list \<Rightarrow> u32 \<Rightarrow> 'e branch" where
  "make_u ps tot = U tot (length ps) (fold (\<lambda>(d, c). \<lambda>us. us[unat d := Some c]) ps (replicate 256 None))"

text \<open>\<^verbatim>\<open>branch_pairs\<close> (through \<^verbatim>\<open>branch_for_each_child\<close>): the children in ascending digit order.\<close>

fun branch_pairs :: "'e branch \<Rightarrow> (u8 \<times> 'e) list" where
  "branch_pairs (L2 _ ps) = ps"
| "branch_pairs (L6 _ ps) = ps"
| "branch_pairs (B _ _ b) = barr_pairs b"
| "branch_pairs (U _ _ us) = slots_pairs us"

fun branch_count :: "'e branch \<Rightarrow> u32" where
  "branch_count (L2 t _) = t"
| "branch_count (L6 t _) = t"
| "branch_count (B t _ _) = t"
| "branch_count (U t _ _) = t"

fun branch_child :: "'e branch \<Rightarrow> u8 \<Rightarrow> 'e option" where
  "branch_child (L2 _ ps) d =
    (if 0 < length ps \<and> fst (ps ! 0) = d then Some (snd (ps ! 0))
     else if 1 < length ps \<and> fst (ps ! 1) = d then Some (snd (ps ! 1))
     else None)"
| "branch_child (L6 _ ps) d = map_of ps d"
| "branch_child (B _ _ b) d = barr_get b d"
| "branch_child (U _ _ us) d = slots_get us d"

text \<open>Populations are \<^verbatim>\<open>u32\<close> words; \<^verbatim>\<open>(pop0 as i64 + delta) as u32\<close> wraps like word addition.\<close>

fun branch_add_keys :: "'e branch \<Rightarrow> int \<Rightarrow> 'e branch" where
  "branch_add_keys (L2 t ps) delta = L2 (t + of_int delta) ps"
| "branch_add_keys (L6 t ps) delta = L6 (t + of_int delta) ps"
| "branch_add_keys (B t n b) delta = B (t + of_int delta) n b"
| "branch_add_keys (U t n us) delta = U (t + of_int delta) n us"

fun branch_commit :: "'e branch \<Rightarrow> u8 \<Rightarrow> 'e \<Rightarrow> int \<Rightarrow> 'e branch" where
  "branch_commit (L2 t ps) d c delta = L2 (t + of_int delta)
    (if 0 < length ps \<and> fst (ps ! 0) = d then ps[0 := (d, c)]
     else if 1 < length ps \<and> fst (ps ! 1) = d then ps[1 := (d, c)]
     else ps)"
| "branch_commit (L6 t ps) d c delta = L6 (t + of_int delta) (put_digit ps d c)"
| "branch_commit (B t n b) d c delta = B (t + of_int delta) n (barr_put b d c)"
| "branch_commit (U t n us) d c delta = U (t + of_int delta) n (slots_put us d c)"

fun branch_insert_new :: "'e branch \<Rightarrow> u8 \<Rightarrow> 'e \<Rightarrow> u32 \<Rightarrow> 'e branch" where
  "branch_insert_new (L2 t ps) d c added =
    (if length ps < 2 then L2 (t + added) (insert_pair_sorted ps d c)
     else make_l6 (insert_pair_sorted ps d c) (t + added))"
| "branch_insert_new (L6 t ps) d c added =
    (if length ps < BRANCH_L6_CAP then L6 (t + added) (insert_pair_sorted ps d c)
     else make_b (insert_pair_sorted ps d c) (t + added))"
| "branch_insert_new (B t n b) d c added =
    (if n < BRANCH_B_TO_UNCOMPRESSED then B (t + added) (n + 1) (barr_insert b d c)
     else make_u (insert_pair_sorted (barr_pairs b) d c) (t + added))"
| "branch_insert_new (U t n us) d c added = U (t + added) (n + 1) (slots_put us d c)"

fun branch_remove_digit :: "'e branch \<Rightarrow> u8 \<Rightarrow> 'e branch option" where
  "branch_remove_digit (L2 t ps) d =
    (let ps' = remove_pair ps d in if length ps' = 0 then None else Some (L2 t ps'))"
| "branch_remove_digit (L6 t ps) d =
    (let ps' = remove_pair ps d
     in if length ps' \<le> BRANCH_L6_DOWN
        then (if ps' = [] then None else Some (make_l2 ps' t))
        else Some (L6 t ps'))"
| "branch_remove_digit (B t n b) d =
    (let b' = barr_remove b d; n' = n - 1
     in if n' \<le> BRANCH_B_DOWN
        then (let ps = barr_pairs b' in if ps = [] then None else Some (make_l6 ps t))
        else Some (B t n' b'))"
| "branch_remove_digit (U t n us) d =
    (let us' = slots_clear us d; n' = n - 1
     in if n' \<le> BRANCH_U_DOWN
        then (let ps = slots_pairs us' in if ps = [] then None else Some (make_b ps t))
        else Some (U t n' us'))"

section \<open>Well-formed branches\<close>

text \<open>
  The populations an edit sequence can leave in each form, with the hysteresis bands of the
  ladder, and the agreement of the child counters with the children. A linear two-slot branch
  may be empty only while a leaf is being split into it.
\<close>

fun wf_branch :: "'e branch \<Rightarrow> bool" where
  "wf_branch (L2 t ps) \<longleftrightarrow> asc ps \<and> length ps \<le> BRANCH_L2_CAP"
| "wf_branch (L6 t ps) \<longleftrightarrow> asc ps \<and> BRANCH_L6_DOWN < length ps \<and> length ps \<le> BRANCH_L6_CAP"
| "wf_branch (B t n b) \<longleftrightarrow> wf_barr b \<and> n = length (barr_pairs b) \<and>
     BRANCH_B_DOWN < n \<and> n \<le> BRANCH_B_TO_UNCOMPRESSED"
| "wf_branch (U t n us) \<longleftrightarrow> slots_inv us \<and> n = length (slots_pairs us) \<and> BRANCH_U_DOWN < n"

lemma asc_branch_pairs: "wf_branch b \<Longrightarrow> asc (branch_pairs b)"
  by (cases b) (auto simp: asc_barr_pairs asc_slots_pairs)

lemma short_list_cases: "length ps \<le> 2 \<Longrightarrow> ps = [] \<or> (\<exists>p. ps = [p]) \<or> (\<exists>p q. ps = [p, q])"
  by (cases ps; cases "tl ps"; cases "tl (tl ps)") auto

lemma map_of_branch_pairs: "wf_branch b \<Longrightarrow> map_of (branch_pairs b) d = branch_child b d"
  by (cases b) (auto simp: map_of_barr_pairs map_of_slots_pairs branch_consts dest!: short_list_cases)

lemma l2_put: "length ps \<le> 2 \<Longrightarrow>
    (if 0 < length ps \<and> fst (ps ! 0) = d then ps[0 := (d, c)]
     else if 1 < length ps \<and> fst (ps ! 1) = d then ps[1 := (d, c)] else ps) = put_digit ps d c"
  by (auto dest!: short_list_cases)

lemma branch_commit_L2:
  "length ps \<le> 2 \<Longrightarrow> branch_commit (L2 t ps) d c delta = L2 (t + of_int delta) (put_digit ps d c)"
  by (simp only: branch_commit.simps l2_put)

lemma make_u_slots:
  assumes "length us = 256" and "distinct (map fst ps)"
  shows "length (fold (\<lambda>(d, c). \<lambda>us. us[unat d := Some c]) ps us) = 256"
    and "slots_get (fold (\<lambda>(d, c). \<lambda>us. us[unat d := Some c]) ps us) =
         (\<lambda>d. case map_of ps d of None \<Rightarrow> slots_get us d | Some c \<Rightarrow> Some c)"
  using assms
proof (induction ps arbitrary: us)
  case (Cons p ps)
  { case 1 then show ?case using Cons.IH(1) [of "us[unat (fst p) := Some (snd p)]"] by (simp add: split_beta) }
  { case 2
    moreover have "map_of ps (fst p) = None" using 2 by (simp add: map_of_eq_None_iff)
    ultimately show ?case using Cons.IH(2) [of "us[unat (fst p) := Some (snd p)]"]
      by (auto simp: split_beta fun_eq_iff slots_get_def nth_list_update unat_u8_inj split: option.splits) }
qed (auto simp: fun_eq_iff)

lemma make_u_pairs:
  fixes ps :: "(u8 \<times> 'a) list"
  assumes "asc ps"
  shows "branch_pairs (make_u ps t) = ps"
proof (rule asc_unique [OF _ assms])
  have "slots_get (replicate 256 (None :: 'a option)) d = None" for d by (simp add: slots_get_def)
  then show "map_of (branch_pairs (make_u ps t)) = map_of ps"
    using make_u_slots(2) [of "replicate 256 None" ps] asc_distinct [OF assms]
    by (auto simp: make_u_def map_of_slots_pairs fun_eq_iff simp del: replicate_Suc split: option.split)
qed (simp add: make_u_def asc_slots_pairs)

lemma make_branch_pairs [simp]:
  "branch_pairs (make_l2 ps t) = ps" "branch_pairs (make_l6 ps t) = ps"
  "asc ps \<Longrightarrow> branch_pairs (make_b ps t) = ps" "asc ps \<Longrightarrow> branch_pairs (make_u ps t) = ps"
  by (simp_all add: make_l2_def make_l6_def make_b_def barr_pairs_make make_u_pairs)

lemma make_branch_count [simp]:
  "branch_count (make_l2 ps t) = t" "branch_count (make_l6 ps t) = t"
  "branch_count (make_b ps t) = t" "branch_count (make_u ps t) = t"
  by (simp_all add: make_l2_def make_l6_def make_b_def make_u_def)

lemma wf_make_branch:
  assumes "asc ps"
  shows "length ps \<le> 2 \<Longrightarrow> wf_branch (make_l2 ps t)"
    and "1 < length ps \<Longrightarrow> length ps \<le> 6 \<Longrightarrow> wf_branch (make_l6 ps t)"
    and "5 < length ps \<Longrightarrow> length ps \<le> 192 \<Longrightarrow> wf_branch (make_b ps t)"
    and "190 < length ps \<Longrightarrow> wf_branch (make_u ps t)"
  using assms make_u_pairs [OF assms, of t] make_u_slots(1) [of "replicate 256 None" ps] asc_distinct [OF assms]
  by (auto simp: make_l2_def make_l6_def make_b_def make_u_def branch_consts wf_make barr_pairs_make slots_inv_def)

lemma length_update: "asc ps \<Longrightarrow> map_of ps d \<noteq> None \<Longrightarrow> length (al_ins d c ps) = length ps"
  by (simp add: length_al_ins)

text \<open>An overwrite of a present child, an added child and a removed child, on the children in digit
  order. A removal yields no branch exactly when it takes the last child.\<close>

lemma branch_commit_laws:
  assumes "wf_branch b" and "branch_child b d \<noteq> None"
  shows "wf_branch (branch_commit b d c delta)"
    and "branch_pairs (branch_commit b d c delta) = al_ins d c (branch_pairs b)"
    and "branch_count (branch_commit b d c delta) = branch_count b + of_int delta"
proof -
  have hit: "map_of (branch_pairs b) d \<noteq> None" using assms by (simp add: map_of_branch_pairs)
  have len: "length (al_ins d c (branch_pairs b)) = length (branch_pairs b)"
    using length_update [OF asc_branch_pairs [OF assms(1)] hit] .
  show p: "branch_pairs (branch_commit b d c delta) = al_ins d c (branch_pairs b)"
    using assms hit linear.pairs_put [of _ d c]
    by (cases b) (auto simp: branch_commit_L2 branch_consts bitmap_table.pairs_put slots.pairs_put
        simp del: branch_child.simps(1) branch_commit.simps(1))
  show "wf_branch (branch_commit b d c delta)"
    using assms hit len p
    by (cases b) (auto simp: branch_commit_L2 branch_consts asc_al_ins bitmap_table.inv_put slots.inv_put
        simp del: branch_child.simps(1) branch_commit.simps(1))
  show "branch_count (branch_commit b d c delta) = branch_count b + of_int delta"
    by (cases b) auto
qed

lemma branch_insert_new_laws:
  assumes "wf_branch b" and "branch_child b d = None"
  shows "wf_branch (branch_insert_new b d c added)"
    and "branch_pairs (branch_insert_new b d c added) = al_ins d c (branch_pairs b)"
    and "branch_count (branch_insert_new b d c added) = branch_count b + added"
proof -
  have miss: "map_of (branch_pairs b) d = None" using assms by (simp add: map_of_branch_pairs)
  have asc: "asc (branch_pairs b)" by (rule asc_branch_pairs [OF assms(1)])
  have len: "length (al_ins d c (branch_pairs b)) = Suc (length (branch_pairs b))"
    using length_al_ins [OF asc] miss by simp
  have ins: "insert_pair_sorted (branch_pairs b) d c = al_ins d c (branch_pairs b)"
    by (rule insert_pair_sorted_ins [OF asc miss])
  show p: "branch_pairs (branch_insert_new b d c added) = al_ins d c (branch_pairs b)"
    using assms miss asc ins asc_al_ins [OF asc, of d c]
    by (cases b) (auto simp: bitmap_table.pairs_insert slots.pairs_insert)
  show "wf_branch (branch_insert_new b d c added)"
  proof (cases b)
    case (L2 t ps)
    then show ?thesis using assms len ins asc_al_ins [OF asc, of d c] wf_make_branch(2) [of "al_ins d c ps" "t + added"]
      by (cases "length ps < 2") (simp_all add: branch_consts del: branch_child.simps(1))
  next
    case (L6 t ps)
    then show ?thesis using assms len ins asc_al_ins [OF asc, of d c] wf_make_branch(3) [of "al_ins d c ps" "t + added"]
      by (auto simp: branch_consts)
  next
    case (B t n bm)
    then show ?thesis using assms len ins p asc_al_ins [OF asc, of d c] wf_make_branch(4) [of "al_ins d c (barr_pairs bm)" "t + added"]
      by (auto simp: branch_consts bitmap_table.inv_insert)
  next
    case (U t n us)
    then show ?thesis using assms len p by (auto simp: branch_consts slots.inv_insert)
  qed
  show "branch_count (branch_insert_new b d c added) = branch_count b + added"
    by (cases b) auto
qed

lemma branch_remove_digit_laws:
  assumes "wf_branch b" and "branch_child b d \<noteq> None"
  shows "case branch_remove_digit b d of
      None \<Rightarrow> al_del d (branch_pairs b) = []
    | Some b' \<Rightarrow> wf_branch b' \<and> branch_pairs b' = al_del d (branch_pairs b) \<and> branch_pairs b' \<noteq> []
        \<and> branch_count b' = branch_count b"
proof -
  have hit: "map_of (branch_pairs b) d \<noteq> None" using assms by (simp add: map_of_branch_pairs)
  have asc: "asc (branch_pairs b)" by (rule asc_branch_pairs [OF assms(1)])
  have len: "length (al_del d (branch_pairs b)) = length (branch_pairs b) - 1"
    using length_al_del [OF asc, of d] hit by auto
  note facts = assms hit len asc_al_del [OF asc, of d]
  show ?thesis
  proof (cases b)
    case (L2 t ps)
    then show ?thesis using facts by (auto simp: branch_consts remove_pair_del Let_def)
  next
    case (L6 t ps)
    then show ?thesis using facts wf_make_branch(1) [of "al_del d ps"]
      by (auto simp: branch_consts remove_pair_del Let_def)
  next
    case (B t n bm)
    then show ?thesis using facts wf_make_branch(2) [of "al_del d (barr_pairs bm)" t] bitmap_table.pairs_remove [of bm d]
        bitmap_table.inv_remove [of bm d]
      by (auto simp: branch_consts Let_def)
  next
    case (U t n us)
    then show ?thesis using facts wf_make_branch(3) [of "al_del d (slots_pairs us)" t] slots.pairs_remove [of us d]
        slots.inv_remove [of us d]
      by (auto simp: branch_consts Let_def)
  qed
qed

lemma branch_add_keys_laws [simp]:
  "wf_branch (branch_add_keys b delta) = wf_branch b"
  "branch_pairs (branch_add_keys b delta) = branch_pairs b"
  "branch_child (branch_add_keys b delta) = branch_child b"
  "branch_count (branch_add_keys b delta) = branch_count b + of_int delta"
  by (cases b; auto simp: fun_eq_iff)+

section \<open>Properties\<close>

text \<open>C9. A new child makes the branch answer it at its digit and leaves every other digit alone, on
  each of the four forms and across every promotion; the form stays within its limits and the
  population grows by the keys added.\<close>

theorem branch_insert_new_correct:
  assumes "wf_branch b" and "branch_child b d = None"
  shows "wf_branch (branch_insert_new b d c added) \<and>
    branch_child (branch_insert_new b d c added) = (branch_child b)(d \<mapsto> c) \<and>
    branch_count (branch_insert_new b d c added) = branch_count b + added"
proof -
  note l = branch_insert_new_laws [OF assms, of c added]
  have "branch_child (branch_insert_new b d c added) x = ((branch_child b)(d \<mapsto> c)) x" for x
    using map_of_branch_pairs [OF l(1), of x] map_of_branch_pairs [OF assms(1), of x] by (auto simp: l(2) map_of_al_ins split: if_splits)
  then show ?thesis using l by (simp add: fun_eq_iff)
qed

theorem branch_insert_new_correct_witness:
  "let b = L2 9 [(1, 10), (4, 40 :: nat)]
   in wf_branch (branch_insert_new b 2 20 1) \<and> branch_child (branch_insert_new b 2 20 1) = (branch_child b)(2 \<mapsto> 20) \<and>
      branch_count (branch_insert_new b 2 20 1) = branch_count b + 1"
  unfolding Let_def by (rule branch_insert_new_correct) (simp_all add: branch_consts)

text \<open>C10. Removing a child forgets its digit and no other, across every demotion, and the branch
  becomes a null edge exactly when it was the last child.\<close>

theorem branch_remove_digit_correct:
  assumes "wf_branch b" and "branch_child b d \<noteq> None"
  shows "case branch_remove_digit b d of
      None \<Rightarrow> (branch_child b)(d := None) = Map.empty
    | Some b' \<Rightarrow> wf_branch b' \<and> branch_child b' = (branch_child b)(d := None) \<and> branch_child b' \<noteq> Map.empty \<and>
        branch_count b' = branch_count b"
proof -
  have m: "map_of (al_del d (branch_pairs b)) = (branch_child b)(d := None)"
    using map_of_branch_pairs [OF assms(1)] by (auto simp: fun_eq_iff map_of_al_del)
  show ?thesis
  proof (cases "branch_remove_digit b d")
    case None
    then show ?thesis using branch_remove_digit_laws [OF assms] m by simp
  next
    case (Some b')
    then have l: "wf_branch b'" "branch_pairs b' = al_del d (branch_pairs b)" "branch_pairs b' \<noteq> []" "branch_count b' = branch_count b"
      using branch_remove_digit_laws [OF assms] by auto
    then have "branch_child b' = map_of (branch_pairs b')" using map_of_branch_pairs [OF l(1)] by (auto simp: fun_eq_iff)
    moreover have "map_of (branch_pairs b') \<noteq> Map.empty" using l(3) by (simp add: map_of_eq_empty_iff)
    ultimately show ?thesis using Some l m by simp
  qed
qed

theorem branch_remove_digit_correct_witness:
  "let b = L6 9 [(1, 10), (4, 40 :: nat)]
   in case branch_remove_digit b 1 of
        None \<Rightarrow> (branch_child b)(1 := None) = Map.empty
      | Some b' \<Rightarrow> wf_branch b' \<and> branch_child b' = (branch_child b)(1 := None) \<and> branch_child b' \<noteq> Map.empty \<and>
          branch_count b' = branch_count b"
  unfolding Let_def by (rule branch_remove_digit_correct) (simp_all add: branch_consts)

end
