(* ===== verification/Trie32.thy ===== *)
theory Trie32
  imports Branch32
begin

text \<open>
  The map operations of the 32-bit engine (\<^verbatim>\<open>crates/expanse/src/trie32.rs\<close>). An edge names a
  subtree whose keys have \<open>kb\<close> undecoded bytes: nothing, a single entry stored in the edge, a
  linear leaf, a bitmap leaf of the last byte, or a branch on the top byte. Arena handles are
  replaced by the nodes they name, so an in-place edit of a node and a new edge in its parent are
  the same update; the packed key and value areas of a linear leaf are one list of entries, and
  the filler up to the capacity class is left out. Recursion is on the number of undecoded bytes,
  which every descent decreases. The insertion finger, a cached path that answers an insert into
  the bitmap leaf of the previous insert, is left out.
\<close>

section \<open>Edges\<close>

datatype edge =
    Null
  | MapImmed u32 u32
  | MapLeaf "(u32 \<times> u32) list"
  | MapBitmap nat "u32 barr"
  | Branch "edge branch"

definition MAP_LEAF_MAX :: nat where "MAP_LEAF_MAX = 16"
definition MAP_BITMAP_ENTER :: nat where "MAP_BITMAP_ENTER = 64"
definition MAP_BITMAP_LEAVE :: nat where "MAP_BITMAP_LEAVE = 48"

lemmas map_consts = MAP_LEAF_MAX_def MAP_BITMAP_ENTER_def MAP_BITMAP_LEAVE_def

section \<open>Linear leaves\<close>

text \<open>\<^verbatim>\<open>leaf_lower_bound\<close>: binary search of the packed keys; \<^verbatim>\<open>leaf_insert_pos\<close> answers the ascending
  append with one comparison.\<close>

function leaf_search :: "(u32 \<times> u32) list \<Rightarrow> u32 \<Rightarrow> nat \<Rightarrow> nat \<Rightarrow> nat" where
  "leaf_search xs needle lo hi =
    (if lo < hi
     then (let mid = (lo + hi) div 2
           in if fst (xs ! mid) < needle then leaf_search xs needle (mid + 1) hi
              else leaf_search xs needle lo mid)
     else lo)"
  by pat_completeness auto
termination by (relation "measure (\<lambda>(xs, needle, lo, hi). hi - lo)") auto

declare leaf_search.simps [simp del]

definition leaf_lower_bound :: "(u32 \<times> u32) list \<Rightarrow> u32 \<Rightarrow> nat" where
  "leaf_lower_bound xs needle = leaf_search xs needle 0 (length xs)"

interpretation leaf: binary_search "\<lambda>lo hi. (lo + hi) div 2" leaf_search
proof
  fix xs :: "(u32 \<times> u32) list" and k lo hi
  show "leaf_search xs k lo hi =
      (if lo < hi
       then if fst (xs ! ((lo + hi) div 2)) < k then leaf_search xs k ((lo + hi) div 2 + 1) hi
            else leaf_search xs k lo ((lo + hi) div 2)
       else lo)"
    by (subst leaf_search.simps) (simp add: Let_def)
qed auto

definition leaf_insert_pos :: "(u32 \<times> u32) list \<Rightarrow> u32 \<Rightarrow> nat" where
  "leaf_insert_pos xs needle =
    (if 0 < length xs \<and> fst (xs ! (length xs - 1)) < needle then length xs
     else leaf_lower_bound xs needle)"

section \<open>Bitmap leaves\<close>

definition make_map_bitmap :: "(u32 \<times> u32) list \<Rightarrow> edge" where
  "make_map_bitmap xs = MapBitmap (length xs - 1) (barr_make (map (\<lambda>p. (ucast (fst p), snd p)) xs))"

definition read_map_bitmap :: "u32 barr \<Rightarrow> (u32 \<times> u32) list" where
  "read_map_bitmap b = map (\<lambda>(d, v). (ucast d, v)) (barr_pairs b)"

text \<open>\<^verbatim>\<open>trailing_zeros\<close> of a non-zero word, and \<^verbatim>\<open>bitmap_first_ge_raw\<close>.\<close>

definition trailing_zeros :: "u64 \<Rightarrow> nat" where
  "trailing_zeros w = length (takeWhile (\<lambda>i. \<not> bit w i) [0..<64])"

function first_ge_words :: "u64 list \<Rightarrow> nat \<Rightarrow> u64 \<Rightarrow> u8 option" where
  "first_ge_words bm w word =
    (if word \<noteq> 0 then Some (of_nat (w * 64 + trailing_zeros word))
     else if 4 \<le> w + 1 then None
     else first_ge_words bm (w + 1) (bm ! (w + 1)))"
  by pat_completeness auto
termination by (relation "measure (\<lambda>(bm, w, word). 4 - w)") auto

declare first_ge_words.simps [simp del]

definition bitmap_first_ge_raw :: "u64 list \<Rightarrow> nat \<Rightarrow> u8 option" where
  "bitmap_first_ge_raw bm from =
    (if 255 < from then None
     else first_ge_words bm (from div 64) (bm ! (from div 64) AND push_bit (from mod 64) (NOT 0)))"

definition map_bitmap_entry :: "u32 barr \<Rightarrow> u8 \<Rightarrow> u32 \<times> u32" where
  "map_bitmap_entry b d = (ucast d, subarrays b ! unat (drop_bit 5 d) ! barr_rank b d)"

section \<open>Lookup\<close>

fun map_get :: "nat \<Rightarrow> edge \<Rightarrow> u32 \<Rightarrow> u32 option" where
  "map_get kb Null rem = None"
| "map_get kb (MapImmed r v) rem = (if r = rem then Some v else None)"
| "map_get kb (MapLeaf xs) rem =
    (let pos = leaf_lower_bound xs rem
     in if pos < length xs \<and> fst (xs ! pos) = rem then Some (snd (xs ! pos)) else None)"
| "map_get kb (MapBitmap pop0 b) rem = barr_get b (ucast rem)"
| "map_get 0 (Branch b) rem = None"
| "map_get (Suc k) (Branch b) rem =
    (case branch_child b (digit_at rem (Suc k)) of
       None \<Rightarrow> None
     | Some c \<Rightarrow> map_get k c (child_rem rem (Suc k)))"

section \<open>Insertion\<close>

text \<open>The branch arm of \<^verbatim>\<open>map_insert_f_mode\<close>, over the insertion into a child: an existing child is
  rewritten and the branch population follows a new key; a missing child is created from a null
  edge.\<close>

definition map_insert_branch ::
  "(edge \<Rightarrow> u32 \<Rightarrow> u32 \<Rightarrow> edge \<times> u32 option) \<Rightarrow> nat \<Rightarrow> edge branch \<Rightarrow> u32 \<Rightarrow> u32 \<Rightarrow> edge branch \<times> u32 option"
where
  "map_insert_branch ins kb b rem val =
    (let d = digit_at rem kb; cr = child_rem rem kb
     in case branch_child b d of
          Some child \<Rightarrow> (let (child', old) = ins child cr val
                         in (branch_commit b d child' (if old = None then 1 else 0), old))
        | None \<Rightarrow> (let (child', _) = ins Null cr val in (branch_insert_new b d child' 1, None)))"

primrec map_insert :: "nat \<Rightarrow> edge \<Rightarrow> u32 \<Rightarrow> u32 \<Rightarrow> edge \<times> u32 option" where
  "map_insert 0 e rem val = (e, None)"
| "map_insert (Suc k) e rem val = (case e of
      Null \<Rightarrow> (if Suc k \<le> 3 then MapImmed rem val else MapLeaf [(rem, val)], None)
    | MapImmed r0 v0 \<Rightarrow>
        (if r0 = rem then (MapImmed rem val, Some v0)
         else (MapLeaf (if r0 < rem then [(r0, v0), (rem, val)] else [(rem, val), (r0, v0)]), None))
    | MapLeaf xs \<Rightarrow>
        (let pop = length xs; pos = leaf_insert_pos xs rem
         in if pos < pop \<and> fst (xs ! pos) = rem then (MapLeaf (xs[pos := (rem, val)]), Some (snd (xs ! pos)))
            else if Suc k = 1 \<and> MAP_BITMAP_ENTER < pop + 1 then (make_map_bitmap (insert_at pos (rem, val) xs), None)
            else if 2 \<le> Suc k \<and> MAP_LEAF_MAX < pop + 1
            then (let ins = (\<lambda>b r v. fst (map_insert_branch (map_insert k) (Suc k) b r v));
                      b = fold (\<lambda>(r, v) b. ins b r v) xs (make_l2 [] 0)
                  in (Branch (ins b rem val), None))
            else (MapLeaf (insert_at pos (rem, val) xs), None))
    | MapBitmap pop0 b \<Rightarrow>
        (let digit = ucast rem
         in case barr_get b digit of
              Some old \<Rightarrow> (MapBitmap pop0 (barr_put b digit val), Some old)
            | None \<Rightarrow> (MapBitmap (pop0 + 1) (barr_insert b digit val), None))
    | Branch b \<Rightarrow>
        (let (b', old) = map_insert_branch (map_insert k) (Suc k) b rem val in (Branch b', old)))"

section \<open>Removal\<close>

definition edge_of :: "edge branch option \<Rightarrow> edge" where
  "edge_of b = (case b of None \<Rightarrow> Null | Some b \<Rightarrow> Branch b)"

text \<open>What is left of a bitmap leaf after removals: nothing, an immediate, a linear leaf below the
  hysteresis point, or the leaf itself.\<close>

definition map_bitmap_shrink :: "nat \<Rightarrow> nat \<Rightarrow> u32 barr \<Rightarrow> edge" where
  "map_bitmap_shrink pop pop0 b =
    (if pop = 0 then Null
     else if pop \<le> MAP_BITMAP_LEAVE
     then (let es = read_map_bitmap b
           in if length es = 1 then MapImmed (fst (es ! 0)) (snd (es ! 0)) else MapLeaf es)
     else MapBitmap pop0 b)"

primrec map_remove :: "nat \<Rightarrow> edge \<Rightarrow> u32 \<Rightarrow> edge \<times> u32 option" where
  "map_remove 0 e rem = (e, None)"
| "map_remove (Suc k) e rem = (case e of
      Null \<Rightarrow> (Null, None)
    | MapImmed r v \<Rightarrow> (if r = rem then (Null, Some v) else (MapImmed r v, None))
    | MapLeaf xs \<Rightarrow>
        (let pop = length xs; pos = leaf_lower_bound xs rem
         in if pop \<le> pos \<or> fst (xs ! pos) \<noteq> rem then (MapLeaf xs, None)
            else (let old = snd (xs ! pos); new_pop = pop - 1
                  in if new_pop = 0 then (Null, Some old)
                     else if new_pop = 1 \<and> Suc k \<le> 3
                     then (let i = (if pos = 0 then 1 else 0) in (MapImmed (fst (xs ! i)) (snd (xs ! i)), Some old))
                     else (MapLeaf (remove_span pos (pos + 1) xs), Some old)))
    | MapBitmap pop0 b \<Rightarrow>
        (let digit = ucast rem
         in case barr_get b digit of
              None \<Rightarrow> (MapBitmap pop0 b, None)
            | Some old \<Rightarrow> (map_bitmap_shrink pop0 (if 0 < pop0 then pop0 - 1 else pop0) (barr_remove b digit), Some old))
    | Branch b \<Rightarrow>
        (let d = digit_at rem (Suc k)
         in case branch_child b d of
              None \<Rightarrow> (Branch b, None)
            | Some child \<Rightarrow>
                (case map_remove k child (child_rem rem (Suc k)) of
                   (_, None) \<Rightarrow> (Branch b, None)
                 | (child', Some old) \<Rightarrow>
                     (if child' = Null then (edge_of (branch_remove_digit (branch_add_keys b (- 1)) d), Some old)
                      else (Branch (branch_commit b d child' (- 1)), Some old)))))"

end
