(* ===== verification/Trie32_Correct.thy ===== *)
theory Trie32_Correct
  imports Trie32
begin

text \<open>
  Correctness of the 32-bit map engine: the entries of an edge in key order, the invariant of
  the trie (sizes of every node form, agreement of the population counters, children that are
  never null), and the proofs that lookup, insertion and removal act on the entries as on a
  finite map and keep the invariant.
\<close>

section \<open>Entries of a subtree\<close>

definition lift_entries :: "u8 \<Rightarrow> nat \<Rightarrow> (u32 \<times> u32) list \<Rightarrow> (u32 \<times> u32) list" where
  "lift_entries d kb xs = map (\<lambda>(r, v). (combine d r kb, v)) xs"

definition flatten :: "nat \<Rightarrow> (u8 \<times> (u32 \<times> u32) list) list \<Rightarrow> (u32 \<times> u32) list" where
  "flatten kb ps = concat (map (\<lambda>(d, xs). lift_entries d kb xs) ps)"

fun entries :: "nat \<Rightarrow> edge \<Rightarrow> (u32 \<times> u32) list" where
  "entries kb Null = []"
| "entries kb (MapImmed r v) = [(r, v)]"
| "entries kb (MapLeaf xs) = xs"
| "entries kb (MapBitmap pop0 b) = read_map_bitmap b"
| "entries 0 (Branch b) = []"
| "entries (Suc k) (Branch b) = flatten (Suc k) (map (\<lambda>(d, c). (d, entries k c)) (branch_pairs b))"

definition child_entries :: "nat \<Rightarrow> edge branch \<Rightarrow> (u8 \<times> (u32 \<times> u32) list) list" where
  "child_entries k b = map (\<lambda>(d, c). (d, entries k c)) (branch_pairs b)"

definition keys_le :: "nat \<Rightarrow> (u32 \<times> u32) list \<Rightarrow> bool" where
  "keys_le kb xs \<longleftrightarrow> (\<forall>p\<in>set xs. fst p \<le> rem_mask kb)"

lemma keys_le_Nil [simp]: "keys_le kb []"
  by (simp add: keys_le_def)

lemma keys_le_Cons [simp]: "keys_le kb (x # xs) \<longleftrightarrow> fst x \<le> rem_mask kb \<and> keys_le kb xs"
  by (simp add: keys_le_def)

lemma keys_le_append [simp]: "keys_le kb (xs @ ys) \<longleftrightarrow> keys_le kb xs \<and> keys_le kb ys"
  by (auto simp: keys_le_def)

lemma keys_le_ins: "keys_le kb xs \<Longrightarrow> r \<le> rem_mask kb \<Longrightarrow> keys_le kb (al_ins r v xs)"
  by (auto simp: keys_le_def al_ins_def)

lemma keys_le_filter: "keys_le kb xs \<Longrightarrow> keys_le kb (filter P xs)"
  by (auto simp: keys_le_def)

lemma keys_le_del: "keys_le kb xs \<Longrightarrow> keys_le kb (al_del r xs)"
  by (simp add: al_del_def keys_le_filter)

section \<open>Flattening a branch\<close>

lemma flatten_Nil [simp]: "flatten kb [] = []"
  by (simp add: flatten_def)

lemma flatten_Cons [simp]: "flatten kb (p # ps) = lift_entries (fst p) kb (snd p) @ flatten kb ps"
  by (simp add: flatten_def split_beta)

lemma flatten_append: "flatten kb (ps @ qs) = flatten kb ps @ flatten kb qs"
  by (simp add: flatten_def)

lemma combine_le: "k < 4 \<Longrightarrow> c \<le> rem_mask k \<Longrightarrow> combine d c (Suc k) \<le> rem_mask (Suc k)"
  using digit_le_exp [of "Suc k" c d] le_rem_mask [of k c] by simp

lemma lift_keys_le:
  "k < 4 \<Longrightarrow> keys_le k xs \<Longrightarrow> keys_le (Suc k) (lift_entries d (Suc k) xs)"
  by (auto simp: keys_le_def lift_entries_def intro!: combine_le)

lemma flatten_keys_le:
  "k < 4 \<Longrightarrow> (\<And>p. p \<in> set ps \<Longrightarrow> keys_le k (snd p)) \<Longrightarrow> keys_le (Suc k) (flatten (Suc k) ps)"
  by (induction ps) (auto simp: lift_keys_le)

lemma map_of_lift:
  assumes "k < 4" and "keys_le k xs" and "r \<le> rem_mask (Suc k)"
  shows "map_of (lift_entries d (Suc k) xs) r =
    (if digit_at r (Suc k) = d then map_of xs (child_rem r (Suc k)) else None)"
proof -
  have eq: "r = combine d c (Suc k) \<longleftrightarrow> digit_at r (Suc k) = d \<and> child_rem r (Suc k) = c"
    if "c \<le> rem_mask k" for c
    using assms(1,3) that digit_at_combine [of "Suc k" c d] child_rem_combine [of "Suc k" c d]
      combine_split [of "Suc k" r] by (metis Suc_leI diff_Suc_1 le_add1 plus_1_eq_Suc)
  show ?thesis
    using assms(2)
  proof (induction xs)
    case (Cons x xs)
    then show ?case
      using eq [of "fst x"] by (cases "r = combine d (fst x) (Suc k)") (simp_all add: lift_entries_def split_beta)
  qed (simp add: lift_entries_def)
qed

lemma map_of_flatten:
  assumes "k < 4" and "\<And>p. p \<in> set ps \<Longrightarrow> keys_le k (snd p)" and "distinct (map fst ps)"
    and "r \<le> rem_mask (Suc k)"
  shows "map_of (flatten (Suc k) ps) r =
    (case map_of ps (digit_at r (Suc k)) of None \<Rightarrow> None | Some xs \<Rightarrow> map_of xs (child_rem r (Suc k)))"
  using assms(2,3)
proof (induction ps)
  case (Cons p ps)
  have "map_of ps (fst p) = None" using Cons.prems(2) by (simp add: map_of_eq_None_iff)
  with Cons show ?case
    by (auto simp: map_add_def map_of_lift [OF assms(1) _ assms(4)] split: option.splits)
qed simp

lemma asc_lift: "k < 4 \<Longrightarrow> keys_le k xs \<Longrightarrow> asc xs \<Longrightarrow> asc (lift_entries d (Suc k) xs)"
proof (induction xs)
  case (Cons x xs)
  then show ?case
    using combine_less_iff [of "Suc k"] by (fastforce simp: lift_entries_def keys_le_def split_beta)
qed (simp add: lift_entries_def)

lemma asc_flatten:
  assumes "k < 4"
  shows "(\<And>p. p \<in> set ps \<Longrightarrow> keys_le k (snd p)) \<Longrightarrow> (\<And>p. p \<in> set ps \<Longrightarrow> asc (snd p)) \<Longrightarrow> asc ps \<Longrightarrow>
    asc (flatten (Suc k) ps)"
proof (induction ps)
  case (Cons p ps)
  have "x < y" if x: "x \<in> fst ` set (lift_entries (fst p) (Suc k) (snd p))" and y: "y \<in> fst ` set (flatten (Suc k) ps)" for x y
  proof -
    obtain r where r: "x = combine (fst p) r (Suc k)" "r \<le> rem_mask k"
      using x Cons.prems(1) [of p] by (auto simp: lift_entries_def keys_le_def)
    obtain q s where q: "q \<in> set ps" "y = combine (fst q) s (Suc k)" "s \<le> rem_mask k"
      using y Cons.prems(1) by (fastforce simp: flatten_def lift_entries_def keys_le_def)
    have "fst p < fst q" using Cons.prems(3) q(1) by auto
    then show ?thesis using r q assms combine_less_iff [of "Suc k" r s] by simp
  qed
  moreover have "asc (flatten (Suc k) ps)" using Cons.prems by (intro Cons.IH) auto
  moreover have "asc (lift_entries (fst p) (Suc k) (snd p))" using Cons.prems assms by (intro asc_lift) auto
  ultimately show ?case by (auto simp: sorted_wrt_append)
qed simp

section \<open>The trie invariant\<close>

text \<open>
  An immediate has at most three undecoded bytes; a linear leaf of at most three bytes has two
  entries or more (one is an immediate), at most 64 at the last byte and 16 above it; a bitmap
  leaf has more than 48 entries; a branch has at least two undecoded bytes, at least one child,
  no null child, and its population counter is the number of its entries modulo \<open>2\<^sup>3\<^sup>2\<close>.
\<close>

fun wf_edge :: "nat \<Rightarrow> edge \<Rightarrow> bool" where
  "wf_edge kb Null \<longleftrightarrow> True"
| "wf_edge kb (MapImmed r v) \<longleftrightarrow> 1 \<le> kb \<and> kb \<le> 3 \<and> r \<le> rem_mask kb"
| "wf_edge kb (MapLeaf xs) \<longleftrightarrow> 1 \<le> kb \<and> asc xs \<and> keys_le kb xs \<and>
     (if kb \<le> 3 then 2 else 1) \<le> length xs \<and>
     length xs \<le> (if kb = 1 then MAP_BITMAP_ENTER else MAP_LEAF_MAX)"
| "wf_edge kb (MapBitmap pop0 b) \<longleftrightarrow> kb = 1 \<and> wf_barr b \<and> length (barr_pairs b) = pop0 + 1 \<and>
     MAP_BITMAP_LEAVE < pop0 + 1"
| "wf_edge 0 (Branch b) \<longleftrightarrow> False"
| "wf_edge (Suc k) (Branch b) \<longleftrightarrow> 1 \<le> k \<and> wf_branch b \<and> branch_pairs b \<noteq> [] \<and>
     (\<forall>p\<in>set (branch_pairs b). snd p \<noteq> Null \<and> wf_edge k (snd p)) \<and>
     branch_count b = of_nat (length (entries (Suc k) (Branch b)))"

text \<open>A branch that may still be empty, as while a leaf is split.\<close>

definition wf_children :: "nat \<Rightarrow> edge branch \<Rightarrow> bool" where
  "wf_children k b \<longleftrightarrow> wf_branch b \<and> (\<forall>p\<in>set (branch_pairs b). snd p \<noteq> Null \<and> wf_edge k (snd p)) \<and>
     branch_count b = of_nat (length (entries (Suc k) (Branch b)))"

lemma wf_edge_Branch:
  "wf_edge (Suc k) (Branch b) \<longleftrightarrow> 1 \<le> k \<and> branch_pairs b \<noteq> [] \<and> wf_children k b"
  by (auto simp: wf_children_def)

lemma entries_Branch: "entries (Suc k) (Branch b) = flatten (Suc k) (child_entries k b)"
  by (simp add: child_entries_def)

lemma ucast_u8_u32: "unat (ucast (d :: u8) :: u32) = unat d"
proof -
  have "unat d < 2 ^ 32" using unat_less_256 [of d] by (rule less_trans) simp
  then show ?thesis by (simp add: unsigned_ucast_eq take_bit_nat_eq_self)
qed

lemma ucast_u8_le: "(ucast (d :: u8) :: u32) \<le> rem_mask 1"
  by (simp add: le_rem_mask ucast_u8_u32)

lemma ucast_u8_less: "(ucast (d :: u8) :: u32) < ucast d' \<longleftrightarrow> d < d'"
  by (simp add: word_less_nat_alt ucast_u8_u32)

lemma ucast_u32_u8: "r \<le> rem_mask 1 \<Longrightarrow> ucast (ucast (r :: u32) :: u8) = r"
  by (simp add: word_unat_eq_iff ucast_u8_u32 unsigned_ucast_eq unat_take_bit le_rem_mask)

lemma ucast_u8_u32_u8: "ucast (ucast (d :: u8) :: u32) = d"
  using unat_less_256 [of d]
  by (simp add: word_unat_eq_iff unsigned_ucast_eq [where 'b = 32] ucast_u8_u32 take_bit_nat_eq_self)

lemma ucast_eq_iff: "r \<le> rem_mask 1 \<Longrightarrow> r = ucast (d :: u8) \<longleftrightarrow> ucast r = d"
  by (metis ucast_u32_u8 ucast_u8_u32_u8)

lemma asc_read_map_bitmap: "asc (read_map_bitmap b)"
proof -
  have "asc (map (\<lambda>(d, v). (ucast d :: u32, v)) ps)" if "asc ps" for ps :: "(u8 \<times> u32) list"
    using that by (induction ps) (auto simp: ucast_u8_less)
  then show ?thesis by (simp add: read_map_bitmap_def asc_barr_pairs)
qed

lemma keys_le_read_map_bitmap: "keys_le 1 (read_map_bitmap b)"
  using ucast_u8_le by (auto simp: read_map_bitmap_def keys_le_def)

lemma map_of_read_map_bitmap: "r \<le> rem_mask 1 \<Longrightarrow> map_of (read_map_bitmap b) r = barr_get b (ucast r)"
proof -
  assume r: "r \<le> rem_mask 1"
  have "map_of (map (\<lambda>(d, v). (ucast d, v)) ps) r = map_of ps (ucast r)" for ps :: "(u8 \<times> u32) list"
    by (induction ps) (auto simp: ucast_eq_iff [OF r] ucast_u8_u32_u8)
  then show ?thesis by (simp add: read_map_bitmap_def map_of_barr_pairs)
qed

lemma entries_wf:
  assumes "wf_edge kb e" and "kb \<le> 4"
  shows "asc (entries kb e) \<and> keys_le kb (entries kb e)"
  using assms
proof (induction kb e rule: entries.induct)
  case (4 kb pop0 b)
  then show ?case using asc_read_map_bitmap keys_le_read_map_bitmap by auto
next
  case (6 k b)
  have c: "asc (entries k (snd p)) \<and> keys_le k (entries k (snd p))" if "p \<in> set (branch_pairs b)" for p
    using 6 that by (cases p) auto
  have "asc (child_entries k b)"
    using 6 asc_branch_pairs [of b] by (simp add: child_entries_def comp_def split_beta)
  then show ?case
    unfolding entries_Branch using c 6(3)
    by (intro conjI asc_flatten flatten_keys_le) (auto simp: child_entries_def)
qed (auto simp: keys_le_def)

lemmas entries_asc = entries_wf [THEN conjunct1]
lemmas entries_le = entries_wf [THEN conjunct2]

lemma child_entries_wf:
  assumes "wf_children k b" and "k < 4"
  shows "asc (child_entries k b)" and "\<And>p. p \<in> set (child_entries k b) \<Longrightarrow> asc (snd p) \<and> keys_le k (snd p)"
  using assms asc_branch_pairs [of b] entries_wf [of k]
  by (auto simp: child_entries_def comp_def split_beta wf_children_def)

lemma map_of_child_entries:
  "wf_branch b \<Longrightarrow> map_of (child_entries k b) d = map_option (entries k) (branch_child b d)"
  by (simp add: child_entries_def map_of_map map_of_branch_pairs [symmetric] comp_def)

lemma map_of_branch_entries:
  assumes "wf_children k b" and "k < 4" and "r \<le> rem_mask (Suc k)"
  shows "map_of (entries (Suc k) (Branch b)) r =
    (case branch_child b (digit_at r (Suc k)) of
       None \<Rightarrow> None | Some c \<Rightarrow> map_of (entries k c) (child_rem r (Suc k)))"
proof -
  have w: "wf_branch b" using assms(1) by (simp add: wf_children_def)
  show ?thesis
    unfolding entries_Branch
    by (subst map_of_flatten [OF assms(2) _ asc_distinct assms(3)])
      (use child_entries_wf [OF assms(1,2)] in \<open>auto simp: map_of_child_entries [OF w] split: option.splits\<close>)
qed

lemma branch_entries_wf:
  assumes "wf_children k b" and "k < 4"
  shows "asc (entries (Suc k) (Branch b))" and "keys_le (Suc k) (entries (Suc k) (Branch b))"
  unfolding entries_Branch
  using child_entries_wf [OF assms] assms(2) by (auto intro!: asc_flatten flatten_keys_le)

section \<open>Lookup\<close>

lemma leaf_lower_bound_pos: "asc xs \<Longrightarrow> leaf_lower_bound xs k = lower_pos k xs"
  by (simp add: leaf_lower_bound_def leaf.search_whole)

lemma leaf_lookup:
  assumes "asc xs"
  shows "(let pos = leaf_lower_bound xs r
     in if pos < length xs \<and> fst (xs ! pos) = r then Some (snd (xs ! pos)) else None) = map_of xs r"
  using lower_pos_hit [OF assms, of r] lower_pos_value [OF assms, of r]
  by (auto simp: leaf_lower_bound_pos [OF assms] Let_def)

lemma child_le: "k < 4 \<Longrightarrow> child_rem r (Suc k) \<le> rem_mask k"
  using child_rem_bound [of "Suc k" r] by simp

theorem map_get_entries:
  "wf_edge kb e \<Longrightarrow> kb \<le> 4 \<Longrightarrow> r \<le> rem_mask kb \<Longrightarrow> map_get kb e r = map_of (entries kb e) r"
proof (induction kb e r rule: map_get.induct)
  case (3 kb xs r)
  then show ?case using leaf_lookup [of xs r] by simp
next
  case (6 k b r)
  then have c: "wf_children k b" and k: "k < 4" by (simp_all add: wf_edge_Branch del: wf_edge.simps)
  have "wf_edge k c" if "branch_child b d = Some c" for d c
    using c that map_of_SomeD [of "branch_pairs b" d c]
    by (auto simp: wf_children_def map_of_branch_pairs)
  then show ?case
    using 6 k c child_le [OF k] map_of_branch_entries [OF c k 6(4)]
    by (auto simp del: entries.simps wf_edge.simps split: option.splits)
qed (auto simp: map_of_read_map_bitmap)

section \<open>Insertion\<close>

lemma leaf_insert_pos_pos: "asc xs \<Longrightarrow> leaf_insert_pos xs r = lower_pos r xs"
proof -
  assume asc: "asc xs"
  show ?thesis
  proof (cases "0 < length xs \<and> fst (xs ! (length xs - 1)) < r")
    case True
    have "fst (xs ! i) < r" if "i < length xs" for i
    proof (cases "i = length xs - 1")
      case False
      then have "i < length xs - 1" using that by simp
      then show ?thesis using True asc_nth_less [OF asc, of i "length xs - 1"] by (auto intro: less_trans)
    qed (use True in simp)
    then have "length xs = lower_pos r xs" by (intro lower_pos_eqI [OF asc]) auto
    with True show ?thesis by (simp add: leaf_insert_pos_def)
  next
    case False
    then show ?thesis using leaf_lower_bound_pos [OF asc] by (auto simp: leaf_insert_pos_def)
  qed
qed

lemma key_split:
  "k < 4 \<Longrightarrow> r \<le> rem_mask (Suc k) \<Longrightarrow> combine (digit_at r (Suc k)) (child_rem r (Suc k)) (Suc k) = r"
  using combine_split [of "Suc k" r] by simp

text \<open>The contract of an insertion at a level, and the branch arm over a child that meets it.\<close>

definition ins_post :: "nat \<Rightarrow> edge \<Rightarrow> u32 \<Rightarrow> u32 \<Rightarrow> edge \<times> u32 option \<Rightarrow> bool" where
  "ins_post k e r v res \<longleftrightarrow> wf_edge k (fst res) \<and> fst res \<noteq> Null \<and>
     entries k (fst res) = al_ins r v (entries k e) \<and> snd res = map_of (entries k e) r"

definition ins_ok :: "nat \<Rightarrow> (edge \<Rightarrow> u32 \<Rightarrow> u32 \<Rightarrow> edge \<times> u32 option) \<Rightarrow> bool" where
  "ins_ok k ins \<longleftrightarrow> (\<forall>e r v. wf_edge k e \<longrightarrow> r \<le> rem_mask k \<longrightarrow> ins_post k e r v (ins e r v))"

lemma set_al_ins: "p \<in> set (al_ins d c ps) \<Longrightarrow> p = (d, c) \<or> p \<in> set ps"
  by (auto simp: al_ins_def)

lemma wf_child:
  "wf_children k b \<Longrightarrow> branch_child b d = Some c \<Longrightarrow> c \<noteq> Null \<and> wf_edge k c"
  using map_of_SomeD [of "branch_pairs b" d c] by (auto simp: wf_children_def map_of_branch_pairs)

text \<open>A branch is determined by its children: to know its entries it is enough to know, for every
  remainder, what the child at its digit holds.\<close>

lemma branch_entries_eqI:
  assumes k: "k < 4" and b: "wf_branch b" and ch: "\<forall>p\<in>set (branch_pairs b). snd p \<noteq> Null \<and> wf_edge k (snd p)"
    and X: "asc X" "keys_le (Suc k) X" "branch_count b = of_nat (length X)"
    and eq: "\<And>s. s \<le> rem_mask (Suc k) \<Longrightarrow> (case branch_child b (digit_at s (Suc k)) of
         None \<Rightarrow> None | Some c \<Rightarrow> map_of (entries k c) (child_rem s (Suc k))) = map_of X s"
  shows "wf_children k b \<and> entries (Suc k) (Branch b) = X"
proof -
  have asc: "asc (child_entries k b)"
    using asc_branch_pairs [OF b] by (simp add: child_entries_def comp_def split_beta)
  have ce: "asc (snd p) \<and> keys_le k (snd p)" if "p \<in> set (child_entries k b)" for p
    using that ch entries_wf [of k] k by (auto simp: child_entries_def)
  have asc_e: "asc (entries (Suc k) (Branch b))" and le_e: "keys_le (Suc k) (entries (Suc k) (Branch b))"
    unfolding entries_Branch using asc ce k by (auto intro!: asc_flatten flatten_keys_le)
  have "map_of (entries (Suc k) (Branch b)) s = map_of X s" for s
  proof (cases "s \<le> rem_mask (Suc k)")
    case True
    show ?thesis
      unfolding entries_Branch
      by (subst map_of_flatten [OF k _ asc_distinct [OF asc] True])
        (use ce eq [OF True] in \<open>auto simp: map_of_child_entries [OF b] split: option.splits\<close>)
  next
    case False
    then have "map_of xs s = None" if "keys_le (Suc k) xs" for xs
      using that by (auto simp: map_of_eq_None_iff keys_le_def)
    then show ?thesis using le_e X(2) by simp
  qed
  then have "entries (Suc k) (Branch b) = X" by (intro asc_unique [OF asc_e X(1)]) (simp add: fun_eq_iff)
  then show ?thesis using b ch X(3) by (simp add: wf_children_def)
qed

lemma branch_child_cong:
  assumes "wf_branch b" and "wf_branch b'"
  shows "branch_pairs b' = al_ins d c (branch_pairs b) \<Longrightarrow> branch_child b' = (branch_child b)(d \<mapsto> c)"
    and "branch_pairs b' = al_del d (branch_pairs b) \<Longrightarrow> branch_child b' = (branch_child b)(d := None)"
  by (simp_all add: fun_eq_iff map_of_branch_pairs [OF assms(1), symmetric] map_of_branch_pairs [OF assms(2), symmetric]
      map_of_al_ins map_of_al_del)

text \<open>Replacing or adding the child at a digit replaces the entries with that digit.\<close>

lemma key_eq_iff:
  "k < 4 \<Longrightarrow> s \<le> rem_mask (Suc k) \<Longrightarrow> r \<le> rem_mask (Suc k) \<Longrightarrow>
   s = r \<longleftrightarrow> digit_at s (Suc k) = digit_at r (Suc k) \<and> child_rem s (Suc k) = child_rem r (Suc k)"
  by (metis key_split)

lemma entries_replace:
  assumes "wf_children k b" and "k < 4" and "wf_branch b'" and "branch_pairs b' = al_ins d c' (branch_pairs b)"
    and "c' \<noteq> Null" and "wf_edge k c'" and "d = digit_at r (Suc k)" and "r \<le> rem_mask (Suc k)"
    and "branch_count b' = of_nat (length (al_ins r v (entries (Suc k) (Branch b))))"
    and "entries k c' = al_ins (child_rem r (Suc k)) v (case branch_child b d of None \<Rightarrow> [] | Some c \<Rightarrow> entries k c)"
  shows "wf_children k b' \<and> entries (Suc k) (Branch b') = al_ins r v (entries (Suc k) (Branch b))"
proof (rule branch_entries_eqI [OF assms(2,3) _ _ _ assms(9)])
  have w: "wf_branch b" using assms(1) by (simp add: wf_children_def)
  note old = branch_entries_wf [OF assms(1,2)]
  show "\<forall>p\<in>set (branch_pairs b'). snd p \<noteq> Null \<and> wf_edge k (snd p)"
    using assms(1,4,5,6) by (auto simp: wf_children_def dest!: set_al_ins)
  show "asc (al_ins r v (entries (Suc k) (Branch b)))" and "keys_le (Suc k) (al_ins r v (entries (Suc k) (Branch b)))"
    using asc_al_ins [OF old(1)] keys_le_ins [OF old(2) assms(8)] by auto
  fix s
  assume s: "s \<le> rem_mask (Suc k)"
  show "(case branch_child b' (digit_at s (Suc k)) of None \<Rightarrow> None
       | Some c \<Rightarrow> map_of (entries k c) (child_rem s (Suc k))) = map_of (al_ins r v (entries (Suc k) (Branch b))) s"
    using map_of_branch_entries [OF assms(1,2) s] key_eq_iff [OF assms(2) s assms(8)] assms(7)
    by (auto simp: map_of_al_ins branch_child_cong(1) [OF w assms(3,4)] assms(10) simp del: entries.simps split: option.splits)
qed

lemma map_insert_branch_ok:
  assumes "ins_ok k ins" and "k < 4" and "wf_children k b" and "r \<le> rem_mask (Suc k)"
  shows "wf_children k (fst (map_insert_branch ins (Suc k) b r v))"
    and "branch_pairs (fst (map_insert_branch ins (Suc k) b r v)) \<noteq> []"
    and "entries (Suc k) (Branch (fst (map_insert_branch ins (Suc k) b r v))) = al_ins r v (entries (Suc k) (Branch b))"
    and "snd (map_insert_branch ins (Suc k) b r v) = map_of (entries (Suc k) (Branch b)) r"
proof -
  let ?d = "digit_at r (Suc k)" and ?cr = "child_rem r (Suc k)" and ?E = "entries (Suc k) (Branch b)"
  let ?b' = "fst (map_insert_branch ins (Suc k) b r v)"
  let ?c = "case branch_child b ?d of None \<Rightarrow> Null | Some c \<Rightarrow> c"
  let ?c' = "fst (ins ?c ?cr v)"
  have w: "wf_branch b" and cnt: "branch_count b = of_nat (length ?E)"
    using assms(3) by (simp_all add: wf_children_def del: entries.simps)
  have "wf_edge k ?c" using wf_child [OF assms(3)] by (auto split: option.split)
  then have c': "wf_edge k ?c'" "?c' \<noteq> Null" "entries k ?c' = al_ins ?cr v (entries k ?c)"
      "snd (ins ?c ?cr v) = map_of (entries k ?c) ?cr"
    using assms(1) child_le [OF assms(2)] by (auto simp: ins_ok_def ins_post_def)
  have get: "map_of ?E r = map_of (entries k ?c) ?cr"
    by (simp add: map_of_branch_entries [OF assms(3,2,4)] del: entries.simps split: option.split) simp
  have len: "of_nat (length (al_ins r v ?E)) = branch_count b + (if map_of (entries k ?c) ?cr = None then 1 else 0)"
    using length_al_ins [OF branch_entries_wf(1) [OF assms(3,2)], of r v] get cnt by simp
  have b': "wf_branch ?b' \<and> branch_pairs ?b' = al_ins ?d ?c' (branch_pairs b) \<and>
      branch_count ?b' = branch_count b + (if map_of (entries k ?c) ?cr = None then 1 else 0)"
    using branch_commit_laws [OF w, of ?d] branch_insert_new_laws [OF w, of ?d] c'(4)
    by (cases "branch_child b ?d") (auto simp: map_insert_branch_def Let_def split_beta)
  have "wf_children k ?b' \<and> entries (Suc k) (Branch ?b') = al_ins r v ?E"
    using b' c'(1-3) len
    by (intro entries_replace [OF assms(3,2), of _ ?d ?c']) (auto simp: assms(4) del: entries.simps split: option.split)
  then show "wf_children k ?b'" and "entries (Suc k) (Branch ?b') = al_ins r v ?E" by auto
  show "branch_pairs ?b' \<noteq> []" using b' by (simp add: al_ins_def)
  show "snd (map_insert_branch ins (Suc k) b r v) = map_of ?E r"
    using c'(4) unfolding get by (auto simp: map_insert_branch_def Let_def split_beta split: option.split)
qed

lemma fold_al_ins:
  "asc ys \<Longrightarrow> distinct (map fst xs) \<Longrightarrow> asc (fold (\<lambda>(r, v). al_ins r v) xs ys) \<and>
   map_of (fold (\<lambda>(r, v). al_ins r v) xs ys) = map_of ys ++ map_of xs"
proof (induction xs arbitrary: ys)
  case (Cons x xs)
  then have "map_of xs (fst x) = None" by (simp add: map_of_eq_None_iff)
  with Cons show ?case
    by (auto simp: asc_al_ins map_of_al_ins split_beta map_add_def fun_eq_iff split: option.splits)
qed simp

lemma fold_al_ins_id: "asc xs \<Longrightarrow> fold (\<lambda>(r, v). al_ins r v) xs [] = xs"
  using fold_al_ins [of "[]" xs] by (intro asc_unique) (auto simp: asc_distinct)

lemma split_fold:
  assumes "ins_ok k ins" and "k < 4" and "wf_children k b" and "keys_le (Suc k) xs"
  shows "wf_children k (fold (\<lambda>(r, v) b. fst (map_insert_branch ins (Suc k) b r v)) xs b) \<and>
    entries (Suc k) (Branch (fold (\<lambda>(r, v) b. fst (map_insert_branch ins (Suc k) b r v)) xs b)) =
      fold (\<lambda>(r, v). al_ins r v) xs (entries (Suc k) (Branch b))"
  using assms(3,4)
proof (induction xs arbitrary: b)
  case (Cons x xs)
  note step = map_insert_branch_ok [OF assms(1,2) Cons.prems(1), of "fst x" "snd x"]
  show ?case
    using Cons.IH [OF step(1)] step(3) Cons.prems(2) by (simp add: split_beta del: entries.simps)
qed (simp del: entries.simps)

lemma wf_children_empty: "wf_children k (make_l2 [] 0)"
  by (simp add: wf_children_def make_l2_def branch_consts)

lemma leaf_overwrite:
  assumes "asc xs" and "leaf_insert_pos xs r < length xs" and "fst (xs ! leaf_insert_pos xs r) = r"
  shows "xs[leaf_insert_pos xs r := (r, v)] = al_ins r v xs"
    and "map_of xs r = Some (snd (xs ! leaf_insert_pos xs r))"
  using assms update_lower_pos [OF assms(1), of r v] lower_pos_value [OF assms(1), of r]
  by (simp_all add: leaf_insert_pos_pos)

lemma leaf_new:
  assumes "asc xs" and "\<not> (leaf_insert_pos xs r < length xs \<and> fst (xs ! leaf_insert_pos xs r) = r)"
  shows "insert_at (leaf_insert_pos xs r) (r, v) xs = al_ins r v xs" and "map_of xs r = None"
proof -
  show "map_of xs r = None" using assms lower_pos_hit [OF assms(1), of r] by (auto simp: leaf_insert_pos_pos)
  then show "insert_at (leaf_insert_pos xs r) (r, v) xs = al_ins r v xs"
    using insert_at_lower_pos [OF assms(1)] by (simp add: leaf_insert_pos_pos assms(1))
qed

lemma ucast_mono: "a < b \<Longrightarrow> a \<le> rem_mask 1 \<Longrightarrow> b \<le> rem_mask 1 \<Longrightarrow> (ucast (a :: u32) :: u8) < ucast b"
  using ucast_u8_less [of "ucast a" "ucast b"] ucast_u32_u8 [of a] ucast_u32_u8 [of b] by simp

lemma asc_ucast: "asc xs \<Longrightarrow> keys_le 1 xs \<Longrightarrow> asc (map (\<lambda>p. (ucast (fst p) :: u8, snd p)) xs)"
  by (induction xs) (auto simp: keys_le_def intro!: ucast_mono [simplified])

lemma entries_make_map_bitmap:
  assumes "asc xs" and "keys_le 1 xs"
  shows "entries kb (make_map_bitmap xs) = xs"
proof -
  have "map (\<lambda>(d, v). (ucast d :: u32, v)) (map (\<lambda>p. (ucast (fst p) :: u8, snd p)) xs) = xs"
    using assms(2) by (induction xs) (auto simp: ucast_u32_u8)
  then show ?thesis
    using barr_pairs_make [OF asc_ucast [OF assms]] by (simp add: make_map_bitmap_def read_map_bitmap_def)
qed

lemma wf_make_map_bitmap:
  assumes "asc xs" and "keys_le 1 xs" and "MAP_BITMAP_LEAVE < length xs"
  shows "wf_edge 1 (make_map_bitmap xs)"
  using assms wf_make [OF asc_ucast [OF assms(1,2)]] barr_pairs_make [OF asc_ucast [OF assms(1,2)]]
  by (auto simp: make_map_bitmap_def)

lemma read_map_bitmap_ins:
  assumes "wf_barr b" and "r \<le> rem_mask 1" and "b' = barr_put b (ucast r) v \<and> barr_get b (ucast r) \<noteq> None \<or>
      b' = barr_insert b (ucast r) v \<and> barr_get b (ucast r) = None"
  shows "wf_barr b'" and "read_map_bitmap b' = al_ins r v (read_map_bitmap b)"
proof -
  show "wf_barr b'" using assms bitmap_table.inv_put bitmap_table.inv_insert by metis
  have p: "barr_pairs b' = al_ins (ucast r) v (barr_pairs b)"
    using assms bitmap_table.pairs_put bitmap_table.pairs_insert by metis
  have "fst p < ucast r \<longleftrightarrow> (ucast (fst p) :: u32) < r" "ucast r < fst p \<longleftrightarrow> r < ucast (fst p)" for p :: "u8 \<times> u32"
    using ucast_u8_less [of "fst p" "ucast r"] ucast_u8_less [of "ucast r" "fst p"] ucast_u32_u8 [OF assms(2)] by simp_all
  then show "read_map_bitmap b' = al_ins r v (read_map_bitmap b)"
    unfolding read_map_bitmap_def p al_ins_def
    by (simp add: filter_map comp_def split_beta ucast_u32_u8 [OF assms(2)])
qed

lemma insert_leaf_hit:
  assumes w: "wf_edge (Suc k) (MapLeaf xs)" and r: "r \<le> rem_mask (Suc k)"
    and hit: "leaf_insert_pos xs r < length xs \<and> fst (xs ! leaf_insert_pos xs r) = r"
  shows "ins_post (Suc k) (MapLeaf xs) r v (map_insert (Suc k) (MapLeaf xs) r v)"
proof -
  have asc: "asc xs" and le: "keys_le (Suc k) xs" using w by auto
  note o1 = leaf_overwrite(1) [OF asc, of r v] and o2 = leaf_overwrite(2) [OF asc, of r]
  have "length (al_ins r v xs) = length xs" using length_update [OF asc] o2 hit by simp
  then show ?thesis
    using hit o1 o2 w asc_al_ins [OF asc] keys_le_ins [OF le r] by (auto simp: Let_def ins_post_def)
qed

lemma insert_leaf_new:
  assumes w: "wf_edge (Suc k) (MapLeaf xs)" and r: "r \<le> rem_mask (Suc k)"
    and miss: "\<not> (leaf_insert_pos xs r < length xs \<and> fst (xs ! leaf_insert_pos xs r) = r)"
    and ok: "1 \<le> k \<Longrightarrow> ins_ok k (map_insert k)" and k: "k < 4"
  shows "ins_post (Suc k) (MapLeaf xs) r v (map_insert (Suc k) (MapLeaf xs) r v)"
proof -
  have asc: "asc xs" and le: "keys_le (Suc k) xs" using w by auto
  note n = leaf_new(1) [OF asc miss, of v] leaf_new(2) [OF asc miss]
  note le' = keys_le_ins [OF le r, of v] and asc' = asc_al_ins [OF asc, of r v]
  have len: "length (al_ins r v xs) = Suc (length xs)" using length_al_ins [OF asc] n(2) by simp
  consider (bitmap) "k = 0" "MAP_BITMAP_ENTER \<le> length xs" | (split) "1 \<le> k" "MAP_LEAF_MAX \<le> length xs"
    | (leaf) "k = 0" "length xs < MAP_BITMAP_ENTER" | (leaf') "1 \<le> k" "length xs < MAP_LEAF_MAX"
    by linarith
  then show ?thesis
  proof cases
    case bitmap
    then show ?thesis
      using miss n wf_make_map_bitmap [OF asc'] entries_make_map_bitmap [OF asc'] le' len
      by (auto simp: Let_def make_map_bitmap_def map_consts ins_post_def)
  next
    case split
    note f = split_fold [OF ok [OF split(1)] k wf_children_empty le]
    have e: "entries (Suc k) (Branch (make_l2 [] 0)) = []" by (simp add: make_l2_def)
    note s = map_insert_branch_ok [OF ok [OF split(1)] k f [THEN conjunct1] r, of v,
        unfolded f [THEN conjunct2] e fold_al_ins_id [OF asc]]
    have "map_insert (Suc k) (MapLeaf xs) r v = (Branch (fst (map_insert_branch (map_insert k) (Suc k)
        (fold (\<lambda>(r, v) b. fst (map_insert_branch (map_insert k) (Suc k) b r v)) xs (make_l2 [] 0)) r v)), None)"
      using split miss by (auto simp: Let_def)
    then show ?thesis
      using split(1) n(2) s by (simp add: ins_post_def wf_edge_Branch del: entries.simps(6) wf_edge.simps(6) map_insert.simps)
  qed (use miss n len w asc' le' in \<open>auto simp: Let_def map_consts ins_post_def\<close>)
qed

lemma insert_bitmap:
  assumes w: "wf_edge (Suc k) (MapBitmap pop0 b)" and r: "r \<le> rem_mask (Suc k)"
  shows "ins_post (Suc k) (MapBitmap pop0 b) r v (map_insert (Suc k) (MapBitmap pop0 b) r v)"
proof -
  have k: "k = 0" and wb: "wf_barr b" and len: "length (read_map_bitmap b) = pop0 + 1"
    using w by (auto simp: read_map_bitmap_def)
  have r1: "r \<le> rem_mask 1" using r k by simp
  have l: "length (barr_pairs b') = length (read_map_bitmap b')" for b' by (simp add: read_map_bitmap_def)
  show ?thesis
    using k w map_of_read_map_bitmap [OF r1, of b] read_map_bitmap_ins [OF wb r1, of _ v]
      length_al_ins [OF asc_read_map_bitmap, of r v b] len
    by (cases "barr_get b (ucast r)") (auto simp: Let_def l ins_post_def)
qed

theorem map_insert_ok: "1 \<le> kb \<Longrightarrow> kb \<le> 4 \<Longrightarrow> ins_ok kb (map_insert kb)"
proof (induction kb)
  case (Suc k)
  have "ins_post (Suc k) e r v (map_insert (Suc k) e r v)"
    if w: "wf_edge (Suc k) e" and r: "r \<le> rem_mask (Suc k)" for e r v
  proof (cases e)
    case (MapLeaf xs)
    then show ?thesis
      using insert_leaf_hit [of k xs r v] insert_leaf_new [of k xs r v] w r Suc by fastforce
  next
    case (Branch b)
    then have k: "1 \<le> k" "k < 4" and c: "wf_children k b"
      using w Suc.prems by (auto simp: wf_edge_Branch simp del: wf_edge.simps)
    then show ?thesis
      using Branch map_insert_branch_ok [OF _ k(2) c r, of "map_insert k" v] Suc
      by (simp add: ins_post_def split_beta wf_edge_Branch del: entries.simps wf_edge.simps)
  qed (use w r insert_bitmap in \<open>auto simp: ins_post_def al_ins_def map_consts\<close>)
  then show ?case by (simp add: ins_ok_def del: map_insert.simps)
qed simp

section \<open>Removal\<close>

lemma entries_nonempty: "wf_edge kb e \<Longrightarrow> e \<noteq> Null \<Longrightarrow> entries kb e \<noteq> []"
proof (induction kb e rule: entries.induct)
  case (3 kb xs)
  then show ?case by (auto split: if_splits)
next
  case (4 kb pop0 b)
  then show ?case by (auto simp: read_map_bitmap_def)
next
  case (6 k b)
  then obtain p ps where p: "branch_pairs b = p # ps" by (cases "branch_pairs b") auto
  then have "entries k (snd p) \<noteq> []" using 6 by (cases p) auto
  then show ?case by (simp add: p lift_entries_def split_beta)
qed auto

definition rem_post :: "nat \<Rightarrow> edge \<Rightarrow> u32 \<Rightarrow> edge \<times> u32 option \<Rightarrow> bool" where
  "rem_post k e r res \<longleftrightarrow> wf_edge k (fst res) \<and> entries k (fst res) = al_del r (entries k e) \<and>
     snd res = map_of (entries k e) r"

lemma al_del_miss: "map_of xs r = None \<Longrightarrow> al_del r xs = xs"
  by (auto simp: al_del_def map_of_eq_None_iff filter_id_conv)

lemma rem_post_miss: "wf_edge k e \<Longrightarrow> map_of (entries k e) r = None \<Longrightarrow> rem_post k e r (e, None)"
  by (simp add: rem_post_def al_del_miss)

lemma two_survivor:
  assumes "length xs = 2" and "asc xs" and "pos < 2" and "fst (xs ! pos) = r" and "i = (if pos = 0 then 1 else 0)"
  shows "al_del r xs = [xs ! i]"
proof -
  obtain x y where "xs = [x, y]" using assms(1) by (auto simp: numeral_2_eq_2 length_Suc_conv)
  then show ?thesis using assms(2-5) by (cases "pos = 0") (auto simp: al_del_def less_2_cases_iff)
qed

lemma remove_leaf:
  assumes w: "wf_edge (Suc k) (MapLeaf xs)" and r: "r \<le> rem_mask (Suc k)"
  shows "rem_post (Suc k) (MapLeaf xs) r (map_remove (Suc k) (MapLeaf xs) r)"
proof (cases "leaf_lower_bound xs r < length xs \<and> fst (xs ! leaf_lower_bound xs r) = r")
  case True
  have asc: "asc xs" and le: "keys_le (Suc k) xs" using w by auto
  let ?pos = "lower_pos r xs"
  have p: "leaf_lower_bound xs r = ?pos" by (rule leaf_lower_bound_pos [OF asc])
  have hit: "?pos < length xs" "fst (xs ! ?pos) = r" using True p by auto
  have val: "map_of xs r = Some (snd (xs ! ?pos))" by (rule lower_pos_value [OF asc hit])
  have del: "remove_span ?pos (Suc ?pos) xs = al_del r xs" by (rule remove_lower_pos [OF asc hit])
  have len: "length (al_del r xs) = length xs - 1" using length_al_del [OF asc, of r] val by simp
  have two: "length xs = 2 \<Longrightarrow> al_del r xs = [xs ! (if ?pos = 0 then 1 else 0)]"
    using two_survivor [OF _ asc _ hit(2)] hit(1) by simp
  have one: "length xs = 1 \<Longrightarrow> al_del r xs = []" using len by simp
  have le': "\<forall>i<length xs. fst (xs ! i) \<le> rem_mask (Suc k)" using le by (simp add: keys_le_def)
  have le0: "fst (xs ! 0) \<le> rem_mask (Suc k)" using le' hit(1) by (metis gr_zeroI not_less0)
  show ?thesis
    using hit val del len two one le' le0 w asc_al_del [OF asc] keys_le_del [OF le]
    by (auto simp: Let_def p rem_post_def)
next
  case False
  have asc: "asc xs" using w by auto
  have "map_of xs r = None"
    using False lower_pos_hit [OF asc, of r] leaf_lower_bound_pos [OF asc, of r] by auto
  then show ?thesis using False w rem_post_miss [of "Suc k" "MapLeaf xs" r] by (auto simp: Let_def)
qed

lemma read_map_bitmap_del:
  assumes "wf_barr b" and "r \<le> rem_mask 1" and "barr_get b (ucast r) \<noteq> None"
  shows "read_map_bitmap (barr_remove b (ucast r)) = al_del r (read_map_bitmap b)"
proof -
  have "fst p \<noteq> ucast r \<longleftrightarrow> ucast (fst p) \<noteq> r" for p :: "u8 \<times> u32"
    using ucast_eq_iff [OF assms(2), of "fst p"] by auto
  then show ?thesis
    unfolding read_map_bitmap_def al_del_def
    by (simp add: bitmap_table.pairs_remove [OF assms(1,3)] al_del_def filter_map comp_def split_beta)
qed

lemma map_bitmap_shrink_ok:
  assumes "wf_barr b" and "length (barr_pairs b) = pop" and "0 < pop \<Longrightarrow> pop0 + 1 = pop"
  shows "wf_edge 1 (map_bitmap_shrink pop pop0 b) \<and> entries 1 (map_bitmap_shrink pop pop0 b) = read_map_bitmap b"
proof -
  have len: "length (read_map_bitmap b) = pop" using assms(2) by (simp add: read_map_bitmap_def)
  show ?thesis
  proof (cases "pop = 1")
    case True
    then obtain p where "read_map_bitmap b = [p]" using len by (auto simp: length_Suc_conv)
    then show ?thesis
      using True keys_le_read_map_bitmap [of b] by (auto simp: map_bitmap_shrink_def map_consts Let_def)
  next
    case False
    then show ?thesis
      using len assms asc_read_map_bitmap [of b] keys_le_read_map_bitmap [of b]
      by (auto simp: map_bitmap_shrink_def map_consts Let_def)
  qed
qed

lemma remove_bitmap:
  assumes w: "wf_edge (Suc k) (MapBitmap pop0 b)" and r: "r \<le> rem_mask (Suc k)"
  shows "rem_post (Suc k) (MapBitmap pop0 b) r (map_remove (Suc k) (MapBitmap pop0 b) r)"
proof (cases "barr_get b (ucast r)")
  case None
  then show ?thesis
    using w r map_of_read_map_bitmap [of r b] by (auto intro!: rem_post_miss simp: Let_def)
next
  case (Some old)
  have k: "k = 0" and wb: "wf_barr b" and len: "length (barr_pairs b) = pop0 + 1" using w by auto
  have r1: "r \<le> rem_mask 1" using r k by simp
  have hit: "barr_get b (ucast r) \<noteq> None" using Some by simp
  have "length (barr_pairs (barr_remove b (ucast r))) = pop0"
    using bitmap_table.pairs_remove [OF wb hit] length_al_del [OF asc_barr_pairs, of "ucast r" b] Some len
    by (simp add: map_of_barr_pairs)
  then have "wf_edge 1 (map_bitmap_shrink pop0 (if 0 < pop0 then pop0 - 1 else pop0) (barr_remove b (ucast r))) \<and>
      entries 1 (map_bitmap_shrink pop0 (if 0 < pop0 then pop0 - 1 else pop0) (barr_remove b (ucast r))) = al_del r (read_map_bitmap b)"
    using map_bitmap_shrink_ok [OF bitmap_table.inv_remove [OF wb hit]] read_map_bitmap_del [OF wb r1 hit] by simp
  then show ?thesis
    using Some k map_of_read_map_bitmap [OF r1, of b] by (simp add: rem_post_def)
qed

lemma set_al_del: "p \<in> set (al_del d ps) \<Longrightarrow> p \<in> set ps"
  by (simp add: al_del_def)

text \<open>Taking the child at a digit out of a branch takes out the entries with that digit.\<close>

lemma drop_child:
  assumes c: "wf_children k b" and k: "k < 4" and X: "asc X" "keys_le (Suc k) X"
    and eq: "\<And>s. s \<le> rem_mask (Suc k) \<Longrightarrow>
      map_of X s = (if digit_at s (Suc k) = d then None else map_of (entries (Suc k) (Branch b)) s)"
    and rd: "case b' of None \<Rightarrow> al_del d (branch_pairs b) = []
      | Some b' \<Rightarrow> wf_branch b' \<and> branch_pairs b' = al_del d (branch_pairs b) \<and> branch_pairs b' \<noteq> []
          \<and> branch_count b' = of_nat (length X)"
    and k1: "1 \<le> k"
  shows "wf_edge (Suc k) (edge_of b') \<and> entries (Suc k) (edge_of b') = X"
proof (cases b')
  case None
  have child: "branch_child b s = None" if "s \<noteq> d" for s
    using rd None that c map_of_branch_pairs [of b s] map_of_al_del [of d "branch_pairs b"]
    by (auto simp: wf_children_def fun_eq_iff split: if_splits)
  have "map_of X s = None" for s
  proof (cases "s \<le> rem_mask (Suc k)")
    case True
    then show ?thesis using eq [OF True] map_of_branch_entries [OF c k True] child by auto
  next
    case False
    then show ?thesis using X(2) by (auto simp: map_of_eq_None_iff keys_le_def)
  qed
  then have "X = []" by (metis asc_unique X(1) list.simps(8) map_of.simps(1) sorted_wrt.simps(1) ext)
  then show ?thesis using None by (simp add: edge_of_def)
next
  case (Some b'')
  have wb: "wf_branch b" using c by (simp add: wf_children_def)
  have b'': "wf_branch b''" "branch_pairs b'' = al_del d (branch_pairs b)" using rd Some by auto
  have "wf_children k b'' \<and> entries (Suc k) (Branch b'') = X"
  proof (rule branch_entries_eqI [OF k b''(1) _ X])
    show "\<forall>p\<in>set (branch_pairs b''). snd p \<noteq> Null \<and> wf_edge k (snd p)"
      using c by (auto simp: b''(2) wf_children_def dest!: set_al_del)
    show "branch_count b'' = of_nat (length X)" using rd Some by simp
    fix s
    assume s: "s \<le> rem_mask (Suc k)"
    show "(case branch_child b'' (digit_at s (Suc k)) of None \<Rightarrow> None
       | Some c \<Rightarrow> map_of (entries k c) (child_rem s (Suc k))) = map_of X s"
      using eq [OF s] map_of_branch_entries [OF c k s] branch_child_cong(2) [OF wb b''] by auto
  qed
  then show ?thesis using Some rd k1 by (auto simp: edge_of_def wf_edge_Branch simp del: wf_edge.simps entries.simps)
qed

text \<open>Replacing the child at a digit by another non-null one.\<close>

lemma put_child:
  assumes c: "wf_children k b" and k: "k < 4" and X: "asc X" "keys_le (Suc k) X" "length X < length (entries (Suc k) (Branch b)) + 1"
    and d: "branch_child b d \<noteq> None" and c': "c' \<noteq> Null" "wf_edge k c'"
    and eq: "\<And>s. s \<le> rem_mask (Suc k) \<Longrightarrow>
      map_of X s = (if digit_at s (Suc k) = d then map_of (entries k c') (child_rem s (Suc k))
                    else map_of (entries (Suc k) (Branch b)) s)"
    and delta: "delta = int (length X) - int (length (entries (Suc k) (Branch b)))"
  shows "wf_children k (branch_commit b d c' delta) \<and> entries (Suc k) (Branch (branch_commit b d c' delta)) = X \<and>
    branch_pairs (branch_commit b d c' delta) \<noteq> []"
proof -
  have wb: "wf_branch b" and cnt: "branch_count b = of_nat (length (entries (Suc k) (Branch b)))"
    using c by (simp_all add: wf_children_def del: entries.simps)
  note l = branch_commit_laws [OF wb d, of c' delta]
  have "wf_children k (branch_commit b d c' delta) \<and> entries (Suc k) (Branch (branch_commit b d c' delta)) = X"
  proof (rule branch_entries_eqI [OF k l(1) _ X(1,2)])
    show "\<forall>p\<in>set (branch_pairs (branch_commit b d c' delta)). snd p \<noteq> Null \<and> wf_edge k (snd p)"
      using c c' by (auto simp: l(2) wf_children_def dest!: set_al_ins)
    show "branch_count (branch_commit b d c' delta) = of_nat (length X)"
      unfolding l(3) cnt by (simp add: delta del: entries.simps)
    fix s
    assume s: "s \<le> rem_mask (Suc k)"
    show "(case branch_child (branch_commit b d c' delta) (digit_at s (Suc k)) of None \<Rightarrow> None
       | Some c \<Rightarrow> map_of (entries k c) (child_rem s (Suc k))) = map_of X s"
      using eq [OF s] map_of_branch_entries [OF c k s] branch_child_cong(1) [OF wb l(1,2)] by auto
  qed
  then show ?thesis using l(2) by (simp add: al_ins_def)
qed

lemma remove_branch:
  assumes ok: "\<And>c r. wf_edge k c \<Longrightarrow> r \<le> rem_mask k \<Longrightarrow> rem_post k c r (map_remove k c r)"
    and w: "wf_edge (Suc k) (Branch b)" and k: "k < 4" and r: "r \<le> rem_mask (Suc k)"
  shows "rem_post (Suc k) (Branch b) r (map_remove (Suc k) (Branch b) r)"
proof (cases "map_of (entries (Suc k) (Branch b)) r")
  case None
  have c: "wf_children k b" using w by (simp add: wf_edge_Branch del: wf_edge.simps)
  have "map_remove (Suc k) (Branch b) r = (Branch b, None)"
    using None map_of_branch_entries [OF c k r] ok wf_child [OF c] child_le [OF k]
    by (auto simp: Let_def rem_post_def simp del: entries.simps split: option.splits prod.splits) (metis option.distinct(1) snd_conv)+
  then show ?thesis using rem_post_miss [OF w None] by simp
next
  case (Some v)
  let ?d = "digit_at r (Suc k)" and ?cr = "child_rem r (Suc k)" and ?E = "entries (Suc k) (Branch b)"
  have c: "wf_children k b" and k1: "1 \<le> k" using w by (simp_all add: wf_edge_Branch del: wf_edge.simps)
  have wb: "wf_branch b" and cnt: "branch_count b = of_nat (length ?E)"
    using c by (simp_all add: wf_children_def del: entries.simps)
  note E = branch_entries_wf [OF c k]
  note X = asc_al_del [OF E(1), of r] keys_le_del [OF E(2), of r]
  obtain child where ch: "branch_child b ?d = Some child" and hit: "map_of (entries k child) ?cr = Some v"
    using Some map_of_branch_entries [OF c k r] by (auto simp del: entries.simps split: option.splits)
  obtain child' where res: "map_remove k child ?cr = (child', Some v)"
    and ch': "wf_edge k child'" "entries k child' = al_del ?cr (entries k child)"
    using ok [OF wf_child [OF c ch, THEN conjunct2] child_le [OF k, of r]] hit
    by (cases "map_remove k child ?cr") (auto simp: rem_post_def)
  have len: "Suc (length (al_del r ?E)) = length ?E"
    using length_al_del [OF E(1), of r] Some by (cases ?E) (auto simp del: entries.simps)
  have eq: "map_of (al_del r ?E) s = (if digit_at s (Suc k) = ?d then map_of (entries k child') (child_rem s (Suc k))
      else map_of ?E s)" if s: "s \<le> rem_mask (Suc k)" for s
    using key_eq_iff [OF k s r] map_of_branch_entries [OF c k s] ch
    by (auto simp: map_of_al_del ch'(2) simp del: entries.simps)
  show ?thesis
  proof (cases "child' = Null")
    case True
    have "wf_edge (Suc k) (edge_of (branch_remove_digit (branch_add_keys b (- 1)) ?d)) \<and>
        entries (Suc k) (edge_of (branch_remove_digit (branch_add_keys b (- 1)) ?d)) = al_del r ?E"
    proof (rule drop_child [OF c k X _ _ k1])
      show "case branch_remove_digit (branch_add_keys b (- 1)) ?d of None \<Rightarrow> al_del ?d (branch_pairs b) = []
        | Some b' \<Rightarrow> wf_branch b' \<and> branch_pairs b' = al_del ?d (branch_pairs b) \<and> branch_pairs b' \<noteq> []
            \<and> branch_count b' = of_nat (length (al_del r ?E))"
        using branch_remove_digit_laws [of "branch_add_keys b (- 1)" ?d] wb ch cnt
        by (auto simp: len [symmetric] simp del: entries.simps split: option.splits)
    qed (use eq True ch'(2) in simp)
    then show ?thesis using True ch res Some by (simp add: rem_post_def del: entries.simps wf_edge.simps)
  next
    case False
    then show ?thesis
      using put_child [OF c k X _ _ False ch'(1) eq, of "- 1"] ch res Some len k1
      by (simp add: rem_post_def wf_edge_Branch del: entries.simps wf_edge.simps)
  qed
qed

theorem map_remove_ok:
  "wf_edge kb e \<Longrightarrow> kb \<le> 4 \<Longrightarrow> r \<le> rem_mask kb \<Longrightarrow> e = Null \<or> 1 \<le> kb \<Longrightarrow> rem_post kb e r (map_remove kb e r)"
proof (induction kb arbitrary: e r)
  case (Suc k)
  show ?case
  proof (cases e)
    case (Branch b)
    then have "1 \<le> k" using Suc.prems by simp
    then show ?thesis using Branch Suc remove_branch [of k b r] by auto
  qed (use Suc.prems remove_leaf remove_bitmap in \<open>auto simp: rem_post_def al_del_def\<close>)
qed (simp add: rem_post_def al_del_def)

section \<open>Properties\<close>

text \<open>The binary search of a linear leaf ends at the first position whose key is not below the
  needle, within the bounds of the leaf.\<close>

theorem leaf_lower_bound_correct:
  assumes "asc xs"
  shows "leaf_lower_bound xs k \<le> length xs \<and> (\<forall>i<leaf_lower_bound xs k. fst (xs ! i) < k) \<and>
    (\<forall>i<length xs. leaf_lower_bound xs k \<le> i \<longrightarrow> k \<le> fst (xs ! i))"
  using leaf.search_whole [OF assms, of k] lower_pos_le [of k xs] lower_pos_less [of _ k xs] lower_pos_ge [OF assms]
  by (auto simp: leaf_lower_bound_def)

theorem leaf_lower_bound_correct_witness:
  "let xs = [(2, 20), (5, 50), (9, 90)]
   in leaf_lower_bound xs 6 \<le> length xs \<and> (\<forall>i<leaf_lower_bound xs 6. fst (xs ! i) < 6) \<and>
      (\<forall>i<length xs. leaf_lower_bound xs 6 \<le> i \<longrightarrow> 6 \<le> fst (xs ! i))"
  unfolding Let_def by (rule leaf_lower_bound_correct) simp

text \<open>C2. An insertion into a subtree keeps its invariant, changes its entries at the key and nowhere
  else, and returns the value the key had; it covers the growth of an immediate into a leaf, the
  split of a full leaf into a branch of leaves and its turn into a bitmap leaf.\<close>

theorem map_insert_correct:
  assumes "1 \<le> kb" and "kb \<le> 4" and "wf_edge kb e" and "r \<le> rem_mask kb"
  shows "wf_edge kb (fst (map_insert kb e r v)) \<and> entries kb (fst (map_insert kb e r v)) = al_ins r v (entries kb e) \<and>
    snd (map_insert kb e r v) = map_of (entries kb e) r"
  using map_insert_ok [OF assms(1,2)] assms(3,4) by (auto simp: ins_ok_def ins_post_def)

theorem map_insert_correct_witness:
  "let e = MapLeaf [(1, 10), (2, 20), (3, 30), (4, 40), (5, 50), (6, 60), (7, 70), (8, 80), (9, 90), (10, 100),
      (11, 110), (12, 120), (13, 130), (14, 140), (15, 150), (0x10000, 160)]
   in wf_edge 4 (fst (map_insert 4 e 300 7)) \<and> entries 4 (fst (map_insert 4 e 300 7)) = al_ins 300 7 (entries 4 e) \<and>
      snd (map_insert 4 e 300 7) = map_of (entries 4 e) 300"
  unfolding Let_def by (rule map_insert_correct) (simp_all add: map_consts keys_le_def)

text \<open>C3. A removal keeps the invariant, forgets the key and no other, returns the value it had, and the
  lookup of any key afterwards agrees.\<close>

theorem map_remove_correct:
  assumes "1 \<le> kb" and "kb \<le> 4" and "wf_edge kb e" and "r \<le> rem_mask kb" and "s \<le> rem_mask kb"
  shows "wf_edge kb (fst (map_remove kb e r)) \<and> entries kb (fst (map_remove kb e r)) = al_del r (entries kb e) \<and>
    snd (map_remove kb e r) = map_get kb e r \<and>
    map_get kb (fst (map_remove kb e r)) s = (if s = r then None else map_get kb e s)"
proof -
  have "rem_post kb e r (map_remove kb e r)" using map_remove_ok assms by blast
  then show ?thesis using assms by (simp add: rem_post_def map_get_entries map_of_al_del)
qed

theorem map_remove_correct_witness:
  "let e = Branch (L2 3 [(0, MapImmed 7 70), (2, MapLeaf [(1, 10), (5, 50)])])
   in wf_edge 4 (fst (map_remove 4 e 7)) \<and> entries 4 (fst (map_remove 4 e 7)) = al_del 7 (entries 4 e) \<and>
      snd (map_remove 4 e 7) = map_get 4 e 7 \<and>
      map_get 4 (fst (map_remove 4 e 7)) 0x2000005 = (if 0x2000005 = (7 :: u32) then None else map_get 4 e 0x2000005)"
  unfolding Let_def
proof (rule map_remove_correct)
  show "wf_edge 4 (Branch (L2 3 [(0, MapImmed 7 70), (2, MapLeaf [(1, 10), (5, 50)])]))"
    using wf_edge_Branch [of 3] entries_Branch [of 3]
    by (simp add: wf_children_def child_entries_def flatten_def lift_entries_def branch_consts map_consts keys_le_def
        rem_mask_def push_bit_eq_mult)
qed simp_all

end
