(* ===== verification/Trie32_Range.thy ===== *)
theory Trie32_Range
  imports Trie32_Correct
begin

text \<open>
  Ordered access of the 32-bit map engine (\<^verbatim>\<open>crates/expanse/src/trie32.rs\<close>): the smallest entry,
  the successor of a key, the streaming walk over a range that a callback may stop, and the
  batched removal of a range. Callbacks are functions on an explicit context; a removal returns
  the entries it reports, in the order of the calls.
\<close>

section \<open>Operations\<close>

fun branch_first_child :: "'e branch \<Rightarrow> (u8 \<times> 'e) option" where
  "branch_first_child (L2 _ ps) = (if 0 < length ps then Some (ps ! 0) else None)"
| "branch_first_child (L6 _ ps) = (if 0 < length ps then Some (ps ! 0) else None)"
| "branch_first_child (B _ _ b) =
    (case first_ge_words (bitmap b) 0 (bitmap b ! 0) of
       None \<Rightarrow> None
     | Some d \<Rightarrow> Some (d, subarrays b ! unat (drop_bit 5 d) ! barr_rank b d))"
| "branch_first_child (U _ _ us) =
    (case filter (\<lambda>n. us ! n \<noteq> None) [0..<256] of [] \<Rightarrow> None | n # _ \<Rightarrow> Some (of_nat n, the (us ! n)))"

fun first_entry :: "nat \<Rightarrow> edge \<Rightarrow> (u32 \<times> u32) option" where
  "first_entry kb Null = None"
| "first_entry kb (MapImmed r v) = Some (r, v)"
| "first_entry kb (MapLeaf xs) = (if length xs = 0 then None else Some (xs ! 0))"
| "first_entry kb (MapBitmap pop0 b) = map_option (map_bitmap_entry b) (bitmap_first_ge_raw (bitmap b) 0)"
| "first_entry 0 (Branch b) = None"
| "first_entry (Suc k) (Branch b) =
    (case branch_first_child b of
       None \<Rightarrow> None
     | Some (d, c) \<Rightarrow> map_option (\<lambda>(cr, v). (combine d cr (Suc k), v)) (first_entry k c))"

definition leaf_index_after :: "(u32 \<times> u32) list \<Rightarrow> nat \<Rightarrow> u32 \<Rightarrow> nat option" where
  "leaf_index_after xs kb after =
    (if rem_mask kb \<le> after then None
     else let i = leaf_lower_bound xs (after + 1) in if i < length xs then Some i else None)"

text \<open>The closure passed to \<^verbatim>\<open>branch_for_each_child\<close> by \<^verbatim>\<open>next_entry\<close>.\<close>

fun next_scan ::
  "(edge \<Rightarrow> (u32 \<times> u32) option) \<Rightarrow> (edge \<Rightarrow> (u32 \<times> u32) option) \<Rightarrow> nat \<Rightarrow> u8 \<Rightarrow> (u8 \<times> edge) list \<Rightarrow> (u32 \<times> u32) option"
where
  "next_scan nxt fst_e kb da [] = None"
| "next_scan nxt fst_e kb da ((d, c) # ps) =
    (if d < da then next_scan nxt fst_e kb da ps
     else case (if d = da then nxt c else fst_e c) of
            Some (cr, v) \<Rightarrow> Some (combine d cr kb, v)
          | None \<Rightarrow> next_scan nxt fst_e kb da ps)"

primrec next_entry :: "nat \<Rightarrow> edge \<Rightarrow> u32 \<Rightarrow> (u32 \<times> u32) option" where
  "next_entry 0 e after = None"
| "next_entry (Suc k) e after = (case e of
      Null \<Rightarrow> None
    | MapImmed r v \<Rightarrow> (if after < r then Some (r, v) else None)
    | MapLeaf xs \<Rightarrow> map_option (\<lambda>i. xs ! i) (leaf_index_after xs (Suc k) after)
    | MapBitmap pop0 b \<Rightarrow>
        (if 255 \<le> after then None
         else map_option (map_bitmap_entry b) (bitmap_first_ge_raw (bitmap b) (unat after + 1)))
    | Branch b \<Rightarrow>
        next_scan (\<lambda>c. next_entry k c (child_rem after (Suc k))) (first_entry k) (Suc k)
          (digit_at after (Suc k)) (branch_pairs b))"

text \<open>The walk over a bitmap leaf: the words of the range, masked at both ends, and the rank of each
  digit, counted afresh only when a subarray is entered.\<close>

definition SUB_NONE :: nat where "SUB_NONE = 255"

definition range_digits :: "u64 list \<Rightarrow> u8 \<Rightarrow> u8 \<Rightarrow> u8 list" where
  "range_digits bm lo_u8 hi_u8 =
    (let w_lo = unat (drop_bit 6 lo_u8); w_hi = unat (drop_bit 6 hi_u8)
     in concat (map (\<lambda>w.
          let word = bm ! w;
              word1 = (if w = w_lo then word AND push_bit (unat (lo_u8 AND 63)) (NOT 0) else word);
              word2 = (if w = w_hi \<and> hi_u8 AND 63 \<noteq> 63
                       then word1 AND (push_bit (unat (hi_u8 AND 63) + 1) 1 - 1) else word1)
          in map (\<lambda>i. of_nat (w * 64 + i)) (set_bits word2)) [w_lo..<Suc w_hi]))"

fun bitmap_walk :: "(u32 \<Rightarrow> u32 \<Rightarrow> 's \<Rightarrow> bool \<times> 's) \<Rightarrow> u32 barr \<Rightarrow> u8 list \<Rightarrow> nat \<Rightarrow> nat \<Rightarrow> 's \<Rightarrow> bool \<times> 's" where
  "bitmap_walk f b [] sub rank s = (True, s)"
| "bitmap_walk f b (d # ds) sub rank s =
    (let this_sub = unat (drop_bit 5 d);
         rank' = (if this_sub = sub then rank + 1 else bitmap_sub_rank (bitmap b ! unat (drop_bit 6 d)) d);
         (go, s') = f (ucast d) (subarrays b ! this_sub ! rank') s
     in if go then bitmap_walk f b ds this_sub rank' s' else (False, s'))"

text \<open>The closure passed to \<^verbatim>\<open>branch_for_each_child\<close> by \<^verbatim>\<open>map_for_each_range\<close>; leaving the range at the
  upper end stops the enumeration of children, not the walk.\<close>

fun range_scan ::
  "(edge \<Rightarrow> u32 \<Rightarrow> u32 \<Rightarrow> u8 \<Rightarrow> 's \<Rightarrow> bool \<times> 's) \<Rightarrow> nat \<Rightarrow> u32 \<Rightarrow> u32 \<Rightarrow> (u8 \<times> edge) list \<Rightarrow> 's \<Rightarrow> bool \<times> 's"
where
  "range_scan sub kb lo hi [] s = (True, s)"
| "range_scan sub kb lo hi ((d, c) # ps) s =
    (let d_lo = digit_at lo kb; d_hi = digit_at hi kb; full = rem_mask (kb - 1)
     in if d < d_lo then range_scan sub kb lo hi ps s
        else if d_hi < d then (True, s)
        else let (clo, chi) =
               (if d = d_lo \<and> d = d_hi then (child_rem lo kb, child_rem hi kb)
                else if d = d_lo then (child_rem lo kb, full)
                else if d = d_hi then (0, child_rem hi kb)
                else (0, full));
                 (go, s') = sub c clo chi d s
             in if go then range_scan sub kb lo hi ps s' else (False, s'))"

primrec map_for_each_range ::
  "nat \<Rightarrow> edge \<Rightarrow> u32 \<Rightarrow> u32 \<Rightarrow> (u32 \<Rightarrow> u32 \<Rightarrow> 's \<Rightarrow> bool \<times> 's) \<Rightarrow> 's \<Rightarrow> bool \<times> 's"
where
  "map_for_each_range 0 e lo hi f s = (True, s)"
| "map_for_each_range (Suc k) e lo hi f s =
    (if hi < lo then (True, s)
     else case e of
      Null \<Rightarrow> (True, s)
    | MapImmed r v \<Rightarrow> (if lo \<le> r \<and> r \<le> hi then f r v s else (True, s))
    | MapLeaf xs \<Rightarrow>
        (let i0 = leaf_lower_bound xs lo;
             i1 = (if rem_mask (Suc k) \<le> hi then length xs else leaf_lower_bound xs (hi + 1))
         in walk f (map (\<lambda>i. xs ! i) [i0..<i1]) s)
    | MapBitmap pop0 b \<Rightarrow>
        (if 255 < lo then (True, s)
         else bitmap_walk f b (range_digits (bitmap b) (ucast lo) (ucast (min hi 255))) SUB_NONE 0 s)
    | Branch b \<Rightarrow>
        range_scan (\<lambda>c clo chi d. map_for_each_range k c clo chi (\<lambda>cr. f (combine d cr (Suc k))))
          (Suc k) lo hi (branch_pairs b) s)"

text \<open>Range removal. One subarray of a bitmap leaf: the reported entries and the survivors.\<close>

definition bitmap_remove_sub ::
  "u32 \<Rightarrow> u32 \<Rightarrow> u32 \<Rightarrow> nat \<Rightarrow> u32 barr \<Rightarrow> u32 barr \<times> (u32 \<times> u32) list"
where
  "bitmap_remove_sub prefix lo hi sub b =
    (let sub_lo = of_nat (sub * 32); sub_hi = sub_lo + 31
     in if sub_hi < lo \<or> hi < sub_lo then (b, [])
        else let w = sub div 2; base = (sub mod 2) * 32; word = bitmap b ! w;
                 from = unat (max lo sub_lo - sub_lo); to = unat (min hi sub_hi - sub_lo);
                 hit = word AND push_bit (from + base) (push_bit (to - from + 1) 1 - 1)
             in if hit = 0 then (b, [])
                else let ivs = zip (set_bits (drop_bit base word AND 0xFFFFFFFF)) (subarrays b ! sub);
                         is_hit = (\<lambda>(i, _). bit hit (base + i));
                         removed = map (\<lambda>(i, v). (prefix OR (sub_lo + of_nat i), v)) (filter is_hit ivs);
                         keep = map snd (filter (\<lambda>iv. \<not> is_hit iv) ivs)
                     in (BArr ((bitmap b)[w := word AND NOT hit]) ((subarrays b)[sub := keep]), removed))"

definition bitmap_remove_range :: "u32 \<Rightarrow> u32 \<Rightarrow> u32 \<Rightarrow> u32 barr \<Rightarrow> u32 barr \<times> (u32 \<times> u32) list" where
  "bitmap_remove_range prefix lo hi b =
    fold (\<lambda>sub (b, removed). let (b', r) = bitmap_remove_sub prefix lo hi sub b in (b', removed @ r)) [0..<8] (b, [])"

fun remove_range_scan ::
  "(edge \<Rightarrow> u32 \<Rightarrow> u32 \<Rightarrow> u32 \<Rightarrow> edge \<times> (u32 \<times> u32) list) \<Rightarrow> nat \<Rightarrow> u32 \<Rightarrow> u32 \<Rightarrow> u32 \<Rightarrow> u8 list \<Rightarrow>
   edge branch \<Rightarrow> (u32 \<times> u32) list \<Rightarrow> edge branch option \<times> (u32 \<times> u32) list"
where
  "remove_range_scan rr kb prefix lo hi [] b acc = (Some b, acc)"
| "remove_range_scan rr kb prefix lo hi (d # ds) b acc =
    (case branch_child b d of
       None \<Rightarrow> remove_range_scan rr kb prefix lo hi ds b acc
     | Some child \<Rightarrow>
         (let clo = (if d = digit_at lo kb then child_rem lo kb else 0);
              chi = (if d = digit_at hi kb then child_rem hi kb else rem_mask (kb - 1));
              cprefix = prefix OR push_bit ((kb - 1) * 8) (ucast d);
              (child', removed) = rr child cprefix clo chi;
              n = int (length removed)
          in if n = 0 then remove_range_scan rr kb prefix lo hi ds b acc
             else if child' = Null
             then (case branch_remove_digit (branch_add_keys b (- n)) d of
                     None \<Rightarrow> (None, acc @ removed)
                   | Some b' \<Rightarrow> remove_range_scan rr kb prefix lo hi ds b' (acc @ removed))
             else remove_range_scan rr kb prefix lo hi ds (branch_commit b d child' (- n)) (acc @ removed)))"

primrec map_remove_range ::
  "nat \<Rightarrow> edge \<Rightarrow> u32 \<Rightarrow> u32 \<Rightarrow> u32 \<Rightarrow> edge \<times> (u32 \<times> u32) list"
where
  "map_remove_range 0 e prefix lo hi = (e, [])"
| "map_remove_range (Suc k) e prefix lo hi = (case e of
      Null \<Rightarrow> (Null, [])
    | MapImmed r v \<Rightarrow> (if r < lo \<or> hi < r then (MapImmed r v, []) else (Null, [(prefix OR r, v)]))
    | MapLeaf xs \<Rightarrow>
        (let pop = length xs; i0 = leaf_lower_bound xs lo;
             i1 = (if hi = rem_mask (Suc k) then pop else leaf_lower_bound xs (hi + 1))
         in if i1 \<le> i0 then (MapLeaf xs, [])
            else (let removed = map (\<lambda>i. (prefix OR fst (xs ! i), snd (xs ! i))) [i0..<i1];
                      new_pop = pop - (i1 - i0)
                  in if new_pop = 0 then (Null, removed)
                     else if new_pop = 1 \<and> Suc k \<le> 3
                     then (let i = (if i0 = 0 then pop - 1 else 0) in (MapImmed (fst (xs ! i)) (snd (xs ! i)), removed))
                     else (MapLeaf (remove_span i0 i1 xs), removed)))
    | MapBitmap pop0 b \<Rightarrow>
        (let (b', removed) = bitmap_remove_range prefix lo hi b;
             count_after = pop0 + 1 - length removed;
             pop0' = (if 0 < count_after then count_after - 1 else pop0)
         in if length removed = 0 then (MapBitmap pop0' b', [])
            else (map_bitmap_shrink count_after pop0' b', removed))
    | Branch b \<Rightarrow>
        (let (b', removed) = remove_range_scan (map_remove_range k) (Suc k) prefix lo hi
               (map of_nat [unat (digit_at lo (Suc k))..<Suc (unat (digit_at hi (Suc k)))]) b []
         in (edge_of b', removed)))"

section \<open>The first entry\<close>

lemma al_first_simps [simp]: "al_first [] = None" "al_first (x # xs) = Some x"
  by (simp_all add: al_first_def)

lemma al_first_append: "al_first (xs @ ys) = (case al_first xs of None \<Rightarrow> al_first ys | Some x \<Rightarrow> Some x)"
  by (cases xs) auto

lemma al_first_lift: "al_first (lift_entries d kb xs) = map_option (\<lambda>(r, v). (combine d r kb, v)) (al_first xs)"
  by (cases xs) (auto simp: lift_entries_def)

lemma al_first_None: "al_first xs = None \<longleftrightarrow> xs = []"
  by (cases xs) auto

text \<open>The word loop finds the first set bit at or above a position.\<close>

definition first_of :: "nat list \<Rightarrow> u8 option" where
  "first_of ns = (case ns of [] \<Rightarrow> None | n # _ \<Rightarrow> Some (of_nat n))"

lemma trailing_zeros_hd:
  assumes "word \<noteq> 0"
  obtains js where "set_bits word = trailing_zeros word # js"
proof -
  have gen: "filter P [0..<n] \<noteq> [] \<Longrightarrow> hd (filter P [0..<n]) = length (takeWhile (\<lambda>i. \<not> P i) [0..<n])"
    for P and n :: nat
  proof (induction n)
    case (Suc n)
    then show ?case
      by (cases "filter P [0..<n] = []")
        (auto simp: takeWhile_append filter_empty_conv hd_append)
  qed simp
  obtain n where "bit word n" using assms by (auto simp: bit_eq_iff)
  then have "n < 64" "bit word n" using bit_imp_le_length [of word n] by auto
  then have "set_bits word \<noteq> []" by (auto simp: set_bits_def filter_empty_conv)
  then show ?thesis
    using gen [of "bit word" 64] that by (cases "set_bits word") (auto simp: set_bits_def trailing_zeros_def)
qed

lemma set_bits_0 [simp]: "set_bits 0 = []"
  by (simp add: set_bits_def)

lemma word_digits: "map (\<lambda>i. w * 64 + i) (set_bits (bitmap b ! w)) = filter (has b) [64 * w..<64 * w + 64]"
proof -
  have upt: "[64 * w..<64 * w + 64] = map (\<lambda>i. w * 64 + i) [0..<64]"
    by (rule nth_equalityI) (auto simp: algebra_simps)
  show ?thesis
    unfolding upt filter_map set_bits_def comp_def
    by (intro arg_cong [where f = "map _"] filter_cong) (auto simp: has_def)
qed

lemma first_ge_words_eq:
  "w < 4 \<Longrightarrow> first_ge_words (bitmap b) w word =
   first_of (map (\<lambda>i. w * 64 + i) (set_bits word) @ filter (has b) [64 * (w + 1)..<256])"
proof (induction "bitmap b" w word rule: first_ge_words.induct)
  case (1 w word)
  show ?case
  proof (cases "word = 0")
    case False
    obtain js where "set_bits word = trailing_zeros word # js" by (rule trailing_zeros_hd [OF False])
    then show ?thesis using False by (subst first_ge_words.simps) (simp add: first_of_def)
  next
    case True
    show ?thesis
    proof (cases "4 \<le> w + 1")
      case last: True
      then have "[64 * (w + 1)..<256] = []" using 1(2) by simp
      then show ?thesis using True last by (subst first_ge_words.simps) (simp add: first_of_def)
    next
      case False
      then have "[64 * (w + 1)..<256] = [64 * (w + 1)..<64 * (w + 1) + 64] @ [64 * (w + 1 + 1)..<256]"
        using upt_add_eq_append [of "64 * (w + 1)" "64 * (w + 1) + 64" "256 - (64 * (w + 1) + 64)"] by simp
      then show ?thesis
        using True False 1(1) [OF _ False] word_digits [of "w + 1" b]
        by (subst first_ge_words.simps) simp
    qed
  qed
qed

lemma set_bits_from: "m < 64 \<Longrightarrow> set_bits (word AND NOT (mask m)) = filter (bit word) [m..<64]"
proof -
  assume m: "m < 64"
  have "[0..<64] = [0..<m] @ [m..<64]" using upt_add_eq_append [of 0 m "64 - m"] m by simp
  then show ?thesis
    unfolding set_bits_def by (auto simp: filter_empty_conv bit_and_iff bit_not_iff bit_mask_iff intro!: filter_cong)
qed

lemma filter_has_word:
  assumes "m \<le> 64"
  shows "map (\<lambda>i. w * 64 + i) (filter (bit (bitmap b ! w)) [m..<64]) = filter (has b) [64 * w + m..<64 * w + 64]"
proof -
  have upt: "[64 * w + m..<64 * w + 64] = map (\<lambda>i. w * 64 + i) [m..<64]"
    by (rule nth_equalityI) (auto simp: algebra_simps)
  show ?thesis
    unfolding upt filter_map comp_def
    by (intro arg_cong [where f = "map _"] filter_cong) (auto simp: has_def)
qed

lemma bitmap_first_ge_raw_eq: "bitmap_first_ge_raw (bitmap b) from = first_of (filter (has b) [from..<256])"
proof (cases "255 < from")
  case True
  then show ?thesis by (simp add: bitmap_first_ge_raw_def first_of_def)
next
  case False
  let ?w = "from div 64" and ?m = "from mod 64"
  have w: "?w < 4" using False by linarith
  have "[from..<256] = [64 * ?w + ?m..<64 * ?w + 64] @ [64 * (?w + 1)..<256]"
    using upt_add_eq_append [of "from" "64 * ?w + 64" "256 - (64 * ?w + 64)"] w mod_less_divisor [of 64 "from"] div_mod_decomp [of "from" 64]
    by (simp add: add.commute)
  then show ?thesis
    using False filter_has_word [of ?m ?w b]
    by (simp add: bitmap_first_ge_raw_def first_ge_words_eq [OF w] set_bits_from)
qed

lemma elem_map_bitmap_entry: "map_bitmap_entry b d = (ucast d, elem b (unat d))"
  by (simp add: map_bitmap_entry_def elem_def barr_rank_eq digit_simps)

lemma read_map_bitmap_digits: "read_map_bitmap b = map (\<lambda>n. map_bitmap_entry b (of_nat n)) (filter (has b) [0..<256])"
  unfolding read_map_bitmap_def barr_pairs_eq list.map_comp comp_def
  by (rule map_cong [OF refl])
    (simp only: set_filter set_upt mem_Collect_eq atLeastLessThan_iff elem_map_bitmap_entry unat_of_nat_u8 prod.case)

lemma first_of_entry: "map_option (map_bitmap_entry b) (first_of ns) = al_first (map (\<lambda>n. map_bitmap_entry b (of_nat n)) ns)"
  by (cases ns) (auto simp: first_of_def)

lemma branch_first_child_pairs: "wf_branch b \<Longrightarrow> branch_first_child b = al_first (branch_pairs b)"
proof (cases b)
  case (B t n bm)
  assume "wf_branch b"
  have e: "first_ge_words (bitmap bm) 0 (bitmap bm ! 0) = first_of (filter (has bm) [0..<256])"
    unfolding bitmap_first_ge_raw_eq [symmetric] by (simp add: bitmap_first_ge_raw_def)
  show ?thesis
  proof (cases "filter (has bm) [0..<256]")
    case Nil
    then show ?thesis by (simp add: B e barr_pairs_eq first_of_def del: upt_rec_numeral)
  next
    case (Cons n ns)
    then have "n \<in> set (filter (has bm) [0..<256])" by (simp only: list.set_intros)
    then have "n < 256" by (simp only: set_filter set_upt mem_Collect_eq atLeastLessThan_iff)
    then show ?thesis using Cons
      by (simp add: B e barr_pairs_eq first_of_def elem_def barr_rank_eq digit_simps del: upt_rec_numeral)
  qed
next
  case (U t n us)
  then show ?thesis
    by (cases "filter (\<lambda>n. us ! n \<noteq> None) [0..<256]") (simp_all add: slots_pairs_def del: upt_rec_numeral)
qed (auto simp: al_first_def nth_Cons split: list.split)

theorem first_entry_ok: "wf_edge kb e \<Longrightarrow> first_entry kb e = al_first (entries kb e)"
proof (induction kb e rule: first_entry.induct)
  case (3 kb xs)
  then show ?case by (cases xs) auto
next
  case (4 kb pop0 b)
  then show ?case by (simp only: first_entry.simps entries.simps bitmap_first_ge_raw_eq first_of_entry read_map_bitmap_digits)
next
  case (6 k b)
  then obtain p ps where p: "branch_pairs b = p # ps" by (cases "branch_pairs b") auto
  then have c: "wf_edge k (snd p)" "snd p \<noteq> Null" using 6 by auto
  have f: "branch_first_child b = Some (fst p, snd p)" using 6(2) p by (simp add: branch_first_child_pairs)
  have "entries k (snd p) \<noteq> []" using entries_nonempty [OF c] .
  then obtain x xs where x: "entries k (snd p) = x # xs" by (cases "entries k (snd p)") auto
  have "first_entry k (snd p) = Some x" using 6(1) [OF f, of "fst p" "snd p"] c(1) x by simp
  then show ?case by (simp add: f p x split_beta lift_entries_def)
qed auto

section \<open>The successor of a key\<close>

lemma key_compare:
  assumes "k < 4" and "a \<le> rem_mask (Suc k)" and "r \<le> rem_mask k"
  shows "a < combine d r (Suc k) \<longleftrightarrow> digit_at a (Suc k) < d \<or> digit_at a (Suc k) = d \<and> child_rem a (Suc k) < r"
    and "combine d r (Suc k) < a \<longleftrightarrow> d < digit_at a (Suc k) \<or> d = digit_at a (Suc k) \<and> r < child_rem a (Suc k)"
  using combine_less_iff [of "Suc k" "child_rem a (Suc k)" r "digit_at a (Suc k)" d]
    combine_less_iff [of "Suc k" r "child_rem a (Suc k)" d "digit_at a (Suc k)"]
    key_split [OF assms(1,2)] child_le [OF assms(1), of a] assms by simp_all

lemma filter_lift: "filter P (lift_entries d kb xs) = lift_entries d kb (filter (\<lambda>(r, v). P (combine d r kb, v)) xs)"
  by (induction xs) (auto simp: lift_entries_def)

definition above :: "u32 \<Rightarrow> (u32 \<times> u32) list \<Rightarrow> (u32 \<times> u32) list" where
  "above a xs = filter (\<lambda>p. a < fst p) xs"

lemma above_lift:
  assumes "k < 4" and "a \<le> rem_mask (Suc k)" and "keys_le k xs"
  shows "above a (lift_entries d (Suc k) xs) =
    (if d < digit_at a (Suc k) then []
     else if d = digit_at a (Suc k) then lift_entries d (Suc k) (above (child_rem a (Suc k)) xs)
     else lift_entries d (Suc k) xs)"
proof -
  have "a < combine d (fst p) (Suc k) \<longleftrightarrow> digit_at a (Suc k) < d \<or> digit_at a (Suc k) = d \<and> child_rem a (Suc k) < fst p"
    if "p \<in> set xs" for p
    using key_compare(1) [OF assms(1,2)] assms(3) that by (simp add: keys_le_def)
  then have "above a (lift_entries d (Suc k) xs) = lift_entries d (Suc k)
      (filter (\<lambda>p. digit_at a (Suc k) < d \<or> digit_at a (Suc k) = d \<and> child_rem a (Suc k) < fst p) xs)"
    unfolding above_def filter_lift by (intro arg_cong [where f = "lift_entries d (Suc k)"] filter_cong) auto
  then show ?thesis
    by (cases d "digit_at a (Suc k)" rule: linorder_cases) (auto simp: above_def lift_entries_def filter_empty_conv)
qed

lemma above_append [simp]: "above a (xs @ ys) = above a xs @ above a ys"
  by (simp add: above_def)

lemma next_scan_flatten:
  assumes "k < 4" and "a \<le> rem_mask (Suc k)"
    and "\<And>p. p \<in> set ps \<Longrightarrow> keys_le k (entries k (snd p)) \<and>
      nxt (snd p) = al_first (above (child_rem a (Suc k)) (entries k (snd p))) \<and>
      fst_e (snd p) = al_first (entries k (snd p))"
  shows "next_scan nxt fst_e (Suc k) (digit_at a (Suc k)) ps =
    al_first (above a (flatten (Suc k) (map (\<lambda>(d, c). (d, entries k c)) ps)))"
  using assms(3)
proof (induction ps)
  case (Cons p ps)
  obtain d c where p: "p = (d, c)" by (cases p)
  have IH: "next_scan nxt fst_e (Suc k) (digit_at a (Suc k)) ps =
      al_first (above a (flatten (Suc k) (map (\<lambda>(d, c). (d, entries k c)) ps)))"
    using Cons by simp
  have "keys_le k (entries k c)" using Cons.prems [of p] p by simp
  note l = above_lift [OF assms(1,2) this, of d]
  show ?case
    using Cons.prems [of p] p IH l
    by (auto simp: al_first_append al_first_lift split: option.splits)
qed (simp add: above_def)

lemma plus_one_le: "(a :: u32) < b \<Longrightarrow> a + 1 \<le> x \<longleftrightarrow> a < x"
proof -
  assume "a < b"
  then have "unat (a + 1) = Suc (unat a)"
    using unsigned_less [of b, where 'a = nat] by (subst unat_add_lem [THEN iffD1]) (auto simp: word_less_nat_alt)
  then show ?thesis by (simp add: word_le_nat_alt word_less_nat_alt Suc_le_eq)
qed

lemma leaf_above:
  assumes "asc xs" and "a < b"
  shows "above a xs = drop (leaf_lower_bound xs (a + 1)) xs"
  using drop_lower_pos [OF assms(1), of "a + 1"] plus_one_le [OF assms(2)]
  by (simp add: above_def leaf_lower_bound_pos [OF assms(1)])

lemma above_max: "keys_le kb xs \<Longrightarrow> rem_mask kb \<le> a \<Longrightarrow> above a xs = []"
  by (auto simp: above_def keys_le_def filter_empty_conv not_less intro: order.trans)

lemma al_first_drop: "al_first (drop i xs) = (if i < length xs then Some (xs ! i) else None)"
  by (auto simp: al_first_def Cons_nth_drop_Suc [symmetric])

lemma rem_mask_1: "rem_mask (Suc 0) = 255"
  by (simp add: rem_mask_def push_bit_eq_mult)

lemma above_bitmap:
  assumes "a < 255"
  shows "above a (read_map_bitmap b) = map (\<lambda>n. map_bitmap_entry b (of_nat n)) (filter (has b) [unat a + 1..<256])"
proof -
  have "unat a < 255" using assms by (simp add: word_less_nat_alt)
  then have upt: "[0..<256] = [0..<unat a + 1] @ [unat a + 1..<256]"
    using upt_add_eq_append [of 0 "unat a + 1" "256 - (unat a + 1)"] by simp
  have "a < fst (map_bitmap_entry b (of_nat n)) \<longleftrightarrow> unat a < n" if "n < 256" for n
    using that by (simp add: map_bitmap_entry_def word_less_nat_alt ucast_u8_u32)
  then have f: "above a (map (\<lambda>n. map_bitmap_entry b (of_nat n)) ns) = map (\<lambda>n. map_bitmap_entry b (of_nat n)) (filter (\<lambda>n. unat a < n) ns)"
    if "set ns \<subseteq> {..<256}" for ns
    using that unfolding above_def filter_map comp_def by (intro arg_cong [where f = "map _"] filter_cong) auto
  have low: "filter (\<lambda>n. unat a < n) (filter (has b) [0..<unat a + 1]) = []" by (auto simp: filter_empty_conv)
  have high: "filter (\<lambda>n. unat a < n) (filter (has b) [unat a + 1..<256]) = filter (has b) [unat a + 1..<256]"
    unfolding filter_filter by (rule filter_cong) auto
  have "set (filter (has b) [0..<256]) \<subseteq> {..<256}" by (simp only: set_filter set_upt) auto
  from f [OF this] show ?thesis
    unfolding read_map_bitmap_digits by (simp only: upt filter_append low high append_Nil)
qed

theorem next_entry_ok:
  "wf_edge kb e \<Longrightarrow> kb \<le> 4 \<Longrightarrow> e = Null \<or> 1 \<le> kb \<Longrightarrow> a \<le> rem_mask kb \<Longrightarrow>
   next_entry kb e a = al_first (above a (entries kb e))"
proof (induction kb arbitrary: e a)
  case (Suc k)
  show ?case
  proof (cases e)
    case (MapLeaf xs)
    then have "asc xs" "keys_le (Suc k) xs" using Suc.prems by auto
    then show ?thesis
      using MapLeaf leaf_above [of xs a "rem_mask (Suc k)"] above_max [of "Suc k" xs a]
      by (auto simp: leaf_index_after_def Let_def al_first_drop not_le)
  next
    case (MapBitmap pop0 b)
    then have "k = 0" using Suc.prems by simp
    then show ?thesis
      using MapBitmap above_bitmap [of a b] above_max [OF keys_le_read_map_bitmap, of a b]
      by (simp add: bitmap_first_ge_raw_eq first_of_entry rem_mask_1 not_le split: if_split)
  next
    case (Branch b)
    then have k: "1 \<le> k" "k < 4" and c: "wf_children k b"
      using Suc.prems by (auto simp: wf_edge_Branch simp del: wf_edge.simps)
    have "next_scan (\<lambda>c. next_entry k c (child_rem a (Suc k))) (first_entry k) (Suc k) (digit_at a (Suc k)) (branch_pairs b)
        = al_first (above a (flatten (Suc k) (map (\<lambda>(d, c). (d, entries k c)) (branch_pairs b))))"
    proof (rule next_scan_flatten [OF k(2) Suc.prems(4)])
      fix p
      assume "p \<in> set (branch_pairs b)"
      then have "wf_edge k (snd p)" using c by (auto simp: wf_children_def)
      then show "keys_le k (entries k (snd p)) \<and>
          next_entry k (snd p) (child_rem a (Suc k)) = al_first (above (child_rem a (Suc k)) (entries k (snd p))) \<and>
          first_entry k (snd p) = al_first (entries k (snd p))"
        using Suc.IH k child_le [OF k(2)] entries_le [of k] first_entry_ok by auto
    qed
    then show ?thesis by (simp add: Branch)
  qed (auto simp: above_def)
qed (simp add: above_def)

section \<open>The streaming walk\<close>

lemma walk_lift: "walk f (lift_entries d kb xs) s = walk (\<lambda>r. f (combine d r kb)) xs s"
  using walk_map_key [of f "\<lambda>r. combine d r kb" xs s] by (simp add: lift_entries_def case_prod_unfold)

lemma range_lift:
  assumes "k < 4" and "lo \<le> rem_mask (Suc k)" and "hi \<le> rem_mask (Suc k)" and "keys_le k xs"
  shows "al_range lo hi (lift_entries d (Suc k) xs) =
    (if d < digit_at lo (Suc k) \<or> digit_at hi (Suc k) < d then []
     else lift_entries d (Suc k) (al_range
       (if d = digit_at lo (Suc k) then child_rem lo (Suc k) else 0)
       (if d = digit_at hi (Suc k) then child_rem hi (Suc k) else rem_mask k) xs))"
proof -
  have p: "lo \<le> combine d (fst p) (Suc k) \<and> combine d (fst p) (Suc k) \<le> hi \<longleftrightarrow>
      \<not> (d < digit_at lo (Suc k) \<or> digit_at hi (Suc k) < d) \<and>
      (if d = digit_at lo (Suc k) then child_rem lo (Suc k) else 0) \<le> fst p \<and>
      fst p \<le> (if d = digit_at hi (Suc k) then child_rem hi (Suc k) else rem_mask k)"
    if "p \<in> set xs" for p
  proof -
    have "fst p \<le> rem_mask k" using assms(4) that by (simp add: keys_le_def)
    then show ?thesis
      using key_compare(2) [OF assms(1,2), of "fst p" d] key_compare(1) [OF assms(1,3), of "fst p" d]
      by (auto simp: not_less [symmetric])
  qed
  then have "al_range lo hi (lift_entries d (Suc k) xs) = lift_entries d (Suc k)
      (filter (\<lambda>p. \<not> (d < digit_at lo (Suc k) \<or> digit_at hi (Suc k) < d) \<and>
        (if d = digit_at lo (Suc k) then child_rem lo (Suc k) else 0) \<le> fst p \<and>
        fst p \<le> (if d = digit_at hi (Suc k) then child_rem hi (Suc k) else rem_mask k)) xs)"
    unfolding al_range_def filter_lift
    by (intro arg_cong [where f = "lift_entries d (Suc k)"] filter_cong refl) (simp only: case_prod_unfold fst_conv)
  then show ?thesis by (auto simp: al_range_def lift_entries_def)
qed

lemma al_range_append [simp]: "al_range lo hi (xs @ ys) = al_range lo hi xs @ al_range lo hi ys"
  by (simp add: al_range_def)

lemma al_range_Nil [simp]: "al_range lo hi [] = []"
  by (simp add: al_range_def)

lemma range_past:
  assumes "k < 4" and "lo \<le> rem_mask (Suc k)" and "hi \<le> rem_mask (Suc k)"
  shows "(\<And>p. p \<in> set ps \<Longrightarrow> keys_le k (snd p) \<and> digit_at hi (Suc k) < fst p) \<Longrightarrow>
    al_range lo hi (flatten (Suc k) ps) = []"
  by (induction ps) (auto simp: range_lift [OF assms])

lemma range_scan_flatten:
  assumes "k < 4" and "lo \<le> rem_mask (Suc k)" and "hi \<le> rem_mask (Suc k)"
    and "asc ps"
    and "\<And>p clo chi d s. p \<in> set ps \<Longrightarrow> keys_le k (entries k (snd p)) \<and>
      (clo \<le> rem_mask k \<longrightarrow> chi \<le> rem_mask k \<longrightarrow>
       sub (snd p) clo chi d s = walk f (lift_entries d (Suc k) (al_range clo chi (entries k (snd p)))) s)"
  shows "range_scan sub (Suc k) lo hi ps s =
    walk f (al_range lo hi (flatten (Suc k) (map (\<lambda>(d, c). (d, entries k c)) ps))) s"
  using assms(4,5)
proof (induction ps arbitrary: s)
  case (Cons p ps)
  obtain d c where p: "p = (d, c)" by (cases p)
  let ?rest = "flatten (Suc k) (map (\<lambda>(d, c). (d, entries k c)) ps)"
  have IH: "range_scan sub (Suc k) lo hi ps s = walk f (al_range lo hi ?rest) s" for s
    using Cons by (intro Cons.IH) auto
  have kl: "keys_le k (entries k c)" using Cons.prems(2) [of p] p by simp
  let ?clo = "if d = digit_at lo (Suc k) then child_rem lo (Suc k) else 0"
    and ?chi = "if d = digit_at hi (Suc k) then child_rem hi (Suc k) else rem_mask k"
  have "?clo \<le> rem_mask k" "?chi \<le> rem_mask k" using child_le [OF assms(1)] by auto
  then have sub: "sub c ?clo ?chi d s = walk f (lift_entries d (Suc k) (al_range ?clo ?chi (entries k c))) s"
    using Cons.prems(2) [of p ?clo ?chi d s] p by auto
  have past: "digit_at hi (Suc k) < d \<Longrightarrow> al_range lo hi ?rest = []"
  proof (rule range_past [OF assms(1-3)])
    fix q
    assume hi: "digit_at hi (Suc k) < d" and "q \<in> set (map (\<lambda>(d, c). (d, entries k c)) ps)"
    then obtain q' where q': "q' \<in> set ps" "q = (fst q', entries k (snd q'))" by auto
    then have "d < fst q'" using Cons.prems(1) p by auto
    then show "keys_le k (snd q) \<and> digit_at hi (Suc k) < fst q"
      using Cons.prems(2) [of q'] q' hi by auto
  qed
  have step: "range_scan sub (Suc k) lo hi ((d, c) # ps) s = (case sub c ?clo ?chi d s of
      (go, s') \<Rightarrow> if go then range_scan sub (Suc k) lo hi ps s' else (False, s'))"
    if "\<not> d < digit_at lo (Suc k)" "\<not> digit_at hi (Suc k) < d"
    using that by (auto simp: Let_def)
  have flat: "al_range lo hi (flatten (Suc k) (map (\<lambda>(d, c). (d, entries k c)) (p # ps))) =
      al_range lo hi (lift_entries d (Suc k) (entries k c)) @ al_range lo hi ?rest"
    by (simp add: p)
  consider "d < digit_at lo (Suc k)" | "\<not> d < digit_at lo (Suc k)" "digit_at hi (Suc k) < d"
    | "\<not> d < digit_at lo (Suc k)" "\<not> digit_at hi (Suc k) < d" by blast
  then show ?case
  proof cases
    case 3
    then show ?thesis
      unfolding flat walk_append range_lift [OF assms(1-3) kl] unfolding p step [OF 3] sub
      by (auto simp: IH Let_def split: prod.split)
  qed (use IH past p in \<open>simp_all add: range_lift [OF assms(1-3) kl] Let_def\<close>)
qed simp

lemma rank_next:
  assumes "has b p" and "p < n" and "p div 32 = n div 32" and "\<And>i. p < i \<Longrightarrow> i < n \<Longrightarrow> \<not> has b i"
  shows "rank_of b n = rank_of b p + 1"
proof -
  have le: "32 * (n div 32) \<le> p" using assms(3) by (metis times_div_less_eq_dividend)
  have "cnt (has b) (Suc p) n = 0" using assms(4) by (intro cnt_none) auto
  then show ?thesis
    using le assms(1-3) cnt_split [of "32 * (n div 32)" p n "has b"] cnt_split [of p "Suc p" n "has b"]
    by (simp add: rank_of_def cnt_single)
qed

text \<open>The running rank is the rank: before digit \<open>n\<close> the walk has visited every present digit from the
  one that opened the current subarray.\<close>

lemma bitmap_walk_eq:
  assumes "m \<le> 256" and "sub = SUB_NONE \<or> (\<exists>p<n. has b p \<and> sub = p div 32 \<and> rank = rank_of b p \<and> (\<forall>i. p < i \<and> i < n \<longrightarrow> \<not> has b i))"
  shows "bitmap_walk f b (map of_nat (filter (has b) [n..<m])) sub rank s =
    walk f (map (\<lambda>n. map_bitmap_entry b (of_nat n)) (filter (has b) [n..<m])) s"
  using assms(2)
proof (induction "m - n" arbitrary: n sub rank s)
  case (Suc j)
  then have upt: "[n..<m] = n # [Suc n..<m]" by (simp add: upt_conv_Cons)
  have j: "j = m - Suc n" and n: "n < 256" using Suc.hyps(2) assms(1) by auto
  show ?case
  proof (cases "has b n")
    case False
    then have "sub = SUB_NONE \<or> (\<exists>p<Suc n. has b p \<and> sub = p div 32 \<and> rank = rank_of b p \<and> (\<forall>i. p < i \<and> i < Suc n \<longrightarrow> \<not> has b i))"
      using Suc.prems less_Suc_eq by auto
    from Suc.hyps(1) [OF j this] show ?thesis using False by (simp add: upt)
  next
    case True
    have r: "(if n div 32 = sub then rank + 1 else bitmap_sub_rank (bitmap b ! unat (drop_bit 6 (of_nat n :: u8))) (of_nat n)) = rank_of b n"
    proof (cases "n div 32 = sub")
      case True
      then show ?thesis using Suc.prems rank_next [of b _ n] n by (auto simp: SUB_NONE_def)
    next
      case False
      then show ?thesis using barr_rank_eq [of b "of_nat n"] n by (simp add: barr_rank_def)
    qed
    have "\<exists>p<Suc n. has b p \<and> n div 32 = p div 32 \<and> rank_of b n = rank_of b p \<and> (\<forall>i. p < i \<and> i < Suc n \<longrightarrow> \<not> has b i)"
      using True by (intro exI [of _ n]) auto
    then have IH: "bitmap_walk f b (map of_nat (filter (has b) [Suc n..<m])) (n div 32) (rank_of b n) s' =
        walk f (map (\<lambda>n. map_bitmap_entry b (of_nat n)) (filter (has b) [Suc n..<m])) s'" for s'
      using Suc.hyps(1) [OF j] by blast
    show ?thesis
      using True n r
      by (auto simp: upt digit_simps Let_def IH elem_map_bitmap_entry elem_def split: prod.split)
  qed
qed simp

lemma concat_words_from:
  "a \<le> c \<Longrightarrow> concat (map (\<lambda>w. filter P [64 * w..<64 * w + 64]) [a..<c]) = filter P [64 * a..<64 * c]"
proof (induction c)
  case (Suc c)
  show ?case
  proof (cases "a = Suc c")
    case False
    then have le: "a \<le> c" using Suc.prems by simp
    have "[64 * a..<64 * Suc c] = [64 * a..<64 * c] @ [64 * c..<64 * c + 64]"
      using upt_add_eq_append [of "64 * a" "64 * c" 64] le by (simp add: add.commute)
    then show ?thesis using Suc.IH [OF le] le by simp
  qed simp
qed simp

lemma filter_window:
  assumes "a \<le> lo" and "hi < c"
  shows "filter (\<lambda>n. P n \<and> lo \<le> n \<and> n \<le> hi) [a..<c] = filter P [lo..<Suc hi]"
  using assms by (intro sorted_distinct_set_unique) (auto simp: sorted_wrt_filter simp del: upt_Suc)

lemma word_window:
  fixes a w i :: nat
  assumes "i < 64"
  shows "a div 64 \<le> w \<Longrightarrow> a \<le> w * 64 + i \<longleftrightarrow> (w = a div 64 \<longrightarrow> a mod 64 \<le> i)"
    and "w \<le> a div 64 \<Longrightarrow> w * 64 + i \<le> a \<longleftrightarrow> (w = a div 64 \<longrightarrow> i \<le> a mod 64)"
proof -
  have a: "a = a div 64 * 64 + a mod 64" "a mod 64 < 64" by simp_all
  show "a div 64 \<le> w \<Longrightarrow> a \<le> w * 64 + i \<longleftrightarrow> (w = a div 64 \<longrightarrow> a mod 64 \<le> i)"
    using a assms by (safe; linarith)
  show "w \<le> a div 64 \<Longrightarrow> w * 64 + i \<le> a \<longleftrightarrow> (w = a div 64 \<longrightarrow> i \<le> a mod 64)"
    using a assms by (safe; linarith)
qed

lemma range_digits_eq:
  assumes "lo \<le> hi"
  shows "range_digits (bitmap b) lo hi = map of_nat (filter (has b) [unat lo..<Suc (unat hi)])"
proof -
  let ?lo = "unat lo" and ?hi = "unat hi"
  let ?P = "\<lambda>n. has b n \<and> ?lo \<le> n \<and> n \<le> ?hi"
  have le: "?lo \<le> ?hi" using assms by (simp add: word_le_nat_alt)
  have m63: "hi AND 63 = 63 \<longleftrightarrow> ?hi mod 64 = 63"
    by (simp add: word_unat_eq_iff unat_and_63)
  have w2: "set_bits (let word = bitmap b ! w;
              word1 = (if w = ?lo div 64 then word AND push_bit (?lo mod 64) (NOT 0) else word)
          in if w = ?hi div 64 \<and> ?hi mod 64 \<noteq> 63 then word1 AND (push_bit (?hi mod 64 + 1) 1 - 1) else word1)
      = filter (\<lambda>i. ?P (w * 64 + i)) [0..<64]" if w: "?lo div 64 \<le> w" "w \<le> ?hi div 64" for w
    unfolding set_bits_def
  proof (rule filter_cong [OF refl])
    fix i
    assume "i \<in> set [0..<64]"
    then have i: "i < 64" by simp
    have lo: "?lo \<le> w * 64 + i \<longleftrightarrow> (w = ?lo div 64 \<longrightarrow> ?lo mod 64 \<le> i)" by (rule word_window(1) [OF i w(1)])
    have hi: "w * 64 + i \<le> ?hi \<longleftrightarrow> (w = ?hi div 64 \<longrightarrow> i \<le> ?hi mod 64)" by (rule word_window(2) [OF i w(2)])
    have h: "has b (w * 64 + i) = bit (bitmap b ! w) i" using i by (simp add: has_def)
    show "bit (let word = bitmap b ! w;
              word1 = (if w = ?lo div 64 then word AND push_bit (?lo mod 64) (NOT 0) else word)
          in if w = ?hi div 64 \<and> ?hi mod 64 \<noteq> 63 then word1 AND (push_bit (?hi mod 64 + 1) 1 - 1) else word1) i
        = ?P (w * 64 + i)"
      unfolding lo hi h Let_def push_bit_of_1 mask_eq_decr_exp [symmetric]
      using i mod_less_divisor [of 64 ?hi] by (auto simp: bit_and_iff bit_not_iff bit_mask_iff)
  qed
  have word: "map (\<lambda>i. of_nat (w * 64 + i) :: u8) (filter (\<lambda>i. ?P (w * 64 + i)) [0..<64]) = map of_nat (filter ?P [64 * w..<64 * w + 64])" for w
  proof -
    have upt: "[64 * w..<64 * w + 64] = map (\<lambda>i. w * 64 + i) [0..<64]"
      by (rule nth_equalityI) (auto simp: algebra_simps)
    show ?thesis unfolding upt filter_map list.map_comp comp_def ..
  qed
  have "range_digits (bitmap b) lo hi =
      concat (map (\<lambda>w. map of_nat (filter ?P [64 * w..<64 * w + 64])) [?lo div 64..<Suc (?hi div 64)])"
    unfolding range_digits_def unat_and_63 unat_drop_6 m63 Let_def
  proof (rule arg_cong [where f = concat], rule map_cong [OF refl])
    fix w
    assume "w \<in> set [?lo div 64..<Suc (?hi div 64)]"
    then have "?lo div 64 \<le> w" "w \<le> ?hi div 64" by (auto simp del: upt_Suc)
    note w2 [OF this, unfolded Let_def]
    then show "map (\<lambda>i. of_nat (w * 64 + i) :: u8) (set_bits
        (if w = ?hi div 64 \<and> ?hi mod 64 \<noteq> 63
         then (if w = ?lo div 64 then bitmap b ! w AND push_bit (?lo mod 64) (NOT 0) else bitmap b ! w)
              AND (push_bit (?hi mod 64 + 1) 1 - 1)
         else if w = ?lo div 64 then bitmap b ! w AND push_bit (?lo mod 64) (NOT 0) else bitmap b ! w))
      = map of_nat (filter ?P [64 * w..<64 * w + 64])"
      by (simp only: word)
  qed
  also have "\<dots> = map of_nat (filter ?P [64 * (?lo div 64)..<64 * Suc (?hi div 64)])"
  proof -
    have "?lo div 64 \<le> Suc (?hi div 64)" using div_le_mono [OF le, of 64] by simp
    then show ?thesis by (simp only: concat_words_from [symmetric] map_concat list.map_comp comp_def)
  qed
  also have "filter ?P [64 * (?lo div 64)..<64 * Suc (?hi div 64)] = filter (has b) [?lo..<Suc ?hi]"
  proof (rule filter_window)
    have "?hi mod 64 < 64" by simp
    then have "64 * (?hi div 64) + ?hi mod 64 < 64 * (?hi div 64) + 64" by (rule add_strict_left_mono)
    then show "?hi < 64 * Suc (?hi div 64)" by (simp add: mult_div_mod_eq)
  qed (rule times_div_less_eq_dividend)
  finally show ?thesis .
qed

lemma range_bitmap:
  assumes "lo \<le> hi" and "hi \<le> 255"
  shows "al_range lo hi (read_map_bitmap b) =
    map (\<lambda>n. map_bitmap_entry b (of_nat n)) (filter (has b) [unat lo..<Suc (unat hi)])"
proof -
  have hi: "unat hi < 256" using assms(2) by (simp add: word_le_nat_alt)
  have "lo \<le> fst (map_bitmap_entry b (of_nat n)) \<and> fst (map_bitmap_entry b (of_nat n)) \<le> hi \<longleftrightarrow> unat lo \<le> n \<and> n \<le> unat hi"
    if "n < 256" for n
    using that by (simp add: map_bitmap_entry_def word_le_nat_alt ucast_u8_u32)
  then have "al_range lo hi (map (\<lambda>n. map_bitmap_entry b (of_nat n)) ns) =
      map (\<lambda>n. map_bitmap_entry b (of_nat n)) (filter (\<lambda>n. unat lo \<le> n \<and> n \<le> unat hi) ns)"
    if "set ns \<subseteq> {..<256}" for ns
    using that unfolding al_range_def filter_map comp_def by (intro arg_cong [where f = "map _"] filter_cong) auto
  moreover have "set (filter (has b) [0..<256]) \<subseteq> {..<256}" by (simp only: set_filter set_upt) auto
  ultimately show ?thesis
    unfolding read_map_bitmap_digits using filter_window [of 0 "unat lo" "unat hi" 256 "has b"] hi
    by (simp del: upt_Suc upt_rec_numeral)
qed

lemma leaf_span:
  assumes "asc xs" and "keys_le kb xs" and "lo \<le> hi"
    and "i1 = (if rem_mask kb \<le> hi then length xs else leaf_lower_bound xs (hi + 1))"
  shows "map (\<lambda>i. xs ! i) [leaf_lower_bound xs lo..<i1] = al_range lo hi xs"
    and "remove_span (leaf_lower_bound xs lo) i1 xs = al_outside lo hi xs"
    and "leaf_lower_bound xs lo \<le> i1" and "i1 \<le> length xs"
proof -
  let ?i0 = "lower_pos lo xs"
  have i0: "leaf_lower_bound xs lo = ?i0" by (rule leaf_lower_bound_pos [OF assms(1)])
  have t0: "take ?i0 xs = filter (\<lambda>p. fst p < lo) xs" by (rule take_lower_pos [OF assms(1)])
  have i1: "take i1 xs = filter (\<lambda>p. fst p \<le> hi) xs \<and> drop i1 xs = filter (\<lambda>p. hi < fst p) xs \<and> i1 \<le> length xs"
  proof (cases "rem_mask kb \<le> hi")
    case True
    then have "fst p \<le> hi" if "p \<in> set xs" for p
      using assms(2) that by (auto simp: keys_le_def intro: order.trans)
    then show ?thesis using True assms(4) by (auto simp: filter_id_conv filter_empty_conv not_less)
  next
    case False
    then have "hi < rem_mask kb" by simp
    note le = plus_one_le [OF this]
    have "fst p < hi + 1 \<longleftrightarrow> fst p \<le> hi" for p :: "u32 \<times> u32" using le [of "fst p"] by (simp add: not_le [symmetric])
    then show ?thesis
      using take_lower_pos [OF assms(1), of "hi + 1"] drop_lower_pos [OF assms(1), of "hi + 1"] False assms(4)
        leaf_lower_bound_pos [OF assms(1), of "hi + 1"] lower_pos_le [of "hi + 1" xs] le by simp
  qed
  have le: "?i0 \<le> i1"
  proof -
    have "length (filter (\<lambda>p. fst p < lo) xs) \<le> length (filter (\<lambda>p. fst p \<le> hi) xs)"
      using assms(3) by (induction xs) auto
    then show ?thesis using t0 i1 lower_pos_le [of lo xs] by (metis length_take min.absorb2)
  qed
  then show "leaf_lower_bound xs lo \<le> i1" and "i1 \<le> length xs" using i0 i1 by simp_all
  let ?M = "drop ?i0 (take i1 xs)"
  have xs: "xs = take ?i0 xs @ ?M @ drop i1 xs"
  proof -
    have "take ?i0 (take i1 xs) = take ?i0 xs" using le by (simp add: min_def)
    then have "take ?i0 xs @ ?M = take i1 xs" by (metis append_take_drop_id)
    then show ?thesis by (metis append.assoc append_take_drop_id)
  qed
  have M: "p \<in> set ?M \<Longrightarrow> lo \<le> fst p \<and> fst p \<le> hi" for p
  proof -
    assume p: "p \<in> set ?M"
    then have "p \<in> set (drop ?i0 xs)" by (metis drop_take in_set_takeD)
    moreover have "p \<in> set (take i1 xs)" using p by (rule in_set_dropD)
    ultimately show ?thesis using drop_lower_pos [OF assms(1), of lo] i1 by auto
  qed
  have A: "p \<in> set (take ?i0 xs) \<Longrightarrow> fst p < lo" and C: "p \<in> set (drop i1 xs) \<Longrightarrow> hi < fst p" for p
    using t0 i1 by auto
  have "filter P xs = filter P (take ?i0 xs) @ filter P ?M @ filter P (drop i1 xs)" for P
    using arg_cong [OF xs, of "filter P"] by simp
  note split = this
  have "filter (\<lambda>p. lo \<le> fst p \<and> fst p \<le> hi) (take ?i0 xs) = []" "filter (\<lambda>p. lo \<le> fst p \<and> fst p \<le> hi) (drop i1 xs) = []"
    "filter (\<lambda>p. lo \<le> fst p \<and> fst p \<le> hi) ?M = ?M"
    unfolding filter_empty_conv filter_id_conv using A M C leD by blast+
  then have "al_range lo hi xs = ?M" unfolding al_range_def split by simp
  moreover have "filter (\<lambda>p. \<not> (lo \<le> fst p \<and> fst p \<le> hi)) (take ?i0 xs) = take ?i0 xs"
    "filter (\<lambda>p. \<not> (lo \<le> fst p \<and> fst p \<le> hi)) (drop i1 xs) = drop i1 xs"
    "filter (\<lambda>p. \<not> (lo \<le> fst p \<and> fst p \<le> hi)) ?M = []"
    unfolding filter_empty_conv filter_id_conv using A M C leD by blast+
  then have "al_outside lo hi xs = take ?i0 xs @ drop i1 xs" unfolding al_outside_def split by simp
  moreover have "map (\<lambda>i. xs ! i) [?i0..<i1] = ?M"
    using le i1 [THEN conjunct2, THEN conjunct2] by (intro nth_equalityI) auto
  ultimately show "map (\<lambda>i. xs ! i) [leaf_lower_bound xs lo..<i1] = al_range lo hi xs"
    and "remove_span (leaf_lower_bound xs lo) i1 xs = al_outside lo hi xs"
    using i0 by (simp_all add: remove_span_def)
qed

theorem map_for_each_range_ok:
  "wf_edge kb e \<Longrightarrow> kb \<le> 4 \<Longrightarrow> e = Null \<or> 1 \<le> kb \<Longrightarrow> lo \<le> rem_mask kb \<Longrightarrow> hi \<le> rem_mask kb \<Longrightarrow>
   map_for_each_range kb e lo hi f s = walk f (al_range lo hi (entries kb e)) s"
proof (induction kb arbitrary: e lo hi f s)
  case (Suc k)
  show ?case
  proof (cases "hi < lo")
    case True
    then have "al_range lo hi xs = []" for xs :: "(u32 \<times> u32) list"
      by (auto simp: al_range_def filter_empty_conv)
    then show ?thesis using True by simp
  next
    case False
    then have le: "lo \<le> hi" by simp
    show ?thesis
    proof (cases e)
      case (MapLeaf xs)
      then show ?thesis using Suc.prems le False leaf_span(1) [of xs "Suc k" lo hi] by (simp add: Let_def)
    next
      case (MapBitmap pop0 b)
      then have "k = 0" using Suc.prems by simp
      then have hi: "hi \<le> 255" "min hi 255 = hi" and lo: "lo \<le> 255"
        using Suc.prems le by (auto simp: rem_mask_1 min_def)
      have u: "unat (ucast lo :: u8) = unat lo" "unat (ucast hi :: u8) = unat hi"
        using ucast_u32_u8 [of lo] ucast_u32_u8 [of hi] ucast_u8_u32 [of "ucast lo"] ucast_u8_u32 [of "ucast hi"] hi lo
        by (simp_all add: rem_mask_1)
      have c: "(ucast lo :: u8) \<le> ucast hi" using le u by (simp add: word_le_nat_alt)
      have m: "Suc (unat hi) \<le> 256" using hi by (simp add: word_le_nat_alt)
      show ?thesis
        using MapBitmap False lo hi range_digits_eq [OF c, of b] bitmap_walk_eq [OF m, of SUB_NONE "unat lo" b 0 f s]
          range_bitmap [OF le hi(1), of b]
        by (simp add: u not_less [symmetric] del: upt_Suc)
    next
      case (Branch b)
      then have k: "1 \<le> k" "k < 4" and c: "wf_children k b"
        using Suc.prems by (auto simp: wf_edge_Branch simp del: wf_edge.simps)
      have "range_scan (\<lambda>c clo chi d. map_for_each_range k c clo chi (\<lambda>cr. f (combine d cr (Suc k)))) (Suc k) lo hi (branch_pairs b) s
        = walk f (al_range lo hi (flatten (Suc k) (map (\<lambda>(d, c). (d, entries k c)) (branch_pairs b)))) s"
      proof (rule range_scan_flatten [OF k(2) Suc.prems(4,5)])
        show "asc (branch_pairs b)" using c by (simp add: wf_children_def asc_branch_pairs)
        fix p clo chi d s
        assume "p \<in> set (branch_pairs b)"
        then have "wf_edge k (snd p)" using c by (auto simp: wf_children_def)
        then show "keys_le k (entries k (snd p)) \<and> (clo \<le> rem_mask k \<longrightarrow> chi \<le> rem_mask k \<longrightarrow>
            map_for_each_range k (snd p) clo chi (\<lambda>cr. f (combine d cr (Suc k))) s =
            walk f (lift_entries d (Suc k) (al_range clo chi (entries k (snd p)))) s)"
          using Suc.IH k entries_le [of k] by (simp add: walk_lift)
      qed
      then show ?thesis using False by (simp add: Branch)
    qed (use False in \<open>auto simp: al_range_def split: prod.splits\<close>)
  qed
qed (simp add: al_range_def)

section \<open>Removal of a range\<close>

text \<open>One subarray of a bitmap leaf. Its entries are its present digits beside its values.\<close>

lemma unat_of_nat_u32: "n < 256 \<Longrightarrow> unat (of_nat n :: u32) = n"
  by (simp add: unat_of_nat take_bit_nat_eq_self)

lemma sub_bits:
  assumes "s < 8"
  shows "set_bits (drop_bit (s mod 2 * 32) (bitmap b ! (s div 2)) AND 0xFFFFFFFF) = filter (\<lambda>i. has b (32 * s + i)) [0..<32]"
proof -
  have m: "(0xFFFFFFFF :: u64) = mask 32" by (simp add: mask_eq_decr_exp)
  have "bit (drop_bit (s mod 2 * 32) (bitmap b ! (s div 2)) AND mask 32) i \<longleftrightarrow> has b (32 * s + i) \<and> 0 \<le> i \<and> i \<le> 31"
    for i
  proof -
    have "(32 * s + i) div 64 = s div 2 \<and> (32 * s + i) mod 64 = s mod 2 * 32 + i" if "i < 32"
      using that div_mult2_eq [of "32 * s + i" 32 2] mod_mult2_eq [of "32 * s + i" 32 2] by simp
    then show ?thesis by (auto simp: bit_and_iff bit_mask_iff bit_drop_bit_eq has_def)
  qed
  then have "set_bits (drop_bit (s mod 2 * 32) (bitmap b ! (s div 2)) AND mask 32) =
      filter (\<lambda>i. has b (32 * s + i) \<and> 0 \<le> i \<and> i \<le> 31) [0..<64]"
    unfolding set_bits_def by (intro filter_cong refl)
  also have "\<dots> = filter (\<lambda>i. has b (32 * s + i)) [0..<Suc 31]" by (rule filter_window) simp_all
  finally show ?thesis unfolding m by (simp only: Suc_numeral add_num_simps)
qed

lemma subarray_elems:
  assumes "wf_barr b" and "s < 8"
  shows "subarrays b ! s = map (elem b) (filter (has b) [32 * s..<32 * s + 32])"
proof (rule nth_equalityI)
  show len: "length (subarrays b ! s) = length (map (elem b) (filter (has b) [32 * s..<32 * s + 32]))"
    using assms by (simp add: wf_barr_def cnt_def)
  fix j
  assume "j < length (subarrays b ! s)"
  then have j: "j < length (filter (has b) [32 * s..<32 * s + 32])" using len by simp
  let ?n = "filter (has b) [32 * s..<32 * s + 32] ! j"
  have "?n \<in> set (filter (has b) [32 * s..<32 * s + 32])" using j by (rule nth_mem)
  then have n: "has b ?n" "32 * s \<le> ?n" "?n < 32 * s + 32" by auto
  then have s: "?n div 32 = s" by linarith
  have "filter (has b) [32 * s..<32 * s + 32] ! rank_of b ?n = ?n"
    unfolding rank_of_def s by (rule nth_filter_cnt) (use n in auto)
  moreover have "rank_of b ?n < length (filter (has b) [32 * s..<32 * s + 32])"
    using cnt_less [of "32 * s" ?n "32 * s + 32" "has b"] n unfolding rank_of_def s by (simp add: cnt_def)
  ultimately have "rank_of b ?n = j" using j nth_eq_iff_index_eq [of "filter (has b) [32 * s..<32 * s + 32]" "rank_of b ?n" j] by simp
  then show "subarrays b ! s ! j = map (elem b) (filter (has b) [32 * s..<32 * s + 32]) ! j"
    using j s by (simp add: elem_def)
qed

lemma sub_entries:
  assumes "wf_barr b" and "s < 8"
  shows "zip (set_bits (drop_bit (s mod 2 * 32) (bitmap b ! (s div 2)) AND 0xFFFFFFFF)) (subarrays b ! s)
    = map (\<lambda>i. (i, elem b (32 * s + i))) (filter (\<lambda>i. has b (32 * s + i)) [0..<32])"
proof -
  have "[32 * s..<32 * s + 32] = map (\<lambda>i. 32 * s + i) [0..<32]"
    by (rule nth_equalityI) auto
  then have "subarrays b ! s = map (\<lambda>i. elem b (32 * s + i)) (filter (\<lambda>i. has b (32 * s + i)) [0..<32])"
    unfolding subarray_elems [OF assms] by (simp only: filter_map comp_def list.map_comp)
  then show ?thesis unfolding sub_bits [OF assms(2)] by (simp add: zip_map2 zip_same_conv_map)
qed

lemma bit_span:
  assumes "f \<le> t" and "t < 32" and "base \<le> 32" and "i < 32"
  shows "bit (push_bit (f + base) (push_bit (t - f + 1) 1 - 1) :: u64) (base + i) \<longleftrightarrow> f \<le> i \<and> i \<le> t"
  unfolding push_bit_of_1 mask_eq_decr_exp [symmetric]
  using assms by (auto simp: bit_push_bit_iff bit_mask_iff)

lemma range_offsets:
  assumes s: "s < 8" and lo: "lo \<le> hi" and hi: "hi \<le> 255"
    and skip: "\<not> (of_nat (s * 32) + 31 < lo \<or> hi < (of_nat (s * 32) :: u32))"
  shows "unat (max lo (of_nat (s * 32)) - of_nat (s * 32)) = max (unat lo) (32 * s) - 32 * s"
    and "unat (min hi (of_nat (s * 32) + 31) - of_nat (s * 32)) = min (unat hi) (32 * s + 31) - 32 * s"
    and "max (unat lo) (32 * s) - 32 * s \<le> min (unat hi) (32 * s + 31) - 32 * s"
    and "min (unat hi) (32 * s + 31) - 32 * s < 32"
    and "unat lo \<le> 32 * s + 31" and "32 * s \<le> unat hi"
proof -
  have S: "unat (of_nat (s * 32) :: u32) = 32 * s" and S31: "unat (of_nat (s * 32) + 31 :: u32) = 32 * s + 31"
    using unat_of_nat_u32 [of "s * 32"] unat_of_nat_u32 [of "s * 32 + 31"] s by simp_all
  have L: "unat lo \<le> unat hi" "unat hi \<le> 255" using lo hi by (simp_all add: word_le_nat_alt)
  show sk: "unat lo \<le> 32 * s + 31" "32 * s \<le> unat hi"
    using skip S S31 by (auto simp: word_less_nat_alt not_less)
  show "unat (max lo (of_nat (s * 32)) - of_nat (s * 32)) = max (unat lo) (32 * s) - 32 * s"
    using S by (subst unat_sub) (auto simp: max_def word_le_nat_alt)
  show "unat (min hi (of_nat (s * 32) + 31) - of_nat (s * 32)) = min (unat hi) (32 * s + 31) - 32 * s"
    using S S31 sk by (subst unat_sub) (auto simp: min_def word_le_nat_alt)
  show "max (unat lo) (32 * s) - 32 * s \<le> min (unat hi) (32 * s + 31) - 32 * s"
    and "min (unat hi) (32 * s + 31) - 32 * s < 32" using sk L by auto
qed

lemma hit_bits:
  assumes s: "s < 8" and i: "i < 32" and lo: "lo \<le> hi" and hi: "hi \<le> 255"
    and skip: "\<not> (of_nat (s * 32) + 31 < lo \<or> hi < of_nat (s * 32))"
  shows "bit (push_bit (unat (max lo (of_nat (s * 32)) - of_nat (s * 32)) + s mod 2 * 32)
      (push_bit (unat (min hi (of_nat (s * 32) + 31) - of_nat (s * 32)) - unat (max lo (of_nat (s * 32)) - of_nat (s * 32)) + 1) 1 - 1) :: u64)
      (s mod 2 * 32 + i) \<longleftrightarrow> unat lo \<le> 32 * s + i \<and> 32 * s + i \<le> unat (hi :: u32)"
proof -
  note r = range_offsets [OF s lo hi skip]
  let ?f = "max (unat lo) (32 * s) - 32 * s" and ?t = "min (unat hi) (32 * s + 31) - 32 * s"
  have "s mod 2 * 32 \<le> 32" by simp
  note bit_span [OF r(3,4) this i]
  moreover have "?f \<le> i \<longleftrightarrow> unat lo \<le> 32 * s + i" "i \<le> ?t \<longleftrightarrow> 32 * s + i \<le> unat hi" using r(5,6) i by auto
  ultimately show ?thesis unfolding r(1,2) by (simp only:)
qed

section \<open>Properties\<close>

text \<open>C5. The streaming walk of a range calls the callback on the entries of the range in ascending key
  order and on no others, and stops at the first one the callback refuses.\<close>

theorem map_for_each_range_correct:
  assumes "1 \<le> kb" and "kb \<le> 4" and "wf_edge kb e" and "lo \<le> rem_mask kb" and "hi \<le> rem_mask kb"
  shows "map_for_each_range kb e lo hi f s = walk f (filter (\<lambda>p. lo \<le> fst p \<and> fst p \<le> hi) (entries kb e)) s \<and>
    asc (entries kb e)"
  using map_for_each_range_ok [OF assms(3), of lo hi f s] entries_asc [OF assms(3)] assms by (simp add: al_range_def)

theorem map_for_each_range_correct_witness:
  "map_for_each_range 4 (MapLeaf [(1, 10), (5, 50), (9, 90)]) 2 9 (\<lambda>k v s. (v < 60, k + s)) 0 =
     walk (\<lambda>k v s. (v < 60, k + s))
       (filter (\<lambda>p. 2 \<le> fst p \<and> fst p \<le> 9) (entries 4 (MapLeaf [(1, 10), (5, 50), (9, 90)]))) 0 \<and>
   asc (entries 4 (MapLeaf [(1, 10), (5, 50), (9, 90)]))"
  by (rule map_for_each_range_correct) (simp_all add: map_consts keys_le_def)

text \<open>The successor of a key is the entry with the least key above it.\<close>

theorem next_entry_correct:
  assumes "1 \<le> kb" and "kb \<le> 4" and "wf_edge kb e" and "a \<le> rem_mask kb"
  shows "next_entry kb e a = al_first (filter (\<lambda>p. a < fst p) (entries kb e))"
  using next_entry_ok [OF assms(3), of a] assms by (simp add: above_def)

theorem next_entry_correct_witness:
  "next_entry 4 (MapLeaf [(1, 10), (5, 50), (9, 90)]) 5 =
   al_first (filter (\<lambda>p. 5 < fst p) (entries 4 (MapLeaf [(1, 10), (5, 50), (9, 90)])))"
  by (rule next_entry_correct) (simp_all add: map_consts keys_le_def)

end
