(* ===== verification/Trie32_Remove_Range.thy ===== *)
theory Trie32_Remove_Range
  imports Trie32_Range
begin

text \<open>
  Correctness of the batched range removal of the 32-bit map engine: it reports exactly the entries
  of the range, in ascending key order and with their full keys, leaves exactly the others, and keeps
  the trie invariant through every demotion it makes.
\<close>

definition in_range :: "u32 \<Rightarrow> u32 \<Rightarrow> nat \<Rightarrow> bool" where
  "in_range lo hi n \<longleftrightarrow> unat lo \<le> n \<and> n \<le> unat hi"

definition sub_removed :: "u32 \<Rightarrow> u32 barr \<Rightarrow> nat list \<Rightarrow> (u32 \<times> u32) list" where
  "sub_removed prefix b ns = map (\<lambda>n. (prefix OR of_nat n, elem b n)) ns"

text \<open>What a step over one subarray achieves.\<close>

definition sub_post :: "u32 \<Rightarrow> u32 \<Rightarrow> u32 \<Rightarrow> nat \<Rightarrow> u32 barr \<Rightarrow> u32 barr \<times> (u32 \<times> u32) list \<Rightarrow> bool" where
  "sub_post prefix lo hi s b res \<longleftrightarrow> wf_barr (fst res) \<and>
     (\<forall>n. has (fst res) n \<longleftrightarrow> has b n \<and> \<not> (n div 32 = s \<and> in_range lo hi n)) \<and>
     (\<forall>n<256. has (fst res) n \<longrightarrow> elem (fst res) n = elem b n) \<and>
     snd res = sub_removed prefix b (filter (\<lambda>n. has b n \<and> in_range lo hi n) [32 * s..<32 * s + 32])"

lemma sub_skip:
  assumes "wf_barr b" and "\<And>n. n div 32 = s \<Longrightarrow> has b n \<Longrightarrow> \<not> in_range lo hi n"
  shows "sub_post prefix lo hi s b (b, [])"
proof -
  have "filter (\<lambda>n. has b n \<and> in_range lo hi n) [32 * s..<32 * s + 32] = []"
    using assms(2) by (fastforce simp: filter_empty_conv)
  then show ?thesis using assms by (auto simp: sub_post_def sub_removed_def)
qed

lemma barr_eqI_elem:
  assumes "wf_barr b" and s: "s < 8" and len: "length bm = 4"
    and h: "\<And>n. has (BArr bm (subarrays b)) n \<longleftrightarrow> has b n \<and> (n div 32 = s \<longrightarrow> Q n)"
  defines "b' \<equiv> BArr bm ((subarrays b)[s := map (elem b) (filter (\<lambda>n. has b n \<and> Q n) [32 * s..<32 * s + 32])])"
  shows "wf_barr b'" and "\<And>n. has b' n \<longleftrightarrow> has b n \<and> (n div 32 = s \<longrightarrow> Q n)"
    and "\<And>n. n < 256 \<Longrightarrow> has b' n \<Longrightarrow> elem b' n = elem b n"
proof -
  have sub: "length (subarrays b) = 8" using assms(1) by (simp add: wf_barr_def)
  show hb: "has b' n \<longleftrightarrow> has b n \<and> (n div 32 = s \<longrightarrow> Q n)" for n
    using h [of n] by (simp add: b'_def has_def)
  have in_s: "n div 32 = s" if "32 * s \<le> n" "n < 32 * s + 32" for n using that by linarith
  have c: "cnt (has b') (32 * t) m = (if t = s then cnt (\<lambda>n. has b n \<and> Q n) (32 * t) m else cnt (has b) (32 * t) m)"
    if "m \<le> 32 * t + 32" for t m
  proof -
    have "i div 32 = t" if "32 * t \<le> i" "i < m" for i using that \<open>m \<le> 32 * t + 32\<close> by linarith
    then show ?thesis by (auto simp: hb intro!: cnt_cong)
  qed
  show "wf_barr b'"
    using assms(1) len c sub s by (auto simp: wf_barr_def b'_def cnt_def nth_list_update)
  show "elem b' n = elem b n" if n: "n < 256" and "has b' n" for n
  proof (cases "n div 32 = s")
    case True
    have b: "32 * s \<le> n" "n < 32 * s + 32" using True by auto
    have Q: "has b n \<and> Q n" using hb [of n] that True by simp
    have r: "rank_of b' n = cnt (\<lambda>n. has b n \<and> Q n) (32 * s) n"
      using c [of n s] b by (simp add: rank_of_def True)
    have "cnt (\<lambda>n. has b n \<and> Q n) (32 * s) n < length (filter (\<lambda>n. has b n \<and> Q n) [32 * s..<32 * s + 32])"
      using cnt_less [OF b, of "\<lambda>n. has b n \<and> Q n"] Q by (simp add: cnt_def)
    moreover have "filter (\<lambda>n. has b n \<and> Q n) [32 * s..<32 * s + 32] ! cnt (\<lambda>n. has b n \<and> Q n) (32 * s) n = n"
      by (rule nth_filter_cnt [OF b]) (rule Q)
    ultimately show ?thesis using True s sub by (simp add: elem_def [of b'] r) (simp add: b'_def)
  next
    case False
    have "n \<le> 32 * (n div 32) + 32" using mod_less_divisor [of 32 n] mult_div_mod_eq [of 32 n] by linarith
    from c [OF this] False have "rank_of b' n = rank_of b n" by (simp add: rank_of_def)
    then show ?thesis using False by (simp add: elem_def b'_def)
  qed
qed

lemma hit_bits_in:
  assumes s: "s < 8" and lo: "lo \<le> hi" and hi: "hi \<le> 255"
    and skip: "\<not> (of_nat (s * 32) + 31 < lo \<or> hi < (of_nat (s * 32) :: u32))"
    and bit: "bit (push_bit (unat (max lo (of_nat (s * 32)) - of_nat (s * 32)) + s mod 2 * 32)
      (push_bit (unat (min hi (of_nat (s * 32) + 31) - of_nat (s * 32)) - unat (max lo (of_nat (s * 32)) - of_nat (s * 32)) + 1) 1 - 1) :: u64) j"
  shows "\<exists>i<32. j = s mod 2 * 32 + i"
proof -
  let ?f = "unat (max lo (of_nat (s * 32)) - of_nat (s * 32))" and ?t = "unat (min hi (of_nat (s * 32) + 31) - of_nat (s * 32))"
  have "j - (?f + s mod 2 * 32) < ?t - ?f + 1 \<and> ?f + s mod 2 * 32 \<le> j"
    using bit unfolding push_bit_of_1 mask_eq_decr_exp [symmetric] by (auto simp: bit_push_bit_iff bit_mask_iff)
  moreover have "?f \<le> ?t" "?t < 32" using range_offsets [OF s lo hi skip] by auto
  moreover have "\<exists>i<32. j = m + i" if "j - (f + m) < t - f + 1 \<and> f + m \<le> j" "f \<le> t" "t < 32" for f t m :: nat
    using that by (intro exI [of _ "j - m"]) linarith
  ultimately show ?thesis by blast
qed

lemma bitmap_remove_sub_ok:
  assumes wf: "wf_barr b" and s: "s < 8" and lo: "lo \<le> hi" and hi: "hi \<le> 255"
  shows "sub_post prefix lo hi s b (bitmap_remove_sub prefix lo hi s b)"
proof (cases "of_nat (s * 32) + 31 < lo \<or> hi < of_nat (s * 32)")
  case True
  have "unat (of_nat (s * 32) :: u32) = 32 * s" "unat (of_nat (s * 32) + 31 :: u32) = 32 * s + 31"
    using unat_of_nat_u32 [of "s * 32"] unat_of_nat_u32 [of "s * 32 + 31"] s by simp_all
  then have out: "32 * s + 31 < unat lo \<or> unat hi < 32 * s" using True by (simp add: word_less_nat_alt)
  have "\<not> in_range lo hi n" if "n div 32 = s" for n
  proof -
    have "32 * s \<le> n" "n \<le> 32 * s + 31" using that by linarith+
    then show ?thesis using out by (auto simp: in_range_def)
  qed
  then show ?thesis using True sub_skip [OF wf] by (simp add: bitmap_remove_sub_def Let_def)
next
  case False
  let ?base = "s mod 2 * 32" and ?w = "s div 2"
  let ?word = "bitmap b ! ?w"
  define span where "span = (push_bit (unat (max lo (of_nat (s * 32)) - of_nat (s * 32)) + ?base)
      (push_bit (unat (min hi (of_nat (s * 32) + 31) - of_nat (s * 32)) - unat (max lo (of_nat (s * 32)) - of_nat (s * 32)) + 1) 1 - 1) :: u64)"
  define hit where "hit = ?word AND span"
  have span: "bit span (?base + i) \<longleftrightarrow> in_range lo hi (32 * s + i)" if "i < 32" for i
    unfolding span_def in_range_def by (rule hit_bits [OF s that lo hi False])
  have span_in: "\<exists>i<32. j = ?base + i" if "bit span j" for j
    using that unfolding span_def by (rule hit_bits_in [OF s lo hi False])
  have pos: "(32 * s + i) div 64 = ?w" "(32 * s + i) mod 64 = ?base + i" if "i < 32" for i
    using that div_mult2_eq [of "32 * s + i" 32 2] mod_mult2_eq [of "32 * s + i" 32 2] by simp_all
  have hitb: "bit hit (?base + i) \<longleftrightarrow> has b (32 * s + i) \<and> in_range lo hi (32 * s + i)" if "i < 32" for i
    using span [OF that] pos [OF that] by (simp add: hit_def bit_and_iff has_def)
  show ?thesis
  proof (cases "hit = 0")
    case True
    have "\<not> in_range lo hi n" if "n div 32 = s" "has b n" for n
    proof -
      have "32 * s + n mod 32 = n" using that(1) mult_div_mod_eq [of 32 n] by simp
      then show ?thesis using hitb [of "n mod 32"] True that(2) by simp
    qed
    then show ?thesis
      using True False sub_skip [OF wf] by (simp add: bitmap_remove_sub_def Let_def hit_def span_def)
  next
    case nz: False
    define Q where "Q = (\<lambda>n. \<not> in_range lo hi n)"
    let ?bm = "(bitmap b)[?w := ?word AND NOT hit]"
    have h: "has (BArr ?bm (subarrays b)) n \<longleftrightarrow> has b n \<and> (n div 32 = s \<longrightarrow> Q n)" for n
    proof (cases "n div 32 = s")
      case True
      then have n: "32 * s + n mod 32 = n" using mult_div_mod_eq [of 32 n] by simp
      note p = pos [of "n mod 32", unfolded n, OF mod_less_divisor] and t = hitb [of "n mod 32", unfolded n, OF mod_less_divisor]
      have "?base + n mod 32 < 64" using mod_less_divisor [of 2 s] mod_less_divisor [of 32 n] by linarith
      then show ?thesis using p t True s wf by (auto simp: has_def Q_def bit_and_iff bit_not_iff wf_barr_def)
    next
      case False
      have "\<not> bit hit (n mod 64)" if "n div 64 = ?w"
      proof
        assume "bit hit (n mod 64)"
        then obtain i where "i < 32" "n mod 64 = ?base + i" using span_in by (auto simp: hit_def bit_and_iff)
        then have "n = 32 * s + i" using that mult_div_mod_eq [of 64 n] mult_div_mod_eq [of 2 s] by linarith
        then show False using False \<open>i < 32\<close> by simp
      qed
      then show ?thesis using False s wf by (auto simp: has_def bit_and_iff bit_not_iff wf_barr_def nth_list_update)
    qed
    let ?ivs = "map (\<lambda>i. (i, elem b (32 * s + i))) (filter (\<lambda>i. has b (32 * s + i)) [0..<32])"
    have upt: "[32 * s..<32 * s + 32] = map (\<lambda>i. 32 * s + i) [0..<32]"
      by (rule nth_equalityI) auto
    have rem: "map (\<lambda>(i, v). (prefix OR (of_nat (s * 32) + of_nat i), v)) (filter (\<lambda>(i, _). bit hit (?base + i)) ?ivs)
        = sub_removed prefix b (filter (\<lambda>n. has b n \<and> in_range lo hi n) [32 * s..<32 * s + 32])"
      unfolding upt sub_removed_def filter_map list.map_comp comp_def filter_filter prod.case
      by (rule map_cong) (auto simp: hitb intro!: filter_cong, simp add: mult.commute)
    have keep: "map snd (filter (\<lambda>iv. \<not> (case iv of (i, _) \<Rightarrow> bit hit (?base + i))) ?ivs)
        = map (elem b) (filter (\<lambda>n. has b n \<and> Q n) [32 * s..<32 * s + 32])"
      unfolding upt filter_map list.map_comp comp_def filter_filter prod.case snd_conv
      by (rule map_cong) (auto simp: Q_def hitb intro!: filter_cong)
    have len: "length ?bm = 4" using wf by (simp add: wf_barr_def)
    have res: "bitmap_remove_sub prefix lo hi s b =
        (BArr ?bm ((subarrays b)[s := map (elem b) (filter (\<lambda>n. has b n \<and> Q n) [32 * s..<32 * s + 32])]),
         sub_removed prefix b (filter (\<lambda>n. has b n \<and> in_range lo hi n) [32 * s..<32 * s + 32]))"
      using False nz rem keep sub_entries [OF wf s]
      unfolding bitmap_remove_sub_def Let_def hit_def span_def
      by (simp only: if_False refl)
    show ?thesis
      unfolding res sub_post_def fst_conv snd_conv
      using barr_eqI_elem [OF wf s len h] by (auto simp: Q_def)
  qed
qed

lemma bitmap_remove_upto:
  fixes prefix :: u32
  assumes wf: "wf_barr b" and lo: "lo \<le> hi" and hi: "hi \<le> 255" and "m \<le> 8"
  defines "res \<equiv> fold (\<lambda>sub (b, removed). let (b', r) = bitmap_remove_sub prefix lo hi sub b in (b', removed @ r)) [0..<m] (b, [])"
  shows "wf_barr (fst res) \<and> (\<forall>n. has (fst res) n \<longleftrightarrow> has b n \<and> \<not> (n < 32 * m \<and> in_range lo hi n)) \<and>
     (\<forall>n<256. has (fst res) n \<longrightarrow> elem (fst res) n = elem b n) \<and>
     snd res = sub_removed prefix b (filter (\<lambda>n. has b n \<and> in_range lo hi n) [0..<32 * m])"
  using assms(4) unfolding res_def
proof (induction m)
  case 0
  then show ?case using wf by (simp add: sub_removed_def)
next
  case (Suc m)
  let ?f = "fold (\<lambda>sub (b, removed). let (b', r) = bitmap_remove_sub prefix lo hi sub b in (b', removed @ r)) [0..<m] (b, [])"
  let ?b = "fst ?f"
  have IH: "wf_barr ?b" "\<And>n. has ?b n \<longleftrightarrow> has b n \<and> \<not> (n < 32 * m \<and> in_range lo hi n)"
    "\<And>n. n < 256 \<Longrightarrow> has ?b n \<Longrightarrow> elem ?b n = elem b n"
    "snd ?f = sub_removed prefix b (filter (\<lambda>n. has b n \<and> in_range lo hi n) [0..<32 * m])"
    using Suc by auto
  have post: "sub_post prefix lo hi m ?b (bitmap_remove_sub prefix lo hi m ?b)"
    using Suc.prems by (intro bitmap_remove_sub_ok [OF IH(1) _ lo hi]) simp
  have lt: "n < 32 * Suc m \<longleftrightarrow> n < 32 * m \<or> n div 32 = m" for n by auto
  have upt: "[0..<32 * Suc m] = [0..<32 * m] @ [32 * m..<32 * m + 32]"
    using upt_add_eq_append [of 0 "32 * m" 32] by (simp add: add.commute)
  have r: "sub_removed prefix ?b (filter (\<lambda>n. has ?b n \<and> in_range lo hi n) [32 * m..<32 * m + 32]) =
      sub_removed prefix b (filter (\<lambda>n. has b n \<and> in_range lo hi n) [32 * m..<32 * m + 32])"
    unfolding sub_removed_def using IH(2,3) Suc.prems by (intro map_cong filter_cong) auto
  have step: "fold (\<lambda>sub (b, removed). let (b', r) = bitmap_remove_sub prefix lo hi sub b in (b', removed @ r)) [0..<Suc m] (b, [])
      = (fst (bitmap_remove_sub prefix lo hi m ?b), snd ?f @ snd (bitmap_remove_sub prefix lo hi m ?b))"
    by (simp add: split_beta Let_def)
  note p = post [unfolded sub_post_def]
  show ?case unfolding step fst_conv snd_conv upt filter_append
  proof (intro conjI)
    show "\<forall>n. has (fst (bitmap_remove_sub prefix lo hi m ?b)) n \<longleftrightarrow> has b n \<and> \<not> (n < 32 * Suc m \<and> in_range lo hi n)"
      using p IH(2) by (auto simp only: lt)
    show "\<forall>n<256. has (fst (bitmap_remove_sub prefix lo hi m ?b)) n \<longrightarrow> elem (fst (bitmap_remove_sub prefix lo hi m ?b)) n = elem b n"
    proof (intro allI impI)
      fix n
      assume n: "n < 256" "has (fst (bitmap_remove_sub prefix lo hi m ?b)) n"
      have "has ?b n" using p n(2) by blast
      then show "elem (fst (bitmap_remove_sub prefix lo hi m ?b)) n = elem b n" using p n IH(3) by auto
    qed
    show "snd ?f @ snd (bitmap_remove_sub prefix lo hi m ?b) = sub_removed prefix b
        (filter (\<lambda>n. has b n \<and> in_range lo hi n) [0..<32 * m] @ filter (\<lambda>n. has b n \<and> in_range lo hi n) [32 * m..<32 * m + 32])"
      using p r IH(4) by (simp add: sub_removed_def)
  qed (use p in blast)
qed

lemma bitmap_remove_range_ok:
  assumes wf: "wf_barr b" and lo: "lo \<le> hi" and hi: "hi \<le> 255"
  shows "wf_barr (fst (bitmap_remove_range prefix lo hi b))"
    and "read_map_bitmap (fst (bitmap_remove_range prefix lo hi b)) = al_outside lo hi (read_map_bitmap b)"
    and "snd (bitmap_remove_range prefix lo hi b) = map (\<lambda>p. (prefix OR fst p, snd p)) (al_range lo hi (read_map_bitmap b))"
proof -
  let ?b = "fst (bitmap_remove_range prefix lo hi b)"
  note r = bitmap_remove_upto [OF wf lo hi order.refl, of prefix, folded bitmap_remove_range_def]
  show "wf_barr ?b" using r by simp
  have e: "map_bitmap_entry b (of_nat n) = (of_nat n, elem b n)" if "n < 256" for n and b :: "u32 barr"
    using that by (simp add: elem_map_bitmap_entry word_unat_eq_iff ucast_u8_u32 unat_of_nat_u32)
  have h: "has ?b n \<longleftrightarrow> has b n \<and> \<not> in_range lo hi n" if "n < 256" for n using r that by auto
  have el: "elem ?b n = elem b n" if "n < 256" "has ?b n" for n using r that by auto
  have key: "lo \<le> of_nat n \<and> of_nat n \<le> hi \<longleftrightarrow> in_range lo hi n" if "n < 256" for n
    using that by (simp add: in_range_def word_le_nat_alt unat_of_nat_u32)
  have read: "read_map_bitmap b = map (\<lambda>n. (of_nat n, elem b n)) (filter (has b) [0..<256])" for b :: "u32 barr"
    unfolding read_map_bitmap_digits by (rule map_cong [OF refl]) (rule e, simp only: set_filter set_upt mem_Collect_eq atLeastLessThan_iff)
  have f: "filter (\<lambda>p. P (fst p)) (read_map_bitmap b) = map (\<lambda>n. (of_nat n, elem b n)) (filter (\<lambda>n. has b n \<and> Q n) [0..<256])"
    if "\<And>n. n < 256 \<Longrightarrow> P (of_nat n) = Q n" for P Q
    unfolding read filter_map comp_def fst_conv filter_filter
    by (intro arg_cong [where f = "map _"] filter_cong refl)
      (use that in \<open>simp only: set_upt atLeastLessThan_iff\<close>)
  have "al_outside lo hi (read_map_bitmap b) = map (\<lambda>n. (of_nat n, elem b n)) (filter (\<lambda>n. has b n \<and> \<not> in_range lo hi n) [0..<256])"
    unfolding al_outside_def by (rule f) (simp add: key)
  also have "\<dots> = map (\<lambda>n. (of_nat n, elem ?b n)) (filter (has ?b) [0..<256])"
  proof (rule map_cong)
    show "filter (\<lambda>n. has b n \<and> \<not> in_range lo hi n) [0..<256] = filter (has ?b) [0..<256]"
      by (rule filter_cong [OF refl]) (use h in \<open>simp only: set_upt atLeastLessThan_iff\<close>)
  qed (use el in \<open>simp only: set_filter set_upt mem_Collect_eq atLeastLessThan_iff\<close>)
  finally show "read_map_bitmap ?b = al_outside lo hi (read_map_bitmap b)" by (simp only: read)
  have "al_range lo hi (read_map_bitmap b) = map (\<lambda>n. (of_nat n, elem b n)) (filter (\<lambda>n. has b n \<and> in_range lo hi n) [0..<256])"
    unfolding al_range_def by (rule f) (simp add: key)
  then show "snd (bitmap_remove_range prefix lo hi b) = map (\<lambda>p. (prefix OR fst p, snd p)) (al_range lo hi (read_map_bitmap b))"
    using r by (simp only: sub_removed_def list.map_comp comp_def fst_conv snd_conv) simp
qed

section \<open>Leaves\<close>

definition rr_post :: "nat \<Rightarrow> edge \<Rightarrow> u32 \<Rightarrow> u32 \<Rightarrow> u32 \<Rightarrow> edge \<times> (u32 \<times> u32) list \<Rightarrow> bool" where
  "rr_post k e prefix lo hi res \<longleftrightarrow> wf_edge k (fst res) \<and> entries k (fst res) = al_outside lo hi (entries k e) \<and>
     snd res = map (\<lambda>p. (prefix OR fst p, snd p)) (al_range lo hi (entries k e))"

lemma al_outside_all: "al_range lo hi xs = [] \<Longrightarrow> al_outside lo hi xs = xs"
  by (simp add: al_range_def al_outside_def filter_id_conv filter_empty_conv)

lemma rr_post_none: "wf_edge k e \<Longrightarrow> al_range lo hi (entries k e) = [] \<Longrightarrow> rr_post k e prefix lo hi (e, [])"
  by (simp add: rr_post_def al_outside_all)

lemma one_survivor:
  assumes "length (remove_span i0 i1 xs) = 1" and "i0 \<le> i1" and "i1 \<le> length xs"
  shows "remove_span i0 i1 xs = [xs ! (if i0 = 0 then length xs - 1 else 0)]"
proof (cases "i0 = 0")
  case True
  then have l: "length xs = Suc i1" using assms by (simp add: remove_span_def)
  then have "drop i1 xs = [xs ! i1]" by (simp add: Cons_nth_drop_Suc [symmetric])
  then show ?thesis using True l by (simp add: remove_span_def)
next
  case False
  then have "i0 = 1" "i1 = length xs" using assms by (auto simp: remove_span_def)
  then show ?thesis using assms(2) by (cases xs) (auto simp: remove_span_def)
qed

lemma remove_range_leaf:
  assumes w: "wf_edge (Suc k) (MapLeaf xs)" and lo: "lo \<le> hi" and hi: "hi \<le> rem_mask (Suc k)"
  shows "rr_post (Suc k) (MapLeaf xs) prefix lo hi (map_remove_range (Suc k) (MapLeaf xs) prefix lo hi)"
proof -
  let ?i0 = "leaf_lower_bound xs lo" and ?i1 = "if hi = rem_mask (Suc k) then length xs else leaf_lower_bound xs (hi + 1)"
  let ?out = "al_outside lo hi xs"
  have asc: "asc xs" and le: "keys_le (Suc k) xs" using w by auto
  have "?i1 = (if rem_mask (Suc k) \<le> hi then length xs else leaf_lower_bound xs (hi + 1))" using hi by auto
  note sp = leaf_span [OF asc le lo this]
  have rem: "map (\<lambda>i. (prefix OR fst (xs ! i), snd (xs ! i))) [?i0..<?i1] = map (\<lambda>p. (prefix OR fst p, snd p)) (al_range lo hi xs)"
    unfolding sp(1) [symmetric] by simp
  have len: "length ?out = length xs - (?i1 - ?i0)"
    unfolding sp(2) [symmetric] using sp(3,4) by (intro length_remove_span) auto
  have ok: "asc ?out" "keys_le (Suc k) ?out" using asc_al_outside [OF asc] keys_le_filter [OF le] by (auto simp: al_outside_def)
  show ?thesis
  proof (cases "?i1 \<le> ?i0")
    case True
    then have "al_range lo hi xs = []" using sp(1) by simp
    then show ?thesis using True rr_post_none [OF w, of lo hi prefix] by (simp add: Let_def)
  next
    case False
    consider "length ?out = 0" | (one) "length ?out = 1" "Suc k \<le> 3" | (many) "length ?out \<noteq> 0" "\<not> (length ?out = 1 \<and> Suc k \<le> 3)"
      by linarith
    then show ?thesis
    proof cases
      case one
      have o: "?out = [xs ! (if ?i0 = 0 then length xs - 1 else 0)]"
        using one_survivor [OF _ sp(3,4)] one(1) unfolding sp(2) by simp
      show ?thesis
        using False one len ok(2) rem unfolding rr_post_def
        by (simp add: Let_def o del: One_nat_def)
    next
      case many
      have e: "map_remove_range (Suc k) (MapLeaf xs) prefix lo hi = (MapLeaf ?out, map (\<lambda>p. (prefix OR fst p, snd p)) (al_range lo hi xs))"
        using False many len rem sp(2) by (simp add: Let_def)
      show ?thesis using many len ok w unfolding rr_post_def e by auto
    qed (use False len rem in \<open>simp add: rr_post_def Let_def\<close>)
  qed
qed

lemma remove_range_bitmap:
  assumes w: "wf_edge (Suc k) (MapBitmap pop0 b)" and lo: "lo \<le> hi" and hi: "hi \<le> rem_mask (Suc k)"
  shows "rr_post (Suc k) (MapBitmap pop0 b) prefix lo hi (map_remove_range (Suc k) (MapBitmap pop0 b) prefix lo hi)"
proof -
  have k: "k = 0" and wb: "wf_barr b" and len: "length (read_map_bitmap b) = pop0 + 1"
    using w by (auto simp: read_map_bitmap_def)
  let ?res = "bitmap_remove_range prefix lo hi b"
  have "hi \<le> 255" using hi k by (simp add: rem_mask_1)
  note r = bitmap_remove_range_ok [OF wb lo this, of prefix]
  let ?n = "pop0 + 1 - length (snd ?res)"
  let ?p = "if 0 < ?n then ?n - 1 else pop0"
  have n: "length (barr_pairs (fst ?res)) = ?n" and le: "length (snd ?res) \<le> pop0 + 1"
    using arg_cong [OF r(2), of length] arg_cong [OF r(3), of length] al_range_outside_length [of lo hi "read_map_bitmap b"] len
    by (simp_all add: read_map_bitmap_def)
  have e: "map_remove_range (Suc k) (MapBitmap pop0 b) prefix lo hi =
      (if length (snd ?res) = 0 then (MapBitmap ?p (fst ?res), []) else (map_bitmap_shrink ?n ?p (fst ?res), snd ?res))"
    by (simp add: Let_def split_beta)
  show ?thesis
  proof (cases "length (snd ?res) = 0")
    case True
    then have "wf_edge (Suc k) (MapBitmap ?p (fst ?res))" using w n r(1) by simp
    then show ?thesis unfolding e rr_post_def using True r(2,3) by simp
  next
    case False
    have "0 < ?n \<Longrightarrow> ?p + 1 = ?n" by simp
    note s = map_bitmap_shrink_ok [OF r(1) n this]
    show ?thesis unfolding e rr_post_def using False s r(2,3) k by simp
  qed
qed

section \<open>Branches\<close>

lemma digit_mono:
  "k < 4 \<Longrightarrow> r \<le> s \<Longrightarrow> s \<le> rem_mask (Suc k) \<Longrightarrow> digit_at r (Suc k) \<le> digit_at s (Suc k)"
proof (rule ccontr)
  assume k: "k < 4" and rs: "r \<le> s" and s: "s \<le> rem_mask (Suc k)" and "\<not> digit_at r (Suc k) \<le> digit_at s (Suc k)"
  then have d: "digit_at s (Suc k) < digit_at r (Suc k)" by simp
  have r: "r \<le> rem_mask (Suc k)" using rs s by simp
  have "s < r"
    using combine_less_iff [of "Suc k" "child_rem s (Suc k)" "child_rem r (Suc k)" "digit_at s (Suc k)" "digit_at r (Suc k)"]
      key_split [OF k s] key_split [OF k r] child_le [OF k] d k by simp
  then show False using rs by simp
qed

definition clo_of :: "nat \<Rightarrow> u32 \<Rightarrow> u8 \<Rightarrow> u32" where
  "clo_of kb lo d = (if d = digit_at lo kb then child_rem lo kb else 0)"

definition chi_of :: "nat \<Rightarrow> u32 \<Rightarrow> u8 \<Rightarrow> u32" where
  "chi_of kb hi d = (if d = digit_at hi kb then child_rem hi kb else rem_mask (kb - 1))"

lemma range_split:
  assumes k: "k < 4" and lo: "lo \<le> rem_mask (Suc k)" and hi: "hi \<le> rem_mask (Suc k)" and s: "s \<le> rem_mask (Suc k)"
    and d: "digit_at lo (Suc k) \<le> digit_at s (Suc k)" "digit_at s (Suc k) \<le> digit_at hi (Suc k)"
  shows "lo \<le> s \<and> s \<le> hi \<longleftrightarrow> clo_of (Suc k) lo (digit_at s (Suc k)) \<le> child_rem s (Suc k) \<and>
    child_rem s (Suc k) \<le> chi_of (Suc k) hi (digit_at s (Suc k))"
  using key_compare(2) [OF k lo child_le [OF k, of s], of "digit_at s (Suc k)", unfolded key_split [OF k s]]
    key_compare(1) [OF k hi child_le [OF k, of s], of "digit_at s (Suc k)", unfolded key_split [OF k s]]
    d child_le [OF k, of s]
  by (auto simp: clo_of_def chi_of_def not_less [symmetric])

lemma clo_le_chi:
  assumes k: "k < 4" and le: "lo \<le> hi" and hi: "hi \<le> rem_mask (Suc k)"
  shows "clo_of (Suc k) lo d \<le> chi_of (Suc k) hi d" and "chi_of (Suc k) hi d \<le> rem_mask k"
proof -
  have lo: "lo \<le> rem_mask (Suc k)" using le hi by simp
  show "chi_of (Suc k) hi d \<le> rem_mask k" using child_le [OF k] by (simp add: chi_of_def)
  have "child_rem lo (Suc k) \<le> child_rem hi (Suc k)" if "digit_at lo (Suc k) = digit_at hi (Suc k)"
    using key_compare(2) [OF k lo child_le [OF k, of hi], of "digit_at hi (Suc k)", unfolded key_split [OF k hi]] that le
    by (simp add: not_less [symmetric])
  then show "clo_of (Suc k) lo d \<le> chi_of (Suc k) hi d" using child_le [OF k, of lo] by (auto simp: clo_of_def chi_of_def)
qed

text \<open>The part of a branch under one digit.\<close>

lemma digit_part:
  assumes c: "wf_children k b" and k: "k < 4"
  shows "filter (\<lambda>p. digit_at (fst p) (Suc k) = d) (entries (Suc k) (Branch b)) =
    (case branch_child b d of None \<Rightarrow> [] | Some ch \<Rightarrow> lift_entries d (Suc k) (entries k ch))" (is "?F = ?L")
proof (rule asc_unique)
  note E = branch_entries_wf [OF c k]
  show "asc ?F" using asc_filter [OF E(1)] .
  have ch: "asc (entries k ch)" "keys_le k (entries k ch)" if "branch_child b d = Some ch" for ch
    using wf_child [OF c that] entries_wf [of k ch] k by auto
  show "asc ?L" using asc_lift [OF k] ch by (auto split: option.split)
  show "map_of ?F = map_of ?L"
  proof
    fix s
    have F: "map_of ?F s = (if digit_at s (Suc k) = d then map_of (entries (Suc k) (Branch b)) s else None)"
      by (rule map_of_filter_key [where P = "\<lambda>r. digit_at r (Suc k) = d"])
    show "map_of ?F s = map_of ?L s"
    proof (cases "s \<le> rem_mask (Suc k)")
      case True
      then show ?thesis
        using F map_of_branch_entries [OF c k True] map_of_lift [OF k _ True, of _ d] ch by (auto split: option.split)
    next
      case False
      then have none: "map_of xs s = None" if "keys_le (Suc k) xs" for xs
        using that by (auto simp: map_of_eq_None_iff keys_le_def)
      have "keys_le (Suc k) ?L" using lift_keys_le [OF k] ch by (auto split: option.split)
      then show ?thesis using none [of ?L] none [OF keys_le_filter [OF E(2)]] by simp
    qed
  qed
qed

lemma filter_digits:
  assumes "sorted (map g xs)" and "\<And>e. e \<in> set ds \<Longrightarrow> d < e"
  shows "filter (\<lambda>p. P p \<and> g p \<in> set (d # ds)) xs = filter (\<lambda>p. P p \<and> g p = d) xs @ filter (\<lambda>p. P p \<and> g p \<in> set ds) xs"
  using assms(1)
proof (induction xs)
  case (Cons x xs)
  have nd: "g x = d \<Longrightarrow> g x \<notin> set ds" using assms(2) by blast
  have "filter (\<lambda>p. P p \<and> g p = d) xs = []" if "g x \<in> set ds"
    using Cons.prems assms(2) [OF that] by (auto simp: filter_empty_conv)
  then show ?case using Cons nd by auto
qed simp

definition within :: "u32 \<Rightarrow> u32 \<Rightarrow> u32 \<times> u32 \<Rightarrow> bool" where
  "within lo hi p \<longleftrightarrow> lo \<le> fst p \<and> fst p \<le> hi"

definition with_prefix :: "u32 \<Rightarrow> (u32 \<times> u32) list \<Rightarrow> (u32 \<times> u32) list" where
  "with_prefix prefix xs = map (\<lambda>p. (prefix OR fst p, snd p)) xs"

lemma with_prefix_lift:
  "with_prefix prefix (lift_entries d kb xs) = with_prefix (prefix OR push_bit ((kb - 1) * 8) (ucast d)) xs"
  by (simp add: with_prefix_def lift_entries_def split_beta combine_def or.assoc)

definition rr_ok :: "nat \<Rightarrow> (edge \<Rightarrow> u32 \<Rightarrow> u32 \<Rightarrow> u32 \<Rightarrow> edge \<times> (u32 \<times> u32) list) \<Rightarrow> bool" where
  "rr_ok k rr \<longleftrightarrow> (\<forall>c prefix lo hi. wf_edge k c \<longrightarrow> lo \<le> hi \<longrightarrow> hi \<le> rem_mask k \<longrightarrow> rr_post k c prefix lo hi (rr c prefix lo hi))"

lemma scan_child:
  assumes ok: "rr_ok k rr" and c: "wf_children k b" and k: "k < 4" and le: "lo \<le> hi" and hi: "hi \<le> rem_mask (Suc k)"
    and d: "digit_at lo (Suc k) \<le> d" "d \<le> digit_at hi (Suc k)" and ch: "branch_child b d = Some child"
    and res: "rr child (prefix OR push_bit (k * 8) (ucast d)) (clo_of (Suc k) lo d) (chi_of (Suc k) hi d) = (child', removed)"
  shows "wf_edge k child'"
    and "removed = with_prefix prefix (filter (\<lambda>p. within lo hi p \<and> digit_at (fst p) (Suc k) = d) (entries (Suc k) (Branch b)))"
    and "\<And>s. s \<le> rem_mask (Suc k) \<Longrightarrow>
      map_of (filter (\<lambda>p. \<not> (within lo hi p \<and> digit_at (fst p) (Suc k) = d)) (entries (Suc k) (Branch b))) s =
      (if digit_at s (Suc k) = d then map_of (entries k child') (child_rem s (Suc k)) else map_of (entries (Suc k) (Branch b)) s)"
proof -
  let ?E = "entries (Suc k) (Branch b)" and ?clo = "clo_of (Suc k) lo d" and ?chi = "chi_of (Suc k) hi d"
  have lo: "lo \<le> rem_mask (Suc k)" using le hi by simp
  have wc: "wf_edge k child" using wf_child [OF c ch] by simp
  have keys: "keys_le k (entries k child)" using entries_le [OF wc] k by simp
  note post = ok [unfolded rr_ok_def, rule_format, OF wc clo_le_chi [OF k le hi, of d], of "prefix OR push_bit (k * 8) (ucast d)",
      unfolded res rr_post_def fst_conv snd_conv]
  show "wf_edge k child'" using post by simp
  have "filter (\<lambda>p. within lo hi p \<and> digit_at (fst p) (Suc k) = d) ?E = al_range lo hi (lift_entries d (Suc k) (entries k child))"
    using digit_part [OF c k, of d] ch by (simp add: al_range_def within_def conj_commute flip: filter_filter)
  also have "\<dots> = lift_entries d (Suc k) (al_range ?clo ?chi (entries k child))"
  proof -
    have "\<not> (d < digit_at lo (Suc k) \<or> digit_at hi (Suc k) < d)" using d by auto
    then show ?thesis unfolding range_lift [OF k lo hi keys] clo_of_def chi_of_def by (simp only: if_False diff_Suc_1)
  qed
  finally show "removed = with_prefix prefix (filter (\<lambda>p. within lo hi p \<and> digit_at (fst p) (Suc k) = d) ?E)"
    using post by (simp add: with_prefix_lift) (simp add: with_prefix_def)
  fix s
  assume s: "s \<le> rem_mask (Suc k)"
  have "map_of (filter (\<lambda>p. \<not> (within lo hi p \<and> digit_at (fst p) (Suc k) = d)) ?E) s =
      (if \<not> ((lo \<le> s \<and> s \<le> hi) \<and> digit_at s (Suc k) = d) then map_of ?E s else None)"
    unfolding within_def by (rule map_of_filter_key [where P = "\<lambda>r. \<not> ((lo \<le> r \<and> r \<le> hi) \<and> digit_at r (Suc k) = d)"])
  then show "map_of (filter (\<lambda>p. \<not> (within lo hi p \<and> digit_at (fst p) (Suc k) = d)) ?E) s =
      (if digit_at s (Suc k) = d then map_of (entries k child') (child_rem s (Suc k)) else map_of ?E s)"
    using range_split [OF k lo hi s] d post map_of_branch_entries [OF c k s] ch
    by (auto simp: map_of_al_outside simp del: entries.simps)
qed

text \<open>The two ways a child with removed entries is written back.\<close>

lemma kept_length:
  "int (length (filter (\<lambda>p. \<not> H p) E)) - int (length E) = - int (length (filter H E))"
  using sum_length_filter_compl [of H E] by simp

lemma scan_drop:
  assumes ok: "rr_ok k rr" and c: "wf_children k b" and k: "1 \<le> k" "k < 4" and le: "lo \<le> hi" and hi: "hi \<le> rem_mask (Suc k)"
    and d: "digit_at lo (Suc k) \<le> d" "d \<le> digit_at hi (Suc k)" and ch: "branch_child b d = Some child"
    and res: "rr child (prefix OR push_bit (k * 8) (ucast d)) (clo_of (Suc k) lo d) (chi_of (Suc k) hi d) = (child', removed)"
    and null: "child' = Null"
  defines "X \<equiv> filter (\<lambda>p. \<not> (within lo hi p \<and> digit_at (fst p) (Suc k) = d)) (entries (Suc k) (Branch b))"
  shows "wf_edge (Suc k) (edge_of (branch_remove_digit (branch_add_keys b (- int (length removed))) d)) \<and>
    entries (Suc k) (edge_of (branch_remove_digit (branch_add_keys b (- int (length removed))) d)) = X"
proof (rule drop_child [OF c k(2) _ _ _ _ k(1)])
  note sc = scan_child [OF ok c k(2) le hi d ch res]
  note E = branch_entries_wf [OF c k(2)]
  show "asc X" "keys_le (Suc k) X" unfolding X_def using asc_filter [OF E(1)] keys_le_filter [OF E(2)] by auto
  show "map_of X s = (if digit_at s (Suc k) = d then None else map_of (entries (Suc k) (Branch b)) s)" if "s \<le> rem_mask (Suc k)" for s
    using sc(3) [OF that] null unfolding X_def by simp
  have wb: "wf_branch b" and cnt: "branch_count b = of_nat (length (entries (Suc k) (Branch b)))"
    using c by (simp_all add: wf_children_def del: entries.simps)
  have len: "int (length X) - int (length (entries (Suc k) (Branch b))) = - int (length removed)"
    unfolding X_def sc(2) with_prefix_def length_map by (rule kept_length)
  have "branch_count b + of_int (- int (length removed)) = of_nat (length X)"
    unfolding cnt len [symmetric] by (simp del: entries.simps)
  then show "case branch_remove_digit (branch_add_keys b (- int (length removed))) d of None \<Rightarrow> al_del d (branch_pairs b) = []
      | Some b' \<Rightarrow> wf_branch b' \<and> branch_pairs b' = al_del d (branch_pairs b) \<and> branch_pairs b' \<noteq> []
          \<and> branch_count b' = of_nat (length X)"
    using branch_remove_digit_laws [of "branch_add_keys b (- int (length removed))" d] wb ch by (auto split: option.splits)
qed

lemma scan_put:
  assumes ok: "rr_ok k rr" and c: "wf_children k b" and k: "k < 4" and le: "lo \<le> hi" and hi: "hi \<le> rem_mask (Suc k)"
    and d: "digit_at lo (Suc k) \<le> d" "d \<le> digit_at hi (Suc k)" and ch: "branch_child b d = Some child"
    and res: "rr child (prefix OR push_bit (k * 8) (ucast d)) (clo_of (Suc k) lo d) (chi_of (Suc k) hi d) = (child', removed)"
    and nonnull: "child' \<noteq> Null"
  defines "X \<equiv> filter (\<lambda>p. \<not> (within lo hi p \<and> digit_at (fst p) (Suc k) = d)) (entries (Suc k) (Branch b))"
  shows "wf_children k (branch_commit b d child' (- int (length removed))) \<and>
    entries (Suc k) (Branch (branch_commit b d child' (- int (length removed)))) = X \<and>
    branch_pairs (branch_commit b d child' (- int (length removed))) \<noteq> []"
proof (rule put_child [OF c k _ _ _ _ nonnull])
  note sc = scan_child [OF ok c k le hi d ch res]
  note E = branch_entries_wf [OF c k]
  show "asc X" "keys_le (Suc k) X" unfolding X_def using asc_filter [OF E(1)] keys_le_filter [OF E(2)] by auto
  show "map_of X s = (if digit_at s (Suc k) = d then map_of (entries k child') (child_rem s (Suc k))
      else map_of (entries (Suc k) (Branch b)) s)" if "s \<le> rem_mask (Suc k)" for s
    using sc(3) [OF that] unfolding X_def .
  show "- int (length removed) = int (length X) - int (length (entries (Suc k) (Branch b)))"
    unfolding X_def sc(2) with_prefix_def length_map by (rule kept_length [symmetric])
qed (use ch scan_child(1) [OF ok c k le hi d ch res] in \<open>auto simp: X_def less_Suc_eq_le simp del: entries.simps\<close>)

lemma remove_range_scan_ok:
  assumes ok: "rr_ok k rr" and k: "1 \<le> k" "k < 4" and le: "lo \<le> hi" and hi: "hi \<le> rem_mask (Suc k)"
    and "wf_children k b" and "branch_pairs b \<noteq> []" and "sorted_wrt (<) ds"
    and "\<And>d. d \<in> set ds \<Longrightarrow> digit_at lo (Suc k) \<le> d \<and> d \<le> digit_at hi (Suc k)"
  shows "(case remove_range_scan rr (Suc k) prefix lo hi ds b acc of (b', acc') \<Rightarrow>
      wf_edge (Suc k) (edge_of b') \<and>
      entries (Suc k) (edge_of b') = filter (\<lambda>p. \<not> (within lo hi p \<and> digit_at (fst p) (Suc k) \<in> set ds)) (entries (Suc k) (Branch b)) \<and>
      acc' = acc @ with_prefix prefix (filter (\<lambda>p. within lo hi p \<and> digit_at (fst p) (Suc k) \<in> set ds) (entries (Suc k) (Branch b))))"
  using assms(6-9)
proof (induction ds arbitrary: b acc)
  case Nil
  then show ?case using k by (simp add: edge_of_def with_prefix_def wf_edge_Branch del: entries.simps wf_edge.simps)
next
  case (Cons d ds)
  let ?E = "entries (Suc k) (Branch b)"
  let ?H = "\<lambda>p. within lo hi p \<and> digit_at (fst p) (Suc k) = d"
  let ?X = "filter (\<lambda>p. \<not> ?H p) ?E"
  note c = Cons.prems(1)
  note E = branch_entries_wf [OF c k(2)]
  have X: "asc ?X" "keys_le (Suc k) ?X" using asc_filter [OF E(1)] keys_le_filter [OF E(2)] by auto
  have ds: "sorted_wrt (<) ds" "\<And>e. e \<in> set ds \<Longrightarrow> d < e" "\<And>e. e \<in> set ds \<Longrightarrow> digit_at lo (Suc k) \<le> e \<and> e \<le> digit_at hi (Suc k)"
    using Cons.prems(3,4) by auto
  have sorted: "sorted (map (\<lambda>p. digit_at (fst p) (Suc k)) xs)" if "asc xs" "keys_le (Suc k) xs" for xs
    using that by (induction xs) (auto simp: keys_le_def intro!: digit_mono [OF k(2)] intro: less_imp_le)
  note split = filter_digits [OF sorted [OF E] ds(2), where P = "within lo hi"]
  have rest: "filter (\<lambda>p. within lo hi p \<and> digit_at (fst p) (Suc k) \<in> set ds) ?X = filter (\<lambda>p. within lo hi p \<and> digit_at (fst p) (Suc k) \<in> set ds) ?E"
    unfolding filter_filter using ds(2) by (intro filter_cong refl) auto
  have out: "filter (\<lambda>p. \<not> (within lo hi p \<and> digit_at (fst p) (Suc k) \<in> set ds)) ?X =
      filter (\<lambda>p. \<not> (within lo hi p \<and> digit_at (fst p) (Suc k) \<in> set (d # ds))) ?E"
    unfolding filter_filter by (intro filter_cong refl) auto
  have acc_eq: "with_prefix prefix (filter (\<lambda>p. within lo hi p \<and> digit_at (fst p) (Suc k) \<in> set (d # ds)) ?E) =
      with_prefix prefix (filter ?H ?E) @ with_prefix prefix (filter (\<lambda>p. within lo hi p \<and> digit_at (fst p) (Suc k) \<in> set ds) ?E)"
    by (simp only: split with_prefix_def map_append)
  have IH: "case remove_range_scan rr (Suc k) prefix lo hi ds b'' acc'' of (b', acc') \<Rightarrow>
      wf_edge (Suc k) (edge_of b') \<and>
      entries (Suc k) (edge_of b') = filter (\<lambda>p. \<not> (within lo hi p \<and> digit_at (fst p) (Suc k) \<in> set (d # ds))) ?E \<and>
      acc' = acc @ with_prefix prefix (filter (\<lambda>p. within lo hi p \<and> digit_at (fst p) (Suc k) \<in> set (d # ds)) ?E)"
    if "wf_children k b''" "branch_pairs b'' \<noteq> []" "entries (Suc k) (Branch b'') = ?X" "acc'' = acc @ with_prefix prefix (filter ?H ?E)"
    for b'' acc''
    using Cons.IH [OF that(1,2) ds(1,3), of acc''] unfolding that(3,4) rest out acc_eq
    by (simp only: append_assoc)
  have id: "wf_children k b \<and> branch_pairs b \<noteq> [] \<and> entries (Suc k) (Branch b) = ?X \<and> acc = acc @ with_prefix prefix (filter ?H ?E)"
    if "filter ?H ?E = []"
    using that c Cons.prems(2) by (auto simp: with_prefix_def filter_empty_conv filter_id_conv simp del: entries.simps)
  show ?case
  proof (cases "branch_child b d")
    case None
    then have "filter ?H ?E = []" using digit_part [OF c k(2), of d] by (auto simp: filter_empty_conv simp del: entries.simps)
    then show ?thesis using None IH id by (simp del: entries.simps)
  next
    case (Some child)
    obtain child' removed where res: "rr child (prefix OR push_bit (k * 8) (ucast d)) (clo_of (Suc k) lo d) (chi_of (Suc k) hi d) = (child', removed)"
      by fastforce
    note sc = scan_child [OF ok c k(2) le hi Cons.prems(4) [of d, THEN conjunct1] Cons.prems(4) [of d, THEN conjunct2] Some res]
    have rem: "removed = with_prefix prefix (filter ?H ?E)" by (rule sc(2)) simp_all
    have step: "remove_range_scan rr (Suc k) prefix lo hi (d # ds) b acc =
        (if int (length removed) = 0 then remove_range_scan rr (Suc k) prefix lo hi ds b acc
         else if child' = Null
         then (case branch_remove_digit (branch_add_keys b (- int (length removed))) d of
                 None \<Rightarrow> (None, acc @ removed)
               | Some b' \<Rightarrow> remove_range_scan rr (Suc k) prefix lo hi ds b' (acc @ removed))
         else remove_range_scan rr (Suc k) prefix lo hi ds (branch_commit b d child' (- int (length removed))) (acc @ removed))"
      using Some res by (simp add: Let_def clo_of_def chi_of_def)
    show ?thesis
    proof (cases "removed = []")
      case True
      then have "filter ?H ?E = []" using rem by (simp add: with_prefix_def)
      then show ?thesis unfolding step using True IH id by (simp del: entries.simps)
    next
      case False
      show ?thesis
      proof (cases "child' = Null")
        case True
        let ?r = "branch_remove_digit (branch_add_keys b (- int (length removed))) d"
        have r: "wf_edge (Suc k) (edge_of ?r) \<and> entries (Suc k) (edge_of ?r) = ?X"
          by (rule scan_drop [OF ok c k le hi _ _ Some res True]) (use Cons.prems(4) in auto)
        show ?thesis
        proof (cases ?r)
          case None
          then have "?X = []" using r by (simp add: edge_of_def del: entries.simps(6))
          then show ?thesis
            unfolding step acc_eq rest [symmetric] out [symmetric] using None False True rem
            by (simp add: edge_of_def with_prefix_def del: entries.simps(6))
        next
          case (Some b'')
          then show ?thesis unfolding step using IH [of b'' "acc @ removed"] False True rem r
            by (simp add: edge_of_def wf_edge_Branch del: entries.simps wf_edge.simps)
        qed
      next
        case nonnull: False
        have "wf_children k (branch_commit b d child' (- int (length removed))) \<and>
            entries (Suc k) (Branch (branch_commit b d child' (- int (length removed)))) = ?X \<and>
            branch_pairs (branch_commit b d child' (- int (length removed))) \<noteq> []"
          by (rule scan_put [OF ok c k(2) le hi _ _ Some res nonnull]) (use Cons.prems(4) in auto)
        then show ?thesis unfolding step using IH [of "branch_commit b d child' (- int (length removed))" "acc @ removed"] False nonnull rem
          by (simp del: entries.simps wf_edge.simps)
      qed
    qed
  qed
qed

theorem map_remove_range_ok:
  "wf_edge kb e \<Longrightarrow> kb \<le> 4 \<Longrightarrow> e = Null \<or> 1 \<le> kb \<Longrightarrow> lo \<le> hi \<Longrightarrow> hi \<le> rem_mask kb \<Longrightarrow>
   rr_post kb e prefix lo hi (map_remove_range kb e prefix lo hi)"
proof (induction kb arbitrary: e prefix lo hi)
  case (Suc k)
  show ?case
  proof (cases e)
    case (MapLeaf xs)
    then show ?thesis using remove_range_leaf Suc.prems by simp
  next
    case (MapBitmap pop0 b)
    then show ?thesis using remove_range_bitmap Suc.prems by simp
  next
    case (Branch b)
    then have k: "1 \<le> k" "k < 4" and c: "wf_children k b" "branch_pairs b \<noteq> []"
      using Suc.prems by (auto simp: wf_edge_Branch simp del: wf_edge.simps)
    have ok: "rr_ok k (map_remove_range k)" using Suc.IH k by (simp add: rr_ok_def)
    let ?lo = "digit_at lo (Suc k)" and ?hi = "digit_at hi (Suc k)" and ?E = "entries (Suc k) (Branch b)"
    define ds where "ds = (map of_nat [unat ?lo..<Suc (unat ?hi)] :: u8 list)"
    have lt: "n < 256" if "n \<le> unat ?hi" for n using that unat_less_256 [of ?hi] by linarith
    have mem: "d \<in> set ds \<longleftrightarrow> ?lo \<le> d \<and> d \<le> ?hi" for d
      by (auto simp: ds_def word_le_nat_alt lt image_iff simp del: upt_Suc intro!: bexI [of _ "unat d"])
    have "sorted_wrt (<) ds"
      unfolding ds_def by (auto simp: sorted_wrt_map lt of_nat_u8_less simp del: upt_Suc intro!: sorted_wrt_mono_rel [OF _ sorted_wrt_upt])
    note s = remove_range_scan_ok [OF ok k Suc.prems(4,5) c this, where prefix = prefix and acc = "[]"]
    have "digit_at (fst p) (Suc k) \<in> set ds" if "p \<in> set ?E" "within lo hi p" for p
      using that branch_entries_wf(2) [OF c(1) k(2)] digit_mono [OF k(2)] Suc.prems(5) unfolding mem within_def keys_le_def by blast
    then have "filter (\<lambda>p. \<not> (within lo hi p \<and> digit_at (fst p) (Suc k) \<in> set ds)) ?E = al_outside lo hi ?E"
      "filter (\<lambda>p. within lo hi p \<and> digit_at (fst p) (Suc k) \<in> set ds) ?E = al_range lo hi ?E"
      unfolding al_outside_def al_range_def within_def by (intro filter_cong refl; blast)+
    then show ?thesis
      using s mem unfolding Branch map_remove_range.simps edge.case rr_post_def ds_def [symmetric] with_prefix_def
      by (simp add: split_beta del: entries.simps wf_edge.simps)
  qed (use Suc.prems in \<open>auto simp: rr_post_def al_range_def al_outside_def\<close>)
qed (simp add: rr_post_def al_range_def al_outside_def)

section \<open>Properties\<close>

text \<open>C4. A batched removal takes out the entries of the range and no others, hands them over in
  ascending order with the prefix of the subtree put back on their keys, and keeps the invariant.\<close>

theorem map_remove_range_correct:
  assumes "1 \<le> kb" and "kb \<le> 4" and "wf_edge kb e" and "lo \<le> hi" and "hi \<le> rem_mask kb"
  shows "wf_edge kb (fst (map_remove_range kb e prefix lo hi)) \<and>
    entries kb (fst (map_remove_range kb e prefix lo hi)) = al_outside lo hi (entries kb e) \<and>
    snd (map_remove_range kb e prefix lo hi) = map (\<lambda>p. (prefix OR fst p, snd p)) (al_range lo hi (entries kb e))"
  using map_remove_range_ok [OF assms(3), of lo hi prefix] assms by (simp add: rr_post_def)

theorem map_remove_range_correct_witness:
  "let e = MapLeaf [(1, 10), (5, 50), (9, 90)]
   in wf_edge 3 (fst (map_remove_range 3 e 0x7000000 2 9)) \<and>
      entries 3 (fst (map_remove_range 3 e 0x7000000 2 9)) = al_outside 2 9 (entries 3 e) \<and>
      snd (map_remove_range 3 e 0x7000000 2 9) = map (\<lambda>p. (0x7000000 OR fst p, snd p)) (al_range 2 9 (entries 3 e))"
  unfolding Let_def by (rule map_remove_range_correct) (simp_all add: map_consts keys_le_def rem_mask_def push_bit_eq_mult)

end
