(* ===== verification/Ordered_Map.thy ===== *)
theory Ordered_Map
  imports Trie32_Remove_Range
begin

text \<open>
  The contract of the C map interface (\<^verbatim>\<open>include/expanse.h\<close>) that the clients rely on: an ordered map
  with lookup, insertion and removal that report the previous value, the smallest entry, successor
  queries, a streaming walk over a range and a batched removal of a range. The results of the C
  functions are values: a boolean beside an out-parameter is an option.
\<close>

locale ordered_map =
  fixes inv :: "'m \<Rightarrow> bool"
    and ents :: "'m \<Rightarrow> (u32 \<times> u32) list"
    and new :: 'm
    and clear :: "'m \<Rightarrow> 'm"
    and len :: "'m \<Rightarrow> nat"
    and get :: "'m \<Rightarrow> u32 \<Rightarrow> u32 option"
    and insert :: "'m \<Rightarrow> u32 \<Rightarrow> u32 \<Rightarrow> 'm \<times> bool \<times> u32 option"
    and remove :: "'m \<Rightarrow> u32 \<Rightarrow> 'm \<times> u32 option"
    and first :: "'m \<Rightarrow> (u32 \<times> u32) option"
    and next_at_or_after :: "'m \<Rightarrow> u32 \<Rightarrow> (u32 \<times> u32) option"
    and next_after :: "'m \<Rightarrow> u32 \<Rightarrow> (u32 \<times> u32) option"
    and for_each_range :: "'m \<Rightarrow> u32 \<Rightarrow> u32 \<Rightarrow> (u32 \<Rightarrow> u32 \<Rightarrow> 's \<Rightarrow> bool \<times> 's) \<Rightarrow> 's \<Rightarrow> bool \<times> 's"
    and remove_range :: "'m \<Rightarrow> u32 \<Rightarrow> u32 \<Rightarrow> (u32 \<Rightarrow> u32 \<Rightarrow> 't \<Rightarrow> 't) option \<Rightarrow> 't \<Rightarrow> 'm \<times> 't \<times> nat"
  assumes asc_ents: "inv m \<Longrightarrow> asc (ents m)"
    and new_ok: "inv new \<and> ents new = []"
    and clear_ok: "inv m \<Longrightarrow> inv (clear m) \<and> ents (clear m) = []"
    and len_ok: "inv m \<Longrightarrow> len m = length (ents m)"
    and get_ok: "inv m \<Longrightarrow> get m k = map_of (ents m) k"
    and insert_ok: "inv m \<Longrightarrow> inv (fst (insert m k v)) \<and> ents (fst (insert m k v)) = al_ins k v (ents m) \<and>
          snd (insert m k v) = (map_of (ents m) k = None, map_of (ents m) k)"
    and remove_ok: "inv m \<Longrightarrow> inv (fst (remove m k)) \<and> ents (fst (remove m k)) = al_del k (ents m) \<and>
          snd (remove m k) = map_of (ents m) k"
    and first_ok: "inv m \<Longrightarrow> first m = al_first (ents m)"
    and next_ge_ok: "inv m \<Longrightarrow> next_at_or_after m k = al_first (filter (\<lambda>p. k \<le> fst p) (ents m))"
    and next_gt_ok: "inv m \<Longrightarrow> next_after m k = al_first (filter (\<lambda>p. k < fst p) (ents m))"
    and for_each_ok: "inv m \<Longrightarrow> for_each_range m lo hi f s = walk f (al_range lo hi (ents m)) s"
    and remove_range_ok: "inv m \<Longrightarrow> inv (fst (remove_range m lo hi cb t)) \<and>
          ents (fst (remove_range m lo hi cb t)) = al_outside lo hi (ents m) \<and>
          snd (remove_range m lo hi cb t) =
            (case cb of None \<Rightarrow> t | Some f \<Rightarrow> fold (\<lambda>p. f (fst p) (snd p)) (al_range lo hi (ents m)) t,
             length (al_range lo hi (ents m)))"
begin

lemma get_insert: "inv m \<Longrightarrow> get (fst (insert m k v)) j = (if j = k then Some v else get m j)"
  using insert_ok [of m k v] by (simp add: get_ok map_of_al_ins)

lemma get_remove: "inv m \<Longrightarrow> get (fst (remove m k)) j = (if j = k then None else get m j)"
  using remove_ok [of m k] by (simp add: get_ok map_of_al_del)

lemma get_remove_range:
  "inv m \<Longrightarrow> get (fst (remove_range m lo hi cb t)) j = (if lo \<le> j \<and> j \<le> hi then None else get m j)"
  using remove_range_ok [of m lo hi cb t] by (simp add: get_ok map_of_al_outside)

lemma insert_remove_ents: "inv m \<Longrightarrow> get m k = None \<Longrightarrow> ents (fst (remove (fst (insert m k v)) k)) = ents m"
  using insert_ok [of m k v] remove_ok [of "fst (insert m k v)" k]
  by (intro asc_unique) (auto simp: asc_ents asc_al_ins asc_al_del map_of_al_del map_of_al_ins get_ok fun_eq_iff)

lemma len_insert: "inv m \<Longrightarrow> len (fst (insert m k v)) = len m + (if get m k = None then 1 else 0)"
  using insert_ok [of m k v] by (simp add: len_ok get_ok length_al_ins asc_ents)

lemma len_remove: "inv m \<Longrightarrow> len (fst (remove m k)) = len m - (if get m k = None then 0 else 1)"
  using remove_ok [of m k] by (simp add: len_ok get_ok length_al_del asc_ents)

lemma remove_range_len:
  "inv m \<Longrightarrow> snd (snd (remove_range m lo hi cb t)) + len (fst (remove_range m lo hi cb t)) = len m"
  using remove_range_ok [of m lo hi cb t] al_range_outside_length [of lo hi "ents m"] by (simp add: len_ok)

end

end
