(* ===== verification/Expanse_Map.thy ===== *)
theory Expanse_Map
  imports Ordered_Map
begin

text \<open>
  The map container \<^verbatim>\<open>ExpanseMap32\<close> (\<^verbatim>\<open>crates/expanse/src/map32.rs\<close>) over the trie engine, and the C
  functions \<^verbatim>\<open>expanse_map_*\<close> (\<^verbatim>\<open>crates/expanse-capi/src/modern.rs\<close>, declared in \<^verbatim>\<open>include/expanse.h\<close>).
  A C handle is an optional container, \<^term>\<open>None\<close> for the null pointer; an out-parameter is a component
  of the result, \<^term>\<open>None\<close> when the function writes nothing through it. The length is an unbounded
  number: a map of \<open>2\<^sup>3\<^sup>2\<close> entries does not fit a 32-bit address space. Handles that were freed are not
  used again by any client, so a freed handle is the null handle.
\<close>

section \<open>The container\<close>

record expanse_map32 =
  root :: edge
  map_len :: nat

definition map32_new :: expanse_map32 where
  "map32_new = \<lparr>root = Null, map_len = 0\<rparr>"

definition map32_insert :: "expanse_map32 \<Rightarrow> u32 \<Rightarrow> u32 \<Rightarrow> expanse_map32 \<times> u32 option" where
  "map32_insert m key val =
    (let (r, old) = map_insert 4 (root m) key val
     in (m\<lparr>root := r, map_len := (if old = None then map_len m + 1 else map_len m)\<rparr>, old))"

definition map32_get :: "expanse_map32 \<Rightarrow> u32 \<Rightarrow> u32 option" where
  "map32_get m key = map_get 4 (root m) key"

definition map32_remove :: "expanse_map32 \<Rightarrow> u32 \<Rightarrow> expanse_map32 \<times> u32 option" where
  "map32_remove m key =
    (let (r, old) = map_remove 4 (root m) key
     in (m\<lparr>root := r, map_len := (if old \<noteq> None then map_len m - 1 else map_len m)\<rparr>, old))"

definition map32_remove_range :: "expanse_map32 \<Rightarrow> u32 \<Rightarrow> u32 \<Rightarrow> expanse_map32 \<times> (u32 \<times> u32) list" where
  "map32_remove_range m lo hi =
    (if hi < lo then (m, [])
     else let (r, removed) = map_remove_range 4 (root m) 0 lo hi
          in (m\<lparr>root := r, map_len := map_len m - length removed\<rparr>, removed))"

definition map32_clear :: "expanse_map32 \<Rightarrow> expanse_map32" where
  "map32_clear m = m\<lparr>root := Null, map_len := 0\<rparr>"

definition map32_first :: "expanse_map32 \<Rightarrow> (u32 \<times> u32) option" where
  "map32_first m = first_entry 4 (root m)"

definition map32_next :: "expanse_map32 \<Rightarrow> u32 \<Rightarrow> (u32 \<times> u32) option" where
  "map32_next m key = next_entry 4 (root m) key"

definition map32_first_ge :: "expanse_map32 \<Rightarrow> u32 \<Rightarrow> (u32 \<times> u32) option" where
  "map32_first_ge m bound = (if bound = 0 then map32_first m else map32_next m (bound - 1))"

definition map32_try_for_each_range ::
  "expanse_map32 \<Rightarrow> u32 \<Rightarrow> u32 \<Rightarrow> (u32 \<Rightarrow> u32 \<Rightarrow> 's \<Rightarrow> bool \<times> 's) \<Rightarrow> 's \<Rightarrow> bool \<times> 's"
where
  "map32_try_for_each_range m start end f s =
    (if end < start then (True, s) else map_for_each_range 4 (root m) start end f s)"

section \<open>The C functions\<close>

type_synonym expanse_map_t = "expanse_map32 option"

definition expanse_map_new :: expanse_map_t where
  "expanse_map_new = Some map32_new"

definition expanse_map_free :: "expanse_map_t \<Rightarrow> expanse_map_t" where
  "expanse_map_free h = None"

definition expanse_map_len :: "expanse_map_t \<Rightarrow> nat" where
  "expanse_map_len h = (case h of None \<Rightarrow> 0 | Some m \<Rightarrow> map_len m)"

definition expanse_map_clear :: "expanse_map_t \<Rightarrow> expanse_map_t" where
  "expanse_map_clear h = map_option map32_clear h"

definition expanse_map_insert :: "expanse_map_t \<Rightarrow> u32 \<Rightarrow> u32 \<Rightarrow> expanse_map_t \<times> bool \<times> u32 option" where
  "expanse_map_insert h key val =
    (case h of
       None \<Rightarrow> (None, False, None)
     | Some m \<Rightarrow> (case map32_insert m key val of
                    (m', Some old) \<Rightarrow> (Some m', False, Some old)
                  | (m', None) \<Rightarrow> (Some m', True, None)))"

definition expanse_map_get :: "expanse_map_t \<Rightarrow> u32 \<Rightarrow> u32 option" where
  "expanse_map_get h key = (case h of None \<Rightarrow> None | Some m \<Rightarrow> map32_get m key)"

definition expanse_map_remove :: "expanse_map_t \<Rightarrow> u32 \<Rightarrow> expanse_map_t \<times> u32 option" where
  "expanse_map_remove h key =
    (case h of None \<Rightarrow> (None, None) | Some m \<Rightarrow> (let (m', old) = map32_remove m key in (Some m', old)))"

definition expanse_map_first :: "expanse_map_t \<Rightarrow> (u32 \<times> u32) option" where
  "expanse_map_first h = (case h of None \<Rightarrow> None | Some m \<Rightarrow> map32_first m)"

definition expanse_map_next_at_or_after :: "expanse_map_t \<Rightarrow> u32 \<Rightarrow> (u32 \<times> u32) option" where
  "expanse_map_next_at_or_after h key = (case h of None \<Rightarrow> None | Some m \<Rightarrow> map32_first_ge m key)"

definition expanse_map_next_after :: "expanse_map_t \<Rightarrow> u32 \<Rightarrow> (u32 \<times> u32) option" where
  "expanse_map_next_after h key = (case h of None \<Rightarrow> None | Some m \<Rightarrow> map32_next m key)"

definition expanse_map_remove_range ::
  "expanse_map_t \<Rightarrow> u32 \<Rightarrow> u32 \<Rightarrow> (u32 \<Rightarrow> u32 \<Rightarrow> 't \<Rightarrow> 't) option \<Rightarrow> 't \<Rightarrow> expanse_map_t \<times> 't \<times> nat"
where
  "expanse_map_remove_range h lo hi callback ctx =
    (if hi < lo then (h, ctx, 0)
     else case h of
       None \<Rightarrow> (None, ctx, 0)
     | Some m \<Rightarrow>
         (let (m', removed) = map32_remove_range m lo hi
          in (Some m',
              fold (\<lambda>p ctx. case callback of None \<Rightarrow> ctx | Some cb \<Rightarrow> cb (fst p) (snd p) ctx) removed ctx,
              length removed)))"

definition expanse_map_for_each_range ::
  "expanse_map_t \<Rightarrow> u32 \<Rightarrow> u32 \<Rightarrow> (u32 \<Rightarrow> u32 \<Rightarrow> 's \<Rightarrow> bool \<times> 's) option \<Rightarrow> 's \<Rightarrow> bool \<times> 's"
where
  "expanse_map_for_each_range h lo hi callback ctx =
    (case h of
       None \<Rightarrow> (True, ctx)
     | Some m \<Rightarrow> (case callback of None \<Rightarrow> (True, ctx) | Some cb \<Rightarrow> map32_try_for_each_range m lo hi cb ctx))"

section \<open>The contract holds\<close>

definition map_ents :: "expanse_map_t \<Rightarrow> (u32 \<times> u32) list" where
  "map_ents h = (case h of None \<Rightarrow> [] | Some m \<Rightarrow> entries 4 (root m))"

definition map_ok :: "expanse_map_t \<Rightarrow> bool" where
  "map_ok h \<longleftrightarrow> (\<exists>m. h = Some m \<and> wf_edge 4 (root m) \<and> map_len m = length (entries 4 (root m)))"

lemma map_okE: assumes "map_ok h"
  obtains m where "h = Some m" "wf_edge 4 (root m)" "map_len m = length (entries 4 (root m))"
  using assms by (auto simp: map_ok_def)

lemma map32_insert_ok:
  assumes "wf_edge 4 (root m)" and "map_len m = length (entries 4 (root m))"
  shows "wf_edge 4 (root (fst (map32_insert m k v)))"
    and "entries 4 (root (fst (map32_insert m k v))) = al_ins k v (entries 4 (root m))"
    and "map_len (fst (map32_insert m k v)) = length (al_ins k v (entries 4 (root m)))"
    and "snd (map32_insert m k v) = map_of (entries 4 (root m)) k"
proof -
  have "ins_post 4 (root m) k v (map_insert 4 (root m) k v)"
    using map_insert_ok [of 4] assms(1) by (simp add: ins_ok_def)
  then show "wf_edge 4 (root (fst (map32_insert m k v)))"
    and "entries 4 (root (fst (map32_insert m k v))) = al_ins k v (entries 4 (root m))"
    and "map_len (fst (map32_insert m k v)) = length (al_ins k v (entries 4 (root m)))"
    and "snd (map32_insert m k v) = map_of (entries 4 (root m)) k"
    using assms length_al_ins [OF entries_asc, of 4 "root m"]
    by (simp_all add: map32_insert_def ins_post_def split_beta)
qed

lemma map32_remove_ok:
  assumes "wf_edge 4 (root m)" and "map_len m = length (entries 4 (root m))"
  shows "wf_edge 4 (root (fst (map32_remove m k)))"
    and "entries 4 (root (fst (map32_remove m k))) = al_del k (entries 4 (root m))"
    and "map_len (fst (map32_remove m k)) = length (al_del k (entries 4 (root m)))"
    and "snd (map32_remove m k) = map_of (entries 4 (root m)) k"
proof -
  have "rem_post 4 (root m) k (map_remove 4 (root m) k)" using map_remove_ok [OF assms(1)] by simp
  then show "wf_edge 4 (root (fst (map32_remove m k)))"
    and "entries 4 (root (fst (map32_remove m k))) = al_del k (entries 4 (root m))"
    and "map_len (fst (map32_remove m k)) = length (al_del k (entries 4 (root m)))"
    and "snd (map32_remove m k) = map_of (entries 4 (root m)) k"
    using assms length_al_del [OF entries_asc, of 4 "root m"]
    by (auto simp: map32_remove_def rem_post_def split_beta)
qed

lemma map32_remove_range_ok:
  assumes "wf_edge 4 (root m)" and "map_len m = length (entries 4 (root m))"
  shows "wf_edge 4 (root (fst (map32_remove_range m lo hi)))"
    and "entries 4 (root (fst (map32_remove_range m lo hi))) = al_outside lo hi (entries 4 (root m))"
    and "map_len (fst (map32_remove_range m lo hi)) = length (al_outside lo hi (entries 4 (root m)))"
    and "snd (map32_remove_range m lo hi) = al_range lo hi (entries 4 (root m))"
proof -
  have empty: "al_range lo hi xs = []" "al_outside lo hi xs = xs" if "hi < lo" for xs :: "(u32 \<times> u32) list"
    using that by (auto simp: al_range_def al_outside_def filter_empty_conv filter_id_conv)
  have "rr_post 4 (root m) 0 lo hi (map_remove_range 4 (root m) 0 lo hi)" if "lo \<le> hi"
    using map_remove_range_ok [OF assms(1)] that by simp
  then show "wf_edge 4 (root (fst (map32_remove_range m lo hi)))"
    and "entries 4 (root (fst (map32_remove_range m lo hi))) = al_outside lo hi (entries 4 (root m))"
    and "map_len (fst (map32_remove_range m lo hi)) = length (al_outside lo hi (entries 4 (root m)))"
    and "snd (map32_remove_range m lo hi) = al_range lo hi (entries 4 (root m))"
    using assms empty al_range_outside_length [of lo hi "entries 4 (root m)"]
    by (auto simp: map32_remove_range_def rr_post_def split_beta not_less)
qed

lemma map32_first_ge_ok:
  assumes "wf_edge 4 (root m)"
  shows "map32_first_ge m k = al_first (filter (\<lambda>p. k \<le> fst p) (entries 4 (root m)))"
proof (cases "k = 0")
  case True
  then show ?thesis using first_entry_ok [OF assms] by (simp add: map32_first_ge_def map32_first_def)
next
  case False
  then have "k - 1 < k" by (simp add: measure_unat word_less_nat_alt)
  then have "k - 1 < x \<longleftrightarrow> k \<le> x" for x using plus_one_le [of "k - 1" k x] by simp
  then show ?thesis
    using False next_entry_ok [OF assms] by (simp add: map32_first_ge_def map32_next_def above_def)
qed

lemma fold_none: "fold (\<lambda>p ctx. ctx) xs t = t"
  by (induction xs) auto

interpretation emap: ordered_map map_ok map_ents expanse_map_new expanse_map_clear expanse_map_len
  expanse_map_get expanse_map_insert expanse_map_remove expanse_map_first expanse_map_next_at_or_after
  expanse_map_next_after "\<lambda>h lo hi f. expanse_map_for_each_range h lo hi (Some f)" expanse_map_remove_range
proof
  fix m k v lo hi f s t cb
  show "map_ok expanse_map_new \<and> map_ents expanse_map_new = []"
    by (simp add: map_ok_def map_ents_def expanse_map_new_def map32_new_def)
  assume ok: "map_ok m"
  then obtain c where c: "m = Some c" "wf_edge 4 (root c)" "map_len c = length (entries 4 (root c))" by (rule map_okE)
  show "asc (map_ents m)" using c entries_asc by (simp add: map_ents_def)
  show "map_ok (expanse_map_clear m) \<and> map_ents (expanse_map_clear m) = []"
    by (simp add: c map_ok_def map_ents_def expanse_map_clear_def map32_clear_def)
  show "expanse_map_len m = length (map_ents m)" using c by (simp add: expanse_map_len_def map_ents_def)
  show "expanse_map_get m k = map_of (map_ents m) k"
    using c map_get_entries by (simp add: expanse_map_get_def map32_get_def map_ents_def)
  show "map_ok (fst (expanse_map_insert m k v)) \<and> map_ents (fst (expanse_map_insert m k v)) = al_ins k v (map_ents m) \<and>
      snd (expanse_map_insert m k v) = (map_of (map_ents m) k = None, map_of (map_ents m) k)"
    using map32_insert_ok [OF c(2,3), of k v]
    by (cases "map32_insert c k v"; cases "map_of (entries 4 (root c)) k")
      (auto simp: c(1) expanse_map_insert_def map_ok_def map_ents_def)
  show "map_ok (fst (expanse_map_remove m k)) \<and> map_ents (fst (expanse_map_remove m k)) = al_del k (map_ents m) \<and>
      snd (expanse_map_remove m k) = map_of (map_ents m) k"
    using map32_remove_ok [OF c(2,3), of k] by (auto simp: c(1) expanse_map_remove_def map_ok_def map_ents_def split_beta)
  show "expanse_map_first m = al_first (map_ents m)"
    using c first_entry_ok by (simp add: expanse_map_first_def map32_first_def map_ents_def)
  show "expanse_map_next_at_or_after m k = al_first (filter (\<lambda>p. k \<le> fst p) (map_ents m))"
    using c map32_first_ge_ok by (simp add: expanse_map_next_at_or_after_def map_ents_def)
  show "expanse_map_next_after m k = al_first (filter (\<lambda>p. k < fst p) (map_ents m))"
    using c next_entry_ok [OF c(2)] by (simp add: expanse_map_next_after_def map32_next_def map_ents_def above_def)
  show "expanse_map_for_each_range m lo hi (Some f) s = walk f (al_range lo hi (map_ents m)) s"
  proof (cases "hi < lo")
    case True
    then have "al_range lo hi (entries 4 (root c)) = []" by (auto simp: al_range_def filter_empty_conv)
    then show ?thesis using True by (simp add: c expanse_map_for_each_range_def map32_try_for_each_range_def map_ents_def)
  next
    case False
    then show ?thesis
      using map_for_each_range_ok [OF c(2)] by (simp add: c(1) expanse_map_for_each_range_def map32_try_for_each_range_def map_ents_def)
  qed
  have empty: "al_range lo hi xs = []" "al_outside lo hi xs = xs" if "hi < lo" for xs :: "(u32 \<times> u32) list"
    using that by (auto simp: al_range_def al_outside_def filter_empty_conv filter_id_conv)
  show "map_ok (fst (expanse_map_remove_range m lo hi cb t)) \<and>
      map_ents (fst (expanse_map_remove_range m lo hi cb t)) = al_outside lo hi (map_ents m) \<and>
      snd (expanse_map_remove_range m lo hi cb t) =
        (case cb of None \<Rightarrow> t | Some f \<Rightarrow> fold (\<lambda>p. f (fst p) (snd p)) (al_range lo hi (map_ents m)) t,
         length (al_range lo hi (map_ents m)))"
    using map32_remove_range_ok [OF c(2,3), of lo hi] empty ok
    by (auto simp: c(1) expanse_map_remove_range_def map_ok_def map_ents_def split_beta fold_none split: option.splits)
qed

section \<open>The contents as a partial function\<close>

definition map_abs :: "expanse_map_t \<Rightarrow> u32 \<rightharpoonup> u32" where
  "map_abs h = map_of (map_ents h)"

lemma map_abs_new [simp]: "map_ok expanse_map_new" "map_abs expanse_map_new = Map.empty"
  using emap.new_ok by (simp_all add: map_abs_def)

lemma map_abs_ops:
  assumes "map_ok h"
  shows "map_ok (fst (expanse_map_insert h k v))" and "map_abs (fst (expanse_map_insert h k v)) = (map_abs h)(k \<mapsto> v)"
    and "map_ok (fst (expanse_map_remove h k))" and "map_abs (fst (expanse_map_remove h k)) = (map_abs h)(k := None)"
    and "map_ok (expanse_map_clear h)" and "map_abs (expanse_map_clear h) = Map.empty"
    and "expanse_map_get h k = map_abs h k"
  using emap.insert_ok [OF assms, of k v] emap.remove_ok [OF assms, of k] emap.clear_ok [OF assms] emap.get_ok [OF assms, of k]
  by (simp_all add: map_abs_def map_of_al_ins map_of_al_del)

end
