(* ===== verification/Map_Trace.thy ===== *)
theory Map_Trace
  imports Expanse_Map
begin

text \<open>
  The abstract specification of the C map interface, a finite partial function on 32-bit words, and
  the refinement of every sequence of calls. A call is a value of \<^verbatim>\<open>map_call\<close>; \<^verbatim>\<open>map_exec\<close> makes it on
  the container, \<^verbatim>\<open>spec_exec\<close> on the partial function.
\<close>

section \<open>Calls and their answers\<close>

datatype map_call =
    CInsert u32 u32
  | CGet u32
  | CRemove u32
  | CLen
  | CClear
  | CFirst
  | CNextAtOrAfter u32
  | CNextAfter u32
  | CForEachRange u32 u32
  | CRemoveRange u32 u32

datatype map_answer =
    Stored bool "u32 option"
  | Found "u32 option"
  | Entry "(u32 \<times> u32) option"
  | Number nat
  | Entries "(u32 \<times> u32) list"
  | Evicted nat "(u32 \<times> u32) list"
  | Done

text \<open>The callbacks collect what they are called with.\<close>

definition collect :: "u32 \<Rightarrow> u32 \<Rightarrow> (u32 \<times> u32) list \<Rightarrow> (u32 \<times> u32) list" where
  "collect k v acc = acc @ [(k, v)]"

fun map_exec :: "map_call \<Rightarrow> expanse_map_t \<Rightarrow> expanse_map_t \<times> map_answer" where
  "map_exec (CInsert k v) h = (let (h', is_new, old) = expanse_map_insert h k v in (h', Stored is_new old))"
| "map_exec (CGet k) h = (h, Found (expanse_map_get h k))"
| "map_exec (CRemove k) h = (let (h', old) = expanse_map_remove h k in (h', Found old))"
| "map_exec CLen h = (h, Number (expanse_map_len h))"
| "map_exec CClear h = (expanse_map_clear h, Done)"
| "map_exec CFirst h = (h, Entry (expanse_map_first h))"
| "map_exec (CNextAtOrAfter k) h = (h, Entry (expanse_map_next_at_or_after h k))"
| "map_exec (CNextAfter k) h = (h, Entry (expanse_map_next_after h k))"
| "map_exec (CForEachRange lo hi) h =
    (h, Entries (snd (expanse_map_for_each_range h lo hi (Some (\<lambda>k v acc. (True, collect k v acc))) [])))"
| "map_exec (CRemoveRange lo hi) h =
    (let (h', acc, n) = expanse_map_remove_range h lo hi (Some collect) [] in (h', Evicted n acc))"

section \<open>The specification\<close>

type_synonym smap = "u32 \<rightharpoonup> u32"

definition spec_least :: "smap \<Rightarrow> u32 set \<Rightarrow> (u32 \<times> u32) option" where
  "spec_least m S = (if dom m \<inter> S = {} then None else Some (Min (dom m \<inter> S), the (m (Min (dom m \<inter> S)))))"

definition spec_list :: "smap \<Rightarrow> u32 set \<Rightarrow> (u32 \<times> u32) list" where
  "spec_list m S = map (\<lambda>k. (k, the (m k))) (sorted_list_of_set (dom m \<inter> S))"

fun spec_exec :: "map_call \<Rightarrow> smap \<Rightarrow> smap \<times> map_answer" where
  "spec_exec (CInsert k v) m = (m(k \<mapsto> v), Stored (m k = None) (m k))"
| "spec_exec (CGet k) m = (m, Found (m k))"
| "spec_exec (CRemove k) m = (m(k := None), Found (m k))"
| "spec_exec CLen m = (m, Number (card (dom m)))"
| "spec_exec CClear m = (Map.empty, Done)"
| "spec_exec CFirst m = (m, Entry (spec_least m UNIV))"
| "spec_exec (CNextAtOrAfter k) m = (m, Entry (spec_least m {k..}))"
| "spec_exec (CNextAfter k) m = (m, Entry (spec_least m {k<..}))"
| "spec_exec (CForEachRange lo hi) m = (m, Entries (spec_list m {lo..hi}))"
| "spec_exec (CRemoveRange lo hi) m =
    (m |` (- {lo..hi}), Evicted (card (dom m \<inter> {lo..hi})) (spec_list m {lo..hi}))"

fun run :: "('c \<Rightarrow> 's \<Rightarrow> 's \<times> 'a) \<Rightarrow> 'c list \<Rightarrow> 's \<Rightarrow> 's \<times> 'a list" where
  "run ex [] s = (s, [])"
| "run ex (c # cs) s = (let (s', a) = ex c s; (s'', as) = run ex cs s' in (s'', a # as))"

section \<open>Ascending lists and partial functions\<close>

lemma asc_keys: "asc xs \<Longrightarrow> map fst xs = sorted_list_of_set (dom (map_of xs))"
proof -
  assume a: "asc xs"
  then have "sorted_wrt (<) (map fst xs)" by (simp add: sorted_wrt_map)
  then have "sorted (map fst xs)" "distinct (map fst xs)"
    using asc_distinct [OF a] by (auto simp: strict_sorted_iff)
  then have "sorted_list_of_set (set (map fst xs)) = map fst xs" by (rule sorted_list_of_set.idem_if_sorted_distinct)
  then show ?thesis by (simp add: dom_map_of_conv_image_fst)
qed

lemma asc_list: "asc xs \<Longrightarrow> xs = map (\<lambda>k. (k, the (map_of xs k))) (sorted_list_of_set (dom (map_of xs)))"
proof -
  assume a: "asc xs"
  have "(fst p, the (map_of xs (fst p))) = p" if "p \<in> set xs" for p
    using map_of_is_SomeI [OF asc_distinct [OF a], of "fst p" "snd p"] that by simp
  then have "map (\<lambda>k. (k, the (map_of xs k))) (map fst xs) = xs" by (simp add: map_idI)
  then show ?thesis by (simp add: asc_keys [OF a])
qed

lemma filter_spec_list:
  assumes "asc xs"
  shows "filter (\<lambda>p. fst p \<in> S) xs = spec_list (map_of xs) S"
proof -
  let ?ys = "filter (\<lambda>p. fst p \<in> S) xs"
  have m: "map_of ?ys k = (if k \<in> S then map_of xs k else None)" for k
    by (induction xs) auto
  then have "dom (map_of ?ys) = dom (map_of xs) \<inter> S" by (auto simp: dom_def)
  moreover have "the (map_of ?ys k) = the (map_of xs k)" if "k \<in> dom (map_of xs) \<inter> S" for k
    using that by (simp add: m)
  moreover have "finite (dom (map_of xs) \<inter> S)" by (simp add: finite_dom_map_of)
  ultimately have "map (\<lambda>k. (k, the (map_of ?ys k))) (sorted_list_of_set (dom (map_of ?ys))) = spec_list (map_of xs) S"
    by (simp add: spec_list_def)
  then show ?thesis using asc_list [OF asc_filter [OF assms], of "\<lambda>p. fst p \<in> S"] by simp
qed

lemma al_first_spec_least:
  assumes "asc xs"
  shows "al_first (filter (\<lambda>p. fst p \<in> S) xs) = spec_least (map_of xs) S"
proof -
  have fin: "finite (dom (map_of xs) \<inter> S)" by (simp add: finite_dom_map_of)
  show ?thesis
  proof (cases "dom (map_of xs) \<inter> S = {}")
    case True
    then show ?thesis by (simp add: filter_spec_list [OF assms] spec_list_def spec_least_def al_first_def)
  next
    case False
    then show ?thesis
      using sorted_list_of_set_nonempty [OF fin False]
      by (simp add: filter_spec_list [OF assms] spec_list_def spec_least_def al_first_def)
  qed
qed

lemma length_filter_card:
  assumes "asc (xs :: (u32 \<times> u32) list)"
  shows "length (filter (\<lambda>p. fst p \<in> S) xs) = card (dom (map_of xs) \<inter> S)"
  by (simp add: filter_spec_list [OF assms] spec_list_def)

lemma fold_collect: "fold (\<lambda>p. collect (fst p) (snd p)) xs acc = acc @ xs"
  by (induction xs arbitrary: acc) (simp_all add: collect_def)

lemma walk_collect: "walk (\<lambda>k v acc. (True, collect k v acc)) xs acc = (True, acc @ xs)"
  by (induction xs arbitrary: acc) (simp_all add: collect_def)

lemma al_range_filter: "al_range lo hi xs = filter (\<lambda>p. fst p \<in> {lo..hi}) xs"
  by (simp add: al_range_def)

section \<open>The refinement\<close>

lemma map_exec_refines:
  assumes "map_ok h"
  shows "map_ok (fst (map_exec c h))"
    and "spec_exec c (map_abs h) = (map_abs (fst (map_exec c h)), snd (map_exec c h))"
proof -
  note asc = emap.asc_ents [OF assms]
  note first = al_first_spec_least [OF asc] and range = filter_spec_list [OF asc]
  have out: "map_of (al_outside lo hi xs) = map_of xs |` (- {lo..hi})" for lo hi and xs :: "(u32 \<times> u32) list"
    by (auto simp: map_of_al_outside restrict_map_def fun_eq_iff)
  note ops = emap.insert_ok [OF assms] emap.remove_ok [OF assms] emap.clear_ok [OF assms] emap.remove_range_ok [OF assms]
  show "map_ok (fst (map_exec c h))"
    by (cases c) (simp_all add: assms ops split_beta Let_def)
  show "spec_exec c (map_abs h) = (map_abs (fst (map_exec c h)), snd (map_exec c h))"
  proof (cases c)
    case CFirst
    then show ?thesis using first [of UNIV] by (simp add: map_abs_def emap.first_ok [OF assms])
  next
    case (CNextAtOrAfter k)
    then show ?thesis using first [of "{k..}"] by (simp add: map_abs_def emap.next_ge_ok [OF assms])
  next
    case (CNextAfter k)
    then show ?thesis using first [of "{k<..}"] by (simp add: map_abs_def emap.next_gt_ok [OF assms])
  next
    case (CForEachRange lo hi)
    then show ?thesis
      using range [of "{lo..hi}"] by (simp add: map_abs_def emap.for_each_ok [OF assms] walk_collect al_range_filter)
  next
    case (CRemoveRange lo hi)
    then show ?thesis
      using range [of "{lo..hi}"] length_filter_card [OF asc, of "{lo..hi}"]
      by (simp add: ops map_abs_def split_beta Let_def out fold_collect al_range_filter)
  qed (simp_all add: ops map_abs_def split_beta Let_def map_of_al_ins map_of_al_del emap.get_ok [OF assms]
        emap.len_ok [OF assms] length_eq_card_dom [OF asc])
qed

lemma run_refines:
  "map_ok h \<Longrightarrow> map_ok (fst (run map_exec cs h)) \<and>
     run spec_exec cs (map_abs h) = (map_abs (fst (run map_exec cs h)), snd (run map_exec cs h))"
  by (induction cs arbitrary: h) (simp_all add: map_exec_refines Let_def split_beta)


end
