(* ===== verification/Memtable.thy ===== *)
theory Memtable
  imports Expanse_Map
begin

text \<open>
  The telemetry memtable of the ESP-IDF component (\<^verbatim>\<open>components/expanse/src/expanse_memtable.c\<close>): a map
  of 32-bit keys to 32-bit values behind a recursive lock, with range aggregation and range flushing.
  The lock is the number of times the calling thread holds it; the allocator's answer to the one
  \<^verbatim>\<open>calloc\<close> is an argument of the constructor. The functions are those of the 32-bit build
  (\<^verbatim>\<open>EXPANSE_WIDE_SURFACE\<close> 0). Counters of type \<^verbatim>\<open>size_t\<close> that count entries are numbers; sums keep
  their 64-bit width.
\<close>

section \<open>State\<close>

record memtable =
  mt_map :: expanse_map_t
  mt_lock :: nat

record memtable_agg =
  min_val :: u32
  max_val :: u32
  sum_val :: u64
  agg_count :: nat

definition LOCK_TAKE :: "memtable \<Rightarrow> memtable" where
  "LOCK_TAKE mt = mt\<lparr>mt_lock := mt_lock mt + 1\<rparr>"

definition LOCK_GIVE :: "memtable \<Rightarrow> memtable" where
  "LOCK_GIVE mt = mt\<lparr>mt_lock := mt_lock mt - 1\<rparr>"

definition expanse_memtable_create :: "bool \<Rightarrow> memtable option" where
  "expanse_memtable_create calloc_ok =
    (if \<not> calloc_ok then None
     else let m = expanse_map_new in if m = None then None else Some \<lparr>mt_map = m, mt_lock = 0\<rparr>)"

definition expanse_memtable_destroy :: "memtable option \<Rightarrow> memtable option" where
  "expanse_memtable_destroy h =
    (case h of
       None \<Rightarrow> None
     | Some mt \<Rightarrow>
         (let mt1 = LOCK_TAKE mt;
              mt2 = (if mt_map mt1 \<noteq> None then mt1\<lparr>mt_map := expanse_map_free (mt_map mt1)\<rparr> else mt1);
              mt3 = LOCK_GIVE mt2
          in None))"

section \<open>Point operations\<close>

text \<open>The result has the memtable, the returned boolean and what is stored through the out-parameter
  when the caller passes one.\<close>

definition expanse_memtable_insert ::
  "memtable option \<Rightarrow> u32 \<Rightarrow> u32 \<Rightarrow> memtable option \<times> bool \<times> u32 option"
where
  "expanse_memtable_insert h key val =
    (case h of
       None \<Rightarrow> (None, False, None)
     | Some mt \<Rightarrow>
         (let mt1 = LOCK_TAKE mt
          in if mt_map mt1 = None then (Some (LOCK_GIVE mt1), False, None)
             else let (m, is_new, old) = expanse_map_insert (mt_map mt1) key val;
                      mt2 = mt1\<lparr>mt_map := m\<rparr>
                  in (Some (LOCK_GIVE mt2), is_new, if \<not> is_new then old else None)))"

definition expanse_memtable_get :: "memtable option \<Rightarrow> u32 \<Rightarrow> memtable option \<times> u32 option" where
  "expanse_memtable_get h key =
    (case h of
       None \<Rightarrow> (None, None)
     | Some mt \<Rightarrow>
         (let mt1 = LOCK_TAKE mt
          in if mt_map mt1 = None then (Some (LOCK_GIVE mt1), None)
             else (Some (LOCK_GIVE mt1), expanse_map_get (mt_map mt1) key)))"

definition expanse_memtable_remove :: "memtable option \<Rightarrow> u32 \<Rightarrow> memtable option \<times> u32 option" where
  "expanse_memtable_remove h key =
    (case h of
       None \<Rightarrow> (None, None)
     | Some mt \<Rightarrow>
         (let mt1 = LOCK_TAKE mt
          in if mt_map mt1 = None then (Some (LOCK_GIVE mt1), None)
             else let (m, old) = expanse_map_remove (mt_map mt1) key
                  in (Some (LOCK_GIVE (mt1\<lparr>mt_map := m\<rparr>)), old)))"

definition expanse_memtable_len :: "memtable option \<Rightarrow> memtable option \<times> nat" where
  "expanse_memtable_len h =
    (case h of
       None \<Rightarrow> (None, 0)
     | Some mt \<Rightarrow>
         (let mt1 = LOCK_TAKE mt; len = (if mt_map mt1 \<noteq> None then expanse_map_len (mt_map mt1) else 0)
          in (Some (LOCK_GIVE mt1), len)))"

definition expanse_memtable_clear :: "memtable option \<Rightarrow> memtable option" where
  "expanse_memtable_clear h =
    (case h of
       None \<Rightarrow> None
     | Some mt \<Rightarrow>
         (let mt1 = LOCK_TAKE mt;
              mt2 = (if mt_map mt1 \<noteq> None then mt1\<lparr>mt_map := expanse_map_clear (mt_map mt1)\<rparr> else mt1)
          in Some (LOCK_GIVE mt2)))"

section \<open>Range aggregation\<close>

definition aggregate_fold :: "memtable_agg \<Rightarrow> u32 \<Rightarrow> memtable_agg" where
  "aggregate_fold agg v =
    (let agg1 = (if v < min_val agg then agg\<lparr>min_val := v\<rparr> else agg);
         agg2 = (if max_val agg1 < v then agg1\<lparr>max_val := v\<rparr> else agg1)
     in agg2\<lparr>sum_val := sum_val agg2 + ucast v, agg_count := agg_count agg2 + 1\<rparr>)"

definition aggregate_visit :: "u32 \<Rightarrow> u32 \<Rightarrow> memtable_agg \<Rightarrow> bool \<times> memtable_agg" where
  "aggregate_visit key val agg = (True, aggregate_fold agg val)"

text \<open>The result is the memtable, the returned boolean and the aggregate; \<^term>\<open>out = None\<close> is a null
  \<^verbatim>\<open>out_agg\<close>.\<close>

definition expanse_memtable_aggregate_range ::
  "memtable option \<Rightarrow> u32 \<Rightarrow> u32 \<Rightarrow> memtable_agg option \<Rightarrow> memtable option \<times> bool \<times> memtable_agg option"
where
  "expanse_memtable_aggregate_range h start_key end_key out =
    (case h of
       None \<Rightarrow> (None, False, out)
     | Some mt \<Rightarrow>
         (case out of
            None \<Rightarrow> (Some mt, False, None)
          | Some agg \<Rightarrow>
              (if end_key < start_key then (Some mt, False, Some agg)
               else let mt1 = LOCK_TAKE mt
                    in if mt_map mt1 = None then (Some (LOCK_GIVE mt1), False, Some agg)
                       else let agg0 = agg\<lparr>min_val := - 1, max_val := 0, sum_val := 0, agg_count := 0\<rparr>;
                                (_, agg') = expanse_map_for_each_range (mt_map mt1) start_key end_key
                                              (Some aggregate_visit) agg0
                            in (Some (LOCK_GIVE mt1), 0 < agg_count agg', Some agg'))))"

section \<open>Range flush\<close>

record 'u flush_walk =
  user_data :: 'u
  last_key :: u32
  flush_count :: nat

definition flush_visit ::
  "(u32 \<Rightarrow> u32 \<Rightarrow> 'u \<Rightarrow> bool \<times> 'u) option \<Rightarrow> u32 \<Rightarrow> u32 \<Rightarrow> 'u flush_walk \<Rightarrow> bool \<times> 'u flush_walk"
where
  "flush_visit cb key val w =
    (let (accept, u) = (case cb of None \<Rightarrow> (True, user_data w) | Some f \<Rightarrow> f key val (user_data w));
         w1 = w\<lparr>user_data := u\<rparr>
     in if \<not> accept then (False, w1)
        else (True, w1\<lparr>last_key := key, flush_count := flush_count w1 + 1\<rparr>))"

definition expanse_memtable_flush_range ::
  "memtable option \<Rightarrow> u32 \<Rightarrow> u32 \<Rightarrow> (u32 \<Rightarrow> u32 \<Rightarrow> 'u \<Rightarrow> bool \<times> 'u) option \<Rightarrow> 'u \<Rightarrow> memtable option \<times> nat \<times> 'u"
where
  "expanse_memtable_flush_range h start_key end_key cb ud =
    (case h of
       None \<Rightarrow> (None, 0, ud)
     | Some mt \<Rightarrow>
         (if end_key < start_key then (Some mt, 0, ud)
          else let mt1 = LOCK_TAKE mt
               in if mt_map mt1 = None then (Some (LOCK_GIVE mt1), 0, ud)
                  else let w0 = \<lparr>user_data = ud, last_key = 0, flush_count = 0\<rparr>;
                           (_, w) = expanse_map_for_each_range (mt_map mt1) start_key end_key (Some (flush_visit cb)) w0;
                           mt2 = (if 0 < flush_count w
                                  then mt1\<lparr>mt_map := fst (expanse_map_remove_range (mt_map mt1) start_key (last_key w) None ())\<rparr>
                                  else mt1)
                       in (Some (LOCK_GIVE mt2), flush_count w, user_data w)))"

section \<open>Invariant and abstract value\<close>

definition mt_ok :: "memtable option \<Rightarrow> bool" where
  "mt_ok h \<longleftrightarrow> (\<exists>mt. h = Some mt \<and> map_ok (mt_map mt))"

definition mt_ents :: "memtable option \<Rightarrow> (u32 \<times> u32) list" where
  "mt_ents h = (case h of None \<Rightarrow> [] | Some mt \<Rightarrow> map_ents (mt_map mt))"

definition mt_held :: "memtable option \<Rightarrow> nat" where
  "mt_held h = (case h of None \<Rightarrow> 0 | Some mt \<Rightarrow> mt_lock mt)"

lemma lock_simps [simp]:
  "mt_map (LOCK_TAKE mt) = mt_map mt"
  "LOCK_GIVE (LOCK_TAKE mt) = mt"
  "LOCK_GIVE ((LOCK_TAKE mt)\<lparr>mt_map := m\<rparr>) = mt\<lparr>mt_map := m\<rparr>"
  by (simp_all add: LOCK_TAKE_def LOCK_GIVE_def)

lemma map_ok_live: "map_ok m \<Longrightarrow> \<exists>c. m = Some c"
  by (auto simp: map_ok_def)

lemma mt_okE:
  assumes "mt_ok h"
  obtains mt where "h = Some mt" "map_ok (mt_map mt)" "mt_map mt \<noteq> None"
  using assms map_ok_live by (auto simp: mt_ok_def)

lemma asc_mt_ents: "mt_ok h \<Longrightarrow> asc (mt_ents h)"
  by (auto simp: mt_ok_def mt_ents_def emap.asc_ents)

text \<open>The point operations act on the entries as on a finite map, report the previous value, keep
  the invariant and return with the lock as they found it.\<close>

lemma memtable_create_ok: "mt_ok (expanse_memtable_create True) \<and> mt_ents (expanse_memtable_create True) = []"
  using emap.new_ok by (simp add: expanse_memtable_create_def mt_ok_def mt_ents_def expanse_map_new_def)

lemma memtable_insert_ok:
  assumes "mt_ok h" and "expanse_memtable_insert h k v = (h', is_new, old)"
  shows "mt_ok h'" and "mt_ents h' = al_ins k v (mt_ents h)" and "is_new \<longleftrightarrow> map_of (mt_ents h) k = None"
    and "old = map_of (mt_ents h) k" and "mt_held h' = mt_held h"
proof -
  obtain mt where mt: "h = Some mt" "map_ok (mt_map mt)" "mt_map mt \<noteq> None" using assms(1) by (rule mt_okE)
  show "mt_ok h'" and "mt_ents h' = al_ins k v (mt_ents h)" and "is_new \<longleftrightarrow> map_of (mt_ents h) k = None"
    and "old = map_of (mt_ents h) k" and "mt_held h' = mt_held h"
    using assms(2) mt emap.insert_ok [OF mt(2), of k v]
    by (auto simp: expanse_memtable_insert_def Let_def mt_ok_def mt_ents_def mt_held_def split_beta)
qed

lemma memtable_get_ok:
  assumes "mt_ok h"
  shows "expanse_memtable_get h k = (h, map_of (mt_ents h) k)"
  using assms by (auto elim!: mt_okE simp: expanse_memtable_get_def Let_def mt_ents_def emap.get_ok)

lemma memtable_remove_ok:
  assumes "mt_ok h" and "expanse_memtable_remove h k = (h', old)"
  shows "mt_ok h'" and "mt_ents h' = al_del k (mt_ents h)" and "old = map_of (mt_ents h) k" and "mt_held h' = mt_held h"
proof -
  obtain mt where mt: "h = Some mt" "map_ok (mt_map mt)" "mt_map mt \<noteq> None" using assms(1) by (rule mt_okE)
  show "mt_ok h'" and "mt_ents h' = al_del k (mt_ents h)" and "old = map_of (mt_ents h) k" and "mt_held h' = mt_held h"
    using assms(2) mt emap.remove_ok [OF mt(2), of k]
    by (auto simp: expanse_memtable_remove_def Let_def mt_ok_def mt_ents_def mt_held_def split_beta)
qed

lemma memtable_len_ok: "mt_ok h \<Longrightarrow> expanse_memtable_len h = (h, length (mt_ents h))"
  by (auto elim!: mt_okE simp: expanse_memtable_len_def Let_def mt_ents_def emap.len_ok)

lemma memtable_clear_ok:
  "mt_ok h \<Longrightarrow> mt_ok (expanse_memtable_clear h) \<and> mt_ents (expanse_memtable_clear h) = [] \<and>
   mt_held (expanse_memtable_clear h) = mt_held h"
proof -
  assume "mt_ok h"
  then obtain mt where mt: "h = Some mt" "map_ok (mt_map mt)" "mt_map mt \<noteq> None" by (rule mt_okE)
  then show ?thesis
    using emap.clear_ok [OF mt(2)] by (simp add: expanse_memtable_clear_def Let_def mt_ok_def mt_ents_def mt_held_def)
qed

section \<open>The aggregate\<close>

lemma agg_fold:
  "let agg' = fold (\<lambda>v agg. aggregate_fold agg v) vs agg
   in agg_count agg' = agg_count agg + length vs \<and> sum_val agg' = sum_val agg + of_nat (sum_list (map unat vs)) \<and>
      min_val agg' = fold min vs (min_val agg) \<and> max_val agg' = fold max vs (max_val agg)"
proof (induction vs arbitrary: agg)
  case (Cons v vs)
  have "(ucast v :: u64) = of_nat (unat v)" by simp
  then show ?case
    using Cons [of "aggregate_fold agg v"]
    by (auto simp: Let_def aggregate_fold_def min_def max_def)
qed simp

lemma asc_length_bound: "asc (xs :: (u32 \<times> 'v) list) \<Longrightarrow> length xs \<le> 2 ^ 32"
proof -
  assume "asc xs"
  then have "length xs = card (set (map fst xs))" using asc_distinct distinct_card by fastforce
  also have "\<dots> \<le> card (UNIV :: u32 set)" by (intro card_mono) simp_all
  finally show ?thesis by (simp add: card_word)
qed

lemma sum_bound: "sum_list (map unat (vs :: u32 list)) \<le> length vs * (2 ^ 32 - 1)"
proof (induction vs)
  case (Cons v vs)
  have "unat v \<le> 2 ^ 32 - 1" using unsigned_less [of v, where 'a = nat] by simp
  with Cons show ?case by simp
qed simp

lemma Min_min_fold: "vs \<noteq> [] \<Longrightarrow> fold min vs (- 1 :: u32) = Min (set vs)"
  using Min.set_eq_fold [of "- 1" vs] by (simp add: min_def word_order.extremum_unique)

lemma Max_max_fold: "vs \<noteq> [] \<Longrightarrow> fold max vs (0 :: u32) = Max (set vs)"
  using Max.set_eq_fold [of 0 vs] by (simp add: max_def)

lemma walk_aggregate:
  "walk aggregate_visit xs agg = (True, fold (\<lambda>v agg. aggregate_fold agg v) (map snd xs) agg)"
  by (induction xs arbitrary: agg) (simp_all add: aggregate_visit_def)

text \<open>The aggregate of a range is exact: the count, the smallest and largest value, and the sum, which
  never wraps, since the at most \<open>2\<^sup>3\<^sup>2\<close> values of a map sum to less than \<open>2\<^sup>6\<^sup>4\<close>.\<close>

lemma aggregate_range_ok:
  assumes "mt_ok h" and "sk \<le> ek"
  obtains agg' where
    "expanse_memtable_aggregate_range h sk ek (Some agg) =
       (h, al_range sk ek (mt_ents h) \<noteq> [], Some agg')"
    and "agg_count agg' = length (al_range sk ek (mt_ents h))"
    and "unat (sum_val agg') = sum_list (map (unat \<circ> snd) (al_range sk ek (mt_ents h)))"
    and "al_range sk ek (mt_ents h) \<noteq> [] \<Longrightarrow> min_val agg' = Min (snd ` set (al_range sk ek (mt_ents h)))"
    and "al_range sk ek (mt_ents h) \<noteq> [] \<Longrightarrow> max_val agg' = Max (snd ` set (al_range sk ek (mt_ents h)))"
proof -
  obtain mt where mt: "h = Some mt" "map_ok (mt_map mt)" "mt_map mt \<noteq> None" using assms(1) by (rule mt_okE)
  let ?r = "al_range sk ek (mt_ents h)" and ?vs = "map snd (al_range sk ek (mt_ents h))"
  define agg0 where "agg0 = agg\<lparr>min_val := - 1, max_val := 0, sum_val := 0, agg_count := 0\<rparr>"
  define agg' where "agg' = fold (\<lambda>v agg. aggregate_fold agg v) ?vs agg0"
  have f: "agg_count agg' = length ?r" "sum_val agg' = of_nat (sum_list (map unat ?vs))"
    "min_val agg' = fold min ?vs (- 1)" "max_val agg' = fold max ?vs 0"
    using agg_fold [of ?vs agg0] by (auto simp: agg'_def agg0_def Let_def)
  have "sum_list (map unat ?vs) \<le> 2 ^ 32 * (2 ^ 32 - 1)"
  proof (rule le_trans [OF sum_bound])
    show "length ?vs * (2 ^ 32 - 1) \<le> 2 ^ 32 * (2 ^ 32 - 1)"
      using asc_length_bound [OF asc_al_range [OF asc_mt_ents [OF assms(1)]], of sk ek] by simp
  qed
  then have sum: "unat (sum_val agg') = sum_list (map unat ?vs)"
    unfolding f(2) by (simp add: unat_of_nat take_bit_nat_eq_self)
  have "expanse_map_for_each_range (mt_map mt) sk ek (Some aggregate_visit) agg0 = (True, agg')"
    by (simp add: emap.for_each_ok [OF mt(2)] mt(1) walk_aggregate agg'_def mt_ents_def)
  moreover have "\<not> ek < sk" using assms(2) by simp
  ultimately have "expanse_memtable_aggregate_range h sk ek (Some agg) = (h, ?r \<noteq> [], Some agg')"
    using mt f(1) unfolding expanse_memtable_aggregate_range_def mt(1) Let_def split_beta lock_simps option.case agg0_def [symmetric]
    by (auto simp: mt_ents_def)
  moreover have "unat (sum_val agg') = sum_list (map (unat \<circ> snd) ?r)"
    using sum by (simp add: comp_def)
  ultimately show ?thesis
    using f Min_min_fold [of ?vs] Max_max_fold [of ?vs] by (intro that [of agg']) simp_all
qed

section \<open>The flush\<close>

text \<open>The entries of a list that a callback accepts before the first one it rejects, and the callback's
  context afterwards; a null callback accepts everything.\<close>

fun accepted ::
  "(u32 \<Rightarrow> u32 \<Rightarrow> 'u \<Rightarrow> bool \<times> 'u) option \<Rightarrow> (u32 \<times> u32) list \<Rightarrow> 'u \<Rightarrow> (u32 \<times> u32) list \<times> 'u"
where
  "accepted cb [] u = ([], u)"
| "accepted cb (p # xs) u =
    (let (ok, u') = (case cb of None \<Rightarrow> (True, u) | Some f \<Rightarrow> f (fst p) (snd p) u)
     in if ok then (let (ys, u'') = accepted cb xs u' in (p # ys, u'')) else ([], u'))"

lemma accepted_prefix: "\<exists>rest. xs = fst (accepted cb xs u) @ rest"
  by (induction xs arbitrary: u) (auto simp: Let_def split_beta)

lemma walk_flush:
  "snd (walk (flush_visit cb) xs w) =
    w\<lparr>user_data := snd (accepted cb xs (user_data w)),
      last_key := (if fst (accepted cb xs (user_data w)) = [] then last_key w else fst (last (fst (accepted cb xs (user_data w))))),
      flush_count := flush_count w + length (fst (accepted cb xs (user_data w)))\<rparr>"
  by (induction xs arbitrary: w) (auto simp: flush_visit_def Let_def split_beta split: option.splits)

lemma asc_le_last: "asc xs \<Longrightarrow> q \<in> set xs \<Longrightarrow> fst q \<le> fst (last xs)"
  by (induction xs) (auto intro: less_imp_le)

lemma outside_prefix:
  assumes "asc xs" and "al_range lo hi xs = acc @ rest" and "acc \<noteq> []"
  shows "al_outside lo (fst (last acc)) xs = filter (\<lambda>p. p \<notin> set acc) xs"
  unfolding al_outside_def
proof (rule filter_cong [OF refl])
  fix p
  assume p: "p \<in> set xs"
  have asc: "asc (acc @ rest)" using asc_al_range [OF assms(1), of lo hi] assms(2) by simp
  have last: "last acc \<in> set (al_range lo hi xs)" using assms(2,3) by simp
  have le: "fst q \<le> fst (last acc)" if "q \<in> set acc" for q
    using asc_le_last [of acc q] asc that by (simp only: asc_append)
  show "\<not> (lo \<le> fst p \<and> fst p \<le> fst (last acc)) \<longleftrightarrow> p \<notin> set acc"
  proof
    assume "\<not> (lo \<le> fst p \<and> fst p \<le> fst (last acc))"
    moreover have "lo \<le> fst p" if "p \<in> set acc"
    proof -
      have "p \<in> set (al_range lo hi xs)" using that assms(2) by simp
      then show ?thesis by (simp add: al_range_def)
    qed
    ultimately show "p \<notin> set acc" using le by blast
  next
    assume notin: "p \<notin> set acc"
    show "\<not> (lo \<le> fst p \<and> fst p \<le> fst (last acc))"
    proof
      assume b: "lo \<le> fst p \<and> fst p \<le> fst (last acc)"
      have "fst (last acc) \<le> hi" using last by (simp add: al_range_def)
      then have "p \<in> set (al_range lo hi xs)" using p b by (auto simp: al_range_def)
      then have "p \<in> set rest" using assms(2) notin by simp
      then have "fst (last acc) < fst p" using asc assms(3) unfolding asc_append by (meson last_in_set)
      then show False using b by (auto dest: leD)
    qed
  qed
qed

lemma flush_range_ok:
  assumes "mt_ok h" and "sk \<le> ek" and "accepted cb (al_range sk ek (mt_ents h)) u = (acc, u')"
    and "expanse_memtable_flush_range h sk ek cb u = (h', n, ud)"
  shows "mt_ok h'" and "mt_ents h' = filter (\<lambda>p. p \<notin> set acc) (mt_ents h)" and "n = length acc" and "ud = u'"
    and "mt_held h' = mt_held h"
proof -
  obtain mt where mt: "h = Some mt" "map_ok (mt_map mt)" "mt_map mt \<noteq> None" using assms(1) by (rule mt_okE)
  let ?init = "\<lparr>user_data = u, last_key = 0, flush_count = 0\<rparr>"
  let ?w = "snd (expanse_map_for_each_range (mt_map mt) sk ek (Some (flush_visit cb)) ?init)"
  have w: "?w = \<lparr>user_data = u', last_key = (if acc = [] then 0 else fst (last acc)), flush_count = length acc\<rparr>"
  proof -
    have "?w = snd (walk (flush_visit cb) (al_range sk ek (mt_ents h)) ?init)"
      by (simp add: emap.for_each_ok [OF mt(2)] mt(1) mt_ents_def)
    then show ?thesis by (simp add: walk_flush assms(3))
  qed
  obtain rest where r: "al_range sk ek (mt_ents h) = acc @ rest"
    using accepted_prefix [of "al_range sk ek (mt_ents h)" cb u] assms(3) by auto
  note rr = emap.remove_range_ok [OF mt(2), of sk "fst (last acc)" None "()"]
  have res: "h' = Some (if acc = [] then mt else mt\<lparr>mt_map := fst (expanse_map_remove_range (mt_map mt) sk (fst (last acc)) None ())\<rparr>)
      \<and> n = length acc \<and> ud = u'"
  proof -
    have "\<not> ek < sk" using assms(2) by simp
    then show ?thesis
      using assms(4) unfolding expanse_memtable_flush_range_def mt(1) Let_def split_beta lock_simps option.case
      by (auto simp: w mt(3))
  qed
  then show "n = length acc" and "ud = u'" and "mt_held h' = mt_held h" and "mt_ok h'"
    using mt rr by (auto simp: mt_held_def mt_ok_def)
  show "mt_ents h' = filter (\<lambda>p. p \<notin> set acc) (mt_ents h)"
    using res mt rr outside_prefix [OF asc_mt_ents [OF assms(1)] r] by (auto simp: mt_ents_def)
qed

section \<open>Reachable memtables\<close>

text \<open>The states a memtable passes through under any sequence of calls from its creation, whatever the
  callbacks of the flushes do.\<close>

inductive mt_reach :: "memtable option \<Rightarrow> bool" where
  created: "mt_reach (expanse_memtable_create True)"
| inserted: "mt_reach h \<Longrightarrow> mt_reach (fst (expanse_memtable_insert h k v))"
| looked_up: "mt_reach h \<Longrightarrow> mt_reach (fst (expanse_memtable_get h k))"
| removed: "mt_reach h \<Longrightarrow> mt_reach (fst (expanse_memtable_remove h k))"
| measured: "mt_reach h \<Longrightarrow> mt_reach (fst (expanse_memtable_len h))"
| cleared: "mt_reach h \<Longrightarrow> mt_reach (expanse_memtable_clear h)"
| aggregated: "mt_reach h \<Longrightarrow> mt_reach (fst (expanse_memtable_aggregate_range h sk ek out))"
| flushed: "mt_reach h \<Longrightarrow> mt_reach (fst (expanse_memtable_flush_range h sk ek cb (ud :: u32 list)))"

lemma memtable_insert_keeps: "mt_ok h \<Longrightarrow> mt_ok (fst (expanse_memtable_insert h k v))"
  using memtable_insert_ok(1) by (metis prod.collapse)

lemma aggregate_range_keeps: "mt_ok h \<Longrightarrow> fst (expanse_memtable_aggregate_range h sk ek out) = h"
  by (auto elim!: mt_okE simp: expanse_memtable_aggregate_range_def Let_def split: option.splits prod.splits)

lemma flush_range_keeps:
  assumes "mt_ok h"
  shows "mt_ok (fst (expanse_memtable_flush_range h sk ek cb ud)) \<and>
    mt_held (fst (expanse_memtable_flush_range h sk ek cb ud)) = mt_held h"
proof (cases "sk \<le> ek")
  case True
  obtain acc u' where a: "accepted cb (al_range sk ek (mt_ents h)) ud = (acc, u')" by fastforce
  obtain h' n u where f: "expanse_memtable_flush_range h sk ek cb ud = (h', n, u)" by (metis prod_cases3)
  show ?thesis using flush_range_ok [OF assms True a f] f by simp
next
  case False
  then show ?thesis using assms by (auto elim!: mt_okE simp: expanse_memtable_flush_range_def mt_ok_def)
qed

text \<open>C8. In every reachable state the memtable is a well-formed map and its lock is free, so no path
  through an operation leaves it held.\<close>

theorem memtable_reachable_ok: "mt_reach h \<Longrightarrow> mt_ok h \<and> mt_held h = 0"
proof (induction rule: mt_reach.induct)
  case created
  show ?case using memtable_create_ok by (simp add: expanse_memtable_create_def mt_held_def expanse_map_new_def)
next
  case (inserted h k v)
  obtain h' n old where e: "expanse_memtable_insert h k v = (h', n, old)" by (metis prod_cases3)
  show ?case using inserted memtable_insert_ok [OF _ e] e by simp
next
  case (removed h k)
  obtain h' old where e: "expanse_memtable_remove h k = (h', old)" by fastforce
  show ?case using removed memtable_remove_ok [OF _ e] e by simp
qed (simp_all add: memtable_get_ok memtable_len_ok memtable_clear_ok aggregate_range_keeps flush_range_keeps)

theorem memtable_reachable_ok_witness:
  "mt_ok (fst (expanse_memtable_insert (expanse_memtable_create True) 5 50)) \<and>
   mt_held (fst (expanse_memtable_insert (expanse_memtable_create True) 5 50)) = 0"
  by (rule memtable_reachable_ok) (intro mt_reach.intros)

text \<open>An insertion reports whether the key is new and the value it replaces, and every later lookup
  sees the new value at the key and the old ones elsewhere.\<close>

theorem memtable_insert_get:
  assumes "mt_ok h" and "expanse_memtable_insert h k v = (h', is_new, old)"
  shows "mt_ok h' \<and> is_new = (snd (expanse_memtable_get h k) = None) \<and> old = snd (expanse_memtable_get h k) \<and>
    snd (expanse_memtable_get h' j) = (if j = k then Some v else snd (expanse_memtable_get h j)) \<and>
    snd (expanse_memtable_len h') = snd (expanse_memtable_len h) + (if is_new then 1 else 0)"
  using memtable_insert_ok [OF assms] length_al_ins [OF asc_mt_ents [OF assms(1)], of k v] assms(1)
  by (simp add: memtable_get_ok memtable_len_ok map_of_al_ins)

theorem memtable_insert_get_witness:
  "let h = expanse_memtable_create True; h' = fst (expanse_memtable_insert h 5 50)
   in mt_ok h' \<and> True = (snd (expanse_memtable_get h 5) = None) \<and> None = snd (expanse_memtable_get h 5) \<and>
      snd (expanse_memtable_get h' 6) = (if (6 :: u32) = 5 then Some 50 else snd (expanse_memtable_get h 6)) \<and>
      snd (expanse_memtable_len h') = snd (expanse_memtable_len h) + (if True then 1 else 0)"
  unfolding Let_def
proof (rule memtable_insert_get)
  show "mt_ok (expanse_memtable_create True)" using memtable_create_ok by simp
  show "expanse_memtable_insert (expanse_memtable_create True) 5 50 =
      (fst (expanse_memtable_insert (expanse_memtable_create True) 5 50), True, None)"
    by code_simp
qed

text \<open>A removal returns the value of the key, and afterwards the key is absent and every other key
  is as it was.\<close>

theorem memtable_remove_get:
  assumes "mt_ok h" and "expanse_memtable_remove h k = (h', old)"
  shows "mt_ok h' \<and> old = snd (expanse_memtable_get h k) \<and>
    snd (expanse_memtable_get h' j) = (if j = k then None else snd (expanse_memtable_get h j)) \<and>
    mt_held h' = mt_held h"
  using memtable_remove_ok [OF assms] assms(1) by (simp add: memtable_get_ok map_of_al_del)

theorem memtable_remove_get_witness:
  "let h = fst (expanse_memtable_insert (expanse_memtable_create True) 5 50); h' = fst (expanse_memtable_remove h 5)
   in mt_ok h' \<and> Some 50 = snd (expanse_memtable_get h 5) \<and>
      snd (expanse_memtable_get h' 5) = (if (5 :: u32) = 5 then None else snd (expanse_memtable_get h 5)) \<and>
      mt_held h' = mt_held h"
  unfolding Let_def
proof (rule memtable_remove_get)
  let ?h = "fst (expanse_memtable_insert (expanse_memtable_create True) 5 50)"
  show "mt_ok ?h" by (intro memtable_insert_keeps memtable_create_ok [THEN conjunct1])
  show "expanse_memtable_remove ?h 5 = (fst (expanse_memtable_remove ?h 5), Some 50)"
    by code_simp
qed

text \<open>C7. The aggregate of a range is exact: it counts the entries with a key in the range, its minimum and
  maximum are those of their values, and its 64-bit sum is the sum of the values as numbers, however
  many entries there are.\<close>

theorem memtable_aggregate_exact:
  assumes "mt_ok h" and "sk \<le> ek"
  shows "\<exists>agg'. expanse_memtable_aggregate_range h sk ek (Some agg) = (h, al_range sk ek (mt_ents h) \<noteq> [], Some agg') \<and>
    agg_count agg' = length (al_range sk ek (mt_ents h)) \<and>
    unat (sum_val agg') = sum_list (map (unat \<circ> snd) (al_range sk ek (mt_ents h))) \<and>
    (al_range sk ek (mt_ents h) \<noteq> [] \<longrightarrow> min_val agg' = Min (snd ` set (al_range sk ek (mt_ents h))) \<and>
       max_val agg' = Max (snd ` set (al_range sk ek (mt_ents h))))"
  by (rule aggregate_range_ok [OF assms, of agg]) blast

theorem memtable_aggregate_exact_witness:
  "let h = fst (expanse_memtable_insert (expanse_memtable_create True) 5 50);
       agg = \<lparr>min_val = 1, max_val = 1, sum_val = 1, agg_count = 1\<rparr>
   in \<exists>agg'. expanse_memtable_aggregate_range h 2 9 (Some agg) = (h, al_range 2 9 (mt_ents h) \<noteq> [], Some agg') \<and>
    agg_count agg' = length (al_range 2 9 (mt_ents h)) \<and>
    unat (sum_val agg') = sum_list (map (unat \<circ> snd) (al_range 2 9 (mt_ents h))) \<and>
    (al_range 2 9 (mt_ents h) \<noteq> [] \<longrightarrow> min_val agg' = Min (snd ` set (al_range 2 9 (mt_ents h))) \<and>
       max_val agg' = Max (snd ` set (al_range 2 9 (mt_ents h))))"
  unfolding Let_def
proof (rule memtable_aggregate_exact)
  show "mt_ok (fst (expanse_memtable_insert (expanse_memtable_create True) 5 50))"
    by (intro memtable_insert_keeps memtable_create_ok [THEN conjunct1])
qed simp

text \<open>C6. A flush hands the callback the entries of the range in ascending order and removes exactly those it
  accepted before the first refusal; it returns their number, and a refused entry and all after it stay.\<close>

theorem memtable_flush_correct:
  assumes "mt_ok h" and "sk \<le> ek" and "accepted cb (al_range sk ek (mt_ents h)) u = (acc, u')"
    and "expanse_memtable_flush_range h sk ek cb u = (h', n, ud)"
  shows "mt_ok h' \<and> mt_ents h' = filter (\<lambda>p. p \<notin> set acc) (mt_ents h) \<and> n = length acc \<and> ud = u' \<and>
    mt_held h' = mt_held h \<and> (\<exists>rest. al_range sk ek (mt_ents h) = acc @ rest)"
  using flush_range_ok [OF assms] accepted_prefix [of "al_range sk ek (mt_ents h)" cb u] assms(3)
  by auto

theorem memtable_flush_correct_witness:
  "let h = fst (expanse_memtable_insert (fst (expanse_memtable_insert (expanse_memtable_create True) 5 50)) 7 70);
       cb = Some (\<lambda>k v u. (v < 60, u + k)); h' = fst (expanse_memtable_flush_range h 2 9 cb 0)
   in mt_ok h' \<and> mt_ents h' = filter (\<lambda>p. p \<notin> set [(5, 50)]) (mt_ents h) \<and> 1 = length [(5 :: u32, 50 :: u32)] \<and>
      (12 :: u32) = 12 \<and> mt_held h' = mt_held h \<and> (\<exists>rest. al_range 2 9 (mt_ents h) = [(5, 50)] @ rest)"
  unfolding Let_def
proof (rule memtable_flush_correct)
  let ?h = "fst (expanse_memtable_insert (fst (expanse_memtable_insert (expanse_memtable_create True) 5 50)) 7 70)"
  let ?cb = "Some (\<lambda>k v u. (v < 60, u + k)) :: (u32 \<Rightarrow> u32 \<Rightarrow> u32 \<Rightarrow> bool \<times> u32) option"
  show "mt_ok ?h"
    by (intro memtable_insert_keeps memtable_create_ok [THEN conjunct1])
  show "(2 :: u32) \<le> 9" by simp
  show "accepted ?cb (al_range 2 9 (mt_ents ?h)) 0 = ([(5, 50)], 12)" by code_simp
  show "expanse_memtable_flush_range ?h 2 9 ?cb 0 = (fst (expanse_memtable_flush_range ?h 2 9 ?cb 0), 1, 12)" by code_simp
qed

end
