(* ===== verification/C_Memory.thy ===== *)
theory C_Memory
  imports Prelude "HOL-Library.Monad_Syntax"
begin

text \<open>
  Array accesses of the C sources. A read or a write outside the bounds of an array is undefined in C;
  here it is the value \<^term>\<open>None\<close>, which every later step of the function passes on. A function that
  returns \<^term>\<open>Some\<close> has made no such access.
\<close>

definition rd :: "'a list \<Rightarrow> nat \<Rightarrow> 'a option" where
  "rd xs i = (if i < length xs then Some (xs ! i) else None)"

definition wr :: "'a list \<Rightarrow> nat \<Rightarrow> 'a \<Rightarrow> 'a list option" where
  "wr xs i v = (if i < length xs then Some (xs[i := v]) else None)"

lemma rd_in [simp]: "i < length xs \<Longrightarrow> rd xs i = Some (xs ! i)"
  by (simp add: rd_def)

lemma wr_in [simp]: "i < length xs \<Longrightarrow> wr xs i v = Some (xs[i := v])"
  by (simp add: wr_def)

lemma rd_eq_Some: "rd xs i = Some v \<longleftrightarrow> i < length xs \<and> xs ! i = v"
  by (auto simp: rd_def)

lemma wr_eq_Some: "wr xs i v = Some ys \<longleftrightarrow> i < length xs \<and> ys = xs[i := v]"
  by (auto simp: wr_def)

text \<open>A counted loop over a state, stopping at the first undefined step.\<close>

fun for_loop :: "nat list \<Rightarrow> (nat \<Rightarrow> 's \<Rightarrow> 's option) \<Rightarrow> 's \<Rightarrow> 's option" where
  "for_loop [] body s = Some s"
| "for_loop (i # js) body s = body i s \<bind> for_loop js body"

lemma for_loop_append: "for_loop (xs @ ys) body s = for_loop xs body s \<bind> for_loop ys body"
  by (induction xs arbitrary: s) (auto split: Option.bind_split)

lemma for_loop_invariant:
  assumes "P 0 s" and "\<And>i s. i < n \<Longrightarrow> P i s \<Longrightarrow> \<exists>s'. body i s = Some s' \<and> P (Suc i) s'"
  shows "\<exists>s'. for_loop [0..<n] body s = Some s' \<and> P n s'"
  using assms(2)
proof (induction n)
  case 0
  then show ?case using assms(1) by simp
next
  case (Suc n)
  then obtain s1 where s1: "for_loop [0..<n] body s = Some s1" "P n s1" by fastforce
  then obtain s2 where "body n s1 = Some s2" "P (Suc n) s2" using Suc.prems by blast
  then show ?case using s1 by (auto simp: for_loop_append)
qed

text \<open>\<^verbatim>\<open>memmove\<close> within one array, in elements: \<open>n\<close> elements move from position \<open>src\<close> to position \<open>dst\<close>.\<close>

definition memmove :: "'a list \<Rightarrow> nat \<Rightarrow> nat \<Rightarrow> nat \<Rightarrow> 'a list option" where
  "memmove xs dst src n =
    (if dst + n \<le> length xs \<and> src + n \<le> length xs
     then Some (take dst xs @ take n (drop src xs) @ drop (dst + n) xs) else None)"

lemma length_memmove: "memmove xs dst src n = Some ys \<Longrightarrow> length ys = length xs"
  by (auto simp: memmove_def split: if_splits)

lemma take_memmove_up:
  assumes "i \<le> n" and "n < length xs"
  shows "\<exists>ys. memmove xs (i + 1) i (n - i) = Some ys \<and> length ys = length xs \<and>
    take (n + 1) (ys[i := x]) = insert_at i x (take n xs)"
proof -
  let ?ys = "take (i + 1) xs @ take (n - i) (drop i xs) @ drop (n + 1) xs"
  have eq: "memmove xs (i + 1) i (n - i) = Some ?ys" using assms by (simp add: memmove_def)
  have len: "length ?ys = length xs" using assms by simp
  have "take (n + 1) (?ys[i := x]) = insert_at i x (take n xs)"
  proof (rule nth_equalityI)
    show "length (take (n + 1) (?ys[i := x])) = length (insert_at i x (take n xs))" using assms by simp
  next
    fix j
    assume "j < length (take (n + 1) (?ys[i := x]))"
    then have j: "j < n + 1" by simp
    show "take (n + 1) (?ys[i := x]) ! j = insert_at i x (take n xs) ! j"
    proof (cases "j = i")
      case True
      have "i < length ?ys" using assms by simp
      then have "?ys[i := x] ! i = x" by (rule nth_list_update_eq)
      then show ?thesis using True j assms by (simp add: insert_at_def nth_append)
    next
      case False
      then show ?thesis
        using assms j by (cases "j < i") (auto simp: nth_append insert_at_def nth_Cons' min_def Suc_diff_Suc)
    qed
  qed
  then show ?thesis using eq len by blast
qed

lemma take_memmove_down:
  assumes "i + c \<le> n" and "n \<le> length xs"
  shows "\<exists>ys. memmove xs i (i + c) (n - i - c) = Some ys \<and> length ys = length xs \<and>
    take (n - c) ys = remove_span i (i + c) (take n xs)"
proof -
  let ?ys = "take i xs @ take (n - i - c) (drop (i + c) xs) @ drop (i + (n - i - c)) xs"
  have eq: "memmove xs i (i + c) (n - i - c) = Some ?ys" using assms by (simp add: memmove_def)
  have len: "length ?ys = length xs" using assms by simp
  have "take (n - c) ?ys = take i xs @ take (n - i - c) (drop (i + c) xs)" using assms by (simp add: add.commute [of c i])
  also have "\<dots> = remove_span i (i + c) (take n xs)" 
    unfolding remove_span_def drop_take diff_diff_left take_take using assms by (simp add: min_def)
  finally show ?thesis using eq len by blast
qed

end
