(* ===== verification/Ble_Tracker.thy ===== *)
theory Ble_Tracker
  imports Expanse_Map C_Memory
begin

text \<open>
  The BLE asset tracker of the ESP-IDF component (\<^verbatim>\<open>components/expanse/src/expanse_ble_tracker.c\<close>): a slab
  of records with a free list, an index from the hash of a MAC address to a slot, and an index from
  a time key (seconds since an epoch, slot) to a slot that is used to evict stale records. \<^verbatim>\<open>size_t\<close> is
  32 bits wide, as on the target; \<^verbatim>\<open>count\<close> and \<^verbatim>\<open>free_count\<close> keep that width. The lock is the number of
  times the calling thread holds it. Accesses outside an array are undefined (\<^term>\<open>None\<close>). A MAC
  address is the list of its bytes, of which the code uses the first six. The functions are those of
  the 32-bit build (\<^verbatim>\<open>EXPANSE_WIDE_SURFACE\<close> 0).
\<close>

section \<open>Data\<close>

definition EXPANSE_BLE_MAX_CAPACITY :: nat where "EXPANSE_BLE_MAX_CAPACITY = 8192"
definition TIME_KEY_SHIFT :: nat where "TIME_KEY_SHIFT = 13"
definition SLAB_IDX_MASK :: u32 where "SLAB_IDX_MASK = 0x1FFF"

datatype ble_status = BLE_OK | BLE_ERR_NOMEM | BLE_ERR_COLLISION | BLE_ERR_INVAL

record ble_record =
  mac :: "u8 list"
  rssi :: u8
  flags :: u8
  last_seen_ms :: u32
  distance_cm :: u16
  dev_name :: "u8 list"

record ble_tracker =
  by_mac :: expanse_map_t
  by_time :: expanse_map_t
  slab :: "ble_record list"
  mono_last_seen_sec :: "u32 list"
  free_indices :: "u16 list"
  active_bitmap :: "u32 list"
  free_count :: u32
  max_capacity :: nat
  trk_count :: u32
  last_raw_ms :: u32
  mono_offset_ms :: u64
  base_epoch_sec :: u32
  trk_lock :: nat

definition TRK_TAKE :: "ble_tracker \<Rightarrow> ble_tracker" where
  "TRK_TAKE t = t\<lparr>trk_lock := trk_lock t + 1\<rparr>"

definition TRK_GIVE :: "ble_tracker \<Rightarrow> ble_tracker" where
  "TRK_GIVE t = t\<lparr>trk_lock := trk_lock t - 1\<rparr>"

section \<open>Helpers\<close>

definition is_slot_active :: "ble_tracker \<Rightarrow> nat \<Rightarrow> bool option" where
  "is_slot_active t idx =
    do { w \<leftarrow> rd (active_bitmap t) (idx div 32);
         Some (w AND push_bit (idx mod 32) 1 \<noteq> 0) }"

definition set_slot_active :: "ble_tracker \<Rightarrow> nat \<Rightarrow> ble_tracker option" where
  "set_slot_active t idx =
    do { w \<leftarrow> rd (active_bitmap t) (idx div 32);
         bm \<leftarrow> wr (active_bitmap t) (idx div 32) (w OR push_bit (idx mod 32) 1);
         Some (t\<lparr>active_bitmap := bm\<rparr>) }"

definition clear_slot_active :: "ble_tracker \<Rightarrow> nat \<Rightarrow> ble_tracker option" where
  "clear_slot_active t idx =
    do { w \<leftarrow> rd (active_bitmap t) (idx div 32);
         bm \<leftarrow> wr (active_bitmap t) (idx div 32) (w AND NOT (push_bit (idx mod 32) 1));
         Some (t\<lparr>active_bitmap := bm\<rparr>) }"

definition fnv1a_32 :: "u8 list \<Rightarrow> nat \<Rightarrow> u32" where
  "fnv1a_32 data len = fold (\<lambda>b hash. (hash XOR ucast b) * 16777619) (take len data) 2166136261"

definition memcmp6 :: "u8 list \<Rightarrow> u8 list \<Rightarrow> bool" where
  "memcmp6 a b \<longleftrightarrow> take 6 a \<noteq> take 6 b"

definition unwrap_mono_ms :: "ble_tracker \<Rightarrow> u32 \<Rightarrow> ble_tracker \<times> u64" where
  "unwrap_mono_ms t raw_ms =
    (let t1 = (if 0 < trk_count t \<or> 0 < last_raw_ms t
               then if raw_ms < last_raw_ms t \<and> 0x80000000 < last_raw_ms t - raw_ms
                    then t\<lparr>mono_offset_ms := mono_offset_ms t + 0x100000000\<rparr> else t
               else t);
         t2 = t1\<lparr>last_raw_ms := raw_ms\<rparr>
     in (t2, mono_offset_ms t2 + ucast raw_ms))"

definition make_time_key :: "u32 \<Rightarrow> u32 \<Rightarrow> u16 \<Rightarrow> u32" where
  "make_time_key mono_sec base_epoch slab_idx =
    (let rel_sec = (if base_epoch \<le> mono_sec
                    then let diff = mono_sec - base_epoch in if 0x7FFFF < diff then 0x7FFFF else diff
                    else 0)
     in push_bit TIME_KEY_SHIFT rel_sec OR (ucast slab_idx AND SLAB_IDX_MASK))"

definition rebuild_by_time :: "ble_tracker \<Rightarrow> ble_tracker option" where
  "rebuild_by_time t =
    for_loop [0..<max_capacity t] (\<lambda>i t.
      do { a \<leftarrow> is_slot_active t i;
           if \<not> a then Some t
           else do { s \<leftarrow> rd (mono_last_seen_sec t) i;
                     Some (t\<lparr>by_time := fst (expanse_map_insert (by_time t)
                                (make_time_key s (base_epoch_sec t) (of_nat i)) (of_nat i))\<rparr>) } })
      (t\<lparr>by_time := expanse_map_clear (by_time t)\<rparr>)"

definition rebase_epoch_if_needed :: "ble_tracker \<Rightarrow> u32 \<Rightarrow> ble_tracker option" where
  "rebase_epoch_if_needed t current_mono_sec =
    (let t1 = (if current_mono_sec < base_epoch_sec t then t\<lparr>base_epoch_sec := current_mono_sec\<rparr> else t);
         span = current_mono_sec - base_epoch_sec t1
     in if span < 400000 then Some t1
        else rebuild_by_time (t1\<lparr>base_epoch_sec := base_epoch_sec t1 + (span - 100000)\<rparr>))"

section \<open>Construction and destruction\<close>

definition empty_record :: ble_record where
  "empty_record = \<lparr>mac = replicate 6 0, rssi = 0, flags = 0, last_seen_ms = 0, distance_cm = 0, dev_name = replicate 14 0\<rparr>"

text \<open>The answers of the allocator to the tracker and to its four arrays are arguments; the content of
  the uninitialised \<^verbatim>\<open>free_indices\<close> is overwritten in full.\<close>

definition expanse_ble_tracker_create :: "bool \<Rightarrow> bool \<Rightarrow> bool \<Rightarrow> bool \<Rightarrow> bool \<Rightarrow> nat \<Rightarrow> ble_tracker option" where
  "expanse_ble_tracker_create trk_ok entries_ok mono_ok bitmap_ok free_ok cap =
    (if cap = 0 \<or> EXPANSE_BLE_MAX_CAPACITY < cap then None
     else if \<not> trk_ok then None
     else let m1 = expanse_map_new; m2 = expanse_map_new
          in if m1 = None \<or> m2 = None \<or> \<not> entries_ok \<or> \<not> mono_ok \<or> \<not> bitmap_ok \<or> \<not> free_ok then None
             else Some \<lparr>by_mac = m1, by_time = m2, slab = replicate cap empty_record,
                        mono_last_seen_sec = replicate cap 0,
                        free_indices = map (\<lambda>i. of_nat (cap - 1 - i)) [0..<cap],
                        active_bitmap = replicate ((cap + 31) div 32) 0,
                        free_count = of_nat cap, max_capacity = cap, trk_count = 0,
                        last_raw_ms = 0, mono_offset_ms = 0, base_epoch_sec = 0, trk_lock = 0\<rparr>)"

definition expanse_ble_tracker_destroy :: "ble_tracker option \<Rightarrow> ble_tracker option" where
  "expanse_ble_tracker_destroy h =
    (case h of
       None \<Rightarrow> None
     | Some t \<Rightarrow>
         (let t1 = TRK_TAKE t;
              t2 = t1\<lparr>by_mac := expanse_map_free (by_mac t1), by_time := expanse_map_free (by_time t1),
                      slab := [], mono_last_seen_sec := [], active_bitmap := [], free_indices := []\<rparr>;
              t3 = TRK_GIVE t2
          in None))"

section \<open>Operations\<close>

definition ble_resight :: "ble_tracker \<Rightarrow> ble_record \<Rightarrow> u32 \<Rightarrow> u16 \<Rightarrow> ble_tracker option" where
  "ble_resight t rec mono_sec idx =
    do { s \<leftarrow> rd (mono_last_seen_sec t) (unat idx);
         let old_tk = make_time_key s (base_epoch_sec t) idx;
         let t1 = t\<lparr>by_time := fst (expanse_map_remove (by_time t) old_tk)\<rparr>;
         es \<leftarrow> wr (slab t1) (unat idx) rec;
         ms \<leftarrow> wr (mono_last_seen_sec t1) (unat idx) mono_sec;
         let t2 = t1\<lparr>slab := es, mono_last_seen_sec := ms\<rparr>;
         let new_tk = make_time_key mono_sec (base_epoch_sec t2) idx;
         Some (t2\<lparr>by_time := fst (expanse_map_insert (by_time t2) new_tk (ucast idx))\<rparr>) }"

definition ble_new_sighting :: "ble_tracker \<Rightarrow> ble_record \<Rightarrow> u32 \<Rightarrow> u32 \<Rightarrow> ble_tracker option" where
  "ble_new_sighting t rec mono_sec mac_hash =
    do { let fc = free_count t - 1;
         idx \<leftarrow> rd (free_indices t) (unat fc);
         es \<leftarrow> wr (slab t) (unat idx) rec;
         ms \<leftarrow> wr (mono_last_seen_sec t) (unat idx) mono_sec;
         t2 \<leftarrow> set_slot_active (t\<lparr>free_count := fc, slab := es, mono_last_seen_sec := ms\<rparr>) (unat idx);
         let tk = make_time_key mono_sec (base_epoch_sec t2) idx;
         let t3 = t2\<lparr>by_mac := fst (expanse_map_insert (by_mac t2) mac_hash (ucast idx))\<rparr>;
         let t4 = t3\<lparr>by_time := fst (expanse_map_insert (by_time t3) tk (ucast idx))\<rparr>;
         Some (t4\<lparr>trk_count := trk_count t4 + 1\<rparr>) }"

text \<open>The part of a recording that follows the rebase, with the lock held; every path through it gives the
  lock back right after.\<close>

definition ble_sighting :: "ble_tracker \<Rightarrow> ble_record \<Rightarrow> u32 \<Rightarrow> (ble_tracker \<times> ble_status) option" where
  "ble_sighting t rec mono_sec =
    (let mac_hash = fnv1a_32 (mac rec) 6
     in case expanse_map_get (by_mac t) mac_hash of
          Some existing_idx \<Rightarrow>
            do { let idx = (ucast existing_idx :: u16);
                 e \<leftarrow> rd (slab t) (unat idx);
                 if memcmp6 (mac e) (mac rec) then Some (t, BLE_ERR_COLLISION)
                 else do { t' \<leftarrow> ble_resight t rec mono_sec idx; Some (t', BLE_OK) } }
        | None \<Rightarrow>
            (if free_count t = 0 then Some (t, BLE_ERR_NOMEM)
             else do { t' \<leftarrow> ble_new_sighting t rec mono_sec mac_hash; Some (t', BLE_OK) }))"

definition expanse_ble_tracker_record ::
  "ble_tracker option \<Rightarrow> ble_record option \<Rightarrow> (ble_tracker option \<times> ble_status) option"
where
  "expanse_ble_tracker_record h r =
    (case (h, r) of
       (Some t, Some rec) \<Rightarrow>
         do { let t1 = TRK_TAKE t;
              let (t2, mono_ms) = unwrap_mono_ms t1 (last_seen_ms rec);
              let mono_sec = ucast (mono_ms div 1000);
              t3 \<leftarrow> rebase_epoch_if_needed t2 mono_sec;
              (t4, st) \<leftarrow> ble_sighting t3 rec mono_sec;
              Some (Some (TRK_GIVE t4), st) }
     | _ \<Rightarrow> Some (h, BLE_ERR_INVAL))"

text \<open>The slot a MAC address is found in: the hash index, the liveness bit and the address itself must
  agree.\<close>

definition ble_lookup :: "ble_tracker \<Rightarrow> u8 list \<Rightarrow> (u16 \<times> ble_record) option option" where
  "ble_lookup t m =
    (case expanse_map_get (by_mac t) (fnv1a_32 m 6) of
       None \<Rightarrow> Some None
     | Some idx_word \<Rightarrow>
         do { let idx = (ucast idx_word :: u16);
              a \<leftarrow> is_slot_active t (unat idx);
              if \<not> a then Some None
              else do { e \<leftarrow> rd (slab t) (unat idx);
                        if memcmp6 (mac e) m then Some None else Some (Some (idx, e)) } })"

definition expanse_ble_tracker_get ::
  "ble_tracker option \<Rightarrow> u8 list option \<Rightarrow> (ble_tracker option \<times> ble_record option) option"
where
  "expanse_ble_tracker_get h m =
    (case (h, m) of
       (Some t, Some m) \<Rightarrow>
         do { let t1 = TRK_TAKE t;
              r \<leftarrow> ble_lookup t1 m;
              Some (Some (TRK_GIVE t1), map_option snd r) }
     | _ \<Rightarrow> Some (h, None))"

definition release_slot :: "ble_tracker \<Rightarrow> u16 \<Rightarrow> ble_tracker option" where
  "release_slot t idx =
    do { t1 \<leftarrow> clear_slot_active t (unat idx);
         fi \<leftarrow> wr (free_indices t1) (unat (free_count t1)) idx;
         Some (t1\<lparr>free_indices := fi, free_count := free_count t1 + 1, trk_count := trk_count t1 - 1\<rparr>) }"

definition expanse_ble_tracker_remove ::
  "ble_tracker option \<Rightarrow> u8 list option \<Rightarrow> (ble_tracker option \<times> ble_record option) option"
where
  "expanse_ble_tracker_remove h m =
    (case (h, m) of
       (Some t, Some m) \<Rightarrow>
         do { let t1 = TRK_TAKE t;
              r \<leftarrow> ble_lookup t1 m;
              case r of
                None \<Rightarrow> Some (Some (TRK_GIVE t1), None)
              | Some (idx, e) \<Rightarrow>
                  do { s \<leftarrow> rd (mono_last_seen_sec t1) (unat idx);
                       let tk = make_time_key s (base_epoch_sec t1) idx;
                       let t2 = t1\<lparr>by_mac := fst (expanse_map_remove (by_mac t1) (fnv1a_32 m 6))\<rparr>;
                       let t3 = t2\<lparr>by_time := fst (expanse_map_remove (by_time t2) tk)\<rparr>;
                       t4 \<leftarrow> release_slot t3 idx;
                       Some (Some (TRK_GIVE t4), Some e) } }
     | _ \<Rightarrow> Some (h, None))"

definition expire_slot :: "ble_tracker \<Rightarrow> u16 \<Rightarrow> ble_tracker option" where
  "expire_slot t idx =
    do { e \<leftarrow> rd (slab t) (unat idx);
         let mac_hash = fnv1a_32 (mac e) 6;
         release_slot (t\<lparr>by_mac := fst (expanse_map_remove (by_mac t) mac_hash)\<rparr>) idx }"

definition expire_one :: "u32 \<Rightarrow> u32 \<Rightarrow> ble_tracker option \<Rightarrow> ble_tracker option" where
  "expire_one time_key idx_word ctx = do { t \<leftarrow> ctx; expire_slot t (ucast idx_word) }"

definition stale_time_key :: "ble_tracker \<Rightarrow> u32 \<Rightarrow> u32" where
  "stale_time_key t cutoff_sec =
    (let rel_cutoff_sec = (if base_epoch_sec t \<le> cutoff_sec
                           then let diff = cutoff_sec - base_epoch_sec t in if 0x7FFFF < diff then 0x7FFFF else diff
                           else 0)
     in push_bit TIME_KEY_SHIFT rel_cutoff_sec OR SLAB_IDX_MASK)"

definition expanse_ble_tracker_expire_stale ::
  "ble_tracker option \<Rightarrow> u32 \<Rightarrow> (ble_tracker option \<times> nat) option"
where
  "expanse_ble_tracker_expire_stale h cutoff_ms =
    (case h of
       None \<Rightarrow> Some (None, 0)
     | Some t \<Rightarrow>
         (let t1 = TRK_TAKE t
          in if trk_count t1 = 0 then Some (Some (TRK_GIVE t1), 0)
             else let (t2, cutoff_mono_ms) = unwrap_mono_ms t1 cutoff_ms;
                      cutoff_sec = ucast (cutoff_mono_ms div 1000);
                      max_time_key = stale_time_key t2 cutoff_sec;
                      (m, ctx, expired_count) = expanse_map_remove_range (by_time t2) 0 max_time_key
                                                  (Some expire_one) (Some t2)
                  in do { t3 \<leftarrow> ctx;
                          Some (Some (TRK_GIVE (t3\<lparr>by_time := m\<rparr>)), expired_count) }))"

definition expanse_ble_tracker_count :: "ble_tracker option \<Rightarrow> ble_tracker option \<times> u32" where
  "expanse_ble_tracker_count h =
    (case h of
       None \<Rightarrow> (None, 0)
     | Some t \<Rightarrow> (let t1 = TRK_TAKE t; c = trk_count t1 in (Some (TRK_GIVE t1), c)))"

end
