(* ===== verification/Ble_Tracker_Correct.thy ===== *)
theory Ble_Tracker_Correct
  imports Ble_Tracker
begin

text \<open>
  The correctness of the BLE tracker: memory safety, the invariant that ties the two indexes, the
  liveness bitmap, the free list and the counters together, and the effect of every operation on the
  set of tracked devices.
\<close>

section \<open>Indexes of slots\<close>

text \<open>A map indexes a set of slots by a key when its entries are exactly the keys of the slots, each with
  the number of its slot.\<close>

definition indexes :: "(u32 \<rightharpoonup> u32) \<Rightarrow> (nat \<Rightarrow> u32) \<Rightarrow> nat set \<Rightarrow> bool" where
  "indexes M key A \<longleftrightarrow> (\<forall>k w. M k = Some w \<longleftrightarrow> (\<exists>i\<in>A. k = key i \<and> w = of_nat i))"

lemma small_slot: "i < 8192 \<Longrightarrow> unat (of_nat i :: u32) = i" "i < 8192 \<Longrightarrow> unat (of_nat i :: u16) = i"
  by (simp_all add: unat_of_nat take_bit_nat_eq_self)

lemma slot_inj: "i < 8192 \<Longrightarrow> j < 8192 \<Longrightarrow> (of_nat i :: u32) = of_nat j \<longleftrightarrow> i = j"
  using small_slot(1) by metis

lemma slot_cast: "i < 8192 \<Longrightarrow> (ucast (of_nat i :: u32) :: u16) = of_nat i"
  by (simp add: word_unat_eq_iff unsigned_ucast_eq small_slot take_bit_nat_eq_self)

lemma indexes_SomeD: "indexes M key A \<Longrightarrow> M k = Some w \<Longrightarrow> \<exists>i\<in>A. k = key i \<and> w = of_nat i"
  by (simp add: indexes_def)

lemma indexes_at: "indexes M key A \<Longrightarrow> i \<in> A \<Longrightarrow> M (key i) = Some (of_nat i)"
  by (auto simp: indexes_def)

lemma indexes_None: "indexes M key A \<Longrightarrow> M k = None \<longleftrightarrow> k \<notin> key ` A"
  using indexes_at [of M key A] indexes_SomeD [of M key A k] by (cases "M k") fastforce+

lemma indexes_inj:
  assumes "indexes M key A" and "A \<subseteq> {..<8192}" and "i \<in> A" and "j \<in> A" and "key i = key j"
  shows "i = j"
proof -
  have "(of_nat i :: u32) = of_nat j" using assms(1,3-5) indexes_at by (metis option.inject)
  moreover have "i < 8192" "j < 8192" using assms(2-4) by auto
  ultimately show ?thesis using slot_inj by blast
qed

lemma indexes_empty: "indexes Map.empty key {}"
  by (simp add: indexes_def)

lemma indexes_cong: "(\<And>i. i \<in> A \<Longrightarrow> key i = key' i) \<Longrightarrow> indexes M key A \<longleftrightarrow> indexes M key' A"
  by (simp add: indexes_def)

lemma indexes_insert:
  assumes "indexes M key A" and "i \<notin> A" and "key i \<notin> key ` A"
  shows "indexes (M(key i \<mapsto> of_nat i)) key (insert i A)"
  using assms unfolding indexes_def by (auto simp: image_iff split: if_splits)

lemma indexes_remove:
  assumes "indexes M key A" and "A \<subseteq> {..<8192}" and "i \<in> A"
  shows "indexes (M(key i := None)) key (A - {i})"
proof -
  have "key j \<noteq> key i" if "j \<in> A" "j \<noteq> i" for j using indexes_inj [OF assms(1,2)] that assms(3) by blast
  then show ?thesis using assms(1) unfolding indexes_def by (auto split: if_splits) metis
qed

lemma indexes_filter:
  assumes "indexes M key A"
  shows "indexes (\<lambda>k. if P k then None else M k) key {i \<in> A. \<not> P (key i)}"
  using assms unfolding indexes_def by (auto split: if_splits)

section \<open>Time keys\<close>

definition rel_sec :: "u32 \<Rightarrow> u32 \<Rightarrow> u32" where
  "rel_sec base s = (if base \<le> s then if 0x7FFFF < s - base then 0x7FFFF else s - base else 0)"

lemma rel_sec_bound: "unat (rel_sec base s) < 2 ^ 19"
proof -
  have "unat (rel_sec base s) \<le> unat (0x7FFFF :: u32)"
    unfolding word_le_nat_alt [symmetric] by (auto simp: rel_sec_def not_less)
  then show ?thesis by simp
qed

lemma make_time_key_rel:
  "make_time_key s base idx = push_bit 13 (rel_sec base s) OR (ucast idx AND 0x1FFF)"
  by (simp add: make_time_key_def rel_sec_def TIME_KEY_SHIFT_def SLAB_IDX_MASK_def Let_def)

lemma unat_time_word:
  assumes "unat (r :: u32) < 2 ^ 19" and "unat (c :: u32) < 8192"
  shows "unat (push_bit 13 r OR c) = unat r * 8192 + unat c"
proof -
  have low: "\<not> bit c m" if "13 \<le> m" for m
  proof -
    have "take_bit 13 c = c" using assms(2) by (simp add: word_unat_eq_iff unat_take_bit)
    then show ?thesis using that by (metis bit_take_bit_iff not_le)
  qed
  have hi: "unat (push_bit 13 r) = unat r * 8192"
    using assms(1) by (simp add: unsigned_push_bit_eq push_bit_eq_mult [where 'a = nat] take_bit_nat_eq_self)
  have "push_bit 13 r OR c = push_bit 13 r + c"
    by (rule disjunctive_add [symmetric]) (use low in \<open>auto simp: bit_push_bit_iff\<close>)
  moreover have "unat (push_bit 13 r) + unat c < 2 ^ 32" using assms hi by simp
  ultimately show ?thesis using unat_add_lem [of "push_bit 13 r" c] hi by simp
qed

lemma unat_time_key:
  assumes "i < 8192"
  shows "unat (make_time_key s base (of_nat i)) = unat (rel_sec base s) * 8192 + i"
proof -
  have "(ucast (of_nat i :: u16) :: u32) AND 0x1FFF = of_nat i"
  proof -
    have "(0x1FFF :: u32) = mask 13" by (simp add: mask_eq_exp_minus_1)
    then have "(ucast (of_nat i :: u16) :: u32) AND 0x1FFF = take_bit 13 (ucast (of_nat i :: u16))"
      by (simp only: take_bit_eq_mask)
    then show ?thesis
      using assms by (simp add: word_unat_eq_iff unat_take_bit unsigned_ucast_eq small_slot take_bit_nat_eq_self)
  qed
  then show ?thesis
    using unat_time_word [OF rel_sec_bound, of "of_nat i" base s] assms by (simp add: make_time_key_rel small_slot)
qed

lemma time_key_inj:
  assumes "i < 8192" and "j < 8192" and "make_time_key s base (of_nat i) = make_time_key s' base' (of_nat j)"
  shows "i = j"
proof -
  have "unat (rel_sec base s) * 8192 + i = unat (rel_sec base' s') * 8192 + j"
    using assms(3) by (simp add: word_unat_eq_iff unat_time_key assms(1,2))
  then have "(unat (rel_sec base s) * 8192 + i) mod 8192 = (unat (rel_sec base' s') * 8192 + j) mod 8192" by simp
  then show ?thesis using assms(1,2) by simp
qed

lemma stale_time_key_rel: "stale_time_key t cutoff = push_bit 13 (rel_sec (base_epoch_sec t) cutoff) OR 0x1FFF"
  by (simp add: stale_time_key_def rel_sec_def TIME_KEY_SHIFT_def SLAB_IDX_MASK_def Let_def)

lemma time_key_stale:
  assumes "i < 8192"
  shows "make_time_key s (base_epoch_sec t) (of_nat i) \<le> stale_time_key t cutoff \<longleftrightarrow>
    rel_sec (base_epoch_sec t) s \<le> rel_sec (base_epoch_sec t) cutoff"
proof -
  have "unat (stale_time_key t cutoff) = unat (rel_sec (base_epoch_sec t) cutoff) * 8192 + 8191"
    using unat_time_word [OF rel_sec_bound, of "0x1FFF"] by (simp add: stale_time_key_rel)
  then show ?thesis using assms by (simp add: word_le_nat_alt unat_time_key) linarith
qed

section \<open>The invariant\<close>

definition acts :: "ble_tracker \<Rightarrow> nat set" where
  "acts t = {i. i < max_capacity t \<and> bit (active_bitmap t ! (i div 32)) (i mod 32)}"

definition hash_of :: "ble_tracker \<Rightarrow> nat \<Rightarrow> u32" where
  "hash_of t i = fnv1a_32 (mac (slab t ! i)) 6"

definition time_key :: "ble_tracker \<Rightarrow> nat \<Rightarrow> u32" where
  "time_key t i = make_time_key (mono_last_seen_sec t ! i) (base_epoch_sec t) (of_nat i)"

definition free_list :: "ble_tracker \<Rightarrow> nat list" where
  "free_list t = take (unat (free_count t)) (map unat (free_indices t))"

definition ble_shape :: "ble_tracker \<Rightarrow> bool" where
  "ble_shape t \<longleftrightarrow> 0 < max_capacity t \<and> max_capacity t \<le> EXPANSE_BLE_MAX_CAPACITY \<and>
     length (slab t) = max_capacity t \<and> length (mono_last_seen_sec t) = max_capacity t \<and>
     length (free_indices t) = max_capacity t \<and> length (active_bitmap t) = (max_capacity t + 31) div 32"

text \<open>Everything but the time index, as it holds while expired slots are released.\<close>

definition ble_core :: "ble_tracker \<Rightarrow> bool" where
  "ble_core t \<longleftrightarrow> ble_shape t \<and> map_ok (by_mac t) \<and> indexes (map_abs (by_mac t)) (hash_of t) (acts t) \<and>
     unat (trk_count t) = card (acts t) \<and> unat (free_count t) \<le> max_capacity t \<and>
     distinct (free_list t) \<and> set (free_list t) = {..<max_capacity t} - acts t"

definition ble_ok :: "ble_tracker \<Rightarrow> bool" where
  "ble_ok t \<longleftrightarrow> ble_core t \<and> map_ok (by_time t) \<and> indexes (map_abs (by_time t)) (time_key t) (acts t)"

text \<open>The tracked devices: the records of the active slots with the second they were last seen at.\<close>

definition devices :: "ble_tracker \<Rightarrow> (ble_record \<times> u32) set" where
  "devices t = (\<lambda>i. (slab t ! i, mono_last_seen_sec t ! i)) ` acts t"

lemma shape_bounds:
  assumes "ble_shape t" and "i < max_capacity t"
  shows "i < 8192" and "i < length (slab t)" and "i < length (mono_last_seen_sec t)" and "i < length (free_indices t)"
    and "i div 32 < length (active_bitmap t)"
  using assms by (auto simp: ble_shape_def EXPANSE_BLE_MAX_CAPACITY_def)

lemma acts_less: "i \<in> acts t \<Longrightarrow> i < max_capacity t"
  by (simp add: acts_def)

lemma acts_small: "ble_shape t \<Longrightarrow> acts t \<subseteq> {..<8192}"
  using shape_bounds(1) by (auto simp: acts_def)

lemma finite_acts [simp]: "finite (acts t)"
  by (simp add: acts_def)

lemma is_slot_active_eq: "ble_shape t \<Longrightarrow> i < max_capacity t \<Longrightarrow> is_slot_active t i = Some (i \<in> acts t)"
  by (simp add: is_slot_active_def shape_bounds acts_def bit_iff_and_push_bit_not_eq_0)

lemma bitmap_bit: "i div 32 = j div 32 \<Longrightarrow> j mod 32 = i mod 32 \<Longrightarrow> j = i" for i j :: nat
  by (metis div_mult_mod_eq)

lemma bit_single: "n < 32 \<Longrightarrow> bit (2 ^ m :: u32) n \<longleftrightarrow> n = m"
  by (auto simp: bit_exp_iff)

lemma set_slot_active_eq:
  assumes "ble_shape t" and "i < max_capacity t"
  shows "\<exists>bm. set_slot_active t i = Some (t\<lparr>active_bitmap := bm\<rparr>) \<and> length bm = length (active_bitmap t) \<and>
    acts (t\<lparr>active_bitmap := bm\<rparr>) = insert i (acts t)"
proof -
  let ?bm = "(active_bitmap t)[i div 32 := active_bitmap t ! (i div 32) OR push_bit (i mod 32) 1]"
  note b = shape_bounds [OF assms]
  have "acts (t\<lparr>active_bitmap := ?bm\<rparr>) = insert i (acts t)"
    using assms(2) b(5) by (auto dest: bitmap_bit simp: acts_def nth_list_update bit_or_iff bit_single split: if_splits)
  then show ?thesis using b(5) by (auto simp: set_slot_active_def)
qed

lemma clear_slot_active_eq:
  assumes "ble_shape t" and "i < max_capacity t"
  shows "\<exists>bm. clear_slot_active t i = Some (t\<lparr>active_bitmap := bm\<rparr>) \<and> length bm = length (active_bitmap t) \<and>
    acts (t\<lparr>active_bitmap := bm\<rparr>) = acts t - {i}"
proof -
  let ?bm = "(active_bitmap t)[i div 32 := active_bitmap t ! (i div 32) AND NOT (push_bit (i mod 32) 1)]"
  note b = shape_bounds [OF assms]
  have "acts (t\<lparr>active_bitmap := ?bm\<rparr>) = acts t - {i}"
    using assms(2) b(5)
    by (auto dest: bitmap_bit simp: acts_def nth_list_update bit_and_iff bit_not_iff bit_single split: if_splits)
  then show ?thesis using b(5) by (auto simp: clear_slot_active_def)
qed

section \<open>Releasing a slot\<close>

definition frame :: "ble_tracker \<Rightarrow> ble_tracker \<Rightarrow> bool" where
  "frame t t' \<longleftrightarrow> (\<exists>m bm fi fc n. t' = t\<lparr>by_mac := m, active_bitmap := bm, free_indices := fi, free_count := fc, trk_count := n\<rparr>)"

lemma core_card: "ble_core t \<Longrightarrow> unat (free_count t) + card (acts t) = max_capacity t"
proof -
  assume c: "ble_core t"
  then have "length (free_list t) = card ({..<max_capacity t} - acts t)"
    by (metis ble_core_def distinct_card)
  also have "\<dots> = max_capacity t - card (acts t)"
    using acts_less by (subst card_Diff_subset) auto
  finally have "length (free_list t) = max_capacity t - card (acts t)" .
  moreover have "length (free_list t) = unat (free_count t)" using c by (simp add: free_list_def ble_core_def ble_shape_def)
  moreover have "card (acts t) \<le> card {..<max_capacity t}" using acts_less by (intro card_mono) auto
  ultimately show ?thesis by simp
qed

lemma release_slot_ok:
  assumes core: "ble_core t" and i: "i \<in> acts t"
  shows "\<exists>t'. release_slot (t\<lparr>by_mac := fst (expanse_map_remove (by_mac t) (hash_of t i))\<rparr>) (of_nat i) = Some t' \<and>
    ble_core t' \<and> acts t' = acts t - {i} \<and> frame t t'"
proof -
  let ?t0 = "t\<lparr>by_mac := fst (expanse_map_remove (by_mac t) (hash_of t i))\<rparr>"
  have sh: "ble_shape t" using core by (simp add: ble_core_def)
  have il: "i < max_capacity t" using i by (rule acts_less)
  note b = shape_bounds [OF sh il]
  have sh0: "ble_shape ?t0" "acts ?t0 = acts t" using sh by (simp_all add: ble_shape_def acts_def)
  obtain bm where bm: "clear_slot_active ?t0 i = Some (?t0\<lparr>active_bitmap := bm\<rparr>)" "length bm = length (active_bitmap t)"
    "acts (?t0\<lparr>active_bitmap := bm\<rparr>) = acts t - {i}"
    using clear_slot_active_eq [OF sh0(1), of i] il sh0(2) by auto
  have fc: "unat (free_count t) < max_capacity t"
  proof -
    have "0 < card (acts t)" using i by (auto simp: card_gt_0_iff)
    then show ?thesis using core_card [OF core] by linarith
  qed
  let ?fi = "(free_indices t)[unat (free_count t) := of_nat i]"
  let ?t' = "t\<lparr>by_mac := fst (expanse_map_remove (by_mac t) (hash_of t i)), active_bitmap := bm, free_indices := ?fi,
      free_count := free_count t + 1, trk_count := trk_count t - 1\<rparr>"
  have cap: "max_capacity t \<le> 8192" "length (free_indices t) = max_capacity t"
    using sh by (simp_all add: ble_shape_def EXPANSE_BLE_MAX_CAPACITY_def)
  have fc': "unat (free_count t + 1) = unat (free_count t) + 1"
    using fc cap unat_add_lem [of "free_count t" 1] by simp
  have eq: "release_slot ?t0 (of_nat i) = Some ?t'"
    using bm(1) fc cap(2) b(1) by (simp add: release_slot_def small_slot)
  have acts': "acts ?t' = acts t - {i}" using bm(3) by (simp add: acts_def)
  have fl: "free_list ?t' = free_list t @ [i]"
    using fc cap b(1) by (simp add: free_list_def fc' take_Suc_conv_app_nth map_update small_slot)
  have "unat (trk_count t - 1) = card (acts t - {i})"
  proof -
    have n: "unat (trk_count t) = card (acts t)" using core by (simp add: ble_core_def)
    moreover have "0 < card (acts t)" using i by (auto simp: card_gt_0_iff)
    ultimately have "1 \<le> trk_count t" by (simp add: word_le_nat_alt)
    then show ?thesis using n i by (simp add: unat_sub)
  qed
  moreover have "indexes (map_abs (by_mac ?t')) (hash_of ?t') (acts ?t')"
  proof -
    have "hash_of ?t' = hash_of t" by (simp add: hash_of_def fun_eq_iff)
    moreover have "map_ok (by_mac t)" "indexes (map_abs (by_mac t)) (hash_of t) (acts t)" using core by (simp_all add: ble_core_def)
    ultimately show ?thesis using indexes_remove [OF _ acts_small [OF sh] i] acts' by (simp add: map_abs_ops)
  qed
  moreover have "distinct (free_list ?t') \<and> set (free_list ?t') = {..<max_capacity t} - (acts t - {i})"
    unfolding fl using core i il by (auto simp: ble_core_def)
  ultimately have "ble_core ?t'"
    using core acts' fc fc' bm(2) by (auto simp: ble_core_def ble_shape_def map_abs_ops)
  then show ?thesis using eq acts' unfolding frame_def by blast
qed

section \<open>Lookup and removal\<close>

lemma lock_irrelevant [simp]:
  "acts (t\<lparr>trk_lock := n\<rparr>) = acts t" "hash_of (t\<lparr>trk_lock := n\<rparr>) = hash_of t" "time_key (t\<lparr>trk_lock := n\<rparr>) = time_key t"
  "ble_shape (t\<lparr>trk_lock := n\<rparr>) = ble_shape t" "free_list (t\<lparr>trk_lock := n\<rparr>) = free_list t"
  "ble_core (t\<lparr>trk_lock := n\<rparr>) = ble_core t" "ble_ok (t\<lparr>trk_lock := n\<rparr>) = ble_ok t" "devices (t\<lparr>trk_lock := n\<rparr>) = devices t"
proof -
  show a: "acts (t\<lparr>trk_lock := n\<rparr>) = acts t" and h: "hash_of (t\<lparr>trk_lock := n\<rparr>) = hash_of t"
    and k: "time_key (t\<lparr>trk_lock := n\<rparr>) = time_key t" and s: "ble_shape (t\<lparr>trk_lock := n\<rparr>) = ble_shape t"
    and f: "free_list (t\<lparr>trk_lock := n\<rparr>) = free_list t"
    by (simp_all add: acts_def hash_of_def time_key_def ble_shape_def free_list_def fun_eq_iff)
  show c: "ble_core (t\<lparr>trk_lock := n\<rparr>) = ble_core t" by (simp add: ble_core_def a h s f)
  show "ble_ok (t\<lparr>trk_lock := n\<rparr>) = ble_ok t" by (simp add: ble_ok_def a c k)
  show "devices (t\<lparr>trk_lock := n\<rparr>) = devices t" by (simp add: devices_def a)
qed

lemma time_irrelevant [simp]:
  "acts (t\<lparr>by_time := m\<rparr>) = acts t" "hash_of (t\<lparr>by_time := m\<rparr>) = hash_of t" "time_key (t\<lparr>by_time := m\<rparr>) = time_key t"
  "ble_core (t\<lparr>by_time := m\<rparr>) = ble_core t" "devices (t\<lparr>by_time := m\<rparr>) = devices t"
proof -
  show a: "acts (t\<lparr>by_time := m\<rparr>) = acts t" and h: "hash_of (t\<lparr>by_time := m\<rparr>) = hash_of t"
    and k: "time_key (t\<lparr>by_time := m\<rparr>) = time_key t"
    by (simp_all add: acts_def hash_of_def time_key_def fun_eq_iff)
  show "ble_core (t\<lparr>by_time := m\<rparr>) = ble_core t" by (simp add: ble_core_def a h ble_shape_def free_list_def)
  show "devices (t\<lparr>by_time := m\<rparr>) = devices t" by (simp add: devices_def a)
qed

lemma take_sel [simp]:
  "by_mac (TRK_TAKE t) = by_mac t" "by_time (TRK_TAKE t) = by_time t" "slab (TRK_TAKE t) = slab t"
  "mono_last_seen_sec (TRK_TAKE t) = mono_last_seen_sec t" "active_bitmap (TRK_TAKE t) = active_bitmap t"
  "base_epoch_sec (TRK_TAKE t) = base_epoch_sec t" "trk_count (TRK_TAKE t) = trk_count t"
  by (simp_all add: TRK_TAKE_def)

lemma give_take [simp]: "TRK_GIVE (TRK_TAKE t) = t"
  by (simp add: TRK_TAKE_def TRK_GIVE_def)

lemma fnv_mac: "take 6 m = take 6 m' \<Longrightarrow> fnv1a_32 m 6 = fnv1a_32 m' 6"
  by (simp add: fnv1a_32_def)

definition same_mac :: "ble_record \<Rightarrow> u8 list \<Rightarrow> bool" where
  "same_mac e m \<longleftrightarrow> take 6 (mac e) = take 6 m"

lemma same_mac_hash: "same_mac (slab t ! i) m \<Longrightarrow> hash_of t i = fnv1a_32 m 6"
  unfolding hash_of_def same_mac_def by (rule fnv_mac)

lemma mac_slot_unique:
  assumes "ble_core t" and "i \<in> acts t" and "j \<in> acts t" and "same_mac (slab t ! i) m" and "same_mac (slab t ! j) m"
  shows "i = j"
proof -
  have "hash_of t i = hash_of t j" using assms(4,5) same_mac_hash by simp
  moreover have "ble_shape t" "indexes (map_abs (by_mac t)) (hash_of t) (acts t)" using assms(1) by (simp_all add: ble_core_def)
  ultimately show ?thesis using indexes_inj [OF _ acts_small assms(2,3)] by simp
qed

lemma mac_slot_iff:
  assumes "ble_core t" and "i \<in> acts t" and "same_mac (slab t ! i) m" and "j \<in> acts t"
  shows "same_mac (slab t ! j) m \<longleftrightarrow> j = i"
  using mac_slot_unique [OF assms(1,4,2)] assms(3) by blast

lemma ble_lookup_ok:
  assumes core: "ble_core t"
  shows "\<exists>r. ble_lookup t m = Some r \<and>
    (case r of None \<Rightarrow> \<forall>i\<in>acts t. \<not> same_mac (slab t ! i) m
     | Some (idx, e) \<Rightarrow> \<exists>i\<in>acts t. idx = of_nat i \<and> e = slab t ! i \<and> same_mac e m)"
proof -
  have sh: "ble_shape t" and ok: "map_ok (by_mac t)" and ix: "indexes (map_abs (by_mac t)) (hash_of t) (acts t)"
    using core by (simp_all add: ble_core_def)
  let ?h = "fnv1a_32 m 6"
  note hash = same_mac_hash [of t _ m]
  show ?thesis
  proof (cases "map_abs (by_mac t) ?h")
    case None
    then have "\<forall>i\<in>acts t. \<not> same_mac (slab t ! i) m" using hash indexes_None [OF ix] by force
    then show ?thesis using None by (simp add: ble_lookup_def map_abs_ops [OF ok])
  next
    case (Some w)
    then obtain i where i: "i \<in> acts t" "?h = hash_of t i" "w = of_nat i" using indexes_SomeD [OF ix] by blast
    note b = shape_bounds [OF sh acts_less [OF i(1)]]
    have eq: "ble_lookup t m = Some (if memcmp6 (mac (slab t ! i)) m then None else Some (of_nat i, slab t ! i))"
      using Some i b by (simp add: ble_lookup_def map_abs_ops [OF ok] slot_cast small_slot is_slot_active_eq [OF sh] acts_less)
    have "\<not> same_mac (slab t ! j) m" if "\<not> same_mac (slab t ! i) m" "j \<in> acts t" for j
      using indexes_inj [OF ix acts_small [OF sh] that(2) i(1)] hash [of j] i(2) that(1) by auto
    moreover have "memcmp6 (mac (slab t ! i)) m \<longleftrightarrow> \<not> same_mac (slab t ! i) m" by (simp add: memcmp6_def same_mac_def)
    ultimately show ?thesis unfolding eq using i(1) by auto
  qed
qed

lemma ble_lookup_TAKE: "ble_lookup (TRK_TAKE t) m = ble_lookup t m"
  unfolding ble_lookup_def is_slot_active_def take_sel ..

lemma devices_frame: "frame t t' \<Longrightarrow> devices t' = (\<lambda>i. (slab t ! i, mono_last_seen_sec t ! i)) ` acts t'"
  by (auto simp: frame_def devices_def)

lemma devices_mac:
  assumes "ble_core t" and "i \<in> acts t" and "same_mac (slab t ! i) m"
  shows "(\<lambda>i. (slab t ! i, mono_last_seen_sec t ! i)) ` (acts t - {i}) = {d \<in> devices t. \<not> same_mac (fst d) m}"
  using mac_slot_iff [OF assms] by (auto simp: devices_def)

lemma ble_get_ok:
  assumes "ble_core t"
  shows "\<exists>r. expanse_ble_tracker_get (Some t) (Some m) = Some (Some t, r) \<and>
    (\<forall>e. r = Some e \<longleftrightarrow> (\<exists>s. (e, s) \<in> devices t \<and> same_mac e m))"
proof -
  obtain r where r: "ble_lookup t m = Some r" "case r of None \<Rightarrow> \<forall>i\<in>acts t. \<not> same_mac (slab t ! i) m
     | Some (idx, e) \<Rightarrow> \<exists>i\<in>acts t. idx = of_nat i \<and> e = slab t ! i \<and> same_mac e m"
    using ble_lookup_ok [OF assms] by blast
  have "map_option snd r = Some e \<longleftrightarrow> (\<exists>s. (e, s) \<in> devices t \<and> same_mac e m)" for e
    using r(2) mac_slot_unique [OF assms, of _ _ m]
    by (cases r) (auto simp: devices_def image_iff, blast+)
  then show ?thesis using r(1) by (simp add: expanse_ble_tracker_get_def ble_lookup_TAKE)
qed

lemma ble_remove_ok:
  assumes ok: "ble_ok t"
  shows "\<exists>t' r. expanse_ble_tracker_remove (Some t) (Some m) = Some (Some t', r) \<and> ble_ok t' \<and>
    devices t' = {d \<in> devices t. \<not> same_mac (fst d) m} \<and> trk_lock t' = trk_lock t \<and>
    (\<forall>e. r = Some e \<longleftrightarrow> (\<exists>s. (e, s) \<in> devices t \<and> same_mac e m)) \<and>
    max_capacity t' = max_capacity t \<and> base_epoch_sec t' = base_epoch_sec t"
proof -
  have core: "ble_core t" and mo: "map_ok (by_time t)" and ix: "indexes (map_abs (by_time t)) (time_key t) (acts t)"
    using ok by (simp_all add: ble_ok_def)
  have sh: "ble_shape t" using core by (simp add: ble_core_def)
  obtain r where r: "ble_lookup t m = Some r" "case r of None \<Rightarrow> \<forall>i\<in>acts t. \<not> same_mac (slab t ! i) m
     | Some (idx, e) \<Rightarrow> \<exists>i\<in>acts t. idx = of_nat i \<and> e = slab t ! i \<and> same_mac e m"
    using ble_lookup_ok [OF core] by blast
  show ?thesis
  proof (cases r)
    case None
    then have "\<not> same_mac (fst d) m" if "d \<in> devices t" for d using r(2) that by (auto simp: devices_def)
    then show ?thesis using None r(1) ok by (auto simp: expanse_ble_tracker_remove_def ble_lookup_TAKE)
  next
    case (Some p)
    then obtain i where i: "p = (of_nat i, slab t ! i)" "i \<in> acts t" "same_mac (slab t ! i) m"
      using r(2) by (cases p) auto
    note b = shape_bounds [OF sh acts_less [OF i(2)]]
    have h: "fnv1a_32 m 6 = hash_of t i" using same_mac_hash [OF i(3)] by simp
    let ?t3 = "(TRK_TAKE t)\<lparr>by_time := fst (expanse_map_remove (by_time t) (time_key t i))\<rparr>"
    have c3: "ble_core ?t3" "i \<in> acts ?t3" "hash_of ?t3 = hash_of t" using core i(2) by (simp_all add: TRK_TAKE_def)
    obtain t4 where t4: "release_slot (?t3\<lparr>by_mac := fst (expanse_map_remove (by_mac ?t3) (hash_of ?t3 i))\<rparr>) (of_nat i) = Some t4"
      "ble_core t4" "acts t4 = acts ?t3 - {i}" "frame ?t3 t4"
      using release_slot_ok [OF c3(1,2)] by blast
    have eq: "expanse_ble_tracker_remove (Some t) (Some m) = Some (Some (TRK_GIVE t4), Some (slab t ! i))"
    proof -
      have "ble_lookup (TRK_TAKE t) m = Some (Some (of_nat i, slab t ! i))" using r(1) Some i(1) by (simp add: ble_lookup_TAKE)
      moreover have "rd (mono_last_seen_sec (TRK_TAKE t)) (unat (of_nat i :: u16)) = Some (mono_last_seen_sec t ! i)"
        using b by (simp add: small_slot TRK_TAKE_def)
      moreover have "(TRK_TAKE t)\<lparr>by_mac := fst (expanse_map_remove (by_mac (TRK_TAKE t)) (fnv1a_32 m 6)),
            by_time := fst (expanse_map_remove (by_time (TRK_TAKE t)) (make_time_key (mono_last_seen_sec t ! i) (base_epoch_sec (TRK_TAKE t)) (of_nat i)))\<rparr>
          = ?t3\<lparr>by_mac := fst (expanse_map_remove (by_mac ?t3) (hash_of ?t3 i))\<rparr>"
        by (simp add: h time_key_def TRK_TAKE_def)
      ultimately show ?thesis using t4(1) by (simp add: expanse_ble_tracker_remove_def)
    qed
    have dev: "devices t4 = {d \<in> devices t. \<not> same_mac (fst d) m}"
      using devices_frame [OF t4(4)] t4(3) devices_mac [OF core i(2,3)] by (simp add: TRK_TAKE_def)
    have fr: "by_time t4 = fst (expanse_map_remove (by_time t) (time_key t i))" "time_key t4 = time_key t"
      "trk_lock t4 = trk_lock t + 1" "max_capacity t4 = max_capacity t" "base_epoch_sec t4 = base_epoch_sec t"
      using t4(4) by (auto simp: frame_def time_key_def fun_eq_iff TRK_TAKE_def)
    have "ble_ok t4"
      using t4(2,3) indexes_remove [OF ix acts_small [OF sh] i(2)] mo by (simp add: ble_ok_def fr map_abs_ops TRK_TAKE_def)
    moreover have "(Some (slab t ! i) = Some e) = (\<exists>s. (e, s) \<in> devices t \<and> same_mac e m)" for e
      using i(2,3) mac_slot_iff [OF core i(2,3)] by (auto simp: devices_def)
    ultimately show ?thesis
      using eq dev fr by (intro exI [of _ "TRK_GIVE t4"] exI [of _ "Some (slab t ! i)"]) (simp add: TRK_GIVE_def)
  qed
qed

section \<open>Expiry\<close>

lemma unwrap_ex: "\<exists>off. fst (unwrap_mono_ms t raw) = t\<lparr>last_raw_ms := raw, mono_offset_ms := off\<rparr>"
  by (rule exI [of _ "mono_offset_ms (fst (unwrap_mono_ms t raw))"]) (simp add: unwrap_mono_ms_def Let_def)

lemma clock_irrelevant [simp]:
  "acts (t\<lparr>last_raw_ms := r, mono_offset_ms := n\<rparr>) = acts t" "hash_of (t\<lparr>last_raw_ms := r, mono_offset_ms := n\<rparr>) = hash_of t"
  "time_key (t\<lparr>last_raw_ms := r, mono_offset_ms := n\<rparr>) = time_key t"
  "ble_core (t\<lparr>last_raw_ms := r, mono_offset_ms := n\<rparr>) = ble_core t" "ble_ok (t\<lparr>last_raw_ms := r, mono_offset_ms := n\<rparr>) = ble_ok t"
  "devices (t\<lparr>last_raw_ms := r, mono_offset_ms := n\<rparr>) = devices t"
proof -
  let ?t = "t\<lparr>last_raw_ms := r, mono_offset_ms := n\<rparr>"
  show a: "acts ?t = acts t" and h: "hash_of ?t = hash_of t" and k: "time_key ?t = time_key t"
    by (simp_all add: acts_def hash_of_def time_key_def fun_eq_iff)
  show c: "ble_core ?t = ble_core t" by (simp add: ble_core_def a h ble_shape_def free_list_def)
  show "ble_ok ?t = ble_ok t" by (simp add: ble_ok_def a c k)
  show "devices ?t = devices t" by (simp add: devices_def a)
qed

lemma unwrap_TAKE:
  "unwrap_mono_ms (TRK_TAKE t) raw = (TRK_TAKE (fst (unwrap_mono_ms t raw)), snd (unwrap_mono_ms t raw))"
  by (simp add: unwrap_mono_ms_def TRK_TAKE_def Let_def)

text \<open>The second a raw timestamp stands for.\<close>

definition mono_sec_of :: "ble_tracker \<Rightarrow> u32 \<Rightarrow> u32" where
  "mono_sec_of t raw = ucast (snd (unwrap_mono_ms t raw) div 1000)"

lemma frame_trans: "frame t t' \<Longrightarrow> frame t' t'' \<Longrightarrow> frame t t''"
  by (fastforce simp: frame_def)

lemma frame_refl: "frame t t"
  unfolding frame_def by (rule exI [of _ "by_mac t"], rule exI [of _ "active_bitmap t"], rule exI [of _ "free_indices t"],
    rule exI [of _ "free_count t"], rule exI [of _ "trk_count t"]) simp

lemma expire_slot_ok:
  assumes "ble_core t" and "i \<in> acts t"
  shows "\<exists>t'. expire_slot t (of_nat i) = Some t' \<and> ble_core t' \<and> acts t' = acts t - {i} \<and> frame t t'"
proof -
  have "ble_shape t" using assms(1) by (simp add: ble_core_def)
  note b = shape_bounds [OF this acts_less [OF assms(2)]]
  show ?thesis using release_slot_ok [OF assms] b by (simp add: expire_slot_def small_slot hash_of_def)
qed

lemma expire_fold:
  assumes "ble_core t" and "\<forall>p\<in>set xs. \<exists>i\<in>acts t. snd p = of_nat i" and "distinct (map snd xs)"
  shows "\<exists>t'. fold (\<lambda>p. expire_one (fst p) (snd p)) xs (Some t) = Some t' \<and> ble_core t' \<and> frame t t' \<and>
    acts t' = {i \<in> acts t. of_nat i \<notin> snd ` set xs}"
  using assms
proof (induction xs arbitrary: t)
  case Nil
  then show ?case by (auto intro: frame_refl)
next
  case (Cons p xs)
  then obtain i where i: "i \<in> acts t" "snd p = of_nat i" by auto
  have small: "j < 8192" if "j \<in> acts t" for j
    using that acts_small [of t] Cons.prems(1) by (auto simp: ble_core_def)
  obtain t1 where t1: "expire_slot t (of_nat i) = Some t1" "ble_core t1" "acts t1 = acts t - {i}" "frame t t1"
    using expire_slot_ok [OF Cons.prems(1) i(1)] by blast
  have one: "expire_one (fst p) (snd p) (Some t) = Some t1"
    using t1(1) small [OF i(1)] by (simp add: expire_one_def i(2) slot_cast)
  have "\<exists>j\<in>acts t1. snd q = of_nat j" if q: "q \<in> set xs" for q
  proof -
    obtain j where j: "j \<in> acts t" "snd q = of_nat j" using Cons.prems(2) q by auto
    have "snd q \<in> snd ` set xs" using q by simp
    then have "snd q \<noteq> snd p" using Cons.prems(3) by (metis distinct.simps(2) list.simps(9) set_map)
    then have "j \<noteq> i" using j(2) i(2) by auto
    then show ?thesis using j t1(3) by blast
  qed
  moreover have "distinct (map snd xs)" using Cons.prems(3) by simp
  ultimately obtain t' where t': "fold (\<lambda>p. expire_one (fst p) (snd p)) xs (Some t1) = Some t'" "ble_core t'" "frame t1 t'"
      "acts t' = {i \<in> acts t1. of_nat i \<notin> snd ` set xs}"
    using Cons.IH [OF t1(2)] by blast
  have "acts t' = {j \<in> acts t. of_nat j \<notin> snd ` set (p # xs)}"
    using t'(4) t1(3) i small slot_inj by (auto 0 3)
  then show ?case using t' one frame_trans [OF t1(4)] by auto
qed

lemma inj_devices: "ble_core t \<Longrightarrow> inj_on (\<lambda>i. (slab t ! i, mono_last_seen_sec t ! i)) (acts t)"
proof (rule inj_onI)
  fix i j
  assume c: "ble_core t" and ij: "i \<in> acts t" "j \<in> acts t"
    and "(slab t ! i, mono_last_seen_sec t ! i) = (slab t ! j, mono_last_seen_sec t ! j)"
  then have "same_mac (slab t ! i) (mac (slab t ! i))" "same_mac (slab t ! j) (mac (slab t ! i))" by (simp_all add: same_mac_def)
  then show "i = j" using mac_slot_unique [OF c ij] by blast
qed

lemma card_devices: "ble_core t \<Longrightarrow> card {d \<in> devices t. P (snd d)} = card {i \<in> acts t. P (mono_last_seen_sec t ! i)}"
proof -
  assume c: "ble_core t"
  have "{d \<in> devices t. P (snd d)} = (\<lambda>i. (slab t ! i, mono_last_seen_sec t ! i)) ` {i \<in> acts t. P (mono_last_seen_sec t ! i)}"
    by (auto simp: devices_def)
  then show ?thesis using card_image inj_on_subset [OF inj_devices [OF c]] by (metis (no_types, lifting) mem_Collect_eq subsetI)
qed

text \<open>The slots of the entries of the time index up to a key.\<close>

lemma stale_entries:
  assumes "map_ok h" and "indexes (map_abs h) key A" and "A \<subseteq> {..<8192}"
  shows "\<forall>p\<in>set (al_range 0 mx (map_ents h)). \<exists>i\<in>A. snd p = of_nat i"
    and "distinct (map snd (al_range 0 mx (map_ents h)))"
    and "{i \<in> A. of_nat i \<notin> snd ` set (al_range 0 mx (map_ents h))} = {i \<in> A. \<not> key i \<le> mx}"
    and "length (al_range 0 mx (map_ents h)) = card {i \<in> A. key i \<le> mx}"
proof -
  let ?xs = "al_range 0 mx (map_ents h)"
  have asc: "asc (map_ents h)" by (rule emap.asc_ents [OF assms(1)])
  have mem: "(k, w) \<in> set ?xs \<longleftrightarrow> k \<le> mx \<and> (\<exists>i\<in>A. k = key i \<and> w = of_nat i)" for k w
  proof -
    have "(k, w) \<in> set (map_ents h) \<longleftrightarrow> map_abs h k = Some w"
      using asc_distinct [OF asc] by (simp add: map_abs_def)
    then show ?thesis using assms(2) by (auto simp: al_range_def indexes_def)
  qed
  then show "\<forall>p\<in>set ?xs. \<exists>i\<in>A. snd p = of_nat i" by fastforce
  have uniq: "i = j" if "i \<in> A" "j \<in> A" "(of_nat i :: u32) = of_nat j" for i j
    using that assms(3) slot_inj by blast
  have inj: "inj_on snd (set ?xs)"
    using mem by (auto intro!: inj_onI dest: uniq)
  then show d: "distinct (map snd ?xs)"
    using asc_distinct [OF asc_al_range [OF asc]] by (simp add: distinct_map)
  have slots: "snd ` set ?xs = of_nat ` {i \<in> A. key i \<le> mx}"
    using mem by (auto simp: image_iff) force
  then show "{i \<in> A. of_nat i \<notin> snd ` set ?xs} = {i \<in> A. \<not> key i \<le> mx}"
    using uniq by auto
  have "length ?xs = card (snd ` set ?xs)" using d distinct_card by fastforce
  also have "\<dots> = card {i \<in> A. key i \<le> mx}"
    unfolding slots using uniq by (intro card_image inj_onI) auto
  finally show "length ?xs = card {i \<in> A. key i \<le> mx}" .
qed

lemma ble_expire_ok:
  assumes ok: "ble_ok t"
  shows "\<exists>t' n. expanse_ble_tracker_expire_stale (Some t) raw = Some (Some t', n) \<and> ble_ok t' \<and>
    devices t' = {d \<in> devices t. rel_sec (base_epoch_sec t) (mono_sec_of t raw) < rel_sec (base_epoch_sec t) (snd d)} \<and>
    n = card (devices t - devices t') \<and> trk_lock t' = trk_lock t \<and>
    max_capacity t' = max_capacity t \<and> base_epoch_sec t' = base_epoch_sec t"
proof (cases "trk_count t = 0")
  case True
  then have "acts t = {}" using ok by (simp add: ble_ok_def ble_core_def)
  then have "devices t = {}" by (simp add: devices_def)
  then show ?thesis using True ok by (simp add: expanse_ble_tracker_expire_stale_def Let_def)
next
  case False
  let ?u = "fst (unwrap_mono_ms t raw)" and ?cs = "mono_sec_of t raw"
  let ?t2 = "TRK_TAKE ?u" and ?mx = "stale_time_key t (mono_sec_of t raw)"
  obtain off where u: "?u = t\<lparr>last_raw_ms := raw, mono_offset_ms := off\<rparr>" using unwrap_ex by blast
  have core: "ble_core t" and mo: "map_ok (by_time t)" and ix: "indexes (map_abs (by_time t)) (time_key t) (acts t)"
    using ok by (simp_all add: ble_ok_def)
  have sh: "ble_shape t" using core by (simp add: ble_core_def)
  have t2: "ble_core ?t2" "acts ?t2 = acts t"
    using core unfolding u by (simp_all add: TRK_TAKE_def)
  have mx: "stale_time_key (TRK_TAKE (t\<lparr>last_raw_ms := raw, mono_offset_ms := off\<rparr>)) ?cs = ?mx" by (simp add: stale_time_key_def)
  note st = stale_entries [OF mo ix acts_small [OF sh], of ?mx]
  obtain t3 where t3: "fold (\<lambda>p. expire_one (fst p) (snd p)) (al_range 0 ?mx (map_ents (by_time t))) (Some ?t2) = Some t3"
      "ble_core t3" "frame ?t2 t3" "acts t3 = {i \<in> acts t. \<not> time_key t i \<le> ?mx}"
    using expire_fold [OF t2(1), of "al_range 0 ?mx (map_ents (by_time t))"] st(1,2,3) t2(2) by auto
  let ?n = "length (al_range 0 ?mx (map_ents (by_time t)))"
  obtain m where rr: "expanse_map_remove_range (by_time t) 0 ?mx (Some expire_one) (Some ?t2) = (m, Some t3, ?n)"
      "map_ok m" "map_ents m = al_outside 0 ?mx (map_ents (by_time t))"
    using emap.remove_range_ok [OF mo, of 0 ?mx "Some expire_one" "Some ?t2"] t3(1)
    by (cases "expanse_map_remove_range (by_time t) 0 ?mx (Some expire_one) (Some ?t2)") simp
  let ?t' = "TRK_GIVE (t3\<lparr>by_time := m\<rparr>)"
  have eq: "expanse_ble_tracker_expire_stale (Some t) raw = Some (Some ?t', ?n)"
    using False rr(1) by (simp add: expanse_ble_tracker_expire_stale_def Let_def unwrap_TAKE u mx flip: mono_sec_of_def)
  have fr: "mono_last_seen_sec t3 = mono_last_seen_sec t" "slab t3 = slab t" "base_epoch_sec t3 = base_epoch_sec t"
      "trk_lock t3 = trk_lock t + 1" "max_capacity t3 = max_capacity t"
    using t3(3) unfolding u by (auto simp: frame_def TRK_TAKE_def)
  have cut: "time_key t i \<le> ?mx \<longleftrightarrow> \<not> rel_sec (base_epoch_sec t) ?cs < rel_sec (base_epoch_sec t) (mono_last_seen_sec t ! i)"
    if "i \<in> acts t" for i
    using time_key_stale shape_bounds(1) [OF sh acts_less [OF that]] by (simp add: time_key_def not_less)
  have "map_abs m = (\<lambda>k. if k \<le> ?mx then None else map_abs (by_time t) k)"
    by (simp add: map_abs_def rr(3) map_of_al_outside fun_eq_iff)
  moreover have "time_key t3 = time_key t" by (simp add: time_key_def fr fun_eq_iff)
  ultimately have "ble_ok ?t'"
    using t3(2,4) rr(2) indexes_filter [OF ix, of "\<lambda>k. k \<le> ?mx"] by (simp add: ble_ok_def TRK_GIVE_def)
  moreover have dev: "devices ?t' = {d \<in> devices t. rel_sec (base_epoch_sec t) ?cs < rel_sec (base_epoch_sec t) (snd d)}"
    using cut by (auto simp: TRK_GIVE_def devices_def t3(4) fr)
  moreover have "?n = card (devices t - devices ?t')"
  proof -
    have "devices t - devices ?t' = {d \<in> devices t. \<not> rel_sec (base_epoch_sec t) ?cs < rel_sec (base_epoch_sec t) (snd d)}"
      using dev by blast
    then show ?thesis using st(4) cut card_devices [OF core, of "\<lambda>s. \<not> rel_sec (base_epoch_sec t) ?cs < rel_sec (base_epoch_sec t) s"]
      by (simp cong: conj_cong)
  qed
  ultimately show ?thesis using eq fr by (simp add: TRK_GIVE_def)
qed

section \<open>Rebuilding the time index\<close>

lemma base_irrelevant [simp]:
  "acts (t\<lparr>base_epoch_sec := b\<rparr>) = acts t" "ble_core (t\<lparr>base_epoch_sec := b\<rparr>) = ble_core t"
  "devices (t\<lparr>base_epoch_sec := b\<rparr>) = devices t"
proof -
  show a: "acts (t\<lparr>base_epoch_sec := b\<rparr>) = acts t" by (simp add: acts_def)
  have "hash_of (t\<lparr>base_epoch_sec := b\<rparr>) = hash_of t" by (simp add: hash_of_def fun_eq_iff)
  then show "ble_core (t\<lparr>base_epoch_sec := b\<rparr>) = ble_core t" by (simp add: ble_core_def a ble_shape_def free_list_def)
  show "devices (t\<lparr>base_epoch_sec := b\<rparr>) = devices t" by (simp add: devices_def a)
qed

lemma time_key_slot_inj: "ble_shape t \<Longrightarrow> i < max_capacity t \<Longrightarrow> j < max_capacity t \<Longrightarrow> time_key t i = time_key t' j \<Longrightarrow> i = j"
  using time_key_inj shape_bounds(1) unfolding time_key_def by blast

lemma rebuild_by_time_ok:
  assumes core: "ble_core t" and mo: "map_ok (by_time t)"
  shows "\<exists>m. rebuild_by_time t = Some (t\<lparr>by_time := m\<rparr>) \<and> ble_ok (t\<lparr>by_time := m\<rparr>)"
proof -
  have sh: "ble_shape t" using core by (simp add: ble_core_def)
  define P where "P k s \<longleftrightarrow> (\<exists>m. s = t\<lparr>by_time := m\<rparr> \<and> map_ok m \<and> indexes (map_abs m) (time_key t) {i \<in> acts t. i < k})" for k s
  let ?body = "\<lambda>i t. do { a \<leftarrow> is_slot_active t i;
           if \<not> a then Some t
           else do { s \<leftarrow> rd (mono_last_seen_sec t) i;
                     Some (t\<lparr>by_time := fst (expanse_map_insert (by_time t)
                                (make_time_key s (base_epoch_sec t) (of_nat i)) (of_nat i))\<rparr>) } }"
  have "\<exists>s'. for_loop [0..<max_capacity t] ?body (t\<lparr>by_time := expanse_map_clear (by_time t)\<rparr>) = Some s' \<and> P (max_capacity t) s'"
  proof (rule for_loop_invariant)
    show "P 0 (t\<lparr>by_time := expanse_map_clear (by_time t)\<rparr>)"
      unfolding P_def using map_abs_ops [OF mo] indexes_empty by auto
  next
    fix i s
    assume i: "i < max_capacity t" and "P i s"
    then obtain m where m: "s = t\<lparr>by_time := m\<rparr>" "map_ok m" "indexes (map_abs m) (time_key t) {j \<in> acts t. j < i}"
      unfolding P_def by blast
    have sh': "ble_shape s" "acts s = acts t" using sh m(1) by (simp_all add: ble_shape_def)
    have act: "is_slot_active s i = Some (i \<in> acts t)" using is_slot_active_eq [OF sh'(1)] i sh'(2) m(1) by simp
    show "\<exists>s'. ?body i s = Some s' \<and> P (Suc i) s'"
    proof (cases "i \<in> acts t")
      case False
      then have "{j \<in> acts t. j < Suc i} = {j \<in> acts t. j < i}" using less_Suc_eq by auto
      then show ?thesis using act False m unfolding P_def by auto
    next
      case True
      let ?m = "fst (expanse_map_insert m (time_key t i) (of_nat i))"
      have "{j \<in> acts t. j < Suc i} = insert i {j \<in> acts t. j < i}" using True less_Suc_eq by auto
      moreover have "time_key t i \<notin> time_key t ` {j \<in> acts t. j < i}"
        using time_key_slot_inj [OF sh i] acts_less by force
      ultimately have "indexes (map_abs ?m) (time_key t) {j \<in> acts t. j < Suc i}"
        using indexes_insert [OF m(3)] by (simp add: map_abs_ops [OF m(2)])
      moreover have "?body i s = Some (t\<lparr>by_time := ?m\<rparr>)"
        using act True shape_bounds(3) [OF sh i] m(1) by (simp add: time_key_def)
      ultimately show ?thesis unfolding P_def using map_abs_ops(1) [OF m(2)] by blast
    qed
  qed
  then obtain m where m: "rebuild_by_time t = Some (t\<lparr>by_time := m\<rparr>)" "map_ok m"
      "indexes (map_abs m) (time_key t) {j \<in> acts t. j < max_capacity t}"
    unfolding P_def rebuild_by_time_def by auto
  moreover have "{j \<in> acts t. j < max_capacity t} = acts t" using acts_less by auto
  ultimately show ?thesis using core by (auto simp: ble_ok_def)
qed

lemma rebase_ok:
  assumes ok: "ble_ok t" and le: "base_epoch_sec t \<le> sec"
  shows "\<exists>m b. rebase_epoch_if_needed t sec = Some (t\<lparr>by_time := m, base_epoch_sec := b\<rparr>) \<and>
    ble_ok (t\<lparr>by_time := m, base_epoch_sec := b\<rparr>) \<and> b \<le> sec"
proof -
  let ?span = "sec - base_epoch_sec t"
  have nl: "\<not> sec < base_epoch_sec t" using le by simp
  show ?thesis
  proof (cases "?span < 400000")
    case True
    then have "rebase_epoch_if_needed t sec = Some (t\<lparr>by_time := by_time t, base_epoch_sec := base_epoch_sec t\<rparr>)"
      using nl by (simp add: rebase_epoch_if_needed_def)
    moreover have "ble_ok (t\<lparr>by_time := by_time t, base_epoch_sec := base_epoch_sec t\<rparr>)" using ok by simp
    ultimately show ?thesis using le by blast
  next
    case False
    let ?t1 = "t\<lparr>base_epoch_sec := base_epoch_sec t + (?span - 100000)\<rparr>"
    have b: "base_epoch_sec t + (?span - 100000) \<le> sec"
    proof -
      have "100000 \<le> ?span" using False by (simp add: word_less_nat_alt word_le_nat_alt)
      moreover have "unat ?span \<le> unat sec" using le by (simp add: unat_sub)
      ultimately have "100000 \<le> unat sec" by (simp add: word_le_nat_alt)
      then show ?thesis by (simp add: word_sub_le word_le_nat_alt unat_sub)
    qed
    have "ble_core ?t1" "map_ok (by_time ?t1)" using ok by (simp_all add: ble_ok_def)
    then obtain m where m: "rebuild_by_time ?t1 = Some (?t1\<lparr>by_time := m\<rparr>)" "ble_ok (?t1\<lparr>by_time := m\<rparr>)"
      using rebuild_by_time_ok by blast
    then have "rebase_epoch_if_needed t sec = Some (?t1\<lparr>by_time := m\<rparr>)"
      using nl False by (simp add: rebase_epoch_if_needed_def)
    moreover have "?t1\<lparr>by_time := m\<rparr> = t\<lparr>by_time := m, base_epoch_sec := base_epoch_sec t + (?span - 100000)\<rparr>" by simp
    ultimately show ?thesis using m(2) b by metis
  qed
qed

section \<open>Recording a sighting\<close>

lemma image_update_slot:
  assumes "i < length xs" and "i < length ys"
  shows "(\<lambda>j. (xs[i := r] ! j, ys[i := s] ! j)) ` insert i A = insert (r, s) ((\<lambda>j. (xs ! j, ys ! j)) ` (A - {i}))"
proof -
  have "(\<lambda>j. (xs[i := r] ! j, ys[i := s] ! j)) ` (A - {i}) = (\<lambda>j. (xs ! j, ys ! j)) ` (A - {i})"
    by (intro image_cong) auto
  moreover have "insert i A = insert i (A - {i})" by blast
  ultimately show ?thesis using assms by (simp only: image_insert nth_list_update_eq)
qed

text \<open>A slot moves to another time key: its old entry goes and the new one is its own.\<close>

lemma indexes_rekey:
  assumes "indexes M key A" and "A \<subseteq> {..<8192}" and "i \<in> A" and "\<And>j. j \<in> A \<Longrightarrow> j \<noteq> i \<Longrightarrow> key' j = key j \<and> key' i \<noteq> key j"
  shows "indexes (M(key i := None, key' i \<mapsto> of_nat i)) key' A"
proof -
  have "indexes (M(key i := None)) key (A - {i})" by (rule indexes_remove [OF assms(1-3)])
  then have "indexes (M(key i := None)) key' (A - {i})" using assms(4) by (subst indexes_cong [of _ key' key]) auto
  moreover have "key' i \<notin> key' ` (A - {i})" using assms(4) by force
  ultimately have "indexes (M(key i := None, key' i \<mapsto> of_nat i)) key' (insert i (A - {i}))"
    using indexes_insert [of _ key' "A - {i}" i] by blast
  then show ?thesis using assms(3) by (simp add: insert_absorb)
qed

lemma resight_ok:
  assumes ok: "ble_ok t" and i: "i \<in> acts t" and mac: "same_mac (slab t ! i) (mac rec)"
  shows "\<exists>t'. ble_resight t rec sec (of_nat i) = Some t' \<and> ble_ok t' \<and>
    devices t' = insert (rec, sec) {d \<in> devices t. \<not> same_mac (fst d) (mac rec)} \<and>
    trk_lock t' = trk_lock t \<and> max_capacity t' = max_capacity t \<and> base_epoch_sec t' = base_epoch_sec t"
proof -
  have core: "ble_core t" and mo: "map_ok (by_time t)" and ix: "indexes (map_abs (by_time t)) (time_key t) (acts t)"
    using ok by (simp_all add: ble_ok_def)
  have sh: "ble_shape t" using core by (simp add: ble_core_def)
  note b = shape_bounds [OF sh acts_less [OF i]]
  let ?m1 = "fst (expanse_map_remove (by_time t) (time_key t i))"
  let ?tk = "make_time_key sec (base_epoch_sec t) (of_nat i)"
  let ?m2 = "fst (expanse_map_insert ?m1 ?tk (of_nat i))"
  let ?t' = "t\<lparr>slab := (slab t)[i := rec], mono_last_seen_sec := (mono_last_seen_sec t)[i := sec], by_time := ?m2\<rparr>"
  have w: "(ucast (of_nat i :: u16) :: u32) = of_nat i"
    using b(1) by (simp add: word_unat_eq_iff unsigned_ucast_eq small_slot take_bit_nat_eq_self)
  have eq: "ble_resight t rec sec (of_nat i) = Some ?t'"
    using b by (simp add: ble_resight_def small_slot w flip: time_key_def)
  have a: "acts ?t' = acts t" by (simp add: acts_def)
  have h: "hash_of ?t' = hash_of t"
    using same_mac_hash [OF mac] b(2) by (auto simp: hash_of_def fun_eq_iff nth_list_update)
  have "ble_core ?t'"
    unfolding ble_core_def a h using core by (simp add: ble_core_def ble_shape_def free_list_def)
  moreover have m1: "map_ok ?m1" by (rule map_abs_ops(3) [OF mo])
  moreover have "indexes (map_abs ?m2) (time_key ?t') (acts t)"
  proof -
    have tk: "time_key ?t' i = ?tk" using b(3) by (simp add: time_key_def)
    have rk: "time_key ?t' j = time_key t j \<and> time_key ?t' i \<noteq> time_key t j" if "j \<in> acts t" "j \<noteq> i" for j
    proof
      show "time_key ?t' j = time_key t j" using that(2) by (simp add: time_key_def)
      show "time_key ?t' i \<noteq> time_key t j"
        using time_key_slot_inj [OF sh acts_less [OF that(1)] acts_less [OF i], of ?t'] that(2) by metis
    qed
    have m2: "map_abs ?m2 = (map_abs (by_time t))(time_key t i := None, time_key ?t' i \<mapsto> of_nat i)"
      unfolding tk by (simp add: map_abs_ops [OF m1] map_abs_ops [OF mo])
    show ?thesis unfolding m2 by (rule indexes_rekey [OF ix acts_small [OF sh] i]) (rule rk)
  qed
  ultimately have "ble_ok ?t'" unfolding ble_ok_def a using map_abs_ops(1) [OF m1] by simp
  moreover have "devices ?t' = insert (rec, sec) {d \<in> devices t. \<not> same_mac (fst d) (mac rec)}"
    using image_update_slot [OF b(2,3), of rec sec "acts t"] devices_mac [OF core i mac] i
    unfolding devices_def a by (simp add: insert_absorb)
  ultimately show ?thesis using eq by auto
qed

lemma new_sighting_ok:
  assumes ok: "ble_ok t" and free: "free_count t \<noteq> 0" and new: "map_abs (by_mac t) (fnv1a_32 (mac rec) 6) = None"
  shows "\<exists>t'. ble_new_sighting t rec sec (fnv1a_32 (mac rec) 6) = Some t' \<and> ble_ok t' \<and>
    devices t' = insert (rec, sec) (devices t) \<and>
    trk_lock t' = trk_lock t \<and> max_capacity t' = max_capacity t \<and> base_epoch_sec t' = base_epoch_sec t"
proof -
  let ?h = "fnv1a_32 (mac rec) 6"
  have core: "ble_core t" and mo: "map_ok (by_time t)" and ix: "indexes (map_abs (by_time t)) (time_key t) (acts t)"
    using ok by (simp_all add: ble_ok_def)
  have sh: "ble_shape t" and mm: "map_ok (by_mac t)" and mx: "indexes (map_abs (by_mac t)) (hash_of t) (acts t)"
    and fcb: "unat (free_count t) \<le> max_capacity t"
    using core by (simp_all add: ble_core_def)
  let ?fc = "free_count t - 1"
  have fc: "unat (free_count t) = Suc (unat ?fc)"
  proof -
    have "0 < unat (free_count t)" using free by (simp add: unat_gt_0)
    moreover from this have "1 \<le> free_count t" by (simp add: word_le_nat_alt)
    ultimately show ?thesis by (simp add: unat_sub)
  qed
  define i where "i = unat (free_indices t ! unat ?fc)"
  have len: "length (free_indices t) = max_capacity t" "unat ?fc < max_capacity t"
    using sh fc fcb by (simp_all add: ble_shape_def)
  have fl: "free_list t = take (unat ?fc) (map unat (free_indices t)) @ [i]"
    using len by (simp add: free_list_def fc take_Suc_conv_app_nth i_def)
  then have i: "i < max_capacity t" "i \<notin> acts t" using core by (auto simp: ble_core_def)
  note b = shape_bounds [OF sh i(1)]
  have idx: "free_indices t ! unat ?fc = of_nat i" "(ucast (of_nat i :: u16) :: u32) = of_nat i"
    using b(1) by (simp_all add: i_def word_unat_eq_iff unsigned_ucast_eq small_slot take_bit_nat_eq_self)
  let ?t1 = "t\<lparr>free_count := ?fc, slab := (slab t)[i := rec], mono_last_seen_sec := (mono_last_seen_sec t)[i := sec]\<rparr>"
  have sh1: "ble_shape ?t1" "acts ?t1 = acts t" using sh by (simp_all add: ble_shape_def acts_def)
  obtain bm where bm: "set_slot_active ?t1 i = Some (?t1\<lparr>active_bitmap := bm\<rparr>)" "length bm = length (active_bitmap t)"
    "acts (?t1\<lparr>active_bitmap := bm\<rparr>) = insert i (acts t)"
    using set_slot_active_eq [OF sh1(1), of i] i(1) sh1(2) by auto
  let ?tk = "make_time_key sec (base_epoch_sec t) (of_nat i)"
  let ?mac = "fst (expanse_map_insert (by_mac t) ?h (of_nat i))" and ?time = "fst (expanse_map_insert (by_time t) ?tk (of_nat i))"
  let ?t' = "?t1\<lparr>active_bitmap := bm, by_mac := ?mac, by_time := ?time, trk_count := trk_count t + 1\<rparr>"
  have eq: "ble_new_sighting t rec sec ?h = Some ?t'"
    using b len bm(1) by (simp add: ble_new_sighting_def idx small_slot)
  have a: "acts ?t' = insert i (acts t)" using bm(3) by (simp add: acts_def)
  have "card (insert i (acts t)) = Suc (card (acts t))" using i(2) by simp
  moreover have "unat (trk_count t + 1) = Suc (unat (trk_count t))"
  proof -
    have "card (acts t) \<le> card {..<max_capacity t}" using acts_less by (intro card_mono) auto
    then have "unat (trk_count t) \<le> 8192" using core sh by (simp add: ble_core_def ble_shape_def EXPANSE_BLE_MAX_CAPACITY_def)
    then show ?thesis using unat_add_lem [of "trk_count t" 1] by simp
  qed
  moreover have "indexes (map_abs ?mac) (hash_of ?t') (insert i (acts t))"
  proof -
    have hi: "hash_of ?t' i = ?h" using b(2) by (simp add: hash_of_def)
    have "hash_of ?t' j = hash_of t j" if "j \<in> acts t" for j
    proof -
      have "i \<noteq> j" using that i(2) by blast
      then show ?thesis by (simp add: hash_of_def)
    qed
    then have old: "indexes (map_abs (by_mac t)) (hash_of ?t') (acts t)" "hash_of ?t' i \<notin> hash_of ?t' ` acts t"
      using mx new indexes_None [OF mx] hi by (auto simp: indexes_def image_iff)
    have m: "map_abs ?mac = (map_abs (by_mac t))(hash_of ?t' i \<mapsto> of_nat i)"
      unfolding hi by (simp add: ble_sighting_def map_abs_ops [OF mm])
    show ?thesis unfolding m by (rule indexes_insert [OF old(1) i(2) old(2)])
  qed
  moreover have "free_list ?t' = take (unat ?fc) (map unat (free_indices t))" by (simp add: free_list_def)
  moreover have "distinct (free_list t)" "set (free_list t) = {..<max_capacity t} - acts t" using core by (simp_all add: ble_core_def)
  ultimately have "ble_core ?t'"
    using sh core bm(2) fc fcb fl by (auto simp: ble_core_def ble_shape_def a map_abs_ops [OF mm])
  moreover have "indexes (map_abs ?time) (time_key ?t') (insert i (acts t))"
  proof -
    have tk: "time_key ?t' i = ?tk" using b(3) by (simp add: time_key_def)
    have "time_key ?t' j = time_key t j" if "j \<in> acts t" for j
    proof -
      have "i \<noteq> j" using that i(2) by blast
      then show ?thesis by (simp add: time_key_def)
    qed
    then have old: "indexes (map_abs (by_time t)) (time_key ?t') (acts t)" using ix by (simp add: indexes_def)
    have new: "time_key ?t' i \<notin> time_key ?t' ` acts t"
    proof
      assume "time_key ?t' i \<in> time_key ?t' ` acts t"
      then obtain j where j: "j \<in> acts t" "time_key ?t' i = time_key ?t' j" by blast
      have "ble_shape ?t'" using sh bm(2) by (simp add: ble_shape_def)
      then show False using time_key_slot_inj [OF _ _ _ j(2)] i acts_less [OF j(1)] j(1) by auto
    qed
    have m: "map_abs ?time = (map_abs (by_time t))(time_key ?t' i \<mapsto> of_nat i)"
      unfolding tk by (simp add: map_abs_ops [OF mo])
    show ?thesis unfolding m by (rule indexes_insert [OF old i(2) new])
  qed
  ultimately have "ble_ok ?t'" unfolding ble_ok_def a by (simp add: map_abs_ops [OF mo])
  moreover have "devices ?t' = insert (rec, sec) (devices t)"
    unfolding devices_def a using image_update_slot [OF b(2,3), of rec sec "acts t"] i(2) by simp
  ultimately show ?thesis using eq by auto
qed

text \<open>What a sighting does to the set of tracked devices.\<close>

definition spec_record :: "nat \<Rightarrow> (ble_record \<times> u32) set \<Rightarrow> ble_record \<Rightarrow> u32 \<Rightarrow> (ble_record \<times> u32) set \<times> ble_status" where
  "spec_record cap D rec sec =
    (if \<exists>d\<in>D. fnv1a_32 (mac (fst d)) 6 = fnv1a_32 (mac rec) 6
     then if \<exists>d\<in>D. same_mac (fst d) (mac rec)
          then (insert (rec, sec) {d \<in> D. \<not> same_mac (fst d) (mac rec)}, BLE_OK)
          else (D, BLE_ERR_COLLISION)
     else if card D = cap then (D, BLE_ERR_NOMEM)
     else (insert (rec, sec) D, BLE_OK))"

lemma card_devices_all: "ble_core t \<Longrightarrow> card (devices t) = card (acts t)"
  using card_image [OF inj_devices] by (simp add: devices_def)

lemma unwrap_ok:
  assumes "ble_ok t"
  shows "ble_ok (TRK_TAKE (fst (unwrap_mono_ms t raw)))" and "devices (TRK_TAKE (fst (unwrap_mono_ms t raw))) = devices t"
    and "base_epoch_sec (TRK_TAKE (fst (unwrap_mono_ms t raw))) = base_epoch_sec t"
    and "trk_lock (TRK_TAKE (fst (unwrap_mono_ms t raw))) = trk_lock t + 1"
    and "max_capacity (TRK_TAKE (fst (unwrap_mono_ms t raw))) = max_capacity t"
  using unwrap_ex [of t raw] assms by (auto simp: TRK_TAKE_def)

lemma sighting_cases:
  assumes ok: "ble_ok t"
  shows "(\<exists>d\<in>devices t. fnv1a_32 (mac (fst d)) 6 = h) \<longleftrightarrow> map_abs (by_mac t) h \<noteq> None"
    and "free_count t = 0 \<longleftrightarrow> card (devices t) = max_capacity t"
proof -
  have core: "ble_core t" using ok by (simp add: ble_ok_def)
  have ix: "indexes (map_abs (by_mac t)) (hash_of t) (acts t)" using core by (simp add: ble_core_def)
  show "(\<exists>d\<in>devices t. fnv1a_32 (mac (fst d)) 6 = h) \<longleftrightarrow> map_abs (by_mac t) h \<noteq> None"
    using indexes_None [OF ix, of h] by (auto simp: devices_def image_iff hash_of_def)
  have "free_count t = 0 \<longleftrightarrow> unat (free_count t) = 0" by (simp add: unat_eq_0)
  then show "free_count t = 0 \<longleftrightarrow> card (devices t) = max_capacity t"
    using core_card [OF core] card_devices_all [OF core] by linarith
qed

lemma ble_sighting_ok:
  assumes ok: "ble_ok t"
  shows "\<exists>t' st. ble_sighting t rec sec = Some (t', st) \<and> ble_ok t' \<and>
    (devices t', st) = spec_record (max_capacity t) (devices t) rec sec \<and>
    trk_lock t' = trk_lock t \<and> max_capacity t' = max_capacity t \<and> base_epoch_sec t' = base_epoch_sec t"
proof -
  have core: "ble_core t" and mm: "map_ok (by_mac t)" and sh: "ble_shape t"
    and ix: "indexes (map_abs (by_mac t)) (hash_of t) (acts t)"
    using ok by (simp_all add: ble_ok_def ble_core_def)
  let ?h = "fnv1a_32 (mac rec) 6"
  note sc = sighting_cases [OF ok]
  show ?thesis
  proof (cases "map_abs (by_mac t) ?h")
    case None
    then have none: "\<not> (\<exists>d\<in>devices t. fnv1a_32 (mac (fst d)) 6 = ?h)" using sc(1) by simp
    show ?thesis
    proof (cases "free_count t = 0")
      case True
      then show ?thesis
        using None none sc(2) ok by (intro exI [of _ t] exI [of _ BLE_ERR_NOMEM]) (simp add: ble_sighting_def map_abs_ops [OF mm] spec_record_def)
    next
      case False
      obtain t' where t': "ble_new_sighting t rec sec ?h = Some t'" "ble_ok t'" "devices t' = insert (rec, sec) (devices t)"
          "trk_lock t' = trk_lock t" "max_capacity t' = max_capacity t" "base_epoch_sec t' = base_epoch_sec t"
        using new_sighting_ok [OF ok False None] by blast
      then show ?thesis
        using None none False sc(2) by (intro exI [of _ t'] exI [of _ BLE_OK]) (simp add: ble_sighting_def map_abs_ops [OF mm] spec_record_def)
    qed
  next
    case (Some w)
    then obtain i where i: "i \<in> acts t" "?h = hash_of t i" "w = of_nat i" using indexes_SomeD [OF ix] by blast
    note b = shape_bounds [OF sh acts_less [OF i(1)]]
    have hit: "\<exists>d\<in>devices t. fnv1a_32 (mac (fst d)) 6 = ?h" using sc(1) Some by blast
    have cmp: "memcmp6 (mac (slab t ! i)) (mac rec) \<longleftrightarrow> \<not> same_mac (slab t ! i) (mac rec)" by (simp add: memcmp6_def same_mac_def)
    have other: "(\<exists>d\<in>devices t. same_mac (fst d) (mac rec)) \<longleftrightarrow> same_mac (slab t ! i) (mac rec)"
    proof
      assume "\<exists>d\<in>devices t. same_mac (fst d) (mac rec)"
      then obtain j where j: "j \<in> acts t" "same_mac (slab t ! j) (mac rec)" by (auto simp: devices_def)
      then have "j = i" using indexes_inj [OF ix acts_small [OF sh] j(1) i(1)] same_mac_hash [OF j(2)] i(2) by simp
      then show "same_mac (slab t ! i) (mac rec)" using j(2) by simp
    qed (use i(1) in \<open>auto simp: devices_def\<close>)
    show ?thesis
    proof (cases "same_mac (slab t ! i) (mac rec)")
      case False
      then show ?thesis
        using Some i(3) b hit other cmp ok
        by (intro exI [of _ t] exI [of _ BLE_ERR_COLLISION]) (simp add: ble_sighting_def map_abs_ops [OF mm] slot_cast small_slot spec_record_def)
    next
      case True
      obtain t' where t': "ble_resight t rec sec (of_nat i) = Some t'" "ble_ok t'"
          "devices t' = insert (rec, sec) {d \<in> devices t. \<not> same_mac (fst d) (mac rec)}"
          "trk_lock t' = trk_lock t" "max_capacity t' = max_capacity t" "base_epoch_sec t' = base_epoch_sec t"
        using resight_ok [OF ok i(1) True] by blast
      then show ?thesis
        using Some i(3) b hit other cmp True
        by (intro exI [of _ t'] exI [of _ BLE_OK]) (simp add: ble_sighting_def map_abs_ops [OF mm] slot_cast small_slot spec_record_def)
    qed
  qed
qed

lemma ble_record_ok:
  assumes ok: "ble_ok t" and le: "base_epoch_sec t \<le> mono_sec_of t (last_seen_ms rec)"
  shows "\<exists>t' st. expanse_ble_tracker_record (Some t) (Some rec) = Some (Some t', st) \<and> ble_ok t' \<and>
    (devices t', st) = spec_record (max_capacity t) (devices t) rec (mono_sec_of t (last_seen_ms rec)) \<and>
    trk_lock t' = trk_lock t \<and> max_capacity t' = max_capacity t \<and>
    base_epoch_sec t' \<le> mono_sec_of t (last_seen_ms rec)"
proof -
  let ?sec = "mono_sec_of t (last_seen_ms rec)" and ?t2 = "TRK_TAKE (fst (unwrap_mono_ms t (last_seen_ms rec)))"
  note u = unwrap_ok [OF ok, of "last_seen_ms rec"]
  have "base_epoch_sec ?t2 \<le> ?sec" using le u(3) by simp
  then obtain m b where mb: "rebase_epoch_if_needed ?t2 ?sec = Some (?t2\<lparr>by_time := m, base_epoch_sec := b\<rparr>)"
      "ble_ok (?t2\<lparr>by_time := m, base_epoch_sec := b\<rparr>)" "b \<le> ?sec"
    using rebase_ok [OF u(1)] by blast
  let ?t3 = "?t2\<lparr>by_time := m, base_epoch_sec := b\<rparr>"
  obtain t' st where t': "ble_sighting ?t3 rec ?sec = Some (t', st)" "ble_ok t'"
    "(devices t', st) = spec_record (max_capacity ?t3) (devices ?t3) rec ?sec"
    "trk_lock t' = trk_lock ?t3" "max_capacity t' = max_capacity ?t3" "base_epoch_sec t' = base_epoch_sec ?t3"
    using ble_sighting_ok [OF mb(2)] by blast
  have "expanse_ble_tracker_record (Some t) (Some rec) = Some (Some (TRK_GIVE t'), st)"
    using mb(1) t'(1) by (simp add: expanse_ble_tracker_record_def unwrap_TAKE Let_def flip: mono_sec_of_def)
  then show ?thesis
    using t'(2-) u mb(3) by (intro exI [of _ "TRK_GIVE t'"] exI [of _ st]) (simp add: TRK_GIVE_def)
qed

section \<open>Construction, counting and reachable trackers\<close>

lemma countdown: "map (\<lambda>i. n - 1 - i) [0..<n] = rev [0..<n]"
  by (rule nth_equalityI) (auto simp: rev_nth)

lemma ble_create_ok:
  assumes "0 < cap" and "cap \<le> EXPANSE_BLE_MAX_CAPACITY"
  shows "\<exists>t. expanse_ble_tracker_create True True True True True cap = Some t \<and> ble_ok t \<and> devices t = {} \<and>
    trk_lock t = 0 \<and> max_capacity t = cap \<and> base_epoch_sec t = 0"
proof -
  obtain t where t: "expanse_ble_tracker_create True True True True True cap = Some t" "by_mac t = expanse_map_new"
    "by_time t = expanse_map_new" "slab t = replicate cap empty_record" "mono_last_seen_sec t = replicate cap 0"
    "free_indices t = map (\<lambda>i. of_nat (cap - 1 - i)) [0..<cap]" "active_bitmap t = replicate ((cap + 31) div 32) 0"
    "free_count t = of_nat cap" "max_capacity t = cap" "trk_count t = 0" "base_epoch_sec t = 0" "trk_lock t = 0"
    using assms by (auto simp: expanse_ble_tracker_create_def expanse_map_new_def Let_def)
  have cap: "cap \<le> 8192" using assms(2) by (simp add: EXPANSE_BLE_MAX_CAPACITY_def)
  have a: "acts t = {}"
  proof -
    have "i div 32 < (cap + 31) div 32" if "i < cap" for i using that by linarith
    then show ?thesis by (auto simp: acts_def t)
  qed
  have fl: "free_list t = rev [0..<cap]"
  proof -
    have "unat (of_nat (cap - 1 - i) :: u16) = cap - 1 - i" if "i < cap" for i
      using cap that by (intro small_slot(2)) simp
    then have m: "map unat (free_indices t) = map (\<lambda>i. cap - 1 - i) [0..<cap]"
      unfolding t map_map comp_def by (intro map_cong) (simp_all only: set_upt atLeastLessThan_iff)
    have "unat (free_count t) = cap" using cap by (simp add: t(8) unat_of_nat take_bit_nat_eq_self)
    then show ?thesis by (simp only: free_list_def m countdown take_all length_rev length_upt)
  qed
  have "ble_core t"
    using assms cap fl by (auto simp: ble_core_def ble_shape_def t a indexes_empty unat_of_nat take_bit_nat_eq_self)
  then have "ble_ok t" by (simp add: ble_ok_def t a indexes_empty)
  then show ?thesis using t a by (simp add: devices_def)
qed

lemma ble_count_ok:
  assumes "ble_ok t"
  shows "\<exists>c. expanse_ble_tracker_count (Some t) = (Some t, c) \<and> unat c = card (devices t)"
proof -
  have "ble_core t" using assms by (simp add: ble_ok_def)
  then show ?thesis using card_devices_all by (simp add: expanse_ble_tracker_count_def Let_def ble_core_def)
qed

text \<open>The trackers that a sequence of calls reaches when no sighting is dated before the epoch of the time
  index. A call that is undefined, because it reads or writes outside an array, reaches nothing.\<close>

inductive ble_reach :: "ble_tracker \<Rightarrow> bool" where
  created: "expanse_ble_tracker_create True True True True True cap = Some t \<Longrightarrow> ble_reach t"
| recorded: "ble_reach t \<Longrightarrow> base_epoch_sec t \<le> mono_sec_of t (last_seen_ms rec) \<Longrightarrow>
    expanse_ble_tracker_record (Some t) (Some rec) = Some (Some t', st) \<Longrightarrow> ble_reach t'"
| looked_up: "ble_reach t \<Longrightarrow> expanse_ble_tracker_get (Some t) (Some m) = Some (Some t', r) \<Longrightarrow> ble_reach t'"
| removed: "ble_reach t \<Longrightarrow> expanse_ble_tracker_remove (Some t) (Some m) = Some (Some t', r) \<Longrightarrow> ble_reach t'"
| expired: "ble_reach t \<Longrightarrow> expanse_ble_tracker_expire_stale (Some t) cutoff = Some (Some t', n) \<Longrightarrow> ble_reach t'"
| counted: "ble_reach t \<Longrightarrow> expanse_ble_tracker_count (Some t) = (Some t', c) \<Longrightarrow> ble_reach t'"

lemma ble_reach_ok: "ble_reach t \<Longrightarrow> ble_ok t \<and> trk_lock t = 0"
proof (induction rule: ble_reach.induct)
  case (created cap t)
  then have "0 < cap \<and> cap \<le> EXPANSE_BLE_MAX_CAPACITY"
    by (simp add: expanse_ble_tracker_create_def Let_def split: if_splits)
  then obtain u where "expanse_ble_tracker_create True True True True True cap = Some u" "ble_ok u" "trk_lock u = 0"
    using ble_create_ok by blast
  then show ?case using created by simp
next
  case (recorded t rec t' st)
  then show ?case using ble_record_ok [of t rec] by auto
next
  case (looked_up t m t' r)
  then show ?case using ble_get_ok [of t m] by (auto simp: ble_ok_def)
next
  case (removed t m t' r)
  then show ?case using ble_remove_ok [of t m] by auto
next
  case (expired t cutoff t' n)
  then show ?case using ble_expire_ok [of t cutoff] by auto
next
  case (counted t t' c)
  then show ?case using ble_count_ok [of t] by auto
qed

section \<open>Properties\<close>

text \<open>C12. In every reachable state the two indexes, the liveness bitmap, the free list and the counter of the
  tracker agree and the lock is free.\<close>

theorem ble_reachable_ok: "ble_reach t \<Longrightarrow> ble_ok t \<and> trk_lock t = 0"
  by (rule ble_reach_ok)

theorem ble_reachable_ok_witness:
  "ble_ok (the (expanse_ble_tracker_create True True True True True 2)) \<and>
   trk_lock (the (expanse_ble_tracker_create True True True True True 2)) = 0"
proof (rule ble_reachable_ok)
  show "ble_reach (the (expanse_ble_tracker_create True True True True True 2))"
    by (rule ble_reach.created [of 2])
      (simp add: expanse_ble_tracker_create_def EXPANSE_BLE_MAX_CAPACITY_def expanse_map_new_def Let_def)
qed

text \<open>C13. A sighting that is not dated before the epoch is recorded with no access outside an array: a known
  device is updated, a new one is added while there is room, and a full tracker or the hash of another
  device is refused with the tracked devices unchanged. The invariant is kept, also across a rebuild
  of the time index, and the lock is given back on every path.\<close>

theorem ble_record_correct:
  assumes "ble_ok t" and "base_epoch_sec t \<le> mono_sec_of t (last_seen_ms rec)"
  shows "\<exists>t' st. expanse_ble_tracker_record (Some t) (Some rec) = Some (Some t', st) \<and> ble_ok t' \<and>
    (devices t', st) = spec_record (max_capacity t) (devices t) rec (mono_sec_of t (last_seen_ms rec)) \<and>
    trk_lock t' = trk_lock t \<and> base_epoch_sec t' \<le> mono_sec_of t (last_seen_ms rec)"
  using ble_record_ok [OF assms] by blast

theorem ble_record_correct_witness:
  "let t = the (expanse_ble_tracker_create True True True True True 2); rec = empty_record\<lparr>last_seen_ms := 500000000\<rparr>
   in \<exists>t' st. expanse_ble_tracker_record (Some t) (Some rec) = Some (Some t', st) \<and> ble_ok t' \<and>
        (devices t', st) = spec_record (max_capacity t) (devices t) rec (mono_sec_of t (last_seen_ms rec)) \<and>
        trk_lock t' = trk_lock t \<and> base_epoch_sec t' \<le> mono_sec_of t (last_seen_ms rec)"
  unfolding Let_def
proof (rule ble_record_correct)
  obtain t where "expanse_ble_tracker_create True True True True True 2 = Some t" "ble_ok t" "base_epoch_sec t = 0"
    using ble_create_ok [of 2] by (auto simp: EXPANSE_BLE_MAX_CAPACITY_def)
  then show "ble_ok (the (expanse_ble_tracker_create True True True True True 2))"
    and "base_epoch_sec (the (expanse_ble_tracker_create True True True True True 2))
      \<le> mono_sec_of (the (expanse_ble_tracker_create True True True True True 2)) (last_seen_ms (empty_record\<lparr>last_seen_ms := 500000000\<rparr>))"
    by simp_all
qed

text \<open>C14. A lookup returns the record of the device with the address, if it is tracked, and a removal also
  takes out that device and no other; both are memory safe and keep the invariant.\<close>

theorem ble_get_remove_correct:
  assumes "ble_ok t"
  shows "\<exists>t' r. expanse_ble_tracker_get (Some t) (Some m) = Some (Some t, r) \<and>
    expanse_ble_tracker_remove (Some t) (Some m) = Some (Some t', r) \<and>
    (\<forall>e. r = Some e \<longleftrightarrow> (\<exists>s. (e, s) \<in> devices t \<and> same_mac e m)) \<and>
    ble_ok t' \<and> devices t' = {d \<in> devices t. \<not> same_mac (fst d) m} \<and> trk_lock t' = trk_lock t"
proof -
  have "ble_core t" using assms by (simp add: ble_ok_def)
  then obtain r1 where r1: "expanse_ble_tracker_get (Some t) (Some m) = Some (Some t, r1)"
      "\<forall>e. r1 = Some e \<longleftrightarrow> (\<exists>s. (e, s) \<in> devices t \<and> same_mac e m)"
    using ble_get_ok by blast
  obtain t' r2 where r2: "expanse_ble_tracker_remove (Some t) (Some m) = Some (Some t', r2)" "ble_ok t'"
      "devices t' = {d \<in> devices t. \<not> same_mac (fst d) m}" "trk_lock t' = trk_lock t"
      "\<forall>e. r2 = Some e \<longleftrightarrow> (\<exists>s. (e, s) \<in> devices t \<and> same_mac e m)"
    using ble_remove_ok [OF assms] by blast
  have "r1 = r2" using r1(2) r2(5) by (metis not_None_eq)
  then show ?thesis using r1 r2 by blast
qed

theorem ble_get_remove_correct_witness:
  "let t = the (expanse_ble_tracker_create True True True True True 2)
   in \<exists>t' r. expanse_ble_tracker_get (Some t) (Some [1, 2, 3, 4, 5, 6]) = Some (Some t, r) \<and>
    expanse_ble_tracker_remove (Some t) (Some [1, 2, 3, 4, 5, 6]) = Some (Some t', r) \<and>
    (\<forall>e. r = Some e \<longleftrightarrow> (\<exists>s. (e, s) \<in> devices t \<and> same_mac e [1, 2, 3, 4, 5, 6])) \<and>
    ble_ok t' \<and> devices t' = {d \<in> devices t. \<not> same_mac (fst d) [1, 2, 3, 4, 5, 6]} \<and> trk_lock t' = trk_lock t"
  unfolding Let_def
proof (rule ble_get_remove_correct)
  obtain t where "expanse_ble_tracker_create True True True True True 2 = Some t" "ble_ok t"
    using ble_create_ok [of 2] by (auto simp: EXPANSE_BLE_MAX_CAPACITY_def)
  then show "ble_ok (the (expanse_ble_tracker_create True True True True True 2))" by simp
qed



text \<open>A device with a given first address byte, seen at a given time, and a run of sightings.\<close>

definition seen :: "u8 \<Rightarrow> u32 \<Rightarrow> ble_record" where
  "seen a ms = empty_record\<lparr>mac := [a, 0, 0, 0, 0, 0], last_seen_ms := ms\<rparr>"

fun sightings :: "ble_record list \<Rightarrow> ble_tracker option \<Rightarrow> ble_tracker option" where
  "sightings [] h = h"
| "sightings (r # rs) h = (case expanse_ble_tracker_record h (Some r) of None \<Rightarrow> None | Some (h', _) \<Rightarrow> sightings rs h')"


text \<open>The cutoff of an eviction is compared in whole seconds and after an adjustment for wrapped
  timestamps: a device seen at 1999 ms is evicted by the cutoff 1000 ms, a device seen at 350000 seconds by
  the cutoff 200000 seconds once the epoch has moved past both, and a cutoff from before the last wrap of
  the millisecond counter evicts the devices seen since.\<close>

theorem ble_expire_evicts_newer:
  "map_option snd (expanse_ble_tracker_expire_stale
      (sightings [seen 1 1999] (expanse_ble_tracker_create True True True True True 2)) 1000) = Some 1 \<and>
   map_option snd (expanse_ble_tracker_expire_stale
      (sightings [seen 1 350000000, seen 2 500000000] (expanse_ble_tracker_create True True True True True 2)) 200000000) = Some 1 \<and>
   map_option snd (expanse_ble_tracker_expire_stale
      (sightings [seen 1 4294900000, seen 2 5000] (expanse_ble_tracker_create True True True True True 2)) 4294800000) = Some 2"
  by code_simp

end
