(* ===== verification/Alt_Table.thy ===== *)
theory Alt_Table
  imports Map_Trace C_Memory "HOL-Library.Extended_Nat"
begin

text \<open>
  The vtable of the firmware harness (\<^verbatim>\<open>integrations/stm32h747/alts.h\<close>, \<^verbatim>\<open>alt_ops\<close>): every fixture runs the
  same code path over each of its implementations. The locale \<^verbatim>\<open>alt_table\<close> is what the fixtures rely on for
  the lookups, \<^verbatim>\<open>alt_ordered\<close> what they rely on for the ordered operations. An operation may be undefined (an
  access outside an array, a loop that does not end), so its result is optional; the laws say when it is
  defined. \<^verbatim>\<open>space\<close> bounds how many insertions are still defined.

  The theory also has the accounting of requested bytes and the wrapper of the expanse map
  (\<^verbatim>\<open>integrations/stm32h747/alts.c\<close>).
\<close>

section \<open>Accounting\<close>

text \<open>\<^verbatim>\<open>size_t\<close> is 32 bits wide. The answer of \<^verbatim>\<open>malloc\<close> and the result of \<^verbatim>\<open>malloc_usable_size\<close> are arguments.\<close>

record acct =
  live_bytes :: u32
  peak_bytes :: u32

definition acct_malloc :: "acct \<Rightarrow> u32 \<Rightarrow> 'p option \<Rightarrow> acct \<times> 'p option" where
  "acct_malloc a n p =
    (if p \<noteq> None
     then let a1 = a\<lparr>live_bytes := live_bytes a + n\<rparr>
          in (if peak_bytes a1 < live_bytes a1 then a1\<lparr>peak_bytes := live_bytes a1\<rparr> else a1, p)
     else (a, p))"

definition acct_free :: "acct \<Rightarrow> 'p option \<Rightarrow> u32 \<Rightarrow> acct" where
  "acct_free a p usable =
    (if p = None then a
     else a\<lparr>live_bytes := (if usable < live_bytes a then live_bytes a - usable else 0)\<rparr>)"

definition acct_reset_peak :: "acct \<Rightarrow> acct" where
  "acct_reset_peak a = a\<lparr>peak_bytes := live_bytes a\<rparr>"

text \<open>The peak is never below the live bytes, and freeing more than is live leaves zero rather than a
  wrapped count.\<close>

lemma acct_peak_inv:
  assumes "live_bytes a \<le> peak_bytes a"
  shows "live_bytes (fst (acct_malloc a n p)) \<le> peak_bytes (fst (acct_malloc a n p))"
    and "live_bytes (acct_free a q u) \<le> peak_bytes (acct_free a q u) \<and> live_bytes (acct_free a q u) \<le> live_bytes a"
    and "live_bytes (acct_reset_peak a) \<le> peak_bytes (acct_reset_peak a)"
proof -
  show "live_bytes (fst (acct_malloc a n p)) \<le> peak_bytes (fst (acct_malloc a n p))"
    using assms by (auto simp: acct_malloc_def Let_def not_less)
  have "live_bytes a - u \<le> live_bytes a" if "u < live_bytes a" using that by (simp add: word_sub_le)
  then show "live_bytes (acct_free a q u) \<le> peak_bytes (acct_free a q u) \<and> live_bytes (acct_free a q u) \<le> live_bytes a"
    using assms by (auto simp: acct_free_def intro: order_trans)
qed (simp add: acct_reset_peak_def)

section \<open>The contract of an implementation\<close>

locale alt_table =
  fixes inv :: "'m \<Rightarrow> bool"
    and abs :: "'m \<Rightarrow> u32 \<rightharpoonup> u32"
    and key_ok :: "u32 \<Rightarrow> bool"
    and space :: "'m \<Rightarrow> enat"
    and insert :: "'m \<Rightarrow> u32 \<Rightarrow> u32 \<Rightarrow> 'm option"
    and get :: "'m \<Rightarrow> u32 \<Rightarrow> u32 option option"
    and remove :: "'m \<Rightarrow> u32 \<Rightarrow> 'm option"
  assumes get_ok: "inv m \<Longrightarrow> key_ok k \<Longrightarrow> get m k = Some (abs m k)"
    and insert_ok: "inv m \<Longrightarrow> key_ok k \<Longrightarrow> 0 < space m \<Longrightarrow>
      \<exists>m'. insert m k v = Some m' \<and> inv m' \<and> abs m' = (abs m)(k \<mapsto> v) \<and> space m \<le> space m' + 1"
    and remove_ok: "inv m \<Longrightarrow> key_ok k \<Longrightarrow>
      \<exists>m'. remove m k = Some m' \<and> inv m' \<and> abs m' = (abs m)(k := None) \<and> space m \<le> space m'"

locale alt_ordered = alt_table inv abs key_ok space insert get remove
  for inv :: "'m \<Rightarrow> bool" and abs :: "'m \<Rightarrow> u32 \<rightharpoonup> u32" and key_ok :: "u32 \<Rightarrow> bool" and space :: "'m \<Rightarrow> enat"
    and insert :: "'m \<Rightarrow> u32 \<Rightarrow> u32 \<Rightarrow> 'm option" and get :: "'m \<Rightarrow> u32 \<Rightarrow> u32 option option" and remove :: "'m \<Rightarrow> u32 \<Rightarrow> 'm option" +
  fixes first :: "'m \<Rightarrow> (u32 \<times> u32) option option"
    and remove_range :: "'m \<Rightarrow> u32 \<Rightarrow> u32 \<Rightarrow> (u32 \<Rightarrow> u32 \<Rightarrow> 'c \<Rightarrow> 'c) \<Rightarrow> 'c \<Rightarrow> ('m \<times> 'c \<times> nat) option"
  assumes first_ok: "inv m \<Longrightarrow> first m = Some (spec_least (abs m) UNIV)"
    and remove_upto_ok: "inv m \<Longrightarrow>
      \<exists>m'. remove_range m 0 hi f c =
          Some (m', fold (\<lambda>p. f (fst p) (snd p)) (spec_list (abs m) {..hi}) c, card (dom (abs m) \<inter> {..hi})) \<and>
        inv m' \<and> abs m' = abs m |` (- {..hi}) \<and> space m \<le> space m'"

section \<open>Runs of a client\<close>

datatype alt_call = AInsert u32 u32 | AGet u32 | ARemove u32

fun call_key :: "alt_call \<Rightarrow> u32" where
  "call_key (AInsert k v) = k"
| "call_key (AGet k) = k"
| "call_key (ARemove k) = k"

fun is_insert :: "alt_call \<Rightarrow> bool" where
  "is_insert (AInsert k v) = True"
| "is_insert (AGet k) = False"
| "is_insert (ARemove k) = False"

text \<open>The answers are those of the lookups, in order.\<close>

fun alt_run ::
  "('m \<Rightarrow> u32 \<Rightarrow> u32 \<Rightarrow> 'm option) \<Rightarrow> ('m \<Rightarrow> u32 \<Rightarrow> u32 option option) \<Rightarrow> ('m \<Rightarrow> u32 \<Rightarrow> 'm option) \<Rightarrow>
   alt_call list \<Rightarrow> 'm \<Rightarrow> ('m \<times> u32 option list) option"
where
  "alt_run ins get rem [] m = Some (m, [])"
| "alt_run ins get rem (AInsert k v # cs) m = ins m k v \<bind> alt_run ins get rem cs"
| "alt_run ins get rem (ARemove k # cs) m = rem m k \<bind> alt_run ins get rem cs"
| "alt_run ins get rem (AGet k # cs) m =
    do { a \<leftarrow> get m k; (m', as) \<leftarrow> alt_run ins get rem cs m; Some (m', a # as) }"

fun alt_spec :: "alt_call list \<Rightarrow> (u32 \<rightharpoonup> u32) \<Rightarrow> (u32 \<rightharpoonup> u32) \<times> u32 option list" where
  "alt_spec [] M = (M, [])"
| "alt_spec (AInsert k v # cs) M = alt_spec cs (M(k \<mapsto> v))"
| "alt_spec (ARemove k # cs) M = alt_spec cs (M(k := None))"
| "alt_spec (AGet k # cs) M = (let (M', as) = alt_spec cs M in (M', M k # as))"

context alt_table
begin

lemma run_ok:
  "inv m \<Longrightarrow> \<forall>c\<in>set cs. key_ok (call_key c) \<Longrightarrow> enat (length (filter is_insert cs)) \<le> space m \<Longrightarrow>
   \<exists>m'. alt_run insert get remove cs m = Some (m', snd (alt_spec cs (abs m))) \<and> inv m' \<and> abs m' = fst (alt_spec cs (abs m))"
proof (induction cs arbitrary: m)
  case (Cons c cs)
  show ?case
  proof (cases c)
    case (AInsert k v)
    have "0 < space m" using Cons.prems(3) AInsert by (cases "space m") (auto simp: zero_enat_def)
    then obtain m1 where m1: "insert m k v = Some m1" "inv m1" "abs m1 = (abs m)(k \<mapsto> v)" "space m \<le> space m1 + 1"
      using insert_ok [of m k v] Cons.prems AInsert by auto
    have "enat (length (filter is_insert cs)) \<le> space m1"
      using Cons.prems(3) m1(4) AInsert by (cases "space m"; cases "space m1") (auto simp: one_enat_def)
    then have "\<exists>m'. alt_run insert get remove cs m1 = Some (m', snd (alt_spec cs (abs m1))) \<and> inv m' \<and> abs m' = fst (alt_spec cs (abs m1))"
      using Cons.IH [OF m1(2)] Cons.prems(2) by simp
    then show ?thesis by (simp add: AInsert m1(1) flip: m1(3))
  next
    case (ARemove k)
    obtain m1 where m1: "remove m k = Some m1" "inv m1" "abs m1 = (abs m)(k := None)" "space m \<le> space m1"
      using remove_ok [of m k] Cons.prems ARemove by auto
    have "enat (length (filter is_insert cs)) \<le> space m1" using Cons.prems(3) m1(4) ARemove by auto
    then have "\<exists>m'. alt_run insert get remove cs m1 = Some (m', snd (alt_spec cs (abs m1))) \<and> inv m' \<and> abs m' = fst (alt_spec cs (abs m1))"
      using Cons.IH [OF m1(2)] Cons.prems(2) by simp
    then show ?thesis by (simp add: ARemove m1(1) flip: m1(3))
  next
    case (AGet k)
    then show ?thesis using Cons.IH [of m] Cons.prems get_ok [of m k] by (auto simp: Let_def split_beta)
  qed
qed simp

end

section \<open>The expanse map behind the vtable\<close>

definition ex_create :: "nat \<Rightarrow> expanse_map_t" where
  "ex_create cap = expanse_map_new"

definition ex_destroy :: "expanse_map_t \<Rightarrow> expanse_map_t" where
  "ex_destroy m = expanse_map_free m"

definition ex_insert :: "expanse_map_t \<Rightarrow> u32 \<Rightarrow> u32 \<Rightarrow> expanse_map_t option" where
  "ex_insert m k v = Some (fst (expanse_map_insert m k v))"

definition ex_get :: "expanse_map_t \<Rightarrow> u32 \<Rightarrow> u32 option option" where
  "ex_get m k = Some (expanse_map_get m k)"

definition ex_first :: "expanse_map_t \<Rightarrow> (u32 \<times> u32) option option" where
  "ex_first m = Some (expanse_map_first m)"

definition ex_remove :: "expanse_map_t \<Rightarrow> u32 \<Rightarrow> expanse_map_t option" where
  "ex_remove m k = Some (fst (expanse_map_remove m k))"

definition ex_remove_range ::
  "expanse_map_t \<Rightarrow> u32 \<Rightarrow> u32 \<Rightarrow> (u32 \<Rightarrow> u32 \<Rightarrow> 'c \<Rightarrow> 'c) \<Rightarrow> 'c \<Rightarrow> (expanse_map_t \<times> 'c \<times> nat) option"
where
  "ex_remove_range m lo hi cb ctx = Some (expanse_map_remove_range m lo hi (Some cb) ctx)"

lemma restrict_outside: "map_of (al_outside lo hi xs) = map_of xs |` (- {lo..hi})" for lo hi :: u32 and xs :: "(u32 \<times> u32) list"
  by (auto simp: map_of_al_outside restrict_map_def fun_eq_iff)

lemma upto_range: "{0..hi} = {..hi}" for hi :: u32
  by auto

interpretation ex: alt_ordered map_ok map_abs "\<lambda>_. True" "\<lambda>_. \<infinity>" ex_insert ex_get ex_remove ex_first ex_remove_range
proof
  fix m k v hi f c
  assume ok: "map_ok m"
  note asc = emap.asc_ents [OF ok]
  show "ex_get m k = Some (map_abs m k)" by (simp add: ex_get_def map_abs_ops [OF ok])
  show "\<exists>m'. ex_insert m k v = Some m' \<and> map_ok m' \<and> map_abs m' = (map_abs m)(k \<mapsto> v) \<and> \<infinity> \<le> \<infinity> + (1 :: enat)"
    by (simp add: ex_insert_def map_abs_ops [OF ok])
  show "\<exists>m'. ex_remove m k = Some m' \<and> map_ok m' \<and> map_abs m' = (map_abs m)(k := None) \<and> (\<infinity> :: enat) \<le> \<infinity>"
    by (simp add: ex_remove_def map_abs_ops [OF ok])
  show "ex_first m = Some (spec_least (map_abs m) UNIV)"
    using al_first_spec_least [OF asc, of UNIV] by (simp add: ex_first_def map_abs_def emap.first_ok [OF ok])
  show "\<exists>m'. ex_remove_range m 0 hi f c =
          Some (m', fold (\<lambda>p. f (fst p) (snd p)) (spec_list (map_abs m) {..hi}) c, card (dom (map_abs m) \<inter> {..hi})) \<and>
        map_ok m' \<and> map_abs m' = map_abs m |` (- {..hi}) \<and> (\<infinity> :: enat) \<le> \<infinity>"
    using emap.remove_range_ok [OF ok, of 0 hi "Some f" c] filter_spec_list [OF asc, of "{0..hi}"]
      length_filter_card [OF asc, of "{0..hi}"] restrict_outside [of 0 hi "map_ents m"]
    by (intro exI [of _ "fst (expanse_map_remove_range m 0 hi (Some f) c)"])
      (simp add: ex_remove_range_def map_abs_def al_range_filter upto_range prod_eq_iff)
qed

end
