(* ===== verification/Sorted_Array.thy ===== *)
theory Sorted_Array
  imports Alt_Table
begin

text \<open>
  The sorted-array implementation of the vtable (\<^verbatim>\<open>integrations/stm32h747/alts.c\<close>, \<^verbatim>\<open>sarr\<close>): parallel key and
  value arrays, binary search and \<^verbatim>\<open>memmove\<close>. The arrays have the capacity given at creation and their
  content beyond the length is what the allocator left there. An insertion into a full array is an access
  outside the array, hence undefined.
\<close>

record sarr =
  sa_keys :: "u32 list"
  sa_vals :: "u32 list"
  sa_len :: nat
  sa_cap :: nat

function sa_search :: "u32 list \<Rightarrow> u32 \<Rightarrow> nat \<Rightarrow> nat \<Rightarrow> nat option" where
  "sa_search keys k lo hi =
    (if lo < hi
     then let mid = (lo + hi) div 2
          in do { c \<leftarrow> rd keys mid; if c < k then sa_search keys k (mid + 1) hi else sa_search keys k lo mid }
     else Some lo)"
  by pat_completeness auto
termination by (relation "measure (\<lambda>(keys, k, lo, hi). hi - lo)") auto

declare sa_search.simps [simp del]

definition sa_lower :: "sarr \<Rightarrow> u32 \<Rightarrow> nat option" where
  "sa_lower s k = sa_search (sa_keys s) k 0 (sa_len s)"

text \<open>The two freshly allocated arrays are an argument.\<close>

definition sa_create :: "u32 list \<Rightarrow> u32 list \<Rightarrow> nat \<Rightarrow> sarr" where
  "sa_create ks vs cap = \<lparr>sa_keys = ks, sa_vals = vs, sa_len = 0, sa_cap = cap\<rparr>"

definition sa_insert :: "sarr \<Rightarrow> u32 \<Rightarrow> u32 \<Rightarrow> sarr option" where
  "sa_insert s k v =
    do { i \<leftarrow> sa_lower s k;
         hit \<leftarrow> (if i < sa_len s then do { c \<leftarrow> rd (sa_keys s) i; Some (c = k) } else Some False);
         if hit then do { vs \<leftarrow> wr (sa_vals s) i v; Some (s\<lparr>sa_vals := vs\<rparr>) }
         else do { ks \<leftarrow> memmove (sa_keys s) (i + 1) i (sa_len s - i);
                   vs \<leftarrow> memmove (sa_vals s) (i + 1) i (sa_len s - i);
                   ks \<leftarrow> wr ks i k;
                   vs \<leftarrow> wr vs i v;
                   Some (s\<lparr>sa_keys := ks, sa_vals := vs, sa_len := sa_len s + 1\<rparr>) } }"

definition sa_get :: "sarr \<Rightarrow> u32 \<Rightarrow> u32 option option" where
  "sa_get s k =
    do { i \<leftarrow> sa_lower s k;
         hit \<leftarrow> (if i < sa_len s then do { c \<leftarrow> rd (sa_keys s) i; Some (c = k) } else Some False);
         if hit then do { v \<leftarrow> rd (sa_vals s) i; Some (Some v) } else Some None }"

definition sa_first :: "sarr \<Rightarrow> (u32 \<times> u32) option option" where
  "sa_first s =
    (if sa_len s = 0 then Some None
     else do { k \<leftarrow> rd (sa_keys s) 0; v \<leftarrow> rd (sa_vals s) 0; Some (Some (k, v)) })"

text \<open>The sizes are unsigned words of 32 bits: a difference wraps.\<close>

definition size_sub :: "nat \<Rightarrow> nat \<Rightarrow> nat" where
  "size_sub a b = (if b \<le> a then a - b else a + 2 ^ 32 - b)"

definition sa_erase :: "sarr \<Rightarrow> nat \<Rightarrow> nat \<Rightarrow> sarr option" where
  "sa_erase s i n =
    do { ks \<leftarrow> memmove (sa_keys s) i ((i + n) mod 2 ^ 32) (size_sub (size_sub (sa_len s) i) n);
         vs \<leftarrow> memmove (sa_vals s) i ((i + n) mod 2 ^ 32) (size_sub (size_sub (sa_len s) i) n);
         Some (s\<lparr>sa_keys := ks, sa_vals := vs, sa_len := size_sub (sa_len s) n\<rparr>) }"

definition sa_remove :: "sarr \<Rightarrow> u32 \<Rightarrow> sarr option" where
  "sa_remove s k =
    do { i \<leftarrow> sa_lower s k;
         hit \<leftarrow> (if i < sa_len s then do { c \<leftarrow> rd (sa_keys s) i; Some (c = k) } else Some False);
         if hit then sa_erase s i 1 else Some s }"

definition sa_remove_range ::
  "sarr \<Rightarrow> u32 \<Rightarrow> u32 \<Rightarrow> (u32 \<Rightarrow> u32 \<Rightarrow> 'c \<Rightarrow> 'c) \<Rightarrow> 'c \<Rightarrow> (sarr \<times> 'c \<times> nat) option"
where
  "sa_remove_range s lo hi cb ctx =
    do { a \<leftarrow> sa_lower s lo;
         b \<leftarrow> (if hi = 0xFFFFFFFF then Some (sa_len s) else sa_lower s (hi + 1));
         ctx' \<leftarrow> for_loop [a..<b] (\<lambda>i c. do { k \<leftarrow> rd (sa_keys s) i; v \<leftarrow> rd (sa_vals s) i; Some (cb k v c) }) ctx;
         s' \<leftarrow> sa_erase s a (size_sub b a);
         Some (s', ctx', size_sub b a) }"

section \<open>Correctness\<close>

definition sa_ents :: "sarr \<Rightarrow> (u32 \<times> u32) list" where
  "sa_ents s = take (sa_len s) (zip (sa_keys s) (sa_vals s))"

definition sa_inv :: "sarr \<Rightarrow> bool" where
  "sa_inv s \<longleftrightarrow> length (sa_keys s) = sa_cap s \<and> length (sa_vals s) = sa_cap s \<and> sa_len s \<le> sa_cap s \<and> sa_cap s < 2 ^ 30 \<and> asc (sa_ents s)"

lemma length_sa_ents: "sa_inv s \<Longrightarrow> length (sa_ents s) = sa_len s"
  by (simp add: sa_inv_def sa_ents_def)

lemma sa_ents_nth: "sa_inv s \<Longrightarrow> i < sa_len s \<Longrightarrow> sa_ents s ! i = (sa_keys s ! i, sa_vals s ! i)"
  by (simp add: sa_inv_def sa_ents_def)

lemma sa_search_leaf:
  "hi \<le> length keys \<Longrightarrow> length keys = length xs \<Longrightarrow> (\<And>i. i < hi \<Longrightarrow> keys ! i = fst (xs ! i)) \<Longrightarrow>
   sa_search keys k lo hi = Some (leaf_search xs k lo hi)"
proof (induction keys k lo hi rule: sa_search.induct)
  case (1 keys k lo hi)
  show ?case
  proof (cases "lo < hi")
    case True
    then have "(lo + hi) div 2 < hi" by linarith
    then show ?thesis
      using True 1 by (subst sa_search.simps, subst leaf_search.simps) (simp add: Let_def)
  qed (simp add: sa_search.simps leaf_search.simps)
qed

lemma sa_lower_pos: "sa_inv s \<Longrightarrow> sa_lower s k = Some (lower_pos k (sa_ents s))"
proof -
  assume inv: "sa_inv s"
  let ?ks = "take (sa_len s) (sa_keys s)"
  have cut: "hi \<le> sa_len s \<Longrightarrow> sa_search (sa_keys s) k lo hi = sa_search ?ks k lo hi" for lo hi
  proof (induction "sa_keys s" k lo hi rule: sa_search.induct)
    case (1 k lo hi)
    show ?case
    proof (cases "lo < hi")
      case True
      then have "(lo + hi) div 2 < hi" by linarith
      then show ?thesis
        using True 1 inv by (subst sa_search.simps, subst (2) sa_search.simps) (simp add: Let_def sa_inv_def)
    qed (simp add: sa_search.simps)
  qed
  have "sa_search ?ks k 0 (sa_len s) = Some (leaf_search (sa_ents s) k 0 (sa_len s))"
    using inv by (intro sa_search_leaf) (auto simp: sa_inv_def sa_ents_def)
  then show ?thesis
    using cut [of "sa_len s" 0] leaf.search_whole [of "sa_ents s" k] inv length_sa_ents [OF inv]
    by (simp add: sa_lower_def sa_inv_def)
qed

lemma sa_hit:
  assumes "sa_inv s"
  shows "(if lower_pos k (sa_ents s) < sa_len s then do { c \<leftarrow> rd (sa_keys s) (lower_pos k (sa_ents s)); Some (c = k) } else Some False)
    = Some (map_of (sa_ents s) k \<noteq> None)"
  using assms lower_pos_hit [of "sa_ents s" k] sa_ents_nth [OF assms, of "lower_pos k (sa_ents s)"] length_sa_ents [OF assms]
  by (auto simp: sa_inv_def)

lemma sa_get_ok: "sa_inv s \<Longrightarrow> sa_get s k = Some (map_of (sa_ents s) k)"
proof -
  assume inv: "sa_inv s"
  let ?i = "lower_pos k (sa_ents s)"
  show ?thesis
  proof (cases "map_of (sa_ents s) k = None")
    case True
    then show ?thesis using sa_lower_pos [OF inv, of k] sa_hit [OF inv, of k] by (simp add: sa_get_def)
  next
    case False
    have asc: "asc (sa_ents s)" using inv by (simp add: sa_inv_def)
    have i: "?i < sa_len s" "fst (sa_ents s ! ?i) = k"
      using lower_pos_hit [OF asc, of k] False length_sa_ents [OF inv] by auto
    then have "map_of (sa_ents s) k = Some (sa_vals s ! ?i)"
      using lower_pos_value [OF asc] length_sa_ents [OF inv] sa_ents_nth [OF inv] by simp
    moreover have "?i < length (sa_vals s)" using i inv by (simp add: sa_inv_def)
    ultimately show ?thesis using sa_lower_pos [OF inv, of k] sa_hit [OF inv, of k] by (simp add: sa_get_def)
  qed
qed

lemma take_zip_update: "i < n \<Longrightarrow> n \<le> length xs \<Longrightarrow> length xs = length ys \<Longrightarrow>
  take n (zip xs (ys[i := v])) = (take n (zip xs ys))[i := (xs ! i, v)]"
  by (rule nth_equalityI) (auto simp: nth_list_update)

lemma zip_insert_at: "length xs = length ys \<Longrightarrow> zip (insert_at i x xs) (insert_at i y ys) = insert_at i (x, y) (zip xs ys)"
  by (simp add: insert_at_def zip_append take_zip drop_zip)

lemma zip_remove_span: "length xs = length ys \<Longrightarrow> zip (remove_span i j xs) (remove_span i j ys) = remove_span i j (zip xs ys)"
  by (simp add: remove_span_def zip_append take_zip drop_zip)

lemma sa_insert_ok:
  assumes inv: "sa_inv s" and room: "sa_len s < sa_cap s"
  shows "\<exists>s'. sa_insert s k v = Some s' \<and> sa_inv s' \<and> sa_ents s' = al_ins k v (sa_ents s) \<and>
    sa_cap s' = sa_cap s \<and> sa_len s' \<le> sa_len s + 1"
proof -
  let ?i = "lower_pos k (sa_ents s)"
  have asc: "asc (sa_ents s)" and len: "length (sa_keys s) = sa_cap s" "length (sa_vals s) = sa_cap s"
    using inv by (simp_all add: sa_inv_def)
  note n = length_sa_ents [OF inv]
  have il: "?i \<le> sa_len s" using lower_pos_le [of k "sa_ents s"] n by simp
  show ?thesis
  proof (cases "map_of (sa_ents s) k = None")
    case False
    then have i: "?i < sa_len s" "fst (sa_ents s ! ?i) = k" using lower_pos_hit [OF asc, of k] n by auto
    let ?s = "s\<lparr>sa_vals := (sa_vals s)[?i := v]\<rparr>"
    have "sa_ents ?s = (sa_ents s)[?i := (k, v)]"
      using i len room sa_ents_nth [OF inv i(1)] by (simp add: sa_ents_def take_zip_update)
    then have e: "sa_ents ?s = al_ins k v (sa_ents s)" using update_lower_pos [OF asc] i n by simp
    have "sa_insert s k v = Some ?s"
      using sa_lower_pos [OF inv, of k] sa_hit [OF inv, of k] False i room len by (simp add: sa_insert_def)
    then show ?thesis using e inv asc_al_ins [OF asc, of k v] by (simp add: sa_inv_def)
  next
    case True
    obtain ks where ks: "memmove (sa_keys s) (?i + 1) ?i (sa_len s - ?i) = Some ks" "length ks = sa_cap s"
        "take (sa_len s + 1) (ks[?i := k]) = insert_at ?i k (take (sa_len s) (sa_keys s))"
      using take_memmove_up [OF il, of "sa_keys s" k] room len by auto
    obtain vs where vs: "memmove (sa_vals s) (?i + 1) ?i (sa_len s - ?i) = Some vs" "length vs = sa_cap s"
        "take (sa_len s + 1) (vs[?i := v]) = insert_at ?i v (take (sa_len s) (sa_vals s))"
      using take_memmove_up [OF il, of "sa_vals s" v] room len by auto
    let ?s = "s\<lparr>sa_keys := ks[?i := k], sa_vals := vs[?i := v], sa_len := sa_len s + 1\<rparr>"
    have "sa_ents ?s = insert_at ?i (k, v) (sa_ents s)"
      using ks(3) vs(3) len by (simp add: sa_ents_def take_zip zip_insert_at)
    then have e: "sa_ents ?s = al_ins k v (sa_ents s)" using insert_at_lower_pos [OF asc True] by simp
    have "sa_insert s k v = Some ?s"
      using sa_lower_pos [OF inv, of k] sa_hit [OF inv, of k] True ks vs il room by (simp add: sa_insert_def)
    then show ?thesis using e inv room asc_al_ins [OF asc, of k v] ks(2) vs(2) by (simp add: sa_inv_def)
  qed
qed

lemma sa_erase_ok:
  assumes inv: "sa_inv s" and "i + c \<le> sa_len s"
  shows "\<exists>s'. sa_erase s i c = Some s' \<and> sa_ents s' = remove_span i (i + c) (sa_ents s) \<and> sa_cap s' = sa_cap s \<and>
    length (sa_keys s') = sa_cap s \<and> length (sa_vals s') = sa_cap s \<and> sa_len s' = sa_len s - c"
proof -
  have len: "length (sa_keys s) = sa_cap s" "length (sa_vals s) = sa_cap s" "sa_len s \<le> sa_cap s" "sa_cap s < 2 ^ 30"
    using inv by (simp_all add: sa_inv_def)
  have sz: "(i + c) mod 2 ^ 32 = i + c" "size_sub (size_sub (sa_len s) i) c = sa_len s - i - c" "size_sub (sa_len s) c = sa_len s - c"
    using assms(2) len by (simp_all add: size_sub_def)
  obtain ks where ks: "memmove (sa_keys s) i (i + c) (sa_len s - i - c) = Some ks" "length ks = sa_cap s"
      "take (sa_len s - c) ks = remove_span i (i + c) (take (sa_len s) (sa_keys s))"
    using take_memmove_down [OF assms(2), of "sa_keys s"] len by auto
  obtain vs where vs: "memmove (sa_vals s) i (i + c) (sa_len s - i - c) = Some vs" "length vs = sa_cap s"
      "take (sa_len s - c) vs = remove_span i (i + c) (take (sa_len s) (sa_vals s))"
    using take_memmove_down [OF assms(2), of "sa_vals s"] len by auto
  have "sa_erase s i c = Some (s\<lparr>sa_keys := ks, sa_vals := vs, sa_len := sa_len s - c\<rparr>)"
    unfolding sa_erase_def sz using ks vs by simp
  moreover have "take (sa_len s - c) (zip ks vs) = remove_span i (i + c) (sa_ents s)"
    using ks(3) vs(3) len by (simp add: sa_ents_def take_zip zip_remove_span)
  ultimately show ?thesis using ks(2) vs(2) by (simp add: sa_ents_def)
qed

lemma sa_remove_ok:
  assumes inv: "sa_inv s"
  shows "\<exists>s'. sa_remove s k = Some s' \<and> sa_inv s' \<and> sa_ents s' = al_del k (sa_ents s) \<and> sa_cap s' = sa_cap s \<and> sa_len s' \<le> sa_len s"
proof (cases "map_of (sa_ents s) k = None")
  case True
  then have "al_del k (sa_ents s) = sa_ents s" by (rule al_del_miss)
  then show ?thesis using sa_lower_pos [OF inv, of k] sa_hit [OF inv, of k] True inv by (simp add: sa_remove_def)
next
  case False
  let ?i = "lower_pos k (sa_ents s)"
  have asc: "asc (sa_ents s)" using inv by (simp add: sa_inv_def)
  have i: "?i < sa_len s" "fst (sa_ents s ! ?i) = k" using lower_pos_hit [OF asc, of k] False length_sa_ents [OF inv] by auto
  obtain s' where s': "sa_erase s ?i 1 = Some s'" "sa_ents s' = remove_span ?i (?i + 1) (sa_ents s)" "sa_cap s' = sa_cap s"
      "length (sa_keys s') = sa_cap s" "length (sa_vals s') = sa_cap s" "sa_len s' = sa_len s - 1"
    using sa_erase_ok [OF inv, of ?i 1] i(1) by auto
  then have "sa_ents s' = al_del k (sa_ents s)"
    using remove_lower_pos [OF asc] i length_sa_ents [OF inv] by simp
  moreover have "sa_remove s k = Some s'" using sa_lower_pos [OF inv, of k] sa_hit [OF inv, of k] False s'(1) by (simp add: sa_remove_def)
  ultimately show ?thesis using s' inv asc_al_del [OF asc, of k] by (auto simp: sa_inv_def)
qed

lemma for_loop_fold:
  "(\<And>i. i \<in> set js \<Longrightarrow> \<forall>c. body i c = Some (f i c)) \<Longrightarrow> for_loop js body c = Some (fold f js c)"
  by (induction js arbitrary: c) auto

lemma sa_remove_range_ok:
  assumes inv: "sa_inv s" and "lo \<le> hi"
  shows "\<exists>s'. sa_remove_range s lo hi f c =
        Some (s', fold (\<lambda>p. f (fst p) (snd p)) (al_range lo hi (sa_ents s)) c, length (al_range lo hi (sa_ents s))) \<and>
      sa_inv s' \<and> sa_ents s' = al_outside lo hi (sa_ents s) \<and> sa_cap s' = sa_cap s \<and> sa_len s' \<le> sa_len s"
proof -
  have asc: "asc (sa_ents s)" using inv by (simp add: sa_inv_def)
  note n = length_sa_ents [OF inv]
  let ?a = "lower_pos lo (sa_ents s)"
  define b where "b = (if hi = 0xFFFFFFFF then sa_len s else lower_pos (hi + 1) (sa_ents s))"
  have top: "rem_mask 4 \<le> hi \<longleftrightarrow> hi = 0xFFFFFFFF"
  proof -
    have "rem_mask 4 \<le> hi \<longleftrightarrow> hi = rem_mask 4" by (simp add: rem_mask_def word_order.extremum_unique)
    moreover have "rem_mask 4 = 0xFFFFFFFF" by (simp add: rem_mask_def)
    ultimately show ?thesis by (simp only:)
  qed
  have bs: "map (\<lambda>i. sa_ents s ! i) [?a..<b] = al_range lo hi (sa_ents s)" "remove_span ?a b (sa_ents s) = al_outside lo hi (sa_ents s)"
    "?a \<le> b" "b \<le> sa_len s"
  proof -
    have "keys_le 4 (sa_ents s)" by (simp add: keys_le_def)
    moreover have "b = (if rem_mask 4 \<le> hi then length (sa_ents s) else leaf_lower_bound (sa_ents s) (hi + 1))"
      by (simp only: b_def top leaf_lower_bound_pos [OF asc] n)
    ultimately show "map (\<lambda>i. sa_ents s ! i) [?a..<b] = al_range lo hi (sa_ents s)" "remove_span ?a b (sa_ents s) = al_outside lo hi (sa_ents s)"
      "?a \<le> b" "b \<le> sa_len s"
      using leaf_span [OF asc _ assms(2)] n by (auto simp only: leaf_lower_bound_pos [OF asc])
  qed
  have low: "(if hi = 0xFFFFFFFF then Some (sa_len s) else sa_lower s (hi + 1)) = Some b"
    using sa_lower_pos [OF inv] by (simp add: b_def)
  obtain s' where s': "sa_erase s ?a (b - ?a) = Some s'" "sa_ents s' = remove_span ?a b (sa_ents s)" "sa_cap s' = sa_cap s"
      "length (sa_keys s') = sa_cap s" "length (sa_vals s') = sa_cap s" "sa_len s' = sa_len s - (b - ?a)"
    using sa_erase_ok [OF inv, of ?a "b - ?a"] bs(3,4) by auto
  have "for_loop [?a..<b] (\<lambda>i c. do { k \<leftarrow> rd (sa_keys s) i; v \<leftarrow> rd (sa_vals s) i; Some (f k v c) }) c =
      Some (fold (\<lambda>i. f (fst (sa_ents s ! i)) (snd (sa_ents s ! i))) [?a..<b] c)"
    using bs(4) inv sa_ents_nth [OF inv] by (intro for_loop_fold) (auto simp: sa_inv_def)
  also have "fold (\<lambda>i. f (fst (sa_ents s ! i)) (snd (sa_ents s ! i))) [?a..<b] c =
      fold (\<lambda>p. f (fst p) (snd p)) (al_range lo hi (sa_ents s)) c"
    unfolding bs(1) [symmetric] by (simp add: fold_map comp_def)
  finally have loop: "for_loop [?a..<b] (\<lambda>i c. do { k \<leftarrow> rd (sa_keys s) i; v \<leftarrow> rd (sa_vals s) i; Some (f k v c) }) c =
      Some (fold (\<lambda>p. f (fst p) (snd p)) (al_range lo hi (sa_ents s)) c)" .
  have "length (al_range lo hi (sa_ents s)) = b - ?a" unfolding bs(1) [symmetric] by simp
  then have "sa_remove_range s lo hi f c =
      Some (s', fold (\<lambda>p. f (fst p) (snd p)) (al_range lo hi (sa_ents s)) c, length (al_range lo hi (sa_ents s)))"
    using sa_lower_pos [OF inv, of lo] low loop s'(1) bs(3) by (simp add: sa_remove_range_def size_sub_def)
  moreover have "sa_inv s'" using s' bs inv asc_al_outside [OF asc, of lo hi] by (auto simp: sa_inv_def)
  ultimately show ?thesis using s' bs by auto
qed

section \<open>The contract\<close>

definition sa_abs :: "sarr \<Rightarrow> u32 \<rightharpoonup> u32" where
  "sa_abs s = map_of (sa_ents s)"

definition sa_space :: "sarr \<Rightarrow> enat" where
  "sa_space s = enat (sa_cap s - sa_len s)"

lemma sa_space_mono: "sa_cap s' = sa_cap s \<Longrightarrow> sa_len s' \<le> sa_len s \<Longrightarrow> sa_space s \<le> sa_space s'"
  by (simp add: sa_space_def)

interpretation sa: alt_ordered sa_inv sa_abs "\<lambda>_. True" sa_space sa_insert sa_get sa_remove sa_first sa_remove_range
proof
  fix s k v hi f c
  assume inv: "sa_inv s"
  have asc: "asc (sa_ents s)" using inv by (simp add: sa_inv_def)
  show "sa_get s k = Some (sa_abs s k)" using sa_get_ok [OF inv] by (simp add: sa_abs_def)
  show "\<exists>s'. sa_remove s k = Some s' \<and> sa_inv s' \<and> sa_abs s' = (sa_abs s)(k := None) \<and> sa_space s \<le> sa_space s'"
    using sa_remove_ok [OF inv, of k] sa_space_mono by (auto simp: sa_abs_def map_of_al_del)
  show "sa_first s = Some (spec_least (sa_abs s) UNIV)"
  proof -
    have "sa_first s = Some (al_first (sa_ents s))"
      using inv sa_ents_nth [OF inv, of 0] length_sa_ents [OF inv]
      by (cases "sa_ents s") (auto simp: sa_first_def al_first_def sa_inv_def)
    then show ?thesis using al_first_spec_least [OF asc, of UNIV] by (simp add: sa_abs_def)
  qed
  obtain s' where s': "sa_remove_range s 0 hi f c =
        Some (s', fold (\<lambda>p. f (fst p) (snd p)) (al_range 0 hi (sa_ents s)) c, length (al_range 0 hi (sa_ents s)))"
      "sa_inv s'" "sa_ents s' = al_outside 0 hi (sa_ents s)" "sa_cap s' = sa_cap s" "sa_len s' \<le> sa_len s"
    using sa_remove_range_ok [OF inv, of 0 hi f c] by auto
  show "\<exists>s'. sa_remove_range s 0 hi f c =
          Some (s', fold (\<lambda>p. f (fst p) (snd p)) (spec_list (sa_abs s) {..hi}) c, card (dom (sa_abs s) \<inter> {..hi})) \<and>
        sa_inv s' \<and> sa_abs s' = sa_abs s |` (- {..hi}) \<and> sa_space s \<le> sa_space s'"
    using s' filter_spec_list [OF asc, of "{0..hi}"] length_filter_card [OF asc, of "{0..hi}"] restrict_outside [of 0 hi "sa_ents s"]
      sa_space_mono [of s' s]
    by (intro exI [of _ s']) (simp add: sa_abs_def al_range_filter upto_range)
next
  fix s k v
  assume inv: "sa_inv s" and "0 < sa_space s"
  then have room: "sa_len s < sa_cap s" by (simp add: sa_space_def zero_enat_def)
  then obtain s' where s': "sa_insert s k v = Some s'" "sa_inv s'" "sa_ents s' = al_ins k v (sa_ents s)"
      "sa_cap s' = sa_cap s" "sa_len s' \<le> sa_len s + 1"
    using sa_insert_ok [OF inv] by blast
  then have "sa_space s \<le> sa_space s' + 1" by (simp add: sa_space_def one_enat_def)
  then show "\<exists>s'. sa_insert s k v = Some s' \<and> sa_inv s' \<and> sa_abs s' = (sa_abs s)(k \<mapsto> v) \<and> sa_space s \<le> sa_space s' + 1"
    using s' by (auto simp: sa_abs_def map_of_al_ins)
qed

lemma sa_create_ok:
  "length ks = cap \<Longrightarrow> length vs = cap \<Longrightarrow> cap < 2 ^ 30 \<Longrightarrow>
   sa_inv (sa_create ks vs cap) \<and> sa_abs (sa_create ks vs cap) = Map.empty \<and> sa_space (sa_create ks vs cap) = enat cap"
  by (simp add: sa_create_def sa_inv_def sa_abs_def sa_ents_def sa_space_def)

end
