(* ===== verification/Open_Hash.thy ===== *)
theory Open_Hash
  imports Alt_Table
begin

text \<open>
  The open-addressing table of the vtable (\<^verbatim>\<open>integrations/stm32h747/alts.c\<close>, \<^verbatim>\<open>ohash\<close>): linear probing over a
  power of two of slots, with two key values set apart for empty slots and tombstones. The probe loops of the
  source have no bound: they are partial functions here, and a loop that does not end has the value
  \<^term>\<open>None\<close>, as has an access outside an array. \<^verbatim>\<open>size_t\<close> is 32 bits wide; the counters keep that width.
\<close>

section \<open>Operations\<close>

definition OH_EMPTY :: u32 where "OH_EMPTY = 0xFFFFFFFF"
definition OH_TOMB :: u32 where "OH_TOMB = 0xFFFFFFFE"

record ohash =
  oh_keys :: "u32 list"
  oh_vals :: "u32 list"
  oh_mask :: nat
  oh_len :: u32
  oh_used :: u32

definition oh_mix :: "u32 \<Rightarrow> u32" where
  "oh_mix k = fold (\<lambda>i h. (h XOR (drop_bit (8 * i) k AND 0xFF)) * 16777619) [0, 1, 2, 3] 2166136261"

definition oh_home :: "u32 \<Rightarrow> nat \<Rightarrow> nat" where
  "oh_home k msk = unat (oh_mix k AND of_nat msk)"

function oh_size :: "nat \<Rightarrow> nat \<Rightarrow> nat" where
  "oh_size n cap = (if 0 < n \<and> n < cap * 2 then oh_size (2 * n) cap else n)"
  by pat_completeness auto
termination by (relation "measure (\<lambda>(n, cap). cap * 2 - n)") auto

declare oh_size.simps [simp del]

text \<open>The content of the value array is what the allocator left there.\<close>

definition oh_create :: "u32 list \<Rightarrow> nat \<Rightarrow> ohash" where
  "oh_create vs cap =
    (let n = oh_size 16 cap
     in \<lparr>oh_keys = replicate n OH_EMPTY, oh_vals = vs, oh_mask = n - 1, oh_len = 0, oh_used = 0\<rparr>)"

partial_function (option) oh_insert_loop :: "ohash \<Rightarrow> u32 \<Rightarrow> u32 \<Rightarrow> nat \<Rightarrow> nat option \<Rightarrow> ohash option" where
  "oh_insert_loop h k v i tomb =
    do { c \<leftarrow> rd (oh_keys h) i;
         if c = k then do { vs \<leftarrow> wr (oh_vals h) i v; Some (h\<lparr>oh_vals := vs\<rparr>) }
         else let tomb' = (if c = OH_TOMB \<and> tomb = None then Some i else tomb)
              in if c = OH_EMPTY
                 then let j = (case tomb' of Some t \<Rightarrow> t | None \<Rightarrow> i);
                          used = (case tomb' of Some t \<Rightarrow> oh_used h | None \<Rightarrow> oh_used h + 1)
                      in do { ks \<leftarrow> wr (oh_keys h) j k;
                              vs \<leftarrow> wr (oh_vals h) j v;
                              Some (h\<lparr>oh_keys := ks, oh_vals := vs, oh_len := oh_len h + 1, oh_used := used\<rparr>) }
                 else oh_insert_loop h k v ((i + 1) AND oh_mask h) tomb' }"

definition oh_insert :: "ohash \<Rightarrow> u32 \<Rightarrow> u32 \<Rightarrow> ohash option" where
  "oh_insert h k v = oh_insert_loop h k v (oh_home k (oh_mask h)) None"

partial_function (option) oh_get_loop :: "ohash \<Rightarrow> u32 \<Rightarrow> nat \<Rightarrow> u32 option option" where
  "oh_get_loop h k i =
    do { c \<leftarrow> rd (oh_keys h) i;
         if c = k then do { v \<leftarrow> rd (oh_vals h) i; Some (Some v) }
         else if c = OH_EMPTY then Some None
         else oh_get_loop h k ((i + 1) AND oh_mask h) }"

definition oh_get :: "ohash \<Rightarrow> u32 \<Rightarrow> u32 option option" where
  "oh_get h k = oh_get_loop h k (oh_home k (oh_mask h))"

partial_function (option) oh_remove_loop :: "ohash \<Rightarrow> u32 \<Rightarrow> nat \<Rightarrow> ohash option" where
  "oh_remove_loop h k i =
    do { c \<leftarrow> rd (oh_keys h) i;
         if c = k then do { ks \<leftarrow> wr (oh_keys h) i OH_TOMB; Some (h\<lparr>oh_keys := ks, oh_len := oh_len h - 1\<rparr>) }
         else if c = OH_EMPTY then Some h
         else oh_remove_loop h k ((i + 1) AND oh_mask h) }"

definition oh_remove :: "ohash \<Rightarrow> u32 \<Rightarrow> ohash option" where
  "oh_remove h k = oh_remove_loop h k (oh_home k (oh_mask h))"

definition oh_evict_scan ::
  "ohash \<Rightarrow> (u32 \<Rightarrow> u32 \<Rightarrow> 'c \<Rightarrow> bool \<times> 'c) \<Rightarrow> 'c \<Rightarrow> (ohash \<times> 'c \<times> nat) option"
where
  "oh_evict_scan h expired ctx =
    for_loop [0..<oh_mask h + 1] (\<lambda>i (h, ctx, n).
      do { c \<leftarrow> rd (oh_keys h) i;
           if c \<noteq> OH_EMPTY \<and> c \<noteq> OH_TOMB
           then do { v \<leftarrow> rd (oh_vals h) i;
                     let (ex, ctx') = expired c v ctx;
                     if ex then do { ks \<leftarrow> wr (oh_keys h) i OH_TOMB;
                                     Some (h\<lparr>oh_keys := ks, oh_len := oh_len h - 1\<rparr>, ctx', n + 1) }
                     else Some (h, ctx', n) }
           else Some (h, ctx, n) }) (h, ctx, 0)"

definition alt_open_hash_bytes :: "ohash \<Rightarrow> nat" where
  "alt_open_hash_bytes h = 20 + (oh_mask h + 1) * 8"

definition alt_open_hash_shape :: "ohash \<Rightarrow> u32 \<times> nat" where
  "alt_open_hash_shape h = (oh_len h, oh_mask h + 1)"

text \<open>The inner loop of a rehash, and the growing insertion. The two reads of the cycle counter are
  arguments; so is the content of the new value array.\<close>

partial_function (option) oh_place :: "u32 list \<Rightarrow> nat \<Rightarrow> nat \<Rightarrow> nat option" where
  "oh_place nk msk j =
    do { c \<leftarrow> rd nk j; if c \<noteq> OH_EMPTY then oh_place nk msk ((j + 1) AND msk) else Some j }"

definition oh_rehash :: "ohash \<Rightarrow> u32 list \<Rightarrow> (u32 list \<times> u32 list) option" where
  "oh_rehash h nv =
    (let n = (oh_mask h + 1) * 2
     in for_loop [0..<oh_mask h + 1] (\<lambda>i (nk, nv).
          do { key \<leftarrow> rd (oh_keys h) i;
               if key = OH_EMPTY \<or> key = OH_TOMB then Some (nk, nv)
               else do { j \<leftarrow> oh_place nk (n - 1) (oh_home key (n - 1));
                         v \<leftarrow> rd (oh_vals h) i;
                         nk' \<leftarrow> wr nk j key;
                         nv' \<leftarrow> wr nv j v;
                         Some (nk', nv') } }) (replicate n OH_EMPTY, nv))"

definition alt_open_hash_insert_grow ::
  "ohash \<Rightarrow> u32 \<Rightarrow> u32 \<Rightarrow> u32 list \<Rightarrow> u32 \<Rightarrow> u32 \<Rightarrow> (ohash \<times> u32) option"
where
  "alt_open_hash_insert_grow h k v nv t0 t1 =
    (if oh_mask h + 1 < (unat (oh_used h) + 1) * 2
     then do { (ks, vs) \<leftarrow> oh_rehash h nv;
               let h' = h\<lparr>oh_keys := ks, oh_vals := vs, oh_mask := (oh_mask h + 1) * 2 - 1, oh_used := oh_len h\<rparr>;
               h'' \<leftarrow> oh_insert h' k v;
               Some (h'', t1 - t0) }
     else do { h' \<leftarrow> oh_insert h k v; Some (h', 0) })"

text \<open>The same equations with the recursive calls inside case distinctions, so that they evaluate step by step.\<close>

lemma oh_insert_loop_code [code]:
  "oh_insert_loop h k v i tomb =
    (case rd (oh_keys h) i of None \<Rightarrow> None
     | Some c \<Rightarrow>
        if c = k then map_option (\<lambda>vs. h\<lparr>oh_vals := vs\<rparr>) (wr (oh_vals h) i v)
        else if c = OH_EMPTY
        then (case (wr (oh_keys h) (case tomb of Some t \<Rightarrow> t | None \<Rightarrow> i) k, wr (oh_vals h) (case tomb of Some t \<Rightarrow> t | None \<Rightarrow> i) v) of
               (Some ks, Some vs) \<Rightarrow> Some (h\<lparr>oh_keys := ks, oh_vals := vs, oh_len := oh_len h + 1,
                 oh_used := (case tomb of Some t \<Rightarrow> oh_used h | None \<Rightarrow> oh_used h + 1)\<rparr>)
             | _ \<Rightarrow> None)
        else oh_insert_loop h k v ((i + 1) AND oh_mask h) (if c = OH_TOMB \<and> tomb = None then Some i else tomb))"
  by (subst oh_insert_loop.simps) (auto simp: Let_def OH_EMPTY_def OH_TOMB_def map_conv_bind_option split: option.splits Option.bind_splits)

lemma oh_get_loop_code [code]:
  "oh_get_loop h k i =
    (case rd (oh_keys h) i of None \<Rightarrow> None
     | Some c \<Rightarrow> if c = k then map_option Some (rd (oh_vals h) i) else if c = OH_EMPTY then Some None
        else oh_get_loop h k ((i + 1) AND oh_mask h))"
  by (subst oh_get_loop.simps) (auto simp: map_conv_bind_option split: option.splits Option.bind_splits)

lemma oh_remove_loop_code [code]:
  "oh_remove_loop h k i =
    (case rd (oh_keys h) i of None \<Rightarrow> None
     | Some c \<Rightarrow> if c = k then map_option (\<lambda>ks. h\<lparr>oh_keys := ks, oh_len := oh_len h - 1\<rparr>) (wr (oh_keys h) i OH_TOMB)
        else if c = OH_EMPTY then Some h else oh_remove_loop h k ((i + 1) AND oh_mask h))"
  by (subst oh_remove_loop.simps) (auto simp: map_conv_bind_option split: option.splits Option.bind_splits)

section \<open>Tables\<close>

definition oh_key :: "u32 \<Rightarrow> bool" where
  "oh_key k \<longleftrightarrow> k \<noteq> OH_EMPTY \<and> k \<noteq> OH_TOMB"

text \<open>The slot at a distance from the home of a key, in a table of \<open>n\<close> slots.\<close>

definition slot :: "nat \<Rightarrow> u32 \<Rightarrow> nat \<Rightarrow> nat" where
  "slot n k d = (unat (oh_mix k) + d) mod n"

text \<open>A table: no live key twice, and none behind an empty slot of its probe sequence.\<close>

definition tbl :: "nat \<Rightarrow> u32 list \<Rightarrow> bool" where
  "tbl n ks \<longleftrightarrow> length ks = n \<and>
     (\<forall>k i j. oh_key k \<longrightarrow> i < n \<longrightarrow> j < n \<longrightarrow> ks ! i = k \<longrightarrow> ks ! j = k \<longrightarrow> i = j) \<and>
     (\<forall>k d e. oh_key k \<longrightarrow> d < n \<longrightarrow> ks ! slot n k d = k \<longrightarrow> e < d \<longrightarrow> ks ! slot n k e \<noteq> OH_EMPTY)"

definition filled :: "u32 list \<Rightarrow> nat set" where
  "filled ks = {i. i < length ks \<and> ks ! i \<noteq> OH_EMPTY}"

definition live :: "u32 list \<Rightarrow> nat set" where
  "live ks = {i. i < length ks \<and> oh_key (ks ! i)}"

definition oh_inv :: "ohash \<Rightarrow> bool" where
  "oh_inv h \<longleftrightarrow> (\<exists>e. e \<le> 30 \<and> oh_mask h + 1 = 2 ^ e) \<and> tbl (oh_mask h + 1) (oh_keys h) \<and>
     length (oh_vals h) = oh_mask h + 1 \<and> unat (oh_used h) = card (filled (oh_keys h)) \<and>
     unat (oh_len h) = card (live (oh_keys h)) \<and> card (filled (oh_keys h)) < oh_mask h + 1"

definition oh_abs :: "ohash \<Rightarrow> u32 \<rightharpoonup> u32" where
  "oh_abs h k = (if oh_key k then map_of (zip (oh_keys h) (oh_vals h)) k else None)"

definition oh_space :: "ohash \<Rightarrow> enat" where
  "oh_space h = enat (oh_mask h - card (filled (oh_keys h)))"

lemma slot_less: "0 < n \<Longrightarrow> slot n k d < n"
  by (simp add: slot_def)

lemma mask_mod: "oh_mask h + 1 = 2 ^ e \<Longrightarrow> x AND oh_mask h = x mod (oh_mask h + 1)"
proof -
  assume e: "oh_mask h + 1 = 2 ^ e"
  then have "oh_mask h = mask e" by (simp add: mask_eq_exp_minus_1 flip: e)
  then have "x AND oh_mask h = take_bit e x" by (simp add: take_bit_eq_mask)
  then show ?thesis using e by (simp add: take_bit_eq_mod)
qed

lemma slot_Suc: "slot n k (Suc d) = (slot n k d + 1) mod n"
  by (simp add: slot_def mod_Suc_eq)

lemma slot_reach: "i < n \<Longrightarrow> \<exists>d<n. slot n k d = i"
proof -
  assume i: "i < n"
  let ?a = "unat (oh_mix k) mod n" and ?m = "unat (oh_mix k)"
  have a: "?a < n" using i by simp
  show ?thesis
  proof (cases "?a \<le> i")
    case True
    have "(?m + (i - ?a)) mod n = (?a + (i - ?a)) mod n" by (simp add: mod_add_left_eq)
    then have "slot n k (i - ?a) = i" using True i by (simp add: slot_def)
    then show ?thesis using i by (intro exI [of _ "i - ?a"]) auto
  next
    case False
    have "(?m + (n - ?a + i)) mod n = (?a + (n - ?a + i)) mod n" by (simp add: mod_add_left_eq)
    moreover have "?a + (n - ?a + i) = n + i" using a by simp
    ultimately have "slot n k (n - ?a + i) = i" using i by (simp add: slot_def)
    moreover have "n - ?a + i < n" using False a by linarith
    ultimately show ?thesis by blast
  qed
qed

section \<open>Where a probe stops\<close>

lemma empty_slot:
  assumes "length ks = n" and "card (filled ks) < n"
  shows "\<exists>i<n. ks ! i = OH_EMPTY"
proof (rule ccontr)
  assume "\<not> (\<exists>i<n. ks ! i = OH_EMPTY)"
  then have "filled ks = {..<n}" using assms(1) by (auto simp: filled_def)
  then show False using assms(2) by simp
qed

lemma probe_stop:
  assumes "length ks = n" and "card (filled ks) < n"
  obtains D where "D < n" and "ks ! slot n k D = k \<or> ks ! slot n k D = OH_EMPTY"
    and "\<And>d. d < D \<Longrightarrow> ks ! slot n k d \<noteq> k \<and> ks ! slot n k d \<noteq> OH_EMPTY"
proof -
  let ?P = "\<lambda>d. ks ! slot n k d = k \<or> ks ! slot n k d = OH_EMPTY"
  obtain i where "i < n" "ks ! i = OH_EMPTY" using empty_slot [OF assms] by blast
  then obtain d0 where d0: "d0 < n" "?P d0" using slot_reach [of i n k] by blast
  define D where "D = (LEAST d. ?P d)"
  have "?P D" unfolding D_def by (rule LeastI [of ?P, OF d0(2)])
  moreover have "D \<le> d0" unfolding D_def by (rule Least_le [of ?P, OF d0(2)])
  then have "D < n" using d0(1) by simp
  moreover have "\<not> ?P d" if "d < D" for d using not_less_Least that unfolding D_def by blast
  ultimately show ?thesis by (intro that [of D]) simp_all
qed

text \<open>A key that the probe misses is not in the table.\<close>

lemma probe_miss:
  assumes "tbl n ks" and "oh_key k" and "D < n" and "ks ! slot n k D = OH_EMPTY"
    and "\<And>d. d < D \<Longrightarrow> ks ! slot n k d \<noteq> k"
  shows "k \<notin> set ks"
proof
  assume "k \<in> set ks"
  then obtain i where i: "i < n" "ks ! i = k" using assms(1) by (auto simp: in_set_conv_nth tbl_def)
  then obtain d where d: "d < n" "slot n k d = i" using slot_reach by blast
  have "ks ! slot n k D \<noteq> k" using assms(2,4) by (auto simp: oh_key_def)
  then have "d \<noteq> D" using d i by auto
  moreover have "\<not> d < D" using assms(5) d(2) i(2) by blast
  ultimately have "D < d" by linarith
  then show False using assms(1,2,4) d i by (auto simp: tbl_def)
qed

lemma map_of_zip_at:
  assumes "tbl n ks" and "length vs = n" and "oh_key k" and "i < n" and "ks ! i = k"
  shows "map_of (zip ks vs) k = Some (vs ! i)"
proof -
  have len: "length ks = n" using assms(1) by (simp add: tbl_def)
  then have "(k, vs ! i) \<in> set (zip ks vs)" using assms(2,4,5) by (auto simp: set_zip)
  then obtain v where v: "map_of (zip ks vs) k = Some v" using weak_map_of_SomeI by force
  then have "(k, v) \<in> set (zip ks vs)" by (rule map_of_SomeD)
  then obtain j where j: "j < n" "ks ! j = k" "vs ! j = v" using len assms(2) by (auto simp: in_set_zip)
  then have "i = j" using assms(1,3-5) by (auto simp: tbl_def)
  then show ?thesis using v j by simp
qed

lemma map_of_zip_miss: "k \<notin> set ks \<Longrightarrow> map_of (zip ks vs) k = None"
  by (auto simp: map_of_eq_None_iff dest: set_zip_leftD)

text \<open>A loop whose states along the probe sequence agree stops where the sequence does.\<close>

lemma probe_loop: "(\<And>d. d < D \<Longrightarrow> f d = f (Suc d)) \<Longrightarrow> f 0 = f D"
  by (induction D) auto

lemma oh_invE:
  assumes "oh_inv h"
  obtains e where "oh_mask h + 1 = 2 ^ e" "e \<le> 30" "tbl (oh_mask h + 1) (oh_keys h)" "length (oh_keys h) = oh_mask h + 1"
    "length (oh_vals h) = oh_mask h + 1" "card (filled (oh_keys h)) < oh_mask h + 1"
    "unat (oh_used h) = card (filled (oh_keys h))" "unat (oh_len h) = card (live (oh_keys h))"
  using assms by (auto simp: oh_inv_def tbl_def)

lemma home_slot: "oh_mask h + 1 = 2 ^ e \<Longrightarrow> e \<le> 30 \<Longrightarrow> oh_home k (oh_mask h) = slot (oh_mask h + 1) k 0"
proof -
  assume e: "oh_mask h + 1 = 2 ^ e" "e \<le> 30"
  have "(2 :: nat) ^ e \<le> 2 ^ 30" using e(2) by (rule power_increasing) simp
  then have "oh_mask h < 2 ^ 32" using e(1) by simp
  then have "unat (of_nat (oh_mask h) :: u32) = oh_mask h" by (simp add: unat_of_nat take_bit_nat_eq_self)
  then show ?thesis using mask_mod [OF e(1)] by (simp add: slot_def oh_home_def unsigned_and_eq)
qed

lemma next_slot: "oh_mask h + 1 = 2 ^ e \<Longrightarrow> (slot (oh_mask h + 1) k d + 1) AND oh_mask h = slot (oh_mask h + 1) k (Suc d)"
  using mask_mod [of h e] slot_Suc [of "oh_mask h + 1" k d] by simp

section \<open>Lookup and removal\<close>

lemma oh_get_ok:
  assumes inv: "oh_inv h" and k: "oh_key k"
  shows "oh_get h k = Some (oh_abs h k)"
  using inv
proof (rule oh_invE)
  fix e
  let ?n = "oh_mask h + 1" and ?ks = "oh_keys h"
  assume e: "?n = 2 ^ e" and e30: "e \<le> 30" and t: "tbl ?n ?ks" and len: "length ?ks = ?n" "length (oh_vals h) = ?n" and c: "card (filled ?ks) < ?n"
  obtain D where D: "D < ?n" "?ks ! slot ?n k D = k \<or> ?ks ! slot ?n k D = OH_EMPTY"
    "\<And>d. d < D \<Longrightarrow> ?ks ! slot ?n k d \<noteq> k \<and> ?ks ! slot ?n k d \<noteq> OH_EMPTY"
    using probe_stop [OF len(1) c] by blast
  have sl: "slot ?n k d < ?n" for d by (rule slot_less) simp
  have "oh_get_loop h k (slot ?n k 0) = oh_get_loop h k (slot ?n k D)"
  proof (rule probe_loop [of D "\<lambda>d. oh_get_loop h k (slot ?n k d)"])
    fix d
    assume "d < D"
    then show "oh_get_loop h k (slot ?n k d) = oh_get_loop h k (slot ?n k (Suc d))"
      using D(3) [of d] sl [of d] len next_slot [OF e, of k d] by (subst oh_get_loop.simps) simp
  qed
  also have "\<dots> = Some (oh_abs h k)"
  proof (cases "?ks ! slot ?n k D = k")
    case True
    then show ?thesis
      using sl [of D] len map_of_zip_at [OF t len(2) k sl [of D] True] k by (subst oh_get_loop.simps) (simp add: oh_abs_def)
  next
    case False
    then have "k \<notin> set ?ks" using probe_miss [OF t k D(1)] D(2,3) by blast
    then show ?thesis
      using False D(2) sl [of D] len by (subst oh_get_loop.simps) (simp add: oh_abs_def map_of_zip_miss)
  qed
  finally show ?thesis by (simp add: oh_get_def home_slot [OF e e30])
qed

lemma filled_tomb: "i < length ks \<Longrightarrow> ks ! i \<noteq> OH_EMPTY \<Longrightarrow> filled (ks[i := OH_TOMB]) = filled ks"
  by (auto simp: filled_def nth_list_update OH_TOMB_def OH_EMPTY_def)

lemma live_tomb: "i < length ks \<Longrightarrow> live (ks[i := OH_TOMB]) = live ks - {i}"
  by (auto simp: live_def nth_list_update oh_key_def)

lemma tbl_tomb:
  assumes "tbl n ks" and "i < n" and "oh_key (ks ! i)"
  shows "tbl n (ks[i := OH_TOMB])"
proof -
  have len: "length ks = n" using assms(1) by (simp add: tbl_def)
  have tomb: "\<not> oh_key OH_TOMB" "OH_TOMB \<noteq> OH_EMPTY" by (simp_all add: oh_key_def OH_TOMB_def OH_EMPTY_def)
  have nth: "ks[i := OH_TOMB] ! j = k \<Longrightarrow> oh_key k \<Longrightarrow> j < n \<Longrightarrow> j \<noteq> i \<and> ks ! j = k" for j k
    using tomb len assms(2) by (cases "j = i") auto
  have keep: "ks ! j \<noteq> OH_EMPTY \<Longrightarrow> ks[i := OH_TOMB] ! j \<noteq> OH_EMPTY" if "j < n" for j
    using tomb len that by (cases "j = i") auto
  have sl: "slot n k d < n" for k d using assms(2) slot_less by fastforce
  show ?thesis
    unfolding tbl_def using assms(1) len nth keep sl unfolding tbl_def by (metis length_list_update)
qed

lemma map_of_zip_tomb:
  assumes "tbl n ks" and "length vs = n" and "i < n" and "ks ! i = k" and "oh_key k" and "oh_key k'"
  shows "map_of (zip (ks[i := OH_TOMB]) vs) k' = (if k' = k then None else map_of (zip ks vs) k')"
proof -
  have len: "length ks = n" using assms(1) by (simp add: tbl_def)
  have t: "tbl n (ks[i := OH_TOMB])" using tbl_tomb assms by blast
  have mem: "j < n \<Longrightarrow> ks[i := OH_TOMB] ! j = k' \<longleftrightarrow> j \<noteq> i \<and> ks ! j = k'" for j
    using assms(3,6) len by (cases "j = i") (auto simp: oh_key_def)
  have uniq: "j < n \<Longrightarrow> ks ! j = k \<Longrightarrow> j = i" for j using assms(1,3,4,5) by (auto simp: tbl_def)
  show ?thesis
  proof (cases "\<exists>j<n. j \<noteq> i \<and> ks ! j = k'")
    case True
    then obtain j where j: "j < n" "j \<noteq> i" "ks ! j = k'" by blast
    then have "k' \<noteq> k" using uniq by blast
    moreover have "ks[i := OH_TOMB] ! j = k'" using mem j by blast
    ultimately show ?thesis
      using map_of_zip_at [OF t assms(2,6) j(1)] map_of_zip_at [OF assms(1,2,6) j(1,3)] by simp
  next
    case False
    then have "k' \<notin> set (ks[i := OH_TOMB])" using mem len by (auto simp: in_set_conv_nth)
    moreover have "k' \<notin> set ks" if "k' \<noteq> k" using False that assms(3,4) len by (auto simp: in_set_conv_nth)
    ultimately show ?thesis by (auto simp: map_of_zip_miss)
  qed
qed

lemma oh_tomb_ok:
  assumes inv: "oh_inv h" and i: "i < oh_mask h + 1" and k: "oh_key (oh_keys h ! i)"
  shows "oh_inv (h\<lparr>oh_keys := (oh_keys h)[i := OH_TOMB], oh_len := oh_len h - 1\<rparr>)"
    and "oh_abs (h\<lparr>oh_keys := (oh_keys h)[i := OH_TOMB], oh_len := oh_len h - 1\<rparr>) = (oh_abs h)(oh_keys h ! i := None)"
    and "oh_space (h\<lparr>oh_keys := (oh_keys h)[i := OH_TOMB], oh_len := oh_len h - 1\<rparr>) = oh_space h"
proof -
  let ?ks = "oh_keys h" and ?n = "oh_mask h + 1"
  have t: "tbl ?n ?ks" and len: "length ?ks = ?n" "length (oh_vals h) = ?n"
    and ln: "unat (oh_len h) = card (live ?ks)"
    using inv by (auto simp: oh_inv_def tbl_def)
  have f: "filled (?ks[i := OH_TOMB]) = filled ?ks" using filled_tomb i len k by (simp add: oh_key_def)
  have l: "live (?ks[i := OH_TOMB]) = live ?ks - {i}" "i \<in> live ?ks" "finite (live ?ks)"
    using live_tomb [of i ?ks] i len k by (simp_all add: live_def)
  have "unat (oh_len h - 1) = card (live ?ks - {i})"
  proof -
    have "0 < card (live ?ks)" using l by (auto simp: card_gt_0_iff)
    then have "1 \<le> oh_len h" using ln by (simp add: word_le_nat_alt)
    then show ?thesis using ln l by (simp add: unat_sub)
  qed
  then show "oh_inv (h\<lparr>oh_keys := ?ks[i := OH_TOMB], oh_len := oh_len h - 1\<rparr>)"
    using inv tbl_tomb [OF t i k] f l by (simp add: oh_inv_def)
  show "oh_abs (h\<lparr>oh_keys := ?ks[i := OH_TOMB], oh_len := oh_len h - 1\<rparr>) = (oh_abs h)(?ks ! i := None)"
    using map_of_zip_tomb [OF t len(2) i refl k] k by (auto simp: oh_abs_def fun_eq_iff)
  show "oh_space (h\<lparr>oh_keys := ?ks[i := OH_TOMB], oh_len := oh_len h - 1\<rparr>) = oh_space h"
    using f by (simp add: oh_space_def)
qed

lemma oh_remove_ok:
  assumes inv: "oh_inv h" and k: "oh_key k"
  shows "\<exists>h'. oh_remove h k = Some h' \<and> oh_inv h' \<and> oh_abs h' = (oh_abs h)(k := None) \<and> oh_space h' = oh_space h"
  using inv
proof (rule oh_invE)
  fix e
  let ?n = "oh_mask h + 1" and ?ks = "oh_keys h"
  assume e: "?n = 2 ^ e" and e30: "e \<le> 30" and t: "tbl ?n ?ks" and len: "length ?ks = ?n" "length (oh_vals h) = ?n" and c: "card (filled ?ks) < ?n"
  obtain D where D: "D < ?n" "?ks ! slot ?n k D = k \<or> ?ks ! slot ?n k D = OH_EMPTY"
    "\<And>d. d < D \<Longrightarrow> ?ks ! slot ?n k d \<noteq> k \<and> ?ks ! slot ?n k d \<noteq> OH_EMPTY"
    using probe_stop [OF len(1) c] by blast
  have sl: "slot ?n k d < ?n" for d by (rule slot_less) simp
  have loop: "oh_remove_loop h k (slot ?n k 0) = oh_remove_loop h k (slot ?n k D)"
  proof (rule probe_loop [of D "\<lambda>d. oh_remove_loop h k (slot ?n k d)"])
    fix d
    assume "d < D"
    then show "oh_remove_loop h k (slot ?n k d) = oh_remove_loop h k (slot ?n k (Suc d))"
      using D(3) [of d] sl [of d] len next_slot [OF e, of k d] by (subst oh_remove_loop.simps) simp
  qed
  show ?thesis
  proof (cases "?ks ! slot ?n k D = k")
    case True
    then have "oh_remove h k = Some (h\<lparr>oh_keys := ?ks[slot ?n k D := OH_TOMB], oh_len := oh_len h - 1\<rparr>)"
      using sl [of D] len loop home_slot [OF e e30, of k] by (subst (asm) (2) oh_remove_loop.simps) (simp add: oh_remove_def)
    then show ?thesis using oh_tomb_ok [OF inv sl [of D]] True k by simp
  next
    case False
    then have "k \<notin> set ?ks" using probe_miss [OF t k D(1)] D(2,3) by blast
    then have "oh_abs h k = None" by (simp add: oh_abs_def map_of_zip_miss)
    moreover have "oh_remove h k = Some h"
      using False D(2) sl [of D] len loop home_slot [OF e e30, of k] by (subst (asm) (2) oh_remove_loop.simps) (simp add: oh_remove_def)
    ultimately show ?thesis using inv by (auto simp: fun_eq_iff)
  qed
qed

section \<open>Insertion\<close>

lemma slot_inj_le:
  assumes "d \<le> e" and "e < n" and "slot n k e = slot n k d"
  shows "d = e"
proof -
  have "n dvd (unat (oh_mix k) + e) - (unat (oh_mix k) + d)"
    using assms(1,3) mod_eq_dvd_iff_nat [of "unat (oh_mix k) + d" "unat (oh_mix k) + e" n] by (simp add: slot_def)
  then have "n dvd e - d" by simp
  then show ?thesis using assms(1,2) dvd_imp_le [of n "e - d"] by force
qed

lemma probe_slot_inj: "d < n \<Longrightarrow> e < n \<Longrightarrow> slot n k d = slot n k e \<Longrightarrow> d = e"
  using slot_inj_le [of d e n k] slot_inj_le [of e d n k] by (cases "d \<le> e") auto

lemma map_of_zip_iff:
  assumes "tbl n ks" and "length vs = n" and "oh_key k"
  shows "map_of (zip ks vs) k = Some v \<longleftrightarrow> (\<exists>i<n. ks ! i = k \<and> vs ! i = v)"
proof
  assume "map_of (zip ks vs) k = Some v"
  then have "(k, v) \<in> set (zip ks vs)" by (rule map_of_SomeD)
  then show "\<exists>i<n. ks ! i = k \<and> vs ! i = v" using assms(1,2) by (auto simp: in_set_zip tbl_def)
next
  assume "\<exists>i<n. ks ! i = k \<and> vs ! i = v"
  then show "map_of (zip ks vs) k = Some v" using map_of_zip_at [OF assms] by blast
qed

text \<open>Writing a new key to a slot of its probe sequence that holds no live key, with no empty slot before it.\<close>

lemma tbl_put:
  assumes t: "tbl n ks" and k: "oh_key k" "k \<notin> set ks" and d: "d < n" "\<not> oh_key (ks ! slot n k d)"
    and before: "\<And>e. e < d \<Longrightarrow> ks ! slot n k e \<noteq> OH_EMPTY"
  shows "tbl n (ks[slot n k d := k])"
proof -
  let ?j = "slot n k d"
  have len: "length ks = n" using t by (simp add: tbl_def)
  have sl: "slot n x y < n" for x y using d(1) slot_less by fastforce
  have nth: "i < n \<Longrightarrow> ks[?j := k] ! i = x \<Longrightarrow> (i = ?j \<and> x = k) \<or> (i \<noteq> ?j \<and> ks ! i = x)" for i x
    using len by (cases "i = ?j") auto
  have notk: "i < n \<Longrightarrow> ks ! i \<noteq> k" for i using k(2) len by auto
  have uniq: "i = j" if "oh_key x" "i < n" "j < n" "ks[?j := k] ! i = x" "ks[?j := k] ! j = x" for x i j
  proof -
    have same: "i = j" if "ks ! i = x" "ks ! j = x" using that \<open>oh_key x\<close> \<open>i < n\<close> \<open>j < n\<close> t by (simp add: tbl_def)
    have "ks ! i \<noteq> k" "ks ! j \<noteq> k" using notk that by blast+
    then show ?thesis using nth [OF that(2,4)] nth [OF that(3,5)] same by blast
  qed
  have keep: "ks[?j := k] ! i \<noteq> OH_EMPTY" if "ks ! i \<noteq> OH_EMPTY" "i < n" for i
    using that k(1) len by (cases "i = ?j") (auto simp: oh_key_def)
  have probe: "ks[?j := k] ! slot n x e \<noteq> OH_EMPTY" if x: "oh_key x" "y < n" "ks[?j := k] ! slot n x y = x" "e < y" for x y e
  proof -
    consider "slot n x y = ?j" "x = k" | "ks ! slot n x y = x" using nth [OF sl x(3)] by blast
    then show ?thesis
    proof cases
      case 1
      then have "y = d" using probe_slot_inj x(2) d(1) by blast
      then show ?thesis using keep [OF _ sl] before 1(2) x(4) by blast
    next
      case 2
      then show ?thesis using keep [OF _ sl] t x unfolding tbl_def by blast
    qed
  qed
  show ?thesis unfolding tbl_def using len uniq probe by simp
qed

lemma map_of_zip_put:
  assumes t: "tbl n ks" "tbl n (ks[j := k])" and vs: "length vs = n" and j: "j < n" "ks ! j = k \<or> \<not> oh_key (ks ! j)" and x: "oh_key x"
    and k: "oh_key k"
  shows "map_of (zip (ks[j := k]) (vs[j := v])) x = (if x = k then Some v else map_of (zip ks vs) x)"
proof (cases "x = k")
  case True
  have "length ks = n" using t(1) by (simp add: tbl_def)
  then have "ks[j := k] ! j = k" using j by simp
  then show ?thesis using map_of_zip_at [OF t(2) _ k j(1), of "vs[j := v]"] vs j(1) True by simp
next
  case False
  have len: "length ks = n" using t(1) by (simp add: tbl_def)
  have "(\<exists>i<n. ks[j := k] ! i = x \<and> vs[j := v] ! i = w) = (\<exists>i<n. ks ! i = x \<and> vs ! i = w)" for w
  proof -
    have "ks[j := k] ! i = x \<and> vs[j := v] ! i = w \<longleftrightarrow> ks ! i = x \<and> vs ! i = w" if "i < n" for i
      using that len vs j(2) x False k by (cases "i = j") auto
    then show ?thesis by blast
  qed
  then have "map_of (zip (ks[j := k]) (vs[j := v])) x = Some w \<longleftrightarrow> map_of (zip ks vs) x = Some w" for w
    using map_of_zip_iff [OF t(2) _ x, of "vs[j := v]" w] map_of_zip_iff [OF t(1) vs x, of w] vs by simp
  then show ?thesis using False by (metis option.exhaust)
qed

lemma insert_walk:
  assumes e: "oh_mask h + 1 = 2 ^ e" and len: "length (oh_keys h) = oh_mask h + 1"
    and before: "\<And>d. d < D \<Longrightarrow> oh_keys h ! slot (oh_mask h + 1) k d \<noteq> k \<and> oh_keys h ! slot (oh_mask h + 1) k d \<noteq> OH_EMPTY"
  shows "\<exists>t. oh_insert_loop h k v (slot (oh_mask h + 1) k 0) None = oh_insert_loop h k v (slot (oh_mask h + 1) k D) t \<and>
     (\<forall>j. t = Some j \<longrightarrow> (\<exists>d<D. j = slot (oh_mask h + 1) k d \<and> oh_keys h ! j = OH_TOMB))"
  using before
proof (induction D)
  case (Suc D)
  let ?n = "oh_mask h + 1"
  obtain t where t: "oh_insert_loop h k v (slot ?n k 0) None = oh_insert_loop h k v (slot ?n k D) t"
    "\<forall>j. t = Some j \<longrightarrow> (\<exists>d<D. j = slot ?n k d \<and> oh_keys h ! j = OH_TOMB)"
    using Suc by auto
  let ?t = "if oh_keys h ! slot ?n k D = OH_TOMB \<and> t = None then Some (slot ?n k D) else t"
  have "oh_insert_loop h k v (slot ?n k D) t = oh_insert_loop h k v (slot ?n k (Suc D)) ?t"
    using Suc.prems [of D] slot_less [of ?n k D] len next_slot [OF e, of k D]
    by (subst oh_insert_loop.simps) (simp add: Let_def)
  then show ?case using t by (intro exI [of _ ?t]) (auto split: if_splits intro: less_SucI)
qed auto

lemma filled_put: "i < length ks \<Longrightarrow> k \<noteq> OH_EMPTY \<Longrightarrow> filled (ks[i := k]) = insert i (filled ks)"
  by (auto simp: filled_def nth_list_update)

lemma live_put: "i < length ks \<Longrightarrow> oh_key k \<Longrightarrow> live (ks[i := k]) = insert i (live ks)"
  by (auto simp: live_def nth_list_update)

lemma finite_slots [simp]: "finite (filled ks)" "finite (live ks)"
  by (simp_all add: filled_def live_def)

lemma live_filled: "live ks \<subseteq> filled ks"
  by (auto simp: live_def filled_def oh_key_def)

lemma unat_Suc: "unat (w :: u32) < 2 ^ 30 \<Longrightarrow> unat (w + 1) = unat w + 1"
  by (subst unat_add_lem [THEN iffD1]) simp_all

lemma filled_bound:
  assumes "oh_inv h"
  shows "card (live (oh_keys h)) \<le> card (filled (oh_keys h))" and "card (filled (oh_keys h)) < 2 ^ 30"
proof -
  show "card (live (oh_keys h)) \<le> card (filled (oh_keys h))" by (rule card_mono [OF _ live_filled]) simp
  obtain e where "e \<le> 30" "oh_mask h + 1 = 2 ^ e" "card (filled (oh_keys h)) < oh_mask h + 1"
    using assms by (auto simp: oh_inv_def)
  moreover have "(2 :: nat) ^ e \<le> 2 ^ 30" using \<open>e \<le> 30\<close> by (rule power_increasing) simp
  ultimately show "card (filled (oh_keys h)) < 2 ^ 30" by linarith
qed

text \<open>The two ways in which an insertion ends.\<close>

lemma oh_update_ok:
  assumes inv: "oh_inv h" and k: "oh_key k" and j: "j < oh_mask h + 1" "oh_keys h ! j = k"
  shows "oh_inv (h\<lparr>oh_vals := (oh_vals h)[j := v]\<rparr>) \<and> oh_abs (h\<lparr>oh_vals := (oh_vals h)[j := v]\<rparr>) = (oh_abs h)(k \<mapsto> v) \<and>
    oh_space (h\<lparr>oh_vals := (oh_vals h)[j := v]\<rparr>) = oh_space h"
proof -
  let ?ks = "oh_keys h" and ?n = "oh_mask h + 1"
  have t: "tbl ?n ?ks" and vs: "length (oh_vals h) = ?n" using inv by (auto simp: oh_inv_def)
  have same: "?ks[j := k] = ?ks" using j(2) by (metis list_update_id)
  have "map_of (zip ?ks ((oh_vals h)[j := v])) x = (if x = k then Some v else map_of (zip ?ks (oh_vals h)) x)" if "oh_key x" for x
    using map_of_zip_put [OF t _ vs j(1) _ that k, of v] t j(2) by (simp add: same)
  then have "oh_abs (h\<lparr>oh_vals := (oh_vals h)[j := v]\<rparr>) = (oh_abs h)(k \<mapsto> v)" using k by (auto simp: oh_abs_def fun_eq_iff)
  then show ?thesis using inv by (simp add: oh_inv_def oh_space_def)
qed

lemma oh_put_ok:
  assumes inv: "oh_inv h" and k: "oh_key k" "k \<notin> set (oh_keys h)" and space: "0 < oh_space h"
    and d: "d < oh_mask h + 1" "j = slot (oh_mask h + 1) k d" "\<not> oh_key (oh_keys h ! j)"
    and before: "\<And>e. e < d \<Longrightarrow> oh_keys h ! slot (oh_mask h + 1) k e \<noteq> OH_EMPTY"
    and used: "used = (if oh_keys h ! j = OH_EMPTY then oh_used h + 1 else oh_used h)"
  shows "oh_inv (h\<lparr>oh_keys := (oh_keys h)[j := k], oh_vals := (oh_vals h)[j := v], oh_len := oh_len h + 1, oh_used := used\<rparr>) \<and>
    oh_abs (h\<lparr>oh_keys := (oh_keys h)[j := k], oh_vals := (oh_vals h)[j := v], oh_len := oh_len h + 1, oh_used := used\<rparr>) = (oh_abs h)(k \<mapsto> v) \<and>
    oh_space h \<le> oh_space (h\<lparr>oh_keys := (oh_keys h)[j := k], oh_vals := (oh_vals h)[j := v], oh_len := oh_len h + 1, oh_used := used\<rparr>) + 1"
proof -
  let ?ks = "oh_keys h" and ?n = "oh_mask h + 1"
  have t: "tbl ?n ?ks" and len: "length ?ks = ?n" "length (oh_vals h) = ?n"
    and cnt: "unat (oh_used h) = card (filled ?ks)" "unat (oh_len h) = card (live ?ks)"
    using inv by (auto simp: oh_inv_def tbl_def)
  have j: "j < ?n" using d(2) by (simp add: slot_less)
  have t': "tbl ?n (?ks[j := k])" using tbl_put [OF t k d(1)] d(2,3) before by simp
  have sp: "card (filled ?ks) < oh_mask h" using space by (auto simp: oh_space_def zero_enat_def)
  have f: "filled (?ks[j := k]) = insert j (filled ?ks)" and l: "live (?ks[j := k]) = insert j (live ?ks)"
    using filled_put live_put len j k(1) by (auto simp: oh_key_def)
  have cf: "card (filled (?ks[j := k])) = (if ?ks ! j = OH_EMPTY then card (filled ?ks) + 1 else card (filled ?ks))"
    using f j len by (auto simp: card_insert_if filled_def)
  have cl: "card (live (?ks[j := k])) = card (live ?ks) + 1" using l d(3) by (auto simp: card_insert_if live_def)
  have u: "unat used = card (filled (?ks[j := k]))" "unat (oh_len h + 1) = card (live (?ks[j := k]))"
    using cnt filled_bound [OF inv] by (simp_all add: used cf cl unat_Suc)
  have "map_of (zip (?ks[j := k]) ((oh_vals h)[j := v])) x = (if x = k then Some v else map_of (zip ?ks (oh_vals h)) x)" if "oh_key x" for x
    using map_of_zip_put [OF t t' len(2) j _ that k(1)] d(3) by blast
  then have "oh_abs (h\<lparr>oh_keys := ?ks[j := k], oh_vals := (oh_vals h)[j := v], oh_len := oh_len h + 1, oh_used := used\<rparr>) = (oh_abs h)(k \<mapsto> v)"
    using k(1) by (auto simp: oh_abs_def fun_eq_iff)
  moreover have "card (filled (?ks[j := k])) < ?n" "oh_mask h - card (filled ?ks) \<le> oh_mask h - card (filled (?ks[j := k])) + 1"
    using cf sp by auto
  ultimately show ?thesis using inv t' len u by (auto simp: oh_inv_def oh_space_def one_enat_def)
qed

lemma oh_insert_ok:
  assumes inv: "oh_inv h" and k: "oh_key k" and space: "0 < oh_space h"
  shows "\<exists>h'. oh_insert h k v = Some h' \<and> oh_inv h' \<and> oh_abs h' = (oh_abs h)(k \<mapsto> v) \<and> oh_space h \<le> oh_space h' + 1"
  using inv
proof (rule oh_invE)
  fix e
  let ?n = "oh_mask h + 1" and ?ks = "oh_keys h"
  assume e: "?n = 2 ^ e" and e30: "e \<le> 30" and t: "tbl ?n ?ks" and len: "length ?ks = ?n" "length (oh_vals h) = ?n" and c: "card (filled ?ks) < ?n"
  obtain D where D: "D < ?n" "?ks ! slot ?n k D = k \<or> ?ks ! slot ?n k D = OH_EMPTY"
    "\<And>d. d < D \<Longrightarrow> ?ks ! slot ?n k d \<noteq> k \<and> ?ks ! slot ?n k d \<noteq> OH_EMPTY"
    using probe_stop [OF len(1) c] by blast
  have sl: "slot ?n k d < ?n" for d by (rule slot_less) simp
  obtain tomb where tomb: "oh_insert h k v = oh_insert_loop h k v (slot ?n k D) tomb"
    "\<And>j. tomb = Some j \<Longrightarrow> \<exists>d<D. j = slot ?n k d \<and> ?ks ! j = OH_TOMB"
    using insert_walk [OF e len(1), of D k v] D(3) home_slot [OF e e30, of k] by (auto simp: oh_insert_def)
  show ?thesis
  proof (cases "?ks ! slot ?n k D = k")
    case True
    then have "oh_insert h k v = Some (h\<lparr>oh_vals := (oh_vals h)[slot ?n k D := v]\<rparr>)"
      using sl [of D] len tomb(1) by (subst (asm) (1) oh_insert_loop.simps) simp
    then show ?thesis using oh_update_ok [OF inv k sl [of D] True, of v] by (auto intro: order_trans)
  next
    case False
    then have E: "?ks ! slot ?n k D = OH_EMPTY" using D(2) by blast
    then have miss: "k \<notin> set ?ks" using probe_miss [OF t k D(1)] D(3) by blast
    let ?j = "case tomb of Some t \<Rightarrow> t | None \<Rightarrow> slot ?n k D"
    let ?u = "case tomb of Some t \<Rightarrow> oh_used h | None \<Rightarrow> oh_used h + 1"
    obtain d where d: "d \<le> D" "?j = slot ?n k d" "\<not> oh_key (?ks ! ?j)" "?u = (if ?ks ! ?j = OH_EMPTY then oh_used h + 1 else oh_used h)"
    proof (cases tomb)
      case None
      then show ?thesis using E that [of D] by (simp add: oh_key_def)
    next
      case (Some j)
      then obtain d where "d < D" "j = slot ?n k d" "?ks ! j = OH_TOMB" using tomb(2) by blast
      then show ?thesis using Some that [of d] by (simp add: oh_key_def OH_TOMB_def OH_EMPTY_def)
    qed
    have "oh_insert h k v = Some (h\<lparr>oh_keys := ?ks[?j := k], oh_vals := (oh_vals h)[?j := v], oh_len := oh_len h + 1, oh_used := ?u\<rparr>)"
      using E False sl len tomb(1) d(2) by (subst (asm) (1) oh_insert_loop.simps) (simp add: OH_TOMB_def OH_EMPTY_def Let_def)
    then show ?thesis
      using oh_put_ok [OF inv k miss space _ d(2,3) _ d(4), of v] d(1) D(1,3) by (smt (verit) le_less_trans less_le_trans)
  qed
qed

interpretation oh: alt_table oh_inv oh_abs oh_key oh_space oh_insert oh_get oh_remove
proof
  fix h k v
  assume inv: "oh_inv h" and k: "oh_key k"
  show "oh_get h k = Some (oh_abs h k)" by (rule oh_get_ok [OF inv k])
  show "\<exists>m'. oh_remove h k = Some m' \<and> oh_inv m' \<and> oh_abs m' = (oh_abs h)(k := None) \<and> oh_space h \<le> oh_space m'"
    using oh_remove_ok [OF inv k] by fastforce
  assume "0 < oh_space h"
  then show "\<exists>m'. oh_insert h k v = Some m' \<and> oh_inv m' \<and> oh_abs m' = (oh_abs h)(k \<mapsto> v) \<and> oh_space h \<le> oh_space m' + 1"
    by (rule oh_insert_ok [OF inv k])
qed

section \<open>Creation\<close>

lemma oh_size_ok: "\<exists>b. oh_size (2 ^ a) cap = 2 ^ b \<and> a \<le> b \<and> cap * 2 \<le> 2 ^ b \<and> (b = a \<or> 2 ^ b < cap * 4)"
proof (induction "cap * 2 - (2 :: nat) ^ a" arbitrary: a rule: less_induct)
  case less
  show ?case
  proof (cases "2 ^ a < cap * 2")
    case True
    have "(0 :: nat) < 2 ^ a" by simp
    then have "cap * 2 - 2 ^ Suc a < cap * 2 - 2 ^ a" using True unfolding power_Suc by linarith
    from less [OF this] obtain b where b: "oh_size (2 ^ Suc a) cap = 2 ^ b" "Suc a \<le> b" "cap * 2 \<le> 2 ^ b" "b = Suc a \<or> 2 ^ b < cap * 4"
      by blast
    moreover have "oh_size (2 ^ a) cap = oh_size (2 ^ Suc a) cap" using True by (subst oh_size.simps) simp
    moreover have "2 ^ b < cap * 4" using b(4) True by auto
    ultimately show ?thesis by (intro exI [of _ b]) auto
  next
    case False
    then show ?thesis by (subst oh_size.simps) (auto intro: exI [of _ a])
  qed
qed

definition fresh_table :: "nat \<Rightarrow> u32 list \<Rightarrow> ohash" where
  "fresh_table n nv = \<lparr>oh_keys = replicate n OH_EMPTY, oh_vals = nv, oh_mask = n - 1, oh_len = 0, oh_used = 0\<rparr>"

lemma fresh_table_ok:
  assumes "n = 2 ^ e" and "e \<le> 30" and "length nv = n"
  shows "oh_inv (fresh_table n nv)" and "oh_abs (fresh_table n nv) = Map.empty"
proof -
  have none: "oh_key k \<Longrightarrow> k \<notin> set (replicate m OH_EMPTY)" for k m by (auto simp: oh_key_def)
  have k: "i < n \<Longrightarrow> \<not> oh_key (replicate n OH_EMPTY ! i)" for i by (simp add: oh_key_def)
  have "tbl n (replicate n OH_EMPTY)" unfolding tbl_def using k slot_less [of n] assms(1) by fastforce
  moreover have "filled (replicate n OH_EMPTY) = {}" "live (replicate n OH_EMPTY) = {}"
    using k by (auto simp: filled_def live_def)
  ultimately show "oh_inv (fresh_table n nv)" using assms by (auto simp: oh_inv_def fresh_table_def)
  show "oh_abs (fresh_table n nv) = Map.empty"
    by (auto simp: oh_abs_def fresh_table_def fun_eq_iff map_of_zip_miss [OF none])
qed

lemma oh_create_ok:
  assumes "cap \<le> 2 ^ 29" and "length vs = oh_size 16 cap"
  shows "oh_inv (oh_create vs cap)" and "oh_abs (oh_create vs cap) = Map.empty" and "enat (2 * cap) \<le> oh_space (oh_create vs cap) + 1"
proof -
  obtain b where b: "oh_size 16 cap = 2 ^ b" "4 \<le> b" "cap * 2 \<le> 2 ^ b" "b = 4 \<or> 2 ^ b < cap * 4"
    using oh_size_ok [of 4 cap] by auto
  have "b < 31"
  proof (rule ccontr)
    assume "\<not> b < 31"
    then have "(2 :: nat) ^ 31 \<le> 2 ^ b" "b \<noteq> 4" using power_increasing [of 31 b "2 :: nat"] by auto
    moreover have "cap * 4 \<le> 2 ^ 31" using assms(1) by simp
    ultimately show False using b(4) by linarith
  qed
  then have b30: "b \<le> 30" by simp
  have c: "oh_create vs cap = fresh_table (2 ^ b) vs" using b(1) by (simp add: oh_create_def fresh_table_def Let_def)
  show "oh_inv (oh_create vs cap)" "oh_abs (oh_create vs cap) = Map.empty"
    unfolding c using fresh_table_ok [OF refl b30] assms(2) b(1) by simp_all
  have "filled (replicate (2 ^ b) OH_EMPTY) = {}" by (auto simp: filled_def)
  then show "enat (2 * cap) \<le> oh_space (oh_create vs cap) + 1"
    unfolding c using b(3) by (simp add: oh_space_def fresh_table_def one_enat_def)
qed

section \<open>Eviction by a scan\<close>

text \<open>The entries in the order of the slots, and what a scan with a stateful predicate evicts.\<close>

definition oh_ents :: "u32 list \<Rightarrow> u32 list \<Rightarrow> (u32 \<times> u32) list" where
  "oh_ents ks vs = filter (\<lambda>p. oh_key (fst p)) (zip ks vs)"

fun evict_spec :: "(u32 \<Rightarrow> u32 \<Rightarrow> 'c \<Rightarrow> bool \<times> 'c) \<Rightarrow> (u32 \<times> u32) list \<Rightarrow> 'c \<Rightarrow> u32 list \<times> 'c" where
  "evict_spec ex [] c = ([], c)"
| "evict_spec ex ((k, v) # es) c =
    (let (b, c1) = ex k v c; (r, c2) = evict_spec ex es c1 in (if b then k # r else r, c2))"

lemma evict_spec_append:
  "evict_spec ex (xs @ ys) c =
    (let (r, c1) = evict_spec ex xs c; (r', c2) = evict_spec ex ys c1 in (r @ r', c2))"
proof (induction xs arbitrary: c)
  case (Cons p xs)
  then show ?case by (cases p) (simp add: split_beta Let_def)
qed simp

lemma oh_ents_Suc:
  "m < length ks \<Longrightarrow> m < length vs \<Longrightarrow>
   oh_ents (take (Suc m) ks) (take (Suc m) vs) = oh_ents (take m ks) (take m vs) @ (if oh_key (ks ! m) then [(ks ! m, vs ! m)] else [])"
  by (simp add: oh_ents_def take_Suc_conv_app_nth)

lemma oh_evict_scan_ok:
  assumes inv: "oh_inv h"
  shows "\<exists>h'. oh_evict_scan h ex c =
      (let (r, c') = evict_spec ex (oh_ents (oh_keys h) (oh_vals h)) c in Some (h', c', length r)) \<and>
    oh_inv h' \<and> oh_abs h' = oh_abs h |` (- set (fst (evict_spec ex (oh_ents (oh_keys h) (oh_vals h)) c))) \<and> oh_space h' = oh_space h"
proof -
  let ?ks = "oh_keys h" and ?vs = "oh_vals h" and ?n = "oh_mask h + 1"
  let ?E = "\<lambda>m. evict_spec ex (oh_ents (take m ?ks) (take m ?vs)) c"
  let ?P = "\<lambda>m (h', c', n). oh_inv h' \<and> oh_mask h' = oh_mask h \<and> oh_vals h' = ?vs \<and> (\<forall>i\<ge>m. oh_keys h' ! i = ?ks ! i) \<and>
    oh_space h' = oh_space h \<and> c' = snd (?E m) \<and> n = length (fst (?E m)) \<and> oh_abs h' = oh_abs h |` (- set (fst (?E m)))"
  have len: "length ?ks = ?n" "length ?vs = ?n" using inv by (auto simp: oh_inv_def tbl_def)
  have "\<exists>s. oh_evict_scan h ex c = Some s \<and> ?P ?n s"
    unfolding oh_evict_scan_def
  proof (rule for_loop_invariant [where P = ?P], goal_cases)
    case 1
    show ?case using inv by (simp add: oh_ents_def restrict_map_def)
  next
    case (2 i s)
    obtain g d n where s: "s = (g, d, n)" by (cases s)
    note P = 2(2) [unfolded s prod.case]
    have g: "length (oh_keys g) = ?n" using P by (auto simp: oh_inv_def tbl_def)
    have ki: "oh_keys g ! i = ?ks ! i" using P by simp
    show ?case
    proof (cases "oh_key (?ks ! i)")
      case True
      obtain b d' where b: "ex (?ks ! i) (?vs ! i) d = (b, d')" by fastforce
      have E: "?E (Suc i) = (fst (?E i) @ (if b then [?ks ! i] else []), d')"
        using 2(1) len P b True by (simp add: oh_ents_Suc evict_spec_append split_beta)
      let ?g = "g\<lparr>oh_keys := (oh_keys g)[i := OH_TOMB], oh_len := oh_len g - 1\<rparr>"
      have t: "oh_inv ?g" "oh_abs ?g = (oh_abs g)(?ks ! i := None)" "oh_space ?g = oh_space g"
        using oh_tomb_ok [of g i] P 2(1) True ki by simp_all
      have r: "oh_abs ?g = oh_abs h |` (- set (fst (?E i) @ [?ks ! i]))"
        unfolding t(2) using P by (auto simp: restrict_map_def fun_eq_iff)
      have step: "?P (Suc i) (if b then ?g else g, d', if b then n + 1 else n)"
      proof (cases b)
        case True
        have "\<forall>j\<ge>Suc i. oh_keys ?g ! j = ?ks ! j" using P by (auto simp: nth_list_update)
        moreover have "oh_abs ?g = oh_abs h |` (- set (fst (?E (Suc i))))" using r True unfolding E by simp
        ultimately show ?thesis using P t(1,3) True E by simp
      next
        case False
        then show ?thesis using P E by auto
      qed
      have k: "?ks ! i \<noteq> OH_EMPTY" "?ks ! i \<noteq> OH_TOMB" using True by (auto simp: oh_key_def)
      have gv: "oh_vals g = ?vs" using P by simp
      show ?thesis
        by (rule exI [of _ "(if b then ?g else g, d', if b then n + 1 else n)"], rule conjI [OF _ step])
          (use 2(1) len g ki gv k b in \<open>simp add: s\<close>)
    next
      case False
      then have E: "?E (Suc i) = ?E i" using 2(1) len by (simp add: oh_ents_Suc)
      have k: "?ks ! i = OH_EMPTY \<or> ?ks ! i = OH_TOMB" using False by (auto simp: oh_key_def)
      show ?thesis using 2(1) len g ki P k E by (intro exI [of _ s]) (auto simp: s)
    qed
  qed
  then show ?thesis using len by (auto simp: split_beta)
qed

section \<open>Growing\<close>

text \<open>A table without tombstones is one whose filled slots are the live ones.\<close>

lemma oh_abs_dom:
  assumes "oh_inv h"
  shows "dom (oh_abs h) = (!) (oh_keys h) ` live (oh_keys h)" and "card (dom (oh_abs h)) = card (live (oh_keys h))"
proof -
  let ?n = "oh_mask h + 1"
  have t: "tbl ?n (oh_keys h)" and len: "length (oh_keys h) = ?n" "length (oh_vals h) = ?n"
    using assms by (auto simp: oh_inv_def tbl_def)
  have "oh_abs h k \<noteq> None \<longleftrightarrow> (\<exists>i<?n. oh_key k \<and> oh_keys h ! i = k)" for k
    using map_of_zip_iff [OF t len(2), of k] by (auto simp: oh_abs_def)
  then show d: "dom (oh_abs h) = (!) (oh_keys h) ` live (oh_keys h)" using len by (auto simp: live_def image_iff dom_def)
  have "inj_on ((!) (oh_keys h)) (live (oh_keys h))" using t len by (auto simp: inj_on_def live_def tbl_def)
  then show "card (dom (oh_abs h)) = card (live (oh_keys h))" unfolding d by (rule card_image)
qed

lemma oh_place_ok:
  assumes e: "oh_mask h + 1 = 2 ^ e" and e30: "e \<le> 30" and len: "length (oh_keys h) = oh_mask h + 1" and c: "card (filled (oh_keys h)) < oh_mask h + 1"
    and k: "k \<notin> set (oh_keys h)"
  obtains D where "D < oh_mask h + 1" "oh_keys h ! slot (oh_mask h + 1) k D = OH_EMPTY"
    "\<And>d. d < D \<Longrightarrow> oh_keys h ! slot (oh_mask h + 1) k d \<noteq> OH_EMPTY"
    "oh_place (oh_keys h) (oh_mask h) (oh_home k (oh_mask h)) = Some (slot (oh_mask h + 1) k D)"
proof -
  let ?n = "oh_mask h + 1" and ?ks = "oh_keys h"
  have sl: "slot ?n k d < ?n" for d by (rule slot_less) simp
  then have notk: "?ks ! slot ?n k d \<noteq> k" for d using k len by (metis nth_mem)
  obtain D where D: "D < ?n" "?ks ! slot ?n k D = OH_EMPTY" "\<And>d. d < D \<Longrightarrow> ?ks ! slot ?n k d \<noteq> OH_EMPTY"
    using probe_stop [OF len c, of k] notk by metis
  have "oh_place ?ks (oh_mask h) (slot ?n k 0) = oh_place ?ks (oh_mask h) (slot ?n k D)"
  proof (rule probe_loop [of D "\<lambda>d. oh_place ?ks (oh_mask h) (slot ?n k d)"])
    fix d
    assume "d < D"
    then show "oh_place ?ks (oh_mask h) (slot ?n k d) = oh_place ?ks (oh_mask h) (slot ?n k (Suc d))"
      using D(3) [of d] sl [of d] len next_slot [OF e, of k d] by (subst oh_place.simps) simp
  qed
  also have "\<dots> = Some (slot ?n k D)" using D(2) sl [of D] len by (subst oh_place.simps) simp
  finally show ?thesis using that [OF D] home_slot [OF e e30, of k] by simp
qed

text \<open>The entries before a slot, as a map.\<close>

definition abs_upto :: "ohash \<Rightarrow> nat \<Rightarrow> u32 \<rightharpoonup> u32" where
  "abs_upto h m k = (if oh_key k \<and> (\<exists>i<m. oh_keys h ! i = k) then oh_abs h k else None)"

lemma abs_upto_0: "abs_upto h 0 = Map.empty"
  by (auto simp: abs_upto_def)

lemma abs_upto_full: "oh_inv h \<Longrightarrow> abs_upto h (oh_mask h + 1) = oh_abs h"
  by (auto simp: abs_upto_def fun_eq_iff oh_abs_def oh_inv_def tbl_def map_of_zip_miss in_set_conv_nth)

lemma abs_upto_Suc:
  assumes "oh_inv h" and "m < oh_mask h + 1"
  shows "abs_upto h (Suc m) = (if oh_key (oh_keys h ! m) then (abs_upto h m)(oh_keys h ! m \<mapsto> oh_vals h ! m) else abs_upto h m)"
proof -
  have t: "tbl (oh_mask h + 1) (oh_keys h)" "length (oh_vals h) = oh_mask h + 1" using assms(1) by (auto simp: oh_inv_def)
  have "oh_key (oh_keys h ! m) \<Longrightarrow> oh_abs h (oh_keys h ! m) = Some (oh_vals h ! m)"
    using map_of_zip_at [OF t _ assms(2) refl] by (simp add: oh_abs_def)
  then show ?thesis by (auto simp: abs_upto_def fun_eq_iff less_Suc_eq)
qed

lemma abs_upto_fresh:
  assumes "oh_inv h" and "m < oh_mask h + 1" and "oh_key (oh_keys h ! m)"
  shows "abs_upto h m (oh_keys h ! m) = None"
proof -
  have "tbl (oh_mask h + 1) (oh_keys h)" using assms(1) by (simp add: oh_inv_def)
  then have "oh_keys h ! i = oh_keys h ! m \<Longrightarrow> i < m \<Longrightarrow> i = m" for i
    unfolding tbl_def using assms(2,3) less_trans [of i m "oh_mask h + 1"] by presburger
  then have "i < m \<Longrightarrow> oh_keys h ! i \<noteq> oh_keys h ! m" for i by blast
  then show ?thesis by (auto simp: abs_upto_def)
qed

text \<open>One entry of a rehash.\<close>

lemma rehash_step:
  assumes inv: "oh_inv g" and k: "oh_key k" "oh_abs g k = None" and nt: "filled (oh_keys g) = live (oh_keys g)"
    and space: "0 < oh_space g"
  obtains j where "oh_place (oh_keys g) (oh_mask g) (oh_home k (oh_mask g)) = Some j" "j < oh_mask g + 1"
    "oh_inv (g\<lparr>oh_keys := (oh_keys g)[j := k], oh_vals := (oh_vals g)[j := v], oh_len := oh_len g + 1, oh_used := oh_used g + 1\<rparr>)"
    "oh_abs (g\<lparr>oh_keys := (oh_keys g)[j := k], oh_vals := (oh_vals g)[j := v], oh_len := oh_len g + 1, oh_used := oh_used g + 1\<rparr>)
      = (oh_abs g)(k \<mapsto> v)"
    "filled ((oh_keys g)[j := k]) = live ((oh_keys g)[j := k])"
  using inv
proof (rule oh_invE)
  fix e
  let ?n = "oh_mask g + 1" and ?ks = "oh_keys g"
  assume e: "?n = 2 ^ e" and e30: "e \<le> 30" and t: "tbl ?n ?ks" and len: "length ?ks = ?n" "length (oh_vals g) = ?n" and c: "card (filled ?ks) < ?n"
  have miss: "k \<notin> set ?ks"
  proof
    assume "k \<in> set ?ks"
    then obtain i where "i < ?n" "?ks ! i = k" using len by (auto simp: in_set_conv_nth)
    then show False using map_of_zip_at [OF t len(2) k(1)] k by (simp add: oh_abs_def)
  qed
  obtain D where D: "D < ?n" "?ks ! slot ?n k D = OH_EMPTY" "\<And>d. d < D \<Longrightarrow> ?ks ! slot ?n k d \<noteq> OH_EMPTY"
    "oh_place ?ks (oh_mask g) (oh_home k (oh_mask g)) = Some (slot ?n k D)"
    using oh_place_ok [OF e e30 len(1) c miss] by blast
  have sl: "slot ?n k D < ?n" by (rule slot_less) simp
  have nk: "\<not> oh_key (?ks ! slot ?n k D)" using D(2) by (simp add: oh_key_def)
  have "filled (?ks[slot ?n k D := k]) = live (?ks[slot ?n k D := k])"
    using filled_put [of _ ?ks k] live_put [of _ ?ks k] sl len k(1) nt by (simp add: oh_key_def)
  then show ?thesis
    using oh_put_ok [OF inv k(1) miss space D(1) refl nk D(3), of "oh_used g + 1" v] D(2,4) sl that by simp
qed

lemma abs_upto_card:
  assumes "oh_inv h" and "m \<le> oh_mask h + 1"
  shows "card (dom (abs_upto h m)) \<le> card (live (oh_keys h))"
proof -
  have "dom (abs_upto h m) \<subseteq> dom (oh_abs h)" by (auto simp: abs_upto_def split: if_splits)
  moreover have "finite (dom (oh_abs h))" using oh_abs_dom(1) [OF assms(1)] by simp
  ultimately show ?thesis using card_mono oh_abs_dom(2) [OF assms(1)] by metis
qed

lemma oh_rehash_ok:
  assumes inv: "oh_inv h" and big: "oh_mask h + 1 \<le> 2 ^ 29" and nv: "length nv = (oh_mask h + 1) * 2"
  shows "\<exists>ks vs. oh_rehash h nv = Some (ks, vs) \<and>
    oh_inv (h\<lparr>oh_keys := ks, oh_vals := vs, oh_mask := (oh_mask h + 1) * 2 - 1, oh_used := oh_len h\<rparr>) \<and>
    oh_abs (h\<lparr>oh_keys := ks, oh_vals := vs, oh_mask := (oh_mask h + 1) * 2 - 1, oh_used := oh_len h\<rparr>) = oh_abs h"
proof -
  let ?n = "(oh_mask h + 1) * 2" and ?m = "oh_mask h + 1"
  let ?Q = "\<lambda>m nk nv g. oh_inv g \<and> oh_mask g = ?n - 1 \<and> oh_keys g = nk \<and> oh_vals g = nv \<and> filled nk = live nk \<and> oh_abs g = abs_upto h m"
  let ?P = "\<lambda>m (nk, nv). \<exists>g. ?Q m nk nv g"
  have len: "length (oh_keys h) = ?m" "length (oh_vals h) = ?m" and cnt: "card (live (oh_keys h)) < ?m" "unat (oh_len h) = card (live (oh_keys h))"
    using inv filled_bound(1) [OF inv] by (auto simp: oh_inv_def tbl_def)
  have "\<exists>s. oh_rehash h nv = Some s \<and> ?P ?m s"
    unfolding oh_rehash_def Let_def
  proof (rule for_loop_invariant [where P = ?P], goal_cases)
    case 1
    obtain e where e: "?m = 2 ^ e" using inv by (auto simp: oh_inv_def)
    then have "(2 :: nat) ^ e \<le> 2 ^ 29" using big by simp
    then have "e \<le> 29" using power_le_imp_le_exp [of "2 :: nat" e 29] by simp
    then have e30: "Suc e \<le> 30" by simp
    have "?n = 2 ^ Suc e" using e by simp
    note fresh_table_ok [OF this e30 nv]
    moreover have "filled (replicate m OH_EMPTY) = live (replicate m OH_EMPTY)" for m by (auto simp: filled_def live_def oh_key_def)
    then have "filled (replicate ?n OH_EMPTY) = live (replicate ?n OH_EMPTY)" by blast
    ultimately show ?case
      by (intro case_prodI exI [of _ "fresh_table ?n nv"]) (simp add: abs_upto_0 fresh_table_def del: replicate.simps)
  next
    case (2 i s)
    obtain nk nw where s: "s = (nk, nw)" by (cases s)
    then obtain g where g: "?Q i nk nw g" using 2(2) by auto
    show ?case
    proof (cases "oh_key (oh_keys h ! i)")
      case False
      then have "?Q (Suc i) nk nw g" using g abs_upto_Suc [OF inv 2(1)] by simp
      moreover have "oh_keys h ! i = OH_EMPTY \<or> oh_keys h ! i = OH_TOMB" using False by (auto simp: oh_key_def)
      ultimately show ?thesis using 2(1) len by (intro exI [of _ s]) (auto simp: s)
    next
      case True
      have "card (live nk) < ?m"
        using oh_abs_dom(2) [of g] g abs_upto_card [OF inv, of i] 2(1) cnt(1) by simp
      then have space: "0 < oh_space g" using g by (simp add: oh_space_def zero_enat_def)
      obtain j where j: "oh_place nk (?n - 1) (oh_home (oh_keys h ! i) (?n - 1)) = Some j" "j < ?n"
        "oh_inv (g\<lparr>oh_keys := nk[j := oh_keys h ! i], oh_vals := nw[j := oh_vals h ! i], oh_len := oh_len g + 1, oh_used := oh_used g + 1\<rparr>)"
        "oh_abs (g\<lparr>oh_keys := nk[j := oh_keys h ! i], oh_vals := nw[j := oh_vals h ! i], oh_len := oh_len g + 1, oh_used := oh_used g + 1\<rparr>)
          = (oh_abs g)(oh_keys h ! i \<mapsto> oh_vals h ! i)"
        "filled (nk[j := oh_keys h ! i]) = live (nk[j := oh_keys h ! i])"
        using rehash_step [of g "oh_keys h ! i" "oh_vals h ! i"] g True abs_upto_fresh [OF inv 2(1) True] space by auto
      have lens: "length nk = ?n" "length nw = ?n" using g by (auto simp: oh_inv_def tbl_def)
      have "?P (Suc i) (nk[j := oh_keys h ! i], nw[j := oh_vals h ! i])"
        using j(3-5) g abs_upto_Suc [OF inv 2(1)] True
        by (intro case_prodI exI [of _ "g\<lparr>oh_keys := nk[j := oh_keys h ! i], oh_vals := nw[j := oh_vals h ! i], oh_len := oh_len g + 1, oh_used := oh_used g + 1\<rparr>"]) simp
      moreover have "oh_keys h ! i \<noteq> OH_EMPTY" "oh_keys h ! i \<noteq> OH_TOMB" using True by (auto simp: oh_key_def)
      ultimately show ?thesis
        using 2(1) len lens j(1,2) by (intro exI [of _ "(nk[j := oh_keys h ! i], nw[j := oh_vals h ! i])"] conjI) (simp_all add: s)
    qed
  qed
  then obtain ks vs g where g: "oh_rehash h nv = Some (ks, vs)" "?Q ?m ks vs g" by auto
  have a: "oh_abs g = oh_abs h" using g abs_upto_full [OF inv] by simp
  then have "card (live ks) = card (live (oh_keys h))" using oh_abs_dom(2) [of g] oh_abs_dom(2) [OF inv] g by simp
  then have "unat (oh_len g) = unat (oh_len h)" "unat (oh_used g) = unat (oh_len h)" using g cnt(2) by (auto simp: oh_inv_def)
  then have "oh_len g = oh_len h" "oh_used g = oh_len h" by (simp_all add: word_unat_eq_iff)
  then have "g = h\<lparr>oh_keys := ks, oh_vals := vs, oh_mask := ?n - 1, oh_used := oh_len h\<rparr>" using g by simp
  then show ?thesis using g a by auto
qed

lemma oh_insert_loop_mask: "oh_insert_loop h k v i tomb = Some h' \<Longrightarrow> oh_mask h' = oh_mask h"
proof (erule oh_insert_loop.raw_induct [rotated])
  fix loop h k v i tomb h'
  assume "\<And>h k v i tomb h'. loop h k v i tomb = Some h' \<Longrightarrow> oh_mask h' = oh_mask h"
    and "(do { c \<leftarrow> rd (oh_keys h) i;
         if c = k then do { vs \<leftarrow> wr (oh_vals h) i v; Some (h\<lparr>oh_vals := vs\<rparr>) }
         else let tomb' = (if c = OH_TOMB \<and> tomb = None then Some i else tomb)
              in if c = OH_EMPTY
                 then let j = (case tomb' of Some t \<Rightarrow> t | None \<Rightarrow> i);
                          used = (case tomb' of Some t \<Rightarrow> oh_used h | None \<Rightarrow> oh_used h + 1)
                      in do { ks \<leftarrow> wr (oh_keys h) j k;
                              vs \<leftarrow> wr (oh_vals h) j v;
                              Some (h\<lparr>oh_keys := ks, oh_vals := vs, oh_len := oh_len h + 1, oh_used := used\<rparr>) }
                 else loop h k v ((i + 1) AND oh_mask h) tomb' }) = Some h'"
  then show "oh_mask h' = oh_mask h" by (auto simp: Let_def split: bind_splits if_splits)
qed

lemma oh_insert_mask: "oh_insert h k v = Some h' \<Longrightarrow> oh_mask h' = oh_mask h"
  by (auto simp: oh_insert_def dest: oh_insert_loop_mask)

text \<open>A growing insertion never runs out of space, and leaves the table at most half full.\<close>

lemma oh_insert_grow_ok:
  assumes inv: "oh_inv h" and k: "oh_key k" and big: "oh_mask h + 1 \<le> 2 ^ 29" and nv: "length nv = (oh_mask h + 1) * 2"
    and half: "unat (oh_used h) * 2 \<le> oh_mask h + 1" and two: "2 \<le> oh_mask h"
  shows "\<exists>h' g. alt_open_hash_insert_grow h k v nv t0 t1 = Some (h', g) \<and> oh_inv h' \<and> oh_abs h' = (oh_abs h)(k \<mapsto> v) \<and>
    unat (oh_used h') * 2 \<le> oh_mask h' + 1"
proof -
  have load: "\<exists>h'. oh_insert x k v = Some h' \<and> oh_inv h' \<and> oh_abs h' = (oh_abs x)(k \<mapsto> v) \<and> unat (oh_used h') * 2 \<le> oh_mask h' + 1"
    if x: "oh_inv x" "(unat (oh_used x) + 1) * 2 \<le> oh_mask x + 1" "2 \<le> oh_mask x" for x
  proof -
    have u: "unat (oh_used x) = card (filled (oh_keys x))" using x by (simp add: oh_inv_def)
    have "0 < oh_space x" using x u by (simp add: oh_space_def zero_enat_def)
    then obtain y where y: "oh_insert x k v = Some y" "oh_inv y" "oh_abs y = (oh_abs x)(k \<mapsto> v)" "oh_space x \<le> oh_space y + 1"
      using oh_insert_ok [OF x(1) k] by blast
    have "oh_mask y = oh_mask x" using oh_insert_mask [OF y(1)] .
    then have "unat (oh_used y) * 2 \<le> oh_mask y + 1" using y(2,4) x u by (auto simp: oh_inv_def oh_space_def one_enat_def)
    then show ?thesis using y by blast
  qed
  show ?thesis
  proof (cases "oh_mask h + 1 < (unat (oh_used h) + 1) * 2")
    case False
    then show ?thesis using load [of h] inv two by (auto simp: alt_open_hash_insert_grow_def)
  next
    case True
    obtain ks vs where r: "oh_rehash h nv = Some (ks, vs)"
      "oh_inv (h\<lparr>oh_keys := ks, oh_vals := vs, oh_mask := (oh_mask h + 1) * 2 - 1, oh_used := oh_len h\<rparr>)"
      "oh_abs (h\<lparr>oh_keys := ks, oh_vals := vs, oh_mask := (oh_mask h + 1) * 2 - 1, oh_used := oh_len h\<rparr>) = oh_abs h"
      using oh_rehash_ok [OF inv big nv] by blast
    have "unat (oh_len h) \<le> unat (oh_used h)" using filled_bound(1) [OF inv] inv by (simp add: oh_inv_def)
    then have "unat (oh_len h) \<le> oh_mask h" using half two by linarith
    then show ?thesis
      using load [OF r(2)] r(1,3) True two by (auto simp: alt_open_hash_insert_grow_def)
  qed
qed

section \<open>Probes that do not end\<close>

text \<open>Without an empty slot and without the key, no probe stops.\<close>

lemma rd_mem: "rd xs i = Some x \<Longrightarrow> x \<in> set xs"
  by (auto simp: rd_eq_Some)

lemma oh_get_loop_stuck: "oh_get_loop h k i = Some r \<Longrightarrow> k \<in> set (oh_keys h) \<or> OH_EMPTY \<in> set (oh_keys h)"
proof (erule oh_get_loop.raw_induct [rotated])
  fix loop h k i r
  assume "\<And>h k i r. loop h k i = Some r \<Longrightarrow> k \<in> set (oh_keys h) \<or> OH_EMPTY \<in> set (oh_keys h)"
    and "(do { c \<leftarrow> rd (oh_keys h) i;
         if c = k then do { v \<leftarrow> rd (oh_vals h) i; Some (Some v) }
         else if c = OH_EMPTY then Some None
         else loop h k ((i + 1) AND oh_mask h) }) = Some r"
  then show "k \<in> set (oh_keys h) \<or> OH_EMPTY \<in> set (oh_keys h)"
    by (cases "rd (oh_keys h) i") (auto dest: rd_mem split: if_splits)
qed

lemma oh_insert_loop_stuck: "oh_insert_loop h k v i tomb = Some r \<Longrightarrow> k \<in> set (oh_keys h) \<or> OH_EMPTY \<in> set (oh_keys h)"
proof (erule oh_insert_loop.raw_induct [rotated])
  fix loop h k v i tomb h'
  assume "\<And>h k v i tomb h'. loop h k v i tomb = Some h' \<Longrightarrow> k \<in> set (oh_keys h) \<or> OH_EMPTY \<in> set (oh_keys h)"
    and "(do { c \<leftarrow> rd (oh_keys h) i;
         if c = k then do { vs \<leftarrow> wr (oh_vals h) i v; Some (h\<lparr>oh_vals := vs\<rparr>) }
         else let tomb' = (if c = OH_TOMB \<and> tomb = None then Some i else tomb)
              in if c = OH_EMPTY
                 then let j = (case tomb' of Some t \<Rightarrow> t | None \<Rightarrow> i);
                          used = (case tomb' of Some t \<Rightarrow> oh_used h | None \<Rightarrow> oh_used h + 1)
                      in do { ks \<leftarrow> wr (oh_keys h) j k;
                              vs \<leftarrow> wr (oh_vals h) j v;
                              Some (h\<lparr>oh_keys := ks, oh_vals := vs, oh_len := oh_len h + 1, oh_used := used\<rparr>) }
                 else loop h k v ((i + 1) AND oh_mask h) tomb' }) = Some h'"
  then show "k \<in> set (oh_keys h) \<or> OH_EMPTY \<in> set (oh_keys h)"
    by (cases "rd (oh_keys h) i") (auto simp: Let_def dest: rd_mem split: if_splits)
qed

lemma oh_stuck:
  assumes "k \<notin> set (oh_keys h)" and "OH_EMPTY \<notin> set (oh_keys h)"
  shows "oh_get h k = None" and "oh_insert h k v = None"
  using assms oh_get_loop_stuck [of h k "oh_home k (oh_mask h)"] oh_insert_loop_stuck [of h k v "oh_home k (oh_mask h)" None]
  unfolding oh_get_def oh_insert_def by (metis option.exhaust)+

text \<open>A table of 16 slots after 16 keys came and went, one at a time.\<close>

definition churn :: "u32 list \<Rightarrow> alt_call list" where
  "churn ks = concat (map (\<lambda>k. [AInsert k 1, ARemove k]) ks)"

definition churn_keys :: "u32 list" where
  "churn_keys = [5, 4, 7, 6, 1, 0, 3, 2, 13, 12, 15, 14, 9, 8, 11, 10]"



text \<open>C25. \<^verbatim>\<open>alt_open_hash_insert_grow\<close>: at most half full, the table stays at most half full, tombstones
  included; the insertion and the rehash return, and the table holds what it held with the new entry added, whether or not
  it was rehashed.\<close>

theorem open_hash_grow_correct:
  assumes "oh_inv h" and "oh_key k" and "2 \<le> oh_mask h" and "oh_mask h + 1 \<le> 2 ^ 29" and "length nv = (oh_mask h + 1) * 2"
    and "unat (oh_used h) * 2 \<le> oh_mask h + 1"
  shows "\<exists>h' g. alt_open_hash_insert_grow h k v nv t0 t1 = Some (h', g) \<and> oh_inv h' \<and> oh_abs h' = (oh_abs h)(k \<mapsto> v) \<and>
    unat (oh_used h') * 2 \<le> oh_mask h' + 1"
  using oh_insert_grow_ok [OF assms(1,2,4,5,6,3)] .

theorem open_hash_grow_correct_witness:
  "\<exists>h' g. alt_open_hash_insert_grow (oh_create (replicate 16 0) 8) 7 3 (replicate 32 0) 10 20 = Some (h', g) \<and>
    oh_inv h' \<and> oh_abs h' = [7 \<mapsto> 3]"
proof -
  have s: "length (replicate 16 (0 :: u32)) = oh_size 16 8" by code_simp
  have "oh_mask (oh_create (replicate 16 0) 8) = 15" "oh_used (oh_create (replicate 16 0) 8) = 0" by code_simp+
  then show ?thesis
    using open_hash_grow_correct [of "oh_create (replicate 16 0) 8" 7 "replicate 32 0" 3 10 20]
      oh_create_ok [OF _ s] by (auto simp: oh_key_def OH_EMPTY_def OH_TOMB_def)
qed

text \<open>\<^verbatim>\<open>oh_evict_scan\<close>: the scan visits every live entry once, in the order of the slots, with the
  context threaded through the predicate; exactly the keys it accepts leave the table, and the result is their
  number.\<close>

theorem open_hash_evict_correct:
  assumes "oh_inv h"
  shows "\<exists>h'. oh_evict_scan h ex c =
      (let (r, c') = evict_spec ex (oh_ents (oh_keys h) (oh_vals h)) c in Some (h', c', length r)) \<and>
    oh_inv h' \<and> oh_abs h' = oh_abs h |` (- set (fst (evict_spec ex (oh_ents (oh_keys h) (oh_vals h)) c)))"
  using oh_evict_scan_ok [OF assms, of ex c] by blast

theorem open_hash_evict_correct_witness:
  "\<exists>h'. oh_evict_scan (oh_create (replicate 16 0) 8) (\<lambda>k v (n :: nat). (True, n + 1)) 0 = Some (h', 0, 0) \<and> oh_inv h'"
proof -
  have s: "length (replicate 16 (0 :: u32)) = oh_size 16 8" by code_simp
  have e: "evict_spec (\<lambda>k v (n :: nat). (True, n + 1)) (oh_ents (oh_keys (oh_create (replicate 16 0) 8)) (oh_vals (oh_create (replicate 16 0) 8))) 0 = ([], 0)"
    by code_simp
  show ?thesis
    using open_hash_evict_correct [OF oh_create_ok(1) [OF _ s], of "\<lambda>k v (n :: nat). (True, n + 1)" 0] unfolding e by auto
qed

text \<open>C26. Tombstones fill a table that does not grow: made for 8 entries and never holding more than one, it has
  no empty slot left after 16 keys came and went, and then neither a lookup nor an insertion of a further key
  returns.\<close>

theorem open_hash_churn_hangs:
  "\<exists>h. alt_run oh_insert oh_get oh_remove (churn churn_keys) (oh_create (replicate 16 0) 8) = Some (h, []) \<and>
    oh_len h = 0 \<and> oh_keys h = replicate 16 OH_TOMB \<and>
    (\<forall>k v. k \<noteq> OH_TOMB \<longrightarrow> oh_get h k = None \<and> oh_insert h k v = None)"
proof -
  let ?h = "\<lparr>oh_keys = replicate 16 OH_TOMB, oh_vals = replicate 16 1, oh_mask = 15, oh_len = 0, oh_used = 16\<rparr>"
  have "alt_run oh_insert oh_get oh_remove (churn churn_keys) (oh_create (replicate 16 0) 8) = Some (?h, [])" by code_simp
  moreover have "OH_EMPTY \<notin> set (oh_keys ?h)" by (simp add: OH_EMPTY_def OH_TOMB_def)
  ultimately show ?thesis using oh_stuck [of _ ?h] by (intro exI [of _ ?h]) simp
qed

theorem open_hash_churn_hangs_witness:
  "\<exists>h. alt_run oh_insert oh_get oh_remove (churn churn_keys) (oh_create (replicate 16 0) 8) = Some (h, []) \<and>
    oh_get h 100 = None \<and> oh_insert h 100 5 = None"
proof -
  have "(100 :: u32) \<noteq> OH_TOMB" by (simp add: OH_TOMB_def)
  then show ?thesis using open_hash_churn_hangs by blast
qed

text \<open>The key \<^verbatim>\<open>0xFFFFFFFF\<close> is the marker of an empty slot: an empty table answers a lookup of it, and an
  insertion of it is not counted.\<close>

theorem open_hash_marker_key:
  "oh_get (oh_create (replicate 16 42) 8) 0xFFFFFFFF = Some (Some 42) \<and>
   map_option oh_len (oh_insert (oh_create (replicate 16 42) 8) 0xFFFFFFFF 7) = Some 0"
  by code_simp

end
