(* ===== verification/Tsearch_Map.thy ===== *)
theory Tsearch_Map
  imports Alt_Table "HOL-Library.Tree_Multiset"
begin

text \<open>
  The \<^verbatim>\<open>tsearch\<close> implementation of the vtable (\<^verbatim>\<open>integrations/stm32h747/alts.c\<close>, \<^verbatim>\<open>tmap\<close>). The C library's
  tree is the unbalanced one that the source descends itself (a node is a key and two links): \<^verbatim>\<open>tsearch\<close> links
  a new node below a leaf, \<^verbatim>\<open>tdelete\<close> replaces a node with two children by its successor. A node holds a pair of
  a key and a value; the address of the caller's probe, by which the source tells a new node from an old one, is
  the flag that \<^verbatim>\<open>tsearch\<close> returns.
\<close>

section \<open>The tree of the C library\<close>

type_synonym tnode = "u32 \<times> u32"

definition t_cmp :: "tnode \<Rightarrow> tnode \<Rightarrow> int" where
  "t_cmp a b = (if fst a < fst b then -1 else if fst b < fst a then 1 else 0)"

fun tfind :: "('a \<Rightarrow> 'a \<Rightarrow> int) \<Rightarrow> 'a \<Rightarrow> 'a tree \<Rightarrow> 'a option" where
  "tfind compar p Leaf = None"
| "tfind compar p (Node l a r) =
    (if compar p a = 0 then Some a else if compar p a < 0 then tfind compar p l else tfind compar p r)"

fun tsearch :: "('a \<Rightarrow> 'a \<Rightarrow> int) \<Rightarrow> 'a \<Rightarrow> 'a tree \<Rightarrow> 'a tree \<times> bool" where
  "tsearch compar p Leaf = (Node Leaf p Leaf, True)"
| "tsearch compar p (Node l a r) =
    (if compar p a = 0 then (Node l a r, False)
     else if compar p a < 0 then (let (l', new) = tsearch compar p l in (Node l' a r, new))
     else (let (r', new) = tsearch compar p r in (Node l a r', new)))"

text \<open>Writing through the slot that \<^verbatim>\<open>tsearch\<close> returned.\<close>

fun slot_set :: "('a \<Rightarrow> 'a \<Rightarrow> int) \<Rightarrow> 'a \<Rightarrow> 'a \<Rightarrow> 'a tree \<Rightarrow> 'a tree" where
  "slot_set compar p x Leaf = Leaf"
| "slot_set compar p x (Node l a r) =
    (if compar p a = 0 then Node l x r
     else if compar p a < 0 then Node (slot_set compar p x l) a r else Node l a (slot_set compar p x r))"

fun unlink_min :: "'a tree \<Rightarrow> 'a \<Rightarrow> 'a tree \<Rightarrow> 'a \<times> 'a tree" where
  "unlink_min Leaf a r = (a, r)"
| "unlink_min (Node l' a' r') a r = (let (x, l) = unlink_min l' a' r' in (x, Node l a r))"

fun tdelete :: "('a \<Rightarrow> 'a \<Rightarrow> int) \<Rightarrow> 'a \<Rightarrow> 'a tree \<Rightarrow> 'a tree" where
  "tdelete compar p Leaf = Leaf"
| "tdelete compar p (Node l a r) =
    (if compar p a = 0
     then (case (l, r) of
             (Leaf, _) \<Rightarrow> r
           | (_, Leaf) \<Rightarrow> l
           | (_, Node rl b rr) \<Rightarrow> (let (x, r') = unlink_min rl b rr in Node l x r'))
     else if compar p a < 0 then Node (tdelete compar p l) a r else Node l a (tdelete compar p r))"

section \<open>Operations\<close>

record tmap =
  root :: "tnode tree"
  tm_len :: u32
  scap :: nat

definition t_create :: "nat \<Rightarrow> tmap" where
  "t_create cap = \<lparr>root = Leaf, tm_len = 0, scap = cap\<rparr>"

lemma mset_unlink_min: "unlink_min l a r = (x, t) \<Longrightarrow> add_mset x (mset_tree t) = add_mset a (mset_tree l + mset_tree r)"
  by (induction l a r arbitrary: x t rule: unlink_min.induct) (auto split: prod.splits)

lemma mset_tdelete_root:
  assumes "compar p a = 0"
  shows "add_mset a (mset_tree (tdelete compar p (Node l a r))) = mset_tree (Node l a r)"
  using assms mset_unlink_min by (fastforce split: tree.splits prod.splits)

text \<open>The nodes freed by \<^verbatim>\<open>t_destroy\<close>, which deletes the root until there is none.\<close>

function t_destroy_loop :: "tnode tree \<Rightarrow> tnode list" where
  "t_destroy_loop Leaf = []"
| "t_destroy_loop (Node l a r) = a # t_destroy_loop (tdelete t_cmp a (Node l a r))"
  by pat_completeness auto
termination
proof (relation "measure size")
  fix l r :: "tnode tree" and a :: tnode
  have "t_cmp a a = 0" by (simp add: t_cmp_def)
  then have "size (mset_tree (Node l a r)) = Suc (size (mset_tree (tdelete t_cmp a (Node l a r))))"
    using mset_tdelete_root [of t_cmp a a l r] by (metis size_add_mset)
  then show "(tdelete t_cmp a (Node l a r), Node l a r) \<in> measure size"
    by (simp only: size_mset_tree in_measure)
qed simp

definition t_destroy :: "tmap \<Rightarrow> tnode list" where
  "t_destroy t = t_destroy_loop (root t)"

definition t_insert :: "tmap \<Rightarrow> u32 \<Rightarrow> u32 \<Rightarrow> tmap" where
  "t_insert t k v =
    (let (rt, new) = tsearch t_cmp (k, v) (root t)
     in if new then t\<lparr>root := slot_set t_cmp (k, v) (k, v) rt, tm_len := tm_len t + 1\<rparr>
        else (case tfind t_cmp (k, v) rt of
                None \<Rightarrow> t\<lparr>root := rt\<rparr>
              | Some n \<Rightarrow> t\<lparr>root := slot_set t_cmp (k, v) (fst n, v) rt\<rparr>))"

definition t_get :: "tmap \<Rightarrow> u32 \<Rightarrow> u32 option" where
  "t_get t k = (case tfind t_cmp (k, 0) (root t) of None \<Rightarrow> None | Some n \<Rightarrow> Some (snd n))"

definition t_remove :: "tmap \<Rightarrow> u32 \<Rightarrow> tmap" where
  "t_remove t k =
    (case tfind t_cmp (k, 0) (root t) of
       None \<Rightarrow> t
     | Some n \<Rightarrow> t\<lparr>root := tdelete t_cmp (k, 0) (root t), tm_len := tm_len t - 1\<rparr>)"

fun leftmost :: "tnode tree \<Rightarrow> tnode \<Rightarrow> tnode" where
  "leftmost Leaf a = a"
| "leftmost (Node l b r) a = leftmost l b"

definition t_first :: "tmap \<Rightarrow> tnode option" where
  "t_first t = (case root t of Leaf \<Rightarrow> None | Node l a r \<Rightarrow> Some (leftmost l a))"

partial_function (option) t_range_loop ::
  "tmap \<Rightarrow> u32 \<Rightarrow> u32 \<Rightarrow> (u32 \<Rightarrow> u32 \<Rightarrow> 'c \<Rightarrow> 'c) \<Rightarrow> 'c \<Rightarrow> nat \<Rightarrow> (tmap \<times> 'c \<times> nat) option"
where
  [code]: "t_range_loop t lo hi cb ctx n =
    (case t_first t of
       None \<Rightarrow> Some (t, ctx, n)
     | Some (k, v) \<Rightarrow>
         if lo \<le> k \<and> k \<le> hi then t_range_loop (t_remove t k) lo hi cb (cb k v ctx) (n + 1)
         else Some (t, ctx, n))"

definition t_remove_range ::
  "tmap \<Rightarrow> u32 \<Rightarrow> u32 \<Rightarrow> (u32 \<Rightarrow> u32 \<Rightarrow> 'c \<Rightarrow> 'c) \<Rightarrow> 'c \<Rightarrow> (tmap \<times> 'c \<times> nat) option"
where
  "t_remove_range t lo hi cb ctx = t_range_loop t lo hi cb ctx 0"

section \<open>Correctness\<close>

definition t_inv :: "tmap \<Rightarrow> bool" where
  "t_inv t \<longleftrightarrow> asc (inorder (root t)) \<and> tm_len t = of_nat (length (inorder (root t)))"

definition t_abs :: "tmap \<Rightarrow> u32 \<rightharpoonup> u32" where
  "t_abs t = map_of (inorder (root t))"

lemma t_cmp_zero: "t_cmp (k, x) a = 0 \<longleftrightarrow> fst a = k"
  by (auto simp: t_cmp_def)

lemma t_cmp_neg: "t_cmp (k, x) a < 0 \<longleftrightarrow> k < fst a"
  by (auto simp: t_cmp_def)

lemmas t_cmp_iff = t_cmp_zero t_cmp_neg

lemma asc_mid: "asc (xs @ (a, b) # ys) \<longleftrightarrow> asc xs \<and> asc ys \<and> (\<forall>x\<in>set xs. fst x < a) \<and> (\<forall>y\<in>set ys. a < fst y)"
  by (auto simp: asc_append sorted_wrt_append intro: less_trans)

lemma map_of_mid:
  assumes "asc (xs @ (a, b) # ys)"
  shows "map_of (xs @ (a, b) # ys) k = (if k < a then map_of xs k else if k = a then Some b else map_of ys k)"
proof -
  note o = assms [unfolded asc_mid]
  have "map_of xs k = None" if "a \<le> k" using o that by (force simp: map_of_eq_None_iff)
  moreover have "map_of ys k = None" if "k \<le> a" using o that by (force simp: map_of_eq_None_iff)
  ultimately show ?thesis by (auto simp: map_add_def split: option.splits)
qed

lemma tfind_ok: "asc (inorder t) \<Longrightarrow> tfind t_cmp (k, x) t = map_option (Pair k) (map_of (inorder t) k)"
proof (induction t)
  case (Node l a r)
  obtain a1 a2 where a: "a = (a1, a2)" by (cases a)
  show ?case
    using Node map_of_mid [of "inorder l" a1 a2 "inorder r" k] asc_mid [of "inorder l" a1 a2 "inorder r"]
    by (auto simp: a t_cmp_iff simp del: map_of_append)
qed simp

lemma al_ins_mid:
  assumes "asc (xs @ (a, b) # ys)"
  shows "al_ins k v (xs @ (a, b) # ys) = (if k < a then al_ins k v xs @ (a, b) # ys
    else if k = a then xs @ (k, v) # ys else xs @ (a, b) # al_ins k v ys)"
proof -
  have x: "x \<in> set xs \<Longrightarrow> fst x < a" and y: "y \<in> set ys \<Longrightarrow> a < fst y" for x y using assms [unfolded asc_mid] by blast+
  have "filter (\<lambda>p. fst p < k) ys = []" "filter (\<lambda>p. k < fst p) ys = ys" if "k \<le> a" using that y by (auto simp: filter_empty_conv filter_id_conv dest!: y)
  moreover have "filter (\<lambda>p. fst p < k) xs = xs" "filter (\<lambda>p. k < fst p) xs = []" if "a \<le> k" using that x by (auto simp: filter_empty_conv filter_id_conv dest!: x)
  ultimately show ?thesis by (auto simp: al_ins_def)
qed

lemma al_del_mid:
  assumes "asc (xs @ (a, b) # ys)"
  shows "al_del k (xs @ (a, b) # ys) = (if k < a then al_del k xs @ (a, b) # ys
    else if k = a then xs @ ys else xs @ (a, b) # al_del k ys)"
proof -
  have x: "x \<in> set xs \<Longrightarrow> fst x < a" and y: "y \<in> set ys \<Longrightarrow> a < fst y" for x y using assms [unfolded asc_mid] by blast+
  have "al_del k ys = ys" if "k \<le> a" using that y by (auto simp: al_del_def filter_id_conv dest!: y)
  moreover have "al_del k xs = xs" if "a \<le> k" using that x by (auto simp: al_del_def filter_id_conv dest!: x)
  ultimately show ?thesis by (auto simp: al_del_def)
qed

lemma tsearch_ok:
  "asc (inorder t) \<Longrightarrow> tsearch t_cmp (k, v) t = (t', new) \<Longrightarrow>
   new = (map_of (inorder t) k = None) \<and> inorder t' = (if new then al_ins k v (inorder t) else inorder t)"
proof (induction t arbitrary: t')
  case (Node l a r)
  obtain a1 a2 where a: "a = (a1, a2)" by (cases a)
  have asc: "asc (inorder l @ (a1, a2) # inorder r)" using Node.prems(1) by (simp add: a)
  have sub: "asc (inorder l)" "asc (inorder r)" using asc [unfolded asc_mid] by blast+
  note mid = map_of_mid [OF asc, of k] al_ins_mid [OF asc, of k v]
  show ?case
  proof (cases k a1 rule: linorder_cases)
    case less
    then have "a1 \<noteq> k" "t_cmp (k, v) (a1, a2) < 0" by (auto simp: t_cmp_iff)
    then show ?thesis using less Node.prems(2) Node.IH(1) [OF sub(1)] mid by (auto simp: a t_cmp_iff simp del: map_of_append split: prod.splits if_splits)
  next
    case equal
    then show ?thesis using Node.prems(2) mid by (auto simp: a t_cmp_iff simp del: map_of_append)
  next
    case greater
    then have "\<not> k < a1" "k \<noteq> a1" by auto
    then show ?thesis using Node.prems(2) Node.IH(2) [OF sub(2)] mid by (auto simp: a t_cmp_iff simp del: map_of_append split: prod.splits if_splits)
  qed
qed (auto simp: al_ins_def)

lemma slot_set_ok:
  "asc (inorder t) \<Longrightarrow> map_of (inorder t) k \<noteq> None \<Longrightarrow> inorder (slot_set t_cmp (k, x) (k, v) t) = al_ins k v (inorder t)"
proof (induction t)
  case (Node l a r)
  obtain a1 a2 where a: "a = (a1, a2)" by (cases a)
  have asc: "asc (inorder l @ (a1, a2) # inorder r)" using Node.prems(1) by (simp add: a)
  note [simp] = al_ins_mid [OF asc, of k v]
  have sub: "asc (inorder l)" "asc (inorder r)" using asc [unfolded asc_mid] by blast+
  have "k < a1 \<Longrightarrow> map_of (inorder l) k \<noteq> None" "a1 < k \<Longrightarrow> map_of (inorder r) k \<noteq> None"
    using map_of_mid [OF asc, of k] Node.prems(2) by (auto simp: a dest: less_not_sym simp del: map_of_append split: if_splits)
  then show ?case using Node.IH sub by (auto simp: a t_cmp_iff not_less_iff_gr_or_eq)
qed simp

lemma unlink_min_ok: "unlink_min l a r = (x, t) \<Longrightarrow> inorder l @ a # inorder r = x # inorder t"
  by (induction l a r arbitrary: x t rule: unlink_min.induct) (fastforce split: prod.splits)+

lemma tdelete_ok: "asc (inorder t) \<Longrightarrow> inorder (tdelete t_cmp (k, x) t) = al_del k (inorder t)"
proof (induction t)
  case (Node l a r)
  obtain a1 a2 where a: "a = (a1, a2)" by (cases a)
  have asc: "asc (inorder l @ (a1, a2) # inorder r)" using Node.prems(1) by (simp add: a)
  have sub: "asc (inorder l)" "asc (inorder r)" using asc [unfolded asc_mid] by blast+
  have "inorder (tdelete t_cmp (k, x) (Node l a r)) = inorder l @ inorder r" if "k = a1"
    using that by (auto simp: a t_cmp_iff dest!: unlink_min_ok split: tree.splits prod.splits)
  moreover have "\<not> k < a1" if "a1 < k" using that by simp
  ultimately show ?case
    using Node.IH sub al_del_mid [OF asc, of k] by (cases k a1 rule: linorder_cases) (simp_all add: a t_cmp_iff)
qed (simp add: al_del_def)

lemma leftmost_ok: "\<exists>zs. inorder l @ a # ys = leftmost l a # zs"
  by (induction l a arbitrary: ys rule: leftmost.induct) auto

lemma t_first_ok: "t_first t = al_first (inorder (root t))"
proof (cases "root t")
  case (Node l a r)
  then show ?thesis using leftmost_ok [of l a "inorder r"] by (auto simp: t_first_def al_first_def split: list.splits)
qed (simp add: t_first_def al_first_def)

lemma t_get_ok: "t_inv t \<Longrightarrow> t_get t k = t_abs t k"
  by (auto simp: t_get_def t_inv_def t_abs_def tfind_ok split: option.splits)

lemma t_insert_ok:
  assumes "t_inv t"
  shows "t_inv (t_insert t k v)" and "inorder (root (t_insert t k v)) = al_ins k v (inorder (root t))"
proof -
  have asc: "asc (inorder (root t))" using assms by (simp add: t_inv_def)
  obtain rt new where s: "tsearch t_cmp (k, v) (root t) = (rt, new)" by fastforce
  note o = tsearch_ok [OF asc s]
  have "asc (inorder rt)" using o asc asc_al_ins [OF asc, of k v] by simp
  moreover have "map_of (inorder rt) k \<noteq> None" using o by (auto simp: map_of_al_ins split: if_splits)
  ultimately have i: "inorder (slot_set t_cmp (k, v) (k, v) rt) = al_ins k v (inorder rt)" by (rule slot_set_ok)
  have none: "filter (\<lambda>p. k < fst p \<and> fst p < k) xs = []" "filter (\<lambda>p. fst p < k \<and> k < fst p) xs = []"
    for xs :: "(u32 \<times> u32) list" by (auto simp: filter_empty_conv)
  have idem: "al_ins k v (al_ins k v xs) = al_ins k v xs" for xs :: "(u32 \<times> u32) list" by (auto simp: al_ins_def none)
  have len: "length (al_ins k v (inorder (root t))) = length (inorder (root t)) + (if new then 1 else 0)"
    using length_al_ins [OF asc, of k v] o by simp
  show e: "inorder (root (t_insert t k v)) = al_ins k v (inorder (root t))"
    using s o i \<open>map_of (inorder rt) k \<noteq> None\<close> tfind_ok [OF \<open>asc (inorder rt)\<close>, of k v]
    by (auto simp: t_insert_def idem split: option.splits if_splits)
  have "tm_len (t_insert t k v) = tm_len t + (if new then 1 else 0)"
    using s by (auto simp: t_insert_def split: option.splits)
  then show "t_inv (t_insert t k v)"
    using assms len asc_al_ins [OF asc, of k v] by (auto simp: t_inv_def e)
qed

lemma t_remove_ok:
  assumes "t_inv t"
  shows "t_inv (t_remove t k)" and "inorder (root (t_remove t k)) = al_del k (inorder (root t))"
proof -
  have asc: "asc (inorder (root t))" using assms by (simp add: t_inv_def)
  show e: "inorder (root (t_remove t k)) = al_del k (inorder (root t))"
    using tfind_ok [OF asc, of k 0] tdelete_ok [OF asc, of k 0] al_del_miss [of "inorder (root t)" k]
    by (auto simp: t_remove_def split: option.splits)
  have "map_of (inorder (root t)) k \<noteq> None \<Longrightarrow> 0 < length (inorder (root t))" by (cases "root t") auto
  then show "t_inv (t_remove t k)"
    using assms asc_al_del [OF asc, of k] length_al_del [OF asc, of k] tfind_ok [OF asc, of k 0]
    unfolding t_inv_def e by (auto simp: t_remove_def of_nat_diff Suc_leI split: option.splits)
qed

text \<open>The loop of \<^verbatim>\<open>t_remove_range\<close> takes the smallest entry as long as it is in the range.\<close>

lemma t_range_loop_ok:
  assumes "t_inv t" and "\<And>p. p \<in> set (inorder (root t)) \<Longrightarrow> lo \<le> fst p"
  shows "\<exists>t'. t_range_loop t lo hi f c n =
      Some (t', fold (\<lambda>p. f (fst p) (snd p)) (al_range lo hi (inorder (root t))) c, n + length (al_range lo hi (inorder (root t)))) \<and>
    t_inv t' \<and> inorder (root t') = al_outside lo hi (inorder (root t))"
  using assms
proof (induction "inorder (root t)" arbitrary: t c n)
  case Nil
  then have "t_first t = None" using t_first_ok [of t] by (simp add: al_first_def)
  then show ?case using Nil by (subst t_range_loop.simps) (auto simp: al_range_def al_outside_def)
next
  case (Cons p xs)
  obtain k v where p: "p = (k, v)" by (cases p)
  have ents: "inorder (root t) = (k, v) # xs" using Cons.hyps(2) p by simp
  have asc: "asc ((k, v) # xs)" using Cons.prems(1) by (simp add: t_inv_def flip: ents)
  have first: "t_first t = Some (k, v)" using t_first_ok [of t] by (simp add: al_first_def ents)
  have lo: "lo \<le> k" using Cons.prems(2) [of "(k, v)"] ents by simp
  show ?case
  proof (cases "k \<le> hi")
    case False
    have "al_range lo hi ((k, v) # xs) = []" "al_outside lo hi ((k, v) # xs) = (k, v) # xs"
      using False asc by (auto simp: al_range_def al_outside_def filter_empty_conv filter_id_conv)
    then show ?thesis using Cons.prems(1) first False unfolding ents by (subst t_range_loop.simps) (simp add: ents)
  next
    case True
    have "al_del k ((k, v) # xs) = xs" using asc by (auto simp: al_del_def filter_id_conv)
    then have r: "t_inv (t_remove t k)" "inorder (root (t_remove t k)) = xs"
      using t_remove_ok [OF Cons.prems(1), of k] by (simp_all add: ents)
    have "t_range_loop t lo hi f c n = t_range_loop (t_remove t k) lo hi f (f k v c) (n + 1)"
      using first lo True by (subst t_range_loop.simps) simp
    moreover have "\<exists>t'. t_range_loop (t_remove t k) lo hi f (f k v c) (n + 1) =
        Some (t', fold (\<lambda>p. f (fst p) (snd p)) (al_range lo hi xs) (f k v c), n + 1 + length (al_range lo hi xs)) \<and>
      t_inv t' \<and> inorder (root t') = al_outside lo hi xs"
      using Cons.hyps(1) [OF r(2) [symmetric] r(1), of "f k v c" "n + 1"] Cons.prems(2) unfolding r(2) ents by simp
    ultimately show ?thesis using lo True unfolding ents by (simp add: al_range_def al_outside_def)
  qed
qed

interpretation ts: alt_ordered t_inv t_abs "\<lambda>_. True" "\<lambda>_. \<infinity>" "\<lambda>t k v. Some (t_insert t k v)" "\<lambda>t k. Some (t_get t k)"
  "\<lambda>t k. Some (t_remove t k)" "\<lambda>t. Some (t_first t)" t_remove_range
proof
  fix t k v hi f c
  assume inv: "t_inv t"
  have asc: "asc (inorder (root t))" using inv by (simp add: t_inv_def)
  show "Some (t_get t k) = Some (t_abs t k)" using t_get_ok [OF inv] by simp
  show "\<exists>m'. Some (t_insert t k v) = Some m' \<and> t_inv m' \<and> t_abs m' = (t_abs t)(k \<mapsto> v) \<and> (\<infinity> :: enat) \<le> \<infinity> + 1"
    using t_insert_ok [OF inv, of k v] by (simp add: t_abs_def map_of_al_ins)
  show "\<exists>m'. Some (t_remove t k) = Some m' \<and> t_inv m' \<and> t_abs m' = (t_abs t)(k := None) \<and> (\<infinity> :: enat) \<le> \<infinity>"
    using t_remove_ok [OF inv, of k] by (simp add: t_abs_def map_of_al_del)
  show "Some (t_first t) = Some (spec_least (t_abs t) UNIV)"
    using al_first_spec_least [OF asc, of UNIV] t_first_ok [of t] by (simp add: t_abs_def)
  show "\<exists>m'. t_remove_range t 0 hi f c =
          Some (m', fold (\<lambda>p. f (fst p) (snd p)) (spec_list (t_abs t) {..hi}) c, card (dom (t_abs t) \<inter> {..hi})) \<and>
        t_inv m' \<and> t_abs m' = t_abs t |` (- {..hi}) \<and> (\<infinity> :: enat) \<le> \<infinity>"
    using t_range_loop_ok [OF inv, of 0 hi f c 0] filter_spec_list [OF asc, of "{0..hi}"]
      length_filter_card [OF asc, of "{0..hi}"] restrict_outside [of 0 hi "inorder (root t)"]
    by (auto simp: t_remove_range_def t_abs_def al_range_filter upto_range)
qed

lemma t_create_ok: "t_inv (t_create cap)" "t_abs (t_create cap) = Map.empty"
  by (simp_all add: t_create_def t_inv_def t_abs_def)

lemma t_destroy_loop_mset: "mset (t_destroy_loop t) = mset_tree t"
proof (induction t rule: t_destroy_loop.induct)
  case (2 l a r)
  have "t_cmp a a = 0" by (simp add: t_cmp_def)
  then show ?case using 2 mset_tdelete_root [of t_cmp a a l r] by (simp only: t_destroy_loop.simps mset.simps)
qed simp

text \<open>\<^verbatim>\<open>t_destroy\<close>: deleting the root until there is none ends, and frees every node of the tree exactly once,
  whatever its shape.\<close>

theorem tsearch_destroy_frees_each_node: "mset (t_destroy t) = mset (inorder (root t))"
  using t_destroy_loop_mset [of "root t"] by (simp add: t_destroy_def flip: mset_inorder)

text \<open>\<^verbatim>\<open>t_remove_range\<close> when no key lies below the range: the loop ends, the callback sees the entries of the
  range in ascending order, exactly they leave the tree, and the result is their number.\<close>

theorem tsearch_remove_range_correct:
  assumes "t_inv t" and "\<forall>p\<in>set (inorder (root t)). lo \<le> fst p"
  shows "\<exists>t'. t_remove_range t lo hi f c =
      Some (t', fold (\<lambda>p. f (fst p) (snd p)) (al_range lo hi (inorder (root t))) c, length (al_range lo hi (inorder (root t)))) \<and>
    t_inv t' \<and> inorder (root t') = al_outside lo hi (inorder (root t))"
  using t_range_loop_ok [OF assms(1), of lo hi f c 0] assms(2) by (auto simp: t_remove_range_def)

theorem tsearch_remove_range_correct_witness:
  "\<exists>t'. t_remove_range (t_insert (t_insert (t_create 4) 7 1) 5 2) 5 6 collect [] = Some (t', [(5, 2)], 1) \<and> t_inv t'"
proof -
  have e: "inorder (root (t_insert (t_insert (t_create 4) 7 1) 5 2)) = [(5, 2), (7, 1)]" by code_simp
  have "t_inv (t_insert (t_insert (t_create 4) 7 1) 5 2)" by (intro t_insert_ok t_create_ok)
  from tsearch_remove_range_correct [OF this, of 5 6 collect "[]"] show ?thesis
    unfolding e by (auto simp: al_range_def al_outside_def collect_def)
qed

text \<open>\<^verbatim>\<open>t_remove_range\<close> with an entry below the range removes nothing, where the expanse map removes the entries
  of the range.\<close>

theorem tsearch_remove_range_skips:
  "map_option (\<lambda>(t, acc, n). (acc, n)) (t_remove_range (t_insert (t_insert (t_create 4) 1 10) 5 50) 5 9 collect []) = Some ([], 0) \<and>
   map_option (\<lambda>(m, acc, n). (acc, n)) (ex_remove_range (the (ex_insert (the (ex_insert (ex_create 4) 1 10)) 5 50)) 5 9 collect [])
     = Some ([(5, 50)], 1)"
  by code_simp

end
