(* ===== verification/Alts.thy ===== *)
theory Alts
  imports Sorted_Array Open_Hash Tsearch_Map
begin

text \<open>
  The four implementations of the vtable side by side (\<^verbatim>\<open>integrations/stm32h747/alts.c\<close>): what the comparison of
  the harness rests on, that they are the same table to the code that runs over them.
\<close>

lemma alt_runs:
  assumes "cap \<le> 2 ^ 29" and "length ks = cap" and "length vs = cap" and "length hs = oh_size 16 cap"
    and "\<forall>c\<in>set cs. oh_key (call_key c)" and "length (filter is_insert cs) \<le> cap" and "0 < cap"
  shows "map_option snd (alt_run ex_insert ex_get ex_remove cs (ex_create cap)) = Some (snd (alt_spec cs Map.empty))"
    and "map_option snd (alt_run sa_insert sa_get sa_remove cs (sa_create ks vs cap)) = Some (snd (alt_spec cs Map.empty))"
    and "map_option snd (alt_run oh_insert oh_get oh_remove cs (oh_create hs cap)) = Some (snd (alt_spec cs Map.empty))"
    and "map_option snd (alt_run (\<lambda>t k v. Some (t_insert t k v)) (\<lambda>t k. Some (t_get t k)) (\<lambda>t k. Some (t_remove t k)) cs (t_create cap))
      = Some (snd (alt_spec cs Map.empty))"
proof -
  have keys: "\<forall>c\<in>set cs. True" by simp
  have "map_ok (ex_create cap)" "map_abs (ex_create cap) = Map.empty"
    using map_abs_new emap.new_ok by (simp_all add: ex_create_def)
  then show "map_option snd (alt_run ex_insert ex_get ex_remove cs (ex_create cap)) = Some (snd (alt_spec cs Map.empty))"
    using ex.run_ok [OF _ keys, of "ex_create cap"] by auto
  have "sa_inv (sa_create ks vs cap)" "sa_abs (sa_create ks vs cap) = Map.empty" "sa_space (sa_create ks vs cap) = enat cap"
    using sa_create_ok [OF assms(2,3)] assms(1) by simp_all
  then show "map_option snd (alt_run sa_insert sa_get sa_remove cs (sa_create ks vs cap)) = Some (snd (alt_spec cs Map.empty))"
    using sa.run_ok [OF _ keys, of "sa_create ks vs cap"] assms(6) by auto
  note c = oh_create_ok [OF assms(1,4)]
  have "enat (length (filter is_insert cs)) \<le> oh_space (oh_create hs cap)"
    using c(3) assms(6,7) by (cases "oh_space (oh_create hs cap)") (auto simp: one_enat_def)
  then show "map_option snd (alt_run oh_insert oh_get oh_remove cs (oh_create hs cap)) = Some (snd (alt_spec cs Map.empty))"
    using oh.run_ok [OF c(1) assms(5)] c(2) by auto
  show "map_option snd (alt_run (\<lambda>t k v. Some (t_insert t k v)) (\<lambda>t k. Some (t_get t k)) (\<lambda>t k. Some (t_remove t k)) cs (t_create cap))
      = Some (snd (alt_spec cs Map.empty))"
    using ts.run_ok [OF t_create_ok(1) keys] t_create_ok(2) by auto
qed



text \<open>\<^verbatim>\<open>sa_remove_range\<close>, for a range that is not inverted: the callback sees the entries of the range in
  ascending order, exactly they are cut out of the two arrays, no access leaves the arrays, and the result
  is their number.\<close>

theorem sorted_array_remove_range_correct:
  assumes "sa_inv s" and "lo \<le> hi"
  shows "\<exists>s'. sa_remove_range s lo hi f c =
        Some (s', fold (\<lambda>p. f (fst p) (snd p)) (al_range lo hi (sa_ents s)) c, length (al_range lo hi (sa_ents s))) \<and>
      sa_inv s' \<and> sa_ents s' = al_outside lo hi (sa_ents s)"
  using sa_remove_range_ok [OF assms, of f c] by blast

definition sa_demo :: sarr where
  "sa_demo = \<lparr>sa_keys = [2, 3, 5, 7, 9, 11], sa_vals = [10, 30, 50, 70, 90, 110], sa_len = 6, sa_cap = 6\<rparr>"

theorem sorted_array_remove_range_correct_witness:
  "\<exists>s'. sa_remove_range sa_demo 3 7 collect [] = Some (s', [(3, 30), (5, 50), (7, 70)], 3) \<and> sa_ents s' = [(2, 10), (9, 90), (11, 110)]"
proof -
  have e: "sa_ents sa_demo = [(2, 10), (3, 30), (5, 50), (7, 70), (9, 90), (11, 110)]" by code_simp
  have "sa_inv sa_demo" unfolding sa_inv_def e by (simp add: sa_demo_def)
  from sorted_array_remove_range_correct [OF this, of 3 7 collect "[]"] show ?thesis
    unfolding e by (auto simp: al_range_def al_outside_def collect_def)
qed

text \<open>\<^verbatim>\<open>sa_remove_range\<close> with an inverted range: the unsigned difference of the two positions wraps, and the
  array, which the expanse map's function leaves alone, grows by the length of the gap with entries repeated.\<close>

theorem sorted_array_inverted_range_corrupts:
  "(case sa_remove_range (\<lparr>sa_keys = [2, 3, 5, 7, 0, 0], sa_vals = [10, 30, 50, 70, 0, 0], sa_len = 4, sa_cap = 6\<rparr>) 6 2 collect [] of
      Some (s', acc, n) \<Rightarrow> map fst (sa_ents s') = [2, 3, 5, 3, 5, 7] \<and> acc = [] \<and> n = 4294967294
    | None \<Rightarrow> False)"
  by (simp add: sa_remove_range_def sa_lower_def sa_search.simps sa_erase_def size_sub_def memmove_def rd_def sa_ents_def Let_def)

end
