(* ===== verification/Linear_Probing.thy ===== *)
theory Linear_Probing
  imports C_Memory "HOL-Library.Multiset"
begin

text \<open>
  Linear probing, for the hash tables of the comparison baselines (\<^verbatim>\<open>components/expanse/test/twin_containers.c\<close>). A
  table is a list of optional entries; \<open>h\<close> gives the home slot of a key. The theory has where a probe stops, what an
  insertion keeps, and the backward shift that closes the hole of a removal: seen from behind an empty slot, no probe
  sequence wraps, and the shift becomes a walk along a line.
\<close>

type_synonym ('k, 'v) slots = "('k \<times> 'v) option list"

definition walk_slot :: "nat \<Rightarrow> nat \<Rightarrow> nat \<Rightarrow> nat" where
  "walk_slot n a d = (a + d) mod n"

definition gap :: "nat \<Rightarrow> nat \<Rightarrow> nat \<Rightarrow> nat" where
  "gap n a b = (if a \<le> b then b - a else b + n - a)"

lemma gap_less: "a < n \<Longrightarrow> b < n \<Longrightarrow> gap n a b < n"
  by (auto simp: gap_def)

lemma walk_gap: "a < n \<Longrightarrow> b < n \<Longrightarrow> walk_slot n a (gap n a b) = b"
  by (simp add: walk_slot_def gap_def)

lemma walk_less: "0 < n \<Longrightarrow> walk_slot n a d < n"
  by (simp add: walk_slot_def)

lemma gap_walk:
  assumes "a < n" and "d < n"
  shows "gap n a (walk_slot n a d) = d"
proof (cases "a + d < n")
  case True
  then show ?thesis by (simp add: walk_slot_def gap_def)
next
  case False
  then have "(a + d) mod n = a + d - n" using assms by (simp add: mod_if)
  then show ?thesis using False assms by (simp add: walk_slot_def gap_def)
qed

lemma walk_inj: "a < n \<Longrightarrow> d < n \<Longrightarrow> e < n \<Longrightarrow> walk_slot n a d = walk_slot n a e \<longleftrightarrow> d = e"
  by (metis gap_walk)

lemma walk_Suc: "walk_slot n a (Suc d) = (walk_slot n a d + 1) mod n"
  by (simp add: walk_slot_def mod_Suc_eq)

lemma lift_Suc_chain: "(\<And>d. d < D \<Longrightarrow> f d = f (Suc d)) \<Longrightarrow> f 0 = f D"
  by (induction D) auto

section \<open>Tables\<close>

definition one_place :: "('k, 'v) slots \<Rightarrow> bool" where
  "one_place T \<longleftrightarrow> (\<forall>i j k v w. i < length T \<longrightarrow> j < length T \<longrightarrow> T ! i = Some (k, v) \<longrightarrow> T ! j = Some (k, w) \<longrightarrow> i = j)"

definition reachable :: "('k \<Rightarrow> nat) \<Rightarrow> ('k, 'v) slots \<Rightarrow> bool" where
  "reachable h T \<longleftrightarrow> (\<forall>i k v d. i < length T \<longrightarrow> T ! i = Some (k, v) \<longrightarrow> d < gap (length T) (h k) i \<longrightarrow>
     T ! walk_slot (length T) (h k) d \<noteq> None)"

lemma reachableD:
  "reachable h T \<Longrightarrow> i < length T \<Longrightarrow> T ! i = Some (k, v) \<Longrightarrow> d < gap (length T) (h k) i \<Longrightarrow>
   T ! walk_slot (length T) (h k) d \<noteq> None"
  unfolding reachable_def by blast

definition lp_inv :: "('k \<Rightarrow> nat) \<Rightarrow> ('k, 'v) slots \<Rightarrow> bool" where
  "lp_inv h T \<longleftrightarrow> (\<forall>k. h k < length T) \<and> one_place T \<and> reachable h T \<and> None \<in> set T"

definition lp_abs :: "('k, 'v) slots \<Rightarrow> 'k \<rightharpoonup> 'v" where
  "lp_abs T = map_of (map the (filter (\<lambda>x. x \<noteq> None) T))"

lemma lp_abs_mem: "lp_abs T k = Some v \<Longrightarrow> Some (k, v) \<in> set T"
  unfolding lp_abs_def by (drule map_of_SomeD) auto

lemma lp_abs_iff:
  assumes "one_place T"
  shows "lp_abs T k = Some v \<longleftrightarrow> (\<exists>i<length T. T ! i = Some (k, v))"
proof
  assume "lp_abs T k = Some v"
  then show "\<exists>i<length T. T ! i = Some (k, v)" using lp_abs_mem by (fastforce simp: in_set_conv_nth)
next
  assume "\<exists>i<length T. T ! i = Some (k, v)"
  then obtain i where i: "i < length T" "T ! i = Some (k, v)" by blast
  then have "Some (k, v) \<in> set T" by (metis nth_mem)
  then have "(k, v) \<in> set (map the (filter (\<lambda>x. x \<noteq> None) T))" by force
  then obtain w where w: "lp_abs T k = Some w" unfolding lp_abs_def using weak_map_of_SomeI by fastforce
  then obtain j where j: "j < length T" "T ! j = Some (k, w)" using lp_abs_mem by (fastforce simp: in_set_conv_nth)
  then have "i = j" using assms i by (auto simp: one_place_def)
  then show "lp_abs T k = Some v" using w i j by simp
qed

lemma lp_abs_eqI:
  assumes "one_place T" and "\<And>v. m k = Some v \<longleftrightarrow> (\<exists>i<length T. T ! i = Some (k, v))"
  shows "lp_abs T k = m k"
  using assms(2) lp_abs_iff [OF assms(1), of k] by (metis option.exhaust)

section \<open>Where a probe stops\<close>

definition keyed :: "('k, 'v) slots \<Rightarrow> 'k \<Rightarrow> nat \<Rightarrow> bool" where
  "keyed T k i \<longleftrightarrow> (\<exists>v. T ! i = Some (k, v))"

lemma lp_stop:
  assumes inv: "lp_inv h T"
  obtains D where "D < length T" "T ! walk_slot (length T) (h k) D = None \<or> keyed T k (walk_slot (length T) (h k) D)"
    "\<And>d. d < D \<Longrightarrow> T ! walk_slot (length T) (h k) d \<noteq> None \<and> \<not> keyed T k (walk_slot (length T) (h k) d)"
proof -
  let ?s = "walk_slot (length T) (h k)"
  let ?P = "\<lambda>d. T ! ?s d = None \<or> keyed T k (?s d)"
  have hk: "h k < length T" using inv by (simp add: lp_inv_def)
  obtain i where i: "i < length T" "T ! i = None" using inv by (auto simp: lp_inv_def in_set_conv_nth)
  have P: "?P (gap (length T) (h k) i)" using walk_gap [OF hk i(1)] i(2) by simp
  define D where "D = (LEAST d. ?P d)"
  have "?P D" unfolding D_def by (rule LeastI [of ?P, OF P])
  moreover have "D \<le> gap (length T) (h k) i" unfolding D_def by (rule Least_le [of ?P, OF P])
  then have "D < length T" using gap_less [OF hk i(1)] by simp
  moreover have "\<not> ?P d" if "d < D" for d using not_less_Least that unfolding D_def by blast
  ultimately show ?thesis by (intro that [of D]) simp_all
qed

lemma lp_miss:
  assumes inv: "lp_inv h T" and D: "D < length T" "T ! walk_slot (length T) (h k) D = None"
    and before: "\<And>d. d < D \<Longrightarrow> \<not> keyed T k (walk_slot (length T) (h k) d)"
  shows "i < length T \<Longrightarrow> \<not> keyed T k i"
proof
  assume i: "i < length T" and "keyed T k i"
  then obtain v where v: "T ! i = Some (k, v)" by (auto simp: keyed_def)
  let ?d = "gap (length T) (h k) i"
  have hk: "h k < length T" using inv by (simp add: lp_inv_def)
  have at: "walk_slot (length T) (h k) ?d = i" by (rule walk_gap [OF hk i])
  have "\<not> ?d < D" using before [of ?d] \<open>keyed T k i\<close> at by auto
  moreover have "?d \<noteq> D" using at v D(2) by auto
  moreover have "\<not> D < ?d" using reachableD [of h T i k v D] inv i v D(2) by (auto simp: lp_inv_def)
  ultimately show False by linarith
qed

section \<open>Writing entries\<close>

lemma ex_update: "i < length T \<Longrightarrow> (\<exists>j<length (T[i := e]). T[i := e] ! j = x) \<longleftrightarrow> e = x \<or> (\<exists>j<length T. j \<noteq> i \<and> T ! j = x)"
  by (metis length_list_update nth_list_update_eq nth_list_update_neq)

text \<open>The table with an entry written over one of its key, or over a hole where the key was nowhere else.\<close>

lemma lp_abs_write:
  assumes one: "one_place T" "one_place (T[i := Some (k, v)])" and i: "i < length T"
    and key: "\<And>j x. j < length T \<Longrightarrow> T ! j = Some (k, x) \<Longrightarrow> j = i" and old: "T ! i = None \<or> keyed T k i"
  shows "lp_abs (T[i := Some (k, v)]) = (lp_abs T)(k \<mapsto> v)"
proof
  fix x
  show "lp_abs (T[i := Some (k, v)]) x = ((lp_abs T)(k \<mapsto> v)) x"
  proof (rule lp_abs_eqI [OF one(2)])
    fix y
    show "((lp_abs T)(k \<mapsto> v)) x = Some y \<longleftrightarrow> (\<exists>j<length (T[i := Some (k, v)]). T[i := Some (k, v)] ! j = Some (x, y))"
    proof (cases "x = k")
      case True
      then show ?thesis unfolding ex_update [OF i] using key by auto
    next
      case False
      then have "j \<noteq> i" if "T ! j = Some (x, y)" for j using old that by (auto simp: keyed_def)
      then show ?thesis unfolding ex_update [OF i] using False lp_abs_iff [OF one(1), of x y] by auto
    qed
  qed
qed

lemma lp_update_ok:
  assumes inv: "lp_inv h T" and i: "i < length T" "keyed T k i"
  shows "lp_inv h (T[i := Some (k, v)])" and "lp_abs (T[i := Some (k, v)]) = (lp_abs T)(k \<mapsto> v)"
proof -
  obtain w where w: "T ! i = Some (k, w)" using i(2) by (auto simp: keyed_def)
  have one: "one_place T" using inv by (simp add: lp_inv_def)
  have nth: "T[i := Some (k, v)] ! j = (if j = i then Some (k, v) else T ! j)" if "j < length T" for j using that by simp
  have uniq: "j < length T \<Longrightarrow> T ! j = Some (k, x) \<Longrightarrow> j = i" for j x using one w i(1) by (auto simp: one_place_def)
  have one': "one_place (T[i := Some (k, v)])"
    unfolding one_place_def
  proof (intro allI impI)
    fix a b k' x y
    assume "a < length (T[i := Some (k, v)])" "b < length (T[i := Some (k, v)])"
      "T[i := Some (k, v)] ! a = Some (k', x)" "T[i := Some (k, v)] ! b = Some (k', y)"
    then show "a = b" using one uniq by (auto simp: nth one_place_def split: if_splits)
  qed
  have None: "j < length T \<Longrightarrow> T[i := Some (k, v)] ! j = None \<longleftrightarrow> T ! j = None" for j using w by (auto simp: nth)
  have "reachable h (T[i := Some (k, v)])"
    unfolding reachable_def
  proof (intro allI impI)
    fix a k' x d
    assume a: "a < length (T[i := Some (k, v)])" "T[i := Some (k, v)] ! a = Some (k', x)" "d < gap (length (T[i := Some (k, v)])) (h k') a"
    then obtain x' where "T ! a = Some (k', x')" using w by (auto simp: nth split: if_splits)
    then have "T ! walk_slot (length T) (h k') d \<noteq> None" using reachableD [of h T a k' x' d] inv a by (auto simp: lp_inv_def)
    then show "T[i := Some (k, v)] ! walk_slot (length (T[i := Some (k, v)])) (h k') d \<noteq> None"
      using None [of "walk_slot (length T) (h k') d"] walk_less [of "length T" "h k'" d] i(1) by force
  qed
  moreover obtain e where "e < length T" "T ! e = None" using inv by (auto simp: lp_inv_def in_set_conv_nth)
  then have "None \<in> set (T[i := Some (k, v)])" using None [of e] by (auto simp: in_set_conv_nth intro!: exI [of _ e])
  ultimately show "lp_inv h (T[i := Some (k, v)])" using inv one' by (simp add: lp_inv_def)
  show "lp_abs (T[i := Some (k, v)]) = (lp_abs T)(k \<mapsto> v)"
    by (rule lp_abs_write [OF one one' i(1)]) (use uniq i(2) in blast)+
qed

lemma lp_put_ok:
  assumes inv: "lp_inv h T" and D: "D < length T" "T ! walk_slot (length T) (h k) D = None"
    and before: "\<And>d. d < D \<Longrightarrow> T ! walk_slot (length T) (h k) d \<noteq> None \<and> \<not> keyed T k (walk_slot (length T) (h k) d)"
    and room: "None \<in> set (T[walk_slot (length T) (h k) D := Some (k, v)])"
  shows "lp_inv h (T[walk_slot (length T) (h k) D := Some (k, v)])"
    and "lp_abs (T[walk_slot (length T) (h k) D := Some (k, v)]) = (lp_abs T)(k \<mapsto> v)"
proof -
  let ?i = "walk_slot (length T) (h k) D" and ?n = "length T"
  let ?T = "T[?i := Some (k, v)]"
  have one: "one_place T" and hk: "h x < ?n" for x using inv by (auto simp: lp_inv_def)
  have pos: "0 < ?n" using D(1) by linarith
  have i: "?i < ?n" by (rule walk_less [OF pos])
  have miss: "j < ?n \<Longrightarrow> T ! j \<noteq> Some (k, x)" for j x using lp_miss [OF inv D, of j] before by (auto simp: keyed_def)
  have nth: "?T ! j = (if j = ?i then Some (k, v) else T ! j)" if "j < ?n" for j using that by simp
  have one': "one_place ?T"
    unfolding one_place_def
  proof (intro allI impI)
    fix a b k' x y
    assume "a < length ?T" "b < length ?T" "?T ! a = Some (k', x)" "?T ! b = Some (k', y)"
    then show "a = b" using one miss by (auto simp: nth one_place_def split: if_splits)
  qed
  have "reachable h ?T"
    unfolding reachable_def
  proof (intro allI impI)
    fix a k' x d
    assume a: "a < length ?T" "?T ! a = Some (k', x)" "d < gap (length ?T) (h k') a"
    have w: "walk_slot ?n (h k') d < ?n" by (rule walk_less [OF pos])
    show "?T ! walk_slot (length ?T) (h k') d \<noteq> None"
    proof (cases "a = ?i")
      case True
      then have "k' = k" using a(2) i by simp
      then have "d < D" using a(3) True gap_walk [OF hk D(1)] by simp
      then show ?thesis using before [of d] w \<open>k' = k\<close> by (simp add: nth)
    next
      case False
      then have "T ! walk_slot ?n (h k') d \<noteq> None" using reachableD [of h T a k' x d] inv a by (auto simp: lp_inv_def nth)
      then show ?thesis using w by (simp add: nth)
    qed
  qed
  then show "lp_inv h ?T" using inv one' room by (simp add: lp_inv_def)
  show "lp_abs ?T = (lp_abs T)(k \<mapsto> v)"
    by (rule lp_abs_write [OF one one' i]) (use miss D(2) in blast)+
qed

section \<open>The backward shift\<close>

text \<open>The loop that closes the hole \<open>j\<close>, with the scan at \<open>k\<close>, in the form of the source.\<close>

definition moves_back :: "nat \<Rightarrow> nat \<Rightarrow> nat \<Rightarrow> bool" where
  "moves_back j k hm = (if j < k then hm \<le> j \<or> k < hm else hm \<le> j \<and> k < hm)"

partial_function (option) lp_shift :: "('k \<Rightarrow> nat) \<Rightarrow> ('k, 'v) slots \<Rightarrow> nat \<Rightarrow> nat \<Rightarrow> ('k, 'v) slots option" where
  "lp_shift h T j k =
    (case T ! k of
       None \<Rightarrow> Some T
     | Some e \<Rightarrow>
         if moves_back j k (h (fst e)) then lp_shift h (T[j := Some e, k := None]) k ((k + 1) mod length T)
         else lp_shift h T j ((k + 1) mod length T))"

lemma one_place_count: "one_place T \<longleftrightarrow> (\<forall>k. length (filter (\<lambda>e. \<exists>v. e = Some (k, v)) T) \<le> 1)"
proof -
  have "length (filter (\<lambda>e. \<exists>v. e = Some (k, v)) T) \<le> 1 \<longleftrightarrow>
      (\<forall>i j. i < length T \<and> keyed T k i \<longrightarrow> j < length T \<and> keyed T k j \<longrightarrow> i = j)" for k
    unfolding length_filter_conv_card keyed_def by (subst One_nat_def, subst card_le_Suc0_iff_eq) auto
  then show ?thesis unfolding one_place_def keyed_def by blast
qed

lemma one_place_mset: "mset T = mset T' \<Longrightarrow> one_place T \<longleftrightarrow> one_place T'"
  unfolding one_place_count by (metis mset_filter size_mset)

lemma lp_abs_mset:
  assumes "mset T = mset T'" and "one_place T"
  shows "lp_abs T' = lp_abs T"
proof
  fix k
  have one: "one_place T'" using assms one_place_mset by blast
  have "set T = set T'" using assms(1) by (rule mset_eq_setD)
  then show "lp_abs T' k = lp_abs T k"
    using lp_abs_iff [OF assms(2), of k] by (intro lp_abs_eqI [OF one]) (metis in_set_conv_nth)
qed

text \<open>The table read from the slot behind an empty one, where \<open>s\<close> is the first slot: no probe sequence wraps.\<close>

definition at :: "nat \<Rightarrow> ('k, 'v) slots \<Rightarrow> nat \<Rightarrow> ('k \<times> 'v) option" where
  "at s T x = T ! walk_slot (length T) s x"

definition hole :: "('k \<Rightarrow> nat) \<Rightarrow> nat \<Rightarrow> ('k, 'v) slots \<Rightarrow> nat \<Rightarrow> nat \<Rightarrow> bool" where
  "hole h s T a m \<longleftrightarrow> (\<forall>x k v. x < length T \<longrightarrow> at s T x = Some (k, v) \<longrightarrow>
     gap (length T) s (h k) \<le> x \<and>
     (\<forall>y. gap (length T) s (h k) \<le> y \<longrightarrow> y < x \<longrightarrow> at s T y \<noteq> None \<or> (y = a \<and> m \<le> x)))"

abbreviation no_hole :: "('k \<Rightarrow> nat) \<Rightarrow> nat \<Rightarrow> ('k, 'v) slots \<Rightarrow> bool" where
  "no_hole h s T \<equiv> hole h s T 0 (length T)"

lemma at_update:
  "s < length T \<Longrightarrow> a < length T \<Longrightarrow> x < length T \<Longrightarrow> at s (T[walk_slot (length T) s a := e]) x = (if x = a then e else at s T x)"
  using walk_inj [of s "length T" x a] walk_less [of "length T" s a] by (cases "T = []") (auto simp: at_def)

lemma walk_walk: "walk_slot n (walk_slot n s a) d = walk_slot n s (a + d)"
  by (simp add: walk_slot_def mod_add_left_eq add.assoc)

lemma gap_rotate:
  assumes "s < n" and "a < n" and "b < n"
  shows "gap n (walk_slot n s a) (walk_slot n s b) = gap n a b"
proof -
  have "walk_slot n (walk_slot n s a) (gap n a b) = walk_slot n s b"
  proof (cases "a \<le> b")
    case True
    then show ?thesis by (simp add: walk_walk gap_def)
  next
    case False
    then have "s + (a + gap n a b) = s + b + n" using assms(2) by (simp add: gap_def)
    then show ?thesis unfolding walk_walk unfolding walk_slot_def by (simp only: mod_add_self2)
  qed
  moreover have "walk_slot n s a < n" using assms(1) by (intro walk_less) linarith
  ultimately show ?thesis using gap_walk [of "walk_slot n s a" n "gap n a b"] gap_less [OF assms(2,3)] by simp
qed

lemma reachable_iff_no_hole:
  assumes h: "\<forall>k. h k < length T" and E: "E < length T" "T ! E = None" and s: "s = (E + 1) mod length T"
  shows "reachable h T \<longleftrightarrow> no_hole h s T"
proof -
  let ?n = "length T"
  have pos: "0 < ?n" using E(1) by linarith
  have sn: "s < ?n" unfolding s by (rule mod_less_divisor [OF pos])
  have "(s + (?n - 1)) mod ?n = (E + ?n) mod ?n" unfolding s mod_add_left_eq using pos by (simp add: Suc_leI)
  then have last: "at s T (?n - 1) = None" using E by (simp add: at_def walk_slot_def)
  have key: "(\<forall>d. d < gap ?n (h k) (walk_slot ?n s x) \<longrightarrow> T ! walk_slot ?n (h k) d \<noteq> None) \<longleftrightarrow>
      (gap ?n s (h k) \<le> x \<and> (\<forall>y. gap ?n s (h k) \<le> y \<longrightarrow> y < x \<longrightarrow> at s T y \<noteq> None))" if x: "x < ?n" for k x
  proof -
    let ?c = "gap ?n s (h k)"
    have c: "?c < ?n" "walk_slot ?n s ?c = h k" using h sn gap_less walk_gap by blast+
    have g: "gap ?n (h k) (walk_slot ?n s x) = gap ?n ?c x" using gap_rotate [OF sn c(1) x] c(2) by simp
    have w: "T ! walk_slot ?n (h k) d = at s T (?c + d)" for d using walk_walk [of ?n s ?c d] c(2) by (simp add: at_def)
    show ?thesis
    proof (cases "?c \<le> x")
      case True
      have "(\<forall>d. d < x - ?c \<longrightarrow> at s T (?c + d) \<noteq> None) \<longleftrightarrow> (\<forall>y. ?c \<le> y \<longrightarrow> y < x \<longrightarrow> at s T y \<noteq> None)"
      proof (intro iffI allI impI)
        fix y
        assume "\<forall>d. d < x - ?c \<longrightarrow> at s T (?c + d) \<noteq> None" and "?c \<le> y" "y < x"
        then show "at s T y \<noteq> None" by (auto dest: spec [of _ "y - ?c"])
      qed simp
      then show ?thesis using True unfolding g w by (simp add: gap_def)
    next
      case False
      then have "?n - 1 - ?c < gap ?n ?c x" "?c + (?n - 1 - ?c) = ?n - 1" using c x by (auto simp: gap_def)
      then show ?thesis using False last unfolding g w by metis
    qed
  qed
  have all: "(\<forall>i<?n. P i) \<longleftrightarrow> (\<forall>x<?n. P (walk_slot ?n s x))" for P
    using walk_gap [OF sn] gap_less [OF sn] walk_less [of ?n s] sn by (metis gr_zeroI less_zeroE)
  have "reachable h T \<longleftrightarrow> (\<forall>i<?n. \<forall>k v. T ! i = Some (k, v) \<longrightarrow> (\<forall>d. d < gap ?n (h k) i \<longrightarrow> T ! walk_slot ?n (h k) d \<noteq> None))"
    unfolding reachable_def by blast
  also have "\<dots> \<longleftrightarrow> (\<forall>x<?n. \<forall>k v. at s T x = Some (k, v) \<longrightarrow>
      gap ?n s (h k) \<le> x \<and> (\<forall>y. gap ?n s (h k) \<le> y \<longrightarrow> y < x \<longrightarrow> at s T y \<noteq> None))"
    by (subst all) (auto simp: key at_def simp del: not_None_eq)
  also have "\<dots> \<longleftrightarrow> no_hole h s T" unfolding hole_def by (auto simp: not_le)
  finally show ?thesis .
qed

lemma moves_back_linear:
  assumes "s < n" and "a < m" and "m < n" and "c \<le> m"
  shows "moves_back (walk_slot n s a) (walk_slot n s m) (walk_slot n s c) \<longleftrightarrow> c \<le> a"
proof -
  have w: "walk_slot n s x = (if s + x < n then s + x else s + x - n)" if "x < n" for x
    using that assms(1) by (auto simp: walk_slot_def mod_if)
  show ?thesis using assms by (auto simp: w moves_back_def)
qed

lemma hole_move:
  assumes T: "hole h s T a m" "at s T m = Some (k, v)" and a: "a < m" "m < length T" "s < length T"
    and c: "gap (length T) s (h k) \<le> a"
  shows "hole h s (T[walk_slot (length T) s a := Some (k, v), walk_slot (length T) s m := None]) m (Suc m)"
proof -
  let ?n = "length T"
  let ?T = "T[walk_slot ?n s a := Some (k, v), walk_slot ?n s m := None]"
  have at: "at s ?T x = (if x = m then None else if x = a then Some (k, v) else at s T x)" if "x < ?n" for x
    using at_update [of s "T[walk_slot ?n s a := Some (k, v)]" m x None] at_update [of s T a x "Some (k, v)"] a that by simp
  have old: "gap ?n s (h k') \<le> x \<and> (\<forall>y. gap ?n s (h k') \<le> y \<longrightarrow> y < x \<longrightarrow> at s T y \<noteq> None \<or> (y = a \<and> m \<le> x))"
    if "x < ?n" "at s T x = Some (k', w)" for x k' w using T(1) that by (auto simp: hole_def)
  show ?thesis
    unfolding hole_def length_list_update
  proof (intro allI impI)
    fix x k' w
    assume x: "x < ?n" "at s ?T x = Some (k', w)"
    then have xm: "x \<noteq> m" by (auto simp: at)
    show "gap ?n s (h k') \<le> x \<and> (\<forall>y. gap ?n s (h k') \<le> y \<longrightarrow> y < x \<longrightarrow> at s ?T y \<noteq> None \<or> y = m \<and> Suc m \<le> x)"
    proof (cases "x = a")
      case True
      then have "k' = k" using x a by (simp add: at)
      moreover have "at s ?T y \<noteq> None" if "gap ?n s (h k) \<le> y" "y < a" for y
        using old [OF a(2) T(2)] that a by (auto simp: at dest!: spec [of _ y])
      ultimately show ?thesis using True c by simp
    next
      case False
      then have "at s T x = Some (k', w)" using x xm by (simp add: at)
      note o = old [OF x(1) this]
      have "at s ?T y \<noteq> None \<or> y = m \<and> Suc m \<le> x" if y: "gap ?n s (h k') \<le> y" "y < x" for y
        using o y x(1) xm by (auto simp: at)
      then show ?thesis using o by blast
    qed
  qed
qed

lemma hole_skip:
  assumes T: "hole h s T a m" "at s T m = Some (k, v)" and c: "a < gap (length T) s (h k)"
  shows "hole h s T a (Suc m)"
  unfolding hole_def
proof (intro allI impI)
  fix x k' w
  assume x: "x < length T" "at s T x = Some (k', w)"
  have o: "gap (length T) s (h k') \<le> x" "\<And>y. gap (length T) s (h k') \<le> y \<Longrightarrow> y < x \<Longrightarrow> at s T y \<noteq> None \<or> y = a \<and> m \<le> x"
    using T(1) x by (auto simp: hole_def)
  have "at s T y \<noteq> None \<or> y = a \<and> Suc m \<le> x" if y: "gap (length T) s (h k') \<le> y" "y < x" for y
  proof (cases "x = m")
    case True
    then have "k' = k" using x(2) T(2) by simp
    then show ?thesis using o(2) [OF y] c y(1) by auto
  qed (use o(2) [OF y] in auto)
  then show "gap (length T) s (h k') \<le> x \<and> (\<forall>y. gap (length T) s (h k') \<le> y \<longrightarrow> y < x \<longrightarrow> at s T y \<noteq> None \<or> y = a \<and> Suc m \<le> x)"
    using o(1) by blast
qed

lemma hole_end:
  assumes T: "hole h s T a m" "at s T m = None" and a: "a < m"
  shows "no_hole h s T"
  unfolding hole_def
proof (intro allI impI)
  fix x k v
  assume x: "x < length T" "at s T x = Some (k, v)"
  have o: "gap (length T) s (h k) \<le> x" "\<And>y. gap (length T) s (h k) \<le> y \<Longrightarrow> y < x \<Longrightarrow> at s T y \<noteq> None \<or> y = a \<and> m \<le> x"
    using T(1) x by (auto simp: hole_def)
  have "at s T y \<noteq> None" if y: "gap (length T) s (h k) \<le> y" "y < x" for y
  proof (rule ccontr)
    assume "\<not> at s T y \<noteq> None"
    then have "y = a" "m \<le> x" using o(2) [OF y] by auto
    moreover have "m \<noteq> x" using T(2) x(2) by auto
    ultimately show False using o(2) [of m] y(1) a T(2) by auto
  qed
  then show "gap (length T) s (h k) \<le> x \<and> (\<forall>y. gap (length T) s (h k) \<le> y \<longrightarrow> y < x \<longrightarrow> at s T y \<noteq> None \<or> y = 0 \<and> length T \<le> x)"
    using o(1) by blast
qed

lemma mset_move: "i < length T \<Longrightarrow> j < length T \<Longrightarrow> T ! j = None \<Longrightarrow> T ! i = Some e \<Longrightarrow> mset (T[j := Some e, i := None]) = mset T"
  using mset_swap [of i T j] by simp

lemma lp_shift_ok:
  assumes h: "\<forall>k. h k < length T" and s: "s < length T" and last: "at s T (length T - 1) = None"
    and a: "a < m" "m < length T" "at s T a = None" and hole: "hole h s T a m"
  shows "\<exists>T'. lp_shift h T (walk_slot (length T) s a) (walk_slot (length T) s m) = Some T' \<and> length T' = length T \<and>
    no_hole h s T' \<and> mset T' = mset T \<and> at s T' (length T - 1) = None"
  using assms
proof (induction "length T - m" arbitrary: T a m rule: less_induct)
  case less
  let ?n = "length T"
  show ?case
  proof (cases "at s T m")
    case None
    then have "lp_shift h T (walk_slot ?n s a) (walk_slot ?n s m) = Some T" by (subst lp_shift.simps) (simp add: at_def)
    then show ?thesis using hole_end [OF less.prems(7) None less.prems(4)] less.prems(3) by simp
  next
    case (Some e)
    obtain k v where e: "e = (k, v)" by (cases e)
    let ?c = "gap ?n s (h k)"
    have m1: "Suc m < ?n" using less.prems(3,5) Some by (cases "m = ?n - 1") auto
    have cm: "?c \<le> m" using less.prems(5,7) Some e by (auto simp: hole_def)
    have hk: "walk_slot ?n s ?c = h k" using less.prems(1,2) walk_gap by blast
    have cond: "moves_back (walk_slot ?n s a) (walk_slot ?n s m) (h k) \<longleftrightarrow> ?c \<le> a"
      using moves_back_linear [OF less.prems(2,4,5) cm] hk by simp
    have nxt: "(walk_slot ?n s m + 1) mod ?n = walk_slot ?n s (Suc m)" by (simp add: walk_Suc)
    show ?thesis
    proof (cases "?c \<le> a")
      case False
      have "lp_shift h T (walk_slot ?n s a) (walk_slot ?n s m) = lp_shift h T (walk_slot ?n s a) (walk_slot ?n s (Suc m))"
        using Some cond False nxt by (subst lp_shift.simps) (simp add: at_def e)
      moreover have "hole h s T a (Suc m)" using hole_skip [OF less.prems(7)] Some e False by simp
      ultimately show ?thesis using less.hyps [of T "Suc m" a] less.prems m1 by simp
    next
      case True
      let ?T = "T[walk_slot ?n s a := Some (k, v), walk_slot ?n s m := None]"
      have pos: "0 < ?n" using m1 by linarith
      have "lp_shift h T (walk_slot ?n s a) (walk_slot ?n s m) = lp_shift h ?T (walk_slot ?n s m) (walk_slot ?n s (Suc m))"
        using Some cond True nxt by (subst lp_shift.simps) (simp add: at_def e)
      moreover have at: "at s ?T x = (if x = m then None else if x = a then Some (k, v) else at s T x)" if "x < ?n" for x
        using at_update [of s "T[walk_slot ?n s a := Some (k, v)]" m x None] at_update [of s T a x "Some (k, v)"] less.prems(2,4,5) that by simp
      moreover have "hole h s ?T m (Suc m)" using hole_move [OF less.prems(7) _ less.prems(4,5,2) True] Some e by simp
      moreover have "mset ?T = mset T"
        using mset_move [of "walk_slot ?n s m" T "walk_slot ?n s a" "(k, v)"] walk_less [OF pos] less.prems(6) Some e by (simp add: at_def)
      ultimately show ?thesis using less.hyps [of ?T "Suc m" m] less.prems m1 by auto
    qed
  qed
qed

text \<open>A removal: the hole is made, then closed.\<close>

lemma lp_remove_ok:
  assumes inv: "lp_inv h T" and i: "i < length T" "T ! i = Some (k, v)"
  shows "\<exists>T'. lp_shift h (T[i := None]) i ((i + 1) mod length T) = Some T' \<and> length T' = length T \<and>
    lp_inv h T' \<and> lp_abs T' = (lp_abs T)(k := None) \<and> mset T' = mset (T[i := None])"
proof -
  let ?n = "length T" and ?T = "T[i := None]"
  have h: "\<forall>k. h k < ?n" and one: "one_place T" and r: "reachable h T" using inv by (auto simp: lp_inv_def)
  obtain E where E: "E < ?n" "T ! E = None" using inv by (auto simp: lp_inv_def in_set_conv_nth)
  have pos: "0 < ?n" using E(1) by linarith
  define s where "s = (E + 1) mod ?n"
  have s: "s < ?n" unfolding s_def by (rule mod_less_divisor [OF pos])
  let ?a = "gap ?n s i"
  have a: "?a < ?n" "walk_slot ?n s ?a = i" using gap_less walk_gap s i(1) by blast+
  have "(s + (?n - 1)) mod ?n = (E + ?n) mod ?n" unfolding s_def mod_add_left_eq using pos by (simp add: Suc_leI)
  then have last: "walk_slot ?n s (?n - 1) = E" using E(1) by (simp add: walk_slot_def)
  have E': "E \<noteq> i" using E i by auto
  then have am: "Suc ?a < ?n" using a last by (cases "?a = ?n - 1") auto
  have at: "at s ?T x = (if x = ?a then None else at s T x)" if "x < ?n" for x
    using at_update [OF s a(1) that, of None] a(2) by simp
  have nh: "no_hole h s T" using reachable_iff_no_hole [OF h E s_def] r by blast
  have "hole h s ?T ?a (Suc ?a)"
    unfolding hole_def length_list_update
  proof (intro allI impI)
    fix x k' w
    assume x: "x < ?n" "at s ?T x = Some (k', w)"
    then have "at s T x = Some (k', w)" "x \<noteq> ?a" by (auto simp: at split: if_splits)
    then have "gap ?n s (h k') \<le> x" "\<And>y. gap ?n s (h k') \<le> y \<Longrightarrow> y < x \<Longrightarrow> at s T y \<noteq> None"
      using nh x(1) by (auto simp: hole_def)
    then show "gap ?n s (h k') \<le> x \<and> (\<forall>y. gap ?n s (h k') \<le> y \<longrightarrow> y < x \<longrightarrow> at s ?T y \<noteq> None \<or> y = ?a \<and> Suc ?a \<le> x)"
      using x(1) by (auto simp: at)
  qed
  moreover have "at s ?T (?n - 1) = None" using at [of "?n - 1"] E(2) last pos by (simp add: at_def)
  moreover have "at s ?T ?a = None" using at [OF a(1)] by simp
  ultimately obtain T' where T': "lp_shift h ?T i (walk_slot ?n s (Suc ?a)) = Some T'" "length T' = ?n" "no_hole h s T'" "mset T' = mset ?T"
      "at s T' (?n - 1) = None"
    using lp_shift_ok [of h ?T s ?a "Suc ?a"] h s am a(2) by auto
  have E2: "T' ! E = None" using T'(2,5) last by (simp add: at_def)
  have r': "reachable h T'" using reachable_iff_no_hole [of h T' E s] h T'(2,3) E(1) E2 s_def by simp
  have one_T: "one_place ?T"
    unfolding one_place_def
  proof (intro allI impI)
    fix x y k' u w
    assume "x < length ?T" "y < length ?T" "?T ! x = Some (k', u)" "?T ! y = Some (k', w)"
    then have "x < ?n" "y < ?n" "T ! x = Some (k', u)" "T ! y = Some (k', w)"
      by (cases "x = i"; cases "y = i"; simp)+
    then show "x = y" using one unfolding one_place_def by blast
  qed
  then have one': "one_place T'" using one_place_mset [OF T'(4)] by simp
  have "None \<in> set T'" using E(1) E2 T'(2) by (metis nth_mem)
  then have inv': "lp_inv h T'" using h T'(2) one' r' by (simp add: lp_inv_def)
  have "lp_abs ?T x = ((lp_abs T)(k := None)) x" for x
  proof (rule lp_abs_eqI [OF one_T])
    fix y
    have "T ! j \<noteq> Some (k, y)" if "j < ?n" "j \<noteq> i" for j using one i that by (auto simp: one_place_def)
    then show "((lp_abs T)(k := None)) x = Some y \<longleftrightarrow> (\<exists>j<length ?T. ?T ! j = Some (x, y))"
      unfolding ex_update [OF i(1)] using lp_abs_iff [OF one, of x y] i(2) by auto
  qed
  then have "lp_abs T' = (lp_abs T)(k := None)" using lp_abs_mset [OF T'(4) [symmetric] one_T] by auto
  moreover have "(i + 1) mod ?n = walk_slot ?n s (Suc ?a)" using a(2) by (simp add: walk_Suc)
  ultimately show ?thesis using T' inv' by auto
qed

end
