(* ===== verification/Twin_Hash.thy ===== *)
theory Twin_Hash
  imports Linear_Probing Memtable Alt_Table
begin

text \<open>
  The hash-table baseline (\<^verbatim>\<open>components/expanse/test/twin_containers.c\<close>, \<^verbatim>\<open>twin_hash\<close>): open addressing with linear
  probing, an occupancy flag per slot, and removal by backward shift. A null handle is the value \<^term>\<open>None\<close> of
  the handle's option. The outer option of a result is \<^term>\<open>None\<close> for a loop that does not end and for an access outside an array.
\<close>

section \<open>The aggregate\<close>

definition agg_init :: "memtable_agg \<Rightarrow> memtable_agg" where
  "agg_init a = a\<lparr>min_val := - 1, max_val := 0, sum_val := 0, agg_count := 0\<rparr>"

definition agg_add :: "memtable_agg \<Rightarrow> u32 \<Rightarrow> memtable_agg" where
  "agg_add a v =
    (let a1 = (if v < min_val a then a\<lparr>min_val := v\<rparr> else a);
         a2 = (if max_val a1 < v then a1\<lparr>max_val := v\<rparr> else a1)
     in a2\<lparr>sum_val := sum_val a2 + ucast v, agg_count := agg_count a2 + 1\<rparr>)"

lemma agg_add_fold: "agg_add a v = aggregate_fold a v"
  by (simp add: agg_add_def aggregate_fold_def)

lemma agg_add_alt:
  "agg_add a v = a\<lparr>min_val := min (min_val a) v, max_val := max (max_val a) v, sum_val := sum_val a + ucast v, agg_count := agg_count a + 1\<rparr>"
  by (simp add: agg_add_def Let_def min_def max_def not_less)

lemma agg_add_commute: "agg_add (agg_add a v) w = agg_add (agg_add a w) v"
  by (simp add: agg_add_alt ac_simps)

text \<open>The aggregate does not depend on the order in which the values come.\<close>

definition agg_of :: "memtable_agg \<Rightarrow> u32 list \<Rightarrow> memtable_agg" where
  "agg_of a vs = fold (\<lambda>v a. agg_add a v) vs (agg_init a)"

lemma agg_of_mset: "mset vs = mset ws \<Longrightarrow> agg_of a vs = agg_of a ws"
  unfolding agg_of_def by (rule fold_multiset_equiv [THEN fun_cong]) (auto simp: agg_add_commute fun_eq_iff)

lemma agg_of_count: "agg_count (agg_of a vs) = length vs"
proof -
  have "agg_count (fold (\<lambda>v a. agg_add a v) vs a) = agg_count a + length vs" for a
    by (induction vs arbitrary: a) (simp_all add: agg_add_def Let_def)
  then show ?thesis by (simp add: agg_of_def agg_init_def)
qed

section \<open>Operations\<close>

record twin_hash =
  th_keys :: "u32 list"
  th_vals :: "u32 list"
  th_used :: "u8 list"
  th_mask :: nat
  th_len :: nat
  th_lock :: nat

definition TH_TAKE :: "twin_hash \<Rightarrow> twin_hash" where
  "TH_TAKE h = h\<lparr>th_lock := th_lock h + 1\<rparr>"

definition TH_GIVE :: "twin_hash \<Rightarrow> twin_hash" where
  "TH_GIVE h = h\<lparr>th_lock := th_lock h - 1\<rparr>"

definition th_home :: "nat \<Rightarrow> u32 \<Rightarrow> nat" where
  "th_home msk key = unat (drop_bit 8 (key * 2654435761) AND of_nat msk)"

definition twin_hash_slot :: "twin_hash \<Rightarrow> u32 \<Rightarrow> nat" where
  "twin_hash_slot h key = th_home (th_mask h) key"

function twin_cap :: "nat \<Rightarrow> nat \<Rightarrow> nat" where
  "twin_cap cap want = (if 0 < cap \<and> cap < want then twin_cap (2 * cap) want else cap)"
  by pat_completeness auto
termination by (relation "measure (\<lambda>(cap, want). want - cap)") auto

declare twin_cap.simps [simp del]

text \<open>The four booleans are the answers of the allocator; a failed one frees the others.\<close>

definition twin_hash_create :: "bool \<Rightarrow> bool \<Rightarrow> bool \<Rightarrow> bool \<Rightarrow> nat \<Rightarrow> twin_hash option" where
  "twin_hash_create ok0 ok1 ok2 ok3 expected_entries =
    (let want = (expected_entries * 10) div 7 + 1; cap = twin_cap 8 want
     in if \<not> ok0 then None
        else if \<not> ok1 \<or> \<not> ok2 \<or> \<not> ok3 then None
        else Some \<lparr>th_keys = replicate cap 0, th_vals = replicate cap 0, th_used = replicate cap 0, th_mask = cap - 1,
                   th_len = 0, th_lock = 0\<rparr>)"

partial_function (option) th_insert_loop :: "twin_hash \<Rightarrow> u32 \<Rightarrow> u32 \<Rightarrow> nat \<Rightarrow> (twin_hash \<times> bool) option" where
  [code]: "th_insert_loop h key value i =
    (case rd (th_used h) i of
       None \<Rightarrow> None
     | Some u \<Rightarrow>
         if u = 0
         then do { us \<leftarrow> wr (th_used h) i 1;
                   ks \<leftarrow> wr (th_keys h) i key;
                   vs \<leftarrow> wr (th_vals h) i value;
                   Some (TH_GIVE (h\<lparr>th_used := us, th_keys := ks, th_vals := vs, th_len := th_len h + 1\<rparr>), True) }
         else (case rd (th_keys h) i of
                 None \<Rightarrow> None
               | Some c \<Rightarrow>
                   if c = key then do { vs \<leftarrow> wr (th_vals h) i value; Some (TH_GIVE (h\<lparr>th_vals := vs\<rparr>), False) }
                   else th_insert_loop h key value ((i + 1) AND th_mask h)))"

definition twin_hash_insert :: "twin_hash option \<Rightarrow> u32 \<Rightarrow> u32 \<Rightarrow> (twin_hash option \<times> bool) option" where
  "twin_hash_insert t key value =
    (case t of
       None \<Rightarrow> Some (None, False)
     | Some h \<Rightarrow> do { (h', r) \<leftarrow> th_insert_loop (TH_TAKE h) key value (twin_hash_slot h key); Some (Some h', r) })"

partial_function (option) th_find_loop :: "twin_hash \<Rightarrow> u32 \<Rightarrow> nat \<Rightarrow> nat option option" where
  [code]: "th_find_loop h key i =
    (case rd (th_used h) i of
       None \<Rightarrow> None
     | Some u \<Rightarrow>
         if u = 0 then Some None
         else (case rd (th_keys h) i of
                 None \<Rightarrow> None
               | Some c \<Rightarrow> if c = key then Some (Some i) else th_find_loop h key ((i + 1) AND th_mask h)))"

definition twin_hash_get :: "twin_hash option \<Rightarrow> u32 \<Rightarrow> (twin_hash option \<times> u32 option) option" where
  "twin_hash_get t key =
    (case t of
       None \<Rightarrow> Some (None, None)
     | Some h0 \<Rightarrow>
         (let h = TH_TAKE h0
          in do { f \<leftarrow> th_find_loop h key (twin_hash_slot h key);
                  case f of
                    None \<Rightarrow> Some (Some (TH_GIVE h), None)
                  | Some i \<Rightarrow> do { v \<leftarrow> rd (th_vals h) i; Some (Some (TH_GIVE h), Some v) } }))"

definition th_move :: "twin_hash \<Rightarrow> nat \<Rightarrow> nat \<Rightarrow> twin_hash option" where
  "th_move h j k =
    do { c \<leftarrow> rd (th_keys h) k;
         ks \<leftarrow> wr (th_keys h) j c;
         v \<leftarrow> rd (th_vals h) k;
         vs \<leftarrow> wr (th_vals h) j v;
         us \<leftarrow> wr (th_used h) j 1;
         us \<leftarrow> wr us k 0;
         Some (h\<lparr>th_keys := ks, th_vals := vs, th_used := us\<rparr>) }"

partial_function (option) th_shift_loop :: "twin_hash \<Rightarrow> nat \<Rightarrow> nat \<Rightarrow> twin_hash option" where
  [code]: "th_shift_loop h j k =
    (case rd (th_used h) k of
       None \<Rightarrow> None
     | Some u \<Rightarrow>
         if u = 0 then Some h
         else (case rd (th_keys h) k of
                 None \<Rightarrow> None
               | Some c \<Rightarrow>
                   if (if j < k then twin_hash_slot h c \<le> j \<or> k < twin_hash_slot h c
                       else twin_hash_slot h c \<le> j \<and> k < twin_hash_slot h c)
                   then (case th_move h j k of
                           None \<Rightarrow> None
                         | Some h' \<Rightarrow> th_shift_loop h' k ((k + 1) AND th_mask h))
                   else th_shift_loop h j ((k + 1) AND th_mask h)))"

definition twin_hash_remove :: "twin_hash option \<Rightarrow> u32 \<Rightarrow> (twin_hash option \<times> bool) option" where
  "twin_hash_remove t key =
    (case t of
       None \<Rightarrow> Some (None, False)
     | Some h0 \<Rightarrow>
         (let h = TH_TAKE h0
          in do { f \<leftarrow> th_find_loop h key (twin_hash_slot h key);
                  case f of
                    None \<Rightarrow> Some (Some (TH_GIVE h), False)
                  | Some i \<Rightarrow>
                      do { us \<leftarrow> wr (th_used h) i 0;
                           h' \<leftarrow> th_shift_loop (h\<lparr>th_used := us, th_len := th_len h - 1\<rparr>) i ((i + 1) AND th_mask h);
                           Some (Some (TH_GIVE h'), True) } }))"

definition twin_hash_aggregate ::
  "twin_hash option \<Rightarrow> u32 \<Rightarrow> u32 \<Rightarrow> memtable_agg option \<Rightarrow> (twin_hash option \<times> bool \<times> memtable_agg option) option"
where
  "twin_hash_aggregate t lo hi out =
    (case (t, out) of
       (Some h0, Some a0) \<Rightarrow>
         (let h = TH_TAKE h0
          in do { a \<leftarrow> for_loop [0..<th_mask h + 1] (\<lambda>i a.
                    do { u \<leftarrow> rd (th_used h) i;
                         if u \<noteq> 0
                         then do { k \<leftarrow> rd (th_keys h) i;
                                   if lo \<le> k \<and> k \<le> hi then do { v \<leftarrow> rd (th_vals h) i; Some (agg_add a v) } else Some a }
                         else Some a }) (agg_init a0);
                  Some (Some (TH_GIVE h), 0 < agg_count a, Some a) })
     | _ \<Rightarrow> Some (t, False, out))"

definition twin_hash_len :: "twin_hash option \<Rightarrow> nat" where
  "twin_hash_len t = (case t of None \<Rightarrow> 0 | Some h \<Rightarrow> th_len h)"

section \<open>The slots of a table\<close>

definition th_slots :: "twin_hash \<Rightarrow> (u32, u32) slots" where
  "th_slots h = map (\<lambda>i. if th_used h ! i = 0 then None else Some (th_keys h ! i, th_vals h ! i)) [0..<th_mask h + 1]"

definition th_shape :: "twin_hash \<Rightarrow> bool" where
  "th_shape h \<longleftrightarrow> (\<exists>e\<le>30. th_mask h + 1 = 2 ^ e) \<and> length (th_keys h) = th_mask h + 1 \<and> length (th_vals h) = th_mask h + 1 \<and>
     length (th_used h) = th_mask h + 1"

definition th_inv :: "twin_hash \<Rightarrow> bool" where
  "th_inv h \<longleftrightarrow> th_shape h \<and> lp_inv (th_home (th_mask h)) (th_slots h) \<and> th_len h = length (filter (\<lambda>x. x \<noteq> None) (th_slots h))"

definition th_abs :: "twin_hash \<Rightarrow> u32 \<rightharpoonup> u32" where
  "th_abs h = lp_abs (th_slots h)"

definition th_room :: "twin_hash \<Rightarrow> nat" where
  "th_room h = th_mask h - th_len h"

lemma length_th_slots [simp]: "length (th_slots h) = th_mask h + 1"
  by (simp add: th_slots_def)

lemma th_slots_nth: "i < th_mask h + 1 \<Longrightarrow> th_slots h ! i = (if th_used h ! i = 0 then None else Some (th_keys h ! i, th_vals h ! i))"
  unfolding th_slots_def by (subst nth_map) (simp_all del: upt_Suc)

lemma th_slots_lock [simp]: "th_slots (h\<lparr>th_lock := x\<rparr>) = th_slots h" "th_slots (h\<lparr>th_len := y\<rparr>) = th_slots h"
  by (simp_all add: th_slots_def)

lemma th_mask_mod: "th_mask h + 1 = 2 ^ e \<Longrightarrow> x AND th_mask h = x mod (th_mask h + 1)"
proof -
  assume e: "th_mask h + 1 = 2 ^ e"
  then have "th_mask h = mask e" by (simp add: mask_eq_exp_minus_1 flip: e)
  then have "x AND th_mask h = take_bit e x" by (simp add: take_bit_eq_mask)
  then show ?thesis using e by (simp add: take_bit_eq_mod)
qed

lemma th_step: "th_shape h \<Longrightarrow> (walk_slot (th_mask h + 1) a d + 1) AND th_mask h = walk_slot (th_mask h + 1) a (Suc d)"
  using th_mask_mod [of h] walk_Suc [of "th_mask h + 1" a d] by (auto simp: th_shape_def)

lemma th_home_less:
  assumes "th_mask h + 1 = 2 ^ e" and "e \<le> 30"
  shows "th_home (th_mask h) k < th_mask h + 1"
proof -
  have "(2 :: nat) ^ e \<le> 2 ^ 30" using assms(2) by (rule power_increasing) simp
  then have "th_mask h < 2 ^ 32" using assms(1) by simp
  then have "unat (of_nat (th_mask h) :: u32) = th_mask h" by (simp add: unat_of_nat take_bit_nat_eq_self)
  then have "th_home (th_mask h) k = unat (drop_bit 8 (k * 2654435761)) AND th_mask h" by (simp add: th_home_def unsigned_and_eq)
  then show ?thesis using th_mask_mod [OF assms(1)] by simp
qed

lemma th_slots_write:
  assumes "th_shape h" and "i < th_mask h + 1" and "u \<noteq> 0"
  shows "th_slots (h\<lparr>th_used := (th_used h)[i := u], th_keys := (th_keys h)[i := k], th_vals := (th_vals h)[i := v]\<rparr>) = (th_slots h)[i := Some (k, v)]"
proof (rule nth_equalityI)
  fix j
  assume "j < length (th_slots (h\<lparr>th_used := (th_used h)[i := u], th_keys := (th_keys h)[i := k], th_vals := (th_vals h)[i := v]\<rparr>))"
  then have j: "j < th_mask h + 1" by simp
  then show "th_slots (h\<lparr>th_used := (th_used h)[i := u], th_keys := (th_keys h)[i := k], th_vals := (th_vals h)[i := v]\<rparr>) ! j = (th_slots h)[i := Some (k, v)] ! j"
    using assms by (cases "i = j") (simp_all add: th_slots_nth th_shape_def)
qed simp

lemma th_slots_val:
  assumes "th_shape h" and "i < th_mask h + 1" and "th_used h ! i \<noteq> 0"
  shows "th_slots (h\<lparr>th_vals := (th_vals h)[i := v]\<rparr>) = (th_slots h)[i := Some (th_keys h ! i, v)]"
proof (rule nth_equalityI)
  fix j
  assume "j < length (th_slots (h\<lparr>th_vals := (th_vals h)[i := v]\<rparr>))"
  then have j: "j < th_mask h + 1" by simp
  then show "th_slots (h\<lparr>th_vals := (th_vals h)[i := v]\<rparr>) ! j = (th_slots h)[i := Some (th_keys h ! i, v)] ! j"
    using assms by (cases "i = j") (simp_all add: th_slots_nth th_shape_def)
qed simp

lemma th_slots_clear:
  assumes "th_shape h" and "i < th_mask h + 1"
  shows "th_slots (h\<lparr>th_used := (th_used h)[i := 0]\<rparr>) = (th_slots h)[i := None]"
proof (rule nth_equalityI)
  fix j
  assume "j < length (th_slots (h\<lparr>th_used := (th_used h)[i := 0]\<rparr>))"
  then have j: "j < th_mask h + 1" by simp
  then show "th_slots (h\<lparr>th_used := (th_used h)[i := 0]\<rparr>) ! j = (th_slots h)[i := None] ! j"
    using assms by (cases "i = j") (simp_all add: th_slots_nth th_shape_def)
qed simp

lemma count_write:
  "i < length T \<Longrightarrow> T ! i = None \<Longrightarrow> length (filter (\<lambda>x. x \<noteq> None) (T[i := Some e])) = length (filter (\<lambda>x. x \<noteq> None) T) + 1"
proof -
  assume i: "i < length T" "T ! i = None"
  have "filter (\<lambda>x. x \<noteq> None) (take i T @ T ! i # drop (Suc i) T) = filter (\<lambda>x. x \<noteq> None) T"
    by (simp add: id_take_nth_drop [OF i(1), symmetric])
  from arg_cong [OF this, of length] show ?thesis using i by (simp add: upd_conv_take_nth_drop)
qed

lemma count_room:
  assumes "length (filter (\<lambda>x. x \<noteq> None) T) < length T"
  shows "None \<in> set T"
proof (rule ccontr)
  assume "None \<notin> set T"
  then have "filter (\<lambda>x. x \<noteq> None) T = T" by (metis (mono_tags, lifting) filter_True)
  then show False using assms by simp
qed

section \<open>Lookup and insertion\<close>

lemma th_find_walk:
  assumes sh: "th_shape h" and "\<And>d. d < D \<Longrightarrow> th_slots h ! walk_slot (th_mask h + 1) a d \<noteq> None \<and> \<not> keyed (th_slots h) key (walk_slot (th_mask h + 1) a d)"
  shows "th_find_loop h key (walk_slot (th_mask h + 1) a 0) = th_find_loop h key (walk_slot (th_mask h + 1) a D)"
    and "th_insert_loop h key value (walk_slot (th_mask h + 1) a 0) = th_insert_loop h key value (walk_slot (th_mask h + 1) a D)"
proof -
  have step: "th_find_loop h key (walk_slot (th_mask h + 1) a d) = th_find_loop h key (walk_slot (th_mask h + 1) a (Suc d)) \<and>
      th_insert_loop h key value (walk_slot (th_mask h + 1) a d) = th_insert_loop h key value (walk_slot (th_mask h + 1) a (Suc d))" if "d < D" for d
  proof -
    let ?i = "walk_slot (th_mask h + 1) a d"
    have i: "?i < th_mask h + 1" by (rule walk_less) simp
    have u: "th_used h ! ?i \<noteq> 0" "th_keys h ! ?i \<noteq> key"
      using assms(2) [OF that] th_slots_nth [OF i] by (auto simp: keyed_def split: if_splits)
    show ?thesis
      using i u sh th_step [OF sh, of a d] by (subst th_find_loop.simps, subst th_insert_loop.simps) (simp add: th_shape_def)
  qed
  show "th_find_loop h key (walk_slot (th_mask h + 1) a 0) = th_find_loop h key (walk_slot (th_mask h + 1) a D)"
    by (rule lift_Suc_chain [of D "\<lambda>d. th_find_loop h key (walk_slot (th_mask h + 1) a d)"]) (use step in blast)
  show "th_insert_loop h key value (walk_slot (th_mask h + 1) a 0) = th_insert_loop h key value (walk_slot (th_mask h + 1) a D)"
    by (rule lift_Suc_chain [of D "\<lambda>d. th_insert_loop h key value (walk_slot (th_mask h + 1) a d)"]) (use step in blast)
qed

lemma th_lock_simps [simp]:
  "TH_GIVE (TH_TAKE h) = h" "th_keys (TH_TAKE h) = th_keys h" "th_vals (TH_TAKE h) = th_vals h" "th_used (TH_TAKE h) = th_used h"
  "th_mask (TH_TAKE h) = th_mask h" "th_len (TH_TAKE h) = th_len h" "th_slots (TH_TAKE h) = th_slots h" "th_inv (TH_TAKE h) = th_inv h"
  "th_mask (TH_GIVE h) = th_mask h" "th_len (TH_GIVE h) = th_len h" "th_slots (TH_GIVE h) = th_slots h" "th_inv (TH_GIVE h) = th_inv h"
  "th_abs (TH_TAKE h) = th_abs h" "th_abs (TH_GIVE h) = th_abs h" "th_shape (TH_TAKE h) = th_shape h" "th_lock (TH_TAKE h) = th_lock h + 1"
  by (simp_all add: TH_GIVE_def TH_TAKE_def th_inv_def th_shape_def th_abs_def)

lemma th_stop:
  assumes inv: "th_inv h"
  obtains D where "D < th_mask h + 1"
    "th_slots h ! walk_slot (th_mask h + 1) (th_home (th_mask h) key) D = None \<or> keyed (th_slots h) key (walk_slot (th_mask h + 1) (th_home (th_mask h) key) D)"
    "\<And>d. d < D \<Longrightarrow> th_slots h ! walk_slot (th_mask h + 1) (th_home (th_mask h) key) d \<noteq> None \<and> \<not> keyed (th_slots h) key (walk_slot (th_mask h + 1) (th_home (th_mask h) key) d)"
    "th_find_loop h key (th_home (th_mask h) key) = th_find_loop h key (walk_slot (th_mask h + 1) (th_home (th_mask h) key) D)"
    "\<And>value. th_insert_loop h key value (th_home (th_mask h) key) = th_insert_loop h key value (walk_slot (th_mask h + 1) (th_home (th_mask h) key) D)"
proof -
  have sh: "th_shape h" and lp: "lp_inv (th_home (th_mask h)) (th_slots h)" using inv by (simp_all add: th_inv_def)
  have "th_home (th_mask h) key < th_mask h + 1" using lp by (simp add: lp_inv_def)
  then have start: "walk_slot (th_mask h + 1) (th_home (th_mask h) key) 0 = th_home (th_mask h) key" by (simp add: walk_slot_def)
  obtain D where D: "D < th_mask h + 1"
    "th_slots h ! walk_slot (th_mask h + 1) (th_home (th_mask h) key) D = None \<or> keyed (th_slots h) key (walk_slot (th_mask h + 1) (th_home (th_mask h) key) D)"
    "\<And>d. d < D \<Longrightarrow> th_slots h ! walk_slot (th_mask h + 1) (th_home (th_mask h) key) d \<noteq> None \<and> \<not> keyed (th_slots h) key (walk_slot (th_mask h + 1) (th_home (th_mask h) key) d)"
    using lp_stop [OF lp, of key] by auto
  show ?thesis using that [OF D] th_find_walk [OF sh D(3)] unfolding start by blast
qed

lemma th_find_ok:
  assumes inv: "th_inv h"
  shows "(th_abs h key = None \<and> th_find_loop h key (th_home (th_mask h) key) = Some None) \<or>
    (\<exists>i v. i < th_mask h + 1 \<and> th_slots h ! i = Some (key, v) \<and> th_abs h key = Some v \<and> th_find_loop h key (th_home (th_mask h) key) = Some (Some i))"
  using inv
proof (rule th_stop [of h key])
  fix D
  let ?n = "th_mask h + 1"
  let ?i = "walk_slot ?n (th_home (th_mask h) key) D"
  assume D: "D < ?n" "th_slots h ! ?i = None \<or> keyed (th_slots h) key ?i"
    "\<And>d. d < D \<Longrightarrow> th_slots h ! walk_slot ?n (th_home (th_mask h) key) d \<noteq> None \<and> \<not> keyed (th_slots h) key (walk_slot ?n (th_home (th_mask h) key) d)"
    "th_find_loop h key (th_home (th_mask h) key) = th_find_loop h key ?i"
  have sh: "th_shape h" and lp: "lp_inv (th_home (th_mask h)) (th_slots h)" using inv by (simp_all add: th_inv_def)
  then have one: "one_place (th_slots h)" by (simp add: lp_inv_def)
  have i: "?i < ?n" by (rule walk_less) simp
  have len: "?i < length (th_used h)" "?i < length (th_keys h)" using i sh by (simp_all add: th_shape_def)
  show ?thesis
  proof (cases "th_slots h ! ?i")
    case None
    then have "th_used h ! ?i = 0" using th_slots_nth [OF i] by (simp split: if_splits)
    then have "th_find_loop h key ?i = Some None" using len by (subst th_find_loop.simps) simp
    moreover have "th_abs h key = None"
    proof -
      have "\<not> keyed (th_slots h) key j" if "j < ?n" for j
        using lp_miss [OF lp, of D key j] None D(1,3) that by simp
      then show ?thesis unfolding th_abs_def using lp_abs_iff [OF one, of key] by (auto simp: keyed_def simp flip: not_Some_eq)
    qed
    ultimately show ?thesis using D(4) by simp
  next
    case (Some e)
    then obtain v where v: "th_slots h ! ?i = Some (key, v)" using D(2) by (auto simp: keyed_def)
    then have u: "th_used h ! ?i \<noteq> 0" "th_keys h ! ?i = key" using th_slots_nth [OF i] by (auto split: if_splits)
    then have "th_find_loop h key ?i = Some (Some ?i)" using len by (subst th_find_loop.simps) simp
    moreover have "th_abs h key = Some v" unfolding th_abs_def using lp_abs_iff [OF one, of key v] v i by auto
    ultimately show ?thesis using D(4) v i by auto
  qed
qed

lemma twin_hash_get_ok: "th_inv h \<Longrightarrow> twin_hash_get (Some h) key = Some (Some h, th_abs h key)"
proof -
  assume inv: "th_inv h"
  have len: "length (th_vals h) = th_mask h + 1" using inv by (simp add: th_inv_def th_shape_def)
  have s: "twin_hash_slot (TH_TAKE h) key = th_home (th_mask (TH_TAKE h)) key" by (simp add: twin_hash_slot_def)
  consider "th_abs h key = None" "th_find_loop (TH_TAKE h) key (twin_hash_slot (TH_TAKE h) key) = Some None"
    | i v where "i < th_mask h + 1" "th_slots h ! i = Some (key, v)" "th_abs h key = Some v"
        "th_find_loop (TH_TAKE h) key (twin_hash_slot (TH_TAKE h) key) = Some (Some i)"
    using th_find_ok [of "TH_TAKE h" key] inv unfolding s by auto
  then show ?thesis
  proof cases
    case 1
    then show ?thesis by (simp add: twin_hash_get_def Let_def)
  next
    case (2 i v)
    then have "th_vals h ! i = v" using th_slots_nth [OF 2(1)] by (auto split: if_splits)
    then show ?thesis using 2 len by (simp add: twin_hash_get_def Let_def)
  qed
qed

lemma th_insert_loop_ok:
  assumes inv: "th_inv h" and room: "th_len h < th_mask h"
  shows "\<exists>h'. th_insert_loop h key value (th_home (th_mask h) key) = Some (TH_GIVE h', th_abs h key = None) \<and> th_inv h' \<and>
    th_abs h' = (th_abs h)(key \<mapsto> value) \<and> th_mask h' = th_mask h \<and> th_lock h' = th_lock h \<and> th_len h' = th_len h + (if th_abs h key = None then 1 else 0)"
  using inv
proof (rule th_stop [of h key])
  fix D
  let ?n = "th_mask h + 1" and ?T = "th_slots h"
  let ?i = "walk_slot ?n (th_home (th_mask h) key) D"
  assume D: "D < ?n" "?T ! ?i = None \<or> keyed ?T key ?i"
    "\<And>d. d < D \<Longrightarrow> ?T ! walk_slot ?n (th_home (th_mask h) key) d \<noteq> None \<and> \<not> keyed ?T key (walk_slot ?n (th_home (th_mask h) key) d)"
    "\<And>value. th_insert_loop h key value (th_home (th_mask h) key) = th_insert_loop h key value ?i"
  have sh: "th_shape h" and lp: "lp_inv (th_home (th_mask h)) ?T" and cnt: "th_len h = length (filter (\<lambda>x. x \<noteq> None) ?T)"
    using inv by (simp_all add: th_inv_def)
  then have one: "one_place ?T" by (simp add: lp_inv_def)
  have i: "?i < ?n" by (rule walk_less) simp
  have len: "?i < length (th_used h)" "?i < length (th_keys h)" "?i < length (th_vals h)" using i sh by (simp_all add: th_shape_def)
  show ?thesis
  proof (cases "?T ! ?i")
    case None
    let ?h = "h\<lparr>th_used := (th_used h)[?i := 1], th_keys := (th_keys h)[?i := key], th_vals := (th_vals h)[?i := value], th_len := th_len h + 1\<rparr>"
    have u: "th_used h ! ?i = 0" using None th_slots_nth [OF i] by (simp split: if_splits)
    have loop: "th_insert_loop h key value ?i = Some (TH_GIVE ?h, True)" using len u by (subst th_insert_loop.simps) simp
    have sl: "th_slots ?h = ?T[?i := Some (key, value)]" using th_slots_write [OF sh i, where u = 1 and k = key and v = "value"] by simp
    have cnt': "length (filter (\<lambda>x. x \<noteq> None) (?T[?i := Some (key, value)])) = th_len h + 1" using count_write [of ?i ?T] None i cnt by simp
    then have "None \<in> set (?T[?i := Some (key, value)])" using room by (intro count_room) simp
    then have put: "lp_inv (th_home (th_mask h)) (?T[?i := Some (key, value)])" "lp_abs (?T[?i := Some (key, value)]) = (lp_abs ?T)(key \<mapsto> value)"
      using lp_put_ok [OF lp, of D key "value"] D(1,3) None by simp_all
    have "th_abs h key = None"
      using lp_miss [OF lp, of D key] None D(1,3) lp_abs_iff [OF one, of key] unfolding th_abs_def by (auto simp: keyed_def simp flip: not_Some_eq)
    moreover have "th_inv ?h" using put(1) cnt' sh unfolding th_inv_def sl by (simp add: th_shape_def)
    moreover have "th_abs ?h = (th_abs h)(key \<mapsto> value)" unfolding th_abs_def sl by (rule put(2))
    ultimately show ?thesis using loop D(4) by (intro exI [of _ ?h]) simp
  next
    case (Some e)
    then obtain v where v: "?T ! ?i = Some (key, v)" using D(2) by (auto simp: keyed_def)
    then have u: "th_used h ! ?i \<noteq> 0" "th_keys h ! ?i = key" using th_slots_nth [OF i] by (auto split: if_splits)
    let ?h = "h\<lparr>th_vals := (th_vals h)[?i := value]\<rparr>"
    have loop: "th_insert_loop h key value ?i = Some (TH_GIVE ?h, False)" using len u by (subst th_insert_loop.simps) simp
    have sl: "th_slots ?h = ?T[?i := Some (key, value)]" using th_slots_val [OF sh i u(1), of "value"] u(2) by simp
    have k: "keyed ?T key ?i" using v by (auto simp: keyed_def)
    have upd: "lp_inv (th_home (th_mask h)) (?T[?i := Some (key, value)])" "lp_abs (?T[?i := Some (key, value)]) = (lp_abs ?T)(key \<mapsto> value)"
      using lp_update_ok [OF lp _ k, of "value"] i by simp_all
    have "length (filter (\<lambda>x. x \<noteq> None) (?T[?i := Some (key, value)])) = length (filter (\<lambda>x. x \<noteq> None) ?T)"
      using count_write [of ?i "?T[?i := None]" "(key, value)"] count_write [of ?i "?T[?i := None]" "(key, v)"] i v list_update_id [of ?T ?i] by simp
    then have "th_inv ?h" using upd(1) cnt sh unfolding th_inv_def sl by (simp add: th_shape_def)
    moreover have "th_abs ?h = (th_abs h)(key \<mapsto> value)" unfolding th_abs_def sl by (rule upd(2))
    moreover have "th_abs h key = Some v" unfolding th_abs_def using lp_abs_iff [OF one, of key v] v i by auto
    ultimately show ?thesis using loop D(4) by (intro exI [of _ ?h]) simp
  qed
qed

lemma twin_hash_insert_ok:
  assumes inv: "th_inv h" and room: "th_len h < th_mask h"
  shows "\<exists>h'. twin_hash_insert (Some h) key value = Some (Some h', th_abs h key = None) \<and> th_inv h' \<and>
    th_abs h' = (th_abs h)(key \<mapsto> value) \<and> th_mask h' = th_mask h \<and> th_lock h' = th_lock h \<and> th_len h' = th_len h + (if th_abs h key = None then 1 else 0)"
proof -
  obtain h' where h': "th_insert_loop (TH_TAKE h) key value (th_home (th_mask h) key) = Some (TH_GIVE h', th_abs h key = None)" "th_inv h'"
    "th_abs h' = (th_abs h)(key \<mapsto> value)" "th_mask h' = th_mask h" "th_lock h' = th_lock h + 1" "th_len h' = th_len h + (if th_abs h key = None then 1 else 0)"
    using th_insert_loop_ok [of "TH_TAKE h" key "value"] inv room by auto
  moreover have "th_lock (TH_GIVE h') = th_lock h" using h'(5) by (simp add: TH_GIVE_def)
  ultimately show ?thesis by (intro exI [of _ "TH_GIVE h'"]) (simp add: twin_hash_insert_def twin_hash_slot_def)
qed

section \<open>Removal\<close>

lemma th_move_ok:
  assumes sh: "th_shape h" and jk: "j < th_mask h + 1" "k < th_mask h + 1" "j \<noteq> k" and u: "th_used h ! k \<noteq> 0"
  shows "\<exists>h'. th_move h j k = Some h' \<and> th_shape h' \<and> th_slots h' = (th_slots h)[j := th_slots h ! k, k := None] \<and>
    th_mask h' = th_mask h \<and> th_len h' = th_len h \<and> th_lock h' = th_lock h"
proof -
  let ?h1 = "h\<lparr>th_used := (th_used h)[j := 1], th_keys := (th_keys h)[j := th_keys h ! k], th_vals := (th_vals h)[j := th_vals h ! k]\<rparr>"
  let ?h2 = "?h1\<lparr>th_used := (th_used ?h1)[k := 0]\<rparr>"
  have sh1: "th_shape ?h1" using sh by (simp add: th_shape_def)
  have "th_slots ?h1 = (th_slots h)[j := Some (th_keys h ! k, th_vals h ! k)]" by (rule th_slots_write [OF sh jk(1)]) simp
  also have "Some (th_keys h ! k, th_vals h ! k) = th_slots h ! k" using th_slots_nth [OF jk(2)] u by simp
  finally have "th_slots ?h2 = (th_slots h)[j := th_slots h ! k, k := None]" using th_slots_clear [OF sh1, of k] jk(2) by simp
  moreover have "th_move h j k = Some ?h2" using sh jk by (simp add: th_move_def th_shape_def)
  ultimately show ?thesis using sh by (intro exI [of _ ?h2]) (simp add: th_shape_def)
qed

text \<open>The loop of the source does on the three arrays what the shift does on the slots.\<close>

lemma th_shift_refines:
  "lp_shift hm T j k = Some T' \<Longrightarrow>
   \<forall>h. th_shape h \<longrightarrow> th_slots h = T \<longrightarrow> hm = th_home (th_mask h) \<longrightarrow> j < length T \<longrightarrow> k < length T \<longrightarrow> T ! j = None \<longrightarrow>
    (\<exists>h'. th_shift_loop h j k = Some h' \<and> th_shape h' \<and> th_slots h' = T' \<and> th_mask h' = th_mask h \<and> th_len h' = th_len h \<and> th_lock h' = th_lock h)"
proof (erule lp_shift.raw_induct [rotated])
  fix loop hm and T :: "(u32, u32) slots" and j k T'
  assume IH: "\<And>hm T j k T'. loop hm T j k = Some T' \<Longrightarrow>
      \<forall>h. th_shape h \<longrightarrow> th_slots h = T \<longrightarrow> hm = th_home (th_mask h) \<longrightarrow> j < length T \<longrightarrow> k < length T \<longrightarrow> T ! j = None \<longrightarrow>
       (\<exists>h'. th_shift_loop h j k = Some h' \<and> th_shape h' \<and> th_slots h' = T' \<and> th_mask h' = th_mask h \<and> th_len h' = th_len h \<and> th_lock h' = th_lock h)"
    and body: "(case T ! k of None \<Rightarrow> Some T
       | Some e \<Rightarrow> if moves_back j k (hm (fst e)) then loop hm (T[j := Some e, k := None]) k ((k + 1) mod length T)
                   else loop hm T j ((k + 1) mod length T)) = Some T'"
  show "\<forall>h. th_shape h \<longrightarrow> th_slots h = T \<longrightarrow> hm = th_home (th_mask h) \<longrightarrow> j < length T \<longrightarrow> k < length T \<longrightarrow> T ! j = None \<longrightarrow>
       (\<exists>h'. th_shift_loop h j k = Some h' \<and> th_shape h' \<and> th_slots h' = T' \<and> th_mask h' = th_mask h \<and> th_len h' = th_len h \<and> th_lock h' = th_lock h)"
  proof (intro allI impI)
    fix h
    assume sh: "th_shape h" and T: "th_slots h = T" and hm: "hm = th_home (th_mask h)" and jk: "j < length T" "k < length T" "T ! j = None"
    have n: "length T = th_mask h + 1" using T by auto
    have k: "k < length (th_used h)" "k < length (th_keys h)" "k < th_mask h + 1" using sh jk(2) n by (simp_all add: th_shape_def)
    have step: "(k + 1) AND th_mask h = (k + 1) mod length T" using th_mask_mod sh n by (auto simp: th_shape_def)
    have less: "(k + 1) mod length T < length T" using n by simp
    show "\<exists>h'. th_shift_loop h j k = Some h' \<and> th_shape h' \<and> th_slots h' = T' \<and> th_mask h' = th_mask h \<and> th_len h' = th_len h \<and> th_lock h' = th_lock h"
    proof (cases "T ! k")
      case None
      then have "th_used h ! k = 0" using th_slots_nth [OF k(3)] T by (simp split: if_splits)
      then have "th_shift_loop h j k = Some h" using k by (subst th_shift_loop.simps) simp
      then show ?thesis using body None sh T by simp
    next
      case (Some e)
      then have u: "th_used h ! k \<noteq> 0" "fst e = th_keys h ! k" using th_slots_nth [OF k(3)] T by (auto split: if_splits)
      have cond: "(if j < k then twin_hash_slot h (th_keys h ! k) \<le> j \<or> k < twin_hash_slot h (th_keys h ! k)
          else twin_hash_slot h (th_keys h ! k) \<le> j \<and> k < twin_hash_slot h (th_keys h ! k)) = moves_back j k (hm (fst e))"
        by (simp add: moves_back_def hm u(2) twin_hash_slot_def)
      show ?thesis
      proof (cases "moves_back j k (hm (fst e))")
        case False
        then have "th_shift_loop h j k = th_shift_loop h j ((k + 1) mod length T)"
          using k u(1) cond step by (subst th_shift_loop.simps) simp
        moreover have "loop hm T j ((k + 1) mod length T) = Some T'" using body Some False by simp
        ultimately show ?thesis using IH sh T hm jk less by auto
      next
        case True
        have "j \<noteq> k" using jk(3) Some by auto
        then obtain h1 where h1: "th_move h j k = Some h1" "th_shape h1" "th_slots h1 = T[j := Some e, k := None]" "th_mask h1 = th_mask h"
            "th_len h1 = th_len h" "th_lock h1 = th_lock h"
          using th_move_ok [OF sh _ k(3) _ u(1), of j] jk(1) n T Some by auto
        have "th_shift_loop h j k = th_shift_loop h1 k ((k + 1) mod length T)"
          using k u(1) cond step True h1(1) by (subst th_shift_loop.simps) simp
        moreover have "loop hm (T[j := Some e, k := None]) k ((k + 1) mod length T) = Some T'" using body Some True by simp
        ultimately show ?thesis using IH [of hm "T[j := Some e, k := None]" k "(k + 1) mod length T" T'] h1 hm jk less by auto
      qed
    qed
  qed
qed

lemma count_mset: "mset T = mset T' \<Longrightarrow> length (filter P T) = length (filter P T')"
  by (metis mset_filter size_mset)

lemma twin_hash_remove_ok:
  assumes inv: "th_inv h"
  shows "\<exists>h'. twin_hash_remove (Some h) key = Some (Some h', th_abs h key \<noteq> None) \<and> th_inv h' \<and> th_abs h' = (th_abs h)(key := None) \<and>
    th_mask h' = th_mask h \<and> th_lock h' = th_lock h \<and> th_len h' = th_len h - (if th_abs h key = None then 0 else 1)"
proof -
  have s: "twin_hash_slot (TH_TAKE h) key = th_home (th_mask (TH_TAKE h)) key" by (simp add: twin_hash_slot_def)
  consider "th_abs h key = None" "th_find_loop (TH_TAKE h) key (twin_hash_slot (TH_TAKE h) key) = Some None"
    | i v where "i < th_mask h + 1" "th_slots h ! i = Some (key, v)" "th_abs h key = Some v"
        "th_find_loop (TH_TAKE h) key (twin_hash_slot (TH_TAKE h) key) = Some (Some i)"
    using th_find_ok [of "TH_TAKE h" key] inv unfolding s by auto
  then show ?thesis
  proof cases
    case 1
    then show ?thesis using inv by (auto simp: twin_hash_remove_def Let_def fun_eq_iff)
  next
    case (2 i v)
    let ?T = "th_slots h"
    have sh: "th_shape h" and lp: "lp_inv (th_home (th_mask h)) ?T" and cnt: "th_len h = length (filter (\<lambda>x. x \<noteq> None) ?T)"
      using inv by (simp_all add: th_inv_def)
    let ?h = "(TH_TAKE h)\<lparr>th_used := (th_used h)[i := 0], th_len := th_len h - 1\<rparr>"
    have sl: "th_slots ?h = ?T[i := None]" using th_slots_clear [of "TH_TAKE h" i] sh 2(1) by simp
    obtain T' where T': "lp_shift (th_home (th_mask h)) (?T[i := None]) i ((i + 1) mod (th_mask h + 1)) = Some T'" "length T' = th_mask h + 1"
        "lp_inv (th_home (th_mask h)) T'" "lp_abs T' = (lp_abs ?T)(key := None)" "mset T' = mset (?T[i := None])"
      using lp_remove_ok [OF lp, of i key v] 2(1,2) by auto
    have "th_shape ?h" using sh by (simp add: th_shape_def)
    then obtain h' where h': "th_shift_loop ?h i ((i + 1) mod (th_mask h + 1)) = Some h'" "th_shape h'" "th_slots h' = T'" "th_mask h' = th_mask h"
        "th_len h' = th_len h - 1" "th_lock h' = th_lock h + 1"
      using th_shift_refines [OF T'(1)] sl 2(1) by (auto dest!: spec [of _ ?h])
    have step: "(i + 1) AND th_mask h = (i + 1) mod (th_mask h + 1)" using th_mask_mod sh by (auto simp: th_shape_def)
    have "twin_hash_remove (Some h) key = Some (Some (TH_GIVE h'), True)"
      using 2 sh h'(1) step by (simp add: twin_hash_remove_def Let_def th_shape_def)
    moreover have "length (filter (\<lambda>x. x \<noteq> None) T') = th_len h - 1"
    proof -
      have "?T = (?T[i := None])[i := Some (key, v)]" using 2(2) by (metis list_update_id list_update_overwrite)
      then have "th_len h = length (filter (\<lambda>x. x \<noteq> None) (?T[i := None])) + 1"
        unfolding cnt using count_write [of i "?T[i := None]" "(key, v)"] 2(1) by simp
      then show ?thesis using count_mset [OF T'(5), of "\<lambda>x. x \<noteq> None"] by simp
    qed
    then have "th_inv h'" using h' T'(3) by (simp add: th_inv_def)
    then have "th_inv (TH_GIVE h')" by simp
    moreover have "th_abs (TH_GIVE h') = (th_abs h)(key := None)" using h'(3) T'(4) by (simp add: th_abs_def)
    moreover have "th_lock (TH_GIVE h') = th_lock h" using h'(6) by (simp add: TH_GIVE_def)
    ultimately show ?thesis using 2(3) h'(4,5) by (intro exI [of _ "TH_GIVE h'"]) simp
  qed
qed

section \<open>Creation and aggregation\<close>

lemma twin_cap_ok: "\<exists>b. twin_cap (2 ^ a) want = 2 ^ b \<and> a \<le> b \<and> want \<le> 2 ^ b \<and> (b = a \<or> 2 ^ b < want * 2)"
proof (induction "want - (2 :: nat) ^ a" arbitrary: a rule: less_induct)
  case less
  show ?case
  proof (cases "2 ^ a < want")
    case True
    have "(0 :: nat) < 2 ^ a" by simp
    then have "want - 2 ^ Suc a < want - 2 ^ a" using True unfolding power_Suc by linarith
    from less [OF this] obtain b where b: "twin_cap (2 ^ Suc a) want = 2 ^ b" "Suc a \<le> b" "want \<le> 2 ^ b" "b = Suc a \<or> 2 ^ b < want * 2"
      by blast
    moreover have "twin_cap (2 ^ a) want = twin_cap (2 ^ Suc a) want" using True by (subst twin_cap.simps) simp
    moreover have "2 ^ b < want * 2" using b(4) True by auto
    ultimately show ?thesis by (intro exI [of _ b]) auto
  next
    case False
    then show ?thesis by (subst twin_cap.simps) (auto intro: exI [of _ a])
  qed
qed

lemma twin_hash_create_ok:
  assumes "n \<le> 2 ^ 28"
  obtains h where "twin_hash_create True True True True n = Some h" "th_inv h" "th_abs h = Map.empty" "th_len h = 0" "n \<le> th_mask h" "th_lock h = 0"
proof -
  let ?want = "n * 10 div 7 + 1"
  obtain b where b: "twin_cap 8 ?want = 2 ^ b" "?want \<le> 2 ^ b" "b = 3 \<or> 2 ^ b < ?want * 2" using twin_cap_ok [of 3 ?want] by auto
  have b30: "b \<le> 30"
  proof (rule ccontr)
    assume "\<not> b \<le> 30"
    then have "(2 :: nat) ^ 31 \<le> 2 ^ b" "b \<noteq> 3" using power_increasing [of 31 b "2 :: nat"] by auto
    moreover have "?want * 2 \<le> 2 ^ 31" using assms by simp
    ultimately show False using b(3) by linarith
  qed
  let ?h = "\<lparr>th_keys = replicate (2 ^ b) 0, th_vals = replicate (2 ^ b) 0, th_used = replicate (2 ^ b) 0, th_mask = 2 ^ b - 1, th_len = 0, th_lock = 0\<rparr>"
  have e: "th_mask ?h + 1 = 2 ^ b" by simp
  have sl: "th_slots ?h = replicate (2 ^ b) None"
  proof (rule nth_equalityI)
    fix i
    assume "i < length (th_slots ?h)"
    then have i: "i < th_mask ?h + 1" "i < 2 ^ b" by auto
    show "th_slots ?h ! i = replicate (2 ^ b) None ! i" unfolding th_slots_nth [OF i(1)] using i(2) by simp
  qed simp
  have nth: "(replicate (2 ^ b) None :: (u32, u32) slots) ! i = None" if "i < 2 ^ b" for i using that by simp
  have sh: "th_shape ?h" using b30 by (auto simp: th_shape_def)
  have "lp_inv (th_home (th_mask ?h)) (replicate (2 ^ b) None :: (u32, u32) slots)"
    using th_home_less [OF e b30] unfolding lp_inv_def one_place_def reachable_def e length_replicate
    by (auto simp: nth simp del: nth_replicate)
  then have "th_inv ?h" using sh unfolding th_inv_def sl by simp
  moreover have "th_abs ?h = Map.empty" unfolding th_abs_def sl lp_abs_def by simp
  moreover have "n \<le> 2 ^ b - 1" using b(2) by simp
  moreover have "twin_hash_create True True True True n = Some ?h" unfolding twin_hash_create_def Let_def b(1) by simp
  ultimately show ?thesis using that by simp
qed

definition slot_ents :: "('k, 'v) slots \<Rightarrow> ('k \<times> 'v) list" where
  "slot_ents T = map the (filter (\<lambda>x. x \<noteq> None) T)"

lemma slot_ents_distinct: "one_place T \<Longrightarrow> distinct (map fst (slot_ents T))"
proof -
  assume "one_place T"
  have "count (mset (map fst (slot_ents T))) k = length (filter (\<lambda>e. \<exists>v. e = Some (k, v)) T)" for k
    by (induction T) (auto simp: slot_ents_def)
  then have "count (mset (map fst (slot_ents T))) k \<le> 1" for k using \<open>one_place T\<close> one_place_count by metis
  then show ?thesis unfolding distinct_count_atmost_1 by (metis One_nat_def count_eq_zero_iff le_Suc_eq le_zero_eq set_mset_mset)
qed

lemma lp_abs_slot_ents: "lp_abs T = map_of (slot_ents T)"
  by (simp add: lp_abs_def slot_ents_def)

lemma slot_ents_Suc: "m < length T \<Longrightarrow> slot_ents (take (Suc m) T) = slot_ents (take m T) @ (case T ! m of None \<Rightarrow> [] | Some e \<Rightarrow> [e])"
  by (auto simp: slot_ents_def take_Suc_conv_app_nth split: option.splits)

definition vals_in :: "u32 \<Rightarrow> u32 \<Rightarrow> (u32 \<times> u32) list \<Rightarrow> u32 list" where
  "vals_in lo hi es = map snd (filter (\<lambda>p. lo \<le> fst p \<and> fst p \<le> hi) es)"

lemma twin_hash_aggregate_ok:
  assumes inv: "th_inv h"
  shows "twin_hash_aggregate (Some h) lo hi (Some a) =
    (let r = agg_of a (vals_in lo hi (slot_ents (th_slots h))) in Some (Some h, 0 < agg_count r, Some r))"
proof -
  have sh: "th_shape h" using inv by (simp add: th_inv_def)
  let ?P = "\<lambda>m b. b = agg_of a (vals_in lo hi (slot_ents (take m (th_slots h))))"
  have "\<exists>b. for_loop [0..<th_mask h + 1] (\<lambda>i a.
      do { u \<leftarrow> rd (th_used h) i;
           if u \<noteq> 0
           then do { k \<leftarrow> rd (th_keys h) i;
                     if lo \<le> k \<and> k \<le> hi then do { v \<leftarrow> rd (th_vals h) i; Some (agg_add a v) } else Some a }
           else Some a }) (agg_init a) = Some b \<and> ?P (th_mask h + 1) b"
  proof (rule for_loop_invariant [where P = ?P], goal_cases)
    case 1
    show ?case by (simp add: slot_ents_def vals_in_def agg_of_def)
  next
    case (2 i b)
    have i: "i < length (th_used h)" "i < length (th_keys h)" "i < length (th_vals h)" using 2(1) sh by (simp_all add: th_shape_def)
    then show ?case
      using 2 th_slots_nth [OF 2(1)] by (auto simp: slot_ents_Suc vals_in_def agg_of_def)
  qed
  then show ?thesis unfolding twin_hash_aggregate_def option.case prod.case Let_def th_lock_simps by (auto simp del: upt_Suc)
qed

section \<open>The contract\<close>

definition th_put :: "twin_hash \<Rightarrow> u32 \<Rightarrow> u32 \<Rightarrow> twin_hash option" where
  "th_put h k v = map_option (\<lambda>(t, r). the t) (twin_hash_insert (Some h) k v)"

definition th_look :: "twin_hash \<Rightarrow> u32 \<Rightarrow> u32 option option" where
  "th_look h k = map_option snd (twin_hash_get (Some h) k)"

definition th_drop :: "twin_hash \<Rightarrow> u32 \<Rightarrow> twin_hash option" where
  "th_drop h k = map_option (\<lambda>(t, r). the t) (twin_hash_remove (Some h) k)"

interpretation th: alt_table th_inv th_abs "\<lambda>_. True" "\<lambda>h. enat (th_mask h - th_len h)" th_put th_look th_drop
proof
  fix h k v
  assume inv: "th_inv h"
  show "th_look h k = Some (th_abs h k)" by (simp add: th_look_def twin_hash_get_ok [OF inv])
  show "\<exists>m'. th_drop h k = Some m' \<and> th_inv m' \<and> th_abs m' = (th_abs h)(k := None) \<and> enat (th_mask h - th_len h) \<le> enat (th_mask m' - th_len m')"
    using twin_hash_remove_ok [OF inv, of k] by (auto simp: th_drop_def)
  assume "0 < enat (th_mask h - th_len h)"
  then have "th_len h < th_mask h" by (simp add: zero_enat_def)
  from twin_hash_insert_ok [OF inv this, of k v]
  show "\<exists>m'. th_put h k v = Some m' \<and> th_inv m' \<and> th_abs m' = (th_abs h)(k \<mapsto> v) \<and> enat (th_mask h - th_len h) \<le> enat (th_mask m' - th_len m') + 1"
    by (auto simp: th_put_def one_enat_def)
qed

end
