(* ===== verification/Twin_Telemetry.thy ===== *)
theory Twin_Telemetry
  imports Twin_Hash Sorted_Array
begin

text \<open>
  The other two telemetry baselines (\<^verbatim>\<open>components/expanse/test/twin_containers.c\<close>): the sorted array \<^verbatim>\<open>twin_sorted\<close>
  and the ring buffer \<^verbatim>\<open>twin_ring\<close>, and what the comparison with the memtable relies on: the three baselines and the
  memtable aggregate a range alike.
\<close>

section \<open>The sorted array\<close>

record twin_sorted =
  ts_keys :: "u32 list"
  ts_vals :: "u32 list"
  ts_len :: nat
  ts_cap :: nat
  ts_lock :: nat

definition TS_TAKE :: "twin_sorted \<Rightarrow> twin_sorted" where
  "TS_TAKE s = s\<lparr>ts_lock := ts_lock s + 1\<rparr>"

definition TS_GIVE :: "twin_sorted \<Rightarrow> twin_sorted" where
  "TS_GIVE s = s\<lparr>ts_lock := ts_lock s - 1\<rparr>"

function ts_search :: "u32 list \<Rightarrow> u32 \<Rightarrow> nat \<Rightarrow> nat \<Rightarrow> nat option" where
  "ts_search keys key lo hi =
    (if lo < hi
     then let mid = lo + (hi - lo) div 2
          in do { c \<leftarrow> rd keys mid; if c < key then ts_search keys key (mid + 1) hi else ts_search keys key lo mid }
     else Some lo)"
  by pat_completeness auto
termination by (relation "measure (\<lambda>(keys, key, lo, hi). hi - lo)") auto

declare ts_search.simps [simp del]

definition twin_sorted_lb :: "twin_sorted \<Rightarrow> u32 \<Rightarrow> nat option" where
  "twin_sorted_lb s key = ts_search (ts_keys s) key 0 (ts_len s)"

definition twin_sorted_create :: "bool \<Rightarrow> bool \<Rightarrow> bool \<Rightarrow> nat \<Rightarrow> twin_sorted option" where
  "twin_sorted_create ok0 ok1 ok2 capacity =
    (if \<not> ok0 then None
     else if \<not> ok1 \<or> \<not> ok2 then None
     else Some \<lparr>ts_keys = replicate capacity 0, ts_vals = replicate capacity 0, ts_len = 0, ts_cap = capacity, ts_lock = 0\<rparr>)"

definition twin_sorted_insert :: "twin_sorted option \<Rightarrow> u32 \<Rightarrow> u32 \<Rightarrow> (twin_sorted option \<times> bool) option" where
  "twin_sorted_insert t key value =
    (case t of
       None \<Rightarrow> Some (None, False)
     | Some s0 \<Rightarrow>
        (let s = TS_TAKE s0
         in do { i \<leftarrow> twin_sorted_lb s key;
                 hit \<leftarrow> (if i < ts_len s then do { c \<leftarrow> rd (ts_keys s) i; Some (c = key) } else Some False);
                 if hit then do { vs \<leftarrow> wr (ts_vals s) i value; Some (Some (TS_GIVE (s\<lparr>ts_vals := vs\<rparr>)), False) }
                 else if ts_len s = ts_cap s then Some (Some (TS_GIVE s), False)
                 else do { (ks, vs) \<leftarrow> (if i < ts_len s
                             then do { ks \<leftarrow> memmove (ts_keys s) (i + 1) i (ts_len s - i);
                                       vs \<leftarrow> memmove (ts_vals s) (i + 1) i (ts_len s - i);
                                       Some (ks, vs) }
                             else Some (ts_keys s, ts_vals s));
                           ks \<leftarrow> wr ks i key;
                           vs \<leftarrow> wr vs i value;
                           Some (Some (TS_GIVE (s\<lparr>ts_keys := ks, ts_vals := vs, ts_len := ts_len s + 1\<rparr>)), True) } }))"

definition twin_sorted_get :: "twin_sorted option \<Rightarrow> u32 \<Rightarrow> (twin_sorted option \<times> u32 option) option" where
  "twin_sorted_get t key =
    (case t of
       None \<Rightarrow> Some (None, None)
     | Some s0 \<Rightarrow>
        (let s = TS_TAKE s0
         in do { i \<leftarrow> twin_sorted_lb s key;
                 found \<leftarrow> (if i < ts_len s then do { c \<leftarrow> rd (ts_keys s) i; Some (c = key) } else Some False);
                 if found then do { v \<leftarrow> rd (ts_vals s) i; Some (Some (TS_GIVE s), Some v) }
                 else Some (Some (TS_GIVE s), None) }))"

definition twin_sorted_remove :: "twin_sorted option \<Rightarrow> u32 \<Rightarrow> (twin_sorted option \<times> bool) option" where
  "twin_sorted_remove t key =
    (case t of
       None \<Rightarrow> Some (None, False)
     | Some s0 \<Rightarrow>
        (let s = TS_TAKE s0
         in do { i \<leftarrow> twin_sorted_lb s key;
                 found \<leftarrow> (if i < ts_len s then do { c \<leftarrow> rd (ts_keys s) i; Some (c = key) } else Some False);
                 if \<not> found then Some (Some (TS_GIVE s), False)
                 else do { ks \<leftarrow> memmove (ts_keys s) i (i + 1) (ts_len s - i - 1);
                           vs \<leftarrow> memmove (ts_vals s) i (i + 1) (ts_len s - i - 1);
                           Some (Some (TS_GIVE (s\<lparr>ts_keys := ks, ts_vals := vs, ts_len := ts_len s - 1\<rparr>)), True) } }))"

text \<open>The walk over the range; \<^verbatim>\<open>visit\<close> is the callback of the indirect variant, which may stop it.\<close>

function ts_walk :: "twin_sorted \<Rightarrow> u32 \<Rightarrow> (u32 \<Rightarrow> u32 \<Rightarrow> memtable_agg \<Rightarrow> bool \<times> memtable_agg) \<Rightarrow> nat \<Rightarrow> memtable_agg \<Rightarrow> memtable_agg option" where
  "ts_walk s hi visit i a =
    (if i < ts_len s
     then do { k \<leftarrow> rd (ts_keys s) i;
               if k \<le> hi
               then do { v \<leftarrow> rd (ts_vals s) i;
                         (case visit k v a of (go, a') \<Rightarrow> if go then ts_walk s hi visit (i + 1) a' else Some a') }
               else Some a }
     else Some a)"
  by pat_completeness auto
termination by (relation "measure (\<lambda>(s, hi, visit, i, a). ts_len s - i)") auto

declare ts_walk.simps [simp del]

definition twin_sorted_aggregate ::
  "twin_sorted option \<Rightarrow> u32 \<Rightarrow> u32 \<Rightarrow> memtable_agg option \<Rightarrow> (twin_sorted option \<times> bool \<times> memtable_agg option) option"
where
  "twin_sorted_aggregate t lo hi out =
    (case (t, out) of
       (Some s0, Some a0) \<Rightarrow>
         (let s = TS_TAKE s0
          in do { i \<leftarrow> twin_sorted_lb s lo;
                  a \<leftarrow> ts_walk s hi (\<lambda>k v a. (True, agg_add a v)) i (agg_init a0);
                  Some (Some (TS_GIVE s), 0 < agg_count a, Some a) })
     | _ \<Rightarrow> Some (t, False, out))"

definition twin_visit_agg :: "u32 \<Rightarrow> u32 \<Rightarrow> memtable_agg \<Rightarrow> bool \<times> memtable_agg" where
  "twin_visit_agg key v ctx = (True, agg_add ctx v)"

definition twin_sorted_aggregate_indirect ::
  "twin_sorted option \<Rightarrow> u32 \<Rightarrow> u32 \<Rightarrow> (u32 \<Rightarrow> u32 \<Rightarrow> memtable_agg \<Rightarrow> bool \<times> memtable_agg) option \<Rightarrow> memtable_agg option \<Rightarrow>
   (twin_sorted option \<times> bool \<times> memtable_agg option) option"
where
  "twin_sorted_aggregate_indirect t lo hi visit out =
    (case (t, out, visit) of
       (Some s0, Some a0, Some f) \<Rightarrow>
         (let s = TS_TAKE s0
          in do { i \<leftarrow> twin_sorted_lb s lo;
                  a \<leftarrow> ts_walk s hi f i (agg_init a0);
                  Some (Some (TS_GIVE s), 0 < agg_count a, Some a) })
     | _ \<Rightarrow> Some (t, False, out))"

definition twin_sorted_len :: "twin_sorted option \<Rightarrow> nat" where
  "twin_sorted_len t = (case t of None \<Rightarrow> 0 | Some s \<Rightarrow> ts_len s)"

section \<open>The ring buffer\<close>

record twin_ring =
  tr_keys :: "u32 list"
  tr_vals :: "u32 list"
  tr_cap :: nat
  tr_head :: nat
  tr_len :: nat
  tr_lock :: nat

definition TR_TAKE :: "twin_ring \<Rightarrow> twin_ring" where
  "TR_TAKE r = r\<lparr>tr_lock := tr_lock r + 1\<rparr>"

definition TR_GIVE :: "twin_ring \<Rightarrow> twin_ring" where
  "TR_GIVE r = r\<lparr>tr_lock := tr_lock r - 1\<rparr>"

definition twin_ring_create :: "bool \<Rightarrow> bool \<Rightarrow> bool \<Rightarrow> nat \<Rightarrow> twin_ring option" where
  "twin_ring_create ok0 ok1 ok2 capacity =
    (if \<not> ok0 then None
     else if \<not> ok1 \<or> \<not> ok2 then None
     else Some \<lparr>tr_keys = replicate capacity 0, tr_vals = replicate capacity 0, tr_cap = capacity, tr_head = 0, tr_len = 0, tr_lock = 0\<rparr>)"

definition twin_ring_insert :: "twin_ring option \<Rightarrow> u32 \<Rightarrow> u32 \<Rightarrow> (twin_ring option \<times> bool) option" where
  "twin_ring_insert t key value =
    (case t of
       None \<Rightarrow> Some (None, False)
     | Some r0 \<Rightarrow>
        (let r = TR_TAKE r0
         in do { ks \<leftarrow> wr (tr_keys r) (tr_head r) key;
                 vs \<leftarrow> wr (tr_vals r) (tr_head r) value;
                 let r1 = r\<lparr>tr_keys := ks, tr_vals := vs, tr_head := (tr_head r + 1) mod tr_cap r\<rparr>;
                 let r2 = (if tr_len r1 < tr_cap r1 then r1\<lparr>tr_len := tr_len r1 + 1\<rparr> else r1);
                 Some (Some (TR_GIVE r2), True) }))"

function tr_scan :: "twin_ring \<Rightarrow> u32 \<Rightarrow> nat \<Rightarrow> u32 option option" where
  "tr_scan r key i =
    (if i < tr_len r
     then (case rd (tr_keys r) i of
             None \<Rightarrow> None
           | Some c \<Rightarrow> if c = key then map_option Some (rd (tr_vals r) i) else tr_scan r key (i + 1))
     else Some None)"
  by pat_completeness auto
termination by (relation "measure (\<lambda>(r, key, i). tr_len r - i)") auto

declare tr_scan.simps [simp del]

definition twin_ring_get :: "twin_ring option \<Rightarrow> u32 \<Rightarrow> (twin_ring option \<times> u32 option) option" where
  "twin_ring_get t key =
    (case t of
       None \<Rightarrow> Some (None, None)
     | Some r0 \<Rightarrow> (let r = TR_TAKE r0 in do { f \<leftarrow> tr_scan r key 0; Some (Some (TR_GIVE r), f) }))"

definition twin_ring_aggregate ::
  "twin_ring option \<Rightarrow> u32 \<Rightarrow> u32 \<Rightarrow> memtable_agg option \<Rightarrow> (twin_ring option \<times> bool \<times> memtable_agg option) option"
where
  "twin_ring_aggregate t lo hi out =
    (case (t, out) of
       (Some r0, Some a0) \<Rightarrow>
         (let r = TR_TAKE r0
          in do { a \<leftarrow> for_loop [0..<tr_len r] (\<lambda>i a.
                    do { k \<leftarrow> rd (tr_keys r) i;
                         if lo \<le> k \<and> k \<le> hi then do { v \<leftarrow> rd (tr_vals r) i; Some (agg_add a v) } else Some a }) (agg_init a0);
                  Some (Some (TR_GIVE r), 0 < agg_count a, Some a) })
     | _ \<Rightarrow> Some (t, False, out))"

definition twin_ring_len :: "twin_ring option \<Rightarrow> nat" where
  "twin_ring_len t = (case t of None \<Rightarrow> 0 | Some r \<Rightarrow> tr_len r)"

section \<open>The sorted array is correct\<close>

text \<open>The view of the array as the one of the vtable, whose lemmas apply.\<close>

definition as_sarr :: "twin_sorted \<Rightarrow> sarr" where
  "as_sarr s = \<lparr>sa_keys = ts_keys s, sa_vals = ts_vals s, sa_len = ts_len s, sa_cap = ts_cap s\<rparr>"

definition ts_inv :: "twin_sorted \<Rightarrow> bool" where
  "ts_inv s \<longleftrightarrow> sa_inv (as_sarr s)"

definition ts_ents :: "twin_sorted \<Rightarrow> (u32 \<times> u32) list" where
  "ts_ents s = sa_ents (as_sarr s)"

lemma as_sarr_simps [simp]:
  "sa_keys (as_sarr s) = ts_keys s" "sa_vals (as_sarr s) = ts_vals s" "sa_len (as_sarr s) = ts_len s" "sa_cap (as_sarr s) = ts_cap s"
  "as_sarr (TS_TAKE s) = as_sarr s" "as_sarr (TS_GIVE s) = as_sarr s" "as_sarr (s\<lparr>ts_vals := vs\<rparr>) = (as_sarr s)\<lparr>sa_vals := vs\<rparr>"
  "as_sarr (s\<lparr>ts_keys := ks, ts_vals := vs, ts_len := n\<rparr>) = (as_sarr s)\<lparr>sa_keys := ks, sa_vals := vs, sa_len := n\<rparr>"
  by (simp_all add: as_sarr_def TS_TAKE_def TS_GIVE_def)

lemma ts_lock_simps [simp]:
  "TS_GIVE (TS_TAKE s) = s" "ts_keys (TS_TAKE s) = ts_keys s" "ts_vals (TS_TAKE s) = ts_vals s" "ts_len (TS_TAKE s) = ts_len s"
  "ts_cap (TS_TAKE s) = ts_cap s" "ts_inv (TS_TAKE s) = ts_inv s" "ts_inv (TS_GIVE s) = ts_inv s" "ts_ents (TS_TAKE s) = ts_ents s" "ts_ents (TS_GIVE s) = ts_ents s"
  "ts_len (TS_GIVE s) = ts_len s" "ts_cap (TS_GIVE s) = ts_cap s"
  by (simp_all add: TS_GIVE_def TS_TAKE_def ts_inv_def ts_ents_def as_sarr_def)

lemma ts_search_eq: "ts_search keys k lo hi = sa_search keys k lo hi"
proof (induction keys k lo hi rule: sa_search.induct)
  case (1 keys k lo hi)
  have "lo < hi \<Longrightarrow> lo + (hi - lo) div 2 = (lo + hi) div 2" by linarith
  then show ?case using 1 by (subst ts_search.simps, subst sa_search.simps) (cases "rd keys ((lo + hi) div 2)", auto simp: Let_def)
qed

lemma twin_sorted_lb_eq: "twin_sorted_lb s k = sa_lower (as_sarr s) k"
  by (simp add: twin_sorted_lb_def sa_lower_def ts_search_eq)

lemma ts_pos: "ts_inv s \<Longrightarrow> twin_sorted_lb s k = Some (lower_pos k (ts_ents s))"
  by (simp add: twin_sorted_lb_eq ts_inv_def ts_ents_def sa_lower_pos)

lemma ts_hit:
  assumes "ts_inv s"
  shows "(if lower_pos k (ts_ents s) < ts_len s then do { c \<leftarrow> rd (ts_keys s) (lower_pos k (ts_ents s)); Some (c = k) } else Some False)
    = Some (map_of (ts_ents s) k \<noteq> None)"
  using sa_hit [of "as_sarr s" k] assms unfolding ts_inv_def ts_ents_def as_sarr_simps by blast

lemma twin_sorted_get_ok:
  assumes inv: "ts_inv s"
  shows "twin_sorted_get (Some s) k = Some (Some s, map_of (ts_ents s) k)"
proof -
  have g: "sa_get (as_sarr s) k = Some (map_of (ts_ents s) k)" using inv by (simp add: ts_inv_def ts_ents_def sa_get_ok)
  have p: "twin_sorted_lb (TS_TAKE s) k = Some (lower_pos k (ts_ents s))" using ts_pos [of "TS_TAKE s" k] inv by simp
  have "sa_lower (as_sarr s) k = Some (lower_pos k (ts_ents s))" using p by (simp add: twin_sorted_lb_eq)
  then have "(if map_of (ts_ents s) k \<noteq> None then do { v \<leftarrow> rd (ts_vals s) (lower_pos k (ts_ents s)); Some (Some v) } else Some None) = Some (map_of (ts_ents s) k)"
    using g unfolding sa_get_def by (simp only: bind.bind_lunit as_sarr_simps ts_hit [OF inv])
  then show ?thesis
    unfolding twin_sorted_get_def option.case Let_def ts_lock_simps p bind.bind_lunit ts_hit [OF inv]
    by (cases "map_of (ts_ents s) k") (auto split: Option.bind_splits)
qed

lemma memmove_nothing: "i < length xs \<Longrightarrow> memmove xs (i + 1) i 0 = Some xs"
  by (simp add: memmove_def)

text \<open>Below the capacity, an insertion is that of the vtable's array, which moves an empty tail too.\<close>

lemma twin_sorted_insert_eq:
  assumes inv: "ts_inv s" and room: "ts_len s < ts_cap s"
  shows "twin_sorted_insert (Some s) k v =
    map_option (\<lambda>s'. (Some (s\<lparr>ts_keys := sa_keys s', ts_vals := sa_vals s', ts_len := sa_len s'\<rparr>), map_of (ts_ents s) k = None)) (sa_insert (as_sarr s) k v)"
proof -
  let ?i = "lower_pos k (ts_ents s)"
  have p: "twin_sorted_lb (TS_TAKE s) k = Some ?i" using ts_pos [of "TS_TAKE s" k] inv by simp
  have len: "length (ts_keys s) = ts_cap s" "length (ts_vals s) = ts_cap s" using inv by (simp_all add: ts_inv_def sa_inv_def)
  have i: "?i \<le> ts_len s" using lower_pos_le [of k "ts_ents s"] length_sa_ents [of "as_sarr s"] inv by (simp add: ts_inv_def ts_ents_def)
  have low: "sa_lower (as_sarr s) k = Some ?i" using p by (simp add: twin_sorted_lb_eq)
  have mm: "(if ?i < ts_len s then do { ks \<leftarrow> memmove (ts_keys s) (?i + 1) ?i (ts_len s - ?i); vs \<leftarrow> memmove (ts_vals s) (?i + 1) ?i (ts_len s - ?i); Some (ks, vs) }
      else Some (ts_keys s, ts_vals s)) = do { ks \<leftarrow> memmove (ts_keys s) (?i + 1) ?i (ts_len s - ?i); vs \<leftarrow> memmove (ts_vals s) (?i + 1) ?i (ts_len s - ?i); Some (ks, vs) }"
    using i room len memmove_nothing [of "ts_len s" "ts_keys s"] memmove_nothing [of "ts_len s" "ts_vals s"] by (cases "?i = ts_len s") auto
  have give: "TS_GIVE ((TS_TAKE s)\<lparr>ts_vals := vs\<rparr>) = s\<lparr>ts_vals := vs\<rparr>"
    "TS_GIVE ((TS_TAKE s)\<lparr>ts_keys := ks, ts_vals := vs, ts_len := n\<rparr>) = s\<lparr>ts_keys := ks, ts_vals := vs, ts_len := n\<rparr>" for ks vs n
    by (simp_all add: TS_GIVE_def TS_TAKE_def)
  have full: "(ts_len s = ts_cap s) = False" using room by simp
  show ?thesis
    unfolding twin_sorted_insert_def sa_insert_def option.case Let_def ts_lock_simps as_sarr_simps p low bind.bind_lunit ts_hit [OF inv] mm full if_False
    by (cases "map_of (ts_ents s) k") (auto simp: give map_conv_bind_option split: Option.bind_splits)
qed

lemma twin_sorted_insert_ok:
  assumes inv: "ts_inv s" and room: "ts_len s < ts_cap s"
  shows "\<exists>s'. twin_sorted_insert (Some s) k v = Some (Some s', map_of (ts_ents s) k = None) \<and> ts_inv s' \<and>
    ts_ents s' = al_ins k v (ts_ents s) \<and> ts_cap s' = ts_cap s \<and> ts_len s' \<le> ts_len s + 1 \<and> ts_lock s' = ts_lock s"
proof -
  obtain r where r: "sa_insert (as_sarr s) k v = Some r" "sa_inv r" "sa_ents r = al_ins k v (ts_ents s)" "sa_cap r = ts_cap s" "sa_len r \<le> ts_len s + 1"
    using sa_insert_ok [of "as_sarr s" k v] inv room by (auto simp: ts_inv_def ts_ents_def)
  let ?s = "s\<lparr>ts_keys := sa_keys r, ts_vals := sa_vals r, ts_len := sa_len r\<rparr>"
  have e: "as_sarr ?s = r" using r(4) by (simp add: as_sarr_def)
  have "ts_inv ?s" "ts_ents ?s = al_ins k v (ts_ents s)" using r unfolding ts_inv_def ts_ents_def e by simp_all
  then show ?thesis using twin_sorted_insert_eq [OF inv room, of k v] r by (intro exI [of _ ?s]) simp
qed

text \<open>A full array refuses a new key and still takes a new value for one it has.\<close>

lemma twin_sorted_insert_full:
  assumes inv: "ts_inv s" and full: "ts_len s = ts_cap s"
  shows "map_of (ts_ents s) k = None \<Longrightarrow> twin_sorted_insert (Some s) k v = Some (Some s, False)"
proof -
  assume miss: "map_of (ts_ents s) k = None"
  have p: "twin_sorted_lb (TS_TAKE s) k = Some (lower_pos k (ts_ents s))" using ts_pos [of "TS_TAKE s" k] inv by simp
  show ?thesis
    unfolding twin_sorted_insert_def option.case Let_def ts_lock_simps p bind.bind_lunit ts_hit [OF inv] using full miss by simp
qed

lemma twin_sorted_remove_ok:
  assumes inv: "ts_inv s"
  shows "\<exists>s'. twin_sorted_remove (Some s) k = Some (Some s', map_of (ts_ents s) k \<noteq> None) \<and> ts_inv s' \<and>
    ts_ents s' = al_del k (ts_ents s) \<and> ts_cap s' = ts_cap s \<and> ts_len s' \<le> ts_len s \<and> ts_lock s' = ts_lock s"
proof -
  let ?i = "lower_pos k (ts_ents s)"
  have p: "twin_sorted_lb (TS_TAKE s) k = Some ?i" using ts_pos [of "TS_TAKE s" k] inv by simp
  show ?thesis
  proof (cases "map_of (ts_ents s) k")
    case None
    then have "al_del k (ts_ents s) = ts_ents s" by (rule al_del_miss)
    then show ?thesis
      unfolding twin_sorted_remove_def option.case Let_def ts_lock_simps p bind.bind_lunit ts_hit [OF inv] using None inv by simp
  next
    case (Some x)
    have asc: "asc (ts_ents s)" and sa: "sa_inv (as_sarr s)" using inv by (simp_all add: ts_inv_def ts_ents_def sa_inv_def)
    have n: "length (ts_ents s) = ts_len s" using length_sa_ents [OF sa] by (simp add: ts_ents_def)
    have i: "?i < ts_len s" "fst (ts_ents s ! ?i) = k" using lower_pos_hit [OF asc, of k] Some n by auto
    have len: "length (ts_keys s) = ts_cap s" "length (ts_vals s) = ts_cap s" "ts_len s \<le> ts_cap s" using sa by (simp_all add: sa_inv_def)
    have le: "?i + 1 \<le> ts_len s" using i(1) by simp
    obtain ks where ks: "memmove (ts_keys s) ?i (?i + 1) (ts_len s - ?i - 1) = Some ks" "length ks = ts_cap s"
        "take (ts_len s - 1) ks = remove_span ?i (?i + 1) (take (ts_len s) (ts_keys s))"
      using take_memmove_down [OF le, of "ts_keys s"] len by auto
    obtain vs where vs: "memmove (ts_vals s) ?i (?i + 1) (ts_len s - ?i - 1) = Some vs" "length vs = ts_cap s"
        "take (ts_len s - 1) vs = remove_span ?i (?i + 1) (take (ts_len s) (ts_vals s))"
      using take_memmove_down [OF le, of "ts_vals s"] len by auto
    let ?s = "s\<lparr>ts_keys := ks, ts_vals := vs, ts_len := ts_len s - 1\<rparr>"
    have give: "TS_GIVE ((TS_TAKE s)\<lparr>ts_keys := ks, ts_vals := vs, ts_len := n\<rparr>) = s\<lparr>ts_keys := ks, ts_vals := vs, ts_len := n\<rparr>" for ks vs n
      by (simp add: TS_GIVE_def TS_TAKE_def)
    have "ts_ents ?s = remove_span ?i (?i + 1) (ts_ents s)"
      using ks(3) vs(3) len by (simp add: ts_ents_def sa_ents_def take_zip zip_remove_span)
    then have e: "ts_ents ?s = al_del k (ts_ents s)" using remove_lower_pos [OF asc] i n by simp
    have "twin_sorted_remove (Some s) k = Some (Some ?s, True)"
      unfolding twin_sorted_remove_def option.case Let_def ts_lock_simps p bind.bind_lunit ts_hit [OF inv]
      using Some ks(1) vs(1) by (simp add: give)
    moreover have "ts_inv ?s"
      using sa ks(2) vs(2) e asc_al_del [OF asc, of k] by (auto simp: ts_inv_def sa_inv_def ts_ents_def)
    ultimately show ?thesis using e Some by (intro exI [of _ ?s]) simp
  qed
qed

lemma takeWhile_le_asc: "asc xs \<Longrightarrow> takeWhile (\<lambda>p. fst p \<le> hi) xs = filter (\<lambda>p. fst p \<le> hi) xs" for xs :: "(u32 \<times> u32) list"
proof (induction xs)
  case (Cons p xs)
  then have "filter (\<lambda>p. fst p \<le> hi) xs = []" if "\<not> fst p \<le> hi"
    using that by (auto simp: filter_empty_conv not_le intro: less_trans)
  with Cons show ?case by auto
qed simp

lemma ts_walk_ok:
  assumes inv: "ts_inv s"
  shows "i \<le> ts_len s \<Longrightarrow> ts_walk s hi f i a = Some (snd (walk f (takeWhile (\<lambda>p. fst p \<le> hi) (drop i (ts_ents s))) a))"
proof (induction "ts_len s - i" arbitrary: i a)
  case 0
  then show ?case using length_sa_ents [of "as_sarr s"] inv by (subst ts_walk.simps) (simp add: ts_inv_def ts_ents_def)
next
  case (Suc m)
  have sa: "sa_inv (as_sarr s)" using inv by (simp add: ts_inv_def)
  have i: "i < ts_len s" using Suc(2) by simp
  have len: "i < length (ts_keys s)" "i < length (ts_vals s)" using sa i by (simp_all add: sa_inv_def)
  have "drop i (ts_ents s) = (ts_keys s ! i, ts_vals s ! i) # drop (Suc i) (ts_ents s)"
    using Cons_nth_drop_Suc [of i "ts_ents s"] sa_ents_nth [OF sa, of i] length_sa_ents [OF sa] i by (simp add: ts_ents_def)
  moreover have "ts_walk s hi f (Suc i) b = Some (snd (walk f (takeWhile (\<lambda>p. fst p \<le> hi) (drop (Suc i) (ts_ents s))) b))" for b
    using Suc i by simp
  ultimately show ?case using i len by (subst ts_walk.simps) (auto split: prod.splits)
qed

lemma ts_range: 
  assumes inv: "ts_inv s"
  shows "takeWhile (\<lambda>p. fst p \<le> hi) (drop (lower_pos lo (ts_ents s)) (ts_ents s)) = al_range lo hi (ts_ents s)"
proof -
  have asc: "asc (ts_ents s)" using inv by (simp add: ts_inv_def ts_ents_def sa_inv_def)
  show ?thesis
    using takeWhile_le_asc [OF asc_filter [OF asc, of "\<lambda>p. lo \<le> fst p"], of hi] by (simp add: drop_lower_pos [OF asc] al_range_def conj_commute)
qed

lemma walk_agg: "walk (\<lambda>k v a. (True, agg_add a v)) xs a = (True, fold (\<lambda>v a. agg_add a v) (map snd xs) a)"
  by (induction xs arbitrary: a) simp_all

lemma twin_sorted_aggregate_ok:
  assumes inv: "ts_inv s"
  shows "twin_sorted_aggregate (Some s) lo hi (Some a) =
    (let r = agg_of a (map snd (al_range lo hi (ts_ents s))) in Some (Some s, 0 < agg_count r, Some r))"
proof -
  have inv': "ts_inv (TS_TAKE s)" using inv by simp
  have i: "lower_pos lo (ts_ents s) \<le> ts_len s" using lower_pos_le [of lo "ts_ents s"] length_sa_ents [of "as_sarr s"] inv by (simp add: ts_inv_def ts_ents_def)
  show ?thesis
    unfolding twin_sorted_aggregate_def option.case prod.case Let_def ts_pos [OF inv'] bind.bind_lunit
    using ts_walk_ok [OF inv', of _ hi] i ts_range [OF inv, of hi lo] by (simp add: walk_agg agg_of_def)
qed

text \<open>The variant with a callback per entry is the same walk.\<close>

lemma twin_sorted_indirect_eq:
  "twin_sorted_aggregate_indirect t lo hi (Some twin_visit_agg) out = twin_sorted_aggregate t lo hi out"
proof -
  have "twin_visit_agg = (\<lambda>k v a. (True, agg_add a v))" by (simp add: fun_eq_iff twin_visit_agg_def)
  then show ?thesis by (auto simp: twin_sorted_aggregate_indirect_def twin_sorted_aggregate_def split: option.splits)
qed

section \<open>The ring buffer is correct\<close>

definition tr_inv :: "twin_ring \<Rightarrow> bool" where
  "tr_inv r \<longleftrightarrow> 0 < tr_cap r \<and> length (tr_keys r) = tr_cap r \<and> length (tr_vals r) = tr_cap r \<and> tr_len r \<le> tr_cap r \<and> tr_head r < tr_cap r \<and>
     (tr_len r < tr_cap r \<longrightarrow> tr_head r = tr_len r)"

definition tr_ents :: "twin_ring \<Rightarrow> (u32 \<times> u32) list" where
  "tr_ents r = take (tr_len r) (zip (tr_keys r) (tr_vals r))"

text \<open>The entries in the order in which they came: a full ring starts at its head.\<close>

definition tr_seq :: "twin_ring \<Rightarrow> (u32 \<times> u32) list" where
  "tr_seq r = (if tr_len r < tr_cap r then tr_ents r
    else drop (tr_head r) (zip (tr_keys r) (tr_vals r)) @ take (tr_head r) (zip (tr_keys r) (tr_vals r)))"

lemma tr_lock_simps [simp]:
  "TR_GIVE (TR_TAKE r) = r" "tr_keys (TR_TAKE r) = tr_keys r" "tr_vals (TR_TAKE r) = tr_vals r" "tr_len (TR_TAKE r) = tr_len r"
  "tr_cap (TR_TAKE r) = tr_cap r" "tr_head (TR_TAKE r) = tr_head r"
  by (simp_all add: TR_GIVE_def TR_TAKE_def)

lemma mset_tr_seq: "tr_inv r \<Longrightarrow> mset (tr_seq r) = mset (tr_ents r)"
proof -
  assume inv: "tr_inv r"
  show ?thesis
  proof (cases "tr_len r < tr_cap r")
    case False
    then have "tr_ents r = zip (tr_keys r) (tr_vals r)" using inv by (simp add: tr_inv_def tr_ents_def)
    moreover have "mset (tr_seq r) = mset (take (tr_head r) (zip (tr_keys r) (tr_vals r)) @ drop (tr_head r) (zip (tr_keys r) (tr_vals r)))"
      unfolding mset_append using False by (simp only: tr_seq_def if_False mset_append add.commute)
    ultimately show ?thesis by (simp only: append_take_drop_id)
  qed (simp add: tr_seq_def)
qed

lemma zip_update_both: "length xs = length ys \<Longrightarrow> zip (xs[i := x]) (ys[i := y]) = (zip xs ys)[i := (x, y)]"
  by (simp add: update_zip)

lemma twin_ring_insert_ok:
  assumes inv: "tr_inv r"
  shows "\<exists>r'. twin_ring_insert (Some r) k v = Some (Some r', True) \<and> tr_inv r' \<and> tr_cap r' = tr_cap r \<and> tr_lock r' = tr_lock r \<and>
    tr_len r' = min (tr_cap r) (tr_len r + 1) \<and>
    tr_seq r' = (if tr_len r < tr_cap r then tr_seq r else tl (tr_seq r)) @ [(k, v)]"
proof -
  let ?h = "tr_head r" and ?z = "zip (tr_keys r) (tr_vals r)" and ?c = "tr_cap r"
  let ?r = "r\<lparr>tr_keys := (tr_keys r)[?h := k], tr_vals := (tr_vals r)[?h := v], tr_head := (?h + 1) mod ?c,
    tr_len := (if tr_len r < ?c then tr_len r + 1 else tr_len r)\<rparr>"
  have h: "?h < ?c" "length (tr_keys r) = ?c" "length (tr_vals r) = ?c" using inv by (simp_all add: tr_inv_def)
  have ins: "twin_ring_insert (Some r) k v = Some (Some ?r, True)"
    using h by (simp add: twin_ring_insert_def Let_def TR_GIVE_def TR_TAKE_def)
  have z: "zip (tr_keys ?r) (tr_vals ?r) = ?z[?h := (k, v)]" using h by (simp add: zip_update_both)
  have lz: "length ?z = ?c" using h by simp
  have inv': "tr_inv ?r" using inv by (auto simp: tr_inv_def mod_if)
  have seq: "tr_seq ?r = (if tr_len r < ?c then tr_seq r else tl (tr_seq r)) @ [(k, v)]"
  proof (cases "tr_len r < ?c")
    case True
    have hl: "?h = tr_len r" using True inv by (simp add: tr_inv_def)
    show ?thesis
    proof (cases "tr_len r + 1 < ?c")
      case True
      then show ?thesis using h hl lz unfolding tr_seq_def tr_ents_def z by (simp add: take_Suc_conv_app_nth)
    next
      case False
      then have c: "tr_len r + 1 = ?c" using True by simp
      then have "(?h + 1) mod ?c = 0" using hl by simp
      then have "tr_seq ?r = ?z[?h := (k, v)]" using c unfolding tr_seq_def z by simp
      also have "\<dots> = take (tr_len r) ?z @ [(k, v)]" using c hl lz by (simp add: upd_conv_take_nth_drop)
      finally show ?thesis using True by (simp add: tr_seq_def tr_ents_def)
    qed
  next
    case False
    have old: "tr_seq r = ?z ! ?h # drop (?h + 1) ?z @ take ?h ?z"
      using False h lz by (simp add: tr_seq_def Cons_nth_drop_Suc [symmetric])
    show ?thesis
    proof (cases "?h + 1 < ?c")
      case True
      then have "tr_seq ?r = drop (?h + 1) (?z[?h := (k, v)]) @ take (?h + 1) (?z[?h := (k, v)])"
        using False unfolding tr_seq_def z by simp
      also have "\<dots> = drop (?h + 1) ?z @ take ?h ?z @ [(k, v)]" using h(1) lz by (simp add: take_Suc_conv_app_nth)
      finally show ?thesis using False old by simp
    next
      case last: False
      then have c: "?h + 1 = ?c" using h by simp
      then have "tr_seq ?r = ?z[?h := (k, v)]" using False unfolding tr_seq_def z by simp
      also have "\<dots> = take ?h ?z @ [(k, v)]" using c lz by (simp add: upd_conv_take_nth_drop)
      finally show ?thesis using False old c lz by simp
    qed
  qed
  have "tr_len ?r = min ?c (tr_len r + 1)" using inv by (simp add: tr_inv_def min_def)
  then show ?thesis using ins inv' seq by (intro exI [of _ ?r] conjI) simp_all
qed

lemma tr_scan_ok:
  assumes inv: "tr_inv r"
  shows "i \<le> tr_len r \<Longrightarrow> tr_scan r key i = Some (map_of (drop i (tr_ents r)) key)"
proof (induction "tr_len r - i" arbitrary: i)
  case 0
  then show ?case using inv by (subst tr_scan.simps) (simp add: tr_ents_def tr_inv_def)
next
  case (Suc m)
  have i: "i < tr_len r" using Suc(2) by simp
  then have len: "i < length (tr_keys r)" "i < length (tr_vals r)" using inv by (simp_all add: tr_inv_def)
  have "drop i (tr_ents r) = (tr_keys r ! i, tr_vals r ! i) # drop (Suc i) (tr_ents r)"
    using Cons_nth_drop_Suc [of i "tr_ents r"] len i by (simp add: tr_ents_def)
  moreover have "tr_scan r key (Suc i) = Some (map_of (drop (Suc i) (tr_ents r)) key)" using Suc i by simp
  ultimately show ?case using i len by (subst tr_scan.simps) simp
qed

lemma twin_ring_get_ok: "tr_inv r \<Longrightarrow> twin_ring_get (Some r) key = Some (Some r, map_of (tr_ents r) key)"
proof -
  assume inv: "tr_inv r"
  then have "tr_inv (TR_TAKE r)" "tr_ents (TR_TAKE r) = tr_ents r" by (simp_all add: tr_inv_def tr_ents_def)
  then show ?thesis using tr_scan_ok [of "TR_TAKE r" 0 key] by (simp add: twin_ring_get_def Let_def)
qed

lemma twin_ring_aggregate_ok:
  assumes inv: "tr_inv r"
  shows "twin_ring_aggregate (Some r) lo hi (Some a) = (let s = agg_of a (vals_in lo hi (tr_ents r)) in Some (Some r, 0 < agg_count s, Some s))"
proof -
  let ?z = "zip (tr_keys r) (tr_vals r)"
  let ?P = "\<lambda>m b. b = agg_of a (vals_in lo hi (take m ?z))"
  have "\<exists>b. for_loop [0..<tr_len r] (\<lambda>i a.
      do { k \<leftarrow> rd (tr_keys r) i;
           if lo \<le> k \<and> k \<le> hi then do { v \<leftarrow> rd (tr_vals r) i; Some (agg_add a v) } else Some a }) (agg_init a) = Some b \<and> ?P (tr_len r) b"
  proof (rule for_loop_invariant [where P = ?P], goal_cases)
    case 1
    show ?case by (simp add: vals_in_def agg_of_def)
  next
    case (2 i b)
    have i: "i < length (tr_keys r)" "i < length (tr_vals r)" using 2(1) inv by (simp_all add: tr_inv_def)
    then show ?case using 2 by (auto simp: take_Suc_conv_app_nth vals_in_def agg_of_def)
  qed
  then show ?thesis unfolding twin_ring_aggregate_def option.case prod.case Let_def tr_lock_simps by (auto simp: tr_ents_def)
qed

section \<open>The baselines and the memtable agree\<close>

fun fill :: "('t \<Rightarrow> u32 \<Rightarrow> u32 \<Rightarrow> ('t \<times> bool) option) \<Rightarrow> (u32 \<times> u32) list \<Rightarrow> 't \<Rightarrow> 't option" where
  "fill ins [] t = Some t"
| "fill ins ((k, v) # xs) t = (case ins t k v of None \<Rightarrow> None | Some (t', r) \<Rightarrow> fill ins xs t')"

definition mt_fill :: "(u32 \<times> u32) list \<Rightarrow> memtable option \<Rightarrow> memtable option" where
  "mt_fill xs h = foldl (\<lambda>h (k, v). fst (expanse_memtable_insert h k v)) h xs"

lemma upd_rev: "(m(k \<mapsto> v)) ++ map_of (rev xs) = m ++ map_of (rev ((k, v) # xs))"
  by simp

lemma mt_fill_ok: "mt_ok h \<Longrightarrow> mt_ok (mt_fill xs h) \<and> map_of (mt_ents (mt_fill xs h)) = map_of (mt_ents h) ++ map_of (rev xs)"
proof (induction xs arbitrary: h)
  case (Cons p xs)
  obtain k v where p: "p = (k, v)" by (cases p)
  obtain h' n old where e: "expanse_memtable_insert h k v = (h', n, old)" by (metis prod_cases3)
  note o = memtable_insert_ok [OF Cons.prems e]
  show ?case using Cons.IH [OF o(1), unfolded o(2) map_of_al_ins mt_fill_def] e unfolding mt_fill_def p upd_rev [symmetric] by (simp add: fun_upd_def)
qed (simp add: mt_fill_def)

lemma th_fill_ok:
  "th_inv h \<Longrightarrow> length xs \<le> th_mask h - th_len h \<Longrightarrow>
   \<exists>h'. fill twin_hash_insert xs (Some h) = Some (Some h') \<and> th_inv h' \<and> th_abs h' = th_abs h ++ map_of (rev xs)"
proof (induction xs arbitrary: h)
  case (Cons p xs)
  obtain k v where p: "p = (k, v)" by (cases p)
  have room: "th_len h < th_mask h" using Cons.prems(2) by simp
  from twin_hash_insert_ok [OF Cons.prems(1) room, of k v]
  obtain h1 where h1: "twin_hash_insert (Some h) k v = Some (Some h1, th_abs h k = None)" "th_inv h1" "th_abs h1 = (th_abs h)(k \<mapsto> v)"
    "th_mask h1 = th_mask h" "th_len h1 = th_len h + (if th_abs h k = None then 1 else 0)" by blast
  have "length xs \<le> th_mask h1 - th_len h1" using Cons.prems(2) h1(4,5) by auto
  from Cons.IH [OF h1(2) this, unfolded h1(3)] show ?case using h1(1) unfolding p upd_rev [symmetric] by (auto simp: fun_upd_def)
qed auto

lemma ts_fill_ok:
  "ts_inv s \<Longrightarrow> length xs \<le> ts_cap s - ts_len s \<Longrightarrow>
   \<exists>s'. fill twin_sorted_insert xs (Some s) = Some (Some s') \<and> ts_inv s' \<and> map_of (ts_ents s') = map_of (ts_ents s) ++ map_of (rev xs)"
proof (induction xs arbitrary: s)
  case (Cons p xs)
  obtain k v where p: "p = (k, v)" by (cases p)
  have room: "ts_len s < ts_cap s" using Cons.prems(2) by simp
  from twin_sorted_insert_ok [OF Cons.prems(1) room, of k v]
  obtain s1 where s1: "twin_sorted_insert (Some s) k v = Some (Some s1, map_of (ts_ents s) k = None)" "ts_inv s1" "ts_ents s1 = al_ins k v (ts_ents s)"
    "ts_cap s1 = ts_cap s" "ts_len s1 \<le> ts_len s + 1" by blast
  have "length xs \<le> ts_cap s1 - ts_len s1" using Cons.prems(2) s1(4,5) by auto
  from Cons.IH [OF s1(2) this, unfolded s1(3) map_of_al_ins] show ?case using s1(1) unfolding p upd_rev [symmetric] by (auto simp: fun_upd_def)
qed auto

text \<open>A ring keeps the last entries that fit.\<close>

lemma tr_fill_ok:
  "tr_inv r \<Longrightarrow> tr_len r = length (tr_seq r) \<Longrightarrow>
   \<exists>r'. fill twin_ring_insert xs (Some r) = Some (Some r') \<and> tr_inv r' \<and> tr_cap r' = tr_cap r \<and>
     tr_seq r' = drop (length (tr_seq r @ xs) - tr_cap r) (tr_seq r @ xs)"
proof (induction xs arbitrary: r)
  case Nil
  then show ?case by (auto simp: tr_inv_def)
next
  case (Cons p xs)
  obtain k v where p: "p = (k, v)" by (cases p)
  obtain r1 where r1: "twin_ring_insert (Some r) k v = Some (Some r1, True)" "tr_inv r1" "tr_cap r1 = tr_cap r" "tr_len r1 = min (tr_cap r) (tr_len r + 1)"
    "tr_seq r1 = (if tr_len r < tr_cap r then tr_seq r else tl (tr_seq r)) @ [(k, v)]"
    using twin_ring_insert_ok [OF Cons.prems(1), of k v] by blast
  have le: "tr_len r \<le> tr_cap r" "0 < tr_cap r" using Cons.prems(1) by (auto simp: tr_inv_def)
  have len: "tr_len r1 = length (tr_seq r1)" using r1(4,5) le Cons.prems(2) by auto
  obtain r' where r': "fill twin_ring_insert xs (Some r1) = Some (Some r')" "tr_inv r'" "tr_cap r' = tr_cap r"
      "tr_seq r' = drop (length (tr_seq r1 @ xs) - tr_cap r) (tr_seq r1 @ xs)"
    using Cons.IH [OF r1(2) len] r1(3) by auto
  have "drop (length (tr_seq r1 @ xs) - tr_cap r) (tr_seq r1 @ xs) = drop (length (tr_seq r @ p # xs) - tr_cap r) (tr_seq r @ p # xs)"
  proof (cases "tr_len r < tr_cap r")
    case False
    then have "length (tr_seq r) = tr_cap r" using le Cons.prems(2) by simp
    then have "tr_seq r \<noteq> []" using le by auto
    then obtain q ys where q: "tr_seq r = q # ys" by (cases "tr_seq r") auto
    then show ?thesis using False r1(5) p \<open>length (tr_seq r) = tr_cap r\<close> by (simp add: drop_Cons')
  qed (use r1(5) p in simp)
  then show ?case using r1(1) r' by (simp add: p)
qed

lemma twin_ring_create_ok:
  assumes "0 < n"
  obtains r where "twin_ring_create True True True n = Some r" "tr_inv r" "tr_seq r = []" "tr_cap r = n" "tr_len r = 0"
  using assms that [of "\<lparr>tr_keys = replicate n 0, tr_vals = replicate n 0, tr_cap = n, tr_head = 0, tr_len = 0, tr_lock = 0\<rparr>"]
  by (simp add: twin_ring_create_def tr_inv_def tr_seq_def tr_ents_def)

lemma mset_map_eq:
  assumes "distinct (map fst xs)" and "distinct (map fst ys)" and "map_of xs = map_of ys"
  shows "mset xs = mset ys"
proof -
  have "p \<in> set xs \<longleftrightarrow> p \<in> set ys" for p
    using map_of_eq_Some_iff [OF assms(1), of "fst p" "snd p"] map_of_eq_Some_iff [OF assms(2), of "fst p" "snd p"] assms(3) by simp
  then have "set xs = set ys" by blast
  then show ?thesis using assms(1,2) set_eq_iff_mset_eq_distinct [of xs ys] by (simp add: distinct_map)
qed

lemma vals_in_mset: "mset xs = mset ys \<Longrightarrow> mset (vals_in lo hi xs) = mset (vals_in lo hi ys)"
  by (simp add: vals_in_def)

lemma memtable_aggregate_of:
  assumes "mt_ok h" and "sk \<le> ek"
  shows "expanse_memtable_aggregate_range h sk ek (Some a) =
    (let r = agg_of a (vals_in sk ek (mt_ents h)) in (h, 0 < agg_count r, Some r))"
proof -
  obtain mt where mt: "h = Some mt" "map_ok (mt_map mt)" "mt_map mt \<noteq> None" using assms(1) by (rule mt_okE)
  have "expanse_map_for_each_range (mt_map mt) sk ek (Some aggregate_visit) (agg_init a) = (True, agg_of a (vals_in sk ek (mt_ents h)))"
    by (simp add: emap.for_each_ok [OF mt(2)] mt(1) walk_aggregate agg_of_def mt_ents_def vals_in_def al_range_def agg_add_fold)
  then show ?thesis
    using mt assms(2) unfolding expanse_memtable_aggregate_range_def mt(1) Let_def split_beta lock_simps option.case agg_init_def [symmetric]
    by auto
qed



text \<open>\<^verbatim>\<open>twin_ring_insert\<close>: a ring made for \<open>n\<close> entries holds, after any insertions, exactly the last \<open>n\<close> of them in the
  order in which they came.\<close>

theorem ring_keeps_last:
  assumes "0 < n"
  shows "\<exists>r. fill twin_ring_insert xs (twin_ring_create True True True n) = Some (Some r) \<and> tr_inv r \<and> tr_seq r = drop (length xs - n) xs"
proof -
  obtain r0 where r0: "twin_ring_create True True True n = Some r0" "tr_inv r0" "tr_seq r0 = []" "tr_cap r0 = n" "tr_len r0 = 0"
    using twin_ring_create_ok [OF assms] by blast
  then show ?thesis using tr_fill_ok [OF r0(2), of xs] by auto
qed

theorem ring_keeps_last_witness:
  "\<exists>r. fill twin_ring_insert [(1, 10), (2, 20), (3, 30)] (twin_ring_create True True True 2) = Some (Some r) \<and> tr_seq r = [(2, 20), (3, 30)]"
  using ring_keeps_last [of 2 "[(1, 10), (2, 20), (3, 30)]"] by auto

text \<open>C28. \<^verbatim>\<open>twin_hash_insert\<close>, \<^verbatim>\<open>twin_hash_get\<close> and \<^verbatim>\<open>twin_hash_remove\<close> on a table made for \<open>n\<close> entries: any sequence of
  calls with at most \<open>n\<close> insertions returns from every loop, the backward shift of a removal included, and every lookup answers as a
  partial function under the same updates does.\<close>

theorem twin_hash_calls_correct:
  assumes "n \<le> 2 ^ 28" and "length (filter is_insert cs) \<le> n"
  shows "\<exists>h0 h. twin_hash_create True True True True n = Some h0 \<and>
    alt_run th_put th_look th_drop cs h0 = Some (h, snd (alt_spec cs Map.empty)) \<and> th_inv h \<and> th_abs h = fst (alt_spec cs Map.empty)"
proof -
  obtain h0 where h0: "twin_hash_create True True True True n = Some h0" "th_inv h0" "th_abs h0 = Map.empty" "th_len h0 = 0" "n \<le> th_mask h0"
    using twin_hash_create_ok [OF assms(1)] by blast
  have "enat (length (filter is_insert cs)) \<le> enat (th_mask h0 - th_len h0)" using assms(2) h0(4,5) by simp
  then show ?thesis using th.run_ok [OF h0(2), of cs] h0(1,3) by auto
qed

theorem twin_hash_calls_correct_witness:
  "\<exists>h0 h. twin_hash_create True True True True 4 = Some h0 \<and>
    alt_run th_put th_look th_drop [AInsert 5 1, AInsert 9 2, ARemove 5, AGet 9, AGet 5] h0 = Some (h, [Some 2, None])"
  using twin_hash_calls_correct [of 4 "[AInsert 5 1, AInsert 9 2, ARemove 5, AGet 9, AGet 5]"] by auto

end
