(* ===== verification/Twin_Ble.thy ===== *)
theory Twin_Ble
  imports Twin_Hash Ble_Tracker
begin

text \<open>
  The two baselines of the BLE tracker (\<^verbatim>\<open>components/expanse/test/twin_containers.c\<close>): \<^verbatim>\<open>twin_ble_hash\<close>, a hash table
  of records by address, and \<^verbatim>\<open>twin_ble_scan\<close>, a flat array searched from the front.
\<close>

section \<open>Operations\<close>

definition twin_is_stale :: "u32 \<Rightarrow> u32 \<Rightarrow> bool" where
  "twin_is_stale last_seen cutoff_ms \<longleftrightarrow> last_seen div 1000 \<le> cutoff_ms div 1000"

definition mac_hash :: "u8 list \<Rightarrow> u32" where
  "mac_hash m = fold (\<lambda>b h. (h XOR ucast b) * 16777619) (take 6 m) 2166136261"

record twin_ble_hash =
  bh_recs :: "ble_record list"
  bh_used :: "u8 list"
  bh_mask :: nat
  bh_len :: nat
  bh_lock :: nat

definition BH_TAKE :: "twin_ble_hash \<Rightarrow> twin_ble_hash" where
  "BH_TAKE t = t\<lparr>bh_lock := bh_lock t + 1\<rparr>"

definition BH_GIVE :: "twin_ble_hash \<Rightarrow> twin_ble_hash" where
  "BH_GIVE t = t\<lparr>bh_lock := bh_lock t - 1\<rparr>"

definition bh_home :: "nat \<Rightarrow> u8 list \<Rightarrow> nat" where
  "bh_home msk m = unat (drop_bit 8 (mac_hash m) AND of_nat msk)"

definition twin_ble_hash_create :: "bool \<Rightarrow> bool \<Rightarrow> bool \<Rightarrow> nat \<Rightarrow> twin_ble_hash option" where
  "twin_ble_hash_create ok0 ok1 ok2 expected_entries =
    (let want = (expected_entries * 10) div 7 + 1; cap = twin_cap 8 want
     in if \<not> ok0 then None
        else if \<not> ok1 \<or> \<not> ok2 then None
        else Some \<lparr>bh_recs = replicate cap empty_record, bh_used = replicate cap 0, bh_mask = cap - 1, bh_len = 0, bh_lock = 0\<rparr>)"

partial_function (option) bh_record_loop :: "twin_ble_hash \<Rightarrow> ble_record \<Rightarrow> nat \<Rightarrow> (twin_ble_hash \<times> bool) option" where
  [code]: "bh_record_loop t rec i =
    (case rd (bh_used t) i of
       None \<Rightarrow> None
     | Some u \<Rightarrow>
         if u = 0
         then do { rs \<leftarrow> wr (bh_recs t) i rec;
                   us \<leftarrow> wr (bh_used t) i 1;
                   Some (BH_GIVE (t\<lparr>bh_recs := rs, bh_used := us, bh_len := bh_len t + 1\<rparr>), True) }
         else (case rd (bh_recs t) i of
                 None \<Rightarrow> None
               | Some r \<Rightarrow>
                   if \<not> memcmp6 (mac r) (mac rec)
                   then do { rs \<leftarrow> wr (bh_recs t) i rec; Some (BH_GIVE (t\<lparr>bh_recs := rs\<rparr>), False) }
                   else bh_record_loop t rec ((i + 1) AND bh_mask t)))"

definition twin_ble_hash_record :: "twin_ble_hash option \<Rightarrow> ble_record option \<Rightarrow> (twin_ble_hash option \<times> bool) option" where
  "twin_ble_hash_record h rec =
    (case (h, rec) of
       (Some t, Some r) \<Rightarrow>
         do { (t', b) \<leftarrow> bh_record_loop (BH_TAKE t) r (bh_home (bh_mask t) (mac r)); Some (Some t', b) }
     | _ \<Rightarrow> Some (h, False))"

partial_function (option) bh_get_loop :: "twin_ble_hash \<Rightarrow> u8 list \<Rightarrow> nat \<Rightarrow> ble_record option option" where
  [code]: "bh_get_loop t m i =
    (case rd (bh_used t) i of
       None \<Rightarrow> None
     | Some u \<Rightarrow>
         if u = 0 then Some None
         else (case rd (bh_recs t) i of
                 None \<Rightarrow> None
               | Some r \<Rightarrow> if \<not> memcmp6 (mac r) m then Some (Some r) else bh_get_loop t m ((i + 1) AND bh_mask t)))"

definition twin_ble_hash_get :: "twin_ble_hash option \<Rightarrow> u8 list option \<Rightarrow> (twin_ble_hash option \<times> ble_record option) option" where
  "twin_ble_hash_get h m =
    (case (h, m) of
       (Some t0, Some a) \<Rightarrow>
         (let t = BH_TAKE t0 in do { f \<leftarrow> bh_get_loop t a (bh_home (bh_mask t) a); Some (Some (BH_GIVE t), f) })
     | _ \<Rightarrow> Some (h, None))"

definition twin_ble_hash_expire_stale :: "twin_ble_hash option \<Rightarrow> u32 \<Rightarrow> (twin_ble_hash option \<times> nat) option" where
  "twin_ble_hash_expire_stale h cutoff_ms =
    (case h of
       None \<Rightarrow> Some (None, 0)
     | Some t0 \<Rightarrow>
         do { (t, expired) \<leftarrow> for_loop [0..<bh_mask t0 + 1] (\<lambda>i (t, n).
                do { u \<leftarrow> rd (bh_used t) i;
                     if u = 0 then Some (t, n)
                     else do { r \<leftarrow> rd (bh_recs t) i;
                               if twin_is_stale (last_seen_ms r) cutoff_ms
                               then do { us \<leftarrow> wr (bh_used t) i 0; Some (t\<lparr>bh_used := us, bh_len := bh_len t - 1\<rparr>, n + 1) }
                               else Some (t, n) } }) (BH_TAKE t0, 0);
              Some (Some (BH_GIVE t), expired) })"

record twin_ble_scan =
  bs_recs :: "ble_record list"
  bs_len :: nat
  bs_cap :: nat
  bs_lock :: nat

definition BS_TAKE :: "twin_ble_scan \<Rightarrow> twin_ble_scan" where
  "BS_TAKE t = t\<lparr>bs_lock := bs_lock t + 1\<rparr>"

definition BS_GIVE :: "twin_ble_scan \<Rightarrow> twin_ble_scan" where
  "BS_GIVE t = t\<lparr>bs_lock := bs_lock t - 1\<rparr>"

definition twin_ble_scan_create :: "bool \<Rightarrow> bool \<Rightarrow> nat \<Rightarrow> twin_ble_scan option" where
  "twin_ble_scan_create ok0 ok1 capacity =
    (if \<not> ok0 then None else if \<not> ok1 then None
     else Some \<lparr>bs_recs = replicate capacity empty_record, bs_len = 0, bs_cap = capacity, bs_lock = 0\<rparr>)"

text \<open>The search of both operations: the first index with the address, or the length.\<close>

function bs_find :: "twin_ble_scan \<Rightarrow> u8 list \<Rightarrow> nat \<Rightarrow> nat option option" where
  "bs_find t m i =
    (if i < bs_len t
     then (case rd (bs_recs t) i of
             None \<Rightarrow> None
           | Some r \<Rightarrow> if \<not> memcmp6 (mac r) m then Some (Some i) else bs_find t m (i + 1))
     else Some None)"
  by pat_completeness auto
termination by (relation "measure (\<lambda>(t, m, i). bs_len t - i)") auto

declare bs_find.simps [simp del]

definition twin_ble_scan_record :: "twin_ble_scan option \<Rightarrow> ble_record option \<Rightarrow> (twin_ble_scan option \<times> bool) option" where
  "twin_ble_scan_record h rec =
    (case (h, rec) of
       (Some t0, Some r) \<Rightarrow>
         (let t = BS_TAKE t0
          in do { f \<leftarrow> bs_find t (mac r) 0;
                  case f of
                    Some i \<Rightarrow> do { rs \<leftarrow> wr (bs_recs t) i r; Some (Some (BS_GIVE (t\<lparr>bs_recs := rs\<rparr>)), False) }
                  | None \<Rightarrow>
                      if bs_len t = bs_cap t then Some (Some (BS_GIVE t), False)
                      else do { rs \<leftarrow> wr (bs_recs t) (bs_len t) r;
                                Some (Some (BS_GIVE (t\<lparr>bs_recs := rs, bs_len := bs_len t + 1\<rparr>)), True) } })
     | _ \<Rightarrow> Some (h, False))"

definition twin_ble_scan_get :: "twin_ble_scan option \<Rightarrow> u8 list option \<Rightarrow> (twin_ble_scan option \<times> ble_record option) option" where
  "twin_ble_scan_get h m =
    (case (h, m) of
       (Some t0, Some a) \<Rightarrow>
         (let t = BS_TAKE t0
          in do { f \<leftarrow> bs_find t a 0;
                  case f of
                    Some i \<Rightarrow> do { r \<leftarrow> rd (bs_recs t) i; Some (Some (BS_GIVE t), Some r) }
                  | None \<Rightarrow> Some (Some (BS_GIVE t), None) })
     | _ \<Rightarrow> Some (h, None))"

definition twin_ble_scan_expire_stale :: "twin_ble_scan option \<Rightarrow> u32 \<Rightarrow> (twin_ble_scan option \<times> nat) option" where
  "twin_ble_scan_expire_stale h cutoff_ms =
    (case h of
       None \<Rightarrow> Some (None, 0)
     | Some t0 \<Rightarrow>
         (let t = BS_TAKE t0
          in do { (rs, w, expired) \<leftarrow> for_loop [0..<bs_len t] (\<lambda>i (rs, w, n).
                    do { r \<leftarrow> rd rs i;
                         if twin_is_stale (last_seen_ms r) cutoff_ms then Some (rs, w, n + 1)
                         else do { rs' \<leftarrow> (if w \<noteq> i then wr rs w r else Some rs); Some (rs', w + 1, n) } }) (bs_recs t, 0, 0);
                  Some (Some (BS_GIVE (t\<lparr>bs_recs := rs, bs_len := w\<rparr>)), expired) }))"

section \<open>The flat array\<close>

definition addr :: "ble_record \<Rightarrow> u8 list" where
  "addr r = take 6 (mac r)"

definition bs_ents :: "twin_ble_scan \<Rightarrow> ble_record list" where
  "bs_ents t = take (bs_len t) (bs_recs t)"

definition bs_inv :: "twin_ble_scan \<Rightarrow> bool" where
  "bs_inv t \<longleftrightarrow> length (bs_recs t) = bs_cap t \<and> bs_len t \<le> bs_cap t \<and> distinct (map addr (bs_ents t))"

lemma bs_lock_simps [simp]:
  "BS_GIVE (BS_TAKE t) = t" "bs_recs (BS_TAKE t) = bs_recs t" "bs_len (BS_TAKE t) = bs_len t" "bs_cap (BS_TAKE t) = bs_cap t"
  "bs_inv (BS_TAKE t) = bs_inv t" "bs_ents (BS_TAKE t) = bs_ents t"
  by (simp_all add: BS_GIVE_def BS_TAKE_def bs_inv_def bs_ents_def)

text \<open>The records by address.\<close>

definition rec_map :: "ble_record list \<Rightarrow> u8 list \<rightharpoonup> ble_record" where
  "rec_map rs = map_of (map (\<lambda>r. (addr r, r)) rs)"

lemma bs_find_ok:
  assumes inv: "bs_inv t"
  shows "j \<le> bs_len t \<Longrightarrow> (\<forall>i<j. addr (bs_recs t ! i) \<noteq> take 6 m) \<Longrightarrow>
    (rec_map (bs_ents t) (take 6 m) = None \<and> bs_find t m j = Some None) \<or>
    (\<exists>i<bs_len t. bs_find t m j = Some (Some i) \<and> addr (bs_recs t ! i) = take 6 m \<and> rec_map (bs_ents t) (take 6 m) = Some (bs_recs t ! i))"
proof (induction "bs_len t - j" arbitrary: j)
  case 0
  then have j: "j = bs_len t" by simp
  have "take 6 m \<notin> addr ` set (bs_ents t)"
    using 0(3) inv unfolding j by (force simp: bs_ents_def bs_inv_def in_set_conv_nth)
  then have "rec_map (bs_ents t) (take 6 m) = None" by (auto simp: rec_map_def map_of_eq_None_iff)
  then show ?case using j by (subst bs_find.simps) simp
next
  case (Suc n)
  have j: "j < bs_len t" using Suc(2) by simp
  then have len: "j < length (bs_recs t)" using inv by (simp add: bs_inv_def)
  show ?case
  proof (cases "addr (bs_recs t ! j) = take 6 m")
    case True
    have mem: "(take 6 m, bs_recs t ! j) \<in> set (map (\<lambda>r. (addr r, r)) (bs_ents t))"
    proof -
      have "bs_recs t ! j \<in> set (bs_ents t)" using j len by (auto simp: bs_ents_def in_set_conv_nth)
      then show ?thesis using True by force
    qed
    have "distinct (map fst (map (\<lambda>r. (addr r, r)) (bs_ents t)))" using inv by (simp add: bs_inv_def comp_def)
    then have "rec_map (bs_ents t) (take 6 m) = Some (bs_recs t ! j)" unfolding rec_map_def using mem by (rule map_of_is_SomeI)
    moreover have "bs_find t m j = Some (Some j)" using True j len by (subst bs_find.simps) (simp add: memcmp6_def addr_def)
    ultimately show ?thesis using j True by blast
  next
    case False
    then have "bs_find t m j = bs_find t m (Suc j)" using j len by (subst bs_find.simps) (simp add: memcmp6_def addr_def)
    moreover have "\<forall>i<Suc j. addr (bs_recs t ! i) \<noteq> take 6 m" using Suc(4) False less_Suc_eq by auto
    ultimately show ?thesis using Suc(1) [of "Suc j"] Suc(2) j by simp
  qed
qed

lemma rec_map_mem:
  assumes "distinct (map addr rs)"
  shows "rec_map rs a = Some r \<longleftrightarrow> r \<in> set rs \<and> addr r = a"
proof -
  have "distinct (map fst (map (\<lambda>r. (addr r, r)) rs))" using assms by (simp add: comp_def)
  from map_of_eq_Some_iff [OF this, of a r] show ?thesis by (auto simp: rec_map_def)
qed

lemma rec_map_eqI:
  assumes "distinct (map addr rs)" and "\<And>q. m a = Some q \<longleftrightarrow> q \<in> set rs \<and> addr q = a"
  shows "rec_map rs a = m a"
proof (cases "m a")
  case None
  then have "\<not> (q \<in> set rs \<and> addr q = a)" for q using assms(2) [of q] by simp
  then have "rec_map rs a \<noteq> Some q" for q using rec_map_mem [OF assms(1), of a q] by blast
  then show ?thesis using None by (cases "rec_map rs a") auto
next
  case (Some q)
  then show ?thesis using assms(2) [of q] rec_map_mem [OF assms(1), of a q] by simp
qed

lemma rec_map_append:
  assumes "distinct (map addr (rs @ [r]))"
  shows "rec_map (rs @ [r]) = (rec_map rs)(addr r \<mapsto> r)"
proof
  fix a
  have d: "distinct (map addr rs)" and "addr r \<notin> addr ` set rs" using assms by auto
  then have new: "q \<in> set rs \<Longrightarrow> addr q \<noteq> addr r" for q by (metis imageI)
  show "rec_map (rs @ [r]) a = ((rec_map rs)(addr r \<mapsto> r)) a"
    by (rule rec_map_eqI [OF assms]) (use rec_map_mem [OF d, of a] new in auto)
qed

lemma twin_ble_scan_get_ok:
  assumes inv: "bs_inv t"
  shows "twin_ble_scan_get (Some t) (Some m) = Some (Some t, rec_map (bs_ents t) (take 6 m))"
proof -
  have "bs_inv (BS_TAKE t)" using inv by simp
  from bs_find_ok [OF this, of 0 m] show ?thesis
    using inv by (auto simp: twin_ble_scan_get_def Let_def bs_inv_def)
qed

text \<open>A sighting replaces the record of its address or is appended; a full array refuses a new address.\<close>

lemma twin_ble_scan_record_ok:
  assumes inv: "bs_inv t"
  shows "\<exists>t' b. twin_ble_scan_record (Some t) (Some r) = Some (Some t', b) \<and> bs_inv t' \<and> bs_cap t' = bs_cap t \<and> bs_lock t' = bs_lock t \<and>
    (if rec_map (bs_ents t) (addr r) = None \<and> bs_len t = bs_cap t then t' = t \<and> \<not> b
     else rec_map (bs_ents t') = (rec_map (bs_ents t))(addr r \<mapsto> r) \<and> b = (rec_map (bs_ents t) (addr r) = None))"
proof -
  have "bs_inv (BS_TAKE t)" using inv by simp
  note find = bs_find_ok [OF this, of 0 "mac r", unfolded bs_lock_simps, folded addr_def]
  have d: "distinct (map addr (bs_ents t))" and len: "length (bs_recs t) = bs_cap t" "bs_len t \<le> bs_cap t" using inv by (auto simp: bs_inv_def)
  consider (miss) "rec_map (bs_ents t) (addr r) = None" "bs_find (BS_TAKE t) (mac r) 0 = Some None"
    | (hit) i where "i < bs_len t" "bs_find (BS_TAKE t) (mac r) 0 = Some (Some i)" "addr (bs_recs t ! i) = addr r" "rec_map (bs_ents t) (addr r) = Some (bs_recs t ! i)"
    using find by auto
  then show ?thesis
  proof cases
    case miss
    show ?thesis
    proof (cases "bs_len t = bs_cap t")
      case True
      then show ?thesis using miss inv by (auto simp: twin_ble_scan_record_def Let_def)
    next
      case False
      let ?t = "t\<lparr>bs_recs := (bs_recs t)[bs_len t := r], bs_len := bs_len t + 1\<rparr>"
      have n: "bs_len t < length (bs_recs t)" using False len by simp
      have e: "bs_ents ?t = bs_ents t @ [r]" using n by (simp add: bs_ents_def take_Suc_conv_app_nth)
      have "addr r \<notin> addr ` set (bs_ents t)"
      proof
        assume "addr r \<in> addr ` set (bs_ents t)"
        then obtain q where "q \<in> set (bs_ents t)" "addr q = addr r" by auto
        then show False using miss(1) rec_map_mem [OF d, of "addr r" q] by simp
      qed
      then have d': "distinct (map addr (bs_ents t @ [r]))" using d by auto
      have "twin_ble_scan_record (Some t) (Some r) = Some (Some ?t, True)"
        using miss(2) False n by (simp add: twin_ble_scan_record_def Let_def BS_GIVE_def BS_TAKE_def)
      moreover have "bs_inv ?t" using d' len False unfolding bs_inv_def e by simp
      moreover have "rec_map (bs_ents ?t) = (rec_map (bs_ents t))(addr r \<mapsto> r)" unfolding e by (rule rec_map_append [OF d'])
      ultimately show ?thesis using miss(1) False by (intro exI [of _ ?t] exI [of _ True]) simp
    qed
  next
    case (hit i)
    let ?t = "t\<lparr>bs_recs := (bs_recs t)[i := r]\<rparr>"
    have e: "bs_ents ?t = (bs_ents t)[i := r]" by (simp add: bs_ents_def take_update_swap)
    have i: "i < length (bs_ents t)" "addr (bs_ents t ! i) = addr r" using hit len by (simp_all add: bs_ents_def)
    have m: "map addr ((bs_ents t)[i := r]) = map addr (bs_ents t)" using i by (metis list_update_id map_update nth_map)
    have "twin_ble_scan_record (Some t) (Some r) = Some (Some ?t, False)"
      using hit(1,2) len by (simp add: twin_ble_scan_record_def Let_def BS_GIVE_def BS_TAKE_def)
    moreover have "bs_inv ?t" using len d m unfolding bs_inv_def e by simp
    moreover have "rec_map ((bs_ents t)[i := r]) a = ((rec_map (bs_ents t))(addr r \<mapsto> r)) a" for a
    proof -
      have d': "distinct (map addr ((bs_ents t)[i := r]))" using m d by simp
      have other: "q \<in> set ((bs_ents t)[i := r]) \<and> addr q = a \<longleftrightarrow> (if a = addr r then q = r else q \<in> set (bs_ents t) \<and> addr q = a)" for q
      proof -
        have mem: "q \<in> set ((bs_ents t)[i := r]) \<longleftrightarrow> q = r \<or> (\<exists>j<length (bs_ents t). j \<noteq> i \<and> bs_ents t ! j = q)"
          using ex_update [OF i(1), of r q] by (auto simp: in_set_conv_nth)
        have u: "addr (bs_ents t ! j) \<noteq> addr r" if "j < length (bs_ents t)" "j \<noteq> i" for j
          using d that i nth_eq_iff_index_eq [of "map addr (bs_ents t)" j i] by auto
        show ?thesis
        proof (cases "a = addr r")
          case True
          then show ?thesis unfolding mem using u by auto
        next
          case False
          then show ?thesis unfolding mem using i(2) by (auto simp: in_set_conv_nth)
        qed
      qed
      show ?thesis by (rule rec_map_eqI [OF d']) (use rec_map_mem [OF d, of a] other in auto)
    qed
    ultimately show ?thesis using hit(4) e by (intro exI [of _ ?t] exI [of _ False]) (auto simp: fun_eq_iff)
  qed
qed

lemma twin_ble_scan_expire_ok:
  assumes inv: "bs_inv t"
  shows "\<exists>t'. twin_ble_scan_expire_stale (Some t) cutoff =
      Some (Some t', length (filter (\<lambda>r. twin_is_stale (last_seen_ms r) cutoff) (bs_ents t))) \<and>
    bs_inv t' \<and> bs_ents t' = filter (\<lambda>r. \<not> twin_is_stale (last_seen_ms r) cutoff) (bs_ents t) \<and> bs_cap t' = bs_cap t \<and> bs_lock t' = bs_lock t"
proof -
  let ?S = "\<lambda>r. twin_is_stale (last_seen_ms r) cutoff" and ?rs = "bs_recs t"
  let ?P = "\<lambda>m (rs, w, n). length rs = length ?rs \<and> w \<le> m \<and> take w rs = filter (\<lambda>r. \<not> ?S r) (take m ?rs) \<and>
    (\<forall>i\<ge>m. i < length ?rs \<longrightarrow> rs ! i = ?rs ! i) \<and> n = length (filter ?S (take m ?rs))"
  have len: "length ?rs = bs_cap t" "bs_len t \<le> bs_cap t" using inv by (auto simp: bs_inv_def)
  have "\<exists>s. for_loop [0..<bs_len t] (\<lambda>i (rs, w, n).
      do { r \<leftarrow> rd rs i;
           if ?S r then Some (rs, w, n + 1)
           else do { rs' \<leftarrow> (if w \<noteq> i then wr rs w r else Some rs); Some (rs', w + 1, n) } }) (?rs, 0, 0) = Some s \<and> ?P (bs_len t) s"
  proof (rule for_loop_invariant [where P = ?P], goal_cases)
    case 1
    show ?case by simp
  next
    case (2 i s)
    obtain rs w n where s: "s = (rs, w, n)" by (metis prod_cases3)
    note P = 2(2) [unfolded s prod.case]
    have i: "i < length ?rs" using 2(1) len by simp
    have ri: "rs ! i = ?rs ! i" "i < length rs" using P i by auto
    have tk: "take (Suc i) ?rs = take i ?rs @ [?rs ! i]" using i by (rule take_Suc_conv_app_nth)
    show ?case
    proof (cases "?S (?rs ! i)")
      case True
      then show ?thesis using P ri tk by (intro exI [of _ "(rs, w, n + 1)"]) (auto simp: s)
    next
      case False
      have w: "w < length rs" using P ri(2) by simp
      let ?r = "if w \<noteq> i then rs[w := ?rs ! i] else rs"
      have "take (w + 1) ?r = take w rs @ [?rs ! i]" using w ri by (auto simp: take_Suc_conv_app_nth)
      moreover have "\<forall>j\<ge>Suc i. j < length ?rs \<longrightarrow> ?r ! j = ?rs ! j" using P by auto
      ultimately have "?P (Suc i) (?r, w + 1, n)" using P False tk by auto
      then show ?thesis using False ri w by (intro exI [of _ "(?r, w + 1, n)"] conjI) (simp_all add: s)
    qed
  qed
  then obtain s where s: "for_loop [0..<bs_len t] (\<lambda>i (rs, w, n).
      do { r \<leftarrow> rd rs i;
           if ?S r then Some (rs, w, n + 1)
           else do { rs' \<leftarrow> (if w \<noteq> i then wr rs w r else Some rs); Some (rs', w + 1, n) } }) (?rs, 0, 0) = Some s" "?P (bs_len t) s" by blast
  obtain rs w n where "s = (rs, w, n)" by (rule prod_cases3)
  with s have loop: "for_loop [0..<bs_len t] (\<lambda>i (rs, w, n).
      do { r \<leftarrow> rd rs i;
           if ?S r then Some (rs, w, n + 1)
           else do { rs' \<leftarrow> (if w \<noteq> i then wr rs w r else Some rs); Some (rs', w + 1, n) } }) (?rs, 0, 0) = Some (rs, w, n)"
    and P: "?P (bs_len t) (rs, w, n)" by simp_all
  let ?t = "t\<lparr>bs_recs := rs, bs_len := w\<rparr>"
  have e: "bs_ents ?t = filter (\<lambda>r. \<not> ?S r) (bs_ents t)" using P by (simp add: bs_ents_def)
  have "twin_ble_scan_expire_stale (Some t) cutoff = Some (Some ?t, length (filter ?S (bs_ents t)))"
    unfolding twin_ble_scan_expire_stale_def option.case Let_def bs_lock_simps loop using P by (simp add: BS_GIVE_def BS_TAKE_def bs_ents_def)
  moreover have "bs_inv ?t" using P inv len unfolding bs_inv_def e by (auto simp: distinct_map_filter)
  ultimately show ?thesis using e by (intro exI [of _ ?t]) simp
qed

section \<open>The hash table\<close>

definition bh_slots :: "twin_ble_hash \<Rightarrow> (u8 list, ble_record) slots" where
  "bh_slots t = map (\<lambda>i. if bh_used t ! i = 0 then None else Some (addr (bh_recs t ! i), bh_recs t ! i)) [0..<bh_mask t + 1]"

definition bh_shape :: "twin_ble_hash \<Rightarrow> bool" where
  "bh_shape t \<longleftrightarrow> (\<exists>e\<le>30. bh_mask t + 1 = 2 ^ e) \<and> length (bh_recs t) = bh_mask t + 1 \<and> length (bh_used t) = bh_mask t + 1"

definition bh_inv :: "twin_ble_hash \<Rightarrow> bool" where
  "bh_inv t \<longleftrightarrow> bh_shape t \<and> lp_inv (bh_home (bh_mask t)) (bh_slots t) \<and> bh_len t = length (filter (\<lambda>x. x \<noteq> None) (bh_slots t))"

definition bh_abs :: "twin_ble_hash \<Rightarrow> u8 list \<rightharpoonup> ble_record" where
  "bh_abs t = lp_abs (bh_slots t)"

text \<open>The hash of the address is the one of the tracker, and depends on the first six bytes only.\<close>

lemma mac_hash_tracker: "mac_hash m = fnv1a_32 m 6"
  by (simp add: mac_hash_def fnv1a_32_def)

lemma bh_home_addr: "bh_home msk (take 6 m) = bh_home msk m"
  by (simp add: bh_home_def mac_hash_def)

lemma length_bh_slots [simp]: "length (bh_slots t) = bh_mask t + 1"
  by (simp add: bh_slots_def)

lemma bh_slots_nth: "i < bh_mask t + 1 \<Longrightarrow> bh_slots t ! i = (if bh_used t ! i = 0 then None else Some (addr (bh_recs t ! i), bh_recs t ! i))"
  unfolding bh_slots_def by (subst nth_map) (simp_all del: upt_Suc)

lemma bh_slots_lock [simp]: "bh_slots (t\<lparr>bh_lock := x\<rparr>) = bh_slots t" "bh_slots (t\<lparr>bh_len := n\<rparr>) = bh_slots t"
  by (simp_all add: bh_slots_def cong: if_cong)

lemma bh_lock_simps [simp]:
  "BH_GIVE (BH_TAKE t) = t" "bh_recs (BH_TAKE t) = bh_recs t" "bh_used (BH_TAKE t) = bh_used t" "bh_mask (BH_TAKE t) = bh_mask t" "bh_len (BH_TAKE t) = bh_len t"
  "bh_slots (BH_TAKE t) = bh_slots t" "bh_slots (BH_GIVE t) = bh_slots t" "bh_mask (BH_GIVE t) = bh_mask t" "bh_len (BH_GIVE t) = bh_len t"
  "bh_inv (BH_TAKE t) = bh_inv t" "bh_inv (BH_GIVE t) = bh_inv t"
  by (simp_all add: BH_GIVE_def BH_TAKE_def bh_inv_def bh_shape_def)

lemma bh_mask_mod: "bh_mask t + 1 = 2 ^ e \<Longrightarrow> x AND bh_mask t = x mod (bh_mask t + 1)"
proof -
  assume e: "bh_mask t + 1 = 2 ^ e"
  then have "bh_mask t = mask e" by (simp add: mask_eq_exp_minus_1 flip: e)
  then have "x AND bh_mask t = take_bit e x" by (simp add: take_bit_eq_mask)
  then show ?thesis using e by (simp add: take_bit_eq_mod)
qed

lemma bh_write:
  assumes "bh_shape t" and "i < bh_mask t + 1" and "u \<noteq> 0"
  shows "bh_slots (t\<lparr>bh_recs := (bh_recs t)[i := r], bh_used := (bh_used t)[i := u]\<rparr>) = (bh_slots t)[i := Some (addr r, r)]"
proof (rule nth_equalityI)
  fix j
  assume "j < length (bh_slots (t\<lparr>bh_recs := (bh_recs t)[i := r], bh_used := (bh_used t)[i := u]\<rparr>))"
  then have j: "j < bh_mask t + 1" by simp
  then show "bh_slots (t\<lparr>bh_recs := (bh_recs t)[i := r], bh_used := (bh_used t)[i := u]\<rparr>) ! j = (bh_slots t)[i := Some (addr r, r)] ! j"
    using assms by (cases "i = j") (simp_all add: bh_slots_nth bh_shape_def)
qed simp

lemma bh_stop:
  assumes inv: "bh_inv t"
  obtains i where "i < bh_mask t + 1" "bh_slots t ! i = None" "bh_abs t (take 6 m) = None"
      "bh_get_loop t m (bh_home (bh_mask t) m) = Some None"
      "\<And>r. addr r = take 6 m \<Longrightarrow> bh_record_loop t r (bh_home (bh_mask t) m) =
          Some (BH_GIVE (t\<lparr>bh_recs := (bh_recs t)[i := r], bh_used := (bh_used t)[i := 1], bh_len := bh_len t + 1\<rparr>), True)"
      "\<And>r. None \<in> set ((bh_slots t)[i := Some (take 6 m, r)]) \<Longrightarrow> lp_inv (bh_home (bh_mask t)) ((bh_slots t)[i := Some (take 6 m, r)]) \<and>
          lp_abs ((bh_slots t)[i := Some (take 6 m, r)]) = (bh_abs t)(take 6 m \<mapsto> r)"
    | i q where "i < bh_mask t + 1" "bh_slots t ! i = Some (take 6 m, q)" "bh_abs t (take 6 m) = Some q"
      "bh_get_loop t m (bh_home (bh_mask t) m) = Some (Some q)" "bh_used t ! i \<noteq> 0"
      "\<And>r. addr r = take 6 m \<Longrightarrow> bh_record_loop t r (bh_home (bh_mask t) m) = Some (BH_GIVE (t\<lparr>bh_recs := (bh_recs t)[i := r]\<rparr>), False)"
proof -
  let ?n = "bh_mask t + 1" and ?T = "bh_slots t" and ?h = "bh_home (bh_mask t)" and ?k = "take 6 m"
  have sh: "bh_shape t" and lp: "lp_inv ?h ?T" using inv by (simp_all add: bh_inv_def)
  then have one: "one_place ?T" and hm: "?h ?k < ?n" by (simp_all add: lp_inv_def)
  obtain D where D: "D < ?n" "?T ! walk_slot ?n (?h ?k) D = None \<or> keyed ?T ?k (walk_slot ?n (?h ?k) D)"
    "\<And>d. d < D \<Longrightarrow> ?T ! walk_slot ?n (?h ?k) d \<noteq> None \<and> \<not> keyed ?T ?k (walk_slot ?n (?h ?k) d)"
    using lp_stop [OF lp, of ?k] by auto
  let ?i = "walk_slot ?n (?h ?k) D"
  have i: "?i < ?n" by (rule walk_less) simp
  have len: "?i < length (bh_used t)" "?i < length (bh_recs t)" using i sh by (simp_all add: bh_shape_def)
  have start: "walk_slot ?n (?h ?k) 0 = ?h m" using hm by (simp add: walk_slot_def bh_home_addr)
  have step: "bh_get_loop t m (walk_slot ?n (?h ?k) d) = bh_get_loop t m (walk_slot ?n (?h ?k) (Suc d)) \<and>
      (\<forall>r. addr r = ?k \<longrightarrow> bh_record_loop t r (walk_slot ?n (?h ?k) d) = bh_record_loop t r (walk_slot ?n (?h ?k) (Suc d)))" if "d < D" for d
  proof -
    let ?j = "walk_slot ?n (?h ?k) d"
    have j: "?j < ?n" by (rule walk_less) simp
    have u: "bh_used t ! ?j \<noteq> 0" "addr (bh_recs t ! ?j) \<noteq> ?k" using D(3) [OF that] bh_slots_nth [OF j] by (auto simp: keyed_def split: if_splits)
    have nxt: "(?j + 1) AND bh_mask t = walk_slot ?n (?h ?k) (Suc d)"
      using bh_mask_mod sh walk_Suc [of ?n "?h ?k" d] by (auto simp: bh_shape_def)
    have l: "?j < length (bh_used t)" "?j < length (bh_recs t)" using j sh by (simp_all add: bh_shape_def)
    have "bh_get_loop t m ?j = bh_get_loop t m (walk_slot ?n (?h ?k) (Suc d))"
      using u l nxt by (subst bh_get_loop.simps) (simp add: memcmp6_def addr_def)
    moreover have "bh_record_loop t r ?j = bh_record_loop t r (walk_slot ?n (?h ?k) (Suc d))" if "addr r = ?k" for r
      using u l nxt that by (subst bh_record_loop.simps) (simp add: memcmp6_def addr_def)
    ultimately show ?thesis by blast
  qed
  have get: "bh_get_loop t m (?h m) = bh_get_loop t m ?i"
    unfolding start [symmetric] by (rule lift_Suc_chain [of D "\<lambda>d. bh_get_loop t m (walk_slot ?n (?h ?k) d)"]) (use step in blast)
  have rec: "bh_record_loop t r (?h m) = bh_record_loop t r ?i" if "addr r = ?k" for r
    unfolding start [symmetric] by (rule lift_Suc_chain [of D "\<lambda>d. bh_record_loop t r (walk_slot ?n (?h ?k) d)"]) (use step that in blast)
  show ?thesis
  proof (cases "?T ! ?i")
    case None
    then have u: "bh_used t ! ?i = 0" using bh_slots_nth [OF i] by (simp split: if_splits)
    have "bh_get_loop t m ?i = Some None" using u len by (subst bh_get_loop.simps) simp
    moreover have "bh_record_loop t r ?i = Some (BH_GIVE (t\<lparr>bh_recs := (bh_recs t)[?i := r], bh_used := (bh_used t)[?i := 1], bh_len := bh_len t + 1\<rparr>), True)" for r
      using u len by (subst bh_record_loop.simps) simp
    moreover have "bh_abs t ?k = None"
      using lp_miss [OF lp, of D ?k] None D(1,3) lp_abs_iff [OF one, of ?k] unfolding bh_abs_def by (auto simp: keyed_def simp flip: not_Some_eq)
    ultimately show ?thesis
      using that(1) [OF i None] get rec lp_put_ok [OF lp, of D ?k] D(1,3) None unfolding bh_abs_def by simp
  next
    case (Some e)
    then obtain q where q: "?T ! ?i = Some (?k, q)" using D(2) by (auto simp: keyed_def)
    then have u: "bh_used t ! ?i \<noteq> 0" "addr (bh_recs t ! ?i) = ?k" "bh_recs t ! ?i = q" using bh_slots_nth [OF i] by (auto split: if_splits)
    have "bh_get_loop t m ?i = Some (Some q)" using u len by (subst bh_get_loop.simps) (simp add: memcmp6_def addr_def)
    moreover have "bh_record_loop t r ?i = Some (BH_GIVE (t\<lparr>bh_recs := (bh_recs t)[?i := r]\<rparr>), False)" if "addr r = ?k" for r
      using u len that by (subst bh_record_loop.simps) (simp add: memcmp6_def addr_def)
    moreover have "bh_abs t ?k = Some q" unfolding bh_abs_def using lp_abs_iff [OF one, of ?k q] q i by auto
    ultimately show ?thesis using that(2) [OF i q _ _ u(1)] get rec by simp
  qed
qed

lemma twin_ble_hash_get_ok:
  assumes inv: "bh_inv t"
  shows "twin_ble_hash_get (Some t) (Some m) = Some (Some t, bh_abs t (take 6 m))"
proof -
  have a: "bh_abs (BH_TAKE t) = bh_abs t" by (simp add: bh_abs_def)
  have "bh_inv (BH_TAKE t)" using inv by simp
  then show ?thesis
    by (rule bh_stop [of _ m]) (simp_all add: twin_ble_hash_get_def Let_def a)
qed

lemma twin_ble_hash_record_ok:
  assumes inv: "bh_inv t" and room: "bh_len t < bh_mask t"
  shows "\<exists>t' b. twin_ble_hash_record (Some t) (Some r) = Some (Some t', b) \<and> bh_inv t' \<and> bh_mask t' = bh_mask t \<and> bh_lock t' = bh_lock t \<and>
    bh_len t' \<le> bh_len t + 1 \<and> bh_abs t' = (bh_abs t)(addr r \<mapsto> r) \<and> b = (bh_abs t (addr r) = None)"
proof -
  let ?t = "BH_TAKE t" and ?T = "bh_slots t"
  have inv': "bh_inv ?t" using inv by simp
  have sh: "bh_shape ?t" and lp: "lp_inv (bh_home (bh_mask t)) ?T" and cnt: "bh_len t = length (filter (\<lambda>x. x \<noteq> None) ?T)"
    using inv by (simp_all add: bh_inv_def bh_shape_def)
  have ad: "addr r = take 6 (mac r)" by (simp add: addr_def)
  from inv' show ?thesis
  proof (rule bh_stop [of _ "mac r"])
    fix i
    assume i: "i < bh_mask ?t + 1" "bh_slots ?t ! i = None" "bh_abs ?t (take 6 (mac r)) = None"
      and rec: "\<And>r'. addr r' = take 6 (mac r) \<Longrightarrow> bh_record_loop ?t r' (bh_home (bh_mask ?t) (mac r)) =
          Some (BH_GIVE (?t\<lparr>bh_recs := (bh_recs ?t)[i := r'], bh_used := (bh_used ?t)[i := 1], bh_len := bh_len ?t + 1\<rparr>), True)"
      and put: "\<And>r'. None \<in> set ((bh_slots ?t)[i := Some (take 6 (mac r), r')]) \<Longrightarrow>
          lp_inv (bh_home (bh_mask ?t)) ((bh_slots ?t)[i := Some (take 6 (mac r), r')]) \<and>
          lp_abs ((bh_slots ?t)[i := Some (take 6 (mac r), r')]) = (bh_abs ?t)(take 6 (mac r) \<mapsto> r')"
    let ?w = "?t\<lparr>bh_recs := (bh_recs ?t)[i := r], bh_used := (bh_used ?t)[i := 1], bh_len := bh_len ?t + 1\<rparr>"
    have sl: "bh_slots ?w = ?T[i := Some (addr r, r)]" using bh_write [OF sh i(1), of 1 r] by simp
    have c: "length (filter (\<lambda>x. x \<noteq> None) (?T[i := Some (addr r, r)])) = bh_len t + 1" using count_write [of i ?T "(addr r, r)"] i cnt by simp
    then have "None \<in> set (?T[i := Some (addr r, r)])" using room by (intro count_room) simp
    then have p: "lp_inv (bh_home (bh_mask t)) (?T[i := Some (addr r, r)])" "lp_abs (?T[i := Some (addr r, r)]) = (bh_abs t)(addr r \<mapsto> r)"
      using put [of r] by (simp_all add: ad bh_abs_def)
    have "bh_inv ?w" using p(1) c sh unfolding bh_inv_def sl by (simp add: bh_shape_def)
    then have "bh_inv (BH_GIVE ?w)" by simp
    moreover have "bh_abs (BH_GIVE ?w) = (bh_abs t)(addr r \<mapsto> r)" using sl p(2) by (simp add: bh_abs_def)
    moreover have "bh_lock (BH_GIVE ?w) = bh_lock t" by (simp add: BH_GIVE_def BH_TAKE_def)
    ultimately show ?thesis
      using rec [OF ad] i(3) by (intro exI [of _ "BH_GIVE ?w"] exI [of _ True]) (simp add: twin_ble_hash_record_def ad bh_abs_def)
  next
    fix i q
    assume i: "i < bh_mask ?t + 1" "bh_slots ?t ! i = Some (take 6 (mac r), q)" "bh_abs ?t (take 6 (mac r)) = Some q" "bh_used ?t ! i \<noteq> 0"
      and rec: "\<And>r'. addr r' = take 6 (mac r) \<Longrightarrow> bh_record_loop ?t r' (bh_home (bh_mask ?t) (mac r)) = Some (BH_GIVE (?t\<lparr>bh_recs := (bh_recs ?t)[i := r']\<rparr>), False)"
    let ?w = "?t\<lparr>bh_recs := (bh_recs ?t)[i := r]\<rparr>"
    have "bh_slots ?w = bh_slots (?t\<lparr>bh_recs := (bh_recs ?t)[i := r], bh_used := (bh_used ?t)[i := bh_used ?t ! i]\<rparr>)"
      by (simp add: bh_slots_def cong: if_cong)
    also have "\<dots> = (bh_slots ?t)[i := Some (addr r, r)]" by (rule bh_write [OF sh i(1,4)])
    finally have sl: "bh_slots ?w = ?T[i := Some (addr r, r)]" by simp
    have k: "keyed ?T (addr r) i" using i(2) by (auto simp: keyed_def ad)
    have u: "lp_inv (bh_home (bh_mask t)) (?T[i := Some (addr r, r)])" "lp_abs (?T[i := Some (addr r, r)]) = (lp_abs ?T)(addr r \<mapsto> r)"
      using lp_update_ok [OF lp _ k, of r] i(1) by simp_all
    have "length (filter (\<lambda>x. x \<noteq> None) (?T[i := Some (addr r, r)])) = length (filter (\<lambda>x. x \<noteq> None) ?T)"
      using count_write [of i "?T[i := None]" "(addr r, r)"] count_write [of i "?T[i := None]" "(addr r, q)"] i(1,2) list_update_id [of ?T i] by (simp add: ad)
    then have "bh_inv ?w" using u(1) cnt sh unfolding bh_inv_def sl by (simp add: bh_shape_def)
    then have "bh_inv (BH_GIVE ?w)" by simp
    moreover have "bh_abs (BH_GIVE ?w) = (bh_abs t)(addr r \<mapsto> r)" using sl u(2) by (simp add: bh_abs_def)
    moreover have "bh_lock (BH_GIVE ?w) = bh_lock t" by (simp add: BH_GIVE_def BH_TAKE_def)
    ultimately show ?thesis
      using rec [OF ad] i(3) by (intro exI [of _ "BH_GIVE ?w"] exI [of _ False]) (simp add: twin_ble_hash_record_def ad bh_abs_def)
  qed
qed

lemma lp_inv_empty: "0 < n \<Longrightarrow> (\<And>k. h k < n) \<Longrightarrow> lp_inv h (replicate n None :: ('k, 'v) slots)"
  by (auto simp: lp_inv_def one_place_def reachable_def)

lemma twin_ble_hash_create_ok:
  assumes "n \<le> 2 ^ 28"
  obtains t where "twin_ble_hash_create True True True n = Some t" "bh_inv t" "bh_abs t = Map.empty" "bh_len t = 0" "n \<le> bh_mask t"
proof -
  obtain h where h: "twin_hash_create True True True True n = Some h" "th_inv h" "n \<le> th_mask h" using twin_hash_create_ok [OF assms] by blast
  let ?c = "twin_cap 8 (n * 10 div 7 + 1)"
  have hm: "th_mask h = ?c - 1" and hk: "length (th_keys h) = ?c" using h(1) by (auto simp: twin_hash_create_def Let_def)
  have sh: "\<exists>e\<le>30. th_mask h + 1 = 2 ^ e" "th_mask h + 1 = ?c" using h(2) hk by (auto simp: th_inv_def th_shape_def)
  let ?t = "\<lparr>bh_recs = replicate ?c empty_record, bh_used = replicate ?c 0, bh_mask = ?c - 1, bh_len = 0, bh_lock = 0\<rparr>"
  have c: "bh_mask ?t + 1 = ?c" using sh(2) by simp
  have sl: "bh_slots ?t = replicate ?c None"
  proof (rule nth_equalityI)
    fix i
    assume "i < length (bh_slots ?t)"
    then have i: "i < bh_mask ?t + 1" by (simp only: length_bh_slots)
    then have "i < ?c" unfolding c .
    then show "bh_slots ?t ! i = replicate ?c None ! i" unfolding bh_slots_nth [OF i] by simp
  qed (unfold length_bh_slots c, simp)
  obtain e where e: "e \<le> 30" "bh_mask ?t + 1 = 2 ^ e" using sh c by auto
  have home: "bh_home (bh_mask ?t) k < ?c" for k
  proof -
    have "(2 :: nat) ^ e \<le> 2 ^ 30" using e(1) by (rule power_increasing) simp
    then have "bh_mask ?t < 2 ^ 32" using e(2) by simp
    then have "unat (of_nat (bh_mask ?t) :: u32) = bh_mask ?t" by (simp add: unat_of_nat take_bit_nat_eq_self)
    then have "bh_home (bh_mask ?t) k = unat (drop_bit 8 (mac_hash k)) AND bh_mask ?t" by (simp add: bh_home_def unsigned_and_eq)
    then show ?thesis using bh_mask_mod [OF e(2)] c by (metis mod_less_divisor zero_less_Suc Suc_eq_plus1)
  qed
  have "lp_inv (bh_home (bh_mask ?t)) (replicate ?c None :: (u8 list, ble_record) slots)"
    using home c by (intro lp_inv_empty) auto
  moreover have "bh_shape ?t" using e c by (auto simp: bh_shape_def)
  ultimately have "bh_inv ?t" unfolding bh_inv_def sl by simp
  moreover have "bh_abs ?t = Map.empty" unfolding bh_abs_def sl lp_abs_def by simp
  moreover have "twin_ble_hash_create True True True n = Some ?t" by (simp add: twin_ble_hash_create_def Let_def)
  ultimately show ?thesis using that h(3) hm by simp
qed

section \<open>The baselines agree\<close>

fun sight :: "('t \<Rightarrow> ble_record option \<Rightarrow> ('t \<times> bool) option) \<Rightarrow> ble_record list \<Rightarrow> 't \<Rightarrow> 't option" where
  "sight rec [] t = Some t"
| "sight rec (r # rs) t = (case rec t (Some r) of None \<Rightarrow> None | Some (t', b) \<Rightarrow> sight rec rs t')"

definition last_seen :: "ble_record list \<Rightarrow> u8 list \<rightharpoonup> ble_record" where
  "last_seen rs = map_of (rev (map (\<lambda>r. (addr r, r)) rs))"

lemma last_seen_Cons: "(m(addr r \<mapsto> r)) ++ last_seen rs = m ++ last_seen (r # rs)"
  by (simp add: last_seen_def)

lemma bh_sight_ok:
  "bh_inv t \<Longrightarrow> length rs \<le> bh_mask t - bh_len t \<Longrightarrow>
   \<exists>t'. sight twin_ble_hash_record rs (Some t) = Some (Some t') \<and> bh_inv t' \<and> bh_abs t' = bh_abs t ++ last_seen rs"
proof (induction rs arbitrary: t)
  case (Cons r rs)
  have room: "bh_len t < bh_mask t" using Cons.prems(2) by simp
  from twin_ble_hash_record_ok [OF Cons.prems(1) room, of r]
  obtain t1 b where t1: "twin_ble_hash_record (Some t) (Some r) = Some (Some t1, b)" "bh_inv t1" "bh_mask t1 = bh_mask t" "bh_len t1 \<le> bh_len t + 1"
    "bh_abs t1 = (bh_abs t)(addr r \<mapsto> r)" by blast
  have "length rs \<le> bh_mask t1 - bh_len t1" using Cons.prems(2) t1(3,4) by auto
  from Cons.IH [OF t1(2) this, unfolded t1(5)] show ?case using t1(1) unfolding last_seen_Cons [symmetric] by (auto simp: fun_upd_def)
qed (simp add: last_seen_def)

lemma bs_sight_ok:
  "bs_inv t \<Longrightarrow> length rs \<le> bs_cap t - bs_len t \<Longrightarrow>
   \<exists>t'. sight twin_ble_scan_record rs (Some t) = Some (Some t') \<and> bs_inv t' \<and> rec_map (bs_ents t') = rec_map (bs_ents t) ++ last_seen rs"
proof (induction rs arbitrary: t)
  case (Cons r rs)
  have room: "bs_len t < bs_cap t" using Cons.prems(2) by simp
  obtain t1 b where t1: "twin_ble_scan_record (Some t) (Some r) = Some (Some t1, b)" "bs_inv t1" "bs_cap t1 = bs_cap t"
    "rec_map (bs_ents t1) = (rec_map (bs_ents t))(addr r \<mapsto> r)"
    using twin_ble_scan_record_ok [OF Cons.prems(1), of r] room by (auto split: if_splits)
  have "bs_len t1 \<le> bs_len t + 1"
    using t1(1) Cons.prems(1) by (auto simp: twin_ble_scan_record_def Let_def BS_GIVE_def BS_TAKE_def split: option.splits Option.bind_splits if_splits)
  then have "length rs \<le> bs_cap t1 - bs_len t1" using Cons.prems(2) t1(3) by auto
  from Cons.IH [OF t1(2) this, unfolded t1(4)] show ?case using t1(1) unfolding last_seen_Cons [symmetric] by (auto simp: fun_upd_def)
qed (simp add: last_seen_def)


definition sighting :: "u8 \<Rightarrow> u32 \<Rightarrow> ble_record" where
  "sighting a ms = empty_record\<lparr>mac := [a, 0, 0, 0, 0, 0], last_seen_ms := ms\<rparr>"


text \<open>\<^verbatim>\<open>twin_ble_scan_expire_stale\<close>: the records whose second is after that of the cutoff stay, in their order, the
  others leave, and the result is their number; no access leaves the array.\<close>

theorem ble_scan_expire_correct:
  assumes "bs_inv t"
  shows "\<exists>t'. twin_ble_scan_expire_stale (Some t) cutoff =
      Some (Some t', length (filter (\<lambda>r. twin_is_stale (last_seen_ms r) cutoff) (bs_ents t))) \<and>
    bs_inv t' \<and> bs_ents t' = filter (\<lambda>r. \<not> twin_is_stale (last_seen_ms r) cutoff) (bs_ents t)"
  using twin_ble_scan_expire_ok [OF assms, of cutoff] by blast

theorem ble_scan_expire_correct_witness:
  "\<exists>t'. twin_ble_scan_expire_stale (Some \<lparr>bs_recs = [sighting 1 900, sighting 2 5000], bs_len = 2, bs_cap = 2, bs_lock = 0\<rparr>) 1500 = Some (Some t', 1) \<and>
    bs_ents t' = [sighting 2 5000]"
proof -
  let ?t = "\<lparr>bs_recs = [sighting 1 900, sighting 2 5000], bs_len = 2, bs_cap = 2, bs_lock = 0\<rparr>"
  have "bs_inv ?t" by code_simp
  moreover have "bs_ents ?t = [sighting 1 900, sighting 2 5000]" by (simp add: bs_ents_def)
  moreover have "twin_is_stale (last_seen_ms (sighting 1 900)) 1500" "\<not> twin_is_stale (last_seen_ms (sighting 2 5000)) 1500" by code_simp+
  ultimately show ?thesis using ble_scan_expire_correct [of ?t 1500] by auto
qed

text \<open>\<^verbatim>\<open>twin_ble_hash_expire_stale\<close> clears the slots of the stale records and leaves the probe sequences broken: of two
  addresses with the same home slot, the second can no longer be found once the first has expired, though it is fresh
  and still counted, and its next sighting is counted as a new device.\<close>

theorem ble_hash_expire_loses_record:
  "case sight twin_ble_hash_record [sighting 1 1000, sighting 2 9000] (twin_ble_hash_create True True True 4) of
     None \<Rightarrow> False
   | Some h \<Rightarrow>
       (case twin_ble_hash_expire_stale h 5000 of
          None \<Rightarrow> False
        | Some (h', n) \<Rightarrow> n = 1 \<and> map_option bh_len h' = Some 1 \<and>
            map_option snd (twin_ble_hash_get h (Some [2, 0, 0, 0, 0, 0])) = Some (Some (sighting 2 9000)) \<and>
            map_option snd (twin_ble_hash_get h' (Some [2, 0, 0, 0, 0, 0])) = Some None \<and>
            map_option (\<lambda>(h'', b). (map_option bh_len h'', b)) (twin_ble_hash_record h' (Some (sighting 2 9500))) = Some (Some 2, True))"
  by code_simp

end
