(* ===== verification/Rocks_Key.thy ===== *)
theory Rocks_Key
  imports C_Memory "HOL-Library.List_Lexorder"
begin

text \<open>
  Keys of the RocksDB memtable, from \<^verbatim>\<open>integrations/rocksdb/include/expanse_memtable.h\<close> and
  \<^verbatim>\<open>src/expanse_memtable.cc\<close>: slices, 32-bit varints, length-prefixed keys, the order of internal
  keys, the 64-bit prefix that the index is keyed by, and lookup keys.

  A slice, and the buffer a \<^verbatim>\<open>const char *\<close> points into, is the list of its bytes from the pointer on.
  Reading past the end of a buffer is undefined in C++ and is the value \<^term>\<open>None\<close> here.
\<close>

section \<open>Slices\<close>

type_synonym slice = "u8 list"
type_synonym entry = "u8 list"

fun memcmp :: "u8 list \<Rightarrow> u8 list \<Rightarrow> nat \<Rightarrow> int" where
  "memcmp (a # as) (b # bs) (Suc n) = (if a < b then - 1 else if b < a then 1 else memcmp as bs n)"
| "memcmp _ _ _ = 0"

definition slice_compare :: "slice \<Rightarrow> slice \<Rightarrow> int" where
  "slice_compare a b =
    (let min_len = (if length a < length b then length a else length b);
         r = (if min_len > 0 then memcmp a b min_len else 0)
     in if r = 0 then (if length a < length b then - 1 else if length a > length b then 1 else r) else r)"

definition slice_starts_with :: "slice \<Rightarrow> slice \<Rightarrow> bool" where
  "slice_starts_with a x \<longleftrightarrow> length a \<ge> length x \<and> memcmp a x (length x) = 0"

definition slice_eq :: "slice \<Rightarrow> slice \<Rightarrow> bool" where
  "slice_eq x y \<longleftrightarrow> length x = length y \<and> memcmp x y (length x) = 0"

definition slice_less :: "slice \<Rightarrow> slice \<Rightarrow> bool" where
  "slice_less x y \<longleftrightarrow> slice_compare x y < 0"

definition remove_prefix :: "slice \<Rightarrow> nat \<Rightarrow> slice option" where
  "remove_prefix s n = (if n \<le> length s then Some (drop n s) else None)"

definition remove_suffix :: "slice \<Rightarrow> nat \<Rightarrow> slice option" where
  "remove_suffix s n = (if n \<le> length s then Some (take (length s - n) s) else None)"

lemma memcmp_zero: "n \<le> length a \<Longrightarrow> n \<le> length b \<Longrightarrow> memcmp a b n = 0 \<longleftrightarrow> take n a = take n b"
  by (induction a b n rule: memcmp.induct) auto

lemma slice_compare_Cons:
  "slice_compare (x # a) (y # b) = (if x < y then - 1 else if y < x then 1 else slice_compare a b)"
  by (cases "length a"; cases "length b") (auto simp: slice_compare_def Let_def)

text \<open>The comparison of slices is the lexicographic order of their bytes.\<close>

lemma slice_compare_lex: "slice_compare a b = (if a < b then - 1 else if b < a then 1 else 0)"
proof (induction a arbitrary: b)
  case Nil
  then show ?case by (cases b) (auto simp: slice_compare_def)
next
  case (Cons x a)
  show ?case
  proof (cases b)
    case Nil
    then show ?thesis by (simp add: slice_compare_def)
  next
    case b: (Cons y b')
    then show ?thesis using Cons.IH [of b'] by (auto simp: slice_compare_Cons)
  qed
qed

lemma slice_eq_iff: "slice_eq x y \<longleftrightarrow> x = y"
  using memcmp_zero [of "length x" x y] by (auto simp: slice_eq_def)

lemma slice_starts_with_take: "slice_starts_with a x \<longleftrightarrow> take (length x) a = x"
proof
  assume "slice_starts_with a x"
  then show "take (length x) a = x" using memcmp_zero [of "length x" a x] by (simp add: slice_starts_with_def)
next
  assume a: "take (length x) a = x"
  then have "length x \<le> length a" by (metis length_take min.cobounded1)
  then show "slice_starts_with a x" using memcmp_zero [of "length x" a x] a by (simp add: slice_starts_with_def)
qed

section \<open>Varints and length-prefixed keys\<close>

fun varint_loop :: "u8 list \<Rightarrow> nat \<Rightarrow> nat \<Rightarrow> u32 \<Rightarrow> (u8 list \<times> u32) option option" where
  "varint_loop p limit shift result =
    (if shift \<le> 28 \<and> 0 < limit
     then (case p of
             [] \<Rightarrow> None
           | c # p' \<Rightarrow>
               (let byte = (ucast c :: u32)
                in if byte AND 128 \<noteq> 0
                   then varint_loop p' (limit - 1) (shift + 7) (result OR push_bit shift (byte AND 127))
                   else Some (Some (p', result OR push_bit shift byte))))
     else Some None)"

declare varint_loop.simps [simp del]

definition GetVarint32Ptr :: "u8 list \<Rightarrow> nat \<Rightarrow> (u8 list \<times> u32) option option" where
  "GetVarint32Ptr p limit =
    (if 0 < limit
     then (case p of
             [] \<Rightarrow> None
           | c # p' \<Rightarrow> if (ucast c :: u32) AND 128 = 0 then Some (Some (p', ucast c)) else varint_loop p limit 0 0)
     else varint_loop p limit 0 0)"

definition EncodeVarint32 :: "u32 \<Rightarrow> u8 list" where
  "EncodeVarint32 v =
    (if v < 2 ^ 7 then [ucast v]
     else if v < 2 ^ 14 then [ucast (v OR 128), ucast (drop_bit 7 v)]
     else if v < 2 ^ 21 then [ucast (v OR 128), ucast (drop_bit 7 v OR 128), ucast (drop_bit 14 v)]
     else if v < 2 ^ 28
       then [ucast (v OR 128), ucast (drop_bit 7 v OR 128), ucast (drop_bit 14 v OR 128), ucast (drop_bit 21 v)]
     else [ucast (v OR 128), ucast (drop_bit 7 v OR 128), ucast (drop_bit 14 v OR 128),
           ucast (drop_bit 21 v OR 128), ucast (drop_bit 28 v)])"

definition GetLengthPrefixedSlice :: "u8 list option \<Rightarrow> slice option" where
  "GetLengthPrefixedSlice data =
    (case data of
       None \<Rightarrow> Some []
     | Some d \<Rightarrow>
         (case GetVarint32Ptr d 5 of
            None \<Rightarrow> None
          | Some None \<Rightarrow> Some []
          | Some (Some (p, len)) \<Rightarrow> if unat len \<le> length p then Some (take (unat len) p) else None))"

lemma bit_128: "bit (128 :: int) n \<longleftrightarrow> n = 7"
  using bit_push_bit_iff [of 7 "1 :: int" n] by (auto simp: bit_1_iff)

lemma cont_byte:
  "(ucast (ucast (x OR 128 :: u32) :: u8) :: u32) AND 128 \<noteq> 0"
  "(ucast (ucast (x OR 128 :: u32) :: u8) :: u32) AND 127 = take_bit 7 x"
proof -
  have "bit ((ucast (ucast (x OR 128 :: u32) :: u8) :: u32) AND 128) 7" by (simp add: bit_simps bit_128)
  then show "(ucast (ucast (x OR 128 :: u32) :: u8) :: u32) AND 128 \<noteq> 0" by (metis bit_0_eq bot_apply bot_bool_def)
  have m: "(127 :: u32) = mask 7" by (simp add: mask_eq_exp_minus_1)
  show "(ucast (ucast (x OR 128 :: u32) :: u8) :: u32) AND 127 = take_bit 7 x"
    unfolding m by (rule bit_word_eqI) (auto simp: bit_simps bit_128)
qed

lemma unat_exp: "n < 32 \<Longrightarrow> unat (2 ^ n :: u32) = 2 ^ n"
proof -
  assume "n < 32"
  then have "(2 :: nat) ^ n < 2 ^ 32" by (rule power_strict_increasing) simp
  then have "unat (of_nat (2 ^ n) :: u32) = 2 ^ n" by (subst unat_of_nat) (simp add: take_bit_nat_eq_self)
  then show ?thesis by simp
qed

lemma take_bit_small: "(x :: u32) < 2 ^ n \<Longrightarrow> n < 32 \<Longrightarrow> take_bit n x = x"
  by (simp add: word_less_nat_alt unat_exp word_unat_eq_iff unsigned_take_bit_eq take_bit_nat_eq_self)

lemma last_byte:
  assumes "(x :: u32) < 2 ^ 7"
  shows "(ucast (ucast x :: u8) :: u32) = x" "(ucast (ucast x :: u8) :: u32) AND 128 = 0"
proof -
  have x: "take_bit 7 x = x" using assms by (simp add: take_bit_small)
  have "(ucast (ucast (take_bit 7 x) :: u8) :: u32) = take_bit 7 x" by (rule bit_word_eqI) (auto simp: bit_simps)
  then show e: "(ucast (ucast x :: u8) :: u32) = x" by (simp add: x)
  have "take_bit 7 x AND 128 = 0" by (rule bit_word_eqI) (auto simp: bit_simps bit_128)
  then show "(ucast (ucast x :: u8) :: u32) AND 128 = 0" by (simp add: e x)
qed

text \<open>One round of the decoding loop on the bytes the encoder writes.\<close>

lemma varint_loop_cont:
  "shift \<le> 28 \<Longrightarrow> 0 < limit \<Longrightarrow>
   varint_loop (ucast (x OR 128) # p) limit shift r = varint_loop p (limit - 1) (shift + 7) (r OR push_bit shift (take_bit 7 x))"
  by (subst varint_loop.simps) (simp add: cont_byte)

lemma varint_loop_last:
  "shift \<le> 28 \<Longrightarrow> 0 < limit \<Longrightarrow> x < 2 ^ 7 \<Longrightarrow>
   varint_loop (ucast x # p) limit shift r = Some (Some (p, r OR push_bit shift x))"
  using last_byte [of x] by (subst varint_loop.simps) simp

lemma drop_bit_small:
  assumes "(v :: u32) < 2 ^ (m + 7)" and "m + 7 < 32"
  shows "drop_bit m v < 2 ^ 7"
proof -
  have "unat v < 2 ^ (m + 7)" using assms unat_exp [of "m + 7"] by (simp add: word_less_nat_alt)
  then have "unat v div 2 ^ m < 128" by (simp add: power_add less_mult_imp_div_less mult.commute)
  then show ?thesis
    using unsigned_less [of v, where ?'a = nat]
    by (simp add: word_less_nat_alt unsigned_drop_bit_eq drop_bit_nat_def take_bit_nat_eq_self)
qed

lemma varint_piece:
  "push_bit m (take_bit 7 (drop_bit m v)) OR push_bit (m + 7) (drop_bit (m + 7) v) = push_bit m (drop_bit m (v :: u32))"
proof (rule bit_word_eqI)
  fix n
  show "bit (push_bit m (take_bit 7 (drop_bit m v)) OR push_bit (m + 7) (drop_bit (m + 7) v)) n =
    bit (push_bit m (drop_bit m v)) n"
    by (cases "m + 7 \<le> n") (auto simp: bit_simps)
qed

lemma varint_pieces:
  fixes v :: u32
  shows "take_bit 7 v OR push_bit 7 (drop_bit 7 v) = v"
    and "take_bit 7 v OR push_bit 7 (take_bit 7 (drop_bit 7 v)) OR push_bit 14 (drop_bit 14 v) = v"
    and "take_bit 7 v OR push_bit 7 (take_bit 7 (drop_bit 7 v)) OR push_bit 14 (take_bit 7 (drop_bit 14 v)) OR
         push_bit 21 (drop_bit 21 v) = v"
    and "take_bit 7 v OR push_bit 7 (take_bit 7 (drop_bit 7 v)) OR push_bit 14 (take_bit 7 (drop_bit 14 v)) OR
         push_bit 21 (take_bit 7 (drop_bit 21 v)) OR push_bit 28 (drop_bit 28 v) = v"
  using varint_piece [of 0 v] varint_piece [of 7 v] varint_piece [of 14 v] varint_piece [of 21 v]
  by (simp_all add: or.assoc)

lemma varint_round_trip: "GetVarint32Ptr (EncodeVarint32 v @ rest) 5 = Some (Some (rest, v))"
proof -
  have top: "drop_bit 28 v < 2 ^ 7"
    using unsigned_less [of v, where ?'a = nat]
    by (simp add: word_less_nat_alt unsigned_drop_bit_eq drop_bit_nat_def take_bit_nat_eq_self less_mult_imp_div_less)
  have c: "(ucast (ucast (x OR 128 :: u32) :: u8) :: u32) AND 128 \<noteq> 0" for x by (rule cont_byte)
  consider (a) "v < 2 ^ 7" | (b) "\<not> v < 2 ^ 7" "v < 2 ^ 14" | (c) "\<not> v < 2 ^ 7" "\<not> v < 2 ^ 14" "v < 2 ^ 21"
    | (d) "\<not> v < 2 ^ 7" "\<not> v < 2 ^ 14" "\<not> v < 2 ^ 21" "v < 2 ^ 28"
    | (e) "\<not> v < 2 ^ 7" "\<not> v < 2 ^ 14" "\<not> v < 2 ^ 21" "\<not> v < 2 ^ 28"
    by blast
  then show ?thesis
  proof cases
    case a
    then show ?thesis using last_byte [of v] by (simp add: EncodeVarint32_def GetVarint32Ptr_def)
  next
    case b
    then have "drop_bit 7 v < 2 ^ 7" using drop_bit_small [of v 7] by simp
    then show ?thesis using b varint_pieces(1) [of v]
      by (simp only: EncodeVarint32_def if_False if_True append.simps GetVarint32Ptr_def list.case cont_byte(1) varint_loop_cont varint_loop_last) (simp add: varint_loop_cont varint_loop_last)
  next
    case c
    then have "drop_bit 14 v < 2 ^ 7" using drop_bit_small [of v 14] by simp
    then show ?thesis using c varint_pieces(2) [of v]
      by (simp add: EncodeVarint32_def GetVarint32Ptr_def cont_byte varint_loop_cont varint_loop_last or.assoc)
  next
    case d
    then have "drop_bit 21 v < 2 ^ 7" using drop_bit_small [of v 21] by simp
    then show ?thesis using d varint_pieces(3) [of v]
      by (simp add: EncodeVarint32_def GetVarint32Ptr_def cont_byte varint_loop_cont varint_loop_last or.assoc)
  next
    case e
    then show ?thesis using top varint_pieces(4) [of v]
      by (simp add: EncodeVarint32_def GetVarint32Ptr_def cont_byte varint_loop_cont varint_loop_last or.assoc)
  qed
qed

lemma length_EncodeVarint32: "1 \<le> length (EncodeVarint32 v) \<and> length (EncodeVarint32 v) \<le> 5"
  by (simp add: EncodeVarint32_def)

lemma GetLengthPrefixedSlice_encode:
  assumes "length k < 2 ^ 32"
  shows "GetLengthPrefixedSlice (Some (EncodeVarint32 (of_nat (length k)) @ k @ rest)) = Some k"
proof -
  have "unat (of_nat (length k) :: u32) = length k" using assms by (simp add: unat_of_nat take_bit_nat_eq_self)
  then show ?thesis by (simp add: GetLengthPrefixedSlice_def varint_round_trip)
qed

section \<open>Internal keys\<close>

text \<open>
  An internal key is a user key followed by an 8-byte little-endian trailer, the sequence number above
  one byte of type. Keys ascend in the user key and descend in the trailer.
\<close>

definition trailer_of :: "u8 list \<Rightarrow> u64" where
  "trailer_of p = fold (\<lambda>i t. t OR push_bit (i * 8) (ucast (p ! i))) [0..<8] 0"

definition CompareInternalKeys :: "slice \<Rightarrow> slice \<Rightarrow> int" where
  "CompareInternalKeys a b =
    (if length a < 8 \<or> length b < 8 then slice_compare a b
     else let user_a = take (length a - 8) a;
              user_b = take (length b - 8) b;
              r = slice_compare user_a user_b
          in if r \<noteq> 0 then r
             else let trailer_a = trailer_of (drop (length a - 8) a);
                      trailer_b = trailer_of (drop (length b - 8) b);
                      seq_a = drop_bit 8 trailer_a;
                      seq_b = drop_bit 8 trailer_b
                  in if seq_a > seq_b then - 1
                     else if seq_a < seq_b then 1
                     else let type_a = (ucast (trailer_a AND 0xff) :: u8);
                              type_b = (ucast (trailer_b AND 0xff) :: u8)
                          in if type_a > type_b then - 1 else if type_a < type_b then 1 else 0)"

definition user_part :: "slice \<Rightarrow> slice" where
  "user_part ik = (if 8 \<le> length ik then take (length ik - 8) ik else ik)"

definition ExtractSlicePrefix64 :: "slice \<Rightarrow> u64" where
  "ExtractSlicePrefix64 internal_key =
    (let user_key = user_part internal_key;
         copy_len = (if length user_key < 8 then length user_key else 8)
     in fold (\<lambda>i res. res OR push_bit (56 - i * 8) (ucast (user_key ! i))) [0..<copy_len] 0)"

definition ExtractKeyPrefix64 :: "u8 list option \<Rightarrow> u64 option" where
  "ExtractKeyPrefix64 prefix_len_key = map_option ExtractSlicePrefix64 (GetLengthPrefixedSlice prefix_len_key)"

definition kTypeValue :: u64 where
  "kTypeValue = 1"

record lookup_key =
  lk_space :: "u8 list"
  lk_kstart :: nat
  lk_heap :: bool

definition LookupKey :: "slice \<Rightarrow> u64 \<Rightarrow> lookup_key" where
  "LookupKey user_key sequence =
    (let usize = length user_key;
         needed = usize + 13;
         p = EncodeVarint32 (of_nat (usize + 8));
         trailer = push_bit 8 sequence OR kTypeValue
     in \<lparr>lk_space = p @ user_key @ map (\<lambda>i. ucast (drop_bit (i * 8) trailer AND 0xff)) [0..<8],
         lk_kstart = length p, lk_heap = (\<not> needed \<le> 200)\<rparr>)"

definition lk_memtable_key :: "lookup_key \<Rightarrow> slice" where
  "lk_memtable_key k = lk_space k"

definition lk_internal_key :: "lookup_key \<Rightarrow> slice" where
  "lk_internal_key k = drop (lk_kstart k) (lk_space k)"

definition lk_user_key :: "lookup_key \<Rightarrow> slice" where
  "lk_user_key k = take (length (lk_space k) - lk_kstart k - 8) (drop (lk_kstart k) (lk_space k))"

definition key_comparator_slice :: "slice \<Rightarrow> u8 list option \<Rightarrow> int option" where
  "key_comparator_slice key1 prefix_len_key2 = map_option (CompareInternalKeys key1) (GetLengthPrefixedSlice prefix_len_key2)"

lemma bit_fold_bytes:
  "bit (fold (\<lambda>i t. t OR push_bit (i * 8) (ucast (p ! i :: u8))) [0..<m] (0 :: u64)) n \<longleftrightarrow>
   n < 64 \<and> n div 8 < m \<and> bit (p ! (n div 8)) (n mod 8)"
proof (induction m)
  case (Suc m)
  have "8 * m \<le> n \<and> n < 64 \<and> bit (p ! m) (n - 8 * m) \<longleftrightarrow> n < 64 \<and> n div 8 = m \<and> bit (p ! m) (n mod 8)"
  proof (cases "n div 8 = m")
    case True
    then have "n mod 8 = n - 8 * m" "8 * m \<le> n" by (auto simp: minus_mult_div_eq_mod [symmetric])
    then show ?thesis using True by simp
  next
    case False
    have "\<not> bit (p ! m) (n - 8 * m)" if "8 * m \<le> n"
    proof -
      have "8 \<le> n - 8 * m" using False that by linarith
      then show ?thesis using bit_imp_le_length [of "p ! m"] by fastforce
    qed
    then show ?thesis using False by auto
  qed
  then show ?case using Suc.IH by (auto simp: bit_simps mult.commute less_Suc_eq)
qed simp

lemma bit_trailer_of: "bit (trailer_of p) n \<longleftrightarrow> n < 64 \<and> bit (p ! (n div 8)) (n mod 8)"
  unfolding trailer_of_def bit_fold_bytes by auto

lemma trailer_of_inj:
  assumes "length p = 8" "length q = 8" "trailer_of p = trailer_of q"
  shows "p = q"
proof (rule nth_equalityI)
  fix i
  assume i: "i < length p"
  show "p ! i = q ! i"
  proof (rule bit_word_eqI)
    fix n :: nat
    assume n: "n < LENGTH(8)"
    have "bit (trailer_of p) (8 * i + n) = bit (trailer_of q) (8 * i + n)" by (simp add: assms(3))
    moreover have "(8 * i + n) div 8 = i" "(8 * i + n) mod 8 = n" "8 * i + n < 64" using n i assms by auto
    ultimately show "bit (p ! i) n = bit (q ! i) n" by (simp add: bit_trailer_of)
  qed
qed (simp add: assms)

lemma trailer_of_bytes: "trailer_of (map (\<lambda>i. ucast (drop_bit (i * 8) t AND 0xff)) [0..<8]) = t"
proof (rule bit_word_eqI)
  fix n :: nat
  assume n: "n < LENGTH(64)"
  have ff: "(0xff :: u64) = mask 8" by (simp add: mask_eq_exp_minus_1)
  have "n div 8 < 8" "n div 8 * 8 + n mod 8 = n" using n by auto
  moreover have "n mod 8 < 8" by simp
  then have "n mod 8 < 64" by linarith
  ultimately show "bit (trailer_of (map (\<lambda>i. ucast (drop_bit (i * 8) t AND 0xff)) [0..<8])) n = bit t n"
    using n unfolding ff by (simp add: bit_trailer_of bit_simps)
qed

text \<open>Comparing sequence number and type in turn is comparing trailers.\<close>

lemma trailer_split:
  fixes s t :: u64
  shows "s < t \<longleftrightarrow> drop_bit 8 s < drop_bit 8 t \<or> drop_bit 8 s = drop_bit 8 t \<and> (ucast (s AND 0xff) :: u8) < ucast (t AND 0xff)"
proof -
  have ff: "(0xff :: u64) = mask 8" by (simp add: mask_eq_exp_minus_1)
  have low: "unat (ucast (x AND 0xff) :: u8) = unat x mod 256" for x :: u64
    unfolding ff by (simp add: take_bit_eq_mask [symmetric] unsigned_ucast_eq unsigned_take_bit_eq take_bit_eq_mod
        unat_mod)
  have high: "unat (drop_bit 8 x) = unat x div 256" for x :: u64
    by (simp add: drop_bit_eq_div unat_div)
  have "unat s = unat s div 256 * 256 + unat s mod 256" "unat t = unat t div 256 * 256 + unat t mod 256" by simp_all
  moreover have "unat s mod 256 < 256" "unat t mod 256 < 256" by simp_all
  ultimately have "unat s < unat t \<longleftrightarrow>
      unat s div 256 < unat t div 256 \<or> unat s div 256 = unat t div 256 \<and> unat s mod 256 < unat t mod 256"
    by linarith
  then show ?thesis by (simp add: word_less_nat_alt word_unat_eq_iff low high)
qed

definition ik_trailer :: "slice \<Rightarrow> u64" where
  "ik_trailer ik = trailer_of (drop (length ik - 8) ik)"

lemma CompareInternalKeys_order:
  assumes "8 \<le> length a" "8 \<le> length b"
  shows "CompareInternalKeys a b =
    (if user_part a < user_part b then - 1 else if user_part b < user_part a then 1
     else if ik_trailer b < ik_trailer a then - 1 else if ik_trailer a < ik_trailer b then 1 else 0)"
proof -
  let ?ua = "take (length a - 8) a" and ?ub = "take (length b - 8) b"
  let ?s = "drop_bit 8 (ik_trailer a)" and ?t = "drop_bit 8 (ik_trailer b)"
  let ?x = "ucast (ik_trailer a AND 0xff) :: u8" and ?y = "ucast (ik_trailer b AND 0xff) :: u8"
  have "CompareInternalKeys a b =
    (if ?ua < ?ub then - 1 else if ?ub < ?ua then 1
     else if ?t < ?s then - 1 else if ?s < ?t then 1 else if ?y < ?x then - 1 else if ?x < ?y then 1 else 0)"
    using assms by (simp add: CompareInternalKeys_def Let_def ik_trailer_def slice_compare_lex)
  moreover have "ik_trailer b < ik_trailer a \<longleftrightarrow> ?t < ?s \<or> ?t = ?s \<and> ?y < ?x" by (rule trailer_split)
  moreover have "ik_trailer a < ik_trailer b \<longleftrightarrow> ?s < ?t \<or> ?s = ?t \<and> ?x < ?y" by (rule trailer_split)
  moreover have "user_part a = ?ua" "user_part b = ?ub" using assms by (simp_all add: user_part_def)
  moreover have "?t < ?s \<or> ?s < ?t \<or> ?s = ?t" by (rule less_linear [THEN disj_forward]) auto
  moreover have "\<not> (?t < ?s \<and> ?s < ?t)" by (meson less_asym)
  ultimately show ?thesis by presburger
qed

lemma internal_key_eq:
  assumes "8 \<le> length a" "8 \<le> length b" "user_part a = user_part b" "ik_trailer a = ik_trailer b"
  shows "a = b"
proof -
  have "drop (length a - 8) a = drop (length b - 8) b"
    using assms by (intro trailer_of_inj) (simp_all add: ik_trailer_def)
  moreover have "take (length a - 8) a = take (length b - 8) b" using assms by (simp add: user_part_def)
  ultimately show ?thesis by (metis append_take_drop_id)
qed

lemma LookupKey_parts:
  "lk_memtable_key (LookupKey u s) = EncodeVarint32 (of_nat (length u + 8)) @ lk_internal_key (LookupKey u s)"
  "user_part (lk_internal_key (LookupKey u s)) = u"
  "lk_user_key (LookupKey u s) = u"
  "length (lk_internal_key (LookupKey u s)) = length u + 8"
  "ik_trailer (lk_internal_key (LookupKey u s)) = push_bit 8 s OR 1"
proof -
  let ?tr = "map (\<lambda>i. ucast (drop_bit (i * 8) (push_bit 8 s OR kTypeValue) AND 0xff)) [0..<8] :: u8 list"
  have ik: "lk_internal_key (LookupKey u s) = u @ ?tr"
    by (simp add: lk_internal_key_def LookupKey_def Let_def)
  show "lk_memtable_key (LookupKey u s) = EncodeVarint32 (of_nat (length u + 8)) @ lk_internal_key (LookupKey u s)"
    by (simp add: lk_internal_key_def lk_memtable_key_def LookupKey_def Let_def)
  show "user_part (lk_internal_key (LookupKey u s)) = u" unfolding ik by (simp add: user_part_def)
  show "lk_user_key (LookupKey u s) = u" by (simp add: lk_user_key_def LookupKey_def Let_def)
  show "length (lk_internal_key (LookupKey u s)) = length u + 8" unfolding ik by simp
  have "drop (length u) (u @ ?tr) = ?tr" by simp
  then show "ik_trailer (lk_internal_key (LookupKey u s)) = push_bit 8 s OR 1"
    using trailer_of_bytes [of "push_bit 8 s OR kTypeValue"] unfolding ik ik_trailer_def by (simp add: kTypeValue_def)
qed

lemma LookupKey_slice:
  assumes "length u + 8 < 2 ^ 32"
  shows "GetLengthPrefixedSlice (Some (lk_memtable_key (LookupKey u s))) = Some (lk_internal_key (LookupKey u s))"
  using GetLengthPrefixedSlice_encode [of "lk_internal_key (LookupKey u s)" "[]"] assms
  by (simp add: LookupKey_parts(1,4))

text \<open>The bytes a lookup key writes fit the buffer it reserves.\<close>

lemma LookupKey_fits: "length (lk_space (LookupKey u s)) \<le> length u + 13"
  using length_EncodeVarint32 [of "of_nat (length u + 8)"] by (simp add: LookupKey_def Let_def)

section \<open>The order of the entries\<close>

text \<open>
  The memtable orders its entries by a comparator it is given: one operator on two entries, which is
  abstract in the source, and one on an internal key and an entry. What the memtable relies on is that
  entries are totally ordered, that the two operators agree, and that the versions of one user key are
  adjacent.
\<close>

record key_comparator =
  cmp_entry :: "entry \<Rightarrow> entry \<Rightarrow> int"
  cmp_slice :: "slice \<Rightarrow> entry \<Rightarrow> int"

definition entry_ok :: "entry \<Rightarrow> bool" where
  "entry_ok e = (case GetLengthPrefixedSlice (Some e) of Some k \<Rightarrow> 8 \<le> length k | None \<Rightarrow> False)"

definition ikey :: "entry \<Rightarrow> slice" where
  "ikey e = (case GetLengthPrefixedSlice (Some e) of Some k \<Rightarrow> k | None \<Rightarrow> [])"

definition ukey :: "entry \<Rightarrow> slice" where
  "ukey e = user_part (ikey e)"

lemma entry_okD: "entry_ok e \<Longrightarrow> GetLengthPrefixedSlice (Some e) = Some (ikey e) \<and> 8 \<le> length (ikey e)"
  by (auto simp: entry_ok_def ikey_def split: option.splits)

locale key_order =
  fixes C :: key_comparator
  assumes cmp_flip: "entry_ok a \<Longrightarrow> entry_ok b \<Longrightarrow> cmp_entry C a b < 0 \<longleftrightarrow> 0 < cmp_entry C b a"
    and cmp_trans: "entry_ok a \<Longrightarrow> entry_ok b \<Longrightarrow> entry_ok c \<Longrightarrow>
      cmp_entry C a b \<le> 0 \<Longrightarrow> cmp_entry C b c \<le> 0 \<Longrightarrow> cmp_entry C a c \<le> 0"
    and cmp_slice_entry: "entry_ok a \<Longrightarrow> entry_ok b \<Longrightarrow> sgn (cmp_slice C (ikey a) b) = sgn (cmp_entry C a b)"
    and cmp_user: "entry_ok a \<Longrightarrow> entry_ok b \<Longrightarrow> entry_ok c \<Longrightarrow>
      cmp_entry C a b \<le> 0 \<Longrightarrow> cmp_entry C b c \<le> 0 \<Longrightarrow> ukey a = ukey c \<Longrightarrow> ukey b = ukey a"
begin

lemma cmp_self: "entry_ok a \<Longrightarrow> cmp_entry C a a = 0"
  using cmp_flip [of a a] by linarith

lemma cmp_not_less: "entry_ok a \<Longrightarrow> entry_ok b \<Longrightarrow> \<not> cmp_entry C a b < 0 \<longleftrightarrow> cmp_entry C b a \<le> 0"
  using cmp_flip [of a b] by linarith

lemma cmp_pos: "entry_ok a \<Longrightarrow> entry_ok b \<Longrightarrow> 0 < cmp_entry C a b \<longleftrightarrow> cmp_entry C b a < 0"
  using cmp_flip [of b a] by simp

lemma cmp_less_trans:
  assumes "entry_ok a" "entry_ok b" "entry_ok c"
  shows "cmp_entry C a b < 0 \<Longrightarrow> cmp_entry C b c \<le> 0 \<Longrightarrow> cmp_entry C a c < 0"
    and "cmp_entry C a b \<le> 0 \<Longrightarrow> cmp_entry C b c < 0 \<Longrightarrow> cmp_entry C a c < 0"
  using cmp_trans [of b c a] cmp_trans [of c a b] cmp_not_less [of a c] cmp_not_less [of a b] cmp_not_less [of b c] assms
  by linarith+

end

text \<open>The comparator of the sources for internal keys.\<close>

definition internal_comparator :: key_comparator where
  "internal_comparator =
    \<lparr>cmp_entry = (\<lambda>a b. CompareInternalKeys (ikey a) (ikey b)),
     cmp_slice = (\<lambda>k b. CompareInternalKeys k (ikey b))\<rparr>"

interpretation ik: key_order internal_comparator
proof
  fix a b c
  assume a: "entry_ok a" and b: "entry_ok b"
  note A = entry_okD [OF a, THEN conjunct2] and B = entry_okD [OF b, THEN conjunct2]
  show "cmp_entry internal_comparator a b < 0 \<longleftrightarrow> 0 < cmp_entry internal_comparator b a"
    by (auto simp: internal_comparator_def CompareInternalKeys_order A B)
  show "sgn (cmp_slice internal_comparator (ikey a) b) = sgn (cmp_entry internal_comparator a b)"
    by (simp add: internal_comparator_def)
  assume c: "entry_ok c" and le: "cmp_entry internal_comparator a b \<le> 0" "cmp_entry internal_comparator b c \<le> 0"
  note C = entry_okD [OF c, THEN conjunct2]
  have ab: "ukey a < ukey b \<or> ukey a = ukey b \<and> ik_trailer (ikey b) \<le> ik_trailer (ikey a)"
    using le(1) by (auto simp: internal_comparator_def CompareInternalKeys_order A B ukey_def not_less split: if_splits)
  have bc: "ukey b < ukey c \<or> ukey b = ukey c \<and> ik_trailer (ikey c) \<le> ik_trailer (ikey b)"
    using le(2) by (auto simp: internal_comparator_def CompareInternalKeys_order C B ukey_def not_less split: if_splits)
  have ac: "ukey a < ukey c \<or> ukey a = ukey c \<and> ik_trailer (ikey c) \<le> ik_trailer (ikey a)"
    using ab bc by (metis order.strict_trans order.trans)
  then show "cmp_entry internal_comparator a c \<le> 0"
    by (auto simp: internal_comparator_def CompareInternalKeys_order A C ukey_def)
  show "ukey a = ukey c \<Longrightarrow> ukey b = ukey a" using ab bc by (metis less_asym)
qed

end
