(* ===== verification/Rocks_Memtable.thy ===== *)
theory Rocks_Memtable
  imports Rocks_Key
begin

text \<open>
  The memtable of \<^verbatim>\<open>integrations/rocksdb/src/expanse_memtable.cc\<close>: a chain of leaf blocks of at most 64
  entries each, linked in both directions, and an index from 64-bit key prefixes to blocks.

  Blocks live on a heap and are named by their address, a position in the list of allocated blocks; a
  null pointer is \<^term>\<open>None\<close>. An entry pointer is the bytes it points to. The index is an expanse map of
  the 64-bit engine (a synchronised one under \<open>kOptimistic\<close>), which is represented by its entries in
  ascending order; a map that is a null pointer is \<^term>\<open>None\<close>.

  Every operation runs between two writes, so the blocks it reads do not change. A reader that finds an
  odd version, or a null slot below the count, tries again without end in such a state. Its result is
  then \<^term>\<open>None\<close>, as it is for an access through a null pointer or outside an array.
\<close>

section \<open>State\<close>

definition kMaxCapacity :: nat where
  "kMaxCapacity = 64"

record leaf_block =
  blk_version :: u32
  blk_count :: nat
  blk_prev :: "nat option"
  blk_next :: "nat option"
  prev_leaf :: "nat option"
  next_leaf :: "nat option"
  blk_entries :: "entry option list"

definition LeafBlock :: leaf_block where
  "LeafBlock = \<lparr>blk_version = 0, blk_count = 0, blk_prev = None, blk_next = None, prev_leaf = None, next_leaf = None,
    blk_entries = replicate kMaxCapacity None\<rparr>"

definition min_key :: "leaf_block \<Rightarrow> entry option option" where
  "min_key b = (if blk_count b > 0 then rd (blk_entries b) 0 else Some None)"

definition max_key :: "leaf_block \<Rightarrow> entry option option" where
  "max_key b = (if blk_count b > 0 then rd (blk_entries b) (blk_count b - 1) else Some None)"

datatype SeekLockScope = kFullLocate | kTrieCall | kOptimistic

type_synonym prefix_map = "(u64 \<times> nat option) list"

record optimistic_index =
  oi_map :: prefix_map
  oi_published :: "nat option"

record memtable_rep =
  leaf_capacity :: nat
  seek_lock_scope :: SeekLockScope
  blocks :: "leaf_block list"
  rep_head :: "nat option"
  rep_tail :: "nat option"
  total_keys :: u64
  total_allocated_bytes :: u64
  trie_index :: "prefix_map option"
  rep_opt :: "optimistic_index option"

definition map_prev_at_or_before :: "prefix_map option \<Rightarrow> u64 \<Rightarrow> (u64 \<times> nat option) option" where
  "map_prev_at_or_before m k = (case m of None \<Rightarrow> None | Some xs \<Rightarrow> al_last (filter (\<lambda>p. fst p \<le> k) xs))"

definition non_null :: "(entry \<Rightarrow> bool) \<Rightarrow> entry option \<Rightarrow> bool" where
  "non_null P x = (case x of None \<Rightarrow> False | Some e \<Rightarrow> P e)"

section \<open>Construction and location\<close>

definition sizeof_LeafBlock :: u64 where
  "sizeof_LeafBlock = 576"

definition ExpanseMemTableRep :: "nat \<Rightarrow> SeekLockScope \<Rightarrow> memtable_rep" where
  "ExpanseMemTableRep capacity scope =
    \<lparr>leaf_capacity = (if capacity > 0 then min capacity kMaxCapacity else kMaxCapacity),
     seek_lock_scope = scope,
     blocks = [LeafBlock],
     rep_head = Some 0,
     rep_tail = Some 0,
     total_keys = 0,
     total_allocated_bytes = sizeof_LeafBlock,
     trie_index = (if scope = kOptimistic then None else Some []),
     rep_opt = (if scope = kOptimistic then Some \<lparr>oi_map = [], oi_published = None\<rparr> else None)\<rparr>"

partial_function (option) step_back :: "leaf_block list \<Rightarrow> (entry \<Rightarrow> bool) \<Rightarrow> nat \<Rightarrow> nat option" where
  "step_back H is_after candidate =
    do { b \<leftarrow> rd H candidate;
         case prev_leaf b of
           None \<Rightarrow> Some candidate
         | Some p \<Rightarrow>
             do { m \<leftarrow> min_key b;
                  case m of
                    None \<Rightarrow> Some candidate
                  | Some e \<Rightarrow> if is_after e then step_back H is_after p else Some candidate } }"

partial_function (option) step_forward_insert :: "leaf_block list \<Rightarrow> (entry \<Rightarrow> bool) \<Rightarrow> nat \<Rightarrow> nat option" where
  "step_forward_insert H at_or_before candidate =
    do { b \<leftarrow> rd H candidate;
         case next_leaf b of
           None \<Rightarrow> Some candidate
         | Some nxt \<Rightarrow>
             do { nb \<leftarrow> rd H nxt;
                  m \<leftarrow> min_key nb;
                  if blk_count nb > 0 \<and> non_null at_or_before m
                  then step_forward_insert H at_or_before nxt else Some candidate } }"

definition OptimisticInsertCandidate :: "optimistic_index \<Rightarrow> entry \<Rightarrow> nat option option" where
  "OptimisticInsertCandidate oi e =
    do { prefix \<leftarrow> ExtractKeyPrefix64 (Some e);
         case map_prev_at_or_before (Some (oi_map oi)) prefix of
           Some (_, Some v) \<Rightarrow> Some (Some v)
         | _ \<Rightarrow> Some None }"

definition FindLeafBlockForInsert :: "key_comparator \<Rightarrow> memtable_rep \<Rightarrow> entry \<Rightarrow> nat option option" where
  "FindLeafBlockForInsert C r e =
    (if rep_head r = None \<or> rep_head r = rep_tail r then Some (rep_head r)
     else do { prefix \<leftarrow> ExtractKeyPrefix64 (Some e);
               candidate \<leftarrow>
                 (case map_prev_at_or_before (trie_index r) prefix of
                    Some (_, v) \<Rightarrow> (case v of Some b \<Rightarrow> Some (Some b) | None \<Rightarrow> Some (rep_head r))
                  | None \<Rightarrow>
                      (case rep_opt r of
                         Some oi \<Rightarrow>
                           do { mapped \<leftarrow> OptimisticInsertCandidate oi e;
                                case mapped of Some b \<Rightarrow> Some (Some b) | None \<Rightarrow> Some (rep_head r) }
                       | None \<Rightarrow> Some (rep_head r)));
               c \<leftarrow> candidate;
               c1 \<leftarrow> step_back (blocks r) (\<lambda>m. cmp_entry C m e > 0) c;
               c2 \<leftarrow> step_forward_insert (blocks r) (\<lambda>m. cmp_entry C m e \<le> 0) c1;
               Some (Some c2) })"

definition SeekPrefix :: "slice \<Rightarrow> entry option \<Rightarrow> u64 option" where
  "SeekPrefix internal_key memtable_key =
    (case memtable_key of
       Some k \<Rightarrow> ExtractKeyPrefix64 (Some k)
     | None \<Rightarrow> Some (ExtractSlicePrefix64 internal_key))"

partial_function (option) settle_forward :: "leaf_block list \<Rightarrow> (entry \<Rightarrow> bool) \<Rightarrow> nat \<Rightarrow> nat option" where
  "settle_forward H is_before candidate =
    do { b \<leftarrow> rd H candidate;
         case next_leaf b of
           None \<Rightarrow> Some candidate
         | Some nxt \<Rightarrow>
             do { nb \<leftarrow> rd H nxt;
                  if blk_count nb = 0 then settle_forward H is_before nxt
                  else do { m \<leftarrow> min_key nb;
                            case m of
                              None \<Rightarrow> Some candidate
                            | Some e \<Rightarrow> if is_before e then settle_forward H is_before nxt else Some candidate } } }"

definition seek_after :: "key_comparator \<Rightarrow> slice \<Rightarrow> entry option \<Rightarrow> entry \<Rightarrow> bool" where
  "seek_after C internal_key memtable_key m =
    (case memtable_key of Some k \<Rightarrow> cmp_entry C m k > 0 | None \<Rightarrow> cmp_slice C internal_key m < 0)"

definition seek_before :: "key_comparator \<Rightarrow> slice \<Rightarrow> entry option \<Rightarrow> entry \<Rightarrow> bool" where
  "seek_before C internal_key memtable_key m =
    (case memtable_key of Some k \<Rightarrow> cmp_entry C m k \<le> 0 | None \<Rightarrow> cmp_slice C internal_key m > 0)"

definition SettleSeekCandidate ::
  "key_comparator \<Rightarrow> memtable_rep \<Rightarrow> nat option \<Rightarrow> slice \<Rightarrow> entry option \<Rightarrow> nat option option" where
  "SettleSeekCandidate C r candidate internal_key memtable_key =
    do { c \<leftarrow> candidate;
         c1 \<leftarrow> step_back (blocks r) (seek_after C internal_key memtable_key) c;
         c2 \<leftarrow> settle_forward (blocks r) (seek_before C internal_key memtable_key) c1;
         Some (Some c2) }"

definition FindLeafBlockForSeekOptimistic ::
  "key_comparator \<Rightarrow> memtable_rep \<Rightarrow> slice \<Rightarrow> entry option \<Rightarrow> nat option option" where
  "FindLeafBlockForSeekOptimistic C r internal_key memtable_key =
    (if rep_head r = None \<or> rep_head r = rep_tail r then Some (rep_head r)
     else do { prefix \<leftarrow> SeekPrefix internal_key memtable_key;
               oi \<leftarrow> rep_opt r;
               let candidate = (case map_prev_at_or_before (Some (oi_map oi)) prefix of
                                  Some (_, Some v) \<Rightarrow> Some v
                                | _ \<Rightarrow> rep_head r)
               in SettleSeekCandidate C r candidate internal_key memtable_key })"

definition FindLeafBlockForSeek ::
  "key_comparator \<Rightarrow> memtable_rep \<Rightarrow> slice \<Rightarrow> entry option \<Rightarrow> nat option option" where
  "FindLeafBlockForSeek C r internal_key memtable_key =
    (case seek_lock_scope r of
       kFullLocate \<Rightarrow>
         (if rep_head r = None \<or> rep_head r = rep_tail r then Some (rep_head r)
          else do { prefix \<leftarrow> SeekPrefix internal_key memtable_key;
                    let candidate = (case map_prev_at_or_before (trie_index r) prefix of
                                       Some (_, Some v) \<Rightarrow> Some v
                                     | _ \<Rightarrow> rep_head r)
                    in SettleSeekCandidate C r candidate internal_key memtable_key })
     | kOptimistic \<Rightarrow> FindLeafBlockForSeekOptimistic C r internal_key memtable_key
     | kTrieCall \<Rightarrow>
         do { prefix \<leftarrow> SeekPrefix internal_key memtable_key;
              if rep_head r = None \<or> rep_head r = rep_tail r then Some (rep_head r)
              else let candidate = (case map_prev_at_or_before (trie_index r) prefix of
                                      Some (_, Some v) \<Rightarrow> Some v
                                    | _ \<Rightarrow> rep_head r)
                   in SettleSeekCandidate C r candidate internal_key memtable_key })"

section \<open>Insertion\<close>

definition publish :: "memtable_rep \<Rightarrow> u64 \<Rightarrow> nat \<Rightarrow> memtable_rep" where
  "publish r pfx b =
    (case rep_opt r of
       None \<Rightarrow> r\<lparr>trie_index := map_option (al_ins pfx (Some b)) (trie_index r)\<rparr>
     | Some oi \<Rightarrow> r\<lparr>rep_opt := Some (oi\<lparr>oi_published := Some b, oi_map := al_ins pfx (Some b) (oi_map oi)\<rparr>)\<rparr>)"

definition upd_block :: "(leaf_block \<Rightarrow> leaf_block) \<Rightarrow> nat \<Rightarrow> leaf_block list \<Rightarrow> leaf_block list option" where
  "upd_block f i H = do { b \<leftarrow> rd H i; wr H i (f b) }"

definition SplitLeafBlock :: "memtable_rep \<Rightarrow> nat \<Rightarrow> memtable_rep option" where
  "SplitLeafBlock r block =
    do { b \<leftarrow> rd (blocks r) block;
         let new_block = length (blocks r);
             mid = blk_count b div 2;
             move_count = blk_count b - mid;
             old_next = next_leaf b
         in do {
           moved \<leftarrow> for_loop [0..<move_count] (\<lambda>i es. do { x \<leftarrow> rd (blk_entries b) (mid + i); wr es i x })
                     (replicate kMaxCapacity None);
           kept \<leftarrow> for_loop [0..<move_count] (\<lambda>i es. wr es (mid + i) None) (blk_entries b);
           let nb = LeafBlock\<lparr>blk_entries := moved, blk_count := move_count, blk_next := old_next,
                              next_leaf := old_next, blk_prev := Some block, prev_leaf := Some block\<rparr>
           in do {
             H1 \<leftarrow> upd_block (\<lambda>x. x\<lparr>blk_version := blk_version x + 1, blk_count := mid, blk_entries := kept\<rparr>) block
                     (blocks r @ [nb]);
             H2 \<leftarrow> (case old_next of
                      Some n \<Rightarrow> upd_block (\<lambda>x. x\<lparr>blk_prev := Some new_block, prev_leaf := Some new_block\<rparr>) n H1
                    | None \<Rightarrow> Some H1);
             H3 \<leftarrow> upd_block (\<lambda>x. x\<lparr>blk_next := Some new_block, next_leaf := Some new_block\<rparr>) block H2;
             let r1 = r\<lparr>blocks := H3, total_allocated_bytes := total_allocated_bytes r + sizeof_LeafBlock,
                        rep_tail := (case old_next of Some n \<Rightarrow> rep_tail r | None \<Rightarrow> Some new_block)\<rparr>
             in do {
               r2 \<leftarrow> (if move_count > 0
                      then do { first_entry \<leftarrow> rd moved 0;
                                pfx \<leftarrow> ExtractKeyPrefix64 first_entry;
                                Some (publish r1 pfx new_block) }
                      else Some r1);
               H4 \<leftarrow> upd_block (\<lambda>x. x\<lparr>blk_version := blk_version x + 1\<rparr>) block (blocks r2);
               Some (r2\<lparr>blocks := H4\<rparr>) } } } }"

text \<open>
  The binary searches over a block differ in the test that moves the left end up. A null slot under the
  midpoint makes a reader try again, and is dereferenced by the writer.
\<close>

function block_search :: "(entry \<Rightarrow> bool) \<Rightarrow> entry option list \<Rightarrow> nat \<Rightarrow> nat \<Rightarrow> nat option" where
  "block_search go_right es left right =
    (if left < right
     then (case rd es (left + (right - left) div 2) of
             Some (Some e) \<Rightarrow>
               if go_right e then block_search go_right es (left + (right - left) div 2 + 1) right
               else block_search go_right es left (left + (right - left) div 2)
           | _ \<Rightarrow> None)
     else Some left)"
  by pat_completeness auto
termination by (relation "measure (\<lambda>(_, _, l, r). r - l)") auto

declare block_search.simps [simp del]

definition Insert :: "key_comparator \<Rightarrow> memtable_rep \<Rightarrow> entry \<Rightarrow> memtable_rep option" where
  "Insert C r e =
    do { found \<leftarrow> FindLeafBlockForInsert C r e;
         block \<leftarrow> (case found of Some b \<Rightarrow> Some b | None \<Rightarrow> rep_head r);
         b \<leftarrow> rd (blocks r) block;
         left \<leftarrow> block_search (\<lambda>m. cmp_entry C e m > 0) (blk_entries b) 0 (blk_count b);
         shifted \<leftarrow> for_loop (rev [left + 1..<blk_count b + 1]) (\<lambda>i es. do { x \<leftarrow> rd es (i - 1); wr es i x })
                     (blk_entries b);
         stored \<leftarrow> wr shifted left (Some e);
         H \<leftarrow> wr (blocks r) block
               (b\<lparr>blk_version := blk_version b + 1 + 1, blk_entries := stored, blk_count := blk_count b + 1\<rparr>);
         let r1 = r\<lparr>blocks := H, total_keys := total_keys r + 1\<rparr>
         in do {
           r2 \<leftarrow> (if left = 0 then do { pfx \<leftarrow> ExtractKeyPrefix64 (Some e); Some (publish r1 pfx block) } else Some r1);
           b2 \<leftarrow> rd (blocks r2) block;
           if blk_count b2 \<ge> leaf_capacity r2 then SplitLeafBlock r2 block else Some r2 } }"

definition InsertConcurrently :: "key_comparator \<Rightarrow> memtable_rep \<Rightarrow> entry \<Rightarrow> memtable_rep option" where
  "InsertConcurrently C r e = Insert C r e"

section \<open>Lookups\<close>

text \<open>A read of a block under its version: an odd version never changes here, so the reader spins.\<close>

definition bracket :: "leaf_block \<Rightarrow> 'a option \<Rightarrow> 'a option" where
  "bracket b body = (if odd (unat (blk_version b)) then None else body)"

function match_search :: "(entry \<Rightarrow> int) \<Rightarrow> entry option list \<Rightarrow> nat \<Rightarrow> nat \<Rightarrow> bool option" where
  "match_search cmp es left right =
    (if left < right
     then (case rd es (left + (right - left) div 2) of
             Some (Some e) \<Rightarrow>
               if cmp e = 0 then Some True
               else if cmp e > 0 then match_search cmp es (left + (right - left) div 2 + 1) right
               else match_search cmp es left (left + (right - left) div 2)
           | _ \<Rightarrow> None)
     else Some False)"
  by pat_completeness auto
termination by (relation "measure (\<lambda>(_, _, l, r). r - l)") auto

declare match_search.simps [simp del]

partial_function (option) contains_from :: "key_comparator \<Rightarrow> leaf_block list \<Rightarrow> entry \<Rightarrow> nat option \<Rightarrow> bool option" where
  "contains_from C H key block =
    (if block = None then Some False
     else do { i \<leftarrow> block;
              b \<leftarrow> rd H i;
              matched \<leftarrow> bracket b (match_search (cmp_entry C key) (blk_entries b) 0 (blk_count b));
              if matched then Some True
              else do { mx \<leftarrow> max_key b;
                        if non_null (\<lambda>m. cmp_entry C key m < 0) mx then Some False
                        else contains_from C H key (next_leaf b) } })"

definition Contains :: "key_comparator \<Rightarrow> memtable_rep \<Rightarrow> entry \<Rightarrow> bool option" where
  "Contains C r key = do { block \<leftarrow> FindLeafBlockForSeek C r [] (Some key); contains_from C (blocks r) key block }"

text \<open>The run of entries of one user key from a position of a block, and whether another entry ends it.\<close>

fun match_run :: "entry option list \<Rightarrow> slice \<Rightarrow> nat list \<Rightarrow> (entry list \<times> bool) option" where
  "match_run es user_key [] = Some ([], False)"
| "match_run es user_key (i # js) =
    (case rd es i of
       Some (Some e) \<Rightarrow>
         (case GetLengthPrefixedSlice (Some e) of
            None \<Rightarrow> None
          | Some entry_ikey \<Rightarrow>
              if length entry_ikey < 8 then Some ([], True)
              else if \<not> slice_eq (take (length entry_ikey - 8) entry_ikey) user_key then Some ([], True)
              else map_option (\<lambda>(ms, oob). (e # ms, oob)) (match_run es user_key js))
     | _ \<Rightarrow> None)"

definition block_matches :: "(entry \<Rightarrow> bool) \<Rightarrow> leaf_block \<Rightarrow> slice \<Rightarrow> (entry list \<times> bool) option" where
  "block_matches go_right b user_key =
    bracket b (do { left \<leftarrow> block_search go_right (blk_entries b) 0 (blk_count b);
                    (ms, oob) \<leftarrow> match_run (blk_entries b) user_key [left..<blk_count b];
                    if length ms \<le> kMaxCapacity then Some (ms, oob) else None })"

fun deliver :: "(entry \<Rightarrow> 's \<Rightarrow> bool \<times> 's) \<Rightarrow> entry list \<Rightarrow> 's \<Rightarrow> bool \<times> 's" where
  "deliver callback [] s = (True, s)"
| "deliver callback (e # es) s = (let (go, s') = callback e s in if go then deliver callback es s' else (False, s'))"

partial_function (option) GetAfterDelivered ::
  "key_comparator \<Rightarrow> leaf_block list \<Rightarrow> nat option \<Rightarrow> entry \<Rightarrow> slice \<Rightarrow> (entry \<Rightarrow> 's \<Rightarrow> bool \<times> 's) \<Rightarrow> 's \<Rightarrow> 's option" where
  "GetAfterDelivered C H block last_delivered user_key callback s =
    (if block = None then Some s
     else do { i \<leftarrow> block;
              b \<leftarrow> rd H i;
              found \<leftarrow> block_matches (\<lambda>m. \<not> cmp_entry C m last_delivered > 0) b user_key;
              let ms = fst found; out_of_bounds = snd found; called = deliver callback ms s
              in if \<not> fst called \<or> out_of_bounds then Some (snd called)
                 else GetAfterDelivered C H (next_leaf b) (if ms = [] then last_delivered else last ms)
                        user_key callback (snd called) })"

partial_function (option) get_from ::
  "key_comparator \<Rightarrow> leaf_block list \<Rightarrow> nat option \<Rightarrow> entry \<Rightarrow> slice \<Rightarrow> (entry \<Rightarrow> 's \<Rightarrow> bool \<times> 's) \<Rightarrow> 's \<Rightarrow> 's option" where
  "get_from C H block memtable_key user_key callback s =
    (if block = None then Some s
     else do { i \<leftarrow> block;
              b \<leftarrow> rd H i;
              found \<leftarrow> block_matches (\<lambda>m. \<not> cmp_entry C m memtable_key \<ge> 0) b user_key;
              let ms = fst found; out_of_bounds = snd found; called = deliver callback ms s
              in if \<not> fst called \<or> out_of_bounds then Some (snd called)
                 else if ms \<noteq> [] then GetAfterDelivered C H (next_leaf b) (last ms) user_key callback (snd called)
                 else get_from C H (next_leaf b) memtable_key user_key callback (snd called) })"

definition Get :: "key_comparator \<Rightarrow> memtable_rep \<Rightarrow> lookup_key \<Rightarrow> (entry \<Rightarrow> 's \<Rightarrow> bool \<times> 's) \<Rightarrow> 's \<Rightarrow> 's option" where
  "Get C r k callback s =
    do { block \<leftarrow> FindLeafBlockForSeek C r (lk_internal_key k) (Some (lk_memtable_key k));
         get_from C (blocks r) block (lk_memtable_key k) (lk_user_key k) callback s }"

definition SuggestCompactRange :: "memtable_rep \<Rightarrow> (slice option \<times> slice option) option" where
  "SuggestCompactRange r =
    do { b \<leftarrow> (case rep_head r of
                 None \<Rightarrow> Some None
               | Some h \<Rightarrow> do { hb \<leftarrow> rd (blocks r) h;
                                if blk_count hb > 0
                                then do { e \<leftarrow> rd (blk_entries hb) 0; k \<leftarrow> GetLengthPrefixedSlice e; Some (Some k) }
                                else Some None });
         e \<leftarrow> (case rep_tail r of
                 None \<Rightarrow> Some None
               | Some t \<Rightarrow> do { tb \<leftarrow> rd (blocks r) t;
                                if blk_count tb > 0
                                then do { e \<leftarrow> rd (blk_entries tb) (blk_count tb - 1);
                                          k \<leftarrow> GetLengthPrefixedSlice e; Some (Some k) }
                                else Some None });
         Some (b, e) }"

definition ApproximateMemoryUsage :: "(prefix_map \<Rightarrow> u64) \<Rightarrow> u64 \<Rightarrow> u64 \<Rightarrow> memtable_rep \<Rightarrow> u64" where
  "ApproximateMemoryUsage map_mem_used sizeof_rep arena_bytes r =
    (let trie_bytes = (case trie_index r of
                         Some t \<Rightarrow> map_mem_used t
                       | None \<Rightarrow> (case rep_opt r of Some oi \<Rightarrow> map_mem_used (oi_map oi) | None \<Rightarrow> 0))
     in sizeof_rep + trie_bytes + total_allocated_bytes r + arena_bytes)"

partial_function (option) destroy_from :: "leaf_block list \<Rightarrow> nat option \<Rightarrow> nat list \<Rightarrow> nat list option" where
  "destroy_from H cur freed =
    (if cur = None then Some freed
     else do { i \<leftarrow> cur;
               if i \<in> set freed then None
               else do { b \<leftarrow> rd H i; destroy_from H (next_leaf b) (freed @ [i]) } })"

definition destroy_blocks :: "memtable_rep \<Rightarrow> nat list option" where
  "destroy_blocks r = destroy_from (blocks r) (rep_head r) []"

end
