(* ===== verification/Rocks_Memtable_Correct.thy ===== *)
theory Rocks_Memtable_Correct
  imports Rocks_Memtable
begin

text \<open>
  Correctness of the RocksDB memtable. The abstract value is the list of all entries along the chain of
  blocks, strictly ascending in the comparator. The index only proposes a block to start from: the
  results depend on the chain alone.
\<close>

section \<open>Searches in a block\<close>

definition holds :: "entry option list \<Rightarrow> entry list \<Rightarrow> bool" where
  "holds es L \<longleftrightarrow> length L \<le> length es \<and> (\<forall>i<length L. es ! i = Some (L ! i))"

lemma takeWhile_mono_nth:
  assumes "sorted_wrt (\<lambda>a b. P b \<longrightarrow> P a) L" and "i < length L"
  shows "P (L ! i) \<longleftrightarrow> i < length (takeWhile P L)"
proof
  assume p: "P (L ! i)"
  show "i < length (takeWhile P L)"
  proof (rule ccontr)
    assume n: "\<not> i < length (takeWhile P L)"
    then have "length (takeWhile P L) < length L" using assms(2) by simp
    then have "\<not> P (L ! length (takeWhile P L))" by (rule nth_length_takeWhile)
    moreover have "length (takeWhile P L) < i \<or> length (takeWhile P L) = i" using n by linarith
    ultimately show False using p assms by (auto simp: sorted_wrt_iff_nth_less)
  qed
next
  assume "i < length (takeWhile P L)"
  then show "P (L ! i)" by (metis nth_mem set_takeWhileD takeWhile_nth)
qed

lemma block_search_window:
  assumes "holds es L" "sorted_wrt (\<lambda>a b. P b \<longrightarrow> P a) L"
    and "l \<le> length (takeWhile P L)" "length (takeWhile P L) \<le> r" "r \<le> length L"
  shows "block_search P es l r = Some (length (takeWhile P L))"
  using assms(3-5)
proof (induction "r - l" arbitrary: l r rule: less_induct)
  case less
  let ?m = "l + (r - l) div 2"
  show ?case
  proof (cases "l < r")
    case True
    then have m: "l \<le> ?m" "?m < r" by auto
    have x: "rd es ?m = Some (Some (L ! ?m))" using assms(1) m less.prems(3) by (auto simp: holds_def rd_def)
    have p: "P (L ! ?m) \<longleftrightarrow> ?m < length (takeWhile P L)"
      using takeWhile_mono_nth [OF assms(2)] m less.prems(3) by simp
    show ?thesis
      using True less.hyps [of r "?m + 1"] less.hyps [of ?m l] less.prems p m x
      by (subst block_search.simps) auto
  next
    case False
    then show ?thesis using less.prems by (simp add: block_search.simps)
  qed
qed

lemma block_search_ok:
  assumes "holds es L" "sorted_wrt (\<lambda>a b. P b \<longrightarrow> P a) L"
  shows "block_search P es 0 (length L) = Some (length (takeWhile P L))"
  using assms by (intro block_search_window) (auto simp: length_takeWhile_le)

lemma match_search_window:
  assumes "holds es L"
    and "sorted_wrt (\<lambda>a b. (0 < cmp b \<longrightarrow> 0 < cmp a) \<and> (cmp a < 0 \<longrightarrow> cmp b < 0)) L" and "r \<le> length L"
  shows "match_search cmp es l r = Some (\<exists>i. l \<le> i \<and> i < r \<and> cmp (L ! i) = 0)"
  using assms(3)
proof (induction "r - l" arbitrary: l r rule: less_induct)
  case less
  let ?m = "l + (r - l) div 2"
  show ?case
  proof (cases "l < r")
    case True
    then have m: "l \<le> ?m" "?m < r" by auto
    have x: "rd es ?m = Some (Some (L ! ?m))" using assms(1) m less.prems by (auto simp: holds_def rd_def)
    have low: "0 < cmp (L ! i)" if "0 < cmp (L ! ?m)" "i \<le> ?m" for i
    proof (cases "i = ?m")
      case False
      then have "i < ?m" "?m < length L" using that(2) m(2) less.prems by linarith+
      then show ?thesis using assms(2) that(1) unfolding sorted_wrt_iff_nth_less by blast
    qed (use that in simp)
    have high: "cmp (L ! i) < 0" if "cmp (L ! ?m) < 0" "?m \<le> i" "i < length L" for i
    proof (cases "i = ?m")
      case False
      then have "?m < i" using that(2) by linarith
      then show ?thesis using assms(2) that(1,3) unfolding sorted_wrt_iff_nth_less by blast
    qed (use that in simp)
    consider "cmp (L ! ?m) = 0" | "0 < cmp (L ! ?m)" | "cmp (L ! ?m) < 0" by linarith
    then show ?thesis
    proof cases
      case 1
      then have "\<exists>i. l \<le> i \<and> i < r \<and> cmp (L ! i) = 0" using m by blast
      then show ?thesis using 1 True x by (subst match_search.simps) simp
    next
      case 2
      have "(\<exists>i\<ge>?m + 1. i < r \<and> cmp (L ! i) = 0) \<longleftrightarrow> (\<exists>i\<ge>l. i < r \<and> cmp (L ! i) = 0)"
      proof -
        have "?m + 1 \<le> i" if "cmp (L ! i) = 0" for i using low [OF 2, of i] that by (cases "i \<le> ?m") auto
        then show ?thesis using m(1) by (meson le_add1 order.trans)
      qed
      then show ?thesis using 2 True m x less.hyps [of r "?m + 1"] less.prems by (subst match_search.simps) simp
    next
      case 3
      have "(\<exists>i\<ge>l. i < ?m \<and> cmp (L ! i) = 0) \<longleftrightarrow> (\<exists>i\<ge>l. i < r \<and> cmp (L ! i) = 0)"
      proof -
        have "i < ?m" if "cmp (L ! i) = 0" "i < r" for i
          using high [OF 3, of i] that less.prems by (cases "?m \<le> i") auto
        then show ?thesis using m(2) by (meson order.strict_trans)
      qed
      then show ?thesis using 3 True m x less.hyps [of ?m l] less.prems by (subst match_search.simps) simp
    qed
  next
    case False
    then show ?thesis by (auto simp: match_search.simps)
  qed
qed

lemma match_search_ok:
  assumes "holds es L" "sorted_wrt (\<lambda>a b. (0 < cmp b \<longrightarrow> 0 < cmp a) \<and> (cmp a < 0 \<longrightarrow> cmp b < 0)) L"
  shows "match_search cmp es 0 (length L) = Some (\<exists>e\<in>set L. cmp e = 0)"
proof -
  have "(\<exists>i. 0 \<le> i \<and> i < length L \<and> cmp (L ! i) = 0) \<longleftrightarrow> (\<exists>e\<in>set L. cmp e = 0)"
    by (auto simp: in_set_conv_nth intro: bexI [OF _ nth_mem])
  then show ?thesis using match_search_window [OF assms order.refl, of 0] by simp
qed

section \<open>The chain of blocks\<close>

definition blk_ents :: "leaf_block \<Rightarrow> entry list" where
  "blk_ents b = map the (take (blk_count b) (blk_entries b))"

definition blk_ok :: "nat \<Rightarrow> leaf_block \<Rightarrow> bool" where
  "blk_ok cap b \<longleftrightarrow> length (blk_entries b) = kMaxCapacity \<and> blk_count b \<le> max 1 (cap - 1) \<and>
    (\<forall>i<blk_count b. blk_entries b ! i \<noteq> None) \<and> (\<forall>e\<in>set (blk_ents b). entry_ok e) \<and> even (unat (blk_version b))"

definition links :: "leaf_block list \<Rightarrow> nat list \<Rightarrow> bool" where
  "links H ch \<longleftrightarrow> (\<forall>i<length ch. ch ! i < length H \<and>
    prev_leaf (H ! (ch ! i)) = (if i = 0 then None else Some (ch ! (i - 1))) \<and>
    next_leaf (H ! (ch ! i)) = (if Suc i < length ch then Some (ch ! Suc i) else None))"

definition chain_lists :: "leaf_block list \<Rightarrow> nat list \<Rightarrow> entry list list" where
  "chain_lists H ch = map (\<lambda>i. blk_ents (H ! i)) ch"

definition index_ok :: "memtable_rep \<Rightarrow> bool" where
  "index_ok r \<longleftrightarrow>
    (if seek_lock_scope r = kOptimistic
     then trie_index r = None \<and> (\<exists>oi. rep_opt r = Some oi \<and> (\<forall>p\<in>set (oi_map oi). \<exists>b<length (blocks r). snd p = Some b))
     else rep_opt r = None \<and> (\<exists>t. trie_index r = Some t \<and> (\<forall>p\<in>set t. \<exists>b<length (blocks r). snd p = Some b)))"

definition chain_ok :: "nat \<Rightarrow> leaf_block list \<Rightarrow> nat list \<Rightarrow> bool" where
  "chain_ok cap H ch \<longleftrightarrow> ch \<noteq> [] \<and> distinct ch \<and> set ch = {..<length H} \<and> links H ch \<and> 1 \<le> cap \<and> cap \<le> kMaxCapacity \<and>
    (\<forall>b\<in>set H. blk_ok cap b) \<and> (\<forall>i\<in>set (tl ch). blk_count (H ! i) > 0)"

lemma chain_okD:
  assumes "chain_ok cap H ch" "i < length ch"
  shows "ch ! i < length H" "prev_leaf (H ! (ch ! i)) = (if i = 0 then None else Some (ch ! (i - 1)))"
    "next_leaf (H ! (ch ! i)) = (if Suc i < length ch then Some (ch ! Suc i) else None)"
    "blk_ok cap (H ! (ch ! i))" "0 < i \<Longrightarrow> 0 < blk_count (H ! (ch ! i))"
proof -
  show "ch ! i < length H" using assms by (auto simp: chain_ok_def links_def)
  then show "blk_ok cap (H ! (ch ! i))" using assms by (auto simp: chain_ok_def)
  show "prev_leaf (H ! (ch ! i)) = (if i = 0 then None else Some (ch ! (i - 1)))"
    "next_leaf (H ! (ch ! i)) = (if Suc i < length ch then Some (ch ! Suc i) else None)"
    using assms by (auto simp: chain_ok_def links_def)
  show "0 < blk_count (H ! (ch ! i))" if "0 < i"
  proof -
    have "ch ! i = tl ch ! (i - 1)" "i - 1 < length (tl ch)" using that assms(2) by (simp_all add: nth_tl)
    then have "ch ! i \<in> set (tl ch)" by (metis nth_mem)
    then show ?thesis using assms(1) by (auto simp: chain_ok_def)
  qed
qed

lemma blk_ok_facts:
  assumes "blk_ok cap b" "cap \<le> kMaxCapacity"
  shows "length (blk_ents b) = blk_count b" "blk_count b < kMaxCapacity" "holds (blk_entries b) (blk_ents b)"
    "\<And>i. i < blk_count b \<Longrightarrow> blk_entries b ! i = Some (blk_ents b ! i)"
proof -
  have c: "blk_count b < kMaxCapacity" and len: "length (blk_entries b) = kMaxCapacity"
    using assms by (auto simp: blk_ok_def kMaxCapacity_def)
  show "blk_count b < kMaxCapacity" by (rule c)
  show l: "length (blk_ents b) = blk_count b" using c len by (simp add: blk_ents_def)
  show e: "blk_entries b ! i = Some (blk_ents b ! i)" if "i < blk_count b" for i
    using that assms(1) c len by (auto simp: blk_ents_def blk_ok_def)
  show "holds (blk_entries b) (blk_ents b)" using c len e l by (simp add: holds_def)
qed

lemma min_key_ok:
  assumes "blk_ok cap b" "cap \<le> kMaxCapacity"
  shows "min_key b = Some (if blk_ents b = [] then None else Some (hd (blk_ents b)))"
    and "max_key b = Some (if blk_ents b = [] then None else Some (last (blk_ents b)))"
proof -
  note f = blk_ok_facts [OF assms]
  show "min_key b = Some (if blk_ents b = [] then None else Some (hd (blk_ents b)))"
  proof (cases "blk_ents b = []")
    case False
    then have "0 < blk_count b" using f(1) by (cases "blk_count b") auto
    then show ?thesis using f(3) f(4) [of 0] False by (auto simp: min_key_def holds_def rd_def hd_conv_nth)
  qed (use f(1) in \<open>simp add: min_key_def\<close>)
  show "max_key b = Some (if blk_ents b = [] then None else Some (last (blk_ents b)))"
  proof (cases "blk_ents b = []")
    case False
    then have c: "0 < blk_count b" using f(1) by (cases "blk_count b") auto
    moreover have "blk_count b \<le> length (blk_entries b)" using f(1,3) by (simp add: holds_def)
    ultimately have "blk_count b - 1 < length (blk_entries b)" by linarith
    then show ?thesis using f(1) f(4) [of "blk_count b - 1"] c False by (simp add: max_key_def rd_def last_conv_nth)
  qed (use f(1) in \<open>simp add: max_key_def\<close>)
qed

lemma chain_block:
  assumes "chain_ok cap H ch" "i < length ch"
  shows "rd H (ch ! i) = Some (H ! (ch ! i))" "blk_ents (H ! (ch ! i)) = chain_lists H ch ! i"
    "0 < i \<Longrightarrow> chain_lists H ch ! i \<noteq> []"
    "min_key (H ! (ch ! i)) = Some (if chain_lists H ch ! i = [] then None else Some (hd (chain_lists H ch ! i)))"
    "max_key (H ! (ch ! i)) = Some (if chain_lists H ch ! i = [] then None else Some (last (chain_lists H ch ! i)))"
    "length (chain_lists H ch ! i) = blk_count (H ! (ch ! i))"
    "holds (blk_entries (H ! (ch ! i))) (chain_lists H ch ! i)"
    "even (unat (blk_version (H ! (ch ! i))))"
proof -
  note d = chain_okD [OF assms]
  have cap: "cap \<le> kMaxCapacity" using assms by (simp add: chain_ok_def)
  note f = blk_ok_facts [OF d(4) cap]
  show "rd H (ch ! i) = Some (H ! (ch ! i))" using d(1) by simp
  show e: "blk_ents (H ! (ch ! i)) = chain_lists H ch ! i" using assms(2) by (simp add: chain_lists_def)
  show "0 < i \<Longrightarrow> chain_lists H ch ! i \<noteq> []" using d(5) f(1) e by auto
  show "min_key (H ! (ch ! i)) = Some (if chain_lists H ch ! i = [] then None else Some (hd (chain_lists H ch ! i)))"
    "max_key (H ! (ch ! i)) = Some (if chain_lists H ch ! i = [] then None else Some (last (chain_lists H ch ! i)))"
    using min_key_ok [OF d(4) cap] e by simp_all
  show "length (chain_lists H ch ! i) = blk_count (H ! (ch ! i))"
    "holds (blk_entries (H ! (ch ! i))) (chain_lists H ch ! i)" using f(1,3) e by simp_all
  show "even (unat (blk_version (H ! (ch ! i))))" using d(4) by (simp add: blk_ok_def)
qed

text \<open>Where the walks along the chain end.\<close>

lemma step_back_ok:
  assumes "chain_ok cap H ch" "i < length ch"
  shows "\<exists>j\<le>i. step_back H P (ch ! i) = Some (ch ! j) \<and> (j = 0 \<or> \<not> P (hd (chain_lists H ch ! j)))"
  using assms(2)
proof (induction i)
  case 0
  then show ?case
    using chain_block(1) [OF assms(1) 0] chain_okD(2) [OF assms(1) 0] by (subst step_back.simps) simp
next
  case (Suc i)
  note b = chain_block [OF assms(1) Suc.prems] and d = chain_okD [OF assms(1) Suc.prems]
  have "step_back H P (ch ! Suc i) =
      (if P (hd (chain_lists H ch ! Suc i)) then step_back H P (ch ! i) else Some (ch ! Suc i))"
    using b(1,3,4) d(2) by (subst step_back.simps) simp
  then show ?case using Suc by (metis Suc_lessD le_SucI order.refl)
qed

lemma settle_forward_ok:
  assumes "chain_ok cap H ch" "j < length ch"
  shows "\<exists>k. j \<le> k \<and> k < length ch \<and> settle_forward H P (ch ! j) = Some (ch ! k) \<and> (k = j \<or> P (hd (chain_lists H ch ! k)))"
  using assms(2)
proof (induction "length ch - j" arbitrary: j rule: less_induct)
  case less
  note b = chain_block [OF assms(1) less.prems] and d = chain_okD [OF assms(1) less.prems]
  show ?case
  proof (cases "Suc j < length ch")
    case True
    note b' = chain_block [OF assms(1) True] and d' = chain_okD [OF assms(1) True]
    have "settle_forward H P (ch ! j) =
        (if P (hd (chain_lists H ch ! Suc j)) then settle_forward H P (ch ! Suc j) else Some (ch ! j))"
      using b(1) d(3) True b'(1,3,4) d'(5) by (subst settle_forward.simps) simp
    moreover have "length ch - Suc j < length ch - j" using True by linarith
    ultimately show ?thesis using less.hyps [of "Suc j"] True less.prems
      by (cases "P (hd (chain_lists H ch ! Suc j))") (metis Suc_leD, force)
  next
    case False
    then show ?thesis using b(1) d(3) less.prems by (subst settle_forward.simps) auto
  qed
qed

lemma step_forward_insert_ok:
  assumes "chain_ok cap H ch" "j < length ch"
  shows "\<exists>k. j \<le> k \<and> k < length ch \<and> step_forward_insert H P (ch ! j) = Some (ch ! k) \<and>
    (k = j \<or> P (hd (chain_lists H ch ! k))) \<and> (Suc k < length ch \<longrightarrow> \<not> P (hd (chain_lists H ch ! Suc k)))"
  using assms(2)
proof (induction "length ch - j" arbitrary: j rule: less_induct)
  case less
  note b = chain_block [OF assms(1) less.prems] and d = chain_okD [OF assms(1) less.prems]
  show ?case
  proof (cases "Suc j < length ch")
    case True
    note b' = chain_block [OF assms(1) True] and d' = chain_okD [OF assms(1) True]
    have "step_forward_insert H P (ch ! j) =
        (if P (hd (chain_lists H ch ! Suc j)) then step_forward_insert H P (ch ! Suc j) else Some (ch ! j))"
      using b(1) d(3) True b'(1,3,4) d'(5) by (subst step_forward_insert.simps) (simp add: non_null_def)
    moreover have "length ch - Suc j < length ch - j" using True by linarith
    ultimately show ?thesis using less.hyps [of "Suc j"] True less.prems
      by (cases "P (hd (chain_lists H ch ! Suc j))") (metis Suc_leD, force)
  next
    case False
    then show ?thesis using b(1) d(3) less.prems by (subst step_forward_insert.simps) auto
  qed
qed

section \<open>Location\<close>

definition ascending :: "key_comparator \<Rightarrow> entry list \<Rightarrow> bool" where
  "ascending C L \<longleftrightarrow> sorted_wrt (\<lambda>a b. cmp_entry C a b < 0) L"

definition rep_inv :: "key_comparator \<Rightarrow> memtable_rep \<Rightarrow> nat list \<Rightarrow> bool" where
  "rep_inv C r ch \<longleftrightarrow> chain_ok (leaf_capacity r) (blocks r) ch \<and> rep_head r = Some (hd ch) \<and> rep_tail r = Some (last ch) \<and>
    ascending C (concat (chain_lists (blocks r) ch)) \<and> index_ok r"

definition represents :: "key_comparator \<Rightarrow> memtable_rep \<Rightarrow> entry list \<Rightarrow> bool" where
  "represents C r es \<longleftrightarrow> (\<exists>ch. rep_inv C r ch \<and> es = concat (chain_lists (blocks r) ch))"

lemma sorted_concat_nth:
  "sorted_wrt R (concat Ls) \<Longrightarrow> i < k \<Longrightarrow> k < length Ls \<Longrightarrow> x \<in> set (Ls ! i) \<Longrightarrow> y \<in> set (Ls ! k) \<Longrightarrow> R x y"
proof (induction Ls arbitrary: i k)
  case (Cons L Ls)
  then obtain k' where k: "k = Suc k'" "k' < length Ls" by (cases k) auto
  show ?case
  proof (cases i)
    case 0
    moreover have "y \<in> set (concat Ls)" using Cons.prems(5) k nth_mem [of k' Ls] by auto
    ultimately show ?thesis using Cons.prems by (auto simp: sorted_wrt_append)
  next
    case (Suc i')
    then show ?thesis using Cons.IH [of i' k'] Cons.prems k by (simp add: sorted_wrt_append)
  qed
qed simp

lemma sorted_concat_part: "sorted_wrt R (concat Ls) \<Longrightarrow> i < length Ls \<Longrightarrow> sorted_wrt R (Ls ! i)"
  by (induction Ls arbitrary: i) (auto simp: sorted_wrt_append nth_Cons split: nat.splits)

lemma concat_split: "k < length Ls \<Longrightarrow> concat Ls = concat (take k Ls) @ Ls ! k @ concat (drop (Suc k) Ls)"
  by (metis concat.simps(2) concat_append id_take_nth_drop)

lemma concat_nth_mem: "i < length Ls \<Longrightarrow> x \<in> set (Ls ! i) \<Longrightarrow> x \<in> set (concat Ls)"
  by (auto intro: bexI [OF _ nth_mem])

lemma in_concat_take: "x \<in> set (concat (take k Ls)) \<Longrightarrow> \<exists>i<k. i < length Ls \<and> x \<in> set (Ls ! i)"
proof -
  assume "x \<in> set (concat (take k Ls))"
  then obtain i where "i < length (take k Ls)" "x \<in> set (take k Ls ! i)" unfolding set_concat by (metis UN_E in_set_conv_nth)
  then show ?thesis by (intro exI [of _ i]) auto
qed

lemma in_concat_drop: "x \<in> set (concat (drop k Ls)) \<Longrightarrow> \<exists>i\<ge>k. i < length Ls \<and> x \<in> set (Ls ! i)"
proof -
  assume "x \<in> set (concat (drop k Ls))"
  then obtain i where "i < length (drop k Ls)" "x \<in> set (drop k Ls ! i)" unfolding set_concat by (metis UN_E in_set_conv_nth)
  then show ?thesis by (intro exI [of _ "k + i"]) auto
qed

lemma length_chain_lists [simp]: "length (chain_lists H ch) = length ch"
  by (simp add: chain_lists_def)

lemma chain_entry_ok:
  assumes "chain_ok cap H ch" "x \<in> set (concat (chain_lists H ch))"
  shows "entry_ok x"
  using assms by (auto simp: chain_lists_def chain_ok_def blk_ok_def)

lemma map_prev_mem: "map_prev_at_or_before (Some t) k = Some p \<Longrightarrow> p \<in> set t"
  by (auto simp: map_prev_at_or_before_def al_last_def split: if_splits dest!: last_in_set)

lemma chain_index:
  assumes "chain_ok cap H ch" "b < length H"
  shows "\<exists>i<length ch. b = ch ! i"
  using assms unfolding chain_ok_def by (metis in_set_conv_nth lessThan_iff)

definition start_of :: "prefix_map option \<Rightarrow> u64 \<Rightarrow> nat option \<Rightarrow> nat option" where
  "start_of t prefix h = (case map_prev_at_or_before t prefix of Some (_, Some v) \<Rightarrow> Some v | _ \<Rightarrow> h)"

lemma start_in_chain:
  assumes "chain_ok cap H ch" "\<forall>p\<in>set t. \<exists>b<length H. snd p = Some b"
  shows "\<exists>i<length ch. start_of (Some t) prefix (Some (hd ch)) = Some (ch ! i)"
proof -
  have hd: "hd ch = ch ! 0" "0 < length ch" using assms(1) by (auto simp: chain_ok_def hd_conv_nth)
  show ?thesis
  proof (cases "map_prev_at_or_before (Some t) prefix")
    case None
    then show ?thesis using hd by (auto simp: start_of_def)
  next
    case (Some p)
    then obtain b where "b < length H" "snd p = Some b" using assms(2) map_prev_mem by blast
    then show ?thesis using Some chain_index [OF assms(1), of b] by (cases p) (auto simp: start_of_def)
  qed
qed

definition current_index :: "memtable_rep \<Rightarrow> prefix_map option" where
  "current_index r = (case rep_opt r of Some oi \<Rightarrow> Some (oi_map oi) | None \<Rightarrow> trie_index r)"

lemma index_start:
  assumes "rep_inv C r ch"
  shows "\<exists>i<length ch. start_of (current_index r) prefix (rep_head r) = Some (ch ! i)"
proof -
  have "\<exists>t. current_index r = Some t \<and> (\<forall>p\<in>set t. \<exists>b<length (blocks r). snd p = Some b)"
    using assms by (auto simp: rep_inv_def index_ok_def current_index_def split: if_splits)
  then show ?thesis using assms start_in_chain [of _ "blocks r" ch] by (fastforce simp: rep_inv_def)
qed

lemma single_chain: "rep_inv C r ch \<Longrightarrow> rep_head r = rep_tail r \<Longrightarrow> length ch = 1"
  unfolding rep_inv_def chain_ok_def by (cases ch) (auto split: if_splits)

lemma FindLeafBlockForInsert_eq:
  assumes "rep_inv C r ch" "entry_ok e"
  shows "FindLeafBlockForInsert C r e =
    (if rep_head r = rep_tail r then Some (rep_head r)
     else do { c \<leftarrow> start_of (current_index r) (ExtractSlicePrefix64 (ikey e)) (rep_head r);
               c1 \<leftarrow> step_back (blocks r) (\<lambda>m. cmp_entry C m e > 0) c;
               c2 \<leftarrow> step_forward_insert (blocks r) (\<lambda>m. cmp_entry C m e \<le> 0) c1;
               Some (Some c2) })"
proof -
  have p: "ExtractKeyPrefix64 (Some e) = Some (ExtractSlicePrefix64 (ikey e))"
    using entry_okD [OF assms(2)] by (simp add: ExtractKeyPrefix64_def)
  have h: "rep_head r \<noteq> None" using assms(1) by (simp add: rep_inv_def)
  show ?thesis
  proof (cases "rep_opt r")
    case None
    then obtain t where t: "trie_index r = Some t" "\<forall>p\<in>set t. \<exists>b<length (blocks r). snd p = Some b"
      using assms(1) by (auto simp: rep_inv_def index_ok_def split: if_splits)
    then show ?thesis using None h
      by (auto simp: FindLeafBlockForInsert_def p current_index_def start_of_def split: option.splits)
  next
    case (Some oi)
    then have "trie_index r = None" using assms(1) by (auto simp: rep_inv_def index_ok_def split: if_splits)
    then show ?thesis using Some h
      by (auto simp: FindLeafBlockForInsert_def p current_index_def start_of_def OptimisticInsertCandidate_def
          map_prev_at_or_before_def split: option.splits)
  qed
qed

lemma FindLeafBlockForSeek_eq:
  assumes "rep_inv C r ch" "SeekPrefix ik mk = Some prefix"
  shows "FindLeafBlockForSeek C r ik mk =
    (if rep_head r = rep_tail r then Some (rep_head r)
     else SettleSeekCandidate C r (start_of (current_index r) prefix (rep_head r)) ik mk)"
proof -
  have h: "(rep_head r = None) = False" using assms(1) by (simp add: rep_inv_def)
  have i: "seek_lock_scope r = kOptimistic \<longleftrightarrow> rep_opt r \<noteq> None"
    using assms(1) by (auto simp: rep_inv_def index_ok_def split: if_splits)
  show ?thesis
    using i assms(2)
    by (cases "seek_lock_scope r"; cases "rep_opt r")
       (simp_all add: h FindLeafBlockForSeek_def FindLeafBlockForSeekOptimistic_def current_index_def start_of_def)
qed

definition seek_target :: "entry \<Rightarrow> slice \<Rightarrow> entry option \<Rightarrow> bool" where
  "seek_target k ik mk \<longleftrightarrow> entry_ok k \<and> (mk = Some k \<or> mk = None \<and> ik = ikey k)"

lemma SeekPrefix_target: "seek_target k ik mk \<Longrightarrow> SeekPrefix ik mk = Some (ExtractSlicePrefix64 (ikey k))"
  using entry_okD [of k] by (auto simp: seek_target_def SeekPrefix_def ExtractKeyPrefix64_def)

context key_order
begin

lemma cmp_slice_sign:
  assumes "entry_ok a" "entry_ok b"
  shows "cmp_slice C (ikey a) b < 0 \<longleftrightarrow> cmp_entry C a b < 0" "0 < cmp_slice C (ikey a) b \<longleftrightarrow> 0 < cmp_entry C a b"
  using cmp_slice_entry [OF assms] by (metis sgn_less, metis sgn_greater)

lemma below_hd:
  assumes "chain_ok cap H ch" "ascending C (concat (chain_lists H ch))" "i < k" "k < length ch"
    and "x \<in> set (chain_lists H ch ! i)"
  shows "cmp_entry C x (hd (chain_lists H ch ! k)) < 0"
proof -
  have "chain_lists H ch ! k \<noteq> []" using chain_block(3) [OF assms(1,4)] assms(3) by simp
  then have "hd (chain_lists H ch ! k) \<in> set (chain_lists H ch ! k)" by simp
  then show ?thesis
    using sorted_concat_nth [OF assms(2) [unfolded ascending_def] assms(3)] assms(4,5) by simp
qed

lemma from_hd:
  assumes "chain_ok cap H ch" "ascending C (concat (chain_lists H ch))" "0 < k" "k \<le> i" "i < length ch"
    and "x \<in> set (chain_lists H ch ! i)"
  shows "cmp_entry C (hd (chain_lists H ch ! k)) x \<le> 0"
proof (cases "k = i")
  case True
  let ?L = "chain_lists H ch ! i"
  have L: "?L \<noteq> []" using chain_block(3) [OF assms(1,5)] assms(3,4) by simp
  have ok: "entry_ok (hd ?L)" using L assms(5) by (intro chain_entry_ok [OF assms(1)] concat_nth_mem) auto
  have "sorted_wrt (\<lambda>a b. cmp_entry C a b < 0) ?L"
    using assms(2,5) unfolding ascending_def by (intro sorted_concat_part) simp_all
  then show ?thesis using True assms(6) L cmp_self [OF ok] by (cases ?L) (auto intro: less_imp_le)
next
  case False
  have "chain_lists H ch ! k \<noteq> []" using chain_block(3) [OF assms(1)] assms(3-5) by simp
  then have "hd (chain_lists H ch ! k) \<in> set (chain_lists H ch ! k)" by simp
  then show ?thesis
    using sorted_concat_nth [OF assms(2) [unfolded ascending_def], of k i] False assms(4-6) by (simp add: less_imp_le)
qed

lemma find_insert_ok:
  assumes inv: "rep_inv C r ch" and ok: "entry_ok e"
    and fresh: "\<forall>x\<in>set (concat (chain_lists (blocks r) ch)). cmp_entry C x e \<noteq> 0"
  shows "\<exists>k<length ch. FindLeafBlockForInsert C r e = Some (Some (ch ! k)) \<and>
    (\<forall>i<k. \<forall>x\<in>set (chain_lists (blocks r) ch ! i). cmp_entry C x e < 0) \<and>
    (\<forall>i. k < i \<and> i < length ch \<longrightarrow> (\<forall>x\<in>set (chain_lists (blocks r) ch ! i). cmp_entry C e x < 0))"
proof (cases "rep_head r = rep_tail r")
  case True
  then have "length ch = 1" using single_chain [OF inv] by simp
  moreover from this have "hd ch = ch ! 0" by (cases ch) auto
  ultimately show ?thesis
    using True inv FindLeafBlockForInsert_eq [OF inv ok] by (intro exI [of _ 0]) (auto simp: rep_inv_def)
next
  case False
  let ?L = "chain_lists (blocks r) ch"
  have co: "chain_ok (leaf_capacity r) (blocks r) ch" and asc: "ascending C (concat ?L)"
    using inv by (simp_all add: rep_inv_def)
  have okx: "entry_ok x" if "i < length ch" "x \<in> set (?L ! i)" for i x
    using that by (intro chain_entry_ok [OF co] concat_nth_mem) auto
  obtain i where i: "i < length ch" "start_of (current_index r) (ExtractSlicePrefix64 (ikey e)) (rep_head r) = Some (ch ! i)"
    using index_start [OF inv] by blast
  obtain j where j: "j \<le> i" "step_back (blocks r) (\<lambda>m. cmp_entry C m e > 0) (ch ! i) = Some (ch ! j)"
      "j = 0 \<or> \<not> cmp_entry C (hd (?L ! j)) e > 0"
    using step_back_ok [OF co i(1)] by blast
  have jl: "j < length ch" using j(1) i(1) by simp
  obtain k where k: "j \<le> k" "k < length ch"
      "step_forward_insert (blocks r) (\<lambda>m. cmp_entry C m e \<le> 0) (ch ! j) = Some (ch ! k)"
      "k = j \<or> cmp_entry C (hd (?L ! k)) e \<le> 0" "Suc k < length ch \<longrightarrow> \<not> cmp_entry C (hd (?L ! Suc k)) e \<le> 0"
    using step_forward_insert_ok [OF co jl, of "\<lambda>m. cmp_entry C m e \<le> 0"] by blast
  have hd: "hd (?L ! m) \<in> set (?L ! m)" if "0 < m" "m < length ch" for m
    using chain_block(3) [OF co that(2,1)] by simp
  have le: "cmp_entry C (hd (?L ! k)) e \<le> 0" if "0 < k" using that j(3) k(4) by auto
  have "cmp_entry C x e < 0" if "m < k" "x \<in> set (?L ! m)" for m x
    using below_hd [OF co asc that(1) k(2) that(2)] le that cmp_less_trans(1) [OF okx [of m x] okx [of k "hd (?L ! k)"] ok]
      hd [of k] k(2) by auto
  moreover have "cmp_entry C e x < 0" if "k < m" "m < length ch" "x \<in> set (?L ! m)" for m x
  proof -
    have s: "Suc k < length ch" using that by simp
    have h: "entry_ok (hd (?L ! Suc k))" using hd [of "Suc k"] s okx by blast
    have "cmp_entry C e (hd (?L ! Suc k)) < 0" using k(5) s cmp_flip [OF ok h] by simp
    then show ?thesis
      using from_hd [OF co asc, of "Suc k" m x] that cmp_less_trans(1) [OF ok h okx [OF that(2,3)]] by simp
  qed
  ultimately show ?thesis
    using FindLeafBlockForInsert_eq [OF inv ok] False i(2) j(2) k(2,3) by auto
qed

lemma find_seek_ok:
  assumes inv: "rep_inv C r ch" and t: "seek_target key ik mk"
  shows "\<exists>k<length ch. FindLeafBlockForSeek C r ik mk = Some (Some (ch ! k)) \<and>
    (\<forall>i<k. \<forall>x\<in>set (chain_lists (blocks r) ch ! i). cmp_entry C x key < 0)"
proof (cases "rep_head r = rep_tail r")
  case True
  then have "length ch = 1" using single_chain [OF inv] by simp
  moreover from this have "hd ch = ch ! 0" by (cases ch) auto
  ultimately show ?thesis
    using True inv FindLeafBlockForSeek_eq [OF inv SeekPrefix_target [OF t]]
    by (intro exI [of _ 0]) (auto simp: rep_inv_def)
next
  case False
  let ?L = "chain_lists (blocks r) ch"
  have ok: "entry_ok key" using t by (simp add: seek_target_def)
  have co: "chain_ok (leaf_capacity r) (blocks r) ch" and asc: "ascending C (concat ?L)"
    using inv by (simp_all add: rep_inv_def)
  have okx: "entry_ok x" if "i < length ch" "x \<in> set (?L ! i)" for i x
    using that by (intro chain_entry_ok [OF co] concat_nth_mem) auto
  have after: "\<not> seek_after C ik mk x \<Longrightarrow> cmp_entry C x key \<le> 0" if "entry_ok x" for x
    using t cmp_slice_sign(1) [OF ok that] cmp_not_less [OF ok that]
    by (auto simp: seek_after_def seek_target_def)
  have before: "seek_before C ik mk x \<Longrightarrow> cmp_entry C x key \<le> 0" if "entry_ok x" for x
    using t cmp_slice_sign(2) [OF ok that] cmp_pos [OF ok that]
    by (auto simp: seek_before_def seek_target_def)
  obtain i where i: "i < length ch"
      "start_of (current_index r) (ExtractSlicePrefix64 (ikey key)) (rep_head r) = Some (ch ! i)"
    using index_start [OF inv] by blast
  obtain j where j: "j \<le> i" "step_back (blocks r) (seek_after C ik mk) (ch ! i) = Some (ch ! j)"
      "j = 0 \<or> \<not> seek_after C ik mk (hd (?L ! j))"
    using step_back_ok [OF co i(1)] by blast
  have jl: "j < length ch" using j(1) i(1) by simp
  obtain k where k: "j \<le> k" "k < length ch"
      "settle_forward (blocks r) (seek_before C ik mk) (ch ! j) = Some (ch ! k)"
      "k = j \<or> seek_before C ik mk (hd (?L ! k))"
    using settle_forward_ok [OF co jl, of "seek_before C ik mk"] by blast
  have "cmp_entry C x key < 0" if "m < k" "x \<in> set (?L ! m)" for m x
  proof -
    have "?L ! k \<noteq> []" using chain_block(3) [OF co k(2)] that(1) by simp
    then have h: "entry_ok (hd (?L ! k))" using okx [OF k(2)] by simp
    have "cmp_entry C (hd (?L ! k)) key \<le> 0" using j(3) k(4) that(1) after [OF h] before [OF h] by auto
    then show ?thesis
      using below_hd [OF co asc that(1) k(2) that(2)] that k(2) cmp_less_trans(1) [OF okx [of m x] h ok] by simp
  qed
  then show ?thesis
    using FindLeafBlockForSeek_eq [OF inv SeekPrefix_target [OF t]] False i(2) j(2) k(2,3)
    by (auto simp: SettleSeekCandidate_def)
qed

end
section \<open>Insertion\<close>

lemma shift_loop:
  "left \<le> c \<Longrightarrow> c < length es \<Longrightarrow>
   \<exists>es'. for_loop (rev [left + 1..<c + 1]) (\<lambda>i es. do { x \<leftarrow> rd es (i - 1); wr es i x }) es = Some es' \<and>
     length es' = length es \<and> (\<forall>i<length es. es' ! i = (if left < i \<and> i \<le> c then es ! (i - 1) else es ! i))"
proof (induction c arbitrary: es)
  case (Suc c)
  show ?case
  proof (cases "left = Suc c")
    case False
    then have le: "left \<le> c" using Suc.prems(1) by simp
    then have up: "rev [left + 1..<Suc c + 1] = Suc c # rev [left + 1..<c + 1]" by simp
    let ?es = "es[Suc c := es ! c]"
    obtain es' where es': "for_loop (rev [left + 1..<c + 1]) (\<lambda>i es. do { x \<leftarrow> rd es (i - 1); wr es i x }) ?es = Some es'"
      "length es' = length es" "\<forall>i<length es. es' ! i = (if left < i \<and> i \<le> c then ?es ! (i - 1) else ?es ! i)"
      using Suc.IH [OF le, of ?es] Suc.prems(2) by auto
    have "es' ! i = (if left < i \<and> i \<le> Suc c then es ! (i - 1) else es ! i)" if "i < length es" for i
    proof (cases "i = Suc c")
      case True
      then show ?thesis using es'(3) that le by simp
    next
      case False
      then show ?thesis using es'(3) that by (auto simp: nth_list_update)
    qed
    then show ?thesis unfolding up using es'(1,2) Suc.prems(2) by (simp add: rd_def wr_def)
  qed (use Suc.prems in auto)
qed auto

lemma insert_at_nth:
  "left \<le> length L \<Longrightarrow> i \<le> length L \<Longrightarrow>
   insert_at left e L ! i = (if i < left then L ! i else if i = left then e else L ! (i - 1))"
proof -
  assume a: "left \<le> length L" "i \<le> length L"
  consider "i < left" | "i = left" | j where "i = left + Suc j" by (metis add_Suc_right less_imp_Suc_add linorder_neqE_nat)
  then show ?thesis using a by cases (auto simp: insert_at_def nth_append)
qed

lemma holds_stored:
  assumes "holds es L" "length L < length es" "left \<le> length L" "length es' = length es"
    and "\<forall>i<length es. es' ! i = (if left < i \<and> i \<le> length L then es ! (i - 1) else es ! i)"
  shows "holds (es'[left := Some e]) (insert_at left e L)"
  unfolding holds_def
proof (intro conjI allI impI)
  show "length (insert_at left e L) \<le> length (es'[left := Some e])" using assms(2,4) by simp
  fix i
  assume i: "i < length (insert_at left e L)"
  then have "i \<le> length L" by simp
  then show "es'[left := Some e] ! i = Some (insert_at left e L ! i)"
    using assms by (auto simp: insert_at_nth nth_list_update holds_def)
qed

lemma move_loop:
  assumes "n \<le> length t" "m + n \<le> length es"
  shows "\<exists>t'. for_loop [0..<n] (\<lambda>i ts. do { x \<leftarrow> rd es (m + i); wr ts i x }) t = Some t' \<and> length t' = length t \<and>
    (\<forall>i<length t. t' ! i = (if i < n then es ! (m + i) else t ! i))"
  using assms
proof (induction n)
  case (Suc n)
  then obtain t1 where "for_loop [0..<n] (\<lambda>i ts. do { x \<leftarrow> rd es (m + i); wr ts i x }) t = Some t1" "length t1 = length t"
      "\<forall>i<length t. t1 ! i = (if i < n then es ! (m + i) else t ! i)" by auto
  then show ?case using Suc.prems by (auto simp: for_loop_append rd_def wr_def nth_list_update less_Suc_eq)
qed simp

lemma clear_loop:
  assumes "m + n \<le> length es"
  shows "\<exists>t'. for_loop [0..<n] (\<lambda>i ts. wr ts (m + i) None) es = Some t' \<and> length t' = length es \<and>
    (\<forall>i<length es. t' ! i = (if m \<le> i \<and> i < m + n then None else es ! i))"
  using assms
proof (induction n)
  case (Suc n)
  then obtain t1 where "for_loop [0..<n] (\<lambda>i ts. wr ts (m + i) None) es = Some t1" "length t1 = length es"
      "\<forall>i<length es. t1 ! i = (if m \<le> i \<and> i < m + n then None else es ! i)" by auto
  then show ?case using Suc.prems by (auto simp: for_loop_append wr_def nth_list_update)
qed auto

lemma upd_block_eq: "i < length H \<Longrightarrow> upd_block f i H = Some (H[i := f (H ! i)])"
  by (simp add: upd_block_def)

lemma publish_sel [simp]:
  "blocks (publish r p b) = blocks r" "leaf_capacity (publish r p b) = leaf_capacity r"
  "rep_head (publish r p b) = rep_head r" "rep_tail (publish r p b) = rep_tail r"
  "total_keys (publish r p b) = total_keys r" "seek_lock_scope (publish r p b) = seek_lock_scope r"
  "total_allocated_bytes (publish r p b) = total_allocated_bytes r"
  by (simp_all add: publish_def split: option.splits)

lemma index_ok_mono:
  "index_ok r \<Longrightarrow> length (blocks r) \<le> length (blocks r') \<Longrightarrow> seek_lock_scope r' = seek_lock_scope r \<Longrightarrow>
   trie_index r' = trie_index r \<Longrightarrow> rep_opt r' = rep_opt r \<Longrightarrow> index_ok r'"
  unfolding index_ok_def by (simp split: if_splits) (meson less_le_trans)+

lemma index_ok_publish: "index_ok r \<Longrightarrow> b < length (blocks r) \<Longrightarrow> index_ok (publish r p b)"
  unfolding index_ok_def by (auto simp: publish_def al_ins_def split: if_splits option.splits)

definition split_chain :: "nat list \<Rightarrow> nat \<Rightarrow> nat \<Rightarrow> nat list" where
  "split_chain ch k n = insert_at (Suc k) n ch"

lemma split_chain_nth:
  "k < length ch \<Longrightarrow> i \<le> length ch \<Longrightarrow>
   split_chain ch k n ! i = (if i \<le> k then ch ! i else if i = Suc k then n else ch ! (i - 1))"
  by (auto simp: split_chain_def insert_at_nth)

lemma length_split_chain [simp]: "k < length ch \<Longrightarrow> length (split_chain ch k n) = Suc (length ch)"
  by (simp add: split_chain_def)

text \<open>The blocks after a split: the lower half stays, the upper half goes to a new block linked behind it.\<close>

lemma SplitLeafBlock_ok:
  assumes l: "links (blocks r) ch" "distinct ch" "k < length ch"
    and b: "b = blocks r ! (ch ! k)" "length (blk_entries b) = kMaxCapacity" "holds (blk_entries b) L"
      "length L = blk_count b" "L \<noteq> []" "\<forall>e\<in>set L. entry_ok e"
  shows "\<exists>r' pfx r1. SplitLeafBlock r (ch ! k) = Some r' \<and>
    r' = (publish r1 pfx (length (blocks r)))\<lparr>blocks := blocks r'\<rparr> \<and> length (blocks r') = Suc (length (blocks r)) \<and>
    r1 = r\<lparr>blocks := blocks r1, total_allocated_bytes := total_allocated_bytes r + sizeof_LeafBlock,
           rep_tail := (if Suc k < length ch then rep_tail r else Some (length (blocks r)))\<rparr> \<and>
    length (blocks r1) = Suc (length (blocks r)) \<and>
    (\<forall>i<length (blocks r). next_leaf (blocks r' ! i) = (if i = ch ! k then Some (length (blocks r)) else next_leaf (blocks r ! i)) \<and>
      prev_leaf (blocks r' ! i) = (if next_leaf b = Some i then Some (length (blocks r)) else prev_leaf (blocks r ! i)) \<and>
      (i \<noteq> ch ! k \<longrightarrow> blk_count (blocks r' ! i) = blk_count (blocks r ! i) \<and>
        blk_entries (blocks r' ! i) = blk_entries (blocks r ! i) \<and> blk_version (blocks r' ! i) = blk_version (blocks r ! i))) \<and>
    blk_count (blocks r' ! (ch ! k)) = length L div 2 \<and> blk_version (blocks r' ! (ch ! k)) = blk_version b + 2 \<and>
    length (blk_entries (blocks r' ! (ch ! k))) = kMaxCapacity \<and>
    holds (blk_entries (blocks r' ! (ch ! k))) (take (length L div 2) L) \<and>
    next_leaf (blocks r' ! length (blocks r)) = next_leaf b \<and> prev_leaf (blocks r' ! length (blocks r)) = Some (ch ! k) \<and>
    blk_count (blocks r' ! length (blocks r)) = length L - length L div 2 \<and> blk_version (blocks r' ! length (blocks r)) = 0 \<and>
    length (blk_entries (blocks r' ! length (blocks r))) = kMaxCapacity \<and>
    holds (blk_entries (blocks r' ! length (blocks r))) (drop (length L div 2) L)"
proof -
  let ?H = "blocks r" and ?n = "length (blocks r)" and ?mid = "length L div 2" and ?i = "ch ! k"
  let ?mc = "length L - ?mid"
  have i: "?i < ?n" using l by (simp add: links_def)
  have len: "length L \<le> kMaxCapacity" using b(2,3) by (simp add: holds_def)
  have mc: "0 < ?mc" using b(5) by (cases L) auto
  obtain moved where moved: "for_loop [0..<?mc] (\<lambda>i ts. do { x \<leftarrow> rd (blk_entries b) (?mid + i); wr ts i x })
      (replicate kMaxCapacity None) = Some moved" "length moved = kMaxCapacity"
      "\<forall>i<kMaxCapacity. moved ! i = (if i < ?mc then blk_entries b ! (?mid + i) else None)"
    using move_loop [of ?mc "replicate kMaxCapacity None" ?mid "blk_entries b"] len b(2) by auto
  obtain kept where kept: "for_loop [0..<?mc] (\<lambda>i ts. wr ts (?mid + i) None) (blk_entries b) = Some kept"
      "length kept = kMaxCapacity"
      "\<forall>i<kMaxCapacity. kept ! i = (if ?mid \<le> i \<and> i < ?mid + ?mc then None else blk_entries b ! i)"
    using clear_loop [of ?mid ?mc "blk_entries b"] len b(2) by auto
  have h_kept: "holds kept (take ?mid L)" using kept b(2,3) len by (auto simp: holds_def)
  have h_moved: "holds moved (drop ?mid L)" using moved b(2,3) len by (auto simp: holds_def)
  have first: "rd moved 0 = Some (Some (L ! ?mid))"
    using h_moved mc moved(2) by (auto simp: holds_def rd_def kMaxCapacity_def dest: spec [of _ 0])
  have fok: "entry_ok (L ! ?mid)" using b(6) mc by (intro bspec [OF b(6)] nth_mem) linarith
  have pfx: "ExtractKeyPrefix64 (Some (L ! ?mid)) = Some (ExtractSlicePrefix64 (ikey (L ! ?mid)))"
    using entry_okD [OF fok] by (simp add: ExtractKeyPrefix64_def)
  let ?nb = "LeafBlock\<lparr>blk_entries := moved, blk_count := ?mc, blk_next := next_leaf b, next_leaf := next_leaf b,
    blk_prev := Some ?i, prev_leaf := Some ?i\<rparr>"
  let ?H1 = "(?H @ [?nb])[?i := b\<lparr>blk_version := blk_version b + 1, blk_count := ?mid, blk_entries := kept\<rparr>]"
  let ?H2 = "case next_leaf b of Some m \<Rightarrow> ?H1[m := (?H1 ! m)\<lparr>blk_prev := Some ?n, prev_leaf := Some ?n\<rparr>] | None \<Rightarrow> ?H1"
  let ?H3 = "?H2[?i := (?H2 ! ?i)\<lparr>blk_next := Some ?n, next_leaf := Some ?n\<rparr>]"
  let ?H4 = "?H3[?i := (?H3 ! ?i)\<lparr>blk_version := blk_version (?H3 ! ?i) + 1\<rparr>]"
  let ?r1 = "r\<lparr>blocks := ?H3, total_allocated_bytes := total_allocated_bytes r + sizeof_LeafBlock,
    rep_tail := (case next_leaf b of Some m \<Rightarrow> rep_tail r | None \<Rightarrow> Some ?n)\<rparr>"
  let ?r = "(publish ?r1 (ExtractSlicePrefix64 (ikey (L ! ?mid))) ?n)\<lparr>blocks := ?H4\<rparr>"
  have nl: "next_leaf b = (if Suc k < length ch then Some (ch ! Suc k) else None)"
    using l(1,3) b(1) by (simp add: links_def)
  have m: "m < ?n \<and> m \<noteq> ?i" if "next_leaf b = Some m" for m
  proof -
    have m: "Suc k < length ch" "m = ch ! Suc k" using that nl by (auto split: if_splits)
    then have "m < ?n" using l(1) by (simp add: links_def)
    moreover have "ch ! Suc k \<noteq> ch ! k" using l(2,3) m(1) by (simp add: nth_eq_iff_index_eq)
    ultimately show ?thesis using m by simp
  qed
  have rb: "rd ?H ?i = Some b" using i b(1) by simp
  have bi: "(?H @ [x]) ! ?i = b" for x using i b(1) by (simp add: nth_append)
  have split: "SplitLeafBlock r ?i = Some ?r"
  proof (cases "next_leaf b")
    case None
    then show ?thesis using mc i
      by (simp add: SplitLeafBlock_def rb Let_def b(4) [symmetric] moved(1) kept(1) upd_block_eq bi first pfx)
  next
    case (Some m)
    then show ?thesis using mc i m [OF Some]
      by (simp add: SplitLeafBlock_def rb Let_def b(4) [symmetric] moved(1) kept(1) upd_block_eq bi first pfx)
  qed
  have at_i: "?H4 ! ?i = b\<lparr>blk_version := blk_version b + 2, blk_count := ?mid, blk_entries := kept, blk_next := Some ?n, next_leaf := Some ?n\<rparr>"
    using i m by (cases "next_leaf b") (auto simp: nth_list_update)
  have at_n: "?H4 ! ?n = ?nb" using i m by (cases "next_leaf b") (auto simp: nth_list_update nth_append)
  have at_m: "?H4 ! m = (?H ! m)\<lparr>blk_prev := Some ?n, prev_leaf := Some ?n\<rparr>" if "next_leaf b = Some m" for m
    using that i m [OF that] by (auto simp: nth_list_update nth_append)
  have other: "?H4 ! j = ?H ! j" if "j < ?n" "j \<noteq> ?i" "next_leaf b \<noteq> Some j" for j
    using that i m by (cases "next_leaf b") (auto simp: nth_list_update nth_append)
  have all: "next_leaf (?H4 ! j) = (if j = ?i then Some ?n else next_leaf (?H ! j)) \<and>
      prev_leaf (?H4 ! j) = (if next_leaf b = Some j then Some ?n else prev_leaf (?H ! j)) \<and>
      (j \<noteq> ?i \<longrightarrow> blk_count (?H4 ! j) = blk_count (?H ! j) \<and> blk_entries (?H4 ! j) = blk_entries (?H ! j) \<and>
        blk_version (?H4 ! j) = blk_version (?H ! j))" if "j < ?n" for j
  proof (cases "j = ?i")
    case True
    then show ?thesis using at_i m b(1) by (cases "next_leaf b = Some j") auto
  next
    case False
    then show ?thesis using other [OF that False] at_m [of j] by (cases "next_leaf b = Some j") simp_all
  qed
  have len4: "length ?H4 = Suc ?n" "length ?H3 = Suc ?n" by (simp_all split: option.split)
  have tail: "(case next_leaf b of Some m \<Rightarrow> rep_tail r | None \<Rightarrow> Some ?n) = (if Suc k < length ch then rep_tail r else Some ?n)"
    using nl by simp
  show ?thesis
  proof (intro exI conjI)
    show "SplitLeafBlock r ?i = Some ?r" by (rule split)
    show "?r = (publish ?r1 (ExtractSlicePrefix64 (ikey (L ! ?mid))) ?n)\<lparr>blocks := blocks ?r\<rparr>" by simp
    show "?r1 = r\<lparr>blocks := blocks ?r1, total_allocated_bytes := total_allocated_bytes r + sizeof_LeafBlock,
           rep_tail := (if Suc k < length ch then rep_tail r else Some ?n)\<rparr>" by (simp add: tail)
  qed (use len4 all at_i at_n h_kept h_moved moved(2) kept(2) in \<open>simp_all add: LeafBlock_def\<close>)
qed

lemma even_version: "even (unat (v :: u32)) \<Longrightarrow> even (unat (v + 2))"
  by (simp add: unat_word_ariths dvd_mod)

lemma holds_ents: "holds (blk_entries b) L \<Longrightarrow> length L = blk_count b \<Longrightarrow> blk_ents b = L"
  by (auto simp: holds_def blk_ents_def intro!: nth_equalityI)

lemma blk_ok_holds:
  assumes "length (blk_entries b) = kMaxCapacity" "holds (blk_entries b) L" "blk_count b = length L"
    "length L \<le> max 1 (cap - 1)" "\<forall>e\<in>set L. entry_ok e" "even (unat (blk_version b))"
  shows "blk_ok cap b"
  using assms holds_ents [OF assms(2) assms(3) [symmetric]] unfolding blk_ok_def holds_def by simp

lemma split_links:
  assumes "links H ch" "distinct ch" "set ch = {..<length H}" "k < length ch" "length H' = Suc (length H)"
    and "\<forall>i<length H. next_leaf (H' ! i) = (if i = ch ! k then Some (length H) else next_leaf (H ! i)) \<and>
      prev_leaf (H' ! i) = (if next_leaf (H ! (ch ! k)) = Some i then Some (length H) else prev_leaf (H ! i))"
    and "next_leaf (H' ! length H) = next_leaf (H ! (ch ! k))" "prev_leaf (H' ! length H) = Some (ch ! k)"
  shows "links H' (split_chain ch k (length H))"
  unfolding links_def
proof (intro allI impI)
  let ?n = "length H" and ?c = "split_chain ch k (length H)"
  fix i
  assume "i < length ?c"
  then have i: "i \<le> length ch" using assms(4) by simp
  have at: "ch ! j < ?n" "prev_leaf (H ! (ch ! j)) = (if j = 0 then None else Some (ch ! (j - 1)))"
      "next_leaf (H ! (ch ! j)) = (if Suc j < length ch then Some (ch ! Suc j) else None)" if "j < length ch" for j
    using that assms(1) by (auto simp: links_def)
  have inj: "ch ! j = ch ! j' \<longleftrightarrow> j = j'" if "j < length ch" "j' < length ch" for j j'
    using that assms(2) by (simp add: nth_eq_iff_index_eq)
  have nx: "next_leaf (H ! (ch ! k)) = Some (ch ! j) \<longleftrightarrow> j = Suc k" if "j < length ch" for j
    using at(3) [OF assms(4)] inj [of "Suc k" j] that by auto
  have c: "?c ! j = (if j \<le> k then ch ! j else if j = Suc k then ?n else ch ! (j - 1))" if "j \<le> length ch" for j
    using split_chain_nth [OF assms(4) that] by simp
  consider "i \<le> k" | "i = Suc k" | j where "i = Suc j" "k < j"
  proof -
    have "i \<le> k \<or> i = Suc k \<or> i = Suc (i - 1) \<and> k < i - 1" by linarith
    then show ?thesis using that by blast
  qed
  then show "?c ! i < length H' \<and> prev_leaf (H' ! (?c ! i)) = (if i = 0 then None else Some (?c ! (i - 1))) \<and>
      next_leaf (H' ! (?c ! i)) = (if Suc i < length ?c then Some (?c ! Suc i) else None)"
  proof cases
    case 1
    then have l: "i < length ch" using assms(4) by simp
    then show ?thesis using 1 at [OF l] assms(4-6) nx [OF l] inj [OF l assms(4)] c [of i] c [of "i - 1"] c [of "Suc i"] by auto
  next
    case 2
    then show ?thesis using assms(4,5,7,8) at(3) [OF assms(4)] c [of i] c [of k] c [of "Suc i"] i by auto
  next
    case (3 j)
    then have l: "j < length ch" using i by simp
    then show ?thesis
      using 3 at [OF l] assms(4-6) nx [OF l] inj [OF l assms(4)] c [of i] c [of j] c [of "Suc i"] by auto
  qed
qed

lemma split_chain_set:
  assumes "distinct ch" "set ch = {..<n}" "k < length ch"
  shows "distinct (split_chain ch k n)" "set (split_chain ch k n) = {..<Suc n}" "hd (split_chain ch k n) = hd ch"
    "last (split_chain ch k n) = (if Suc k < length ch then last ch else n)" "split_chain ch k n \<noteq> []"
    "set (tl (split_chain ch k n)) = insert n (set (tl ch))"
proof -
  have e: "split_chain ch k n = take (Suc k) ch @ n # drop (Suc k) ch" by (simp add: split_chain_def insert_at_def)
  have tk: "take (Suc k) ch \<noteq> []" using assms(3) by (cases ch) auto
  have "n \<notin> set ch" using assms(2) by simp
  then have "n \<notin> set (take (Suc k) ch)" "n \<notin> set (drop (Suc k) ch)" by (blast dest: in_set_takeD in_set_dropD)+
  moreover have "set (take (Suc k) ch) \<inter> set (drop (Suc k) ch) = {}"
    by (rule set_take_disj_set_drop_if_distinct [OF assms(1)]) simp
  ultimately show "distinct (split_chain ch k n)"
    unfolding e distinct_append distinct.simps(2) list.set(2)
    using distinct_take [OF assms(1), of "Suc k"] distinct_drop [OF assms(1), of "Suc k"] by blast
  show "set (split_chain ch k n) = {..<Suc n}" by (simp add: split_chain_def lessThan_Suc assms(2))
  show "hd (split_chain ch k n) = hd ch" unfolding e using tk by (cases ch) auto
  show "last (split_chain ch k n) = (if Suc k < length ch then last ch else n)" unfolding e using tk by auto
  show "split_chain ch k n \<noteq> []" unfolding e by simp
  have "tl (split_chain ch k n) = insert_at k n (tl ch)"
    unfolding e insert_at_def using assms(3) by (cases ch) auto
  then show "set (tl (split_chain ch k n)) = insert n (set (tl ch))" by simp
qed

lemma chain_lists_update:
  assumes "distinct ch" "k < length ch" "\<And>i. i < length ch \<Longrightarrow> i \<noteq> k \<Longrightarrow> blk_ents (H' ! (ch ! i)) = blk_ents (H ! (ch ! i))"
  shows "chain_lists H' ch = (chain_lists H ch)[k := blk_ents (H' ! (ch ! k))]"
proof (rule nth_equalityI)
  fix i
  assume "i < length (chain_lists H' ch)"
  then show "chain_lists H' ch ! i = (chain_lists H ch)[k := blk_ents (H' ! (ch ! k))] ! i"
    using assms(3) [of i] assms(2) by (simp add: chain_lists_def nth_list_update)
qed simp

lemma concat_update: "k < length Ls \<Longrightarrow> concat (Ls[k := L]) = concat (take k Ls) @ L @ concat (drop (Suc k) Ls)"
  by (simp add: upd_conv_take_nth_drop)

text \<open>
  What stays of a block across a write: either nothing of it changes, or its version moves on by two or
  four. A new block starts at version 0.
\<close>

definition block_moves :: "leaf_block list \<Rightarrow> leaf_block list \<Rightarrow> bool" where
  "block_moves H H' \<longleftrightarrow> length H \<le> length H' \<and> (\<forall>i. length H \<le> i \<and> i < length H' \<longrightarrow> blk_version (H' ! i) = 0) \<and>
    (\<forall>i<length H. blk_count (H' ! i) = blk_count (H ! i) \<and> blk_entries (H' ! i) = blk_entries (H ! i) \<and>
        blk_version (H' ! i) = blk_version (H ! i) \<or>
      blk_version (H' ! i) = blk_version (H ! i) + 2 \<or> blk_version (H' ! i) = blk_version (H ! i) + 4)"

lemma block_movesI:
  assumes "length H \<le> length H'" "blk_version (H' ! i) = blk_version (H ! i) + 2 \<or> blk_version (H' ! i) = blk_version (H ! i) + 4"
    and "\<And>j. j < length H \<Longrightarrow> j \<noteq> i \<Longrightarrow> blk_count (H' ! j) = blk_count (H ! j) \<and>
      blk_entries (H' ! j) = blk_entries (H ! j) \<and> blk_version (H' ! j) = blk_version (H ! j)"
    and new: "\<And>j. length H \<le> j \<Longrightarrow> j < length H' \<Longrightarrow> blk_version (H' ! j) = 0"
  shows "block_moves H H'"
  unfolding block_moves_def
proof (intro conjI allI impI)
  show "\<And>i. length H \<le> i \<and> i < length H' \<Longrightarrow> blk_version (H' ! i) = 0" using new by blast
  fix j
  assume "j < length H"
  then show "blk_count (H' ! j) = blk_count (H ! j) \<and> blk_entries (H' ! j) = blk_entries (H ! j) \<and>
        blk_version (H' ! j) = blk_version (H ! j) \<or>
      blk_version (H' ! j) = blk_version (H ! j) + 2 \<or> blk_version (H' ! j) = blk_version (H ! j) + 4"
    using assms(2) assms(3) [of j] by (cases "j = i") blast+
qed (rule assms(1))

lemma links_update:
  assumes "links H ch" "prev_leaf b = prev_leaf (H ! i)" "next_leaf b = next_leaf (H ! i)"
  shows "links (H[i := b]) ch"
proof -
  have "prev_leaf (H[i := b] ! j) = prev_leaf (H ! j) \<and> next_leaf (H[i := b] ! j) = next_leaf (H ! j)" for j
  proof (cases "i = j \<and> j < length H")
    case True
    then have "H[i := b] ! j = b" by simp
    then show ?thesis using assms(2,3) True by metis
  next
    case False
    then have "H[i := b] ! j = H ! j" by (cases "i = j") (simp_all add: not_less list_update_beyond)
    then show ?thesis by (rule ssubst) (rule conjI; rule refl)
  qed
  then show ?thesis using assms(1) by (simp add: links_def)
qed

lemma split_lists:
  assumes "distinct ch" "set ch = {..<length H}" "k < length ch"
    and "\<And>i. i < length H \<Longrightarrow> i \<noteq> ch ! k \<Longrightarrow> blk_ents (H' ! i) = blk_ents (H ! i)"
  shows "chain_lists H' (split_chain ch k (length H)) =
    take k (chain_lists H ch) @ [blk_ents (H' ! (ch ! k)), blk_ents (H' ! length H)] @ drop (Suc k) (chain_lists H ch)"
proof -
  have ne: "ch ! i < length H \<and> ch ! i \<noteq> ch ! k" if "i < length ch" "i \<noteq> k" for i
    using that assms(1-3) by (metis lessThan_iff nth_mem nth_eq_iff_index_eq)
  have "map (\<lambda>i. blk_ents (H' ! i)) (take k ch) = take k (chain_lists H ch)"
    using assms(3,4) ne by (auto simp: chain_lists_def take_map in_set_conv_nth)
  moreover have "map (\<lambda>i. blk_ents (H' ! i)) (drop (Suc k) ch) = drop (Suc k) (chain_lists H ch)"
    using assms(3,4) ne by (auto simp: chain_lists_def drop_map in_set_conv_nth)
  moreover have "split_chain ch k (length H) = take k ch @ [ch ! k, length H] @ drop (Suc k) ch"
    using assms(3) by (simp add: split_chain_def insert_at_def take_Suc_conv_app_nth)
  ultimately show ?thesis by (simp add: chain_lists_def)
qed

lemma split_step:
  assumes r: "links (blocks r) ch" "distinct ch" "set ch = {..<length (blocks r)}" "k < length ch"
      "1 \<le> leaf_capacity r" "leaf_capacity r \<le> kMaxCapacity" "rep_head r = Some (hd ch)" "rep_tail r = Some (last ch)" "index_ok r"
    and others: "\<And>i. i < length (blocks r) \<Longrightarrow> i \<noteq> ch ! k \<Longrightarrow> blk_ok (leaf_capacity r) (blocks r ! i)"
      "\<And>i. i \<in> set (tl ch) \<Longrightarrow> i \<noteq> ch ! k \<Longrightarrow> 0 < blk_count (blocks r ! i)"
    and b: "b = blocks r ! (ch ! k)" "length (blk_entries b) = kMaxCapacity" "holds (blk_entries b) L"
      "length L = blk_count b" "\<forall>e\<in>set L. entry_ok e" "even (unat (blk_version b))"
      "leaf_capacity r \<le> length L" "length L \<le> max 1 (leaf_capacity r - 1) + 1" "0 < k \<Longrightarrow> 2 \<le> length L"
  shows "\<exists>r'. SplitLeafBlock r (ch ! k) = Some r' \<and>
    chain_ok (leaf_capacity r') (blocks r') (split_chain ch k (length (blocks r))) \<and>
    concat (chain_lists (blocks r') (split_chain ch k (length (blocks r)))) =
      concat (take k (chain_lists (blocks r) ch)) @ L @ concat (drop (Suc k) (chain_lists (blocks r) ch)) \<and>
    rep_head r' = Some (hd (split_chain ch k (length (blocks r)))) \<and>
    rep_tail r' = Some (last (split_chain ch k (length (blocks r)))) \<and> index_ok r' \<and>
    leaf_capacity r' = leaf_capacity r \<and> seek_lock_scope r' = seek_lock_scope r \<and> total_keys r' = total_keys r \<and>
    length (blocks r') = Suc (length (blocks r)) \<and> blk_version (blocks r' ! length (blocks r)) = 0 \<and>
    blk_version (blocks r' ! (ch ! k)) = blk_version b + 2 \<and>
    (\<forall>i<length (blocks r). i \<noteq> ch ! k \<longrightarrow> blk_count (blocks r' ! i) = blk_count (blocks r ! i) \<and>
        blk_entries (blocks r' ! i) = blk_entries (blocks r ! i) \<and> blk_version (blocks r' ! i) = blk_version (blocks r ! i))"
proof -
  let ?n = "length (blocks r)" and ?mid = "length L div 2" and ?i = "ch ! k" and ?cap = "leaf_capacity r"
  let ?c = "split_chain ch k (length (blocks r))"
  have L: "L \<noteq> []" using b(7) r(5) by (cases L) auto
  obtain r' pfx r1 where s: "SplitLeafBlock r ?i = Some r'"
      "r' = (publish r1 pfx ?n)\<lparr>blocks := blocks r'\<rparr>" "length (blocks r') = Suc ?n"
      "r1 = r\<lparr>blocks := blocks r1, total_allocated_bytes := total_allocated_bytes r + sizeof_LeafBlock,
           rep_tail := (if Suc k < length ch then rep_tail r else Some ?n)\<rparr>" "length (blocks r1) = Suc ?n"
    and all: "\<forall>i<?n. next_leaf (blocks r' ! i) = (if i = ?i then Some ?n else next_leaf (blocks r ! i)) \<and>
      prev_leaf (blocks r' ! i) = (if next_leaf b = Some i then Some ?n else prev_leaf (blocks r ! i)) \<and>
      (i \<noteq> ?i \<longrightarrow> blk_count (blocks r' ! i) = blk_count (blocks r ! i) \<and>
        blk_entries (blocks r' ! i) = blk_entries (blocks r ! i) \<and> blk_version (blocks r' ! i) = blk_version (blocks r ! i))"
    and old: "blk_count (blocks r' ! ?i) = ?mid" "blk_version (blocks r' ! ?i) = blk_version b + 2"
      "length (blk_entries (blocks r' ! ?i)) = kMaxCapacity" "holds (blk_entries (blocks r' ! ?i)) (take ?mid L)"
    and new: "next_leaf (blocks r' ! ?n) = next_leaf b" "prev_leaf (blocks r' ! ?n) = Some ?i"
      "blk_count (blocks r' ! ?n) = length L - ?mid" "blk_version (blocks r' ! ?n) = 0"
      "length (blk_entries (blocks r' ! ?n)) = kMaxCapacity" "holds (blk_entries (blocks r' ! ?n)) (drop ?mid L)"
    using SplitLeafBlock_ok [OF r(1,2,4) b(1-4) L b(5)] by (elim exE conjE) blast
  have cap: "leaf_capacity r' = ?cap" "seek_lock_scope r' = seek_lock_scope r" "total_keys r' = total_keys r"
      "rep_head r' = rep_head r" "rep_tail r' = (if Suc k < length ch then rep_tail r else Some ?n)"
    by (subst s(2), subst s(4), simp)+
  have "seek_lock_scope r1 = seek_lock_scope r" "trie_index r1 = trie_index r" "rep_opt r1 = rep_opt r"
    by (subst s(4), simp)+
  then have "index_ok r1" using index_ok_mono [OF r(9), of r1] s(5) by simp
  then have "index_ok (publish r1 pfx ?n)" using index_ok_publish s(5) by simp
  moreover have "seek_lock_scope r' = seek_lock_scope (publish r1 pfx ?n)" "trie_index r' = trie_index (publish r1 pfx ?n)"
      "rep_opt r' = rep_opt (publish r1 pfx ?n)"
    by (subst s(2), simp)+
  ultimately have idx: "index_ok r'" using index_ok_mono [of "publish r1 pfx ?n" r'] s(3,5) by simp
  have ents: "blk_ents (blocks r' ! ?i) = take ?mid L" "blk_ents (blocks r' ! ?n) = drop ?mid L"
    using old(1,4) new(3,6) by (auto intro!: holds_ents)
  have oents: "blk_ents (blocks r' ! i) = blk_ents (blocks r ! i)" if "i < ?n" "i \<noteq> ?i" for i
    using all that by (simp add: blk_ents_def)
  have sizes: "?mid \<le> max 1 (?cap - 1)" "length L - ?mid \<le> max 1 (?cap - 1)" "0 < length L - ?mid" "0 < k \<Longrightarrow> 0 < ?mid"
    using b(7-9) r(5) by auto
  have ok_i: "blk_ok ?cap (blocks r' ! ?i)"
    using old b(5,6) sizes(1) even_version by (intro blk_ok_holds [where L = "take ?mid L"]) (auto dest: in_set_takeD)
  have ok_n: "blk_ok ?cap (blocks r' ! ?n)"
    using new b(5) sizes(2) by (intro blk_ok_holds [where L = "drop ?mid L"]) (auto dest: in_set_dropD)
  have ok: "blk_ok ?cap (blocks r' ! i)" if "i < Suc ?n" for i
  proof -
    consider "i = ?i" | "i = ?n" | "i < ?n" "i \<noteq> ?i" using \<open>i < Suc ?n\<close> by linarith
    then show ?thesis
    proof cases
      case 3
      then show ?thesis using others(1) [OF 3] all by (auto simp: blk_ok_def blk_ents_def)
    qed (use ok_i ok_n in simp_all)
  qed
  have tl: "0 < blk_count (blocks r' ! i)" if "i \<in> set (tl ?c)" for i
  proof -
    have "i = ?n \<or> i \<in> set (tl ch)" using that split_chain_set(6) [OF r(2,3,4)] by simp
    moreover have "k \<noteq> 0" if "?i \<in> set (tl ch)"
      using that r(2,4) by (cases k; cases ch) auto
    moreover have "i < ?n" if "i \<in> set (tl ch)" using that r(3) by (cases ch) auto
    ultimately show ?thesis using others(2) [of i] all old(1) new(3) sizes(3,4) by (cases "i = ?i") auto
  qed
  have "links (blocks r') ?c"
    using split_links [OF r(1,2,3,4) s(3)] all new(1,2) b(1) by simp
  then have chain: "chain_ok ?cap (blocks r') ?c"
    unfolding chain_ok_def using split_chain_set [OF r(2,3,4)] s(3) r(5,6) tl ok by (auto simp: in_set_conv_nth)
  have "concat (chain_lists (blocks r') ?c) =
      concat (take k (chain_lists (blocks r) ch)) @ L @ concat (drop (Suc k) (chain_lists (blocks r) ch))"
    using split_lists [OF r(2,3,4) oents] ents by simp
  then show ?thesis
    using s(1) chain cap split_chain_set [OF r(2,3,4)] r(7,8) idx s(3) old(2) new(4) all by (intro exI [of _ r']) simp
qed

definition ins_entry :: "key_comparator \<Rightarrow> entry \<Rightarrow> entry list \<Rightarrow> entry list" where
  "ins_entry C e es = filter (\<lambda>x. cmp_entry C x e < 0) es @ e # filter (\<lambda>x. cmp_entry C e x < 0) es"

lemma takeWhile_filter_mono: "sorted_wrt (\<lambda>a b. P b \<longrightarrow> P a) L \<Longrightarrow> takeWhile P L = filter P L \<and> dropWhile P L = filter (\<lambda>x. \<not> P x) L"
proof (induction L)
  case (Cons x L)
  then have "\<not> P x \<Longrightarrow> filter P L = [] \<and> filter (\<lambda>x. \<not> P x) L = L" by (auto simp: filter_empty_conv filter_id_conv)
  then show ?case using Cons by auto
qed simp

lemma filter_all: "\<forall>x\<in>set xs. P x \<Longrightarrow> filter P xs = xs"
  by (simp add: filter_id_conv)

lemma filter_none: "\<forall>x\<in>set xs. \<not> P x \<Longrightarrow> filter P xs = []"
  by (simp add: filter_empty_conv)

context key_order
begin

lemma ascending_mono:
  assumes "ascending C L" "\<forall>x\<in>set L. entry_ok x" "entry_ok e"
  shows "sorted_wrt (\<lambda>a b. 0 < cmp_entry C e b \<longrightarrow> 0 < cmp_entry C e a) L"
    "sorted_wrt (\<lambda>a b. cmp_entry C b e < 0 \<longrightarrow> cmp_entry C a e < 0) L"
    "sorted_wrt (\<lambda>a b. \<not> 0 < cmp_entry C b e \<longrightarrow> \<not> 0 < cmp_entry C a e) L"
    "sorted_wrt (\<lambda>a b. cmp_entry C e a < 0 \<longrightarrow> cmp_entry C e b < 0) L"
proof -
  have s: "sorted_wrt (\<lambda>a b. cmp_entry C a b < 0) L" using assms(1) by (simp add: ascending_def)
  have down: "cmp_entry C a e < 0" if "a \<in> set L" "b \<in> set L" "cmp_entry C a b < 0" "cmp_entry C b e \<le> 0" for a b
    using that cmp_less_trans(1) assms(2,3) by blast
  have up: "cmp_entry C e b < 0" if "a \<in> set L" "b \<in> set L" "cmp_entry C a b < 0" "cmp_entry C e a < 0" for a b
    using that cmp_less_trans(2) [of e a b] assms(2,3) by (meson less_imp_le)
  have flip: "0 < cmp_entry C e a \<longleftrightarrow> cmp_entry C a e < 0" if "a \<in> set L" for a
    using that cmp_flip [of a e] assms(2,3) by simp
  show "sorted_wrt (\<lambda>a b. cmp_entry C b e < 0 \<longrightarrow> cmp_entry C a e < 0) L"
    by (rule sorted_wrt_mono_rel [OF _ s]) (use down in \<open>meson less_imp_le\<close>)
  show "sorted_wrt (\<lambda>a b. 0 < cmp_entry C e b \<longrightarrow> 0 < cmp_entry C e a) L"
    by (rule sorted_wrt_mono_rel [OF _ s]) (use down flip in \<open>meson less_imp_le\<close>)
  show "sorted_wrt (\<lambda>a b. \<not> 0 < cmp_entry C b e \<longrightarrow> \<not> 0 < cmp_entry C a e) L"
    by (rule sorted_wrt_mono_rel [OF _ s]) (use down in \<open>meson less_asym not_less\<close>)
  show "sorted_wrt (\<lambda>a b. cmp_entry C e a < 0 \<longrightarrow> cmp_entry C e b < 0) L"
    by (rule sorted_wrt_mono_rel [OF _ s]) (use up in meson)
qed

lemma ascending_ins_entry:
  assumes "ascending C es" "\<forall>x\<in>set es. entry_ok x" "entry_ok e"
  shows "ascending C (ins_entry C e es)"
proof -
  have "sorted_wrt (\<lambda>a b. cmp_entry C a b < 0) (filter P es)" for P
    using assms(1) by (simp add: ascending_def sorted_wrt_filter)
  moreover have "cmp_entry C x y < 0" if "x \<in> set es" "y \<in> set es" "cmp_entry C x e < 0" "cmp_entry C e y < 0" for x y
    using that cmp_less_trans(1) [of x e y] assms(2,3) by simp
  ultimately show ?thesis unfolding ascending_def ins_entry_def by (auto simp: sorted_wrt_append)
qed

lemma ins_entry_split:
  assumes "\<forall>x\<in>set pre. cmp_entry C x e < 0" "\<forall>x\<in>set post. cmp_entry C e x < 0"
    and "\<forall>x\<in>set (pre @ L @ post). entry_ok x \<and> cmp_entry C x e \<noteq> 0" "entry_ok e" "ascending C L"
  shows "ins_entry C e (pre @ L @ post) =
    pre @ (takeWhile (\<lambda>m. 0 < cmp_entry C e m) L @ e # dropWhile (\<lambda>m. 0 < cmp_entry C e m) L) @ post"
proof -
  have asym: "\<not> (cmp_entry C x e < 0 \<and> cmp_entry C e x < 0)" if "x \<in> set (pre @ L @ post)" for x
    using that assms(3,4) cmp_flip [of x e] by fastforce
  have pre: "filter (\<lambda>x. cmp_entry C x e < 0) pre = pre" "filter (\<lambda>x. cmp_entry C e x < 0) pre = []"
    using assms(1) asym by (auto intro!: filter_all filter_none)
  have post: "filter (\<lambda>x. cmp_entry C e x < 0) post = post" "filter (\<lambda>x. cmp_entry C x e < 0) post = []"
    using assms(2) asym by (auto intro!: filter_all filter_none)
  have "sorted_wrt (\<lambda>a b. 0 < cmp_entry C e b \<longrightarrow> 0 < cmp_entry C e a) L"
    using ascending_mono(1) [OF assms(5)] assms(3,4) by simp
  note tw = takeWhile_filter_mono [OF this]
  have flip: "0 < cmp_entry C e x \<longleftrightarrow> cmp_entry C x e < 0" "\<not> 0 < cmp_entry C e x \<longleftrightarrow> cmp_entry C e x < 0"
    if "x \<in> set L" for x
  proof -
    have "entry_ok x" "cmp_entry C x e \<noteq> 0" using that assms(3) by auto
    then show "0 < cmp_entry C e x \<longleftrightarrow> cmp_entry C x e < 0" "\<not> 0 < cmp_entry C e x \<longleftrightarrow> cmp_entry C e x < 0"
      using cmp_flip [of x e] cmp_flip [of e x] assms(4) by auto
  qed
  have "filter (\<lambda>m. 0 < cmp_entry C e m) L = filter (\<lambda>x. cmp_entry C x e < 0) L"
    using flip(1) by (rule filter_cong [OF refl])
  moreover have "filter (\<lambda>m. \<not> 0 < cmp_entry C e m) L = filter (\<lambda>x. cmp_entry C e x < 0) L"
    using flip(2) by (rule filter_cong [OF refl])
  ultimately show ?thesis using tw pre post by (simp add: ins_entry_def)
qed

text \<open>An insertion puts the entry at its place in the order and keeps the invariant.\<close>

lemma Insert_ok:
  assumes inv: "rep_inv C r ch" and ok: "entry_ok e"
    and fresh: "\<forall>x\<in>set (concat (chain_lists (blocks r) ch)). cmp_entry C x e \<noteq> 0"
  shows "\<exists>r' ch'. Insert C r e = Some r' \<and> rep_inv C r' ch' \<and>
    concat (chain_lists (blocks r') ch') = ins_entry C e (concat (chain_lists (blocks r) ch)) \<and>
    leaf_capacity r' = leaf_capacity r \<and> seek_lock_scope r' = seek_lock_scope r \<and>
    total_keys r' = total_keys r + 1 \<and> block_moves (blocks r) (blocks r')"
proof -
  let ?H = "blocks r" and ?Ls = "chain_lists (blocks r) ch" and ?cap = "leaf_capacity r"
  let ?P = "\<lambda>m. 0 < cmp_entry C e m"
  have co: "chain_ok ?cap ?H ch" and asc: "ascending C (concat ?Ls)" and idx: "index_ok r"
    and ends: "rep_head r = Some (hd ch)" "rep_tail r = Some (last ch)" using inv by (simp_all add: rep_inv_def)
  have shape: "ch \<noteq> []" "distinct ch" "set ch = {..<length ?H}" "links ?H ch" "1 \<le> ?cap" "?cap \<le> kMaxCapacity"
    using co by (simp_all add: chain_ok_def)
  obtain k where k: "k < length ch" "FindLeafBlockForInsert C r e = Some (Some (ch ! k))"
      "\<forall>i<k. \<forall>x\<in>set (?Ls ! i). cmp_entry C x e < 0"
      "\<forall>i. k < i \<and> i < length ch \<longrightarrow> (\<forall>x\<in>set (?Ls ! i). cmp_entry C e x < 0)"
    using find_insert_ok [OF inv ok fresh] by blast
  let ?i = "ch ! k" and ?L = "?Ls ! k"
  let ?b = "?H ! ?i" and ?left = "length (takeWhile ?P ?L)"
  note blk = chain_block [OF co k(1)] and d = chain_okD [OF co k(1)]
  have okx: "entry_ok x" if "x \<in> set (concat ?Ls)" for x using chain_entry_ok [OF co that] .
  have Lok: "\<forall>x\<in>set ?L. entry_ok x" using okx k(1) by (metis concat_nth_mem length_chain_lists)
  have Lasc: "ascending C ?L" using asc k(1) unfolding ascending_def by (intro sorted_concat_part) simp_all
  have left: "?left \<le> length ?L" by (rule length_takeWhile_le)
  have es: "length (blk_entries ?b) = kMaxCapacity" "length ?L < kMaxCapacity" "length ?L \<le> max 1 (?cap - 1)"
    using d(4) blk(6) blk_ok_facts(2) [OF d(4) shape(6)] by (auto simp: blk_ok_def)
  have search: "block_search ?P (blk_entries ?b) 0 (blk_count ?b) = Some ?left"
    using block_search_ok [OF blk(7) ascending_mono(1) [OF Lasc Lok ok]] blk(6) by simp
  obtain sh where sh: "for_loop (rev [?left + 1..<blk_count ?b + 1]) (\<lambda>i es. do { x \<leftarrow> rd es (i - 1); wr es i x })
      (blk_entries ?b) = Some sh" "length sh = length (blk_entries ?b)"
      "\<forall>i<length (blk_entries ?b). sh ! i = (if ?left < i \<and> i \<le> blk_count ?b then blk_entries ?b ! (i - 1) else blk_entries ?b ! i)"
    using shift_loop [of ?left "blk_count ?b" "blk_entries ?b"] left blk(6) es by auto
  let ?L' = "insert_at ?left e ?L"
  let ?b1 = "?b\<lparr>blk_version := blk_version ?b + 1 + 1, blk_entries := sh[?left := Some e], blk_count := blk_count ?b + 1\<rparr>"
  let ?H1 = "?H[?i := ?b1]"
  let ?r1 = "r\<lparr>blocks := ?H1, total_keys := total_keys r + 1\<rparr>"
  let ?r2 = "if ?left = 0 then publish ?r1 (ExtractSlicePrefix64 (ikey e)) ?i else ?r1"
  have h1: "holds (blk_entries ?b1) ?L'"
    using holds_stored [OF blk(7), of ?left sh e] left es sh(2,3) blk(6) by simp
  define r2 where "r2 = ?r2"
  have bH: "blocks r2 = ?H1" "leaf_capacity r2 = ?cap" "rep_head r2 = rep_head r" "rep_tail r2 = rep_tail r"
      "total_keys r2 = total_keys r + 1" "seek_lock_scope r2 = seek_lock_scope r" by (simp_all add: r2_def)
  have at: "?H1 ! ?i = ?b1" using d(1) by simp
  have ne: "?H1 ! i = ?H ! i" if "i \<noteq> ?i" for i using that by simp
  have ins: "Insert C r e = (if length ?L' \<ge> ?cap then SplitLeafBlock r2 ?i else Some r2)"
  proof -
    have "wr sh ?left (Some e) = Some (sh[?left := Some e])" using left sh(2) es by simp
    moreover have "rd ?H1 ?i = Some ?b1" using d(1) by simp
    moreover have "ExtractKeyPrefix64 (Some e) = Some (ExtractSlicePrefix64 (ikey e))"
      using entry_okD [OF ok] by (simp add: ExtractKeyPrefix64_def)
    ultimately show ?thesis
      using k(2) blk(1,6) search sh(1) d(1) by (simp add: Insert_def Let_def r2_def)
  qed
  have Lp: "?L' = takeWhile ?P ?L @ e # dropWhile ?P ?L"
    by (simp add: insert_at_def takeWhile_eq_take [symmetric] dropWhile_eq_drop [symmetric])
  have pre: "\<forall>x\<in>set (concat (take k ?Ls)). cmp_entry C x e < 0"
    using k(3) by (blast dest: in_concat_take)
  have post: "\<forall>x\<in>set (concat (drop (Suc k) ?Ls)). cmp_entry C e x < 0"
    using k(4) in_concat_drop [of _ "Suc k" ?Ls] by (metis Suc_le_lessD length_chain_lists)
  have cs: "concat ?Ls = concat (take k ?Ls) @ ?L @ concat (drop (Suc k) ?Ls)" using k(1) by (intro concat_split) simp
  have abs: "concat (take k ?Ls) @ ?L' @ concat (drop (Suc k) ?Ls) = ins_entry C e (concat ?Ls)"
    using ins_entry_split [OF pre post, of ?L] okx fresh ok Lasc unfolding cs [symmetric] Lp by simp
  have asc': "ascending C (ins_entry C e (concat ?Ls))" using ascending_ins_entry [OF asc] okx ok by simp
  have L'ok: "\<forall>x\<in>set ?L'. entry_ok x" using Lok ok by simp
  have links1: "links ?H1 ch" by (rule links_update [OF shape(4)]) simp_all
  have idx1: "index_ok ?r1" using index_ok_mono [OF idx, of ?r1] by simp
  have idx2: "index_ok r2"
  proof (cases "?left = 0")
    case True
    show ?thesis unfolding r2_def if_P [OF True] using d(1) by (intro index_ok_publish [OF idx1]) simp
  next
    case False
    show ?thesis unfolding r2_def if_not_P [OF False] by (rule idx1)
  qed
  have ev: "even (unat (blk_version ?b1))" using even_version blk(8) by (simp add: add.assoc)
  have moves: "block_moves ?H ?H1" using at ne by (intro block_movesI [where i = ?i]) simp_all
  show ?thesis
  proof (cases "length ?L' \<ge> ?cap")
    case False
    have "blk_ok ?cap ?b1"
      using False es(1) sh(2) h1 blk(6) L'ok ev by (intro blk_ok_holds [where L = ?L']) auto
    then have "chain_ok ?cap ?H1 ch"
      using co links1 d(1) unfolding chain_ok_def by (auto simp: nth_list_update dest!: set_update_subset_insert [THEN subsetD])
    moreover have "concat (chain_lists ?H1 ch) = ins_entry C e (concat ?Ls)"
    proof -
      have "blk_ents (?H1 ! ?i) = ?L'" unfolding at using h1 blk(6) by (intro holds_ents) simp_all
      moreover have "blk_ents (?H1 ! (ch ! j)) = blk_ents (?H ! (ch ! j))" if "j < length ch" "j \<noteq> k" for j
        using that ne shape(2) k(1) by (simp add: nth_eq_iff_index_eq)
      ultimately have "chain_lists ?H1 ch = ?Ls[k := ?L']" using chain_lists_update [OF shape(2) k(1), of ?H1 ?H] by simp
      then show ?thesis using abs concat_update [of k ?Ls ?L'] k(1) by simp
    qed
    moreover have "Insert C r e = Some r2" using False ins by simp
    ultimately show ?thesis
      using bH ends idx2 asc' moves by (intro exI [of _ r2] exI [of _ ch]) (simp add: rep_inv_def)
  next
    case True
    have "\<exists>r'. SplitLeafBlock r2 ?i = Some r' \<and>
      chain_ok (leaf_capacity r') (blocks r') (split_chain ch k (length (blocks r2))) \<and>
      concat (chain_lists (blocks r') (split_chain ch k (length (blocks r2)))) =
        concat (take k (chain_lists (blocks r2) ch)) @ ?L' @ concat (drop (Suc k) (chain_lists (blocks r2) ch)) \<and>
      rep_head r' = Some (hd (split_chain ch k (length (blocks r2)))) \<and>
      rep_tail r' = Some (last (split_chain ch k (length (blocks r2)))) \<and> index_ok r' \<and>
      leaf_capacity r' = leaf_capacity r2 \<and> seek_lock_scope r' = seek_lock_scope r2 \<and> total_keys r' = total_keys r2 \<and>
      length (blocks r') = Suc (length (blocks r2)) \<and> blk_version (blocks r' ! length (blocks r2)) = 0 \<and>
      blk_version (blocks r' ! ?i) = blk_version ?b1 + 2 \<and>
      (\<forall>i<length (blocks r2). i \<noteq> ?i \<longrightarrow> blk_count (blocks r' ! i) = blk_count (blocks r2 ! i) \<and>
        blk_entries (blocks r' ! i) = blk_entries (blocks r2 ! i) \<and> blk_version (blocks r' ! i) = blk_version (blocks r2 ! i))"
    proof (rule split_step [where b = ?b1])
      show "\<And>i. i < length (blocks r2) \<Longrightarrow> i \<noteq> ?i \<Longrightarrow> blk_ok (leaf_capacity r2) (blocks r2 ! i)"
        using co ne unfolding bH by (simp add: chain_ok_def)
      show "\<And>i. i \<in> set (tl ch) \<Longrightarrow> i \<noteq> ?i \<Longrightarrow> 0 < blk_count (blocks r2 ! i)"
        using co ne unfolding bH by (simp add: chain_ok_def)
      show "0 < k \<Longrightarrow> 2 \<le> length ?L'" using blk(3) by (cases ?L) auto
    qed (use links1 shape k(1) ends idx2 at h1 es sh(2) blk(6) L'ok ev True in \<open>simp_all add: bH del: if_split\<close>)
    then obtain r' where s: "SplitLeafBlock r2 ?i = Some r'"
        "chain_ok (leaf_capacity r') (blocks r') (split_chain ch k (length ?H))"
        "concat (chain_lists (blocks r') (split_chain ch k (length ?H))) =
          concat (take k (chain_lists ?H1 ch)) @ ?L' @ concat (drop (Suc k) (chain_lists ?H1 ch))"
        "rep_head r' = Some (hd (split_chain ch k (length ?H)))" "rep_tail r' = Some (last (split_chain ch k (length ?H)))"
        "index_ok r'" "leaf_capacity r' = ?cap" "seek_lock_scope r' = seek_lock_scope r" "total_keys r' = total_keys r + 1"
        "length (blocks r') = Suc (length ?H)" "blk_version (blocks r' ! length ?H) = 0"
        "blk_version (blocks r' ! ?i) = blk_version ?b1 + 2"
        "\<forall>i<length ?H. i \<noteq> ?i \<longrightarrow> blk_count (blocks r' ! i) = blk_count (?H1 ! i) \<and>
          blk_entries (blocks r' ! i) = blk_entries (?H1 ! i) \<and> blk_version (blocks r' ! i) = blk_version (?H1 ! i)"
      unfolding bH length_list_update by (elim exE conjE) blast
    have same: "take k (chain_lists ?H1 ch) = take k ?Ls" "drop (Suc k) (chain_lists ?H1 ch) = drop (Suc k) ?Ls"
    proof -
      have "chain_lists ?H1 ch = ?Ls[k := blk_ents (?H1 ! ?i)]"
        using ne shape(2) k(1) by (intro chain_lists_update) (simp_all add: nth_eq_iff_index_eq)
      then show "take k (chain_lists ?H1 ch) = take k ?Ls" "drop (Suc k) (chain_lists ?H1 ch) = drop (Suc k) ?Ls" by simp_all
    qed
    have conc: "concat (chain_lists (blocks r') (split_chain ch k (length ?H))) = ins_entry C e (concat ?Ls)"
      using s(3) abs unfolding same by simp
    have "block_moves ?H (blocks r')"
    proof (rule block_movesI [where i = ?i])
      have "blk_version (blocks r' ! ?i) = blk_version ?b + 4" using s(12) by simp
      then show "blk_version (blocks r' ! ?i) = blk_version ?b + 2 \<or> blk_version (blocks r' ! ?i) = blk_version ?b + 4" by blast
    next
      fix j
      assume "length ?H \<le> j" "j < length (blocks r')"
      then have "j = length ?H" using s(10) by simp
      then show "blk_version (blocks r' ! j) = 0" using s(11) by simp
    qed (use s(10,13) ne in simp_all)
    then show ?thesis
      using s conc asc' ins True
      by (intro exI [of _ r'] exI [of _ "split_chain ch k (length ?H)"]) (simp add: rep_inv_def del: if_split)
  qed
qed

end

end
