(* ===== verification/Rocks_Lookup.thy ===== *)
theory Rocks_Lookup
  imports Rocks_Memtable_Correct
begin

text \<open>
  Lookups of the RocksDB memtable: membership, the versions of a user key in the order a lookup key asks
  for them, and the release of the blocks. Every scan starts at the block the index proposes and moves
  along the chain, so the answer is that of a search in the list of all entries.
\<close>

section \<open>Scans of the chain\<close>

definition blk_at :: "nat list \<Rightarrow> nat \<Rightarrow> nat option" where
  "blk_at ch j = (if j < length ch then Some (ch ! j) else None)"

lemma deliver_append:
  "deliver cb (xs @ ys) s = (if fst (deliver cb xs s) then deliver cb ys (snd (deliver cb xs s)) else (False, snd (deliver cb xs s)))"
  by (induction xs arbitrary: s) (auto simp: Let_def split: prod.splits)

lemma chain_part_ok: "chain_ok cap H ch \<Longrightarrow> j < length ch \<Longrightarrow> x \<in> set (chain_lists H ch ! j) \<Longrightarrow> entry_ok x"
  using chain_entry_ok [of cap H ch x] concat_nth_mem [of j "chain_lists H ch" x] by simp

lemma chain_drop_ok: "chain_ok cap H ch \<Longrightarrow> x \<in> set (concat (drop j (chain_lists H ch))) \<Longrightarrow> entry_ok x"
  using in_concat_drop [of x j "chain_lists H ch"] chain_part_ok [of cap H ch _ x] by auto

lemma match_run_ok:
  assumes "holds es L" "\<forall>x\<in>set L. entry_ok x"
  shows "left \<le> length L \<Longrightarrow> match_run es u [left..<length L] =
    Some (takeWhile (\<lambda>x. ukey x = u) (drop left L), \<exists>x\<in>set (drop left L). ukey x \<noteq> u)"
proof (induction "length L - left" arbitrary: left)
  case 0
  then show ?case by simp
next
  case (Suc n)
  then have l: "left < length L" by simp
  let ?e = "L ! left"
  have e: "rd es left = Some (Some ?e)" using assms(1) l by (auto simp: holds_def rd_def)
  note k = entry_okD [OF bspec [OF assms(2) nth_mem [OF l]]]
  have uk: "ukey ?e = take (length (ikey ?e) - 8) (ikey ?e)" using k by (simp add: ukey_def user_part_def)
  have up: "[left..<length L] = left # [Suc left..<length L]" using l by (simp add: upt_conv_Cons)
  have dr: "drop left L = ?e # drop (Suc left) L" using l by (simp add: Cons_nth_drop_Suc)
  have "match_run es u [Suc left..<length L] =
      Some (takeWhile (\<lambda>x. ukey x = u) (drop (Suc left) L), \<exists>x\<in>set (drop (Suc left) L). ukey x \<noteq> u)"
    using Suc.hyps(1) [of "Suc left"] Suc.hyps(2) l by simp
  then show ?case unfolding up dr using e k uk by (simp add: slice_eq_iff)
qed

lemma block_matches_ok:
  assumes "chain_ok cap H ch" "j < length ch" "sorted_wrt (\<lambda>a b. P b \<longrightarrow> P a) (chain_lists H ch ! j)"
  shows "block_matches P (H ! (ch ! j)) u =
    Some (takeWhile (\<lambda>x. ukey x = u) (dropWhile P (chain_lists H ch ! j)),
      \<exists>x\<in>set (dropWhile P (chain_lists H ch ! j)). ukey x \<noteq> u)"
proof -
  let ?L = "chain_lists H ch ! j" and ?b = "H ! (ch ! j)"
  note b = chain_block [OF assms(1,2)]
  have ok: "\<forall>x\<in>set ?L. entry_ok x"
    using chain_part_ok [OF assms(1,2)] by blast
  have cap: "length ?L < kMaxCapacity"
    using chain_okD(4) [OF assms(1,2)] assms(1) b(6) blk_ok_facts(2) by (simp add: chain_ok_def)
  have "match_run (blk_entries ?b) u [length (takeWhile P ?L)..<blk_count ?b] =
      Some (takeWhile (\<lambda>x. ukey x = u) (dropWhile P ?L), \<exists>x\<in>set (dropWhile P ?L). ukey x \<noteq> u)"
    using match_run_ok [OF b(7) ok, of "length (takeWhile P ?L)" u] length_takeWhile_le [of P ?L] b(6) by (simp add: dropWhile_eq_drop [symmetric])
  moreover have "length (takeWhile (\<lambda>x. ukey x = u) (dropWhile P ?L)) \<le> kMaxCapacity"
    using length_takeWhile_le [of "\<lambda>x. ukey x = u" "dropWhile P ?L"] length_dropWhile_le [of P ?L] cap by linarith
  ultimately show ?thesis
    using block_search_ok [OF b(7) assms(3)] b(6,8) by (simp add: block_matches_def bracket_def)
qed

lemma concat_drop_step: "j < length Ls \<Longrightarrow> concat (drop j Ls) = Ls ! j @ concat (drop (Suc j) Ls)"
  by (metis Cons_nth_drop_Suc concat.simps(2))

context key_order
begin

lemma part_ascending:
  assumes "chain_ok cap H ch" "ascending C (concat (chain_lists H ch))" "j < length ch"
  shows "ascending C (chain_lists H ch ! j)" "\<forall>x\<in>set (chain_lists H ch ! j). entry_ok x"
    "x \<in> set (chain_lists H ch ! j) \<Longrightarrow> y \<in> set (concat (drop (Suc j) (chain_lists H ch))) \<Longrightarrow> cmp_entry C x y < 0"
proof -
  show "ascending C (chain_lists H ch ! j)"
    using assms(2,3) unfolding ascending_def by (intro sorted_concat_part) simp_all
  show "\<forall>x\<in>set (chain_lists H ch ! j). entry_ok x"
    using chain_part_ok [OF assms(1,3)] by blast
  show "cmp_entry C x y < 0" if x: "x \<in> set (chain_lists H ch ! j)" and y: "y \<in> set (concat (drop (Suc j) (chain_lists H ch)))"
  proof -
    obtain i where "Suc j \<le> i" "i < length (chain_lists H ch)" "y \<in> set (chain_lists H ch ! i)"
      using in_concat_drop [OF y] by blast
    then show ?thesis
      using sorted_concat_nth [OF assms(2) [unfolded ascending_def], of j i x y] x by simp
  qed
qed

lemma contains_from_ok:
  assumes "chain_ok cap H ch" "ascending C (concat (chain_lists H ch))" "entry_ok key"
  shows "j \<le> length ch \<Longrightarrow> contains_from C H key (blk_at ch j) =
    Some (\<exists>x\<in>set (concat (drop j (chain_lists H ch))). cmp_entry C key x = 0)"
proof (induction "length ch - j" arbitrary: j)
  case 0
  then show ?case by (subst contains_from.simps) (simp add: blk_at_def)
next
  case (Suc n)
  then have j: "j < length ch" by simp
  let ?L = "chain_lists H ch ! j" and ?R = "concat (drop (Suc j) (chain_lists H ch))"
  note b = chain_block [OF assms(1) j] and p = part_ascending [OF assms(1,2) j]
  have IH: "contains_from C H key (blk_at ch (Suc j)) = Some (\<exists>x\<in>set ?R. cmp_entry C key x = 0)"
    using Suc.hyps(1) [of "Suc j"] Suc.hyps(2) j by simp
  have nx: "next_leaf (H ! (ch ! j)) = blk_at ch (Suc j)" using chain_okD(3) [OF assms(1) j] by (simp add: blk_at_def)
  have m: "match_search (cmp_entry C key) (blk_entries (H ! (ch ! j))) 0 (blk_count (H ! (ch ! j))) =
      Some (\<exists>x\<in>set ?L. cmp_entry C key x = 0)"
    using match_search_ok [OF b(7)] ascending_mono(1,4) [OF p(1,2) assms(3)] b(6)
    by (simp add: sorted_wrt_iff_nth_less)
  have stop: "\<not> (\<exists>x\<in>set ?R. cmp_entry C key x = 0)" if "?L \<noteq> []" "cmp_entry C key (last ?L) < 0"
  proof -
    have "cmp_entry C key x < 0" if x: "x \<in> set ?R" for x
    proof -
      have "entry_ok x" using x by (rule chain_drop_ok [OF assms(1)])
      moreover have "entry_ok (last ?L)" "cmp_entry C (last ?L) x < 0" using p(2,3) x \<open>?L \<noteq> []\<close> by simp_all
      ultimately show ?thesis
        by (intro cmp_less_trans(1) [OF assms(3) _ _ \<open>cmp_entry C key (last ?L) < 0\<close>] less_imp_le)
    qed
    then show ?thesis by fastforce
  qed
  have at: "blk_at ch j = Some (ch ! j)" using j by (simp add: blk_at_def)
  have eq: "contains_from C H key (blk_at ch j) =
      (if \<exists>x\<in>set ?L. cmp_entry C key x = 0 then Some True
       else if ?L \<noteq> [] \<and> cmp_entry C key (last ?L) < 0 then Some False
       else contains_from C H key (blk_at ch (Suc j)))"
    using at b(1,8) contains_from.simps [of C H key "Some (ch ! j)"] by (simp add: bracket_def m b(5) non_null_def nx)
  show ?case
    unfolding concat_drop_step [of j "chain_lists H ch", unfolded length_chain_lists, OF j] eq IH
    using stop by auto
qed

lemma Contains_ok:
  assumes "rep_inv C r ch" "entry_ok key"
  shows "Contains C r key = Some (\<exists>x\<in>set (concat (chain_lists (blocks r) ch)). cmp_entry C key x = 0)"
proof -
  let ?Ls = "chain_lists (blocks r) ch"
  have "seek_target key [] (Some key)" using assms(2) by (simp add: seek_target_def)
  then obtain k where k: "k < length ch" "FindLeafBlockForSeek C r [] (Some key) = Some (Some (ch ! k))"
      "\<forall>i<k. \<forall>x\<in>set (?Ls ! i). cmp_entry C x key < 0"
    using find_seek_ok [OF assms(1)] by blast
  have co: "chain_ok (leaf_capacity r) (blocks r) ch" "ascending C (concat ?Ls)" using assms(1) by (simp_all add: rep_inv_def)
  have "cmp_entry C key x \<noteq> 0" if x: "x \<in> set (concat (take k ?Ls))" for x
  proof -
    obtain i where i: "i < k" "i < length ?Ls" "x \<in> set (?Ls ! i)" using in_concat_take [OF x] by blast
    then have "cmp_entry C x key < 0" "entry_ok x" using k(3) chain_part_ok [OF co(1)] by simp_all
    then show ?thesis using cmp_flip [of x key] assms(2) by simp
  qed
  moreover have "concat ?Ls = concat (take k ?Ls) @ concat (drop k ?Ls)" by (metis append_take_drop_id concat_append)
  ultimately have "(\<exists>x\<in>set (concat (drop k ?Ls)). cmp_entry C key x = 0) \<longleftrightarrow> (\<exists>x\<in>set (concat ?Ls). cmp_entry C key x = 0)"
    by (metis (no_types, lifting) UnE UnI2 set_append)
  then show ?thesis
    using k(1,2) contains_from_ok [OF co assms(2), of k] by (simp add: Contains_def blk_at_def)
qed

lemma GetAfterDelivered_ok:
  assumes "chain_ok cap H ch" "ascending C (concat (chain_lists H ch))"
  shows "j \<le> length ch \<Longrightarrow> entry_ok l \<Longrightarrow> \<forall>x\<in>set (concat (drop j (chain_lists H ch))). cmp_entry C l x < 0 \<Longrightarrow>
    GetAfterDelivered C H (blk_at ch j) l u cb s =
      Some (snd (deliver cb (takeWhile (\<lambda>x. ukey x = u) (concat (drop j (chain_lists H ch)))) s))"
proof (induction "length ch - j" arbitrary: j l s)
  case 0
  then show ?case by (subst GetAfterDelivered.simps) (simp add: blk_at_def)
next
  case (Suc n)
  then have j: "j < length ch" by simp
  let ?L = "chain_lists H ch ! j" and ?R = "concat (drop (Suc j) (chain_lists H ch))" and ?Q = "\<lambda>x. ukey x = u"
  note b = chain_block [OF assms(1) j] and p = part_ascending [OF assms j]
  have split: "concat (drop j (chain_lists H ch)) = ?L @ ?R" using concat_drop_step [of j "chain_lists H ch"] j by simp
  have nx: "next_leaf (H ! (ch ! j)) = blk_at ch (Suc j)" using chain_okD(3) [OF assms(1) j] by (simp add: blk_at_def)
  have at: "blk_at ch j = Some (ch ! j)" using j by (simp add: blk_at_def)
  have gt: "0 < cmp_entry C x l" if "x \<in> set ?L" for x
    using Suc.prems(2,3) that p(2) cmp_flip [of l x] unfolding split by simp
  have all: "dropWhile (\<lambda>m. \<not> 0 < cmp_entry C m l) ?L = ?L"
    using gt by (cases ?L) auto
  have bm: "block_matches (\<lambda>m. \<not> 0 < cmp_entry C m l) (H ! (ch ! j)) u = Some (takeWhile ?Q ?L, \<exists>x\<in>set ?L. ukey x \<noteq> u)"
    using block_matches_ok [OF assms(1) j ascending_mono(3) [OF p(1,2) Suc.prems(2)], of u] unfolding all .
  let ?d = "deliver cb (takeWhile ?Q ?L) s"
  have eq: "GetAfterDelivered C H (blk_at ch j) l u cb s =
      (if \<not> fst ?d \<or> (\<exists>x\<in>set ?L. ukey x \<noteq> u) then Some (snd ?d)
       else GetAfterDelivered C H (blk_at ch (Suc j)) (if takeWhile ?Q ?L = [] then l else last (takeWhile ?Q ?L)) u cb (snd ?d))"
    unfolding at GetAfterDelivered.simps [of C H "Some (ch ! j)"] using b(1) by (simp add: bm nx Let_def)
  show ?case
  proof (cases "\<exists>x\<in>set ?L. ukey x \<noteq> u")
    case True
    then have "takeWhile ?Q (?L @ ?R) = takeWhile ?Q ?L" by (auto simp: takeWhile_append)
    then show ?thesis unfolding split eq using True by simp
  next
    case False
    then have tw: "takeWhile ?Q ?L = ?L" "takeWhile ?Q (?L @ ?R) = ?L @ takeWhile ?Q ?R" by (simp_all add: takeWhile_append)
    let ?l = "if ?L = [] then l else last ?L"
    have "entry_ok ?l" using p(2) Suc.prems(2) by simp
    moreover have "\<forall>x\<in>set ?R. cmp_entry C ?l x < 0"
    proof (cases "?L = []")
      case True
      then show ?thesis using Suc.prems(3) unfolding split by simp
    next
      case False
      then show ?thesis using p(3) [of "last ?L"] by (simp del: set_concat)
    qed
    ultimately have "GetAfterDelivered C H (blk_at ch (Suc j)) ?l u cb (snd ?d) = Some (snd (deliver cb (takeWhile ?Q ?R) (snd ?d)))"
      using Suc.hyps(1) [of "Suc j" ?l] Suc.hyps(2) j by simp
    then show ?thesis unfolding split eq tw using False by (simp add: deliver_append)
  qed
qed

lemma get_from_ok:
  assumes "chain_ok cap H ch" "ascending C (concat (chain_lists H ch))" "entry_ok key"
  shows "j \<le> length ch \<Longrightarrow> get_from C H (blk_at ch j) key u cb s =
    Some (snd (deliver cb (takeWhile (\<lambda>x. ukey x = u)
      (dropWhile (\<lambda>x. \<not> 0 \<le> cmp_entry C x key) (concat (drop j (chain_lists H ch))))) s))"
proof (induction "length ch - j" arbitrary: j s)
  case 0
  then show ?case by (subst get_from.simps) (simp add: blk_at_def)
next
  case (Suc n)
  then have j: "j < length ch" by simp
  let ?L = "chain_lists H ch ! j" and ?R = "concat (drop (Suc j) (chain_lists H ch))" and ?Q = "\<lambda>x. ukey x = u"
  let ?P = "\<lambda>x. \<not> 0 \<le> cmp_entry C x key"
  let ?D = "dropWhile ?P ?L"
  note b = chain_block [OF assms(1) j] and p = part_ascending [OF assms(1,2) j]
  have split: "concat (drop j (chain_lists H ch)) = ?L @ ?R" using concat_drop_step [of j "chain_lists H ch"] j by simp
  have nx: "next_leaf (H ! (ch ! j)) = blk_at ch (Suc j)" using chain_okD(3) [OF assms(1) j] by (simp add: blk_at_def)
  have at: "blk_at ch j = Some (ch ! j)" using j by (simp add: blk_at_def)
  have mono: "sorted_wrt (\<lambda>a b. ?P b \<longrightarrow> ?P a) ?L" using ascending_mono(2) [OF p(1,2) assms(3)] by (simp add: not_le)
  note bm = block_matches_ok [OF assms(1) j mono, of u]
  let ?d = "deliver cb (takeWhile ?Q ?D) s"
  have eq: "get_from C H (blk_at ch j) key u cb s =
      (if \<not> fst ?d \<or> (\<exists>x\<in>set ?D. ukey x \<noteq> u) then Some (snd ?d)
       else if takeWhile ?Q ?D \<noteq> [] then GetAfterDelivered C H (blk_at ch (Suc j)) (last (takeWhile ?Q ?D)) u cb (snd ?d)
       else get_from C H (blk_at ch (Suc j)) key u cb (snd ?d))"
    unfolding at get_from.simps [of C H "Some (ch ! j)"] using b(1) by (simp add: bm nx Let_def)
  consider (none) "?D = []" | (other) "\<exists>x\<in>set ?D. ukey x \<noteq> u" | (run) "?D \<noteq> []" "\<forall>x\<in>set ?D. ukey x = u" by blast
  then show ?case
  proof cases
    case none
    then have dw: "dropWhile ?P (?L @ ?R) = dropWhile ?P ?R" by (simp add: dropWhile_append dropWhile_eq_Nil_conv)
    show ?thesis using Suc.hyps(1) [of "Suc j" s] Suc.hyps(2) j unfolding split eq dw none by simp
  next
    case other
    then have "?D \<noteq> []" by (metis empty_iff list.set(1))
    then have "dropWhile ?P (?L @ ?R) = ?D @ ?R" by (auto simp: dropWhile_append dropWhile_eq_Nil_conv)
    moreover have "takeWhile ?Q (?D @ ?R) = takeWhile ?Q ?D" using other by (auto simp: takeWhile_append)
    ultimately show ?thesis unfolding split eq using other by simp
  next
    case run
    then have dw: "dropWhile ?P (?L @ ?R) = ?D @ ?R" by (auto simp: dropWhile_append dropWhile_eq_Nil_conv)
    have tw: "takeWhile ?Q ?D = ?D" "takeWhile ?Q (?D @ ?R) = ?D @ takeWhile ?Q ?R" using run(2) by (simp_all add: takeWhile_append)
    have "last ?D \<in> set ?L" using run(1) by (meson last_in_set set_dropWhileD)
    then have "entry_ok (last ?D)" "\<forall>x\<in>set ?R. cmp_entry C (last ?D) x < 0" using p(2,3) by simp_all
    then have "GetAfterDelivered C H (blk_at ch (Suc j)) (last ?D) u cb (snd ?d) = Some (snd (deliver cb (takeWhile ?Q ?R) (snd ?d)))"
      using GetAfterDelivered_ok [OF assms(1,2), of "Suc j" "last ?D"] j by simp
    then show ?thesis unfolding split eq dw tw using run by (simp add: deliver_append)
  qed
qed

lemma versions_run:
  assumes "ascending C es" "\<forall>x\<in>set es. entry_ok x" "entry_ok key"
  shows "takeWhile (\<lambda>x. ukey x = ukey key) (dropWhile (\<lambda>x. \<not> 0 \<le> cmp_entry C x key) es) =
    filter (\<lambda>x. ukey x = ukey key \<and> cmp_entry C key x \<le> 0) es"
proof -
  let ?P = "\<lambda>x. \<not> 0 \<le> cmp_entry C x key" and ?Q = "\<lambda>x. ukey x = ukey key"
  let ?D = "filter (\<lambda>x. \<not> ?P x) es"
  have "sorted_wrt (\<lambda>a b. ?P b \<longrightarrow> ?P a) es" using ascending_mono(2) [OF assms] by (simp add: not_le)
  then have d: "dropWhile ?P es = ?D" by (simp add: takeWhile_filter_mono)
  have ge: "cmp_entry C key x \<le> 0 \<longleftrightarrow> \<not> ?P x" if "entry_ok x" for x
    using cmp_not_less [OF that assms(3)] by auto
  have "sorted_wrt (\<lambda>a b. cmp_entry C a b < 0) ?D" using assms(1) by (simp add: ascending_def sorted_wrt_filter)
  then have "sorted_wrt (\<lambda>a b. ?Q b \<longrightarrow> ?Q a) ?D"
  proof (rule sorted_wrt_mono_rel [rotated])
    fix a b
    assume a: "a \<in> set ?D" and b: "b \<in> set ?D" and "cmp_entry C a b < 0"
    moreover have "entry_ok a" "entry_ok b" using a b assms(2) by auto
    moreover have "cmp_entry C key a \<le> 0" using a ge [OF \<open>entry_ok a\<close>] by simp
    ultimately show "?Q b \<longrightarrow> ?Q a" using cmp_user [OF assms(3), of a b] by (simp add: less_imp_le)
  qed
  then have "takeWhile ?Q ?D = filter ?Q ?D" by (rule takeWhile_filter_mono [THEN conjunct1])
  also have "\<dots> = filter (\<lambda>x. ukey x = ukey key \<and> cmp_entry C key x \<le> 0) es"
    using ge assms(2) by (auto intro!: filter_cong)
  finally show ?thesis unfolding d .
qed

lemma Get_ok:
  assumes "rep_inv C r ch" "entry_ok (lk_memtable_key k)" "ukey (lk_memtable_key k) = lk_user_key k"
  shows "Get C r k cb s =
    Some (snd (deliver cb (filter (\<lambda>x. ukey x = lk_user_key k \<and> cmp_entry C (lk_memtable_key k) x \<le> 0)
      (concat (chain_lists (blocks r) ch))) s))"
proof -
  let ?Ls = "chain_lists (blocks r) ch" and ?key = "lk_memtable_key k"
  have "seek_target ?key (lk_internal_key k) (Some ?key)" using assms(2) by (simp add: seek_target_def)
  then obtain i where i: "i < length ch" "FindLeafBlockForSeek C r (lk_internal_key k) (Some ?key) = Some (Some (ch ! i))"
      "\<forall>j<i. \<forall>x\<in>set (?Ls ! j). cmp_entry C x ?key < 0"
    using find_seek_ok [OF assms(1)] by blast
  have co: "chain_ok (leaf_capacity r) (blocks r) ch" "ascending C (concat ?Ls)" using assms(1) by (simp_all add: rep_inv_def)
  have "\<forall>x\<in>set (concat (take i ?Ls)). \<not> 0 \<le> cmp_entry C x ?key" using i(3) in_concat_take [of _ i ?Ls] by (metis not_le)
  moreover have "concat ?Ls = concat (take i ?Ls) @ concat (drop i ?Ls)" by (metis append_take_drop_id concat_append)
  ultimately have "dropWhile (\<lambda>x. \<not> 0 \<le> cmp_entry C x ?key) (concat ?Ls) = dropWhile (\<lambda>x. \<not> 0 \<le> cmp_entry C x ?key) (concat (drop i ?Ls))"
    by (simp add: dropWhile_append)
  moreover have "takeWhile (\<lambda>x. ukey x = lk_user_key k) (dropWhile (\<lambda>x. \<not> 0 \<le> cmp_entry C x ?key) (concat ?Ls)) =
      filter (\<lambda>x. ukey x = lk_user_key k \<and> cmp_entry C ?key x \<le> 0) (concat ?Ls)"
    using versions_run [OF co(2) _ assms(2)] chain_entry_ok [OF co(1)] assms(3) by simp
  ultimately show ?thesis
    using i(1,2) get_from_ok [OF co assms(2), of i "lk_user_key k" cb s] by (simp add: Get_def blk_at_def)
qed

end

section \<open>Construction and release\<close>

lemma create_inv:
  "rep_inv C (ExpanseMemTableRep cap scope) [0]"
  "concat (chain_lists (blocks (ExpanseMemTableRep cap scope)) [0]) = []"
proof -
  have ok: "blk_ok c LeafBlock" for c by (simp add: blk_ok_def LeafBlock_def blk_ents_def)
  have c: "1 \<le> leaf_capacity (ExpanseMemTableRep cap scope)" "leaf_capacity (ExpanseMemTableRep cap scope) \<le> kMaxCapacity"
    by (simp_all add: ExpanseMemTableRep_def kMaxCapacity_def)
  have "chain_ok (leaf_capacity (ExpanseMemTableRep cap scope)) (blocks (ExpanseMemTableRep cap scope)) [0]"
    using c ok by (simp add: chain_ok_def links_def) (simp add: ExpanseMemTableRep_def LeafBlock_def lessThan_Suc)
  then show "rep_inv C (ExpanseMemTableRep cap scope) [0]"
    unfolding rep_inv_def
    by (simp add: ExpanseMemTableRep_def ascending_def chain_lists_def blk_ents_def LeafBlock_def index_ok_def)
  show "concat (chain_lists (blocks (ExpanseMemTableRep cap scope)) [0]) = []"
    by (simp add: ExpanseMemTableRep_def chain_lists_def blk_ents_def LeafBlock_def)
qed

lemma destroy_from_ok:
  assumes "chain_ok cap H ch"
  shows "j \<le> length ch \<Longrightarrow> destroy_from H (blk_at ch j) (take j ch) = Some ch"
proof (induction "length ch - j" arbitrary: j)
  case 0
  then show ?case by (subst destroy_from.simps) (simp add: blk_at_def)
next
  case (Suc n)
  then have j: "j < length ch" by simp
  have d: "distinct ch" using assms by (simp add: chain_ok_def)
  have "ch ! j \<notin> set (take j ch)"
    using d j by (metis distinct_take not_distinct_conv_prefix take_Suc_conv_app_nth distinct_append list.set_intros(1) disjoint_iff)
  moreover have "take j ch @ [ch ! j] = take (Suc j) ch" using j by (simp add: take_Suc_conv_app_nth)
  moreover have "next_leaf (H ! (ch ! j)) = blk_at ch (Suc j)" using chain_okD(3) [OF assms j] by (simp add: blk_at_def)
  moreover have "destroy_from H (blk_at ch (Suc j)) (take (Suc j) ch) = Some ch"
    using Suc.hyps(1) [of "Suc j"] Suc.hyps(2) j by simp
  moreover have "blk_at ch j = Some (ch ! j)" using j by (simp add: blk_at_def)
  ultimately show ?case using chain_block(1) [OF assms j] destroy_from.simps [of H "Some (ch ! j)" "take j ch"] by simp
qed

text \<open>The destructor releases every block exactly once.\<close>

lemma destroy_ok:
  assumes "rep_inv C r ch"
  shows "destroy_blocks r = Some ch \<and> distinct ch \<and> set ch = {..<length (blocks r)}"
proof -
  have co: "chain_ok (leaf_capacity r) (blocks r) ch" "rep_head r = Some (hd ch)" using assms by (simp_all add: rep_inv_def)
  then have "rep_head r = blk_at ch 0" by (auto simp: blk_at_def chain_ok_def hd_conv_nth)
  then show ?thesis using destroy_from_ok [OF co(1), of 0] co(1) by (simp add: destroy_blocks_def chain_ok_def)
qed

section \<open>Sequences of insertions\<close>

fun insert_all :: "key_comparator \<Rightarrow> memtable_rep \<Rightarrow> entry list \<Rightarrow> memtable_rep option" where
  "insert_all C r [] = Some r"
| "insert_all C r (e # es) = (case Insert C r e of None \<Rightarrow> None | Some r' \<Rightarrow> insert_all C r' es)"

fun ins_entries :: "key_comparator \<Rightarrow> entry list \<Rightarrow> entry list \<Rightarrow> entry list" where
  "ins_entries C acc [] = acc"
| "ins_entries C acc (e # es) = ins_entries C (ins_entry C e acc) es"

fun distinct_keys :: "key_comparator \<Rightarrow> entry list \<Rightarrow> bool" where
  "distinct_keys C [] \<longleftrightarrow> True"
| "distinct_keys C (e # es) \<longleftrightarrow> (\<forall>x\<in>set es. cmp_entry C x e \<noteq> 0 \<and> cmp_entry C e x \<noteq> 0) \<and> distinct_keys C es"

lemma represents_create: "represents C (ExpanseMemTableRep cap scope) []"
  unfolding represents_def using create_inv(1) [of C cap scope] create_inv(2) [of cap scope] by metis

context key_order
begin

lemma represents_ok: "represents C r es \<Longrightarrow> x \<in> set es \<Longrightarrow> entry_ok x"
  unfolding represents_def rep_inv_def using chain_entry_ok by blast

lemma set_ins_entry:
  "\<forall>x\<in>set es. entry_ok x \<and> cmp_entry C x e \<noteq> 0 \<Longrightarrow> entry_ok e \<Longrightarrow> set (ins_entry C e es) = insert e (set es)"
proof -
  assume a: "\<forall>x\<in>set es. entry_ok x \<and> cmp_entry C x e \<noteq> 0" and e: "entry_ok e"
  have "cmp_entry C x e < 0 \<or> cmp_entry C e x < 0" if "x \<in> set es" for x
    using a e that cmp_flip [of e x] by (metis less_linear)
  then show ?thesis by (auto simp: ins_entry_def)
qed

lemma represents_insert:
  assumes "represents C r es" "entry_ok e" "\<forall>x\<in>set es. cmp_entry C x e \<noteq> 0"
  shows "\<exists>r'. Insert C r e = Some r' \<and> represents C r' (ins_entry C e es) \<and> total_keys r' = total_keys r + 1 \<and>
    leaf_capacity r' = leaf_capacity r \<and> seek_lock_scope r' = seek_lock_scope r \<and> block_moves (blocks r) (blocks r')"
proof -
  obtain ch where ch: "rep_inv C r ch" "es = concat (chain_lists (blocks r) ch)" using assms(1) by (auto simp: represents_def)
  then show ?thesis using Insert_ok [OF ch(1) assms(2)] assms(3) unfolding represents_def by metis
qed

lemma insert_all_ok:
  assumes "represents C r acc" "\<forall>e\<in>set es. entry_ok e" "distinct_keys C es" "\<forall>e\<in>set es. \<forall>x\<in>set acc. cmp_entry C x e \<noteq> 0"
  shows "\<exists>r'. insert_all C r es = Some r' \<and> represents C r' (ins_entries C acc es)"
  using assms
proof (induction es arbitrary: r acc)
  case (Cons e es)
  then obtain r1 where r1: "Insert C r e = Some r1" "represents C r1 (ins_entry C e acc)"
    using represents_insert [of r acc e] by auto
  have s: "set (ins_entry C e acc) = insert e (set acc)"
    using Cons.prems represents_ok [OF Cons.prems(1)] by (intro set_ins_entry) auto
  have "\<forall>x\<in>set es. \<forall>y\<in>set (ins_entry C e acc). cmp_entry C y x \<noteq> 0" using Cons.prems(3,4) unfolding s by auto
  then show ?case using Cons.IH [OF r1(2)] Cons.prems r1(1) by simp
qed auto

lemma represents_contains:
  "represents C r es \<Longrightarrow> entry_ok key \<Longrightarrow> Contains C r key = Some (\<exists>x\<in>set es. cmp_entry C key x = 0)"
  unfolding represents_def using Contains_ok by blast

lemma lookup_key_ok:
  assumes "length u + 8 < 2 ^ 32"
  shows "entry_ok (lk_memtable_key (LookupKey u s)) \<and> ukey (lk_memtable_key (LookupKey u s)) = u"
  using LookupKey_slice [OF assms, of s] LookupKey_parts(2,4) [of u s] by (simp add: entry_ok_def ukey_def ikey_def)

lemma represents_get:
  assumes "represents C r es" "length u + 8 < 2 ^ 32"
  shows "Get C r (LookupKey u q) cb s =
    Some (snd (deliver cb (filter (\<lambda>x. ukey x = u \<and> cmp_entry C (lk_memtable_key (LookupKey u q)) x \<le> 0) es) s))"
  using assms(1) Get_ok [of r _ "LookupKey u q" cb s] lookup_key_ok [OF assms(2), of q] LookupKey_parts(3) [of u q]
  unfolding represents_def by auto

end

end
