(* ===== verification/Rocks_Iterator.thy ===== *)
theory Rocks_Iterator
  imports Rocks_Lookup
begin

text \<open>
  The iterator of the RocksDB memtable. Its cursor is a block, a slot and an anchor: the entry it stands
  on and the version of the block at which it was read. Before it uses the cursor it compares the
  version, and seeks the anchored entry again when a writer has changed the block since.
\<close>

section \<open>State\<close>

record cached_key_info =
  ck_raw_entry :: "entry option"
  ck_internal_key :: slice
  ck_user_key :: slice
  ck_value :: slice
  ck_valid :: bool

record memtable_iter =
  current_leaf :: "nat option"
  current_slot :: int
  it_valid :: bool
  anchor_version :: u32
  anchor_entry :: "entry option"
  cached_key :: cached_key_info

definition IteratorImpl :: memtable_iter where
  "IteratorImpl = \<lparr>current_leaf = None, current_slot = - 1, it_valid = False, anchor_version = 0, anchor_entry = None,
    cached_key = \<lparr>ck_raw_entry = None, ck_internal_key = [], ck_user_key = [], ck_value = [], ck_valid = False\<rparr>\<rparr>"

definition SetPosition :: "nat \<Rightarrow> int \<Rightarrow> u32 \<Rightarrow> entry \<Rightarrow> memtable_iter \<Rightarrow> memtable_iter" where
  "SetPosition leaf slot version e it =
    it\<lparr>current_leaf := Some leaf, current_slot := slot, it_valid := True, anchor_version := version, anchor_entry := Some e\<rparr>"

definition ClearPosition :: "memtable_iter \<Rightarrow> memtable_iter" where
  "ClearPosition it =
    it\<lparr>current_leaf := None, current_slot := - 1, it_valid := False, anchor_version := 0, anchor_entry := None\<rparr>"

definition InvalidateCache :: "memtable_iter \<Rightarrow> memtable_iter" where
  "InvalidateCache it = it\<lparr>cached_key := (cached_key it)\<lparr>ck_valid := False, ck_raw_entry := None\<rparr>\<rparr>"

section \<open>Moving the cursor\<close>

type_synonym position = "nat \<times> nat \<times> u32 \<times> entry"

definition set_position :: "position option \<Rightarrow> memtable_iter \<Rightarrow> memtable_iter" where
  "set_position p it = (case p of Some (leaf, slot, version, e) \<Rightarrow> SetPosition leaf (int slot) version e it | None \<Rightarrow> ClearPosition it)"

text \<open>The first or last entry of a block, read under its version.\<close>

definition edge_entry :: "leaf_block \<Rightarrow> bool \<Rightarrow> entry option option" where
  "edge_entry b forward =
    bracket b (if blk_count b > 0
               then (case rd (blk_entries b) (if forward then 0 else blk_count b - 1) of
                       Some (Some e) \<Rightarrow> Some (Some e)
                     | _ \<Rightarrow> None)
               else Some None)"

partial_function (option) edge_from :: "leaf_block list \<Rightarrow> bool \<Rightarrow> nat option \<Rightarrow> position option option" where
  "edge_from H forward block =
    (if block = None then Some None
     else do { i \<leftarrow> block;
               b \<leftarrow> rd H i;
               e \<leftarrow> edge_entry b forward;
               case e of
                 Some x \<Rightarrow> Some (Some (i, if forward then 0 else blk_count b - 1, blk_version b, x))
               | None \<Rightarrow> edge_from H forward (if forward then next_leaf b else prev_leaf b) })"

definition PositionAtEdge :: "leaf_block list \<Rightarrow> nat option \<Rightarrow> bool \<Rightarrow> memtable_iter \<Rightarrow> (bool \<times> memtable_iter) option" where
  "PositionAtEdge H block forward it =
    do { p \<leftarrow> edge_from H forward block; Some (p \<noteq> None, set_position p it) }"

definition seek_cmp :: "key_comparator \<Rightarrow> slice \<Rightarrow> entry option \<Rightarrow> entry \<Rightarrow> int" where
  "seek_cmp C internal_key memtable_key m =
    (case memtable_key of Some k \<Rightarrow> cmp_entry C m k | None \<Rightarrow> cmp_slice C internal_key m)"

text \<open>The search of one block: the position of its first entry that compares at or after the target.\<close>

definition seek_block :: "key_comparator \<Rightarrow> slice \<Rightarrow> entry option \<Rightarrow> leaf_block \<Rightarrow> (nat \<times> entry) option option" where
  "seek_block C internal_key memtable_key b =
    bracket b (do { left \<leftarrow> block_search (\<lambda>m. \<not> seek_cmp C internal_key memtable_key m \<ge> 0) (blk_entries b) 0 (blk_count b);
                    if left < blk_count b
                    then (case rd (blk_entries b) left of Some (Some e) \<Rightarrow> Some (Some (left, e)) | _ \<Rightarrow> None)
                    else Some None })"

partial_function (option) seek_from ::
  "key_comparator \<Rightarrow> leaf_block list \<Rightarrow> slice \<Rightarrow> entry option \<Rightarrow> nat option \<Rightarrow> position option option" where
  "seek_from C H internal_key memtable_key block =
    (if block = None then Some None
     else do { i \<leftarrow> block;
               b \<leftarrow> rd H i;
               found \<leftarrow> seek_block C internal_key memtable_key b;
               case found of
                 Some x \<Rightarrow> Some (Some (i, fst x, blk_version b, snd x))
               | None \<Rightarrow> seek_from C H internal_key memtable_key (next_leaf b) })"

definition Seek :: "key_comparator \<Rightarrow> memtable_rep \<Rightarrow> memtable_iter \<Rightarrow> slice \<Rightarrow> entry option \<Rightarrow> memtable_iter option" where
  "Seek C r it internal_key memtable_key =
    do { block \<leftarrow> FindLeafBlockForSeek C r internal_key memtable_key;
         p \<leftarrow> seek_from C (blocks r) internal_key memtable_key block;
         Some (set_position p (InvalidateCache it)) }"

definition RevalidatePosition :: "key_comparator \<Rightarrow> memtable_rep \<Rightarrow> memtable_iter \<Rightarrow> (bool \<times> memtable_iter) option" where
  "RevalidatePosition C r it =
    (if \<not> it_valid it \<or> current_leaf it = None \<or> current_slot it < 0 then Some (False, it)
     else do { i \<leftarrow> current_leaf it;
               b \<leftarrow> rd (blocks r) i;
               if blk_version b = anchor_version it \<and> even (unat (blk_version b)) then Some (True, it)
               else (case anchor_entry it of
                       None \<Rightarrow> Some (False, it)
                     | Some e \<Rightarrow>
                         (case GetVarint32Ptr e 5 of
                            None \<Rightarrow> None
                          | Some None \<Rightarrow> Some (False, it)
                          | Some (Some (p, ikey_len)) \<Rightarrow>
                              if unat ikey_len \<le> length p
                              then do { it' \<leftarrow> Seek C r it (take (unat ikey_len) p) (Some e); Some (it_valid it', it') }
                              else None)) })"

definition Valid :: "key_comparator \<Rightarrow> memtable_rep \<Rightarrow> memtable_iter \<Rightarrow> (bool \<times> memtable_iter) option" where
  "Valid C r it = do { rv \<leftarrow> RevalidatePosition C r it; Some (fst rv \<and> anchor_entry (snd rv) \<noteq> None, snd rv) }"

definition it_key :: "key_comparator \<Rightarrow> memtable_rep \<Rightarrow> memtable_iter \<Rightarrow> (entry option \<times> memtable_iter) option" where
  "it_key C r it =
    do { rv \<leftarrow> RevalidatePosition C r it; Some (if fst rv then anchor_entry (snd rv) else None, snd rv) }"

partial_function (option) Next :: "key_comparator \<Rightarrow> memtable_rep \<Rightarrow> memtable_iter \<Rightarrow> memtable_iter option" where
  "Next C r it =
    do { rv \<leftarrow> RevalidatePosition C r it;
         if \<not> fst rv then Some ((snd rv)\<lparr>it_valid := False\<rparr>)
         else let it1 = InvalidateCache (snd rv);
                  slot = nat (current_slot it1 + 1)
              in do { leaf \<leftarrow> current_leaf it1;
                      b \<leftarrow> rd (blocks r) leaf;
                      e \<leftarrow> (if slot < blk_count b then rd (blk_entries b) slot else Some None);
                      if blk_version b \<noteq> anchor_version it1 \<or> slot < blk_count b \<and> e = None then Next C r it1
                      else if slot < blk_count b
                        then do { x \<leftarrow> e; Some (SetPosition leaf (int slot) (anchor_version it1) x it1) }
                        else do { p \<leftarrow> PositionAtEdge (blocks r) (next_leaf b) True it1; Some (snd p) } } }"

partial_function (option) Prev :: "key_comparator \<Rightarrow> memtable_rep \<Rightarrow> memtable_iter \<Rightarrow> memtable_iter option" where
  "Prev C r it =
    do { rv \<leftarrow> RevalidatePosition C r it;
         if \<not> fst rv then Some ((snd rv)\<lparr>it_valid := False\<rparr>)
         else let it1 = InvalidateCache (snd rv);
                  slot = current_slot it1 - 1
              in do { leaf \<leftarrow> current_leaf it1;
                      b \<leftarrow> rd (blocks r) leaf;
                      e \<leftarrow> (if slot \<ge> 0 then rd (blk_entries b) (nat slot) else Some None);
                      if blk_version b \<noteq> anchor_version it1 \<or> slot \<ge> 0 \<and> e = None then Prev C r it1
                      else if slot \<ge> 0
                        then do { x \<leftarrow> e; Some (SetPosition leaf slot (anchor_version it1) x it1) }
                        else do { p \<leftarrow> PositionAtEdge (blocks r) (prev_leaf b) False it1; Some (snd p) } } }"

definition SeekToFirst :: "memtable_rep \<Rightarrow> memtable_iter \<Rightarrow> memtable_iter option" where
  "SeekToFirst r it = do { p \<leftarrow> PositionAtEdge (blocks r) (rep_head r) True (InvalidateCache it); Some (snd p) }"

definition SeekToLast :: "memtable_rep \<Rightarrow> memtable_iter \<Rightarrow> memtable_iter option" where
  "SeekToLast r it = do { p \<leftarrow> PositionAtEdge (blocks r) (rep_tail r) False (InvalidateCache it); Some (snd p) }"

definition SeekForPrev :: "key_comparator \<Rightarrow> memtable_rep \<Rightarrow> memtable_iter \<Rightarrow> slice \<Rightarrow> entry option \<Rightarrow> memtable_iter option" where
  "SeekForPrev C r it internal_key memtable_key =
    do { it1 \<leftarrow> Seek C r it internal_key memtable_key;
         v \<leftarrow> Valid C r it1;
         if fst v
         then do { k \<leftarrow> it_key C r (snd v);
                   e \<leftarrow> fst k;
                   if seek_cmp C internal_key memtable_key e \<noteq> 0 then Prev C r (snd k) else Some (snd k) }
         else SeekToLast r (snd v) }"

section \<open>Reading keys and values\<close>

text \<open>The internal key and the value of an entry; the inner \<^term>\<open>None\<close> is a key length that does not decode.\<close>

definition decode_entry :: "entry \<Rightarrow> (slice \<times> slice) option option" where
  "decode_entry e =
    (case GetVarint32Ptr e 5 of
       None \<Rightarrow> None
     | Some None \<Rightarrow> Some None
     | Some (Some (p, ikey_len)) \<Rightarrow>
         if unat ikey_len \<le> length p
         then (case GetVarint32Ptr (drop (unat ikey_len) p) 5 of
                 None \<Rightarrow> None
               | Some None \<Rightarrow> Some (Some (take (unat ikey_len) p, []))
               | Some (Some (val_data, val_len)) \<Rightarrow>
                   if unat val_len \<le> length val_data
                   then Some (Some (take (unat ikey_len) p, take (unat val_len) val_data)) else None)
         else None)"

definition EnsureKeyCached :: "key_comparator \<Rightarrow> memtable_rep \<Rightarrow> memtable_iter \<Rightarrow> memtable_iter option" where
  "EnsureKeyCached C r it =
    (if ck_valid (cached_key it) then Some it
     else do { k \<leftarrow> it_key C r it;
               case fst k of
                 None \<Rightarrow> Some ((snd k)\<lparr>cached_key := \<lparr>ck_raw_entry = None, ck_internal_key = [], ck_user_key = [],
                            ck_value = [], ck_valid = True\<rparr>\<rparr>)
               | Some e \<Rightarrow>
                   do { d \<leftarrow> decode_entry e;
                        case d of
                          None \<Rightarrow> Some ((snd k)\<lparr>cached_key := (cached_key (snd k))\<lparr>ck_raw_entry := Some e, ck_valid := True\<rparr>\<rparr>)
                        | Some kv \<Rightarrow>
                            Some ((snd k)\<lparr>cached_key := \<lparr>ck_raw_entry = Some e, ck_internal_key = fst kv,
                              ck_user_key = user_part (fst kv), ck_value = snd kv, ck_valid = True\<rparr>\<rparr>) } })"

definition it_internal_key :: "key_comparator \<Rightarrow> memtable_rep \<Rightarrow> memtable_iter \<Rightarrow> (slice \<times> memtable_iter) option" where
  "it_internal_key C r it = do { it1 \<leftarrow> EnsureKeyCached C r it; Some (ck_internal_key (cached_key it1), it1) }"

definition it_user_key :: "key_comparator \<Rightarrow> memtable_rep \<Rightarrow> memtable_iter \<Rightarrow> (slice \<times> memtable_iter) option" where
  "it_user_key C r it = do { it1 \<leftarrow> EnsureKeyCached C r it; Some (ck_user_key (cached_key it1), it1) }"

definition it_value :: "key_comparator \<Rightarrow> memtable_rep \<Rightarrow> memtable_iter \<Rightarrow> (slice \<times> memtable_iter) option" where
  "it_value C r it = do { it1 \<leftarrow> EnsureKeyCached C r it; Some (ck_value (cached_key it1), it1) }"

section \<open>Batches\<close>

fun read_slots :: "entry option list \<Rightarrow> nat list \<Rightarrow> entry list option option" where
  "read_slots es [] = Some (Some [])"
| "read_slots es (i # js) =
    (case rd es i of
       None \<Rightarrow> None
     | Some None \<Rightarrow> Some None
     | Some (Some e) \<Rightarrow> map_option (map_option (\<lambda>xs. e # xs)) (read_slots es js))"

fun decode_all :: "entry list \<Rightarrow> (slice \<times> slice) option list option" where
  "decode_all [] = Some []"
| "decode_all (e # es) = (case decode_entry e of None \<Rightarrow> None | Some d \<Rightarrow> map_option (\<lambda>ds. d # ds) (decode_all es))"

partial_function (option) scan_loop ::
  "key_comparator \<Rightarrow> memtable_rep \<Rightarrow> memtable_iter \<Rightarrow> nat \<Rightarrow> (slice \<times> slice) option list \<Rightarrow>
   (memtable_iter \<times> (slice \<times> slice) option list) option" where
  "scan_loop C r it max_keys out =
    (if \<not> length out < max_keys then Some (it, out)
     else do { rv \<leftarrow> RevalidatePosition C r it;
               if \<not> fst rv then Some ((snd rv)\<lparr>it_valid := False\<rparr>, out)
               else let it1 = snd rv;
                        slot = nat (current_slot it1)
                    in do { leaf \<leftarrow> current_leaf it1;
                            b \<leftarrow> rd (blocks r) leaf;
                            let n = (if slot < blk_count b then min (blk_count b - slot) (max_keys - length out) else 0);
                                next_slot = slot + n
                            in do { taken \<leftarrow> read_slots (blk_entries b) [slot..<next_slot];
                                    following \<leftarrow> (if taken \<noteq> None \<and> next_slot < blk_count b
                                                 then rd (blk_entries b) next_slot else Some None);
                                    if taken = None \<or> next_slot < blk_count b \<and> following = None \<or>
                                       blk_version b \<noteq> anchor_version it1
                                    then scan_loop C r it1 max_keys out
                                    else do { ts \<leftarrow> taken;
                                              ds \<leftarrow> decode_all ts;
                                              if next_slot < blk_count b
                                              then do { x \<leftarrow> following;
                                                        scan_loop C r (SetPosition leaf (int next_slot) (anchor_version it1) x it1)
                                                          max_keys (out @ ds) }
                                              else do { p \<leftarrow> PositionAtEdge (blocks r) (next_leaf b) True it1;
                                                        if \<not> fst p then Some (snd p, out @ ds)
                                                        else scan_loop C r (snd p) max_keys (out @ ds) } } } } })"

definition ScanBatch ::
  "key_comparator \<Rightarrow> memtable_rep \<Rightarrow> memtable_iter \<Rightarrow> nat \<Rightarrow> (memtable_iter \<times> (slice \<times> slice) option list) option" where
  "ScanBatch C r it max_keys =
    (if \<not> it_valid it \<or> current_leaf it = None \<or> current_slot it < 0 \<or> max_keys = 0 then Some (it, [])
     else scan_loop C r (InvalidateCache it) max_keys [])"

end
