(* ===== verification/Rocks_Iterator_Correct.thy ===== *)
theory Rocks_Iterator_Correct
  imports Rocks_Iterator
begin

text \<open>
  Correctness of the iterator of the RocksDB memtable. The abstract cursor is an entry of the ordered list
  of all entries, or past the end. Each operation moves it as its name says, also when insertions have
  shifted or split the block under it since it was read.
\<close>

section \<open>Where the cursor stands\<close>

text \<open>
  A position stands after a list \<open>A\<close> of entries when \<open>A\<close> is what precedes it in the order; no position
  stands after all entries.
\<close>

definition found :: "leaf_block list \<Rightarrow> nat list \<Rightarrow> position option \<Rightarrow> entry list \<Rightarrow> bool" where
  "found H ch res A \<longleftrightarrow>
    (case res of
       None \<Rightarrow> A = concat (chain_lists H ch)
     | Some (i, p, v, e) \<Rightarrow>
         \<exists>k<length ch. i = ch ! k \<and> p < length (chain_lists H ch ! k) \<and> v = blk_version (H ! (ch ! k)) \<and>
           e = chain_lists H ch ! k ! p \<and> A = concat (take k (chain_lists H ch)) @ take p (chain_lists H ch ! k))"

definition settled :: "memtable_rep \<Rightarrow> nat list \<Rightarrow> memtable_iter \<Rightarrow> nat \<Rightarrow> nat \<Rightarrow> bool" where
  "settled r ch it k p \<longleftrightarrow> k < length ch \<and> p < length (chain_lists (blocks r) ch ! k) \<and> it_valid it \<and>
    current_leaf it = Some (ch ! k) \<and> current_slot it = int p \<and> anchor_version it = blk_version (blocks r ! (ch ! k)) \<and>
    anchor_entry it = Some (chain_lists (blocks r) ch ! k ! p)"

definition stands :: "memtable_rep \<Rightarrow> nat list \<Rightarrow> memtable_iter \<Rightarrow> entry list \<Rightarrow> bool" where
  "stands r ch it A \<longleftrightarrow>
    (if it_valid it
     then \<exists>k p. settled r ch it k p \<and> A = concat (take k (chain_lists (blocks r) ch)) @ take p (chain_lists (blocks r) ch ! k)
     else A = concat (chain_lists (blocks r) ch))"

lemma stands_set_position: "found (blocks r) ch res A \<Longrightarrow> stands r ch (set_position res it) A \<and> (it_valid (set_position res it) \<longleftrightarrow> res \<noteq> None)"
  by (auto simp: found_def stands_def settled_def set_position_def SetPosition_def ClearPosition_def split: option.splits prod.splits)

lemma concat_take_Suc: "k < length Ls \<Longrightarrow> concat (take (Suc k) Ls) = concat (take k Ls) @ Ls ! k"
  by (simp add: take_Suc_conv_app_nth)

lemma position_split:
  assumes "k < length Ls" "p < length (Ls ! k)"
  shows "concat Ls = (concat (take k Ls) @ take p (Ls ! k)) @ Ls ! k ! p # (drop (Suc p) (Ls ! k) @ concat (drop (Suc k) Ls))"
  using concat_split [OF assms(1)] id_take_nth_drop [OF assms(2)] by (metis append_Cons append_assoc)

lemma settled_split:
  assumes "settled r ch it k p" "A = concat (take k (chain_lists (blocks r) ch)) @ take p (chain_lists (blocks r) ch ! k)"
  shows "\<exists>e B. anchor_entry it = Some e \<and> concat (chain_lists (blocks r) ch) = A @ e # B"
  using position_split [of k "chain_lists (blocks r) ch" p] assms by (auto simp: settled_def)

lemma edge_entry_ok:
  assumes "chain_ok cap H ch" "j < length ch"
  shows "edge_entry (H ! (ch ! j)) forward =
    Some (if chain_lists H ch ! j = [] then None
          else Some (chain_lists H ch ! j ! (if forward then 0 else blk_count (H ! (ch ! j)) - 1)))"
proof -
  note b = chain_block [OF assms]
  let ?i = "if forward then 0 else blk_count (H ! (ch ! j)) - 1"
  show ?thesis
  proof (cases "chain_lists H ch ! j = []")
    case True
    then show ?thesis using b(6,8) by (simp add: edge_entry_def bracket_def)
  next
    case False
    then have c: "0 < blk_count (H ! (ch ! j))" using b(6) by (cases "blk_count (H ! (ch ! j))") auto
    then have "?i < length (chain_lists H ch ! j)" using b(6) by auto
    then have "rd (blk_entries (H ! (ch ! j))) ?i = Some (Some (chain_lists H ch ! j ! ?i))"
      using b(7) by (auto simp: holds_def rd_def)
    then show ?thesis using False c b(8) by (simp add: edge_entry_def bracket_def)
  qed
qed

lemma edge_forward:
  assumes "chain_ok cap H ch"
  shows "j \<le> length ch \<Longrightarrow> \<exists>res. edge_from H True (blk_at ch j) = Some res \<and> found H ch res (concat (take j (chain_lists H ch)))"
proof (induction "length ch - j" arbitrary: j)
  case 0
  then show ?case by (subst edge_from.simps) (simp add: blk_at_def found_def)
next
  case (Suc n)
  then have j: "j < length ch" by simp
  let ?L = "chain_lists H ch ! j"
  have nx: "next_leaf (H ! (ch ! j)) = blk_at ch (Suc j)" using chain_okD(3) [OF assms j] by (simp add: blk_at_def)
  have at: "blk_at ch j = Some (ch ! j)" using j by (simp add: blk_at_def)
  have eq: "edge_from H True (blk_at ch j) =
      (if ?L = [] then edge_from H True (blk_at ch (Suc j)) else Some (Some (ch ! j, 0, blk_version (H ! (ch ! j)), ?L ! 0)))"
    unfolding at using edge_from.simps [of H True "Some (ch ! j)"] chain_block(1) [OF assms j] edge_entry_ok [OF assms j, of True]
    by (simp add: nx)
  show ?case
  proof (cases "?L = []")
    case True
    then have "concat (take (Suc j) (chain_lists H ch)) = concat (take j (chain_lists H ch))"
      using concat_take_Suc [of j "chain_lists H ch"] j by simp
    then show ?thesis using Suc.hyps(1) [of "Suc j"] Suc.hyps(2) j True unfolding eq by simp
  next
    case False
    then have "found H ch (Some (ch ! j, 0, blk_version (H ! (ch ! j)), ?L ! 0)) (concat (take j (chain_lists H ch)))"
      using j by (auto simp: found_def)
    then show ?thesis unfolding eq using False by simp
  qed
qed

definition found_last :: "leaf_block list \<Rightarrow> nat list \<Rightarrow> position option \<Rightarrow> entry list \<Rightarrow> bool" where
  "found_last H ch res A \<longleftrightarrow>
    (case res of None \<Rightarrow> A = [] | Some (_, _, _, e) \<Rightarrow> \<exists>A'. found H ch res A' \<and> A = A' @ [e])"

lemma edge_backward:
  assumes "chain_ok cap H ch"
  shows "j \<le> length ch \<Longrightarrow> \<exists>res. edge_from H False (if j = 0 then None else Some (ch ! (j - 1))) = Some res \<and>
    found_last H ch res (concat (take j (chain_lists H ch)))"
proof (induction j)
  case 0
  then show ?case by (subst edge_from.simps) (simp add: found_last_def)
next
  case (Suc j)
  then have j: "j < length ch" by simp
  let ?L = "chain_lists H ch ! j" and ?c = "blk_count (H ! (ch ! j)) - 1"
  have pv: "prev_leaf (H ! (ch ! j)) = (if j = 0 then None else Some (ch ! (j - 1)))" using chain_okD(2) [OF assms j] .
  have eq: "edge_from H False (Some (ch ! j)) =
      (if ?L = [] then edge_from H False (if j = 0 then None else Some (ch ! (j - 1)))
       else Some (Some (ch ! j, ?c, blk_version (H ! (ch ! j)), ?L ! ?c)))"
    using edge_from.simps [of H False "Some (ch ! j)"] chain_block(1) [OF assms j] edge_entry_ok [OF assms j, of False]
    by (simp add: pv)
  have tk: "concat (take (Suc j) (chain_lists H ch)) = concat (take j (chain_lists H ch)) @ ?L"
    using concat_take_Suc [of j "chain_lists H ch"] j by simp
  show ?case
  proof (cases "?L = []")
    case True
    then have eq': "edge_from H False (Some (ch ! j)) = edge_from H False (if j = 0 then None else Some (ch ! (j - 1)))"
      unfolding eq by (rule if_P)
    obtain res where "edge_from H False (if j = 0 then None else Some (ch ! (j - 1))) = Some res"
        "found_last H ch res (concat (take j (chain_lists H ch)))" using Suc.IH j by auto
    then show ?thesis unfolding tk True using eq' by (intro exI [of _ res]) simp
  next
    case False
    have len: "length ?L = blk_count (H ! (ch ! j))" using chain_block(6) [OF assms j] .
    then have c: "?c < length ?L" using False by (cases ?L) auto
    have "found H ch (Some (ch ! j, ?c, blk_version (H ! (ch ! j)), ?L ! ?c)) (concat (take j (chain_lists H ch)) @ take ?c ?L)"
      using j c by (auto simp: found_def)
    moreover have "take ?c ?L @ [?L ! ?c] = ?L" using take_Suc_conv_app_nth [OF c] len c by simp
    then have "concat (take (Suc j) (chain_lists H ch)) = (concat (take j (chain_lists H ch)) @ take ?c ?L) @ [?L ! ?c]"
      unfolding tk by simp
    ultimately show ?thesis using eq False by (simp add: found_last_def)
  qed
qed

section \<open>Operations of the iterator\<close>

definition iter_inv :: "memtable_rep \<Rightarrow> entry list \<Rightarrow> memtable_iter \<Rightarrow> bool" where
  "iter_inv r es it \<longleftrightarrow> (it_valid it \<longrightarrow>
    (\<exists>i e. current_leaf it = Some i \<and> i < length (blocks r) \<and> 0 \<le> current_slot it \<and> anchor_entry it = Some e \<and> e \<in> set es \<and>
      unat (anchor_version it) \<le> unat (blk_version (blocks r ! i)) \<and>
      (blk_version (blocks r ! i) = anchor_version it \<longrightarrow>
        nat (current_slot it) < blk_count (blocks r ! i) \<and> blk_entries (blocks r ! i) ! nat (current_slot it) = Some e)))"

definition it_pos :: "memtable_iter \<Rightarrow> entry option" where
  "it_pos it = (if it_valid it then anchor_entry it else None)"

lemma settled_inv:
  assumes "chain_ok cap (blocks r) ch" "settled r ch it k p"
  shows "iter_inv r (concat (chain_lists (blocks r) ch)) it"
proof -
  have k: "k < length ch" "p < length (chain_lists (blocks r) ch ! k)" using assms(2) by (simp_all add: settled_def)
  note b = chain_block [OF assms(1) k(1)]
  have "chain_lists (blocks r) ch ! k ! p \<in> set (concat (chain_lists (blocks r) ch))"
    using k by (intro concat_nth_mem [of k]) simp_all
  then show ?thesis
    using assms(2) k chain_okD(1) [OF assms(1) k(1)] b(6,7)
    unfolding iter_inv_def by (auto simp: settled_def holds_def)
qed

context key_order
begin

lemma sorted_split:
  assumes "ascending C (A @ e # B)" "\<forall>x\<in>set (A @ e # B). entry_ok x"
  shows "takeWhile (\<lambda>x. cmp_entry C x e < 0) (A @ e # B) = A"
    "filter (\<lambda>x. cmp_entry C e x < 0) (A @ e # B) = B" "filter (\<lambda>x. cmp_entry C x e < 0) (A @ e # B) = A"
proof -
  have ok: "entry_ok e" "\<forall>x\<in>set A. entry_ok x" "\<forall>x\<in>set B. entry_ok x" using assms(2) by auto
  have A: "\<forall>x\<in>set A. cmp_entry C x e < 0" and B: "\<forall>x\<in>set B. cmp_entry C e x < 0"
    using assms(1) by (auto simp: ascending_def sorted_wrt_append)
  have A': "\<forall>x\<in>set A. \<not> cmp_entry C e x < 0" using A ok cmp_flip [of _ e] by fastforce
  have B': "\<forall>x\<in>set B. \<not> cmp_entry C x e < 0" using B ok cmp_flip [of e] by fastforce
  have self: "cmp_entry C e e = 0" using ok by (simp add: cmp_self)
  show "takeWhile (\<lambda>x. cmp_entry C x e < 0) (A @ e # B) = A" using A self by (simp add: takeWhile_append)
  show "filter (\<lambda>x. cmp_entry C e x < 0) (A @ e # B) = B" using filter_none [OF A'] filter_all [OF B] self by simp
  show "filter (\<lambda>x. cmp_entry C x e < 0) (A @ e # B) = A" using filter_all [OF A] filter_none [OF B'] self by simp
qed

lemma seek_block_ok:
  assumes "chain_ok cap H ch" "ascending C (concat (chain_lists H ch))" "entry_ok k" "j < length ch"
  shows "seek_block C ik (Some k) (H ! (ch ! j)) =
    (let n = length (takeWhile (\<lambda>x. cmp_entry C x k < 0) (chain_lists H ch ! j))
     in Some (if n < length (chain_lists H ch ! j) then Some (n, chain_lists H ch ! j ! n) else None))"
proof -
  note b = chain_block [OF assms(1,4)] and p = part_ascending [OF assms(1,2,4)]
  let ?L = "chain_lists H ch ! j"
  let ?n = "length (takeWhile (\<lambda>x. cmp_entry C x k < 0) ?L)"
  have "block_search (\<lambda>m. \<not> seek_cmp C ik (Some k) m \<ge> 0) (blk_entries (H ! (ch ! j))) 0 (blk_count (H ! (ch ! j))) = Some ?n"
    using block_search_ok [OF b(7) ascending_mono(2) [OF p(1,2) assms(3)]] b(6) by (simp add: seek_cmp_def not_le)
  moreover have "rd (blk_entries (H ! (ch ! j))) ?n = Some (Some (?L ! ?n))" if "?n < length ?L"
    using that b(7) by (auto simp: holds_def rd_def)
  ultimately show ?thesis using b(6,8) by (simp add: seek_block_def bracket_def Let_def)
qed

lemma seek_from_ok:
  assumes "chain_ok cap H ch" "ascending C (concat (chain_lists H ch))" "entry_ok k"
  shows "j \<le> length ch \<Longrightarrow> \<exists>res. seek_from C H ik (Some k) (blk_at ch j) = Some res \<and>
    found H ch res (concat (take j (chain_lists H ch)) @ takeWhile (\<lambda>x. cmp_entry C x k < 0) (concat (drop j (chain_lists H ch))))"
proof (induction "length ch - j" arbitrary: j)
  case 0
  then show ?case by (subst seek_from.simps) (simp add: blk_at_def found_def)
next
  case (Suc n)
  then have j: "j < length ch" by simp
  let ?L = "chain_lists H ch ! j" and ?P = "\<lambda>x. cmp_entry C x k < 0"
  let ?n = "length (takeWhile ?P ?L)"
  have nx: "next_leaf (H ! (ch ! j)) = blk_at ch (Suc j)" using chain_okD(3) [OF assms(1) j] by (simp add: blk_at_def)
  have at: "blk_at ch j = Some (ch ! j)" using j by (simp add: blk_at_def)
  have eq: "seek_from C H ik (Some k) (blk_at ch j) =
      (if ?n < length ?L then Some (Some (ch ! j, ?n, blk_version (H ! (ch ! j)), ?L ! ?n))
       else seek_from C H ik (Some k) (blk_at ch (Suc j)))"
    unfolding at using seek_from.simps [of C H ik "Some k" "Some (ch ! j)"] chain_block(1) [OF assms(1) j]
      seek_block_ok [OF assms j, of ik] by (simp add: nx Let_def)
  have split: "concat (drop j (chain_lists H ch)) = ?L @ concat (drop (Suc j) (chain_lists H ch))"
    using concat_drop_step [of j "chain_lists H ch"] j by simp
  show ?case
  proof (cases "?n < length ?L")
    case True
    have "\<exists>x\<in>set ?L. \<not> ?P x" using True nth_length_takeWhile [of ?P ?L] nth_mem by blast
    then have "takeWhile ?P (concat (drop j (chain_lists H ch))) = take ?n ?L"
      unfolding split by (auto simp: takeWhile_append takeWhile_eq_take [symmetric])
    then have "found H ch (Some (ch ! j, ?n, blk_version (H ! (ch ! j)), ?L ! ?n))
      (concat (take j (chain_lists H ch)) @ takeWhile ?P (concat (drop j (chain_lists H ch))))"
      using j True by (auto simp: found_def)
    then show ?thesis unfolding eq using True by simp
  next
    case False
    then have "takeWhile ?P ?L = ?L" by (metis length_takeWhile_le le_neq_implies_less takeWhile_eq_take take_all order.refl)
    then have "\<forall>x\<in>set ?L. ?P x" by (metis set_takeWhileD)
    then have "takeWhile ?P (concat (drop j (chain_lists H ch))) = ?L @ takeWhile ?P (concat (drop (Suc j) (chain_lists H ch)))"
      unfolding split by simp
    then show ?thesis
      using Suc.hyps(1) [of "Suc j"] Suc.hyps(2) j False concat_take_Suc [of j "chain_lists H ch"] unfolding eq by simp
  qed
qed

text \<open>A seek with a memtable key stands on the first entry that is not below it.\<close>

lemma Seek_ok:
  assumes "rep_inv C r ch" "entry_ok k"
  shows "\<exists>it'. Seek C r it ik (Some k) = Some it' \<and>
    stands r ch it' (takeWhile (\<lambda>x. cmp_entry C x k < 0) (concat (chain_lists (blocks r) ch)))"
proof -
  let ?Ls = "chain_lists (blocks r) ch" and ?P = "\<lambda>x. cmp_entry C x k < 0"
  have co: "chain_ok (leaf_capacity r) (blocks r) ch" "ascending C (concat ?Ls)" using assms(1) by (simp_all add: rep_inv_def)
  have "seek_target k ik (Some k)" using assms(2) by (simp add: seek_target_def)
  then obtain j where j: "j < length ch" "FindLeafBlockForSeek C r ik (Some k) = Some (Some (ch ! j))"
      "\<forall>i<j. \<forall>x\<in>set (?Ls ! i). ?P x"
    using find_seek_ok [OF assms(1)] by blast
  obtain res where res: "seek_from C (blocks r) ik (Some k) (blk_at ch j) = Some res"
      "found (blocks r) ch res (concat (take j ?Ls) @ takeWhile ?P (concat (drop j ?Ls)))"
    using seek_from_ok [OF co assms(2), of j ik] j(1) by auto
  have "\<forall>x\<in>set (concat (take j ?Ls)). ?P x" using j(3) in_concat_take [of _ j ?Ls] by metis
  then have "takeWhile ?P (concat (take j ?Ls) @ concat (drop j ?Ls)) = concat (take j ?Ls) @ takeWhile ?P (concat (drop j ?Ls))"
    by (intro takeWhile_append2) blast
  then have "takeWhile ?P (concat ?Ls) = concat (take j ?Ls) @ takeWhile ?P (concat (drop j ?Ls))"
    by (metis append_take_drop_id concat_append)
  then show ?thesis
    using j(1,2) res stands_set_position [of r ch res _ "InvalidateCache it"] by (simp add: Seek_def blk_at_def)
qed

lemma Revalidate_ok:
  assumes "rep_inv C r ch" "iter_inv r (concat (chain_lists (blocks r) ch)) it"
  shows "if it_valid it
    then \<exists>it' k p. RevalidatePosition C r it = Some (True, it') \<and> settled r ch it' k p \<and> anchor_entry it' = anchor_entry it
    else RevalidatePosition C r it = Some (False, it)"
proof (cases "it_valid it")
  case False
  then show ?thesis by (simp add: RevalidatePosition_def)
next
  case True
  let ?es = "concat (chain_lists (blocks r) ch)"
  obtain i e where i: "current_leaf it = Some i" "i < length (blocks r)" "0 \<le> current_slot it" "anchor_entry it = Some e" "e \<in> set ?es"
      "blk_version (blocks r ! i) = anchor_version it \<longrightarrow>
        nat (current_slot it) < blk_count (blocks r ! i) \<and> blk_entries (blocks r ! i) ! nat (current_slot it) = Some e"
    using assms(2) True by (auto simp: iter_inv_def)
  have co: "chain_ok (leaf_capacity r) (blocks r) ch" "ascending C ?es" using assms(1) by (simp_all add: rep_inv_def)
  obtain k where k: "k < length ch" "i = ch ! k" using chain_index [OF co(1) i(2)] by blast
  note b = chain_block [OF co(1) k(1)]
  show ?thesis
  proof (cases "blk_version (blocks r ! i) = anchor_version it")
    case same: True
    then have "RevalidatePosition C r it = Some (True, it)"
      using True i b(8) k(2) by (simp add: RevalidatePosition_def)
    moreover have "settled r ch it k (nat (current_slot it))"
      using same True i k b(6,7) by (auto simp: settled_def holds_def)
    ultimately show ?thesis using True by auto
  next
    case moved: False
    have ok: "entry_ok e" using chain_entry_ok [OF co(1) i(5)] .
    obtain p len where v: "GetVarint32Ptr e 5 = Some (Some (p, len))" "unat len \<le> length p"
      using entry_okD [OF ok] by (auto simp: GetLengthPrefixedSlice_def ikey_def split: option.splits if_splits)
    obtain it' where s: "Seek C r it (take (unat len) p) (Some e) = Some it'"
        "stands r ch it' (takeWhile (\<lambda>x. cmp_entry C x e < 0) ?es)"
      using Seek_ok [OF assms(1) ok] by blast
    obtain A B where AB: "?es = A @ e # B" using i(5) by (meson split_list)
    have A: "takeWhile (\<lambda>x. cmp_entry C x e < 0) ?es = A"
      using sorted_split(1) [of A e B] co AB chain_entry_ok [OF co(1)] by auto
    have valid: "it_valid it'"
    proof (rule ccontr)
      assume "\<not> it_valid it'"
      then have "A = A @ e # B" using s(2) A AB by (simp add: stands_def)
      then show False by simp
    qed
    then obtain k p where kp: "settled r ch it' k p"
        "A = concat (take k (chain_lists (blocks r) ch)) @ take p (chain_lists (blocks r) ch ! k)"
      using s(2) A by (auto simp: stands_def)
    then have "anchor_entry it' = Some e" using settled_split [OF kp] AB by auto
    moreover have "RevalidatePosition C r it = Some (True, it')"
      using True i moved v s(1) valid by (simp add: RevalidatePosition_def)
    ultimately show ?thesis using True i(4) kp(1) by auto
  qed
qed

end

definition first_of :: "entry list \<Rightarrow> entry option" where
  "first_of xs = (if xs = [] then None else Some (hd xs))"

definition last_of :: "entry list \<Rightarrow> entry option" where
  "last_of xs = (if xs = [] then None else Some (last xs))"

lemma InvalidateCache_sel [simp]:
  "current_leaf (InvalidateCache it) = current_leaf it" "current_slot (InvalidateCache it) = current_slot it"
  "it_valid (InvalidateCache it) = it_valid it" "anchor_version (InvalidateCache it) = anchor_version it"
  "anchor_entry (InvalidateCache it) = anchor_entry it"
  by (simp_all add: InvalidateCache_def)

lemma settled_cache [simp]: "settled r ch (InvalidateCache it) k p = settled r ch it k p"
  by (simp add: settled_def)

lemma iter_inv_cache [simp]: "iter_inv r es (InvalidateCache it) = iter_inv r es it"
  by (simp add: iter_inv_def)

lemma it_pos_cache [simp]: "it_pos (InvalidateCache it) = it_pos it"
  by (simp add: it_pos_def)

lemma stands_pos:
  assumes "chain_ok cap (blocks r) ch" "stands r ch it A" "concat (chain_lists (blocks r) ch) = A @ B"
  shows "iter_inv r (concat (chain_lists (blocks r) ch)) it" "it_pos it = first_of B"
proof -
  show "iter_inv r (concat (chain_lists (blocks r) ch)) it"
  proof (cases "it_valid it")
    case True
    then show ?thesis using assms(2) settled_inv [OF assms(1)] by (auto simp: stands_def)
  qed (simp add: iter_inv_def)
  show "it_pos it = first_of B"
  proof (cases "it_valid it")
    case True
    then obtain k p where kp: "settled r ch it k p"
        "A = concat (take k (chain_lists (blocks r) ch)) @ take p (chain_lists (blocks r) ch ! k)"
      using assms(2) by (auto simp: stands_def)
    then show ?thesis using settled_split [OF kp] assms(3) True by (auto simp: it_pos_def first_of_def)
  next
    case False
    then show ?thesis using assms(2,3) by (simp add: stands_def it_pos_def first_of_def)
  qed
qed

lemma settled_step:
  assumes "settled r ch it k p" "q < length (chain_lists (blocks r) ch ! k)" "e = chain_lists (blocks r) ch ! k ! q"
  shows "settled r ch (SetPosition (ch ! k) (int q) (anchor_version it) e it) k q"
  using assms by (simp add: settled_def SetPosition_def)

lemma settled_stands:
  "settled r ch it k p \<Longrightarrow> stands r ch it (concat (take k (chain_lists (blocks r) ch)) @ take p (chain_lists (blocks r) ch ! k))"
  unfolding stands_def by (auto simp: settled_def)

lemma settled_block:
  assumes "chain_ok cap (blocks r) ch" "settled r ch it k p"
  shows "k < length ch" "p < length (chain_lists (blocks r) ch ! k)" "current_leaf it = Some (ch ! k)" "current_slot it = int p"
    "rd (blocks r) (ch ! k) = Some (blocks r ! (ch ! k))" "blk_version (blocks r ! (ch ! k)) = anchor_version it"
    "blk_count (blocks r ! (ch ! k)) = length (chain_lists (blocks r) ch ! k)"
    "\<And>q. q < length (chain_lists (blocks r) ch ! k) \<Longrightarrow>
      rd (blk_entries (blocks r ! (ch ! k))) q = Some (Some (chain_lists (blocks r) ch ! k ! q))"
    "next_leaf (blocks r ! (ch ! k)) = blk_at ch (Suc k)"
    "prev_leaf (blocks r ! (ch ! k)) = (if k = 0 then None else Some (ch ! (k - 1)))"
proof -
  show k: "k < length ch" and "p < length (chain_lists (blocks r) ch ! k)" "current_leaf it = Some (ch ! k)" "current_slot it = int p"
    and "blk_version (blocks r ! (ch ! k)) = anchor_version it" using assms(2) by (simp_all add: settled_def)
  note b = chain_block [OF assms(1) k]
  show "rd (blocks r) (ch ! k) = Some (blocks r ! (ch ! k))"
    "blk_count (blocks r ! (ch ! k)) = length (chain_lists (blocks r) ch ! k)" using b(1,6) by simp_all
  show "rd (blk_entries (blocks r ! (ch ! k))) q = Some (Some (chain_lists (blocks r) ch ! k ! q))"
    if "q < length (chain_lists (blocks r) ch ! k)" for q
    using that b(7) by (auto simp: holds_def rd_def)
  show "next_leaf (blocks r ! (ch ! k)) = blk_at ch (Suc k)" using chain_okD(3) [OF assms(1) k] by (simp add: blk_at_def)
  show "prev_leaf (blocks r ! (ch ! k)) = (if k = 0 then None else Some (ch ! (k - 1)))" using chain_okD(2) [OF assms(1) k] .
qed

context key_order
begin

lemma Next_settled:
  assumes "rep_inv C r ch" "iter_inv r (concat (chain_lists (blocks r) ch)) it" "anchor_entry it = Some e" "it_valid it"
  shows "\<exists>it' A B. Next C r it = Some it' \<and> concat (chain_lists (blocks r) ch) = A @ e # B \<and> stands r ch it' (A @ [e])"
proof -
  let ?Ls = "chain_lists (blocks r) ch"
  have co: "chain_ok (leaf_capacity r) (blocks r) ch" using assms(1) by (simp add: rep_inv_def)
  obtain it1 k p where rv: "RevalidatePosition C r it = Some (True, it1)" "settled r ch it1 k p" "anchor_entry it1 = Some e"
    using Revalidate_ok [OF assms(1,2)] assms(3,4) by auto
  note b = settled_block [OF co rv(2)]
  let ?L = "?Ls ! k" and ?A = "concat (take k ?Ls) @ take p (?Ls ! k)" and ?it = "InvalidateCache it1"
  have e: "e = ?L ! p" using rv(2,3) by (simp add: settled_def)
  have es: "concat ?Ls = ?A @ e # (drop (Suc p) ?L @ concat (drop (Suc k) ?Ls))"
    using position_split [of k ?Ls p] b(1,2) e by simp
  have snoc: "?A @ [e] = concat (take k ?Ls) @ take (Suc p) ?L" using b(2) e by (simp add: take_Suc_conv_app_nth)
  show ?thesis
  proof (cases "Suc p < length ?L")
    case True
    have "Next C r it = Some (SetPosition (ch ! k) (int (Suc p)) (anchor_version it1) (?L ! Suc p) ?it)"
      using rv(1) b True by (subst Next.simps) (simp add: Let_def nat_add_distrib)
    moreover have "settled r ch (SetPosition (ch ! k) (int (Suc p)) (anchor_version it1) (?L ! Suc p) ?it) k (Suc p)"
      using settled_step [of r ch ?it k p "Suc p"] rv(2) True by simp
    ultimately show ?thesis using settled_stands es snoc by metis
  next
    case False
    then have p: "Suc p = length ?L" using b(2) by simp
    obtain res where res: "edge_from (blocks r) True (blk_at ch (Suc k)) = Some res" "found (blocks r) ch res (concat (take (Suc k) ?Ls))"
      using edge_forward [OF co, of "Suc k"] b(1) by auto
    have "Next C r it = Some (set_position res ?it)"
      using rv(1) b p res(1) by (subst Next.simps) (simp add: Let_def nat_add_distrib PositionAtEdge_def)
    moreover have "concat (take (Suc k) ?Ls) = ?A @ [e]" unfolding snoc using concat_take_Suc [of k ?Ls] b(1) p by simp
    ultimately show ?thesis using stands_set_position [OF res(2)] es by metis
  qed
qed

lemma Prev_settled:
  assumes "rep_inv C r ch" "iter_inv r (concat (chain_lists (blocks r) ch)) it" "anchor_entry it = Some e" "it_valid it"
  shows "\<exists>it' A B. Prev C r it = Some it' \<and> concat (chain_lists (blocks r) ch) = A @ e # B \<and>
    (if A = [] then \<not> it_valid it' else stands r ch it' (butlast A))"
proof -
  let ?Ls = "chain_lists (blocks r) ch"
  have co: "chain_ok (leaf_capacity r) (blocks r) ch" using assms(1) by (simp add: rep_inv_def)
  obtain it1 k p where rv: "RevalidatePosition C r it = Some (True, it1)" "settled r ch it1 k p" "anchor_entry it1 = Some e"
    using Revalidate_ok [OF assms(1,2)] assms(3,4) by auto
  note b = settled_block [OF co rv(2)]
  let ?L = "?Ls ! k" and ?A = "concat (take k ?Ls) @ take p (?Ls ! k)" and ?it = "InvalidateCache it1"
  have e: "e = ?L ! p" using rv(2,3) by (simp add: settled_def)
  have es: "concat ?Ls = ?A @ e # (drop (Suc p) ?L @ concat (drop (Suc k) ?Ls))"
    using position_split [of k ?Ls p] b(1,2) e by simp
  show ?thesis
  proof (cases p)
    case (Suc q)
    then have q: "q < length ?L" using b(2) by simp
    have "Prev C r it = Some (SetPosition (ch ! k) (int q) (anchor_version it1) (?L ! q) ?it)"
      using rv(1) b q Suc by (subst Prev.simps) (simp add: Let_def)
    moreover have "settled r ch (SetPosition (ch ! k) (int q) (anchor_version it1) (?L ! q) ?it) k q"
      using settled_step [of r ch ?it k p q] rv(2) q by simp
    then have "stands r ch (SetPosition (ch ! k) (int q) (anchor_version it1) (?L ! q) ?it) (concat (take k ?Ls) @ take q ?L)"
      by (rule settled_stands)
    moreover have "?A = (concat (take k ?Ls) @ take q ?L) @ [?L ! q]" using q Suc by (simp add: take_Suc_conv_app_nth)
    ultimately show ?thesis using es by (metis butlast_snoc snoc_eq_iff_butlast)
  next
    case 0
    obtain res where res: "edge_from (blocks r) False (if k = 0 then None else Some (ch ! (k - 1))) = Some res"
        "found_last (blocks r) ch res (concat (take k ?Ls))"
      using edge_backward [OF co, of k] b(1) by auto
    have pr: "Prev C r it = Some (set_position res ?it)"
      using rv(1) b 0 res(1) by (subst Prev.simps) (simp add: Let_def PositionAtEdge_def)
    have A: "?A = concat (take k ?Ls)" using 0 by simp
    show ?thesis
    proof (cases res)
      case None
      then have "?A = []" using res(2) A by (simp add: found_last_def)
      moreover have "\<not> it_valid (set_position res ?it)" using None by (simp add: set_position_def ClearPosition_def)
      ultimately show ?thesis using pr es by metis
    next
      case (Some x)
      then obtain A' y where A': "found (blocks r) ch res A'" "concat (take k ?Ls) = A' @ [y]"
        using res(2) by (cases x) (auto simp: found_last_def)
      have "stands r ch (set_position res ?it) A'" using stands_set_position [OF A'(1)] by blast
      then show ?thesis using pr es A A'(2) by (metis butlast_snoc snoc_eq_iff_butlast)
    qed
  qed
qed

lemma Next_ok:
  assumes "rep_inv C r ch" "iter_inv r (concat (chain_lists (blocks r) ch)) it" "it_pos it = Some e"
  shows "\<exists>it'. Next C r it = Some it' \<and> iter_inv r (concat (chain_lists (blocks r) ch)) it' \<and>
    it_pos it' = first_of (filter (\<lambda>x. cmp_entry C e x < 0) (concat (chain_lists (blocks r) ch)))"
proof -
  let ?es = "concat (chain_lists (blocks r) ch)"
  have co: "chain_ok (leaf_capacity r) (blocks r) ch" "ascending C ?es" using assms(1) by (simp_all add: rep_inv_def)
  have v: "it_valid it" "anchor_entry it = Some e" using assms(3) by (auto simp: it_pos_def split: if_splits)
  obtain it' A B where n: "Next C r it = Some it'" "?es = A @ e # B" "stands r ch it' (A @ [e])"
    using Next_settled [OF assms(1,2) v(2,1)] by blast
  have "filter (\<lambda>x. cmp_entry C e x < 0) ?es = B"
    using sorted_split(2) [of A e B] co chain_entry_ok [OF co(1)] n(2) by auto
  then show ?thesis using n stands_pos [OF co(1) n(3), of B] by auto
qed

lemma Prev_ok:
  assumes "rep_inv C r ch" "iter_inv r (concat (chain_lists (blocks r) ch)) it" "it_pos it = Some e"
  shows "\<exists>it'. Prev C r it = Some it' \<and> iter_inv r (concat (chain_lists (blocks r) ch)) it' \<and>
    it_pos it' = last_of (filter (\<lambda>x. cmp_entry C x e < 0) (concat (chain_lists (blocks r) ch)))"
proof -
  let ?es = "concat (chain_lists (blocks r) ch)"
  have co: "chain_ok (leaf_capacity r) (blocks r) ch" "ascending C ?es" using assms(1) by (simp_all add: rep_inv_def)
  have v: "it_valid it" "anchor_entry it = Some e" using assms(3) by (auto simp: it_pos_def split: if_splits)
  obtain it' A B where n: "Prev C r it = Some it'" "?es = A @ e # B" "if A = [] then \<not> it_valid it' else stands r ch it' (butlast A)"
    using Prev_settled [OF assms(1,2) v(2,1)] by blast
  have f: "filter (\<lambda>x. cmp_entry C x e < 0) ?es = A"
    using sorted_split(3) [of A e B] co chain_entry_ok [OF co(1)] n(2) by auto
  show ?thesis
  proof (cases "A = []")
    case True
    then show ?thesis using n f by (auto simp: iter_inv_def it_pos_def last_of_def)
  next
    case False
    then have "?es = butlast A @ last A # e # B" using n(2) by (metis append_Cons append_assoc append_butlast_last_id append_Nil)
    then show ?thesis using n False f stands_pos [OF co(1), of it' "butlast A" "last A # e # B"]
      by (auto simp: first_of_def last_of_def)
  qed
qed

end

context key_order
begin

lemma Next_end:
  assumes "it_pos it = None" "iter_inv r es it"
  shows "\<exists>it'. Next C r it = Some it' \<and> it_pos it' = None \<and> iter_inv r es it'"
    "\<exists>it'. Prev C r it = Some it' \<and> it_pos it' = None \<and> iter_inv r es it'"
proof -
  have "\<not> it_valid it" using assms by (auto simp: it_pos_def iter_inv_def)
  then have "RevalidatePosition C r it = Some (False, it)" by (simp add: RevalidatePosition_def)
  then show "\<exists>it'. Next C r it = Some it' \<and> it_pos it' = None \<and> iter_inv r es it'"
    "\<exists>it'. Prev C r it = Some it' \<and> it_pos it' = None \<and> iter_inv r es it'"
    by (subst Next.simps, simp add: it_pos_def iter_inv_def, subst Prev.simps, simp add: it_pos_def iter_inv_def)
qed

lemma SeekToFirst_ok:
  assumes "rep_inv C r ch"
  shows "\<exists>it'. SeekToFirst r it = Some it' \<and> iter_inv r (concat (chain_lists (blocks r) ch)) it' \<and>
    it_pos it' = first_of (concat (chain_lists (blocks r) ch))"
proof -
  have co: "chain_ok (leaf_capacity r) (blocks r) ch" "rep_head r = Some (hd ch)" using assms by (simp_all add: rep_inv_def)
  then have h: "rep_head r = blk_at ch 0" by (auto simp: blk_at_def chain_ok_def hd_conv_nth)
  obtain res where res: "edge_from (blocks r) True (blk_at ch 0) = Some res" "found (blocks r) ch res []"
    using edge_forward [OF co(1), of 0] by auto
  have st: "stands r ch (set_position res (InvalidateCache it)) []" using stands_set_position [OF res(2)] by blast
  have "SeekToFirst r it = Some (set_position res (InvalidateCache it))"
    unfolding SeekToFirst_def PositionAtEdge_def h using res(1) by simp
  then show ?thesis using stands_pos [OF co(1) st, of "concat (chain_lists (blocks r) ch)"] by simp
qed

lemma SeekToLast_ok:
  assumes "rep_inv C r ch"
  shows "\<exists>it'. SeekToLast r it = Some it' \<and> iter_inv r (concat (chain_lists (blocks r) ch)) it' \<and>
    it_pos it' = last_of (concat (chain_lists (blocks r) ch))"
proof -
  let ?es = "concat (chain_lists (blocks r) ch)"
  have co: "chain_ok (leaf_capacity r) (blocks r) ch" "rep_tail r = Some (last ch)" using assms by (simp_all add: rep_inv_def)
  then have ne: "ch \<noteq> []" by (simp add: chain_ok_def)
  then have h: "rep_tail r = (if length ch = 0 then None else Some (ch ! (length ch - 1)))" using co(2) by (simp add: last_conv_nth)
  obtain res where res: "edge_from (blocks r) False (rep_tail r) = Some res" "found_last (blocks r) ch res ?es"
    using edge_backward [OF co(1), of "length ch"] unfolding h by auto
  have eq: "SeekToLast r it = Some (set_position res (InvalidateCache it))"
    using res(1) by (simp add: SeekToLast_def PositionAtEdge_def)
  show ?thesis
  proof (cases res)
    case None
    then show ?thesis using eq res(2)
      by (simp add: found_last_def set_position_def ClearPosition_def iter_inv_def it_pos_def last_of_def)
  next
    case (Some x)
    then obtain A e where A: "found (blocks r) ch res A" "?es = A @ [e]" using res(2) by (cases x) (auto simp: found_last_def)
    have st: "stands r ch (set_position res (InvalidateCache it)) A" using stands_set_position [OF A(1)] by blast
    then show ?thesis using eq stands_pos [OF co(1) st A(2)] A(2) by (simp add: first_of_def last_of_def)
  qed
qed

lemma Seek_pos:
  assumes "rep_inv C r ch" "entry_ok k"
  shows "\<exists>it'. Seek C r it ik (Some k) = Some it' \<and> iter_inv r (concat (chain_lists (blocks r) ch)) it' \<and>
    it_pos it' = first_of (filter (\<lambda>x. \<not> cmp_entry C x k < 0) (concat (chain_lists (blocks r) ch)))"
proof -
  let ?es = "concat (chain_lists (blocks r) ch)" and ?P = "\<lambda>x. cmp_entry C x k < 0"
  have co: "chain_ok (leaf_capacity r) (blocks r) ch" "ascending C ?es" using assms(1) by (simp_all add: rep_inv_def)
  obtain it' where s: "Seek C r it ik (Some k) = Some it'" "stands r ch it' (takeWhile ?P ?es)" using Seek_ok [OF assms] by blast
  have "dropWhile ?P ?es = filter (\<lambda>x. \<not> ?P x) ?es"
    using takeWhile_filter_mono [OF ascending_mono(2) [OF co(2) _ assms(2)]] chain_entry_ok [OF co(1)] by blast
  then show ?thesis using s stands_pos [OF co(1) s(2), of "dropWhile ?P ?es"] by (metis takeWhile_dropWhile_id)
qed

lemma Valid_ok:
  assumes "rep_inv C r ch" "iter_inv r (concat (chain_lists (blocks r) ch)) it"
  shows "\<exists>it'. Valid C r it = Some (it_pos it \<noteq> None, it') \<and> it_key C r it = Some (it_pos it, it') \<and>
    iter_inv r (concat (chain_lists (blocks r) ch)) it' \<and> it_pos it' = it_pos it"
proof (cases "it_valid it")
  case True
  have co: "chain_ok (leaf_capacity r) (blocks r) ch" using assms(1) by (simp add: rep_inv_def)
  obtain it' k p where rv: "RevalidatePosition C r it = Some (True, it')" "settled r ch it' k p" "anchor_entry it' = anchor_entry it"
    using Revalidate_ok [OF assms] True by auto
  have "anchor_entry it \<noteq> None" "it_valid it'" using rv by (auto simp: settled_def)
  then show ?thesis using rv True settled_inv [OF co rv(2)] by (auto simp: Valid_def it_key_def it_pos_def)
next
  case False
  then show ?thesis using assms by (auto simp: Valid_def it_key_def it_pos_def RevalidatePosition_def)
qed

lemma at_most:
  assumes "ascending C es" "\<forall>x\<in>set es. entry_ok x" "entry_ok k"
  shows "last_of (filter (\<lambda>x. cmp_entry C x k \<le> 0) es) =
    (case first_of (filter (\<lambda>x. \<not> cmp_entry C x k < 0) es) of
       None \<Rightarrow> last_of es
     | Some e \<Rightarrow> if cmp_entry C e k \<noteq> 0 then last_of (filter (\<lambda>x. cmp_entry C x e < 0) es) else Some e)"
proof -
  let ?P = "\<lambda>x. cmp_entry C x k < 0"
  let ?A = "takeWhile ?P es" and ?D = "dropWhile ?P es"
  have f: "?A = filter ?P es" "?D = filter (\<lambda>x. \<not> ?P x) es" using takeWhile_filter_mono [OF ascending_mono(2) [OF assms]] by blast+
  have es: "es = ?A @ ?D" by simp
  have A: "\<forall>x\<in>set ?A. ?P x" by (auto dest: set_takeWhileD)
  then have fA: "filter (\<lambda>x. cmp_entry C x k \<le> 0) ?A = ?A" by (intro filter_all) auto
  show ?thesis
  proof (cases ?D)
    case Nil
    then have "es = ?A" by (metis append_Nil2 takeWhile_dropWhile_id)
    moreover have "first_of (filter (\<lambda>x. \<not> ?P x) es) = None" using Nil unfolding f(2) by (simp add: first_of_def)
    ultimately show ?thesis using fA by (metis (no_types, lifting) option.simps(4))
  next
    case (Cons e B)
    have AB: "es = ?A @ e # B" using es Cons by simp
    have sp: "filter (\<lambda>x. cmp_entry C x e < 0) es = ?A" using sorted_split(3) [of ?A e B] assms(1,2) AB by metis
    have ok: "entry_ok e" "\<forall>x\<in>set B. entry_ok x" using assms(2) AB by (metis Un_iff list.set_intros(1) set_append, metis Un_iff list.set_intros(2) set_append)
    have ge: "\<not> ?P e" using Cons by (metis hd_dropWhile list.discI list.sel(1))
    have B: "cmp_entry C e x < 0" if "x \<in> set B" for x
      using that assms(1) AB unfolding ascending_def by (metis sorted_wrt_append sorted_wrt.simps(2))
    have "\<not> cmp_entry C x k \<le> 0" if "x \<in> set B" for x
      using cmp_less_trans(1) [OF ok(1) _ assms(3) B [OF that]] ok(2) that ge by blast
    then have fB: "filter (\<lambda>x. cmp_entry C x k \<le> 0) B = []" by (intro filter_none) blast
    have "filter (\<lambda>x. cmp_entry C x k \<le> 0) es = ?A @ (if cmp_entry C e k = 0 then [e] else [])"
      using fA fB ge by (subst AB) auto
    moreover have "first_of (filter (\<lambda>x. \<not> ?P x) es) = Some e" unfolding f(2) [symmetric] Cons by (simp add: first_of_def)
    ultimately show ?thesis using sp by (simp add: last_of_def)
  qed
qed

lemma SeekForPrev_ok:
  assumes "rep_inv C r ch" "entry_ok k"
  shows "\<exists>it'. SeekForPrev C r it ik (Some k) = Some it' \<and> iter_inv r (concat (chain_lists (blocks r) ch)) it' \<and>
    it_pos it' = last_of (filter (\<lambda>x. cmp_entry C x k \<le> 0) (concat (chain_lists (blocks r) ch)))"
proof -
  let ?es = "concat (chain_lists (blocks r) ch)"
  have co: "chain_ok (leaf_capacity r) (blocks r) ch" "ascending C ?es" using assms(1) by (simp_all add: rep_inv_def)
  have sp: "last_of (filter (\<lambda>x. cmp_entry C x k \<le> 0) ?es) =
    (case first_of (filter (\<lambda>x. \<not> cmp_entry C x k < 0) ?es) of
       None \<Rightarrow> last_of ?es
     | Some e \<Rightarrow> if cmp_entry C e k \<noteq> 0 then last_of (filter (\<lambda>x. cmp_entry C x e < 0) ?es) else Some e)"
    using chain_entry_ok [OF co(1)] by (intro at_most [OF co(2) _ assms(2)]) blast
  obtain it1 where s: "Seek C r it ik (Some k) = Some it1" "iter_inv r ?es it1"
      "it_pos it1 = first_of (filter (\<lambda>x. \<not> cmp_entry C x k < 0) ?es)" using Seek_pos [OF assms] by blast
  obtain it2 where v: "Valid C r it1 = Some (it_pos it1 \<noteq> None, it2)" "iter_inv r ?es it2" "it_pos it2 = it_pos it1"
    using Valid_ok [OF assms(1) s(2)] by blast
  obtain it3 where w: "it_key C r it2 = Some (it_pos it2, it3)" "iter_inv r ?es it3" "it_pos it3 = it_pos it2"
    using Valid_ok [OF assms(1) v(2)] by blast
  show ?thesis
  proof (cases "it_pos it1")
    case None
    then show ?thesis using s v sp SeekToLast_ok [OF assms(1), of it2] by (auto simp: SeekForPrev_def)
  next
    case (Some e)
    then show ?thesis using s v w sp Prev_ok [OF assms(1) w(2), of e] by (auto simp: SeekForPrev_def seek_cmp_def)
  qed
qed

end

end
