(* ===== verification/Rocks_Trace.thy ===== *)
theory Rocks_Trace
  imports Rocks_Iterator_Correct
begin

text \<open>
  Runs of the RocksDB memtable with an iterator open: insertions between moves of the cursor. They refine
  an ordered list with a cursor that is an entry of the list. A block's version counts its writes in 32
  bits; the runs are bounded so that it does not wrap.
\<close>

section \<open>The cursor across insertions\<close>

definition versions_below :: "memtable_rep \<Rightarrow> nat \<Rightarrow> bool" where
  "versions_below r n \<longleftrightarrow> (\<forall>i<length (blocks r). unat (blk_version (blocks r ! i)) \<le> 4 * n)"

lemma version_step:
  assumes "block_moves H H'" "i < length H" "unat (blk_version (H ! i)) + 4 < 2 ^ 32"
  shows "blk_count (H' ! i) = blk_count (H ! i) \<and> blk_entries (H' ! i) = blk_entries (H ! i) \<and> blk_version (H' ! i) = blk_version (H ! i) \<or>
    unat (blk_version (H ! i)) < unat (blk_version (H' ! i))"
    "unat (blk_version (H' ! i)) \<le> unat (blk_version (H ! i)) + 4"
proof -
  have "unat (blk_version (H ! i) + 2) = unat (blk_version (H ! i)) + 2" "unat (blk_version (H ! i) + 4) = unat (blk_version (H ! i)) + 4"
    using assms(3) by (simp_all add: unat_word_ariths)
  then show "blk_count (H' ! i) = blk_count (H ! i) \<and> blk_entries (H' ! i) = blk_entries (H ! i) \<and> blk_version (H' ! i) = blk_version (H ! i) \<or>
      unat (blk_version (H ! i)) < unat (blk_version (H' ! i))"
    "unat (blk_version (H' ! i)) \<le> unat (blk_version (H ! i)) + 4"
    using assms(1,2) unfolding block_moves_def by fastforce+
qed

lemma versions_below_insert:
  assumes "block_moves (blocks r) (blocks r')" "versions_below r n" "4 * n + 4 < 2 ^ 32"
  shows "versions_below r' (Suc n)"
  unfolding versions_below_def
proof (intro allI impI)
  fix i
  assume i: "i < length (blocks r')"
  show "unat (blk_version (blocks r' ! i)) \<le> 4 * Suc n"
  proof (cases "i < length (blocks r)")
    case True
    then have "unat (blk_version (blocks r ! i)) \<le> 4 * n" using assms(2) by (simp add: versions_below_def)
    then show ?thesis using version_step(2) [OF assms(1) True] assms(3) by simp
  next
    case False
    then have "blk_version (blocks r' ! i) = 0" using assms(1) i by (simp add: block_moves_def)
    then show ?thesis by simp
  qed
qed

lemma iter_inv_insert:
  assumes "block_moves (blocks r) (blocks r')" "versions_below r n" "4 * n + 4 < 2 ^ 32" "iter_inv r es it" "set es \<subseteq> set es'"
  shows "iter_inv r' es' it"
proof (cases "it_valid it")
  case True
  then obtain i e where i: "current_leaf it = Some i" "i < length (blocks r)" "0 \<le> current_slot it" "anchor_entry it = Some e" "e \<in> set es"
      "unat (anchor_version it) \<le> unat (blk_version (blocks r ! i))"
      "blk_version (blocks r ! i) = anchor_version it \<longrightarrow>
        nat (current_slot it) < blk_count (blocks r ! i) \<and> blk_entries (blocks r ! i) ! nat (current_slot it) = Some e"
    using assms(4) by (auto simp: iter_inv_def)
  have "unat (blk_version (blocks r ! i)) + 4 < 2 ^ 32" using assms(2,3) i(2) unfolding versions_below_def by force
  note st = version_step [OF assms(1) i(2) this]
  have "i < length (blocks r')" using assms(1) i(2) by (simp add: block_moves_def)
  moreover have "unat (anchor_version it) \<le> unat (blk_version (blocks r' ! i))" using st(1) i(6) by auto
  moreover have "nat (current_slot it) < blk_count (blocks r' ! i) \<and> blk_entries (blocks r' ! i) ! nat (current_slot it) = Some e"
    if "blk_version (blocks r' ! i) = anchor_version it" using st(1) i(6,7) that by auto
  ultimately show ?thesis using i(1,3-5) assms(5) unfolding iter_inv_def by auto
qed (simp add: iter_inv_def)

section \<open>Runs\<close>

datatype rocks_op = OpInsert entry | OpSeek entry | OpSeekForPrev entry | OpNext | OpPrev | OpFirst | OpLast

fun rocks_step :: "key_comparator \<Rightarrow> rocks_op \<Rightarrow> memtable_rep \<times> memtable_iter \<Rightarrow> (memtable_rep \<times> memtable_iter) option" where
  "rocks_step C (OpInsert e) (r, it) = map_option (\<lambda>r'. (r', it)) (Insert C r e)"
| "rocks_step C (OpSeek k) (r, it) = map_option (Pair r) (Seek C r it (ikey k) (Some k))"
| "rocks_step C (OpSeekForPrev k) (r, it) = map_option (Pair r) (SeekForPrev C r it (ikey k) (Some k))"
| "rocks_step C OpNext (r, it) = map_option (Pair r) (Next C r it)"
| "rocks_step C OpPrev (r, it) = map_option (Pair r) (Prev C r it)"
| "rocks_step C OpFirst (r, it) = map_option (Pair r) (SeekToFirst r it)"
| "rocks_step C OpLast (r, it) = map_option (Pair r) (SeekToLast r it)"

fun cursor_step :: "key_comparator \<Rightarrow> rocks_op \<Rightarrow> entry list \<times> entry option \<Rightarrow> entry list \<times> entry option" where
  "cursor_step C (OpInsert e) (es, pos) = (ins_entry C e es, pos)"
| "cursor_step C (OpSeek k) (es, pos) = (es, first_of (filter (\<lambda>x. \<not> cmp_entry C x k < 0) es))"
| "cursor_step C (OpSeekForPrev k) (es, pos) = (es, last_of (filter (\<lambda>x. cmp_entry C x k \<le> 0) es))"
| "cursor_step C OpNext (es, pos) = (es, case pos of None \<Rightarrow> None | Some e \<Rightarrow> first_of (filter (\<lambda>x. cmp_entry C e x < 0) es))"
| "cursor_step C OpPrev (es, pos) = (es, case pos of None \<Rightarrow> None | Some e \<Rightarrow> last_of (filter (\<lambda>x. cmp_entry C x e < 0) es))"
| "cursor_step C OpFirst (es, pos) = (es, first_of es)"
| "cursor_step C OpLast (es, pos) = (es, last_of es)"

fun op_ok :: "key_comparator \<Rightarrow> rocks_op \<Rightarrow> entry list \<Rightarrow> bool" where
  "op_ok C (OpInsert e) es \<longleftrightarrow> entry_ok e \<and> (\<forall>x\<in>set es. cmp_entry C x e \<noteq> 0) \<and> length es < 2 ^ 30 - 1"
| "op_ok C (OpSeek k) es \<longleftrightarrow> entry_ok k"
| "op_ok C (OpSeekForPrev k) es \<longleftrightarrow> entry_ok k"
| "op_ok C _ es \<longleftrightarrow> True"

fun rocks_run :: "key_comparator \<Rightarrow> rocks_op list \<Rightarrow> memtable_rep \<times> memtable_iter \<Rightarrow> (memtable_rep \<times> memtable_iter) option" where
  "rocks_run C [] s = Some s"
| "rocks_run C (op # ops) s = (case rocks_step C op s of None \<Rightarrow> None | Some s' \<Rightarrow> rocks_run C ops s')"

fun cursor_run :: "key_comparator \<Rightarrow> rocks_op list \<Rightarrow> entry list \<times> entry option \<Rightarrow> entry list \<times> entry option" where
  "cursor_run C [] a = a"
| "cursor_run C (op # ops) a = cursor_run C ops (cursor_step C op a)"

fun ops_ok :: "key_comparator \<Rightarrow> rocks_op list \<Rightarrow> entry list \<times> entry option \<Rightarrow> bool" where
  "ops_ok C [] a \<longleftrightarrow> True"
| "ops_ok C (op # ops) a \<longleftrightarrow> op_ok C op (fst a) \<and> ops_ok C ops (cursor_step C op a)"

definition cursor_rel :: "key_comparator \<Rightarrow> memtable_rep \<times> memtable_iter \<Rightarrow> entry list \<times> entry option \<Rightarrow> bool" where
  "cursor_rel C s a \<longleftrightarrow> represents C (fst s) (fst a) \<and> versions_below (fst s) (length (fst a)) \<and>
    iter_inv (fst s) (fst a) (snd s) \<and> it_pos (snd s) = snd a"

context key_order
begin

lemma length_ins_entry:
  assumes "\<forall>x\<in>set es. entry_ok x \<and> cmp_entry C x e \<noteq> 0" "entry_ok e"
  shows "length (ins_entry C e es) = Suc (length es)"
proof -
  have "filter (\<lambda>x. cmp_entry C e x < 0) es = filter (\<lambda>x. \<not> cmp_entry C x e < 0) es"
    using assms cmp_flip by (intro filter_cong) (force+)
  then show ?thesis using sum_length_filter_compl [of "\<lambda>x. cmp_entry C x e < 0" es] by (simp add: ins_entry_def)
qed

lemma rocks_step_refines:
  assumes "cursor_rel C (r, it) (es, pos)" "op_ok C op es"
  shows "\<exists>s'. rocks_step C op (r, it) = Some s' \<and> cursor_rel C s' (cursor_step C op (es, pos))"
proof -
  have rel: "represents C r es" "versions_below r (length es)" "iter_inv r es it" "it_pos it = pos"
    using assms(1) by (simp_all add: cursor_rel_def)
  obtain ch where ch: "rep_inv C r ch" "es = concat (chain_lists (blocks r) ch)" using rel(1) by (auto simp: represents_def)
  have keep: "\<exists>s'. map_option (Pair r) mv = Some s' \<and> cursor_rel C s' (es, q)"
    if "\<exists>it'. mv = Some it' \<and> iter_inv r es it' \<and> it_pos it' = q" for mv q
    using that rel(1,2) by (auto simp: cursor_rel_def)
  show ?thesis
  proof (cases op)
    case (OpInsert e)
    then have e: "entry_ok e" "\<forall>x\<in>set es. cmp_entry C x e \<noteq> 0" "4 * length es + 4 < 2 ^ 32" using assms(2) by auto
    obtain r' where r': "Insert C r e = Some r'" "represents C r' (ins_entry C e es)" "block_moves (blocks r) (blocks r')"
      using represents_insert [OF rel(1) e(1,2)] by blast
    have x: "\<forall>x\<in>set es. entry_ok x \<and> cmp_entry C x e \<noteq> 0" using e(2) represents_ok [OF rel(1)] by blast
    have "set es \<subseteq> set (ins_entry C e es)" using set_ins_entry [OF x e(1)] by blast
    then have "iter_inv r' (ins_entry C e es) it" by (rule iter_inv_insert [OF r'(3) rel(2) e(3) rel(3)])
    moreover have "versions_below r' (length (ins_entry C e es))"
      using versions_below_insert [OF r'(3) rel(2) e(3)] length_ins_entry [OF x e(1)] by simp
    ultimately show ?thesis using OpInsert r' rel(4) by (simp add: cursor_rel_def)
  next
    case (OpSeek k)
    then show ?thesis using keep Seek_pos [OF ch(1), of k it "ikey k"] assms(2) unfolding ch(2) by simp
  next
    case (OpSeekForPrev k)
    then show ?thesis using keep SeekForPrev_ok [OF ch(1), of k it "ikey k"] assms(2) unfolding ch(2) by simp
  next
    case OpNext
    have "\<exists>it'. Next C r it = Some it' \<and> iter_inv r es it' \<and>
        it_pos it' = (case pos of None \<Rightarrow> None | Some e \<Rightarrow> first_of (filter (\<lambda>x. cmp_entry C e x < 0) es))"
      using Next_ok [OF ch(1), of it] Next_end(1) [of it r es] rel(3,4) unfolding ch(2) by (cases pos) auto
    then show ?thesis using OpNext keep by simp
  next
    case OpPrev
    have "\<exists>it'. Prev C r it = Some it' \<and> iter_inv r es it' \<and>
        it_pos it' = (case pos of None \<Rightarrow> None | Some e \<Rightarrow> last_of (filter (\<lambda>x. cmp_entry C x e < 0) es))"
      using Prev_ok [OF ch(1), of it] Next_end(2) [of it r es] rel(3,4) unfolding ch(2) by (cases pos) auto
    then show ?thesis using OpPrev keep by simp
  next
    case OpFirst
    then show ?thesis using keep SeekToFirst_ok [OF ch(1), of it] unfolding ch(2) by simp
  next
    case OpLast
    then show ?thesis using keep SeekToLast_ok [OF ch(1), of it] unfolding ch(2) by simp
  qed
qed

lemma rocks_run_refines:
  "cursor_rel C s a \<Longrightarrow> ops_ok C ops a \<Longrightarrow> \<exists>s'. rocks_run C ops s = Some s' \<and> cursor_rel C s' (cursor_run C ops a)"
proof (induction ops arbitrary: s a)
  case (Cons op ops)
  obtain r it es pos where sa: "s = (r, it)" "a = (es, pos)" by (cases s, cases a)
  then obtain s' where "rocks_step C op s = Some s'" "cursor_rel C s' (cursor_step C op a)"
    using rocks_step_refines [of r it es pos op] Cons.prems by auto
  then show ?case using Cons.IH [of s' "cursor_step C op a"] Cons.prems by simp
qed simp

end

lemma cursor_rel_new: "cursor_rel C (ExpanseMemTableRep cap scope, IteratorImpl) ([], None)"
  using represents_create [of C cap scope]
  by (simp add: cursor_rel_def versions_below_def iter_inv_def it_pos_def IteratorImpl_def ExpanseMemTableRep_def LeafBlock_def)

section \<open>Batches\<close>

lemma read_slots_ok:
  "holds es L \<Longrightarrow> p + n \<le> length L \<Longrightarrow> read_slots es [p..<p + n] = Some (Some (take n (drop p L)))"
proof (induction n arbitrary: p)
  case (Suc n)
  then have p: "p < length L" by simp
  have "rd es p = Some (Some (L ! p))" using Suc.prems p by (auto simp: holds_def rd_def)
  moreover have "[p..<p + Suc n] = p # [Suc p..<Suc p + n]" by (simp add: upt_conv_Cons)
  moreover have "take (Suc n) (drop p L) = L ! p # take n (drop (Suc p) L)" using p by (simp add: Cons_nth_drop_Suc [symmetric])
  ultimately show ?case using Suc.IH [of "Suc p"] Suc.prems by simp
qed simp

definition entry_kv :: "entry \<Rightarrow> slice \<times> slice" where
  "entry_kv e = (case decode_entry e of Some (Some kv) \<Rightarrow> kv | _ \<Rightarrow> ([], []))"

definition entry_full :: "entry \<Rightarrow> bool" where
  "entry_full e = (case decode_entry e of Some (Some kv) \<Rightarrow> True | _ \<Rightarrow> False)"

lemma decode_all_ok: "\<forall>e\<in>set es. entry_full e \<Longrightarrow> decode_all es = Some (map (\<lambda>e. Some (entry_kv e)) es)"
  by (induction es) (auto simp: entry_full_def entry_kv_def split: option.splits)

context key_order
begin

lemma unique_split:
  assumes "ascending C (A @ e # B)" "\<forall>x\<in>set (A @ e # B). entry_ok x" "A @ e # B = A' @ e # B'"
  shows "A = A' \<and> B = B'"
  using sorted_split(2,3) [OF assms(1,2)] sorted_split(2,3) [of A' e B'] assms by metis

lemma scan_done: "\<not> length out < m \<Longrightarrow> scan_loop C r it m out = Some (it, out)"
  by (subst scan_loop.simps) simp

lemma scan_step:
  assumes rv: "RevalidatePosition C r it = Some (True, it1)" "current_leaf it1 = Some leaf" "current_slot it1 = int slot"
    and b: "rd (blocks r) leaf = Some b" "blk_version b = anchor_version it1" "slot < blk_count b" "length out < m"
    and n: "min (blk_count b - slot) (m - length out) = n"
    and ts: "read_slots (blk_entries b) [slot..<slot + n] = Some (Some ts)" "decode_all ts = Some ds"
  shows "slot + n < blk_count b \<Longrightarrow> rd (blk_entries b) (slot + n) = Some (Some x) \<Longrightarrow>
      scan_loop C r it m out = scan_loop C r (SetPosition leaf (int (slot + n)) (anchor_version it1) x it1) m (out @ ds)"
    and "\<not> slot + n < blk_count b \<Longrightarrow> edge_from (blocks r) True (next_leaf b) = Some res \<Longrightarrow>
      scan_loop C r it m out =
        (if res = None then Some (set_position res it1, out @ ds) else scan_loop C r (set_position res it1) m (out @ ds))"
  using assms by (subst scan_loop.simps, simp add: Let_def PositionAtEdge_def)+

lemma scan_loop_ok:
  assumes inv: "rep_inv C r ch" and full: "\<forall>x\<in>set (concat (chain_lists (blocks r) ch)). entry_full x"
  shows "iter_inv r (concat (chain_lists (blocks r) ch)) it \<Longrightarrow> concat (chain_lists (blocks r) ch) = A @ D \<Longrightarrow> D \<noteq> [] \<Longrightarrow>
    it_pos it = first_of D \<Longrightarrow> length out < m \<Longrightarrow>
    \<exists>it'. scan_loop C r it m out = Some (it', out @ map (\<lambda>x. Some (entry_kv x)) (take (m - length out) D)) \<and>
      iter_inv r (concat (chain_lists (blocks r) ch)) it' \<and> it_pos it' = first_of (drop (m - length out) D)"
proof (induction "length D" arbitrary: it A D out rule: less_induct)
  case less
  let ?Ls = "chain_lists (blocks r) ch"
  let ?es = "concat ?Ls" and ?f = "\<lambda>x. Some (entry_kv x)"
  have co: "chain_ok (leaf_capacity r) (blocks r) ch" "ascending C ?es" using inv by (simp_all add: rep_inv_def)
  obtain e D' where D: "D = e # D'" using less.prems(3) by (cases D) auto
  have pos: "it_valid it" "anchor_entry it = Some e" using less.prems(4) D by (auto simp: it_pos_def first_of_def split: if_splits)
  obtain it1 k p where rv: "RevalidatePosition C r it = Some (True, it1)" "settled r ch it1 k p" "anchor_entry it1 = Some e"
    using Revalidate_ok [OF inv less.prems(1)] pos by auto
  note b = settled_block [OF co(1) rv(2)]
  let ?L = "?Ls ! k" and ?m = "m - length out"
  let ?n = "min (length ?L - p) ?m" and ?R = "concat (drop (Suc k) ?Ls)"
  have e: "e = ?L ! p" using rv(2,3) by (simp add: settled_def)
  have split: "?es = (concat (take k ?Ls) @ take p ?L) @ e # (drop (Suc p) ?L @ ?R)"
    using position_split [of k ?Ls p] b(1,2) e by simp
  have DA: "A = concat (take k ?Ls) @ take p ?L" "D = drop p ?L @ ?R"
  proof -
    have "A = concat (take k ?Ls) @ take p ?L \<and> D' = drop (Suc p) ?L @ ?R"
      using unique_split [of A e D' "concat (take k ?Ls) @ take p ?L" "drop (Suc p) ?L @ ?R"] split less.prems(2) D co(2)
        chain_entry_ok [OF co(1)] by simp
    then show "A = concat (take k ?Ls) @ take p ?L" "D = drop p ?L @ ?R"
      using b(2) e D by (simp_all add: Cons_nth_drop_Suc [symmetric])
  qed
  have n: "0 < ?n" "p + ?n \<le> length ?L" using b(2) less.prems(5) by auto
  have rs: "read_slots (blk_entries (blocks r ! (ch ! k))) [p..<p + ?n] = Some (Some (take ?n (drop p ?L)))"
    using read_slots_ok [OF chain_block(7) [OF co(1) b(1)] n(2)] .
  have da: "decode_all (take ?n (drop p ?L)) = Some (map ?f (take ?n (drop p ?L)))"
    using full b(1) concat_nth_mem [of k ?Ls] by (intro decode_all_ok) (auto dest!: in_set_takeD in_set_dropD)
  let ?out = "out @ map ?f (take ?n (drop p ?L))"
  note step = scan_step [OF rv(1) b(3,4,5,6) _ less.prems(5) _ rs da, unfolded b(7), OF b(2) refl]
  have len: "length ?out = length out + ?n" using n by simp
  show ?case
  proof (cases "p + ?n < length ?L")
    case True
    then have m: "?n = ?m" by linarith
    let ?it = "SetPosition (ch ! k) (int (p + ?n)) (anchor_version it1) (?L ! (p + ?n)) it1"
    have "scan_loop C r it m out = scan_loop C r ?it m ?out"
      using step(1) [OF _ b(8)] True b(7) by simp
    also have "\<dots> = Some (?it, ?out)" using m len less.prems(5) by (intro scan_done) simp
    finally have "scan_loop C r it m out = Some (?it, ?out)" .
    moreover have st: "stands r ch ?it (concat (take k ?Ls) @ take (p + ?n) ?L)"
      using settled_stands [OF settled_step [OF rv(2) True refl]] .
    moreover have "?es = (concat (take k ?Ls) @ take (p + ?n) ?L) @ (drop (p + ?n) ?L @ ?R)"
      using concat_split [of k ?Ls] b(1) by simp
    moreover have "take ?m D = take ?n (drop p ?L)" "drop ?m D = drop (p + ?n) ?L @ ?R"
      unfolding m DA(2) using True m by (simp_all add: add.commute)
    ultimately show ?thesis using stands_pos [OF co(1) st] by (metis (no_types, lifting))
  next
    case False
    then have n_eq: "?n = length ?L - p" "length ?L - p \<le> ?m" using n(2) by linarith+
    then have tk: "take ?n (drop p ?L) = drop p ?L" by simp
    obtain res where res: "edge_from (blocks r) True (blk_at ch (Suc k)) = Some res" "found (blocks r) ch res (concat (take (Suc k) ?Ls))"
      using edge_forward [OF co(1), of "Suc k"] b(1) by auto
    let ?it = "set_position res it1"
    have st: "stands r ch ?it (concat (take (Suc k) ?Ls))" "it_valid ?it \<longleftrightarrow> res \<noteq> None" using stands_set_position [OF res(2)] by blast+
    have es: "?es = concat (take (Suc k) ?Ls) @ ?R" by (metis append_take_drop_id concat_append)
    note sp = stands_pos [OF co(1) st(1) es]
    have eq: "scan_loop C r it m out = (if res = None then Some (?it, ?out) else scan_loop C r ?it m ?out)"
      using step(2) [of res] False b(7,9) res(1) by simp
    have tD: "take ?m D = drop p ?L @ take (?m - (length ?L - p)) ?R" "drop ?m D = drop (?m - (length ?L - p)) ?R"
      unfolding DA(2) using n_eq(2) by simp_all
    show ?thesis
    proof (cases "?R = [] \<or> ?n = ?m")
      case True
      have "scan_loop C r it m out = Some (?it, ?out)"
      proof (cases "?R = []")
        case True
        then have "\<not> it_valid ?it" using sp(2) st(1) by (auto simp: it_pos_def first_of_def stands_def settled_def split: if_splits)
        then show ?thesis using eq st(2) by simp
      next
        case False
        then have "\<not> length ?out < m" using True len less.prems(5) by linarith
        then show ?thesis using eq scan_done [of ?out m r ?it] by (metis (no_types, lifting))
      qed
      moreover have "take ?m D = drop p ?L" "drop ?m D = ?R" using True n_eq unfolding tD by (metis append_Nil2 diff_self_eq_0 drop_0 drop_Nil take_0 take_Nil)+
      ultimately show ?thesis using sp tk by auto
    next
      case False
      have "it_valid ?it" using sp(2) False by (auto simp: it_pos_def first_of_def split: if_splits)
      then have step: "scan_loop C r it m out = scan_loop C r ?it m ?out" using eq st(2) by (simp only: if_not_P simp_thms)
      have "length ?R < length D" using b(2) unfolding DA(2) by simp
      moreover have "length ?out < m" using False len n_eq less.prems(5) by linarith
      ultimately obtain it' where "scan_loop C r ?it m ?out = Some (it', ?out @ map ?f (take (m - length ?out) ?R))"
          "iter_inv r ?es it'" "it_pos it' = first_of (drop (m - length ?out) ?R)"
        using less.hyps [of ?R ?it "concat (take (Suc k) ?Ls)" ?out] sp es False by blast
      moreover have "m - length ?out = ?m - (length ?L - p)" using len n_eq by simp
      ultimately show ?thesis unfolding step tD using tk by (intro exI [of _ it']) simp
    qed
  qed
qed

lemma ScanBatch_ok:
  assumes "rep_inv C r ch" "\<forall>x\<in>set (concat (chain_lists (blocks r) ch)). entry_full x"
    and "iter_inv r (concat (chain_lists (blocks r) ch)) it" "it_pos it = Some e"
  shows "\<exists>it'. ScanBatch C r it m =
      Some (it', map (\<lambda>x. Some (entry_kv x)) (take m (e # filter (\<lambda>x. cmp_entry C e x < 0) (concat (chain_lists (blocks r) ch))))) \<and>
    iter_inv r (concat (chain_lists (blocks r) ch)) it' \<and>
    it_pos it' = first_of (drop m (e # filter (\<lambda>x. cmp_entry C e x < 0) (concat (chain_lists (blocks r) ch))))"
proof -
  let ?es = "concat (chain_lists (blocks r) ch)"
  have co: "chain_ok (leaf_capacity r) (blocks r) ch" "ascending C ?es" using assms(1) by (simp_all add: rep_inv_def)
  have v: "it_valid it" "anchor_entry it = Some e" using assms(4) by (auto simp: it_pos_def split: if_splits)
  obtain leaf where lf: "current_leaf it = Some leaf" "\<not> current_slot it < 0" "e \<in> set ?es" using assms(3) v unfolding iter_inv_def by fastforce
  obtain A B where AB: "?es = A @ e # B" using lf(3) by (meson split_list)
  have f: "filter (\<lambda>x. cmp_entry C e x < 0) ?es = B"
    using sorted_split(2) [of A e B] co AB chain_entry_ok [OF co(1)] by auto
  show ?thesis
  proof (cases "m = 0")
    case True
    then show ?thesis using assms(3,4) by (simp add: ScanBatch_def first_of_def)
  next
    case False
    then have "ScanBatch C r it m = scan_loop C r (InvalidateCache it) m []" using v lf by (simp add: ScanBatch_def)
    moreover have "it_pos (InvalidateCache it) = first_of (e # B)" using assms(4) by (simp add: first_of_def)
    ultimately show ?thesis
      using scan_loop_ok [OF assms(1,2), of "InvalidateCache it" A "e # B" "[]" m] AB assms(3) False unfolding f by simp
  qed
qed

lemma scan_first_batch:
  assumes "rep_inv C r ch" "\<forall>x\<in>set (concat (chain_lists (blocks r) ch)). entry_full x"
    and "iter_inv r (concat (chain_lists (blocks r) ch)) it" "it_pos it = first_of (concat (chain_lists (blocks r) ch))"
  shows "\<exists>it'. ScanBatch C r it m = Some (it', map (\<lambda>e. Some (entry_kv e)) (take m (concat (chain_lists (blocks r) ch)))) \<and>
    it_pos it' = first_of (drop m (concat (chain_lists (blocks r) ch)))"
proof (cases "concat (chain_lists (blocks r) ch)")
  case Nil
  then have "\<not> it_valid it" using assms(3,4) by (auto simp: it_pos_def first_of_def iter_inv_def)
  then show ?thesis using assms(4) unfolding Nil by (simp add: ScanBatch_def first_of_def)
next
  case (Cons e S)
  have co: "chain_ok (leaf_capacity r) (blocks r) ch" using assms(1) by (simp add: rep_inv_def)
  have "e # filter (\<lambda>x. cmp_entry C e x < 0) (concat (chain_lists (blocks r) ch)) = concat (chain_lists (blocks r) ch)"
    using sorted_split(2) [of "[]" e S] assms(1) Cons chain_entry_ok [OF co] by (simp add: rep_inv_def)
  moreover have "it_pos it = Some e" using assms(4) Cons by (simp add: first_of_def)
  ultimately show ?thesis using ScanBatch_ok [OF assms(1-3), of e m] by metis
qed

end

end
