(* ===== verification/Rocks_Runs.thy ===== *)
theory Rocks_Runs
  imports Rocks_Trace
begin

text \<open>
  What a caller of the RocksDB memtable can rely on: the contents after any insertions, the lookups and
  the iterator over them, for every leaf capacity and lock scope. The comparator is any that satisfies
  \<open>key_order\<close>; the examples use the internal key order of the source.
\<close>

section \<open>Entries\<close>

text \<open>The layout of a memtable entry: a length-prefixed internal key and a length-prefixed value.\<close>

definition encode_entry :: "slice \<Rightarrow> u64 \<Rightarrow> slice \<Rightarrow> entry" where
  "encode_entry u s v = lk_memtable_key (LookupKey u s) @ EncodeVarint32 (of_nat (length v)) @ v"

lemma decode_encode:
  assumes "length u + 8 < 2 ^ 32" "length v < 2 ^ 32"
  shows "decode_entry (encode_entry u s v) = Some (Some (lk_internal_key (LookupKey u s), v))"
    and "entry_ok (encode_entry u s v)" "ukey (encode_entry u s v) = u" "ikey (encode_entry u s v) = lk_internal_key (LookupKey u s)"
proof -
  let ?k = "lk_internal_key (LookupKey u s)" and ?w = "EncodeVarint32 (of_nat (length v)) @ v"
  have e: "encode_entry u s v = EncodeVarint32 (of_nat (length ?k)) @ ?k @ ?w"
    by (simp add: encode_entry_def LookupKey_parts(1,4))
  have u: "unat (of_nat n :: u32) = n" if "n < 2 ^ 32" for n using that by (simp add: unat_of_nat take_bit_nat_eq_self)
  have k: "unat (of_nat (length ?k) :: u32) = length ?k" "unat (of_nat (length v) :: u32) = length v"
    unfolding LookupKey_parts(4) using u assms by blast+
  show "decode_entry (encode_entry u s v) = Some (Some (?k, v))"
    unfolding e decode_entry_def by (simp add: varint_round_trip k)
  have g: "GetLengthPrefixedSlice (Some (encode_entry u s v)) = Some ?k"
    using GetLengthPrefixedSlice_encode [of ?k ?w] assms(1) e by (simp add: LookupKey_parts(4))
  show "entry_ok (encode_entry u s v)" "ikey (encode_entry u s v) = ?k" "ukey (encode_entry u s v) = u"
    using g by (simp_all add: entry_ok_def ikey_def ukey_def LookupKey_parts(2,4))
qed

section \<open>Runs with an open iterator\<close>


definition ex_a :: entry where
  "ex_a = encode_entry [97] 5 [1]"

definition ex_b :: entry where
  "ex_b = encode_entry [98] 6 [2]"

definition ex_b_old :: entry where
  "ex_b_old = encode_entry [98] 3 [3]"

lemma ex_ok: "entry_ok ex_a" "entry_ok ex_b" "entry_ok ex_b_old"
  unfolding ex_a_def ex_b_def ex_b_old_def by (simp_all add: decode_encode(2))

lemma ex_cmp:
  "cmp_entry internal_comparator ex_a ex_b = - 1" "cmp_entry internal_comparator ex_b ex_a = 1"
  "cmp_entry internal_comparator ex_a ex_b_old = - 1" "cmp_entry internal_comparator ex_b_old ex_a = 1"
  "cmp_entry internal_comparator ex_b ex_b_old = - 1" "cmp_entry internal_comparator ex_b_old ex_b = 1"
  by code_simp+

lemmas ex_facts = ex_ok ex_cmp ex_ok [THEN ik.cmp_self]

abbreviation ex_run :: "rocks_op list" where
  "ex_run \<equiv> [OpInsert ex_b_old, OpFirst, OpInsert ex_a, OpInsert ex_b, OpPrev]"

lemma ex_ops:
  "ops_ok internal_comparator ex_run ([], None)"
  "cursor_run internal_comparator ex_run ([], None) = ([ex_a, ex_b, ex_b_old], Some ex_b)"
  by (simp_all add: ex_facts ins_entry_def first_of_def last_of_def)


section \<open>Contents and lookups\<close>

lemma set_ins_entries:
  assumes "key_order C" "\<forall>e\<in>set es. entry_ok e" "distinct_keys C es" "\<forall>e\<in>set es. \<forall>x\<in>set acc. cmp_entry C x e \<noteq> 0" "\<forall>e\<in>set acc. entry_ok e"
  shows "set (ins_entries C acc es) = set acc \<union> set es"
  using assms
proof (induction es arbitrary: acc)
  case (Cons e es)
  then have s: "set (ins_entry C e acc) = insert e (set acc)" by (intro key_order.set_ins_entry) auto
  then show ?case using Cons.IH [of "ins_entry C e acc"] Cons.prems by auto
qed simp

lemma insert_all_new:
  assumes "key_order C" "\<forall>e\<in>set es. entry_ok e" "distinct_keys C es"
  shows "\<exists>r. insert_all C (ExpanseMemTableRep cap scope) es = Some r \<and> represents C r (ins_entries C [] es) \<and>
    set (ins_entries C [] es) = set es"
  using key_order.insert_all_ok [OF assms(1) represents_create, of es cap scope] set_ins_entries [OF assms, of "[]"] assms(2,3) by simp

text \<open>After any insertions of entries with distinct keys, a memtable of any capacity and lock scope contains
  exactly the keys inserted.\<close>

theorem rocks_contains_inserted:
  assumes "key_order C" "\<forall>e\<in>set es. entry_ok e" "distinct_keys C es" "entry_ok key"
  shows "\<exists>r. insert_all C (ExpanseMemTableRep cap scope) es = Some r \<and> Contains C r key = Some (\<exists>e\<in>set es. cmp_entry C key e = 0)"
  using insert_all_new [OF assms(1-3), of cap scope] key_order.represents_contains [OF assms(1) _ assms(4)] by metis

lemma ex_distinct: "distinct_keys internal_comparator [ex_b_old, ex_a, ex_b]" "distinct_keys internal_comparator [ex_a, ex_b]"
  by (simp_all add: ex_facts)

lemma ex_all_ok: "\<forall>e\<in>set [ex_b_old, ex_a, ex_b]. entry_ok e"
  by (simp add: ex_facts)

theorem rocks_contains_inserted_witness:
  "\<exists>r. insert_all internal_comparator (ExpanseMemTableRep 2 kTrieCall) [ex_b_old, ex_a, ex_b] = Some r \<and>
    Contains internal_comparator r ex_b = Some True"
  using rocks_contains_inserted [OF ik.key_order_axioms ex_all_ok ex_distinct(1) ex_ok(2), of 2 kTrieCall] by (simp add: ex_facts)


lemma ex_keys:
  "ukey ex_a = [97]" "ukey ex_b = [98]" "ukey ex_b_old = [98]"
  "ik_trailer (ikey ex_b) = push_bit 8 6 OR 1" "ik_trailer (ikey ex_b_old) = push_bit 8 3 OR 1"
  by (simp_all only: ex_a_def ex_b_def ex_b_old_def, simp_all add: decode_encode(3,4) LookupKey_parts(5))

lemma ex_sorted: "ins_entries internal_comparator [] [ex_b_old, ex_a, ex_b] = [ex_a, ex_b, ex_b_old]"
  by (simp add: ex_facts ins_entry_def)


section \<open>Batches and release\<close>

text \<open>A batch read from the first entry returns the keys and values of the first entries in order, as many as
  asked for, and leaves the iterator on the entry after them.\<close>

theorem rocks_scan_batch_prefix:
  assumes "key_order C" "\<forall>e\<in>set es. entry_ok e \<and> entry_full e" "distinct_keys C es"
  shows "\<exists>r it it'. insert_all C (ExpanseMemTableRep cap scope) es = Some r \<and> SeekToFirst r IteratorImpl = Some it \<and>
    ScanBatch C r it m = Some (it', map (\<lambda>e. Some (entry_kv e)) (take m (ins_entries C [] es))) \<and>
    it_pos it' = first_of (drop m (ins_entries C [] es))"
proof -
  let ?S = "ins_entries C [] es"
  obtain r ch where r: "insert_all C (ExpanseMemTableRep cap scope) es = Some r" "rep_inv C r ch"
      "?S = concat (chain_lists (blocks r) ch)" "set ?S = set es"
    using insert_all_new [OF assms(1) _ assms(3), of cap scope] assms(2) unfolding represents_def by metis
  obtain it where it: "SeekToFirst r IteratorImpl = Some it" "iter_inv r ?S it" "it_pos it = first_of ?S"
    using key_order.SeekToFirst_ok [OF assms(1) r(2), of IteratorImpl] r(3) by metis
  have "\<forall>x\<in>set ?S. entry_full x" using r(4) assms(2) by simp
  then show ?thesis
    using key_order.scan_first_batch [OF assms(1) r(2), of it m] it(2,3) r(1) it(1) unfolding r(3) by blast
qed

lemma ex_kv:
  "entry_full ex_a" "entry_full ex_b" "entry_full ex_b_old"
  "entry_kv ex_a = (lk_internal_key (LookupKey [97] 5), [1])" "entry_kv ex_b = (lk_internal_key (LookupKey [98] 6), [2])"
  by (simp_all only: ex_a_def ex_b_def ex_b_old_def, simp_all add: entry_full_def entry_kv_def decode_encode(1))

theorem rocks_scan_batch_prefix_witness:
  "\<exists>r it it'. insert_all internal_comparator (ExpanseMemTableRep 2 kOptimistic) [ex_b_old, ex_a, ex_b] = Some r \<and>
    SeekToFirst r IteratorImpl = Some it \<and>
    ScanBatch internal_comparator r it 2 =
      Some (it', [Some (lk_internal_key (LookupKey [97] 5), [1]), Some (lk_internal_key (LookupKey [98] 6), [2])]) \<and>
    it_pos it' = Some ex_b_old"
  using rocks_scan_batch_prefix [OF ik.key_order_axioms _ ex_distinct(1), of 2 kOptimistic 2]
  unfolding ex_sorted by (simp add: ex_ok ex_kv first_of_def)

text \<open>C37. Destroying a memtable after any insertions frees every block it allocated, each exactly once.\<close>

theorem rocks_destroy_frees_all:
  assumes "key_order C" "\<forall>e\<in>set es. entry_ok e" "distinct_keys C es"
  shows "\<exists>r freed. insert_all C (ExpanseMemTableRep cap scope) es = Some r \<and> destroy_blocks r = Some freed \<and>
    distinct freed \<and> set freed = {..<length (blocks r)}"
  using insert_all_new [OF assms, of cap scope] destroy_ok unfolding represents_def by metis

theorem rocks_destroy_frees_all_witness:
  "\<exists>r freed. insert_all internal_comparator (ExpanseMemTableRep 2 kFullLocate) [ex_b_old, ex_a, ex_b] = Some r \<and>
    destroy_blocks r = Some freed \<and> distinct freed \<and> set freed = {..<length (blocks r)}"
  by (rule rocks_destroy_frees_all [OF ik.key_order_axioms ex_all_ok ex_distinct(1)])

section \<open>Seeking without an encoded key\<close>

lemma seek_from_step:
  "seek_from C H ik mk (Some i) =
    do { b \<leftarrow> rd H i;
         found \<leftarrow> seek_block C ik mk b;
         case found of Some x \<Rightarrow> Some (Some (i, fst x, blk_version b, snd x)) | None \<Rightarrow> seek_from C H ik mk (next_leaf b) }"
  by (subst seek_from.simps) simp


end
