(* ===== verification/Rocks_Arena.thy ===== *)
theory Rocks_Arena
  imports Rocks_Memtable
begin

text \<open>
  The arena that owns the entries of a standalone memtable, from
  \<^verbatim>\<open>integrations/rocksdb/include/expanse_memtable.h\<close>. Addresses and sizes are 64-bit. The address of the
  \<open>k\<close>-th array the arena makes is an argument, since \<open>make_unique\<close> takes it from the C++ runtime; what the
  runtime promises of these addresses is \<open>arrays_ok\<close>.
\<close>

section \<open>Operations\<close>

record arena =
  arena_blocks :: "(u64 \<times> u64) list"
  block_size :: u64
  alloc_bytes_remaining :: u64
  alloc_ptr :: u64
  arena_total_allocated :: u64

definition Arena :: "u64 \<Rightarrow> arena" where
  "Arena bsize = \<lparr>arena_blocks = [], block_size = bsize, alloc_bytes_remaining = 0, alloc_ptr = 0, arena_total_allocated = 0\<rparr>"

definition AllocateFallback :: "(nat \<Rightarrow> u64) \<Rightarrow> u64 \<Rightarrow> arena \<Rightarrow> u64 \<times> arena" where
  "AllocateFallback addr bytes A =
    (let block = addr (length (arena_blocks A))
     in if bytes > block_size A div 4
        then (block, A\<lparr>arena_blocks := arena_blocks A @ [(block, bytes)],
                       arena_total_allocated := arena_total_allocated A + bytes\<rparr>)
        else (block, A\<lparr>arena_blocks := arena_blocks A @ [(block, block_size A)],
                       arena_total_allocated := arena_total_allocated A + block_size A,
                       alloc_ptr := block + bytes,
                       alloc_bytes_remaining := block_size A - bytes\<rparr>))"

definition Allocate :: "(nat \<Rightarrow> u64) \<Rightarrow> u64 \<Rightarrow> arena \<Rightarrow> u64 \<times> arena" where
  "Allocate addr bytes A =
    (if bytes \<le> alloc_bytes_remaining A
     then (alloc_ptr A, A\<lparr>alloc_ptr := alloc_ptr A + bytes, alloc_bytes_remaining := alloc_bytes_remaining A - bytes\<rparr>)
     else AllocateFallback addr bytes A)"

definition AllocateAligned :: "(nat \<Rightarrow> u64) \<Rightarrow> u64 \<Rightarrow> arena \<Rightarrow> u64 \<times> arena" where
  "AllocateAligned addr bytes A =
    (let current_mod = alloc_ptr A AND 7;
         slop = (if current_mod = 0 then 0 else 8 - current_mod);
         needed = bytes + slop
     in if needed \<le> alloc_bytes_remaining A
        then (alloc_ptr A + slop,
              A\<lparr>alloc_ptr := alloc_ptr A + needed, alloc_bytes_remaining := alloc_bytes_remaining A - needed\<rparr>)
        else AllocateFallback addr bytes A)"

definition arena_ApproximateMemoryUsage :: "arena \<Rightarrow> u64" where
  "arena_ApproximateMemoryUsage A = arena_total_allocated A"

section \<open>Runs\<close>

datatype arena_op = Plain u64 | Aligned u64

fun op_bytes :: "arena_op \<Rightarrow> u64" where
  "op_bytes (Plain n) = n"
| "op_bytes (Aligned n) = n"

fun arena_step :: "(nat \<Rightarrow> u64) \<Rightarrow> arena_op \<Rightarrow> arena \<Rightarrow> u64 \<times> arena" where
  "arena_step addr (Plain n) A = Allocate addr n A"
| "arena_step addr (Aligned n) A = AllocateAligned addr n A"

fun arena_run :: "(nat \<Rightarrow> u64) \<Rightarrow> arena_op list \<Rightarrow> arena \<Rightarrow> (u64 \<times> u64) list \<times> arena" where
  "arena_run addr [] A = ([], A)"
| "arena_run addr (op # ops) A =
    (let (p, A') = arena_step addr op A; (rs, A'') = arena_run addr ops A'
     in ((p, op_bytes op) # rs, A''))"

text \<open>Arrays are disjoint and do not wrap around the address space; \<open>new\<close> aligns them to 8 bytes at least.\<close>

definition apart :: "u64 \<times> u64 \<Rightarrow> u64 \<times> u64 \<Rightarrow> bool" where
  "apart x y \<longleftrightarrow> unat (fst x) + unat (snd x) \<le> unat (fst y) \<or> unat (fst y) + unat (snd y) \<le> unat (fst x)"

definition inside :: "u64 \<times> u64 \<Rightarrow> u64 \<times> u64 \<Rightarrow> bool" where
  "inside x y \<longleftrightarrow> unat (fst y) \<le> unat (fst x) \<and> unat (fst x) + unat (snd x) \<le> unat (fst y) + unat (snd y)"

definition arrays_ok :: "(u64 \<times> u64) list \<Rightarrow> bool" where
  "arrays_ok bs \<longleftrightarrow> sorted_wrt apart bs \<and> (\<forall>b\<in>set bs. unat (fst b) + unat (snd b) < 2 ^ 64 \<and> unat (fst b) mod 8 = 0)"

section \<open>Invariant\<close>

definition arena_inv :: "arena \<Rightarrow> (u64 \<times> u64) list \<Rightarrow> bool" where
  "arena_inv A rs \<longleftrightarrow> arrays_ok (arena_blocks A) \<and>
    (alloc_bytes_remaining A \<noteq> 0 \<longrightarrow> (\<exists>b\<in>set (arena_blocks A). inside (alloc_ptr A, alloc_bytes_remaining A) b) \<and>
      (\<forall>r\<in>set rs. apart r (alloc_ptr A, alloc_bytes_remaining A))) \<and>
    (\<forall>r\<in>set rs. \<exists>b\<in>set (arena_blocks A). inside r b) \<and> sorted_wrt apart rs \<and>
    arena_total_allocated A = sum_list (map snd (arena_blocks A))"

lemma apart_inside: "apart b c \<Longrightarrow> inside x b \<Longrightarrow> inside y c \<Longrightarrow> apart x y"
  unfolding apart_def inside_def by linarith

lemma apart_sym: "apart x y \<Longrightarrow> apart y x"
  by (auto simp: apart_def)

lemma arrays_ok_append: "arrays_ok (bs @ cs) \<Longrightarrow> arrays_ok bs"
  by (simp add: arrays_ok_def sorted_wrt_append)

lemma arrays_ok_snoc: "arrays_ok (bs @ [b]) \<Longrightarrow> x \<in> set bs \<Longrightarrow> apart x b"
  by (simp add: arrays_ok_def sorted_wrt_append)

text \<open>Cutting \<open>n\<close> bytes after \<open>k\<close> more off the current chunk.\<close>

lemma chunk_cut:
  assumes inv: "arena_inv A rs" and n: "0 < n" and k: "unat n + unat k \<le> unat (alloc_bytes_remaining A)"
  shows "arena_inv (A\<lparr>alloc_ptr := alloc_ptr A + (n + k), alloc_bytes_remaining := alloc_bytes_remaining A - (n + k)\<rparr>) (rs @ [(alloc_ptr A + k, n)])"
    and "unat (alloc_ptr A + k) = unat (alloc_ptr A) + unat k"
proof -
  let ?p = "alloc_ptr A" and ?m = "alloc_bytes_remaining A"
  have n': "0 < unat n" using n by (simp add: word_less_nat_alt)
  then have "?m \<noteq> 0" using k by auto
  then obtain b where b: "b \<in> set (arena_blocks A)" "inside (?p, ?m) b" and ap: "\<And>r. r \<in> set rs \<Longrightarrow> apart r (?p, ?m)"
    using inv unfolding arena_inv_def by blast
  have top: "unat ?p + unat ?m < 2 ^ 64" using inv b unfolding arena_inv_def arrays_ok_def inside_def by force
  then have nk: "unat (n + k) = unat n + unat k" using k by (simp add: unat_word_ariths)
  have p: "unat (?p + (n + k)) = unat ?p + (unat n + unat k)" using top k nk unat_word_ariths(1) [of ?p "n + k"] by simp
  have m: "unat (?m - (n + k)) = unat ?m - (unat n + unat k)" using k nk by (subst unat_sub) (simp_all add: word_le_nat_alt)
  show q: "unat (?p + k) = unat ?p + unat k" using top k unat_word_ariths(1) [of ?p k] by simp
  have new: "inside (?p + k, n) b" using b(2) k q by (simp add: inside_def)
  moreover have rest: "inside (?p + (n + k), ?m - (n + k)) b" using b(2) k p m by (simp add: inside_def)
  moreover have "apart r (?p + k, n)" "apart r (?p + (n + k), ?m - (n + k))" if "r \<in> set rs" for r
    using ap [OF that] k p q m unfolding apart_def by auto
  moreover have "apart (?p + k, n) (?p + (n + k), ?m - (n + k))" using p q by (simp add: apart_def)
  ultimately show "arena_inv (A\<lparr>alloc_ptr := ?p + (n + k), alloc_bytes_remaining := ?m - (n + k)\<rparr>) (rs @ [(?p + k, n)])"
    using inv b(1) unfolding arena_inv_def by (auto simp: sorted_wrt_append)
qed

lemma fallback_inv:
  assumes inv: "arena_inv A rs" and n: "0 < n" and run: "AllocateFallback addr n A = (p, A')" and ok: "arrays_ok (arena_blocks A')"
  shows "arena_inv A' (rs @ [(p, n)])" "unat p mod 8 = 0"
proof -
  let ?bs = "arena_blocks A" and ?s = "block_size A"
  define big where "big = (n > ?s div 4)"
  define b where "b = (p, if big then n else ?s)"
  have A': "A' = (if big then A\<lparr>arena_blocks := ?bs @ [b], arena_total_allocated := arena_total_allocated A + n\<rparr>
      else A\<lparr>arena_blocks := ?bs @ [b], arena_total_allocated := arena_total_allocated A + ?s, alloc_ptr := p + n, alloc_bytes_remaining := ?s - n\<rparr>)"
    using run by (auto simp: AllocateFallback_def Let_def big_def b_def)
  then have bs: "arena_blocks A' = ?bs @ [b]" by simp
  have okb: "unat p + unat (snd b) < 2 ^ 64" "unat p mod 8 = 0" using ok unfolding bs arrays_ok_def b_def by auto
  then show "unat p mod 8 = 0" by simp
  have small: "unat n \<le> unat ?s" if "\<not> big"
  proof -
    have "unat n \<le> unat ?s div 4" using that unfolding big_def by (simp add: not_less word_le_nat_alt unat_div)
    then show ?thesis by linarith
  qed
  have new: "inside (p, n) b" using small by (auto simp: inside_def b_def)
  have old: "apart r x" if r: "r \<in> set rs" "inside x b" for r x
  proof -
    obtain c where "c \<in> set ?bs" "inside r c" using inv r(1) unfolding arena_inv_def by blast
    then show ?thesis using apart_inside [OF arrays_ok_snoc [of ?bs b c] _ r(2)] ok unfolding bs by blast
  qed
  have tot: "arena_total_allocated A' = sum_list (map snd (arena_blocks A'))" using inv unfolding A' by (auto simp: arena_inv_def b_def)
  show "arena_inv A' (rs @ [(p, n)])"
  proof (cases big)
    case True
    have "apart (p, n) (alloc_ptr A, alloc_bytes_remaining A)" if m: "alloc_bytes_remaining A \<noteq> 0"
    proof -
      obtain c where "c \<in> set ?bs" "inside (alloc_ptr A, alloc_bytes_remaining A) c" using inv m unfolding arena_inv_def by blast
      then show ?thesis using apart_inside [OF arrays_ok_snoc [of ?bs b c] _ new] ok apart_sym unfolding bs by blast
    qed
    then show ?thesis using True inv new old [OF _ new] ok tot unfolding arena_inv_def A' by (auto simp: sorted_wrt_append)
  next
    case False
    have e: "unat (p + n) = unat p + unat n" using okb(1) small [OF False] False unat_word_ariths(1) [of p n] by (simp add: b_def)
    have f: "unat (?s - n) = unat ?s - unat n" using small [OF False] by (simp add: unat_sub word_le_nat_alt)
    have rest: "inside (p + n, ?s - n) b" using e f small [OF False] False by (simp add: inside_def b_def)
    have "apart (p, n) (p + n, ?s - n)" using e by (simp add: apart_def)
    then show ?thesis using False inv new rest old [OF _ new] old [OF _ rest] ok tot unfolding arena_inv_def A' by (auto simp: sorted_wrt_append)
  qed
qed

lemma slop_ok:
  fixes p :: u64
  defines "k \<equiv> (if p AND 7 = 0 then 0 else 8 - (p AND 7))"
  shows "(unat p + unat k) mod 8 = 0" "unat k < 8"
proof -
  have m: "unat (p AND 7) = unat p mod 8"
  proof -
    have seven: "(7 :: u64) = mask 3" by (simp add: mask_eq_exp_minus_1)
    show ?thesis unfolding seven by (simp only: take_bit_eq_mask [symmetric] unsigned_take_bit_eq take_bit_eq_mod) (simp add: unat_mod)
  qed
  have k: "unat k = (if unat p mod 8 = 0 then 0 else 8 - unat p mod 8)"
    unfolding k_def using m by (auto simp: unat_sub word_le_nat_alt unat_eq_zero)
  then show "unat k < 8" by auto
  show "(unat p + unat k) mod 8 = 0" unfolding k by (simp add: mod_eq_0_iff_dvd) presburger
qed

lemma step_inv:
  assumes inv: "arena_inv A rs" and n: "0 < op_bytes op" "unat (op_bytes op) + 7 < 2 ^ 64"
    and run: "arena_step addr op A = (p, A')" and ok: "arrays_ok (arena_blocks A')"
  shows "arena_inv A' (rs @ [(p, op_bytes op)])" "\<forall>k. op = Aligned k \<longrightarrow> unat p mod 8 = 0"
proof -
  have "arena_inv A' (rs @ [(p, op_bytes op)]) \<and> (\<forall>k. op = Aligned k \<longrightarrow> unat p mod 8 = 0)"
  proof (cases op)
    case (Plain k)
    show ?thesis
    proof (cases "k \<le> alloc_bytes_remaining A")
      case True
      then show ?thesis using chunk_cut(1) [OF inv, of k 0] run n(1) Plain by (auto simp: Allocate_def word_le_nat_alt)
    next
      case False
      then show ?thesis using fallback_inv(1) [OF inv, of k addr p A'] run n(1) ok Plain by (simp add: Allocate_def)
    qed
  next
    case (Aligned k)
    define s where "s = (if alloc_ptr A AND 7 = 0 then 0 else 8 - (alloc_ptr A AND 7))"
    note sl = slop_ok [of "alloc_ptr A", folded s_def]
    have ks: "unat (k + s) = unat k + unat s" using n(2) sl(2) Aligned unat_word_ariths(1) [of k s] by simp
    have st: "arena_step addr op A = (if k + s \<le> alloc_bytes_remaining A
        then (alloc_ptr A + s, A\<lparr>alloc_ptr := alloc_ptr A + (k + s), alloc_bytes_remaining := alloc_bytes_remaining A - (k + s)\<rparr>)
        else AllocateFallback addr k A)"
      using Aligned by (simp add: AllocateAligned_def Let_def s_def)
    show ?thesis
    proof (cases "k + s \<le> alloc_bytes_remaining A")
      case True
      then have "unat k + unat s \<le> unat (alloc_bytes_remaining A)" using ks by (simp add: word_le_nat_alt)
      then show ?thesis using chunk_cut [OF inv, of k s] run st True n(1) Aligned sl(1) by auto
    next
      case False
      then show ?thesis using fallback_inv [OF inv, of k addr p A'] run st n(1) ok Aligned by simp
    qed
  qed
  then show "arena_inv A' (rs @ [(p, op_bytes op)])" "\<forall>k. op = Aligned k \<longrightarrow> unat p mod 8 = 0" by blast+
qed

lemma step_blocks: "\<exists>bs. arena_blocks (snd (arena_step addr op A)) = arena_blocks A @ bs"
  by (cases op) (auto simp: Allocate_def AllocateAligned_def AllocateFallback_def Let_def)

lemma run_blocks: "\<exists>bs. arena_blocks (snd (arena_run addr ops A)) = arena_blocks A @ bs"
proof (induction ops arbitrary: A)
  case (Cons op ops)
  obtain p A' where st: "arena_step addr op A = (p, A')" by fastforce
  then obtain bs where "arena_blocks A' = arena_blocks A @ bs" using step_blocks [of addr op A] by auto
  then show ?case using Cons.IH [of A'] st by (auto split: prod.splits)
qed simp

lemma run_inv:
  assumes "\<forall>op\<in>set ops. 0 < op_bytes op \<and> unat (op_bytes op) + 7 < 2 ^ 64" "arrays_ok (arena_blocks (snd (arena_run addr ops A)))" "arena_inv A rs"
  shows "arena_inv (snd (arena_run addr ops A)) (rs @ fst (arena_run addr ops A)) \<and>
    length (fst (arena_run addr ops A)) = length ops \<and>
    (\<forall>i<length ops. \<forall>k. ops ! i = Aligned k \<longrightarrow> unat (fst (fst (arena_run addr ops A) ! i)) mod 8 = 0) \<and>
    (\<forall>i<length ops. snd (fst (arena_run addr ops A) ! i) = op_bytes (ops ! i))"
  using assms
proof (induction ops arbitrary: A rs)
  case (Cons op ops)
  obtain p A' where st: "arena_step addr op A = (p, A')" by fastforce
  have run: "arena_run addr (op # ops) A = ((p, op_bytes op) # fst (arena_run addr ops A'), snd (arena_run addr ops A'))"
    using st by (simp add: split_beta Let_def)
  have "arrays_ok (arena_blocks (snd (arena_run addr ops A')))" using Cons.prems(2) unfolding run by simp
  moreover from this have "arrays_ok (arena_blocks A')" using run_blocks [of addr ops A'] arrays_ok_append by metis
  then have "arena_inv A' (rs @ [(p, op_bytes op)])" "\<forall>k. op = Aligned k \<longrightarrow> unat p mod 8 = 0"
    using step_inv [OF Cons.prems(3) _ _ st] Cons.prems(1) by simp_all
  ultimately show ?case using Cons.IH [of A' "rs @ [(p, op_bytes op)]"] Cons.prems(1) unfolding run
    by (auto simp: nth_Cons split: nat.splits)
qed simp

text \<open>C34. Memory from an arena is never handed out twice: after any allocations, plain and aligned mixed, each lies
  in an array the arena owns, no two overlap, the aligned ones are multiples of 8, and the reported
  usage is the sum of the arrays.\<close>

theorem arena_allocations_disjoint:
  assumes "\<forall>op\<in>set ops. 0 < op_bytes op \<and> unat (op_bytes op) + 7 < 2 ^ 64"
    and "arena_run addr ops (Arena bsize) = (rs, A)" and "arrays_ok (arena_blocks A)"
  shows "length rs = length ops \<and> sorted_wrt apart rs \<and> (\<forall>r\<in>set rs. \<exists>b\<in>set (arena_blocks A). inside r b) \<and>
    (\<forall>i<length ops. snd (rs ! i) = op_bytes (ops ! i) \<and> (\<forall>k. ops ! i = Aligned k \<longrightarrow> unat (fst (rs ! i)) mod 8 = 0)) \<and>
    arena_ApproximateMemoryUsage A = sum_list (map snd (arena_blocks A))"
proof -
  have "arena_inv (Arena bsize) []" by (simp add: arena_inv_def Arena_def arrays_ok_def)
  then have "arena_inv A rs \<and> length rs = length ops \<and>
      (\<forall>i<length ops. \<forall>k. ops ! i = Aligned k \<longrightarrow> unat (fst (rs ! i)) mod 8 = 0) \<and> (\<forall>i<length ops. snd (rs ! i) = op_bytes (ops ! i))"
    using run_inv [OF assms(1), of addr "Arena bsize" "[]"] assms(2,3) by simp
  then show ?thesis by (simp add: arena_inv_def arena_ApproximateMemoryUsage_def)
qed

definition ex_addr :: "nat \<Rightarrow> u64" where
  "ex_addr k = 4096 * of_nat (k + 1)"

lemma ex_arena_run:
  "arena_run ex_addr [Plain 13, Aligned 24, Plain 5000, Plain 600, Aligned 1000] (Arena 4096) =
    ([(4096, 13), (4112, 24), (8192, 5000), (4136, 600), (4736, 1000)],
     \<lparr>arena_blocks = [(4096, 4096), (8192, 5000)], block_size = 4096, alloc_bytes_remaining = 2456, alloc_ptr = 5736,
      arena_total_allocated = 9096\<rparr>)"
  by code_simp

theorem arena_allocations_disjoint_witness:
  "sorted_wrt apart [(4096, 13), (4112, 24), (8192, 5000), (4136, 600), (4736, 1000)] \<and> (9096 :: u64) = sum_list [4096, 5000]"
  using arena_allocations_disjoint [OF _ ex_arena_run] by (simp add: arrays_ok_def apart_def arena_ApproximateMemoryUsage_def)

end
