(* ===== verification/Rocks_Client.thy ===== *)
theory Rocks_Client
  imports Rocks_Runs Rocks_Arena
begin

text \<open>
  What \<^verbatim>\<open>expanse_memtable.h\<close> offers around the memtable: the factory, iterators placed in an arena, the
  batch helper that also takes a foreign iterator, and the walks of the chain that the tests inspect.
\<close>

section \<open>Factory, iterators and accessors\<close>

record memtable_factory =
  f_leaf_capacity :: nat
  f_enable_prefix_trie :: bool

definition NewExpanseMemTableRepFactory :: "nat \<Rightarrow> bool \<Rightarrow> memtable_factory" where
  "NewExpanseMemTableRepFactory capacity prefix_trie = \<lparr>f_leaf_capacity = capacity, f_enable_prefix_trie = prefix_trie\<rparr>"

definition CreateMemTableRep :: "memtable_factory \<Rightarrow> memtable_rep" where
  "CreateMemTableRep f = ExpanseMemTableRep (f_leaf_capacity f) kFullLocate"

definition GetLeafCapacity :: "memtable_factory \<Rightarrow> nat" where
  "GetLeafCapacity f = f_leaf_capacity f"

definition IsPrefixTrieEnabled :: "memtable_factory \<Rightarrow> bool" where
  "IsPrefixTrieEnabled f = f_enable_prefix_trie f"

definition memtable_Count :: "memtable_rep \<Rightarrow> u64" where
  "memtable_Count r = total_keys r"

text \<open>Where an iterator is placed: in the arena that is passed, aligned, or on the heap at \<open>fresh\<close>.\<close>

definition GetIterator :: "(nat \<Rightarrow> u64) \<Rightarrow> u64 \<Rightarrow> u64 \<Rightarrow> arena option \<Rightarrow> u64 \<times> memtable_iter \<times> arena option" where
  "GetIterator addr fresh sizeof_IteratorImpl arena =
    (case arena of
       Some A \<Rightarrow> let (mem, A') = AllocateAligned addr sizeof_IteratorImpl A in (mem, IteratorImpl, Some A')
     | None \<Rightarrow> (fresh, IteratorImpl, None))"

definition GetPrefixIterator :: "(nat \<Rightarrow> u64) \<Rightarrow> u64 \<Rightarrow> u64 \<Rightarrow> slice \<Rightarrow> arena option \<Rightarrow> u64 \<times> memtable_iter \<times> arena option" where
  "GetPrefixIterator addr fresh sizeof_IteratorImpl prefix arena = GetIterator addr fresh sizeof_IteratorImpl arena"

definition MemTableRep_Allocate :: "(nat \<Rightarrow> u64) \<Rightarrow> u64 \<Rightarrow> u64 \<Rightarrow> arena option \<Rightarrow> u64 \<times> arena option" where
  "MemTableRep_Allocate addr fresh len allocator =
    (case allocator of
       Some A \<Rightarrow> let (buf, A') = Allocate addr len A in (buf, Some A')
     | None \<Rightarrow> (fresh, None))"

section \<open>The batch helper\<close>

record 'i iterator_ops =
  op_valid :: "'i \<Rightarrow> (bool \<times> 'i) option"
  op_key :: "'i \<Rightarrow> (entry option \<times> 'i) option"
  op_next :: "'i \<Rightarrow> 'i option"

partial_function (option) scan_foreign ::
  "'i iterator_ops \<Rightarrow> 'i \<Rightarrow> nat \<Rightarrow> (slice \<times> slice) option list \<Rightarrow> ('i \<times> (slice \<times> slice) option list) option" where
  "scan_foreign ops it max_keys out =
    (if \<not> length out < max_keys then Some (it, out)
     else do { v \<leftarrow> op_valid ops it;
               if \<not> fst v then Some (snd v, out)
               else do { k \<leftarrow> op_key ops (snd v);
                         ds \<leftarrow> decode_all (case fst k of None \<Rightarrow> [] | Some e \<Rightarrow> [e]);
                         it2 \<leftarrow> op_next ops (snd k);
                         scan_foreign ops it2 max_keys (out @ ds) } })"

datatype 'i any_iterator = NullIterator | ExpanseIterator memtable_iter | ForeignIterator 'i

definition ScanBatch_any ::
  "key_comparator \<Rightarrow> memtable_rep \<Rightarrow> 'i iterator_ops \<Rightarrow> 'i any_iterator \<Rightarrow> nat \<Rightarrow> ('i any_iterator \<times> (slice \<times> slice) option list) option" where
  "ScanBatch_any C r ops it max_keys =
    (case it of
       NullIterator \<Rightarrow> Some (NullIterator, [])
     | ExpanseIterator i \<Rightarrow> map_option (map_prod ExpanseIterator id) (ScanBatch C r i max_keys)
     | ForeignIterator i \<Rightarrow> map_option (map_prod ForeignIterator id) (scan_foreign ops i max_keys []))"

text \<open>The memtable's own iterator seen through the interface.\<close>

definition memtable_iter_ops :: "key_comparator \<Rightarrow> memtable_rep \<Rightarrow> memtable_iter iterator_ops" where
  "memtable_iter_ops C r = \<lparr>op_valid = Valid C r, op_key = it_key C r, op_next = Next C r\<rparr>"

section \<open>Walks of the chain\<close>

partial_function (option) count_from :: "leaf_block list \<Rightarrow> nat option \<Rightarrow> nat \<Rightarrow> nat option" where
  "count_from H cur n =
    (if cur = None then Some n else do { i \<leftarrow> cur; b \<leftarrow> rd H i; count_from H (next_leaf b) (Suc n) })"

definition LeafBlockCountForTest :: "memtable_rep \<Rightarrow> nat option" where
  "LeafBlockCountForTest r = count_from (blocks r) (rep_head r) 0"

datatype trie_index_result = Unmapped | NotInChain | ChainIndex nat

partial_function (option) index_from :: "leaf_block list \<Rightarrow> nat \<Rightarrow> nat option \<Rightarrow> nat \<Rightarrow> trie_index_result option" where
  "index_from H target cur index =
    (if cur = None then Some NotInChain
     else do { i \<leftarrow> cur;
               if i = target then Some (ChainIndex index)
               else do { b \<leftarrow> rd H i; index_from H target (next_leaf b) (Suc index) } })"

definition TrieBlockIndexForTest :: "memtable_rep \<Rightarrow> u64 \<Rightarrow> trie_index_result option" where
  "TrieBlockIndexForTest r prefix =
    (let found = (case rep_opt r of
                    Some oi \<Rightarrow> map_prev_at_or_before (Some (oi_map oi)) prefix
                  | None \<Rightarrow> map_prev_at_or_before (trie_index r) prefix)
     in case found of
          Some (_, Some target) \<Rightarrow> index_from (blocks r) target (rep_head r) 0
        | _ \<Rightarrow> Some Unmapped)"

section \<open>Batches agree\<close>

context key_order
begin

lemma scan_foreign_ok:
  assumes inv: "rep_inv C r ch" and full: "\<forall>x\<in>set (concat (chain_lists (blocks r) ch)). entry_full x"
  shows "iter_inv r (concat (chain_lists (blocks r) ch)) it \<Longrightarrow> concat (chain_lists (blocks r) ch) = A @ D \<Longrightarrow> it_pos it = first_of D \<Longrightarrow>
    \<exists>it'. scan_foreign (memtable_iter_ops C r) it m out = Some (it', out @ map (\<lambda>x. Some (entry_kv x)) (take (m - length out) D)) \<and>
      iter_inv r (concat (chain_lists (blocks r) ch)) it' \<and> it_pos it' = first_of (drop (m - length out) D)"
proof (induction D arbitrary: it A out)
  case Nil
  obtain it' where v: "Valid C r it = Some (False, it')" "iter_inv r (concat (chain_lists (blocks r) ch)) it'" "it_pos it' = None"
    using Valid_ok [OF inv Nil.prems(1)] Nil.prems(3) by (auto simp: first_of_def)
  show ?case
  proof (cases "length out < m")
    case True
    then show ?thesis using v by (subst scan_foreign.simps) (simp add: memtable_iter_ops_def first_of_def)
  next
    case False
    then show ?thesis using Nil by (subst scan_foreign.simps) simp
  qed
next
  case (Cons e D)
  let ?es = "concat (chain_lists (blocks r) ch)"
  show ?case
  proof (cases "length out < m")
    case True
    obtain it1 where v: "Valid C r it = Some (True, it1)" "iter_inv r ?es it1" "it_pos it1 = Some e"
      using Valid_ok [OF inv Cons.prems(1)] Cons.prems(3) by (auto simp: first_of_def)
    obtain it2 where k: "it_key C r it1 = Some (Some e, it2)" "iter_inv r ?es it2" "it_pos it2 = Some e"
      using Valid_ok [OF inv v(2)] v(3) by auto
    have co: "chain_ok (leaf_capacity r) (blocks r) ch" "ascending C ?es" using inv by (simp_all add: rep_inv_def)
    have f: "filter (\<lambda>x. cmp_entry C e x < 0) ?es = D"
      using sorted_split(2) [of A e D] co chain_entry_ok [OF co(1)] Cons.prems(2) by auto
    obtain it3 where n: "Next C r it2 = Some it3" "iter_inv r ?es it3" "it_pos it3 = first_of D"
      using Next_ok [OF inv k(2,3)] unfolding f by blast
    have d: "decode_all [e] = Some [Some (entry_kv e)]" using decode_all_ok [of "[e]"] full Cons.prems(2) by simp
    have step: "scan_foreign (memtable_iter_ops C r) it m out = scan_foreign (memtable_iter_ops C r) it3 m (out @ [Some (entry_kv e)])"
      using True v(1) k(1) n(1) d by (subst scan_foreign.simps) (simp add: memtable_iter_ops_def)
    obtain q where q: "m - length out = Suc q" using True by (metis Suc_diff_Suc)
    have q': "m - length (out @ [Some (entry_kv e)]) = q" using q by simp
    have es: "?es = (A @ [e]) @ D" using Cons.prems(2) by simp
    show ?thesis using Cons.IH [OF n(2) es n(3), of "out @ [Some (entry_kv e)]"] unfolding step q q' by simp
  next
    case False
    then show ?thesis using Cons.prems by (subst scan_foreign.simps) simp
  qed
qed

end

lemma edge_index_ok:
  assumes "chain_ok cap H ch" "t < length ch"
  shows "j \<le> t \<Longrightarrow> index_from H (ch ! t) (blk_at ch j) j = Some (ChainIndex t)"
proof (induction "t - j" arbitrary: j)
  case 0
  then show ?case using assms(2) by (subst index_from.simps) (simp add: blk_at_def)
next
  case (Suc n)
  then have j: "j < length ch" "j < t" using assms(2) by simp_all
  have "ch ! j \<noteq> ch ! t" using assms j by (simp add: chain_ok_def nth_eq_iff_index_eq)
  moreover have "next_leaf (H ! (ch ! j)) = blk_at ch (Suc j)" using chain_okD(3) [OF assms(1) j(1)] by (simp add: blk_at_def)
  moreover have "blk_at ch j = Some (ch ! j)" using j by (simp add: blk_at_def)
  ultimately show ?case
    using Suc.hyps(1) [of "Suc j"] Suc.hyps(2) j chain_block(1) [OF assms(1) j(1)] index_from.simps [of H "ch ! t" "Some (ch ! j)" j] by simp
qed

lemma count_from_ok:
  assumes "chain_ok cap H ch"
  shows "j \<le> length ch \<Longrightarrow> count_from H (blk_at ch j) j = Some (length ch)"
proof (induction "length ch - j" arbitrary: j)
  case 0
  then show ?case by (subst count_from.simps) (simp add: blk_at_def)
next
  case (Suc n)
  then have j: "j < length ch" by simp
  moreover have "next_leaf (H ! (ch ! j)) = blk_at ch (Suc j)" using chain_okD(3) [OF assms j] by (simp add: blk_at_def)
  moreover have "blk_at ch j = Some (ch ! j)" using j by (simp add: blk_at_def)
  ultimately show ?case
    using Suc.hyps(1) [of "Suc j"] Suc.hyps(2) chain_block(1) [OF assms j] count_from.simps [of H "Some (ch ! j)" j] by simp
qed

lemma head_at: "rep_inv C r ch \<Longrightarrow> rep_head r = blk_at ch 0"
  by (auto simp: rep_inv_def blk_at_def chain_ok_def hd_conv_nth)

lemma al_last_mem: "al_last xs = Some x \<Longrightarrow> x \<in> set xs"
  by (auto simp: al_last_def split: if_splits)

lemma trie_index_ok:
  assumes "rep_inv C r ch"
  shows "\<exists>x. TrieBlockIndexForTest r prefix = Some x \<and> x \<noteq> NotInChain"
proof -
  let ?f = "case rep_opt r of Some oi \<Rightarrow> map_prev_at_or_before (Some (oi_map oi)) prefix | None \<Rightarrow> map_prev_at_or_before (trie_index r) prefix"
  have co: "chain_ok (leaf_capacity r) (blocks r) ch" and ix: "Rocks_Memtable_Correct.index_ok r" using assms by (simp_all add: rep_inv_def)
  show ?thesis
  proof (cases ?f)
    case None
    then show ?thesis by (simp add: TrieBlockIndexForTest_def)
  next
    case (Some p)
    then obtain b where b: "snd p = Some b" "b < length (blocks r)"
      using ix unfolding index_ok_def
      by (force simp: map_prev_at_or_before_def split: if_splits option.splits dest!: al_last_mem)
    then obtain t where "t < length ch" "ch ! t = b" using co by (metis chain_ok_def in_set_conv_nth lessThan_iff)
    then show ?thesis using edge_index_ok [OF co, of t 0] head_at [OF assms] Some b(1)
      by (cases p) (simp add: TrieBlockIndexForTest_def)
  qed
qed



text \<open>After any insertions the index names only blocks of the chain, for every prefix, and the chain has as many
  blocks as were allocated.\<close>

theorem rocks_index_names_chain:
  assumes "key_order C" "\<forall>e\<in>set es. entry_ok e" "distinct_keys C es"
  shows "\<exists>r x. insert_all C (ExpanseMemTableRep cap scope) es = Some r \<and> TrieBlockIndexForTest r prefix = Some x \<and> x \<noteq> NotInChain \<and>
    LeafBlockCountForTest r = Some (length (blocks r))"
proof -
  obtain r ch where r: "insert_all C (ExpanseMemTableRep cap scope) es = Some r" "rep_inv C r ch"
    using insert_all_new [OF assms, of cap scope] unfolding represents_def by metis
  have co: "chain_ok (leaf_capacity r) (blocks r) ch" using r(2) by (simp add: rep_inv_def)
  then have "length ch = length (blocks r)" by (metis card_lessThan chain_ok_def distinct_card)
  then have "LeafBlockCountForTest r = Some (length (blocks r))"
    using count_from_ok [OF co, of 0] head_at [OF r(2)] by (simp add: LeafBlockCountForTest_def)
  then show ?thesis using r(1) trie_index_ok [OF r(2), of prefix] by blast
qed

theorem rocks_index_names_chain_witness:
  "\<exists>r x. insert_all internal_comparator (ExpanseMemTableRep 2 kFullLocate) [ex_b_old, ex_a, ex_b] = Some r \<and>
    TrieBlockIndexForTest r 0 = Some x \<and> x \<noteq> NotInChain \<and> LeafBlockCountForTest r = Some (length (blocks r))"
  by (rule rocks_index_names_chain [OF ik.key_order_axioms ex_all_ok ex_distinct(1)])

end
