(* ===== verification/Rocks_Handles.thy ===== *)
theory Rocks_Handles
  imports Rocks_Memtable
begin

text \<open>
  The reader handles of the optimistic lock scope in \<^verbatim>\<open>integrations/rocksdb/src/expanse_memtable.cc\<close>. A
  thread reads the index of a memtable through a handle of its own. The memtable registers the handles
  and frees them in its destructor; every thread caches the last eight it used, keyed by the generation
  of the memtable and never invalidated.

  Sync maps and their reader handles are owned objects of the engine. Their rules are those of
  \<^verbatim>\<open>include/expanse.h\<close>: a handle is made from a live map and freed once, before its map, and a map is
  freed once, after all of its handles. Breaking a rule is \<^term>\<open>None\<close>.
\<close>

section \<open>Maps and readers of the engine\<close>

record sync_heap =
  sync_maps :: "bool list"
  sync_readers :: "(nat \<times> bool) list"

definition map_live :: "sync_heap \<Rightarrow> nat \<Rightarrow> bool" where
  "map_live h m \<longleftrightarrow> m < length (sync_maps h) \<and> sync_maps h ! m"

definition reader_live :: "sync_heap \<Rightarrow> nat \<Rightarrow> bool" where
  "reader_live h r \<longleftrightarrow> r < length (sync_readers h) \<and> snd (sync_readers h ! r)"

definition reader_map :: "sync_heap \<Rightarrow> nat \<Rightarrow> nat" where
  "reader_map h r = fst (sync_readers h ! r)"

definition expanse_sync_map_new :: "sync_heap \<Rightarrow> nat \<times> sync_heap" where
  "expanse_sync_map_new h = (length (sync_maps h), h\<lparr>sync_maps := sync_maps h @ [True]\<rparr>)"

definition expanse_sync_map_reader_new :: "nat \<Rightarrow> sync_heap \<Rightarrow> (nat \<times> sync_heap) option" where
  "expanse_sync_map_reader_new m h =
    (if map_live h m then Some (length (sync_readers h), h\<lparr>sync_readers := sync_readers h @ [(m, True)]\<rparr>) else None)"

definition expanse_sync_map_reader_free :: "nat option \<Rightarrow> sync_heap \<Rightarrow> sync_heap option" where
  "expanse_sync_map_reader_free handle h =
    (case handle of
       None \<Rightarrow> Some h
     | Some r \<Rightarrow>
         if reader_live h r \<and> map_live h (reader_map h r)
         then Some (h\<lparr>sync_readers := (sync_readers h)[r := (reader_map h r, False)]\<rparr>) else None)"

definition expanse_sync_map_free :: "nat \<Rightarrow> sync_heap \<Rightarrow> sync_heap option" where
  "expanse_sync_map_free m h =
    (if map_live h m \<and> (\<forall>e\<in>set (sync_readers h). fst e = m \<longrightarrow> \<not> snd e)
     then Some (h\<lparr>sync_maps := (sync_maps h)[m := False]\<rparr>) else None)"

section \<open>The process\<close>

definition kReaderHandleCacheSize :: nat where
  "kReaderHandleCacheSize = 8"

record reader_handle_cache =
  rc_entries :: "(u64 \<times> nat option) list"
  next_victim :: u32

definition t_reader_handles :: reader_handle_cache where
  "t_reader_handles = \<lparr>rc_entries = replicate kReaderHandleCacheSize (0, None), next_victim = 0\<rparr>"

record handle_index =
  hx_map :: nat
  hx_generation :: u64
  writer_handle :: "nat option"
  hx_handles :: "(nat \<times> nat option) list"

text \<open>Memtables are named by their address, which the allocator may use again, and threads by their id.\<close>

record process =
  g_next_rep_generation :: u64
  p_heap :: sync_heap
  p_reps :: "nat \<Rightarrow> handle_index option"
  p_caches :: "nat \<Rightarrow> reader_handle_cache"

definition process_start :: process where
  "process_start = \<lparr>g_next_rep_generation = 1, p_heap = \<lparr>sync_maps = [], sync_readers = []\<rparr>,
    p_reps = Map.empty, p_caches = (\<lambda>t. t_reader_handles)\<rparr>"

section \<open>Operations\<close>

definition rep_construct :: "process \<Rightarrow> nat \<Rightarrow> process option" where
  "rep_construct p a =
    (let (m, h1) = expanse_sync_map_new (p_heap p);
         generation = g_next_rep_generation p
     in do { (w, h2) \<leftarrow> expanse_sync_map_reader_new m h1;
             Some (p\<lparr>g_next_rep_generation := generation + 1, p_heap := h2,
               p_reps := (p_reps p)(a \<mapsto> \<lparr>hx_map = m, hx_generation = generation, writer_handle = Some w, hx_handles = []\<rparr>)\<rparr>) })"

definition find_or_register :: "nat \<Rightarrow> handle_index \<Rightarrow> sync_heap \<Rightarrow> (nat option \<times> handle_index \<times> sync_heap) option" where
  "find_or_register self hx h =
    (case find (\<lambda>registered. fst registered = self) (hx_handles hx) of
       Some (_, Some r) \<Rightarrow> Some (Some r, hx, h)
     | _ \<Rightarrow> do { (r, h') \<leftarrow> expanse_sync_map_reader_new (hx_map hx) h;
                 Some (Some r, hx\<lparr>hx_handles := hx_handles hx @ [(self, Some r)]\<rparr>, h') })"

definition OptimisticReaderHandle :: "process \<Rightarrow> nat \<Rightarrow> nat \<Rightarrow> (nat option \<times> process) option" where
  "OptimisticReaderHandle p a self =
    do { hx \<leftarrow> p_reps p a;
         let generation = hx_generation hx; cache = p_caches p self
         in case find (\<lambda>e. fst e = generation) (rc_entries cache) of
              Some e \<Rightarrow> Some (snd e, p)
            | None \<Rightarrow>
                do { (handle, hx', h) \<leftarrow> find_or_register self hx (p_heap p);
                     entries \<leftarrow> wr (rc_entries cache) (unat (next_victim cache)) (generation, handle);
                     Some (handle, p\<lparr>p_heap := h, p_reps := (p_reps p)(a \<mapsto> hx'),
                       p_caches := (p_caches p)(self := \<lparr>rc_entries = entries,
                         next_victim = (next_victim cache + 1) mod of_nat kReaderHandleCacheSize\<rparr>)\<rparr>) } }"

fun free_handles :: "(nat \<times> nat option) list \<Rightarrow> sync_heap \<Rightarrow> sync_heap option" where
  "free_handles [] h = Some h"
| "free_handles (e # es) h = do { h' \<leftarrow> expanse_sync_map_reader_free (snd e) h; free_handles es h' }"

definition rep_destroy :: "process \<Rightarrow> nat \<Rightarrow> process option" where
  "rep_destroy p a =
    do { hx \<leftarrow> p_reps p a;
         h1 \<leftarrow> free_handles (hx_handles hx) (p_heap p);
         h2 \<leftarrow> expanse_sync_map_reader_free (writer_handle hx) h1;
         h3 \<leftarrow> expanse_sync_map_free (hx_map hx) h2;
         Some (p\<lparr>p_heap := h3, p_reps := (p_reps p)(a := None)\<rparr>) }"

definition ReaderHandleCount :: "process \<Rightarrow> nat \<Rightarrow> nat" where
  "ReaderHandleCount p a = (case p_reps p a of None \<Rightarrow> 0 | Some hx \<Rightarrow> length (hx_handles hx))"

text \<open>
  The states of a process. A memtable is constructed at an address that no live one has; a thread may
  look its handle up on any live memtable; a memtable is destroyed when no reader is inside it. The
  generation counter is 64 bits wide, and the states are those before it wraps.
\<close>

inductive reachable :: "process \<Rightarrow> nat \<Rightarrow> bool" where
  start: "reachable process_start 0"
| construct: "reachable p n \<Longrightarrow> p_reps p a = None \<Longrightarrow> Suc (Suc n) < 2 ^ 64 \<Longrightarrow> rep_construct p a = Some p' \<Longrightarrow> reachable p' (Suc n)"
| locate: "reachable p n \<Longrightarrow> OptimisticReaderHandle p a t = Some (r, p') \<Longrightarrow> reachable p' n"
| destroy: "reachable p n \<Longrightarrow> rep_destroy p a = Some p' \<Longrightarrow> reachable p' n"

section \<open>Invariant\<close>

definition owners :: "handle_index \<Rightarrow> nat option list" where
  "owners hx = writer_handle hx # map snd (hx_handles hx)"

definition heap_owned :: "process \<Rightarrow> bool" where
  "heap_owned p \<longleftrightarrow>
    (\<forall>m. map_live (p_heap p) m \<longrightarrow> (\<exists>a hx. p_reps p a = Some hx \<and> hx_map hx = m)) \<and>
    (\<forall>r. reader_live (p_heap p) r \<longrightarrow>
      (\<exists>a hx. p_reps p a = Some hx \<and> hx_map hx = reader_map (p_heap p) r \<and> Some r \<in> set (owners hx)))"

definition handle_index_ok :: "nat \<Rightarrow> sync_heap \<Rightarrow> handle_index \<Rightarrow> bool" where
  "handle_index_ok n h hx \<longleftrightarrow> 0 < unat (hx_generation hx) \<and> unat (hx_generation hx) \<le> n \<and> map_live h (hx_map hx) \<and>
    distinct (map fst (hx_handles hx)) \<and> distinct (owners hx) \<and>
    (\<forall>x\<in>set (owners hx). \<exists>r. x = Some r \<and> reader_live h r \<and> reader_map h r = hx_map hx)"

definition cache_ok :: "process \<Rightarrow> nat \<Rightarrow> nat \<Rightarrow> bool" where
  "cache_ok p n t \<longleftrightarrow> length (rc_entries (p_caches p t)) = kReaderHandleCacheSize \<and>
    unat (next_victim (p_caches p t)) < kReaderHandleCacheSize \<and>
    (\<forall>g x. (g, x) \<in> set (rc_entries (p_caches p t)) \<longrightarrow> unat g \<le> n \<and>
      (\<forall>a hx. p_reps p a = Some hx \<and> hx_generation hx = g \<longrightarrow> (t, x) \<in> set (hx_handles hx)))"

definition process_ok :: "process \<Rightarrow> nat \<Rightarrow> bool" where
  "process_ok p n \<longleftrightarrow> Suc n < 2 ^ 64 \<and> unat (g_next_rep_generation p) = Suc n \<and> heap_owned p \<and>
    (\<forall>a hx. p_reps p a = Some hx \<longrightarrow> handle_index_ok n (p_heap p) hx) \<and>
    (\<forall>a b hx hy. p_reps p a = Some hx \<and> p_reps p b = Some hy \<and> a \<noteq> b \<longrightarrow>
      hx_generation hx \<noteq> hx_generation hy \<and> hx_map hx \<noteq> hx_map hy) \<and>
    (\<forall>t. cache_ok p n t)"

lemma process_okI:
  assumes "Suc n < 2 ^ 64" "unat (g_next_rep_generation p) = Suc n" "heap_owned p"
    "\<And>a hx. p_reps p a = Some hx \<Longrightarrow> handle_index_ok n (p_heap p) hx"
    "\<And>a b hx hy. p_reps p a = Some hx \<Longrightarrow> p_reps p b = Some hy \<Longrightarrow> a \<noteq> b \<Longrightarrow>
      hx_generation hx \<noteq> hx_generation hy \<and> hx_map hx \<noteq> hx_map hy"
    "\<And>t. cache_ok p n t"
  shows "process_ok p n"
  using assms unfolding process_ok_def by blast

lemma process_okD:
  assumes "process_ok p n"
  shows "Suc n < 2 ^ 64" "unat (g_next_rep_generation p) = Suc n" "heap_owned p"
    "\<And>a hx. p_reps p a = Some hx \<Longrightarrow> handle_index_ok n (p_heap p) hx"
    "\<And>a b hx hy. p_reps p a = Some hx \<Longrightarrow> p_reps p b = Some hy \<Longrightarrow> a \<noteq> b \<Longrightarrow>
      hx_generation hx \<noteq> hx_generation hy \<and> hx_map hx \<noteq> hx_map hy"
    "\<And>t. cache_ok p n t"
  using assms unfolding process_ok_def by blast+

lemma cache_okD:
  assumes "cache_ok p n t"
  shows "length (rc_entries (p_caches p t)) = kReaderHandleCacheSize" "unat (next_victim (p_caches p t)) < kReaderHandleCacheSize"
    "(g, x) \<in> set (rc_entries (p_caches p t)) \<Longrightarrow> unat g \<le> n"
    "(g, x) \<in> set (rc_entries (p_caches p t)) \<Longrightarrow> p_reps p a = Some hx \<Longrightarrow> hx_generation hx = g \<Longrightarrow> (t, x) \<in> set (hx_handles hx)"
  using assms unfolding cache_ok_def by blast+

lemma cache_ok_registry:
  assumes "cache_ok p n t" "p_caches p' t = p_caches p t"
    "\<And>b hy'. p_reps p' b = Some hy' \<Longrightarrow>
      \<exists>hy. p_reps p b = Some hy \<and> hx_generation hy' = hx_generation hy \<and> set (hx_handles hy) \<subseteq> set (hx_handles hy')"
  shows "cache_ok p' n t"
  unfolding cache_ok_def assms(2)
proof (intro conjI allI impI)
  fix g x b hy'
  assume g: "(g, x) \<in> set (rc_entries (p_caches p t))"
  then show "unat g \<le> n" using cache_okD(3) [OF assms(1)] by blast
  assume b: "p_reps p' b = Some hy' \<and> hx_generation hy' = g"
  then obtain hy where "p_reps p b = Some hy" "hx_generation hy = g" "set (hx_handles hy) \<subseteq> set (hx_handles hy')" using assms(3) by metis
  then show "(t, x) \<in> set (hx_handles hy')" using cache_okD(4) [OF assms(1) g] by blast
qed (use cache_okD(1,2) [OF assms(1)] in blast)+

lemma cache_ok_store:
  assumes "cache_ok p n t" "unat g \<le> n" "\<And>b hy. p_reps p b = Some hy \<Longrightarrow> hx_generation hy = g \<Longrightarrow> (t, x) \<in> set (hx_handles hy)"
    and c: "p_caches p' t = \<lparr>rc_entries = (rc_entries (p_caches p t))[v := (g, x)], next_victim = w mod of_nat kReaderHandleCacheSize\<rparr>"
    and r: "p_reps p' = p_reps p"
  shows "cache_ok p' n t"
  unfolding cache_ok_def c r
proof (simp only: reader_handle_cache.select_convs, intro conjI allI impI)
  show "unat (w mod of_nat kReaderHandleCacheSize) < kReaderHandleCacheSize" by (simp add: kReaderHandleCacheSize_def unat_mod)
  show "length ((rc_entries (p_caches p t))[v := (g, x)]) = kReaderHandleCacheSize" using cache_okD(1) [OF assms(1)] by simp
  fix e y assume "(e, y) \<in> set ((rc_entries (p_caches p t))[v := (g, x)])"
  then have e: "(e, y) = (g, x) \<or> (e, y) \<in> set (rc_entries (p_caches p t))" using set_update_subset_insert by fast
  then show "unat e \<le> n" using assms(2) cache_okD(3) [OF assms(1)] by blast
  fix b hy assume "p_reps p b = Some hy \<and> hx_generation hy = e"
  then show "(t, y) \<in> set (hx_handles hy)" using e assms(3) cache_okD(4) [OF assms(1)] by blast
qed

section \<open>Growth of the heap\<close>

lemma new_reader_live [simp]:
  "reader_live (h\<lparr>sync_readers := sync_readers h @ [(m, True)]\<rparr>) r \<longleftrightarrow> reader_live h r \<or> r = length (sync_readers h)"
  by (auto simp: reader_live_def nth_append)

lemma live_reader_bound: "reader_live h r \<Longrightarrow> r < length (sync_readers h)"
  by (simp add: reader_live_def)

lemma map_live_readers [simp]: "map_live (h\<lparr>sync_readers := rs\<rparr>) = map_live h"
  by (simp add: map_live_def fun_eq_iff)

lemma reader_live_maps [simp]: "reader_live (h\<lparr>sync_maps := ms\<rparr>) = reader_live h" "reader_map (h\<lparr>sync_maps := ms\<rparr>) = reader_map h"
  by (simp_all add: reader_live_def reader_map_def fun_eq_iff)

lemma new_map_live [simp]: "map_live (h\<lparr>sync_maps := sync_maps h @ [True]\<rparr>) m \<longleftrightarrow> map_live h m \<or> m = length (sync_maps h)"
  by (auto simp: map_live_def nth_append)

lemma live_map_bound: "map_live h m \<Longrightarrow> m < length (sync_maps h)"
  by (simp add: map_live_def)

lemma handle_index_ok_grow:
  assumes "handle_index_ok n h hx" "n \<le> n'" "\<And>m. map_live h m \<Longrightarrow> map_live h' m"
    "\<And>r. reader_live h r \<Longrightarrow> reader_live h' r \<and> reader_map h' r = reader_map h r"
  shows "handle_index_ok n' h' hx"
  using assms unfolding handle_index_ok_def by fastforce

lemma construct_ok:
  assumes ok: "process_ok p n" and a: "p_reps p a = None" and n: "Suc (Suc n) < 2 ^ 64"
  shows "\<exists>p'. rep_construct p a = Some p' \<and> process_ok p' (Suc n) \<and> p_reps p' a \<noteq> None"
proof -
  let ?h = "p_heap p" and ?g = "g_next_rep_generation p"
  let ?m = "length (sync_maps ?h)" and ?w = "length (sync_readers ?h)"
  let ?h1 = "?h\<lparr>sync_maps := sync_maps ?h @ [True]\<rparr>"
  let ?h2 = "?h1\<lparr>sync_readers := sync_readers ?h1 @ [(?m, True)]\<rparr>"
  let ?hx = "\<lparr>hx_map = ?m, hx_generation = ?g, writer_handle = Some ?w, hx_handles = []\<rparr>"
  let ?p = "p\<lparr>g_next_rep_generation := ?g + 1, p_heap := ?h2, p_reps := (p_reps p)(a \<mapsto> ?hx)\<rparr>"
  have run: "rep_construct p a = Some ?p"
    by (simp add: rep_construct_def expanse_sync_map_new_def expanse_sync_map_reader_new_def Let_def)
  have g: "unat ?g = Suc n" and own: "heap_owned p" and idx: "\<And>b hy. p_reps p b = Some hy \<Longrightarrow> handle_index_ok n ?h hy"
    and sep: "\<And>b c hy hz. p_reps p b = Some hy \<Longrightarrow> p_reps p c = Some hz \<Longrightarrow> b \<noteq> c \<Longrightarrow>
      hx_generation hy \<noteq> hx_generation hz \<and> hx_map hy \<noteq> hx_map hz" and cch: "\<And>t. cache_ok p n t"
    using process_okD [OF ok] by blast+
  have mw: "reader_map ?h2 ?w = ?m" "\<And>r. reader_live ?h r \<Longrightarrow> reader_map ?h2 r = reader_map ?h r"
    by (simp_all add: reader_map_def nth_append reader_live_def)
  have live: "reader_live ?h2 r \<longleftrightarrow> reader_live ?h r \<or> r = ?w" "map_live ?h2 m \<longleftrightarrow> map_live ?h m \<or> m = ?m" for r m
    using new_reader_live [of ?h1 ?m r] by simp_all
  have new: "handle_index_ok (Suc n) ?h2 ?hx" using g mw live by (simp add: handle_index_ok_def owners_def)
  have grow: "handle_index_ok (Suc n) ?h2 hy" if "p_reps p b = Some hy" for b hy
    using handle_index_ok_grow [OF idx [OF that], of "Suc n" ?h2] live mw by simp
  have fresh: "hx_generation hy \<noteq> ?g \<and> hx_map hy \<noteq> ?m" if "p_reps p b = Some hy" for b hy
    using idx [OF that] g live_map_bound [of ?h "hx_map hy"] by (auto simp: handle_index_ok_def)
  have "heap_owned ?p"
    unfolding heap_owned_def
  proof (intro conjI allI impI)
    fix m assume "map_live (p_heap ?p) m"
    then consider "map_live ?h m" | "m = ?m" using live(2) by auto
    then show "\<exists>b hy. p_reps ?p b = Some hy \<and> hx_map hy = m"
    proof cases
      case 1
      then obtain b hy where "p_reps p b = Some hy" "hx_map hy = m" using own unfolding heap_owned_def by blast
      then show ?thesis using a by (intro exI [of _ b] exI [of _ hy]) auto
    qed (intro exI [of _ a] exI [of _ ?hx], simp)
  next
    fix r assume "reader_live (p_heap ?p) r"
    then consider "reader_live ?h r" | "r = ?w" using live(1) by auto
    then show "\<exists>b hy. p_reps ?p b = Some hy \<and> hx_map hy = reader_map (p_heap ?p) r \<and> Some r \<in> set (owners hy)"
    proof cases
      case 1
      then obtain b hy where "p_reps p b = Some hy" "hx_map hy = reader_map ?h r" "Some r \<in> set (owners hy)"
        using own unfolding heap_owned_def by blast
      then show ?thesis using 1 a mw(2) by (intro exI [of _ b] exI [of _ hy]) auto
    next
      case 2
      then show ?thesis using mw(1) by (intro exI [of _ a] exI [of _ ?hx]) (simp add: owners_def)
    qed
  qed
  moreover have "cache_ok ?p (Suc n) t" for t
    unfolding cache_ok_def
  proof (intro conjI allI impI)
    fix e x b hy assume "(e, x) \<in> set (rc_entries (p_caches ?p t))"
    then have e: "unat e \<le> n" "\<And>b hy. p_reps p b = Some hy \<Longrightarrow> hx_generation hy = e \<Longrightarrow> (t, x) \<in> set (hx_handles hy)"
      using cache_okD(3,4) [OF cch [of t], of e x] by auto
    then show "unat e \<le> Suc n" by simp
    assume "p_reps ?p b = Some hy \<and> hx_generation hy = e"
    then show "(t, x) \<in> set (hx_handles hy)" using e g by (auto split: if_splits)
  qed (use cache_okD(1,2) [OF cch [of t]] in simp_all)
  moreover have "unat (?g + 1) = Suc (Suc n)" using g n by (simp add: unat_word_ariths)
  moreover have "\<And>b hy. p_reps ?p b = Some hy \<Longrightarrow> handle_index_ok (Suc n) (p_heap ?p) hy" using new grow by (auto split: if_splits)
  moreover have "\<And>b c hy hz. p_reps ?p b = Some hy \<Longrightarrow> p_reps ?p c = Some hz \<Longrightarrow> b \<noteq> c \<Longrightarrow>
      hx_generation hy \<noteq> hx_generation hz \<and> hx_map hy \<noteq> hx_map hz"
    using fresh sep by (auto split: if_splits) blast+
  ultimately have "process_ok ?p (Suc n)" using n by (intro process_okI) simp_all
  then show ?thesis using run by simp
qed

section \<open>Looking a handle up\<close>

lemma find_SomeD: "find P xs = Some x \<Longrightarrow> x \<in> set xs \<and> P x"
  by (induction xs) (auto split: if_splits)

lemma find_NoneD: "find P xs = None \<Longrightarrow> x \<in> set xs \<Longrightarrow> \<not> P x"
  by (induction xs) (auto split: if_splits)

lemma find_or_register_ok:
  assumes ok: "handle_index_ok n h hx"
  shows "\<exists>r hx' h'. find_or_register t hx h = Some (Some r, hx', h') \<and> (t, Some r) \<in> set (hx_handles hx') \<and>
    hx_map hx' = hx_map hx \<and> hx_generation hx' = hx_generation hx \<and> set (hx_handles hx) \<subseteq> set (hx_handles hx') \<and>
    handle_index_ok n h' hx' \<and> (\<forall>m. map_live h' m = map_live h m) \<and>
    (\<forall>q. reader_live h q \<longrightarrow> reader_live h' q \<and> reader_map h' q = reader_map h q) \<and>
    (\<forall>q. reader_live h' q \<longrightarrow> reader_live h q \<or> Some q \<in> set (owners hx') \<and> reader_map h' q = hx_map hx) \<and>
    set (owners hx) \<subseteq> set (owners hx')"
proof (cases "find (\<lambda>e. fst e = t) (hx_handles hx)")
  case None
  let ?r = "length (sync_readers h)"
  let ?h = "h\<lparr>sync_readers := sync_readers h @ [(hx_map hx, True)]\<rparr>" and ?hx = "hx\<lparr>hx_handles := hx_handles hx @ [(t, Some ?r)]\<rparr>"
  have m: "reader_map ?h ?r = hx_map hx" "\<And>q. reader_live h q \<Longrightarrow> reader_map ?h q = reader_map h q"
    by (simp_all add: reader_map_def nth_append reader_live_def)
  have "find_or_register t hx h = Some (Some ?r, ?hx, ?h)"
    using None ok by (simp add: find_or_register_def expanse_sync_map_reader_new_def handle_index_ok_def)
  moreover have "t \<notin> fst ` set (hx_handles hx)" using find_NoneD [OF None] by auto
  moreover have "Some ?r \<notin> set (owners hx)" using ok live_reader_bound unfolding handle_index_ok_def by blast
  ultimately have "handle_index_ok n ?h ?hx" using ok m unfolding handle_index_ok_def owners_def by auto
  then show ?thesis using \<open>find_or_register t hx h = Some (Some ?r, ?hx, ?h)\<close> m by (auto simp: owners_def)
next
  case (Some e)
  have e: "e \<in> set (hx_handles hx)" "fst e = t" using find_SomeD [OF Some] by simp_all
  then have "snd e \<in> set (owners hx)" by (simp add: owners_def)
  then obtain r where r: "snd e = Some r" using ok unfolding handle_index_ok_def by blast
  then have "find_or_register t hx h = Some (Some r, hx, h)" using Some by (cases e) (simp add: find_or_register_def)
  moreover have "(t, Some r) \<in> set (hx_handles hx)" using e r by (metis prod.collapse)
  ultimately show ?thesis using ok by blast
qed

lemma locate_ok:
  assumes ok: "process_ok p n" and a: "p_reps p a = Some hx"
  shows "\<exists>r p' hx'. OptimisticReaderHandle p a t = Some (Some r, p') \<and> process_ok p' n \<and> p_reps p' a = Some hx' \<and>
    hx_map hx' = hx_map hx \<and> (t, Some r) \<in> set (hx_handles hx') \<and> (\<forall>b. b \<noteq> a \<longrightarrow> p_reps p' b = p_reps p b)"
proof -
  note ok' = process_okD [OF ok]
  let ?c = "p_caches p t" and ?g = "hx_generation hx"
  have c: "length (rc_entries ?c) = kReaderHandleCacheSize" "unat (next_victim ?c) < kReaderHandleCacheSize"
      "\<And>e x. (e, x) \<in> set (rc_entries ?c) \<Longrightarrow> unat e \<le> n"
      "\<And>e x b hy. (e, x) \<in> set (rc_entries ?c) \<Longrightarrow> p_reps p b = Some hy \<Longrightarrow> hx_generation hy = e \<Longrightarrow> (t, x) \<in> set (hx_handles hy)"
    using ok'(6) [of t] unfolding cache_ok_def by blast+
  note ix = ok'(4) [OF a]
  show ?thesis
  proof (cases "find (\<lambda>e. fst e = ?g) (rc_entries ?c)")
    case (Some e)
    then have "e \<in> set (rc_entries ?c)" "fst e = ?g" using find_SomeD [OF Some] by simp_all
    then have t: "(t, snd e) \<in> set (hx_handles hx)" using c(4) [of ?g "snd e", OF _ a] by (metis prod.collapse)
    then have "snd e \<in> set (owners hx)" by (force simp: owners_def)
    then obtain r where "snd e = Some r" using ix unfolding handle_index_ok_def by blast
    then show ?thesis using a t ok Some by (simp add: OptimisticReaderHandle_def)
  next
    case None
    obtain r hx' h' where f: "find_or_register t hx (p_heap p) = Some (Some r, hx', h')" "(t, Some r) \<in> set (hx_handles hx')"
        "hx_map hx' = hx_map hx" "hx_generation hx' = ?g" "set (hx_handles hx) \<subseteq> set (hx_handles hx')" "handle_index_ok n h' hx'"
        "\<And>m. map_live h' m = map_live (p_heap p) m"
        "\<And>q. reader_live (p_heap p) q \<Longrightarrow> reader_live h' q \<and> reader_map h' q = reader_map (p_heap p) q"
        "\<And>q. reader_live h' q \<Longrightarrow> reader_live (p_heap p) q \<or> Some q \<in> set (owners hx') \<and> reader_map h' q = hx_map hx"
        "set (owners hx) \<subseteq> set (owners hx')"
      using find_or_register_ok [OF ix, of t] by blast
    let ?es = "(rc_entries ?c)[unat (next_victim ?c) := (?g, Some r)]"
    let ?nc = "\<lparr>rc_entries = ?es, next_victim = (next_victim ?c + 1) mod of_nat kReaderHandleCacheSize\<rparr>"
    let ?p = "p\<lparr>p_heap := h', p_reps := (p_reps p)(a \<mapsto> hx'), p_caches := (p_caches p)(t := ?nc)\<rparr>"
    have run: "OptimisticReaderHandle p a t = Some (Some r, ?p)"
      using None f(1) c(1,2) a by (simp add: OptimisticReaderHandle_def Let_def)
    have sub: "\<exists>hy'. p_reps ?p b = Some hy' \<and> hx_map hy' = hx_map hy \<and> hx_generation hy' = hx_generation hy \<and>
        set (hx_handles hy) \<subseteq> set (hx_handles hy') \<and> set (owners hy) \<subseteq> set (owners hy')" if "p_reps p b = Some hy" for b hy
      using that a f(3,4,5,10) by auto
    have prior: "\<exists>hy. p_reps p b = Some hy \<and> hx_map hy' = hx_map hy \<and> hx_generation hy' = hx_generation hy \<and>
        set (hx_handles hy) \<subseteq> set (hx_handles hy')" if "p_reps ?p b = Some hy'" for b hy'
      using that a f(3,4,5) by (auto split: if_splits)
    have "heap_owned ?p"
      unfolding heap_owned_def
    proof (intro conjI allI impI)
      fix m assume "map_live (p_heap ?p) m"
      then have "map_live (p_heap p) m" using f(7) by simp
      then obtain b hy where "p_reps p b = Some hy" "hx_map hy = m" using ok'(3) unfolding heap_owned_def by blast
      then show "\<exists>b hy. p_reps ?p b = Some hy \<and> hx_map hy = m" using sub [of b hy] by blast
    next
      fix q assume "reader_live (p_heap ?p) q"
      then consider "reader_live (p_heap p) q" | "Some q \<in> set (owners hx')" "reader_map h' q = hx_map hx" using f(9) [of q] by auto
      then show "\<exists>b hy. p_reps ?p b = Some hy \<and> hx_map hy = reader_map (p_heap ?p) q \<and> Some q \<in> set (owners hy)"
      proof cases
        case 1
        then obtain b hy where "p_reps p b = Some hy" "hx_map hy = reader_map (p_heap p) q" "Some q \<in> set (owners hy)"
          using ok'(3) unfolding heap_owned_def by blast
        then obtain hy' where "p_reps ?p b = Some hy'" "hx_map hy' = reader_map (p_heap p) q" "Some q \<in> set (owners hy')"
          using sub [of b hy] by auto
        moreover have "reader_map (p_heap ?p) q = reader_map (p_heap p) q" using f(8) [OF 1] by simp
        ultimately show ?thesis by metis
      next
        case 2
        then show ?thesis using f(3) by (intro exI [of _ a] exI [of _ hx']) simp
      qed
    qed
    moreover have "handle_index_ok n (p_heap ?p) hy" if "p_reps ?p b = Some hy" for b hy
      using that f(6) handle_index_ok_grow [OF ok'(4) [of b hy], of n h'] f(7,8) by (auto split: if_splits)
    moreover have "cache_ok ?p n s" for s
    proof -
      let ?q = "p\<lparr>p_heap := h', p_reps := (p_reps p)(a \<mapsto> hx')\<rparr>"
      have q: "cache_ok ?q n s" by (rule cache_ok_registry [OF ok'(6)]) (simp, use prior in \<open>simp, metis\<close>)
      have own: "(t, Some r) \<in> set (hx_handles hy)" if b: "p_reps ?q b = Some hy" "hx_generation hy = ?g" for b hy
      proof -
        obtain hz where "p_reps p b = Some hz" "hx_generation hz = ?g" using prior [of b hy] b by (auto simp del: fun_upd_apply)
        then have "b = a" using ok'(5) [of b hz a hx] a by blast
        then show ?thesis using b f(2) by simp
      qed
      show ?thesis
      proof (cases "s = t")
        case True
        then show ?thesis using cache_ok_store [of ?q n t ?g "Some r" ?p] q own ix by (simp add: handle_index_ok_def)
      next
        case False
        then show ?thesis using cache_ok_registry [OF q, of ?p] by simp
      qed
    qed
    moreover have "hx_generation hy \<noteq> hx_generation hz \<and> hx_map hy \<noteq> hx_map hz"
      if "p_reps ?p b = Some hy" "p_reps ?p d = Some hz" "b \<noteq> d" for b d hy hz
      using prior [OF that(1)] prior [OF that(2)] ok'(5) that(3) by metis
    ultimately have "process_ok ?p n" using ok'(1,2) by (intro process_okI) auto
    then show ?thesis using run f(2,3) by auto
  qed
qed

section \<open>Destruction\<close>

lemma reader_free_ok:
  assumes "reader_live h r" "map_live h (reader_map h r)"
  shows "\<exists>h'. expanse_sync_map_reader_free (Some r) h = Some h' \<and> (\<forall>q. reader_live h' q \<longleftrightarrow> reader_live h q \<and> q \<noteq> r) \<and>
    reader_map h' = reader_map h \<and> map_live h' = map_live h"
  using assms by (auto simp: expanse_sync_map_reader_free_def reader_live_def reader_map_def nth_list_update fun_eq_iff)

lemma free_handles_ok:
  assumes "\<forall>e\<in>set es. \<exists>r. snd e = Some r \<and> reader_live h r \<and> map_live h (reader_map h r)" "distinct (map snd es)"
  shows "\<exists>h'. free_handles es h = Some h' \<and> (\<forall>q. reader_live h' q \<longleftrightarrow> reader_live h q \<and> Some q \<notin> set (map snd es)) \<and>
    reader_map h' = reader_map h \<and> map_live h' = map_live h"
  using assms
proof (induction es arbitrary: h)
  case (Cons e es)
  then obtain r where r: "snd e = Some r" "reader_live h r" "map_live h (reader_map h r)" by auto
  obtain h1 where h1: "expanse_sync_map_reader_free (Some r) h = Some h1" "\<And>q. reader_live h1 q \<longleftrightarrow> reader_live h q \<and> q \<noteq> r"
      "reader_map h1 = reader_map h" "map_live h1 = map_live h"
    using reader_free_ok [OF r(2,3)] by blast
  have "\<exists>q. snd x = Some q \<and> reader_live h1 q \<and> map_live h1 (reader_map h1 q)" if "x \<in> set es" for x
  proof -
    have "snd x \<noteq> Some r" using Cons.prems(2) that r(1) by (auto simp: image_iff)
    then show ?thesis using Cons.prems(1) that h1(2-4) by auto
  qed
  then obtain h2 where h2: "free_handles es h1 = Some h2" "\<And>q. reader_live h2 q \<longleftrightarrow> reader_live h1 q \<and> Some q \<notin> set (map snd es)"
      "reader_map h2 = reader_map h1" "map_live h2 = map_live h1"
    using Cons.IH [of h1] Cons.prems(2) by auto
  then show ?case using r(1) h1 by auto
qed simp

lemma destroy_ok_handles:
  assumes ok: "process_ok p n" and a: "p_reps p a = Some hx"
  shows "\<exists>p'. rep_destroy p a = Some p' \<and> process_ok p' n \<and> p_reps p' = (p_reps p)(a := None) \<and>
    (\<forall>r. reader_live (p_heap p') r \<longleftrightarrow> reader_live (p_heap p) r \<and> Some r \<notin> set (owners hx)) \<and>
    (\<forall>m. map_live (p_heap p') m \<longleftrightarrow> map_live (p_heap p) m \<and> m \<noteq> hx_map hx)"
proof -
  note ok' = process_okD [OF ok]
  note ix = ok'(4) [OF a]
  let ?h = "p_heap p"
  have live: "\<exists>r. x = Some r \<and> reader_live ?h r \<and> map_live ?h (reader_map ?h r)" if "x \<in> set (owners hx)" for x
    using ix that unfolding handle_index_ok_def by metis
  obtain h1 where h1: "free_handles (hx_handles hx) ?h = Some h1"
      "\<And>q. reader_live h1 q \<longleftrightarrow> reader_live ?h q \<and> Some q \<notin> set (map snd (hx_handles hx))" "reader_map h1 = reader_map ?h" "map_live h1 = map_live ?h"
    using free_handles_ok [of "hx_handles hx" ?h] live ix by (auto simp: handle_index_ok_def owners_def)
  obtain w where w: "writer_handle hx = Some w" "reader_live ?h w" "map_live ?h (reader_map ?h w)" using live [of "writer_handle hx"] by (auto simp: owners_def)
  have "reader_live h1 w" using h1(2) w ix by (auto simp: handle_index_ok_def owners_def)
  then obtain h2 where h2: "expanse_sync_map_reader_free (Some w) h1 = Some h2" "\<And>q. reader_live h2 q \<longleftrightarrow> reader_live h1 q \<and> q \<noteq> w"
      "reader_map h2 = reader_map h1" "map_live h2 = map_live h1"
    using reader_free_ok [of h1 w] w(3) h1(3,4) by auto
  have dead: "reader_live h2 q \<longleftrightarrow> reader_live ?h q \<and> Some q \<notin> set (owners hx)" for q using h1(2) h2(2) w(1) by (auto simp: owners_def)
  have none: "\<not> snd e" if e: "e \<in> set (sync_readers h2)" "fst e = hx_map hx" for e
  proof
    assume "snd e"
    moreover obtain q where "q < length (sync_readers h2)" "sync_readers h2 ! q = e" using e(1) by (meson in_set_conv_nth)
    ultimately have q: "reader_live h2 q" "reader_map h2 q = hx_map hx" using e(2) by (simp_all add: reader_live_def reader_map_def)
    then have "reader_live ?h q" "reader_map ?h q = hx_map hx" using dead h1(3) h2(3) by auto
    then obtain b hy where b: "p_reps p b = Some hy" "hx_map hy = hx_map hx" "Some q \<in> set (owners hy)" using ok'(3) unfolding heap_owned_def by metis
    then have "hy = hx" using ok'(5) [OF b(1) a] a by force
    then show False using b(3) q(1) dead by simp
  qed
  let ?h3 = "h2\<lparr>sync_maps := (sync_maps h2)[hx_map hx := False]\<rparr>"
  let ?p = "p\<lparr>p_heap := ?h3, p_reps := (p_reps p)(a := None)\<rparr>"
  have ml: "map_live h2 (hx_map hx)" using ix h1(4) h2(4) by (simp add: handle_index_ok_def)
  then have "rep_destroy p a = Some ?p" using a h1(1) h2(1) w(1) none by (simp add: rep_destroy_def expanse_sync_map_free_def)
  moreover have maps: "map_live ?h3 m \<longleftrightarrow> map_live ?h m \<and> m \<noteq> hx_map hx" for m
  proof -
    have "map_live ?h3 m \<longleftrightarrow> map_live h2 m \<and> m \<noteq> hx_map hx" using ml by (auto simp: map_live_def nth_list_update)
    then show ?thesis using h1(4) h2(4) by simp
  qed
  moreover have readers: "reader_live ?h3 q \<longleftrightarrow> reader_live ?h q \<and> Some q \<notin> set (owners hx)" "reader_map ?h3 q = reader_map ?h q" for q
    using dead h1(3) h2(3) by simp_all
  moreover have "process_ok ?p n"
  proof (rule process_okI)
    show "heap_owned ?p"
      unfolding heap_owned_def
    proof (intro conjI allI impI)
      fix m assume "map_live (p_heap ?p) m"
      then have m: "map_live ?h m" "m \<noteq> hx_map hx" using maps by simp_all
      then obtain b hy where "p_reps p b = Some hy" "hx_map hy = m" using ok'(3) unfolding heap_owned_def by blast
      moreover from this have "b \<noteq> a" using m(2) a by auto
      ultimately show "\<exists>b hy. p_reps ?p b = Some hy \<and> hx_map hy = m" by auto
    next
      fix r assume "reader_live (p_heap ?p) r"
      then have r: "reader_live ?h r" "Some r \<notin> set (owners hx)" using readers by simp_all
      then obtain b hy where b: "p_reps p b = Some hy" "hx_map hy = reader_map ?h r" "Some r \<in> set (owners hy)"
        using ok'(3) unfolding heap_owned_def by blast
      then have "p_reps ?p b = Some hy" using r(2) a by auto
      then show "\<exists>b hy. p_reps ?p b = Some hy \<and> hx_map hy = reader_map (p_heap ?p) r \<and> Some r \<in> set (owners hy)"
        using b(2,3) readers(2) [of r] by (intro exI [of _ b] exI [of _ hy]) simp
    qed
    fix b hy assume "p_reps ?p b = Some hy"
    then have b: "p_reps p b = Some hy" "b \<noteq> a" by (auto split: if_splits)
    note iy = ok'(4) [OF b(1)] and ne = ok'(5) [OF b(1) a b(2)]
    have "\<exists>r. x = Some r \<and> reader_live ?h3 r \<and> reader_map ?h3 r = hx_map hy" if x: "x \<in> set (owners hy)" for x
    proof -
      obtain r where r: "x = Some r" "reader_live ?h r" "reader_map ?h r = hx_map hy" using iy x unfolding handle_index_ok_def by blast
      then have "Some r \<notin> set (owners hx)" using ix ne unfolding handle_index_ok_def by force
      then show ?thesis using r readers [of r] by simp
    qed
    then show "handle_index_ok n (p_heap ?p) hy" using iy ne maps unfolding handle_index_ok_def by simp
  next
    fix t show "cache_ok ?p n t" by (rule cache_ok_registry [OF ok'(6)]) (auto split: if_splits)
  qed (use ok'(1,2,5) in \<open>auto split: if_splits\<close>)
  ultimately show ?thesis by auto
qed

section \<open>Handles of reachable states\<close>

lemma reachable_ok: "reachable p n \<Longrightarrow> process_ok p n"
proof (induction rule: reachable.induct)
  case start
  show ?case
    by (rule process_okI)
      (auto simp: process_start_def heap_owned_def cache_ok_def t_reader_handles_def kReaderHandleCacheSize_def map_live_def reader_live_def)
next
  case (construct p n a p')
  then show ?case using construct_ok [of p n a] by simp
next
  case (locate p n a t r p')
  then obtain hx where "p_reps p a = Some hx" by (auto simp: OptimisticReaderHandle_def bind_eq_Some_conv)
  then show ?case using locate_ok [of p n a hx t] locate by auto
next
  case (destroy p n a p')
  then obtain hx where "p_reps p a = Some hx" by (auto simp: rep_destroy_def bind_eq_Some_conv)
  then show ?case using destroy_ok_handles [of p n a hx] destroy by auto
qed

text \<open>An address used twice, with the handle of the first memtable still in the cache of thread 1.\<close>

definition ex_first :: process where
  "ex_first = the (rep_construct process_start 7)"

definition ex_located :: process where
  "ex_located = snd (the (OptimisticReaderHandle ex_first 7 1))"

definition ex_reused :: process where
  "ex_reused = the (rep_construct (the (rep_destroy ex_located 7)) 7)"

lemmas ex_process_defs = ex_first_def ex_located_def ex_reused_def process_start_def rep_construct_def OptimisticReaderHandle_def
  find_or_register_def rep_destroy_def expanse_sync_map_new_def expanse_sync_map_reader_new_def expanse_sync_map_reader_free_def
  expanse_sync_map_free_def map_live_def reader_live_def reader_map_def t_reader_handles_def kReaderHandleCacheSize_def

lemma ex_reused_reachable: "reachable ex_reused 2"
proof -
  have "rep_construct process_start 7 = Some ex_first" by (simp add: ex_process_defs)
  then have 1: "reachable ex_first 1" using reachable.construct [OF reachable.start] by (simp add: process_start_def)
  have "\<exists>r. OptimisticReaderHandle ex_first 7 1 = Some (r, ex_located)" by (simp add: ex_process_defs numeral_nat)
  then have 2: "reachable ex_located 1" using reachable.locate [OF 1] by blast
  have "rep_destroy ex_located 7 = Some (the (rep_destroy ex_located 7))" by (simp add: ex_process_defs numeral_nat)
  then have 3: "reachable (the (rep_destroy ex_located 7)) 1" using reachable.destroy [OF 2] by blast
  have "rep_construct (the (rep_destroy ex_located 7)) 7 = Some ex_reused" "p_reps (the (rep_destroy ex_located 7)) 7 = None"
    by (simp_all add: ex_process_defs numeral_nat)
  then have "reachable ex_reused (Suc 1)" using reachable.construct [OF 3, of 7 ex_reused] by simp
  then show ?thesis by (simp add: numeral_2_eq_2)
qed

lemma ex_reused_index:
  "p_reps ex_reused 7 = Some \<lparr>hx_map = 1, hx_generation = 2, writer_handle = Some 2, hx_handles = []\<rparr>"
  "fst (rc_entries (p_caches ex_reused 1) ! 0) = 1"
  by (simp_all add: ex_process_defs numeral_nat)

text \<open>C32. In every reachable state a thread that looks its handle up on a live memtable gets a handle that is not
  freed, that reads the map of this memtable, and that no other thread gets from any memtable; the
  cache never answers with a handle of a destroyed memtable, even at a reused address.\<close>

theorem reader_handle_live_and_private:
  assumes "reachable p n" "p_reps p a = Some hx"
  shows "\<exists>r p'. OptimisticReaderHandle p a t = Some (Some r, p') \<and> reader_live (p_heap p') r \<and> reader_map (p_heap p') r = hx_map hx \<and>
    (\<forall>b s hy. p_reps p' b = Some hy \<and> (s, Some r) \<in> set (hx_handles hy) \<longrightarrow> b = a \<and> s = t)"
proof -
  obtain r p' hx' where l: "OptimisticReaderHandle p a t = Some (Some r, p')" "process_ok p' n" "p_reps p' a = Some hx'"
      "hx_map hx' = hx_map hx" "(t, Some r) \<in> set (hx_handles hx')"
    using locate_ok [OF reachable_ok [OF assms(1)] assms(2), of t] by blast
  note ok = process_okD [OF l(2)]
  have own: "reader_map (p_heap p') r = hx_map hy \<and> reader_live (p_heap p') r" if "p_reps p' b = Some hy" "(s, Some r) \<in> set (hx_handles hy)" for b s hy
  proof -
    have "Some r \<in> set (owners hy)" using that(2) by (force simp: owners_def)
    then show ?thesis using ok(4) [OF that(1)] unfolding handle_index_ok_def by blast
  qed
  have "b = a \<and> s = t" if b: "p_reps p' b = Some hy" "(s, Some r) \<in> set (hx_handles hy)" for b s hy
  proof -
    have "b = a" using own [OF b] own [OF l(3,5)] ok(5) [OF b(1) l(3)] by fastforce
    moreover have "distinct (map snd (hx_handles hx'))" using ok(4) [OF l(3)] by (simp add: handle_index_ok_def owners_def)
    ultimately show ?thesis using b l(3,5) eq_key_imp_eq_value [of "map prod.swap (hx_handles hx')" "Some r" s t] by (force simp: comp_def)
  qed
  then show ?thesis using l own [OF l(3,5)] by metis
qed

theorem reader_handle_live_and_private_witness:
  "\<exists>r p'. OptimisticReaderHandle ex_reused 7 1 = Some (Some r, p') \<and> reader_live (p_heap p') r \<and> reader_map (p_heap p') r = 1"
  using reader_handle_live_and_private [OF ex_reused_reachable ex_reused_index(1), of 1] by auto

text \<open>C33. Destroying a live memtable in a reachable state breaks no rule of the engine: every handle is freed once
  and before its map, and nothing of the memtable stays alive.\<close>

theorem reader_handles_released:
  assumes "reachable p n" "p_reps p a = Some hx"
  shows "\<exists>p'. rep_destroy p a = Some p' \<and> \<not> map_live (p_heap p') (hx_map hx) \<and>
    (\<forall>r. reader_live (p_heap p') r \<longleftrightarrow> reader_live (p_heap p) r \<and> reader_map (p_heap p) r \<noteq> hx_map hx)"
proof -
  note ok = process_okD [OF reachable_ok [OF assms(1)]]
  have "Some r \<in> set (owners hx) \<longleftrightarrow> reader_map (p_heap p) r = hx_map hx" if r: "reader_live (p_heap p) r" for r
  proof
    show "Some r \<in> set (owners hx) \<Longrightarrow> reader_map (p_heap p) r = hx_map hx" using ok(4) [OF assms(2)] unfolding handle_index_ok_def by blast
    obtain b hy where b: "p_reps p b = Some hy" "hx_map hy = reader_map (p_heap p) r" "Some r \<in> set (owners hy)"
      using ok(3) r unfolding heap_owned_def by blast
    then show "reader_map (p_heap p) r = hx_map hx \<Longrightarrow> Some r \<in> set (owners hx)" using ok(5) [OF b(1) assms(2)] assms(2) by fastforce
  qed
  then show ?thesis using destroy_ok_handles [OF reachable_ok [OF assms(1)] assms(2)] by metis
qed

theorem reader_handles_released_witness:
  "\<exists>p'. rep_destroy ex_reused 7 = Some p' \<and> \<not> map_live (p_heap p') 1"
  using reader_handles_released [OF ex_reused_reachable ex_reused_index(1)] by auto

end
