(* ===== verification/Rocks_Seqlock.thy ===== *)
theory Rocks_Seqlock
  imports Rocks_Lookup
begin

text \<open>
  Readers of one leaf block beside its writer, at the grain of single loads and stores. The writer holds the
  mutex of the memtable, makes the block's version odd, stores, and makes it even again; a reader loads
  the version, reads, and keeps what it computed only when the version is still the same and even.

  Loads and stores interleave in any order but take effect in program order: the fences of the source
  are what makes this view of the hardware adequate, and they are not modelled. The version counts writes
  in 32 bits; a write starts only while the count does not wrap.
\<close>

section \<open>The writer\<close>

datatype store_op = StoreVersion | StoreShift nat | StoreEntry nat "entry option" | StoreCount nat | StoreNext "nat option"

fun do_store :: "store_op \<Rightarrow> leaf_block \<Rightarrow> leaf_block" where
  "do_store StoreVersion b = b\<lparr>blk_version := blk_version b + 1\<rparr>"
| "do_store (StoreShift i) b = b\<lparr>blk_entries := (blk_entries b)[i := blk_entries b ! (i - 1)]\<rparr>"
| "do_store (StoreEntry i e) b = b\<lparr>blk_entries := (blk_entries b)[i := e]\<rparr>"
| "do_store (StoreCount c) b = b\<lparr>blk_count := c\<rparr>"
| "do_store (StoreNext n) b = b\<lparr>blk_next := n, next_leaf := n\<rparr>"

definition insert_stores :: "leaf_block \<Rightarrow> nat \<Rightarrow> entry \<Rightarrow> store_op list" where
  "insert_stores b left e =
    StoreVersion # map StoreShift (rev [left + 1..<blk_count b + 1]) @
    [StoreEntry left (Some e), StoreCount (blk_count b + 1), StoreVersion]"

definition split_stores :: "leaf_block \<Rightarrow> nat \<Rightarrow> store_op list" where
  "split_stores b new_block =
    (let mid = blk_count b div 2; move_count = blk_count b - mid
     in StoreVersion # StoreCount mid # map (\<lambda>i. StoreEntry (mid + i) None) [0..<move_count] @
        [StoreNext (Some new_block), StoreVersion])"

section \<open>Readers\<close>

text \<open>What a reader does inside a bracket: loads of the count and of slots, then a result or a new attempt.\<close>

datatype 'a reader = Ret 'a | Again | ReadCount "nat \<Rightarrow> 'a reader" | ReadSlot nat "entry option \<Rightarrow> 'a reader"

primrec run_on :: "leaf_block \<Rightarrow> 'a reader \<Rightarrow> 'a option" where
  "run_on b (Ret x) = Some x"
| "run_on b Again = None"
| "run_on b (ReadCount k) = run_on b (k (blk_count b))"
| "run_on b (ReadSlot i k) = (case rd (blk_entries b) i of None \<Rightarrow> None | Some e \<Rightarrow> run_on b (k e))"

text \<open>The search of \<open>Contains\<close> and the read of an edge, as readers.\<close>

function search_reader :: "(entry \<Rightarrow> int) \<Rightarrow> nat \<Rightarrow> nat \<Rightarrow> bool reader" where
  "search_reader cmp left right =
    (if left < right
     then ReadSlot (left + (right - left) div 2)
            (\<lambda>x. case x of
                   None \<Rightarrow> Again
                 | Some e \<Rightarrow>
                     if cmp e = 0 then Ret True
                     else if cmp e > 0 then search_reader cmp (left + (right - left) div 2 + 1) right
                     else search_reader cmp left (left + (right - left) div 2))
     else Ret False)"
  by pat_completeness auto
termination by (relation "measure (\<lambda>(_, l, r). r - l)") auto

declare search_reader.simps [simp del]

definition contains_reader :: "(entry \<Rightarrow> int) \<Rightarrow> bool reader" where
  "contains_reader cmp = ReadCount (\<lambda>c. search_reader cmp 0 c)"

definition edge_reader :: "bool \<Rightarrow> (nat \<times> entry) option reader" where
  "edge_reader forward =
    ReadCount (\<lambda>c. if c > 0
                   then ReadSlot (if forward then 0 else c - 1)
                          (\<lambda>x. case x of None \<Rightarrow> Again | Some e \<Rightarrow> Ret (Some (if forward then 0 else c - 1, e)))
                   else Ret None)"

text \<open>A reader is idle, inside a bracket (the version it loaded and what is left to do), or done.\<close>

datatype 'a attempt = Waiting | Inside u32 "'a reader" | Accepted 'a

record 'a system =
  sys_block :: leaf_block
  sys_stores :: "store_op list"
  sys_attempt :: "'a attempt"

section \<open>Interleavings\<close>

inductive sys_step :: "'a reader \<Rightarrow> 'a system \<Rightarrow> 'a system \<Rightarrow> bool" for prog where
  begin_insert: "sys_stores s = [] \<Longrightarrow> left \<le> blk_count (sys_block s) \<Longrightarrow> blk_count (sys_block s) < kMaxCapacity \<Longrightarrow>
    unat (blk_version (sys_block s)) + 2 < 2 ^ 32 \<Longrightarrow>
    sys_step prog s (s\<lparr>sys_stores := insert_stores (sys_block s) left e\<rparr>)"
| begin_split: "sys_stores s = [] \<Longrightarrow> unat (blk_version (sys_block s)) + 2 < 2 ^ 32 \<Longrightarrow>
    sys_step prog s (s\<lparr>sys_stores := split_stores (sys_block s) nb\<rparr>)"
| store: "sys_stores s = op # ops \<Longrightarrow> sys_step prog s (s\<lparr>sys_block := do_store op (sys_block s), sys_stores := ops\<rparr>)"
| open_bracket: "sys_attempt s = Waiting \<Longrightarrow> even (unat (blk_version (sys_block s))) \<Longrightarrow>
    sys_step prog s (s\<lparr>sys_attempt := Inside (blk_version (sys_block s)) prog\<rparr>)"
| read_count: "sys_attempt s = Inside v (ReadCount k) \<Longrightarrow>
    sys_step prog s (s\<lparr>sys_attempt := Inside v (k (blk_count (sys_block s)))\<rparr>)"
| read_slot: "sys_attempt s = Inside v (ReadSlot i k) \<Longrightarrow> rd (blk_entries (sys_block s)) i = Some e \<Longrightarrow>
    sys_step prog s (s\<lparr>sys_attempt := Inside v (k e)\<rparr>)"
| null_slot: "sys_attempt s = Inside v Again \<Longrightarrow> sys_step prog s (s\<lparr>sys_attempt := Waiting\<rparr>)"
| validated: "sys_attempt s = Inside v (Ret x) \<Longrightarrow> blk_version (sys_block s) = v \<Longrightarrow>
    sys_step prog s (s\<lparr>sys_attempt := Accepted x\<rparr>)"
| torn: "sys_attempt s = Inside v (Ret x) \<Longrightarrow> blk_version (sys_block s) \<noteq> v \<Longrightarrow>
    sys_step prog s (s\<lparr>sys_attempt := Waiting\<rparr>)"

text \<open>The blocks that the writer leaves between its writes, and the states the interleavings reach.\<close>

inductive runs :: "'a reader \<Rightarrow> 'a system \<Rightarrow> 'a system \<Rightarrow> leaf_block list \<Rightarrow> bool" for prog s0 where
  start: "sys_stores s0 = [] \<Longrightarrow> sys_attempt s0 = Waiting \<Longrightarrow> even (unat (blk_version (sys_block s0))) \<Longrightarrow> runs prog s0 s0 [sys_block s0]"
| step: "runs prog s0 s Bs \<Longrightarrow> sys_step prog s s' \<Longrightarrow>
    runs prog s0 s' (if sys_stores s' = [] then Bs @ [sys_block s'] else Bs)"

section \<open>Invariant\<close>

definition no_version :: "store_op list \<Rightarrow> bool" where
  "no_version ops \<longleftrightarrow> StoreVersion \<notin> set ops"

definition writer_inv :: "'a system \<Rightarrow> leaf_block \<Rightarrow> bool" where
  "writer_inv s B \<longleftrightarrow> even (unat (blk_version B)) \<and>
    (sys_stores s = [] \<and> sys_block s = B \<or>
     unat (blk_version B) + 2 < 2 ^ 32 \<and>
       (\<exists>mid. no_version mid \<and>
         (sys_stores s = StoreVersion # mid @ [StoreVersion] \<and> sys_block s = B \<or>
          sys_stores s = mid @ [StoreVersion] \<and> blk_version (sys_block s) = blk_version B + 1)))"

definition reader_inv :: "'a reader \<Rightarrow> 'a system \<Rightarrow> leaf_block list \<Rightarrow> bool" where
  "reader_inv prog s Bs \<longleftrightarrow>
    (case sys_attempt s of
       Waiting \<Rightarrow> True
     | Inside v p \<Rightarrow> even (unat v) \<and> unat v \<le> unat (blk_version (sys_block s)) \<and>
         (blk_version (sys_block s) = v \<longrightarrow> run_on (sys_block s) prog = run_on (sys_block s) p)
     | Accepted x \<Rightarrow> \<exists>B\<in>set Bs. run_on B prog = Some x)"

lemma do_store_version: "op \<noteq> StoreVersion \<Longrightarrow> blk_version (do_store op b) = blk_version b"
  by (cases op) auto

lemma next_version:
  fixes v :: u32
  assumes "unat v + 2 < 2 ^ 32"
  shows "unat (v + 1) = unat v + 1" "unat (v + 1 + 1) = unat v + 2"
  using assms by (simp_all add: unat_word_ariths)

lemma even_version_quiet: "writer_inv s B \<Longrightarrow> even (unat (blk_version (sys_block s))) \<Longrightarrow> sys_block s = B"
  unfolding writer_inv_def using next_version(1) [of "blk_version B"] by auto

lemma writer_begins:
  assumes "writer_inv s B" "sys_stores s = []" "unat (blk_version (sys_block s)) + 2 < 2 ^ 32" "no_version mid"
  shows "writer_inv (s\<lparr>sys_stores := StoreVersion # mid @ [StoreVersion]\<rparr>) B"
  using assms unfolding writer_inv_def by auto

text \<open>A store leaves the version as it is while the version is odd, or moves it on.\<close>

lemma writer_stores:
  assumes inv: "writer_inv s B" and ops: "sys_stores s = op # ops"
  defines "t \<equiv> s\<lparr>sys_block := do_store op (sys_block s), sys_stores := ops\<rparr>"
  shows "writer_inv t (if ops = [] then sys_block t else B)"
    "unat (blk_version (sys_block s)) \<le> unat (blk_version (sys_block t))"
    "odd (unat (blk_version (sys_block t))) \<or> unat (blk_version (sys_block s)) < unat (blk_version (sys_block t))"
proof -
  obtain mid where B: "even (unat (blk_version B))" "unat (blk_version B) + 2 < 2 ^ 32" "no_version mid"
    and c: "sys_stores s = StoreVersion # mid @ [StoreVersion] \<and> sys_block s = B \<or>
      sys_stores s = mid @ [StoreVersion] \<and> blk_version (sys_block s) = blk_version B + 1"
    using inv ops unfolding writer_inv_def by auto
  note v = next_version [OF B(2)]
  have "writer_inv t (if ops = [] then sys_block t else B) \<and> unat (blk_version (sys_block s)) \<le> unat (blk_version (sys_block t)) \<and>
    (odd (unat (blk_version (sys_block t))) \<or> unat (blk_version (sys_block s)) < unat (blk_version (sys_block t)))"
    using c
  proof
    assume "sys_stores s = StoreVersion # mid @ [StoreVersion] \<and> sys_block s = B"
    then show ?thesis using ops B v unfolding t_def writer_inv_def by auto
  next
    assume a: "sys_stores s = mid @ [StoreVersion] \<and> blk_version (sys_block s) = blk_version B + 1"
    show ?thesis
    proof (cases mid)
      case Nil
      then have op: "op = StoreVersion" "ops = []" using a ops by auto
      then show ?thesis using a B v unfolding t_def writer_inv_def by simp
    next
      case (Cons o1 rest)
      then have op: "op = o1" "ops = rest @ [StoreVersion]" "no_version rest" "op \<noteq> StoreVersion"
        using a ops B(3) by (auto simp: no_version_def)
      have "blk_version (sys_block t) = blk_version B + 1" using a do_store_version [OF op(4)] unfolding t_def by simp
      then show ?thesis using a op B v unfolding t_def writer_inv_def by auto
    qed
  qed
  then show "writer_inv t (if ops = [] then sys_block t else B)" "unat (blk_version (sys_block s)) \<le> unat (blk_version (sys_block t))"
    "odd (unat (blk_version (sys_block t))) \<or> unat (blk_version (sys_block s)) < unat (blk_version (sys_block t))" by blast+
qed

lemma script_shape:
  "\<exists>mid. no_version mid \<and> insert_stores b left e = StoreVersion # mid @ [StoreVersion]"
  "\<exists>mid. no_version mid \<and> split_stores b nb = StoreVersion # mid @ [StoreVersion]"
proof -
  show "\<exists>mid. no_version mid \<and> insert_stores b left e = StoreVersion # mid @ [StoreVersion]"
    by (intro exI [of _ "map StoreShift (rev [left + 1..<blk_count b + 1]) @ [StoreEntry left (Some e), StoreCount (blk_count b + 1)]"])
      (auto simp: insert_stores_def no_version_def)
  show "\<exists>mid. no_version mid \<and> split_stores b nb = StoreVersion # mid @ [StoreVersion]"
    by (intro exI [of _ "StoreCount (blk_count b div 2) #
        map (\<lambda>i. StoreEntry (blk_count b div 2 + i) None) [0..<blk_count b - blk_count b div 2] @ [StoreNext (Some nb)]"])
      (auto simp: split_stores_def no_version_def Let_def)
qed

lemma step_writer:
  assumes "writer_inv s B" "sys_step prog s s'"
  shows "writer_inv s' (if sys_stores s' = [] then sys_block s' else B)"
  using assms(2)
proof (cases rule: sys_step.cases)
  case (begin_insert left e)
  then obtain mid where "no_version mid" "insert_stores (sys_block s) left e = StoreVersion # mid @ [StoreVersion]" using script_shape(1) by blast
  then show ?thesis using writer_begins [OF assms(1), of mid] begin_insert by simp
next
  case (begin_split nb)
  then obtain mid where "no_version mid" "split_stores (sys_block s) nb = StoreVersion # mid @ [StoreVersion]" using script_shape(2) by blast
  then show ?thesis using writer_begins [OF assms(1), of mid] begin_split by simp
next
  case (store op ops)
  then show ?thesis using writer_stores(1) [OF assms(1), of op ops] by (auto split: if_splits)
qed (use assms(1) in \<open>auto simp: writer_inv_def\<close>)

lemma step_reader:
  assumes w: "writer_inv s B" "B \<in> set Bs" and r: "reader_inv prog s Bs" and st: "sys_step prog s s'"
  shows "reader_inv prog s' (if sys_stores s' = [] then Bs @ [sys_block s'] else Bs)"
  using st
proof (cases rule: sys_step.cases)
  case (store op ops)
  note v = writer_stores(2,3) [OF w(1), of op ops]
  show ?thesis
  proof (cases "sys_attempt s")
    case (Inside v p)
    then show ?thesis using store r v by (auto simp: reader_inv_def)
  qed (use store r in \<open>auto simp: reader_inv_def\<close>)
next
  case (validated v x)
  then have "even (unat (blk_version (sys_block s)))" "run_on (sys_block s) prog = Some x" using r by (auto simp: reader_inv_def)
  moreover from this have "sys_block s = B" using even_version_quiet [OF w(1)] by blast
  ultimately show ?thesis using validated w(2) by (auto simp: reader_inv_def)
qed (use r in \<open>auto simp: reader_inv_def split: attempt.splits\<close>)

lemma runs_inv:
  "runs prog s0 s Bs \<Longrightarrow> Bs \<noteq> [] \<and> writer_inv s (last Bs) \<and> reader_inv prog s Bs"
proof (induction rule: runs.induct)
  case start
  then show ?case by (simp add: writer_inv_def reader_inv_def)
next
  case (step s Bs s')
  then show ?case using step_writer [of s "last Bs" prog s'] step_reader [of s "last Bs" Bs prog s'] by (auto split: if_splits)
qed

section \<open>What readers see\<close>

lemma search_reader_match:
  "run_on b (search_reader cmp left right) = match_search cmp (blk_entries b) left right"
proof (induction cmp left right rule: search_reader.induct)
  case (1 cmp left right)
  then show ?case
    by (subst search_reader.simps, subst match_search.simps) (auto split: option.splits)
qed

lemma contains_reader_on: "run_on b (contains_reader cmp) = match_search cmp (blk_entries b) 0 (blk_count b)"
  by (simp add: contains_reader_def search_reader_match)

text \<open>However the stores of insertions and splits interleave with a reader's loads, the result a reader keeps
  is the one its reads give on a block as the writer left it between two writes.\<close>

lemma seqlock_reads_consistent:
  assumes "runs prog s0 s Bs" "sys_attempt s = Accepted x"
  shows "\<exists>B\<in>set Bs. run_on B prog = Some x"
  using runs_inv [OF assms(1)] assms(2) by (simp add: reader_inv_def)

text \<open>C31. However the stores of insertions and splits interleave with its loads, a membership test of a block that
  is being written answers as the sequential search does on a block as the writer left it between two
  writes: a half-made shift or split is never observed.\<close>

theorem seqlock_contains_linearizes:
  assumes "runs (contains_reader cmp) s0 s Bs" "sys_attempt s = Accepted x"
  shows "\<exists>B\<in>set Bs. match_search cmp (blk_entries B) 0 (blk_count B) = Some x"
  using seqlock_reads_consistent [OF assms] by (simp add: contains_reader_on)

text \<open>A reader that validates after an insertion has begun and before its first store.\<close>

lemma runs_further: "\<exists>Bs. runs prog s0 s Bs \<Longrightarrow> sys_step prog s s' \<Longrightarrow> \<exists>Bs. runs prog s0 s' Bs"
  using runs.step by blast

definition ex_state :: "store_op list \<Rightarrow> bool attempt \<Rightarrow> bool system" where
  "ex_state ops at = \<lparr>sys_block = LeafBlock, sys_stores = ops, sys_attempt = at\<rparr>"

lemma ex_state_sel [simp]:
  "sys_block (ex_state ops at) = LeafBlock" "sys_stores (ex_state ops at) = ops" "sys_attempt (ex_state ops at) = at"
  "ex_state ops at\<lparr>sys_stores := ops'\<rparr> = ex_state ops' at" "ex_state ops at\<lparr>sys_attempt := at'\<rparr> = ex_state ops at'"
  by (simp_all add: ex_state_def)

lemma LeafBlock_sel [simp]: "blk_version LeafBlock = 0" "blk_count LeafBlock = 0"
  by (simp_all add: LeafBlock_def)

lemma ex_overtaken:
  "\<exists>Bs. runs (contains_reader cmp) (ex_state [] Waiting) (ex_state (insert_stores LeafBlock 0 []) (Accepted False)) Bs"
proof -
  let ?P = "contains_reader cmp" and ?ins = "insert_stores LeafBlock 0 []"
  let ?R = "\<lambda>s. \<exists>Bs. runs ?P (ex_state [] Waiting) s Bs"
  have e: "search_reader cmp 0 0 = Ret False" by (subst search_reader.simps) simp
  have "?R (ex_state [] Waiting)" using runs.start [of "ex_state [] Waiting" ?P] by auto
  then have "?R (ex_state [] (Inside 0 ?P))"
    using runs_further sys_step.open_bracket [of "ex_state [] Waiting" ?P] by fastforce
  then have "?R (ex_state [] (Inside 0 (Ret False)))"
    using runs_further sys_step.read_count [of "ex_state [] (Inside 0 ?P)" 0 _ ?P] e by (fastforce simp: contains_reader_def)
  then have "?R (ex_state ?ins (Inside 0 (Ret False)))"
    using runs_further sys_step.begin_insert [of "ex_state [] (Inside 0 (Ret False))" 0 ?P "[]"] by (fastforce simp: kMaxCapacity_def)
  then show ?thesis using runs_further sys_step.validated [of "ex_state ?ins (Inside 0 (Ret False))" 0 False ?P] by fastforce
qed

theorem seqlock_contains_linearizes_witness:
  "\<exists>s Bs B. runs (contains_reader (\<lambda>e. 0)) (ex_state [] Waiting) s Bs \<and> B \<in> set Bs \<and>
    match_search (\<lambda>e. 0) (blk_entries B) 0 (blk_count B) = Some False"
  using seqlock_contains_linearizes [of "\<lambda>e. 0" "ex_state [] Waiting"] ex_overtaken [of "\<lambda>e. 0"] by (metis ex_state_sel(3))

section \<open>The stores of a write\<close>

lemma fold_shifts:
  "for_loop js (\<lambda>i es. do { x \<leftarrow> rd es (i - 1); wr es i x }) (blk_entries b) = Some es \<Longrightarrow>
    fold do_store (map StoreShift js) b = b\<lparr>blk_entries := es\<rparr>"
proof (induction js arbitrary: b)
  case (Cons j js)
  then obtain es1 where "rd (blk_entries b) (j - 1) \<noteq> None" "es1 = (blk_entries b)[j := blk_entries b ! (j - 1)]"
      "for_loop js (\<lambda>i es. do { x \<leftarrow> rd es (i - 1); wr es i x }) es1 = Some es"
    by (auto simp: bind_eq_Some_conv rd_eq_Some wr_eq_Some)
  then show ?case using Cons.IH [of "b\<lparr>blk_entries := es1\<rparr>"] by simp
qed simp

lemma fold_clears:
  "for_loop js (\<lambda>i es. wr es (mid + i) None) (blk_entries b) = Some es \<Longrightarrow>
    fold do_store (map (\<lambda>i. StoreEntry (mid + i) None) js) b = b\<lparr>blk_entries := es\<rparr>"
proof (induction js arbitrary: b)
  case (Cons j js)
  then show ?case using Cons.IH [of "b\<lparr>blk_entries := (blk_entries b)[mid + j := None]\<rparr>"]
    by (auto simp: bind_eq_Some_conv wr_eq_Some)
qed simp

text \<open>The stores of an insertion and of a split, run to their end, make the block that the operations of the
  memtable write.\<close>

lemma insert_stores_block:
  assumes "for_loop (rev [left + 1..<blk_count b + 1]) (\<lambda>i es. do { x \<leftarrow> rd es (i - 1); wr es i x }) (blk_entries b) = Some shifted"
    "wr shifted left (Some e) = Some stored"
  shows "fold do_store (insert_stores b left e) b =
    b\<lparr>blk_version := blk_version b + 1 + 1, blk_entries := stored, blk_count := blk_count b + 1\<rparr>"
  using fold_shifts [of "rev [left + 1..<blk_count b + 1]" "b\<lparr>blk_version := blk_version b + 1\<rparr>" shifted] assms
  by (simp add: insert_stores_def wr_eq_Some)

lemma split_stores_block:
  assumes "for_loop [0..<blk_count b - blk_count b div 2] (\<lambda>i es. wr es (blk_count b div 2 + i) None) (blk_entries b) = Some kept"
  shows "fold do_store (split_stores b nb) b =
    b\<lparr>blk_version := blk_version b + 1 + 1, blk_count := blk_count b div 2, blk_entries := kept, blk_next := Some nb, next_leaf := Some nb\<rparr>"
  using fold_clears [of "[0..<blk_count b - blk_count b div 2]" "blk_count b div 2"
      "b\<lparr>blk_version := blk_version b + 1, blk_count := blk_count b div 2\<rparr>" kept] assms
  by (simp add: split_stores_def Let_def)

end
