(* ===== verification/Gfx.thy ===== *)
theory Gfx
  imports C_Memory
begin

text \<open>
  Drawing in the framebuffer of the display demo, from \<^verbatim>\<open>integrations/stm32h747/demo/CM7/Core/Src/gfx.c\<close>: filled
  and outlined rectangles, and text from an atlas of two-bit glyphs. The framebuffer is the list of its
  pixels, row by row; a store outside it is \<^term>\<open>None\<close>. Coordinates are C \<open>int\<close>s, far from their bounds.
\<close>

section \<open>Rectangles\<close>

definition LCD_W :: nat where
  "LCD_W = 800"

definition LCD_H :: nat where
  "LCD_H = 480"

type_synonym frame = "u32 list"

definition wri :: "frame \<Rightarrow> int \<Rightarrow> u32 \<Rightarrow> frame option" where
  "wri fb i c = (if i < 0 then None else wr fb (nat i) c)"

definition fill_rect :: "frame \<Rightarrow> int \<Rightarrow> int \<Rightarrow> int \<Rightarrow> int \<Rightarrow> u32 \<Rightarrow> frame option" where
  "fill_rect fb x y w h c =
    (let (x1, w1) = (if x < 0 then (0, w + x) else (x, w));
         (y1, h1) = (if y < 0 then (0, h + y) else (y, h));
         w2 = (if x1 + w1 > int LCD_W then int LCD_W - x1 else w1);
         h2 = (if y1 + h1 > int LCD_H then int LCD_H - y1 else h1)
     in for_loop [0..<nat h2]
          (\<lambda>j fb. let row = (y1 + int j) * int LCD_W + x1
                  in for_loop [0..<nat w2] (\<lambda>i fb. wri fb (row + int i) c) fb) fb)"

definition rect :: "frame \<Rightarrow> int \<Rightarrow> int \<Rightarrow> int \<Rightarrow> int \<Rightarrow> u32 \<Rightarrow> frame option" where
  "rect fb x y w h c =
    do { fb1 \<leftarrow> fill_rect fb x y w 1 c;
         fb2 \<leftarrow> fill_rect fb1 x (y + h - 1) w 1 c;
         fb3 \<leftarrow> fill_rect fb2 x y 1 h c;
         fill_rect fb3 (x + w - 1) y 1 h c }"

section \<open>Text\<close>

record glyph =
  g_w :: nat
  g_adv :: nat
  g_dx :: int
  g_off :: nat

record font =
  f_bits :: "u8 list"
  f_g :: "glyph list"
  f_h :: nat

definition glyph_index :: "u8 \<Rightarrow> nat" where
  "glyph_index ch = (let code = unat ch in (if code < 32 \<or> code > 126 then 63 else code) - 32)"

definition glyph_of :: "font \<Rightarrow> u8 \<Rightarrow> glyph option" where
  "glyph_of f ch = rd (f_g f) (glyph_index ch)"

fun text_w :: "font \<Rightarrow> u8 list \<Rightarrow> int option" where
  "text_w f [] = Some 0"
| "text_w f (ch # s) = do { g \<leftarrow> glyph_of f ch; w \<leftarrow> text_w f s; Some (int (g_adv g) + w) }"

definition channel :: "u32 \<Rightarrow> nat \<Rightarrow> u32" where
  "channel v i = drop_bit (8 * i) v AND 0xFF"

definition mix :: "u32 \<Rightarrow> u32 \<Rightarrow> u32 \<Rightarrow> u32" where
  "mix fg bg a =
    (if a = 3 then fg else if a = 0 then bg
     else let r = (channel fg 2 * a + channel bg 2 * (3 - a)) div 3;
              g = (channel fg 1 * a + channel bg 1 * (3 - a)) div 3;
              b = (channel fg 0 * a + channel bg 0 * (3 - a)) div 3
          in 0xFF000000 OR push_bit 16 r OR push_bit 8 g OR b)"

definition coverage :: "u8 \<Rightarrow> nat \<Rightarrow> u32" where
  "coverage b col = ucast (drop_bit (6 - 2 * (col mod 4)) b AND 3)"

definition draw_row :: "font \<Rightarrow> glyph \<Rightarrow> int \<Rightarrow> int \<Rightarrow> int \<Rightarrow> int \<Rightarrow> u32 \<Rightarrow> u32 \<Rightarrow> nat \<Rightarrow> frame \<Rightarrow> frame option" where
  "draw_row f g x0 limit gx py fg bg row fb =
    for_loop [0..<g_w g]
      (\<lambda>col fb. do { b \<leftarrow> rd (f_bits f) (g_off g + row * ((g_w g + 3) div 4) + col div 4);
                     let a = coverage b col; px = gx + int col
                     in if a \<noteq> 0 \<and> px \<ge> x0 \<and> px < limit \<and> px < int LCD_W
                        then wri fb (py * int LCD_W + px) (mix fg bg a) else Some fb }) fb"

definition draw_glyph :: "font \<Rightarrow> glyph \<Rightarrow> int \<Rightarrow> int \<Rightarrow> int \<Rightarrow> int \<Rightarrow> u32 \<Rightarrow> u32 \<Rightarrow> frame \<Rightarrow> frame option" where
  "draw_glyph f g x0 limit pen y fg bg fb =
    for_loop [0..<f_h f]
      (\<lambda>row fb. let py = y + int row
                in if py < 0 \<or> py \<ge> int LCD_H then Some fb
                   else draw_row f g x0 limit (pen + g_dx g) py fg bg row fb) fb"

fun text_run :: "font \<Rightarrow> int \<Rightarrow> int \<Rightarrow> int \<Rightarrow> u32 \<Rightarrow> u32 \<Rightarrow> int \<Rightarrow> u8 list \<Rightarrow> frame \<Rightarrow> frame option" where
  "text_run f x0 limit y fg bg pen [] fb = Some fb"
| "text_run f x0 limit y fg bg pen (ch # s) fb =
    do { g \<leftarrow> glyph_of f ch;
         fb' \<leftarrow> draw_glyph f g x0 limit pen y fg bg fb;
         if pen + int (g_adv g) \<ge> limit then Some fb'
         else text_run f x0 limit y fg bg (pen + int (g_adv g)) s fb' }"

datatype align = ALIGN_LEFT | ALIGN_RIGHT

definition text_left :: "align \<Rightarrow> int \<Rightarrow> int \<Rightarrow> int \<Rightarrow> int" where
  "text_left al x w max_w = (if al = ALIGN_RIGHT then x - (if w < max_w then w else max_w) else x)"

text \<open>The width of the run, the report of a run wider than its budget, and the framebuffer after it.\<close>

definition text_f ::
  "font \<Rightarrow> int \<Rightarrow> int \<Rightarrow> u8 list \<Rightarrow> u32 \<Rightarrow> u32 \<Rightarrow> int \<Rightarrow> align \<Rightarrow> frame \<Rightarrow> (int \<times> (int \<times> int) option \<times> frame) option" where
  "text_f f x y s fg bg max_w al fb =
    do { w \<leftarrow> text_w f s;
         let x0 = text_left al x w max_w; limit = x0 + max_w
         in do { fb' \<leftarrow> text_run f x0 limit y fg bg x0 s fb;
                 Some (w, if w > max_w then Some (w, max_w) else None, fb') } }"

section \<open>Pixels\<close>

definition frame_ok :: "frame \<Rightarrow> bool" where
  "frame_ok fb \<longleftrightarrow> length fb = LCD_H * LCD_W"

definition pixel :: "frame \<Rightarrow> nat \<Rightarrow> nat \<Rightarrow> u32" where
  "pixel fb px py = fb ! (py * LCD_W + px)"

lemmas lcd = LCD_W_def LCD_H_def

lemma pixel_index: "px < LCD_W \<Longrightarrow> py < LCD_H \<Longrightarrow> py * LCD_W + px < LCD_H * LCD_W"
  unfolding lcd by linarith

lemma pixel_index_eq:
  "px < LCD_W \<Longrightarrow> qx < LCD_W \<Longrightarrow> py * LCD_W + px = qy * LCD_W + qx \<longleftrightarrow> px = qx \<and> py = qy"
proof -
  assume "px < LCD_W" "qx < LCD_W"
  then have "(py * LCD_W + px) mod LCD_W = px" "(qy * LCD_W + qx) mod LCD_W = qx" by simp_all
  then show ?thesis by (metis add_right_cancel lcd(1) mult_cancel2 zero_neq_numeral)
qed

lemma wri_pixel:
  assumes "frame_ok fb" "0 \<le> px" "px < int LCD_W" "0 \<le> py" "py < int LCD_H"
  shows "\<exists>fb'. wri fb (py * int LCD_W + px) c = Some fb' \<and> frame_ok fb' \<and>
    (\<forall>qx<LCD_W. \<forall>qy. qy < LCD_H \<longrightarrow> pixel fb' qx qy = (if int qx = px \<and> int qy = py then c else pixel fb qx qy))"
proof -
  obtain a b where ab: "px = int a" "py = int b" "a < LCD_W" "b < LCD_H" using assms(2-5) by (metis nonneg_int_cases of_nat_less_iff)
  have "py * int LCD_W + px = int (b * LCD_W + a)" using ab(1,2) by simp
  then have i: "nat (py * int LCD_W + px) = b * LCD_W + a" "\<not> py * int LCD_W + px < 0" by (metis nat_int, metis of_nat_less_0_iff)
  have l: "b * LCD_W + a < length fb" using pixel_index [OF ab(3,4)] assms(1) by (simp add: frame_ok_def)
  then have "wri fb (py * int LCD_W + px) c = Some (fb[b * LCD_W + a := c])" using i by (simp add: wri_def)
  moreover have "pixel (fb[b * LCD_W + a := c]) qx qy = (if qx = a \<and> qy = b then c else pixel fb qx qy)" if "qx < LCD_W" "qy < LCD_H" for qx qy
    using l pixel_index_eq [OF that(1) ab(3), of qy b] by (auto simp: pixel_def nth_list_update)
  ultimately show ?thesis using assms(1) ab by (auto simp: frame_ok_def)
qed

lemma for_loop_skip: "(\<And>i t. body i t = Some t) \<Longrightarrow> for_loop js body t = Some t"
  by (induction js) auto

text \<open>A loop of pixel stores: what it changes is a set of pixels.\<close>

definition paints :: "frame \<Rightarrow> (int \<Rightarrow> int \<Rightarrow> bool) \<Rightarrow> u32 \<Rightarrow> frame \<Rightarrow> bool" where
  "paints fb S c fb' \<longleftrightarrow> frame_ok fb' \<and>
    (\<forall>qx<LCD_W. \<forall>qy. qy < LCD_H \<longrightarrow> pixel fb' qx qy = (if S (int qx) (int qy) then c else pixel fb qx qy))"

lemma paints_row:
  assumes "frame_ok fb" "0 \<le> x" "x + int n \<le> int LCD_W" "0 \<le> y" "y < int LCD_H"
  shows "\<exists>fb'. for_loop [0..<n] (\<lambda>i fb. wri fb (y * int LCD_W + x + int i) c) fb = Some fb' \<and>
    paints fb (\<lambda>qx qy. qy = y \<and> x \<le> qx \<and> qx < x + int n) c fb'"
proof (rule for_loop_invariant)
  show "paints fb (\<lambda>qx qy. qy = y \<and> x \<le> qx \<and> qx < x + int 0) c fb" using assms(1) by (auto simp: paints_def)
next
  fix i s
  assume i: "i < n" and s: "paints fb (\<lambda>qx qy. qy = y \<and> x \<le> qx \<and> qx < x + int i) c s"
  then obtain s' where s': "wri s (y * int LCD_W + (x + int i)) c = Some s'" "frame_ok s'"
      "\<forall>qx<LCD_W. \<forall>qy. qy < LCD_H \<longrightarrow> pixel s' qx qy = (if int qx = x + int i \<and> int qy = y then c else pixel s qx qy)"
    using wri_pixel [of s "x + int i" y c] assms i by (auto simp: paints_def)
  have "paints fb (\<lambda>qx qy. qy = y \<and> x \<le> qx \<and> qx < x + int (Suc i)) c s'"
    using s s'(2,3) unfolding paints_def by auto
  then show "\<exists>s'. wri s (y * int LCD_W + x + int i) c = Some s' \<and> paints fb (\<lambda>qx qy. qy = y \<and> x \<le> qx \<and> qx < x + int (Suc i)) c s'"
    using s'(1) by (simp add: add.assoc)
qed

lemma paints_rows:
  assumes "frame_ok fb" "0 \<le> x" "x + int n \<le> int LCD_W" "0 \<le> y" "y + int m \<le> int LCD_H"
  shows "\<exists>fb'. for_loop [0..<m] (\<lambda>j fb. let row = (y + int j) * int LCD_W + x in for_loop [0..<n] (\<lambda>i fb. wri fb (row + int i) c) fb) fb = Some fb' \<and>
    paints fb (\<lambda>qx qy. y \<le> qy \<and> qy < y + int m \<and> x \<le> qx \<and> qx < x + int n) c fb'"
proof (rule for_loop_invariant)
  show "paints fb (\<lambda>qx qy. y \<le> qy \<and> qy < y + int 0 \<and> x \<le> qx \<and> qx < x + int n) c fb" using assms(1) by (auto simp: paints_def)
next
  fix j s
  assume j: "j < m" and s: "paints fb (\<lambda>qx qy. y \<le> qy \<and> qy < y + int j \<and> x \<le> qx \<and> qx < x + int n) c s"
  obtain s' where s': "for_loop [0..<n] (\<lambda>i fb. wri fb ((y + int j) * int LCD_W + x + int i) c) s = Some s'"
      "paints s (\<lambda>qx qy. qy = y + int j \<and> x \<le> qx \<and> qx < x + int n) c s'"
    using paints_row [of s x n "y + int j" c] s assms j by (auto simp: paints_def)
  have "paints fb (\<lambda>qx qy. y \<le> qy \<and> qy < y + int (Suc j) \<and> x \<le> qx \<and> qx < x + int n) c s'"
    using s s'(2) unfolding paints_def by auto
  then show "\<exists>s'. (let row = (y + int j) * int LCD_W + x in for_loop [0..<n] (\<lambda>i fb. wri fb (row + int i) c) s) = Some s' \<and>
      paints fb (\<lambda>qx qy. y \<le> qy \<and> qy < y + int (Suc j) \<and> x \<le> qx \<and> qx < x + int n) c s'"
    using s'(1) by (simp add: Let_def)
qed

lemma fill_rect_paints:
  assumes "frame_ok fb"
  shows "\<exists>fb'. fill_rect fb x y w h c = Some fb' \<and>
    paints fb (\<lambda>qx qy. x \<le> qx \<and> qx < x + w \<and> y \<le> qy \<and> qy < y + h) c fb'"
proof -
  define x1 w1 y1 h1 where d: "x1 = (if x < 0 then 0 else x)" "w1 = (if x < 0 then w + x else w)"
    "y1 = (if y < 0 then 0 else y)" "h1 = (if y < 0 then h + y else h)"
  define w2 h2 where d2: "w2 = (if x1 + w1 > int LCD_W then int LCD_W - x1 else w1)" "h2 = (if y1 + h1 > int LCD_H then int LCD_H - y1 else h1)"
  have run: "fill_rect fb x y w h c = for_loop [0..<nat h2] (\<lambda>j fb. let row = (y1 + int j) * int LCD_W + x1
      in for_loop [0..<nat w2] (\<lambda>i fb. wri fb (row + int i) c) fb) fb"
    by (simp add: fill_rect_def d d2 Let_def)
  have set: "(x \<le> int qx \<and> int qx < x + w \<and> y \<le> int qy \<and> int qy < y + h) \<longleftrightarrow>
      (y1 \<le> int qy \<and> int qy < y1 + int (nat h2) \<and> x1 \<le> int qx \<and> int qx < x1 + int (nat w2))" if "qx < LCD_W" "qy < LCD_H" for qx qy
    using that unfolding d d2 by auto
  show ?thesis
  proof (cases "0 < w2 \<and> 0 < h2")
    case True
    then have "x1 + int (nat w2) \<le> int LCD_W" "y1 + int (nat h2) \<le> int LCD_H" "0 \<le> x1" "0 \<le> y1" unfolding d2 d by auto
    then obtain fb' where "fill_rect fb x y w h c = Some fb'"
        "paints fb (\<lambda>qx qy. y1 \<le> qy \<and> qy < y1 + int (nat h2) \<and> x1 \<le> qx \<and> qx < x1 + int (nat w2)) c fb'"
      using paints_rows [OF assms, of x1 "nat w2" y1 "nat h2" c] unfolding run by blast
    then show ?thesis using set unfolding paints_def by auto
  next
    case False
    then have "fill_rect fb x y w h c = Some fb" unfolding run
      by (cases "0 < h2") (simp_all add: for_loop_skip Let_def)
    then show ?thesis using assms set False by (auto simp: paints_def)
  qed
qed

text \<open>Filling a rectangle sets exactly its pixels that are on the display, whatever its position and size, and
  stores nowhere else.\<close>

theorem fill_rect_exact:
  assumes "frame_ok fb"
  shows "\<exists>fb'. fill_rect fb x y w h c = Some fb' \<and> frame_ok fb' \<and>
    (\<forall>qx<LCD_W. \<forall>qy. qy < LCD_H \<longrightarrow> pixel fb' qx qy =
      (if x \<le> int qx \<and> int qx < x + w \<and> y \<le> int qy \<and> int qy < y + h then c else pixel fb qx qy))"
  using fill_rect_paints [OF assms, of x y w h c] unfolding paints_def .

theorem fill_rect_exact_witness:
  "\<exists>fb'. fill_rect (replicate (LCD_H * LCD_W) 0) (- 5) 470 10 100 7 = Some fb' \<and> frame_ok fb' \<and>
    (\<forall>qx<LCD_W. \<forall>qy. qy < LCD_H \<longrightarrow> pixel fb' qx qy =
      (if - 5 \<le> int qx \<and> int qx < - 5 + 10 \<and> 470 \<le> int qy \<and> int qy < 470 + 100 then 7 else pixel (replicate (LCD_H * LCD_W) 0) qx qy))"
  by (rule fill_rect_exact) (simp add: frame_ok_def)

lemma paints_ok: "paints fb S c fb' \<Longrightarrow> frame_ok fb'"
  by (simp add: paints_def)

lemma paints_then: "paints a S c b \<Longrightarrow> paints b T c d \<Longrightarrow> paints a (\<lambda>x y. S x y \<or> T x y) c d"
  by (simp add: paints_def)

lemma paints_cong: "paints a S c b \<Longrightarrow> (\<And>x y. S x y \<longleftrightarrow> T x y) \<Longrightarrow> paints a T c b"
  by (simp add: paints_def)

text \<open>The outline of a rectangle.\<close>

lemma rect_exact:
  assumes "frame_ok fb"
  shows "\<exists>fb'. rect fb x y w h c = Some fb' \<and>
    paints fb (\<lambda>qx qy. x \<le> qx \<and> qx < x + w \<and> (qy = y \<or> qy = y + h - 1) \<or> y \<le> qy \<and> qy < y + h \<and> (qx = x \<or> qx = x + w - 1)) c fb'"
proof -
  obtain f1 where f1: "fill_rect fb x y w 1 c = Some f1" "paints fb (\<lambda>qx qy. x \<le> qx \<and> qx < x + w \<and> y \<le> qy \<and> qy < y + 1) c f1"
    using fill_rect_paints [OF assms] by blast
  obtain f2 where f2: "fill_rect f1 x (y + h - 1) w 1 c = Some f2"
      "paints f1 (\<lambda>qx qy. x \<le> qx \<and> qx < x + w \<and> y + h - 1 \<le> qy \<and> qy < y + h - 1 + 1) c f2"
    using fill_rect_paints [OF paints_ok [OF f1(2)]] by blast
  obtain f3 where f3: "fill_rect f2 x y 1 h c = Some f3" "paints f2 (\<lambda>qx qy. x \<le> qx \<and> qx < x + 1 \<and> y \<le> qy \<and> qy < y + h) c f3"
    using fill_rect_paints [OF paints_ok [OF f2(2)]] by blast
  obtain f4 where f4: "fill_rect f3 (x + w - 1) y 1 h c = Some f4"
      "paints f3 (\<lambda>qx qy. x + w - 1 \<le> qx \<and> qx < x + w - 1 + 1 \<and> y \<le> qy \<and> qy < y + h) c f4"
    using fill_rect_paints [OF paints_ok [OF f3(2)]] by blast
  have "paints fb (\<lambda>qx qy. x \<le> qx \<and> qx < x + w \<and> (qy = y \<or> qy = y + h - 1) \<or> y \<le> qy \<and> qy < y + h \<and> (qx = x \<or> qx = x + w - 1)) c f4"
    by (rule paints_cong [OF paints_then [OF paints_then [OF paints_then [OF f1(2) f2(2)] f3(2)] f4(2)]]) linarith
  then show ?thesis using f1(1) f2(1) f3(1) f4(1) by (simp add: rect_def)
qed

section \<open>Text stays in its box\<close>

text \<open>The atlas holds the rows of every glyph, and a glyph for every printable character.\<close>

definition font_ok :: "font \<Rightarrow> bool" where
  "font_ok f \<longleftrightarrow> length (f_g f) = 95 \<and> (\<forall>g\<in>set (f_g f). g_off g + f_h f * ((g_w g + 3) div 4) \<le> length (f_bits f))"

definition inside_box :: "int \<Rightarrow> int \<Rightarrow> int \<Rightarrow> int \<Rightarrow> frame \<Rightarrow> frame \<Rightarrow> bool" where
  "inside_box x0 x1 y0 y1 fb fb' \<longleftrightarrow> frame_ok fb' \<and>
    (\<forall>qx<LCD_W. \<forall>qy. qy < LCD_H \<longrightarrow> \<not> (x0 \<le> int qx \<and> int qx < x1 \<and> y0 \<le> int qy \<and> int qy < y1) \<longrightarrow> pixel fb' qx qy = pixel fb qx qy)"

lemma inside_box_refl: "frame_ok fb \<Longrightarrow> inside_box x0 x1 y0 y1 fb fb"
  by (simp add: inside_box_def)

lemma inside_box_trans: "inside_box x0 x1 y0 y1 a b \<Longrightarrow> inside_box x0 x1 y0 y1 b c \<Longrightarrow> inside_box x0 x1 y0 y1 a c"
  by (auto simp: inside_box_def)

lemma for_loop_box:
  assumes "\<And>i s. i < n \<Longrightarrow> frame_ok s \<Longrightarrow> \<exists>s'. body i s = Some s' \<and> inside_box x0 x1 y0 y1 s s'" "frame_ok fb"
  shows "\<exists>fb'. for_loop [0..<n] body fb = Some fb' \<and> inside_box x0 x1 y0 y1 fb fb'"
proof (rule for_loop_invariant)
  show "inside_box x0 x1 y0 y1 fb fb" using assms(2) by (rule inside_box_refl)
next
  fix i s
  assume i: "i < n" and s: "inside_box x0 x1 y0 y1 fb s"
  then show "\<exists>s'. body i s = Some s' \<and> inside_box x0 x1 y0 y1 fb s'"
    using assms(1) [of i s] inside_box_trans by (metis inside_box_def)
qed

lemma glyph_index_bound: "glyph_index ch < 95"
  by (auto simp: glyph_index_def Let_def)

lemma glyph_of_ok: "font_ok f \<Longrightarrow> \<exists>g. glyph_of f ch = Some g \<and> g \<in> set (f_g f)"
  using glyph_index_bound [of ch] by (simp add: glyph_of_def font_ok_def)

lemma row_byte:
  assumes "font_ok f" "g \<in> set (f_g f)" "row < f_h f" "col < g_w g"
  shows "g_off g + row * ((g_w g + 3) div 4) + col div 4 < length (f_bits f)"
proof -
  let ?r = "(g_w g + 3) div 4"
  have "col div 4 < ?r" using assms(4) by linarith
  moreover have "Suc row * ?r \<le> f_h f * ?r" using assms(3) by (intro mult_le_mono1) simp
  ultimately show ?thesis using assms(1,2) unfolding font_ok_def by force
qed

lemma draw_glyph_box:
  assumes f: "font_ok f" "g \<in> set (f_g f)" and x0: "0 \<le> x0" and fb: "frame_ok fb"
  shows "\<exists>fb'. draw_glyph f g x0 limit pen y fg bg fb = Some fb' \<and> inside_box x0 limit y (y + int (f_h f)) fb fb'"
  unfolding draw_glyph_def
proof (rule for_loop_box [OF _ fb])
  fix row s
  assume row: "row < f_h f" and s: "frame_ok s"
  let ?py = "y + int row" and ?gx = "pen + g_dx g"
  show "\<exists>s'. (let py = ?py in if py < 0 \<or> py \<ge> int LCD_H then Some s else draw_row f g x0 limit ?gx py fg bg row s) = Some s' \<and>
      inside_box x0 limit y (y + int (f_h f)) s s'"
  proof (cases "?py < 0 \<or> ?py \<ge> int LCD_H")
    case True
    then show ?thesis using s inside_box_refl by (auto simp: Let_def)
  next
    case False
    have "\<exists>s'. draw_row f g x0 limit ?gx ?py fg bg row s = Some s' \<and> inside_box x0 limit y (y + int (f_h f)) s s'"
      unfolding draw_row_def
    proof (rule for_loop_box [OF _ s])
      fix col t
      assume col: "col < g_w g" and t: "frame_ok t"
      let ?i = "g_off g + row * ((g_w g + 3) div 4) + col div 4" and ?px = "?gx + int col"
      define a where "a = coverage (f_bits f ! ?i) col"
      have rd: "rd (f_bits f) ?i = Some (f_bits f ! ?i)" using row_byte [OF f row col] by simp
      show "\<exists>s'. (do { b \<leftarrow> rd (f_bits f) ?i; let a = coverage b col; px = ?px in
          if a \<noteq> 0 \<and> px \<ge> x0 \<and> px < limit \<and> px < int LCD_W then wri t (?py * int LCD_W + px) (mix fg bg a) else Some t }) = Some s' \<and>
          inside_box x0 limit y (y + int (f_h f)) t s'"
      proof (cases "a \<noteq> 0 \<and> ?px \<ge> x0 \<and> ?px < limit \<and> ?px < int LCD_W")
        case True
        then obtain t' where "wri t (?py * int LCD_W + ?px) (mix fg bg a) = Some t'" "frame_ok t'"
            "\<forall>qx<LCD_W. \<forall>qy. qy < LCD_H \<longrightarrow> pixel t' qx qy = (if int qx = ?px \<and> int qy = ?py then mix fg bg a else pixel t qx qy)"
          using wri_pixel [OF t, of ?px ?py "mix fg bg a"] x0 False by auto
        then show ?thesis using True rd row unfolding a_def by (auto simp: inside_box_def)
      next
        case outside: False
        then show ?thesis using rd inside_box_refl [OF t] unfolding a_def by (auto simp: Let_def)
      qed
    qed
    then show ?thesis using False by (simp add: Let_def)
  qed
qed

lemma text_run_box:
  assumes "font_ok f" "0 \<le> x0" "frame_ok fb"
  shows "\<exists>fb'. text_run f x0 limit y fg bg pen s fb = Some fb' \<and> inside_box x0 limit y (y + int (f_h f)) fb fb'"
  using assms(3)
proof (induction s arbitrary: pen fb)
  case Nil
  then show ?case by (simp add: inside_box_refl)
next
  case (Cons ch s)
  obtain g where g: "glyph_of f ch = Some g" "g \<in> set (f_g f)" using glyph_of_ok [OF assms(1)] by blast
  obtain fb1 where fb1: "draw_glyph f g x0 limit pen y fg bg fb = Some fb1" "inside_box x0 limit y (y + int (f_h f)) fb fb1"
    using draw_glyph_box [OF assms(1) g(2) assms(2) Cons.prems] by blast
  then show ?case using Cons.IH [of fb1 "pen + int (g_adv g)"] g(1) inside_box_trans by (auto simp: inside_box_def)
qed

lemma text_w_ok: "font_ok f \<Longrightarrow> \<exists>w. text_w f s = Some w \<and> 0 \<le> w"
proof (induction s)
  case (Cons ch s)
  then show ?case using glyph_of_ok [of f ch] by auto
qed simp

text \<open>Text whose left edge is on the display changes only the pixels of its box, from its left edge to the width
  it may take and for the height of the font, and never stores outside the framebuffer; a run wider than
  its budget is cut and reported.\<close>

theorem text_stays_in_box:
  assumes "font_ok f" "frame_ok fb" "text_w f s = Some w" "0 \<le> text_left al x w max_w"
  shows "\<exists>fb'. text_f f x y s fg bg max_w al fb = Some (w, if w > max_w then Some (w, max_w) else None, fb') \<and>
    inside_box (text_left al x w max_w) (text_left al x w max_w + max_w) y (y + int (f_h f)) fb fb'"
  using text_run_box [OF assms(1,4,2), of "text_left al x w max_w + max_w" y fg bg "text_left al x w max_w" s] assms(3)
  by (auto simp: text_f_def Let_def)

definition ex_font :: font where
  "ex_font = \<lparr>f_bits = [0xFF, 0xFF], f_g = replicate 95 \<lparr>g_w = 4, g_adv = 5, g_dx = 0, g_off = 0\<rparr>, f_h = 2\<rparr>"

lemma ex_font_ok: "font_ok ex_font"
  by (simp add: font_ok_def ex_font_def)

lemma ex_width: "text_w ex_font [65] = Some 5"
  by (simp add: ex_font_def glyph_of_def glyph_index_def)

theorem text_stays_in_box_witness:
  "\<exists>fb'. text_f ex_font 100 20 [65] 1 0 3 ALIGN_RIGHT (replicate (LCD_H * LCD_W) 0) = Some (5, Some (5, 3), fb') \<and>
    inside_box 97 100 20 22 (replicate (LCD_H * LCD_W) 0) fb'"
  using text_stays_in_box [OF ex_font_ok _ ex_width, of "replicate (LCD_H * LCD_W) 0" ALIGN_RIGHT 100 3 20 1 0]
  by (simp add: frame_ok_def text_left_def ex_font_def)

text \<open>The left edge is not clipped at the display: right-aligned text wider than the space to its left stores
  before the framebuffer.\<close>

lemma text_left_edge_unclipped: "text_f ex_font 2 0 [65] 1 0 10 ALIGN_RIGHT fb = None"
  by (simp add: text_f_def ex_width text_left_def)
    (simp add: ex_font_def glyph_of_def glyph_index_def draw_glyph_def draw_row_def coverage_def wri_def lcd upt_rec)

end
