(* ===== verification/Harness_Core.thy ===== *)
theory Harness_Core
  imports C_Memory
begin

text \<open>
  The parts of the firmware harness (\<^verbatim>\<open>integrations/stm32h747/main.c\<close>) under its fixtures: the text it prints, the
  heap break, the profiling counters, the pacing of the writer, and the tallies of the reader interrupt
  and of the second core. Registers, clocks and caches are not modelled; a reading of the cycle counter
  and the answer of the concurrent map are arguments.
\<close>

section \<open>Output\<close>

text \<open>The second core prints into a buffer in shared memory.\<close>

definition SHM_TEXT_SIZE :: nat where
  "SHM_TEXT_SIZE = 49152"

record m4_text =
  shm_text :: string
  text_overflow :: bool

definition m4_putc :: "m4_text \<Rightarrow> char \<Rightarrow> m4_text" where
  "m4_putc t c =
    (if length (shm_text t) < SHM_TEXT_SIZE then t\<lparr>shm_text := shm_text t @ [c]\<rparr> else t\<lparr>text_overflow := True\<rparr>)"

definition m4_puts :: "string \<Rightarrow> m4_text \<Rightarrow> m4_text" where
  "m4_puts s t = fold (\<lambda>c t. m4_putc t c) s t"

text \<open>The digits are written from the end of a buffer of 11 characters, the last of them the terminator.\<close>

definition digit_char :: "nat \<Rightarrow> char" where
  "digit_char d = char_of (48 + d)"

function u32_digits :: "nat \<Rightarrow> u32 \<Rightarrow> string \<Rightarrow> string option" where
  "u32_digits i v acc =
    (if i = 0 then None
     else let acc' = digit_char (unat (v mod 10)) # acc
          in if v div 10 = 0 then Some acc' else u32_digits (i - 1) (v div 10) acc')"
  by pat_completeness auto
termination by (relation "measure (\<lambda>(i, _, _). i)") auto

declare u32_digits.simps [simp del]

definition uart_u32 :: "u32 \<Rightarrow> string option" where
  "uart_u32 v = u32_digits 10 v []"

definition hex_digits :: string where
  "hex_digits = ''0123456789abcdef''"

definition uart_hex :: "u32 \<Rightarrow> string" where
  "uart_hex v = ''0x'' @ map (\<lambda>i. hex_digits ! unat (drop_bit i v AND 0xF)) [28, 24, 20, 16, 12, 8, 4, 0]"

definition kv :: "string \<Rightarrow> u32 \<Rightarrow> string option" where
  "kv k v = do { d \<leftarrow> uart_u32 v; Some ('' '' @ k @ ''='' @ d) }"

definition ks :: "string \<Rightarrow> string \<Rightarrow> string" where
  "ks k v = '' '' @ k @ ''='' @ v"

definition crlf :: string where
  "crlf = [char_of (13 :: nat), char_of (10 :: nat)]"

fun kvs :: "(string \<times> u32) list \<Rightarrow> string option" where
  "kvs [] = Some []"
| "kvs (p # ps) = do { a \<leftarrow> kv (fst p) (snd p); b \<leftarrow> kvs ps; Some (a @ b) }"

definition result_line :: "string \<Rightarrow> u32 \<Rightarrow> string \<Rightarrow> string \<Rightarrow> u32 \<Rightarrow> u32 \<Rightarrow> u32 \<Rightarrow> u32 \<Rightarrow> string option" where
  "result_line core sysclk name impl dcache pass cycles ops =
    do { t \<leftarrow> kvs [(''sysclk'', sysclk), (''dcache'', dcache), (''pass'', pass), (''cycles'', cycles), (''ops'', ops)];
         Some (''RESULT name='' @ name @ ks ''impl'' impl @ ks ''core'' core @ t @ crlf) }"

definition fault_report :: "string \<Rightarrow> string \<Rightarrow> u32 \<Rightarrow> u32 \<Rightarrow> string" where
  "fault_report core what hfsr cfsr =
    ''FAULT core='' @ core @ '' '' @ what @ '' hfsr='' @ uart_hex hfsr @ '' cfsr='' @ uart_hex cfsr @ crlf"

section \<open>The heap break\<close>

record heap_break =
  heap_start :: int
  heap_end :: int
  brk :: int
  brk_hwm :: int

definition sbrk :: "heap_break \<Rightarrow> int \<Rightarrow> int option \<times> heap_break" where
  "sbrk h incr =
    (if brk h + incr > heap_end h then (None, h)
     else let b = brk h + incr
          in (Some (brk h), h\<lparr>brk := b, brk_hwm := (if b > brk_hwm h then b else brk_hwm h)\<rparr>))"

section \<open>Profiling counters\<close>

record dwt_prof =
  dp_cycles :: u32
  dp_cpi :: u32
  dp_exc :: u32
  dp_sleep :: u32
  dp_lsu :: u32
  dp_fold :: u32
  cpi_max :: u32
  lsu_max :: u32
  suspect :: u32

definition delta8 :: "u32 list \<Rightarrow> u32 list \<Rightarrow> nat \<Rightarrow> u32" where
  "delta8 a b i = (b ! i - a ! i) AND 0xFF"

definition dwt_acc :: "dwt_prof \<Rightarrow> u32 list \<Rightarrow> u32 list \<Rightarrow> dwt_prof" where
  "dwt_acc p a b =
    (let cy = b ! 0 - a ! 0; cpi = delta8 a b 1; exc = delta8 a b 2; sl = delta8 a b 3; lsu = delta8 a b 4; fld = delta8 a b 5
     in p\<lparr>dp_cycles := dp_cycles p + cy, dp_cpi := dp_cpi p + cpi, dp_exc := dp_exc p + exc, dp_sleep := dp_sleep p + sl,
          dp_lsu := dp_lsu p + lsu, dp_fold := dp_fold p + fld,
          cpi_max := (if cpi > cpi_max p then cpi else cpi_max p), lsu_max := (if lsu > lsu_max p then lsu else lsu_max p),
          suspect := (if cpi + exc + sl + lsu \<ge> cy + fld then suspect p + 1 else suspect p)\<rparr>)"

definition result_dwt :: "string \<Rightarrow> u32 \<Rightarrow> string \<Rightarrow> string \<Rightarrow> u32 \<Rightarrow> u32 \<Rightarrow> dwt_prof \<Rightarrow> u32 \<Rightarrow> string option" where
  "result_dwt core sysclk fixture impl dcache pass p ops =
    do { t \<leftarrow> kvs [(''sysclk'', sysclk), (''dcache'', dcache), (''pass'', pass), (''ops'', ops),
                 (''cycles'', dp_cycles p), (''cpi'', dp_cpi p), (''exc'', dp_exc p), (''sleep'', dp_sleep p), (''lsu'', dp_lsu p),
                 (''fold'', dp_fold p), (''cpi_max'', cpi_max p), (''lsu_max'', lsu_max p), (''suspect'', suspect p)];
         Some (''RESULT name=dwt'' @ ks ''fixture'' fixture @ ks ''impl'' impl @ ks ''core'' core @ t @ crlf) }"

section \<open>Pacing\<close>

definition xorshift :: "u32 \<Rightarrow> u32" where
  "xorshift s = (let s1 = s XOR push_bit 13 s; s2 = s1 XOR drop_bit 17 s1 in s2 XOR push_bit 5 s2)"

definition gap_of :: "u32 \<Rightarrow> u32 \<Rightarrow> u32 \<times> u32" where
  "gap_of wrng period = (let r = xorshift wrng in (period div 2 + r mod period, r))"

definition period_of :: "u32 \<Rightarrow> u32 \<Rightarrow> u32" where
  "period_of sysclk rate = (if rate \<noteq> 0 then sysclk div rate else 0)"

definition KEYS :: u32 where
  "KEYS = 4096"

definition KEYS_FIXED :: u32 where
  "KEYS_FIXED = 2048"

definition VAL :: "u32 \<Rightarrow> u32" where
  "VAL k = k XOR 0xABCD"

text \<open>The key and the kind of the \<open>i\<close>-th mutation of the writer.\<close>

definition churn_key :: "u32 \<Rightarrow> u32" where
  "churn_key i = KEYS_FIXED + (drop_bit 1 i AND (KEYS_FIXED - 1))"

definition churn_removes :: "u32 \<Rightarrow> bool" where
  "churn_removes i \<longleftrightarrow> i AND 1 = 1"

text \<open>Waiting for a flag of the other core: each round reads the flag and the cycle counter.\<close>

fun wait_flag :: "u32 \<Rightarrow> u32 \<Rightarrow> u32 \<Rightarrow> u32 \<Rightarrow> u32 \<Rightarrow> (u32 \<times> u32) list \<Rightarrow> bool option" where
  "wait_flag sysclk want secs t0 elapsed [] = None"
| "wait_flag sysclk want secs t0 elapsed ((flag, now) # rs) =
    (if flag = want then Some True
     else if now - t0 \<ge> sysclk
          then if elapsed + 1 \<ge> secs then Some False else wait_flag sysclk want secs (t0 + sysclk) (elapsed + 1) rs
          else wait_flag sysclk want secs t0 elapsed rs)"

section \<open>Tallies of the readers\<close>

datatype sync32_status = SYNC32_OK | SYNC32_NOT_FOUND | SYNC32_BUSY | SYNC32_OTHER

record isr_tally =
  isr_n :: u32
  isr_ok :: u32
  isr_nf :: u32
  isr_busy :: u32
  isr_bad :: u32
  lat_max :: u32
  lat_sum :: u32
  dur_max :: u32
  dur_sum :: u32

definition isr_reset :: isr_tally where
  "isr_reset = \<lparr>isr_n = 0, isr_ok = 0, isr_nf = 0, isr_busy = 0, isr_bad = 0, lat_max = 0, lat_sum = 0, dur_max = 0, dur_sum = 0\<rparr>"

datatype isr_mode = ISR_OFF | ISR_SYNC32 | ISR_CS

definition ISR_PERIOD :: u32 where
  "ISR_PERIOD = 20000"

definition count_answer :: "u32 \<Rightarrow> sync32_status \<times> u32 \<Rightarrow> isr_tally \<Rightarrow> isr_tally" where
  "count_answer k answer t =
    (case fst answer of
       SYNC32_OK \<Rightarrow> if snd answer = VAL k then t\<lparr>isr_ok := isr_ok t + 1\<rparr> else t\<lparr>isr_bad := isr_bad t + 1\<rparr>
     | SYNC32_NOT_FOUND \<Rightarrow> t\<lparr>isr_nf := isr_nf t + 1\<rparr>
     | SYNC32_BUSY \<Rightarrow> t\<lparr>isr_busy := isr_busy t + 1\<rparr>
     | SYNC32_OTHER \<Rightarrow> t\<lparr>isr_bad := isr_bad t + 1\<rparr>)"

definition count_plain :: "u32 \<Rightarrow> u32 option \<Rightarrow> isr_tally \<Rightarrow> isr_tally" where
  "count_plain k answer t =
    (case answer of
       Some v \<Rightarrow> if v = VAL k then t\<lparr>isr_ok := isr_ok t + 1\<rparr> else t\<lparr>isr_bad := isr_bad t + 1\<rparr>
     | None \<Rightarrow> t\<lparr>isr_nf := isr_nf t + 1\<rparr>)"

definition count_time :: "u32 \<Rightarrow> u32 \<Rightarrow> isr_tally \<Rightarrow> isr_tally" where
  "count_time latency d t =
    t\<lparr>isr_n := isr_n t + 1, lat_max := (if latency > lat_max t then latency else lat_max t), lat_sum := lat_sum t + latency,
      dur_max := (if d > dur_max t then d else dur_max t), dur_sum := dur_sum t + d\<rparr>"

definition SysTick_Handler ::
  "isr_mode \<Rightarrow> (u32 \<Rightarrow> sync32_status \<times> u32) \<Rightarrow> (u32 \<Rightarrow> u32 option) \<Rightarrow> u32 \<Rightarrow> u32 \<Rightarrow> u32 \<times> isr_tally \<Rightarrow> u32 \<times> isr_tally" where
  "SysTick_Handler mode try_get map_get syst_cvr d s =
    (if mode = ISR_OFF then s
     else let latency = (ISR_PERIOD - 1) - syst_cvr;
              rng = xorshift (fst s);
              k = rng AND (KEYS - 1);
              t = (if mode = ISR_SYNC32 then count_answer k (try_get k) (snd s) else count_plain k (map_get k) (snd s))
          in (rng, count_time latency d t))"

definition isr_report :: "string \<Rightarrow> u32 \<Rightarrow> string \<Rightarrow> u32 \<Rightarrow> u32 \<Rightarrow> u32 \<Rightarrow> u32 \<Rightarrow> u32 \<Rightarrow> isr_tally \<Rightarrow> string option" where
  "isr_report core sysclk arm period mutations writer_cycles refused arena_full t =
    do { s \<leftarrow> kvs [(''sysclk'', sysclk), (''dcache'', 1), (''period'', period), (''writer_cycles'', writer_cycles), (''mutations'', mutations),
                 (''isr_n'', isr_n t), (''isr_ok'', isr_ok t), (''isr_nf'', isr_nf t), (''isr_busy'', isr_busy t), (''isr_bad'', isr_bad t),
                 (''lat_max'', lat_max t), (''lat_sum'', lat_sum t), (''dur_max'', dur_max t), (''dur_sum'', dur_sum t),
                 (''refused'', refused), (''arena_full'', arena_full)];
         Some (''RESULT name='' @ arm @ ks ''core'' core @ s @ crlf) }"

text \<open>The second core sums cycles in two words.\<close>

record m4_tally =
  m4_counts :: isr_tally
  cyc_max :: u32
  cyc_lo :: u32
  cyc_hi :: u32
  wait_max :: u32
  wait_lo :: u32
  wait_hi :: u32

definition m4_read :: "u32 \<Rightarrow> sync32_status \<times> u32 \<Rightarrow> u32 \<Rightarrow> u32 \<Rightarrow> m4_tally \<Rightarrow> m4_tally" where
  "m4_read k answer d wait t =
    (let c = count_answer k answer (m4_counts t); nlo = cyc_lo t + d; nw = wait_lo t + wait
     in t\<lparr>m4_counts := c\<lparr>isr_n := isr_n c + 1\<rparr>, cyc_max := (if d > cyc_max t then d else cyc_max t),
          cyc_hi := (if nlo < cyc_lo t then cyc_hi t + 1 else cyc_hi t), cyc_lo := nlo,
          wait_max := (if wait > wait_max t then wait else wait_max t),
          wait_hi := (if nw < wait_lo t then wait_hi t + 1 else wait_hi t), wait_lo := nw\<rparr>)"

text \<open>It reads 64 keys between two looks at the sequence word. A look gives the word and what the map and the clock
  answer in the 64 readings that follow.\<close>

fun m4_batch :: "bool \<Rightarrow> (u32 \<Rightarrow> (sync32_status \<times> u32) \<times> u32 \<times> u32) list \<Rightarrow> u32 \<times> m4_tally \<Rightarrow> u32 \<times> m4_tally" where
  "m4_batch locked [] s = s"
| "m4_batch locked (e # es) (rng, t) =
    (let rng' = xorshift rng; k = rng' AND (KEYS - 1); (answer, d, w) = e k
     in m4_batch locked es (rng', m4_read k answer d (if locked then w else 0) t))"

definition m4_start :: m4_tally where
  "m4_start = \<lparr>m4_counts = isr_reset, cyc_max = 0, cyc_lo = 0, cyc_hi = 0, wait_max = 0, wait_lo = 0, wait_hi = 0\<rparr>"

fun m4_serve :: "bool \<Rightarrow> u32 \<Rightarrow> (u32 \<times> (u32 \<Rightarrow> (sync32_status \<times> u32) \<times> u32 \<times> u32) list) list \<Rightarrow> u32 \<times> m4_tally \<Rightarrow> (u32 \<times> m4_tally) option" where
  "m4_serve locked seq [] s = None"
| "m4_serve locked seq ((now, es) # ls) s = (if now = seq then m4_serve locked seq ls (m4_batch locked (take 64 es) s) else Some s)"

definition m4_serve_reader ::
  "bool \<Rightarrow> u32 \<Rightarrow> (u32 \<times> (u32 \<Rightarrow> (sync32_status \<times> u32) \<times> u32 \<times> u32) list) list \<Rightarrow> u32 \<Rightarrow> (u32 \<times> m4_tally) option" where
  "m4_serve_reader locked seq ls rng = m4_serve locked seq ls (rng, m4_start)"

section \<open>What is printed reads back\<close>

definition dec_value :: "string \<Rightarrow> nat" where
  "dec_value s = foldl (\<lambda>a c. 10 * a + (of_char c - 48)) 0 s"

definition hex_digit :: "char \<Rightarrow> nat" where
  "hex_digit c = (if of_char c < (58 :: nat) then of_char c - 48 else of_char c - 87)"

definition hex_value :: "string \<Rightarrow> nat" where
  "hex_value s = foldl (\<lambda>a c. 16 * a + hex_digit c) 0 s"

lemma of_digit_char: "d < 10 \<Longrightarrow> of_char (digit_char d) = 48 + d"
  by (simp add: digit_char_def)

lemma u32_digits_ok:
  "unat v < 10 ^ i \<Longrightarrow> 0 < i \<Longrightarrow> \<exists>s. u32_digits i v acc = Some (s @ acc) \<and> s \<noteq> [] \<and> length s \<le> i \<and> dec_value s = unat v \<and>
    (hd s = digit_char 0 \<longrightarrow> v = 0)"
proof (induction i v acc rule: u32_digits.induct)
  case (1 i v acc)
  have m: "unat (v mod 10) = unat v mod 10" "unat (v div 10) = unat v div 10" by (simp_all add: unat_mod unat_div)
  let ?d = "digit_char (unat v mod 10)"
  have d: "of_char ?d = 48 + unat v mod 10" by (simp add: of_digit_char)
  show ?case
  proof (cases "v div 10 = 0")
    case True
    then have v: "unat v < 10" using m(2) by (metis div_eq_0_iff unat_0 zero_neq_numeral)
    have "hd [?d] = digit_char 0 \<longrightarrow> v = 0"
      using v d of_digit_char [of 0] by (auto simp: unat_eq_zero [symmetric])
    then show ?thesis using 1(3) True v d m(1) by (subst u32_digits.simps) (auto simp: dec_value_def intro!: exI [of _ "[?d]"])
  next
    case False
    then have v: "unat (v div 10) \<noteq> 0" by (simp add: unat_eq_zero)
    have i: "0 < i - 1" "unat (v div 10) < 10 ^ (i - 1)"
    proof -
      obtain j where j: "i = Suc j" using 1(3) by (cases i) auto
      then have b: "unat v div 10 < 10 ^ j" using 1(2) by (simp add: less_mult_imp_div_less mult.commute)
      then show "unat (v div 10) < 10 ^ (i - 1)" using j m(2) by simp
      show "0 < i - 1" using b v m(2) j by (cases j) auto
    qed
    obtain s where s: "u32_digits (i - 1) (v div 10) (digit_char (unat (v mod 10)) # acc) = Some (s @ digit_char (unat (v mod 10)) # acc)"
        "s \<noteq> []" "length s \<le> i - 1" "dec_value s = unat (v div 10)" "hd s = digit_char 0 \<longrightarrow> v div 10 = 0"
      using 1(1) [OF _ refl False] i 1(3) by auto
    have "dec_value (s @ [?d]) = unat v" using s(4) d m(2) by (simp add: dec_value_def)
    moreover have "u32_digits i v acc = Some ((s @ [?d]) @ acc)" using s(1) False 1(3) m(1) by (subst u32_digits.simps) simp
    moreover have "hd (s @ [?d]) = digit_char 0 \<longrightarrow> v = 0" using s(2,5) False by simp
    ultimately show ?thesis using s i(1) by (intro exI [of _ "s @ [?d]"]) auto
  qed
qed

lemma uart_u32_reads_back_aux:
  "\<exists>s. uart_u32 v = Some s \<and> dec_value s = unat v \<and> s \<noteq> [] \<and> length s \<le> 10 \<and> (hd s = digit_char 0 \<longrightarrow> v = 0)"
proof -
  have "unat v < 10 ^ 10" using unsigned_less [of v, where ?'a = nat] by simp
  then show ?thesis using u32_digits_ok [of v 10 "[]"] by (auto simp: uart_u32_def)
qed

text \<open>Every 32-bit value prints without leaving its buffer of ten digits and reads back as itself, with no
  leading zero.\<close>

theorem uart_u32_reads_back:
  "\<exists>s. uart_u32 v = Some s \<and> dec_value s = unat v \<and> s \<noteq> [] \<and> length s \<le> 10 \<and> (hd s \<noteq> digit_char 0 \<or> v = 0)"
  using uart_u32_reads_back_aux [of v] by blast

theorem uart_u32_reads_back_witness:
  "\<exists>s. uart_u32 0xFFFFFFFF = Some s \<and> dec_value s = 4294967295 \<and> s \<noteq> [] \<and> length s \<le> 10 \<and> hd s \<noteq> digit_char 0"
  using uart_u32_reads_back [of "0xFFFFFFFF"] by auto

lemma kvs_total: "\<exists>s. kvs ps = Some s"
proof (induction ps)
  case (Cons p ps)
  then show ?case using uart_u32_reads_back_aux [of "snd p"] by (auto simp: kv_def)
qed simp

lemma hex_digits_value: "n < 16 \<Longrightarrow> hex_digit (hex_digits ! n) = n"
proof -
  assume "n < 16"
  then have "n \<in> set [0..<16]" by simp
  moreover have "\<forall>n\<in>set [0..<16]. hex_digit (hex_digits ! n) = n" by code_simp
  ultimately show ?thesis by blast
qed

lemma uart_hex_reads_back: "take 2 (uart_hex v) = ''0x'' \<and> length (uart_hex v) = 10 \<and> hex_value (drop 2 (uart_hex v)) = unat v"
proof -
  have nib: "unat (drop_bit i v AND 0xF) = unat v div 2 ^ i mod 16" for i
  proof -
    have f: "(0xF :: u32) = mask 4" by (simp add: mask_eq_exp_minus_1)
    have "unat (drop_bit i v) = unat v div 2 ^ i"
      unfolding unsigned_drop_bit_eq using unsigned_less [of v, where ?'a = nat] by (simp add: drop_bit_eq_div take_bit_nat_eq_self)
    then show ?thesis unfolding f take_bit_eq_mask [symmetric] unsigned_take_bit_eq by (simp add: take_bit_eq_mod)
  qed
  have d: "hex_digit (hex_digits ! unat (drop_bit i v AND 0xF)) = unat v div 2 ^ i mod 16" for i
    using hex_digits_value [of "unat (drop_bit i v AND 0xF)"] by (simp add: nib)
  have step: "n div k = 16 * (n div (k * 16)) + n div k mod 16" for n k :: nat by (simp add: div_mult2_eq)
  have "unat v < 2 ^ 32" using unsigned_less [of v, where ?'a = nat] by simp
  then have "unat v div 268435456 mod 16 = unat v div 268435456" by (simp add: less_mult_imp_div_less)
  then have "16 * (16 * (16 * (16 * (16 * (16 * (16 * (unat v div 2 ^ 28 mod 16) + unat v div 2 ^ 24 mod 16) + unat v div 2 ^ 20 mod 16) +
      unat v div 2 ^ 16 mod 16) + unat v div 2 ^ 12 mod 16) + unat v div 2 ^ 8 mod 16) + unat v div 2 ^ 4 mod 16) + unat v div 2 ^ 0 mod 16 = unat v"
    using step [of "unat v" 1] step [of "unat v" 16] step [of "unat v" 256] step [of "unat v" 4096] step [of "unat v" 65536]
      step [of "unat v" 1048576] step [of "unat v" 16777216] by simp
  moreover have "hex_digit (hex_digits ! unat (v AND 0xF)) = unat v mod 16" using d [of 0] by simp
  ultimately show ?thesis by (simp add: uart_hex_def hex_value_def d)
qed

text \<open>The text buffer keeps the first characters that fit, and flags the others.\<close>

lemma m4_puts_prefix:
  assumes "length (shm_text t) \<le> SHM_TEXT_SIZE"
  shows "shm_text (m4_puts s t) = take SHM_TEXT_SIZE (shm_text t @ s) \<and>
    (text_overflow (m4_puts s t) \<longleftrightarrow> text_overflow t \<or> SHM_TEXT_SIZE < length (shm_text t @ s))"
  using assms
proof (induction s arbitrary: t)
  case (Cons c s)
  show ?case
  proof (cases "length (shm_text t) < SHM_TEXT_SIZE")
    case True
    then show ?thesis using Cons.IH [of "t\<lparr>shm_text := shm_text t @ [c]\<rparr>"] by (simp add: m4_puts_def m4_putc_def)
  next
    case False
    then show ?thesis using Cons.IH [of "t\<lparr>text_overflow := True\<rparr>"] Cons.prems by (simp add: m4_puts_def m4_putc_def)
  qed
qed (simp add: m4_puts_def)

section \<open>Bounds\<close>

definition break_ok :: "heap_break \<Rightarrow> bool" where
  "break_ok h \<longleftrightarrow> brk h \<le> heap_end h \<and> brk h \<le> brk_hwm h \<and> brk_hwm h \<le> heap_end h"

lemma sbrk_ok:
  assumes "break_ok h" "sbrk h incr = (r, h')"
  shows "break_ok h'" "r = Some p \<Longrightarrow> p = brk h \<and> brk h' = p + incr \<and> p + incr \<le> heap_end h" "r = None \<Longrightarrow> h' = h"
  using assms by (auto simp: sbrk_def break_ok_def Let_def split: if_splits)

text \<open>A gap is at least half a period and less than one and a half, so the writer keeps its mean rate.\<close>

lemma gap_of_bounds:
  assumes "0 < period" "unat period < 2 ^ 31"
  shows "unat period div 2 \<le> unat (fst (gap_of w period))" "unat (fst (gap_of w period)) < unat period div 2 + unat period"
proof -
  define r where "r = xorshift w"
  have p: "0 < unat period" using assms(1) by (simp add: word_less_nat_alt)
  have "unat (r mod period) < unat period" using p by (simp add: unat_mod)
  moreover have "unat (period div 2 + r mod period) = unat period div 2 + unat (r mod period)"
    using calculation assms(2) unat_word_ariths(1) [of "period div 2" "r mod period"] by (simp add: unat_div)
  ultimately show "unat period div 2 \<le> unat (fst (gap_of w period))" "unat (fst (gap_of w period)) < unat period div 2 + unat period"
    by (simp_all add: gap_of_def Let_def r_def)
qed

lemma and_2047: "unat (x AND 2047 :: u32) = unat x mod 2048"
proof -
  have m: "(2047 :: u32) = mask 11" by (simp add: mask_eq_exp_minus_1)
  show ?thesis unfolding m take_bit_eq_mask [symmetric] unsigned_take_bit_eq by (simp add: take_bit_eq_mod)
qed

text \<open>Two mutations in a row insert a key above the fixed ones and remove it again.\<close>

lemma churn_pair:
  assumes "unat i + 1 < 2 ^ 32" "even (unat i)"
  shows "churn_key (i + 1) = churn_key i \<and> \<not> churn_removes i \<and> churn_removes (i + 1) \<and> KEYS_FIXED \<le> churn_key i \<and> churn_key i < KEYS"
proof -
  have s: "unat (i + 1) = unat i + 1" using assms(1) by (simp add: unat_word_ariths)
  have one: "(x AND 1 = 1) \<longleftrightarrow> odd (unat x)" for x :: u32
    by (simp add: and_one_eq word_unat_eq_iff unat_mod odd_iff_mod_2_eq_one)
  have h: "unat (drop_bit 1 x) = unat x div 2" for x :: u32 by (simp add: drop_bit_eq_div unat_div)
  have d: "drop_bit 1 (i + 1) = drop_bit 1 i" using s assms(2) unfolding word_unat_eq_iff h by simp
  have b: "unat (drop_bit 1 i AND 2047) < 2048" by (simp add: and_2047)
  then have "unat (2048 + (drop_bit 1 i AND 2047)) = 2048 + unat (drop_bit 1 i AND 2047)"
    using unat_word_ariths(1) [of 2048 "drop_bit 1 i AND 2047"] by simp
  then show ?thesis using d assms(2) s b one [of i] one [of "i + 1"]
    by (simp add: churn_key_def churn_removes_def KEYS_FIXED_def KEYS_def word_le_nat_alt word_less_nat_alt)
qed

text \<open>A wait ends once the counter has passed the given number of seconds: the flag that never comes is given up.\<close>

lemma wait_flag_gives_up:
  "length (filter (\<lambda>r. fst r = want) rs) = 0 \<Longrightarrow> wait_flag sysclk want secs t0 elapsed rs \<noteq> Some True"
  by (induction rs arbitrary: t0 elapsed) (auto split: if_splits)

section \<open>The tallies add up\<close>

text \<open>Every reading is counted once, under one of its four outcomes, and what is summed in two words does not wrap
  at the first.\<close>

definition answers :: "isr_tally \<Rightarrow> u32" where
  "answers t = isr_ok t + isr_nf t + isr_busy t + isr_bad t"

lemma count_answer_adds [simp]:
  "answers (count_answer k a t) = answers t + 1" "isr_n (count_answer k a t) = isr_n t"
  by (auto simp: answers_def count_answer_def split: sync32_status.split)

lemma count_plain_adds [simp]:
  "answers (count_plain k a t) = answers t + 1" "isr_n (count_plain k a t) = isr_n t"
  by (auto simp: answers_def count_plain_def split: option.split)

lemma count_time_adds [simp]: "answers (count_time l d t) = answers t" "isr_n (count_time l d t) = isr_n t + 1"
  by (simp_all add: answers_def count_time_def)

lemma count_time_max: "lat_max (count_time l d t) = max (lat_max t) l" "dur_max (count_time l d t) = max (dur_max t) d"
  by (auto simp: count_time_def max_def)

lemma SysTick_Handler_adds:
  assumes "SysTick_Handler mode try_get map_get cvr d (rng, t) = (rng', t')" "answers t = isr_n t"
  shows "answers t' = isr_n t'" "isr_n t' = (if mode = ISR_OFF then isr_n t else isr_n t + 1)"
  using assms by (auto simp: SysTick_Handler_def Let_def split: if_splits)

text \<open>A reading of the map that gives every key its value is never counted as bad.\<close>

lemma SysTick_Handler_good:
  assumes "\<And>k. fst (try_get k) = SYNC32_OK \<Longrightarrow> snd (try_get k) = VAL k" "\<And>k. fst (try_get k) \<noteq> SYNC32_OTHER"
    "\<And>k v. map_get k = Some v \<Longrightarrow> v = VAL k" "SysTick_Handler mode try_get map_get cvr d (rng, t) = (rng', t')"
  shows "isr_bad t' = isr_bad t"
  using assms(4) assms(1-3) [of "xorshift rng AND (KEYS - 1)"]
  by (auto simp: SysTick_Handler_def Let_def count_answer_def count_plain_def count_time_def split: if_splits sync32_status.splits option.splits)

definition two_words :: "u32 \<Rightarrow> u32 \<Rightarrow> nat" where
  "two_words hi lo = unat hi * 2 ^ 32 + unat lo"

lemma carry_exact:
  assumes "two_words hi lo + unat d < 2 ^ 64"
  shows "two_words (if lo + d < lo then hi + 1 else hi) (lo + d) = two_words hi lo + unat d"
proof -
  have b: "unat lo < 2 ^ 32" "unat d < 2 ^ 32" "unat hi < 2 ^ 32"
    using unsigned_less [of lo, where ?'a = nat] unsigned_less [of d, where ?'a = nat] unsigned_less [of hi, where ?'a = nat] by simp_all
  have s: "unat (lo + d) = (unat lo + unat d) mod 2 ^ 32" by (simp add: unat_word_ariths)
  show ?thesis
  proof (cases "unat lo + unat d < 2 ^ 32")
    case True
    then have "unat (lo + d) = unat lo + unat d" using s by simp
    then show ?thesis by (simp add: two_words_def word_less_nat_alt)
  next
    case False
    then have e: "unat (lo + d) = unat lo + unat d - 2 ^ 32" using s b by (simp add: le_mod_geq)
    have "unat hi + 1 < 2 ^ 32" using assms False b by (simp add: two_words_def)
    then have "unat (hi + 1) = unat hi + 1" by (simp add: unat_word_ariths)
    then show ?thesis using e b False by (simp add: two_words_def word_less_nat_alt)
  qed
qed

fun m4_reads :: "(u32 \<times> (sync32_status \<times> u32) \<times> u32 \<times> u32) list \<Rightarrow> m4_tally \<Rightarrow> m4_tally" where
  "m4_reads [] t = t"
| "m4_reads ((k, a, d, w) # rs) t = m4_reads rs (m4_read k a d w t)"

lemma m4_read_counts [simp]:
  "answers (m4_counts (m4_read k a d w t)) = answers (m4_counts t) + 1" "isr_n (m4_counts (m4_read k a d w t)) = isr_n (m4_counts t) + 1"
  using count_answer_adds [of k a "m4_counts t"] by (simp_all add: m4_read_def Let_def answers_def)

lemma m4_read_sums:
  assumes "two_words (cyc_hi t) (cyc_lo t) + unat d < 2 ^ 64" "two_words (wait_hi t) (wait_lo t) + unat w < 2 ^ 64"
  shows "two_words (cyc_hi (m4_read k a d w t)) (cyc_lo (m4_read k a d w t)) = two_words (cyc_hi t) (cyc_lo t) + unat d"
    "two_words (wait_hi (m4_read k a d w t)) (wait_lo (m4_read k a d w t)) = two_words (wait_hi t) (wait_lo t) + unat w"
  using carry_exact [OF assms(1)] carry_exact [OF assms(2)] by (simp_all add: m4_read_def Let_def)

lemma m4_reads_ok:
  assumes "two_words (cyc_hi t) (cyc_lo t) + (\<Sum>(k, a, d, w)\<leftarrow>rs. unat d) < 2 ^ 64"
    "two_words (wait_hi t) (wait_lo t) + (\<Sum>(k, a, d, w)\<leftarrow>rs. unat w) < 2 ^ 64" "answers (m4_counts t) = isr_n (m4_counts t)"
  shows "two_words (cyc_hi (m4_reads rs t)) (cyc_lo (m4_reads rs t)) = two_words (cyc_hi t) (cyc_lo t) + (\<Sum>(k, a, d, w)\<leftarrow>rs. unat d) \<and>
    two_words (wait_hi (m4_reads rs t)) (wait_lo (m4_reads rs t)) = two_words (wait_hi t) (wait_lo t) + (\<Sum>(k, a, d, w)\<leftarrow>rs. unat w) \<and>
    answers (m4_counts (m4_reads rs t)) = isr_n (m4_counts (m4_reads rs t))"
  using assms
proof (induction rs arbitrary: t)
  case (Cons r rs)
  obtain k a d w where r: "r = (k, a, d, w)" by (cases r) auto
  have b: "two_words (cyc_hi t) (cyc_lo t) + unat d < 2 ^ 64" "two_words (wait_hi t) (wait_lo t) + unat w < 2 ^ 64"
    using Cons.prems(1,2) by (simp_all add: r)
  show ?case using Cons.IH [of "m4_read k a d w t"] Cons.prems m4_read_sums [OF b] by (simp add: r add.assoc)
qed simp

lemma m4_reads_append [simp]: "m4_reads (rs @ rs') t = m4_reads rs' (m4_reads rs t)"
  by (induction rs t rule: m4_reads.induct) simp_all

lemma m4_batch_reads: "\<exists>rs. snd (m4_batch locked es s) = m4_reads rs (snd s) \<and> length rs = length es"
proof (induction locked es s rule: m4_batch.induct)
  case (2 locked e es rng t)
  define k where "k = xorshift rng AND (KEYS - 1)"
  obtain a d w where e: "e k = (a, d, w)" by (cases "e k") auto
  obtain rs where "snd (m4_batch locked es (xorshift rng, m4_read k a d (if locked then w else 0) t)) =
      m4_reads rs (m4_read k a d (if locked then w else 0) t)" "length rs = length es"
    using 2 [OF refl refl, of "(a, d, w)" a "(d, w)" d w] e unfolding k_def [symmetric] by auto
  then show ?case using e by (intro exI [of _ "(k, a, d, if locked then w else 0) # rs"]) (simp add: Let_def k_def [symmetric])
qed (simp add: exI [of _ "[]"])

lemma m4_serve_reads:
  assumes "m4_serve locked seq ls s = Some s'" "\<forall>l\<in>set ls. length (snd l) = 64"
  shows "\<exists>rs. snd s' = m4_reads rs (snd s) \<and> 64 dvd length rs"
  using assms
proof (induction locked seq ls s rule: m4_serve.induct)
  case (2 locked seq now es ls s)
  show ?case
  proof (cases "now = seq")
    case True
    obtain rs where rs: "snd (m4_batch locked es s) = m4_reads rs (snd s)" "length rs = 64" using m4_batch_reads [of locked es s] 2(3) by auto
    have "\<exists>rs'. snd s' = m4_reads rs' (snd (m4_batch locked (take 64 es) s)) \<and> 64 dvd length rs'"
      by (rule 2(1) [OF True]) (use 2(2,3) True in simp_all)
    then obtain rs' where "snd s' = m4_reads rs' (snd (m4_batch locked es s))" "64 dvd length rs'" using 2(3) by auto
    then show ?thesis using rs by (intro exI [of _ "rs @ rs'"]) simp
  qed (use 2(2) in \<open>auto intro: exI [of _ "[]"]\<close>)
qed simp

text \<open>After any readings by the second core whose cycles fit 64 bits, the two words of each sum hold it exactly, and
  the four outcomes add up to the number of readings.\<close>

theorem m4_sums_exact:
  assumes "(\<Sum>(k, a, d, w)\<leftarrow>rs. unat d) < 2 ^ 64" "(\<Sum>(k, a, d, w)\<leftarrow>rs. unat w) < 2 ^ 64"
  defines "t \<equiv> m4_reads rs m4_start"
  shows "unat (cyc_hi t) * 2 ^ 32 + unat (cyc_lo t) = (\<Sum>(k, a, d, w)\<leftarrow>rs. unat d) \<and>
    unat (wait_hi t) * 2 ^ 32 + unat (wait_lo t) = (\<Sum>(k, a, d, w)\<leftarrow>rs. unat w) \<and>
    isr_ok (m4_counts t) + isr_nf (m4_counts t) + isr_busy (m4_counts t) + isr_bad (m4_counts t) = isr_n (m4_counts t)"
proof -
  have z: "two_words (cyc_hi m4_start) (cyc_lo m4_start) = 0" "two_words (wait_hi m4_start) (wait_lo m4_start) = 0"
      "answers (m4_counts m4_start) = isr_n (m4_counts m4_start)"
    by (simp_all add: m4_start_def two_words_def answers_def isr_reset_def)
  show ?thesis using m4_reads_ok [of m4_start rs] assms(1,2) z by (simp add: t_def two_words_def answers_def)
qed

theorem m4_sums_exact_witness:
  "(let rs = [(1, (SYNC32_OK, VAL 1), 0xFFFFFFFF, 5), (2, (SYNC32_BUSY, 0), 3, 0xFFFFFFFE), (3, (SYNC32_OK, 7), 9, 8)]; t = m4_reads rs m4_start
    in unat (cyc_hi t) * 2 ^ 32 + unat (cyc_lo t) = 0x10000000B \<and> cyc_hi t = 1 \<and> isr_bad (m4_counts t) = 1)"
proof -
  let ?rs = "[(1, (SYNC32_OK, VAL 1), 0xFFFFFFFF, 5), (2, (SYNC32_BUSY, 0), 3, 0xFFFFFFFE), (3, (SYNC32_OK, 7), 9, 8)]
    :: (u32 \<times> (sync32_status \<times> u32) \<times> u32 \<times> u32) list"
  have "unat (cyc_hi (m4_reads ?rs m4_start)) * 2 ^ 32 + unat (cyc_lo (m4_reads ?rs m4_start)) = (\<Sum>(k, a, d, w)\<leftarrow>?rs. unat d)"
    using m4_sums_exact [of ?rs] by simp
  moreover have "(\<Sum>(k, a, d, w)\<leftarrow>?rs. unat d) = 0x10000000B" by simp
  moreover have "cyc_hi (m4_reads ?rs m4_start) = 1 \<and> isr_bad (m4_counts (m4_reads ?rs m4_start)) = 1" by code_simp
  ultimately show ?thesis unfolding Let_def by simp
qed

section \<open>Profiling\<close>

text \<open>An eight-bit counter that advanced by less than 256 during an operation is read exactly, whatever wraps.\<close>

lemma delta8_exact:
  assumes "n < 256" "b ! i = (a ! i + n) AND 0xFF"
  shows "delta8 a b i = n"
proof -
  have m: "uint (x AND 0xFF :: u32) = uint x mod 256" for x
  proof -
    have f: "(0xFF :: u32) = mask 8" by (simp add: mask_eq_exp_minus_1)
    show ?thesis unfolding f take_bit_eq_mask [symmetric] unsigned_take_bit_eq by (simp add: take_bit_eq_mod)
  qed
  have "uint (delta8 a b i) = (uint (b ! i) - uint (a ! i)) mod 256"
    by (simp add: delta8_def m uint_word_ariths mod_mod_cancel)
  also have "\<dots> = uint n mod 256" by (simp add: assms(2) m uint_word_ariths mod_mod_cancel mod_diff_left_eq)
  also have "\<dots> = uint n" using assms(1) by (simp add: word_less_def)
  finally show ?thesis by (simp add: word_uint_eq_iff)
qed

end
