(* ===== verification/Harness_Fixtures.thy ===== *)
theory Harness_Fixtures
  imports Alts Harness_Core Ble_Tracker_Correct
begin

text \<open>
  The fixtures of the firmware harness (\<^verbatim>\<open>integrations/stm32h747/main.c\<close>): each runs one code path over the vtable
  of an implementation and prints a line \<^verbatim>\<open>CHECK\<close> when the implementation gave a wrong answer. The elapsed cycles
  and the bytes in use, which the fixtures measure, are left out; readings of the profiling counters are
  arguments. An undefined access or a loop that does not end is the value \<^term>\<open>None\<close>.
\<close>

section \<open>The vtable\<close>

text \<open>A callback of \<^verbatim>\<open>remove_range\<close> works on another table, which it may leave undefined.\<close>

record 'm alt_ops =
  ao_name :: string
  ao_ordered :: bool
  ao_create :: "nat \<Rightarrow> 'm"
  ao_insert :: "'m \<Rightarrow> u32 \<Rightarrow> u32 \<Rightarrow> 'm option"
  ao_get :: "'m \<Rightarrow> u32 \<Rightarrow> u32 option option"
  ao_first :: "'m \<Rightarrow> (u32 \<times> u32) option option"
  ao_remove :: "'m \<Rightarrow> u32 \<Rightarrow> 'm option"
  ao_remove_range :: "'m \<Rightarrow> u32 \<Rightarrow> u32 \<Rightarrow> (u32 \<Rightarrow> u32 \<Rightarrow> 'm option \<Rightarrow> 'm option) \<Rightarrow> 'm option \<Rightarrow> ('m \<times> 'm option \<times> nat) option"
  ao_evict_scan :: "'m \<Rightarrow> (u32 \<Rightarrow> u32 \<Rightarrow> unit \<Rightarrow> bool \<times> unit) \<Rightarrow> unit \<Rightarrow> ('m \<times> unit \<times> nat) option"

text \<open>The content of fresh memory is given by \<open>u\<close>. The null entries of a vtable are undefined when called.\<close>

definition alt_expanse :: "expanse_map_t alt_ops" where
  "alt_expanse = \<lparr>ao_name = ''expanse'', ao_ordered = True, ao_create = ex_create, ao_insert = ex_insert, ao_get = ex_get,
    ao_first = ex_first, ao_remove = ex_remove, ao_remove_range = ex_remove_range, ao_evict_scan = (\<lambda>m f c. None)\<rparr>"

definition alt_sorted_array :: "(nat \<Rightarrow> u32 list) \<Rightarrow> sarr alt_ops" where
  "alt_sorted_array u = \<lparr>ao_name = ''sorted_array'', ao_ordered = True, ao_create = (\<lambda>cap. sa_create (u cap) (u cap) cap),
    ao_insert = sa_insert, ao_get = sa_get, ao_first = sa_first, ao_remove = sa_remove, ao_remove_range = sa_remove_range,
    ao_evict_scan = (\<lambda>m f c. None)\<rparr>"

definition alt_open_hash :: "(nat \<Rightarrow> u32 list) \<Rightarrow> ohash alt_ops" where
  "alt_open_hash u = \<lparr>ao_name = ''open_hash'', ao_ordered = False, ao_create = (\<lambda>cap. oh_create (u (oh_size 16 cap)) cap),
    ao_insert = oh_insert, ao_get = oh_get, ao_first = (\<lambda>m. None), ao_remove = oh_remove,
    ao_remove_range = (\<lambda>m lo hi f c. None), ao_evict_scan = oh_evict_scan\<rparr>"

definition alt_tsearch :: "tmap alt_ops" where
  "alt_tsearch = \<lparr>ao_name = ''tsearch'', ao_ordered = True, ao_create = t_create, ao_insert = (\<lambda>t k v. Some (t_insert t k v)),
    ao_get = (\<lambda>t k. Some (t_get t k)), ao_first = (\<lambda>t. Some (t_first t)), ao_remove = (\<lambda>t k. Some (t_remove t k)),
    ao_remove_range = t_remove_range, ao_evict_scan = (\<lambda>m f c. None)\<rparr>"

section \<open>Ingest and dispatch\<close>

definition N_INGEST :: nat where "N_INGEST = 2000"
definition N_CAN :: nat where "N_CAN = 500"
definition N_BLE :: nat where "N_BLE = 2000"
definition PASSES :: nat where "PASSES = 5"

text \<open>What a fixture prints besides its measurements.\<close>

type_synonym checks = "string list"

definition check :: "bool \<Rightarrow> string \<Rightarrow> checks" where
  "check bad line = (if bad then [line] else [])"

definition ingest_key :: "nat \<Rightarrow> u32" where
  "ingest_key i = 1700000000 + of_nat i"

definition fx_ingest :: "'m alt_ops \<Rightarrow> checks option" where
  "fx_ingest ops =
    do { m \<leftarrow> for_loop [0..<N_INGEST] (\<lambda>i m. ao_insert ops m (ingest_key i) 42) (ao_create ops N_INGEST);
         a \<leftarrow> ao_get ops m (1700000000 + of_nat N_INGEST - 1);
         if a \<noteq> Some 42 then Some [''CHECK ingest'']
         else do { b \<leftarrow> ao_get ops m 1700000000; Some (check (b = None) ''CHECK ingest'') } }"

definition can_keys :: "nat \<Rightarrow> u32" where
  "can_keys i = (of_nat i * 100007) AND 0x1FFFFFFF"

text \<open>The table of the dispatch fixture, built once per implementation.\<close>

definition can_table :: "'m alt_ops \<Rightarrow> 'm option" where
  "can_table ops = for_loop [0..<N_CAN] (\<lambda>i m. ao_insert ops m (can_keys i) (of_nat i)) (ao_create ops N_CAN)"

definition fx_can :: "'m alt_ops \<Rightarrow> 'm \<Rightarrow> checks option" where
  "fx_can ops m =
    do { sum \<leftarrow> for_loop [0..<N_CAN] (\<lambda>i sum. do { v \<leftarrow> ao_get ops m (can_keys i);
           Some (case v of Some v \<Rightarrow> sum + v | None \<Rightarrow> sum) }) (0 :: u32);
         Some (check (sum \<noteq> (of_nat N_CAN * (of_nat N_CAN - 1)) div 2) ''CHECK can sum'') }"

text \<open>The same loops with the counters read around each operation: \<open>snaps i\<close> are the readings before and after the
  \<open>i\<close>-th.\<close>

definition prof_zero :: dwt_prof where
  "prof_zero = \<lparr>dp_cycles = 0, dp_cpi = 0, dp_exc = 0, dp_sleep = 0, dp_lsu = 0, dp_fold = 0, cpi_max = 0, lsu_max = 0, suspect = 0\<rparr>"

definition fx_can_dwt :: "'m alt_ops \<Rightarrow> (nat \<Rightarrow> u32 list \<times> u32 list) \<Rightarrow> 'm \<Rightarrow> (dwt_prof \<times> checks) option" where
  "fx_can_dwt ops snaps m =
    do { (p, sum) \<leftarrow> for_loop [0..<N_CAN] (\<lambda>i (p, sum). do { v \<leftarrow> ao_get ops m (can_keys i);
           Some (dwt_acc p (fst (snaps i)) (snd (snaps i)), case v of Some v \<Rightarrow> sum + v | None \<Rightarrow> sum) }) (prof_zero, 0 :: u32);
         Some (p, check (sum \<noteq> (of_nat N_CAN * (of_nat N_CAN - 1)) div 2) ''CHECK can sum (dwt)'') }"

definition fx_ingest_dwt :: "'m alt_ops \<Rightarrow> (nat \<Rightarrow> u32 list \<times> u32 list) \<Rightarrow> (dwt_prof \<times> checks) option" where
  "fx_ingest_dwt ops snaps =
    do { (m, p) \<leftarrow> for_loop [0..<N_INGEST] (\<lambda>i (m, p). do { m' \<leftarrow> ao_insert ops m (ingest_key i) 42;
           Some (m', dwt_acc p (fst (snaps i)) (snd (snaps i))) }) (ao_create ops N_INGEST, prof_zero);
         a \<leftarrow> ao_get ops m (1700000000 + of_nat N_INGEST - 1);
         Some (p, check (a \<noteq> Some 42) ''CHECK ingest (dwt)'') }"

definition fx_nop_dwt :: "(nat \<Rightarrow> u32 list \<times> u32 list) \<Rightarrow> dwt_prof" where
  "fx_nop_dwt snaps = fold (\<lambda>i p. dwt_acc p (fst (snaps i)) (snd (snaps i))) [0..<N_CAN] prof_zero"

section \<open>Eviction\<close>

definition fnv1a :: "u8 list \<Rightarrow> nat \<Rightarrow> u32" where
  "fnv1a d n = fold (\<lambda>b h. (h XOR ucast b) * 16777619) (take n d) 2166136261"

definition mac_of :: "u32 \<Rightarrow> u8 list" where
  "mac_of i = [0x00, 0x1A, 0x2B, ucast (drop_bit 16 i), ucast (drop_bit 8 i), ucast i]"

definition macs :: "u8 list list" where
  "macs = map (\<lambda>i. mac_of (of_nat i)) [0..<N_BLE]"

definition seen_bulk :: "u32 \<Rightarrow> u32" where
  "seen_bulk i = i * 10"

definition seen_steady :: "u32 \<Rightarrow> u32" where
  "seen_steady i = (if i < 25 then i * 10 else 10000 + i)"

text \<open>The hash of the address of a device by its index.\<close>

definition mac_hash :: "nat \<Rightarrow> u32 option" where
  "mac_hash i = do { m \<leftarrow> rd macs i; Some (fnv1a m 6) }"

definition ble_time_key :: "(u32 \<Rightarrow> u32) \<Rightarrow> nat \<Rightarrow> u32" where
  "ble_time_key seen_at i = push_bit 13 (seen_at (of_nat i) div 1000) OR (of_nat i AND 0x1FFF)"

definition ble_build :: "'m alt_ops \<Rightarrow> (u32 \<Rightarrow> u32) \<Rightarrow> ('m \<times> 'm option) option" where
  "ble_build ops seen_at =
    for_loop [0..<N_BLE] (\<lambda>i (bm, bt).
      do { h \<leftarrow> mac_hash i;
           bm1 \<leftarrow> ao_insert ops bm h (of_nat i);
           case bt of
             None \<Rightarrow> Some (bm1, None)
           | Some bt2 \<Rightarrow> do { bt3 \<leftarrow> ao_insert ops bt2 (ble_time_key seen_at i) (of_nat i); Some (bm1, Some bt3) } })
      (ao_create ops N_BLE, if ao_ordered ops then Some (ao_create ops N_BLE) else None)"

definition evict_cb :: "'m alt_ops \<Rightarrow> u32 \<Rightarrow> u32 \<Rightarrow> 'm option \<Rightarrow> 'm option" where
  "evict_cb ops tk idx bm = do { m \<leftarrow> bm; h \<leftarrow> mac_hash (unat idx); ao_remove ops m h }"

definition expired_cb :: "(u32 \<Rightarrow> u32) \<Rightarrow> u32 \<Rightarrow> u32 \<Rightarrow> unit \<Rightarrow> bool \<times> unit" where
  "expired_cb seen_at k idx c = (seen_at idx < 6000, ())"

datatype evict_mode = EV_LOOP | EV_RANGE | EV_SCAN

definition max_tk :: u32 where
  "max_tk = push_bit 13 5 OR 0x1FFF"

partial_function (option) evict_loop :: "'m alt_ops \<Rightarrow> 'm \<Rightarrow> 'm \<Rightarrow> nat \<Rightarrow> ('m \<times> 'm \<times> nat) option" where
  "evict_loop ops bm bt evicted =
    do { f \<leftarrow> ao_first ops bt;
         case f of
           None \<Rightarrow> Some (bm, bt, evicted)
         | Some e \<Rightarrow>
             if fst e > max_tk then Some (bm, bt, evicted)
             else do { bt2 \<leftarrow> ao_remove ops bt (fst e);
                       h \<leftarrow> mac_hash (unat (snd e));
                       bm2 \<leftarrow> ao_remove ops bm h;
                       evict_loop ops bm2 bt2 (evicted + 1) } }"

definition evict_by :: "'m alt_ops \<Rightarrow> (u32 \<Rightarrow> u32) \<Rightarrow> evict_mode \<Rightarrow> 'm \<Rightarrow> 'm option \<Rightarrow> ('m \<times> nat) option" where
  "evict_by ops seen_at mode bm bt =
    (case mode of
       EV_SCAN \<Rightarrow> do { (m, c, n) \<leftarrow> ao_evict_scan ops bm (expired_cb seen_at) (); Some (m, n) }
     | EV_RANGE \<Rightarrow> do { bt2 \<leftarrow> bt; (bt3, bm2, n) \<leftarrow> ao_remove_range ops bt2 0 max_tk (evict_cb ops) (Some bm); m \<leftarrow> bm2; Some (m, n) }
     | EV_LOOP \<Rightarrow> do { bt2 \<leftarrow> bt; (m, bt3, n) \<leftarrow> evict_loop ops bm bt2 0; Some (m, n) })"

definition fx_evict :: "'m alt_ops \<Rightarrow> (u32 \<Rightarrow> u32) \<Rightarrow> evict_mode \<Rightarrow> (u32 \<times> checks) option" where
  "fx_evict ops seen_at mode =
    do { (bm, bt) \<leftarrow> ble_build ops seen_at;
         (m, n) \<leftarrow> evict_by ops seen_at mode bm bt;
         h \<leftarrow> mac_hash (N_BLE - 1);
         a \<leftarrow> ao_get ops m h;
         h0 \<leftarrow> mac_hash 0;
         b \<leftarrow> ao_get ops m h0;
         Some (of_nat n, check (a \<noteq> Some (of_nat N_BLE - 1)) ''CHECK evict survivor'' @ check (b \<noteq> None) ''CHECK evict expired still present'') }"

section \<open>A run over one implementation\<close>

text \<open>The lines a run prints: measurements by fixture, implementation, pass and number of operations, profiles, sizes,
  and checks.\<close>

datatype line = Result string string nat u32 | Dwt string string nat dwt_prof u32 | Bytes string string u32 | Check string

definition passes :: "(nat \<Rightarrow> line list option) \<Rightarrow> line list option" where
  "passes f = for_loop [0..<PASSES] (\<lambda>p out. do { l \<leftarrow> f p; Some (out @ l) }) []"

definition run_ingest :: "'m alt_ops \<Rightarrow> line list option" where
  "run_ingest ops = passes (\<lambda>p. do { c \<leftarrow> fx_ingest ops; Some (map Check c @ [Result ''ingest'' (ao_name ops) p (of_nat N_INGEST)]) })"

definition run_can :: "'m alt_ops \<Rightarrow> 'm \<Rightarrow> line list option" where
  "run_can ops can = passes (\<lambda>p. do { c \<leftarrow> fx_can ops can; Some (map Check c @ [Result ''can_dispatch'' (ao_name ops) p (of_nat N_CAN)]) })"

definition run_evict :: "'m alt_ops \<Rightarrow> string \<Rightarrow> (u32 \<Rightarrow> u32) \<Rightarrow> evict_mode \<Rightarrow> line list option" where
  "run_evict ops name seen_at mode =
    passes (\<lambda>p. do { (ev, c) \<leftarrow> fx_evict ops seen_at mode; Some (map Check c @ [Result name (ao_name ops) p ev]) })"

definition run_dwt :: "bool \<Rightarrow> (nat \<Rightarrow> (dwt_prof \<times> checks) option) \<Rightarrow> string \<Rightarrow> string \<Rightarrow> nat \<Rightarrow> line list option" where
  "run_dwt dwt_prf f fixture impl n =
    (if dwt_prf then passes (\<lambda>p. do { (prof, c) \<leftarrow> f p; Some (map Check c @ [Dwt fixture impl p prof (of_nat n)]) }) else Some [])"

text \<open>\<open>snaps\<close> gives the counter readings of a fixture, by its number, pass and operation.\<close>

definition run_impl :: "'m alt_ops \<Rightarrow> bool \<Rightarrow> (nat \<Rightarrow> nat \<Rightarrow> nat \<Rightarrow> u32 list \<times> u32 list) \<Rightarrow> bool \<Rightarrow> line list option" where
  "run_impl ops dwt_prf snaps report_bytes =
    do { a \<leftarrow> run_ingest ops;
         b \<leftarrow> run_dwt dwt_prf (\<lambda>p. fx_ingest_dwt ops (snaps 1 p)) ''ingest'' (ao_name ops) N_INGEST;
         can \<leftarrow> can_table ops;
         c \<leftarrow> run_can ops can;
         d \<leftarrow> run_dwt dwt_prf (\<lambda>p. fx_can_dwt ops (snaps 2 p) can) ''can_dispatch'' (ao_name ops) N_CAN;
         t \<leftarrow> (if report_bytes then do { t \<leftarrow> ble_build ops seen_bulk; Some [Bytes (ao_name ops) ''ble_index'' (of_nat N_BLE)] } else Some []);
         e \<leftarrow> (if ao_ordered ops
               then do { e1 \<leftarrow> run_evict ops ''evict_bulk_loop'' seen_bulk EV_LOOP;
                         e2 \<leftarrow> run_evict ops ''evict_bulk_range'' seen_bulk EV_RANGE;
                         e3 \<leftarrow> run_evict ops ''evict_steady_loop'' seen_steady EV_LOOP;
                         e4 \<leftarrow> run_evict ops ''evict_steady_range'' seen_steady EV_RANGE;
                         Some (e1 @ e2 @ e3 @ e4) }
               else do { e1 \<leftarrow> run_evict ops ''evict_bulk_scan'' seen_bulk EV_SCAN;
                         e2 \<leftarrow> run_evict ops ''evict_steady_scan'' seen_steady EV_SCAN;
                         Some (e1 @ e2) });
         Some (a @ b @ (if report_bytes then [Bytes (ao_name ops) ''ingest'' (of_nat N_INGEST)] else []) @ c @ d @ t @ e) }"

definition run_nop :: "bool \<Rightarrow> (nat \<Rightarrow> nat \<Rightarrow> nat \<Rightarrow> u32 list \<times> u32 list) \<Rightarrow> line list option" where
  "run_nop dwt_prf snaps = run_dwt dwt_prf (\<lambda>p. Some (fx_nop_dwt (snaps 0 p), [])) ''nop'' ''none'' N_CAN"

text \<open>The four implementations in the order of the table \<^verbatim>\<open>impls\<close>.\<close>

definition run_fixtures :: "(nat \<Rightarrow> u32 list) \<Rightarrow> bool \<Rightarrow> (nat \<Rightarrow> nat \<Rightarrow> nat \<Rightarrow> nat \<Rightarrow> u32 list \<times> u32 list) \<Rightarrow> bool \<Rightarrow> line list option" where
  "run_fixtures u dwt_prf snaps report_bytes =
    do { z \<leftarrow> run_nop dwt_prf (snaps 0);
         a \<leftarrow> run_impl alt_expanse dwt_prf (snaps 1) report_bytes;
         b \<leftarrow> run_impl (alt_sorted_array u) dwt_prf (snaps 2) report_bytes;
         c \<leftarrow> run_impl (alt_open_hash u) dwt_prf (snaps 3) report_bytes;
         d \<leftarrow> run_impl alt_tsearch dwt_prf (snaps 4) report_bytes;
         Some (z @ a @ b @ c @ d) }"

end
