(* ===== verification/Harness_Keys.thy ===== *)
theory Harness_Keys
  imports Harness_Fixtures
begin

text \<open>
  The keys of the fixtures: they are distinct and none is a marker of the open-addressing table. The hashes of the
  2000 addresses, which differ in their last two bytes only, are shown distinct by undoing the last multiplication.
\<close>

section \<open>Addresses and their hashes\<close>

definition fnv_inv :: u32 where
  "fnv_inv = 899433627"

definition mac_prefix_hash :: u32 where
  "mac_prefix_hash = fnv1a [0x00, 0x1A, 0x2B, 0x00] 4"

definition mac_hash4 :: "nat \<Rightarrow> u32" where
  "mac_hash4 j = (mac_prefix_hash XOR of_nat j) * 16777619"

definition mac_key :: "nat \<Rightarrow> u32" where
  "mac_key i = (mac_hash4 (i div 256) XOR of_nat (i mod 256)) * 16777619"

lemma ucast8_of_nat: "ucast (of_nat i :: u32) = (of_nat i :: u8)"
  by (simp add: word_unat_eq_iff unsigned_ucast_eq unat_of_nat take_bit_eq_mod mod_mod_cancel)

lemma ucast_byte: "(ucast (of_nat i :: u8) :: u32) = of_nat (i mod 256)"
  by (simp add: word_unat_eq_iff unsigned_ucast_eq unat_of_nat take_bit_eq_mod)

lemma drop_of_nat:
  assumes "i < 2 ^ 16"
  shows "drop_bit 8 (of_nat i :: u32) = of_nat (i div 256)" "drop_bit 16 (of_nat i :: u32) = 0"
  using assms by (simp_all add: drop_bit_eq_div word_unat_eq_iff unat_div unat_of_nat)

lemma mac_hash_ok:
  assumes "i < N_BLE"
  shows "mac_hash i = Some (mac_key i)"
proof -
  have i: "i < 2000" using assms by (simp add: N_BLE_def)
  then have m: "mac_of (of_nat i) = [0x00, 0x1A, 0x2B, 0x00, of_nat (i div 256), of_nat i]"
    by (simp add: mac_of_def drop_of_nat ucast8_of_nat)
  have "fnv1a (mac_of (of_nat i)) 6 = mac_key i"
    unfolding m using i by (simp add: fnv1a_def mac_key_def mac_hash4_def mac_prefix_hash_def ucast_byte)
  then show ?thesis using assms by (simp add: mac_hash_def macs_def rd_def)
qed

lemma fnv_cancel: "x * 16777619 * fnv_inv = x"
proof -
  have "16777619 * fnv_inv = 1" by (simp add: fnv_inv_def)
  then show ?thesis by (simp add: mult.assoc)
qed

lemma drop_xor_byte: "b < 256 \<Longrightarrow> drop_bit 8 (a XOR of_nat b :: u32) = drop_bit 8 a"
proof -
  assume b: "b < 256"
  have "drop_bit 8 (of_nat b :: u32) = 0" using drop_of_nat(1) [of b] b by simp
  then show ?thesis by (simp only: drop_bit_xor) simp
qed

lemma mac_key_undo: "drop_bit 8 (mac_key i * fnv_inv) = drop_bit 8 (mac_hash4 (i div 256))"
  unfolding mac_key_def fnv_cancel by (rule drop_xor_byte) simp

lemma mac_hash4_distinct:
  "distinct (map (\<lambda>j. drop_bit 8 (mac_hash4 j)) [0..<8]) \<and> drop_bit 8 (0xFFFFFFFF * fnv_inv) \<notin> set (map (\<lambda>j. drop_bit 8 (mac_hash4 j)) [0..<8]) \<and>
   drop_bit 8 (0xFFFFFFFE * fnv_inv) \<notin> set (map (\<lambda>j. drop_bit 8 (mac_hash4 j)) [0..<8])"
  by code_simp

lemma mac_key_inj: "inj_on mac_key {..<N_BLE}"
proof (rule inj_onI)
  fix i j
  assume "i \<in> {..<N_BLE}" "j \<in> {..<N_BLE}" and e: "mac_key i = mac_key j"
  then have ij: "i < 2000" "j < 2000" by (simp_all add: N_BLE_def)
  then have "i div 256 < 8" "j div 256 < 8" by auto
  moreover have "drop_bit 8 (mac_hash4 (i div 256)) = drop_bit 8 (mac_hash4 (j div 256))"
    using mac_key_undo [of i] mac_key_undo [of j] e by simp
  ultimately have q: "i div 256 = j div 256"
    using mac_hash4_distinct by (auto simp: distinct_map inj_on_def)
  have "mac_key i * fnv_inv = mac_key j * fnv_inv" using e by simp
  then have "mac_hash4 (j div 256) XOR of_nat (i mod 256) = mac_hash4 (j div 256) XOR of_nat (j mod 256)"
    unfolding mac_key_def fnv_cancel q .
  then have "mac_hash4 (j div 256) XOR (mac_hash4 (j div 256) XOR of_nat (i mod 256)) = mac_hash4 (j div 256) XOR (mac_hash4 (j div 256) XOR of_nat (j mod 256))"
    by (rule arg_cong)
  then have "(of_nat (i mod 256) :: u32) = of_nat (j mod 256)" by (simp flip: xor.assoc)
  then have "unat (of_nat (i mod 256) :: u32) = unat (of_nat (j mod 256) :: u32)" by simp
  then have "i mod 256 = j mod 256" by (simp add: unat_of_nat)
  then show "i = j" using q by (metis div_mult_mod_eq)
qed

lemma mac_key_plain:
  assumes "i < N_BLE"
  shows "mac_key i \<noteq> 0xFFFFFFFF" "mac_key i \<noteq> 0xFFFFFFFE"
proof -
  have "i div 256 < 8" using assms by (simp add: N_BLE_def)
  then have "drop_bit 8 (mac_key i * fnv_inv) \<in> set (map (\<lambda>j. drop_bit 8 (mac_hash4 j)) [0..<8])"
    unfolding mac_key_undo by simp
  then show "mac_key i \<noteq> 0xFFFFFFFF" "mac_key i \<noteq> 0xFFFFFFFE" using mac_hash4_distinct by fastforce+
qed

section \<open>The other keys\<close>

lemma ingest_keys: "i < N_INGEST \<Longrightarrow> unat (ingest_key i) = 1700000000 + i"
  by (simp add: ingest_key_def N_INGEST_def unat_word_ariths unat_of_nat)

lemma can_keys_value: "i < N_CAN \<Longrightarrow> unat (can_keys i) = i * 100007"
proof -
  assume "i < N_CAN"
  then have i: "i * 100007 < 2 ^ 29" by (simp add: N_CAN_def)
  have m: "(0x1FFFFFFF :: u32) = mask 29" by (simp add: mask_eq_exp_minus_1)
  have "unat (of_nat i * 100007 :: u32) = i * 100007" using i by (simp add: unat_word_ariths unat_of_nat mod_mult_left_eq)
  then show ?thesis unfolding can_keys_def m take_bit_eq_mask [symmetric] unsigned_take_bit_eq using i
    by (simp add: take_bit_nat_eq_self del: of_nat_mult)
qed

text \<open>A sighting function under which the devices fit their time keys.\<close>

definition seen_ok :: "(u32 \<Rightarrow> u32) \<Rightarrow> bool" where
  "seen_ok seen_at \<longleftrightarrow> (\<forall>i < N_BLE. seen_at (of_nat i) < 524288000)"

lemma seen_fns_ok: "seen_ok seen_bulk" "seen_ok seen_steady"
  by (auto simp: seen_ok_def seen_bulk_def seen_steady_def N_BLE_def word_less_nat_alt unat_word_ariths unat_of_nat)

lemma time_key_value:
  assumes "seen_ok seen_at" "i < N_BLE"
  shows "unat (ble_time_key seen_at i) = unat (seen_at (of_nat i)) div 1000 * 8192 + i"
proof -
  have i: "i < 8192" using assms(2) by (simp add: N_BLE_def)
  have s: "unat (seen_at (of_nat i)) < 524288000" using assms by (simp add: seen_ok_def word_less_nat_alt)
  have f: "(0x1FFF :: u32) = mask 13" by (simp add: mask_eq_exp_minus_1)
  have c: "(of_nat i AND 0x1FFF :: u32) = of_nat i"
    unfolding f take_bit_eq_mask [symmetric] using i by (simp add: word_unat_eq_iff unsigned_take_bit_eq unat_of_nat take_bit_eq_mod unat_mod)
  have r: "unat (seen_at (of_nat i) div 1000) = unat (seen_at (of_nat i)) div 1000" by (simp add: unat_div)
  show ?thesis unfolding ble_time_key_def c using unat_time_word [of "seen_at (of_nat i) div 1000" "of_nat i"] i s r
    by (simp add: unat_of_nat)
qed

lemma max_tk_value: "unat max_tk = 49151"
  by (simp add: max_tk_def)

lemma fixture_time_stale:
  assumes "seen_ok seen_at" "i < N_BLE"
  shows "ble_time_key seen_at i \<le> max_tk \<longleftrightarrow> seen_at (of_nat i) < 6000"
proof -
  have "i < 8192" using assms(2) by (simp add: N_BLE_def)
  moreover have "unat (seen_at (of_nat i)) div 1000 < 6 \<longleftrightarrow> unat (seen_at (of_nat i)) < 6000" by (simp add: div_less_iff_less_mult)
  ultimately have "unat (seen_at (of_nat i)) div 1000 * 8192 + i \<le> 49151 \<longleftrightarrow> unat (seen_at (of_nat i)) < 6000" by linarith
  then show ?thesis unfolding word_le_nat_alt word_less_nat_alt time_key_value [OF assms] max_tk_value by simp
qed

lemma fixture_time_inj:
  assumes "seen_ok seen_at"
  shows "inj_on (ble_time_key seen_at) {..<N_BLE}"
proof (rule inj_onI)
  fix i j
  assume ij: "i \<in> {..<N_BLE}" "j \<in> {..<N_BLE}" and e: "ble_time_key seen_at i = ble_time_key seen_at j"
  have "i < 8192" "j < 8192" using ij by (simp_all add: N_BLE_def)
  moreover have "unat (seen_at (of_nat i)) div 1000 * 8192 + i = unat (seen_at (of_nat j)) div 1000 * 8192 + j"
    using time_key_value [OF assms, of i] time_key_value [OF assms, of j] ij e by simp
  ultimately show "i = j" by (metis mod_less mod_mult_self3)
qed

lemma fixture_keys_inj: "inj_on ingest_key {..<N_INGEST}" "inj_on can_keys {..<N_CAN}"
  using ingest_keys can_keys_value by (metis (no_types, lifting) add_left_cancel inj_onI lessThan_iff, metis (no_types, lifting) inj_onI lessThan_iff mult_right_cancel zero_neq_numeral)

lemma fixture_keys_plain:
  "i < N_INGEST \<Longrightarrow> ingest_key i \<noteq> 0xFFFFFFFF \<and> ingest_key i \<noteq> 0xFFFFFFFE" "i < N_CAN \<Longrightarrow> can_keys i \<noteq> 0xFFFFFFFF \<and> can_keys i \<noteq> 0xFFFFFFFE"
  using ingest_keys [of i] can_keys_value [of i] by (auto simp: N_INGEST_def N_CAN_def)

end
