(* ===== verification/Harness_Checks.thy ===== *)
theory Harness_Checks
  imports Harness_Keys
begin

text \<open>
  No fixture of the harness prints a \<^verbatim>\<open>CHECK\<close> line: proved once against the contract of the vtable, and
  interpreted on the four implementations.
\<close>

section \<open>Tables filled by index\<close>

text \<open>The table that has \<open>f i\<close> mapped to \<open>g i\<close> for the indexes of \<open>S\<close>.\<close>

definition ix :: "nat \<Rightarrow> (nat \<Rightarrow> u32) \<Rightarrow> (nat \<Rightarrow> u32) \<Rightarrow> nat set \<Rightarrow> u32 \<rightharpoonup> u32" where
  "ix n f g S = (\<lambda>k. if k \<in> f ` S then Some (g (the_inv_into {..<n} f k)) else None)"

lemma ix_empty [simp]: "ix n f g {} = Map.empty"
  by (simp add: ix_def)

lemma ix_in: "inj_on f {..<n} \<Longrightarrow> S \<subseteq> {..<n} \<Longrightarrow> i \<in> S \<Longrightarrow> ix n f g S (f i) = Some (g i)"
  by (auto simp: ix_def the_inv_into_f_f subset_iff)

lemma inj_on_image_mem: "inj_on f {..<n} \<Longrightarrow> S \<subseteq> {..<n} \<Longrightarrow> i < n \<Longrightarrow> f i \<in> f ` S \<longleftrightarrow> i \<in> S" for n :: nat
  using inj_on_image_mem_iff [of f "{..<n}" i S] by simp

lemma ix_out: "inj_on f {..<n} \<Longrightarrow> S \<subseteq> {..<n} \<Longrightarrow> i < n \<Longrightarrow> i \<notin> S \<Longrightarrow> ix n f g S (f i) = None"
  by (simp add: ix_def inj_on_image_mem)

lemma dom_ix [simp]: "dom (ix n f g S) = f ` S"
  by (auto simp: ix_def split: if_splits)

lemma ix_insert: "inj_on f {..<n} \<Longrightarrow> i < n \<Longrightarrow> (ix n f g S)(f i \<mapsto> g i) = ix n f g (insert i S)"
  by (auto simp: ix_def fun_eq_iff the_inv_into_f_f)

lemma ix_remove: "inj_on f {..<n} \<Longrightarrow> S \<subseteq> {..<n} \<Longrightarrow> i < n \<Longrightarrow> (ix n f g S)(f i := None) = ix n f g (S - {i})"
  using inj_on_image_mem [of f n S] by (auto simp: ix_def fun_eq_iff inj_on_def subset_iff)

lemma ix_restrict: "ix n f g S |` (- A) = ix n f g {i \<in> S. f i \<notin> A}"
  by (auto simp: ix_def fun_eq_iff restrict_map_def)

lemma spec_list_ix:
  assumes "inj_on f {..<n}" "S \<subseteq> {..<n}"
  shows "set (spec_list (ix n f g S) A) = (\<lambda>i. (f i, g i)) ` {i \<in> S. f i \<in> A}"
proof -
  have "finite S" using assms(2) finite_subset by blast
  then have "finite (f ` S \<inter> A)" by simp
  then have "set (spec_list (ix n f g S) A) = (\<lambda>k. (k, the (ix n f g S k))) ` (f ` S \<inter> A)" by (simp add: spec_list_def)
  also have "f ` S \<inter> A = f ` {i \<in> S. f i \<in> A}" by auto
  also have "(\<lambda>k. (k, the (ix n f g S k))) ` \<dots> = (\<lambda>i. (f i, g i)) ` {i \<in> S. f i \<in> A}"
    using ix_in [OF assms] by (force simp: image_image)
  finally show ?thesis .
qed

lemma card_ix: "inj_on f {..<n} \<Longrightarrow> S \<subseteq> {..<n} \<Longrightarrow> card (f ` S \<inter> A) = card {i \<in> S. f i \<in> A}"
proof -
  assume a: "inj_on f {..<n}" "S \<subseteq> {..<n}"
  have "f ` S \<inter> A = f ` {i \<in> S. f i \<in> A}" by auto
  moreover have "inj_on f {i \<in> S. f i \<in> A}" using a by (auto intro: inj_on_subset)
  ultimately show ?thesis by (simp add: card_image)
qed

text \<open>The devices an eviction has to remove.\<close>

definition stale :: "(u32 \<Rightarrow> u32) \<Rightarrow> nat set" where
  "stale seen_at = {i. i < N_BLE \<and> seen_at (of_nat i) < 6000}"

lemma card_stale: "card (stale seen_bulk) = 600" "card (stale seen_steady) = 25"
proof -
  have "stale seen_bulk = {..<600}"
    by (auto simp: stale_def seen_bulk_def N_BLE_def word_less_nat_alt unat_word_ariths unat_of_nat)
  moreover have "stale seen_steady = {..<25}"
    by (auto simp: stale_def seen_steady_def N_BLE_def word_less_nat_alt unat_word_ariths unat_of_nat split: if_splits)
  ultimately show "card (stale seen_bulk) = 600" "card (stale seen_steady) = 25" by simp_all
qed

lemma seen_ends:
  "seen_bulk 0 < 6000" "\<not> seen_bulk (of_nat N_BLE - 1) < 6000" "seen_steady 0 < 6000" "\<not> seen_steady (of_nat N_BLE - 1) < 6000"
  by (simp_all add: seen_bulk_def seen_steady_def N_BLE_def)

text \<open>A line of a run that is no complaint, with the number of evictions.\<close>

fun line_ok :: "line \<Rightarrow> bool" where
  "line_ok (Check s) = False"
| "line_ok (Result name impl p n) =
    ((take 10 name = ''evict_bulk'' \<longrightarrow> n = 600) \<and> (take 12 name = ''evict_steady'' \<longrightarrow> n = 25))"
| "line_ok (Dwt f i p prof n) = True"
| "line_ok (Bytes i s n) = True"

definition good :: "line list option \<Rightarrow> bool" where
  "good r \<longleftrightarrow> (case r of None \<Rightarrow> False | Some out \<Rightarrow> list_all line_ok out)"

lemma goodE: "good r \<Longrightarrow> (\<And>out. r = Some out \<Longrightarrow> list_all line_ok out \<Longrightarrow> P) \<Longrightarrow> P"
  by (cases r) (auto simp: good_def)

lemma good_Some [simp]: "good (Some out) \<longleftrightarrow> list_all line_ok out"
  by (simp add: good_def)

lemma good_passes:
  assumes "\<And>p. good (f p)"
  shows "good (passes f)"
proof -
  have "\<exists>out. passes f = Some out \<and> list_all line_ok out"
    unfolding passes_def
  proof (rule for_loop_invariant [where P = "\<lambda>_. list_all line_ok"], goal_cases)
    case (2 i s)
    then show ?case using assms [of i] by (auto elim!: goodE)
  qed simp
  then show ?thesis by auto
qed

lemma good_dwt:
  assumes "\<And>p. \<exists>prof. f p = Some (prof, [])"
  shows "good (run_dwt dwt_prf f fixture impl n)"
proof (cases dwt_prf)
  case True
  have "good (do { (prof, c) \<leftarrow> f p; Some (map Check c @ [Dwt fixture impl p prof (of_nat n)]) })" for p
    using assms [of p] by auto
  then show ?thesis using True by (simp add: run_dwt_def good_passes)
qed (simp add: run_dwt_def)

section \<open>The fixtures over the contract\<close>

locale fixture_table = alt_table inv abs key_ok space "ao_insert ops" "ao_get ops" "ao_remove ops"
  for inv :: "'m \<Rightarrow> bool" and abs :: "'m \<Rightarrow> u32 \<rightharpoonup> u32" and key_ok :: "u32 \<Rightarrow> bool" and space :: "'m \<Rightarrow> enat" and ops :: "'m alt_ops" +
  assumes create_ok: "0 < n \<Longrightarrow> n \<le> 2 ^ 29 \<Longrightarrow> inv (ao_create ops n) \<and> abs (ao_create ops n) = Map.empty \<and> enat n \<le> space (ao_create ops n)"
    and plain_ok: "k \<noteq> 0xFFFFFFFF \<Longrightarrow> k \<noteq> 0xFFFFFFFE \<Longrightarrow> key_ok k"
begin

definition filled_to :: "nat \<Rightarrow> (nat \<Rightarrow> u32) \<Rightarrow> (nat \<Rightarrow> u32) \<Rightarrow> nat \<Rightarrow> 'm \<Rightarrow> bool" where
  "filled_to n f g i m \<longleftrightarrow> inv m \<and> abs m = ix n f g {..<i} \<and> enat (n - i) \<le> space m"

lemma create_filled: "0 < n \<Longrightarrow> n \<le> 2 ^ 29 \<Longrightarrow> filled_to n f g 0 (ao_create ops n)"
  using create_ok [of n] by (simp add: filled_to_def)

lemma insert_filled:
  assumes "inj_on f {..<n}" "key_ok (f i)" "i < n" "filled_to n f g i m"
  shows "\<exists>m'. ao_insert ops m (f i) (g i) = Some m' \<and> filled_to n f g (Suc i) m'"
proof -
  have m: "inv m" "abs m = ix n f g {..<i}" "enat (n - i) \<le> space m" using assms(4) by (simp_all add: filled_to_def)
  have "0 < space m" using m(3) assms(3) by (cases "space m") (auto simp: zero_enat_def)
  then obtain m' where m': "ao_insert ops m (f i) (g i) = Some m'" "inv m'" "abs m' = (abs m)(f i \<mapsto> g i)" "space m \<le> space m' + 1"
    using insert_ok [OF m(1) assms(2)] by blast
  have "enat (n - Suc i) \<le> space m'" using m(3) m'(4) by (cases "space m"; cases "space m'") (auto simp: one_enat_def)
  moreover have "abs m' = ix n f g {..<Suc i}" using m'(3) m(2) ix_insert [OF assms(1,3)] by (simp add: lessThan_Suc)
  ultimately show ?thesis using m' by (auto simp: filled_to_def)
qed

lemma fill_ok:
  assumes "inj_on f {..<n}" "\<And>i. i < n \<Longrightarrow> key_ok (f i)" "0 < n" "n \<le> 2 ^ 29"
  shows "\<exists>m. for_loop [0..<n] (\<lambda>i m. ao_insert ops m (f i) (g i)) (ao_create ops n) = Some m \<and> filled_to n f g n m"
  using for_loop_invariant [of "filled_to n f g" "ao_create ops n" n "\<lambda>i m. ao_insert ops m (f i) (g i)"]
    create_filled [OF assms(3,4)] insert_filled [OF assms(1)] assms(2) by blast

lemma filled_get:
  assumes "inj_on f {..<n}" "key_ok (f i)" "i < n" "filled_to n f g n m"
  shows "ao_get ops m (f i) = Some (Some (g i))"
  using get_ok [of m "f i"] assms ix_in [OF assms(1), of "{..<n}" i g] by (simp add: filled_to_def)

lemma fixture_key_ok: "i < N_INGEST \<Longrightarrow> key_ok (ingest_key i)" "i < N_CAN \<Longrightarrow> key_ok (can_keys i)" "i < N_BLE \<Longrightarrow> key_ok (mac_key i)"
  using fixture_keys_plain [of i] mac_key_plain [of i] by (auto intro: plain_ok)

lemma ingest_ends: "ingest_key 1999 = 1700000000 + of_nat N_INGEST - 1" "ingest_key 0 = 1700000000"
  by (simp_all add: ingest_key_def N_INGEST_def)

lemma fx_ingest_ok: "fx_ingest ops = Some []"
proof -
  obtain m where m: "for_loop [0..<N_INGEST] (\<lambda>i m. ao_insert ops m (ingest_key i) 42) (ao_create ops N_INGEST) = Some m"
      "filled_to N_INGEST ingest_key (\<lambda>_. 42) N_INGEST m"
    using fill_ok [OF fixture_keys_inj(1) fixture_key_ok(1), of "\<lambda>_. 42"] by (auto simp: N_INGEST_def)
  note g = filled_get [OF fixture_keys_inj(1) fixture_key_ok(1) _ m(2)]
  have "ao_get ops m (1700000000 + of_nat N_INGEST - 1) = Some (Some 42)" using g [of 1999] unfolding ingest_ends by (simp add: N_INGEST_def)
  moreover have "ao_get ops m 1700000000 = Some (Some 42)" using g [of 0] unfolding ingest_ends by (simp add: N_INGEST_def)
  ultimately show ?thesis using m(1) by (simp add: fx_ingest_def check_def)
qed

lemma fx_ingest_dwt_ok: "\<exists>p. fx_ingest_dwt ops snaps = Some (p, [])"
proof -
  let ?b = "\<lambda>i (m, p). do { m' \<leftarrow> ao_insert ops m (ingest_key i) 42; Some (m', dwt_acc p (fst (snaps i)) (snd (snaps i))) }"
  have "\<exists>s. for_loop [0..<N_INGEST] ?b (ao_create ops N_INGEST, prof_zero) = Some s \<and> filled_to N_INGEST ingest_key (\<lambda>_. 42) N_INGEST (fst s)"
  proof (rule for_loop_invariant [where P = "\<lambda>i s. filled_to N_INGEST ingest_key (\<lambda>_. 42) i (fst s)"], goal_cases)
    case 1
    then show ?case using create_filled by (simp add: N_INGEST_def)
  next
    case (2 i s)
    then show ?case using insert_filled [OF fixture_keys_inj(1) fixture_key_ok(1) _ 2(2)] by (auto simp: split_beta)
  qed
  then obtain m p where m: "for_loop [0..<N_INGEST] ?b (ao_create ops N_INGEST, prof_zero) = Some (m, p)"
      "filled_to N_INGEST ingest_key (\<lambda>_. 42) N_INGEST m" by auto
  have "ao_get ops m (ingest_key 1999) = Some (Some 42)"
    using filled_get [OF fixture_keys_inj(1) fixture_key_ok(1) _ m(2), of 1999] by (simp add: N_INGEST_def)
  then show ?thesis using m(1) unfolding fx_ingest_dwt_def ingest_ends(1) [symmetric] by (simp add: check_def)
qed

definition can_ok :: "'m \<Rightarrow> bool" where
  "can_ok m \<longleftrightarrow> filled_to N_CAN can_keys of_nat N_CAN m"

lemma can_table_ok: "\<exists>m. can_table ops = Some m \<and> can_ok m"
  using fill_ok [OF fixture_keys_inj(2) fixture_key_ok(2), of of_nat] by (auto simp: can_table_def N_CAN_def can_ok_def)

lemma can_get: "can_ok m \<Longrightarrow> i < N_CAN \<Longrightarrow> ao_get ops m (can_keys i) = Some (Some (of_nat i))"
  using filled_get [OF fixture_keys_inj(2) fixture_key_ok(2)] by (auto simp: can_ok_def)

lemma triangle: "of_nat (i * (i - Suc 0) div 2) + of_nat i = (of_nat (Suc i * i div 2) :: u32)"
proof -
  have "i * (i - Suc 0) div 2 + i = Suc i * i div 2" by (cases i) simp_all
  then show ?thesis unfolding of_nat_add [symmetric] by (rule arg_cong)
qed

lemma can_sum: "of_nat (N_CAN * (N_CAN - 1) div 2) = ((of_nat N_CAN * (of_nat N_CAN - 1)) div 2 :: u32)"
  by (simp add: N_CAN_def)

lemma fx_can_ok:
  assumes "can_ok m"
  shows "fx_can ops m = Some []"
proof -
  let ?b = "\<lambda>i sum. do { v \<leftarrow> ao_get ops m (can_keys i); Some (case v of Some v \<Rightarrow> sum + v | None \<Rightarrow> sum) }"
  have "\<exists>s. for_loop [0..<N_CAN] ?b 0 = Some s \<and> s = of_nat (N_CAN * (N_CAN - 1) div 2)"
    by (rule for_loop_invariant [where P = "\<lambda>i s. s = of_nat (i * (i - 1) div 2)"])
      (use can_get [OF assms] in \<open>auto simp: triangle simp del: mult_Suc\<close>)
  then show ?thesis unfolding fx_can_def can_sum [symmetric] by (auto simp: check_def)
qed

lemma fx_can_dwt_ok:
  assumes "can_ok m"
  shows "\<exists>p. fx_can_dwt ops snaps m = Some (p, [])"
proof -
  let ?b = "\<lambda>i (p, sum). do { v \<leftarrow> ao_get ops m (can_keys i);
           Some (dwt_acc p (fst (snaps i)) (snd (snaps i)), case v of Some v \<Rightarrow> sum + v | None \<Rightarrow> sum) }"
  have "\<exists>s. for_loop [0..<N_CAN] ?b (prof_zero, 0) = Some s \<and> snd s = of_nat (N_CAN * (N_CAN - 1) div 2)"
    by (rule for_loop_invariant [where P = "\<lambda>i s. snd s = of_nat (i * (i - 1) div 2)"])
      (use can_get [OF assms] in \<open>auto simp: triangle split_beta simp del: mult_Suc\<close>)
  then show ?thesis unfolding fx_can_dwt_def can_sum [symmetric] by (auto simp: check_def)
qed

definition macs_ok :: "nat set \<Rightarrow> 'm \<Rightarrow> bool" where
  "macs_ok S m \<longleftrightarrow> inv m \<and> S \<subseteq> {..<N_BLE} \<and> abs m = ix N_BLE mac_key of_nat S"

definition times_ok :: "(u32 \<Rightarrow> u32) \<Rightarrow> nat set \<Rightarrow> 'm \<Rightarrow> bool" where
  "times_ok seen_at S m \<longleftrightarrow> inv m \<and> S \<subseteq> {..<N_BLE} \<and> abs m = ix N_BLE (ble_time_key seen_at) of_nat S"

lemma ble_build_ok:
  assumes "seen_ok seen_at" "ao_ordered ops \<Longrightarrow> \<forall>k. key_ok k"
  shows "\<exists>bm bt. ble_build ops seen_at = Some (bm, bt) \<and> macs_ok {..<N_BLE} bm \<and>
    (case bt of None \<Rightarrow> \<not> ao_ordered ops | Some t \<Rightarrow> ao_ordered ops \<and> times_ok seen_at {..<N_BLE} t)"
proof -
  let ?P = "\<lambda>i (bm, bt). filled_to N_BLE mac_key of_nat i bm \<and>
    (case bt of None \<Rightarrow> \<not> ao_ordered ops | Some t \<Rightarrow> ao_ordered ops \<and> filled_to N_BLE (ble_time_key seen_at) of_nat i t)"
  have "\<exists>s. ble_build ops seen_at = Some s \<and> ?P N_BLE s"
    unfolding ble_build_def
  proof (rule for_loop_invariant [where P = ?P], goal_cases)
    case 1
    then show ?case using create_filled [of N_BLE] by (simp add: N_BLE_def)
  next
    case (2 i s)
    obtain bm bt where s: "s = (bm, bt)" by (cases s)
    obtain bm' where b: "ao_insert ops bm (mac_key i) (of_nat i) = Some bm'" "filled_to N_BLE mac_key of_nat (Suc i) bm'"
      using insert_filled [OF mac_key_inj fixture_key_ok(3) 2(1), of of_nat bm] 2 s by auto
    show ?case
    proof (cases bt)
      case None
      then show ?thesis using b 2 s by (simp add: mac_hash_ok)
    next
      case (Some t)
      then have "key_ok (ble_time_key seen_at i)" using assms(2) 2(2) s by simp
      then obtain t' where "ao_insert ops t (ble_time_key seen_at i) (of_nat i) = Some t'" "filled_to N_BLE (ble_time_key seen_at) of_nat (Suc i) t'"
        using insert_filled [OF fixture_time_inj [OF assms(1)] _ 2(1), of of_nat t] 2(2) s Some by auto
      then show ?thesis using b 2 s Some by (simp add: mac_hash_ok)
    qed
  qed
  then show ?thesis by (auto simp: filled_to_def macs_ok_def times_ok_def split: option.splits)
qed

lemma remove_mac:
  assumes "macs_ok S m" "i < N_BLE"
  shows "\<exists>m'. ao_remove ops m (mac_key i) = Some m' \<and> macs_ok (S - {i}) m'"
  using remove_ok [OF _ fixture_key_ok(3) [OF assms(2)], of m] assms ix_remove [OF mac_key_inj, of S i of_nat]
  by (auto simp: macs_ok_def)

lemma small_index: "i < N_BLE \<Longrightarrow> unat (of_nat i :: u32) = i"
  by (simp add: unat_of_nat N_BLE_def)

lemma fold_evict:
  "macs_ok S m \<Longrightarrow> \<forall>p\<in>set ps. \<exists>i < N_BLE. snd p = of_nat i \<Longrightarrow>
   \<exists>m'. fold (\<lambda>p. evict_cb ops (fst p) (snd p)) ps (Some m) = Some m' \<and> macs_ok (S - (\<lambda>p. unat (snd p)) ` set ps) m'"
proof (induction ps arbitrary: S m)
  case (Cons p ps)
  then obtain i where i: "i < N_BLE" "snd p = of_nat i" by auto
  obtain m1 where m1: "ao_remove ops m (mac_key i) = Some m1" "macs_ok (S - {i}) m1" using remove_mac [OF Cons.prems(1) i(1)] by blast
  then have e: "evict_cb ops (fst p) (snd p) (Some m) = Some m1" using i by (simp add: evict_cb_def small_index mac_hash_ok)
  obtain m' where "fold (\<lambda>p. evict_cb ops (fst p) (snd p)) ps (Some m1) = Some m'" "macs_ok (S - {i} - (\<lambda>p. unat (snd p)) ` set ps) m'"
    using Cons.IH [OF m1(2)] Cons.prems(2) by auto
  moreover have "S - {i} - (\<lambda>p. unat (snd p)) ` set ps = S - (\<lambda>p. unat (snd p)) ` set (p # ps)" using i by (auto simp: small_index)
  ultimately show ?case using e by (intro exI [of _ m']) simp
qed simp

lemma fx_evict_checks:
  assumes "ble_build ops seen_at = Some (bm, bt)" "evict_by ops seen_at mode bm bt = Some (m, n)" "macs_ok ({..<N_BLE} - stale seen_at) m"
    "seen_at 0 < 6000" "\<not> seen_at (of_nat N_BLE - 1) < 6000"
  shows "fx_evict ops seen_at mode = Some (of_nat n, [])"
proof -
  have k: "0 < N_BLE" "N_BLE - 1 < N_BLE" by (simp_all add: N_BLE_def)
  have e: "(of_nat (N_BLE - 1) :: u32) = of_nat N_BLE - 1" by (simp add: N_BLE_def)
  have inv: "inv m" "abs m = ix N_BLE mac_key of_nat ({..<N_BLE} - stale seen_at)" using assms(3) by (simp_all add: macs_ok_def)
  have "0 \<in> stale seen_at" "N_BLE - 1 \<notin> stale seen_at" using assms(4,5) k e by (simp_all add: stale_def)
  then have "abs m (mac_key 0) = None" "abs m (mac_key (N_BLE - 1)) = Some (of_nat N_BLE - 1)"
    unfolding inv(2) e [symmetric] using k ix_out [OF mac_key_inj] ix_in [OF mac_key_inj] by auto
  then show ?thesis using assms(1,2) k get_ok [OF inv(1) fixture_key_ok(3) [OF k(1)]] get_ok [OF inv(1) fixture_key_ok(3) [OF k(2)]]
    by (simp add: fx_evict_def mac_hash_ok check_def)
qed

lemma run_quiet:
  "good (run_ingest ops)" "can_ok can \<Longrightarrow> good (run_can ops can)"
  "good (run_dwt dwt_prf (\<lambda>p. fx_ingest_dwt ops (snaps p)) fixture impl n)"
  "can_ok can \<Longrightarrow> good (run_dwt dwt_prf (\<lambda>p. fx_can_dwt ops (snaps p) can) fixture impl n)"
proof -
  show "good (run_ingest ops)" unfolding run_ingest_def by (rule good_passes) (simp add: fx_ingest_ok)
  show "good (run_can ops can)" if "can_ok can" unfolding run_can_def by (rule good_passes) (simp add: fx_can_ok that)
  show "good (run_dwt dwt_prf (\<lambda>p. fx_ingest_dwt ops (snaps p)) fixture impl n)"
    by (rule good_dwt) (rule fx_ingest_dwt_ok)
  show "good (run_dwt dwt_prf (\<lambda>p. fx_can_dwt ops (snaps p) can) fixture impl n)" if "can_ok can"
    by (rule good_dwt) (rule fx_can_dwt_ok [OF that])
qed

lemma run_evict_quiet:
  assumes "fx_evict ops seen_at mode = Some (n, [])" "line_ok (Result name (ao_name ops) 0 n)"
  shows "good (run_evict ops name seen_at mode)"
  unfolding run_evict_def by (rule good_passes) (use assms in simp)

lemma run_impl_quiet:
  assumes "ao_ordered ops \<Longrightarrow> \<forall>k. key_ok k"
    "good (if ao_ordered ops
       then do { e1 \<leftarrow> run_evict ops ''evict_bulk_loop'' seen_bulk EV_LOOP; e2 \<leftarrow> run_evict ops ''evict_bulk_range'' seen_bulk EV_RANGE;
                 e3 \<leftarrow> run_evict ops ''evict_steady_loop'' seen_steady EV_LOOP; e4 \<leftarrow> run_evict ops ''evict_steady_range'' seen_steady EV_RANGE;
                 Some (e1 @ e2 @ e3 @ e4) }
       else do { e1 \<leftarrow> run_evict ops ''evict_bulk_scan'' seen_bulk EV_SCAN; e2 \<leftarrow> run_evict ops ''evict_steady_scan'' seen_steady EV_SCAN;
                 Some (e1 @ e2) })" (is "good ?e")
  shows "good (run_impl ops dwt_prf snaps report_bytes)"
proof -
  obtain can where can: "can_table ops = Some can" "can_ok can" using can_table_ok by blast
  obtain a where a: "run_ingest ops = Some a" "list_all line_ok a" using run_quiet(1) by (rule goodE)
  obtain b where b: "run_dwt dwt_prf (\<lambda>p. fx_ingest_dwt ops (snaps 1 p)) ''ingest'' (ao_name ops) N_INGEST = Some b" "list_all line_ok b"
    using run_quiet(3) by (rule goodE)
  obtain c where c: "run_can ops can = Some c" "list_all line_ok c" using run_quiet(2) [OF can(2)] by (rule goodE)
  obtain d where d: "run_dwt dwt_prf (\<lambda>p. fx_can_dwt ops (snaps 2 p) can) ''can_dispatch'' (ao_name ops) N_CAN = Some d" "list_all line_ok d"
    using run_quiet(4) [OF can(2)] by (rule goodE)
  obtain t where t: "ble_build ops seen_bulk = Some t" using ble_build_ok [OF seen_fns_ok(1) assms(1)] by blast
  obtain e where e: "?e = Some e" "list_all line_ok e" using assms(2) by (rule goodE)
  show ?thesis unfolding run_impl_def e(1) a(1) b(1) can(1) c(1) d(1) t
    using a(2) b(2) c(2) d(2) e(2) a(1) b(1) c(1) d(1) by simp
qed

end

section \<open>Ordered implementations\<close>

locale fixture_ordered = fixture_table inv abs key_ok space ops +
    alt_ordered inv abs key_ok space "ao_insert ops" "ao_get ops" "ao_remove ops" "ao_first ops" "ao_remove_range ops"
  for inv :: "'m \<Rightarrow> bool" and abs :: "'m \<Rightarrow> u32 \<rightharpoonup> u32" and key_ok :: "u32 \<Rightarrow> bool" and space :: "'m \<Rightarrow> enat" and ops :: "'m alt_ops" +
  assumes is_ordered: "ao_ordered ops" and all_keys: "key_ok k"
begin

lemma range_evict_ok:
  assumes "seen_ok seen_at" "macs_ok {..<N_BLE} bm" "times_ok seen_at {..<N_BLE} bt"
  shows "\<exists>m. evict_by ops seen_at EV_RANGE bm (Some bt) = Some (m, card (stale seen_at)) \<and> macs_ok ({..<N_BLE} - stale seen_at) m"
proof -
  let ?T = "ble_time_key seen_at" and ?N = "{..<N_BLE}"
  let ?ps = "spec_list (abs bt) {..max_tk}"
  have bt: "inv bt" "abs bt = ix N_BLE ?T of_nat ?N" using assms(3) by (simp_all add: times_ok_def)
  have st: "{i \<in> ?N. ?T i \<in> {..max_tk}} = stale seen_at" using fixture_time_stale [OF assms(1)] by (auto simp: stale_def)
  have ps: "set ?ps = (\<lambda>i. (?T i, of_nat i)) ` stale seen_at"
    unfolding bt(2) spec_list_ix [OF fixture_time_inj [OF assms(1)] order_refl] st ..
  have n: "card (dom (abs bt) \<inter> {..max_tk}) = card (stale seen_at)"
    unfolding bt(2) dom_ix card_ix [OF fixture_time_inj [OF assms(1)] order_refl] st ..
  have "\<forall>p\<in>set ?ps. \<exists>i < N_BLE. snd p = of_nat i" unfolding ps by (auto simp: stale_def)
  from fold_evict [OF assms(2) this] obtain m where m: "fold (\<lambda>p. evict_cb ops (fst p) (snd p)) ?ps (Some bm) = Some m"
      "macs_ok (?N - (\<lambda>p. unat (snd p)) ` set ?ps) m" by blast
  have "(\<lambda>p. unat (snd p)) ` set ?ps = stale seen_at" unfolding ps by (force simp: image_image stale_def small_index)
  then show ?thesis using m remove_upto_ok [OF bt(1), of max_tk "evict_cb ops" "Some bm"] n by (auto simp: evict_by_def)
qed

lemma loop_evict_ok:
  assumes "seen_ok seen_at" "macs_ok S bm" "times_ok seen_at S bt"
  shows "\<exists>m t. evict_loop ops bm bt n = Some (m, t, n + card (S \<inter> stale seen_at)) \<and> macs_ok (S - stale seen_at) m"
  using assms(2,3)
proof (induction "card S" arbitrary: S bm bt n rule: less_induct)
  case less
  let ?T = "ble_time_key seen_at"
  have bt: "inv bt" "abs bt = ix N_BLE ?T of_nat S" and S: "S \<subseteq> {..<N_BLE}" using less.prems(2) by (simp_all add: times_ok_def)
  have fin: "finite S" using S finite_subset by blast
  have f: "ao_first ops bt = Some (spec_least (abs bt) UNIV)" by (rule first_ok [OF bt(1)])
  show ?case
  proof (cases "S = {}")
    case True
    then have "spec_least (abs bt) UNIV = None" by (simp add: bt(2) spec_least_def)
    then show ?thesis using f less.prems(1) True by (subst evict_loop.simps) auto
  next
    case False
    then have ne: "?T ` S \<noteq> {}" "finite (?T ` S)" using fin by auto
    then have "Min (?T ` S) \<in> ?T ` S" by (rule Min_in [rotated])
    then obtain i where i: "i \<in> S" "Min (?T ` S) = ?T i" by blast
    have iN: "i < N_BLE" using i(1) S by auto
    have l: "spec_least (abs bt) UNIV = Some (?T i, of_nat i)"
      using False i ix_in [OF fixture_time_inj [OF assms(1)] S i(1), of of_nat] by (simp add: bt(2) spec_least_def)
    show ?thesis
    proof (cases "max_tk < ?T i")
      case True
      have "max_tk < ?T j" if "j \<in> S" for j using True i ne(2) that Min_le [of "?T ` S" "?T j"] by auto
      then have "S \<inter> stale seen_at = {}" using fixture_time_stale [OF assms(1)] S by (fastforce simp: stale_def)
      moreover from this have "S - stale seen_at = S" by blast
      ultimately show ?thesis using f l True less.prems(1) by (subst evict_loop.simps) auto
    next
      case False
      then have st: "i \<in> stale seen_at" using fixture_time_stale [OF assms(1) iN] iN by (auto simp: stale_def)
      obtain bt' where bt': "ao_remove ops bt (?T i) = Some bt'" "times_ok seen_at (S - {i}) bt'"
        using remove_ok [OF bt(1) all_keys, of "?T i"] ix_remove [OF fixture_time_inj [OF assms(1)] S iN, of of_nat] S bt(2)
        by (auto simp: times_ok_def)
      obtain bm' where bm': "ao_remove ops bm (mac_key i) = Some bm'" "macs_ok (S - {i}) bm'"
        using remove_mac [OF less.prems(1) iN] by blast
      have "card (S - {i}) < card S" by (rule card_Diff1_less [OF fin i(1)])
      from less.hyps [OF this bm'(2) bt'(2), of "n + 1"] obtain m t where
        r: "evict_loop ops bm' bt' (n + 1) = Some (m, t, n + 1 + card ((S - {i}) \<inter> stale seen_at))" "macs_ok (S - {i} - stale seen_at) m" by blast
      have "(S - {i}) \<inter> stale seen_at = S \<inter> stale seen_at - {i}" "S - {i} - stale seen_at = S - stale seen_at" using st by auto
      moreover have "Suc (card (S \<inter> stale seen_at - {i})) = card (S \<inter> stale seen_at)" using i(1) st fin by (intro card_Suc_Diff1) auto
      ultimately have "evict_loop ops bm' bt' (n + 1) = Some (m, t, n + card (S \<inter> stale seen_at))" "macs_ok (S - stale seen_at) m"
        using r by (simp_all)
      moreover have "evict_loop ops bm bt n = evict_loop ops bm' bt' (n + 1)"
        using f l False bt'(1) bm'(1) iN by (subst evict_loop.simps) (simp add: small_index mac_hash_ok)
      ultimately show ?thesis by auto
    qed
  qed
qed

lemma fx_evict_ok:
  assumes "seen_ok seen_at" "seen_at 0 < 6000" "\<not> seen_at (of_nat N_BLE - 1) < 6000" "mode = EV_LOOP \<or> mode = EV_RANGE"
  shows "fx_evict ops seen_at mode = Some (of_nat (card (stale seen_at)), [])"
proof -
  obtain bm bt where b: "ble_build ops seen_at = Some (bm, Some bt)" "macs_ok {..<N_BLE} bm" "times_ok seen_at {..<N_BLE} bt"
    using ble_build_ok [OF assms(1)] all_keys is_ordered by (auto split: option.splits)
  have "{..<N_BLE} \<inter> stale seen_at = stale seen_at" by (auto simp: stale_def)
  then have "\<exists>m. evict_by ops seen_at mode bm (Some bt) = Some (m, card (stale seen_at)) \<and> macs_ok ({..<N_BLE} - stale seen_at) m"
    using assms(4) range_evict_ok [OF assms(1) b(2,3)] loop_evict_ok [OF assms(1) b(2,3), of 0] by (auto simp: evict_by_def)
  then show ?thesis using fx_evict_checks [OF b(1) _ _ assms(2,3)] by blast
qed

lemma run_good: "good (run_impl ops dwt_prf snaps report_bytes)"
proof (rule run_impl_quiet)
  have f: "fx_evict ops seen_bulk mode = Some (600, [])" "fx_evict ops seen_steady mode = Some (25, [])" if "mode = EV_LOOP \<or> mode = EV_RANGE" for mode
    using fx_evict_ok [OF seen_fns_ok(1) seen_ends(1,2) that] fx_evict_ok [OF seen_fns_ok(2) seen_ends(3,4) that] by (simp_all add: card_stale)
  have "good (run_evict ops ''evict_bulk_loop'' seen_bulk EV_LOOP)" "good (run_evict ops ''evict_bulk_range'' seen_bulk EV_RANGE)"
      "good (run_evict ops ''evict_steady_loop'' seen_steady EV_LOOP)" "good (run_evict ops ''evict_steady_range'' seen_steady EV_RANGE)"
    by (rule run_evict_quiet [OF f(1)], simp, simp)+ (rule run_evict_quiet [OF f(2)], simp, simp)+
  then show "good (if ao_ordered ops
       then do { e1 \<leftarrow> run_evict ops ''evict_bulk_loop'' seen_bulk EV_LOOP; e2 \<leftarrow> run_evict ops ''evict_bulk_range'' seen_bulk EV_RANGE;
                 e3 \<leftarrow> run_evict ops ''evict_steady_loop'' seen_steady EV_LOOP; e4 \<leftarrow> run_evict ops ''evict_steady_range'' seen_steady EV_RANGE;
                 Some (e1 @ e2 @ e3 @ e4) }
       else do { e1 \<leftarrow> run_evict ops ''evict_bulk_scan'' seen_bulk EV_SCAN; e2 \<leftarrow> run_evict ops ''evict_steady_scan'' seen_steady EV_SCAN;
                 Some (e1 @ e2) })"
    using is_ordered by (auto elim!: goodE)
qed (simp add: all_keys)

end

section \<open>Eviction by a scan\<close>

locale fixture_scan = fixture_table inv abs key_ok space ops
  for inv :: "'m \<Rightarrow> bool" and abs :: "'m \<Rightarrow> u32 \<rightharpoonup> u32" and key_ok :: "u32 \<Rightarrow> bool" and space :: "'m \<Rightarrow> enat" and ops :: "'m alt_ops" +
  assumes not_ordered: "\<not> ao_ordered ops"
    and scan_ok: "inv m \<Longrightarrow> \<exists>m'. ao_evict_scan ops m (\<lambda>k v c. (p v, ())) () = Some (m', (), card {k. \<exists>v. abs m k = Some v \<and> p v}) \<and>
      inv m' \<and> abs m' = abs m |` (- {k. \<exists>v. abs m k = Some v \<and> p v})"
begin

lemma scan_evict_ok:
  assumes "macs_ok {..<N_BLE} bm"
  shows "\<exists>m. evict_by ops seen_at EV_SCAN bm bt = Some (m, card (stale seen_at)) \<and> macs_ok ({..<N_BLE} - stale seen_at) m"
proof -
  have bm: "inv bm" "abs bm = ix N_BLE mac_key of_nat {..<N_BLE}" using assms by (simp_all add: macs_ok_def)
  let ?A = "{k. \<exists>v. abs bm k = Some v \<and> seen_at v < 6000}"
  have A: "?A = mac_key ` stale seen_at"
  proof (intro set_eqI iffI)
    fix k assume "k \<in> ?A"
    then obtain v where v: "abs bm k = Some v" "seen_at v < 6000" by blast
    then have "k \<in> dom (abs bm)" by blast
    then obtain i where "i < N_BLE" "k = mac_key i" unfolding bm(2) dom_ix by blast
    then show "k \<in> mac_key ` stale seen_at" using v ix_in [OF mac_key_inj order_refl, of i of_nat] by (auto simp: bm(2) stale_def)
  next
    fix k assume "k \<in> mac_key ` stale seen_at"
    then show "k \<in> ?A" using ix_in [OF mac_key_inj order_refl, of _ of_nat] by (auto simp: bm(2) stale_def)
  qed
  have sub: "stale seen_at \<subseteq> {..<N_BLE}" by (auto simp: stale_def)
  have c: "card ?A = card (stale seen_at)" unfolding A by (rule card_image) (rule inj_on_subset [OF mac_key_inj sub])
  have "{i \<in> {..<N_BLE}. mac_key i \<notin> mac_key ` stale seen_at} = {..<N_BLE} - stale seen_at"
    using inj_on_image_mem [OF mac_key_inj sub] by auto
  then have "ix N_BLE mac_key of_nat {..<N_BLE} |` (- mac_key ` stale seen_at) = ix N_BLE mac_key of_nat ({..<N_BLE} - stale seen_at)"
    unfolding ix_restrict by simp
  then have r: "abs bm |` (- ?A) = ix N_BLE mac_key of_nat ({..<N_BLE} - stale seen_at)" unfolding A unfolding bm(2) .
  have "(\<lambda>k v c. (seen_at v < 6000, ())) = expired_cb seen_at" by (simp add: fun_eq_iff expired_cb_def)
  then show ?thesis using scan_ok [OF bm(1), of "\<lambda>v. seen_at v < 6000"] c r by (auto simp: evict_by_def macs_ok_def)
qed

lemma fx_evict_ok:
  assumes "seen_ok seen_at" "seen_at 0 < 6000" "\<not> seen_at (of_nat N_BLE - 1) < 6000"
  shows "fx_evict ops seen_at EV_SCAN = Some (of_nat (card (stale seen_at)), [])"
proof -
  obtain bm bt where b: "ble_build ops seen_at = Some (bm, bt)" "macs_ok {..<N_BLE} bm"
    using ble_build_ok [OF assms(1)] not_ordered by blast
  from scan_evict_ok [OF b(2), of seen_at bt] obtain m where "evict_by ops seen_at EV_SCAN bm bt = Some (m, card (stale seen_at))"
      "macs_ok ({..<N_BLE} - stale seen_at) m" by blast
  then show ?thesis using fx_evict_checks [OF b(1) _ _ assms(2,3)] by blast
qed

lemma run_good: "good (run_impl ops dwt_prf snaps report_bytes)"
proof (rule run_impl_quiet)
  have f: "fx_evict ops seen_bulk EV_SCAN = Some (600, [])" "fx_evict ops seen_steady EV_SCAN = Some (25, [])"
    using fx_evict_ok [OF seen_fns_ok(1) seen_ends(1,2)] fx_evict_ok [OF seen_fns_ok(2) seen_ends(3,4)] by (simp_all add: card_stale)
  have "good (run_evict ops ''evict_bulk_scan'' seen_bulk EV_SCAN)" "good (run_evict ops ''evict_steady_scan'' seen_steady EV_SCAN)"
    using run_evict_quiet [OF f(1)] run_evict_quiet [OF f(2)] by simp_all
  then show "good (if ao_ordered ops
       then do { e1 \<leftarrow> run_evict ops ''evict_bulk_loop'' seen_bulk EV_LOOP; e2 \<leftarrow> run_evict ops ''evict_bulk_range'' seen_bulk EV_RANGE;
                 e3 \<leftarrow> run_evict ops ''evict_steady_loop'' seen_steady EV_LOOP; e4 \<leftarrow> run_evict ops ''evict_steady_range'' seen_steady EV_RANGE;
                 Some (e1 @ e2 @ e3 @ e4) }
       else do { e1 \<leftarrow> run_evict ops ''evict_bulk_scan'' seen_bulk EV_SCAN; e2 \<leftarrow> run_evict ops ''evict_steady_scan'' seen_steady EV_SCAN;
                 Some (e1 @ e2) })"
    using not_ordered by (auto elim!: goodE)
qed (simp add: not_ordered)

end

section \<open>The four implementations\<close>

lemma map_of_oh_ents: "map_of (filter (\<lambda>p. oh_key (fst p)) xs) k = (if oh_key k then map_of xs k else None)"
  by (induction xs) auto

lemma oh_ents_abs: "map_of (oh_ents (oh_keys h) (oh_vals h)) = oh_abs h"
  by (simp add: fun_eq_iff oh_abs_def oh_ents_def map_of_oh_ents)

lemma oh_ents_distinct:
  assumes "oh_inv h"
  shows "distinct (map fst (oh_ents (oh_keys h) (oh_vals h)))"
proof -
  have t: "tbl (oh_mask h + 1) (oh_keys h)" "length (oh_vals h) = oh_mask h + 1" "length (oh_keys h) = oh_mask h + 1"
    using assms by (auto simp: oh_inv_def tbl_def)
  have "map fst (oh_ents (oh_keys h) (oh_vals h)) = filter oh_key (oh_keys h)"
    using t(2,3) filter_map [of oh_key fst "zip (oh_keys h) (oh_vals h)"] by (simp add: oh_ents_def comp_def)
  moreover have "distinct (filter oh_key xs)" if "\<And>i j. i < length xs \<Longrightarrow> j < length xs \<Longrightarrow> oh_key (xs ! i) \<Longrightarrow> xs ! i = xs ! j \<Longrightarrow> i = j" for xs
    using that
  proof (induction xs)
    case (Cons x xs)
    have "distinct (filter oh_key xs)" using Cons.IH Cons.prems [of "Suc i" "Suc j" for i j] by fastforce
    moreover have "x \<notin> set xs" if "oh_key x" using Cons.prems [of 0 "Suc j" for j] that by (fastforce simp: in_set_conv_nth)
    ultimately show ?case by simp
  qed simp
  ultimately show ?thesis using t by (auto simp: tbl_def)
qed

lemma evict_spec_pure: "evict_spec (\<lambda>k v c. (p v, ())) es () = (map fst (filter (\<lambda>e. p (snd e)) es), ())"
  by (induction es) (auto simp: Let_def split_beta)

lemma oh_scan_pure:
  assumes "oh_inv h"
  shows "\<exists>m'. oh_evict_scan h (\<lambda>k v c. (p v, ())) () = Some (m', (), card {k. \<exists>v. oh_abs h k = Some v \<and> p v}) \<and>
    oh_inv m' \<and> oh_abs m' = oh_abs h |` (- {k. \<exists>v. oh_abs h k = Some v \<and> p v})"
proof -
  let ?es = "oh_ents (oh_keys h) (oh_vals h)" and ?r = "map fst (filter (\<lambda>e. p (snd e)) (oh_ents (oh_keys h) (oh_vals h)))"
  note d = oh_ents_distinct [OF assms]
  have r: "set ?r = {k. \<exists>v. oh_abs h k = Some v \<and> p v}"
    unfolding oh_ents_abs [symmetric] using d by (force simp: map_of_eq_Some_iff)
  have "distinct ?r" using d by (rule distinct_map_filter)
  then have "length ?r = card {k. \<exists>v. oh_abs h k = Some v \<and> p v}" unfolding r [symmetric] by (rule distinct_card [symmetric])
  then show ?thesis using oh_evict_scan_ok [OF assms, of "\<lambda>k v c. (p v, ())" "()"] r unfolding evict_spec_pure by auto
qed

interpretation fx_ex: fixture_ordered map_ok map_abs "\<lambda>_. True" "\<lambda>_. \<infinity>" alt_expanse
  using ex.alt_ordered_axioms map_abs_new
  by (simp add: fixture_ordered_def fixture_table_def fixture_table_axioms_def fixture_ordered_axioms_def alt_expanse_def alt_ordered_def ex_create_def)

interpretation fx_ts: fixture_ordered t_inv t_abs "\<lambda>_. True" "\<lambda>_. \<infinity>" alt_tsearch
  using ts.alt_ordered_axioms t_create_ok
  by (simp add: fixture_ordered_def fixture_table_def fixture_table_axioms_def fixture_ordered_axioms_def alt_tsearch_def alt_ordered_def)

lemma fixture_sorted_array:
  assumes "\<And>n. length (u n) = n"
  shows "fixture_ordered sa_inv sa_abs (\<lambda>_. True) sa_space (alt_sorted_array u)"
  using sa.alt_ordered_axioms sa_create_ok [OF assms assms]
  by (simp add: fixture_ordered_def fixture_table_def fixture_table_axioms_def fixture_ordered_axioms_def alt_sorted_array_def alt_ordered_def)

lemma fixture_open_hash:
  assumes "\<And>n. length (u n) = n"
  shows "fixture_scan oh_inv oh_abs oh_key oh_space (alt_open_hash u)"
proof -
  have "enat n \<le> oh_space (oh_create (u (oh_size 16 n)) n)" if "0 < n" "n \<le> 2 ^ 29" for n
    using oh_create_ok(3) [OF that(2) assms] that(1) by (cases "oh_space (oh_create (u (oh_size 16 n)) n)") (auto simp: one_enat_def)
  then show ?thesis
    using oh.alt_table_axioms oh_create_ok(1,2) [OF _ assms] oh_scan_pure
    by (simp add: fixture_scan_def fixture_table_def fixture_table_axioms_def fixture_scan_axioms_def alt_open_hash_def oh_key_def OH_EMPTY_def OH_TOMB_def)
qed

interpretation fx_sa: fixture_ordered sa_inv sa_abs "\<lambda>_. True" sa_space "alt_sorted_array (\<lambda>n. replicate n 0)"
  by (rule fixture_sorted_array) simp

interpretation fx_oh: fixture_scan oh_inv oh_abs oh_key oh_space "alt_open_hash (\<lambda>n. replicate n 0)"
  by (rule fixture_open_hash) simp

text \<open>C39. A run of all fixtures over the four implementations ends, whatever the fresh memory holds and the counters
  read: it makes no undefined access, prints no \<^verbatim>\<open>CHECK\<close> line, and every eviction reports 600 devices of the bulk set
  and 25 of the steady one.\<close>

theorem fixtures_never_complain:
  assumes "\<And>n. length (u n) = n"
  shows "\<exists>out. run_fixtures u dwt_prf snaps report_bytes = Some out \<and> (\<forall>s. Check s \<notin> set out) \<and>
    (\<forall>name impl p n. Result name impl p n \<in> set out \<longrightarrow>
      (take 10 name = ''evict_bulk'' \<longrightarrow> n = 600) \<and> (take 12 name = ''evict_steady'' \<longrightarrow> n = 25))"
proof -
  have z: "good (run_nop dwt_prf (snaps 0))" unfolding run_nop_def by (rule good_dwt) simp
  have "good (run_fixtures u dwt_prf snaps report_bytes)"
    using z fx_ex.run_good [of dwt_prf "snaps 1" report_bytes] fixture_ordered.run_good [OF fixture_sorted_array [OF assms], of dwt_prf "snaps 2" report_bytes]
      fixture_scan.run_good [OF fixture_open_hash [OF assms], of dwt_prf "snaps 3" report_bytes] fx_ts.run_good [of dwt_prf "snaps 4" report_bytes]
    by (auto simp: run_fixtures_def elim!: goodE)
  then obtain out where out: "run_fixtures u dwt_prf snaps report_bytes = Some out" "list_all line_ok out" by (rule goodE)
  then show ?thesis by (fastforce simp: list_all_iff)
qed

theorem fixtures_never_complain_witness:
  "\<exists>out. run_fixtures (\<lambda>n. replicate n 7) False (\<lambda>_ _ _ _. ([], [])) True = Some out \<and> (\<forall>s. Check s \<notin> set out)"
  using fixtures_never_complain [of "\<lambda>n. replicate n 7" False "\<lambda>_ _ _ _. ([], [])" True] by auto

end
