(* ===== verification/Harness_Arms.thy ===== *)
theory Harness_Arms
  imports Harness_Core Expanse_Map
begin

text \<open>
  The reader-interrupt arms of the harness (\<^verbatim>\<open>integrations/stm32h747/main.c\<close>): the writer of the concurrent map,
  whose functions are arguments, and the twin that masks interrupts around every mutation of a plain map. Readings of the
  clock and attempts at the hardware semaphore come from lists, one element per reading.
\<close>

section \<open>The writer\<close>

datatype writer_status = WS_OK | WS_NOT_FOUND | WS_RECLAIM_BACKLOG | WS_ARENA_FULL | WS_OTHER

partial_function (option) churn_try :: "('w \<Rightarrow> writer_status \<times> 'w) \<Rightarrow> ('w \<Rightarrow> 'w) \<Rightarrow> 'w \<Rightarrow> u32 \<Rightarrow> (writer_status \<times> 'w \<times> u32) option" where
  "churn_try mutate reclaim w refused =
    (let r = mutate w
     in if fst r = WS_RECLAIM_BACKLOG then churn_try mutate reclaim (reclaim (snd r)) (refused + 1)
        else Some (fst r, snd r, refused))"

fun spin_until :: "u32 \<Rightarrow> u32 list \<Rightarrow> u32 list option" where
  "spin_until next [] = None"
| "spin_until next (c # cs) = (if sint (c - next) < 0 then spin_until next cs else Some cs)"

fun hsem_lock :: "bool list \<Rightarrow> bool list option" where
  "hsem_lock [] = None"
| "hsem_lock (b # bs) = (if b then Some bs else hsem_lock bs)"

record 'w churn =
  ch_clock :: "u32 list"
  ch_sem :: "bool list"
  ch_w :: 'w
  ch_i :: u32
  ch_refused :: u32
  ch_arena_full :: u32
  ch_next :: u32
  ch_wrng :: u32

definition churn_pace :: "u32 \<Rightarrow> 'w churn \<Rightarrow> 'w churn option" where
  "churn_pace period s =
    (if period = 0 then Some s
     else do { cs \<leftarrow> spin_until (ch_next s) (ch_clock s);
               let (g, r) = gap_of (ch_wrng s) period;
               Some (s\<lparr>ch_clock := cs, ch_next := ch_next s + g, ch_wrng := r\<rparr>) })"

definition churn_mutate ::
  "('w \<Rightarrow> u32 \<Rightarrow> u32 \<Rightarrow> writer_status \<times> 'w) \<Rightarrow> ('w \<Rightarrow> u32 \<Rightarrow> writer_status \<times> 'w) \<Rightarrow> ('w \<Rightarrow> 'w) \<Rightarrow> bool \<Rightarrow> 'w churn \<Rightarrow> 'w churn option"
where
  "churn_mutate try_insert try_remove try_reclaim locked s =
    do { let k = churn_key (ch_i s);
         sem \<leftarrow> (if locked then hsem_lock (ch_sem s) else Some (ch_sem s));
         (st, w, refused) \<leftarrow> churn_try (\<lambda>w. if churn_removes (ch_i s) then try_remove w k else try_insert w k (VAL k)) try_reclaim (ch_w s) (ch_refused s);
         Some (s\<lparr>ch_sem := sem, ch_w := (if ch_i s AND 31 = 31 then try_reclaim w else w), ch_refused := refused,
                 ch_arena_full := (if st = WS_ARENA_FULL then ch_arena_full s + 1 else ch_arena_full s), ch_i := ch_i s + 1\<rparr>) }"

partial_function (option) churn_loop ::
  "('w \<Rightarrow> u32 \<Rightarrow> u32 \<Rightarrow> writer_status \<times> 'w) \<Rightarrow> ('w \<Rightarrow> u32 \<Rightarrow> writer_status \<times> 'w) \<Rightarrow> ('w \<Rightarrow> 'w) \<Rightarrow> bool \<Rightarrow> u32 \<Rightarrow> u32 \<Rightarrow> u32 \<Rightarrow> 'w churn \<Rightarrow> 'w churn option"
where
  "churn_loop try_insert try_remove try_reclaim locked period budget t0 s =
    (case ch_clock s of
       [] \<Rightarrow> None
     | c # cs \<Rightarrow>
         if c - t0 < budget
         then do { s1 \<leftarrow> churn_pace period (s\<lparr>ch_clock := cs\<rparr>);
                   s2 \<leftarrow> churn_mutate try_insert try_remove try_reclaim locked s1;
                   churn_loop try_insert try_remove try_reclaim locked period budget t0 s2 }
         else Some (s\<lparr>ch_clock := cs\<rparr>))"

definition writer_churn ::
  "('w \<Rightarrow> u32 \<Rightarrow> u32 \<Rightarrow> writer_status \<times> 'w) \<Rightarrow> ('w \<Rightarrow> u32 \<Rightarrow> writer_status \<times> 'w) \<Rightarrow> ('w \<Rightarrow> 'w) \<Rightarrow> 'w \<Rightarrow> u32 \<Rightarrow> u32 \<Rightarrow> bool \<Rightarrow>
   u32 list \<Rightarrow> bool list \<Rightarrow> u32 \<Rightarrow> 'w churn option"
where
  "writer_churn try_insert try_remove try_reclaim w period budget locked clock sem wrng =
    (case clock of
       [] \<Rightarrow> None
     | t0 # cs \<Rightarrow> churn_loop try_insert try_remove try_reclaim locked period budget t0
         \<lparr>ch_clock = cs, ch_sem = sem, ch_w = w, ch_i = 0, ch_refused = 0, ch_arena_full = 0, ch_next = t0, ch_wrng = wrng\<rparr>)"

section \<open>The critical-section twin\<close>

text \<open>An interrupt comes between two mutations, never within one, and answers from the plain map.\<close>

datatype cs_event = Mutate | Tick u32 u32

record cs_arm =
  cs_map :: expanse_map_t
  cs_i :: u32
  cs_rng :: u32
  cs_tally :: isr_tally

definition cs_mutate :: "u32 \<Rightarrow> expanse_map_t \<Rightarrow> expanse_map_t" where
  "cs_mutate i m =
    (let k = churn_key i
     in if churn_removes i then fst (expanse_map_remove m k) else fst (expanse_map_insert m k (VAL k)))"

fun cs_do :: "cs_event \<Rightarrow> cs_arm \<Rightarrow> cs_arm" where
  "cs_do Mutate s = s\<lparr>cs_map := cs_mutate (cs_i s) (cs_map s), cs_i := cs_i s + 1\<rparr>"
| "cs_do (Tick cvr d) s =
    (let (rng, t) = SysTick_Handler ISR_CS (\<lambda>_. (SYNC32_OTHER, 0)) (expanse_map_get (cs_map s)) cvr d (cs_rng s, cs_tally s)
     in s\<lparr>cs_rng := rng, cs_tally := t\<rparr>)"

definition cs_prefill :: "expanse_map_t \<Rightarrow> expanse_map_t" where
  "cs_prefill m = fold (\<lambda>k m. fst (expanse_map_insert m (of_nat k) (VAL (of_nat k)))) [0..<unat KEYS_FIXED] m"

definition cs_clear :: "expanse_map_t \<Rightarrow> expanse_map_t" where
  "cs_clear m = fold (\<lambda>k m. fst (expanse_map_remove m (of_nat k))) [unat KEYS_FIXED..<unat KEYS] m"

text \<open>One rate of the writer: the tally, and the map it leaves to the next.\<close>

definition cs_duty :: "cs_event list \<Rightarrow> expanse_map_t \<times> u32 \<Rightarrow> isr_tally \<times> expanse_map_t \<times> u32" where
  "cs_duty evs s =
    (let e = fold cs_do evs \<lparr>cs_map = fst s, cs_i = 0, cs_rng = snd s, cs_tally = isr_reset\<rparr>
     in (cs_tally e, cs_clear (cs_map e), cs_rng e))"

fun cs_duties :: "cs_event list list \<Rightarrow> expanse_map_t \<times> u32 \<Rightarrow> isr_tally list" where
  "cs_duties [] s = []"
| "cs_duties (evs # es) s = (case cs_duty evs s of (t, s') \<Rightarrow> t # cs_duties es s')"

definition arm_critical_section :: "cs_event list list \<Rightarrow> u32 \<Rightarrow> isr_tally list" where
  "arm_critical_section es rng = cs_duties es (cs_prefill expanse_map_new, rng)"

section \<open>Correctness\<close>

text \<open>The retry loop ends with the answer of the first attempt that is not refused, and counts the refusals.\<close>

lemma churn_try_returns:
  assumes "\<And>j. j < n \<Longrightarrow> fst (mutate (((\<lambda>w. reclaim (snd (mutate w))) ^^ j) w)) = WS_RECLAIM_BACKLOG"
    "fst (mutate (((\<lambda>w. reclaim (snd (mutate w))) ^^ n) w)) \<noteq> WS_RECLAIM_BACKLOG"
  shows "churn_try mutate reclaim w refused =
    Some (fst (mutate (((\<lambda>w. reclaim (snd (mutate w))) ^^ n) w)), snd (mutate (((\<lambda>w. reclaim (snd (mutate w))) ^^ n) w)), refused + of_nat n)"
  using assms
proof (induction n arbitrary: w refused)
  case 0
  then show ?case by (subst churn_try.simps) (simp add: Let_def)
next
  case (Suc n)
  let ?f = "\<lambda>w. reclaim (snd (mutate w))"
  have sh: "(?f ^^ Suc j) w = (?f ^^ j) (?f w)" for j by (simp add: funpow_Suc_right del: funpow.simps)
  have h: "fst (mutate w) = WS_RECLAIM_BACKLOG" using Suc.prems(1) [of 0] by simp
  have "churn_try mutate reclaim (?f w) (refused + 1) =
      Some (fst (mutate ((?f ^^ n) (?f w))), snd (mutate ((?f ^^ n) (?f w))), refused + 1 + of_nat n)"
  proof (rule Suc.IH)
    fix j assume "j < n"
    then show "fst (mutate ((?f ^^ j) (?f w))) = WS_RECLAIM_BACKLOG" using Suc.prems(1) [of "Suc j"] unfolding sh by simp
  qed (use Suc.prems(2) in \<open>unfold sh\<close>)
  then show ?case unfolding sh using h by (subst churn_try.simps) (simp add: Let_def add.assoc)
qed

lemma hsem_lock_takes: "hsem_lock bs = Some bs' \<Longrightarrow> \<exists>us. bs = us @ True # bs' \<and> True \<notin> set us"
  by (induction bs) (auto split: if_splits intro: exI [of _ "[]"] Cons_eq_appendI)

text \<open>The plain map holds the fixed keys throughout, the churned ones with their value or not at all, and no other.\<close>

definition cs_ok :: "expanse_map_t \<Rightarrow> bool" where
  "cs_ok m \<longleftrightarrow> map_ok m \<and> (\<forall>k < KEYS_FIXED. map_abs m k = Some (VAL k)) \<and>
    (\<forall>k. map_abs m k = None \<or> k < KEYS \<and> map_abs m k = Some (VAL k))"

lemma churn_key_range: "KEYS_FIXED \<le> churn_key i \<and> churn_key i < KEYS"
proof -
  have b: "unat (drop_bit 1 i AND 2047) < 2048" unfolding and_2047 by simp
  then have "unat (2048 + (drop_bit 1 i AND 2047)) = 2048 + unat (drop_bit 1 i AND 2047)"
    using unat_word_ariths(1) [of 2048 "drop_bit 1 i AND 2047"] by simp
  then show ?thesis using b by (simp add: churn_key_def KEYS_FIXED_def KEYS_def word_le_nat_alt word_less_nat_alt)
qed

lemma cs_mutate_ok: "cs_ok m \<Longrightarrow> cs_ok (cs_mutate i m)"
  using map_abs_ops(1,2) [of m "churn_key i" "VAL (churn_key i)"] map_abs_ops(3,4) [of m "churn_key i"] churn_key_range [of i]
  by (auto simp: cs_ok_def cs_mutate_def Let_def not_less)

lemma cs_do_ok:
  assumes "cs_ok (cs_map s)" "answers (cs_tally s) = isr_n (cs_tally s)" "isr_bad (cs_tally s) = 0" "isr_busy (cs_tally s) = 0"
  shows "cs_ok (cs_map (cs_do e s)) \<and> answers (cs_tally (cs_do e s)) = isr_n (cs_tally (cs_do e s)) \<and>
    isr_bad (cs_tally (cs_do e s)) = 0 \<and> isr_busy (cs_tally (cs_do e s)) = 0"
proof (cases e)
  case Mutate
  then show ?thesis using assms cs_mutate_ok by simp
next
  case (Tick cvr d)
  have v: "expanse_map_get (cs_map s) k = None \<or> expanse_map_get (cs_map s) k = Some (VAL k)" for k
    using assms(1) map_abs_ops(7) [of "cs_map s" k] by (auto simp: cs_ok_def)
  obtain rng t where h: "SysTick_Handler ISR_CS (\<lambda>_. (SYNC32_OTHER, 0)) (expanse_map_get (cs_map s)) cvr d (cs_rng s, cs_tally s) = (rng, t)"
    by fastforce
  have "isr_bad t = 0" "isr_busy t = 0" using h assms(3,4) v [of "xorshift (cs_rng s) AND (KEYS - 1)"]
    by (auto simp: SysTick_Handler_def Let_def count_plain_def count_time_def)
  then show ?thesis using SysTick_Handler_adds [OF h assms(2)] assms(1) h Tick by simp
qed

lemma fold_cs_ok:
  "cs_ok (cs_map s) \<Longrightarrow> answers (cs_tally s) = isr_n (cs_tally s) \<Longrightarrow> isr_bad (cs_tally s) = 0 \<Longrightarrow> isr_busy (cs_tally s) = 0 \<Longrightarrow>
   cs_ok (cs_map (fold cs_do es s)) \<and> answers (cs_tally (fold cs_do es s)) = isr_n (cs_tally (fold cs_do es s)) \<and>
    isr_bad (cs_tally (fold cs_do es s)) = 0 \<and> isr_busy (cs_tally (fold cs_do es s)) = 0"
proof (induction es arbitrary: s)
  case (Cons e es)
  note step = cs_do_ok [OF Cons.prems, of e]
  then show ?case using Cons.IH [of "cs_do e s"] by simp
qed simp

lemma unat_keys: "unat KEYS_FIXED = 2048" "unat KEYS = 4096"
  by (simp_all add: KEYS_FIXED_def KEYS_def)

lemma cs_clear_ok:
  assumes "cs_ok m"
  shows "cs_ok (cs_clear m)"
proof -
  have "cs_ok (fold (\<lambda>k m. fst (expanse_map_remove m (of_nat k))) ks m)" if "\<forall>k\<in>set ks. unat KEYS_FIXED \<le> k \<and> k < unat KEYS" for ks
    using that assms
  proof (induction ks arbitrary: m)
    case (Cons k ks)
    then have k: "\<not> (of_nat k :: u32) < KEYS_FIXED" by (simp add: unat_keys word_less_nat_alt unat_of_nat)
    have "cs_ok (fst (expanse_map_remove m (of_nat k)))"
      using Cons.prems(2) map_abs_ops(3,4) [of m "of_nat k"] k by (auto simp: cs_ok_def split: if_splits)
    then show ?case using Cons by simp
  qed simp
  then show ?thesis unfolding cs_clear_def by simp
qed

lemma cs_prefill_ok: "cs_ok (cs_prefill expanse_map_new)"
proof -
  let ?f = "\<lambda>k m. fst (expanse_map_insert m (of_nat k) (VAL (of_nat k)))"
  have "map_ok (fold ?f [0..<n] expanse_map_new) \<and>
      map_abs (fold ?f [0..<n] expanse_map_new) = (\<lambda>k. if unat k < n then Some (VAL k) else None)" if "n \<le> unat KEYS_FIXED" for n
    using that
  proof (induction n)
    case (Suc n)
    let ?m = "fold ?f [0..<n] expanse_map_new"
    have IH: "map_ok ?m" "map_abs ?m = (\<lambda>k. if unat k < n then Some (VAL k) else None)" using Suc by simp_all
    have u: "unat (of_nat n :: u32) = n" using Suc.prems by (simp add: unat_of_nat unat_keys)
    have "unat k = n \<longleftrightarrow> k = of_nat n" for k :: u32 using u by auto
    then have "(map_abs ?m)(of_nat n \<mapsto> VAL (of_nat n)) = (\<lambda>k. if unat k < Suc n then Some (VAL k) else None)"
      unfolding IH(2) using u by (auto simp: fun_eq_iff less_Suc_eq)
    then show ?case using map_abs_ops(1,2) [OF IH(1), of "of_nat n" "VAL (of_nat n)"] by simp
  qed simp
  from this [OF order_refl] have "map_ok (cs_prefill expanse_map_new)"
      "map_abs (cs_prefill expanse_map_new) = (\<lambda>k. if unat k < unat KEYS_FIXED then Some (VAL k) else None)"
    unfolding cs_prefill_def by simp_all
  moreover have "unat KEYS_FIXED < unat KEYS" unfolding unat_keys by simp
  ultimately show ?thesis unfolding cs_ok_def word_less_nat_alt by auto
qed

lemma cs_duties_ok:
  "cs_ok (fst s) \<Longrightarrow> t \<in> set (cs_duties es s) \<Longrightarrow> isr_bad t = 0 \<and> isr_busy t = 0 \<and> answers t = isr_n t"
proof (induction es s rule: cs_duties.induct)
  case (2 evs es s)
  let ?e = "fold cs_do evs \<lparr>cs_map = fst s, cs_i = 0, cs_rng = snd s, cs_tally = isr_reset\<rparr>"
  have e: "cs_ok (cs_map ?e) \<and> answers (cs_tally ?e) = isr_n (cs_tally ?e) \<and> isr_bad (cs_tally ?e) = 0 \<and> isr_busy (cs_tally ?e) = 0"
    by (rule fold_cs_ok) (use 2(2) in \<open>simp_all add: isr_reset_def answers_def\<close>)
  have d: "cs_duty evs s = (cs_tally ?e, cs_clear (cs_map ?e), cs_rng ?e)" by (simp add: cs_duty_def Let_def)
  show ?case using 2(1) [OF d [symmetric]] 2(3) e cs_clear_ok d by auto
qed simp



text \<open>A fixed key is found by every interrupt that asks for it.\<close>

lemma cs_fixed_key_found:
  assumes "cs_ok (cs_map s)" "xorshift (cs_rng s) AND (KEYS - 1) < KEYS_FIXED"
  shows "isr_ok (cs_tally (cs_do (Tick cvr d) s)) = isr_ok (cs_tally s) + 1"
proof -
  have "expanse_map_get (cs_map s) k = Some (VAL k)" if "k < KEYS_FIXED" for k
    using that assms(1) map_abs_ops(7) by (simp add: cs_ok_def)
  then show ?thesis using assms(2) by (simp add: SysTick_Handler_def Let_def count_plain_def count_time_def)
qed

end
