(* ===== verification/Lanes.thy ===== *)
theory Lanes
  imports Harness_Arms Open_Hash
begin

text \<open>
  The two lanes of the LCD demo (\<^verbatim>\<open>integrations/stm32h747/demo/CM7/Core/Src/lanes.c\<close>): the same tracker workload over the
  concurrent map with a time index, and over the open-addressing table with a masked interrupt. The functions of
  the concurrent map, the readings of the cycle counter and the content of fresh memory are arguments (\<^verbatim>\<open>lane_env\<close>); what is
  printed is left out. An access outside an array or a loop that does not end is \<^term>\<open>None\<close>.
\<close>

section \<open>State\<close>

definition N_TRACKED :: nat where "N_TRACKED = 4"
definition TTL_MS :: u32 where "TTL_MS = 60000"
definition TICKS_PER_MS :: u32 where "TICKS_PER_MS = 20000"
definition RETIRE_MAX :: nat where "RETIRE_MAX = 256"
definition RING_LEN :: u32 where "RING_LEN = 8192"
definition REHASH_MAX :: nat where "REHASH_MAX = 24"
definition SLAB_CAP :: u32 where "SLAB_CAP = 100000 + 100000 div 8 + 1024"

definition UINT32_MAX :: u32 where "UINT32_MAX = 0xFFFFFFFF"

datatype ring_slot = SLOT_NONE | SLOT_VALUE | SLOT_BUSY | SLOT_WRONG | SLOT_HELD

datatype hash_mode = HASH_MASK_WHOLE | HASH_MASK_PER_WRITE | HASH_UNMASKED

record lane_rec =
  rec_id :: u32
  rec_born_ms :: u32
  rec_used :: bool

record 's lane_env =
  so_new :: "nat \<Rightarrow> 's option"
  so_insert :: "'s \<Rightarrow> u32 \<Rightarrow> u32 \<Rightarrow> writer_status \<times> 's"
  so_remove :: "'s \<Rightarrow> u32 \<Rightarrow> writer_status \<times> 's"
  so_reclaim :: "'s \<Rightarrow> 's"
  so_get :: "'s \<Rightarrow> u32 \<Rightarrow> sync32_status \<times> u32"
  clk :: "nat \<Rightarrow> u32"
  fresh :: "nat \<Rightarrow> u32 list"

text \<open>\<open>ln_reads\<close> counts the readings of the cycle counter, \<open>ln_irq_on\<close> is whether the interrupt of the lane is enabled.\<close>

record 's lane =
  ln_expanse :: bool
  ln_mode :: hash_mode
  ln_growable :: bool
  ln_slab :: "lane_rec list"
  ln_cap :: u32
  ln_free_stack :: "u32 list"
  ln_free_top :: u32
  ln_sync :: "'s option"
  ln_by_time :: expanse_map_t
  ln_hash :: "ohash option"
  ln_tracked_idx :: "u32 list"
  ln_tracked_id :: "u32 list"
  ln_retire :: "u32 list"
  ln_retire_n :: nat
  ln_churn_cursor :: u32
  ln_last_churn_ms :: u32
  ln_count :: u32
  ln_seq :: u32
  ln_rng :: u32
  ln_ingest_acc :: u32
  ln_ingest_last_ms :: u32
  ln_drops :: u32
  ln_expected_cnt :: u32
  ln_isr_served :: u32
  ln_blocked_ms :: u32
  ln_lat_max_ticks :: u32
  ln_isr_ok :: u32
  ln_isr_nf :: u32
  ln_isr_busy :: u32
  ln_isr_bad :: u32
  ln_no_value_ms :: u32
  ln_stale_run :: u32
  ln_stale_max :: u32
  ln_body_max_cyc :: u32
  ln_body_total_cyc :: u32
  ln_ring :: "ring_slot list"
  ln_sweep_us :: u32
  ln_sweep_net_us :: u32
  ln_sweep_removed :: u32
  ln_mask_max_cyc :: u32
  ln_mask_t0 :: u32
  ln_irq_masked :: u32
  ln_rehash_ms :: "u32 list"
  ln_rehash_n :: nat
  ln_rehash_moved :: "u32 list"
  ln_index_bytes :: u32
  ln_lookup_ns :: u32
  ln_reads :: nat
  ln_irq_on :: bool

definition tk_of :: "u32 \<Rightarrow> u32 \<Rightarrow> u32" where
  "tk_of born_ms seq = push_bit 8 born_ms OR (seq AND 0xFF)"

section \<open>Masking\<close>

definition lane_mask :: "'s lane_env \<Rightarrow> 's lane \<Rightarrow> 's lane" where
  "lane_mask env l =
    (if ln_irq_masked l = 0
     then l\<lparr>ln_irq_masked := 1, ln_irq_on := False, ln_mask_t0 := clk env (ln_reads l), ln_reads := ln_reads l + 1\<rparr>
     else l\<lparr>ln_irq_masked := ln_irq_masked l + 1\<rparr>)"

definition lane_unmask :: "'s lane_env \<Rightarrow> 's lane \<Rightarrow> 's lane" where
  "lane_unmask env l =
    (let l1 = l\<lparr>ln_irq_masked := ln_irq_masked l - 1\<rparr>
     in if ln_irq_masked l1 = 0
        then let w = clk env (ln_reads l) - ln_mask_t0 l
             in l1\<lparr>ln_mask_max_cyc := (if w > ln_mask_max_cyc l then w else ln_mask_max_cyc l), ln_irq_on := True, ln_reads := ln_reads l + 1\<rparr>
        else l1)"

definition write_begin :: "'s lane_env \<Rightarrow> 's lane \<Rightarrow> 's lane" where
  "write_begin env l = (if \<not> ln_expanse l \<and> ln_mode l \<noteq> HASH_UNMASKED then lane_mask env l else l)"

definition write_end :: "'s lane_env \<Rightarrow> 's lane \<Rightarrow> 's lane" where
  "write_end env l = (if \<not> ln_expanse l \<and> ln_mode l \<noteq> HASH_UNMASKED then lane_unmask env l else l)"

section \<open>Slab and tables\<close>

definition slot_alloc :: "'s lane \<Rightarrow> (u32 \<times> 's lane) option" where
  "slot_alloc l =
    (if ln_free_top l \<noteq> 0
     then do { i \<leftarrow> rd (ln_free_stack l) (unat (ln_free_top l - 1)); Some (i, l\<lparr>ln_free_top := ln_free_top l - 1\<rparr>) }
     else Some (UINT32_MAX, l))"

definition slot_free :: "'s lane \<Rightarrow> u32 \<Rightarrow> 's lane option" where
  "slot_free l idx =
    do { r \<leftarrow> rd (ln_slab l) (unat idx);
         s \<leftarrow> wr (ln_slab l) (unat idx) (r\<lparr>rec_used := False, rec_id := 0\<rparr>);
         f \<leftarrow> wr (ln_free_stack l) (unat (ln_free_top l)) idx;
         Some (l\<lparr>ln_slab := s, ln_free_stack := f, ln_free_top := ln_free_top l + 1\<rparr>) }"

definition note_rehash :: "u32 \<Rightarrow> ohash \<Rightarrow> 's lane \<Rightarrow> 's lane option" where
  "note_rehash grow h l =
    (if grow = 0 then Some l
     else let ms = (grow + 200000) div 400000
          in if ms \<ge> 2 \<and> ln_rehash_n l < REHASH_MAX
             then do { a \<leftarrow> wr (ln_rehash_ms l) (ln_rehash_n l) ms;
                       b \<leftarrow> wr (ln_rehash_moved l) (ln_rehash_n l) (fst (alt_open_hash_shape h));
                       Some (l\<lparr>ln_rehash_ms := a, ln_rehash_moved := b, ln_rehash_n := ln_rehash_n l + 1\<rparr>) }
             else Some l)"

definition tbl_insert :: "'s lane_env \<Rightarrow> 's lane \<Rightarrow> u32 \<Rightarrow> u32 \<Rightarrow> (bool \<times> 's lane) option" where
  "tbl_insert env l rid idx =
    (if ln_expanse l
     then do { w \<leftarrow> ln_sync l;
               (st, w', _) \<leftarrow> churn_try (\<lambda>w. so_insert env w rid idx) (so_reclaim env) w 0;
               Some (st = WS_OK, l\<lparr>ln_sync := Some w'\<rparr>) }
     else do { let l1 = write_begin env l;
               h \<leftarrow> ln_hash l1;
               l2 \<leftarrow> (if ln_growable l1
                 then do { (h', grow) \<leftarrow> alt_open_hash_insert_grow h rid idx (fresh env ((oh_mask h + 1) * 2)) (clk env (ln_reads l1)) (clk env (ln_reads l1 + 1));
                           note_rehash grow h' (l1\<lparr>ln_hash := Some h', ln_reads := ln_reads l1 + 2\<rparr>) }
                 else do { h' \<leftarrow> oh_insert h rid idx; Some (l1\<lparr>ln_hash := Some h'\<rparr>) });
               Some (True, write_end env l2) })"

definition tbl_remove :: "'s lane_env \<Rightarrow> 's lane \<Rightarrow> u32 \<Rightarrow> 's lane option" where
  "tbl_remove env l rid =
    (if ln_expanse l
     then do { w \<leftarrow> ln_sync l;
               (_, w', _) \<leftarrow> churn_try (\<lambda>w. so_remove env w rid) (so_reclaim env) w 0;
               Some (l\<lparr>ln_sync := Some w'\<rparr>) }
     else do { let l1 = write_begin env l; h \<leftarrow> ln_hash l1; h' \<leftarrow> oh_remove h rid; Some (write_end env (l1\<lparr>ln_hash := Some h'\<rparr>)) })"

section \<open>Filling\<close>

partial_function (option) draw_id :: "u32 \<Rightarrow> u32 option" where
  "draw_id s =
    (let rid = xorshift s
     in if rid AND 0xFFFF0000 = 0xC0DE0000 \<or> rid = 0 then draw_id rid else Some rid)"

definition add_record :: "'s lane_env \<Rightarrow> 's lane \<Rightarrow> u32 \<Rightarrow> (bool \<times> 's lane) option" where
  "add_record env l born_ms =
    do { (idx, l1) \<leftarrow> slot_alloc l;
         if idx = UINT32_MAX then Some (False, l1)
         else do { rid \<leftarrow> draw_id (ln_rng l1);
                   s \<leftarrow> wr (ln_slab l1) (unat idx) \<lparr>rec_id = rid, rec_born_ms = born_ms, rec_used = True\<rparr>;
                   (ok, l2) \<leftarrow> tbl_insert env (l1\<lparr>ln_rng := rid, ln_slab := s\<rparr>) rid idx;
                   if \<not> ok then do { l3 \<leftarrow> slot_free l2 idx; Some (False, l3) }
                   else let l3 = (if ln_expanse l2
                                  then l2\<lparr>ln_by_time := fst (expanse_map_insert (ln_by_time l2) (tk_of born_ms (ln_seq l2)) idx)\<rparr> else l2)
                        in Some (True, l3\<lparr>ln_seq := ln_seq l3 + 1, ln_count := ln_count l3 + 1\<rparr>) } }"

definition structures_free :: "'s lane \<Rightarrow> 's lane" where
  "structures_free l =
    (if ln_expanse l then l\<lparr>ln_sync := None, ln_by_time := expanse_map_free (ln_by_time l)\<rparr> else l\<lparr>ln_hash := None\<rparr>)"

definition slots_reset :: "'s lane \<Rightarrow> 's lane option" where
  "slots_reset l =
    for_loop [0..<unat (ln_cap l)] (\<lambda>i l.
      do { f \<leftarrow> wr (ln_free_stack l) i (ln_cap l - 1 - of_nat i);
           r \<leftarrow> rd (ln_slab l) i;
           s \<leftarrow> wr (ln_slab l) i (r\<lparr>rec_used := False, rec_id := 0\<rparr>);
           Some (l\<lparr>ln_free_stack := f, ln_slab := s\<rparr>) }) l"

text \<open>The largest capacity of the concurrent map that can be allocated.\<close>

definition sync_largest :: "'s lane_env \<Rightarrow> 's option" where
  "sync_largest env = fold (\<lambda>node_cap m. if m = None then so_new env node_cap else m) [65536, 32768, 16384, 8192] None"

definition structures_new :: "'s lane_env \<Rightarrow> 's lane \<Rightarrow> u32 \<Rightarrow> 's lane option" where
  "structures_new env l records =
    (if ln_expanse l
     then do { m \<leftarrow> sync_largest env; Some (l\<lparr>ln_sync := Some m, ln_by_time := expanse_map_new\<rparr>) }
     else let n = unat (if records \<noteq> 0 then records else 8)
          in Some (l\<lparr>ln_hash := Some (oh_create (fresh env (oh_size 16 n)) n)\<rparr>))"

definition track :: "'s lane_env \<Rightarrow> nat \<Rightarrow> bool \<times> 's lane \<Rightarrow> (bool \<times> 's lane) option" where
  "track env t s =
    (case s of (ok, l) \<Rightarrow>
      if \<not> ok then Some s
      else do { (idx, l1) \<leftarrow> slot_alloc l;
                sl \<leftarrow> wr (ln_slab l1) (unat idx) \<lparr>rec_id = 0xC0DE0000 + of_nat t, rec_born_ms = 0xFFFF0000, rec_used = True\<rparr>;
                ti \<leftarrow> wr (ln_tracked_idx l1) t idx;
                td \<leftarrow> wr (ln_tracked_id l1) t (0xC0DE0000 + of_nat t);
                tbl_insert env (l1\<lparr>ln_slab := sl, ln_tracked_idx := ti, ln_tracked_id := td\<rparr>) (0xC0DE0000 + of_nat t) idx })"

definition prefill :: "'s lane_env \<Rightarrow> u32 \<Rightarrow> nat \<Rightarrow> (bool \<times> 's lane) \<times> u32 \<Rightarrow> ((bool \<times> 's lane) \<times> u32) option" where
  "prefill env pretend_now i s =
    (case s of ((ok, l), seed) \<Rightarrow>
      if \<not> ok then Some s
      else let seed' = xorshift seed
           in do { r \<leftarrow> add_record env l (pretend_now - seed' mod TTL_MS); Some (r, seed') })"

definition lane_fill :: "'s lane_env \<Rightarrow> 's lane \<Rightarrow> u32 \<Rightarrow> u32 \<Rightarrow> (bool \<times> 's lane) option" where
  "lane_fill env l records now_ms =
    do { l1 \<leftarrow> slots_reset (structures_free l);
         let l2 = l1\<lparr>ln_free_top := ln_cap l1, ln_count := 0, ln_seq := 0, ln_retire_n := 0, ln_ingest_acc := 0,
                     ln_ingest_last_ms := 0, ln_drops := 0, ln_rehash_n := 0,
                     ln_rng := (if ln_expanse l1 then 0x9E3779B9 else 0x2545F491)\<rparr>;
         case structures_new env l2 records of
           None \<Rightarrow> Some (False, l2)
         | Some l3 \<Rightarrow>
             do { s \<leftarrow> for_loop [0..<N_TRACKED] (track env) (True, l3);
                  (r, _) \<leftarrow> for_loop [0..<unat records] (prefill env (now_ms + TTL_MS + 1000)) (s, 0x1234567);
                  Some r } }"

section \<open>The main loop\<close>

fun ingest_loop :: "'s lane_env \<Rightarrow> u32 \<Rightarrow> u32 \<Rightarrow> nat \<Rightarrow> 's lane \<Rightarrow> 's lane option" where
  "ingest_loop env born cap_records 0 l = Some l"
| "ingest_loop env born cap_records (Suc n) l =
    (if ln_ingest_acc l \<ge> 1000 \<and> ln_count l < cap_records
     then do { (ok, l1) \<leftarrow> add_record env l born;
               let l2 = (if ok then l1 else l1\<lparr>ln_drops := ln_drops l1 + 1\<rparr>);
               ingest_loop env born cap_records n (l2\<lparr>ln_ingest_acc := ln_ingest_acc l2 - 1000\<rparr>) }
     else Some l)"

definition lane_ingest :: "'s lane_env \<Rightarrow> 's lane \<Rightarrow> u32 \<Rightarrow> u32 \<Rightarrow> u32 \<Rightarrow> 's lane option" where
  "lane_ingest env l now_ms rate_per_s cap_records =
    do { let l1 = (if ln_ingest_last_ms l = 0 then l\<lparr>ln_ingest_last_ms := now_ms\<rparr> else l);
         let l2 = l1\<lparr>ln_ingest_acc := ln_ingest_acc l1 + (now_ms - ln_ingest_last_ms l1) * rate_per_s, ln_ingest_last_ms := now_ms\<rparr>;
         l3 \<leftarrow> ingest_loop env (now_ms + TTL_MS + 1000) cap_records 256 l2;
         let cap = rate_per_s * 1000;
         Some (if ln_ingest_acc l3 > cap
               then l3\<lparr>ln_drops := (if ln_count l3 < cap_records then ln_drops l3 + (ln_ingest_acc l3 - cap) div 1000 else ln_drops l3), ln_ingest_acc := cap\<rparr>
               else l3) }"

definition lane_churn :: "'s lane_env \<Rightarrow> 's lane \<Rightarrow> u32 \<Rightarrow> 's lane option" where
  "lane_churn env l now_ms =
    (if now_ms - ln_last_churn_ms l < 50 then Some l
     else do { let t = unat (ln_churn_cursor l mod of_nat N_TRACKED);
               let l1 = l\<lparr>ln_last_churn_ms := now_ms, ln_churn_cursor := ln_churn_cursor l + 1\<rparr>;
               old_idx \<leftarrow> rd (ln_tracked_idx l1) t;
               (new_idx, l2) \<leftarrow> slot_alloc l1;
               if new_idx = UINT32_MAX \<or> ln_retire_n l2 \<ge> RETIRE_MAX then Some l2
               else do { r \<leftarrow> rd (ln_slab l2) (unat old_idx);
                         s \<leftarrow> wr (ln_slab l2) (unat new_idx) r;
                         rid \<leftarrow> rd (ln_tracked_id l2) t;
                         (_, l3) \<leftarrow> tbl_insert env (l2\<lparr>ln_slab := s\<rparr>) rid new_idx;
                         ti \<leftarrow> wr (ln_tracked_idx l3) t new_idx;
                         rt \<leftarrow> wr (ln_retire l3) (ln_retire_n l3) old_idx;
                         Some (l3\<lparr>ln_tracked_idx := ti, ln_retire := rt, ln_retire_n := ln_retire_n l3 + 1\<rparr>) } })"

text \<open>The callbacks of a sweep work on the lane and the number of removals.\<close>

definition expanse_sweep_cb :: "'s lane_env \<Rightarrow> u32 \<Rightarrow> u32 \<Rightarrow> ('s lane \<times> u32) option \<Rightarrow> ('s lane \<times> u32) option" where
  "expanse_sweep_cb env tk idx c =
    do { (l, removed) \<leftarrow> c;
         r \<leftarrow> rd (ln_slab l) (unat idx);
         l1 \<leftarrow> tbl_remove env l (rec_id r);
         l2 \<leftarrow> slot_free l1 idx;
         Some (l2, removed + 1) }"

definition hash_expired :: "'s lane_env \<Rightarrow> u32 \<Rightarrow> u32 \<Rightarrow> u32 \<Rightarrow> ('s lane \<times> u32) option \<Rightarrow> bool \<times> ('s lane \<times> u32) option" where
  "hash_expired env cutoff rid idx c =
    (case c of
       None \<Rightarrow> (False, None)
     | Some (l, removed) \<Rightarrow>
         let l1 = (if ln_mode l = HASH_MASK_PER_WRITE \<and> ln_irq_masked l \<noteq> 0 then lane_unmask env l else l)
         in case rd (ln_slab l1) (unat idx) of
              None \<Rightarrow> (False, None)
            | Some r \<Rightarrow>
                if rec_born_ms r + TTL_MS > cutoff then (False, Some (l1, removed))
                else case slot_free l1 idx of
                       None \<Rightarrow> (False, None)
                     | Some l2 \<Rightarrow> (True, Some (if ln_mode l2 = HASH_MASK_PER_WRITE then lane_mask env l2 else l2, removed + 1)))"

definition hash_scan :: "'s lane_env \<Rightarrow> u32 \<Rightarrow> 's lane \<Rightarrow> ('s lane \<times> u32) option" where
  "hash_scan env cutoff l =
    do { h \<leftarrow> ln_hash l;
         (h', c, _) \<leftarrow> oh_evict_scan h (hash_expired env cutoff) (Some (l, 0));
         (l1, removed) \<leftarrow> c;
         Some (l1\<lparr>ln_hash := Some h'\<rparr>, removed) }"

text \<open>\<open>isr0\<close> and \<open>isr1\<close> are the cycles spent in both interrupts before and after the sweep.\<close>

definition sweep_entries :: "'s lane_env \<Rightarrow> 's lane \<Rightarrow> u32 \<Rightarrow> ('s lane \<times> u32) option" where
  "sweep_entries env l pretend_now =
    (if ln_expanse l
     then let (m, c, _) = expanse_map_remove_range (ln_by_time l) 0 (tk_of (pretend_now - TTL_MS) 0xFF) (Some (expanse_sweep_cb env)) (Some (l, 0))
          in do { (l1, removed) \<leftarrow> c; Some (l1\<lparr>ln_by_time := m\<rparr>, removed) }
     else if ln_mode l = HASH_MASK_WHOLE
     then do { (l1, removed) \<leftarrow> hash_scan env pretend_now (lane_mask env l); Some (lane_unmask env l1, removed) }
     else do { (l1, removed) \<leftarrow> hash_scan env pretend_now l;
               Some (if ln_irq_masked l1 \<noteq> 0 then lane_unmask env l1 else l1, removed) })"

definition free_retired :: "'s lane \<Rightarrow> 's lane option" where
  "free_retired l =
    do { l1 \<leftarrow> for_loop [0..<ln_retire_n l] (\<lambda>i l. do { r \<leftarrow> rd (ln_retire l) i; slot_free l r }) l;
         Some (l1\<lparr>ln_retire_n := 0\<rparr>) }"

definition lane_sweep :: "'s lane_env \<Rightarrow> 's lane \<Rightarrow> u32 \<Rightarrow> u32 \<Rightarrow> u32 \<Rightarrow> 's lane option" where
  "lane_sweep env l now_ms isr0 isr1 =
    do { let t0 = clk env (ln_reads l);
         (l1, removed) \<leftarrow> sweep_entries env (l\<lparr>ln_reads := ln_reads l + 1\<rparr>) (now_ms + TTL_MS + 1000);
         let cyc = clk env (ln_reads l1) - t0;
         free_retired (l1\<lparr>ln_reads := ln_reads l1 + 1, ln_sweep_us := cyc div 400,
           ln_sweep_net_us := (if cyc > isr1 - isr0 then cyc - (isr1 - isr0) else 0) div 400,
           ln_sweep_removed := removed, ln_count := ln_count l1 - removed\<rparr>) }"

definition lane_step_reset :: "'s lane \<Rightarrow> 's lane" where
  "lane_step_reset l =
    l\<lparr>ln_blocked_ms := 0, ln_lat_max_ticks := 0, ln_isr_served := 0, ln_isr_ok := 0, ln_isr_nf := 0, ln_isr_busy := 0, ln_isr_bad := 0,
      ln_no_value_ms := 0, ln_stale_run := 0, ln_stale_max := 0, ln_body_max_cyc := 0, ln_mask_max_cyc := 0, ln_drops := 0, ln_rehash_n := 0\<rparr>"

section \<open>The scoreboard\<close>

text \<open>The bytes the concurrent map reports (if it answers) and those of the time index are arguments.\<close>

definition lane_index_bytes :: "u32 option \<Rightarrow> u32 \<Rightarrow> 's lane \<Rightarrow> u32 option" where
  "lane_index_bytes stats time_mem l =
    (if ln_expanse l then Some (case stats of None \<Rightarrow> 0 | Some m \<Rightarrow> m + time_mem)
     else do { h \<leftarrow> ln_hash l; Some (of_nat (alt_open_hash_bytes h)) })"

fun sample_ids :: "'s lane \<Rightarrow> nat \<Rightarrow> u32 \<Rightarrow> u32 list \<Rightarrow> u32 list option" where
  "sample_ids l 0 probe ids = Some ids"
| "sample_ids l (Suc tries) probe ids =
    (if length ids \<ge> 64 then Some ids
     else let probe' = probe * 1664525 + 1013904223
          in do { r \<leftarrow> rd (ln_slab l) (unat (probe' mod ln_cap l));
                  sample_ids l tries probe' (if rec_used r \<and> rec_id r \<noteq> 0 then ids @ [rec_id r] else ids) })"

definition lookup_batch :: "'s lane_env \<Rightarrow> 's lane \<Rightarrow> u32 list \<Rightarrow> u32 option" where
  "lookup_batch env l ids =
    for_loop [0..<length ids] (\<lambda>i sink.
      if ln_expanse l
      then do { w \<leftarrow> ln_sync l; Some (case so_get env w (ids ! i) of (SYNC32_OK, v) \<Rightarrow> sink + v | _ \<Rightarrow> sink) }
      else do { h \<leftarrow> ln_hash l; r \<leftarrow> oh_get h (ids ! i); Some (case r of Some v \<Rightarrow> sink + v | None \<Rightarrow> sink) }) 0"

definition lane_lookup_ns :: "'s lane_env \<Rightarrow> 's lane \<Rightarrow> (u32 \<times> 's lane) option" where
  "lane_lookup_ns env l =
    do { ids \<leftarrow> sample_ids l 4096 (ln_rng l XOR 0xA5A5A5A5) [];
         if length ids < 8 then Some (0, l)
         else do { best \<leftarrow> for_loop [0..<3] (\<lambda>b best. do { s \<leftarrow> lookup_batch env l ids;
                      let cyc = clk env (ln_reads l + 2 * b + 1) - clk env (ln_reads l + 2 * b);
                      Some (if cyc < best then cyc else best) }) UINT32_MAX;
                   Some (best * 10 div (4 * of_nat (length ids)), l\<lparr>ln_reads := ln_reads l + 6\<rparr>) } }"

definition lane_measure_scoreboard :: "'s lane_env \<Rightarrow> u32 option \<Rightarrow> u32 \<Rightarrow> 's lane \<Rightarrow> 's lane option" where
  "lane_measure_scoreboard env stats time_mem l =
    do { b \<leftarrow> lane_index_bytes stats time_mem l;
         (ns, l') \<leftarrow> lane_lookup_ns env (l\<lparr>ln_index_bytes := b\<rparr>);
         Some (l'\<lparr>ln_lookup_ns := ns\<rparr>) }"

section \<open>The interrupt\<close>

definition isr_late :: "u32 \<Rightarrow> u32 \<Rightarrow> 's lane \<Rightarrow> 's lane option" where
  "isr_late tim2_now now_ms l =
    (let lat0 = tim2_now - ln_expected_cnt l;
         lat = (if sint lat0 < 0 then 0 else lat0);
         missed = lat div TICKS_PER_MS;
         l1 = l\<lparr>ln_expected_cnt := ln_expected_cnt l + TICKS_PER_MS * (1 + missed)\<rparr>
     in do { l2 \<leftarrow> (if missed \<noteq> 0
               then do { ring \<leftarrow> for_loop [1..<Suc (unat (if missed > 255 then 255 else missed))]
                             (\<lambda>k ring. wr ring (unat ((now_ms - of_nat k) AND (RING_LEN - 1))) SLOT_HELD) (ln_ring l1);
                         let run = ln_stale_run l1 + missed;
                         Some (l1\<lparr>ln_blocked_ms := ln_blocked_ms l1 + missed, ln_ring := ring, ln_no_value_ms := ln_no_value_ms l1 + missed,
                                 ln_stale_run := run, ln_stale_max := (if run > ln_stale_max l1 then run else ln_stale_max l1)\<rparr>) }
               else Some l1);
             Some (l2\<lparr>ln_lat_max_ticks := (if lat > ln_lat_max_ticks l2 then lat else ln_lat_max_ticks l2), ln_isr_served := ln_isr_served l2 + 1\<rparr>) })"

definition isr_check :: "u32 \<Rightarrow> u32 \<Rightarrow> 's lane \<times> ring_slot \<Rightarrow> ('s lane \<times> ring_slot) option" where
  "isr_check rid idx s =
    (case s of (l, mark) \<Rightarrow>
      if idx \<ge> ln_cap l then Some (l\<lparr>ln_isr_bad := ln_isr_bad l + 1\<rparr>, SLOT_WRONG)
      else do { r \<leftarrow> rd (ln_slab l) (unat idx);
                if rec_id r \<noteq> rid then Some (l\<lparr>ln_isr_bad := ln_isr_bad l + 1\<rparr>, SLOT_WRONG)
                else Some (l\<lparr>ln_isr_ok := ln_isr_ok l + 1\<rparr>, mark) })"

definition isr_read :: "'s lane_env \<Rightarrow> nat \<Rightarrow> 's lane \<times> ring_slot \<Rightarrow> ('s lane \<times> ring_slot) option" where
  "isr_read env d s =
    (case s of (l, mark) \<Rightarrow>
      do { rid \<leftarrow> rd (ln_tracked_id l) d;
           if ln_expanse l
           then do { w \<leftarrow> ln_sync l;
                     case so_get env w rid of
                       (SYNC32_BUSY, _) \<Rightarrow> Some (l\<lparr>ln_isr_busy := ln_isr_busy l + 1\<rparr>, if mark = SLOT_VALUE then SLOT_BUSY else mark)
                     | (SYNC32_OK, idx) \<Rightarrow> isr_check rid idx s
                     | _ \<Rightarrow> Some (l\<lparr>ln_isr_nf := ln_isr_nf l + 1\<rparr>, SLOT_WRONG) }
           else do { h \<leftarrow> ln_hash l;
                     v \<leftarrow> oh_get h rid;
                     case v of
                       Some idx \<Rightarrow> isr_check rid idx s
                     | None \<Rightarrow> Some (l\<lparr>ln_isr_nf := ln_isr_nf l + 1\<rparr>, SLOT_WRONG) } })"

definition lane_isr :: "'s lane_env \<Rightarrow> 's lane \<Rightarrow> u32 \<Rightarrow> u32 \<Rightarrow> 's lane option" where
  "lane_isr env l tim2_now now_ms =
    do { let body0 = clk env (ln_reads l);
         l1 \<leftarrow> isr_late tim2_now now_ms (l\<lparr>ln_reads := ln_reads l + 1\<rparr>);
         (l2, mark) \<leftarrow> for_loop [0..<N_TRACKED] (isr_read env) (l1, SLOT_VALUE);
         ring \<leftarrow> wr (ln_ring l2) (unat (now_ms AND (RING_LEN - 1))) mark;
         let run = (if mark = SLOT_VALUE then 0 else ln_stale_run l2 + 1);
         let body = clk env (ln_reads l2) - body0;
         Some (l2\<lparr>ln_ring := ring, ln_stale_run := run,
           ln_no_value_ms := (if mark = SLOT_VALUE then ln_no_value_ms l2 else ln_no_value_ms l2 + 1),
           ln_stale_max := (if run > ln_stale_max l2 then run else ln_stale_max l2),
           ln_reads := ln_reads l2 + 1, ln_body_total_cyc := ln_body_total_cyc l2 + body,
           ln_body_max_cyc := (if body > ln_body_max_cyc l2 then body else ln_body_max_cyc l2)\<rparr>) }"

end
