(* ===== verification/Lanes_Masking.thy ===== *)
theory Lanes_Masking
  imports Lanes
begin

text \<open>
  The lane over the open-addressing table: whatever its masking mode, the interrupt is enabled again after every operation of
  the main loop, and it is disabled while the table is written.
\<close>

text \<open>The interrupt is enabled exactly when no section masks it, and at most \<open>n\<close> do.\<close>

definition masked_upto :: "u32 \<Rightarrow> 's lane \<Rightarrow> bool" where
  "masked_upto n l \<longleftrightarrow> ln_irq_masked l \<le> n \<and> (ln_irq_on l \<longleftrightarrow> ln_irq_masked l = 0)"

lemma lane_mask_fields [simp]:
  "ln_mode (lane_mask env l) = ln_mode l" "ln_expanse (lane_mask env l) = ln_expanse l" "ln_hash (lane_mask env l) = ln_hash l"
  "ln_mode (lane_unmask env l) = ln_mode l" "ln_expanse (lane_unmask env l) = ln_expanse l" "ln_hash (lane_unmask env l) = ln_hash l"
  by (simp_all add: lane_mask_def lane_unmask_def Let_def)

lemma mask_closes: "masked_upto 0 l \<Longrightarrow> ln_irq_masked (lane_mask env l) = 1 \<and> \<not> ln_irq_on (lane_mask env l)"
  by (simp add: masked_upto_def lane_mask_def)

lemma unmask_opens: "ln_irq_masked l = 1 \<Longrightarrow> masked_upto 0 (lane_unmask env l)"
  by (simp add: masked_upto_def lane_unmask_def Let_def)

lemma note_rehash_masks: "note_rehash g h l = Some l' \<Longrightarrow> ln_irq_masked l' = ln_irq_masked l \<and> ln_irq_on l' = ln_irq_on l \<and> ln_expanse l' = ln_expanse l \<and> ln_mode l' = ln_mode l"
  by (auto simp: note_rehash_def Let_def split: if_splits Option.bind_splits)

lemma write_section:
  assumes "\<not> ln_expanse l" "masked_upto 0 l" "ln_irq_masked l' = ln_irq_masked (write_begin env l)" "ln_irq_on l' = ln_irq_on (write_begin env l)"
    "ln_expanse l' = ln_expanse l" "ln_mode l' = ln_mode l"
  shows "masked_upto 0 (write_end env l')"
proof (cases "ln_mode l = HASH_UNMASKED")
  case True
  then show ?thesis using assms by (simp add: write_begin_def write_end_def masked_upto_def)
next
  case False
  then have "ln_irq_masked l' = 1" using assms mask_closes [OF assms(2), of env] by (simp add: write_begin_def)
  then show ?thesis using False assms unmask_opens by (simp add: write_end_def)
qed

lemma write_begin_fields [simp]:
  "ln_mode (write_begin env l) = ln_mode l" "ln_expanse (write_begin env l) = ln_expanse l" "ln_hash (write_begin env l) = ln_hash l"
  by (simp_all add: write_begin_def)

lemma tbl_ops_unmask:
  assumes "\<not> ln_expanse l" "masked_upto 0 l"
  shows "tbl_insert env l rid idx = Some (ok, l') \<Longrightarrow> masked_upto 0 l'" "tbl_remove env l rid = Some l' \<Longrightarrow> masked_upto 0 l'"
proof -
  assume "tbl_insert env l rid idx = Some (ok, l')"
  then obtain l2 where l2: "l' = write_end env l2" "ln_irq_masked l2 = ln_irq_masked (write_begin env l)" "ln_irq_on l2 = ln_irq_on (write_begin env l)"
      "ln_expanse l2 = ln_expanse l" "ln_mode l2 = ln_mode l"
    using assms(1) by (auto simp: tbl_insert_def Let_def split: if_splits Option.bind_splits dest!: note_rehash_masks)
  then show "masked_upto 0 l'" using write_section [OF assms] by simp
next
  assume "tbl_remove env l rid = Some l'"
  then obtain h' where "l' = write_end env (write_begin env l\<lparr>ln_hash := Some h'\<rparr>)"
    using assms(1) by (auto simp: tbl_remove_def Let_def split: Option.bind_splits)
  then show "masked_upto 0 l'" using write_section [OF assms, of "write_begin env l\<lparr>ln_hash := Some h'\<rparr>"] by simp
qed

section \<open>The scan\<close>

text \<open>What holds of the lane between two calls of the predicate of a scan: the whole scan masked, or at most the removal
  of the entry before.\<close>

definition scan_masks :: "hash_mode \<Rightarrow> ('s lane \<times> u32) option \<Rightarrow> bool" where
  "scan_masks mode c \<longleftrightarrow> (case c of None \<Rightarrow> True | Some (l, n) \<Rightarrow> ln_mode l = mode \<and> \<not> ln_expanse l \<and>
    (if mode = HASH_MASK_WHOLE then ln_irq_masked l = 1 else masked_upto (if mode = HASH_MASK_PER_WRITE then 1 else 0) l))"

lemma slot_free_masks: "slot_free l idx = Some l' \<Longrightarrow> ln_irq_masked l' = ln_irq_masked l \<and> ln_irq_on l' = ln_irq_on l \<and> ln_mode l' = ln_mode l \<and> ln_expanse l' = ln_expanse l"
  by (auto simp: slot_free_def split: Option.bind_splits)

lemma word_le_1: "x \<le> 1 \<Longrightarrow> x \<noteq> 0 \<Longrightarrow> x = 1" for x :: u32
  by (simp add: word_le_nat_alt word_unat_eq_iff)

lemma hash_expired_masks:
  assumes "scan_masks mode c"
  shows "scan_masks mode (snd (hash_expired env cutoff rid idx c))"
proof (cases c)
  case None
  then show ?thesis by (simp add: hash_expired_def scan_masks_def)
next
  case (Some p)
  obtain l n where p: "p = (l, n)" by (cases p)
  have l: "ln_mode l = mode" "\<not> ln_expanse l" using assms Some p by (simp_all add: scan_masks_def)
  define l1 where "l1 = (if ln_mode l = HASH_MASK_PER_WRITE \<and> ln_irq_masked l \<noteq> 0 then lane_unmask env l else l)"
  have l1: "ln_mode l1 = mode" "\<not> ln_expanse l1" using l by (simp_all add: l1_def)
  have m1: "if mode = HASH_MASK_WHOLE then ln_irq_masked l1 = 1 else masked_upto 0 l1"
    using assms Some p word_le_1 [of "ln_irq_masked l"] unmask_opens [of l env]
    by (auto simp: scan_masks_def l1_def masked_upto_def split: if_splits)
  have keep: "scan_masks mode (Some (l1, k))" for k using l1 m1 by (auto simp: scan_masks_def masked_upto_def)
  have free: "scan_masks mode (Some (if ln_mode l2 = HASH_MASK_PER_WRITE then lane_mask env l2 else l2, k))" if "slot_free l1 idx = Some l2" for l2 k
  proof -
    note f = slot_free_masks [OF that]
    show ?thesis
    proof (cases "mode = HASH_MASK_PER_WRITE")
      case True
      then have "masked_upto 0 l2" using m1 f by (simp add: masked_upto_def)
      then show ?thesis using True f l1 mask_closes [of l2 env] by (simp add: scan_masks_def masked_upto_def)
    next
      case False
      then show ?thesis using f l1 m1 by (auto simp: scan_masks_def masked_upto_def)
    qed
  qed
  show ?thesis
  proof (cases "rd (ln_slab l1) (unat idx)")
    case None
    then show ?thesis by (simp add: hash_expired_def Some p l1_def [symmetric] Let_def scan_masks_def)
  next
    case (Some r)
    note rd = this
    show ?thesis
    proof (cases "slot_free l1 idx")
      case None
      then show ?thesis using keep rd by (simp add: hash_expired_def \<open>c = Some p\<close> p l1_def [symmetric] Let_def) (simp add: scan_masks_def)
    next
      case (Some l2)
      then show ?thesis using keep free [OF Some] rd by (simp add: hash_expired_def \<open>c = Some p\<close> p l1_def [symmetric] Let_def)
    qed
  qed
qed

lemma evict_spec_masks: "scan_masks mode c \<Longrightarrow> scan_masks mode (snd (evict_spec (hash_expired env cutoff) es c))"
proof (induction es arbitrary: c)
  case (Cons e es)
  obtain k v where e: "e = (k, v)" by (cases e)
  show ?case using Cons.IH [OF hash_expired_masks [OF Cons.prems, of env cutoff k v]] by (simp add: e Let_def split_beta)
qed simp

lemma hash_scan_masks:
  assumes "ln_hash l = Some h" "oh_inv h" "scan_masks mode (Some (l, 0))" "hash_scan env cutoff l = Some (l', n)"
  shows "scan_masks mode (Some (l', n))"
proof -
  obtain h' c' k where r: "oh_evict_scan h (hash_expired env cutoff) (Some (l, 0)) = Some (h', c', k)"
      "c' = snd (evict_spec (hash_expired env cutoff) (oh_ents (oh_keys h) (oh_vals h)) (Some (l, 0)))"
    using oh_evict_scan_ok [OF assms(2), of "hash_expired env cutoff" "Some (l, 0)"] by (auto simp: split_beta Let_def)
  have "scan_masks mode c'" unfolding r(2) by (rule evict_spec_masks [OF assms(3)])
  then show ?thesis using r(1) assms(1,4) by (auto simp: hash_scan_def scan_masks_def masked_upto_def split: Option.bind_splits)
qed

lemma lane_sweep_unmasks:
  assumes "\<not> ln_expanse l" "masked_upto 0 l" "ln_hash l = Some h" "oh_inv h" "sweep_entries env l pretend_now = Some (l', n)"
  shows "masked_upto 0 l'"
proof (cases "ln_mode l = HASH_MASK_WHOLE")
  case True
  obtain l1 where l1: "hash_scan env pretend_now (lane_mask env l) = Some (l1, n)" "l' = lane_unmask env l1"
    using assms(1,5) True by (auto simp: sweep_entries_def split: Option.bind_splits)
  have "scan_masks HASH_MASK_WHOLE (Some (lane_mask env l, 0))" using True assms(1) mask_closes [OF assms(2), of env] by (simp add: scan_masks_def)
  then have "scan_masks HASH_MASK_WHOLE (Some (l1, n))" using hash_scan_masks [OF _ assms(4) _ l1(1)] assms(3) by simp
  then show ?thesis using l1(2) unmask_opens [of l1 env] by (simp add: scan_masks_def)
next
  case False
  obtain l1 where l1: "hash_scan env pretend_now l = Some (l1, n)" "l' = (if ln_irq_masked l1 \<noteq> 0 then lane_unmask env l1 else l1)"
    using assms(1,5) False by (auto simp: sweep_entries_def split: Option.bind_splits)
  have "scan_masks (ln_mode l) (Some (l, 0))" using False assms(1,2) by (auto simp: scan_masks_def masked_upto_def)
  then have "scan_masks (ln_mode l) (Some (l1, n))" by (rule hash_scan_masks [OF assms(3,4) _ l1(1)])
  then show ?thesis using False l1(2) unmask_opens [of l1 env] word_le_1 [of "ln_irq_masked l1"]
    by (auto simp: scan_masks_def masked_upto_def split: if_splits)
qed

end
