(* ===== verification/Demo.thy ===== *)
theory Demo
  imports Gfx Lanes_Masking
begin

text \<open>
  The main program of the LCD demo (\<^verbatim>\<open>integrations/stm32h747/demo/CM7/Core/Src/main.c\<close>): the program of steps, the
  drawing of both lanes from their rings and counters, and a pass of the main loop. The clock, the timers, the button
  and the fonts are arguments; what is printed on the serial port and the set-up of the board are left out. Interrupts run
  between passes.
\<close>

section \<open>The program\<close>

definition TARGET_RECORDS :: u32 where "TARGET_RECORDS = 100000"
definition INGEST_PER_S :: u32 where "INGEST_PER_S = TARGET_RECORDS div (TTL_MS div 1000)"
definition GROWTH_PER_S :: u32 where "GROWTH_PER_S = 5000"

record step_t =
  st_name :: string
  st_hz :: u32
  st_mode :: hash_mode
  st_secs :: u32
  st_growth :: bool
  st_watch :: string

definition PROG :: "step_t list" where
  "PROG =
    [\<lparr>st_name = ''PROLOGUE'', st_hz = 0, st_mode = HASH_MASK_WHOLE, st_secs = 6, st_growth = False,
      st_watch = ''both reader interrupts run every millisecond; no sweep yet''\<rparr>,
     \<lparr>st_name = ''STEP 1'', st_hz = 1, st_mode = HASH_MASK_WHOLE, st_secs = 20, st_growth = False,
      st_watch = ''once a second the hash table sweeps; its reader is masked meanwhile''\<rparr>,
     \<lparr>st_name = ''STEP 2'', st_hz = 5, st_mode = HASH_MASK_WHOLE, st_secs = 20, st_growth = False,
      st_watch = ''five sweeps a second''\<rparr>,
     \<lparr>st_name = ''STEP 3'', st_hz = 10, st_mode = HASH_MASK_WHOLE, st_secs = 20, st_growth = False,
      st_watch = ''ten sweeps a second: the hash reader is blocked half the time''\<rparr>,
     \<lparr>st_name = ''STEP 4'', st_hz = 10, st_mode = HASH_MASK_PER_WRITE, st_secs = 20, st_growth = False,
      st_watch = ''the competent hash firmware masks only around each write: no gaps expected''\<rparr>,
     \<lparr>st_name = ''STEP 5'', st_hz = 10, st_mode = HASH_UNMASKED, st_secs = 20, st_growth = False,
      st_watch = ''no mask at all: no gaps, but the hash reader can read a wrong value''\<rparr>,
     \<lparr>st_name = ''STEP 6'', st_hz = 10, st_mode = HASH_MASK_PER_WRITE, st_secs = 20, st_growth = True,
      st_watch = ''filling both tables from empty at 5,000/s; each hash-table doubling is one write''\<rparr>,
     \<lparr>st_name = ''STEP 7'', st_hz = 10, st_mode = HASH_UNMASKED, st_secs = 20, st_growth = True,
      st_watch = ''the same growth with the hash reader unmasked: a read can land in a half-moved table''\<rparr>,
     \<lparr>st_name = ''SUMMARY'', st_hz = 0, st_mode = HASH_MASK_WHOLE, st_secs = 0, st_growth = False, st_watch = ''''\<rparr>]"

definition N_STEPS :: nat where "N_STEPS = length PROG"
definition STEP_SUMMARY :: nat where "STEP_SUMMARY = N_STEPS - 1"

record ledger_t =
  a_blocked :: u32
  a_stale :: u32
  a_wrong :: u32
  a_busy :: u32
  b_blocked :: u32
  b_stale :: u32
  b_wrong :: u32
  filled :: bool

section \<open>Layout\<close>

definition STRIP_Y :: int where "STRIP_Y = 0"
definition STRIP_H :: int where "STRIP_H = 44"
definition HEAD_Y :: int where "HEAD_Y = 50"
definition HEAD_H :: int where "HEAD_H = 58"
definition BEAT_Y :: int where "BEAT_Y = 112"
definition BEAT_H :: int where "BEAT_H = 196"
definition NUMS_Y :: int where "NUMS_Y = 318"
definition NUMS_H :: int where "NUMS_H = 84"
definition SWEEP_Y :: int where "SWEEP_Y = 406"
definition SWEEP_H :: int where "SWEEP_H = 24"
definition SCORE_Y :: int where "SCORE_Y = 432"
definition SCORE_H :: int where "SCORE_H = 24"
definition FOOT_Y :: int where "FOOT_Y = 460"
definition FOOT_H :: int where "FOOT_H = 20"
definition LANE_W :: int where "LANE_W = 388"
definition BAND_W :: u32 where "BAND_W = 376"
definition BAND_Y :: int where "BAND_Y = BEAT_Y + 30"
definition BAND_H :: int where "BAND_H = BEAT_H - 64"
definition WINDOW_MS :: u32 where "WINDOW_MS = 4000"

datatype lane_id = LANE_A | LANE_B

definition LANE_X :: "lane_id \<Rightarrow> int" where "LANE_X i = (case i of LANE_A \<Rightarrow> 6 | LANE_B \<Rightarrow> 406)"
definition BAND_X :: "lane_id \<Rightarrow> int" where "BAND_X i = LANE_X i + 6"

definition RGB :: "u32 \<Rightarrow> u32 \<Rightarrow> u32 \<Rightarrow> u32" where
  "RGB r g b = 0xFF000000 OR push_bit 16 r OR push_bit 8 g OR b"

definition C_BG :: u32 where "C_BG = RGB 0x0b 0x12 0x20"
definition C_PANEL :: u32 where "C_PANEL = RGB 0x11 0x1a 0x2e"
definition C_GRID :: u32 where "C_GRID = RGB 0x1e 0x2a 0x44"
definition C_TEXT :: u32 where "C_TEXT = RGB 0xe6 0xea 0xf2"
definition C_MUTED :: u32 where "C_MUTED = RGB 0x9a 0xa6 0xbf"
definition C_BLUE :: u32 where "C_BLUE = RGB 0x4c 0x8d 0xff"
definition C_AMBER :: u32 where "C_AMBER = RGB 0xf5 0xa5 0x24"
definition C_GREEN :: u32 where "C_GREEN = RGB 0x2f 0xd2 0x75"
definition C_RED :: u32 where "C_RED = RGB 0xf0 0x4e 0x4e"
definition C_CYAN :: u32 where "C_CYAN = RGB 0x22 0xd3 0xee"
definition C_MAGENTA :: u32 where "C_MAGENTA = RGB 0xe8 0x79 0xf9"

record demo_fonts =
  mono16 :: font
  cond24 :: font
  cond32 :: font
  cond40 :: font

section \<open>Text\<close>

text \<open>The decimal digits \<^verbatim>\<open>%lu\<close> prints, padded on the left to a width, and the text a buffer of \<open>n\<close> bytes holds.\<close>

fun dec :: "nat \<Rightarrow> string" where
  "dec n = (if n < 10 then [digit_char n] else dec (n div 10) @ [digit_char (n mod 10)])"

declare dec.simps [simp del]

definition lu :: "u32 \<Rightarrow> string" where "lu v = dec (unat v)"

definition pad :: "nat \<Rightarrow> string \<Rightarrow> string" where "pad w s = replicate (w - length s) (CHR '' '') @ s"

definition snprintf :: "nat \<Rightarrow> string \<Rightarrow> string" where "snprintf n s = take (n - 1) s"

text \<open>\<^verbatim>\<open>k += snprintf(b + k, n - k, s)\<close>: the size wraps when \<open>k\<close> has passed \<open>n\<close>, and the text is then written behind the
  buffer.\<close>

definition snprintf_at :: "nat \<Rightarrow> string \<Rightarrow> string \<times> nat \<Rightarrow> (string \<times> nat) option" where
  "snprintf_at n s p =
    (case p of (b, k) \<Rightarrow> if k > n then None else Some (take (n - 1) (b @ s), k + length s))"

fun mode_loop :: "'s lane \<Rightarrow> nat \<Rightarrow> nat \<Rightarrow> nat \<Rightarrow> string \<times> nat \<Rightarrow> (string \<times> nat) option" where
  "mode_loop l n 0 i p = Some p"
| "mode_loop l n (Suc todo) i p =
    (if int (snd p) < int n - 8
     then do { ms \<leftarrow> rd (ln_rehash_ms l) i;
               p' \<leftarrow> snprintf_at n ((if i \<noteq> 0 then [CHR '' '', CHR 0xB7, CHR '' ''] else '' '') @ lu ms) p;
               mode_loop l n todo (i + 1) p' }
     else Some p)"

definition mode_line :: "'s lane \<Rightarrow> step_t \<Rightarrow> nat \<Rightarrow> string option" where
  "mode_line l p n =
    (if st_growth p then
       if ln_expanse l then Some (snprintf n ''grows node by node: no rehash'')
       else if ln_rehash_n l = 0 then Some (snprintf n ''table doubles at 50% load'')
       else do { q \<leftarrow> snprintf_at n ''doublings cost'' ([], 0);
                 q' \<leftarrow> mode_loop l n (ln_rehash_n l) 0 q;
                 (b, _) \<leftarrow> snprintf_at n '' ms'' q';
                 Some b }
     else if ln_expanse l then Some (snprintf n ''reader interrupt: never blocked'')
     else Some (snprintf n (''reader interrupt: '' @
            (case ln_mode l of HASH_MASK_WHOLE \<Rightarrow> ''masked in the scan'' | HASH_MASK_PER_WRITE \<Rightarrow> ''masked per write'' | HASH_UNMASKED \<Rightarrow> ''never masked''))))"

definition fix_dots :: "string \<Rightarrow> string" where
  "fix_dots s = map (\<lambda>c. if c = CHR 0xB7 then CHR ''.'' else c) s"

text \<open>A text run whose width is not used; a run too wide is only reported.\<close>

definition put :: "font \<Rightarrow> int \<Rightarrow> int \<Rightarrow> string \<Rightarrow> u32 \<Rightarrow> u32 \<Rightarrow> int \<Rightarrow> align \<Rightarrow> frame \<Rightarrow> frame option" where
  "put f x y s fg bg max_w al fb = do { (_, _, fb') \<leftarrow> text_f f x y (map of_char s) fg bg max_w al fb; Some fb' }"

section \<open>Drawing\<close>

definition strip_mode :: "hash_mode \<Rightarrow> string" where
  "strip_mode m = (case m of HASH_MASK_WHOLE \<Rightarrow> ''hash reader masked in the scan'' | HASH_MASK_PER_WRITE \<Rightarrow> ''hash reader masked per write''
     | HASH_UNMASKED \<Rightarrow> ''hash reader not masked'')"

definition strip_title :: "nat \<Rightarrow> step_t \<Rightarrow> string" where
  "strip_title n p =
    (if n = 0 then snprintf 96 ''PROLOGUE . no sweeps yet''
     else if n = STEP_SUMMARY then snprintf 96 ''SUMMARY . what this run measured''
     else if st_growth p then snprintf 96 (st_name p @ '' / '' @ dec (N_STEPS - 2) @ '' . growth . '' @ strip_mode (st_mode p))
     else snprintf 96 (st_name p @ '' / '' @ dec (N_STEPS - 2) @ '' . '' @ lu (st_hz p) @ '' sweep'' @ (if st_hz p > 1 then ''s'' else '''') @
            ''/s . '' @ strip_mode (st_mode p)))"

definition draw_strip :: "demo_fonts \<Rightarrow> nat \<Rightarrow> u32 \<Rightarrow> u32 \<Rightarrow> frame \<Rightarrow> frame option" where
  "draw_strip F n since_ms records fb0 =
    do { p \<leftarrow> rd PROG n;
         fb \<leftarrow> fill_rect fb0 0 STRIP_Y (int LCD_W) STRIP_H C_PANEL;
         fb \<leftarrow> put (cond24 F) 10 (STRIP_Y + 3) (strip_title n p) C_TEXT C_PANEL (if st_growth p then 570 else 720) ALIGN_LEFT fb;
         if n = STEP_SUMMARY then Some fb
         else do {
           let b = (if st_growth p then snprintf 96 (pad 6 (lu records) @ '' records . '' @ pad 2 (lu (since_ms div 1000)) @ '' s'')
                    else snprintf 96 (pad 2 (lu (since_ms div 1000)) @ '' s''));
           fb \<leftarrow> put (mono16 F) (int LCD_W - 10) (STRIP_Y + 8) b C_MUTED C_PANEL 220 ALIGN_RIGHT fb;
           fb \<leftarrow> fill_rect fb 0 (STRIP_Y + STRIP_H - 3) (int LCD_W) 3 C_GRID;
           fb \<leftarrow> (if st_secs p \<noteq> 0
             then let full = st_secs p * 1000; elapsed = (if since_ms < full then since_ms else full)
                  in fill_rect fb 0 (STRIP_Y + STRIP_H - 3) (int (LCD_W * unat elapsed div unat full)) 3 C_MUTED
             else Some fb);
           if st_watch p \<noteq> '''' \<and> since_ms < 6000
           then put (mono16 F) 10 (STRIP_Y + 26) (st_watch p) C_TEXT C_PANEL 780 ALIGN_LEFT fb
           else Some fb } }"

definition lane_name :: "lane_id \<Rightarrow> string" where
  "lane_name i = (case i of LANE_A \<Rightarrow> ''EXPANSE'' | LANE_B \<Rightarrow> ''HASH TABLE'')"

definition accent :: "'s lane \<Rightarrow> u32" where "accent l = (if ln_expanse l then C_BLUE else C_AMBER)"

definition draw_head :: "demo_fonts \<Rightarrow> lane_id \<Rightarrow> 's lane \<Rightarrow> step_t \<Rightarrow> frame \<Rightarrow> frame option" where
  "draw_head F i l p fb =
    do { let x = LANE_X i;
         fb \<leftarrow> fill_rect fb x HEAD_Y LANE_W HEAD_H C_BG;
         fb \<leftarrow> put (cond32 F) (x + 6) HEAD_Y (lane_name i) (accent l) C_BG 200 ALIGN_LEFT fb;
         b \<leftarrow> mode_line l p 64;
         put (mono16 F) (x + 6) (HEAD_Y + 36) (fix_dots b) C_MUTED C_BG (LANE_W - 12) ALIGN_LEFT fb }"

text \<open>The legend: the outcomes this step can produce, or has.\<close>

definition legend_items :: "'s lane \<Rightarrow> step_t \<Rightarrow> (u32 \<times> string \<times> bool) list" where
  "legend_items l p =
    [(accent l, ''value'', True),
     (C_CYAN, ''BUSY'', ln_expanse l),
     (C_RED, ''blocked'', if \<not> ln_expanse l then st_mode p \<noteq> HASH_UNMASKED \<or> ln_blocked_ms l \<noteq> 0 else ln_blocked_ms l \<noteq> 0),
     (C_MAGENTA, ''wrong'', \<not> ln_expanse l \<and> st_mode p = HASH_UNMASKED \<or> ln_isr_bad l \<noteq> 0 \<or> ln_isr_nf l \<noteq> 0)]"

fun draw_legend :: "demo_fonts \<Rightarrow> int \<Rightarrow> (u32 \<times> string \<times> bool) list \<Rightarrow> int \<Rightarrow> frame \<Rightarrow> frame option" where
  "draw_legend F ly [] lx fb = Some fb"
| "draw_legend F ly ((c, s, on) # items) lx fb =
    (if on
     then do { fb \<leftarrow> fill_rect fb lx (ly + 4) 12 12 c;
               (w, _, fb) \<leftarrow> text_f (mono16 F) (lx + 18) ly (map of_char (snprintf 64 s)) C_MUTED C_PANEL 120 ALIGN_LEFT fb;
               draw_legend F ly items (lx + 18 + w + 22) fb }
     else draw_legend F ly items lx fb)"

definition draw_beat_frame :: "demo_fonts \<Rightarrow> lane_id \<Rightarrow> 's lane \<Rightarrow> step_t \<Rightarrow> frame \<Rightarrow> frame option" where
  "draw_beat_frame F i l p fb =
    do { let x = LANE_X i;
         fb \<leftarrow> fill_rect fb x BEAT_Y LANE_W BEAT_H C_PANEL;
         fb \<leftarrow> put (mono16 F) (x + 6) (BEAT_Y + 4) ''did the reader interrupt run? last 4 s'' C_MUTED C_PANEL (LANE_W - 12) ALIGN_LEFT fb;
         fb \<leftarrow> fill_rect fb (BAND_X i) BAND_Y (uint BAND_W) BAND_H C_BG;
         draw_legend F (BEAT_Y + BEAT_H - 22) (legend_items l p) (x + 6) fb }"

text \<open>One column of the strip per 10.64 ms of the window of four seconds; its colour is the worst mark of its milliseconds.\<close>

definition column_marks :: "'s lane \<Rightarrow> u32 \<Rightarrow> u32 \<Rightarrow> (bool \<times> bool \<times> bool \<times> bool) option" where
  "column_marks l t t_end =
    for_loop [unat t..<unat t_end]
      (\<lambda>s (held, wrong, busy, val). do { v \<leftarrow> rd (ln_ring l) (unat (of_nat s AND (RING_LEN - 1)));
         Some (if v = SLOT_HELD then (True, wrong, busy, val)
               else if v = SLOT_WRONG then (held, True, busy, val)
               else if v = SLOT_BUSY then (held, wrong, True, val)
               else if v = SLOT_VALUE then (held, wrong, busy, True)
               else (held, wrong, busy, val)) }) (False, False, False, False)"

definition column_of :: "u32 \<Rightarrow> u32" where
  "column_of t = (t mod WINDOW_MS) * BAND_W div WINDOW_MS"

definition column_end :: "u32 \<Rightarrow> u32" where
  "column_end t = ((column_of t + 1) * WINDOW_MS + BAND_W - 1) div BAND_W + (t div WINDOW_MS) * WINDOW_MS"

partial_function (option) beat_loop :: "lane_id \<Rightarrow> 's lane \<Rightarrow> u32 \<Rightarrow> u32 \<Rightarrow> frame \<Rightarrow> (u32 \<times> frame) option" where
  "beat_loop i l now_ms t fb =
    (if \<not> t + 1 < now_ms \<or> column_end t > now_ms - 1 then Some (t, fb)
     else do { (held, wrong, busy, val) \<leftarrow> column_marks l t (column_end t);
               let c = (if held then C_RED else if wrong then C_MAGENTA else if busy then C_CYAN else if val then accent l else C_BG);
               fb \<leftarrow> fill_rect fb (BAND_X i + uint (column_of t)) BAND_Y 1 BAND_H c;
               fb \<leftarrow> fill_rect fb (BAND_X i + uint ((column_of t + 1) mod BAND_W)) BAND_Y 1 BAND_H C_GRID;
               beat_loop i l now_ms (column_end t) fb })"

definition draw_beat_columns :: "lane_id \<Rightarrow> 's lane \<Rightarrow> u32 \<Rightarrow> u32 \<Rightarrow> frame \<Rightarrow> (u32 \<times> frame) option" where
  "draw_beat_columns i l now_ms band_next fb = beat_loop i l now_ms (if band_next = 0 then now_ms else band_next) fb"

definition stale_shown :: "'s lane \<Rightarrow> u32" where
  "stale_shown l = (if ln_stale_max l \<noteq> 0 then ln_stale_max l + 1 else 1)"

definition num_cells :: "'s lane \<Rightarrow> (string \<times> string \<times> u32) list" where
  "num_cells l =
    (let ticks = ln_isr_served l + ln_blocked_ms l;
         pct10 = (if ticks \<noteq> 0 then of_nat (unat (ln_no_value_ms l) * 1000 div unat ticks) else 0 :: u32);
         stale = stale_shown l;
         wrong = ln_isr_bad l + ln_isr_nf l
     in [(''BLOCKED ms'', lu (ln_blocked_ms l), if ln_blocked_ms l \<noteq> 0 then C_RED else C_GREEN),
         (''NO VALUE %'', if pct10 \<ge> 100 then lu (pct10 div 10) else lu (pct10 div 10) @ ''.'' @ lu (pct10 mod 10),
          if ln_no_value_ms l \<noteq> 0 then (if ln_expanse l then C_CYAN else C_RED) else C_GREEN),
         (''STALE ms'', lu stale, if stale > 2 then C_RED else C_GREEN),
         (''WRONG'', lu wrong, if wrong \<noteq> 0 then C_MAGENTA else C_GREEN)])"

definition draw_nums :: "demo_fonts \<Rightarrow> lane_id \<Rightarrow> 's lane \<Rightarrow> frame \<Rightarrow> frame option" where
  "draw_nums F i l fb =
    do { let x = LANE_X i;
         let cw = LANE_W div 4;
         fb \<leftarrow> fill_rect fb x NUMS_Y LANE_W NUMS_H C_PANEL;
         for_loop [0..<4] (\<lambda>k fb. case num_cells l ! k of (label, v, c) \<Rightarrow>
           do { fb \<leftarrow> put (mono16 F) (x + 4 + int k * cw) (NUMS_Y + 6) label C_MUTED C_PANEL (cw - 4) ALIGN_LEFT fb;
                put (cond40 F) (x + 4 + int k * cw) (NUMS_Y + 26) (snprintf 16 v) c C_PANEL (cw - 4) ALIGN_LEFT fb }) fb }"

definition draw_sweep :: "demo_fonts \<Rightarrow> lane_id \<Rightarrow> 's lane \<Rightarrow> step_t \<Rightarrow> frame \<Rightarrow> frame option" where
  "draw_sweep F i l p fb =
    do { let x = LANE_X i;
         fb \<leftarrow> fill_rect fb x SWEEP_Y LANE_W SWEEP_H C_BG;
         let b = (if st_hz p \<noteq> 0
           then snprintf 64 (''sweep '' @ lu (ln_sweep_us l div 1000) @ ''.'' @ lu ((ln_sweep_us l div 100) mod 10) @ '' ms '' @
                  (if ln_expanse l then ''remove_range'' else ''full scan'') @ '' . '' @ lu (ln_sweep_us l * st_hz p div 10000) @ ''% core'')
           else snprintf 64 ''sweep: none yet'');
         put (mono16 F) (x + 8) (SWEEP_Y + 3) b C_TEXT C_BG (LANE_W - 16) ALIGN_LEFT fb }"

definition bytes_per_record10 :: "'s lane \<Rightarrow> u32" where
  "bytes_per_record10 l = (if ln_count l \<noteq> 0 then of_nat (unat (ln_index_bytes l) * 10 div unat (ln_count l)) else 0)"

definition draw_score :: "demo_fonts \<Rightarrow> lane_id \<Rightarrow> 's lane \<Rightarrow> 's lane \<Rightarrow> frame \<Rightarrow> frame option" where
  "draw_score F i l other fb =
    do { let x = LANE_X i;
         fb \<leftarrow> fill_rect fb x SCORE_Y LANE_W SCORE_H C_BG;
         let bpr10 = bytes_per_record10 l;
         let obpr10 = bytes_per_record10 other;
         let low_b = (bpr10 \<noteq> 0 \<and> obpr10 \<noteq> 0 \<and> bpr10 < obpr10);
         let low_n = (ln_lookup_ns l \<noteq> 0 \<and> ln_lookup_ns other \<noteq> 0 \<and> ln_lookup_ns l < ln_lookup_ns other);
         fb \<leftarrow> put (mono16 F) (x + 8) (SCORE_Y + 3) (snprintf 40 (lu (bpr10 div 10) @ ''.'' @ lu (bpr10 mod 10) @ '' B/record'' @ (if low_b then '' v'' else '''')))
           (if low_b then C_GREEN else C_TEXT) C_BG (LANE_W div 2 - 12) ALIGN_LEFT fb;
         put (mono16 F) (x + LANE_W - 8) (SCORE_Y + 3) (snprintf 40 (lu (ln_lookup_ns l) @ '' ns/lookup'' @ (if low_n then '' v'' else '''')))
           (if low_n then C_GREEN else C_TEXT) C_BG (LANE_W div 2 - 12) ALIGN_RIGHT fb }"

definition draw_foot :: "demo_fonts \<Rightarrow> step_t \<Rightarrow> frame \<Rightarrow> frame option" where
  "draw_foot F p fb =
    do { fb \<leftarrow> fill_rect fb 0 FOOT_Y (int LCD_W) FOOT_H C_BG;
         put (mono16 F) 8 (FOOT_Y + 1)
           (if st_growth p then ''demo, not benchmark . each doubling timed by DWT . docs/benchmarks/stm32h747''
            else ''demo, not benchmark . 100,000 records/lane . measured claims: docs/benchmarks/stm32h747'') C_MUTED C_BG 784 ALIGN_LEFT fb }"

section \<open>The summary\<close>

definition summary_cx :: "int list" where "summary_cx = [10, 90, 170, 300, 385, 465, 560, 645, 725]"

definition cell_w :: "nat \<Rightarrow> int" where
  "cell_w i = (if i < 8 then summary_cx ! (i + 1) else int LCD_W - 10) - summary_cx ! i - 6"

definition summary_hdr :: "string list" where
  "summary_hdr = [''step'', ''sweeps/s'', ''hash mask'', ''blocked'', ''stale'', ''wrong'', ''blocked'', ''stale'', ''wrong'']"

definition mask_cell :: "step_t \<Rightarrow> string" where
  "mask_cell p = (if st_growth p then (if st_mode p = HASH_UNMASKED then ''grow, none'' else ''grow, masked'')
     else case st_mode p of HASH_MASK_WHOLE \<Rightarrow> ''in scan'' | HASH_MASK_PER_WRITE \<Rightarrow> ''per write'' | HASH_UNMASKED \<Rightarrow> ''none'')"

definition summary_cells :: "step_t \<Rightarrow> ledger_t \<Rightarrow> (string \<times> u32) list" where
  "summary_cells p r =
    [(st_name p, C_TEXT), (lu (st_hz p), C_TEXT), (mask_cell p, C_TEXT),
     (lu (a_blocked r), if a_blocked r \<noteq> 0 then C_RED else C_GREEN), (lu (a_stale r), if a_stale r > 2 then C_RED else C_GREEN),
     (lu (a_wrong r), if a_wrong r \<noteq> 0 then C_MAGENTA else C_GREEN),
     (lu (b_blocked r), if b_blocked r \<noteq> 0 then C_RED else C_GREEN), (lu (b_stale r), if b_stale r > 2 then C_RED else C_GREEN),
     (lu (b_wrong r), if b_wrong r \<noteq> 0 then C_MAGENTA else C_GREEN)]"

definition draw_cells :: "demo_fonts \<Rightarrow> int \<Rightarrow> (string \<times> u32) list \<Rightarrow> frame \<Rightarrow> frame option" where
  "draw_cells F y cells fb =
    for_loop [0..<9] (\<lambda>i fb. put (mono16 F) (summary_cx ! i) y (fst (cells ! i)) (snd (cells ! i)) C_BG (cell_w i) ALIGN_LEFT fb) fb"

definition summary_row :: "demo_fonts \<Rightarrow> ledger_t list \<Rightarrow> nat \<Rightarrow> nat \<times> frame \<Rightarrow> (nat \<times> frame) option" where
  "summary_row F ledger s st =
    (case st of (row, fb) \<Rightarrow>
      do { r \<leftarrow> rd ledger s;
           p \<leftarrow> rd PROG s;
           if \<not> filled r then Some st
           else do { fb \<leftarrow> draw_cells F (HEAD_Y + 60 + int row * 32) (map (\<lambda>(v, c). (snprintf 16 v, c)) (summary_cells p r)) fb;
                     Some (row + 1, fb) } })"

definition draw_summary :: "demo_fonts \<Rightarrow> ledger_t list \<Rightarrow> 's lane \<Rightarrow> 's lane \<Rightarrow> frame \<Rightarrow> frame option" where
  "draw_summary F ledger a b fb =
    do { fb \<leftarrow> fill_rect fb 0 HEAD_Y (int LCD_W) (FOOT_Y - HEAD_Y) C_BG;
         fb \<leftarrow> put (cond24 F) (summary_cx ! 3) (HEAD_Y + 2) ''EXPANSE (ms)'' C_BLUE C_BG 250 ALIGN_LEFT fb;
         fb \<leftarrow> put (cond24 F) (summary_cx ! 6) (HEAD_Y + 2) ''HASH TABLE (ms)'' C_AMBER C_BG 250 ALIGN_LEFT fb;
         fb \<leftarrow> draw_cells F (HEAD_Y + 30) (map (\<lambda>h. (h, C_MUTED)) summary_hdr) fb;
         fb \<leftarrow> fill_rect fb 10 (HEAD_Y + 50) (int LCD_W - 20) 1 C_GRID;
         (_, fb) \<leftarrow> for_loop [1..<STEP_SUMMARY] (summary_row F ledger) (0, fb);
         let a10 = bytes_per_record10 a;
         let b10 = bytes_per_record10 b;
         fb \<leftarrow> put (mono16 F) 10 (SCORE_Y - 14) (snprintf 96 (''memory '' @ lu (a10 div 10) @ ''.'' @ lu (a10 mod 10) @ '' vs '' @ lu (b10 div 10) @ ''.'' @
           lu (b10 mod 10) @ '' B/record (Expanse incl. by-time index) . lookup '' @ lu (ln_lookup_ns a) @ '' vs '' @ lu (ln_lookup_ns b) @ '' ns''))
           C_MUTED C_BG 780 ALIGN_LEFT fb;
         put (mono16 F) 10 (SCORE_Y + 6) ''every value on this screen was measured in this run'' C_MUTED C_BG 780 ALIGN_LEFT fb }"

end
