(* ===== verification/Demo_Main.thy ===== *)
theory Demo_Main
  imports Demo
begin

text \<open>
  The steps of the demo and its main loop: one pass reads the clock and the button, advances the program or works on
  both lanes, and redraws what is due.
\<close>

section \<open>State\<close>

record 's demo =
  dm_step :: nat
  dm_step_start :: u32
  dm_last_sweep :: u32
  dm_last_stats :: u32
  dm_last_log :: u32
  dm_last_second :: u32
  dm_btn_was :: bool
  dm_a :: "'s lane"
  dm_b :: "'s lane"
  dm_ledger :: "ledger_t list"
  dm_next_a :: u32
  dm_next_b :: u32
  dm_fb :: frame

text \<open>What a pass reads: the tick, the button, the reference timer with the timer of each lane at the start of a
  step, and the sizes the containers report.\<close>

record demo_in =
  in_now :: u32
  in_btn :: bool
  in_tim2_a :: u32
  in_tim6 :: u32
  in_tim2_b :: u32
  in_tim7 :: u32
  in_stats :: "u32 option"
  in_time_mem :: u32

record 's demo_env =
  de_fonts :: demo_fonts
  de_a :: "'s lane_env"
  de_b :: "'s lane_env"

section \<open>Steps\<close>

definition lane_ledger :: "'s lane \<Rightarrow> 's lane \<Rightarrow> ledger_t" where
  "lane_ledger a b = \<lparr>a_blocked = ln_blocked_ms a, a_stale = stale_shown a, a_wrong = ln_isr_bad a + ln_isr_nf a, a_busy = ln_isr_busy a,
     b_blocked = ln_blocked_ms b, b_stale = stale_shown b, b_wrong = ln_isr_bad b + ln_isr_nf b, filled = True\<rparr>"

definition end_step :: "'s demo \<Rightarrow> 's demo option" where
  "end_step d =
    (if dm_step d = 0 \<or> dm_step d \<ge> STEP_SUMMARY then Some d
     else do { led \<leftarrow> wr (dm_ledger d) (dm_step d) (lane_ledger (dm_a d) (dm_b d)); Some (d\<lparr>dm_ledger := led\<rparr>) })"

text \<open>A rebuild of both lanes from empty; the second lane is left as it is when the first cannot be rebuilt.\<close>

definition rebuild :: "'s demo_env \<Rightarrow> u32 \<Rightarrow> 's lane \<times> 's lane \<Rightarrow> ('s lane \<times> 's lane) option" where
  "rebuild E now_ms ab =
    (case ab of (a, b) \<Rightarrow>
      do { (ok, a1) \<leftarrow> lane_fill (de_a E) (a\<lparr>ln_irq_on := False\<rparr>) 0 now_ms;
           b1 \<leftarrow> (if ok then do { (_, b1) \<leftarrow> lane_fill (de_b E) (b\<lparr>ln_irq_on := False\<rparr>) 0 now_ms; Some b1 } else Some b);
           Some (a1\<lparr>ln_irq_on := True\<rparr>, b1\<lparr>ln_irq_on := True\<rparr>) })"

definition draw_lane :: "demo_fonts \<Rightarrow> lane_id \<Rightarrow> 's lane \<Rightarrow> 's lane \<Rightarrow> step_t \<Rightarrow> frame \<Rightarrow> frame option" where
  "draw_lane F i l other p fb =
    do { fb \<leftarrow> draw_head F i l p fb;
         fb \<leftarrow> draw_beat_frame F i l p fb;
         fb \<leftarrow> draw_nums F i l fb;
         fb \<leftarrow> draw_sweep F i l p fb;
         draw_score F i l other fb }"

definition begin_step :: "'s demo_env \<Rightarrow> demo_in \<Rightarrow> 's demo \<Rightarrow> 's demo option" where
  "begin_step E inp d =
    do { p \<leftarrow> rd PROG (dm_step d);
         let a = dm_a d\<lparr>ln_growable := st_growth p\<rparr>;
         let b = dm_b d\<lparr>ln_mode := st_mode p, ln_growable := st_growth p\<rparr>;
         (a, b) \<leftarrow> (if st_growth p then rebuild E (in_now inp) (a, b) else Some (a, b));
         let a = (lane_step_reset a)\<lparr>ln_expected_cnt := in_tim2_a inp + (TICKS_PER_MS - 1 - in_tim6 inp + 1)\<rparr>;
         let b = (lane_step_reset b)\<lparr>ln_expected_cnt := in_tim2_b inp + (TICKS_PER_MS - 1 - in_tim7 inp + 1)\<rparr>;
         fb \<leftarrow> fill_rect (dm_fb d) 0 0 (int LCD_W) (int LCD_H) C_BG;
         fb \<leftarrow> draw_strip (de_fonts E) (dm_step d) 0 (ln_count a) fb;
         fb \<leftarrow> (if dm_step d = STEP_SUMMARY then draw_summary (de_fonts E) (dm_ledger d) a b fb
                else do { fb \<leftarrow> draw_lane (de_fonts E) LANE_A a b p fb; draw_lane (de_fonts E) LANE_B b a p fb });
         fb \<leftarrow> draw_foot (de_fonts E) p fb;
         Some (d\<lparr>dm_a := a, dm_b := b, dm_next_a := 0, dm_next_b := 0, dm_fb := fb\<rparr>) }"

section \<open>A pass of the main loop\<close>

definition advances :: "step_t \<Rightarrow> demo_in \<Rightarrow> 's demo \<Rightarrow> bool" where
  "advances p inp d \<longleftrightarrow> in_btn inp \<and> \<not> dm_btn_was d \<or> st_secs p \<noteq> 0 \<and> in_now inp - dm_step_start d \<ge> st_secs p * 1000"

definition pass_ingest :: "'s demo_env \<Rightarrow> step_t \<Rightarrow> u32 \<Rightarrow> 's demo \<Rightarrow> 's demo option" where
  "pass_ingest E p now d =
    (if st_growth p
     then do { a \<leftarrow> lane_ingest (de_a E) (dm_a d) now GROWTH_PER_S TARGET_RECORDS;
               b \<leftarrow> lane_ingest (de_b E) (dm_b d) now GROWTH_PER_S TARGET_RECORDS;
               Some (d\<lparr>dm_a := a, dm_b := b\<rparr>) }
     else if dm_step d > 0
     then do { a \<leftarrow> lane_ingest (de_a E) (dm_a d) now INGEST_PER_S UINT32_MAX;
               b \<leftarrow> lane_ingest (de_b E) (dm_b d) now INGEST_PER_S UINT32_MAX;
               Some (d\<lparr>dm_a := a, dm_b := b\<rparr>) }
     else Some d)"

definition pass_churn :: "'s demo_env \<Rightarrow> u32 \<Rightarrow> 's demo \<Rightarrow> 's demo option" where
  "pass_churn E now d =
    do { a \<leftarrow> lane_churn (de_a E) (dm_a d) now; b \<leftarrow> lane_churn (de_b E) (dm_b d) now; Some (d\<lparr>dm_a := a, dm_b := b\<rparr>) }"

definition isr_total :: "'s lane \<Rightarrow> 's lane \<Rightarrow> u32" where
  "isr_total a b = ln_body_total_cyc a + ln_body_total_cyc b"

definition pass_sweep :: "'s demo_env \<Rightarrow> step_t \<Rightarrow> u32 \<Rightarrow> 's demo \<Rightarrow> 's demo option" where
  "pass_sweep E p now d =
    (if st_hz p \<noteq> 0 \<and> now - dm_last_sweep d \<ge> 1000 div st_hz p
     then do { let t = isr_total (dm_a d) (dm_b d);
               a \<leftarrow> lane_sweep (de_a E) (dm_a d) now t t;
               b \<leftarrow> lane_sweep (de_b E) (dm_b d) now t t;
               fb \<leftarrow> draw_sweep (de_fonts E) LANE_A a p (dm_fb d);
               fb \<leftarrow> draw_sweep (de_fonts E) LANE_B b p fb;
               Some (d\<lparr>dm_last_sweep := now, dm_a := a, dm_b := b, dm_fb := fb\<rparr>) }
     else Some d)"

definition pass_beat :: "u32 \<Rightarrow> 's demo \<Rightarrow> 's demo option" where
  "pass_beat now d =
    do { (na, fb) \<leftarrow> draw_beat_columns LANE_A (dm_a d) now (dm_next_a d) (dm_fb d);
         (nb, fb) \<leftarrow> draw_beat_columns LANE_B (dm_b d) now (dm_next_b d) fb;
         Some (d\<lparr>dm_next_a := na, dm_next_b := nb, dm_fb := fb\<rparr>) }"

definition pass_stats :: "'s demo_env \<Rightarrow> step_t \<Rightarrow> demo_in \<Rightarrow> 's demo \<Rightarrow> 's demo option" where
  "pass_stats E p inp d =
    (if in_now inp - dm_last_stats d \<ge> 200
     then do { a \<leftarrow> lane_measure_scoreboard (de_a E) (in_stats inp) (in_time_mem inp) (dm_a d);
               b \<leftarrow> lane_measure_scoreboard (de_b E) (in_stats inp) (in_time_mem inp) (dm_b d);
               fb \<leftarrow> draw_nums (de_fonts E) LANE_A a (dm_fb d);
               fb \<leftarrow> draw_nums (de_fonts E) LANE_B b fb;
               fb \<leftarrow> draw_score (de_fonts E) LANE_A a b fb;
               fb \<leftarrow> draw_score (de_fonts E) LANE_B b a fb;
               fb \<leftarrow> (if st_growth p then draw_head (de_fonts E) LANE_B b p fb else Some fb);
               Some (d\<lparr>dm_last_stats := in_now inp, dm_a := a, dm_b := b, dm_fb := fb\<rparr>) }
     else Some d)"

definition pass_second :: "'s demo_env \<Rightarrow> step_t \<Rightarrow> u32 \<Rightarrow> u32 \<Rightarrow> 's demo \<Rightarrow> 's demo option" where
  "pass_second E p now since d =
    (if now - dm_last_second d \<ge> 1000
     then do { fb \<leftarrow> draw_strip (de_fonts E) (dm_step d) since (ln_count (dm_a d)) (dm_fb d);
               let d1 = d\<lparr>dm_last_second := now, dm_fb := fb\<rparr>;
               if since \<ge> 6000 \<and> since < 7000
               then do { fb \<leftarrow> draw_beat_frame (de_fonts E) LANE_A (dm_a d) p fb;
                         fb \<leftarrow> draw_beat_frame (de_fonts E) LANE_B (dm_b d) p fb;
                         Some (d1\<lparr>dm_next_a := 0, dm_next_b := 0, dm_fb := fb\<rparr>) }
               else Some d1 }
     else Some d)"

definition pass_log :: "u32 \<Rightarrow> 's demo \<Rightarrow> 's demo" where
  "pass_log now d = (if now - dm_last_log d \<ge> 1000 then d\<lparr>dm_last_log := now\<rparr> else d)"

definition pass_work :: "'s demo_env \<Rightarrow> step_t \<Rightarrow> demo_in \<Rightarrow> 's demo \<Rightarrow> 's demo option" where
  "pass_work E p inp d =
    do { let now = in_now inp;
         let since = now - dm_step_start d;
         d \<leftarrow> pass_ingest E p now d;
         d \<leftarrow> pass_churn E now d;
         d \<leftarrow> pass_sweep E p now d;
         d \<leftarrow> pass_beat now d;
         d \<leftarrow> pass_stats E p inp d;
         d \<leftarrow> pass_second E p now since d;
         Some (pass_log now d) }"

definition main_pass :: "'s demo_env \<Rightarrow> demo_in \<Rightarrow> 's demo \<Rightarrow> 's demo option" where
  "main_pass E inp d =
    do { p \<leftarrow> rd PROG (dm_step d);
         let adv = advances p inp d;
         let d = d\<lparr>dm_btn_was := in_btn inp\<rparr>;
         if adv \<and> dm_step d < STEP_SUMMARY
         then do { d \<leftarrow> end_step d; begin_step E inp (d\<lparr>dm_step := dm_step d + 1, dm_step_start := in_now inp\<rparr>) }
         else if dm_step d = STEP_SUMMARY then Some d
         else pass_work E p inp d }"

section \<open>Interrupts and start\<close>

definition TIM6_DAC_IRQHandler :: "'s demo_env \<Rightarrow> u32 \<Rightarrow> u32 \<Rightarrow> 's demo \<Rightarrow> 's demo option" where
  "TIM6_DAC_IRQHandler E tim2_now now_ms d = do { a \<leftarrow> lane_isr (de_a E) (dm_a d) tim2_now now_ms; Some (d\<lparr>dm_a := a\<rparr>) }"

definition TIM7_IRQHandler :: "'s demo_env \<Rightarrow> u32 \<Rightarrow> u32 \<Rightarrow> 's demo \<Rightarrow> 's demo option" where
  "TIM7_IRQHandler E tim2_now now_ms d = do { b \<leftarrow> lane_isr (de_b E) (dm_b d) tim2_now now_ms; Some (d\<lparr>dm_b := b\<rparr>) }"

text \<open>The state the main loop starts from, once both lanes are filled.\<close>

definition empty_ledger :: ledger_t where
  "empty_ledger = \<lparr>a_blocked = 0, a_stale = 0, a_wrong = 0, a_busy = 0, b_blocked = 0, b_stale = 0, b_wrong = 0, filled = False\<rparr>"

definition demo_start :: "'s demo_env \<Rightarrow> demo_in \<Rightarrow> 's lane \<Rightarrow> 's lane \<Rightarrow> frame \<Rightarrow> 's demo option" where
  "demo_start E inp a b fb =
    begin_step E inp \<lparr>dm_step = 0, dm_step_start = in_now inp, dm_last_sweep = in_now inp, dm_last_stats = in_now inp,
      dm_last_log = in_now inp + 500, dm_last_second = in_now inp, dm_btn_was = False,
      dm_a = a\<lparr>ln_last_churn_ms := in_now inp\<rparr>, dm_b = b\<lparr>ln_last_churn_ms := in_now inp\<rparr>,
      dm_ledger = replicate N_STEPS empty_ledger, dm_next_a = 0, dm_next_b = 0, dm_fb = fb\<rparr>"

end
