(* ===== verification/Demo_Draw.thy ===== *)
theory Demo_Draw
  imports Demo_Main
begin

text \<open>
  The panels of the demo: every drawing function returns, writes inside the framebuffer and inside its own buffers, and what it
  draws for one lane stays in the column of that lane.
\<close>

section \<open>Drawing inside a column of the display\<close>

definition keeps_in :: "int \<Rightarrow> int \<Rightarrow> (frame \<Rightarrow> frame option) \<Rightarrow> bool" where
  "keeps_in x0 x1 f \<longleftrightarrow> (\<forall>fb. frame_ok fb \<longrightarrow> (\<exists>fb'. f fb = Some fb' \<and> inside_box x0 x1 0 (int LCD_H) fb fb'))"

lemma inside_box_ok: "inside_box x0 x1 y0 y1 fb fb' \<Longrightarrow> frame_ok fb'"
  by (simp add: inside_box_def)

lemma inside_box_wider:
  "inside_box a b y0 y1 fb fb' \<Longrightarrow> x0 \<le> a \<Longrightarrow> b \<le> x1 \<Longrightarrow> inside_box x0 x1 0 (int LCD_H) fb fb'"
  unfolding inside_box_def by fastforce

lemma keeps_inD: "keeps_in x0 x1 f \<Longrightarrow> frame_ok fb \<Longrightarrow> \<exists>fb'. f fb = Some fb' \<and> inside_box x0 x1 0 (int LCD_H) fb fb'"
  by (simp add: keeps_in_def)

named_theorems keeps

lemma keeps_skip [keeps]: "keeps_in x0 x1 Some"
  by (simp add: keeps_in_def inside_box_refl)

lemma keeps_bind [keeps]:
  assumes "keeps_in x0 x1 f" "keeps_in x0 x1 g"
  shows "keeps_in x0 x1 (\<lambda>fb. f fb \<bind> g)"
  unfolding keeps_in_def
proof (intro allI impI)
  fix fb
  assume "frame_ok fb"
  then obtain fb1 where 1: "f fb = Some fb1" "inside_box x0 x1 0 (int LCD_H) fb fb1" using keeps_inD [OF assms(1)] by blast
  then obtain fb2 where "g fb1 = Some fb2" "inside_box x0 x1 0 (int LCD_H) fb1 fb2" using keeps_inD [OF assms(2) inside_box_ok] by blast
  then show "\<exists>fb'. f fb \<bind> g = Some fb' \<and> inside_box x0 x1 0 (int LCD_H) fb fb'" using 1 inside_box_trans by auto
qed

lemma keeps_if [keeps]: "keeps_in x0 x1 f \<Longrightarrow> keeps_in x0 x1 g \<Longrightarrow> keeps_in x0 x1 (\<lambda>fb. if c then f fb else g fb)"
  by (simp add: keeps_in_def)

lemma keeps_value [keeps]: "e = Some v \<Longrightarrow> keeps_in x0 x1 (f v) \<Longrightarrow> keeps_in x0 x1 (\<lambda>fb. e \<bind> (\<lambda>v. f v fb))"
  by (simp add: keeps_in_def)

lemma keeps_fill [keeps]:
  assumes "x0 \<le> x" "x + w \<le> x1"
  shows "keeps_in x0 x1 (\<lambda>fb. fill_rect fb x y w h c)"
  unfolding keeps_in_def
proof (intro allI impI)
  fix fb
  assume "frame_ok fb"
  then obtain fb' where "fill_rect fb x y w h c = Some fb'" "paints fb (\<lambda>qx qy. x \<le> qx \<and> qx < x + w \<and> y \<le> qy \<and> qy < y + h) c fb'"
    using fill_rect_paints by blast
  then show "\<exists>fb'. fill_rect fb x y w h c = Some fb' \<and> inside_box x0 x1 0 (int LCD_H) fb fb'"
    using assms by (auto simp: paints_def inside_box_def)
qed

lemma keeps_loop [keeps]:
  assumes "\<And>i. i < n \<Longrightarrow> keeps_in x0 x1 (body i)"
  shows "keeps_in x0 x1 (for_loop [0..<n] body)"
  using for_loop_box [of n body x0 x1 0 "int LCD_H"] keeps_inD [OF assms] by (simp add: keeps_in_def)

section \<open>Text runs\<close>

text \<open>A glyph reaches at most eight pixels over its advance.\<close>

definition font_tight :: "font \<Rightarrow> bool" where
  "font_tight f \<longleftrightarrow> font_ok f \<and> (\<forall>g\<in>set (f_g f). g_dx g + int (g_w g) \<le> int (g_adv g) + 8)"

lemma for_loop_cong: "(\<And>i s. i \<in> set js \<Longrightarrow> body i s = body' i s) \<Longrightarrow> for_loop js body s = for_loop js body' s"
  by (induction js arbitrary: s) (auto split: Option.bind_split)

lemma draw_row_limit: "pen + g_dx g + int (g_w g) \<le> b \<Longrightarrow> draw_row f g x0 limit (pen + g_dx g) py fg bg row fb = draw_row f g x0 (min limit b) (pen + g_dx g) py fg bg row fb"
  unfolding draw_row_def by (rule for_loop_cong) (auto simp: Let_def intro!: Option.bind_cong)

lemma draw_glyph_limit:
  "pen + g_dx g + int (g_w g) \<le> b \<Longrightarrow> draw_glyph f g x0 limit pen y fg bg fb = draw_glyph f g x0 (min limit b) pen y fg bg fb"
  unfolding draw_glyph_def Let_def by (rule for_loop_cong, rule if_cong [OF refl refl], rule draw_row_limit)

lemma inside_box_less: "inside_box x0 b y0 y1 fb fb' \<Longrightarrow> b \<le> x1 \<Longrightarrow> inside_box x0 x1 y0 y1 fb fb'"
  unfolding inside_box_def by fastforce

lemma text_run_tight:
  assumes "font_tight f" "0 \<le> x0" "frame_ok fb" "text_w f s = Some w"
  shows "\<exists>fb'. text_run f x0 limit y fg bg pen s fb = Some fb' \<and> inside_box x0 (min limit (pen + w + 8)) y (y + int (f_h f)) fb fb'"
  using assms(3,4)
proof (induction s arbitrary: pen fb w)
  case Nil
  then show ?case by (simp add: inside_box_refl)
next
  case (Cons ch s)
  have f: "font_ok f" using assms(1) by (simp add: font_tight_def)
  obtain g where g: "glyph_of f ch = Some g" "g \<in> set (f_g f)" using glyph_of_ok [OF f] by blast
  obtain w' where w': "text_w f s = Some w'" "w = int (g_adv g) + w'" using Cons.prems(2) g(1) by (auto split: Option.bind_splits)
  have pos: "0 \<le> w'" using text_w_ok [OF f, of s] w'(1) by auto
  have over: "pen + g_dx g + int (g_w g) \<le> pen + int (g_adv g) + 8" using assms(1) g(2) by (auto simp: font_tight_def)
  obtain fb1 where fb1: "draw_glyph f g x0 limit pen y fg bg fb = Some fb1"
      "inside_box x0 (min limit (pen + int (g_adv g) + 8)) y (y + int (f_h f)) fb fb1"
    using draw_glyph_box [OF f g(2) assms(2) Cons.prems(1), of "min limit (pen + int (g_adv g) + 8)" pen y fg bg] draw_glyph_limit [OF over] by metis
  have b1: "inside_box x0 (min limit (pen + w + 8)) y (y + int (f_h f)) fb fb1" by (rule inside_box_less [OF fb1(2)]) (use w'(2) pos in auto)
  obtain fb2 where fb2: "text_run f x0 limit y fg bg (pen + int (g_adv g)) s fb1 = Some fb2"
      "inside_box x0 (min limit (pen + int (g_adv g) + w' + 8)) y (y + int (f_h f)) fb1 fb2"
    using Cons.IH [OF inside_box_ok [OF fb1(2)] w'(1)] by blast
  then have "inside_box x0 (min limit (pen + w + 8)) y (y + int (f_h f)) fb fb2" using inside_box_trans [OF b1] w'(2) by (simp add: add.assoc)
  then show ?case using g(1) fb1(1) fb2(1) b1 by auto
qed

lemma text_f_tight:
  assumes "font_tight f" "frame_ok fb" "text_w f s = Some w" "0 \<le> text_left al x w max_w"
  shows "\<exists>fb' r. text_f f x y s fg bg max_w al fb = Some (w, r, fb') \<and>
    inside_box (text_left al x w max_w) (text_left al x w max_w + min max_w (w + 8)) y (y + int (f_h f)) fb fb'"
  using text_run_tight [OF assms(1,4,2,3), of "text_left al x w max_w + max_w" y fg bg "text_left al x w max_w"] assms(3)
  by (auto simp: text_f_def Let_def min_add_distrib_right add.assoc)

lemma put_keeps:
  assumes "font_tight f" "\<And>w. 0 \<le> w \<Longrightarrow> 0 \<le> text_left al x w max_w \<and> x0 \<le> text_left al x w max_w \<and> text_left al x w max_w + min max_w (w + 8) \<le> x1"
  shows "keeps_in x0 x1 (put f x y s fg bg max_w al)"
  unfolding keeps_in_def
proof (intro allI impI)
  fix fb
  assume fb: "frame_ok fb"
  obtain w where w: "text_w f (map of_char s) = Some w" "0 \<le> w" using text_w_ok assms(1) unfolding font_tight_def by blast
  note b = assms(2) [OF w(2)]
  then obtain fb' r where "text_f f x y (map of_char s) fg bg max_w al fb = Some (w, r, fb')"
      "inside_box (text_left al x w max_w) (text_left al x w max_w + min max_w (w + 8)) y (y + int (f_h f)) fb fb'"
    using text_f_tight [OF assms(1) fb w(1)] by blast
  then show "\<exists>fb'. put f x y s fg bg max_w al fb = Some fb' \<and> inside_box x0 x1 0 (int LCD_H) fb fb'"
    using b by (auto simp: put_def intro: inside_box_wider)
qed

lemma keeps_put_left [keeps]:
  "font_tight f \<Longrightarrow> 0 \<le> x \<Longrightarrow> x0 \<le> x \<Longrightarrow> x + max_w \<le> x1 \<Longrightarrow> keeps_in x0 x1 (put f x y s fg bg max_w ALIGN_LEFT)"
  by (rule put_keeps) (auto simp: text_left_def)

lemma keeps_put_right [keeps]:
  "font_tight f \<Longrightarrow> 0 \<le> x - max_w \<Longrightarrow> x0 \<le> x - max_w \<Longrightarrow> x + 8 \<le> x1 \<Longrightarrow> keeps_in x0 x1 (put f x y s fg bg max_w ALIGN_RIGHT)"
  by (rule put_keeps) (auto simp: text_left_def)

section \<open>The mode line\<close>

text \<open>The recorded rehash times fill the list from its start; each is at most that of \<open>2\<^sup>3\<^sup>2 - 1\<close> cycles.\<close>

definition rehash_ok :: "'s lane \<Rightarrow> bool" where
  "rehash_ok l \<longleftrightarrow> ln_rehash_n l \<le> length (ln_rehash_ms l) \<and> (\<forall>i<ln_rehash_n l. unat (ln_rehash_ms l ! i) \<le> 10737)"

lemma note_rehash_ok:
  assumes "rehash_ok l" "note_rehash grow h l = Some l'"
  shows "rehash_ok l'"
proof -
  have "unat ((grow + 200000) div 400000) \<le> 10737"
  proof -
    have "unat (grow + 200000) < 2 ^ 32" using unsigned_less [of "grow + 200000"] by simp
    then show ?thesis by (simp add: unat_div)
  qed
  then show ?thesis using assms
    by (auto simp: note_rehash_def rehash_ok_def Let_def nth_list_update wr_eq_Some less_Suc_eq split: if_splits Option.bind_splits)
qed

lemma dec_length: "n < 10 ^ k \<Longrightarrow> 0 < k \<Longrightarrow> length (dec n) \<le> k"
proof (induction k arbitrary: n)
  case (Suc k)
  show ?case
  proof (cases "n < 10")
    case True
    then show ?thesis by (simp add: dec.simps)
  next
    case False
    then have "n div 10 < 10 ^ k" "0 < k" using Suc.prems by (auto simp: less_mult_imp_div_less intro: gr0I)
    then show ?thesis using Suc.IH [of "n div 10"] False by (subst dec.simps) simp
  qed
qed simp

lemma mode_loop_ok:
  assumes "rehash_ok l" "i + todo = ln_rehash_n l" "snd p \<le> 64"
  shows "\<exists>p'. mode_loop l 64 todo i p = Some p' \<and> snd p' \<le> 64"
  using assms(2,3)
proof (induction todo arbitrary: i p)
  case (Suc todo)
  obtain b k where p: "p = (b, k)" by (cases p)
  show ?case
  proof (cases "k < 56")
    case True
    have i: "i < length (ln_rehash_ms l)" "unat (ln_rehash_ms l ! i) \<le> 10737" using assms(1) Suc.prems(1) by (auto simp: rehash_ok_def)
    then have len: "length (lu (ln_rehash_ms l ! i)) \<le> 5" using dec_length [of "unat (ln_rehash_ms l ! i)" 5] by (simp add: lu_def)
    let ?s = "(if i \<noteq> 0 then [CHR '' '', CHR 0xB7, CHR '' ''] else '' '') @ lu (ln_rehash_ms l ! i)"
    have s: "snprintf_at 64 ?s p = Some (take 63 (b @ ?s), k + length ?s)" using True by (simp add: snprintf_at_def p)
    have "k + length ?s \<le> 64" using len True by (cases "i = 0") auto
    then obtain p' where "mode_loop l 64 todo (i + 1) (take 63 (b @ ?s), k + length ?s) = Some p'" "snd p' \<le> 64"
      using Suc.IH [of "i + 1"] Suc.prems(1) by fastforce
    then show ?thesis using True i s by (simp add: p)
  next
    case False
    then show ?thesis using Suc.prems(2) by (simp add: p)
  qed
qed simp

lemma mode_line_ok: "rehash_ok l \<Longrightarrow> \<exists>b. mode_line l p 64 = Some b"
proof -
  assume l: "rehash_ok l"
  obtain q where "mode_loop l 64 (ln_rehash_n l) 0 (''doublings cost'', length ''doublings cost'') = Some q" "snd q \<le> 64"
    using mode_loop_ok [OF l, of 0 "ln_rehash_n l" "(''doublings cost'', length ''doublings cost'')"] by auto
  then show ?thesis by (cases q) (simp add: mode_line_def snprintf_at_def)
qed

section \<open>The panels of a lane\<close>

definition fonts_ok :: "demo_fonts \<Rightarrow> bool" where
  "fonts_ok F \<longleftrightarrow> font_tight (mono16 F) \<and> font_tight (cond24 F) \<and> font_tight (cond32 F) \<and> font_tight (cond40 F) \<and>
     (\<forall>g\<in>set (f_g (mono16 F)). g_adv g \<le> 9)"

lemmas layout = STRIP_Y_def STRIP_H_def HEAD_Y_def HEAD_H_def BEAT_Y_def BEAT_H_def NUMS_Y_def NUMS_H_def SWEEP_Y_def SWEEP_H_def
  SCORE_Y_def SCORE_H_def FOOT_Y_def FOOT_H_def LANE_W_def BAND_Y_def BAND_H_def

lemma fonts_okD [simp]:
  "fonts_ok F \<Longrightarrow> font_tight (mono16 F)" "fonts_ok F \<Longrightarrow> font_tight (cond24 F)" "fonts_ok F \<Longrightarrow> font_tight (cond32 F)"
  "fonts_ok F \<Longrightarrow> font_tight (cond40 F)" "fonts_ok F \<Longrightarrow> font_ok (mono16 F)"
  by (simp_all add: fonts_ok_def font_tight_def)

lemma lane_x_pos: "0 \<le> LANE_X i"
  by (simp add: LANE_X_def split: lane_id.split)

abbreviation keeps_lane :: "lane_id \<Rightarrow> (frame \<Rightarrow> frame option) \<Rightarrow> bool" where
  "keeps_lane i \<equiv> keeps_in (LANE_X i) (LANE_X i + LANE_W)"

lemma draw_head_keeps:
  assumes "fonts_ok F" "rehash_ok l"
  shows "keeps_lane i (draw_head F i l p)"
proof -
  obtain b where "mode_line l p 64 = Some b" using mode_line_ok [OF assms(2)] by blast
  then have "keeps_lane i (\<lambda>fb. mode_line l p 64 \<bind> (\<lambda>b. put (mono16 F) (LANE_X i + 6) (HEAD_Y + 36) (fix_dots b) C_MUTED C_BG (LANE_W - 12) ALIGN_LEFT fb))"
    using assms(1) lane_x_pos [of i] by - (rule keeps_value, assumption, rule keeps_put_left, simp_all add: layout)
  then show ?thesis unfolding draw_head_def Let_def using assms(1) lane_x_pos [of i]
    by (intro keeps_bind keeps_fill keeps_put_left) (simp_all add: layout)
qed

lemma text_w_mono: "fonts_ok F \<Longrightarrow> text_w (mono16 F) s = Some w \<Longrightarrow> w \<le> 9 * int (length s)"
proof (induction s arbitrary: w)
  case (Cons ch s)
  from glyph_of_ok [OF fonts_okD(5) [OF Cons.prems(1)]] obtain g where g: "glyph_of (mono16 F) ch = Some g" "g \<in> set (f_g (mono16 F))" by blast
  obtain w' where "text_w (mono16 F) s = Some w'" "w = int (g_adv g) + w'" using Cons.prems(2) g(1) by (auto split: Option.bind_splits)
  moreover have "g_adv g \<le> 9" using Cons.prems(1) g(2) unfolding fonts_ok_def by blast
  ultimately show ?case using Cons.IH [OF Cons.prems(1), of w'] by simp
qed simp

text \<open>The width a legend may take.\<close>

fun legend_w :: "(u32 \<times> string \<times> bool) list \<Rightarrow> int" where
  "legend_w [] = 0"
| "legend_w ((c, s, on) # items) = 18 + 9 * int (length s) + 22 + legend_w items"

lemma legend_w_pos: "0 \<le> legend_w items"
  by (induction items rule: legend_w.induct) auto

lemma draw_legend_keeps:
  assumes "fonts_ok F"
  shows "0 \<le> lx \<Longrightarrow> x0 \<le> lx \<Longrightarrow> lx + legend_w items \<le> x1 \<Longrightarrow> keeps_in x0 x1 (draw_legend F ly items lx)"
proof (induction items arbitrary: lx rule: legend_w.induct)
  case 1
  then show ?case by (simp add: keeps_in_def inside_box_refl)
next
  case (2 c s on items)
  note pos = legend_w_pos [of items]
  show ?case
  proof (cases on)
    case False
    have "keeps_in x0 x1 (draw_legend F ly items lx)" using 2(2-) pos by (intro "2.IH") auto
    then show ?thesis using False by (simp add: keeps_in_def)
  next
    case True
    have fill: "keeps_in x0 x1 (\<lambda>fb. fill_rect fb lx (ly + 4) 12 12 c)" using 2(2-) pos by (intro keeps_fill) auto
    have "keeps_in x0 x1 (\<lambda>fb. text_f (mono16 F) (lx + 18) ly (map of_char (snprintf 64 s)) C_MUTED C_PANEL 120 ALIGN_LEFT fb \<bind>
        (\<lambda>(w, _, fb). draw_legend F ly items (lx + 18 + w + 22) fb))"
      unfolding keeps_in_def
    proof (intro allI impI)
      fix fb
      assume fb: "frame_ok fb"
      obtain w where w: "text_w (mono16 F) (map of_char (snprintf 64 s)) = Some w" "0 \<le> w"
        using text_w_ok [OF fonts_okD(5) [OF assms]] by blast
      have w9: "w \<le> 9 * int (length s)" using text_w_mono [OF assms w(1)] by (simp add: snprintf_def)
      obtain fb' r where fb': "text_f (mono16 F) (lx + 18) ly (map of_char (snprintf 64 s)) C_MUTED C_PANEL 120 ALIGN_LEFT fb = Some (w, r, fb')"
          "inside_box (lx + 18) (lx + 18 + min 120 (w + 8)) ly (ly + int (f_h (mono16 F))) fb fb'"
        using text_f_tight [OF _ fb w(1), of ALIGN_LEFT "lx + 18" 120 ly C_MUTED C_PANEL] assms 2(2) by (auto simp: text_left_def)
      have b: "inside_box x0 x1 0 (int LCD_H) fb fb'" by (rule inside_box_wider [OF fb'(2)]) (use 2(2-) w9 pos in auto)
      have "keeps_in x0 x1 (draw_legend F ly items (lx + 18 + w + 22))" using 2(2-) w w9 pos by (intro "2.IH") auto
      then obtain fb'' where "draw_legend F ly items (lx + 18 + w + 22) fb' = Some fb''" "inside_box x0 x1 0 (int LCD_H) fb' fb''"
        using keeps_inD inside_box_ok [OF b] by blast
      then show "\<exists>fb''. text_f (mono16 F) (lx + 18) ly (map of_char (snprintf 64 s)) C_MUTED C_PANEL 120 ALIGN_LEFT fb \<bind>
          (\<lambda>(w, _, fb). draw_legend F ly items (lx + 18 + w + 22) fb) = Some fb'' \<and> inside_box x0 x1 0 (int LCD_H) fb fb''"
        using fb'(1) inside_box_trans [OF b] by auto
    qed
    from keeps_bind [OF fill this] show ?thesis using True by simp
  qed
qed

lemma draw_beat_frame_keeps: "fonts_ok F \<Longrightarrow> keeps_lane i (draw_beat_frame F i l p)"
  unfolding draw_beat_frame_def Let_def using lane_x_pos [of i]
  by (intro keeps_bind keeps_fill keeps_put_left draw_legend_keeps) (simp_all add: layout BAND_X_def BAND_W_def legend_items_def)

lemma draw_nums_keeps: "fonts_ok F \<Longrightarrow> keeps_lane i (draw_nums F i l)"
  unfolding draw_nums_def Let_def case_prod_beta using lane_x_pos [of i]
  by (intro keeps_bind keeps_fill keeps_loop keeps_put_left) (simp_all add: layout)

lemma draw_sweep_keeps: "fonts_ok F \<Longrightarrow> keeps_lane i (draw_sweep F i l p)"
  unfolding draw_sweep_def Let_def using lane_x_pos [of i]
  by (intro keeps_bind keeps_fill keeps_put_left) (simp_all add: layout)

lemma draw_score_keeps: "fonts_ok F \<Longrightarrow> keeps_lane i (draw_score F i l other)"
  unfolding draw_score_def Let_def using lane_x_pos [of i]
  by (intro keeps_bind keeps_fill keeps_put_left keeps_put_right) (simp_all add: layout)

lemma draw_lane_keeps: "fonts_ok F \<Longrightarrow> rehash_ok l \<Longrightarrow> keeps_lane i (draw_lane F i l other p)"
  unfolding draw_lane_def
  by (intro keeps_bind draw_head_keeps draw_beat_frame_keeps draw_nums_keeps draw_sweep_keeps draw_score_keeps)

end
