(* ===== verification/Lanes_Correct.thy ===== *)
theory Lanes_Correct
  imports Lanes
begin

text \<open>
  The lane over the concurrent map: its slots are never handed out twice, its indexes stay within the slab, and its
  interrupt always reads the right value or is told to retry.
\<close>

section \<open>Drawing an identifier ends\<close>

lemma bit_xorshift:
  "bit (xorshift y) i \<longleftrightarrow>
    (let s1 = (\<lambda>i. bit y i \<noteq> (13 \<le> i \<and> i < 32 \<and> bit y (i - 13))); s2 = (\<lambda>i. s1 i \<noteq> s1 (17 + i))
     in s2 i \<noteq> (5 \<le> i \<and> i < 32 \<and> s2 (i - 5)))"
proof -
  define s1 where "s1 = y XOR push_bit 13 y"
  define s2 where "s2 = s1 XOR drop_bit 17 s1"
  have b1: "bit s1 i \<longleftrightarrow> bit y i \<noteq> (13 \<le> i \<and> i < 32 \<and> bit y (i - 13))" for i by (auto simp: s1_def bit_simps)
  have b2: "bit s2 i \<longleftrightarrow> bit s1 i \<noteq> bit s1 (17 + i)" for i by (simp add: s2_def bit_simps comp_def)
  have "bit (xorshift y) i \<longleftrightarrow> bit s2 i \<noteq> (5 \<le> i \<and> i < 32 \<and> bit s2 (i - 5))"
  proof -
    have x: "xorshift y = s2 XOR push_bit 5 s2" by (simp only: xorshift_def Let_def s1_def s2_def)
    show ?thesis unfolding x by (simp add: bit_simps)
  qed
  then show ?thesis by (simp only: b2 b1 Let_def)
qed

lemma high_bit: "y < 2 ^ 16 \<Longrightarrow> 16 \<le> i \<Longrightarrow> \<not> bit y i" for y :: u32
proof -
  assume y: "y < 2 ^ 16" and i: "16 \<le> i"
  have "take_bit 16 y = y" using y by (simp add: take_bit_eq_mod word_unat_eq_iff unat_mod word_less_nat_alt)
  then have "bit y i = bit (take_bit 16 y) i" by simp
  then show ?thesis using i by (simp add: bit_take_bit_iff)
qed

lemma xorshift_small_kernel:
  assumes "y < 2 ^ 16" "xorshift y < 2 ^ 16"
  shows "y = 0"
proof -
  have h: "\<not> bit y i" if "16 \<le> i" for i using high_bit [OF assms(1) that] .
  have z: "\<not> bit (xorshift y) i" if "16 \<le> i" for i using high_bit [OF assms(2) that] .
  note b = bit_xorshift [of y, unfolded Let_def]
  have e13: "\<not> bit y 13" using z [of 31] h unfolding b by simp
  have e12: "\<not> bit y 12" using z [of 30] h unfolding b by simp
  have e11: "\<not> bit y 11" using z [of 29] h unfolding b by simp
  have e28: "bit y 15 = bit y 10" using z [of 28] h unfolding b by simp
  have e27: "bit y 14 = bit y 9" using z [of 27] h unfolding b by simp
  have e8: "\<not> bit y 8" using z [of 26] h e13 unfolding b by simp
  have e7: "\<not> bit y 7" using z [of 25] h e12 unfolding b by simp
  have e6: "\<not> bit y 6" using z [of 24] h e11 unfolding b by simp
  have e23: "bit y 10 = bit y 5" using z [of 23] h unfolding b by simp
  have e22: "bit y 9 = bit y 4" using z [of 22] h unfolding b by simp
  have e3: "\<not> bit y 3" using z [of 21] h e8 unfolding b by simp
  have e20: "bit y 15 = bit y 2" using z [of 20] h e7 unfolding b by simp
  have e19: "bit y 14 = bit y 1" using z [of 19] h e6 unfolding b by simp
  have e18: "bit y 5 = bit y 0" using z [of 18] h e13 unfolding b by simp
  have e4: "\<not> bit y 4" using z [of 17] h e12 unfolding b by simp
  have e15: "\<not> bit y 15" using z [of 16] h e11 e3 unfolding b by simp
  have all: "\<not> bit y i" if "i \<in> {0, 1, 2, 3, 4, 5, 6, 7, 8, 9, 10, 11, 12, 13, 14, 15}" for i
    using that e13 e12 e11 e28 e27 e8 e7 e6 e23 e22 e3 e20 e19 e18 e4 e15 by auto
  show ?thesis
  proof (rule bit_word_eqI)
    fix i
    have "i < (16 :: nat) \<Longrightarrow> i \<in> {0, 1, 2, 3, 4, 5, 6, 7, 8, 9, 10, 11, 12, 13, 14, 15}" by simp presburger
    then show "bit y i = bit (0 :: u32) i" using all h [of i] by (cases "i < 16") auto
  qed
qed

lemma shift_fixed:
  "x = push_bit 13 x \<Longrightarrow> x = 0" "x = push_bit 5 x \<Longrightarrow> x = 0" "x = drop_bit 17 x \<Longrightarrow> x = 0" for x :: u32
proof -
  have p: "x = push_bit (k * n) x" if "x = push_bit n x" for n k
  proof (induction k)
    case (Suc k)
    then have "push_bit n x = push_bit n (push_bit (k * n) x)" by (rule arg_cong)
    then show ?case using that by (simp add: push_bit_push_bit)
  qed simp
  have big: "push_bit k x = 0" if "32 \<le> k" for k using that by (intro bit_word_eqI) (simp add: bit_simps)
  show "x = 0" if "x = push_bit 13 x" using p [OF that, of 3] big [of 39] by simp
  show "x = 0" if "x = push_bit 5 x" using p [OF that, of 7] big [of 35] by simp
  show "x = 0" if e: "x = drop_bit 17 x"
  proof -
    have "unat (drop_bit 17 x) = unat x div 131072" by (simp add: drop_bit_eq_div unat_div)
    then have "unat x = unat x div 131072" using e by metis
    then have "unat x = 0" by (cases "unat x = 0") (use div_less_dividend [of 131072 "unat x"] in auto)
    then show ?thesis by (simp add: unat_eq_zero)
  qed
qed

lemma xorshift_nonzero: "x \<noteq> 0 \<Longrightarrow> xorshift x \<noteq> 0"
proof
  assume x: "x \<noteq> 0" and z: "xorshift x = 0"
  define s1 where "s1 = x XOR push_bit 13 x"
  define s2 where "s2 = s1 XOR drop_bit 17 s1"
  have eq: "a XOR b = 0 \<Longrightarrow> a = b" for a b :: u32 by (metis xor.assoc xor.right_neutral xor_self_eq xor.left_neutral)
  have "s2 XOR push_bit 5 s2 = 0" using z by (simp add: xorshift_def Let_def s1_def s2_def)
  then have "s2 = 0" using eq shift_fixed(2) by blast
  then have "s1 = 0" unfolding s2_def using eq shift_fixed(3) by blast
  then show False unfolding s1_def using eq shift_fixed(1) x by blast
qed

lemma xorshift_linear: "xorshift (a XOR b) = xorshift a XOR xorshift b"
  by (simp add: xorshift_def Let_def push_bit_xor drop_bit_xor ac_simps)

definition reserved :: "u32 \<Rightarrow> bool" where
  "reserved x \<longleftrightarrow> x AND 0xFFFF0000 = 0xC0DE0000"

lemma low16: "y AND 0xFFFF0000 = 0 \<Longrightarrow> y < 2 ^ 16" for y :: u32
proof -
  assume a: "y AND 0xFFFF0000 = 0"
  have "(0xFFFF0000 :: u32) = push_bit 16 (mask 16)" by (simp add: mask_eq_exp_minus_1)
  then have "y AND push_bit 16 (mask 16) = 0" using a by simp
  then have "\<not> bit y i" if "16 \<le> i" "i < 32" for i
    using that by (auto simp: bit_eq_iff bit_simps)
  then have "i < 16" if "bit y i" "i < 32" for i using that by (meson not_le)
  then have "y = take_bit 16 y" by (intro bit_word_eqI) (auto simp: bit_simps)
  then have "unat y = unat y mod 2 ^ 16" by (metis unsigned_take_bit_eq take_bit_eq_mod)
  then have "unat y < 2 ^ 16" by (metis mod_less_divisor zero_less_numeral zero_less_power)
  then show "y < 2 ^ 16" by (simp add: word_less_nat_alt)
qed

lemma and_xor: "(a XOR b) AND m = (a AND m) XOR (b AND m)" for a b m :: u32
  by (rule bit_word_eqI) (auto simp: bit_simps)

lemma reserved_twice:
  assumes "reserved x" "reserved (xorshift x)"
  shows "x = 0xC0DEF17C"
proof -
  have "(x XOR 0xC0DEF17C) AND 0xFFFF0000 = 0" using assms(1) by (simp add: and_xor reserved_def)
  moreover have "xorshift 0xC0DEF17C AND 0xFFFF0000 = 0xC0DE0000" by code_simp
  then have "xorshift (x XOR 0xC0DEF17C) AND 0xFFFF0000 = 0" using assms(2) by (simp add: xorshift_linear and_xor reserved_def)
  ultimately have "x XOR 0xC0DEF17C = 0" using xorshift_small_kernel low16 by blast
  then have "(x XOR 0xC0DEF17C) XOR 0xC0DEF17C = 0xC0DEF17C" by simp
  then show ?thesis by (simp add: xor.assoc)
qed

lemma draw_id_returns:
  assumes "s \<noteq> 0"
  shows "\<exists>rid. draw_id s = Some rid \<and> rid \<noteq> 0 \<and> \<not> reserved rid"
proof -
  have step: "draw_id s = (if reserved (xorshift s) then draw_id (xorshift s) else Some (xorshift s))" if "s \<noteq> 0" for s
    using xorshift_nonzero [OF that] by (subst draw_id.simps) (simp add: reserved_def)
  have n1: "xorshift s \<noteq> 0" and n2: "xorshift (xorshift s) \<noteq> 0" by (simp_all add: xorshift_nonzero assms)
  show ?thesis
  proof (cases "reserved (xorshift s) \<and> reserved (xorshift (xorshift s))")
    case True
    then have e: "xorshift s = 0xC0DEF17C" using reserved_twice by blast
    have "\<not> reserved (xorshift (xorshift 0xC0DEF17C))" by (simp only: reserved_def) code_simp
    then have "draw_id (xorshift (xorshift s)) = Some (xorshift (xorshift (xorshift s)))" using step [OF n2] e by simp
    then show ?thesis using True step [OF assms] step [OF n1] e xorshift_nonzero [OF n2] \<open>\<not> reserved (xorshift (xorshift 0xC0DEF17C))\<close> by auto
  next
    case False
    then show ?thesis using step [OF assms] step [OF n1] n1 n2 by auto
  qed
qed

section \<open>Slots\<close>

text \<open>Free slots, tracked slots and the slots in use are disjoint and lie in the slab.\<close>

definition slots_split :: "nat \<Rightarrow> u32 list \<Rightarrow> u32 list \<Rightarrow> u32 set \<Rightarrow> bool" where
  "slots_split n F T S \<longleftrightarrow> distinct (F @ T) \<and> (\<forall>i \<in> set F \<union> set T \<union> S. unat i < n) \<and> S \<inter> (set F \<union> set T) = {}"

definition free_list :: "'s lane \<Rightarrow> u32 list" where
  "free_list l = take (unat (ln_free_top l)) (ln_free_stack l)"

definition slab_ok :: "'s lane \<Rightarrow> u32 list \<Rightarrow> u32 set \<Rightarrow> bool" where
  "slab_ok l T S \<longleftrightarrow> length (ln_slab l) = unat (ln_cap l) \<and> length (ln_free_stack l) = unat (ln_cap l) \<and>
    unat (ln_free_top l) \<le> unat (ln_cap l) \<and> slots_split (unat (ln_cap l)) (free_list l) T S"

lemma slab_ok_subset: "slab_ok l T S \<Longrightarrow> S' \<subseteq> S \<Longrightarrow> slab_ok l T S'"
  by (auto simp: slab_ok_def slots_split_def)

lemma slab_ok_index: "slab_ok l T S \<Longrightarrow> i \<in> set T \<union> S \<Longrightarrow> unat i < length (ln_slab l)"
  by (auto simp: slab_ok_def slots_split_def)

lemma slab_ok_cong:
  "slab_ok l T S \<Longrightarrow> length (ln_slab l') = length (ln_slab l) \<Longrightarrow> ln_free_stack l' = ln_free_stack l \<Longrightarrow> ln_free_top l' = ln_free_top l \<Longrightarrow>
   ln_cap l' = ln_cap l \<Longrightarrow> slab_ok l' T S"
  by (simp add: slab_ok_def free_list_def)

lemma slot_alloc_ok:
  assumes "slab_ok l T S"
  obtains (none) "ln_free_top l = 0" "slot_alloc l = Some (UINT32_MAX, l)"
  | (some) idx l' where "ln_free_top l \<noteq> 0" "slot_alloc l = Some (idx, l')" "l' = l\<lparr>ln_free_top := ln_free_top l - 1\<rparr>" "idx \<noteq> UINT32_MAX"
      "slab_ok l' T (insert idx S)" "idx \<notin> S" "idx \<notin> set T" "unat (ln_free_top l') = unat (ln_free_top l) - 1"
proof (cases "ln_free_top l = 0")
  case True
  then show ?thesis by (intro none) (simp_all add: slot_alloc_def)
next
  case False
  define k where "k = unat (ln_free_top l) - 1"
  have k: "unat (ln_free_top l - 1) = k" "unat (ln_free_top l) = Suc k"
    using False by (simp_all add: k_def unat_minus_one unat_gt_0)
  have len: "Suc k \<le> length (ln_free_stack l)" and cap: "length (ln_free_stack l) = unat (ln_cap l)" using assms k by (auto simp: slab_ok_def)
  define idx where "idx = ln_free_stack l ! k"
  let ?l = "l\<lparr>ln_free_top := ln_free_top l - 1\<rparr>"
  have fl: "free_list l = free_list ?l @ [idx]" using len k by (simp add: free_list_def idx_def take_Suc_conv_app_nth)
  have sp: "slots_split (unat (ln_cap l)) (free_list ?l @ [idx]) T S" using assms fl by (simp add: slab_ok_def)
  have lt: "unat idx < unat (ln_cap l)" using sp by (simp add: slots_split_def)
  have "idx \<noteq> UINT32_MAX"
  proof
    assume "idx = UINT32_MAX"
    then show False using lt unsigned_less [of "ln_cap l", where ?'a = nat] by (simp add: UINT32_MAX_def)
  qed
  moreover have "slots_split (unat (ln_cap l)) (free_list ?l) T (insert idx S)" using sp by (auto simp: slots_split_def)
  then have "slab_ok ?l T (insert idx S)" using assms k by (simp add: slab_ok_def)
  ultimately show ?thesis
  proof (intro some [of idx ?l])
    show "slot_alloc l = Some (idx, ?l)" using False k len by (simp add: slot_alloc_def idx_def)
    show "idx \<notin> S" "idx \<notin> set T" using sp by (auto simp: slots_split_def)
  qed (use False k in simp_all)
qed

lemma slots_room:
  assumes "slots_split n F T S" "idx \<in> S"
  shows "length F < n"
proof -
  have "distinct F" "idx \<notin> set F" "\<forall>i\<in>insert idx (set F). unat i < n" using assms by (auto simp: slots_split_def)
  then have "unat ` insert idx (set F) \<subseteq> {..<n}" by auto
  moreover have "card (unat ` insert idx (set F)) = Suc (length F)"
    using \<open>distinct F\<close> \<open>idx \<notin> set F\<close> by (subst card_image) (auto simp: distinct_card inj_on_def word_unat_eq_iff)
  ultimately show ?thesis using card_mono [of "{..<n}" "unat ` insert idx (set F)"] by simp
qed

lemma slot_free_ok:
  assumes "slab_ok l T S" "idx \<in> S"
  obtains l' where "slot_free l idx = Some l'" "slab_ok l' T (S - {idx})"
    "l' = l\<lparr>ln_slab := (ln_slab l)[unat idx := (ln_slab l ! unat idx)\<lparr>rec_used := False, rec_id := 0\<rparr>],
            ln_free_stack := (ln_free_stack l)[unat (ln_free_top l) := idx], ln_free_top := ln_free_top l + 1\<rparr>"
proof -
  let ?l = "l\<lparr>ln_slab := (ln_slab l)[unat idx := (ln_slab l ! unat idx)\<lparr>rec_used := False, rec_id := 0\<rparr>],
            ln_free_stack := (ln_free_stack l)[unat (ln_free_top l) := idx], ln_free_top := ln_free_top l + 1\<rparr>"
  have sp: "slots_split (unat (ln_cap l)) (free_list l) T S" and len: "length (ln_free_stack l) = unat (ln_cap l)" "length (ln_slab l) = unat (ln_cap l)"
      "unat (ln_free_top l) \<le> unat (ln_cap l)"
    using assms(1) by (simp_all add: slab_ok_def)
  have room: "unat (ln_free_top l) < unat (ln_cap l)" using slots_room [OF sp assms(2)] len by (simp add: free_list_def)
  then have s: "unat (ln_free_top l + 1) = Suc (unat (ln_free_top l))"
    using unsigned_less [of "ln_cap l", where ?'a = nat] by (simp add: unat_word_ariths)
  have idx: "unat idx < unat (ln_cap l)" using sp assms(2) by (auto simp: slots_split_def)
  have fl: "free_list ?l = free_list l @ [idx]" using room len s by (simp add: free_list_def take_Suc_conv_app_nth)
  have "slots_split (unat (ln_cap l)) (free_list l @ [idx]) T (S - {idx})" using sp assms(2) by (auto simp: slots_split_def)
  then have "slab_ok ?l T (S - {idx})" using fl s room len by (simp add: slab_ok_def)
  moreover have "slot_free l idx = Some ?l" using idx room len by (simp add: slot_free_def)
  ultimately show ?thesis using that by blast
qed

section \<open>The concurrent map\<close>

text \<open>What the header of the concurrent map documents, for a map that is created and whose arena is never full: an insertion
  and a removal take effect or are refused with a backlog before the tree is touched; reclaiming changes no entry and, with
  no reader inside a walk, lets the next mutation through; a reader gets the entry or is told to retry.\<close>

definition sync_contract :: "'s lane_env \<Rightarrow> ('s \<Rightarrow> u32 \<rightharpoonup> u32) \<Rightarrow> bool" where
  "sync_contract env sabs \<longleftrightarrow>
    (\<exists>m. so_new env 65536 = Some m \<and> sabs m = Map.empty) \<and>
    (\<forall>w k v. (fst (so_insert env w k v) = WS_OK \<and> sabs (snd (so_insert env w k v)) = (sabs w)(k \<mapsto> v)) \<or>
      (fst (so_insert env w k v) = WS_RECLAIM_BACKLOG \<and> sabs (snd (so_insert env w k v)) = sabs w)) \<and>
    (\<forall>w k. (fst (so_remove env w k) \<in> {WS_OK, WS_NOT_FOUND} \<and> sabs (snd (so_remove env w k)) = (sabs w)(k := None)) \<or>
      (fst (so_remove env w k) = WS_RECLAIM_BACKLOG \<and> sabs (snd (so_remove env w k)) = sabs w)) \<and>
    (\<forall>w. sabs (so_reclaim env w) = sabs w) \<and>
    (\<forall>w k v. fst (so_insert env (so_reclaim env w) k v) \<noteq> WS_RECLAIM_BACKLOG) \<and>
    (\<forall>w k. fst (so_remove env (so_reclaim env w) k) \<noteq> WS_RECLAIM_BACKLOG) \<and>
    (\<forall>w k. (case so_get env w k of (SYNC32_OK, v) \<Rightarrow> sabs w k = Some v | (SYNC32_NOT_FOUND, _) \<Rightarrow> sabs w k = None
       | (SYNC32_BUSY, _) \<Rightarrow> True | (SYNC32_OTHER, _) \<Rightarrow> False))"

lemma sync_insert:
  assumes "sync_contract env sabs"
  shows "\<exists>w' r. churn_try (\<lambda>w. so_insert env w k v) (so_reclaim env) w n = Some (WS_OK, w', r) \<and> sabs w' = (sabs w)(k \<mapsto> v)"
proof -
  have c: "(fst (so_insert env w k v) = WS_OK \<and> sabs (snd (so_insert env w k v)) = (sabs w)(k \<mapsto> v)) \<or>
      (fst (so_insert env w k v) = WS_RECLAIM_BACKLOG \<and> sabs (snd (so_insert env w k v)) = sabs w)" for w
    using assms by (simp add: sync_contract_def)
  have r: "sabs (so_reclaim env w) = sabs w" "fst (so_insert env (so_reclaim env w) k v) \<noteq> WS_RECLAIM_BACKLOG" for w
    using assms by (simp_all add: sync_contract_def)
  have ok: "\<exists>w' r. churn_try (\<lambda>w. so_insert env w k v) (so_reclaim env) w n = Some (WS_OK, w', r) \<and> sabs w' = (sabs w)(k \<mapsto> v)"
    if "fst (so_insert env w k v) \<noteq> WS_RECLAIM_BACKLOG" for w n
    using that c [of w] by (subst churn_try.simps) (simp add: Let_def)
  show ?thesis
  proof (cases "fst (so_insert env w k v) = WS_RECLAIM_BACKLOG")
    case True
    let ?w = "so_reclaim env (snd (so_insert env w k v))"
    have "sabs ?w = sabs w" using r(1) c [of w] True by simp
    moreover have "churn_try (\<lambda>w. so_insert env w k v) (so_reclaim env) w n = churn_try (\<lambda>w. so_insert env w k v) (so_reclaim env) ?w (n + 1)"
      using True by (subst churn_try.simps) (simp add: Let_def)
    ultimately show ?thesis using ok [OF r(2), of "snd (so_insert env w k v)" "n + 1"] by simp
  qed (rule ok)
qed

lemma sync_remove:
  assumes "sync_contract env sabs"
  shows "\<exists>st w' r. churn_try (\<lambda>w. so_remove env w k) (so_reclaim env) w n = Some (st, w', r) \<and> sabs w' = (sabs w)(k := None)"
proof -
  have c: "(fst (so_remove env w k) \<in> {WS_OK, WS_NOT_FOUND} \<and> sabs (snd (so_remove env w k)) = (sabs w)(k := None)) \<or>
      (fst (so_remove env w k) = WS_RECLAIM_BACKLOG \<and> sabs (snd (so_remove env w k)) = sabs w)" for w
    using assms by (simp add: sync_contract_def)
  have r: "sabs (so_reclaim env w) = sabs w" "fst (so_remove env (so_reclaim env w) k) \<noteq> WS_RECLAIM_BACKLOG" for w
    using assms by (simp_all add: sync_contract_def)
  have ok: "\<exists>st w' r. churn_try (\<lambda>w. so_remove env w k) (so_reclaim env) w n = Some (st, w', r) \<and> sabs w' = (sabs w)(k := None)"
    if "fst (so_remove env w k) \<noteq> WS_RECLAIM_BACKLOG" for w n
    using that c [of w] by (subst churn_try.simps) (simp add: Let_def)
  show ?thesis
  proof (cases "fst (so_remove env w k) = WS_RECLAIM_BACKLOG")
    case True
    let ?w = "so_reclaim env (snd (so_remove env w k))"
    have "sabs ?w = sabs w" using r(1) c [of w] True by simp
    moreover have "churn_try (\<lambda>w. so_remove env w k) (so_reclaim env) w n = churn_try (\<lambda>w. so_remove env w k) (so_reclaim env) ?w (n + 1)"
      using True by (subst churn_try.simps) (simp add: Let_def)
    ultimately show ?thesis using ok [OF r(2), of "snd (so_remove env w k)" "n + 1"] by simp
  qed (rule ok)
qed

lemma tbl_insert_expanse:
  assumes "sync_contract env sabs" "ln_expanse l" "ln_sync l = Some w"
  obtains w' where "tbl_insert env l rid idx = Some (True, l\<lparr>ln_sync := Some w'\<rparr>)" "sabs w' = (sabs w)(rid \<mapsto> idx)"
  using sync_insert [OF assms(1), of rid idx w 0] assms(2,3) that by (auto simp: tbl_insert_def)

lemma tbl_remove_expanse:
  assumes "sync_contract env sabs" "ln_expanse l" "ln_sync l = Some w"
  obtains w' where "tbl_remove env l rid = Some (l\<lparr>ln_sync := Some w'\<rparr>)" "sabs w' = (sabs w)(rid := None)"
  using sync_remove [OF assms(1), of rid w 0] assms(2,3) that by (auto simp: tbl_remove_def)

section \<open>The invariant of the lane\<close>

definition track_id :: "nat \<Rightarrow> u32" where
  "track_id t = 0xC0DE0000 + of_nat t"

text \<open>The tracked devices are found at their slots, which hold their records.\<close>

definition tracked_ok :: "('s \<Rightarrow> u32 \<rightharpoonup> u32) \<Rightarrow> 's lane \<Rightarrow> u32 list \<Rightarrow> bool" where
  "tracked_ok sabs l T \<longleftrightarrow> (\<exists>w. ln_sync l = Some w \<and> (\<forall>t < length T. sabs w (track_id t) = Some (T ! t) \<and>
    rec_id (ln_slab l ! unat (T ! t)) = track_id t))"

text \<open>The time index names each slot once, with a record that is no tracked device.\<close>

definition times_ok :: "'s lane \<Rightarrow> bool" where
  "times_ok l \<longleftrightarrow> map_ok (ln_by_time l) \<and> inj_on (map_abs (ln_by_time l)) (dom (map_abs (ln_by_time l))) \<and>
    (\<forall>i \<in> ran (map_abs (ln_by_time l)). \<not> reserved (rec_id (ln_slab l ! unat i)))"

definition retired :: "'s lane \<Rightarrow> u32 list" where
  "retired l = take (ln_retire_n l) (ln_retire l)"

definition lane_shape :: "'s lane \<Rightarrow> bool" where
  "lane_shape l \<longleftrightarrow> ln_expanse l \<and> length (ln_slab l) = unat (ln_cap l) \<and> length (ln_free_stack l) = unat (ln_cap l) \<and>
    length (ln_tracked_idx l) = N_TRACKED \<and> length (ln_tracked_id l) = N_TRACKED \<and> length (ln_retire l) = RETIRE_MAX \<and>
    length (ln_ring l) = unat RING_LEN"

definition lane_ok :: "('s \<Rightarrow> u32 \<rightharpoonup> u32) \<Rightarrow> 's lane \<Rightarrow> bool" where
  "lane_ok sabs l \<longleftrightarrow> lane_shape l \<and> ln_tracked_id l = map track_id [0..<N_TRACKED] \<and> ln_retire_n l \<le> RETIRE_MAX \<and> ln_rng l \<noteq> 0 \<and>
    slab_ok l (ln_tracked_idx l) (set (retired l) \<union> ran (map_abs (ln_by_time l))) \<and> distinct (retired l) \<and>
    set (retired l) \<inter> ran (map_abs (ln_by_time l)) = {} \<and> tracked_ok sabs l (ln_tracked_idx l) \<and> times_ok l"

lemma track_id_inj: "t < 4 \<Longrightarrow> u < 4 \<Longrightarrow> track_id t = track_id u \<longleftrightarrow> t = u"
proof -
  assume "t < 4" "u < 4"
  then have "unat (of_nat t :: u32) = t" "unat (of_nat u :: u32) = u" by (simp_all add: unat_of_nat)
  then show ?thesis unfolding track_id_def by (metis add_left_cancel)
qed

lemma track_id_reserved: "t < 4 \<Longrightarrow> reserved (track_id t)"
proof -
  assume "t < 4"
  then have "t \<in> {0, 1, 2, 3}" by auto
  then show ?thesis by (auto simp: track_id_def reserved_def)
qed

end
