(* ===== verification/Lanes_Runs.thy ===== *)
theory Lanes_Runs
  imports Lanes_Correct
begin

text \<open>
  Every operation of the lane over the concurrent map returns and keeps its invariant, from a filled lane on; its interrupt reads
  the tracked devices.
\<close>

section \<open>Adding a record\<close>

lemma ran_upd: "ran (M(k \<mapsto> v)) \<subseteq> insert v (ran M)"
  by (auto simp: ran_def)

lemma inj_upd: "inj_on M (dom M) \<Longrightarrow> v \<notin> ran M \<Longrightarrow> inj_on (M(k \<mapsto> v)) (dom (M(k \<mapsto> v)))"
  by (auto simp: inj_on_def ran_def dom_def)

lemma nth_other: "i \<noteq> j \<Longrightarrow> xs[unat i := x] ! unat j = xs ! unat j" for i j :: u32
  by (simp add: word_unat_eq_iff)

lemma tracked_ok_write:
  assumes "tracked_ok sabs l T" "idx \<notin> set T" "ln_sync l = Some w" "ln_sync l' = Some w'" "ln_slab l' = (ln_slab l)[unat idx := r]"
    "\<And>t. t < length T \<Longrightarrow> sabs w' (track_id t) = sabs w (track_id t)"
  shows "tracked_ok sabs l' T"
proof -
  have "idx \<noteq> T ! t" if "t < length T" for t using assms(2) that nth_mem by blast
  then show ?thesis using assms by (auto simp: tracked_ok_def nth_other)
qed

lemma lane_okD:
  assumes "lane_ok sabs l"
  shows "lane_shape l" "ln_tracked_id l = map track_id [0..<N_TRACKED]" "ln_retire_n l \<le> RETIRE_MAX" "ln_rng l \<noteq> 0"
    "slab_ok l (ln_tracked_idx l) (set (retired l) \<union> ran (map_abs (ln_by_time l)))" "distinct (retired l)"
    "set (retired l) \<inter> ran (map_abs (ln_by_time l)) = {}" "tracked_ok sabs l (ln_tracked_idx l)" "times_ok l"
  using assms by (simp_all add: lane_ok_def)

lemma add_record_ok:
  assumes "sync_contract env sabs" "lane_ok sabs l"
  obtains (full) "ln_free_top l = 0" "add_record env l born = Some (False, l)"
  | (added) l' where "ln_free_top l \<noteq> 0" "add_record env l born = Some (True, l')" "lane_ok sabs l'"
      "unat (ln_free_top l') = unat (ln_free_top l) - 1" "ln_retire_n l' = ln_retire_n l" "ln_cap l' = ln_cap l"
proof -
  note ok = lane_okD [OF assms(2)]
  let ?T = "ln_tracked_idx l" and ?M = "map_abs (ln_by_time l)" and ?R = "retired l"
  from ok(5) show thesis
  proof (cases rule: slot_alloc_ok)
    case none
    then show ?thesis by (intro full) (simp_all add: add_record_def)
  next
    case (some idx l1)
    obtain rid where rid: "draw_id (ln_rng l) = Some rid" "rid \<noteq> 0" "\<not> reserved rid" using draw_id_returns [OF ok(4)] by blast
    obtain w where w: "ln_sync l = Some w" using ok(8) by (auto simp: tracked_ok_def)
    let ?rec = "\<lparr>rec_id = rid, rec_born_ms = born, rec_used = True\<rparr>"
    define l2 where "l2 = l1\<lparr>ln_rng := rid, ln_slab := (ln_slab l1)[unat idx := ?rec]\<rparr>"
    have shape: "ln_expanse l" "length ?T = 4" "length (ln_slab l) = unat (ln_cap l)" using ok(1) by (simp_all add: lane_shape_def N_TRACKED_def)
    have idx: "unat idx < length (ln_slab l)" using slab_ok_index [OF some(5)] some(3) by simp
    have "ln_expanse l2" "ln_sync l2 = Some w" using shape w some(3) by (simp_all add: l2_def)
    then obtain w' where w': "tbl_insert env l2 rid idx = Some (True, l2\<lparr>ln_sync := Some w'\<rparr>)" "sabs w' = (sabs w)(rid \<mapsto> idx)"
      by (rule tbl_insert_expanse [OF assms(1)])
    define k where "k = tk_of born (ln_seq l)"
    define l3 where "l3 = l2\<lparr>ln_sync := Some w', ln_by_time := fst (expanse_map_insert (ln_by_time l) k idx),
      ln_seq := ln_seq l + 1, ln_count := ln_count l + 1\<rparr>"
    have run: "add_record env l born = Some (True, l3)"
      using some rid idx w'(1) shape by (simp add: add_record_def l3_def l2_def k_def)
    have bt: "map_ok (ln_by_time l3)" "map_abs (ln_by_time l3) = ?M(k \<mapsto> idx)"
      using ok(9) map_abs_ops(1,2) [of "ln_by_time l" k idx] by (simp_all add: times_ok_def l3_def)
    have fields: "ln_tracked_idx l3 = ?T" "retired l3 = ?R" "ln_slab l3 = (ln_slab l)[unat idx := ?rec]" "ln_sync l3 = Some w'"
      by (simp_all add: l3_def l2_def some(3) retired_def)
    have fresh: "idx \<notin> set ?R" "idx \<notin> ran ?M" "idx \<notin> set ?T" using some(6,7) by auto
    have sub: "set ?R \<union> ran (?M(k \<mapsto> idx)) \<subseteq> insert idx (set ?R \<union> ran ?M)" using ran_upd [of ?M k idx] by blast
    have "slab_ok l3 ?T (insert idx (set ?R \<union> ran ?M))" using some(3) by (intro slab_ok_cong [OF some(5)]) (simp_all add: l3_def l2_def)
    from slab_ok_subset [OF this sub] have s: "slab_ok l3 ?T (set ?R \<union> ran (?M(k \<mapsto> idx)))" .
    have tr: "tracked_ok sabs l3 ?T"
      by (rule tracked_ok_write [OF ok(8) fresh(3) w fields(4,3)]) (use w'(2) rid(3) track_id_reserved shape in auto)
    have "\<not> reserved (rec_id ((ln_slab l)[unat idx := ?rec] ! unat i))" if "i \<in> ran (?M(k \<mapsto> idx))" for i
    proof (cases "i = idx")
      case False
      then have "i \<in> ran ?M" using that ran_upd [of ?M k idx] by blast
      then show ?thesis using ok(9) False by (simp add: times_ok_def nth_other)
    qed (use rid idx in simp)
    then have "times_ok l3" unfolding times_ok_def bt(2) fields(3) using bt(1) inj_upd [OF _ fresh(2)] ok(9) by (simp add: times_ok_def)
    moreover have "set ?R \<inter> ran (?M(k \<mapsto> idx)) = {}" using ok(7) ran_upd [of ?M k idx] fresh(1) by blast
    moreover have "lane_shape l3" "ln_rng l3 \<noteq> 0" "ln_tracked_id l3 = map track_id [0..<N_TRACKED]" "ln_retire_n l3 = ln_retire_n l"
        "ln_cap l3 = ln_cap l" "unat (ln_free_top l3) = unat (ln_free_top l) - 1"
      using ok(1,2) rid some(3,8) by (simp_all add: lane_shape_def l3_def l2_def)
    ultimately have "lane_ok sabs l3" unfolding lane_ok_def fields bt(2) using s tr ok(3,6) fields by simp
    then show ?thesis using added [OF some(1) run] \<open>ln_retire_n l3 = ln_retire_n l\<close> \<open>ln_cap l3 = ln_cap l\<close> \<open>unat (ln_free_top l3) = unat (ln_free_top l) - 1\<close> by blast
  qed
qed

lemma lane_ok_fields:
  assumes "lane_ok sabs l" "ln_expanse l' = ln_expanse l" "ln_slab l' = ln_slab l" "ln_cap l' = ln_cap l" "ln_free_stack l' = ln_free_stack l"
    "ln_free_top l' = ln_free_top l" "ln_sync l' = ln_sync l" "ln_by_time l' = ln_by_time l" "ln_tracked_idx l' = ln_tracked_idx l"
    "ln_tracked_id l' = ln_tracked_id l" "ln_retire l' = ln_retire l" "ln_retire_n l' = ln_retire_n l" "ln_rng l' = ln_rng l"
    "length (ln_ring l') = length (ln_ring l)"
  shows "lane_ok sabs l'"
  using assms(1) unfolding lane_ok_def lane_shape_def slab_ok_def free_list_def retired_def tracked_ok_def times_ok_def assms(2-14) .

lemma ingest_loop_ok:
  assumes "sync_contract env sabs"
  shows "lane_ok sabs l \<Longrightarrow> \<exists>l'. ingest_loop env born cap_records n l = Some l' \<and> lane_ok sabs l'"
proof (induction n arbitrary: l)
  case (Suc n)
  show ?case
  proof (cases "ln_ingest_acc l \<ge> 1000 \<and> ln_count l < cap_records")
    case True
    from assms Suc.prems obtain ok l1 where a: "add_record env l born = Some (ok, l1)" "lane_ok sabs l1"
      by (cases rule: add_record_ok [where born = born]) (use Suc.prems in auto)
    define l2 where "l2 = (let l2 = (if ok then l1 else l1\<lparr>ln_drops := ln_drops l1 + 1\<rparr>) in l2\<lparr>ln_ingest_acc := ln_ingest_acc l2 - 1000\<rparr>)"
    have "lane_ok sabs l2" by (rule lane_ok_fields [OF a(2)]) (simp_all add: l2_def Let_def)
    from Suc.IH [OF this] show ?thesis using True a(1) by (simp add: l2_def Let_def)
  qed (use Suc.prems in auto)
qed simp

lemma lane_ingest_ok:
  assumes "sync_contract env sabs" "lane_ok sabs l"
  shows "\<exists>l'. lane_ingest env l now_ms rate cap_records = Some l' \<and> lane_ok sabs l'"
proof -
  define l2 where "l2 = (let l1 = (if ln_ingest_last_ms l = 0 then l\<lparr>ln_ingest_last_ms := now_ms\<rparr> else l)
    in l1\<lparr>ln_ingest_acc := ln_ingest_acc l1 + (now_ms - ln_ingest_last_ms l1) * rate, ln_ingest_last_ms := now_ms\<rparr>)"
  have "lane_ok sabs l2" by (rule lane_ok_fields [OF assms(2)]) (simp_all add: l2_def Let_def)
  then obtain l3 where l3: "ingest_loop env (now_ms + TTL_MS + 1000) cap_records 256 l2 = Some l3" "lane_ok sabs l3"
    using ingest_loop_ok [OF assms(1)] by blast
  define l4 where "l4 = (if ln_ingest_acc l3 > rate * 1000
               then l3\<lparr>ln_drops := (if ln_count l3 < cap_records then ln_drops l3 + (ln_ingest_acc l3 - rate * 1000) div 1000 else ln_drops l3), ln_ingest_acc := rate * 1000\<rparr>
               else l3)"
  have "lane_ok sabs l4" by (rule lane_ok_fields [OF l3(2)]) (simp_all add: l4_def)
  moreover have "lane_ingest env l now_ms rate cap_records = Some l4"
    unfolding lane_ingest_def Let_def using l3(1) [unfolded l2_def Let_def] by (simp add: l4_def)
  ultimately show ?thesis by blast
qed

section \<open>Re-registering a tracked device\<close>

lemma slots_swap:
  assumes "slots_split n F T (insert x S)" "t < length T" "x \<notin> S" "x \<notin> set T"
  shows "slots_split n F (T[t := x]) (insert (T ! t) S)"
proof -
  have d: "distinct T" using assms(1) by (simp add: slots_split_def)
  have "set (T[t := x]) = insert x (set T - {T ! t})" by (rule set_update_distinct [OF d assms(2)])
  moreover have "distinct (T[t := x])" using distinct_list_update [OF d] assms(4) by simp
  moreover have "T ! t \<in> set T" using assms(2) by simp
  ultimately show ?thesis using assms unfolding slots_split_def by auto
qed

lemma lane_churn_ok:
  assumes "sync_contract env sabs" "lane_ok sabs l"
  shows "\<exists>l'. lane_churn env l now_ms = Some l' \<and> lane_ok sabs l'"
proof (cases "now_ms - ln_last_churn_ms l < 50")
  case True
  then show ?thesis using assms(2) by (simp add: lane_churn_def)
next
  case False
  define t where "t = unat (ln_churn_cursor l mod of_nat N_TRACKED)"
  define l1 where "l1 = l\<lparr>ln_last_churn_ms := now_ms, ln_churn_cursor := ln_churn_cursor l + 1\<rparr>"
  have ok1: "lane_ok sabs l1" by (rule lane_ok_fields [OF assms(2)]) (simp_all add: l1_def)
  note ok = lane_okD [OF ok1]
  let ?T = "ln_tracked_idx l1" and ?M = "map_abs (ln_by_time l1)" and ?R = "retired l1"
  have t: "t < 4" by (simp add: t_def N_TRACKED_def unat_mod)
  have shape: "ln_expanse l1" "length ?T = 4" "length (ln_slab l1) = unat (ln_cap l1)" "length (ln_retire l1) = RETIRE_MAX"
    using ok(1) by (simp_all add: lane_shape_def N_TRACKED_def)
  have run: "lane_churn env l now_ms = do { (new_idx, l2) \<leftarrow> slot_alloc l1;
               if new_idx = UINT32_MAX \<or> ln_retire_n l2 \<ge> RETIRE_MAX then Some l2
               else do { r \<leftarrow> rd (ln_slab l2) (unat (?T ! t));
                         s \<leftarrow> wr (ln_slab l2) (unat new_idx) r;
                         rid \<leftarrow> rd (ln_tracked_id l2) t;
                         (_, l3) \<leftarrow> tbl_insert env (l2\<lparr>ln_slab := s\<rparr>) rid new_idx;
                         ti \<leftarrow> wr (ln_tracked_idx l3) t new_idx;
                         rt \<leftarrow> wr (ln_retire l3) (ln_retire_n l3) (?T ! t);
                         Some (l3\<lparr>ln_tracked_idx := ti, ln_retire := rt, ln_retire_n := ln_retire_n l3 + 1\<rparr>) } }"
    unfolding lane_churn_def Let_def t_def [symmetric] l1_def [symmetric] using False t shape(2) by simp
  from ok(5) show ?thesis
  proof (cases rule: slot_alloc_ok)
    case none
    then show ?thesis using ok1 unfolding run by simp
  next
    case (some idx l2)
    have fields: "ln_tracked_idx l2 = ?T" "retired l2 = ?R" "ln_slab l2 = ln_slab l1" "ln_by_time l2 = ln_by_time l1" "ln_sync l2 = ln_sync l1"
        "ln_retire_n l2 = ln_retire_n l1" "ln_retire l2 = ln_retire l1" "ln_expanse l2" "ln_tracked_id l2 = ln_tracked_id l1"
      using some(3) shape by (simp_all add: retired_def)
    have fresh: "idx \<notin> set ?R" "idx \<notin> ran ?M" using some(6) by auto
    show ?thesis
    proof (cases "ln_retire_n l2 \<ge> RETIRE_MAX")
      case True
      have "slab_ok l2 ?T (set ?R \<union> ran ?M)" by (rule slab_ok_subset [OF some(5)]) blast
      then have "lane_ok sabs l2" using ok some(3) by (simp add: lane_ok_def lane_shape_def retired_def tracked_ok_def times_ok_def)
      then show ?thesis unfolding run using some(2) True by simp
    next
      case False
      define old where "old = ?T ! t"
      have oldT: "old \<in> set ?T" using t shape(2) by (simp add: old_def)
      have lt: "unat old < length (ln_slab l1)" "unat idx < length (ln_slab l1)"
        using slab_ok_index [OF ok(5)] slab_ok_index [OF some(5)] oldT fields(3) by auto
      have new: "idx \<noteq> old" using some(7) oldT by auto
      obtain w where w: "ln_sync l1 = Some w" using ok(8) by (auto simp: tracked_ok_def)
      define s where "s = (ln_slab l1)[unat idx := ln_slab l1 ! unat old]"
      obtain w' where w': "tbl_insert env (l2\<lparr>ln_slab := s\<rparr>) (track_id t) idx = Some (True, l2\<lparr>ln_slab := s, ln_sync := Some w'\<rparr>)"
          "sabs w' = (sabs w)(track_id t \<mapsto> idx)"
        using tbl_insert_expanse [OF assms(1), of "l2\<lparr>ln_slab := s\<rparr>" w "track_id t" idx] fields w by auto
      define l3 where "l3 = l2\<lparr>ln_slab := s, ln_sync := Some w', ln_tracked_idx := ?T[t := idx],
        ln_retire := (ln_retire l1)[ln_retire_n l1 := old], ln_retire_n := ln_retire_n l1 + 1\<rparr>"
      have tid: "ln_tracked_id l1 = map track_id [0..<4]" using ok(2) by (simp add: N_TRACKED_def)
      then have "rd (ln_tracked_id l2) t = Some (track_id t)" using t fields(9) by simp
      then have run3: "lane_churn env l now_ms = Some l3"
        unfolding run using some(2,4) False fields lt w'(1) t shape by (simp add: l3_def s_def old_def)
      have R3: "retired l3 = ?R @ [old]" using False fields shape by (simp add: retired_def l3_def take_Suc_conv_app_nth)
      have f3: "ln_tracked_idx l3 = ?T[t := idx]" "ln_by_time l3 = ln_by_time l1" "ln_slab l3 = s" "ln_sync l3 = Some w'"
        using fields by (simp_all add: l3_def)
      have "slots_split (unat (ln_cap l2)) (free_list l2) (?T[t := idx]) (insert old (set ?R \<union> ran ?M))"
        unfolding old_def by (rule slots_swap) (use some(5,6,7) t shape in \<open>simp_all add: slab_ok_def\<close>)
      then have sl: "slab_ok l3 (?T[t := idx]) (set (?R @ [old]) \<union> ran ?M)"
        using some(5) fields by (simp add: slab_ok_def l3_def s_def free_list_def)
      have ids: "\<forall>u < 4. sabs w (track_id u) = Some (?T ! u) \<and> rec_id (ln_slab l1 ! unat (?T ! u)) = track_id u"
        using ok(8) w shape by (auto simp: tracked_ok_def)
      have "sabs w' (track_id u) = Some (?T[t := idx] ! u) \<and> rec_id (s ! unat (?T[t := idx] ! u)) = track_id u" if u: "u < 4" for u
      proof (cases "u = t")
        case True
        then show ?thesis using ids t shape w'(2) lt by (simp add: s_def old_def)
      next
        case False
        then have "?T ! u \<noteq> idx" using some(7) u shape(2) nth_mem by metis
        then show ?thesis using False ids u t w'(2) track_id_inj [OF u t] by (simp add: s_def nth_other)
      qed
      then have tr: "tracked_ok sabs l3 (?T[t := idx])" using f3 shape by (simp add: tracked_ok_def)
      have tm: "times_ok l3" unfolding times_ok_def f3
      proof (intro conjI ballI)
        fix i assume i: "i \<in> ran ?M"
        then have "idx \<noteq> i" using fresh(2) by blast
        then show "\<not> reserved (rec_id (s ! unat i))" using ok(9) i by (simp add: times_ok_def s_def nth_other)
      qed (use ok(9) in \<open>simp_all add: times_ok_def\<close>)
      have dj: "old \<notin> set ?R" "old \<notin> ran ?M" using ok(5) oldT by (auto simp: slab_ok_def slots_split_def)
      have "lane_shape l3" "ln_tracked_id l3 = map track_id [0..<N_TRACKED]" "ln_retire_n l3 \<le> RETIRE_MAX" "ln_rng l3 \<noteq> 0"
        using ok(1,2,4) False fields some(3) by (simp_all add: lane_shape_def l3_def s_def)
      then have "lane_ok sabs l3" unfolding lane_ok_def R3 f3(1,2) using sl tr tm dj ok(6,7) by simp
      then show ?thesis using run3 by blast
    qed
  qed
qed

end
