(* ===== verification/Lanes_Sweep.thy ===== *)
theory Lanes_Sweep
  imports Lanes_Runs
begin

text \<open>
  A sweep of the lane over the concurrent map: the slots of the expired records and of the retired ones go back to the
  free list, the others and the tracked devices stay.
\<close>

section \<open>Giving slots back\<close>

text \<open>\<open>freed l l' A\<close>: only the records of the slots in \<open>A\<close>, the free list and the index by identifier have changed.\<close>

definition freed :: "'s lane \<Rightarrow> 's lane \<Rightarrow> u32 set \<Rightarrow> bool" where
  "freed l l' A \<longleftrightarrow> (\<exists>s f ft w. l' = l\<lparr>ln_slab := s, ln_free_stack := f, ln_free_top := ft, ln_sync := w\<rparr> \<and>
    (\<forall>i. i \<notin> A \<longrightarrow> s ! unat i = ln_slab l ! unat i))"

lemma freed_refl: "freed l l A"
proof -
  have "l = l\<lparr>ln_slab := ln_slab l, ln_free_stack := ln_free_stack l, ln_free_top := ln_free_top l, ln_sync := ln_sync l\<rparr>" by simp
  then show ?thesis unfolding freed_def by blast
qed

lemma freed_trans: "freed l l1 A \<Longrightarrow> freed l1 l2 A' \<Longrightarrow> freed l l2 (A \<union> A')"
proof -
  assume "freed l l1 A" "freed l1 l2 A'"
  then obtain s f ft w s' f' ft' w' where
      1: "l1 = l\<lparr>ln_slab := s, ln_free_stack := f, ln_free_top := ft, ln_sync := w\<rparr>" "\<forall>i. i \<notin> A \<longrightarrow> s ! unat i = ln_slab l ! unat i" and
      2: "l2 = l1\<lparr>ln_slab := s', ln_free_stack := f', ln_free_top := ft', ln_sync := w'\<rparr>" "\<forall>i. i \<notin> A' \<longrightarrow> s' ! unat i = ln_slab l1 ! unat i"
    unfolding freed_def by blast
  have "l2 = l\<lparr>ln_slab := s', ln_free_stack := f', ln_free_top := ft', ln_sync := w'\<rparr>" using 1(1) 2(1) by simp
  moreover have "\<forall>i. i \<notin> A \<union> A' \<longrightarrow> s' ! unat i = ln_slab l ! unat i" using 1 2(2) by simp
  ultimately show ?thesis unfolding freed_def by blast
qed

lemma freed_mono: "freed l l' A \<Longrightarrow> A \<subseteq> A' \<Longrightarrow> freed l l' A'"
  unfolding freed_def by blast

lemma freed_slot:
  assumes "l' = l\<lparr>ln_slab := (ln_slab l)[unat idx := r], ln_free_stack := f, ln_free_top := ft\<rparr>"
  shows "freed l l' {idx}"
proof -
  have "l' = l\<lparr>ln_slab := (ln_slab l)[unat idx := r], ln_free_stack := f, ln_free_top := ft, ln_sync := ln_sync l\<rparr>" using assms by simp
  moreover have "\<forall>i. i \<notin> {idx} \<longrightarrow> (ln_slab l)[unat idx := r] ! unat i = ln_slab l ! unat i" by (auto simp: nth_other)
  ultimately show ?thesis unfolding freed_def by blast
qed

lemma freed_sync: "freed l (l\<lparr>ln_sync := w\<rparr>) {}"
proof -
  have "l\<lparr>ln_sync := w\<rparr> = l\<lparr>ln_slab := ln_slab l, ln_free_stack := ln_free_stack l, ln_free_top := ln_free_top l, ln_sync := w\<rparr>" by simp
  then show ?thesis unfolding freed_def by blast
qed

lemma freed_fields:
  assumes "freed l l' A"
  shows "ln_expanse l' = ln_expanse l" "ln_cap l' = ln_cap l" "ln_by_time l' = ln_by_time l" "ln_tracked_idx l' = ln_tracked_idx l"
    "ln_tracked_id l' = ln_tracked_id l" "ln_retire l' = ln_retire l" "ln_retire_n l' = ln_retire_n l" "ln_rng l' = ln_rng l"
    "ln_ring l' = ln_ring l" "\<And>i. i \<notin> A \<Longrightarrow> ln_slab l' ! unat i = ln_slab l ! unat i"
  using assms by (auto simp: freed_def)

lemma tracked_ok_freed:
  assumes "tracked_ok sabs l T" "freed l l' A" "A \<inter> set T = {}" "ln_sync l = Some w" "ln_sync l' = Some w'"
    "\<And>t. t < length T \<Longrightarrow> sabs w' (track_id t) = sabs w (track_id t)"
  shows "tracked_ok sabs l' T"
proof -
  have "T ! t \<notin> A" if "t < length T" for t using assms(3) that nth_mem by blast
  then show ?thesis using assms(1,4-6) freed_fields(10) [OF assms(2)] by (auto simp: tracked_ok_def)
qed

section \<open>The expired records\<close>

lemma sweep_one:
  assumes "sync_contract env sabs" "ln_expanse l" "slab_ok l T S" "tracked_ok sabs l T" "length T \<le> 4" "idx \<in> S"
    "\<not> reserved (rec_id (ln_slab l ! unat idx))"
  obtains l' where "expanse_sweep_cb env tk idx (Some (l, n)) = Some (l', n + 1)" "slab_ok l' T (S - {idx})" "tracked_ok sabs l' T" "freed l l' {idx}"
proof -
  obtain w where w: "ln_sync l = Some w" using assms(4) by (auto simp: tracked_ok_def)
  obtain w' where w': "tbl_remove env l (rec_id (ln_slab l ! unat idx)) = Some (l\<lparr>ln_sync := Some w'\<rparr>)"
      "sabs w' = (sabs w)(rec_id (ln_slab l ! unat idx) := None)"
    by (rule tbl_remove_expanse [OF assms(1,2) w])
  let ?l = "l\<lparr>ln_sync := Some w'\<rparr>"
  have "slab_ok ?l T S" by (rule slab_ok_cong [OF assms(3)]) simp_all
  then obtain l' where l': "slot_free ?l idx = Some l'" "slab_ok l' T (S - {idx})"
      "l' = ?l\<lparr>ln_slab := (ln_slab ?l)[unat idx := (ln_slab ?l ! unat idx)\<lparr>rec_used := False, rec_id := 0\<rparr>],
            ln_free_stack := (ln_free_stack ?l)[unat (ln_free_top ?l) := idx], ln_free_top := ln_free_top ?l + 1\<rparr>"
    using assms(6) by (rule slot_free_ok)
  have fr: "freed l l' {idx}" using freed_trans [OF freed_sync freed_slot [OF l'(3)]] by simp
  have "idx \<notin> set T" using assms(3,6) by (auto simp: slab_ok_def slots_split_def)
  moreover have "sabs w' (track_id t) = sabs w (track_id t)" if "t < length T" for t
    using w'(2) assms(5,7) that track_id_reserved [of t] by auto
  ultimately have "tracked_ok sabs l' T" using tracked_ok_freed [OF assms(4) fr _ w, of w'] l'(3) by simp
  moreover have "expanse_sweep_cb env tk idx (Some (l, n)) = Some (l', n + 1)"
    using slab_ok_index [OF assms(3)] assms(6) w'(1) l'(1) by (simp add: expanse_sweep_cb_def)
  ultimately show ?thesis using that l'(2) fr by blast
qed

lemma sweep_fold:
  assumes "sync_contract env sabs" "length T \<le> 4"
  shows "ln_expanse l \<Longrightarrow> slab_ok l T S \<Longrightarrow> tracked_ok sabs l T \<Longrightarrow> distinct (map snd ps) \<Longrightarrow> snd ` set ps \<subseteq> S \<Longrightarrow>
    \<forall>i\<in>snd ` set ps. \<not> reserved (rec_id (ln_slab l ! unat i)) \<Longrightarrow>
    \<exists>l' m. fold (\<lambda>p. expanse_sweep_cb env (fst p) (snd p)) ps (Some (l, n)) = Some (l', m) \<and> slab_ok l' T (S - snd ` set ps) \<and>
      tracked_ok sabs l' T \<and> freed l l' (snd ` set ps)"
proof (induction ps arbitrary: l S n)
  case Nil
  then show ?case by (auto intro: freed_refl)
next
  case (Cons p ps)
  obtain l1 where l1: "expanse_sweep_cb env (fst p) (snd p) (Some (l, n)) = Some (l1, n + 1)" "slab_ok l1 T (S - {snd p})"
      "tracked_ok sabs l1 T" "freed l l1 {snd p}"
    by (rule sweep_one [OF assms(1) Cons.prems(1,2,3) assms(2), of "snd p" "fst p" n]) (use Cons.prems in auto)
  have "\<forall>i\<in>snd ` set ps. \<not> reserved (rec_id (ln_slab l1 ! unat i))"
  proof
    fix i assume i: "i \<in> snd ` set ps"
    moreover have "snd p \<notin> snd ` set ps" using Cons.prems(4) by simp
    ultimately have "i \<notin> {snd p}" by blast
    then show "\<not> reserved (rec_id (ln_slab l1 ! unat i))" using freed_fields(10) [OF l1(4)] Cons.prems(6) i by auto
  qed
  moreover have "snd p \<notin> snd ` set ps" "distinct (map snd ps)" "snd ` set ps \<subseteq> S" using Cons.prems(4,5) by simp_all
  then have "snd ` set ps \<subseteq> S - {snd p}" "distinct (map snd ps)" by blast+
  moreover have "ln_expanse l1" using freed_fields(1) [OF l1(4)] Cons.prems(1) by simp
  ultimately obtain l' m where r: "fold (\<lambda>p. expanse_sweep_cb env (fst p) (snd p)) ps (Some (l1, n + 1)) = Some (l', m)"
      "slab_ok l' T (S - {snd p} - snd ` set ps)" "tracked_ok sabs l' T" "freed l1 l' (snd ` set ps)"
    using Cons.IH [OF _ l1(2,3), of "n + 1"] by blast
  have "S - {snd p} - snd ` set ps = S - snd ` set (p # ps)" "{snd p} \<union> snd ` set ps = snd ` set (p # ps)" by auto
  then show ?case using r freed_trans [OF l1(4) r(4)] l1(1) by auto
qed

lemma spec_list_values:
  assumes "inj_on M (dom M)" "finite (dom M)"
  shows "distinct (map snd (spec_list M A))" "snd ` set (spec_list M A) = ran M - ran (M |` (- A))"
proof -
  let ?ks = "sorted_list_of_set (dom M \<inter> A)"
  have ks: "set ?ks = dom M \<inter> A" using assms(2) by simp
  have s: "map snd (spec_list M A) = map (\<lambda>k. the (M k)) ?ks" by (simp add: spec_list_def)
  have "inj_on (\<lambda>k. the (M k)) (dom M)"
  proof (rule inj_onI)
    fix k k' assume "k \<in> dom M" "k' \<in> dom M" "the (M k) = the (M k')"
    then show "k = k'" using assms(1) by (auto simp: inj_on_def dom_def)
  qed
  then show "distinct (map snd (spec_list M A))" unfolding s distinct_map ks by (auto intro: inj_on_subset)
  have "snd ` set (spec_list M A) = (\<lambda>k. the (M k)) ` (dom M \<inter> A)" using arg_cong [OF s, of set] ks by simp
  also have "\<dots> = ran M - ran (M |` (- A))"
  proof (intro set_eqI iffI)
    fix v assume "v \<in> (\<lambda>k. the (M k)) ` (dom M \<inter> A)"
    then obtain k where k: "M k = Some v" "k \<in> A" by auto
    have "v \<notin> ran (M |` (- A))"
    proof
      assume "v \<in> ran (M |` (- A))"
      then obtain k' where "M k' = Some v" "k' \<notin> A" by (auto simp: ran_def restrict_map_def split: if_splits)
      then show False using k assms(1) by (metis domI inj_onD)
    qed
    then show "v \<in> ran M - ran (M |` (- A))" using k by (auto intro: ranI)
  next
    fix v assume v: "v \<in> ran M - ran (M |` (- A))"
    then obtain k where k: "M k = Some v" by (auto simp: ran_def)
    have "k \<in> A"
    proof (rule ccontr)
      assume "k \<notin> A"
      then have "(M |` (- A)) k = Some v" using k by simp
      then show False using v by (auto intro: ranI)
    qed
    then show "v \<in> (\<lambda>k. the (M k)) ` (dom M \<inter> A)" using k by force
  qed
  finally show "snd ` set (spec_list M A) = ran M - ran (M |` (- A))" .
qed

lemma finite_map_abs: "finite (dom (map_abs m))"
  by (simp add: map_abs_def finite_dom_map_of)

lemma ran_restrict: "ran (M |` A) \<subseteq> ran M"
  by (auto simp: ran_def restrict_map_def split: if_splits)

lemma inj_restrict: "inj_on M (dom M) \<Longrightarrow> inj_on (M |` A) (dom (M |` A))"
  by (auto simp: inj_on_def restrict_map_def dom_def split: if_splits)

lemma sweep_entries_ok:
  assumes "sync_contract env sabs" "lane_ok sabs l"
  shows "\<exists>l' m. sweep_entries env l pretend_now = Some (l', m) \<and> lane_ok sabs l'"
proof -
  note ok = lane_okD [OF assms(2)]
  let ?T = "ln_tracked_idx l" and ?M = "map_abs (ln_by_time l)" and ?R = "retired l" and ?hi = "tk_of (pretend_now - TTL_MS) 0xFF"
  let ?ps = "spec_list ?M {..?hi}" and ?M' = "?M |` (- {..?hi})"
  have ex: "ln_expanse l" "length ?T \<le> 4" using ok(1) by (simp_all add: lane_shape_def N_TRACKED_def)
  have bt: "map_ok (ln_by_time l)" "inj_on ?M (dom ?M)" using ok(9) by (simp_all add: times_ok_def)
  note vals = spec_list_values [OF bt(2) finite_map_abs, of "{..?hi}"]
  have "snd ` set ?ps \<subseteq> set ?R \<union> ran ?M" "\<forall>i\<in>snd ` set ?ps. \<not> reserved (rec_id (ln_slab l ! unat i))"
    unfolding vals(2) using ok(9) by (auto simp: times_ok_def)
  from sweep_fold [OF assms(1) ex(2,1) ok(5,8) vals(1) this, of 0] obtain l1 m where
    l1: "fold (\<lambda>p. expanse_sweep_cb env (fst p) (snd p)) ?ps (Some (l, 0)) = Some (l1, m)" "slab_ok l1 ?T (set ?R \<union> ran ?M - snd ` set ?ps)"
      "tracked_ok sabs l1 ?T" "freed l l1 (snd ` set ?ps)" by blast
  obtain b where b: "expanse_map_remove_range (ln_by_time l) 0 ?hi (Some (expanse_sweep_cb env)) (Some (l, 0)) =
        (b, Some (l1, m), card (dom ?M \<inter> {..?hi}))" "map_ok b" "map_abs b = ?M'"
    using ex.remove_upto_ok [OF bt(1), of ?hi "expanse_sweep_cb env" "Some (l, 0)"] l1(1) by (auto simp: ex_remove_range_def)
  define l2 where "l2 = l1\<lparr>ln_by_time := b\<rparr>"
  have run: "sweep_entries env l pretend_now = Some (l2, m)" using b(1) ex(1) by (simp add: sweep_entries_def l2_def)
  note f = freed_fields [OF l1(4)]
  have fl: "ln_tracked_idx l2 = ?T" "retired l2 = ?R" "map_abs (ln_by_time l2) = ?M'" "map_ok (ln_by_time l2)"
    using f b(2,3) by (simp_all add: l2_def retired_def)
  have dis: "set ?R \<inter> ran ?M = {}" by (rule ok(7))
  have "set ?R \<union> ran ?M' \<subseteq> set ?R \<union> ran ?M - snd ` set ?ps" unfolding vals(2) using dis ran_restrict [of ?M "- {..?hi}"] by auto
  from slab_ok_subset [OF l1(2) this] have "slab_ok l1 ?T (set ?R \<union> ran ?M')" .
  then have sl: "slab_ok l2 ?T (set ?R \<union> ran ?M')" by (rule slab_ok_cong) (simp_all add: l2_def)
  have tm: "times_ok l2" unfolding times_ok_def fl
  proof (intro conjI ballI)
    fix i assume i: "i \<in> ran ?M'"
    then have "i \<notin> snd ` set ?ps" "i \<in> ran ?M" unfolding vals(2) using ran_restrict [of ?M "- {..?hi}"] by auto
    then show "\<not> reserved (rec_id (ln_slab l2 ! unat i))" using f(10) ok(9) by (simp add: l2_def times_ok_def)
  qed (use inj_restrict [OF bt(2)] b in \<open>simp_all add: l2_def\<close>)
  have "lane_shape l2" "ln_tracked_id l2 = map track_id [0..<N_TRACKED]" "ln_retire_n l2 \<le> RETIRE_MAX" "ln_rng l2 \<noteq> 0"
    using ok(1-4) f l1(2) by (simp_all add: lane_shape_def l2_def slab_ok_def)
  moreover have "tracked_ok sabs l2 ?T" using l1(3) by (simp add: tracked_ok_def l2_def)
  moreover have "set ?R \<inter> ran ?M' = {}" using dis ran_restrict [of ?M "- {..?hi}"] by blast
  ultimately have "lane_ok sabs l2" unfolding lane_ok_def fl using sl tm ok(6) by simp
  then show ?thesis using run by blast
qed

section \<open>The retired slots\<close>

lemma free_retired_ok:
  assumes "lane_ok sabs l"
  shows "\<exists>l'. free_retired l = Some l' \<and> lane_ok sabs l'"
proof -
  note ok = lane_okD [OF assms]
  let ?T = "ln_tracked_idx l" and ?M = "map_abs (ln_by_time l)" and ?R = "retired l"
  have len: "length ?R = ln_retire_n l" using ok(1,3) by (simp add: lane_shape_def retired_def)
  let ?P = "\<lambda>i l'. slab_ok l' ?T (set (drop i ?R) \<union> ran ?M) \<and> freed l l' (set ?R) \<and> ln_sync l' = ln_sync l"
  have "\<exists>l'. for_loop [0..<ln_retire_n l] (\<lambda>i l. do { r \<leftarrow> rd (ln_retire l) i; slot_free l r }) l = Some l' \<and> ?P (ln_retire_n l) l'"
  proof (rule for_loop_invariant [where P = ?P], goal_cases)
    case 1
    then show ?case using ok(5) freed_refl by simp
  next
    case (2 i l1)
    have i: "i < length ?R" using 2(1) len by simp
    have d: "drop i ?R = ?R ! i # drop (Suc i) ?R" using i by (simp add: Cons_nth_drop_Suc)
    have l1: "slab_ok l1 ?T (set (drop i ?R) \<union> ran ?M)" "freed l l1 (set ?R)" "ln_sync l1 = ln_sync l" using 2(2) by simp_all
    obtain l' where l': "slot_free l1 (?R ! i) = Some l'" "slab_ok l' ?T (set (drop i ?R) \<union> ran ?M - {?R ! i})"
        "l' = l1\<lparr>ln_slab := (ln_slab l1)[unat (?R ! i) := (ln_slab l1 ! unat (?R ! i))\<lparr>rec_used := False, rec_id := 0\<rparr>],
            ln_free_stack := (ln_free_stack l1)[unat (ln_free_top l1) := ?R ! i], ln_free_top := ln_free_top l1 + 1\<rparr>"
      by (rule slot_free_ok [OF l1(1), of "?R ! i"]) (use d in auto)
    have "?R ! i \<notin> set (drop (Suc i) ?R)" using distinct_drop [OF ok(6), of i] d by simp
    moreover have "?R ! i \<notin> ran ?M" using ok(7) i nth_mem by blast
    ultimately have "set (drop i ?R) \<union> ran ?M - {?R ! i} = set (drop (Suc i) ?R) \<union> ran ?M" unfolding d by auto
    moreover have "freed l l' (set ?R)" using freed_mono [OF freed_trans [OF l1(2) freed_slot [OF l'(3)]]] i by simp
    moreover have "rd (ln_retire l1) i = Some (?R ! i)"
      using freed_fields(6) [OF l1(2)] i ok(1,3) by (simp add: retired_def lane_shape_def)
    ultimately show ?case using l' l1(3) by simp
  qed
  then obtain l1 where l1: "for_loop [0..<ln_retire_n l] (\<lambda>i l. do { r \<leftarrow> rd (ln_retire l) i; slot_free l r }) l = Some l1"
      "slab_ok l1 ?T (ran ?M)" "freed l l1 (set ?R)" "ln_sync l1 = ln_sync l" using len by auto
  define l2 where "l2 = l1\<lparr>ln_retire_n := 0\<rparr>"
  note f = freed_fields [OF l1(3)]
  have fl: "ln_tracked_idx l2 = ?T" "retired l2 = []" "ln_by_time l2 = ln_by_time l" using f by (simp_all add: l2_def retired_def)
  have sl: "slab_ok l2 ?T (ran ?M)" by (rule slab_ok_cong [OF l1(2)]) (simp_all add: l2_def)
  obtain w where w: "ln_sync l = Some w" using ok(8) by (auto simp: tracked_ok_def)
  have "set ?R \<inter> set ?T = {}" using ok(5) by (auto simp: slab_ok_def slots_split_def)
  then have "tracked_ok sabs l1 ?T" using tracked_ok_freed [OF ok(8) l1(3) _ w, of w] l1(4) w by simp
  then have tr: "tracked_ok sabs l2 ?T" by (simp add: tracked_ok_def l2_def)
  have tm: "times_ok l2" unfolding times_ok_def fl
  proof (intro conjI ballI)
    fix i assume i: "i \<in> ran ?M"
    then have "i \<notin> set ?R" using ok(7) by blast
    then show "\<not> reserved (rec_id (ln_slab l2 ! unat i))" using f(10) ok(9) i by (simp add: l2_def times_ok_def)
  qed (use ok(9) in \<open>simp_all add: times_ok_def\<close>)
  have "lane_shape l2" "ln_tracked_id l2 = map track_id [0..<N_TRACKED]" "ln_retire_n l2 \<le> RETIRE_MAX" "ln_rng l2 \<noteq> 0"
    using ok(1,2,4) f l1(2) by (simp_all add: lane_shape_def l2_def slab_ok_def)
  then have "lane_ok sabs l2" unfolding lane_ok_def fl using sl tr tm by simp
  moreover have "free_retired l = Some l2" using l1(1) by (simp add: free_retired_def l2_def)
  ultimately show ?thesis by blast
qed

lemma lane_sweep_ok:
  assumes "sync_contract env sabs" "lane_ok sabs l"
  shows "\<exists>l'. lane_sweep env l now_ms isr0 isr1 = Some l' \<and> lane_ok sabs l'"
proof -
  have "lane_ok sabs (l\<lparr>ln_reads := ln_reads l + 1\<rparr>)" by (rule lane_ok_fields [OF assms(2)]) simp_all
  then obtain l1 m where l1: "sweep_entries env (l\<lparr>ln_reads := ln_reads l + 1\<rparr>) (now_ms + TTL_MS + 1000) = Some (l1, m)" "lane_ok sabs l1"
    using sweep_entries_ok [OF assms(1)] by blast
  define l2 where "l2 = (let cyc = clk env (ln_reads l1) - clk env (ln_reads l) in l1\<lparr>ln_reads := ln_reads l1 + 1, ln_sweep_us := cyc div 400,
           ln_sweep_net_us := (if cyc > isr1 - isr0 then cyc - (isr1 - isr0) else 0) div 400,
           ln_sweep_removed := m, ln_count := ln_count l1 - m\<rparr>)"
  have "lane_ok sabs l2" by (rule lane_ok_fields [OF l1(2)]) (simp_all add: l2_def Let_def)
  moreover have "lane_sweep env l now_ms isr0 isr1 = free_retired l2"
    unfolding lane_sweep_def Let_def using l1(1) by (simp add: l2_def Let_def)
  ultimately show ?thesis using free_retired_ok by simp
qed

end
