(* ===== verification/Lanes_Reads.thy ===== *)
theory Lanes_Reads
  imports Lanes_Sweep
begin

text \<open>
  The interrupt of the lane over the concurrent map, the filling of the lane, and the states that follow: in all of them
  every operation returns and the interrupt reads the tracked devices right.
\<close>

section \<open>The interrupt\<close>

lemma ring_writes:
  assumes "\<And>k. k \<in> set xs \<Longrightarrow> g k < n"
  shows "length r = n \<Longrightarrow> \<exists>r'. for_loop xs (\<lambda>k r. wr r (g k) x) r = Some r' \<and> length r' = n"
  using assms by (induction xs arbitrary: r) auto

lemma ring_index: "unat (x AND (RING_LEN - 1)) < unat RING_LEN"
proof -
  have m: "RING_LEN - 1 = mask 13" by (simp add: RING_LEN_def mask_eq_exp_minus_1)
  have "unat (x AND (RING_LEN - 1)) = unat x mod 2 ^ 13"
    unfolding m take_bit_eq_mask [symmetric] unsigned_take_bit_eq by (simp add: take_bit_eq_mod)
  then show ?thesis by (simp add: RING_LEN_def)
qed

lemma isr_late_ok:
  assumes "length (ln_ring l) = unat RING_LEN"
  obtains l' where "isr_late tim2_now now_ms l = Some l'" "length (ln_ring l') = unat RING_LEN" "ln_isr_ok l' = ln_isr_ok l"
    "ln_isr_nf l' = ln_isr_nf l" "ln_isr_busy l' = ln_isr_busy l" "ln_isr_bad l' = ln_isr_bad l"
    "\<And>sabs. lane_ok sabs l \<Longrightarrow> lane_ok sabs l'"
proof -
  define lat where "lat = (let lat0 = tim2_now - ln_expected_cnt l in if sint lat0 < 0 then 0 else lat0)"
  define missed where "missed = lat div TICKS_PER_MS"
  obtain ring where ring: "for_loop [1..<Suc (unat (if missed > 255 then 255 else missed))]
      (\<lambda>k ring. wr ring (unat ((now_ms - of_nat k) AND (RING_LEN - 1))) SLOT_HELD) (ln_ring l) = Some ring" "length ring = unat RING_LEN"
    using ring_writes [of _ "\<lambda>k. unat ((now_ms - of_nat k) AND (RING_LEN - 1))", OF ring_index assms, where x = SLOT_HELD] by blast
  define l1 where "l1 = l\<lparr>ln_expected_cnt := ln_expected_cnt l + TICKS_PER_MS * (1 + missed)\<rparr>"
  define l2 where "l2 = (if missed \<noteq> 0 then l1\<lparr>ln_blocked_ms := ln_blocked_ms l1 + missed, ln_ring := ring, ln_no_value_ms := ln_no_value_ms l1 + missed,
      ln_stale_run := ln_stale_run l1 + missed,
      ln_stale_max := (if ln_stale_run l1 + missed > ln_stale_max l1 then ln_stale_run l1 + missed else ln_stale_max l1)\<rparr> else l1)"
  define l3 where "l3 = l2\<lparr>ln_lat_max_ticks := (if lat > ln_lat_max_ticks l2 then lat else ln_lat_max_ticks l2), ln_isr_served := ln_isr_served l2 + 1\<rparr>"
  have run: "isr_late tim2_now now_ms l = Some l3"
    unfolding isr_late_def Let_def lat_def [unfolded Let_def, symmetric] missed_def [symmetric] l1_def [symmetric]
    using ring(1) by (simp add: l3_def l2_def l1_def)
  have "lane_ok sabs l3" if "lane_ok sabs l" for sabs
    by (rule lane_ok_fields [OF that]) (use ring(2) assms in \<open>simp_all add: l3_def l2_def l1_def\<close>)
  then show ?thesis by (rule that [OF run, rotated -1]) (use ring(2) assms in \<open>simp_all add: l3_def l2_def l1_def\<close>)
qed

lemma isr_read_ok:
  assumes "sync_contract env sabs" "lane_ok sabs l" "d < 4" "ln_expanse l"
    "l1 = l\<lparr>ln_isr_ok := a, ln_isr_busy := b\<rparr>" "mk \<in> {SLOT_VALUE, SLOT_BUSY}"
  shows "\<exists>a' b' mk'. isr_read env d (l1, mk) = Some (l\<lparr>ln_isr_ok := a', ln_isr_busy := b'\<rparr>, mk') \<and> a' + b' = a + b + 1 \<and>
    mk' \<in> {SLOT_VALUE, SLOT_BUSY}"
proof -
  note ok = lane_okD [OF assms(2)]
  have T: "length (ln_tracked_idx l) = 4" "length (ln_slab l) = unat (ln_cap l)" using ok(1) by (simp_all add: lane_shape_def N_TRACKED_def)
  obtain w where w: "ln_sync l = Some w" "sabs w (track_id d) = Some (ln_tracked_idx l ! d)"
      "rec_id (ln_slab l ! unat (ln_tracked_idx l ! d)) = track_id d"
    using ok(8) T assms(3) by (auto simp: tracked_ok_def)
  have lt: "unat (ln_tracked_idx l ! d) < unat (ln_cap l)" using slab_ok_index [OF ok(5), of "ln_tracked_idx l ! d"] T assms(3) by simp
  have rid: "rd (ln_tracked_id l1) d = Some (track_id d)" using ok(2) assms(3,5) by (simp add: N_TRACKED_def)
  have get: "case so_get env w (track_id d) of (SYNC32_OK, v) \<Rightarrow> sabs w (track_id d) = Some v | (SYNC32_NOT_FOUND, _) \<Rightarrow> sabs w (track_id d) = None
       | (SYNC32_BUSY, _) \<Rightarrow> True | (SYNC32_OTHER, _) \<Rightarrow> False"
    using assms(1) by (simp add: sync_contract_def)
  obtain st v where g: "so_get env w (track_id d) = (st, v)" by fastforce
  have c: "st = SYNC32_BUSY \<or> (st = SYNC32_OK \<and> v = ln_tracked_idx l ! d)" using get g w(2) by (cases st) auto
  have chk: "isr_check (track_id d) (ln_tracked_idx l ! d) (l1, mk) = Some (l\<lparr>ln_isr_ok := a + 1, ln_isr_busy := b\<rparr>, mk)"
    using lt T(2) w(3) assms(5) by (simp add: isr_check_def word_le_nat_alt)
  from c show ?thesis
  proof
    assume "st = SYNC32_BUSY"
    then have "isr_read env d (l1, mk) = Some (l\<lparr>ln_isr_ok := a, ln_isr_busy := b + 1\<rparr>, if mk = SLOT_VALUE then SLOT_BUSY else mk)"
      using rid g w(1) assms(4,5) by (simp add: isr_read_def)
    moreover have "a + (b + 1) = a + b + 1" "(if mk = SLOT_VALUE then SLOT_BUSY else mk) \<in> {SLOT_VALUE, SLOT_BUSY}"
      using assms(6) by (auto simp: add.assoc)
    ultimately show ?thesis by blast
  next
    assume "st = SYNC32_OK \<and> v = ln_tracked_idx l ! d"
    then have "isr_read env d (l1, mk) = Some (l\<lparr>ln_isr_ok := a + 1, ln_isr_busy := b\<rparr>, mk)"
      using rid g w(1) assms(4,5) chk by (simp add: isr_read_def)
    moreover have "(a + 1) + b = a + b + 1" by simp
    ultimately show ?thesis using assms(6) by blast
  qed
qed

lemma isr_reads_ok:
  assumes "sync_contract env sabs" "lane_ok sabs l"
  shows "\<exists>a b mk. for_loop [0..<N_TRACKED] (isr_read env) (l, SLOT_VALUE) = Some (l\<lparr>ln_isr_ok := a, ln_isr_busy := b\<rparr>, mk) \<and>
    a + b = ln_isr_ok l + ln_isr_busy l + 4 \<and> mk \<in> {SLOT_VALUE, SLOT_BUSY}"
proof -
  let ?P = "\<lambda>d s. \<exists>a b mk. s = (l\<lparr>ln_isr_ok := a, ln_isr_busy := b\<rparr>, mk) \<and> a + b = ln_isr_ok l + ln_isr_busy l + of_nat d \<and> mk \<in> {SLOT_VALUE, SLOT_BUSY}"
  have ex: "ln_expanse l" using lane_okD(1) [OF assms(2)] by (simp add: lane_shape_def)
  have "\<exists>s. for_loop [0..<N_TRACKED] (isr_read env) (l, SLOT_VALUE) = Some s \<and> ?P N_TRACKED s"
  proof (rule for_loop_invariant [where P = ?P], goal_cases)
    case 1
    show ?case by (intro exI [of _ "ln_isr_ok l"] exI [of _ "ln_isr_busy l"] exI [of _ SLOT_VALUE]) simp
  next
    case (2 d s)
    then obtain a b mk where s: "s = (l\<lparr>ln_isr_ok := a, ln_isr_busy := b\<rparr>, mk)" "a + b = ln_isr_ok l + ln_isr_busy l + of_nat d" "mk \<in> {SLOT_VALUE, SLOT_BUSY}"
      by blast
    have "d < 4" using 2(1) by (simp add: N_TRACKED_def)
    from isr_read_ok [OF assms this ex refl s(3), where a = a and b = b] obtain a' b' mk' where
      "isr_read env d s = Some (l\<lparr>ln_isr_ok := a', ln_isr_busy := b'\<rparr>, mk')" "a' + b' = a + b + 1" "mk' \<in> {SLOT_VALUE, SLOT_BUSY}" unfolding s(1) by blast
    moreover from this(2) have "a' + b' = ln_isr_ok l + ln_isr_busy l + of_nat (Suc d)" using s(2) by (simp add: ac_simps)
    ultimately show ?case by blast
  qed
  then show ?thesis by (auto simp: N_TRACKED_def)
qed

lemma lane_isr_ok:
  assumes "sync_contract env sabs" "lane_ok sabs l"
  shows "\<exists>l'. lane_isr env l tim2_now now_ms = Some l' \<and> lane_ok sabs l' \<and> ln_isr_bad l' = ln_isr_bad l \<and> ln_isr_nf l' = ln_isr_nf l \<and>
    ln_isr_ok l' + ln_isr_busy l' = ln_isr_ok l + ln_isr_busy l + 4 \<and> ln_ring l' ! unat (now_ms AND (RING_LEN - 1)) \<in> {SLOT_VALUE, SLOT_BUSY}"
proof -
  define l0 where "l0 = l\<lparr>ln_reads := ln_reads l + 1\<rparr>"
  have ok0: "lane_ok sabs l0" by (rule lane_ok_fields [OF assms(2)]) (simp_all add: l0_def)
  then have "length (ln_ring l0) = unat RING_LEN" by (simp add: lane_ok_def lane_shape_def)
  then obtain l1 where l1: "isr_late tim2_now now_ms l0 = Some l1" "length (ln_ring l1) = unat RING_LEN" "ln_isr_ok l1 = ln_isr_ok l0"
      "ln_isr_nf l1 = ln_isr_nf l0" "ln_isr_busy l1 = ln_isr_busy l0" "ln_isr_bad l1 = ln_isr_bad l0" "lane_ok sabs l1"
    using isr_late_ok [of l0 tim2_now now_ms] ok0 by metis
  obtain a b mk where r: "for_loop [0..<N_TRACKED] (isr_read env) (l1, SLOT_VALUE) = Some (l1\<lparr>ln_isr_ok := a, ln_isr_busy := b\<rparr>, mk)"
      "a + b = ln_isr_ok l1 + ln_isr_busy l1 + 4" "mk \<in> {SLOT_VALUE, SLOT_BUSY}"
    using isr_reads_ok [OF assms(1) l1(7)] by blast
  define l2 where "l2 = l1\<lparr>ln_isr_ok := a, ln_isr_busy := b\<rparr>"
  define run where "run = (if mk = SLOT_VALUE then 0 else ln_stale_run l2 + 1)"
  define body where "body = clk env (ln_reads l2) - clk env (ln_reads l)"
  define l3 where "l3 = l2\<lparr>ln_ring := (ln_ring l2)[unat (now_ms AND (RING_LEN - 1)) := mk], ln_stale_run := run,
           ln_no_value_ms := (if mk = SLOT_VALUE then ln_no_value_ms l2 else ln_no_value_ms l2 + 1),
           ln_stale_max := (if run > ln_stale_max l2 then run else ln_stale_max l2),
           ln_reads := ln_reads l2 + 1, ln_body_total_cyc := ln_body_total_cyc l2 + body,
           ln_body_max_cyc := (if body > ln_body_max_cyc l2 then body else ln_body_max_cyc l2)\<rparr>"
  have "wr (ln_ring l2) (unat (now_ms AND (RING_LEN - 1))) mk = Some ((ln_ring l2)[unat (now_ms AND (RING_LEN - 1)) := mk])"
    using ring_index [of now_ms] l1(2) by (simp add: l2_def)
  then have "lane_isr env l tim2_now now_ms = Some l3"
    unfolding lane_isr_def Let_def l0_def [symmetric] using l1(1) r(1) by (simp add: l2_def [symmetric] l3_def run_def body_def)
  moreover have "lane_ok sabs l3" by (rule lane_ok_fields [OF l1(7)]) (simp_all add: l3_def l2_def)
  moreover have "ln_ring l3 ! unat (now_ms AND (RING_LEN - 1)) = mk" using ring_index [of now_ms] l1(2) by (simp add: l3_def l2_def)
  ultimately show ?thesis using r(2,3) l1(3-6) by (auto simp: l3_def l2_def l0_def)
qed

section \<open>Filling\<close>

text \<open>A lane as \<^verbatim>\<open>lanes_init\<close> leaves it, or as an earlier run does: its arrays have their sizes.\<close>

lemma countdown_distinct:
  assumes "n < 2 ^ 32"
  shows "distinct (map (\<lambda>i. of_nat n - 1 - of_nat i :: u32) [0..<n])" "\<forall>i < n. unat (of_nat n - 1 - of_nat i :: u32) < n"
proof -
  have v: "unat (of_nat n - 1 - of_nat i :: u32) = n - 1 - i" if "i < n" for i
  proof -
    have e: "of_nat n - 1 - of_nat i = (of_nat (n - 1 - i) :: u32)" using that by (simp add: of_nat_diff)
    have "n - 1 - i < 2 ^ 32" using assms by simp
    then show ?thesis unfolding e by (simp only: unat_of_nat) simp
  qed
  show "\<forall>i < n. unat (of_nat n - 1 - of_nat i :: u32) < n" using v by simp
  have "inj_on (\<lambda>i. of_nat n - 1 - of_nat i :: u32) (set [0..<n])"
  proof (rule inj_onI)
    fix i j
    assume ij: "i \<in> set [0..<n]" "j \<in> set [0..<n]" "of_nat n - 1 - of_nat i = (of_nat n - 1 - of_nat j :: u32)"
    then have "n - 1 - i = n - 1 - j" using v [of i] v [of j] by simp
    then show "i = j" using ij(1,2) by simp
  qed
  then show "distinct (map (\<lambda>i. of_nat n - 1 - of_nat i :: u32) [0..<n])" by (simp add: distinct_map)
qed

lemma slots_reset_ok:
  assumes "lane_shape l"
  obtains s where "slots_reset l = Some (l\<lparr>ln_free_stack := map (\<lambda>i. ln_cap l - 1 - of_nat i) [0..<unat (ln_cap l)], ln_slab := s\<rparr>)"
    "length s = unat (ln_cap l)"
proof -
  let ?n = "unat (ln_cap l)"
  let ?P = "\<lambda>k l'. \<exists>f s. l' = l\<lparr>ln_free_stack := f, ln_slab := s\<rparr> \<and> length f = ?n \<and> length s = ?n \<and>
    (\<forall>i < k. f ! i = ln_cap l - 1 - of_nat i)"
  have len: "length (ln_free_stack l) = ?n" "length (ln_slab l) = ?n" using assms by (simp_all add: lane_shape_def)
  have "\<exists>l'. slots_reset l = Some l' \<and> ?P ?n l'"
    unfolding slots_reset_def
  proof (rule for_loop_invariant [where P = ?P], goal_cases)
    case 1
    show ?case using len by (intro exI [of _ "ln_free_stack l"] exI [of _ "ln_slab l"]) simp
  next
    case (2 k l1)
    then obtain f s where l1: "l1 = l\<lparr>ln_free_stack := f, ln_slab := s\<rparr>" "length f = ?n" "length s = ?n" "\<forall>i < k. f ! i = ln_cap l - 1 - of_nat i" by blast
    let ?f = "f[k := ln_cap l - 1 - of_nat k]" and ?s = "s[k := (s ! k)\<lparr>rec_used := False, rec_id := 0\<rparr>]"
    have "(do { f \<leftarrow> wr (ln_free_stack l1) k (ln_cap l1 - 1 - of_nat k); r \<leftarrow> rd (ln_slab l1) k;
           s \<leftarrow> wr (ln_slab l1) k (r\<lparr>rec_used := False, rec_id := 0\<rparr>); Some (l1\<lparr>ln_free_stack := f, ln_slab := s\<rparr>) }) =
        Some (l\<lparr>ln_free_stack := ?f, ln_slab := ?s\<rparr>)" using 2(1) l1(2,3) by (simp add: l1(1))
    moreover have "length ?f = ?n" "length ?s = ?n" "\<forall>i < Suc k. ?f ! i = ln_cap l - 1 - of_nat i"
      using l1(2-4) 2(1) by (simp_all add: nth_list_update less_Suc_eq)
    ultimately show ?case by blast
  qed
  then obtain f s where r: "slots_reset l = Some (l\<lparr>ln_free_stack := f, ln_slab := s\<rparr>)" "length f = ?n" "length s = ?n"
      "\<forall>i < ?n. f ! i = ln_cap l - 1 - of_nat i" by blast
  have "f = map (\<lambda>i. ln_cap l - 1 - of_nat i) [0..<?n]" by (rule nth_equalityI) (use r in simp_all)
  then show ?thesis using that r by blast
qed

text \<open>The lane while its tracked devices are entered.\<close>

definition tracking :: "('s \<Rightarrow> u32 \<rightharpoonup> u32) \<Rightarrow> u32 \<Rightarrow> nat \<Rightarrow> 's lane \<Rightarrow> bool" where
  "tracking sabs cap t l \<longleftrightarrow> lane_shape l \<and> ln_cap l = cap \<and> slab_ok l (take t (ln_tracked_idx l)) {} \<and> tracked_ok sabs l (take t (ln_tracked_idx l)) \<and>
    take t (ln_tracked_id l) = map track_id [0..<t] \<and> ln_retire_n l = 0 \<and> ln_rng l \<noteq> 0 \<and> ln_by_time l = expanse_map_new \<and>
    unat (ln_free_top l) = unat cap - t"

lemma slots_take:
  assumes "slots_split n F T (insert x S)" "x \<notin> S" "x \<notin> set T"
  shows "slots_split n F (T @ [x]) S"
  using assms by (auto simp: slots_split_def)

lemma track_ok:
  assumes "sync_contract env sabs" "tracking sabs cap t l" "t < 4" "4 \<le> unat cap"
  shows "\<exists>l'. track env t (True, l) = Some (True, l') \<and> tracking sabs cap (Suc t) l'"
proof -
  let ?T = "take t (ln_tracked_idx l)"
  have sh: "lane_shape l" "ln_cap l = cap" and sl: "slab_ok l ?T {}" and tr: "tracked_ok sabs l ?T" and
    tid: "take t (ln_tracked_id l) = map track_id [0..<t]" and ft: "unat (ln_free_top l) = unat cap - t" and
    rest: "ln_retire_n l = 0" "ln_rng l \<noteq> 0" "ln_by_time l = expanse_map_new" using assms(2) by (simp_all add: tracking_def)
  have len: "length (ln_tracked_idx l) = 4" "length (ln_tracked_id l) = 4" "ln_expanse l" "length (ln_slab l) = unat (ln_cap l)"
    using sh by (simp_all add: lane_shape_def N_TRACKED_def)
  have nz: "ln_free_top l \<noteq> 0"
  proof
    assume "ln_free_top l = 0"
    then show False using ft assms(3,4) by simp
  qed
  from sl show ?thesis
  proof (cases rule: slot_alloc_ok)
    case none
    then show ?thesis using nz by simp
  next
    case (some idx l1)
    define r where "r = \<lparr>rec_id = track_id t, rec_born_ms = 0xFFFF0000, rec_used = True\<rparr>"
    define l2 where "l2 = l1\<lparr>ln_slab := (ln_slab l)[unat idx := r], ln_tracked_idx := (ln_tracked_idx l)[t := idx], ln_tracked_id := (ln_tracked_id l)[t := track_id t]\<rparr>"
    have idx: "unat idx < length (ln_slab l)" using slab_ok_index [OF some(5)] some(3) by simp
    obtain w where w: "ln_sync l = Some w" using tr by (auto simp: tracked_ok_def)
    have "ln_expanse l2" "ln_sync l2 = Some w" using some(3) len w by (simp_all add: l2_def)
    then obtain w' where w': "tbl_insert env l2 (track_id t) idx = Some (True, l2\<lparr>ln_sync := Some w'\<rparr>)" "sabs w' = (sabs w)(track_id t \<mapsto> idx)"
      by (rule tbl_insert_expanse [OF assms(1)])
    define l3 where "l3 = l2\<lparr>ln_sync := Some w'\<rparr>"
    have run: "track env t (True, l) = Some (True, l3)"
      unfolding track_def track_id_def [symmetric] using some(2,3) idx len assms(3) w'(1) by (simp add: l3_def l2_def r_def)
    have T: "take (Suc t) (ln_tracked_idx l3) = ?T @ [idx]" using assms(3) len some(3) by (simp add: l3_def l2_def take_Suc_conv_app_nth)
    have "slots_split (unat (ln_cap l1)) (free_list l1) (?T @ [idx]) {}" by (rule slots_take) (use some(5,7) in \<open>simp_all add: slab_ok_def\<close>)
    then have sl3: "slab_ok l3 (?T @ [idx]) {}" using some(3,5) len by (simp add: slab_ok_def l3_def l2_def free_list_def)
    have lt: "length ?T = t" using assms(3) len by simp
    have pt: "sabs w (track_id u) = Some (?T ! u) \<and> rec_id (ln_slab l ! unat (?T ! u)) = track_id u" if "u < t" for u
      using tr w that lt by (simp add: tracked_ok_def)
    have "sabs w' (track_id u) = Some ((?T @ [idx]) ! u) \<and> rec_id (ln_slab l3 ! unat ((?T @ [idx]) ! u)) = track_id u" if u: "u < Suc t" for u
    proof (cases "u = t")
      case True
      then show ?thesis using w'(2) lt idx by (simp add: nth_append l3_def l2_def r_def)
    next
      case False
      then have ut: "u < t" using u by simp
      have "?T ! u \<in> set ?T" using ut lt by (intro nth_mem) simp
      then have "idx \<noteq> ?T ! u" using some(7) by metis
      then have "rec_id (ln_slab l3 ! unat (?T ! u)) = track_id u" using pt [OF ut] by (simp add: l3_def l2_def nth_other)
      moreover have "track_id u \<noteq> track_id t" using track_id_inj [of u t] ut assms(3) by simp
      ultimately show ?thesis using pt [OF ut] w'(2) ut lt by (simp add: nth_append)
    qed
    then have tr3: "tracked_ok sabs l3 (?T @ [idx])" using lt by (auto simp: tracked_ok_def l3_def)
    have "take (Suc t) (ln_tracked_id l3) = map track_id [0..<Suc t]"
      using tid assms(3) len some(3) by (simp add: l3_def l2_def take_Suc_conv_app_nth)
    then have "tracking sabs cap (Suc t) l3" unfolding tracking_def T using sl3 tr3 sh rest ft some(3,8)
      by (simp add: lane_shape_def l3_def l2_def)
    then show ?thesis using run by blast
  qed
qed

end
