(* ===== verification/Lanes_Reach.thy ===== *)
theory Lanes_Reach
  imports Lanes_Reads
begin

text \<open>
  The life of the lane over the concurrent map: a filling, then any interleaving of ingestion, re-registration, sweeps, resets
  of the counters and interrupts.
\<close>

section \<open>A filled lane\<close>

lemma slots_fresh:
  "slots_split (unat cap) (map (\<lambda>i. cap - 1 - of_nat i) [0..<unat cap]) [] {}" for cap :: u32
proof -
  have n: "unat cap < 2 ^ 32" using unsigned_less [of cap, where ?'a = nat] by simp
  have c: "of_nat (unat cap) = cap" by simp
  note d = countdown_distinct [OF n, unfolded c]
  show ?thesis unfolding slots_split_def using d by auto
qed

lemma tracking_start:
  assumes "sync_contract env sabs" "lane_shape l"
  obtains l1 l3 where "slots_reset (structures_free l) = Some l1" "ln_cap l1 = ln_cap l" "ln_expanse l1"
    "structures_new env (l1\<lparr>ln_free_top := ln_cap l1, ln_count := 0, ln_seq := 0, ln_retire_n := 0, ln_ingest_acc := 0,
       ln_ingest_last_ms := 0, ln_drops := 0, ln_rehash_n := 0, ln_rng := (if ln_expanse l1 then 0x9E3779B9 else 0x2545F491)\<rparr>) records = Some l3"
    "tracking sabs (ln_cap l) 0 l3"
proof -
  have sh: "lane_shape (structures_free l)" "ln_cap (structures_free l) = ln_cap l" "ln_expanse l"
    using assms(2) by (simp_all add: lane_shape_def structures_free_def)
  obtain s where s: "slots_reset (structures_free l) =
      Some (structures_free l\<lparr>ln_free_stack := map (\<lambda>i. ln_cap l - 1 - of_nat i) [0..<unat (ln_cap l)], ln_slab := s\<rparr>)" "length s = unat (ln_cap l)"
    using slots_reset_ok [OF sh(1)] sh(2) by metis
  define l1 where "l1 = structures_free l\<lparr>ln_free_stack := map (\<lambda>i. ln_cap l - 1 - of_nat i) [0..<unat (ln_cap l)], ln_slab := s\<rparr>"
  obtain m where m: "so_new env 65536 = Some m" "sabs m = Map.empty" using assms(1) by (auto simp: sync_contract_def)
  have lg: "sync_largest env = Some m" using m(1) by (simp add: sync_largest_def)
  define l3 where "l3 = l1\<lparr>ln_free_top := ln_cap l1, ln_count := 0, ln_seq := 0, ln_retire_n := 0, ln_ingest_acc := 0,
       ln_ingest_last_ms := 0, ln_drops := 0, ln_rehash_n := 0, ln_rng := 0x9E3779B9, ln_sync := Some m, ln_by_time := expanse_map_new\<rparr>"
  have c: "ln_cap l1 = ln_cap l" "ln_expanse l1" using sh by (simp_all add: l1_def structures_free_def)
  have "slab_ok l3 [] {}" using slots_fresh [of "ln_cap l"] s(2) c(1) by (simp add: slab_ok_def free_list_def l3_def l1_def)
  moreover have "lane_shape l3" using assms(2) s(2) c by (simp add: lane_shape_def l3_def l1_def structures_free_def)
  ultimately have "tracking sabs (ln_cap l) 0 l3" using c by (simp add: tracking_def l3_def tracked_ok_def)
  moreover have "structures_new env (l1\<lparr>ln_free_top := ln_cap l1, ln_count := 0, ln_seq := 0, ln_retire_n := 0, ln_ingest_acc := 0,
       ln_ingest_last_ms := 0, ln_drops := 0, ln_rehash_n := 0, ln_rng := (if ln_expanse l1 then 0x9E3779B9 else 0x2545F491)\<rparr>) records = Some l3"
    using lg c(2) by (simp add: structures_new_def l3_def)
  ultimately show ?thesis using that [of l1 l3] s(1) c by (simp add: l1_def)
qed

lemma tracking_done:
  assumes "tracking sabs cap 4 l"
  shows "lane_ok sabs l"
proof -
  have sh: "lane_shape l" "length (ln_tracked_idx l) = 4" "length (ln_tracked_id l) = 4" using assms by (simp_all add: tracking_def lane_shape_def N_TRACKED_def)
  have "ln_retire_n l \<le> RETIRE_MAX" "retired l = []" "times_ok l" "map_abs (ln_by_time l) = Map.empty"
    using assms by (simp_all add: tracking_def retired_def times_ok_def)
  then show ?thesis using assms sh by (simp add: lane_ok_def tracking_def N_TRACKED_def)
qed

lemma tracks_ok:
  assumes "sync_contract env sabs" "tracking sabs cap 0 l" "4 \<le> unat cap"
  shows "\<exists>l'. for_loop [0..<N_TRACKED] (track env) (True, l) = Some (True, l') \<and> tracking sabs cap 4 l'"
proof -
  have "\<exists>s. for_loop [0..<N_TRACKED] (track env) (True, l) = Some s \<and> (\<exists>l'. s = (True, l') \<and> tracking sabs cap N_TRACKED l')"
  proof (rule for_loop_invariant [where P = "\<lambda>t s. \<exists>l'. s = (True, l') \<and> tracking sabs cap t l'"], goal_cases)
    case 1
    then show ?case using assms(2) by blast
  next
    case (2 t s)
    then show ?case using track_ok [OF assms(1) _ _ assms(3)] by (fastforce simp: N_TRACKED_def)
  qed
  then show ?thesis by (auto simp: N_TRACKED_def)
qed

lemma prefills_ok:
  assumes "sync_contract env sabs" "lane_ok sabs l" "n \<le> unat (ln_free_top l)"
  shows "\<exists>l' seed'. for_loop [0..<n] (prefill env pn) ((True, l), seed) = Some ((True, l'), seed') \<and> lane_ok sabs l'"
proof -
  let ?P = "\<lambda>i s. \<exists>l' seed'. s = ((True, l'), seed') \<and> lane_ok sabs l' \<and> unat (ln_free_top l') = unat (ln_free_top l) - i"
  have "\<exists>s. for_loop [0..<n] (prefill env pn) ((True, l), seed) = Some s \<and> ?P n s"
  proof (rule for_loop_invariant [where P = ?P], goal_cases)
    case 1
    then show ?case using assms(2) by auto
  next
    case (2 i s)
    then obtain l1 sd where s: "s = ((True, l1), sd)" "lane_ok sabs l1" "unat (ln_free_top l1) = unat (ln_free_top l) - i" by blast
    have nz: "ln_free_top l1 \<noteq> 0"
    proof
      assume "ln_free_top l1 = 0"
      then show False using s(3) 2(1) assms(3) by simp
    qed
    from assms(1) s(2) obtain l' where l': "add_record env l1 (pn - xorshift sd mod TTL_MS) = Some (True, l')" "lane_ok sabs l'"
        "unat (ln_free_top l') = unat (ln_free_top l1) - 1"
      by (cases rule: add_record_ok [where born = "pn - xorshift sd mod TTL_MS"]) (use nz in auto)
    then have "prefill env pn i s = Some ((True, l'), xorshift sd)" by (simp add: prefill_def s(1) Let_def)
    moreover have "unat (ln_free_top l') = unat (ln_free_top l) - Suc i" using l'(3) s(3) by simp
    ultimately show ?case using l'(2) by blast
  qed
  then show ?thesis by blast
qed

lemma lane_fill_ok:
  assumes "sync_contract env sabs" "lane_shape l" "unat records + 4 \<le> unat (ln_cap l)"
  shows "\<exists>l'. lane_fill env l records now_ms = Some (True, l') \<and> lane_ok sabs l'"
proof -
  from assms(1,2) obtain l1 l3 where a: "slots_reset (structures_free l) = Some l1"
    "structures_new env (l1\<lparr>ln_free_top := ln_cap l1, ln_count := 0, ln_seq := 0, ln_retire_n := 0, ln_ingest_acc := 0,
       ln_ingest_last_ms := 0, ln_drops := 0, ln_rehash_n := 0, ln_rng := (if ln_expanse l1 then 0x9E3779B9 else 0x2545F491)\<rparr>) records = Some l3"
    "tracking sabs (ln_cap l) 0 l3"
    by (rule tracking_start [where records = records])
  have "4 \<le> unat (ln_cap l)" using assms(3) by simp
  from tracks_ok [OF assms(1) a(3) this] obtain l4 where l4: "for_loop [0..<N_TRACKED] (track env) (True, l3) = Some (True, l4)"
      "tracking sabs (ln_cap l) 4 l4" by blast
  have "unat records \<le> unat (ln_free_top l4)" using l4(2) assms(3) by (simp add: tracking_def)
  from prefills_ok [OF assms(1) tracking_done [OF l4(2)] this] obtain l5 sd where
    l5: "for_loop [0..<unat records] (prefill env (now_ms + TTL_MS + 1000)) ((True, l4), 0x1234567) = Some ((True, l5), sd)" "lane_ok sabs l5" by blast
  have "lane_fill env l records now_ms = Some (True, l5)"
    unfolding lane_fill_def Let_def a(1) Option.bind.simps a(2) option.case l4(1) l5(1) by simp
  then show ?thesis using l5(2) by blast
qed

section \<open>Reachable lanes\<close>

inductive lane_reach :: "'s lane_env \<Rightarrow> 's lane \<Rightarrow> bool" for env :: "'s lane_env" where
  filled: "lane_shape l \<Longrightarrow> unat records + 4 \<le> unat (ln_cap l) \<Longrightarrow> lane_fill env l records now_ms = Some (True, l') \<Longrightarrow> lane_reach env l'"
| ingested: "lane_reach env l \<Longrightarrow> lane_ingest env l now_ms rate cap_records = Some l' \<Longrightarrow> lane_reach env l'"
| churned: "lane_reach env l \<Longrightarrow> lane_churn env l now_ms = Some l' \<Longrightarrow> lane_reach env l'"
| swept: "lane_reach env l \<Longrightarrow> lane_sweep env l now_ms isr0 isr1 = Some l' \<Longrightarrow> lane_reach env l'"
| interrupted: "lane_reach env l \<Longrightarrow> lane_isr env l tim2_now now_ms = Some l' \<Longrightarrow> lane_reach env l'"
| reset: "lane_reach env l \<Longrightarrow> lane_reach env (lane_step_reset l)"
| measured: "lane_reach env l \<Longrightarrow> lane_measure_scoreboard env stats time_mem l = Some l' \<Longrightarrow> lane_reach env l'"

text \<open>The scoreboard only writes its two fields.\<close>

lemma lookup_keeps: "lane_lookup_ns env l = Some (ns, l') \<Longrightarrow> \<exists>n. l' = l\<lparr>ln_reads := n\<rparr>"
  by (cases l) (auto simp: lane_lookup_ns_def split: if_splits Option.bind_splits)

lemma measure_keeps:
  assumes "lane_measure_scoreboard env stats time_mem l = Some l'"
  shows "\<exists>b n ns. l' = l\<lparr>ln_index_bytes := b, ln_reads := n, ln_lookup_ns := ns\<rparr>"
proof -
  obtain b ns l1 where "lane_lookup_ns env (l\<lparr>ln_index_bytes := b\<rparr>) = Some (ns, l1)" "l' = l1\<lparr>ln_lookup_ns := ns\<rparr>"
    using assms by (auto simp: lane_measure_scoreboard_def split: Option.bind_splits)
  then show ?thesis using lookup_keeps by blast
qed

lemma lane_reach_ok:
  assumes "sync_contract env sabs"
  shows "lane_reach env l \<Longrightarrow> lane_ok sabs l"
proof (induction rule: lane_reach.induct)
  case (filled l records now_ms l')
  then show ?case using lane_fill_ok [OF assms filled(1,2), of now_ms] by auto
next
  case (ingested l now_ms rate cap_records l')
  then show ?case using lane_ingest_ok [OF assms ingested.IH, of now_ms rate cap_records] by auto
next
  case (churned l now_ms l')
  then show ?case using lane_churn_ok [OF assms churned.IH, of now_ms] by auto
next
  case (swept l now_ms isr0 isr1 l')
  then show ?case using lane_sweep_ok [OF assms swept.IH, of now_ms isr0 isr1] by auto
next
  case (interrupted l tim2_now now_ms l')
  then show ?case using lane_isr_ok [OF assms interrupted.IH, of tim2_now now_ms] by auto
next
  case (reset l)
  show ?case by (rule lane_ok_fields [OF reset.IH]) (simp_all add: lane_step_reset_def)
next
  case (measured l stats time_mem l')
  then obtain b n ns where "l' = l\<lparr>ln_index_bytes := b, ln_reads := n, ln_lookup_ns := ns\<rparr>" by (blast dest: measure_keeps)
  then show ?case by (simp add: lane_ok_fields [OF measured.IH])
qed


text \<open>A concurrent map as a plain function, and a lane of ten slots.\<close>

definition ex_env :: "(u32 \<rightharpoonup> u32) lane_env" where
  "ex_env = \<lparr>so_new = (\<lambda>n. Some Map.empty), so_insert = (\<lambda>w k v. (WS_OK, w(k \<mapsto> v))), so_remove = (\<lambda>w k. (WS_OK, w(k := None))),
    so_reclaim = (\<lambda>w. w), so_get = (\<lambda>w k. case w k of Some v \<Rightarrow> (SYNC32_OK, v) | None \<Rightarrow> (SYNC32_NOT_FOUND, 0)),
    clk = of_nat, fresh = (\<lambda>n. replicate n 0)\<rparr>"

definition empty_lane :: "nat \<Rightarrow> nat \<Rightarrow> 's lane" where
  "empty_lane n ring = \<lparr>ln_expanse = True, ln_mode = HASH_MASK_WHOLE, ln_growable = False,
    ln_slab = replicate n \<lparr>rec_id = 0, rec_born_ms = 0, rec_used = False\<rparr>, ln_cap = of_nat n, ln_free_stack = replicate n 0, ln_free_top = 0,
    ln_sync = None, ln_by_time = None, ln_hash = None, ln_tracked_idx = replicate 4 0, ln_tracked_id = replicate 4 0,
    ln_retire = replicate 256 0, ln_retire_n = 0, ln_churn_cursor = 0, ln_last_churn_ms = 0, ln_count = 0, ln_seq = 0, ln_rng = 0,
    ln_ingest_acc = 0, ln_ingest_last_ms = 0, ln_drops = 0, ln_expected_cnt = 0, ln_isr_served = 0, ln_blocked_ms = 0,
    ln_lat_max_ticks = 0, ln_isr_ok = 0, ln_isr_nf = 0, ln_isr_busy = 0, ln_isr_bad = 0, ln_no_value_ms = 0, ln_stale_run = 0,
    ln_stale_max = 0, ln_body_max_cyc = 0, ln_body_total_cyc = 0, ln_ring = replicate ring SLOT_NONE, ln_sweep_us = 0,
    ln_sweep_net_us = 0, ln_sweep_removed = 0, ln_mask_max_cyc = 0, ln_mask_t0 = 0, ln_irq_masked = 0,
    ln_rehash_ms = replicate 24 0, ln_rehash_n = 0, ln_rehash_moved = replicate 24 0, ln_index_bytes = 0, ln_lookup_ns = 0, ln_reads = 0, ln_irq_on = True\<rparr>"

lemma ex_env_contract: "sync_contract ex_env (\<lambda>w. w)"
  by (auto simp: sync_contract_def ex_env_def split: option.split)

lemma ex_lane_shape: "lane_shape (empty_lane 10 (unat RING_LEN))" "unat (2 :: u32) + 4 \<le> unat (ln_cap (empty_lane 10 n))"
  by (simp_all add: lane_shape_def empty_lane_def N_TRACKED_def RETIRE_MAX_def)

lemma ex_lane_filled: "\<exists>l. lane_fill ex_env (empty_lane 10 (unat RING_LEN)) 2 0 = Some (True, l) \<and> lane_reach ex_env l"
  using lane_fill_ok [OF ex_env_contract ex_lane_shape, of 0] lane_reach.filled [OF ex_lane_shape, of ex_env 0] by blast




section \<open>Where the demo departs from its description\<close>

text \<open>A time key keeps 24 bits of the millisecond and 8 of the sequence number: records born 256 apart in the same
  millisecond, or 4.66 hours apart, get the same key, and the older one leaves the index without giving its slot back.\<close>

lemma time_key_wraps: "tk_of born_ms (seq + 256) = tk_of born_ms seq" "tk_of (born_ms + 0x1000000) seq = tk_of born_ms seq"
proof -
  have m: "(0xFF :: u32) = mask 8" by (simp add: mask_eq_exp_minus_1)
  have "(seq + 256) AND 0xFF = seq AND 0xFF" unfolding m take_bit_eq_mask [symmetric]
    by (simp add: take_bit_eq_mod word_unat_eq_iff unat_mod unat_word_ariths mod_mod_cancel)
  then show "tk_of born_ms (seq + 256) = tk_of born_ms seq" by (simp add: tk_of_def)
  have z: "push_bit 8 (0x1000000 :: u32) = 0" by code_simp
  have "push_bit 8 (born_ms + 0x1000000) = push_bit 8 born_ms" by (simp only: push_bit_add z add_0_right)
  then show "tk_of (born_ms + 0x1000000) seq = tk_of born_ms seq" by (simp add: tk_of_def)
qed

text \<open>A lane with its four tracked devices over a concurrent map whose arena is full.\<close>

definition full_env :: "(u32 \<times> u32) list lane_env" where
  "full_env = \<lparr>so_new = (\<lambda>n. Some []), so_insert = (\<lambda>w k v. (WS_ARENA_FULL, w)), so_remove = (\<lambda>w k. (WS_ARENA_FULL, w)),
    so_reclaim = (\<lambda>w. w), so_get = (\<lambda>w k. case map_of w k of Some v \<Rightarrow> (SYNC32_OK, v) | None \<Rightarrow> (SYNC32_NOT_FOUND, 0)),
    clk = (\<lambda>n. 0), fresh = (\<lambda>n. replicate n 0)\<rparr>"

definition full_lane :: "(u32 \<times> u32) list lane" where
  "full_lane = (empty_lane 6 0)\<lparr>ln_slab := map (\<lambda>t. \<lparr>rec_id = 0xC0DE0000 + of_nat t, rec_born_ms = 0xFFFF0000, rec_used = True\<rparr>) [0..<4] @
      replicate 2 \<lparr>rec_id = 0, rec_born_ms = 0, rec_used = False\<rparr>, ln_free_stack := [5, 4, 0, 0, 0, 0], ln_free_top := 2,
    ln_sync := Some (map (\<lambda>t. (0xC0DE0000 + of_nat t, of_nat t)) [0..<4]), ln_by_time := expanse_map_new,
    ln_tracked_idx := map of_nat [0..<4], ln_tracked_id := map (\<lambda>t. 0xC0DE0000 + of_nat t) [0..<4]\<rparr>"

declare churn_try.simps [code]


end
