(* ===== verification/Demo_Beat.thy ===== *)
theory Demo_Beat
  imports Demo_Draw Lanes_Reach
begin

text \<open>
  The heartbeat strip: 376 columns for four seconds, swept left to right. Numbered through, column \<open>n\<close> starts at the first
  millisecond not before \<open>n * 4000 / 376\<close>; it is drawn when its milliseconds are over, in the colour of their worst mark.
\<close>

definition strip_col :: "nat \<Rightarrow> nat" where "strip_col t = t * 376 div 4000"
definition strip_start :: "nat \<Rightarrow> nat" where "strip_start n = (n * 4000 + 375) div 376"

section \<open>Columns\<close>

lemma strip_col_bounds: "strip_col t * 4000 \<le> t * 376" "t * 376 < strip_col t * 4000 + 4000"
  unfolding strip_col_def using div_times_less_eq_dividend [of "t * 376" 4000] dividend_less_div_times [of 4000 "t * 376"] by simp_all

lemma strip_start_bounds: "strip_start n * 376 \<le> n * 4000 + 375" "n * 4000 + 375 < strip_start n * 376 + 376"
  unfolding strip_start_def using div_times_less_eq_dividend [of "n * 4000 + 375" 376] dividend_less_div_times [of 376 "n * 4000 + 375"] by simp_all

lemma before_column: "strip_col r < n \<longleftrightarrow> r < strip_start n"
  using strip_col_bounds [of r] strip_start_bounds [of n] by linarith

lemma strip_col_start [simp]: "strip_col (strip_start n) = n"
  using strip_col_bounds [of "strip_start n"] strip_start_bounds [of n] by linarith

lemma strip_col_mono: "s \<le> t \<Longrightarrow> strip_col s \<le> strip_col t"
  unfolding strip_col_def by (intro div_le_mono mult_le_mono1)

lemma column_next: "t < strip_start (strip_col t + 1)" "strip_start (strip_col t + 1) \<le> t + 11"
proof -
  show "t < strip_start (strip_col t + 1)" using before_column [of t "strip_col t + 1"] by simp
  show "strip_start (strip_col t + 1) \<le> t + 11" using strip_col_bounds(1) [of t] strip_start_bounds(1) [of "strip_col t + 1"] by simp
qed

text \<open>A window of four seconds has 376 columns.\<close>

lemma strip_col_split: "strip_col t = t mod 4000 * 376 div 4000 + t div 4000 * 376" "t mod 4000 * 376 div 4000 < 376"
proof -
  have "t * 376 = t mod 4000 * 376 + (t div 4000 * 376) * 4000" using div_mult_mod_eq [of t 4000] by linarith
  then show "strip_col t = t mod 4000 * 376 div 4000 + t div 4000 * 376" unfolding strip_col_def by (metis div_mult_self1 add.commute zero_neq_numeral)
  have "t mod 4000 < 4000" by simp
  then show "t mod 4000 * 376 div 4000 < 376" by (intro less_mult_imp_div_less) linarith
qed

lemma column_of_strip: "unat (column_of t) = strip_col (unat t) mod 376"
proof -
  have "unat (column_of t) = (unat t mod 4000) * 376 div 4000"
    by (simp add: column_of_def WINDOW_MS_def BAND_W_def unat_div unat_word_ariths unat_mod)
  then show ?thesis using strip_col_split [of "unat t"] by (simp add: mod_add_right_eq)
qed

lemma column_end_split: "((t mod 4000 * 376 div 4000 + 1) * 4000 + 375) div 376 + t div 4000 * 4000 = strip_start (strip_col t + 1)"
proof -
  have "(strip_col t + 1) * 4000 + 375 = ((t mod 4000 * 376 div 4000 + 1) * 4000 + 375) + (t div 4000 * 4000) * 376"
    unfolding strip_col_split(1) [of t] by (simp add: algebra_simps)
  then show ?thesis unfolding strip_start_def by (metis div_mult_self1 add.commute zero_neq_numeral)
qed

lemma column_end_strip:
  assumes "unat t + 11 < 2 ^ 32"
  shows "unat (column_end t) = strip_start (strip_col (unat t) + 1)"
proof -
  let ?c = "unat t mod 4000 * 376 div 4000"
  have c: "unat (column_of t) = ?c" "?c < 376" using column_of_strip strip_col_split [of "unat t"] by simp_all
  have "unat ((column_of t + 1) * WINDOW_MS + 375) = (?c + 1) * 4000 + 375"
  proof -
    have 1: "unat (column_of t + 1) = ?c + 1" using c by (simp add: unat_word_ariths)
    have 2: "unat ((column_of t + 1) * WINDOW_MS) = (?c + 1) * 4000" using c(2) unfolding unat_word_ariths(2) WINDOW_MS_def 1 by simp
    have "(?c + 1) * 4000 + 375 < 2 ^ 32" using c(2) by simp
    then show ?thesis unfolding unat_word_ariths(1) 2 by simp
  qed
  moreover have "(column_of t + 1) * WINDOW_MS + BAND_W - 1 = (column_of t + 1) * WINDOW_MS + 375" by (simp add: BAND_W_def)
  ultimately have "unat (column_end t) = (((?c + 1) * 4000 + 375) div 376 + unat t div 4000 * 4000) mod 2 ^ 32"
    by (simp add: column_end_def WINDOW_MS_def BAND_W_def unat_word_ariths unat_div mod_simps)
  then show ?thesis using column_next(2) [of "unat t"] column_end_split [of "unat t"] assms by simp
qed

section \<open>Marks\<close>

definition mark_at :: "'s lane \<Rightarrow> nat \<Rightarrow> ring_slot" where
  "mark_at l s = ln_ring l ! unat (of_nat s AND (RING_LEN - 1))"

definition strip_colour :: "'s lane \<Rightarrow> nat set \<Rightarrow> u32" where
  "strip_colour l R =
    (if SLOT_HELD \<in> mark_at l ` R then C_RED else if SLOT_WRONG \<in> mark_at l ` R then C_MAGENTA
     else if SLOT_BUSY \<in> mark_at l ` R then C_CYAN else if SLOT_VALUE \<in> mark_at l ` R then accent l else C_BG)"

lemma column_marks_ok:
  assumes "length (ln_ring l) = unat RING_LEN"
  shows "column_marks l t e = (let R = {unat t..<unat e} in
    Some (SLOT_HELD \<in> mark_at l ` R, SLOT_WRONG \<in> mark_at l ` R, SLOT_BUSY \<in> mark_at l ` R, SLOT_VALUE \<in> mark_at l ` R))"
proof -
  have "for_loop ss (\<lambda>s (held, wrong, busy, val). do { v \<leftarrow> rd (ln_ring l) (unat (of_nat s AND (RING_LEN - 1)));
         Some (if v = SLOT_HELD then (True, wrong, busy, val)
               else if v = SLOT_WRONG then (held, True, busy, val)
               else if v = SLOT_BUSY then (held, wrong, True, val)
               else if v = SLOT_VALUE then (held, wrong, busy, True)
               else (held, wrong, busy, val)) }) (h, w, b, v) =
      Some (h \<or> SLOT_HELD \<in> mark_at l ` set ss, w \<or> SLOT_WRONG \<in> mark_at l ` set ss, b \<or> SLOT_BUSY \<in> mark_at l ` set ss, v \<or> SLOT_VALUE \<in> mark_at l ` set ss)" for ss h w b v
  proof (induction ss arbitrary: h w b v)
    case (Cons s ss)
    have "rd (ln_ring l) (unat (of_nat s AND (RING_LEN - 1))) = Some (mark_at l s)" using ring_index assms by (simp add: mark_at_def)
    then show ?case using Cons by (cases "mark_at l s") simp_all
  qed simp
  from this [of "[unat t..<unat e]" False False False False] show ?thesis by (simp add: column_marks_def Let_def)
qed

section \<open>The strip after a pass\<close>

text \<open>What one drawn column does to the framebuffer: the column in its colour and the next one as the cursor.\<close>

definition in_band :: "nat \<Rightarrow> bool" where
  "in_band qy \<longleftrightarrow> BAND_Y \<le> int qy \<and> int qy < BAND_Y + BAND_H"

lemma column_paints:
  assumes "frame_ok fb" "length (ln_ring l) = unat RING_LEN" "unat t + 11 < 2 ^ 32"
  defines "n \<equiv> strip_col (unat t)"
  shows "\<exists>fb1 fb2. fill_rect fb (BAND_X i + uint (column_of t)) BAND_Y 1 BAND_H c = Some fb1 \<and>
    fill_rect fb1 (BAND_X i + uint ((column_of t + 1) mod BAND_W)) BAND_Y 1 BAND_H C_GRID = Some fb2 \<and> frame_ok fb2 \<and>
    (\<forall>qx<LCD_W. \<forall>qy. qy < LCD_H \<longrightarrow> pixel fb2 qx qy =
      (if in_band qy \<and> int qx = BAND_X i + int ((n + 1) mod 376) then C_GRID
       else if in_band qy \<and> int qx = BAND_X i + int (n mod 376) then c else pixel fb qx qy))"
proof -
  have c1: "uint (column_of t) = int (n mod 376)" using column_of_strip [of t] by (simp add: n_def uint_nat)
  have "unat (column_of t + 1) = n mod 376 + 1" using column_of_strip [of t] by (simp add: n_def unat_word_ariths)
  then have c2: "uint ((column_of t + 1) mod BAND_W) = int ((n + 1) mod 376)"
    by (simp add: uint_nat unat_mod BAND_W_def mod_Suc_eq)
  obtain fb1 where 1: "fill_rect fb (BAND_X i + uint (column_of t)) BAND_Y 1 BAND_H c = Some fb1"
      "paints fb (\<lambda>qx qy. BAND_X i + uint (column_of t) \<le> qx \<and> qx < BAND_X i + uint (column_of t) + 1 \<and> BAND_Y \<le> qy \<and> qy < BAND_Y + BAND_H) c fb1"
    using fill_rect_paints [OF assms(1)] by blast
  obtain fb2 where 2: "fill_rect fb1 (BAND_X i + uint ((column_of t + 1) mod BAND_W)) BAND_Y 1 BAND_H C_GRID = Some fb2"
      "paints fb1 (\<lambda>qx qy. BAND_X i + uint ((column_of t + 1) mod BAND_W) \<le> qx \<and> qx < BAND_X i + uint ((column_of t + 1) mod BAND_W) + 1 \<and>
        BAND_Y \<le> qy \<and> qy < BAND_Y + BAND_H) C_GRID fb2"
    using fill_rect_paints [OF paints_ok [OF 1(2)]] by blast
  have e: "a \<le> b \<and> b < a + 1 \<longleftrightarrow> b = a" for a b :: int by linarith
  have "frame_ok fb2" by (rule paints_ok [OF 2(2)])
  moreover have "\<forall>qx<LCD_W. \<forall>qy. qy < LCD_H \<longrightarrow> pixel fb2 qx qy =
      (if in_band qy \<and> int qx = BAND_X i + int ((n + 1) mod 376) then C_GRID
       else if in_band qy \<and> int qx = BAND_X i + int (n mod 376) then c else pixel fb qx qy)"
    using 1(2) 2(2) unfolding paints_def c1 c2 in_band_def by (auto simp: e)
  ultimately show ?thesis using 1(1) 2(1) by blast
qed

text \<open>What the columns drawn from millisecond \<open>t0\<close> up to \<open>t'\<close> leave on the display: each of the last 375 columns in the colour of
  its milliseconds, the cursor behind them, and everything else as it was.\<close>

definition strip_shows :: "lane_id \<Rightarrow> 's lane \<Rightarrow> frame \<Rightarrow> nat \<Rightarrow> nat \<Rightarrow> frame \<Rightarrow> bool" where
  "strip_shows i l fb t0 t' fb' \<longleftrightarrow> frame_ok fb' \<and> t0 \<le> t' \<and>
    (\<forall>s qx qy. t0 \<le> s \<and> s < t' \<and> strip_col t' \<le> strip_col s + 375 \<and> qx < LCD_W \<and> qy < LCD_H \<and> in_band qy \<and>
       int qx = BAND_X i + int (strip_col s mod 376) \<longrightarrow>
       pixel fb' qx qy = strip_colour l {r. t0 \<le> r \<and> r < t' \<and> strip_col r = strip_col s}) \<and>
    (\<forall>qx qy. t0 < t' \<and> qx < LCD_W \<and> qy < LCD_H \<and> in_band qy \<and> int qx = BAND_X i + int (strip_col t' mod 376) \<longrightarrow> pixel fb' qx qy = C_GRID) \<and>
    (\<forall>qx qy. qx < LCD_W \<and> qy < LCD_H \<and>
       \<not> (in_band qy \<and> t0 < t' \<and> (\<exists>n. strip_col t0 \<le> n \<and> n \<le> strip_col t' \<and> int qx = BAND_X i + int (n mod 376))) \<longrightarrow>
       pixel fb' qx qy = pixel fb qx qy)"

lemma strip_shows_refl: "frame_ok fb \<Longrightarrow> strip_shows i l fb t t fb"
  unfolding strip_shows_def by auto

lemma columns_differ: "n < m \<Longrightarrow> m \<le> n + 375 \<Longrightarrow> m mod 376 \<noteq> n mod 376" for m n :: nat
proof
  assume "n < m" "m \<le> n + 375" "m mod 376 = n mod 376"
  then have "376 dvd m - n" by (metis mod_eq_dvd_iff_nat less_imp_le)
  then show False using \<open>n < m\<close> \<open>m \<le> n + 375\<close> by (auto dest: dvd_imp_le)
qed

lemma strip_shows_step:
  fixes t :: nat
  defines "n \<equiv> strip_col t" and "t1 \<equiv> strip_start (strip_col t + 1)"
  assumes two: "\<forall>qx<LCD_W. \<forall>qy. qy < LCD_H \<longrightarrow> pixel fb2 qx qy =
      (if in_band qy \<and> int qx = BAND_X i + int ((n + 1) mod 376) then C_GRID
       else if in_band qy \<and> int qx = BAND_X i + int (n mod 376) then strip_colour l {t..<t1} else pixel fb qx qy)"
    and ih: "strip_shows i l fb2 t1 t' fb'"
  shows "strip_shows i l fb t t' fb'"
proof -
  note t1 = column_next(1) [of t, folded t1_def]
  have n1: "strip_col t1 = n + 1" by (simp add: t1_def n_def)
  have le: "t1 \<le> t'" using ih by (simp add: strip_shows_def)
  then have n': "n + 1 \<le> strip_col t'" using strip_col_mono [of t1 t'] n1 by simp
  have other: "pixel fb' qx qy = pixel fb2 qx qy"
    if "qx < LCD_W" "qy < LCD_H" "\<not> (in_band qy \<and> t1 < t' \<and> (\<exists>m. n + 1 \<le> m \<and> m \<le> strip_col t' \<and> int qx = BAND_X i + int (m mod 376)))" for qx qy
    using ih that n1 unfolding strip_shows_def by auto
  have new: "r < t1 \<longleftrightarrow> strip_col r < n + 1" for r using before_column by (simp add: t1_def n_def)
  have "pixel fb' qx qy = strip_colour l {r. t \<le> r \<and> r < t' \<and> strip_col r = strip_col s}"
    if s: "t \<le> s" "s < t'" "strip_col t' \<le> strip_col s + 375" and q: "qx < LCD_W" "qy < LCD_H" "in_band qy" "int qx = BAND_X i + int (strip_col s mod 376)" for s qx qy
  proof (cases "s < t1")
    case True
    then have sn: "strip_col s = n" using new [of s] strip_col_mono [OF s(1)] by (simp add: n_def)
    have d: "n mod 376 \<noteq> m mod 376" if "n + 1 \<le> m" "m \<le> strip_col t'" for m using columns_differ [of n m] that s(3) sn by simp
    have "pixel fb' qx qy = pixel fb2 qx qy" by (rule other [OF q(1,2)]) (use d q(4) sn in auto)
    also have "\<dots> = strip_colour l {t..<t1}" using two q sn columns_differ [of n "n + 1"] by simp
    also have "{t..<t1} = {r. t \<le> r \<and> r < t' \<and> strip_col r = strip_col s}"
    proof -
      have "r < t1 \<longleftrightarrow> r < t' \<and> strip_col r = n" if "t \<le> r" for r
        using new [of r] le strip_col_mono [OF that] by (auto simp: n_def)
      then show ?thesis using sn by auto
    qed
    finally show ?thesis .
  next
    case False
    have later: "t1 \<le> r" if "strip_col r = strip_col s" for r using new [of r] new [of s] False that by simp
    have "{r. t \<le> r \<and> r < t' \<and> strip_col r = strip_col s} = {r. t1 \<le> r \<and> r < t' \<and> strip_col r = strip_col s}"
      using later t1 by (intro Collect_cong) (metis less_imp_le order_trans)
    then show ?thesis using ih False s q unfolding strip_shows_def by (simp add: not_less)
  qed
  moreover have "pixel fb' qx qy = C_GRID"
    if q: "qx < LCD_W" "qy < LCD_H" "in_band qy" "int qx = BAND_X i + int (strip_col t' mod 376)" for qx qy
  proof (cases "t1 < t'")
    case True
    then show ?thesis using ih q unfolding strip_shows_def by blast
  next
    case False
    then have "t' = t1" using le by simp
    then show ?thesis using other [OF q(1,2)] two q n1 by simp
  qed
  moreover have "pixel fb' qx qy = pixel fb qx qy"
    if q: "qx < LCD_W" "qy < LCD_H" "\<not> (in_band qy \<and> t < t' \<and> (\<exists>m. strip_col t \<le> m \<and> m \<le> strip_col t' \<and> int qx = BAND_X i + int (m mod 376)))" for qx qy
  proof -
    have no: "\<not> (in_band qy \<and> int qx = BAND_X i + int (m mod 376))" if "n \<le> m" "m \<le> strip_col t'" for m
      using q(3) that t1 le by (auto simp: n_def)
    have "pixel fb' qx qy = pixel fb2 qx qy" using other [OF q(1,2)] no by (meson le_trans le_add1)
    also have "\<dots> = pixel fb qx qy" using two q(1,2) no [of n] no [of "n + 1"] n' by auto
    finally show ?thesis .
  qed
  moreover have "frame_ok fb'" using ih by (simp add: strip_shows_def)
  ultimately show ?thesis using t1 le unfolding strip_shows_def by simp
qed

lemma beat_loop_shows:
  assumes "length (ln_ring l) = unat RING_LEN" "unat now_ms + 10 < 2 ^ 32"
  shows "frame_ok fb \<Longrightarrow> unat t \<le> unat now_ms \<Longrightarrow>
    \<exists>t' fb'. beat_loop i l now_ms t fb = Some (t', fb') \<and> strip_shows i l fb (unat t) (unat t') fb' \<and> unat t' \<le> unat now_ms \<and>
      unat now_ms \<le> strip_start (strip_col (unat t') + 1)"
proof (induction "unat now_ms - unat t" arbitrary: t fb rule: less_induct)
  case less
  have n1: "t + 1 < now_ms \<longleftrightarrow> unat t + 1 < unat now_ms" using less.prems(2) assms(2) by (simp add: word_less_nat_alt unat_word_ariths)
  show ?case
  proof (cases "t + 1 < now_ms \<and> \<not> column_end t > now_ms - 1")
    case True
    have t: "unat t + 11 < 2 ^ 32" "unat t + 1 < unat now_ms" using True n1 assms(2) by auto
    have e: "unat (column_end t) = strip_start (strip_col (unat t) + 1)" by (rule column_end_strip [OF t(1)])
    have "unat (now_ms - 1) = unat now_ms - 1" using t(2) by (simp add: unat_sub word_le_nat_alt)
    then have le: "unat (column_end t) \<le> unat now_ms" "unat t < unat (column_end t)" using True e column_next(1) [of "unat t"]
      by (auto simp: word_less_nat_alt not_less)
    obtain fb1 fb2 where 2: "fill_rect fb (BAND_X i + uint (column_of t)) BAND_Y 1 BAND_H (strip_colour l {unat t..<unat (column_end t)}) = Some fb1"
        "fill_rect fb1 (BAND_X i + uint ((column_of t + 1) mod BAND_W)) BAND_Y 1 BAND_H C_GRID = Some fb2" "frame_ok fb2"
        "\<forall>qx<LCD_W. \<forall>qy. qy < LCD_H \<longrightarrow> pixel fb2 qx qy =
          (if in_band qy \<and> int qx = BAND_X i + int ((strip_col (unat t) + 1) mod 376) then C_GRID
           else if in_band qy \<and> int qx = BAND_X i + int (strip_col (unat t) mod 376) then strip_colour l {unat t..<unat (column_end t)} else pixel fb qx qy)"
      using column_paints [OF less.prems(1) assms(1) t(1)] by blast
    have "unat now_ms - unat (column_end t) < unat now_ms - unat t" using le t(2) by simp
    from less.hyps [OF this 2(3) le(1)] obtain t' fb' where 3: "beat_loop i l now_ms (column_end t) fb2 = Some (t', fb')"
        "strip_shows i l fb2 (unat (column_end t)) (unat t') fb'" "unat t' \<le> unat now_ms" "unat now_ms \<le> strip_start (strip_col (unat t') + 1)" by blast
    have "beat_loop i l now_ms t fb = Some (t', fb')"
      using True 2(1,2) 3(1) by (subst beat_loop.simps) (simp add: column_marks_ok [OF assms(1)] Let_def strip_colour_def)
    moreover have "strip_shows i l fb (unat t) (unat t') fb'" by (rule strip_shows_step [OF 2(4) [unfolded e] 3(2) [unfolded e]])
    ultimately show ?thesis using 3(3,4) by blast
  next
    case False
    have "unat now_ms \<le> strip_start (strip_col (unat t) + 1)"
    proof (cases "unat t + 1 < unat now_ms")
      case True
      then have "unat (now_ms - 1) = unat now_ms - 1" "unat t + 11 < 2 ^ 32" using assms(2) by (simp_all add: unat_sub word_le_nat_alt)
      then show ?thesis using False True n1 column_end_strip [of t] by (simp add: word_less_nat_alt)
    next
      case False
      then show ?thesis using column_next(1) [of "unat t"] by simp
    qed
    then show ?thesis using False less.prems strip_shows_refl by (subst beat_loop.simps) auto
  qed
qed

text \<open>C20. A pass of the main loop brings the heartbeat strip of a lane up to date, whatever the drawing time of the last pass:
  the drawing returns, no complete column is left out, each of the last 375 columns drawn shows the worst mark of all its
  milliseconds (held, then wrong, then busy, then value), the cursor follows the last column, and no other pixel changes.\<close>

theorem beat_strip_shows_marks:
  assumes "frame_ok fb" "length (ln_ring l) = unat RING_LEN" "band_next \<le> now_ms" "unat now_ms + 10 < 2 ^ 32"
  shows "\<exists>t' fb'. draw_beat_columns i l now_ms band_next fb = Some (t', fb') \<and> unat now_ms \<le> strip_start (strip_col (unat t') + 1) \<and>
    strip_shows i l fb (unat (if band_next = 0 then now_ms else band_next)) (unat t') fb'"
  using beat_loop_shows [OF assms(2,4,1), of "if band_next = 0 then now_ms else band_next" i] assms(3)
  unfolding draw_beat_columns_def by (auto simp: word_le_nat_alt)

definition blank_screen :: frame where "blank_screen = replicate (LCD_H * LCD_W) 0"

lemma blank_screen_ok: "frame_ok blank_screen"
  by (simp add: frame_ok_def blank_screen_def)

lemma empty_lane_ring: "length (ln_ring (empty_lane n k)) = k"
  by (simp add: empty_lane_def)

theorem beat_strip_shows_marks_witness:
  "\<exists>t' fb'. draw_beat_columns LANE_B (empty_lane 10 (unat RING_LEN) :: unit lane) 5100 1000 blank_screen = Some (t', fb') \<and>
    5100 \<le> strip_start (strip_col (unat t') + 1) \<and> strip_shows LANE_B (empty_lane 10 (unat RING_LEN) :: unit lane) blank_screen 1000 (unat t') fb'"
  using beat_strip_shows_marks [OF blank_screen_ok empty_lane_ring, of 1000 5100 LANE_B 10] by simp

end
