(* ===== verification/Demo_Program.thy ===== *)
theory Demo_Program
  imports Demo_Beat
begin

text \<open>
  The program of the demo as a whole: the panels of the two lanes do not touch each other, and the steps run in order to
  the summary, with a row of the ledger for every step that has ended.
\<close>

section \<open>Panels\<close>

abbreviation draws :: "(frame \<Rightarrow> frame option) \<Rightarrow> bool" where
  "draws \<equiv> keeps_in 0 (int LCD_W)"

lemma draws_any: "keeps_in x0 x1 f \<Longrightarrow> draws f"
  unfolding keeps_in_def inside_box_def by fastforce

lemma draws_fill: "draws (\<lambda>fb. fill_rect fb x y w h c)"
  by (rule draws_any [OF keeps_fill [OF order_refl order_refl]])

lemma draws_left: "font_tight f \<Longrightarrow> 0 \<le> x \<Longrightarrow> draws (put f x y s fg bg max_w ALIGN_LEFT)"
  by (rule draws_any [OF keeps_put_left]) auto

lemma draws_right: "font_tight f \<Longrightarrow> max_w \<le> x \<Longrightarrow> draws (put f x y s fg bg max_w ALIGN_RIGHT)"
  by (rule draws_any [OF keeps_put_right]) auto

lemmas draws_intros = keeps_bind keeps_if keeps_skip keeps_loop draws_fill draws_left draws_right

lemma draw_strip_draws:
  assumes "fonts_ok F" "n < N_STEPS"
  shows "draws (draw_strip F n since_ms records)"
proof -
  have "rd PROG n = Some (PROG ! n)" using assms(2) by (simp add: N_STEPS_def)
  then show ?thesis unfolding draw_strip_def Let_def using assms(1)
    by (simp only: Option.bind.simps) (intro draws_intros; simp add: lcd)
qed

lemma draw_foot_draws: "fonts_ok F \<Longrightarrow> draws (draw_foot F p)"
  unfolding draw_foot_def by (intro draws_intros) simp_all

lemma summary_cx_pos: "i < 9 \<Longrightarrow> 0 \<le> summary_cx ! i"
proof -
  assume "i < 9"
  then have "summary_cx ! i \<in> set summary_cx" by (intro nth_mem) (simp add: summary_cx_def)
  then show ?thesis by (auto simp: summary_cx_def)
qed

lemma draw_cells_draws: "fonts_ok F \<Longrightarrow> draws (draw_cells F y cells)"
  unfolding draw_cells_def by (intro draws_intros) (simp_all add: summary_cx_pos)

lemma summary_rows_draw:
  assumes "fonts_ok F" "length ledger = N_STEPS" "set js \<subseteq> {..<N_STEPS}" "frame_ok fb"
  shows "\<exists>row' fb'. for_loop js (summary_row F ledger) (row, fb) = Some (row', fb') \<and> frame_ok fb'"
  using assms(3,4)
proof (induction js arbitrary: row fb)
  case (Cons j js)
  have j: "rd ledger j = Some (ledger ! j)" "rd PROG j = Some (PROG ! j)" using Cons.prems(1) assms(2) by (auto simp: N_STEPS_def)
  obtain fb1 where fb1: "draw_cells F (HEAD_Y + 60 + int row * 32) (map (\<lambda>(v, c). (snprintf 16 v, c)) (summary_cells (PROG ! j) (ledger ! j))) fb = Some fb1" "frame_ok fb1"
    using keeps_inD [OF draw_cells_draws [OF assms(1)] Cons.prems(2)] inside_box_ok by blast
  show ?case
  proof (cases "filled (ledger ! j)")
    case True
    then show ?thesis using Cons.IH [OF _ fb1(2)] Cons.prems(1) j fb1(1) by (simp add: summary_row_def)
  next
    case False
    then show ?thesis using Cons.IH [OF _ Cons.prems(2)] Cons.prems(1) j by (simp add: summary_row_def)
  qed
qed auto

lemma summary_table_draws:
  assumes "fonts_ok F" "length ledger = N_STEPS" "draws g"
  shows "draws (\<lambda>fb. for_loop [1..<STEP_SUMMARY] (summary_row F ledger) (0, fb) \<bind> (\<lambda>(_, fb). g fb))"
  unfolding keeps_in_def
proof (intro allI impI)
  fix fb
  assume fb: "frame_ok fb"
  have "set [1..<STEP_SUMMARY] \<subseteq> {..<N_STEPS}" by (auto simp: STEP_SUMMARY_def)
  from summary_rows_draw [OF assms(1,2) this fb] obtain r fb1 where
    1: "for_loop [1..<STEP_SUMMARY] (summary_row F ledger) (0, fb) = Some (r, fb1)" "frame_ok fb1" by blast
  then obtain fb2 where "g fb1 = Some fb2" "frame_ok fb2" using keeps_inD [OF assms(3)] inside_box_ok by blast
  then show "\<exists>fb'. for_loop [1..<STEP_SUMMARY] (summary_row F ledger) (0, fb) \<bind> (\<lambda>(_, fb). g fb) = Some fb' \<and> inside_box 0 (int LCD_W) 0 (int LCD_H) fb fb'"
    using 1 by (auto simp: inside_box_def)
qed

lemma draw_summary_draws:
  assumes "fonts_ok F" "length ledger = N_STEPS"
  shows "draws (draw_summary F ledger a b)"
  unfolding draw_summary_def Let_def using assms
  by (intro summary_table_draws draws_intros draw_cells_draws) (simp_all add: summary_cx_pos)

text \<open>C21. What is drawn for one lane never lands on the other: all panels of a lane, with every number and text in them, are
  drawn without an access outside the framebuffer, the fonts and the text buffers, and change only pixels of the
  column of this lane.\<close>

theorem lane_panels_stay_apart:
  assumes "fonts_ok F" "rehash_ok l" "frame_ok fb"
  shows "\<exists>fb'. draw_lane F i l other p fb = Some fb' \<and> frame_ok fb' \<and>
    (\<forall>qx<LCD_W. \<forall>qy. qy < LCD_H \<longrightarrow> pixel fb' qx qy \<noteq> pixel fb qx qy \<longrightarrow> LANE_X i \<le> int qx \<and> int qx < LANE_X i + LANE_W)"
  using keeps_inD [OF draw_lane_keeps [OF assms(1,2)] assms(3), of i other p] unfolding inside_box_def by blast

definition ex_fonts :: demo_fonts where
  "ex_fonts = \<lparr>mono16 = ex_font, cond24 = ex_font, cond32 = ex_font, cond40 = ex_font\<rparr>"

lemma ex_fonts_ok: "fonts_ok ex_fonts"
  by (simp add: fonts_ok_def ex_fonts_def font_tight_def ex_font_ok) (simp add: ex_font_def)

lemma empty_lane_rehash: "rehash_ok (empty_lane n k)"
  by (simp add: empty_lane_def rehash_ok_def)

theorem lane_panels_stay_apart_witness:
  "\<exists>fb'. draw_lane ex_fonts LANE_B (empty_lane 10 0 :: unit lane) (empty_lane 10 0) (PROG ! 6) blank_screen = Some fb' \<and> frame_ok fb' \<and>
    (\<forall>qx<LCD_W. \<forall>qy. qy < LCD_H \<longrightarrow> pixel fb' qx qy \<noteq> pixel blank_screen qx qy \<longrightarrow> 406 \<le> int qx \<and> int qx < 406 + 388)"
  using lane_panels_stay_apart [OF ex_fonts_ok empty_lane_rehash blank_screen_ok, of LANE_B 10 0 "empty_lane 10 0 :: unit lane" "PROG ! 6"]
  by (simp add: LANE_X_def LANE_W_def)

section \<open>Steps\<close>

text \<open>What a drawing that returns keeps, and what a pass keeps besides.\<close>

lemma draws_frame: "draws f \<Longrightarrow> frame_ok fb \<Longrightarrow> f fb = Some fb' \<Longrightarrow> frame_ok fb'"
  using keeps_inD inside_box_ok by fastforce

lemma draw_head_frame: "fonts_ok F \<Longrightarrow> frame_ok fb \<Longrightarrow> draw_head F i l p fb = Some fb' \<Longrightarrow> frame_ok fb'"
proof (cases "mode_line l p 64")
  case None
  assume "draw_head F i l p fb = Some fb'"
  then show ?thesis using None by (auto simp: draw_head_def Let_def split: Option.bind_splits)
next
  case (Some b)
  assume F: "fonts_ok F" and fb: "frame_ok fb" and r: "draw_head F i l p fb = Some fb'"
  have "draws (\<lambda>fb. mode_line l p 64 \<bind> (\<lambda>b. put (mono16 F) (LANE_X i + 6) (HEAD_Y + 36) (fix_dots b) C_MUTED C_BG (LANE_W - 12) ALIGN_LEFT fb))"
    using F lane_x_pos [of i] by - (rule keeps_value [OF Some], rule draws_left, simp_all)
  then have "draws (draw_head F i l p)" unfolding draw_head_def Let_def using F lane_x_pos [of i] by (intro draws_intros) simp_all
  then show ?thesis using draws_frame fb r by blast
qed

lemma beat_loop_frame: "beat_loop i l now_ms t fb = Some r \<Longrightarrow> frame_ok fb \<longrightarrow> frame_ok (snd r)"
proof (erule beat_loop.raw_induct [rotated])
  fix loop i t r and l :: "'a lane" and now_ms fb
  assume ih: "\<And>i l now_ms t fb r. loop i l now_ms t fb = Some r \<Longrightarrow> frame_ok fb \<longrightarrow> frame_ok (snd r)"
    and r: "(if \<not> t + 1 < now_ms \<or> column_end t > now_ms - 1 then Some (t, fb)
     else do { (held, wrong, busy, val) \<leftarrow> column_marks l t (column_end t);
               let c = (if held then C_RED else if wrong then C_MAGENTA else if busy then C_CYAN else if val then accent l else C_BG);
               fb \<leftarrow> fill_rect fb (BAND_X i + uint (column_of t)) BAND_Y 1 BAND_H c;
               fb \<leftarrow> fill_rect fb (BAND_X i + uint ((column_of t + 1) mod BAND_W)) BAND_Y 1 BAND_H C_GRID;
               loop i l now_ms (column_end t) fb }) = Some r"
  show "frame_ok fb \<longrightarrow> frame_ok (snd r)"
  proof (cases "\<not> t + 1 < now_ms \<or> column_end t > now_ms - 1")
    case True
    then show ?thesis using r by auto
  next
    case False
    obtain h w b v where "column_marks l t (column_end t) = Some (h, w, b, v)" using r False by (auto split: Option.bind_splits)
    then obtain c fb1 fb2 where 1: "fill_rect fb (BAND_X i + uint (column_of t)) BAND_Y 1 BAND_H c = Some fb1"
        "fill_rect fb1 (BAND_X i + uint ((column_of t + 1) mod BAND_W)) BAND_Y 1 BAND_H C_GRID = Some fb2" "loop i l now_ms (column_end t) fb2 = Some r"
      using r False by (auto simp: Let_def split: Option.bind_splits)
    show ?thesis using ih [OF 1(3)] draws_frame [OF draws_fill _ 1(1)] draws_frame [OF draws_fill _ 1(2)] by blast
  qed
qed

lemma beat_columns_frame: "draw_beat_columns i l now_ms bn fb = Some (t, fb') \<Longrightarrow> frame_ok fb \<Longrightarrow> frame_ok fb'"
  unfolding draw_beat_columns_def using beat_loop_frame by fastforce

definition same_program :: "'s demo \<Rightarrow> 's demo \<Rightarrow> bool" where
  "same_program d d' \<longleftrightarrow> dm_step d' = dm_step d \<and> dm_ledger d' = dm_ledger d \<and> dm_btn_was d' = dm_btn_was d \<and> dm_step_start d' = dm_step_start d \<and> (frame_ok (dm_fb d) \<longrightarrow> frame_ok (dm_fb d'))"

lemma same_program_trans: "same_program a b \<Longrightarrow> same_program b c \<Longrightarrow> same_program a c"
  by (simp add: same_program_def)

lemma panel_frames:
  "draw_nums F i l fb = Some fb' \<Longrightarrow> frame_ok fb \<Longrightarrow> fonts_ok F \<Longrightarrow> frame_ok fb'"
  "draw_sweep F i l p fb = Some fb' \<Longrightarrow> frame_ok fb \<Longrightarrow> fonts_ok F \<Longrightarrow> frame_ok fb'"
  "draw_score F i l other fb = Some fb' \<Longrightarrow> frame_ok fb \<Longrightarrow> fonts_ok F \<Longrightarrow> frame_ok fb'"
  "draw_beat_frame F i l p fb = Some fb' \<Longrightarrow> frame_ok fb \<Longrightarrow> fonts_ok F \<Longrightarrow> frame_ok fb'"
  "draw_strip F n since records fb = Some fb' \<Longrightarrow> frame_ok fb \<Longrightarrow> fonts_ok F \<Longrightarrow> n < N_STEPS \<Longrightarrow> frame_ok fb'"
  "draw_head F i l p fb = Some fb' \<Longrightarrow> frame_ok fb \<Longrightarrow> fonts_ok F \<Longrightarrow> frame_ok fb'"
  by (rule draws_frame [OF draws_any [OF draw_nums_keeps]], assumption+)
    (rule draws_frame [OF draws_any [OF draw_sweep_keeps]], assumption+,
     rule draws_frame [OF draws_any [OF draw_score_keeps]], assumption+,
     rule draws_frame [OF draws_any [OF draw_beat_frame_keeps]], assumption+,
     rule draws_frame [OF draw_strip_draws], assumption+,
     rule draw_head_frame, assumption+)

lemma pass_lanes_same:
  "pass_ingest E p now d = Some d' \<Longrightarrow> same_program d d'" "pass_churn E now d = Some d' \<Longrightarrow> same_program d d'"
  "same_program d (pass_log now d)"
  by (auto simp: pass_ingest_def pass_churn_def pass_log_def same_program_def split: if_splits Option.bind_splits)

lemma pass_sweep_same: "fonts_ok (de_fonts E) \<Longrightarrow> pass_sweep E p now d = Some d' \<Longrightarrow> same_program d d'"
  by (auto simp: pass_sweep_def same_program_def Let_def split: if_splits Option.bind_splits) (metis panel_frames(2))+

lemma pass_beat_same: "pass_beat now d = Some d' \<Longrightarrow> same_program d d'"
  by (auto simp: pass_beat_def same_program_def split: Option.bind_splits) (metis beat_columns_frame)

lemma pass_stats_same: "fonts_ok (de_fonts E) \<Longrightarrow> pass_stats E p inp d = Some d' \<Longrightarrow> same_program d d'"
  by (auto simp: pass_stats_def same_program_def split: if_splits Option.bind_splits) (metis panel_frames(1,3,6))+

lemma pass_second_same: "fonts_ok (de_fonts E) \<Longrightarrow> dm_step d < N_STEPS \<Longrightarrow> pass_second E p now since d = Some d' \<Longrightarrow> same_program d d'"
  by (auto simp: pass_second_def same_program_def Let_def split: if_splits Option.bind_splits) (metis panel_frames(4,5))+

lemma pass_work_same:
  assumes "fonts_ok (de_fonts E)" "dm_step d < N_STEPS" "pass_work E p inp d = Some d'"
  shows "same_program d d'"
proof -
  obtain d1 d2 d3 d4 d5 d6 where
    "pass_ingest E p (in_now inp) d = Some d1" "pass_churn E (in_now inp) d1 = Some d2" "pass_sweep E p (in_now inp) d2 = Some d3"
    "pass_beat (in_now inp) d3 = Some d4" and 5: "pass_stats E p inp d4 = Some d5"
    and 6: "pass_second E p (in_now inp) (in_now inp - dm_step_start d) d5 = Some d6" and 7: "d' = pass_log (in_now inp) d6"
    using assms(3) by (auto simp: pass_work_def Let_def split: Option.bind_splits)
  then have s5: "same_program d d5"
    using pass_lanes_same(1,2) pass_sweep_same [OF assms(1)] pass_beat_same pass_stats_same [OF assms(1) 5] same_program_trans by meson
  then have "same_program d5 d6" using pass_second_same [OF assms(1) _ 6] assms(2) by (simp add: same_program_def)
  then show ?thesis using same_program_trans [OF s5] same_program_trans pass_lanes_same(3) 7 by blast
qed

lemma step_reset_rehash: "rehash_ok ((lane_step_reset l)\<lparr>ln_expected_cnt := x\<rparr>)"
  by (simp add: rehash_ok_def lane_step_reset_def)

lemma begin_screen_draws:
  assumes "fonts_ok F" "n < N_STEPS" "length ledger = N_STEPS" "rehash_ok a" "rehash_ok b"
  shows "draws (\<lambda>fb. do { fb \<leftarrow> fill_rect fb 0 0 (int LCD_W) (int LCD_H) C_BG;
    fb \<leftarrow> draw_strip F n 0 r fb;
    fb \<leftarrow> (if n = STEP_SUMMARY then draw_summary F ledger a b fb
      else do { fb \<leftarrow> draw_lane F LANE_A a b p fb; draw_lane F LANE_B b a p fb });
    draw_foot F p fb })"
  by (intro keeps_bind keeps_if draws_fill draw_strip_draws draw_summary_draws draw_foot_draws draws_any [OF draw_lane_keeps] assms)

lemma begin_step_ok:
  assumes "fonts_ok (de_fonts E)" "dm_step d < N_STEPS" "length (dm_ledger d) = N_STEPS" "frame_ok (dm_fb d)"
  shows "begin_step E inp d = Some d' \<Longrightarrow> same_program d d'"
    and "\<not> st_growth (PROG ! dm_step d) \<Longrightarrow> \<exists>d'. begin_step E inp d = Some d'"
proof -
  define p where "p = PROG ! dm_step d"
  have p: "rd PROG (dm_step d) = Some p" using assms(2) by (simp add: N_STEPS_def p_def)
  define scr where "scr = (\<lambda>a b :: 'a lane. do { fb \<leftarrow> fill_rect (dm_fb d) 0 0 (int LCD_W) (int LCD_H) C_BG;
      fb \<leftarrow> draw_strip (de_fonts E) (dm_step d) 0 (ln_count a) fb;
      fb \<leftarrow> (if dm_step d = STEP_SUMMARY then draw_summary (de_fonts E) (dm_ledger d) a b fb
        else do { fb \<leftarrow> draw_lane (de_fonts E) LANE_A a b p fb; draw_lane (de_fonts E) LANE_B b a p fb });
      draw_foot (de_fonts E) p fb })"
  have screen: "\<exists>fb'. scr a b = Some fb' \<and> frame_ok fb'" if "rehash_ok a" "rehash_ok b" for a b
    unfolding scr_def using keeps_inD [OF begin_screen_draws [OF assms(1,2,3) that] assms(4)] inside_box_ok by blast
  define fin where "fin = (\<lambda>(a, b).
      let a = (lane_step_reset a)\<lparr>ln_expected_cnt := in_tim2_a inp + (TICKS_PER_MS - 1 - in_tim6 inp + 1)\<rparr>;
          b = (lane_step_reset b)\<lparr>ln_expected_cnt := in_tim2_b inp + (TICKS_PER_MS - 1 - in_tim7 inp + 1)\<rparr>
      in do { fb \<leftarrow> scr a b; Some (d\<lparr>dm_a := a, dm_b := b, dm_next_a := 0, dm_next_b := 0, dm_fb := fb\<rparr>) })"
  have fin: "\<exists>d'. fin ab = Some d' \<and> same_program d d'" for ab
  proof (cases ab)
    case (Pair a b)
    obtain fb' where "scr ((lane_step_reset a)\<lparr>ln_expected_cnt := in_tim2_a inp + (TICKS_PER_MS - 1 - in_tim6 inp + 1)\<rparr>)
        ((lane_step_reset b)\<lparr>ln_expected_cnt := in_tim2_b inp + (TICKS_PER_MS - 1 - in_tim7 inp + 1)\<rparr>) = Some fb'" "frame_ok fb'"
      using screen [OF step_reset_rehash step_reset_rehash] by blast
    then show ?thesis by (simp add: Pair fin_def Let_def same_program_def)
  qed
  let ?ab = "(dm_a d\<lparr>ln_growable := st_growth p\<rparr>, dm_b d\<lparr>ln_mode := st_mode p, ln_growable := st_growth p\<rparr>)"
  have b: "begin_step E inp d = (if st_growth p then rebuild E (in_now inp) ?ab else Some ?ab) \<bind> fin"
    unfolding begin_step_def p Option.bind.simps fin_def scr_def Let_def by (simp add: Option.bind_assoc case_prod_beta')
  show "begin_step E inp d = Some d' \<Longrightarrow> same_program d d'"
  proof -
    assume "begin_step E inp d = Some d'"
    then obtain ab where "fin ab = Some d'" unfolding b by (auto split: Option.bind_splits)
    then show ?thesis using fin [of ab] by auto
  qed
  show "\<not> st_growth (PROG ! dm_step d) \<Longrightarrow> \<exists>d'. begin_step E inp d = Some d'" unfolding b using fin by (auto simp: p_def)
qed

section \<open>Runs\<close>

text \<open>The states of the demo: a start on filled lanes, then passes of the main loop and ticks of both timers in any order.\<close>

inductive demo_reach :: "'s demo_env \<Rightarrow> 's demo \<Rightarrow> bool" for E :: "'s demo_env" where
  started: "frame_ok fb \<Longrightarrow> demo_start E inp a b fb = Some d \<Longrightarrow> demo_reach E d"
| passed: "demo_reach E d \<Longrightarrow> main_pass E inp d = Some d' \<Longrightarrow> demo_reach E d'"
| ticked_a: "demo_reach E d \<Longrightarrow> TIM6_DAC_IRQHandler E tim2_now now_ms d = Some d' \<Longrightarrow> demo_reach E d'"
| ticked_b: "demo_reach E d \<Longrightarrow> TIM7_IRQHandler E tim2_now now_ms d = Some d' \<Longrightarrow> demo_reach E d'"

definition demo_inv :: "'s demo \<Rightarrow> bool" where
  "demo_inv d \<longleftrightarrow> frame_ok (dm_fb d) \<and> dm_step d \<le> STEP_SUMMARY \<and> length (dm_ledger d) = N_STEPS \<and>
    (\<forall>s<N_STEPS. filled (dm_ledger d ! s) \<longleftrightarrow> 1 \<le> s \<and> s < dm_step d)"

lemma steps: "N_STEPS = 9" "STEP_SUMMARY = 8"
  by (simp_all add: N_STEPS_def STEP_SUMMARY_def PROG_def)

lemma same_program_inv: "same_program d d' \<Longrightarrow> demo_inv d \<Longrightarrow> demo_inv d'"
  by (simp add: same_program_def demo_inv_def)

text \<open>The step that ends gets its row.\<close>

lemma end_step_inv:
  assumes "demo_inv d" "dm_step d < STEP_SUMMARY"
  shows "\<exists>d1. end_step d = Some d1 \<and> demo_inv (d1\<lparr>dm_step := dm_step d1 + 1, dm_step_start := now\<rparr>) \<and> dm_step d1 = dm_step d \<and>
    (1 \<le> dm_step d \<longrightarrow> dm_ledger d1 = (dm_ledger d)[dm_step d := lane_ledger (dm_a d) (dm_b d)])"
proof (cases "dm_step d = 0")
  case True
  then show ?thesis using assms by (auto simp: end_step_def demo_inv_def steps)
next
  case False
  have l: "dm_step d < length (dm_ledger d)" "filled (lane_ledger (dm_a d) (dm_b d))" using assms by (simp_all add: demo_inv_def steps lane_ledger_def)
  have "end_step d = Some (d\<lparr>dm_ledger := (dm_ledger d)[dm_step d := lane_ledger (dm_a d) (dm_b d)]\<rparr>)"
    using False assms(2) l(1) by (simp add: end_step_def)
  moreover have "filled ((dm_ledger d)[dm_step d := lane_ledger (dm_a d) (dm_b d)] ! s) \<longleftrightarrow> 1 \<le> s \<and> s < dm_step d + 1" if "s < N_STEPS" for s
    using assms(1) that False l by (cases "s = dm_step d") (auto simp: demo_inv_def)
  ultimately show ?thesis using assms by (simp add: demo_inv_def)
qed

lemma main_pass_inv:
  assumes "fonts_ok (de_fonts E)" "demo_inv d" "main_pass E inp d = Some d'"
  shows "demo_inv d' \<and> dm_step d' = (if dm_step d < STEP_SUMMARY \<and> advances (PROG ! dm_step d) inp d then dm_step d + 1 else dm_step d) \<and>
    (dm_step d' = dm_step d + 1 \<and> 1 \<le> dm_step d \<longrightarrow> dm_ledger d' = (dm_ledger d)[dm_step d := lane_ledger (dm_a d) (dm_b d)])"
proof -
  let ?d = "d\<lparr>dm_btn_was := in_btn inp\<rparr>"
  have n: "dm_step d < N_STEPS" using assms(2) by (simp add: demo_inv_def steps)
  then have p: "rd PROG (dm_step d) = Some (PROG ! dm_step d)" by (simp add: N_STEPS_def)
  have inv: "demo_inv ?d" using assms(2) by (simp add: demo_inv_def)
  consider (adv) "dm_step d < STEP_SUMMARY" "advances (PROG ! dm_step d) inp d" | (summary) "dm_step d = STEP_SUMMARY"
    | (work) "dm_step d < STEP_SUMMARY" "\<not> advances (PROG ! dm_step d) inp d"
    using assms(2) unfolding demo_inv_def by linarith
  then show ?thesis
  proof cases
    case adv
    then obtain d1 where d1: "end_step ?d = Some d1" "demo_inv (d1\<lparr>dm_step := dm_step d1 + 1, dm_step_start := in_now inp\<rparr>)" "dm_step d1 = dm_step d"
        "1 \<le> dm_step d \<longrightarrow> dm_ledger d1 = (dm_ledger d)[dm_step d := lane_ledger (dm_a d) (dm_b d)]"
      using end_step_inv [OF inv, of "in_now inp"] by auto
    have b: "begin_step E inp (d1\<lparr>dm_step := dm_step d1 + 1, dm_step_start := in_now inp\<rparr>) = Some d'"
      using assms(3) adv p d1(1,3) by (simp add: main_pass_def Let_def)
    have "same_program (d1\<lparr>dm_step := dm_step d1 + 1, dm_step_start := in_now inp\<rparr>) d'"
      by (rule begin_step_ok(1) [OF assms(1) _ _ _ b]) (use d1(2) in \<open>simp_all add: demo_inv_def steps\<close>)
    then show ?thesis using same_program_inv [OF _ d1(2)] d1(3,4) adv by (simp add: same_program_def)
  next
    case summary
    then show ?thesis using assms(3) p inv by (auto simp: main_pass_def Let_def)
  next
    case work
    then have "pass_work E (PROG ! dm_step d) inp ?d = Some d'" using assms(3) p by (simp add: main_pass_def Let_def)
    then have s: "same_program ?d d'" using pass_work_same [OF assms(1)] n by simp
    show ?thesis using same_program_inv [OF s inv] s work by (simp add: same_program_def)
  qed
qed

lemma demo_reach_inv:
  assumes "fonts_ok (de_fonts E)"
  shows "demo_reach E d \<Longrightarrow> demo_inv d"
proof (induction rule: demo_reach.induct)
  case (started fb inp a b d)
  then have "same_program \<lparr>dm_step = 0, dm_step_start = in_now inp, dm_last_sweep = in_now inp, dm_last_stats = in_now inp,
      dm_last_log = in_now inp + 500, dm_last_second = in_now inp, dm_btn_was = False,
      dm_a = a\<lparr>ln_last_churn_ms := in_now inp\<rparr>, dm_b = b\<lparr>ln_last_churn_ms := in_now inp\<rparr>,
      dm_ledger = replicate N_STEPS empty_ledger, dm_next_a = 0, dm_next_b = 0, dm_fb = fb\<rparr> d"
    unfolding demo_start_def by (intro begin_step_ok(1) [OF assms]) (simp_all add: steps)
  then show ?case by (rule same_program_inv) (simp add: demo_inv_def started empty_ledger_def)
next
  case (passed d inp d')
  then show ?case using main_pass_inv [OF assms] by blast
next
  case (ticked_a d tim2_now now_ms d')
  then show ?case by (auto simp: TIM6_DAC_IRQHandler_def demo_inv_def split: Option.bind_splits)
next
  case (ticked_b d tim2_now now_ms d')
  then show ?case by (auto simp: TIM7_IRQHandler_def demo_inv_def split: Option.bind_splits)
qed

text \<open>C22. The program of the demo runs in order: whatever the clock, the button, the timers and both lanes do, the ledger
  has a row exactly for the steps after the prologue that have ended; a pass moves to the next step exactly when the button is
  pressed or the time of the step is over, and then notes the counters of both lanes; a step that does not rebuild the lanes, the
  summary included, always begins; and the summary stays.\<close>

theorem demo_program_in_order:
  assumes "fonts_ok (de_fonts E)" "demo_reach E d"
  shows "dm_step d \<le> STEP_SUMMARY \<and> (\<forall>s<N_STEPS. filled (dm_ledger d ! s) = (1 \<le> s \<and> s < dm_step d)) \<and>
    (\<forall>d'. main_pass E inp d = Some d' \<longrightarrow>
      dm_step d' = (if dm_step d < STEP_SUMMARY \<and> advances (PROG ! dm_step d) inp d then dm_step d + 1 else dm_step d) \<and>
      (dm_step d' = dm_step d + 1 \<and> 1 \<le> dm_step d \<longrightarrow> dm_ledger d' = (dm_ledger d)[dm_step d := lane_ledger (dm_a d) (dm_b d)])) \<and>
    (dm_step d < STEP_SUMMARY \<and> advances (PROG ! dm_step d) inp d \<and> \<not> st_growth (PROG ! (dm_step d + 1)) \<longrightarrow> (\<exists>d'. main_pass E inp d = Some d')) \<and>
    (dm_step d = STEP_SUMMARY \<longrightarrow> main_pass E inp d = Some (d\<lparr>dm_btn_was := in_btn inp\<rparr>))"
proof -
  note inv = demo_reach_inv [OF assms]
  have p: "rd PROG (dm_step d) = Some (PROG ! dm_step d)" using inv by (simp add: demo_inv_def steps flip: N_STEPS_def)
  have "\<exists>d'. main_pass E inp d = Some d'" if a: "dm_step d < STEP_SUMMARY" "advances (PROG ! dm_step d) inp d" "\<not> st_growth (PROG ! (dm_step d + 1))"
  proof -
    have "demo_inv (d\<lparr>dm_btn_was := in_btn inp\<rparr>)" using inv by (simp add: demo_inv_def)
    then obtain d1 where d1: "end_step (d\<lparr>dm_btn_was := in_btn inp\<rparr>) = Some d1"
        "demo_inv (d1\<lparr>dm_step := dm_step d1 + 1, dm_step_start := in_now inp\<rparr>)" "dm_step d1 = dm_step d"
      using end_step_inv [of "d\<lparr>dm_btn_was := in_btn inp\<rparr>" "in_now inp"] a(1) by auto
    have "\<exists>d'. begin_step E inp (d1\<lparr>dm_step := dm_step d1 + 1, dm_step_start := in_now inp\<rparr>) = Some d'"
      by (rule begin_step_ok(2) [OF assms(1)]) (use d1(2,3) a in \<open>simp_all add: demo_inv_def steps\<close>)
    then show ?thesis using a p d1(1,3) by (simp add: main_pass_def Let_def)
  qed
  moreover have "main_pass E inp d = Some (d\<lparr>dm_btn_was := in_btn inp\<rparr>)" if "dm_step d = STEP_SUMMARY"
    using that p by (simp add: main_pass_def Let_def)
  moreover have "dm_step d \<le> STEP_SUMMARY" "\<forall>s<N_STEPS. filled (dm_ledger d ! s) = (1 \<le> s \<and> s < dm_step d)" using inv by (simp_all add: demo_inv_def)
  ultimately show ?thesis using main_pass_inv [OF assms(1) inv] by blast
qed

definition ex_demo_env :: "(u32 \<rightharpoonup> u32) demo_env" where
  "ex_demo_env = \<lparr>de_fonts = ex_fonts, de_a = ex_env, de_b = ex_env\<rparr>"

definition ex_in :: demo_in where
  "ex_in = \<lparr>in_now = 1000, in_btn = True, in_tim2_a = 0, in_tim6 = 0, in_tim2_b = 0, in_tim7 = 0, in_stats = None, in_time_mem = 0\<rparr>"

lemma ex_demo_started:
  "\<exists>d. demo_start ex_demo_env ex_in (empty_lane 10 0) (empty_lane 10 0) blank_screen = Some d \<and> demo_reach ex_demo_env d \<and> dm_step d = 0 \<and> \<not> dm_btn_was d"
proof -
  let ?d = "\<lparr>dm_step = 0, dm_step_start = in_now ex_in, dm_last_sweep = in_now ex_in, dm_last_stats = in_now ex_in,
      dm_last_log = in_now ex_in + 500, dm_last_second = in_now ex_in, dm_btn_was = False,
      dm_a = (empty_lane 10 0)\<lparr>ln_last_churn_ms := in_now ex_in\<rparr>, dm_b = (empty_lane 10 0)\<lparr>ln_last_churn_ms := in_now ex_in\<rparr>,
      dm_ledger = replicate N_STEPS empty_ledger, dm_next_a = 0, dm_next_b = 0, dm_fb = blank_screen\<rparr>"
  have F: "fonts_ok (de_fonts ex_demo_env)" by (simp add: ex_demo_env_def ex_fonts_ok)
  have s: "dm_step ?d < N_STEPS" "length (dm_ledger ?d) = N_STEPS" "frame_ok (dm_fb ?d)" "\<not> st_growth (PROG ! dm_step ?d)"
    by (simp_all add: steps blank_screen_ok PROG_def)
  obtain d where d: "begin_step ex_demo_env ex_in ?d = Some d" using begin_step_ok(2) [OF F s] by blast
  then have r: "demo_start ex_demo_env ex_in (empty_lane 10 0) (empty_lane 10 0) blank_screen = Some d" by (simp add: demo_start_def)
  have "same_program ?d d" by (rule begin_step_ok(1) [OF F s(1-3) d])
  then show ?thesis using r demo_reach.started [OF blank_screen_ok r] by (simp add: same_program_def)
qed

theorem demo_program_in_order_witness:
  "\<exists>d d'. demo_start ex_demo_env ex_in (empty_lane 10 0) (empty_lane 10 0) blank_screen = Some d \<and> main_pass ex_demo_env ex_in d = Some d' \<and> dm_step d' = 1"
proof -
  obtain d where d: "demo_start ex_demo_env ex_in (empty_lane 10 0) (empty_lane 10 0) blank_screen = Some d" "demo_reach ex_demo_env d"
      "dm_step d = 0" "\<not> dm_btn_was d" using ex_demo_started by blast
  have F: "fonts_ok (de_fonts ex_demo_env)" by (simp add: ex_demo_env_def ex_fonts_ok)
  have a: "advances (PROG ! dm_step d) ex_in d" "dm_step d < STEP_SUMMARY" "\<not> st_growth (PROG ! (dm_step d + 1))"
    using d(3,4) by (simp_all add: advances_def ex_in_def steps PROG_def)
  then obtain d' where "main_pass ex_demo_env ex_in d = Some d'" using demo_program_in_order [OF F d(2), of ex_in] by blast
  moreover from this have "dm_step d' = 1" using demo_program_in_order [OF F d(2), of ex_in] a d(3) by simp
  ultimately show ?thesis using d(1) by blast
qed

end
