(* ===== verification/Spec2Isabelle.thy ===== *)
theory Spec2Isabelle
  imports Map_Trace Memtable Ble_Tracker_Correct Alts Twin_Telemetry Twin_Ble Rocks_Client Rocks_Handles Rocks_Seqlock Gfx Harness_Checks
    Harness_Arms Demo_Program
begin

text \<open>
  Expanse is an ordered map over machine words, written in Rust, with a C interface and C and C++ components on top of it.
  This development models the 32-bit map engine and the C and C++ code of the repository that holds logic of its own: the
  ESP-IDF components, the RocksDB memtable, the firmware harness with its alternative tables, and the two-lane LCD demo.

  \<^bold>\<open>How the parts interact.\<close> A map is a digital trie (\<^verbatim>\<open>crates/expanse/src/trie32.rs\<close>) in a container
  (\<^verbatim>\<open>map32.rs\<close>) behind C functions (\<^verbatim>\<open>crates/expanse-capi/src/modern.rs\<close>). The telemetry memtable
  keeps one such map under a lock; the BLE tracker keeps two of them (by address hash and by time) over a slab; the harness
  compares the map with three other tables behind one vtable; the lanes of the demo keep a time index in it. The RocksDB
  memtable keeps sorted leaf blocks in a chain with an index over key prefixes. The baselines of \<^verbatim>\<open>twin_containers.c\<close>
  repeat the ESP-IDF components with other containers.

  \<^bold>\<open>Conventions.\<close> Machine integers are words of their width and wrap as in the source; C sizes and loop counters that
  cannot wrap are natural numbers, and the sources where they can (\<^verbatim>\<open>sa_remove_range\<close>, the arena) write the wrap out.
  A structure is a record, an enumeration a datatype, a callback a function that returns its verdict and its new context.
  An array access outside its bounds is \<^term>\<open>None\<close> (theory \<open>C_Memory\<close>: \<open>rd\<close>, \<open>wr\<close>, \<open>for_loop\<close>), so every theorem that a
  call returns \<open>Some\<close> also says that it stays inside its arrays. Loops that may run forever are partial functions into
  \<open>option\<close>; there is no fuel anywhere, and termination is part of the theorems. Allocation succeeds where the source does not
  test it, and is an argument where it does. Locks are a flag that an operation takes and gives back.

  \<^bold>\<open>The map engine.\<close> \<open>Prelude\<close> has the word types, ascending association lists, the locale \<open>binary_search\<close> and walks that a
  callback stops. \<open>Digits32\<close> cuts keys into digits. \<open>Bitmap_Array\<close> is the 256-bit bitmap over packed subarrays, \<open>Branch32\<close> the
  four forms of a branch, each an instance of the locale \<open>digit_table\<close>. \<open>Trie32\<close> holds lookup, insertion and removal with all
  changes of node form, \<open>Trie32_Correct\<close> their correctness over the ordered list of entries; \<open>Trie32_Range\<close> and
  \<open>Trie32_Remove_Range\<close> add ordered access, the walk over a range and the batched removal. The recursion is over the level, at most
  four, so it is primitive. \<open>Ordered_Map\<close> states the contract of the C functions as a locale, \<open>Expanse_Map\<close> models them and
  interprets it, \<open>Map_Trace\<close> shows that every sequence of calls refines a finite partial function.

  \<^bold>\<open>The ESP-IDF components.\<close> \<open>Memtable\<close> is \<^verbatim>\<open>expanse_memtable.c\<close>: every operation, aggregates that never wrap,
  a flush that removes what its callback accepted. \<open>Ble_Tracker\<close> is \<^verbatim>\<open>expanse_ble_tracker.c\<close>, \<open>Ble_Tracker_Correct\<close> its
  invariant over slab, free list, liveness bitmap and both indexes, its refinement of a set of devices, and the sighting before
  the epoch that breaks it. \<open>Linear_Probing\<close>, \<open>Twin_Hash\<close>, \<open>Twin_Telemetry\<close> and \<open>Twin_Ble\<close> are the baselines of
  \<^verbatim>\<open>twin_containers.c\<close> and their agreement with each other and with the memtable.

  \<^bold>\<open>The harness.\<close> \<open>Alt_Table\<close> has the vtable contracts as the locales \<open>alt_table\<close> and \<open>alt_ordered\<close> and the wrapper of the
  map; \<open>Sorted_Array\<close>, \<open>Open_Hash\<close> and \<open>Tsearch_Map\<close> are the three other tables of \<^verbatim>\<open>alts.c\<close>, each an interpretation;
  \<open>Alts\<close> shows that the four agree. \<open>Harness_Core\<close>, \<open>Harness_Fixtures\<close>, \<open>Harness_Keys\<close>, \<open>Harness_Checks\<close> and
  \<open>Harness_Arms\<close> are \<^verbatim>\<open>integrations/stm32h747/main.c\<close>: output, heap, profiling, reader interrupts, fixtures and writer arms. The
  fixtures are proved once for a table that keeps the contract (\<open>fixture_table\<close> and its extensions).

  \<^bold>\<open>The RocksDB memtable.\<close> \<open>Rocks_Key\<close> has slices, varints and the order of internal keys (locale \<open>key_order\<close>);
  \<open>Rocks_Memtable\<close>, \<open>Rocks_Iterator\<close>, \<open>Rocks_Arena\<close> and \<open>Rocks_Client\<close> the operations of
  \<^verbatim>\<open>expanse_memtable.cc\<close> and its header; \<open>Rocks_Memtable_Correct\<close>, \<open>Rocks_Lookup\<close>, \<open>Rocks_Iterator_Correct\<close>,
  \<open>Rocks_Trace\<close> and \<open>Rocks_Runs\<close> their correctness over the list of all entries and a cursor in it. \<open>Rocks_Handles\<close> is the
  registry of reader handles, \<open>Rocks_Seqlock\<close> one reader beside the writer at the grain of single loads and stores. Runs are bounded
  so that the 32-bit version of a block does not wrap.

  \<^bold>\<open>The demo.\<close> \<open>Gfx\<close> draws rectangles and text in the framebuffer. \<open>Lanes\<close> is \<^verbatim>\<open>lanes.c\<close>: both lanes with slab, tables,
  sweeps, masking and interrupt; \<open>Lanes_Correct\<close>, \<open>Lanes_Runs\<close>, \<open>Lanes_Sweep\<close>, \<open>Lanes_Reads\<close> and \<open>Lanes_Reach\<close> follow the lane
  over the concurrent map through its life; \<open>Lanes_Masking\<close> follows the interrupt mask of the other lane.
  \<open>Demo\<close> and \<open>Demo_Main\<close> are the demo's \<^verbatim>\<open>main.c\<close>: the program of steps, all drawing, and a pass of the main loop with
  the interrupts between passes. \<open>Demo_Draw\<close> keeps every drawing inside the framebuffer and the text buffers and the panels of
  a lane inside its column, \<open>Demo_Beat\<close> shows that the heartbeat strip has the worst mark of every column, and \<open>Demo_Program\<close>
  that the steps run in order. The strip is proved for ticks below \<open>2\<^sup>3\<^sup>2 - 10\<close>; the program ends after 146 seconds.

  \<^bold>\<open>Code outside the model.\<close> The concurrent map, the cycle counter, the fonts, fresh memory and the comparator are arguments
  of the definitions that use them; what is relied on is a named hypothesis (\<open>sync_contract\<close>, \<open>font_ok\<close>, \<open>key_order\<close>) and each has an
  instance that satisfies it.

  \<^bold>\<open>Not modelled.\<close> The 64-bit engine and the string containers, which the C components do not use; the lock-free
  containers, which need a memory model; the arena of the engine, whose handles are replaced by the nodes they name; set
  operations, predecessor queries, counting and bulk building of the map; memory accounting; registers, clocks and
  caches of the boards; printed text other than numbers and result lines; bindings and vendored drivers.
\<close>

end
